(* ===== verification/Zstd_Prelude.thy ===== *)
theory Zstd_Prelude
  imports Main "HOL-Library.Word"
begin

unbundle bit_operations_syntax

text \<open>
  The prelude of the development: the machine types of the Rust source, the codec's error
  enumeration (\<^verbatim>\<open>error.rs\<close>) with the result type that carries it, the checked and
  saturating arithmetic of \<^verbatim>\<open>usize\<close>, \<^verbatim>\<open>u32\<close> and \<^verbatim>\<open>u64\<close>, slices, and little-endian
  conversions. The second half holds the generic facts on lists, powers of two, bits and words
  the components share, most of them in the collections \<open>res_simps\<close> and \<open>pow2_simps\<close>.

  A byte is an \<open>8 word\<close>. Sizes, positions and counts that the code keeps in an unsigned
  integer are \<open>nat\<close>, with every wrap, saturation and truncating cast the code performs
  written out; a \<^verbatim>\<open>usize\<close> has 64 bits.
\<close>

named_theorems res_simps
named_theorems pow2_simps

section \<open>Machine types\<close>

type_synonym u8 = "8 word"
type_synonym u64 = "64 word"
type_synonym bytes = "u8 list"

definition USIZE_MAX :: nat where "USIZE_MAX = 2 ^ 64 - 1"
definition U64_MAX :: nat where "U64_MAX = 2 ^ 64 - 1"
definition U32_MAX :: nat where "U32_MAX = 2 ^ 32 - 1"

text \<open>\<^verbatim>\<open>x.checked_add(y)\<close>, \<^verbatim>\<open>checked_mul\<close>, \<^verbatim>\<open>saturating_add\<close> at a type whose greatest value is \<open>m\<close>.\<close>

definition checked_add :: "nat \<Rightarrow> nat \<Rightarrow> nat \<Rightarrow> nat option" where
  "checked_add m x y = (if x + y \<le> m then Some (x + y) else None)"

definition checked_mul :: "nat \<Rightarrow> nat \<Rightarrow> nat \<Rightarrow> nat option" where
  "checked_mul m x y = (if x * y \<le> m then Some (x * y) else None)"

definition sat_add :: "nat \<Rightarrow> nat \<Rightarrow> nat \<Rightarrow> nat" where
  "sat_add m x y = min m (x + y)"

definition sat_mul :: "nat \<Rightarrow> nat \<Rightarrow> nat \<Rightarrow> nat" where
  "sat_mul m x y = min m (x * y)"

section \<open>Errors and results\<close>

text \<open>\<^verbatim>\<open>enum Error\<close> of \<^verbatim>\<open>error.rs\<close>, constructor by constructor; the two dictionary
  errors carry the Dictionary_IDs.\<close>

datatype zerror =
    Unimplemented
  | InvalidLevel
  | UnexpectedEof
  | BadMagic
  | ReservedBitSet
  | UnusedBitSet
  | ReservedBlockType
  | BlockTooLarge
  | WindowTooLarge
  | ContentSizeMismatch
  | ContentSizeTooLarge
  | ChecksumMismatch
  | DictionaryNeeded nat
  | DictionaryMismatch nat nat
  | TrailingBytes
  | Corruption

fun error_kind :: "zerror \<Rightarrow> string" where
  "error_kind Unimplemented = ''unimplemented''"
| "error_kind InvalidLevel = ''invalid_level''"
| "error_kind UnexpectedEof = ''unexpected_eof''"
| "error_kind BadMagic = ''bad_magic''"
| "error_kind ReservedBitSet = ''reserved_bit''"
| "error_kind UnusedBitSet = ''unused_bit''"
| "error_kind ReservedBlockType = ''reserved_block_type''"
| "error_kind BlockTooLarge = ''block_too_large''"
| "error_kind WindowTooLarge = ''window_too_large''"
| "error_kind ContentSizeMismatch = ''content_size_mismatch''"
| "error_kind ContentSizeTooLarge = ''content_size_too_large''"
| "error_kind ChecksumMismatch = ''checksum_mismatch''"
| "error_kind (DictionaryNeeded _) = ''dictionary_needed''"
| "error_kind (DictionaryMismatch _ _) = ''dictionary_mismatch''"
| "error_kind TrailingBytes = ''trailing_bytes''"
| "error_kind Corruption = ''corruption''"

type_synonym 'a res = "zerror + 'a"

text \<open>The \<^verbatim>\<open>?\<close> operator: stop at the first error. \<open>ok_or\<close> is \<^verbatim>\<open>Option::ok_or\<close>.\<close>

definition rbind :: "'a res \<Rightarrow> ('a \<Rightarrow> 'b res) \<Rightarrow> 'b res" where
  "rbind m f = (case m of Inl e \<Rightarrow> Inl e | Inr x \<Rightarrow> f x)"

definition ok_or :: "'a option \<Rightarrow> zerror \<Rightarrow> 'a res" where
  "ok_or m e = (case m of None \<Rightarrow> Inl e | Some x \<Rightarrow> Inr x)"

definition guard_err :: "bool \<Rightarrow> zerror \<Rightarrow> unit res" where
  "guard_err bad e = (if bad then Inl e else Inr ())"

lemma rbind_simps [simp]:
  "rbind (Inl e) f = Inl e"
  "rbind (Inr x) f = f x"
  by (simp_all add: rbind_def)

lemma rbind_Inr_iff [res_simps]: "rbind m f = Inr y \<longleftrightarrow> (\<exists>x. m = Inr x \<and> f x = Inr y)"
  by (cases m) (auto simp: rbind_def)

lemma rbind_Inl_iff: "rbind m f = Inl e \<longleftrightarrow> m = Inl e \<or> (\<exists>x. m = Inr x \<and> f x = Inl e)"
  by (cases m) (auto simp: rbind_def)

lemma ok_or_simps [simp]:
  "ok_or None e = Inl e"
  "ok_or (Some x) e = Inr x"
  by (simp_all add: ok_or_def)

lemma ok_or_Inr_iff [res_simps]: "ok_or m e = Inr x \<longleftrightarrow> m = Some x"
  by (cases m) auto

lemma guard_err_simps [simp]:
  "guard_err True e = Inl e"
  "guard_err False e = Inr u"
  by (simp_all add: guard_err_def)

lemma guard_err_Inr_iff [res_simps]: "guard_err b e = Inr u \<longleftrightarrow> \<not> b"
  by (simp add: guard_err_def)

section \<open>Slices and little-endian words\<close>

text \<open>\<^verbatim>\<open>xs.get(a..b)\<close>: \<^verbatim>\<open>None\<close> unless \<open>a \<le> b \<le> xs.len()\<close>. \<^verbatim>\<open>xs.get(a..)\<close> likewise.\<close>

definition slice_get :: "'a list \<Rightarrow> nat \<Rightarrow> nat \<Rightarrow> 'a list option" where
  "slice_get xs a b = (if a \<le> b \<and> b \<le> length xs then Some (take (b - a) (drop a xs)) else None)"

definition slice_from :: "'a list \<Rightarrow> nat \<Rightarrow> 'a list option" where
  "slice_from xs a = (if a \<le> length xs then Some (drop a xs) else None)"

definition get_at :: "'a list \<Rightarrow> nat \<Rightarrow> 'a option" where
  "get_at xs i = (if i < length xs then Some (xs ! i) else None)"

text \<open>\<^verbatim>\<open>uN::from_le_bytes\<close> and \<^verbatim>\<open>to_le_bytes\<close>: least significant byte first. \<open>le_nat\<close> of
  a list of any length also serves as the numeric value of a whole bit stream.\<close>

fun le_nat :: "bytes \<Rightarrow> nat" where
  "le_nat [] = 0"
| "le_nat (b # bs) = unat b + 256 * le_nat bs"

fun le_bytes :: "nat \<Rightarrow> nat \<Rightarrow> bytes" where
  "le_bytes 0 v = []"
| "le_bytes (Suc n) v = word_of_nat v # le_bytes n (v div 256)"

text \<open>Unchecked accesses (\<^verbatim>\<open>get_unchecked\<close>, \<^verbatim>\<open>get_unchecked_mut\<close>) and indexing that would panic:
  out of range they have no value.\<close>

definition get_unchecked :: "'a list \<Rightarrow> nat \<Rightarrow> 'a option" where
  "get_unchecked xs i = (if i < length xs then Some (xs ! i) else None)"

definition put_unchecked :: "'a list \<Rightarrow> nat \<Rightarrow> 'a \<Rightarrow> 'a list option" where
  "put_unchecked xs i x = (if i < length xs then Some (xs[i := x]) else None)"

text \<open>\<^verbatim>\<open>?\<close> in code with unchecked accesses.\<close>

definition then_do :: "'a res option \<Rightarrow> ('a \<Rightarrow> 'b res option) \<Rightarrow> 'b res option" where
  "then_do m f = (case m of None \<Rightarrow> None | Some (Inl e) \<Rightarrow> Some (Inl e) | Some (Inr x) \<Rightarrow> f x)"

lemma then_do_simps [simp]:
  "then_do None f = None" "then_do (Some (Inl e)) f = Some (Inl e)" "then_do (Some (Inr x)) f = f x"
  by (simp_all add: then_do_def)

lemma get_unchecked_in [simp]: "i < length xs \<Longrightarrow> get_unchecked xs i = Some (xs ! i)"
  by (simp add: get_unchecked_def)

lemma put_unchecked_in [simp]: "i < length xs \<Longrightarrow> put_unchecked xs i x = Some (xs[i := x])"
  by (simp add: put_unchecked_def)

lemma slice_get_Some [res_simps]:
  "slice_get xs a b = Some ys \<longleftrightarrow> a \<le> b \<and> b \<le> length xs \<and> ys = take (b - a) (drop a xs)"
  by (auto simp: slice_get_def)

lemma slice_from_Some [res_simps]: "slice_from xs a = Some ys \<longleftrightarrow> a \<le> length xs \<and> ys = drop a xs"
  by (auto simp: slice_from_def)

lemma get_at_Some [res_simps]: "get_at xs i = Some x \<longleftrightarrow> i < length xs \<and> x = xs ! i"
  by (auto simp: get_at_def)

lemma unat_u8_less [simp]: "unat (b :: u8) < 256"
  using unsigned_less [of b] by simp

lemma unat_u8_less_num [simp]: "256 \<le> n \<Longrightarrow> unat (b :: u8) < n"
  by (rule less_le_trans [OF unat_u8_less])

lemma le_nat_less: "le_nat bs < 256 ^ length bs"
proof (induction bs)
  case (Cons b bs)
  have "unat b + 256 * le_nat bs < 256 + 256 * le_nat bs" by simp
  also have "\<dots> \<le> 256 * 256 ^ length bs" using Cons.IH by simp
  finally show ?case by simp
qed simp

lemma pow_256: "(256 :: nat) ^ n = 2 ^ (8 * n)"
  by (simp add: power_mult)

lemma le_nat_less_pow2: "le_nat bs < 2 ^ (8 * length bs)"
  using le_nat_less [of bs] by (simp add: pow_256)

lemma length_le_bytes [simp]: "length (le_bytes n v) = n"
  by (induction n arbitrary: v) auto

lemma unat_word8_of_nat [simp]: "unat (word_of_nat v :: u8) = v mod 256"
  by (simp add: unsigned_of_nat take_bit_eq_mod)

lemma le_nat_le_bytes: "le_nat (le_bytes n v) = v mod 256 ^ n"
proof (induction n arbitrary: v)
  case (Suc n)
  have "v mod 256 + 256 * (v div 256 mod 256 ^ n) = v mod (256 * 256 ^ n)"
    by (rule mod_mult2_eq [symmetric, THEN trans [rotated]]) simp
  then show ?case by (simp add: Suc.IH)
qed simp

lemma le_nat_le_bytes_id [simp]: "v < 256 ^ n \<Longrightarrow> le_nat (le_bytes n v) = v"
  by (simp add: le_nat_le_bytes)

lemma word8_of_nat_add_256 [simp]: "(word_of_nat (unat b + 256 * n) :: u8) = b"
  by (rule word_unat_eq_iff [THEN iffD2]) (simp only: unat_word8_of_nat mod_mult_self2, simp)

lemma le_bytes_le_nat [simp]: "le_bytes (length bs) (le_nat bs) = bs"
proof (induction bs)
  case (Cons b bs)
  have "(unat b + 256 * le_nat bs) div 256 = le_nat bs" by simp
  then show ?case using Cons.IH by (simp del: of_nat_add of_nat_mult)
qed simp

lemma le_nat_append: "le_nat (xs @ ys) = le_nat xs + 256 ^ length xs * le_nat ys"
  by (induction xs) (auto simp: algebra_simps)

lemma le_nat_take: "le_nat (take n bs) = le_nat bs mod 256 ^ min n (length bs)"
proof -
  have "le_nat bs = le_nat (take n bs) + 256 ^ length (take n bs) * le_nat (drop n bs)"
    using le_nat_append [of "take n bs" "drop n bs"] by simp
  moreover have "le_nat (take n bs) < 256 ^ length (take n bs)" by (rule le_nat_less)
  ultimately show ?thesis by (simp add: min.commute)
qed

lemma le_nat_drop: "le_nat (drop n bs) = le_nat bs div 256 ^ n"
proof (cases "n \<le> length bs")
  case True
  have "le_nat bs = le_nat (take n bs) + 256 ^ length (take n bs) * le_nat (drop n bs)"
    using le_nat_append [of "take n bs" "drop n bs"] by simp
  moreover have "le_nat (take n bs) < 256 ^ length (take n bs)" by (rule le_nat_less)
  ultimately show ?thesis using True by simp
next
  case False
  have "le_nat bs < 256 ^ length bs" by (rule le_nat_less)
  also have "\<dots> \<le> 256 ^ n" using False by simp
  finally show ?thesis using False by simp
qed

lemma le_nat_replicate_0 [simp]: "le_nat (replicate n 0) = 0"
  by (induction n) auto

lemma take_Suc_drop: "i < length xs \<Longrightarrow> take (Suc 0) (drop i xs) = [xs ! i]"
  by (simp add: take_Suc hd_drop_conv_nth)

section \<open>Bit fields of a number\<close>

lemma or_push_bit_add: "a < 2 ^ n \<Longrightarrow> a OR push_bit n b = a + 2 ^ n * (b :: nat)"
proof -
  assume "a < 2 ^ n"
  then have a: "take_bit n a = a" by (simp add: take_bit_nat_eq_self)
  have "take_bit n a AND push_bit n b = 0"
    by (auto simp: bit_eq_iff bit_simps)
  then have "a + push_bit n b = a OR push_bit n b"
    by (simp only: a disjunctive_add_eq_or)
  then show ?thesis by (simp add: push_bit_eq_mult mult.commute)
qed

lemma nat_and_3 [simp]: "n AND 3 = n mod (4 :: nat)"
  using take_bit_eq_mask [of 2 n] by (simp add: mask_eq_exp_minus_1 take_bit_eq_mod)

lemma nat_and_7 [simp]: "n AND 7 = n mod (8 :: nat)"
  using take_bit_eq_mask [of 3 n] by (simp add: mask_eq_exp_minus_1 take_bit_eq_mod)

lemma nat_and_mask [simp]: "n AND (2 ^ k - 1) = n mod (2 :: nat) ^ k"
  using take_bit_eq_mask [of k n] by (simp add: mask_eq_exp_minus_1 take_bit_eq_mod)

lemma nat_and_mask_Suc [simp]: "n AND (2 ^ k - Suc 0) = n mod (2 :: nat) ^ k"
  using nat_and_mask [of n k] by simp

lemma unat_u64_less [simp]: "unat (w :: u64) < 2 ^ 64"
  using unsigned_less [of w] by simp

lemma unat_push_bit64: "unat (push_bit n (w :: u64)) = (unat w * 2 ^ n) mod 2 ^ 64"
  by (simp only: unsigned_push_bit_eq take_bit_eq_mod) (simp add: push_bit_eq_mult)

lemma unat_drop_bit64: "unat (drop_bit n (w :: u64)) = unat w div 2 ^ n"
  by (simp only: unat_drop_bit_eq) (simp add: drop_bit_eq_div)

lemma unat_of_nat64: "unat (word_of_nat n :: u64) = n mod 2 ^ 64"
  by (simp add: unsigned_of_nat take_bit_eq_mod)

lemma unat_and_mask64: "k < 64 \<Longrightarrow> unat (w AND (push_bit k 1 - 1) :: u64) = unat w mod 2 ^ k"
proof -
  assume "k < 64"
  have "w AND (push_bit k 1 - 1) = take_bit k w"
    by (simp add: take_bit_eq_mask mask_eq_exp_minus_1 push_bit_eq_mult)
  then show ?thesis by (simp only: unsigned_take_bit_eq) (simp add: take_bit_eq_mod)
qed

text \<open>OR-ing a field of \<open>n\<close> bits in above \<open>k\<close> bits already there is an addition.\<close>

lemma unat_or_push64:
  assumes "unat (c :: u64) < 2 ^ k" "unat (v :: u64) < 2 ^ n" "k + n \<le> 64"
  shows "unat (c OR push_bit k v) = unat c + 2 ^ k * unat v"
proof -
  have "unat v * 2 ^ k < 2 ^ n * 2 ^ k" using assms(2) by simp
  also have "\<dots> \<le> 2 ^ 64" using power_increasing [OF assms(3), of "2 :: nat"] by (simp add: power_add mult.commute)
  finally have "unat (push_bit k v) = push_bit k (unat v)"
    by (simp only: unat_push_bit64) (simp add: push_bit_eq_mult)
  then show ?thesis using or_push_bit_add [OF assms(1)] by (simp add: unsigned_or_eq)
qed

lemma div_pow2_mod_pow2: "(x div 2 ^ a) mod 2 ^ b = (x mod 2 ^ (a + b)) div (2 :: nat) ^ a"
  by (metis add.commute drop_bit_eq_div drop_bit_take_bit add_diff_cancel_right' take_bit_eq_mod)

lemma mod_pow2_add: "x mod 2 ^ a + 2 ^ a * (x div 2 ^ a mod 2 ^ b) = x mod (2 :: nat) ^ (a + b)"
  by (simp add: power_add mod_mult2_eq)

lemma mod_pow2_mod_pow2: "b \<le> a \<Longrightarrow> x mod 2 ^ a mod 2 ^ b = x mod (2 :: nat) ^ b"
  by (simp add: mod_mod_cancel le_imp_power_dvd)

lemma mult_pow2_div_pow2: "x * 2 ^ c div 2 ^ (k + c) = x div (2 :: nat) ^ k"
proof -
  have "x * 2 ^ c div 2 ^ (k + c) = x * 2 ^ c div (2 ^ c * 2 ^ k)" by (simp add: power_add mult.commute)
  also have "\<dots> = x * 2 ^ c div 2 ^ c div 2 ^ k" by (rule div_mult2_eq)
  finally show ?thesis by simp
qed

text \<open>The highest set bit: \<^verbatim>\<open>31 - x.leading_zeros()\<close> of a nonzero \<open>x\<close>.\<close>

fun highbit :: "nat \<Rightarrow> nat" where
  "highbit n = (if n < 2 then 0 else Suc (highbit (n div 2)))"

declare highbit.simps [simp del]

lemma highbit_1 [simp]: "highbit (Suc 0) = 0"
  by (simp add: highbit.simps)

lemma highbit_bounds: "0 < n \<Longrightarrow> 2 ^ highbit n \<le> n \<and> n < 2 * 2 ^ highbit n"
proof (induction n rule: highbit.induct)
  case (1 n)
  show ?case
  proof (cases "n < 2")
    case True
    then show ?thesis using 1 by (simp add: highbit.simps [of n])
  next
    case False
    then have "2 ^ highbit (n div 2) \<le> n div 2 \<and> n div 2 < 2 * 2 ^ highbit (n div 2)"
      using 1 by auto
    moreover have "highbit n = Suc (highbit (n div 2))" using False by (simp add: highbit.simps [of n])
    moreover have "2 * (n div 2) \<le> n" "n < 2 * (n div 2) + 2" by simp_all
    ultimately show ?thesis by (simp only: power_Suc) linarith
  qed
qed

lemma highbit_eqI: "2 ^ k \<le> n \<Longrightarrow> n < 2 * 2 ^ k \<Longrightarrow> highbit n = k"
proof -
  assume a: "2 ^ k \<le> n" "n < 2 * 2 ^ k"
  then have "0 < n" using less_le_trans [of 0 "2 ^ k" n] by simp
  note b = highbit_bounds [OF this]
  have "(2 :: nat) ^ k < 2 ^ Suc (highbit n)" "(2 :: nat) ^ highbit n < 2 ^ Suc k"
    using a b by auto
  then have "k < Suc (highbit n)" "highbit n < Suc k"
    using power_strict_increasing_iff [of "2 :: nat"] by (metis one_less_numeral_iff semiring_norm(76))+
  then show ?thesis by simp
qed

lemma highbit_less: "0 < n \<Longrightarrow> n < 2 ^ k \<Longrightarrow> highbit n < k"
  using highbit_bounds [of n] by (metis le_less_trans nat_power_less_imp_less zero_less_numeral)

lemma highbit_le_iff: "0 < n \<Longrightarrow> highbit n < k \<longleftrightarrow> n < 2 ^ k"
proof
  assume "0 < n" "highbit n < k"
  then have "2 * 2 ^ highbit n \<le> (2 :: nat) ^ k"
    using power_increasing [of "Suc (highbit n)" k "2 :: nat"] by simp
  then show "n < 2 ^ k" using highbit_bounds [OF \<open>0 < n\<close>] by linarith
qed (rule highbit_less)

lemma nat_and_mask_num [simp]:
  "n AND 31 = n mod (32 :: nat)" "n AND 63 = n mod (64 :: nat)" "n AND 15 = n mod (16 :: nat)"
  "n AND 255 = n mod (256 :: nat)" "n AND 0xFFFFFF = n mod (2 ^ 24 :: nat)"
  using nat_and_mask [of n 5] nat_and_mask [of n 6] nat_and_mask [of n 4] nat_and_mask [of n 8]
    nat_and_mask [of n 24]
  by simp_all

text \<open>Clearing the highest bit subtracts it.\<close>

lemma and_clear_top:
  assumes "2 ^ c \<le> v" "v < 2 * 2 ^ c" "c < 32"
  shows "v AND (2 ^ 32 - 1 - 2 ^ c) = v - (2 :: nat) ^ c"
proof -
  have m: "(2 :: nat) ^ 32 - 1 - 2 ^ c = mask c OR push_bit (Suc c) (mask (31 - c))"
  proof -
    have lt: "mask c < (2 :: nat) ^ Suc c" by (rule le_less_trans [of _ "2 ^ c"]) (simp_all add: mask_eq_exp_minus_1)
    have "(2 :: nat) ^ 32 = 2 ^ Suc c * 2 ^ (31 - c)"
      using assms(3) by (simp only: power_add [symmetric]) simp
    moreover have "2 ^ Suc c \<le> (2 :: nat) ^ Suc c * 2 ^ (31 - c)" by simp
    ultimately show ?thesis
      unfolding or_push_bit_add [OF lt] by (simp add: mask_eq_exp_minus_1 diff_mult_distrib2)
  qed
  have v: "take_bit (Suc c) v = v" using assms(2) by (simp add: take_bit_nat_eq_self)
  have "v AND (2 ^ 32 - 1 - 2 ^ c) = take_bit c v"
  proof (rule bit_eqI)
    fix i
    have "bit v i \<Longrightarrow> i < Suc c" using v by (metis bit_take_bit_iff)
    then show "bit (v AND (2 ^ 32 - 1 - 2 ^ c)) i = bit (take_bit c v) i"
      using assms(3) unfolding m by (auto simp: bit_simps simp del: push_bit_Suc)
  qed
  also have "\<dots> = v - 2 ^ c" using assms(1,2) by (simp add: take_bit_eq_mod mod_if)
  finally show ?thesis .
qed

section \<open>Runs that are defined and fail only with Corruption\<close>

text \<open>A run of code with unchecked operations is \<open>None\<close> when one of them has no value. \<open>safe_res P\<close>: it
  never is, an error is \<open>Corruption\<close>, and a result has property \<open>P\<close>.\<close>

definition safe_res :: "('a \<Rightarrow> bool) \<Rightarrow> 'a res option \<Rightarrow> bool" where
  "safe_res P m \<longleftrightarrow> (case m of None \<Rightarrow> False | Some (Inl e) \<Rightarrow> e = Corruption | Some (Inr x) \<Rightarrow> P x)"

lemma safe_res_simps [simp]:
  "\<not> safe_res P None" "safe_res P (Some (Inl e)) \<longleftrightarrow> e = Corruption" "safe_res P (Some (Inr x)) \<longleftrightarrow> P x"
  by (simp_all add: safe_res_def)

lemma safe_res_cases:
  assumes "safe_res P m"
  obtains "m = Some (Inl Corruption)" | x where "m = Some (Inr x)" "P x"
  using assms by (auto simp: safe_res_def split: option.splits sum.splits)

lemma safe_res_bind:
  assumes "safe_res P m" "\<And>x. P x \<Longrightarrow> safe_res Q (f x)"
  shows "safe_res Q (Option.bind m (\<lambda>r. case r of Inl e \<Rightarrow> Some (Inl e) | Inr x \<Rightarrow> f x))"
  using assms(1) by (rule safe_res_cases) (simp_all add: assms(2))

lemma safe_res_map:
  assumes "safe_res P m" "\<And>x. P x \<Longrightarrow> safe_res Q (Some (f x))"
  shows "safe_res Q (Option.bind m (\<lambda>r. Some (rbind r f)))"
  using assms(1) by (rule safe_res_cases) (simp_all add: assms(2))

lemma safe_res_then:
  assumes "safe_res P m" "\<And>x. P x \<Longrightarrow> safe_res Q (f x)"
  shows "safe_res Q (then_do m f)"
  using assms(1) by (rule safe_res_cases) (simp_all add: assms(2))

lemma safe_res_mono: "safe_res P m \<Longrightarrow> (\<And>x. P x \<Longrightarrow> Q x) \<Longrightarrow> safe_res Q m"
  by (auto simp: safe_res_def split: option.splits sum.splits)

end
