(* ===== verification/Byte_Reader.thy ===== *)
theory Byte_Reader
  imports Zstd_Prelude
begin

text \<open>
  The bounded little-endian reader of \<^verbatim>\<open>reader.rs\<close>: a slice and a position. Every method returns
  the value with the advanced reader, or \<open>UnexpectedEof\<close>. The interface \<open>le_field\<close> states what
  every fixed-width read promises over the unread bytes \<open>rd_rest\<close>, and is interpreted at each
  width the code reads.
\<close>

section \<open>The reader and its methods\<close>

record reader =
  rd_data :: bytes
  rd_pos :: nat

definition rd_new :: "bytes \<Rightarrow> reader" where
  "rd_new data = \<lparr> rd_data = data, rd_pos = 0 \<rparr>"

definition rd_remaining :: "reader \<Rightarrow> nat" where
  "rd_remaining r = length (rd_data r) - rd_pos r"

definition rd_is_empty :: "reader \<Rightarrow> bool" where
  "rd_is_empty r \<longleftrightarrow> rd_remaining r = 0"

text \<open>The slice \<open>pos .. pos.saturating_add(n)\<close> converted to an array of \<open>n\<close> bytes: the shared
  first half of \<open>peek_u32_le\<close> and of the fixed-width reads.\<close>

definition rd_array :: "nat \<Rightarrow> reader \<Rightarrow> bytes res" where
  "rd_array n r =
     rbind (ok_or (slice_get (rd_data r) (rd_pos r) (sat_add USIZE_MAX (rd_pos r) n)) UnexpectedEof)
       (\<lambda>s. if length s = n then Inr s else Inl UnexpectedEof)"

definition rd_peek_u32_le :: "reader \<Rightarrow> nat res" where
  "rd_peek_u32_le r = rbind (rd_array 4 r) (\<lambda>s. Inr (le_nat s))"

definition rd_u8 :: "reader \<Rightarrow> (u8 \<times> reader) res" where
  "rd_u8 r =
     rbind (ok_or (get_at (rd_data r) (rd_pos r)) UnexpectedEof)
       (\<lambda>b. Inr (b, r\<lparr> rd_pos := rd_pos r + 1 \<rparr>))"

definition rd_take :: "nat \<Rightarrow> reader \<Rightarrow> (bytes \<times> reader) res" where
  "rd_take n r =
     rbind (ok_or (checked_add USIZE_MAX (rd_pos r) n) UnexpectedEof) (\<lambda>e.
     rbind (ok_or (slice_get (rd_data r) (rd_pos r) e) UnexpectedEof) (\<lambda>s.
     Inr (s, r\<lparr> rd_pos := e \<rparr>)))"

definition rd_u16_le :: "reader \<Rightarrow> (nat \<times> reader) res" where
  "rd_u16_le r = rbind (rd_array 2 r) (\<lambda>s. Inr (le_nat s, r\<lparr> rd_pos := rd_pos r + 2 \<rparr>))"

definition rd_u32_le :: "reader \<Rightarrow> (nat \<times> reader) res" where
  "rd_u32_le r = rbind (rd_array 4 r) (\<lambda>s. Inr (le_nat s, r\<lparr> rd_pos := rd_pos r + 4 \<rparr>))"

definition rd_u64_le :: "reader \<Rightarrow> (nat \<times> reader) res" where
  "rd_u64_le r = rbind (rd_array 8 r) (\<lambda>s. Inr (le_nat s, r\<lparr> rd_pos := rd_pos r + 8 \<rparr>))"

definition rd_u24_le :: "reader \<Rightarrow> (nat \<times> reader) res" where
  "rd_u24_le r =
     rbind (rd_array 3 r) (\<lambda>s.
     Inr (le_nat [s ! 0, s ! 1, s ! 2, 0], r\<lparr> rd_pos := rd_pos r + 3 \<rparr>))"

section \<open>Invariant and abstraction\<close>

text \<open>A Rust slice never exceeds \<^verbatim>\<open>isize::MAX\<close> bytes, and the position stays inside it.\<close>

definition rd_wf :: "reader \<Rightarrow> bool" where
  "rd_wf r \<longleftrightarrow> rd_pos r \<le> length (rd_data r) \<and> length (rd_data r) < 2 ^ 63"

definition rd_rest :: "reader \<Rightarrow> bytes" where
  "rd_rest r = drop (rd_pos r) (rd_data r)"

lemma rd_new_simps [simp]:
  "rd_rest (rd_new bs) = bs"
  "length bs < 2 ^ 63 \<Longrightarrow> rd_wf (rd_new bs)"
  by (simp_all add: rd_new_def rd_rest_def rd_wf_def)

lemma rd_rest_length: "length (rd_rest r) = rd_remaining r"
  by (simp add: rd_rest_def rd_remaining_def)

lemma rd_is_empty_iff: "rd_is_empty r \<longleftrightarrow> rd_rest r = []"
  by (metis rd_is_empty_def rd_rest_length length_0_conv)

text \<open>Advancing by \<open>n\<close> bytes that are there.\<close>

definition rd_skip :: "nat \<Rightarrow> reader \<Rightarrow> reader" where
  "rd_skip n r = r\<lparr> rd_pos := rd_pos r + n \<rparr>"

lemma rd_skip_simps [simp]:
  "rd_data (rd_skip n r) = rd_data r"
  "rd_pos (rd_skip n r) = rd_pos r + n"
  by (simp_all add: rd_skip_def)

lemma rd_skip_rest: "rd_rest (rd_skip n r) = drop n (rd_rest r)"
  by (simp add: rd_rest_def add.commute)

lemma rd_skip_wf: "rd_wf r \<Longrightarrow> n \<le> length (rd_rest r) \<Longrightarrow> rd_wf (rd_skip n r)"
  by (auto simp: rd_wf_def rd_rest_def)

lemma rd_array_eq:
  assumes "rd_wf r" "n < 2 ^ 63"
  shows "rd_array n r = (if n \<le> length (rd_rest r) then Inr (take n (rd_rest r)) else Inl UnexpectedEof)"
proof -
  have "rd_pos r + n \<le> USIZE_MAX"
    using assms by (simp add: rd_wf_def USIZE_MAX_def)
  then show ?thesis
    using assms by (auto simp: rd_array_def sat_add_def slice_get_def rd_rest_def rd_wf_def)
qed

lemma rd_peek_eq:
  "rd_wf r \<Longrightarrow> rd_peek_u32_le r =
     (if 4 \<le> length (rd_rest r) then Inr (le_nat (take 4 (rd_rest r))) else Inl UnexpectedEof)"
  by (simp add: rd_peek_u32_le_def rd_array_eq)

lemma rd_take_eq:
  assumes "rd_wf r"
  shows "rd_take n r =
     (if n \<le> length (rd_rest r) then Inr (take n (rd_rest r), rd_skip n r) else Inl UnexpectedEof)"
  using assms
  by (auto simp: rd_take_def checked_add_def slice_get_def rd_rest_def rd_wf_def rd_skip_def USIZE_MAX_def)

section \<open>Advancing\<close>

text \<open>What a parser leaves: the reader \<open>k\<close> bytes further, for some \<open>k\<close> the slice has.\<close>

definition advanced :: "reader \<Rightarrow> nat \<Rightarrow> nat \<Rightarrow> reader \<Rightarrow> bool" where
  "advanced r lo hi r' \<longleftrightarrow> (\<exists>k. lo \<le> k \<and> k \<le> hi \<and> k \<le> length (rd_rest r) \<and> r' = rd_skip k r)"

lemma advanced_refl: "advanced r 0 hi r"
  by (auto simp: advanced_def rd_skip_def intro: exI [of _ 0])

lemma advanced_skip: "lo \<le> k \<Longrightarrow> k \<le> hi \<Longrightarrow> k \<le> length (rd_rest r) \<Longrightarrow> advanced r lo hi (rd_skip k r)"
  by (auto simp: advanced_def)

lemma advanced_mono: "advanced r a b r' \<Longrightarrow> a' \<le> a \<Longrightarrow> b \<le> b' \<Longrightarrow> advanced r a' b' r'"
  unfolding advanced_def by (elim exE, rule_tac x = k in exI) auto

lemma rd_skip_skip [simp]: "rd_skip m (rd_skip n r) = rd_skip (n + m) r"
  by (simp add: rd_skip_def add.assoc)

lemma rd_skip_0 [simp]: "rd_skip 0 r = r"
  by (simp add: rd_skip_def)

lemma advanced_wf: "rd_wf r \<Longrightarrow> advanced r lo hi r' \<Longrightarrow> rd_wf r'"
  by (auto simp: advanced_def rd_skip_wf)

lemma advanced_trans:
  assumes "advanced r a b r'" "advanced r' c d r''"
  shows "advanced r (a + c) (b + d) r''"
proof -
  obtain k l where k: "a \<le> k" "k \<le> b" "k \<le> length (rd_rest r)" "r' = rd_skip k r"
      and l: "c \<le> l" "l \<le> d" "l \<le> length (rd_rest r')" "r'' = rd_skip l r'"
    using assms by (auto simp: advanced_def)
  have "k + l \<le> length (rd_rest r)" using k(3,4) l(3) by (simp add: rd_skip_rest)
  moreover have "r'' = rd_skip (k + l) r" by (simp add: k(4) l(4) rd_skip_def add.assoc)
  ultimately show ?thesis
    using k l by (auto simp: advanced_def intro!: exI [of _ "k + l"])
qed

section \<open>Fixed-width fields\<close>

locale le_field =
  fixes rd :: "reader \<Rightarrow> ('v \<times> reader) res"
    and val :: "'v \<Rightarrow> nat"
    and n :: nat
  assumes rd_eq: "rd_wf r \<Longrightarrow>
    (n \<le> length (rd_rest r) \<longrightarrow> (\<exists>v. rd r = Inr (v, rd_skip n r) \<and> val v = le_nat (take n (rd_rest r))))
    \<and> (length (rd_rest r) < n \<longrightarrow> rd r = Inl UnexpectedEof)"
begin

lemma rd_ok:
  assumes "rd_wf r" "n \<le> length (rd_rest r)"
  obtains v where "rd r = Inr (v, rd_skip n r)" "val v = le_nat (take n (rd_rest r))"
  using rd_eq [OF assms(1)] assms(2) by blast

lemma rd_eof: "rd_wf r \<Longrightarrow> length (rd_rest r) < n \<Longrightarrow> rd r = Inl UnexpectedEof"
  using rd_eq by blast

lemma rd_InrD:
  assumes "rd_wf r" "rd r = Inr (v, r')"
  shows "n \<le> length (rd_rest r)" "r' = rd_skip n r" "val v = le_nat (take n (rd_rest r))"
    "val v < 256 ^ n" "rd_wf r'" "rd_rest r' = drop n (rd_rest r)"
proof -
  show 1: "n \<le> length (rd_rest r)"
    using rd_eof [OF assms(1)] assms(2) by fastforce
  show 2: "r' = rd_skip n r" and 3: "val v = le_nat (take n (rd_rest r))"
    using rd_ok [OF assms(1) 1] assms(2) by auto
  show "val v < 256 ^ n"
    using le_nat_less [of "take n (rd_rest r)"] 1 3 by simp
  show "rd_wf r'" using 1 2 assms(1) by (simp add: rd_skip_wf)
  show "rd_rest r' = drop n (rd_rest r)" by (simp add: 2 rd_skip_rest)
qed

lemma rd_advanced:
  "rd_wf r \<Longrightarrow> rd r = Inr (v, r') \<Longrightarrow> lo \<le> n \<Longrightarrow> n \<le> hi \<Longrightarrow> advanced r lo hi r'"
  by (metis advanced_skip rd_InrD(1,2))

lemma rd_bound: "rd_wf r \<Longrightarrow> rd r = Inr (v, r') \<Longrightarrow> val v < 256 ^ n"
  by (rule rd_InrD)

lemma rd_InlD: "rd_wf r \<Longrightarrow> rd r = Inl e \<Longrightarrow> e = UnexpectedEof \<and> length (rd_rest r) < n"
  by (metis Inl_inject Inr_not_Inl not_le rd_eof rd_ok)

lemma rd_written:
  assumes "rd_wf r" "rd_rest r = le_bytes n x @ bs" "x < 256 ^ n"
  shows "\<exists>v. rd r = Inr (v, rd_skip n r) \<and> val v = x"
    and "rd_rest (rd_skip n r) = bs" "rd_wf (rd_skip n r)"
proof -
  have 1: "n \<le> length (rd_rest r)" using assms by simp
  show "\<exists>v. rd r = Inr (v, rd_skip n r) \<and> val v = x"
    using rd_ok [OF assms(1) 1] assms by (metis append_eq_conv_conj le_nat_le_bytes_id length_le_bytes)
  show "rd_rest (rd_skip n r) = bs" using assms by (simp add: rd_skip_rest)
  show "rd_wf (rd_skip n r)" using 1 assms(1) by (simp add: rd_skip_wf)
qed

end

lemma le_nat_take_3: "3 \<le> length s \<Longrightarrow> le_nat [s ! 0, s ! Suc 0, s ! 2, 0] = le_nat (take 3 s)"
  by (cases s; cases "tl s"; cases "tl (tl s)") (auto simp: numeral_3_eq_3 numeral_2_eq_2)

interpretation f8: le_field rd_u8 unat 1
proof
  fix r :: reader
  assume "rd_wf r"
  then show "(1 \<le> length (rd_rest r) \<longrightarrow>
      (\<exists>v. rd_u8 r = Inr (v, rd_skip 1 r) \<and> unat v = le_nat (take 1 (rd_rest r)))) \<and>
    (length (rd_rest r) < 1 \<longrightarrow> rd_u8 r = Inl UnexpectedEof)"
    by (auto simp: rd_u8_def get_at_def rd_rest_def rd_skip_def rd_wf_def take_Suc_drop)
qed

interpretation f16: le_field rd_u16_le id 2
  by unfold_locales (auto simp: rd_u16_le_def rd_array_eq rd_skip_def)

interpretation f32: le_field rd_u32_le id 4
  by unfold_locales (auto simp: rd_u32_le_def rd_array_eq rd_skip_def)

interpretation f64: le_field rd_u64_le id 8
  by unfold_locales (auto simp: rd_u64_le_def rd_array_eq rd_skip_def)

interpretation f24: le_field rd_u24_le id 3
  by unfold_locales (auto simp: rd_u24_le_def rd_array_eq rd_skip_def le_nat_take_3 simp del: le_nat.simps)

lemmas rd_advanced = f8.rd_advanced f16.rd_advanced f24.rd_advanced f32.rd_advanced f64.rd_advanced

lemma rd_bounds:
  "rd_wf r \<Longrightarrow> rd_u16_le r = Inr (v, r') \<Longrightarrow> v < 65536"
  "rd_wf r \<Longrightarrow> rd_u24_le r = Inr (v, r') \<Longrightarrow> v < 16777216"
  "rd_wf r \<Longrightarrow> rd_u32_le r = Inr (v, r') \<Longrightarrow> v < 4294967296"
  "rd_wf r \<Longrightarrow> rd_u64_le r = Inr (v, r') \<Longrightarrow> v < 18446744073709551616"
  using f16.rd_bound [of r v r'] f24.rd_bound [of r v r'] f32.rd_bound [of r v r'] f64.rd_bound [of r v r']
  by simp_all

lemma rd_u8_Cons:
  assumes "rd_wf r" "rd_rest r = b # bs"
  shows "rd_u8 r = Inr (b, rd_skip 1 r)" "rd_rest (rd_skip 1 r) = bs" "rd_wf (rd_skip 1 r)"
proof -
  have "rd_pos r < length (rd_data r)" "rd_data r ! rd_pos r = b"
    using assms by (auto simp: rd_rest_def nth_via_drop)
      (metis drop_eq_Nil list.distinct(1) not_le)
  then show "rd_u8 r = Inr (b, rd_skip 1 r)"
    by (simp add: rd_u8_def get_at_def rd_skip_def)
  show "rd_rest (rd_skip 1 r) = bs" "rd_wf (rd_skip 1 r)"
    using assms by (simp_all add: rd_skip_rest rd_skip_wf)
qed

text \<open>Every method of the reader either leaves the position inside the slice or reports
  \<open>UnexpectedEof\<close>: no read is out of bounds, and \<open>take\<close> returns exactly the next \<open>n\<close> bytes.\<close>

theorem take_exact:
  "rd_wf r \<Longrightarrow> rd_take n r = (if n \<le> rd_remaining r
      then Inr (take n (rd_rest r), rd_skip n r) else Inl UnexpectedEof)
   \<and> (n \<le> rd_remaining r \<longrightarrow> rd_wf (rd_skip n r) \<and> rd_rest (rd_skip n r) = drop n (rd_rest r))"
  by (simp add: rd_take_eq rd_rest_length rd_skip_rest rd_skip_wf)

theorem take_exact_witness:
  "rd_take 2 (rd_new [1, 2, 3]) = Inr ([1, 2], \<lparr> rd_data = [1, 2, 3], rd_pos = 2 \<rparr>)"
  using take_exact [of "rd_new [1, 2, 3]" 2]
  by (simp add: rd_remaining_def rd_new_def rd_skip_def rd_rest_def rd_wf_def)

end
