(* ===== verification/Bit_Streams.thy ===== *)
theory Bit_Streams
  imports Byte_Reader
begin

text \<open>
  The bit engines of \<^verbatim>\<open>bit.rs\<close>: the backward reader \<open>BitRev\<close> (entropy streams are read from
  their last byte to their first), the forward writer \<open>BitCStream\<close> that produces them, and the
  forward reader \<open>BitFwd\<close> of table descriptions.

  Abstractly a backward stream is a stack of bits, a number below \<open>2 ^ n\<close> with its length \<open>n\<close>:
  the writer pushes fields on top, the reader pops the last one pushed. The interfaces
  \<open>bit_source\<close> and \<open>bit_sink\<close> state this, are interpreted on the code's reader and writer, and
  their combination \<open>bit_codec\<close> gives the round trip of any list of fields.
\<close>

section \<open>The backward reader\<close>

record bitrev =
  br_src :: bytes
  br_ptr :: nat
  br_container :: u64
  br_consumed :: nat

definition shl64 :: "u64 \<Rightarrow> nat \<Rightarrow> u64" where
  "shl64 v n = (if 64 \<le> n then 0 else push_bit n v)"

text \<open>\<^verbatim>\<open>simd::load_u64_le\<close>: its callers prove \<open>i + 8 \<le> len\<close>. The zero-padded copies of shorter
  slices have the same value, since the missing high bytes are zero.\<close>

definition load_u64_le :: "bytes \<Rightarrow> nat \<Rightarrow> u64" where
  "load_u64_le src i = word_of_nat (le_nat (take 8 (drop i src)))"

definition padded_word :: "bytes \<Rightarrow> u64" where
  "padded_word s = word_of_nat (le_nat (take 8 s @ replicate (8 - length s) 0))"

definition br_new :: "bytes \<Rightarrow> bitrev res" where
  "br_new src =
     (if src = [] then Inl Corruption
      else let lst = src ! (length src - 1)
        in if lst = 0 then Inl Corruption
           else let hb = highbit (unat lst); skip_in_last = 8 - hb
             in if 8 \<le> length src then
                  let ptr = length src - 8; raw = load_u64_le src ptr
                  in Inr \<lparr> br_src = src, br_ptr = ptr, br_container = shl64 raw skip_in_last,
                           br_consumed = skip_in_last \<rparr>
                else
                  let consumed = skip_in_last + (8 - length src) * 8
                  in Inr \<lparr> br_src = src, br_ptr = 0, br_container = shl64 (padded_word src) consumed,
                           br_consumed = consumed \<rparr>)"

definition br_look_fast :: "nat \<Rightarrow> bitrev \<Rightarrow> nat" where
  "br_look_fast n r = unat (drop_bit (64 - n) (br_container r)) mod 2 ^ 32"

definition br_look :: "nat \<Rightarrow> bitrev \<Rightarrow> nat" where
  "br_look n r = (if n = 0 then 0 else br_look_fast n r)"

definition br_skip :: "nat \<Rightarrow> bitrev \<Rightarrow> bitrev" where
  "br_skip n r = r\<lparr> br_container := shl64 (br_container r) n,
                   br_consumed := sat_add U32_MAX (br_consumed r) n \<rparr>"

definition br_read :: "nat \<Rightarrow> bitrev \<Rightarrow> nat \<times> bitrev" where
  "br_read n r = (if n = 0 then (0, r) else (br_look_fast n r, br_skip n r))"

definition br_overflowed :: "bitrev \<Rightarrow> bool" where
  "br_overflowed r \<longleftrightarrow> 64 < br_consumed r \<and> br_ptr r = 0"

definition br_unfinished :: "bitrev \<Rightarrow> bool" where
  "br_unfinished r \<longleftrightarrow> 8 \<le> br_ptr r \<and> br_consumed r < 8"

definition br_finished_exactly :: "bitrev \<Rightarrow> bool" where
  "br_finished_exactly r \<longleftrightarrow> br_ptr r = 0 \<and> br_consumed r = 64"

definition br_from_window :: "bytes \<Rightarrow> nat \<Rightarrow> nat \<Rightarrow> bitrev res" where
  "br_from_window src ptr bits_consumed =
     (if length src < 8 \<or> length src < ptr + 8 \<or> 64 < bits_consumed then Inl Corruption
      else Inr \<lparr> br_src = src, br_ptr = ptr,
                 br_container = shl64 (load_u64_le src ptr) bits_consumed,
                 br_consumed = bits_consumed \<rparr>)"

definition br_remaining_bits :: "bitrev \<Rightarrow> nat" where
  "br_remaining_bits r = br_ptr r * 8 + (64 - min (br_consumed r) 64)"

definition br_tail_word :: "bitrev \<Rightarrow> u64" where
  "br_tail_word r =
     padded_word (case slice_from (br_src r) (br_ptr r) of None \<Rightarrow> [] | Some t \<Rightarrow> t)"

definition br_rewind_to_start :: "bitrev \<Rightarrow> bitrev" where
  "br_rewind_to_start r =
     (if br_ptr r = 0 then r
      else let consumed = br_consumed r - br_ptr r * 8
        in r\<lparr> br_ptr := 0, br_consumed := consumed,
             br_container := shl64 (padded_word (br_src r)) consumed \<rparr>)"

definition br_reload :: "bitrev \<Rightarrow> bitrev res" where
  "br_reload r =
     (if 64 < br_consumed r then Inl Corruption
      else if length (br_src r) < 8 then Inr r
      else let nbytes = br_consumed r div 8
        in if nbytes = 0 then Inr r
           else if nbytes \<le> br_ptr r then
             let r = r\<lparr> br_ptr := br_ptr r - nbytes, br_consumed := br_consumed r AND 7 \<rparr>;
                 w = (if br_ptr r + 8 \<le> length (br_src r) then load_u64_le (br_src r) (br_ptr r)
                      else br_tail_word r)
             in Inr (r\<lparr> br_container := push_bit (br_consumed r) w \<rparr>)
           else Inr (br_rewind_to_start r))"

text \<open>\<^verbatim>\<open>let _ = br.reload()\<close>: every decoding loop drops the result and keeps the reader.\<close>

definition br_try_reload :: "bitrev \<Rightarrow> bitrev" where
  "br_try_reload br = (case br_reload br of Inl _ \<Rightarrow> br | Inr br \<Rightarrow> br)"

section \<open>The forward writer\<close>

record bitcstream =
  bc_buf :: bytes
  bc_container :: u64
  bc_bit_pos :: nat

definition bc_new :: bitcstream where
  "bc_new = \<lparr> bc_buf = [], bc_container = 0, bc_bit_pos = 0 \<rparr>"

definition bc_flush :: "bitcstream \<Rightarrow> bitcstream" where
  "bc_flush w =
     (let nbytes = bc_bit_pos w div 8
      in if nbytes = 0 then w
         else w\<lparr> bc_buf := bc_buf w @ take nbytes (le_bytes 8 (unat (bc_container w))),
                bc_container := drop_bit (nbytes * 8) (bc_container w),
                bc_bit_pos := bc_bit_pos w AND 7 \<rparr>)"

definition bc_add_bits :: "u64 \<Rightarrow> nat \<Rightarrow> bitcstream \<Rightarrow> bitcstream" where
  "bc_add_bits v nb w =
     (if nb = 0 then w
      else let w = (if 64 \<le> bc_bit_pos w + nb then bc_flush w else w);
               msk = (if 64 \<le> nb then - 1 else push_bit nb 1 - 1)
        in w\<lparr> bc_container := bc_container w OR push_bit (bc_bit_pos w) (v AND msk),
             bc_bit_pos := bc_bit_pos w + nb \<rparr>)"

definition bc_close :: "bitcstream \<Rightarrow> bytes" where
  "bc_close w =
     (let w = bc_flush (bc_add_bits 1 1 w)
      in if 0 < bc_bit_pos w then bc_buf w @ [word_of_nat (unat (bc_container w))] else bc_buf w)"

section \<open>The forward reader\<close>

record bitfwd =
  bf_src :: bytes
  bf_pos :: nat
  bf_buf :: u64
  bf_nbits :: nat
  bf_bits_read :: nat

definition bf_new :: "bytes \<Rightarrow> bitfwd" where
  "bf_new src = \<lparr> bf_src = src, bf_pos = 0, bf_buf = 0, bf_nbits = 0, bf_bits_read = 0 \<rparr>"

text \<open>The byte loop of \<open>refill\<close> runs at most eight times: \<open>nbits\<close> climbs by 8 while it is at
  most 56.\<close>

function bf_refill_tail :: "bitfwd \<Rightarrow> bitfwd" where
  "bf_refill_tail r =
     (if bf_nbits r \<le> 56 \<and> bf_pos r < length (bf_src r)
      then bf_refill_tail
        (r\<lparr> bf_buf := bf_buf r OR push_bit (bf_nbits r) (word_of_nat (unat (bf_src r ! bf_pos r))),
           bf_nbits := bf_nbits r + 8, bf_pos := bf_pos r + 1 \<rparr>)
      else r)"
  by auto
termination by (relation "measure (\<lambda>r. 64 - bf_nbits r)") auto

declare bf_refill_tail.simps [simp del]

definition bf_refill :: "bitfwd \<Rightarrow> bitfwd" where
  "bf_refill r =
     (if bf_nbits r \<le> 56 \<and> bf_pos r + 8 \<le> length (bf_src r) then
        let k = (56 - bf_nbits r) div 8 + 1;
            w = load_u64_le (bf_src r) (bf_pos r);
            masked = (if 8 \<le> k then w else w AND (push_bit (k * 8) 1 - 1))
        in r\<lparr> bf_buf := bf_buf r OR push_bit (bf_nbits r) masked,
             bf_nbits := bf_nbits r + k * 8, bf_pos := bf_pos r + k \<rparr>
      else bf_refill_tail r)"

definition ones :: "nat \<Rightarrow> nat" where
  "ones n = (if 32 \<le> n then U32_MAX else 2 ^ n - 1)"

definition bf_peek :: "nat \<Rightarrow> bitfwd \<Rightarrow> (nat \<times> bitfwd) res" where
  "bf_peek n r =
     (if n = 0 then Inr (0, r)
      else let r = bf_refill r
        in if bf_nbits r < n then Inl Corruption
           else Inr ((unat (bf_buf r) mod 2 ^ 32) AND ones n, r))"

definition bf_get :: "nat \<Rightarrow> bitfwd \<Rightarrow> (nat \<times> bitfwd) res" where
  "bf_get n r =
     rbind (bf_peek n r) (\<lambda>(v, r).
     Inr (v, r\<lparr> bf_buf := drop_bit n (bf_buf r), bf_nbits := bf_nbits r - n,
                bf_bits_read := bf_bits_read r + n \<rparr>))"

definition bf_bytes_consumed :: "bitfwd \<Rightarrow> nat" where
  "bf_bytes_consumed r = (bf_bits_read r + 7) div 8"

section \<open>The backward reader is a stack of bits\<close>

definition br_rem :: "bitrev \<Rightarrow> nat" where
  "br_rem r = 8 * br_ptr r + 64 - br_consumed r"

definition br_avail :: "bitrev \<Rightarrow> nat" where
  "br_avail r = 64 - br_consumed r"

definition br_val :: "bitrev \<Rightarrow> nat" where
  "br_val r = le_nat (br_src r) mod 2 ^ br_rem r"

definition br_ok :: "bitrev \<Rightarrow> bool" where
  "br_ok r \<longleftrightarrow> br_src r \<noteq> [] \<and> (br_ptr r + 8 \<le> length (br_src r) \<or> br_ptr r = 0)
     \<and> br_consumed r \<le> 64
     \<and> br_container r = shl64 (load_u64_le (br_src r) (br_ptr r)) (br_consumed r)"

lemma padded_word_eq: "padded_word s = load_u64_le s 0"
  by (simp add: padded_word_def load_u64_le_def le_nat_append)

lemma unat_load: "unat (load_u64_le src p) = le_nat src div 2 ^ (8 * p) mod 2 ^ 64"
proof -
  have l: "le_nat (take 8 (drop p src)) < 2 ^ 64"
    using le_nat_less_pow2 [of "take 8 (drop p src)"]
    by (rule less_le_trans) (rule power_increasing, simp_all)
  have "le_nat (take 8 (drop p src)) = le_nat (drop p src) mod 2 ^ 64"
  proof (cases "8 \<le> length (drop p src)")
    case True
    then have "min 8 (length (drop p src)) = 8" by simp
    then show ?thesis by (simp add: le_nat_take)
  next
    case False
    then have "take 8 (drop p src) = drop p src" by simp
    then show ?thesis using l by simp
  qed
  then show ?thesis using l
    by (simp add: load_u64_le_def unat_of_nat64 le_nat_drop pow_256)
qed

lemma unat_shl64: "n \<le> 64 \<Longrightarrow> unat (shl64 v n) = (unat v mod 2 ^ (64 - n)) * 2 ^ n"
proof (cases "n = 64")
  case False
  assume "n \<le> 64"
  with False have n: "n < 64" by simp
  have "unat v * 2 ^ n mod 2 ^ 64 = (unat v mod 2 ^ (64 - n)) * 2 ^ n"
    using n by (simp add: mult_mod_left flip: power_add)
  then show ?thesis using n by (simp add: shl64_def unat_push_bit64)
qed (simp add: shl64_def)

lemma shl64_shl64: "shl64 (shl64 v m) n = shl64 v (m + n)"
  by (auto simp: shl64_def push_bit_push_bit add.commute intro!: bit_word_eqI simp: bit_simps)

lemma br_container_val:
  assumes "br_ok r"
  shows "unat (br_container r) = br_val r div 2 ^ (8 * br_ptr r) * 2 ^ br_consumed r"
proof -
  have c: "br_consumed r \<le> 64" using assms by (simp add: br_ok_def)
  have "unat (load_u64_le (br_src r) (br_ptr r)) mod 2 ^ (64 - br_consumed r)
      = le_nat (br_src r) div 2 ^ (8 * br_ptr r) mod 2 ^ (64 - br_consumed r)"
    by (simp only: unat_load mod_pow2_mod_pow2 diff_le_self)
  also have "\<dots> = br_val r div 2 ^ (8 * br_ptr r)"
    using c by (simp add: div_pow2_mod_pow2 br_val_def br_rem_def)
  finally show ?thesis using assms c by (simp add: br_ok_def unat_shl64)
qed

lemma br_val_less: "br_val r < 2 ^ br_rem r"
  by (simp add: br_val_def)

lemma br_avail_le: "br_avail r \<le> br_rem r"
  by (simp add: br_avail_def br_rem_def)

lemma br_look_val:
  assumes "br_ok r" "0 < n" "n \<le> 32" "n \<le> br_avail r"
  shows "br_look_fast n r = br_val r div 2 ^ (br_rem r - n)"
proof -
  have n: "n + br_consumed r \<le> 64" using assms by (simp add: br_avail_def br_ok_def)
  define k where "k = 64 - n - br_consumed r"
  have k: "64 - n = k + br_consumed r" "br_rem r - n = 8 * br_ptr r + k"
    using n by (auto simp: k_def br_rem_def)
  have "unat (drop_bit (64 - n) (br_container r)) = br_val r div 2 ^ (8 * br_ptr r + k)"
    unfolding unat_drop_bit64 br_container_val [OF assms(1)] k(1) mult_pow2_div_pow2
    by (simp only: power_add div_mult2_eq)
  moreover have "br_val r div 2 ^ (8 * br_ptr r + k) < 2 ^ n"
  proof -
    have "br_val r < 2 ^ n * 2 ^ (8 * br_ptr r + k)"
      using br_val_less [of r] k(2) n by (simp add: br_rem_def k_def flip: power_add)
    then show ?thesis by (simp add: less_mult_imp_div_less)
  qed
  moreover have "(2 :: nat) ^ n \<le> 2 ^ 32" using assms(3) by (rule power_increasing) simp
  ultimately show ?thesis by (simp add: br_look_fast_def k(2))
qed

lemma br_skip_ok:
  assumes "br_ok r" "n \<le> br_avail r"
  shows "br_ok (br_skip n r)" "br_rem (br_skip n r) = br_rem r - n"
    "br_avail (br_skip n r) = br_avail r - n" "br_val (br_skip n r) = br_val r mod 2 ^ (br_rem r - n)"
    "br_src (br_skip n r) = br_src r"
proof -
  have c: "br_consumed (br_skip n r) = br_consumed r + n"
    using assms by (auto simp: br_skip_def sat_add_def U32_MAX_def br_ok_def br_avail_def min_def)
  show "br_ok (br_skip n r)"
    using assms c unfolding br_ok_def br_avail_def by (auto simp: br_skip_def shl64_shl64)
  show rem: "br_rem (br_skip n r) = br_rem r - n" "br_avail (br_skip n r) = br_avail r - n"
    using c by (simp_all add: br_rem_def br_avail_def) (simp_all add: br_skip_def)
  show src: "br_src (br_skip n r) = br_src r" by (simp add: br_skip_def)
  have "n \<le> br_rem r" using assms(2) br_avail_le [of r] by simp
  then show "br_val (br_skip n r) = br_val r mod 2 ^ (br_rem r - n)"
    by (simp add: br_val_def rem src mod_mod_cancel le_imp_power_dvd)
qed

lemma br_ok_short: "br_ok r \<Longrightarrow> length (br_src r) < 8 \<Longrightarrow> br_ptr r = 0"
  by (auto simp: br_ok_def)

lemma br_avail_start: "br_ptr r = 0 \<Longrightarrow> br_avail r = br_rem r"
  by (simp add: br_avail_def br_rem_def)

lemma br_avail_fresh: "br_consumed r < 8 \<Longrightarrow> 57 \<le> br_avail r"
  by (simp add: br_avail_def)

lemma br_rewind_ok:
  assumes "br_ok r" "br_ptr r < br_consumed r div 8"
  shows "br_ok (br_rewind_to_start r)" "br_rem (br_rewind_to_start r) = br_rem r"
    "br_src (br_rewind_to_start r) = br_src r" "br_ptr (br_rewind_to_start r) = 0"
proof -
  have "8 * br_ptr r < br_consumed r" using assms(2) by simp
  then show "br_ok (br_rewind_to_start r)" "br_rem (br_rewind_to_start r) = br_rem r"
    "br_src (br_rewind_to_start r) = br_src r" "br_ptr (br_rewind_to_start r) = 0"
    using assms(1) by (auto simp: br_rewind_to_start_def br_ok_def br_rem_def padded_word_eq Let_def)
qed

lemma br_reload_ok:
  assumes "br_ok r"
  obtains r' where "br_reload r = Inr r'" "br_ok r'" "br_rem r' = br_rem r" "br_val r' = br_val r"
    "br_src r' = br_src r" "br_consumed r' < 8 \<or> br_ptr r' = 0"
proof -
  have c: "br_consumed r \<le> 64" using assms by (simp add: br_ok_def)
  consider "length (br_src r) < 8 \<or> br_consumed r div 8 = 0"
    | "8 \<le> length (br_src r)" "0 < br_consumed r div 8" "br_consumed r div 8 \<le> br_ptr r"
    | "8 \<le> length (br_src r)" "0 < br_consumed r div 8" "br_ptr r < br_consumed r div 8"
    by fastforce
  then show ?thesis
  proof cases
    case 1
    then have "br_reload r = Inr r" using c by (auto simp: br_reload_def Let_def)
    moreover have "br_consumed r < 8 \<or> br_ptr r = 0" using 1 br_ok_short [OF assms] by auto
    ultimately show ?thesis using assms by (blast intro: that)
  next
    case 2
    let ?p = "br_ptr r - br_consumed r div 8"
    have b: "?p + 8 \<le> length (br_src r)" using 2 assms by (auto simp: br_ok_def)
    define r' where "r' = r\<lparr> br_ptr := ?p, br_consumed := br_consumed r mod 8,
        br_container := push_bit (br_consumed r mod 8) (load_u64_le (br_src r) ?p) \<rparr>"
    have 3: "br_reload r = Inr r'"
      using c b 2 by (simp add: br_reload_def Let_def r'_def)
    have "8 * (p - q) + 64 - m = 8 * p + 64 - (8 * q + m)" if "q \<le> p" for p q m :: nat
      using that by simp
    from this [OF 2(3), of "br_consumed r mod 8"]
    have rem: "br_rem r' = br_rem r" by (simp add: br_rem_def r'_def)
    have m: "br_consumed r mod 8 < 64" by (rule less_trans [of _ 8]) simp_all
    have "br_ok r'"
      using assms b m unfolding br_ok_def by (simp add: r'_def shl64_def less_imp_le)
    moreover have "br_src r' = br_src r" by (simp add: r'_def)
    moreover have "br_consumed r' < 8" by (simp add: r'_def)
    ultimately show ?thesis using that [OF 3] rem by (simp add: br_val_def)
  next
    case 3
    then have "br_reload r = Inr (br_rewind_to_start r)"
      using c by (simp add: br_reload_def Let_def)
    then show ?thesis using br_rewind_ok [OF assms 3(3)] that by (simp add: br_val_def)
  qed
qed

lemma br_reload_overread: "64 < br_consumed r \<Longrightarrow> br_reload r = Inl Corruption"
  by (simp add: br_reload_def)

lemma br_finished_iff: "br_ok r \<Longrightarrow> br_finished_exactly r \<longleftrightarrow> br_rem r = 0"
  by (auto simp: br_finished_exactly_def br_rem_def br_ok_def)

lemma le_nat_last:
  assumes "bs \<noteq> []"
  shows "le_nat bs = le_nat (butlast bs) + 2 ^ (8 * (length bs - 1)) * unat (bs ! (length bs - 1))"
proof -
  have "le_nat (butlast bs @ [last bs]) = le_nat (butlast bs) + 256 ^ (length bs - 1) * unat (last bs)"
    by (simp add: le_nat_append)
  then show ?thesis
    by (simp only: append_butlast_last_id [OF assms] pow_256) (simp only: last_conv_nth [OF assms])
qed

lemma br_new_ok:
  assumes "src \<noteq> []" "src ! (length src - 1) \<noteq> 0"
  obtains r where "br_new src = Inr r" "br_ok r" "br_src r = src" "br_rem r = highbit (le_nat src)"
    "br_val r = le_nat src - 2 ^ highbit (le_nat src)" "br_consumed r \<le> 8 \<or> br_ptr r = 0"
proof -
  define l where "l = unat (src ! (length src - 1))"
  define hb where "hb = highbit l"
  have l: "0 < l" "l < 256" using assms(2) by (auto simp: l_def unat_gt_0)
  have hb: "2 ^ hb \<le> l" "l < 2 * 2 ^ hb" using highbit_bounds [OF l(1)] by (auto simp: hb_def)
  have hb8: "hb < 8" using highbit_less [OF l(1), of 8] l(2) by (simp add: hb_def)
  define lo where "lo = le_nat (butlast src)"
  define k where "k = 8 * (length src - 1)"
  have S: "le_nat src = lo + 2 ^ k * l" using le_nat_last [OF assms(1)] by (simp add: lo_def k_def l_def)
  have lo: "lo < 2 ^ k" using le_nat_less_pow2 [of "butlast src"] by (simp add: lo_def k_def)
  have top: "highbit (le_nat src) = k + hb"
  proof (rule highbit_eqI)
    show "2 ^ (k + hb) \<le> le_nat src" using hb(1) by (simp add: S power_add trans_le_add2)
    have "le_nat src < 2 ^ k * (l + 1)" using lo by (simp add: S algebra_simps)
    also have "\<dots> \<le> 2 ^ k * (2 * 2 ^ hb)" using hb(2) by (intro mult_le_mono) auto
    finally show "le_nat src < 2 * 2 ^ (k + hb)" by (simp add: power_add mult.left_commute)
  qed
  obtain r where r: "br_new src = Inr r" "br_ok r" "br_src r = src" "br_rem r = k + hb"
    "br_consumed r \<le> 8 \<or> br_ptr r = 0"
  proof (cases "8 \<le> length src")
    case True
    show ?thesis
      by (rule that [of "\<lparr> br_src = src, br_ptr = length src - 8,
          br_container = shl64 (load_u64_le src (length src - 8)) (8 - hb), br_consumed = 8 - hb \<rparr>"])
        (use True assms hb8 in \<open>auto simp: br_new_def Let_def br_ok_def br_rem_def k_def hb_def l_def\<close>)
  next
    case False
    have "8 \<le> 8 * length src" using assms(1) by (cases src) auto
    then show ?thesis using False
      by (intro that [of "\<lparr> br_src = src, br_ptr = 0,
          br_container = shl64 (padded_word src) (8 - hb + (8 - length src) * 8),
          br_consumed = 8 - hb + (8 - length src) * 8 \<rparr>"])
        (use assms hb8 in \<open>auto simp: br_new_def Let_def br_ok_def br_rem_def k_def hb_def l_def padded_word_eq\<close>)
  qed
  have "br_val r = le_nat src - 2 ^ (k + hb)"
  proof -
    have "2 ^ (k + hb) \<le> le_nat src" "le_nat src < 2 * 2 ^ (k + hb)"
      using highbit_bounds [of "le_nat src"] l(1) unfolding top by (auto simp: S)
    then show ?thesis by (simp add: br_val_def r mod_if)
  qed
  then show ?thesis using r by (intro that [of r]) (auto simp: top)
qed

section \<open>The forward writer pushes bits\<close>

definition bc_len :: "bitcstream \<Rightarrow> nat" where
  "bc_len w = 8 * length (bc_buf w) + bc_bit_pos w"

definition bc_val :: "bitcstream \<Rightarrow> nat" where
  "bc_val w = le_nat (bc_buf w) + 2 ^ (8 * length (bc_buf w)) * unat (bc_container w)"

definition bc_ok :: "bitcstream \<Rightarrow> bool" where
  "bc_ok w \<longleftrightarrow> bc_bit_pos w < 64 \<and> unat (bc_container w) < 2 ^ bc_bit_pos w"

lemma bc_val_less: "bc_ok w \<Longrightarrow> bc_val w < 2 ^ bc_len w"
proof -
  assume "bc_ok w"
  then have "unat (bc_container w) + 1 \<le> 2 ^ bc_bit_pos w" by (simp add: bc_ok_def)
  then have "2 ^ (8 * length (bc_buf w)) * (unat (bc_container w) + 1)
      \<le> 2 ^ (8 * length (bc_buf w)) * 2 ^ bc_bit_pos w" by (rule mult_le_mono2)
  then show ?thesis
    using le_nat_less_pow2 [of "bc_buf w"] by (simp add: bc_val_def bc_len_def power_add)
qed

lemma bc_new_ok: "bc_ok bc_new" "bc_len bc_new = 0" "bc_val bc_new = 0"
  by (simp_all add: bc_new_def bc_ok_def bc_len_def bc_val_def)

lemma bc_flush_ok:
  assumes "bc_ok w"
  shows "bc_ok (bc_flush w)" "bc_len (bc_flush w) = bc_len w" "bc_val (bc_flush w) = bc_val w"
    "bc_bit_pos (bc_flush w) < 8"
proof -
  define q where "q = bc_bit_pos w div 8"
  define m where "m = bc_bit_pos w mod 8"
  have bp: "bc_bit_pos w = 8 * q + m" "m < 8" by (simp_all add: q_def m_def)
  have q: "q < 8" using assms bp by (simp add: bc_ok_def)
  show "bc_bit_pos (bc_flush w) < 8" by (auto simp: bc_flush_def Let_def div_eq_0_iff)
  show "bc_ok (bc_flush w)"
  proof (cases "q = 0")
    case True
    then show ?thesis using assms by (simp add: bc_flush_def Let_def q_def)
  next
    case False
    have "unat (bc_container w) < 2 ^ (8 * q) * 2 ^ m"
      using assms bp by (simp add: bc_ok_def power_add)
    then have "unat (bc_container w) div 2 ^ (8 * q) < 2 ^ m"
      by (simp add: less_mult_imp_div_less mult.commute)
    then show ?thesis
      using False bp by (simp add: bc_ok_def bc_flush_def Let_def unat_drop_bit64 mult.commute
          flip: q_def m_def)
  qed
  show "bc_len (bc_flush w) = bc_len w"
    using q bp by (simp add: bc_len_def bc_flush_def Let_def flip: q_def m_def)
  show "bc_val (bc_flush w) = bc_val w"
  proof (cases "q = 0")
    case True
    then show ?thesis by (simp add: bc_flush_def Let_def q_def)
  next
    case False
    have len: "min q 8 = q" using q by simp
    have "le_nat (take q (le_bytes 8 (unat (bc_container w)))) = unat (bc_container w) mod 2 ^ (8 * q)"
      using unat_u64_less [of "bc_container w"] by (simp add: le_nat_take len pow_256)
    then have "bc_val (bc_flush w) = le_nat (bc_buf w) + 2 ^ (8 * length (bc_buf w)) *
        (unat (bc_container w) mod 2 ^ (8 * q)) + 2 ^ (8 * (length (bc_buf w) + q)) *
        (unat (bc_container w) div 2 ^ (8 * q))"
      using False len by (simp add: bc_val_def bc_flush_def Let_def le_nat_append unat_drop_bit64 pow_256
          mult.commute [of q 8] flip: q_def m_def)
    also have "\<dots> = le_nat (bc_buf w) + 2 ^ (8 * length (bc_buf w)) *
        (unat (bc_container w) mod 2 ^ (8 * q) + 2 ^ (8 * q) * (unat (bc_container w) div 2 ^ (8 * q)))"
      by (simp only: distrib_left power_add mult.assoc add.assoc)
    finally show ?thesis by (simp add: bc_val_def)
  qed
qed

lemma bc_add_bits_ok:
  assumes "bc_ok w" "n \<le> 56"
  shows "bc_ok (bc_add_bits v n w)" "bc_len (bc_add_bits v n w) = bc_len w + n"
    "bc_val (bc_add_bits v n w) = bc_val w + 2 ^ bc_len w * (unat v mod 2 ^ n)"
proof -
  define w' where "w' = (if 64 \<le> bc_bit_pos w + n then bc_flush w else w)"
  have w': "bc_ok w'" "bc_len w' = bc_len w" "bc_val w' = bc_val w"
    using bc_flush_ok [OF assms(1)] assms(1) by (simp_all add: w'_def)
  have room: "bc_bit_pos w' + n < 64"
    using bc_flush_ok(4) [OF assms(1)] assms(2) by (simp add: w'_def)
  define fld where "fld = v AND (push_bit n 1 - 1)"
  have v: "unat fld = unat v mod 2 ^ n"
    using assms(2) unat_and_mask64 [of n v] by (simp add: fld_def)
  have c: "unat (bc_container w' OR push_bit (bc_bit_pos w') fld)
      = unat (bc_container w') + 2 ^ bc_bit_pos w' * (unat v mod 2 ^ n)"
    using w'(1) room unat_or_push64 [of "bc_container w'" "bc_bit_pos w'" fld n]
    by (simp only: v bc_ok_def) simp
  define w2 where "w2 = w'\<lparr> bc_container := bc_container w' OR push_bit (bc_bit_pos w') fld,
      bc_bit_pos := bc_bit_pos w' + n \<rparr>"
  have "2 ^ bc_bit_pos w' * (unat v mod 2 ^ n + 1) \<le> 2 ^ bc_bit_pos w' * 2 ^ n"
    by (intro mult_le_mono2) (simp add: Suc_le_eq)
  then have "unat (bc_container w') + 2 ^ bc_bit_pos w' * (unat v mod 2 ^ n) < 2 ^ (bc_bit_pos w' + n)"
    using w'(1) by (simp add: bc_ok_def power_add)
  then have ok: "bc_ok w2" using room by (simp add: bc_ok_def w2_def c)
  have len: "bc_len w2 = bc_len w' + n" by (simp add: bc_len_def w2_def)
  have val: "bc_val w2 = bc_val w' + 2 ^ bc_len w' * (unat v mod 2 ^ n)"
    by (simp add: bc_val_def bc_len_def w2_def c power_add distrib_left mult.assoc)
  have "bc_add_bits v n w = (if n = 0 then w else w2)"
    using assms(2) by (simp add: bc_add_bits_def Let_def w'_def w2_def fld_def)
  then show "bc_ok (bc_add_bits v n w)" "bc_len (bc_add_bits v n w) = bc_len w + n"
    "bc_val (bc_add_bits v n w) = bc_val w + 2 ^ bc_len w * (unat v mod 2 ^ n)"
    using ok len val assms(1) w'(2,3) by simp_all
qed

text \<open>Closing a stream: the bytes, read as one number, are the pushed bits under a final 1.\<close>

lemma bc_close_val:
  assumes "bc_ok w"
  shows "le_nat (bc_close w) = bc_val w + 2 ^ bc_len w"
    "length (bc_close w) = bc_len w div 8 + 1"
    "bc_close w ! (length (bc_close w) - 1) \<noteq> 0"
proof -
  define w1 where "w1 = bc_add_bits 1 1 w"
  define w2 where "w2 = bc_flush w1"
  note a = bc_add_bits_ok [OF assms, of 1 1, folded w1_def]
  note f = bc_flush_ok [OF a(1), folded w2_def]
  have len2: "bc_len w2 = bc_len w + 1" and val2: "bc_val w2 = bc_val w + 2 ^ bc_len w"
    using a f by simp_all
  define top where "top = (word_of_nat (unat (bc_container w2)) :: u8)"
  have cl: "bc_close w = (if 0 < bc_bit_pos w2 then bc_buf w2 @ [top] else bc_buf w2)"
    by (simp add: bc_close_def w2_def w1_def top_def Let_def)
  have small: "unat (bc_container w2) < 256"
  proof -
    have "unat (bc_container w2) < 2 ^ bc_bit_pos w2" using f(1) by (simp add: bc_ok_def)
    also have "(2 :: nat) ^ bc_bit_pos w2 \<le> 2 ^ 8" using f(4) by (intro power_increasing) simp_all
    finally show ?thesis by simp
  qed
  have topv: "unat top = unat (bc_container w2)"
    unfolding top_def unat_word8_of_nat using small by simp
  have zero: "bc_bit_pos w2 = 0 \<Longrightarrow> unat (bc_container w2) = 0" using f(1) by (simp add: bc_ok_def)
  show v: "le_nat (bc_close w) = bc_val w + 2 ^ bc_len w"
    using zero unfolding val2 [symmetric] by (simp add: cl le_nat_append pow_256 bc_val_def topv)
  have "8 * length (bc_buf w2) + bc_bit_pos w2 = bc_len w + 1"
    using len2 by (simp add: bc_len_def)
  then show l: "length (bc_close w) = bc_len w div 8 + 1"
    using f(4) by (auto simp: cl)
  have ne: "bc_close w \<noteq> []" using l by auto
  show "bc_close w ! (length (bc_close w) - 1) \<noteq> 0"
  proof
    assume "bc_close w ! (length (bc_close w) - 1) = 0"
    then have "le_nat (bc_close w) < 2 ^ (8 * (length (bc_close w) - 1))"
      using le_nat_last [OF ne] le_nat_less_pow2 [of "butlast (bc_close w)"] by simp
    also have "\<dots> \<le> 2 ^ bc_len w" using l by (intro power_increasing) auto
    finally show False using v by simp
  qed
qed

lemma reopen_ok:
  assumes "bc_ok w"
  obtains r where "br_new (bc_close w) = Inr r" "br_ok r" "br_rem r = bc_len w" "br_val r = bc_val w"
    "br_consumed r \<le> 8 \<or> br_ptr r = 0"
proof -
  note c = bc_close_val [OF assms]
  have ne: "bc_close w \<noteq> []" using c(2) by auto
  have top: "highbit (le_nat (bc_close w)) = bc_len w"
    using bc_val_less [OF assms] by (intro highbit_eqI) (simp_all add: c(1))
  show ?thesis
    by (rule br_new_ok [OF ne c(3), unfolded top]) (rule that, auto simp: c(1))
qed

section \<open>The interfaces\<close>

text \<open>Reading a list of fields, with a reload before each, and pushing one.\<close>

fun read_fields :: "(nat \<Rightarrow> 's \<Rightarrow> nat \<times> 's) \<Rightarrow> ('s \<Rightarrow> 's res) \<Rightarrow> nat list \<Rightarrow> 's \<Rightarrow> nat list \<times> 's res" where
  "read_fields rd refill [] s = ([], Inr s)"
| "read_fields rd refill (n # ns) s =
     (case refill s of
        Inl e \<Rightarrow> ([], Inl e)
      | Inr s \<Rightarrow> (let (v, s) = rd n s; (vs, r) = read_fields rd refill ns s in (v # vs, r)))"

definition push_fields :: "(u64 \<Rightarrow> nat \<Rightarrow> 'w \<Rightarrow> 'w) \<Rightarrow> (u64 \<times> nat) list \<Rightarrow> 'w \<Rightarrow> 'w" where
  "push_fields add fs w = fold (\<lambda>(v, n). add v n) fs w"

lemma push_fields_simps [simp]:
  "push_fields add [] w = w"
  "push_fields add ((v, n) # fs) w = push_fields add fs (add v n w)"
  "push_fields add (fs @ gs) w = push_fields add gs (push_fields add fs w)"
  by (simp_all add: push_fields_def)

text \<open>A source of bits: \<open>rem\<close> bits are left, their value is \<open>val\<close>, and \<open>avail\<close> of them can be
  read before the next reload; a reload makes at least 57 available, or all that are left.\<close>

locale bit_source =
  fixes ok :: "'s \<Rightarrow> bool"
    and rem avail val :: "'s \<Rightarrow> nat"
    and rd :: "nat \<Rightarrow> 's \<Rightarrow> nat \<times> 's"
    and refill :: "'s \<Rightarrow> 's res"
    and finished :: "'s \<Rightarrow> bool"
  assumes val_less: "ok s \<Longrightarrow> val s < 2 ^ rem s"
    and avail_le: "ok s \<Longrightarrow> avail s \<le> rem s"
    and rd_ok: "ok s \<Longrightarrow> n \<le> avail s \<Longrightarrow> n \<le> 32 \<Longrightarrow>
      \<exists>s'. rd n s = (val s div 2 ^ (rem s - n), s') \<and> ok s' \<and> rem s' = rem s - n
        \<and> avail s' = avail s - n \<and> val s' = val s mod 2 ^ (rem s - n)"
    and refill_ok: "ok s \<Longrightarrow>
      \<exists>s'. refill s = Inr s' \<and> ok s' \<and> rem s' = rem s \<and> val s' = val s \<and> min 57 (rem s) \<le> avail s'"
    and finished_iff: "ok s \<Longrightarrow> finished s \<longleftrightarrow> rem s = 0"
begin

text \<open>Reading a field that was pushed last.\<close>

lemma rd_top:
  assumes "ok s" "n \<le> avail s" "n \<le> 32" "rem s = r + n" "val s = x * 2 ^ r + y" "y < 2 ^ r"
  shows "\<exists>s'. rd n s = (x, s') \<and> ok s' \<and> rem s' = r \<and> avail s' = avail s - n \<and> val s' = y"
proof -
  have r: "rem s - n = r" by (simp add: assms(4))
  have "val s div 2 ^ r = x" "val s mod 2 ^ r = y" using assms(5,6) by simp_all
  then show ?thesis using rd_ok [OF assms(1-3)] unfolding r by blast
qed

end

text \<open>A sink of bits: \<open>add v n\<close> pushes the \<open>n\<close> low bits of \<open>v\<close> on top of \<open>len\<close> bits worth \<open>val\<close>.\<close>

locale bit_sink =
  fixes wok :: "'w \<Rightarrow> bool"
    and wlen wval :: "'w \<Rightarrow> nat"
    and add :: "u64 \<Rightarrow> nat \<Rightarrow> 'w \<Rightarrow> 'w"
  assumes wval_less: "wok w \<Longrightarrow> wval w < 2 ^ wlen w"
    and add_ok: "wok w \<Longrightarrow> n \<le> 56 \<Longrightarrow> wok (add v n w) \<and> wlen (add v n w) = wlen w + n
        \<and> wval (add v n w) = wval w + 2 ^ wlen w * (unat v mod 2 ^ n)"
begin

lemma push_ok:
  "wok w \<Longrightarrow> \<forall>f \<in> set fs. snd f \<le> 56 \<Longrightarrow>
   wok (push_fields add fs w) \<and> wlen (push_fields add fs w) = wlen w + sum_list (map snd fs)"
proof (induction fs arbitrary: w)
  case (Cons f fs)
  obtain v n where f: "f = (v, n)" by fastforce
  note a = add_ok [of w n v]
  from Cons.IH [of "add v n w"] Cons.prems a show ?case by (simp add: f)
qed simp

end

text \<open>A sink whose result is reopened as a source: what was pushed comes back in reverse.\<close>

locale bit_codec = bit_source ok rem avail val rd refill finished + bit_sink wok wlen wval add
  for ok :: "'s \<Rightarrow> bool" and rem avail val :: "'s \<Rightarrow> nat" and rd and refill and finished
    and wok :: "'w \<Rightarrow> bool" and wlen wval :: "'w \<Rightarrow> nat" and add +
  fixes reopen :: "'w \<Rightarrow> 's res"
  assumes reopen_ok: "wok w \<Longrightarrow> \<exists>s. reopen w = Inr s \<and> ok s \<and> rem s = wlen w \<and> val s = wval w"
begin

lemma read_fields_rev:
  assumes "wok w" "\<forall>f \<in> set fs. snd f \<le> 32" "ok s"
    "rem s = wlen (push_fields add (rev fs) w)" "val s = wval (push_fields add (rev fs) w)"
  shows "\<exists>s'. read_fields rd refill (map snd fs) s = (map (\<lambda>(v, n). unat v mod 2 ^ n) fs, Inr s') \<and> ok s'
    \<and> rem s' = wlen w \<and> val s' = wval w"
  using assms
proof (induction fs arbitrary: s)
  case (Cons f fs)
  obtain v n where f: "f = (v, n)" by fastforce
  have n: "n \<le> 32" using Cons.prems(2) by (simp add: f)
  define w0 where "w0 = push_fields add (rev fs) w"
  have w0: "wok w0" using push_ok [of w "rev fs"] Cons.prems(1,2) by (fastforce simp: w0_def)
  note a = add_ok [OF w0, of n v]
  have r: "rem s = wlen w0 + n" "val s = unat v mod 2 ^ n * 2 ^ wlen w0 + wval w0"
    using Cons.prems(4,5) a n by (simp_all add: f w0_def mult.commute)
  obtain s1 where s1: "refill s = Inr s1" "ok s1" "rem s1 = rem s" "val s1 = val s" "min 57 (rem s) \<le> avail s1"
    using refill_ok [OF Cons.prems(3)] by blast
  have "n \<le> avail s1" using s1(5) r(1) n by simp
  then obtain s2 where s2: "rd n s1 = (unat v mod 2 ^ n, s2)" "ok s2" "rem s2 = wlen w0" "val s2 = wval w0"
    using rd_top [OF s1(2) _ n, of "wlen w0" "unat v mod 2 ^ n" "wval w0"] r wval_less [OF w0]
    by (auto simp: s1)
  show ?case
    using Cons.IH [OF Cons.prems(1) _ s2(2)] Cons.prems(2) s2 by (auto simp: f s1 w0_def)
qed simp

lemma roundtrip:
  assumes "wok w" "wlen w = 0" "\<forall>f \<in> set fs. snd f \<le> 32"
  shows "\<exists>s s'. reopen (push_fields add fs w) = Inr s
    \<and> read_fields rd refill (map snd (rev fs)) s = (map (\<lambda>(v, n). unat v mod 2 ^ n) (rev fs), Inr s') \<and> finished s'"
proof -
  have ok: "wok (push_fields add fs w)" using push_ok [of w fs] assms(1,3) by fastforce
  obtain s where s: "reopen (push_fields add fs w) = Inr s" "ok s" "rem s = wlen (push_fields add fs w)"
      "val s = wval (push_fields add fs w)"
    using reopen_ok [OF ok] by blast
  obtain s' where s': "read_fields rd refill (map snd (rev fs)) s =
      (map (\<lambda>(v, n). unat v mod 2 ^ n) (rev fs), Inr s')" "ok s'" "rem s' = wlen w"
    using read_fields_rev [of w "rev fs" s] assms s by auto
  then show ?thesis using s(1) finished_iff [OF s'(2)] assms(2) by auto
qed

end

interpretation br: bit_source br_ok br_rem br_avail br_val br_read br_reload br_finished_exactly
proof
  fix s :: bitrev and n :: nat
  assume ok: "br_ok s"
  show "br_val s < 2 ^ br_rem s" by (rule br_val_less)
  show "br_avail s \<le> br_rem s" by (rule br_avail_le)
  show "br_finished_exactly s \<longleftrightarrow> br_rem s = 0" by (rule br_finished_iff [OF ok])
  show "\<exists>s'. br_reload s = Inr s' \<and> br_ok s' \<and> br_rem s' = br_rem s \<and> br_val s' = br_val s
      \<and> min 57 (br_rem s) \<le> br_avail s'"
    by (rule br_reload_ok [OF ok]) (use br_avail_fresh br_avail_start in \<open>fastforce simp: min_le_iff_disj\<close>)
  assume n: "n \<le> br_avail s" "n \<le> 32"
  show "\<exists>s'. br_read n s = (br_val s div 2 ^ (br_rem s - n), s') \<and> br_ok s' \<and> br_rem s' = br_rem s - n
      \<and> br_avail s' = br_avail s - n \<and> br_val s' = br_val s mod 2 ^ (br_rem s - n)"
  proof (cases "n = 0")
    case True
    then show ?thesis using ok br_val_less [of s] by (simp add: br_read_def)
  next
    case False
    then show ?thesis using br_look_val [OF ok _ n(2,1)] br_skip_ok [OF ok n(1)] by (simp add: br_read_def)
  qed
qed

interpretation bc: bit_sink bc_ok bc_len bc_val bc_add_bits
  by unfold_locales (use bc_val_less bc_add_bits_ok in auto)

interpretation bits: bit_codec br_ok br_rem br_avail br_val br_read br_reload br_finished_exactly
  bc_ok bc_len bc_val bc_add_bits "\<lambda>w. br_new (bc_close w)"
  by unfold_locales (metis reopen_ok)

text \<open>Any list of bit fields of at most 32 bits pushed through \<open>add_bits\<close> and closed is read
  back by the backward reader in reverse order, each value masked to its width, and the reader then
  stands exactly at the start of the stream.\<close>

theorem bit_fields_roundtrip:
  assumes "\<forall>f \<in> set fs. snd f \<le> 32"
  shows "\<exists>r r'. br_new (bc_close (push_fields bc_add_bits fs bc_new)) = Inr r
    \<and> read_fields br_read br_reload (map snd (rev fs)) r =
        (map (\<lambda>(v, n). unat v mod 2 ^ n) (rev fs), Inr r')
    \<and> br_finished_exactly r'"
  using bits.roundtrip [OF bc_new_ok(1,2) assms] .

theorem bit_fields_roundtrip_witness:
  "\<exists>r r'. br_new (bc_close (push_fields bc_add_bits [(5, 3), (700, 10), (1, 1)] bc_new)) = Inr r
    \<and> read_fields br_read br_reload [1, 10, 3] r = ([1, 700, 5], Inr r') \<and> br_finished_exactly r'"
  using bit_fields_roundtrip [of "[(5, 3), (700, 10), (1, 1)]"] by simp

section \<open>The forward reader\<close>

text \<open>The container holds the \<open>nbits\<close> bits after the \<open>bits_read\<close> already delivered.\<close>

definition bf_ok :: "bitfwd \<Rightarrow> bool" where
  "bf_ok r \<longleftrightarrow> bf_pos r \<le> length (bf_src r) \<and> bf_nbits r \<le> 64
     \<and> bf_bits_read r + bf_nbits r = 8 * bf_pos r
     \<and> unat (bf_buf r) = le_nat (bf_src r) div 2 ^ bf_bits_read r mod 2 ^ bf_nbits r"

lemma bf_new_ok: "bf_ok (bf_new src)"
  by (simp add: bf_ok_def bf_new_def)

lemma byte_of_le_nat: "i < length bs \<Longrightarrow> unat (bs ! i) = le_nat bs div 2 ^ (8 * i) mod 2 ^ 8"
proof -
  assume "i < length bs"
  then have "drop i bs = bs ! i # drop (Suc i) bs" by (simp add: Cons_nth_drop_Suc)
  then have "le_nat (drop i bs) = unat (bs ! i) + 256 * le_nat (drop (Suc i) bs)" by simp
  then show ?thesis by (simp add: le_nat_drop pow_256)
qed

lemma bf_absorb:
  assumes "bf_ok r" "bf_nbits r + 8 * k \<le> 64" "bf_pos r + k \<le> length (bf_src r)"
    "unat w = le_nat (bf_src r) div 2 ^ (8 * bf_pos r) mod 2 ^ (8 * k)"
  shows "bf_ok (r\<lparr> bf_buf := bf_buf r OR push_bit (bf_nbits r) w,
      bf_nbits := bf_nbits r + 8 * k, bf_pos := bf_pos r + k \<rparr>)"
proof -
  let ?x = "le_nat (bf_src r) div 2 ^ bf_bits_read r"
  have b: "unat (bf_buf r) = ?x mod 2 ^ bf_nbits r" "bf_bits_read r + bf_nbits r = 8 * bf_pos r"
    using assms(1) by (auto simp: bf_ok_def)
  have w: "unat w = ?x div 2 ^ bf_nbits r mod 2 ^ (8 * k)"
    using assms(4) unfolding b(2) [symmetric] by (simp add: power_add div_mult2_eq)
  have "unat (bf_buf r OR push_bit (bf_nbits r) w) = ?x mod 2 ^ bf_nbits r + 2 ^ bf_nbits r * (?x div 2 ^ bf_nbits r mod 2 ^ (8 * k))"
    using unat_or_push64 [of "bf_buf r" "bf_nbits r" w "8 * k"] assms(2) by (simp add: b(1) w)
  then show ?thesis
    using assms(1-3) by (simp add: bf_ok_def mod_pow2_add)
qed

lemma bf_refill_tail_ok:
  assumes "bf_ok r"
  shows "bf_ok (bf_refill_tail r) \<and> bf_src (bf_refill_tail r) = bf_src r
    \<and> bf_bits_read (bf_refill_tail r) = bf_bits_read r
    \<and> (57 \<le> bf_nbits (bf_refill_tail r) \<or> bf_pos (bf_refill_tail r) = length (bf_src r))"
  using assms
proof (induction r rule: bf_refill_tail.induct)
  case (1 r)
  show ?case
  proof (cases "bf_nbits r \<le> 56 \<and> bf_pos r < length (bf_src r)")
    case True
    define b where "b = bf_src r ! bf_pos r"
    have "unat (word_of_nat (unat b) :: u64) = le_nat (bf_src r) div 2 ^ (8 * bf_pos r) mod 2 ^ (8 * 1)"
      using byte_of_le_nat [of "bf_pos r" "bf_src r"] True unfolding unat_of_nat64 by (simp add: b_def)
    then have "bf_ok (r\<lparr> bf_buf := bf_buf r OR push_bit (bf_nbits r) (word_of_nat (unat b)),
        bf_nbits := bf_nbits r + 8, bf_pos := bf_pos r + 1 \<rparr>)"
      using bf_absorb [of r 1] 1(2) True by simp
    from 1(1) [OF True this [unfolded b_def]] show ?thesis
      using True by (simp add: bf_refill_tail.simps [of r])
  next
    case False
    then show ?thesis using 1(2) by (auto simp: bf_refill_tail.simps [of r] bf_ok_def)
  qed
qed

lemma bf_refill_ok:
  assumes "bf_ok r"
  shows "bf_ok (bf_refill r) \<and> bf_src (bf_refill r) = bf_src r
    \<and> bf_bits_read (bf_refill r) = bf_bits_read r
    \<and> (57 \<le> bf_nbits (bf_refill r) \<or> bf_pos (bf_refill r) = length (bf_src r))"
proof (cases "bf_nbits r \<le> 56 \<and> bf_pos r + 8 \<le> length (bf_src r)")
  case True
  define k where "k = (56 - bf_nbits r) div 8 + 1"
  have k: "k \<le> 8" "bf_nbits r + 8 * k \<le> 64" "57 \<le> bf_nbits r + 8 * k"
    using True by (auto simp: k_def)
  define w where "w = load_u64_le (bf_src r) (bf_pos r)"
  define m where "m = (if 8 \<le> k then w else w AND (push_bit (k * 8) 1 - 1))"
  have "unat m = unat w mod 2 ^ (8 * k)"
  proof (cases "k = 8")
    case True
    then show ?thesis using unat_u64_less [of w] by (simp add: m_def)
  next
    case False
    then show ?thesis using k(1) unat_and_mask64 [of "k * 8" w] by (simp add: m_def mult.commute)
  qed
  also have "\<dots> = le_nat (bf_src r) div 2 ^ (8 * bf_pos r) mod 2 ^ (8 * k)"
    unfolding w_def unat_load using k(1) by (intro mod_pow2_mod_pow2) simp
  finally have "bf_ok (r\<lparr> bf_buf := bf_buf r OR push_bit (bf_nbits r) m,
      bf_nbits := bf_nbits r + 8 * k, bf_pos := bf_pos r + k \<rparr>)"
    using bf_absorb [OF assms k(2)] True k(1) by simp
  moreover have "bf_refill r = r\<lparr> bf_buf := bf_buf r OR push_bit (bf_nbits r) m,
      bf_nbits := bf_nbits r + 8 * k, bf_pos := bf_pos r + k \<rparr>"
    using True by (simp add: bf_refill_def Let_def m_def w_def k_def mult.commute)
  ultimately show ?thesis using k(3) by simp
next
  case False
  then have "bf_refill r = bf_refill_tail r" unfolding bf_refill_def by (rule if_not_P)
  then show ?thesis using bf_refill_tail_ok [OF assms] by simp
qed

lemma ones_eq: "n \<le> 32 \<Longrightarrow> ones n = 2 ^ n - 1"
  by (auto simp: ones_def U32_MAX_def)

lemma bf_peek_ok:
  assumes "bf_ok r" "n \<le> 32"
  shows "if bf_bits_read r + n \<le> 8 * length (bf_src r)
    then \<exists>r'. bf_peek n r = Inr (le_nat (bf_src r) div 2 ^ bf_bits_read r mod 2 ^ n, r')
      \<and> bf_ok r' \<and> bf_src r' = bf_src r \<and> bf_bits_read r' = bf_bits_read r \<and> n \<le> bf_nbits r'
    else bf_peek n r = Inl Corruption"
proof (cases "n = 0")
  case True
  then show ?thesis using assms by (auto simp: bf_peek_def bf_ok_def)
next
  case False
  define r' where "r' = bf_refill r"
  note f = bf_refill_ok [OF assms(1), folded r'_def]
  have pk: "bf_peek n r = (if bf_nbits r' < n then Inl Corruption
      else Inr ((unat (bf_buf r') mod 2 ^ 32) AND ones n, r'))"
    using False by (simp add: bf_peek_def r'_def Let_def)
  have e: "n \<le> bf_nbits r' \<longleftrightarrow> bf_bits_read r + n \<le> 8 * length (bf_src r)"
    using f assms(2) unfolding bf_ok_def by auto
  have "n \<le> bf_nbits r' \<Longrightarrow> (unat (bf_buf r') mod 2 ^ 32) AND ones n
      = le_nat (bf_src r) div 2 ^ bf_bits_read r mod 2 ^ n"
  proof -
    assume n: "n \<le> bf_nbits r'"
    have "(unat (bf_buf r') mod 2 ^ 32) AND ones n = unat (bf_buf r') mod 2 ^ n"
      unfolding ones_eq [OF assms(2)] nat_and_mask using assms(2) by (rule mod_pow2_mod_pow2)
    also have "\<dots> = le_nat (bf_src r) div 2 ^ bf_bits_read r mod 2 ^ n"
      using f n mod_pow2_mod_pow2 [OF n] by (simp add: bf_ok_def)
    finally show ?thesis .
  qed
  then show ?thesis using f e by (auto simp: pk not_less)
qed

lemma bf_get_ok:
  assumes "bf_ok r" "n \<le> 32"
  shows "if bf_bits_read r + n \<le> 8 * length (bf_src r)
    then \<exists>r'. bf_get n r = Inr (le_nat (bf_src r) div 2 ^ bf_bits_read r mod 2 ^ n, r')
      \<and> bf_ok r' \<and> bf_src r' = bf_src r \<and> bf_bits_read r' = bf_bits_read r + n
    else bf_get n r = Inl Corruption"
proof (cases "bf_bits_read r + n \<le> 8 * length (bf_src r)")
  case True
  then obtain r1 where r1: "bf_peek n r = Inr (le_nat (bf_src r) div 2 ^ bf_bits_read r mod 2 ^ n, r1)"
      "bf_ok r1" "bf_src r1 = bf_src r" "bf_bits_read r1 = bf_bits_read r" "n \<le> bf_nbits r1"
    using bf_peek_ok [OF assms] by auto
  define r2 where "r2 = r1\<lparr> bf_buf := drop_bit n (bf_buf r1), bf_nbits := bf_nbits r1 - n,
      bf_bits_read := bf_bits_read r1 + n \<rparr>"
  have g: "bf_get n r = Inr (le_nat (bf_src r) div 2 ^ bf_bits_read r mod 2 ^ n, r2)"
    by (simp add: bf_get_def r1(1) r2_def)
  have "unat (bf_buf r1) = le_nat (bf_src r1) div 2 ^ bf_bits_read r1 mod 2 ^ (n + (bf_nbits r1 - n))"
    using r1(2,5) by (simp add: bf_ok_def)
  then have "unat (bf_buf r1) div 2 ^ n = le_nat (bf_src r1) div 2 ^ (bf_bits_read r1 + n) mod 2 ^ (bf_nbits r1 - n)"
    unfolding power_add [of 2 "bf_bits_read r1" n] div_mult2_eq
    by (simp only: div_pow2_mod_pow2)
  then have "bf_ok r2" using r1(2,5) unfolding bf_ok_def by (auto simp: r2_def unat_drop_bit64)
  then show ?thesis using True g r1 by (auto simp: r2_def)
next
  case False
  then show ?thesis using bf_peek_ok [OF assms] by (simp add: bf_get_def)
qed

text \<open>The forward reader of table descriptions delivers the stream's bits in order: \<open>get n\<close>
  returns bits \<open>p .. p + n\<close> of the little-endian number the slice denotes and advances the count of
  bits read by \<open>n\<close>, or reports \<open>Corruption\<close> exactly when fewer than \<open>n\<close> bits are left; the wide
  and the byte-wise refill agree.\<close>

theorem bf_get_exact:
  assumes "bf_ok r" "n \<le> 32"
  shows "if bf_bits_read r + n \<le> 8 * length (bf_src r)
    then \<exists>r'. bf_get n r = Inr (le_nat (bf_src r) div 2 ^ bf_bits_read r mod 2 ^ n, r')
      \<and> bf_ok r' \<and> bf_src r' = bf_src r \<and> bf_bits_read r' = bf_bits_read r + n
    else bf_get n r = Inl Corruption"
  by (rule bf_get_ok [OF assms])

theorem bf_get_exact_witness: "\<exists>r'. bf_get 5 (bf_new [0xB7, 1]) = Inr (23, r')"
  using bf_get_exact [OF bf_new_ok, of 5 "[0xB7, 1]"] by (auto simp: bf_new_def)

end
