(* ===== verification/Fse_Tables.thy ===== *)
theory Fse_Tables
  imports Bit_Streams "HOL-Library.Multiset"
begin

text \<open>
  FSE decoding tables (\<^verbatim>\<open>fse.rs\<close>): the table entries, the build from normalised counts
  (\<open>from_norm\<close>, and the compile-time \<open>predefined_table\<close>), the parser of the counts
  (\<open>parse_ncount_into\<close>) and the decoder's state steps.

  The symbol spread walks the table with an odd step and skips the cells that the low-probability
  symbols hold. The inner skip loop is a \<open>partial_function\<close>: that it ends is a theorem
  (\<open>skip_high_ends\<close>), not an assumption. Counts are integers, table cells and states naturals
  with the \<^verbatim>\<open>u16\<close> wrap-around written out.
\<close>

section \<open>Table entries\<close>

record fse_entry =
  fe_baseline :: nat
  fe_symbol :: nat
  fe_num_bits :: nat

record fse_table =
  ft_decode :: "fse_entry list"
  ft_accuracy_log :: nat

definition blank_entry :: fse_entry where
  "blank_entry = \<lparr> fe_baseline = 0, fe_symbol = 0, fe_num_bits = 0 \<rparr>"

definition fse_rle :: "nat \<Rightarrow> fse_table" where
  "fse_rle symbol = \<lparr> ft_decode = [blank_entry\<lparr> fe_symbol := symbol mod 256 \<rparr>], ft_accuracy_log = 0 \<rparr>"

definition set_symbol :: "nat \<Rightarrow> nat \<Rightarrow> fse_entry list \<Rightarrow> fse_entry list" where
  "set_symbol i s d = d[i := (d ! i)\<lparr> fe_symbol := s \<rparr>]"

section \<open>The spread\<close>

text \<open>\<^verbatim>\<open>while position > high_threshold { position = (position + step) & mask }\<close>.\<close>

partial_function (option) skip_high :: "nat \<Rightarrow> nat \<Rightarrow> nat \<Rightarrow> nat \<Rightarrow> nat option" where
  "skip_high step msk high pos =
     (if high < pos then skip_high step msk high ((pos + step) AND msk) else Some pos)"

text \<open>The cells of one symbol, then of every symbol in turn; \<open>wr\<close> writes one cell of the table
  being built (the decoder's entries, the encoder's symbol list).\<close>

fun spread_n :: "(nat \<Rightarrow> nat \<Rightarrow> 'd \<Rightarrow> 'd) \<Rightarrow> nat \<Rightarrow> nat \<Rightarrow> nat \<Rightarrow> nat \<Rightarrow> nat \<Rightarrow> nat \<times> 'd \<Rightarrow> (nat \<times> 'd) option" where
  "spread_n wr step msk high s 0 st = Some st"
| "spread_n wr step msk high s (Suc n) (pos, d) =
     Option.bind (skip_high step msk high ((pos + step) AND msk))
       (\<lambda>pos'. spread_n wr step msk high s n (pos', wr pos s d))"

fun spread_all :: "(nat \<Rightarrow> nat \<Rightarrow> 'd \<Rightarrow> 'd) \<Rightarrow> nat \<Rightarrow> nat \<Rightarrow> nat \<Rightarrow> nat \<Rightarrow> int list \<Rightarrow> nat \<times> 'd \<Rightarrow> (nat \<times> 'd) option" where
  "spread_all wr step msk high s [] st = Some st"
| "spread_all wr step msk high s (p # ps) st =
     Option.bind (spread_n wr step msk high s (nat p) st) (spread_all wr step msk high (s + 1) ps)"

definition fse_step :: "nat \<Rightarrow> nat" where
  "fse_step ts = drop_bit 1 ts + drop_bit 3 ts + 3"

section \<open>The build\<close>

text \<open>First loop: symbols of probability \<open>-1\<close> take the top cells, and \<open>symbol_next\<close> starts at the
  count of each symbol.\<close>

fun place_low :: "nat \<Rightarrow> int list \<Rightarrow> nat \<Rightarrow> fse_entry list \<Rightarrow> nat list \<Rightarrow> (nat \<times> fse_entry list \<times> nat list) res" where
  "place_low s [] high d nx = Inr (high, d, nx)"
| "place_low s (p # ps) high d nx =
     (if 255 < s then Inl Corruption
      else if p = -1 then
        if high = 0 \<and> 0 < s then Inl Corruption
        else
          let d = set_symbol high s d
          in if high = 0 then Inl Corruption
             else place_low (s + 1) ps (high - 1) d (nx[s := 1])
      else if 0 < p then place_low (s + 1) ps high d (nx[s := nat p mod 65536])
      else place_low (s + 1) ps high d nx)"

text \<open>Last loop: the state each cell stands for, in table order.\<close>

fun finish_entries :: "nat \<Rightarrow> nat \<Rightarrow> fse_entry list \<Rightarrow> nat list \<Rightarrow> fse_entry list res" where
  "finish_entries log ts [] nx = Inr []"
| "finish_entries log ts (e # es) nx =
     (let s = fe_symbol e
      in if length nx \<le> s then Inl Corruption
         else
           let next_state = nx ! s;
               nx = nx[s := (next_state + 1) mod 65536]
           in if next_state = 0 then Inl Corruption
              else
                let hb = highbit next_state
                in if log < hb then Inl Corruption
                   else
                     let nb = log - hb;
                         e = e\<lparr> fe_num_bits := nb, fe_baseline := (push_bit nb next_state - ts) mod 65536 \<rparr>
                     in rbind (finish_entries log ts es nx) (\<lambda>es. Inr (e # es)))"

definition from_norm_buf :: "int list \<Rightarrow> nat \<Rightarrow> fse_entry list res option" where
  "from_norm_buf norm log =
     (if \<not> (5 \<le> log \<and> log \<le> 9) then Some (Inl Corruption)
      else
        let ts = push_bit log 1;
            d = replicate ts blank_entry;
            n_sym = max (length norm) 1
        in if 256 < n_sym then Some (Inl Corruption)
           else
             case place_low 0 norm (ts - 1) d (replicate n_sym 0) of
               Inl e \<Rightarrow> Some (Inl e)
             | Inr (high, d, nx) \<Rightarrow>
                 Option.bind (spread_all set_symbol (fse_step ts) (ts - 1) high 0 norm (0, d))
                   (\<lambda>(pos, d). Some (finish_entries log ts d nx)))"

definition from_norm :: "int list \<Rightarrow> nat \<Rightarrow> fse_table res option" where
  "from_norm norm log =
     Option.bind (from_norm_buf norm log)
       (\<lambda>r. Some (rbind r (\<lambda>d. Inr \<lparr> ft_decode = d, ft_accuracy_log = log \<rparr>)))"

section \<open>The decoder's state\<close>

definition fse_init_state :: "fse_table \<Rightarrow> bitrev \<Rightarrow> nat \<times> bitrev" where
  "fse_init_state t br = (let (v, br) = br_read (ft_accuracy_log t) br in (v mod 65536, br))"

definition fse_entry_at :: "fse_table \<Rightarrow> nat \<Rightarrow> fse_entry" where
  "fse_entry_at t state = ft_decode t ! (state AND (length (ft_decode t) - 1))"

definition fse_advance :: "fse_entry \<Rightarrow> bitrev \<Rightarrow> nat \<times> bitrev" where
  "fse_advance e br =
     (let (add, br) = br_read (fe_num_bits e) br in ((fe_baseline e + add mod 65536) mod 65536, br))"

definition fse_update :: "fse_table \<Rightarrow> nat \<Rightarrow> bitrev \<Rightarrow> nat \<times> bitrev" where
  "fse_update t state br = fse_advance (fse_entry_at t state) br"

text \<open>The packed entry the sequence loop loads without a mask, and its three fields.\<close>

definition fse_entry_u32 :: "fse_table \<Rightarrow> nat \<Rightarrow> nat option" where
  "fse_entry_u32 t state =
     (if state < length (ft_decode t)
      then let e = ft_decode t ! state
           in Some (fe_baseline e OR push_bit 16 (fe_symbol e) OR push_bit 24 (fe_num_bits e))
      else None)"

definition fse_baseline :: "nat \<Rightarrow> nat" where "fse_baseline w = w mod 65536"
definition fse_symbol :: "nat \<Rightarrow> nat" where "fse_symbol w = drop_bit 16 w mod 256"
definition fse_nbits :: "nat \<Rightarrow> nat" where "fse_nbits w = drop_bit 24 w mod 256"

definition fse_advance_w :: "nat \<Rightarrow> bitrev \<Rightarrow> nat \<times> bitrev" where
  "fse_advance_w w br =
     (let (add, br) = br_read (fse_nbits w) br in ((fse_baseline w + add mod 65536) mod 65536, br))"

section \<open>The walk visits every cell once\<close>

text \<open>\<open>orbit\<close>: the cells an odd step visits before it wraps around.\<close>

definition orbit :: "nat \<Rightarrow> nat \<Rightarrow> nat \<Rightarrow> nat list" where
  "orbit ts step j = map (\<lambda>i. i * step mod ts) [j..<ts]"

lemma fse_step_odd:
  assumes "5 \<le> log"
  shows "coprime (fse_step (2 ^ log)) (2 ^ log)"
proof -
  obtain k where k: "log = 5 + k" using assms le_Suc_ex by blast
  have "odd (fse_step (2 ^ log))"
    by (simp add: fse_step_def drop_bit_eq_div k power_add)
  then show ?thesis by (simp add: coprime_commute)
qed

lemma orbit_perm:
  assumes "coprime step ts" "0 < ts"
  shows "distinct (orbit ts step 0)" "set (orbit ts step 0) = {0..<ts}"
proof -
  have inj: "inj_on (\<lambda>i. i * step mod ts) {0..<ts}"
  proof (rule inj_onI)
    fix i j assume ij: "i \<in> {0..<ts}" "j \<in> {0..<ts}" "i * step mod ts = j * step mod ts"
    have "i = j" if "i \<le> j" "i < ts" "j < ts" "i * step mod ts = j * step mod ts" for i j
    proof -
      have "ts dvd j * step - i * step" using that by (metis mod_eq_dvd_iff_nat mult_le_mono1)
      then have "ts dvd j - i"
        using assms(1) by (simp add: diff_mult_distrib [symmetric] coprime_commute coprime_dvd_mult_left_iff)
      then show "i = j" using that by (metis dvd_imp_le diff_is_0_eq less_imp_diff_less linorder_not_less le_antisym zero_less_diff)
    qed
    then show "i = j" using ij by (metis atLeastLessThan_iff nat_le_linear)
  qed
  then show "distinct (orbit ts step 0)" by (simp add: orbit_def distinct_map)
  have "(\<lambda>i. i * step mod ts) ` {0..<ts} \<subseteq> {0..<ts}" using assms(2) by auto
  then show "set (orbit ts step 0) = {0..<ts}"
    using inj by (simp add: orbit_def endo_inj_surj)
qed

lemma orbit_Cons: "j < ts \<Longrightarrow> orbit ts step j = (j * step mod ts) # orbit ts step (Suc j)"
  by (simp add: orbit_def upt_conv_Cons)

lemma orbit_end [simp]: "orbit ts step ts = []"
  by (simp add: orbit_def)

lemma and_mask_mod: "k AND (2 ^ n - 1) = k mod (2 :: nat) ^ n"
  by simp

text \<open>The skip loop, started on the \<open>j\<close>-th cell of the walk, ends on the next one at or below the
  threshold (the start of the table at the latest).\<close>

lemma skip_high_ok:
  assumes "ts = 2 ^ log" "j \<le> ts"
  shows "\<exists>j'. j \<le> j' \<and> j' \<le> ts \<and> skip_high step (ts - 1) high (j * step mod ts) = Some (j' * step mod ts)
    \<and> j' * step mod ts \<le> high
    \<and> filter (\<lambda>p. p \<le> high) (orbit ts step j) = filter (\<lambda>p. p \<le> high) (orbit ts step j')"
  using assms(2)
proof (induction "ts - j" arbitrary: j rule: less_induct)
  case less
  show ?case
  proof (cases "high < j * step mod ts")
    case False
    then show ?thesis using less.prems by (intro exI [of _ j]) (simp add: skip_high.simps)
  next
    case True
    then have j: "j < ts" using less.prems by (cases "j = ts") auto
    have nxt: "(j * step mod ts + step) AND (ts - 1) = Suc j * step mod ts"
      unfolding assms(1) and_mask_mod by (simp add: mod_add_right_eq add.commute)
    obtain j' where j': "Suc j \<le> j'" "j' \<le> ts" "skip_high step (ts - 1) high (Suc j * step mod ts) = Some (j' * step mod ts)"
        "j' * step mod ts \<le> high"
        "filter (\<lambda>p. p \<le> high) (orbit ts step (Suc j)) = filter (\<lambda>p. p \<le> high) (orbit ts step j')"
      using less.hyps [OF diff_less_mono2 [OF lessI j] Suc_leI [OF j]] by blast
    have "skip_high step (ts - 1) high (j * step mod ts) = skip_high step (ts - 1) high (Suc j * step mod ts)"
      using True by (subst skip_high.simps) (simp only: nxt if_True)
    then show ?thesis using j' True j by (intro exI [of _ j']) (simp add: orbit_Cons)
  qed
qed

lemma skip_high_ends:
  assumes "ts = 2 ^ log" "coprime step ts" "pos < ts"
  shows "\<exists>pos'. skip_high step (ts - 1) high pos = Some pos' \<and> pos' \<le> high \<and> pos' < ts"
proof -
  have ts: "0 < ts" using assms(1) by simp
  have "pos \<in> set (orbit ts step 0)" using orbit_perm(2) [OF assms(2) ts] assms(3) by simp
  then obtain j where "j < ts" "pos = j * step mod ts" by (auto simp: orbit_def)
  then show ?thesis using skip_high_ok [OF assms(1), of j step high] ts by fastforce
qed

section \<open>The spread as a list of writes\<close>

fun expand :: "nat \<Rightarrow> int list \<Rightarrow> nat list" where
  "expand s [] = []"
| "expand s (p # ps) = replicate (nat p) s @ expand (Suc s) ps"

fun lows :: "nat \<Rightarrow> int list \<Rightarrow> nat list" where
  "lows s [] = []"
| "lows s (p # ps) = (if p = -1 then s # lows (Suc s) ps else lows (Suc s) ps)"

definition writes :: "(nat \<Rightarrow> nat \<Rightarrow> 'd \<Rightarrow> 'd) \<Rightarrow> (nat \<times> nat) list \<Rightarrow> 'd \<Rightarrow> 'd" where
  "writes wr ws d = fold (\<lambda>(i, s). wr i s) ws d"

lemma writes_simps [simp]:
  "writes wr [] d = d" "writes wr ((i, s) # ws) d = writes wr ws (wr i s d)"
  "writes wr (us @ ws) d = writes wr ws (writes wr us d)"
  by (simp_all add: writes_def)

fun spread_flat :: "(nat \<Rightarrow> nat \<Rightarrow> 'd \<Rightarrow> 'd) \<Rightarrow> nat \<Rightarrow> nat \<Rightarrow> nat \<Rightarrow> nat list \<Rightarrow> nat \<times> 'd \<Rightarrow> (nat \<times> 'd) option" where
  "spread_flat wr step msk high [] st = Some st"
| "spread_flat wr step msk high (s # ss) (pos, d) =
     Option.bind (skip_high step msk high ((pos + step) AND msk))
       (\<lambda>pos'. spread_flat wr step msk high ss (pos', wr pos s d))"

lemma spread_flat_append: "spread_flat wr step msk high (xs @ ys) st =
    Option.bind (spread_flat wr step msk high xs st) (spread_flat wr step msk high ys)"
  by (induction wr step msk high xs st rule: spread_flat.induct) (auto split: Option.bind_splits)

lemma spread_n_flat: "spread_n wr step msk high s n st = spread_flat wr step msk high (replicate n s) st"
  by (induction wr step msk high s n st rule: spread_n.induct) (auto intro: Option.bind_cong)

lemma spread_all_flat: "spread_all wr step msk high s ps st = spread_flat wr step msk high (expand s ps) st"
proof (induction ps arbitrary: s st)
  case (Cons p ps)
  have "spread_all wr step msk high (Suc s) ps = spread_flat wr step msk high (expand (Suc s) ps)"
    by (rule ext) (rule Cons.IH)
  then show ?case by (simp add: spread_n_flat spread_flat_append)
qed simp

text \<open>When the symbols fit below the threshold the writes are those of the filtered walk.\<close>

lemma spread_flat_ok:
  assumes "ts = 2 ^ log" "j \<le> ts" "j * step mod ts \<le> high"
    "length ss \<le> length (filter (\<lambda>p. p \<le> high) (orbit ts step j))"
  shows "\<exists>pos'. spread_flat wr step (ts - 1) high ss (j * step mod ts, d) =
    Some (pos', writes wr (zip (filter (\<lambda>p. p \<le> high) (orbit ts step j)) ss) d)"
  using assms(2-)
proof (induction ss arbitrary: j d)
  case (Cons s ss)
  have j: "j < ts" using Cons.prems(1,3) by (cases "j = ts") auto
  then have hd: "filter (\<lambda>p. p \<le> high) (orbit ts step j) =
      (j * step mod ts) # filter (\<lambda>p. p \<le> high) (orbit ts step (Suc j))"
    using Cons.prems(2) by (simp add: orbit_Cons)
  have nxt: "(j * step mod ts + step) AND (ts - 1) = Suc j * step mod ts"
    unfolding assms(1) and_mask_mod by (simp add: mod_add_right_eq add.commute)
  obtain j' where j': "j' \<le> ts" "skip_high step (ts - 1) high (Suc j * step mod ts) = Some (j' * step mod ts)"
      "j' * step mod ts \<le> high"
      "filter (\<lambda>p. p \<le> high) (orbit ts step (Suc j)) = filter (\<lambda>p. p \<le> high) (orbit ts step j')"
    using skip_high_ok [OF assms(1) Suc_leI [OF j]] by blast
  have len: "length ss \<le> length (filter (\<lambda>p. p \<le> high) (orbit ts step j'))"
    using Cons.prems(3) unfolding hd j'(4) by simp
  show ?case
    using Cons.IH [OF j'(1,3) len, of "wr (j * step mod ts) s d"]
    unfolding spread_flat.simps nxt j'(2) hd j'(4) by simp
qed simp

lemma spread_flat_ends:
  assumes "ts = 2 ^ log" "coprime step ts" "pos < ts" "P d" "\<And>i s d. i < ts \<Longrightarrow> P d \<Longrightarrow> P (wr i s d)"
  shows "\<exists>pos' d'. spread_flat wr step (ts - 1) high ss (pos, d) = Some (pos', d') \<and> P d'"
  using assms(3-4)
proof (induction ss arbitrary: pos d)
  case (Cons s ss)
  have "(pos + step) AND (ts - 1) < ts" unfolding assms(1) and_mask_mod by simp
  then obtain pos' where "skip_high step (ts - 1) high ((pos + step) AND (ts - 1)) = Some pos'" "pos' < ts"
    using skip_high_ends [OF assms(1,2)] by blast
  then show ?case
    using Cons.IH [of pos' "wr pos s d"] assms(5) Cons.prems by simp
qed simp

section \<open>Every cell is written once\<close>

text \<open>All writes of a build: the low-probability symbols from the top, then the walk.\<close>

definition placement :: "nat \<Rightarrow> int list \<Rightarrow> (nat \<times> nat) list" where
  "placement ts norm =
     zip (map (\<lambda>i. ts - 1 - i) [0..<length (lows 0 norm)]) (lows 0 norm)
     @ zip (filter (\<lambda>p. p \<le> ts - 1 - length (lows 0 norm)) (orbit ts (fse_step ts) 0)) (expand 0 norm)"

definition spread_list :: "nat \<Rightarrow> int list \<Rightarrow> nat list" where
  "spread_list ts norm = writes (\<lambda>i s t. t[i := s]) (placement ts norm) (replicate ts 0)"

text \<open>Counts as the parser of the format accepts them: at least \<open>-1\<close>, and their magnitudes fill the
  table.\<close>

definition count_of :: "int \<Rightarrow> nat" where "count_of p = nat \<bar>p\<bar>"

definition norm_ok :: "nat \<Rightarrow> int list \<Rightarrow> bool" where
  "norm_ok log norm \<longleftrightarrow> list_all (\<lambda>p. -1 \<le> p) norm \<and> sum_list (map count_of norm) = 2 ^ log"

lemma count_replicate [simp]: "count_list (replicate n x) y = (if x = y then n else 0)"
  by (induction n) auto

lemma count_expand: "count_list (expand s ps) t =
    (if s \<le> t \<and> t < s + length ps then nat (ps ! (t - s)) else 0)"
  by (induction ps arbitrary: s) (auto simp: nth_Cons' Suc_diff_le)

lemma count_lows: "count_list (lows s ps) t =
    (if s \<le> t \<and> t < s + length ps \<and> ps ! (t - s) = -1 then 1 else 0)"
  by (induction ps arbitrary: s) (auto simp: nth_Cons' Suc_diff_le)

lemma length_lows_expand:
  "list_all (\<lambda>p. -1 \<le> p) ps \<Longrightarrow> length (lows s ps) + length (expand s ps) = sum_list (map count_of ps)"
  by (induction ps arbitrary: s) (auto simp: count_of_def)

lemma mset_writes:
  assumes "distinct (map fst ws)" "set (map fst ws) = {0..<length d}"
  shows "mset (writes (\<lambda>i s t. t[i := s]) ws d) = mset (map snd ws)"
proof -
  let ?r = "writes (\<lambda>i s t. t[i := s]) ws d"
  have len: "length (writes (\<lambda>i s t. t[i := s]) ws d) = length d" for ws d
    by (induction ws arbitrary: d) auto
  have keep: "i \<notin> set (map fst ws) \<Longrightarrow> writes (\<lambda>i s t. t[i := s]) ws d ! i = d ! i" for ws and d :: "nat list" and i
    by (induction ws arbitrary: d) auto
  have get: "(i, s) \<in> set ws \<Longrightarrow> distinct (map fst ws) \<Longrightarrow> i < length d
      \<Longrightarrow> writes (\<lambda>i s t. t[i := s]) ws d ! i = s" for ws and d :: "nat list" and i s
    by (induction ws arbitrary: d) (auto simp: keep)
  have "mset ?r = mset (map (\<lambda>i. ?r ! i) [0..<length d])"
    using map_nth [of ?r] by (simp add: len)
  also have "\<dots> = image_mset (\<lambda>i. ?r ! i) (mset (map fst ws))"
    using assms by (metis distinct_upt mset_map set_eq_iff_mset_eq_distinct set_upt)
  also have "\<dots> = mset (map (\<lambda>w. ?r ! fst w) ws)" by (simp add: multiset.map_comp comp_def)
  also have "map (\<lambda>w. ?r ! fst w) ws = map snd ws"
    using get [OF _ assms(1)] assms(2) by (auto intro!: map_cong) force
  finally show ?thesis .
qed

lemma placement_perm:
  assumes "norm_ok log norm" "5 \<le> log" "length (lows 0 norm) < 2 ^ log"
  shows "distinct (map fst (placement (2 ^ log) norm))" "set (map fst (placement (2 ^ log) norm)) = {0..<2 ^ log}"
    "map snd (placement (2 ^ log) norm) = lows 0 norm @ expand 0 norm"
proof -
  define ts where "ts = (2 :: nat) ^ log"
  define L where "L = length (lows 0 norm)"
  define walk where "walk = filter (\<lambda>p. p \<le> ts - 1 - L) (orbit ts (fse_step ts) 0)"
  have L: "L < ts" using assms(3) by (simp add: L_def ts_def)
  have orb: "distinct (orbit ts (fse_step ts) 0)" "set (orbit ts (fse_step ts) 0) = {0..<ts}"
    using orbit_perm [OF fse_step_odd [OF assms(2)]] by (simp_all add: ts_def)
  have walk: "distinct walk" "set walk = {0..<ts - L}"
    using orb L by (auto simp: walk_def)
  have "length walk = ts - L" using walk distinct_card [of walk] by simp
  moreover have "L + length (expand 0 norm) = ts"
    using assms(1) length_lows_expand [of norm 0] by (simp add: norm_ok_def L_def ts_def)
  ultimately have len: "length walk = length (expand 0 norm)" by simp
  let ?top = "map (\<lambda>i. ts - 1 - i) [0..<L]"
  have pl: "placement (2 ^ log) norm = zip ?top (lows 0 norm) @ zip walk (expand 0 norm)"
    by (simp add: placement_def ts_def L_def walk_def)
  have fst: "map fst (placement (2 ^ log) norm) = ?top @ walk"
    unfolding pl using len by (simp add: L_def)
  have top: "set ?top = {ts - L..<ts}"
  proof -
    have "x \<in> set ?top" if "ts - L \<le> x" "x < ts" for x
      using that L by (auto intro!: image_eqI [of _ _ "ts - 1 - x"])
    then show ?thesis using L by auto
  qed
  show "distinct (map fst (placement (2 ^ log) norm))"
    unfolding fst using walk L top by (auto simp: distinct_map inj_on_def)
  show "set (map fst (placement (2 ^ log) norm)) = {0..<2 ^ log}"
    unfolding fst set_append top walk(2) using L by (auto simp: ts_def)
  show "map snd (placement (2 ^ log) norm) = lows 0 norm @ expand 0 norm"
    unfolding pl using len by (simp add: L_def)
qed

lemma length_writes [simp]: "length (writes (\<lambda>i s t. t[i := s]) ws d) = length d"
  by (induction ws arbitrary: d) auto

lemma length_spread_list [simp]: "length (spread_list ts norm) = ts"
  by (simp add: spread_list_def)

lemma spread_list_count:
  assumes "norm_ok log norm" "5 \<le> log" "length (lows 0 norm) < 2 ^ log"
  shows "count_list (spread_list (2 ^ log) norm) s = (if s < length norm then count_of (norm ! s) else 0)"
proof -
  note p = placement_perm [OF assms]
  have "mset (spread_list (2 ^ log) norm) = mset (lows 0 norm @ expand 0 norm)"
    unfolding spread_list_def p(3) [symmetric] using p(2) by (intro mset_writes [OF p(1)]) simp
  then have "count_list (spread_list (2 ^ log) norm) s = count_list (lows 0 norm @ expand 0 norm) s"
    by (metis count_mset)
  moreover have "s < length norm \<Longrightarrow> -1 \<le> norm ! s"
    using assms(1) by (simp add: norm_ok_def list_all_length)
  ultimately show ?thesis
    by (cases "s < length norm") (auto simp: count_expand count_lows count_of_def)
qed

section \<open>What the build returns\<close>

lemma place_low_ok:
  assumes "length pre + length ps \<le> 256" "length (lows (length pre) ps) \<le> high"
    "list_all (\<lambda>p. -1 \<le> p \<and> p < 65536) ps"
  shows "place_low (length pre) ps high d (pre @ replicate (length ps) 0) =
    Inr (high - length (lows (length pre) ps),
      writes set_symbol (zip (map (\<lambda>i. high - i) [0..<length (lows (length pre) ps)]) (lows (length pre) ps)) d,
      pre @ map count_of ps)"
  using assms
proof (induction ps arbitrary: pre high d)
  case (Cons p ps)
  have upd: "(pre @ replicate (length (p # ps)) 0)[length pre := x] = (pre @ [x]) @ replicate (length ps) 0" for x
    by (simp add: list_update_append)
  show ?case
  proof (cases "p = -1")
    case True
    have "map (\<lambda>i. high - i) [0..<Suc n] = high # map (\<lambda>i. high - 1 - i) [0..<n]" for n
      by (simp add: upt_conv_Cons map_Suc_upt [symmetric] del: upt_Suc)
    then show ?thesis
      using Cons.IH [of "pre @ [1]" "high - 1" "set_symbol high (length pre) d"] Cons.prems True upd [of 1]
      by (auto simp: count_of_def Let_def simp del: upt_Suc)
  next
    case False
    have c: "count_of p = (if 0 < p then nat p mod 65536 else 0)"
      using Cons.prems(3) False by (auto simp: count_of_def nat_less_iff)
    have z: "pre @ replicate (length (p # ps)) 0 = (pre @ [0]) @ replicate (length ps) 0" by simp
    show ?thesis
      using Cons.IH [of "pre @ [count_of p]" high d] Cons.prems False upd [of "count_of p"] c
      by (cases "0 < p") (simp_all add: upd [symmetric])
  qed
qed simp

lemma length_set_symbol [simp]: "length (set_symbol i s d) = length d"
  by (simp add: set_symbol_def)

lemma symbols_writes:
  "list_all (\<lambda>w. fst w < length d) ws \<Longrightarrow>
    map fe_symbol (writes set_symbol ws d) = writes (\<lambda>i s t. t[i := s]) ws (map fe_symbol d)"
  by (induction ws arbitrary: d) (auto simp: set_symbol_def map_update)

lemma expand_nil: "expand 0 norm = [] \<longleftrightarrow> list_all (\<lambda>p. p \<le> 0) norm"
proof -
  have "expand s norm = [] \<longleftrightarrow> list_all (\<lambda>p. p \<le> 0) norm" for s by (induction norm arbitrary: s) auto
  then show ?thesis .
qed

text \<open>Some count is positive: the low-probability symbols alone do not fill the table.\<close>

lemma lows_room:
  assumes "norm_ok log norm" "\<not> list_all (\<lambda>p. p \<le> 0) norm"
  shows "length (lows 0 norm) < 2 ^ log"
proof -
  have "0 < length (expand 0 norm)" using assms(2) expand_nil [of norm] by simp
  moreover have "length (lows 0 norm) + length (expand 0 norm) = 2 ^ log"
    using length_lows_expand [of norm 0] assms(1) by (simp add: norm_ok_def)
  ultimately show ?thesis by linarith
qed

lemma count_le: "norm_ok log norm \<Longrightarrow> p \<in> set norm \<Longrightarrow> count_of p \<le> 2 ^ log"
  using member_le_sum_list [of "count_of p" "map count_of norm"] by (simp add: norm_ok_def)

lemma norm_small:
  assumes "norm_ok log norm" "log \<le> 9"
  shows "list_all (\<lambda>p. -1 \<le> p \<and> p < 65536) norm"
  unfolding list_all_iff
proof
  fix p assume p: "p \<in> set norm"
  have "(2 :: nat) ^ log \<le> 2 ^ 9" using assms(2) by (intro power_increasing) auto
  then have "count_of p \<le> 512" using count_le [OF assms(1) p] by simp
  moreover have "-1 \<le> p" using assms(1) p by (simp add: norm_ok_def list_all_iff)
  ultimately show "-1 \<le> p \<and> p < 65536" by (auto simp: count_of_def)
qed

lemma from_norm_buf_spread:
  assumes "norm_ok log norm" "5 \<le> log" "log \<le> 9" "length norm \<le> 256" "\<not> list_all (\<lambda>p. p \<le> 0) norm"
  shows "\<exists>d. from_norm_buf norm log = Some (finish_entries log (2 ^ log) d (map count_of norm))
    \<and> map fe_symbol d = spread_list (2 ^ log) norm"
proof -
  define ts where "ts = (2 :: nat) ^ log"
  define L where "L = length (lows 0 norm)"
  have ts: "push_bit log (1 :: nat) = ts" "0 < ts" by (simp_all add: ts_def push_bit_eq_mult)
  have n: "max (length norm) 1 = length norm" using assms(5) by (cases norm) auto
  have L: "L < ts" using lows_room [OF assms(1,5)] by (simp add: L_def ts_def)
  note bound = norm_small [OF assms(1,3)]
  let ?top = "zip (map (\<lambda>i. ts - 1 - i) [0..<L]) (lows 0 norm)"
  let ?walk = "filter (\<lambda>p. p \<le> ts - 1 - L) (orbit ts (fse_step ts) 0)"
  let ?d0 = "replicate ts blank_entry"
  have low: "place_low 0 norm (ts - 1) ?d0 (replicate (length norm) 0) =
      Inr (ts - 1 - L, writes set_symbol ?top ?d0, map count_of norm)"
    using place_low_ok [of "[]" norm "ts - 1" ?d0] assms(4) bound L by (simp add: L_def)
  have pl: "placement ts norm = ?top @ zip ?walk (expand 0 norm)"
    by (simp add: placement_def L_def)
  note perm = placement_perm [OF assms(1,2), folded ts_def, OF L [unfolded L_def]]
  have fits: "length (expand 0 norm) \<le> length ?walk"
  proof -
    have "length (map snd (placement ts norm)) = L + length (expand 0 norm)"
      unfolding perm(3) by (simp add: L_def)
    then have "length (zip ?walk (expand 0 norm)) = length (expand 0 norm)"
      unfolding pl by (simp add: L_def)
    then show ?thesis by simp
  qed
  obtain pos' where walk: "spread_all set_symbol (fse_step ts) (ts - 1) (ts - 1 - L) 0 norm (0, writes set_symbol ?top ?d0)
      = Some (pos', writes set_symbol (placement ts norm) ?d0)"
    using spread_flat_ok [OF ts_def, of 0 "fse_step ts" "ts - 1 - L" "expand 0 norm" set_symbol "writes set_symbol ?top ?d0"] fits
    by (auto simp: spread_all_flat pl)
  have range: "list_all (\<lambda>w. fst w < ts) (placement ts norm)"
    unfolding list_all_iff
  proof
    fix w assume "w \<in> set (placement ts norm)"
    then have "fst w \<in> set (map fst (placement ts norm))" by simp
    then show "fst w < ts" unfolding perm(2) by simp
  qed
  have "map fe_symbol (writes set_symbol (placement ts norm) ?d0) = spread_list ts norm"
    using symbols_writes [of ?d0 "placement ts norm"] range by (simp add: spread_list_def blank_entry_def)
  moreover have "from_norm_buf norm log =
      Some (finish_entries log (2 ^ log) (writes set_symbol (placement ts norm) ?d0) (map count_of norm))"
  proof -
    have c: "\<not> \<not> (5 \<le> log \<and> log \<le> 9)" "\<not> 256 < length norm" using assms(2-4) by simp_all
    show ?thesis
      unfolding from_norm_buf_def Let_def ts(1) n low if_not_P [OF c(1)] if_not_P [OF c(2)] sum.case prod.case
        walk Option.bind.simps ts_def [symmetric] by (rule refl)
  qed
  ultimately show ?thesis by (auto simp: ts_def)
qed

text \<open>The state a cell stands for: the symbol's count plus the number of its earlier cells.\<close>

definition cell_state :: "nat list \<Rightarrow> nat list \<Rightarrow> nat \<Rightarrow> nat" where
  "cell_state nx sy i = nx ! (sy ! i) + count_list (take i sy) (sy ! i)"

definition cell :: "nat \<Rightarrow> nat list \<Rightarrow> nat list \<Rightarrow> nat \<Rightarrow> fse_entry" where
  "cell log nx sy i =
     (let ns = cell_state nx sy i; nb = log - highbit ns
      in \<lparr> fe_baseline = ns * 2 ^ nb - 2 ^ log, fe_symbol = sy ! i, fe_num_bits = nb \<rparr>)"

lemma state_range:
  assumes "0 < ns" "ns < 2 * 2 ^ log"
  shows "highbit ns \<le> log" "2 ^ log \<le> ns * 2 ^ (log - highbit ns)"
    "ns * 2 ^ (log - highbit ns) + 2 ^ (log - highbit ns) \<le> 2 * 2 ^ log"
proof -
  have b: "2 ^ highbit ns \<le> ns" "ns + 1 \<le> 2 * 2 ^ highbit ns" using highbit_bounds [OF assms(1)] by auto
  show hb: "highbit ns \<le> log" using highbit_less [OF assms(1), of "Suc log"] assms(2) by simp
  have p: "2 ^ highbit ns * 2 ^ (log - highbit ns) = (2 :: nat) ^ log"
    using hb by (simp add: power_add [symmetric])
  show "2 ^ log \<le> ns * 2 ^ (log - highbit ns)"
    unfolding p [symmetric] using b(1) by (rule mult_le_mono1)
  show "ns * 2 ^ (log - highbit ns) + 2 ^ (log - highbit ns) \<le> 2 * 2 ^ log"
    using mult_le_mono1 [OF b(2), of "2 ^ (log - highbit ns)"] p by (simp add: algebra_simps)
qed

lemma finish_entries_ok:
  assumes "log \<le> 9"
    "\<And>i. i < length es \<Longrightarrow> fe_symbol (es ! i) < length nx \<and> 0 < nx ! fe_symbol (es ! i)
      \<and> cell_state nx (map fe_symbol es) i < 2 * 2 ^ log"
  shows "finish_entries log (2 ^ log) es nx = Inr (map (cell log nx (map fe_symbol es)) [0..<length es])"
  using assms(2)
proof (induction es arbitrary: nx)
  case (Cons e es)
  let ?s = "fe_symbol e" and ?sy = "map fe_symbol es"
  let ?nx = "nx[?s := nx ! ?s + 1]"
  have lim: "(2 :: nat) * 2 ^ log \<le> 1024" using power_increasing [of log 9 "2 :: nat"] assms(1) by simp
  have s: "?s < length nx" "0 < nx ! ?s" "nx ! ?s < 2 * 2 ^ log"
    using Cons.prems [of 0] by (simp_all add: cell_state_def)
  have step: "cell_state nx (map fe_symbol (e # es)) (Suc i) = cell_state ?nx ?sy i" if "i < length es" for i
    using s(1) that by (cases "?s = ?sy ! i") (simp_all add: cell_state_def)
  have rest: "finish_entries log (2 ^ log) es ?nx = Inr (map (cell log ?nx ?sy) [0..<length es])"
  proof (rule Cons.IH)
    fix i assume i: "i < length es"
    show "fe_symbol (es ! i) < length ?nx \<and> 0 < ?nx ! fe_symbol (es ! i) \<and> cell_state ?nx ?sy i < 2 * 2 ^ log"
      using Cons.prems [of "Suc i"] i step [OF i] s(1) by (auto simp: nth_list_update)
  qed
  have cells: "cell log ?nx ?sy i = cell log nx (map fe_symbol (e # es)) (Suc i)" if "i < length es" for i
    unfolding cell_def step [OF that] using that by simp
  have tl: "map (cell log ?nx ?sy) [0..<length es] = map (cell log nx (map fe_symbol (e # es))) (map Suc [0..<length es])"
    unfolding map_map comp_def using cells by (intro map_cong) auto
  note r = state_range [OF s(2,3)]
  have base: "nx ! ?s * 2 ^ (log - highbit (nx ! ?s)) - 2 ^ log < 65536" "(nx ! ?s + 1) mod 65536 = nx ! ?s + 1"
    using r(3) lim s(3) by (simp_all)
  have head: "cell log nx (map fe_symbol (e # es)) 0 = e\<lparr> fe_num_bits := log - highbit (nx ! ?s),
      fe_baseline := (push_bit (log - highbit (nx ! ?s)) (nx ! ?s) - 2 ^ log) mod 65536 \<rparr>"
    using base(1) by (cases e) (simp add: cell_def cell_state_def push_bit_eq_mult Let_def)
  have range: "[0..<length (e # es)] = 0 # map Suc [0..<length es]"
    by (simp add: map_Suc_upt upt_conv_Cons del: upt_Suc)
  have "finish_entries log (2 ^ log) (e # es) nx =
      rbind (finish_entries log (2 ^ log) es ?nx) (\<lambda>es. Inr (e\<lparr> fe_num_bits := log - highbit (nx ! ?s),
      fe_baseline := (push_bit (log - highbit (nx ! ?s)) (nx ! ?s) - 2 ^ log) mod 65536 \<rparr> # es))"
    using s r(1) base(2) by (simp add: Let_def)
  also have "\<dots> = Inr (map (cell log nx (map fe_symbol (e # es))) [0..<length (e # es)])"
    unfolding rest range head [symmetric] tl rbind_simps list.map(2) by (rule refl)
  finally show ?case .
qed simp

text \<open>The table of accepted counts, cell by cell.\<close>

definition table_of :: "int list \<Rightarrow> nat \<Rightarrow> fse_table" where
  "table_of norm log = \<lparr> ft_decode = map (cell log (map count_of norm) (spread_list (2 ^ log) norm)) [0..<2 ^ log],
     ft_accuracy_log = log \<rparr>"

lemma count_list_take_less: "i < length xs \<Longrightarrow> count_list (take i xs) (xs ! i) < count_list xs (xs ! i)"
proof -
  assume i: "i < length xs"
  have "count_list xs (xs ! i) = count_list (take i xs @ xs ! i # drop (Suc i) xs) (xs ! i)"
    using id_take_nth_drop [OF i] by simp
  then show ?thesis by simp
qed

lemma spread_cells:
  assumes "norm_ok log norm" "5 \<le> log" "log \<le> 9" "length norm \<le> 256" "\<not> list_all (\<lambda>p. p \<le> 0) norm" "i < 2 ^ log"
  shows "spread_list (2 ^ log) norm ! i < length norm" "0 < count_of (norm ! (spread_list (2 ^ log) norm ! i))"
    "cell_state (map count_of norm) (spread_list (2 ^ log) norm) i < 2 * count_of (norm ! (spread_list (2 ^ log) norm ! i))"
    "count_of (norm ! (spread_list (2 ^ log) norm ! i)) \<le> 2 ^ log"
proof -
  let ?sy = "spread_list (2 ^ log) norm"
  note cnt = spread_list_count [OF assms(1,2) lows_room [OF assms(1,5)]]
  have lt: "count_list (take i ?sy) (?sy ! i) < count_list ?sy (?sy ! i)"
    using count_list_take_less [of i ?sy] assms(6) by simp
  then show s: "?sy ! i < length norm" and pos: "0 < count_of (norm ! (?sy ! i))"
    unfolding cnt by (simp_all split: if_splits)
  show "cell_state (map count_of norm) ?sy i < 2 * count_of (norm ! (?sy ! i))"
    using lt s unfolding cnt by (simp add: cell_state_def)
  show "count_of (norm ! (?sy ! i)) \<le> 2 ^ log" using count_le [OF assms(1)] s by simp
qed

lemma from_norm_ok:
  assumes "norm_ok log norm" "5 \<le> log" "log \<le> 9" "length norm \<le> 256" "\<not> list_all (\<lambda>p. p \<le> 0) norm"
  shows "from_norm norm log = Some (Inr (table_of norm log))"
proof -
  obtain d where d: "from_norm_buf norm log = Some (finish_entries log (2 ^ log) d (map count_of norm))"
      "map fe_symbol d = spread_list (2 ^ log) norm"
    using from_norm_buf_spread [OF assms] by blast
  have len: "length d = 2 ^ log" using d(2) by (metis length_map length_spread_list)
  have sym: "i < length d \<Longrightarrow> fe_symbol (d ! i) = spread_list (2 ^ log) norm ! i" for i
    using d(2) by (metis nth_map)
  have "finish_entries log (2 ^ log) d (map count_of norm) =
      Inr (map (cell log (map count_of norm) (map fe_symbol d)) [0..<length d])"
  proof (rule finish_entries_ok [OF assms(3)])
    fix i assume i: "i < length d"
    then have "i < 2 ^ log" by (simp add: len)
    note c = spread_cells [OF assms this]
    show "fe_symbol (d ! i) < length (map count_of norm) \<and> 0 < map count_of norm ! fe_symbol (d ! i)
        \<and> cell_state (map count_of norm) (map fe_symbol d) i < 2 * 2 ^ log"
      using c by (simp add: sym [OF i] d(2))
  qed
  then show ?thesis by (simp add: from_norm_def d len table_of_def)
qed

section \<open>Every symbol's cells split the states\<close>

text \<open>The encoder's choice of how many bits leave the state, and why it is the only one.\<close>

definition enc_nb :: "nat \<Rightarrow> nat \<Rightarrow> nat \<Rightarrow> nat" where
  "enc_nb log c x =
     (if c = 1 then log
      else let mb = log - highbit (c - 1) in if c * 2 ^ mb \<le> x then mb else mb - 1)"

lemma enc_nb_ok:
  assumes "0 < c" "c \<le> 2 ^ log" "2 ^ log \<le> x" "x < 2 * 2 ^ log"
  shows "c \<le> x div 2 ^ enc_nb log c x" "x div 2 ^ enc_nb log c x < 2 * c" "enc_nb log c x \<le> log"
proof -
  have "c \<le> x div 2 ^ enc_nb log c x \<and> x div 2 ^ enc_nb log c x < 2 * c \<and> enc_nb log c x \<le> log"
  proof (cases "c = 1")
    case True
    have "1 \<le> x div 2 ^ log" "x div 2 ^ log < 2"
      using assms(3,4) by (simp_all add: less_eq_div_iff_mult_less_eq less_mult_imp_div_less)
    then show ?thesis using True by (simp add: enc_nb_def)
  next
    case False
    define hb where "hb = highbit (c - 1)"
    define mb where "mb = log - hb"
    have c1: "0 < c - 1" "c - 1 < 2 ^ log" using False assms(1,2) by auto
    have hb: "hb < log" using highbit_less [OF c1] by (simp add: hb_def)
    have b: "2 ^ hb + 1 \<le> c" "c \<le> 2 * 2 ^ hb" using highbit_bounds [OF c1(1)] c1(1) by (auto simp: hb_def)
    have p: "2 ^ hb * 2 ^ mb = (2 :: nat) ^ log" using hb by (simp add: mb_def power_add [symmetric])
    obtain k where k: "mb = Suc k" using hb by (cases mb) (auto simp: mb_def)
    have lo: "2 ^ log < c * 2 ^ mb" using mult_le_mono1 [OF b(1), of "2 ^ mb"] p zero_less_power [of "2 :: nat" mb]
      unfolding add_mult_distrib by linarith
    have p2: "2 * 2 ^ hb * 2 ^ k = (2 :: nat) ^ log" using p by (simp add: k)
    have hi: "c * 2 ^ k \<le> 2 ^ log" using mult_le_mono1 [OF b(2), of "2 ^ k"] unfolding p2 .
    show ?thesis
    proof (cases "c * 2 ^ mb \<le> x")
      case True
      have e: "enc_nb log c x = mb" using False True by (simp add: enc_nb_def mb_def hb_def)
      have "x < 2 * c * 2 ^ mb" using lo assms(4) by simp
      then show ?thesis unfolding e
        using True by (simp add: less_eq_div_iff_mult_less_eq less_mult_imp_div_less mb_def)
    next
      case F: False
      have e: "enc_nb log c x = k" using False F k by (simp add: enc_nb_def mb_def hb_def)
      have "x < 2 * c * 2 ^ k" using F by (simp add: k)
      moreover have "c * 2 ^ k \<le> x" using hi assms(3) by simp
      ultimately show ?thesis unfolding e
        using k by (simp add: less_eq_div_iff_mult_less_eq less_mult_imp_div_less mb_def)
    qed
  qed
  then show "c \<le> x div 2 ^ enc_nb log c x" "x div 2 ^ enc_nb log c x < 2 * c" "enc_nb log c x \<le> log" by blast+
qed

text \<open>A state \<open>ns\<close> of the symbol covers \<open>x\<close>: the cell's bits and baseline lead back to it.\<close>

definition covers :: "nat \<Rightarrow> nat \<Rightarrow> nat \<Rightarrow> bool" where
  "covers log ns x \<longleftrightarrow> (let nb = log - highbit ns in ns * 2 ^ nb \<le> x \<and> x < ns * 2 ^ nb + 2 ^ nb)"

lemma div_eq_iff_range: "x div 2 ^ nb = ns \<longleftrightarrow> ns * 2 ^ nb \<le> x \<and> x < ns * 2 ^ nb + 2 ^ nb" for x nb ns :: nat
proof -
  have pos: "0 < (2 :: nat) ^ nb" by simp
  have "x div 2 ^ nb = ns \<longleftrightarrow> ns \<le> x div 2 ^ nb \<and> x div 2 ^ nb < Suc ns" by auto
  also have "\<dots> \<longleftrightarrow> ns * 2 ^ nb \<le> x \<and> x < Suc ns * 2 ^ nb"
    unfolding less_eq_div_iff_mult_less_eq [OF pos] div_less_iff_less_mult [OF pos] by (rule refl)
  finally show ?thesis by (simp add: add.commute)
qed

lemma div_pow2_less:
  assumes "a < b"
  shows "x div 2 ^ b \<le> x div 2 ^ a div (2 :: nat)"
proof -
  obtain j where "b = a + Suc j" using assms less_iff_Suc_add by auto
  then have "x div 2 ^ b = x div 2 ^ a div 2 div 2 ^ j"
    by (simp only: power_add power_Suc div_mult2_eq)
  then show ?thesis by (simp add: div_le_dividend)
qed

lemma covers_iff: "covers log ns x \<longleftrightarrow> x div 2 ^ (log - highbit ns) = ns"
  unfolding div_eq_iff_range by (simp add: covers_def Let_def)

lemma highbit_div:
  assumes "2 ^ log \<le> x" "x < 2 * 2 ^ log" "nb \<le> log"
  shows "highbit (x div 2 ^ nb) = log - nb"
proof -
  have p: "(2 :: nat) ^ log = 2 ^ (log - nb) * 2 ^ nb" using assms(3) by (simp add: power_add [symmetric])
  show ?thesis
    using assms(1,2) unfolding p
    by (intro highbit_eqI) (simp_all add: less_eq_div_iff_mult_less_eq less_mult_imp_div_less)
qed

lemma covers_unique:
  assumes "0 < c" "c \<le> 2 ^ log" "2 ^ log \<le> x" "x < 2 * 2 ^ log" "c \<le> ns" "ns < 2 * c"
  shows "covers log ns x \<longleftrightarrow> ns = x div 2 ^ enc_nb log c x"
proof -
  let ?b = "enc_nb log c x"
  note e = enc_nb_ok [OF assms(1-4)]
  show ?thesis
  proof
    assume c: "covers log ns x"
    define a where "a = log - highbit ns"
    have a: "x div 2 ^ a = ns" using c by (simp add: covers_iff a_def)
    have "\<not> a < ?b"
    proof
      assume "a < ?b"
      then have "x div 2 ^ ?b \<le> ns div 2" using div_pow2_less [of a ?b x] by (simp add: a)
      then show False using e(1) assms(6) by linarith
    qed
    moreover have "\<not> ?b < a"
    proof
      assume "?b < a"
      then have "ns \<le> x div 2 ^ ?b div 2" using div_pow2_less [of ?b a x] by (simp add: a)
      then show False using e(2) assms(5) by linarith
    qed
    ultimately have "a = ?b" by simp
    then show "ns = x div 2 ^ ?b" using a by simp
  next
    assume ns: "ns = x div 2 ^ ?b"
    have "log - highbit ns = ?b" using highbit_div [OF assms(3,4) e(3)] e(3) by (simp add: ns)
    then show "covers log ns x" by (simp add: covers_iff ns)
  qed
qed

text \<open>The \<open>k\<close>-th cell of a symbol.\<close>

fun nth_cell :: "'a list \<Rightarrow> 'a \<Rightarrow> nat \<Rightarrow> nat" where
  "nth_cell [] s k = 0"
| "nth_cell (x # xs) s k = (if x = s then (if k = 0 then 0 else Suc (nth_cell xs s (k - 1))) else Suc (nth_cell xs s k))"

lemma nth_cell_ok:
  "k < count_list xs s \<Longrightarrow> nth_cell xs s k < length xs \<and> xs ! nth_cell xs s k = s
    \<and> count_list (take (nth_cell xs s k) xs) s = k"
  by (induction xs s k rule: nth_cell.induct) auto

lemma nth_cell_count: "u < length xs \<Longrightarrow> nth_cell xs (xs ! u) (count_list (take u xs) (xs ! u)) = u"
proof (induction xs arbitrary: u)
  case (Cons x xs)
  then show ?case by (cases u) auto
qed simp

lemma cell_covers:
  assumes "0 < ns" "ns < 2 * 2 ^ log" "x < 2 ^ log"
  shows "covers log ns (2 ^ log + x) \<longleftrightarrow>
    ns * 2 ^ (log - highbit ns) - 2 ^ log \<le> x \<and> x < ns * 2 ^ (log - highbit ns) - 2 ^ log + 2 ^ (log - highbit ns)"
  using state_range(2) [OF assms(1,2)] by (auto simp: covers_def Let_def)

definition entry_covers :: "fse_entry \<Rightarrow> nat \<Rightarrow> bool" where
  "entry_covers e x \<longleftrightarrow> fe_baseline e \<le> x \<and> x < fe_baseline e + 2 ^ fe_num_bits e"

lemma table_of_nth:
  assumes "u < 2 ^ log"
  shows "ft_decode (table_of norm log) ! u = cell log (map count_of norm) (spread_list (2 ^ log) norm) u"
  using assms by (simp add: table_of_def)

lemma table_of_simps [simp]:
  "length (ft_decode (table_of norm log)) = 2 ^ log" "ft_accuracy_log (table_of norm log) = log"
  by (simp_all add: table_of_def)

lemma cell_simps [simp]:
  "fe_symbol (cell log nx sy u) = sy ! u"
  "fe_num_bits (cell log nx sy u) = log - highbit (cell_state nx sy u)"
  "fe_baseline (cell log nx sy u) = cell_state nx sy u * 2 ^ (log - highbit (cell_state nx sy u)) - 2 ^ log"
  by (simp_all add: cell_def Let_def)

text \<open>The cell of symbol \<open>s\<close> that covers a state: the encoder's target.\<close>

definition enc_cell :: "int list \<Rightarrow> nat \<Rightarrow> nat \<Rightarrow> nat \<Rightarrow> nat" where
  "enc_cell norm log s x =
     (let c = count_of (norm ! s) in nth_cell (spread_list (2 ^ log) norm) s (x div 2 ^ enc_nb log c x - c))"

lemma table_of_covers:
  assumes "norm_ok log norm" "5 \<le> log" "log \<le> 9" "length norm \<le> 256" "\<not> list_all (\<lambda>p. p \<le> 0) norm"
    and u: "u < 2 ^ log" "x < 2 ^ log" and s: "spread_list (2 ^ log) norm ! u = s"
  shows "entry_covers (ft_decode (table_of norm log) ! u) x \<longleftrightarrow> u = enc_cell norm log s (2 ^ log + x)"
proof -
  let ?sy = "spread_list (2 ^ log) norm"
  define c where "c = count_of (norm ! s)"
  define ns where "ns = cell_state (map count_of norm) ?sy u"
  note cells = spread_cells [OF assms(1-5) u(1), unfolded s, folded c_def ns_def]
  have c: "0 < c" "c \<le> 2 ^ log" by (rule cells)+
  have occ: "ns = c + count_list (take u ?sy) s"
    using cells(1) by (simp add: ns_def cell_state_def s c_def)
  then have ns: "c \<le> ns" "ns < 2 * c" "0 < ns" "ns < 2 * 2 ^ log" using cells c by auto
  have x: "2 ^ log \<le> 2 ^ log + x" "2 ^ log + x < 2 * 2 ^ log" using u(2) by simp_all
  note e = enc_nb_ok [OF c x]
  have "entry_covers (ft_decode (table_of norm log) ! u) x \<longleftrightarrow> covers log ns (2 ^ log + x)"
    unfolding cell_covers [OF ns(3,4) u(2)] table_of_nth [OF u(1)] by (simp add: entry_covers_def ns_def)
  also have "\<dots> \<longleftrightarrow> ns = (2 ^ log + x) div 2 ^ enc_nb log c (2 ^ log + x)"
    by (rule covers_unique [OF c x ns(1,2)])
  also have "\<dots> \<longleftrightarrow> count_list (take u ?sy) s = (2 ^ log + x) div 2 ^ enc_nb log c (2 ^ log + x) - c"
    using e(1) by (auto simp: occ)
  also have "\<dots> \<longleftrightarrow> u = enc_cell norm log s (2 ^ log + x)"
  proof
    assume "count_list (take u ?sy) s = (2 ^ log + x) div 2 ^ enc_nb log c (2 ^ log + x) - c"
    then show "u = enc_cell norm log s (2 ^ log + x)"
      using nth_cell_count [of u ?sy] u(1) by (simp add: enc_cell_def Let_def c_def s)
  next
    assume q: "u = enc_cell norm log s (2 ^ log + x)"
    have "(2 ^ log + x) div 2 ^ enc_nb log c (2 ^ log + x) - c < count_list ?sy s"
      using e(2) c cells(1) spread_list_count [OF assms(1,2) lows_room [OF assms(1,5)], of s]
      by (simp add: c_def)
    from nth_cell_ok [OF this] show "count_list (take u ?sy) s = (2 ^ log + x) div 2 ^ enc_nb log c (2 ^ log + x) - c"
      unfolding q enc_cell_def Let_def c_def by blast
  qed
  finally show ?thesis .
qed

lemma enc_cell_ok:
  assumes "norm_ok log norm" "5 \<le> log" "log \<le> 9" "length norm \<le> 256" "\<not> list_all (\<lambda>p. p \<le> 0) norm"
    and s: "s < length norm" "norm ! s \<noteq> 0" and x: "x < 2 ^ log"
  shows "enc_cell norm log s (2 ^ log + x) < 2 ^ log"
    "spread_list (2 ^ log) norm ! enc_cell norm log s (2 ^ log + x) = s"
    "entry_covers (ft_decode (table_of norm log) ! enc_cell norm log s (2 ^ log + x)) x"
proof -
  define c where "c = count_of (norm ! s)"
  have c: "0 < c" "c \<le> 2 ^ log" using s count_le [OF assms(1)] by (auto simp: c_def count_of_def)
  have xx: "2 ^ log \<le> 2 ^ log + x" "2 ^ log + x < 2 * 2 ^ log" using x by simp_all
  have "(2 ^ log + x) div 2 ^ enc_nb log c (2 ^ log + x) - c < count_list (spread_list (2 ^ log) norm) s"
    using enc_nb_ok(2) [OF c xx] spread_list_count [OF assms(1,2) lows_room [OF assms(1,5)], of s] s c
    by (simp add: c_def)
  from nth_cell_ok [OF this] show u: "enc_cell norm log s (2 ^ log + x) < 2 ^ log"
    and sy: "spread_list (2 ^ log) norm ! enc_cell norm log s (2 ^ log + x) = s"
    by (simp_all add: enc_cell_def Let_def c_def)
  show "entry_covers (ft_decode (table_of norm log) ! enc_cell norm log s (2 ^ log + x)) x"
    using table_of_covers [OF assms(1-5) u x sy] by simp
qed

lemma from_norm_cells:
  assumes "norm_ok log norm" "5 \<le> log" "log \<le> 9" "length norm \<le> 256" "\<not> list_all (\<lambda>p. p \<le> 0) norm"
  shows "\<exists>t. from_norm norm log = Some (Inr t) \<and> ft_accuracy_log t = log \<and> length (ft_decode t) = 2 ^ log
    \<and> (\<forall>s. count_list (map fe_symbol (ft_decode t)) s = (if s < length norm then count_of (norm ! s) else 0))
    \<and> (\<forall>s x. s < length norm \<and> norm ! s \<noteq> 0 \<and> x < 2 ^ log \<longrightarrow>
        (\<exists>!u. u < 2 ^ log \<and> fe_symbol (ft_decode t ! u) = s \<and> entry_covers (ft_decode t ! u) x))"
proof (intro exI conjI allI impI)
  show "from_norm norm log = Some (Inr (table_of norm log))" by (rule from_norm_ok [OF assms])
  fix s
  have "map fe_symbol (ft_decode (table_of norm log)) = spread_list (2 ^ log) norm"
    by (rule nth_equalityI) (simp_all add: table_of_nth)
  then show "count_list (map fe_symbol (ft_decode (table_of norm log))) s = (if s < length norm then count_of (norm ! s) else 0)"
    using spread_list_count [OF assms(1,2) lows_room [OF assms(1,5)]] by simp
next
  fix s x :: nat assume "s < length norm \<and> norm ! s \<noteq> 0 \<and> x < 2 ^ log"
  then have s: "s < length norm" "norm ! s \<noteq> 0" and x: "x < 2 ^ log" by simp_all
  note e = enc_cell_ok [OF assms s x]
  show "\<exists>!u. u < 2 ^ log \<and> fe_symbol (ft_decode (table_of norm log) ! u) = s
      \<and> entry_covers (ft_decode (table_of norm log) ! u) x"
  proof (rule ex1I)
    show "enc_cell norm log s (2 ^ log + x) < 2 ^ log
        \<and> fe_symbol (ft_decode (table_of norm log) ! enc_cell norm log s (2 ^ log + x)) = s
        \<and> entry_covers (ft_decode (table_of norm log) ! enc_cell norm log s (2 ^ log + x)) x"
      using e by (simp add: table_of_nth)
    fix u assume "u < 2 ^ log \<and> fe_symbol (ft_decode (table_of norm log) ! u) = s
        \<and> entry_covers (ft_decode (table_of norm log) ! u) x"
    then show "u = enc_cell norm log s (2 ^ log + x)"
      using table_of_covers [OF assms _ x, of u s] by (auto simp: table_of_nth)
  qed
qed simp_all

lemma sample_norm: "norm_ok 5 [16, 8, -1, 4, 3]" "\<not> list_all (\<lambda>p. p \<le> 0) [16, 8, -1, 4, 3 :: int]"
  by (simp_all add: norm_ok_def count_of_def)

section \<open>Hostile counts\<close>

lemma finish_entries_safe:
  assumes "finish_entries log ts es nx = Inr es'" "ts = 2 ^ log" "log \<le> 9"
  shows "length es' = length es \<and> list_all (\<lambda>e. fe_symbol e < length nx \<and> fe_num_bits e \<le> log
    \<and> fe_baseline e + 2 ^ fe_num_bits e \<le> 2 ^ log) es'"
  using assms(1)
proof (induction es arbitrary: nx es')
  case (Cons e es)
  have lim: "(2 :: nat) * 2 ^ log \<le> 1024" using power_increasing [of log 9 "2 :: nat"] assms(3) by simp
  define ns where "ns = nx ! fe_symbol e"
  from Cons.prems obtain es1 where ok: "fe_symbol e < length nx" "0 < ns" "highbit ns \<le> log"
    and es1: "finish_entries log ts es (nx[fe_symbol e := (ns + 1) mod 65536]) = Inr es1"
    and es': "es' = e\<lparr> fe_num_bits := log - highbit ns,
      fe_baseline := (push_bit (log - highbit ns) ns - ts) mod 65536 \<rparr> # es1"
    by (auto simp: Let_def ns_def rbind_Inr_iff split: if_splits)
  have "ns < 2 * 2 ^ log"
    using highbit_bounds [OF ok(2)] power_increasing [OF ok(3), of "2 :: nat"] by linarith
  note r = state_range [OF ok(2) this]
  have "(push_bit (log - highbit ns) ns - ts) mod 65536 + 2 ^ (log - highbit ns) \<le> 2 ^ log"
    using r(2,3) lim by (simp add: assms(2) push_bit_eq_mult)
  then show ?case using Cons.IH [OF es1] ok(1) by (simp add: es')
qed simp

lemma place_low_length: "place_low s ps high d nx = Inr (high', d', nx') \<Longrightarrow> length d' = length d \<and> length nx' = length nx"
  by (induction s ps high d nx rule: place_low.induct) (auto simp: Let_def split: if_splits)

lemma from_norm_range:
  "case from_norm norm log of
     None \<Rightarrow> False
   | Some (Inl e) \<Rightarrow> e = Corruption
   | Some (Inr t) \<Rightarrow> 5 \<le> log \<and> log \<le> 9 \<and> ft_accuracy_log t = log \<and> length (ft_decode t) = 2 ^ log
       \<and> list_all (\<lambda>e. fe_symbol e < 256 \<and> fe_num_bits e \<le> log
           \<and> fe_baseline e + 2 ^ fe_num_bits e \<le> 2 ^ log) (ft_decode t)"
proof -
  have corrupt: "place_low s ps high d nx = Inl e \<Longrightarrow> e = Corruption" for s ps high d nx e
    by (induction s ps high d nx rule: place_low.induct) (auto simp: Let_def split: if_splits)
  have corrupt2: "finish_entries log ts es nx = Inl e \<Longrightarrow> e = Corruption" for ts es nx e
    by (induction log ts es nx rule: finish_entries.induct) (auto simp: Let_def rbind_Inl_iff split: if_splits)
  show ?thesis
  proof (cases "5 \<le> log \<and> log \<le> 9 \<and> length norm \<le> 256")
    case False
    then show ?thesis by (auto simp: from_norm_def from_norm_buf_def Let_def)
  next
    case True
    define ts where "ts = (2 :: nat) ^ log"
    have ts: "push_bit log (1 :: nat) = ts" "0 < ts" by (simp_all add: ts_def push_bit_eq_mult)
    define n where "n = max (length norm) 1"
    have n: "\<not> 256 < n" "n \<le> 256" using True by (auto simp: n_def)
    show ?thesis
    proof (cases "place_low 0 norm (ts - 1) (replicate ts blank_entry) (replicate n 0)")
      case (Inl e)
      have "from_norm norm log = Some (Inl e)"
        using True Inl n(1) unfolding from_norm_def from_norm_buf_def Let_def ts(1) n_def [symmetric] by simp
      then show ?thesis using corrupt [OF Inl] by simp
    next
      case (Inr hdn)
      obtain high d nx where hdn: "hdn = (high, d, nx)" by (cases hdn)
      note len = place_low_length [OF Inr [unfolded hdn]]
      have cop: "coprime (fse_step ts) ts" using fse_step_odd [of log] True by (simp add: ts_def)
      obtain pos d' where sp: "spread_all set_symbol (fse_step ts) (ts - 1) high 0 norm (0, d) = Some (pos, d')"
          "length d' = ts"
        using spread_flat_ends [OF ts_def cop, of 0 "\<lambda>d. length d = ts" d set_symbol high "expand 0 norm"]
          True ts(2) len by (auto simp: spread_all_flat)
      have fn: "from_norm norm log = Some (rbind (finish_entries log ts d' nx) (\<lambda>d. Inr \<lparr> ft_decode = d, ft_accuracy_log = log \<rparr>))"
        using True Inr n(1) sp(1) unfolding from_norm_def from_norm_buf_def Let_def ts(1) n_def [symmetric] hdn by simp
      show ?thesis
      proof (cases "finish_entries log ts d' nx")
        case Inl
        then show ?thesis using corrupt2 by (simp add: fn)
      next
        case (Inr es)
        have "list_all (\<lambda>e. fe_symbol e < 256 \<and> fe_num_bits e \<le> log \<and> fe_baseline e + 2 ^ fe_num_bits e \<le> 2 ^ log) es"
          using finish_entries_safe [OF Inr ts_def] True len n(2) by (fastforce simp: list_all_iff)
        then show ?thesis
          using finish_entries_safe [OF Inr ts_def] True sp(2) unfolding fn Inr by (simp add: ts_def)
      qed
    qed
  qed
qed

text \<open>Whatever counts a hostile stream or dictionary supplies, the build ends, and a table it
  returns keeps every state it can reach inside the table: the unmasked entry load of the sequence
  loop is in bounds.\<close>

theorem from_norm_safe:
  "case from_norm norm log of
     None \<Rightarrow> False
   | Some (Inl e) \<Rightarrow> e = Corruption
   | Some (Inr t) \<Rightarrow> 5 \<le> log \<and> log \<le> 9 \<and> ft_accuracy_log t = log \<and> length (ft_decode t) = 2 ^ log
       \<and> list_all (\<lambda>e. fe_symbol e < 256 \<and> fe_num_bits e \<le> log
           \<and> fe_baseline e + 2 ^ fe_num_bits e \<le> 2 ^ log) (ft_decode t)"
  by (rule from_norm_range)

section \<open>Well-formed decoding tables\<close>

text \<open>The type invariant of a decoding table whose symbols are at most \<open>m\<close>: every state an entry
  leads to is again inside the table.\<close>

definition table_wf :: "nat \<Rightarrow> fse_table \<Rightarrow> bool" where
  "table_wf m t \<longleftrightarrow> ft_accuracy_log t \<le> 9 \<and> length (ft_decode t) = 2 ^ ft_accuracy_log t
     \<and> list_all (\<lambda>e. fe_symbol e \<le> m \<and> fe_num_bits e \<le> ft_accuracy_log t
         \<and> fe_baseline e + 2 ^ fe_num_bits e \<le> 2 ^ ft_accuracy_log t) (ft_decode t)"

lemma fse_rle_wf: "s \<le> m \<Longrightarrow> s < 256 \<Longrightarrow> table_wf m (fse_rle s)"
  by (simp add: table_wf_def fse_rle_def blank_entry_def)

text \<open>Counts that are all low have no room for the last one, so their build is refused.\<close>

lemma place_low_full: "high < length (lows k ps) \<Longrightarrow> \<exists>e. place_low s ps high d nx = Inl e"
proof (induction ps arbitrary: k s high d nx)
  case (Cons p ps)
  then show ?case by (cases high) (auto simp: Let_def split: if_splits)
qed simp

lemma length_lows_all: "list_all (\<lambda>p. p \<le> 0) norm \<Longrightarrow> list_all (\<lambda>p. -1 \<le> p) norm \<Longrightarrow>
    length (lows k norm) = sum_list (map count_of norm)"
  by (induction norm arbitrary: k) (auto simp: count_of_def)

lemma from_norm_all_low:
  assumes "norm_ok log norm" "list_all (\<lambda>p. p \<le> 0) norm"
  shows "from_norm norm log = Some (Inl Corruption)"
proof -
  have "2 ^ log - 1 < length (lows 0 norm)" using assms length_lows_all by (simp add: norm_ok_def)
  then obtain e where e: "place_low 0 norm (push_bit log 1 - 1) (replicate (push_bit log 1) blank_entry)
      (replicate (max (length norm) 1) 0) = Inl e"
    using place_low_full by (metis mult_1 push_bit_eq_mult)
  show ?thesis
  proof (cases "5 \<le> log \<and> log \<le> 9 \<and> length norm \<le> 256")
    case True
    then have "\<not> 256 < max (length norm) 1" by (auto simp: max_def)
    then have "from_norm norm log = Some (Inl e)" using True e by (auto simp: from_norm_def from_norm_buf_def Let_def)
    then show ?thesis using from_norm_range [of log norm] by simp
  qed (auto simp: from_norm_def from_norm_buf_def Let_def)
qed

text \<open>C37: counts that add up to a table size, for at most 256 symbols and 5 to 9 bits, give a table exactly when one of them is
  positive: all-low counts are refused with \<open>Corruption\<close>, and any others give a table with one cell per unit of
  probability in which, for every symbol, the cells that carry it split the states: each state is reached from
  exactly one of them by adding the bits the cell asks for.\<close>

theorem from_norm_complete:
  assumes "norm_ok log norm" "5 \<le> log" "log \<le> 9" "length norm \<le> 256"
  shows "if list_all (\<lambda>p. p \<le> 0) norm then from_norm norm log = Some (Inl Corruption)
    else \<exists>t. from_norm norm log = Some (Inr t) \<and> ft_accuracy_log t = log \<and> length (ft_decode t) = 2 ^ log
      \<and> (\<forall>s. count_list (map fe_symbol (ft_decode t)) s = (if s < length norm then count_of (norm ! s) else 0))
      \<and> (\<forall>s x. s < length norm \<and> norm ! s \<noteq> 0 \<and> x < 2 ^ log \<longrightarrow>
          (\<exists>!u. u < 2 ^ log \<and> fe_symbol (ft_decode t ! u) = s \<and> entry_covers (ft_decode t ! u) x))"
  using from_norm_all_low [OF assms(1)] from_norm_cells [OF assms] by presburger

theorem from_norm_complete_witness:
  "(\<exists>t. from_norm [16, 8, -1, 4, 3] 5 = Some (Inr t) \<and> length (ft_decode t) = 32
     \<and> count_list (map fe_symbol (ft_decode t)) 1 = 8) \<and> from_norm (replicate 32 (-1)) 5 = Some (Inl Corruption)"
proof
  show "\<exists>t. from_norm [16, 8, -1, 4, 3] 5 = Some (Inr t) \<and> length (ft_decode t) = 32 \<and> count_list (map fe_symbol (ft_decode t)) 1 = 8"
    using from_norm_complete [OF sample_norm(1)] by (force simp: count_of_def)
  have low: "norm_ok 5 (replicate 32 (-1))" "list_all (\<lambda>p. p \<le> 0) (replicate 32 (-1 :: int))"
    by (simp_all add: norm_ok_def count_of_def list_all_length map_replicate_const sum_list_replicate)
  show "from_norm (replicate 32 (-1)) 5 = Some (Inl Corruption)" using from_norm_complete [OF low(1)] low(2) by simp
qed

lemma from_norm_some_high:
  assumes "norm_ok log norm" "from_norm norm log = Some (Inr t)"
  shows "length norm \<le> 256" "\<not> list_all (\<lambda>p. p \<le> 0) norm"
proof -
  have r: "5 \<le> log \<and> log \<le> 9" using from_norm_range [of log norm] assms(2) by simp
  show n: "length norm \<le> 256"
    using assms(2) r by (auto simp: from_norm_def from_norm_buf_def Let_def split: if_splits)
  show "\<not> list_all (\<lambda>p. p \<le> 0) norm" using from_norm_all_low [OF assms(1)] assms(2) by auto
qed

lemma from_norm_wf:
  assumes "norm_ok log norm" "from_norm norm log = Some (Inr t)" "length norm \<le> Suc m"
  shows "table_wf m t" "ft_accuracy_log t = log"
proof -
  have r: "5 \<le> log \<and> log \<le> 9 \<and> ft_accuracy_log t = log \<and> length (ft_decode t) = 2 ^ log
       \<and> list_all (\<lambda>e. fe_symbol e < 256 \<and> fe_num_bits e \<le> log \<and> fe_baseline e + 2 ^ fe_num_bits e \<le> 2 ^ log) (ft_decode t)"
    using from_norm_range [of log norm] assms(2) by simp
  note h = from_norm_some_high [OF assms(1,2)]
  note o = from_norm_ok [OF assms(1) _ _ h] spread_cells(1) [OF assms(1) _ _ h]
  have t: "t = table_of norm log" using o(1) r assms(2) by simp
  have "fe_symbol e \<le> m" if e: "e \<in> set (ft_decode t)" for e
  proof -
    obtain u where u: "u < 2 ^ log" "e = ft_decode t ! u" using e r by (metis in_set_conv_nth)
    then show ?thesis using o(2) [of u] r assms(3) by (simp add: t table_of_nth)
  qed
  then show "table_wf m t" "ft_accuracy_log t = log" using r by (simp_all add: table_wf_def list_all_iff)
qed

lemma packed_fields:
  assumes "b < 65536" "s < 256" "n < (256 :: nat)"
  shows "fse_baseline (b OR push_bit 16 s OR push_bit 24 n) = b"
    "fse_symbol (b OR push_bit 16 s OR push_bit 24 n) = s"
    "fse_nbits (b OR push_bit 16 s OR push_bit 24 n) = n"
proof -
  have 1: "b OR push_bit 16 s = b + 65536 * s" using or_push_bit_add [of b 16 s] assms by simp
  have 2: "b OR push_bit 16 s OR push_bit 24 n = b + 65536 * (s + 256 * n)"
    using or_push_bit_add [of "b + 65536 * s" 24 n] assms by (simp add: 1 flip: or.assoc)
  have 3: "(b + 65536 * (s + 256 * n)) div 65536 = s + 256 * n" using assms by simp
  have "(b + 65536 * (s + 256 * n)) div (65536 * 256) = n"
    unfolding div_mult2_eq 3 using assms(2) by simp
  then have 4: "(b + 65536 * (s + 256 * n)) div 2 ^ 24 = n" by simp
  show "fse_baseline (b OR push_bit 16 s OR push_bit 24 n) = b"
    unfolding fse_baseline_def 2 mod_mult_self2 using assms by simp
  show "fse_symbol (b OR push_bit 16 s OR push_bit 24 n) = s"
    unfolding fse_symbol_def 2 drop_bit_eq_div using 3 assms by simp
  show "fse_nbits (b OR push_bit 16 s OR push_bit 24 n) = n"
    unfolding fse_nbits_def 2 drop_bit_eq_div using 4 assms by simp
qed

lemma table_wf_entry:
  assumes "table_wf m t" "u < 2 ^ ft_accuracy_log t" "m < 256"
  obtains e w where "e = ft_decode t ! u" "fse_entry_u32 t u = Some w" "fse_symbol w = fe_symbol e"
    "fse_nbits w = fe_num_bits e" "fse_baseline w = fe_baseline e" "fe_symbol e \<le> m"
    "fe_num_bits e \<le> 9" "fe_baseline e + 2 ^ fe_num_bits e \<le> 2 ^ ft_accuracy_log t"
proof -
  let ?e = "ft_decode t ! u"
  have e: "fe_symbol ?e \<le> m" "fe_num_bits ?e \<le> ft_accuracy_log t"
      "fe_baseline ?e + 2 ^ fe_num_bits ?e \<le> 2 ^ ft_accuracy_log t" "u < length (ft_decode t)" "ft_accuracy_log t \<le> 9"
    using assms(1,2) by (auto simp: table_wf_def list_all_length)
  then have b: "fe_baseline ?e < 65536" "fe_symbol ?e < 256" "fe_num_bits ?e < 256"
    using assms(3) power_increasing [of "ft_accuracy_log t" 9 "2 :: nat"] by simp_all
  show ?thesis
    using that [of ?e "fe_baseline ?e OR push_bit 16 (fe_symbol ?e) OR push_bit 24 (fe_num_bits ?e)"]
      packed_fields [OF b] e by (simp add: fse_entry_u32_def Let_def)
qed

end
