(* ===== verification/Fse_Ncount.thy ===== *)
theory Fse_Ncount
  imports Fse_Tables
begin

text \<open>
  Normalised counts (\<^verbatim>\<open>fse.rs\<close>): the parser of the NCount header, the three predefined
  distributions and the compile-time build of their tables.

  Both loops of the parser are \<open>partial_function\<close>s over the forward bit reader; that they end on
  every input is part of \<open>parse_ncount_sound\<close>.
\<close>

section \<open>The NCount parser\<close>

text \<open>The run of zero probabilities: two bits at a time, \<open>3\<close> continues.\<close>

partial_function (option) ncount_zeros :: "nat \<Rightarrow> bitfwd \<Rightarrow> (nat \<times> bitfwd) res option" where
  "ncount_zeros extra bits =
     (case bf_get 2 bits of
        Inl e \<Rightarrow> Some (Inl e)
      | Inr (r, bits) \<Rightarrow>
          if r < 3 then Some (Inr (extra + r, bits)) else ncount_zeros (extra + r) bits)"

record ncount_state =
  nc_remaining :: int
  nc_threshold :: int
  nc_nb_bits :: nat
  nc_charnum :: nat
  nc_previous0 :: bool
  nc_norm :: "int list"
  nc_bits :: bitfwd

text \<open>One probability: a value of \<open>nb_bits - 1\<close> or \<open>nb_bits\<close> bits.\<close>

definition ncount_value :: "ncount_state \<Rightarrow> (int \<times> bitfwd) res" where
  "ncount_value st =
     (let threshold = nc_threshold st;
          mx = (2 * threshold - 1) - nc_remaining st;
          low_mask = nat (threshold - 1)
      in rbind (bf_peek (nc_nb_bits st) (nc_bits st)) (\<lambda>(v, bits).
         if v AND low_mask < nat (mx mod 2 ^ 32)
         then rbind (bf_get (nc_nb_bits st - 1) bits) (\<lambda>(u, bits). Inr (int (v AND low_mask), bits))
         else rbind (bf_get (nc_nb_bits st) bits) (\<lambda>(u, bits).
           let c = int (v AND (nat threshold * 2 - 1))
           in Inr (if threshold \<le> c then c - mx else c, bits))))"

text \<open>\<^verbatim>\<open>as i16\<close>: the stored probability is the low half of the count.\<close>

definition as_i16 :: "int \<Rightarrow> int" where "as_i16 v = (v + 2 ^ 15) mod 2 ^ 16 - 2 ^ 15"

text \<open>The body of the loop after the value; the flag is \<^verbatim>\<open>break\<close>.\<close>

definition ncount_symbol :: "nat \<Rightarrow> ncount_state \<Rightarrow> (bool \<times> ncount_state) res" where
  "ncount_symbol max_symbol st =
     rbind (ncount_value st) (\<lambda>(count, bits).
       let count = count - 1;
           remaining = (if 0 \<le> count then nc_remaining st - count else nc_remaining st + count);
           charnum = nc_charnum st
       in if max_symbol < charnum then Inl Corruption
          else
            let st = st\<lparr> nc_remaining := remaining, nc_norm := (nc_norm st)[charnum := as_i16 count],
                  nc_charnum := charnum + 1, nc_previous0 := (count = 0), nc_bits := bits \<rparr>
            in if remaining < nc_threshold st then
                 if remaining \<le> 1 then Inr (True, st)
                 else
                   let nb_bits = highbit (nat remaining) + 1
                   in Inr (max_symbol < nc_charnum st, st\<lparr> nc_nb_bits := nb_bits, nc_threshold := 2 ^ (nb_bits - 1) \<rparr>)
               else Inr (max_symbol < nc_charnum st, st))"

partial_function (option) ncount_loop :: "nat \<Rightarrow> ncount_state \<Rightarrow> ncount_state res option" where
  "ncount_loop max_symbol st =
     (if nc_previous0 st then
        Option.bind (ncount_zeros 0 (nc_bits st)) (\<lambda>r.
          case r of
            Inl e \<Rightarrow> Some (Inl e)
          | Inr (extra, bits) \<Rightarrow>
              if max_symbol < nc_charnum st + extra then Some (Inl Corruption)
              else ncount_loop max_symbol
                (st\<lparr> nc_charnum := nc_charnum st + extra, nc_previous0 := False, nc_bits := bits \<rparr>))
      else if nc_remaining st \<le> 1 then Some (Inr st)
      else
        case ncount_symbol max_symbol st of
          Inl e \<Rightarrow> Some (Inl e)
        | Inr (brk, st) \<Rightarrow> if brk then Some (Inr st) else ncount_loop max_symbol st)"

definition parse_ncount_into :: "bytes \<Rightarrow> nat \<Rightarrow> nat \<Rightarrow> (int list \<times> nat \<times> nat) res option" where
  "parse_ncount_into src max_symbol max_log =
     (if src = [] then Some (Inl Corruption)
      else
        let n = min (length src) 256;
            tmp = take n src @ replicate (max n 8 - n) 0
        in case bf_get 4 (bf_new tmp) of
             Inl e \<Rightarrow> Some (Inl e)
           | Inr (v, bits) \<Rightarrow>
               let accuracy = v + 5
               in if accuracy < 5 \<or> max_log < accuracy then Some (Inl Corruption)
                  else if 256 < max_symbol + 1 then Some (Inl Corruption)
                  else
                    Option.bind (ncount_loop max_symbol
                        \<lparr> nc_remaining = 2 ^ accuracy + 1, nc_threshold = 2 ^ accuracy, nc_nb_bits = accuracy + 1,
                          nc_charnum = 0, nc_previous0 = False, nc_norm = replicate (max_symbol + 1) 0,
                          nc_bits = bits \<rparr>)
                      (\<lambda>r. Some (rbind r (\<lambda>st.
                        if nc_remaining st \<noteq> 1 then Inl Corruption
                        else
                          let used = max (nc_charnum st) 1;
                              consumed = min (bf_bytes_consumed (nc_bits st)) (length src)
                          in Inr (take used (nc_norm st), accuracy, consumed)))))"

definition read_ncount_into :: "bytes \<Rightarrow> nat \<Rightarrow> nat \<Rightarrow> (fse_table \<times> nat) res option" where
  "read_ncount_into src max_symbol max_log =
     Option.bind (parse_ncount_into src max_symbol max_log) (\<lambda>r.
       case r of
         Inl e \<Rightarrow> Some (Inl e)
       | Inr (norm, accuracy, consumed) \<Rightarrow>
           Option.bind (from_norm norm accuracy) (\<lambda>t. Some (rbind t (\<lambda>t. Inr (t, consumed)))))"

section \<open>What an accepted header describes\<close>

text \<open>The reader's state inside the buffer.\<close>

lemma bf_get_step:
  assumes "bf_ok r" "n \<le> 32" "bf_get n r = Inr (v, r')"
  shows "bf_ok r'" "bf_src r' = bf_src r" "bf_bits_read r' = bf_bits_read r + n" "v < 2 ^ n"
    "bf_bits_read r' \<le> 8 * length (bf_src r)"
  using bf_get_ok [OF assms(1,2)] assms(3) by (auto split: if_splits)

lemma bf_get_error:
  assumes "bf_ok r" "n \<le> 32" "bf_get n r = Inl e"
  shows "e = Corruption"
  using bf_get_ok [OF assms(1,2)] assms(3) by (auto split: if_splits)

lemma bf_peek_step:
  assumes "bf_ok r" "n \<le> 32" "bf_peek n r = Inr (v, r')"
  shows "bf_ok r'" "bf_src r' = bf_src r" "bf_bits_read r' = bf_bits_read r"
  using bf_peek_ok [OF assms(1,2)] assms(3) by (auto split: if_splits)

lemma ncount_zeros_ends:
  assumes "bf_ok r"
  shows "case ncount_zeros extra r of None \<Rightarrow> False | Some (Inl e) \<Rightarrow> e = Corruption
    | Some (Inr (k, r')) \<Rightarrow> bf_ok r' \<and> bf_src r' = bf_src r"
  using assms
proof (induction "8 * length (bf_src r) - bf_bits_read r" arbitrary: extra r rule: less_induct)
  case less
  show ?case
  proof (cases "bf_get 2 r")
    case (Inl e)
    then show ?thesis using bf_get_error [OF less.prems _ Inl] by (simp add: ncount_zeros.simps)
  next
    case (Inr vr)
    obtain v r' where vr: "vr = (v, r')" by (cases vr)
    note s = bf_get_step [OF less.prems _ Inr [unfolded vr]]
    have lt: "8 * length (bf_src r') - bf_bits_read r' < 8 * length (bf_src r) - bf_bits_read r"
      using s by simp
    show ?thesis
      using less.hyps [OF lt s(1), of "extra + v"] s(1,2) Inr
      by (auto simp: ncount_zeros.simps [of extra] vr split: option.splits sum.splits)
  qed
qed

text \<open>The counts read so far, before the store cuts them to 16 bits.\<close>

definition nc_counts :: "nat \<Rightarrow> nat \<Rightarrow> nat \<Rightarrow> int \<Rightarrow> int list \<Rightarrow> bool" where
  "nc_counts max_symbol log charnum remaining cs \<longleftrightarrow> length cs = max_symbol + 1 \<and> list_all (\<lambda>p. -1 \<le> p) cs
     \<and> list_all (\<lambda>p. p = 0) (drop charnum cs) \<and> int (sum_list (map count_of cs)) + remaining = 2 ^ log + 1"

lemma as_i16_0 [simp]: "as_i16 0 = 0"
  by (simp add: as_i16_def)

lemma as_i16_id: "- (2 ^ 15) \<le> p \<Longrightarrow> p < 2 ^ 15 \<Longrightarrow> as_i16 p = p"
  by (simp add: as_i16_def mod_pos_pos_trivial)

definition nc_inv :: "nat \<Rightarrow> nat \<Rightarrow> ncount_state \<Rightarrow> bool" where
  "nc_inv max_symbol log st \<longleftrightarrow>
     bf_ok (nc_bits st) \<and> nc_charnum st \<le> max_symbol + 1 \<and> 1 \<le> nc_remaining st
     \<and> (\<exists>cs. nc_norm st = map as_i16 cs \<and> nc_counts max_symbol log (nc_charnum st) (nc_remaining st) cs)"

definition nc_width :: "ncount_state \<Rightarrow> bool" where
  "nc_width st \<longleftrightarrow> 1 \<le> nc_nb_bits st \<and> nc_nb_bits st \<le> 21 \<and> nc_threshold st = 2 ^ (nc_nb_bits st - 1)
     \<and> nc_threshold st \<le> nc_remaining st \<and> nc_remaining st < 2 * nc_threshold st"

lemma ncount_value_ok:
  assumes "bf_ok (nc_bits st)" "nc_width st" "1 < nc_remaining st"
  shows "case ncount_value st of Inl e \<Rightarrow> e = Corruption
    | Inr (c, bits) \<Rightarrow> 0 \<le> c \<and> c \<le> nc_remaining st \<and> bf_ok bits \<and> bf_src bits = bf_src (nc_bits st)"
proof -
  define k where "k = nc_nb_bits st - 1"
  define R where "R = nc_remaining st"
  define mx where "mx = 2 * 2 ^ k - 1 - R"
  have w: "nc_nb_bits st = Suc k" "nc_threshold st = 2 ^ k" "2 ^ k \<le> R" "R < 2 * 2 ^ k" "k \<le> 20"
    using assms(2) by (auto simp: nc_width_def k_def R_def)
  have masks: "nat (2 ^ k - 1) = 2 ^ k - (1 :: nat)" "nat (2 ^ k) * 2 - 1 = 2 ^ Suc k - (1 :: nat)"
    by (simp_all add: nat_diff_distrib nat_power_eq)
  have val: "ncount_value st = rbind (bf_peek (Suc k) (nc_bits st)) (\<lambda>(v, bits).
         if v mod 2 ^ k < nat (mx mod 2 ^ 32)
         then rbind (bf_get k bits) (\<lambda>(u, bits). Inr (int (v mod 2 ^ k), bits))
         else rbind (bf_get (Suc k) bits) (\<lambda>(u, bits).
           Inr (if 2 ^ k \<le> int (v mod 2 ^ Suc k) then int (v mod 2 ^ Suc k) - mx else int (v mod 2 ^ Suc k), bits)))"
    unfolding ncount_value_def Let_def w(1,2) masks nat_and_mask mx_def R_def [symmetric] diff_Suc_1 by (rule refl)
  show ?thesis
  proof (cases "bf_peek (Suc k) (nc_bits st)")
    case (Inl e)
    then show ?thesis using bf_peek_ok [OF assms(1), of "Suc k"] w(5) by (auto simp: val split: if_splits)
  next
    case (Inr vb)
    obtain v bits where vb: "vb = (v, bits)" by (cases vb)
    note pk = bf_peek_step [OF assms(1) _ Inr [unfolded vb]]
    have ok: "bf_ok bits" "bf_src bits = bf_src (nc_bits st)" using pk w(5) by simp_all
    have get: "case bf_get n bits of Inl e \<Rightarrow> e = Corruption
        | Inr (u, bits') \<Rightarrow> bf_ok bits' \<and> bf_src bits' = bf_src (nc_bits st)" if "n \<le> 32" for n
      using bf_get_ok [OF ok(1) that] ok(2) by (auto split: if_splits)
    have lo: "int (v mod 2 ^ k) \<le> R"
    proof -
      have "v mod 2 ^ k < 2 ^ k" by simp
      then have "int (v mod 2 ^ k) < 2 ^ k" by (metis of_nat_less_iff of_nat_numeral of_nat_power)
      then show ?thesis using w(3) by linarith
    qed
    have hi: "int (v mod 2 ^ Suc k) < 2 * 2 ^ k"
    proof -
      have "v mod 2 ^ Suc k < 2 ^ Suc k" by simp
      then show ?thesis by (metis of_nat_less_iff of_nat_numeral of_nat_power power_Suc)
    qed
    have hi_val: "0 \<le> c \<and> c \<le> R" if "c = (if 2 ^ k \<le> int (v mod 2 ^ Suc k) then int (v mod 2 ^ Suc k) - mx
        else int (v mod 2 ^ Suc k))" for c
    proof (cases "2 ^ k \<le> int (v mod 2 ^ Suc k)")
      case True
      then show ?thesis using hi w(3,4) unfolding that if_P [OF True] mx_def by linarith
    next
      case False
      have "0 \<le> int (v mod 2 ^ Suc k)" by (rule of_nat_0_le_iff)
      then show ?thesis using False w(3) unfolding that if_not_P [OF False] by linarith
    qed
    show ?thesis
    proof (cases "v mod 2 ^ k < nat (mx mod 2 ^ 32)")
      case True
      then show ?thesis
        using get [of k] w(5) lo unfolding val Inr vb R_def [symmetric] rbind_simps prod.case if_P [OF True]
        by (auto split: sum.splits simp: rbind_def)
    next
      case False
      then show ?thesis
        using get [of "Suc k"] w(5) hi_val [OF refl] unfolding val Inr vb R_def [symmetric] rbind_simps prod.case if_not_P [OF False]
        by (auto split: sum.splits simp: rbind_def simp del: power_Suc)
    qed
  qed
qed

lemma sum_list_update_zero:
  assumes "i < length xs" "xs ! i = 0"
  shows "sum_list (map count_of (xs[i := p])) = sum_list (map count_of xs) + count_of p"
proof -
  have "sum_list ((map count_of xs)[i := count_of p]) = sum_list (map count_of xs) + count_of p - map count_of xs ! i"
    using assms(1) by (subst sum_list_update) simp_all
  then show ?thesis using assms by (simp add: map_update count_of_def)
qed

lemma ncount_symbol_ok:
  assumes inv: "nc_inv max_symbol log st" and w: "nc_width st" and r: "1 < nc_remaining st"
  shows "case ncount_symbol max_symbol st of Inl e \<Rightarrow> e = Corruption
    | Inr (brk, st') \<Rightarrow> nc_inv max_symbol log st' \<and> nc_charnum st' = nc_charnum st + 1 \<and> nc_charnum st \<le> max_symbol
        \<and> (brk \<or> nc_width st') \<and> bf_src (nc_bits st') = bf_src (nc_bits st)"
proof -
  have ok: "bf_ok (nc_bits st)" using inv by (simp add: nc_inv_def)
  show ?thesis
  proof (cases "ncount_value st")
    case (Inl e)
    then show ?thesis using ncount_value_ok [OF ok w r] by (simp add: ncount_symbol_def)
  next
    case (Inr cb)
    obtain c bits where cb: "cb = (c, bits)" by (cases cb)
    have c: "0 \<le> c" "c \<le> nc_remaining st" "bf_ok bits" "bf_src bits = bf_src (nc_bits st)"
      using ncount_value_ok [OF ok w r] by (simp_all add: Inr cb)
    define R where "R = nc_remaining st - \<bar>c - 1\<bar>"
    have R: "(if 0 \<le> c - 1 then nc_remaining st - (c - 1) else nc_remaining st + (c - 1)) = R"
      using c(1) by (auto simp: R_def)
    have R1: "1 \<le> R" "R \<le> nc_remaining st" using c(1,2) r by (auto simp: R_def)
    define st1 where "st1 = st\<lparr> nc_remaining := R, nc_norm := (nc_norm st)[nc_charnum st := as_i16 (c - 1)],
        nc_charnum := nc_charnum st + 1, nc_previous0 := (c - 1 = 0), nc_bits := bits \<rparr>"
    have sym: "ncount_symbol max_symbol st =
      (if max_symbol < nc_charnum st then Inl Corruption
       else if R < nc_threshold st then
         if R \<le> 1 then Inr (True, st1)
         else Inr (max_symbol < nc_charnum st1, st1\<lparr> nc_nb_bits := highbit (nat R) + 1, nc_threshold := 2 ^ highbit (nat R) \<rparr>)
       else Inr (max_symbol < nc_charnum st1, st1))"
      unfolding ncount_symbol_def Inr cb rbind_simps prod.case Let_def R st1_def by simp
    show ?thesis
    proof (cases "max_symbol < nc_charnum st")
      case True
      then show ?thesis by (simp add: sym)
    next
      case False
      obtain cs where cs: "nc_norm st = map as_i16 cs" "nc_counts max_symbol log (nc_charnum st) (nc_remaining st) cs"
        using inv by (auto simp: nc_inv_def)
      have len: "nc_charnum st < length cs" using False cs(2) by (simp add: nc_counts_def)
      have "list_all (\<lambda>p. p = 0) (drop (nc_charnum st) cs)" using cs(2) by (simp add: nc_counts_def)
      then have z: "cs ! nc_charnum st = 0" and rest: "list_all (\<lambda>p. p = 0) (drop (Suc (nc_charnum st)) cs)"
        unfolding Cons_nth_drop_Suc [OF len, symmetric] by simp_all
      have ge: "list_all (\<lambda>p. -1 \<le> p) (cs[nc_charnum st := c - 1])"
        using cs(2) c(1) by (auto simp: nc_counts_def list_all_length nth_list_update [OF len])
      have sum: "int (sum_list (map count_of (cs[nc_charnum st := c - 1]))) + R = 2 ^ log + 1"
        using cs(2) unfolding sum_list_update_zero [OF len z] by (simp add: nc_counts_def R_def count_of_def)
      have new: "nc_counts max_symbol log (nc_charnum st + 1) R (cs[nc_charnum st := c - 1])"
        using cs(2) rest ge sum by (simp add: nc_counts_def)
      have "(nc_norm st)[nc_charnum st := as_i16 (c - 1)] = map as_i16 (cs[nc_charnum st := c - 1])" by (simp add: cs(1) map_update)
      then have i1: "nc_inv max_symbol log st1"
        using inv new c(3) False R1 unfolding nc_inv_def st1_def by auto
      then have i2: "nc_inv max_symbol log (st1\<lparr> nc_nb_bits := n, nc_threshold := t \<rparr>)" for n t
        by (simp add: nc_inv_def)
      have w2: "nc_width (st1\<lparr> nc_nb_bits := highbit (nat R) + 1, nc_threshold := 2 ^ highbit (nat R) \<rparr>)"
        if "R < nc_threshold st"
      proof -
        have nat_R: "0 < nat R" using R1 by simp
        have b: "(2 :: int) ^ highbit (nat R) \<le> R" "R < 2 * 2 ^ highbit (nat R)"
        proof -
          have "int (2 ^ highbit (nat R)) \<le> int (nat R)" "int (nat R) < int (2 * 2 ^ highbit (nat R))"
            using highbit_bounds [OF nat_R] by (simp_all only: of_nat_le_iff of_nat_less_iff)
          then show "(2 :: int) ^ highbit (nat R) \<le> R" "R < 2 * 2 ^ highbit (nat R)" using R1 by simp_all
        qed
        have "nat R < 2 ^ (nc_nb_bits st - 1)"
          using that w R1 unfolding nc_width_def by (metis nat_less_iff of_nat_numeral of_nat_power order.trans zero_le_one)
        then have "highbit (nat R) < nc_nb_bits st - 1" by (rule highbit_less [OF nat_R])
        then have "highbit (nat R) + 1 \<le> 21" using w unfolding nc_width_def by linarith
        then show ?thesis using b w by (simp add: nc_width_def st1_def)
      qed
      have w1: "nc_width st1" if "\<not> R < nc_threshold st"
        using that w R1 by (simp add: nc_width_def st1_def)
      show ?thesis
        using False i1 i2 w1 w2 c(4) by (simp add: sym) (simp add: st1_def)
    qed
  qed
qed

text \<open>The loop ends: each pass writes a probability or clears the zero flag.\<close>

lemma ncount_loop_ok:
  assumes "nc_inv max_symbol log st" "nc_width st" "nc_charnum st \<le> max_symbol"
  shows "case ncount_loop max_symbol st of None \<Rightarrow> False | Some (Inl e) \<Rightarrow> e = Corruption
    | Some (Inr st') \<Rightarrow> nc_inv max_symbol log st'"
  using assms
proof (induction "2 * (max_symbol + 1 - nc_charnum st) + (if nc_previous0 st then 1 else 0)" arbitrary: st rule: less_induct)
  case less
  have ok: "bf_ok (nc_bits st)" using less.prems(1) by (simp add: nc_inv_def)
  show ?case
  proof (cases "nc_previous0 st")
    case True
    show ?thesis
    proof (cases "ncount_zeros 0 (nc_bits st)")
      case None
      then show ?thesis using ncount_zeros_ends [OF ok, of 0] by simp
    next
      case (Some r)
      note z = ncount_zeros_ends [OF ok, of 0, unfolded Some]
      show ?thesis
      proof (cases r)
        case (Inl e)
        then show ?thesis using z True Some by (simp add: ncount_loop.simps [of _ st])
      next
        case (Inr kb)
        obtain k bits where kb: "kb = (k, bits)" by (cases kb)
        define st1 where "st1 = st\<lparr> nc_charnum := nc_charnum st + k, nc_previous0 := False, nc_bits := bits \<rparr>"
        have eq: "ncount_loop max_symbol st =
            (if max_symbol < nc_charnum st + k then Some (Inl Corruption) else ncount_loop max_symbol st1)"
          using True Some Inr kb by (simp add: ncount_loop.simps [of _ st] st1_def)
        show ?thesis
        proof (cases "max_symbol < nc_charnum st + k")
          case True
          then show ?thesis by (simp add: eq)
        next
          case False
          obtain cs where cs: "nc_norm st = map as_i16 cs" "nc_counts max_symbol log (nc_charnum st) (nc_remaining st) cs"
            using less.prems(1) by (auto simp: nc_inv_def)
          have "nc_counts max_symbol log (nc_charnum st + k) (nc_remaining st) cs"
            using cs(2) by (auto simp: nc_counts_def list_all_length add.assoc)
          then have i: "nc_inv max_symbol log st1"
            using less.prems(1) z False cs(1) by (auto simp: nc_inv_def st1_def Inr kb)
          have w: "nc_width st1" using less.prems(2) by (simp add: nc_width_def st1_def)
          show ?thesis
            using less.hyps [of st1, OF _ i w] True False unfolding eq by (simp add: st1_def)
        qed
      qed
    qed
  next
    case np: False
    show ?thesis
    proof (cases "nc_remaining st \<le> 1")
      case True
      then show ?thesis using np less.prems(1) by (simp add: ncount_loop.simps [of _ st])
    next
      case False
      then have r: "1 < nc_remaining st" by simp
      note sym = ncount_symbol_ok [OF less.prems(1,2) r]
      show ?thesis
      proof (cases "ncount_symbol max_symbol st")
        case (Inl e)
        then show ?thesis using sym np False by (simp add: ncount_loop.simps [of _ st])
      next
        case (Inr bs)
        obtain brk st1 where bs: "bs = (brk, st1)" by (cases bs)
        have s: "nc_inv max_symbol log st1" "nc_charnum st1 = nc_charnum st + 1" "brk \<or> nc_width st1"
          using sym by (simp_all add: Inr bs)
        have eq: "ncount_loop max_symbol st = (if brk then Some (Inr st1) else ncount_loop max_symbol st1)"
          using np False Inr bs by (simp add: ncount_loop.simps [of _ st])
        show ?thesis
        proof (cases brk)
          case True
          then show ?thesis using s by (simp add: eq)
        next
          case nb: False
          have c: "nc_charnum st1 \<le> max_symbol"
            using Inr nb unfolding bs ncount_symbol_def by (auto simp: rbind_Inr_iff Let_def split: if_splits)
          have w: "nc_width st1" using s(3) nb by simp
          have lt: "2 * (max_symbol + 1 - nc_charnum st1) + (if nc_previous0 st1 then 1 else 0)
              < 2 * (max_symbol + 1 - nc_charnum st) + (if nc_previous0 st then 1 else 0)"
            using s(2) less.prems(3) by (auto simp: Suc_diff_le)
          show ?thesis using less.hyps [OF lt s(1) w c] s(2) nb by (simp add: eq)
        qed
      qed
    qed
  qed
qed

lemma norm_ok_take:
  assumes "nc_inv max_symbol log st" "nc_remaining st = 1" "nc_charnum st \<le> n"
  shows "\<exists>counts. norm_ok log counts \<and> take n (nc_norm st) = map as_i16 counts"
proof -
  obtain cs where cs: "nc_norm st = map as_i16 cs" "nc_counts max_symbol log (nc_charnum st) 1 cs"
    using assms(1,2) by (auto simp: nc_inv_def)
  have rest: "list_all (\<lambda>p. p = 0) (drop n cs)"
  proof -
    have "drop n cs = drop (n - nc_charnum st) (drop (nc_charnum st) cs)"
      using assms(3) by simp
    then show ?thesis
      using cs(2) in_set_dropD unfolding nc_counts_def list_all_iff by metis
  qed
  have "list_all (\<lambda>p. p = 0) xs \<Longrightarrow> sum_list (map count_of xs) = 0" for xs
    by (induction xs) (auto simp: count_of_def)
  then have "sum_list (map count_of (drop n cs)) = 0" using rest by blast
  moreover have "sum_list (map count_of cs) = sum_list (map count_of (take n cs)) + sum_list (map count_of (drop n cs))"
    unfolding sum_list_append [symmetric] map_append [symmetric] append_take_drop_id by (rule refl)
  moreover have "int (sum_list (map count_of cs)) = int (2 ^ log)"
    using cs(2) by (simp add: nc_counts_def)
  ultimately have "sum_list (map count_of (take n cs)) = 2 ^ log"
    unfolding of_nat_eq_iff by linarith
  moreover have "list_all (\<lambda>p. -1 \<le> p) (take n cs)"
    using cs(2) by (auto simp: nc_counts_def list_all_length)
  ultimately have "norm_ok log (take n cs)" unfolding norm_ok_def by blast
  then show ?thesis by (auto simp: cs(1) take_map)
qed

text \<open>Tables of at most \<open>2 ^ 14\<close> states have counts that the store does not change.\<close>

lemma as_i16_counts:
  assumes "norm_ok log counts" "log \<le> 14"
  shows "map as_i16 counts = counts"
proof (rule map_idI)
  fix p assume p: "p \<in> set counts"
  have "count_of p \<le> 2 ^ log" using count_le [OF assms(1) p] .
  also have "\<dots> \<le> 2 ^ 14" using assms(2) by (intro power_increasing) auto
  finally show "as_i16 p = p" by (intro as_i16_id) (auto simp: count_of_def)
qed

lemma parse_ncount_ok:
  "case parse_ncount_into src max_symbol max_log of
     None \<Rightarrow> False
   | Some (Inl e) \<Rightarrow> e = Corruption
   | Some (Inr (norm, log, consumed)) \<Rightarrow> 5 \<le> log \<and> log \<le> max_log \<and> log \<le> 20
       \<and> (\<exists>counts. norm_ok log counts \<and> norm = map as_i16 counts) \<and> (log \<le> 14 \<longrightarrow> norm_ok log norm)
       \<and> 1 \<le> length norm \<and> length norm \<le> max_symbol + 1 \<and> max_symbol \<le> 255 \<and> consumed \<le> length src"
proof (cases "src = []")
  case True
  then show ?thesis by (simp add: parse_ncount_into_def)
next
  case False
  define n where "n = min (length src) 256"
  define tmp where "tmp = take n src @ replicate (max n 8 - n) 0"
  note g4 = bf_get_ok [OF bf_new_ok, of 4 tmp]
  have eq0: "parse_ncount_into src max_symbol max_log =
      (case bf_get 4 (bf_new tmp) of
             Inl e \<Rightarrow> Some (Inl e)
           | Inr (v, bits) \<Rightarrow>
               let accuracy = v + 5
               in if accuracy < 5 \<or> max_log < accuracy then Some (Inl Corruption)
                  else if 256 < max_symbol + 1 then Some (Inl Corruption)
                  else
                    Option.bind (ncount_loop max_symbol
                        \<lparr> nc_remaining = 2 ^ accuracy + 1, nc_threshold = 2 ^ accuracy, nc_nb_bits = accuracy + 1,
                          nc_charnum = 0, nc_previous0 = False, nc_norm = replicate (max_symbol + 1) 0,
                          nc_bits = bits \<rparr>)
                      (\<lambda>r. Some (rbind r (\<lambda>st.
                        if nc_remaining st \<noteq> 1 then Inl Corruption
                        else
                          let used = max (nc_charnum st) 1;
                              consumed = min (bf_bytes_consumed (nc_bits st)) (length src)
                          in Inr (take used (nc_norm st), accuracy, consumed)))))"
    unfolding parse_ncount_into_def if_not_P [OF False] Let_def n_def tmp_def by (rule refl)
  show ?thesis
  proof (cases "bf_get 4 (bf_new tmp)")
    case (Inl e)
    then show ?thesis using g4 unfolding eq0 by (auto split: if_splits)
  next
    case (Inr vb)
    obtain v bits where vb: "vb = (v, bits)" by (cases vb)
    have v: "v < 16" "bf_ok bits" using g4 unfolding Inr vb by (auto split: if_splits)
    define log where "log = v + 5"
    show ?thesis
    proof (cases "max_log < log \<or> 256 < max_symbol + 1")
      case True
      then show ?thesis unfolding eq0 Inr vb by (auto simp: log_def Let_def)
    next
      case ok: False
      define st where "st = \<lparr> nc_remaining = 2 ^ log + 1, nc_threshold = 2 ^ log, nc_nb_bits = log + 1,
          nc_charnum = 0, nc_previous0 = False, nc_norm = replicate (max_symbol + 1) 0, nc_bits = bits \<rparr>"
      have zero: "sum_list (map count_of (replicate k 0)) = 0" for k
        by (simp add: map_replicate_const sum_list_replicate count_of_def)
      have inv: "nc_inv max_symbol log st"
      proof -
        have "nc_counts max_symbol log 0 (2 ^ log + 1) (replicate (max_symbol + 1) 0)"
          unfolding nc_counts_def zero by (simp add: list_all_length del: replicate.simps)
        then have "\<exists>cs. replicate (max_symbol + 1) 0 = map as_i16 cs \<and> nc_counts max_symbol log 0 (2 ^ log + 1) cs"
          by (intro exI [where x = "replicate (max_symbol + 1) 0"]) (simp add: map_replicate_const del: replicate.simps)
        then show ?thesis using v(2) unfolding nc_inv_def st_def ncount_state.simps by simp
      qed
      have pow: "(1 :: int) < 2 ^ log" by (simp add: log_def)
      have w: "nc_width st" using v(1) pow by (simp add: nc_width_def st_def log_def)
      note L = ncount_loop_ok [OF inv w]
      have eq: "parse_ncount_into src max_symbol max_log = Option.bind (ncount_loop max_symbol st)
          (\<lambda>r. Some (rbind r (\<lambda>st. if nc_remaining st \<noteq> 1 then Inl Corruption
             else Inr (take (max (nc_charnum st) 1) (nc_norm st), log, min (bf_bytes_consumed (nc_bits st)) (length src)))))"
        using ok unfolding eq0 Inr vb sum.case prod.case Let_def log_def [symmetric] st_def [symmetric]
        by (simp add: log_def)
      show ?thesis
      proof (cases "ncount_loop max_symbol st")
        case None
        then show ?thesis using L by (simp add: st_def)
      next
        case (Some r)
        show ?thesis
        proof (cases r)
          case (Inl e)
          then show ?thesis using L unfolding eq Some by (simp add: st_def)
        next
          case (Inr st')
          have i: "nc_inv max_symbol log st'" using L unfolding Some Inr by (simp add: st_def)
          have len: "length (nc_norm st') = max_symbol + 1" using i by (auto simp: nc_inv_def nc_counts_def)
          show ?thesis
          proof (cases "nc_remaining st' = 1")
            case True
            obtain counts where c: "norm_ok log counts" "take (max (nc_charnum st') 1) (nc_norm st') = map as_i16 counts"
              using norm_ok_take [OF i True, of "max (nc_charnum st') 1"] by auto
            have "log \<le> 14 \<Longrightarrow> norm_ok log (map as_i16 counts)" using as_i16_counts c(1) by simp
            moreover have "1 \<le> length (map as_i16 counts) \<and> length (map as_i16 counts) \<le> max_symbol + 1"
              unfolding c(2) [symmetric] using len i by (simp add: nc_inv_def)
            moreover have "5 \<le> log \<and> log \<le> max_log \<and> log \<le> 20 \<and> max_symbol \<le> 255" using ok v(1) by (auto simp: log_def)
            ultimately show ?thesis using True c unfolding eq Some Inr by auto
          qed (simp add: eq Some Inr)
        qed
      qed
    qed
  qed
qed

text \<open>C38: the parser of normalised counts ends on every input. What it accepts has an accuracy in
  the caller's range and at most \<open>max_symbol + 1\<close> probabilities, the low 16 bits of counts of at least \<open>-1\<close> whose
  magnitudes add up to the table size exactly; with at most \<open>2 ^ 14\<close> states they are these counts. It consumes
  no more bytes than it was given, and everything else is \<open>Corruption\<close>.\<close>

theorem parse_ncount_sound:
  "case parse_ncount_into src max_symbol max_log of
     None \<Rightarrow> False
   | Some (Inl e) \<Rightarrow> e = Corruption
   | Some (Inr (norm, log, consumed)) \<Rightarrow> 5 \<le> log \<and> log \<le> max_log \<and> log \<le> 20
       \<and> (\<exists>counts. norm_ok log counts \<and> norm = map as_i16 counts) \<and> (log \<le> 14 \<longrightarrow> norm_ok log norm)
       \<and> 1 \<le> length norm \<and> length norm \<le> max_symbol + 1 \<and> max_symbol \<le> 255 \<and> consumed \<le> length src"
  by (rule parse_ncount_ok)

theorem parse_ncount_sound_witness:
  "case parse_ncount_into [0x30, 0x6F, 0x9B, 0x03] 52 9 of
     None \<Rightarrow> False
   | Some (Inl e) \<Rightarrow> e = Corruption
   | Some (Inr (norm, log, consumed)) \<Rightarrow> norm_ok log norm \<and> length norm \<le> 53 \<and> consumed \<le> 4"
  using parse_ncount_sound [where src = "[0x30, 0x6F, 0x9B, 0x03]" and max_symbol = 52 and max_log = 9] by (auto split: option.splits sum.splits)

lemma read_ncount_wf:
  assumes "max_log \<le> 9" "max_symbol \<le> 255"
  shows "safe_res (\<lambda>(t, n). table_wf max_symbol t) (read_ncount_into src max_symbol max_log)"
  unfolding read_ncount_into_def
proof (rule safe_res_bind)
  show "safe_res (\<lambda>(norm, log, n). norm_ok log norm \<and> length norm \<le> Suc max_symbol) (parse_ncount_into src max_symbol max_log)"
    using parse_ncount_ok [where src = src and max_symbol = max_symbol and max_log = max_log] assms(1)
    by (auto simp: safe_res_def split: option.splits sum.splits)
  fix x :: "int list \<times> nat \<times> nat"
  obtain norm log n where x: "x = (norm, log, n)" by (metis prod.exhaust)
  assume "case x of (norm, log, n) \<Rightarrow> norm_ok log norm \<and> length norm \<le> Suc max_symbol"
  then have k: "norm_ok log norm" "length norm \<le> Suc max_symbol" by (simp_all add: x)
  have "safe_res (table_wf max_symbol) (from_norm norm log)"
    using from_norm_range [of log norm] from_norm_wf(1) [OF k(1) _ k(2)]
    by (simp add: safe_res_def split: option.splits sum.splits)
  then show "safe_res (\<lambda>(t, n). table_wf max_symbol t) (case x of (norm, log, consumed) \<Rightarrow>
      Option.bind (from_norm norm log) (\<lambda>r. Some (rbind r (\<lambda>t. Inr (t, consumed)))))"
    unfolding x prod.case by (rule safe_res_map) simp
qed

end
