(* ===== verification/Bit_Cursor.thy ===== *)
theory Bit_Cursor
  imports Bit_Streams
begin

text \<open>
  The backward reader past its end. Entropy decoders look at a full window of bits even when fewer
  are left, and find out only at the end whether they read too many: the window is extended by zeros.
  A \<open>cursor\<close> is the abstract position that covers this case too: the bits left, their value, and
  whether more than that were skipped. The lemmas show that the reader follows its cursor.
\<close>

section \<open>Cursors\<close>

record cursor =
  cu_val :: nat
  cu_rem :: nat
  cu_over :: bool

text \<open>The next \<open>n\<close> bits, as a number, with zeros past the end.\<close>

definition peek :: "nat \<Rightarrow> cursor \<Rightarrow> nat" where
  "peek n c = cu_val c * 2 ^ n div 2 ^ cu_rem c"

definition skip :: "nat \<Rightarrow> cursor \<Rightarrow> cursor" where
  "skip n c = (if n \<le> cu_rem c
     then c\<lparr> cu_val := cu_val c mod 2 ^ (cu_rem c - n), cu_rem := cu_rem c - n \<rparr>
     else \<lparr> cu_val = 0, cu_rem = 0, cu_over = True \<rparr>)"

definition at_end :: "cursor \<Rightarrow> bool" where
  "at_end c \<longleftrightarrow> cu_rem c = 0 \<and> \<not> cu_over c"

definition cursor_ok :: "cursor \<Rightarrow> bool" where
  "cursor_ok c \<longleftrightarrow> cu_val c < 2 ^ cu_rem c"

lemma peek_less: "cursor_ok c \<Longrightarrow> peek n c < 2 ^ n"
  by (simp add: peek_def cursor_ok_def less_mult_imp_div_less mult.commute)

lemma peek_within: "n \<le> cu_rem c \<Longrightarrow> peek n c = cu_val c div 2 ^ (cu_rem c - n)"
proof -
  assume n: "n \<le> cu_rem c"
  have "cu_val c * 2 ^ n div (2 ^ (cu_rem c - n) * 2 ^ n) = cu_val c div 2 ^ (cu_rem c - n)"
    by (rule div_mult_mult2) simp
  then show ?thesis using n by (simp add: peek_def flip: power_add)
qed

lemma peek_past: "cu_rem c \<le> n \<Longrightarrow> peek n c = cu_val c * 2 ^ (n - cu_rem c)"
proof -
  assume n: "cu_rem c \<le> n"
  have "cu_val c * (2 ^ (n - cu_rem c) * 2 ^ cu_rem c) div 2 ^ cu_rem c = cu_val c * 2 ^ (n - cu_rem c)"
    by (simp add: mult.assoc [symmetric])
  then show ?thesis using n by (simp add: peek_def flip: power_add)
qed

lemma skip_ok [simp]: "cursor_ok c \<Longrightarrow> cursor_ok (skip n c)"
  by (simp add: cursor_ok_def skip_def)

lemma skip_0 [simp]: "cursor_ok c \<Longrightarrow> skip 0 c = c"
  by (simp add: skip_def cursor_ok_def)

lemma skip_skip: "cursor_ok c \<Longrightarrow> skip m (skip n c) = skip (n + m) c"
proof -
  assume ok: "cursor_ok c"
  consider "n + m \<le> cu_rem c" | "n \<le> cu_rem c" "cu_rem c < n + m" | "cu_rem c < n" by linarith
  then show ?thesis
  proof cases
    case 1
    then show ?thesis by (simp add: skip_def mod_mod_cancel le_imp_power_dvd)
  next
    case 2
    then show ?thesis by (auto simp: skip_def)
  next
    case 3
    then show ?thesis by (auto simp: skip_def)
  qed
qed

text \<open>A window whose top bits were skipped, shifted up: all but its lowest bits are the next window.\<close>

lemma peek_skip:
  assumes "cursor_ok c" "n \<le> m"
  shows "peek m (skip n c) div 2 ^ n = peek m c mod 2 ^ (m - n)"
proof (cases "n \<le> cu_rem c")
  case True
  define r where "r = cu_rem c - n"
  have rem: "cu_rem c = r + n" using True by (simp add: r_def)
  define q where "q = cu_val c div 2 ^ r"
  define y where "y = cu_val c mod 2 ^ r"
  have v: "cu_val c = q * 2 ^ r + y" unfolding q_def y_def by (rule div_mult_mod_eq [symmetric])
  define z where "z = y * 2 ^ m div 2 ^ r"
  have y: "y < 2 ^ r" by (simp add: y_def)
  then have z: "z < 2 ^ m" by (simp add: z_def less_mult_imp_div_less mult.commute)
  have m: "(2 :: nat) ^ m = 2 ^ (m - n) * 2 ^ n" using assms(2) by (simp flip: power_add)
  have "peek m c = (q * 2 ^ r + y) * 2 ^ m div 2 ^ r div 2 ^ n"
    by (simp add: peek_def v rem power_add div_mult2_eq)
  also have "\<dots> = (q * 2 ^ m + z) div 2 ^ n"
  proof -
    have "(q * 2 ^ r + y) * 2 ^ m = q * 2 ^ m * 2 ^ r + y * 2 ^ m" by (simp add: distrib_right)
    then show ?thesis by (simp only: z_def) simp
  qed
  also have "\<dots> = q * 2 ^ (m - n) + z div 2 ^ n"
    by (simp add: m mult.assoc [symmetric])
  finally have "peek m c mod 2 ^ (m - n) = z div 2 ^ n mod 2 ^ (m - n)" by simp
  moreover have "z div 2 ^ n < 2 ^ (m - n)" using z by (simp add: m less_mult_imp_div_less)
  moreover have "peek m (skip n c) = z" using True by (simp add: peek_def skip_def z_def y_def r_def)
  ultimately show ?thesis by simp
next
  case False
  then have "peek m c = cu_val c * 2 ^ (n - cu_rem c) * 2 ^ (m - n)"
    using assms(2) by (simp add: peek_past flip: power_add)
  then have "peek m c mod 2 ^ (m - n) = 0" by simp
  moreover have "peek m (skip n c) = 0" using False by (simp add: skip_def peek_def)
  ultimately show ?thesis by simp
qed

section \<open>The reader follows its cursor\<close>

definition at_cursor :: "bitrev \<Rightarrow> cursor \<Rightarrow> bool" where
  "at_cursor r c \<longleftrightarrow>
     (if cu_over c then br_ptr r = 0 \<and> 64 < br_consumed r \<and> br_container r = 0 \<and> cu_rem c = 0 \<and> cu_val c = 0
      else br_ok r \<and> cu_rem c = br_rem r \<and> cu_val c = br_val r)"

text \<open>How many bits can be looked at before the next reload: any number once the start is in the window.\<close>

definition can_look :: "nat \<Rightarrow> bitrev \<Rightarrow> bool" where
  "can_look n r \<longleftrightarrow> n \<le> br_avail r \<or> br_ptr r = 0"

definition cursor_of :: "bytes \<Rightarrow> cursor res" where
  "cursor_of src =
     (if src = [] \<or> src ! (length src - 1) = 0 then Inl Corruption
      else Inr \<lparr> cu_val = le_nat src - 2 ^ highbit (le_nat src), cu_rem = highbit (le_nat src), cu_over = False \<rparr>)"

lemma at_cursor_ok: "at_cursor r c \<Longrightarrow> cursor_ok c"
  using br_val_less [of r] by (auto simp: at_cursor_def cursor_ok_def split: if_splits)

lemma at_cursor_new:
  "case cursor_of src of Inl e \<Rightarrow> br_new src = Inl Corruption
   | Inr c \<Rightarrow> \<exists>r. br_new src = Inr r \<and> at_cursor r c \<and> can_look 56 r"
proof (cases "src = [] \<or> src ! (length src - 1) = 0")
  case True
  then show ?thesis by (auto simp: cursor_of_def br_new_def Let_def)
next
  case False
  then have ne: "src \<noteq> []" "src ! (length src - 1) \<noteq> 0" by auto
  show ?thesis
    by (rule br_new_ok [OF ne]) (use ne in \<open>auto simp: cursor_of_def at_cursor_def can_look_def br_avail_def\<close>)
qed

lemma at_cursor_finished: "at_cursor r c \<Longrightarrow> br_finished_exactly r \<longleftrightarrow> at_end c"
  using br_finished_iff [of r] by (auto simp: at_cursor_def at_end_def br_finished_exactly_def split: if_splits)

lemma at_cursor_overflowed: "at_cursor r c \<Longrightarrow> br_overflowed r \<longleftrightarrow> cu_over c"
  by (auto simp: at_cursor_def br_overflowed_def br_ok_def split: if_splits)

lemma at_cursor_reload:
  assumes "at_cursor r c"
  shows "at_cursor (br_try_reload r) c" "can_look 57 (br_try_reload r)"
proof -
  have "at_cursor (br_try_reload r) c \<and> can_look 57 (br_try_reload r)"
  proof (cases "cu_over c")
    case True
    then have "br_reload r = Inl Corruption" using assms by (simp add: at_cursor_def br_reload_overread)
    then show ?thesis using True assms by (simp add: br_try_reload_def at_cursor_def can_look_def)
  next
    case False
    then have "br_ok r" using assms by (simp add: at_cursor_def)
    then show ?thesis
      by (rule br_reload_ok) (use False assms in \<open>auto simp: br_try_reload_def at_cursor_def can_look_def br_avail_def\<close>)
  qed
  then show "at_cursor (br_try_reload r) c" "can_look 57 (br_try_reload r)" by auto
qed

lemma at_cursor_peek:
  assumes "at_cursor r c" "can_look n r" "0 < n" "n \<le> 32"
  shows "br_look_fast n r = peek n c"
proof (cases "cu_over c")
  case True
  then show ?thesis using assms(1) by (simp add: at_cursor_def br_look_fast_def peek_def)
next
  case False
  then have ok: "br_ok r" and c: "cu_rem c = br_rem r" "cu_val c = br_val r" using assms(1) by (auto simp: at_cursor_def)
  show ?thesis
  proof (cases "n \<le> br_avail r")
    case True
    then show ?thesis using br_look_val [OF ok assms(3,4)] br_avail_le [of r] by (simp add: peek_within c)
  next
    case False
    then have p: "br_ptr r = 0" using assms(2) by (simp add: can_look_def)
    then have rem: "br_rem r = 64 - br_consumed r" "br_rem r < n" using False by (simp_all add: br_rem_def br_avail_def)
    have con: "br_consumed r \<le> 64" using ok by (simp add: br_ok_def)
    then have e: "br_consumed r = (n - br_rem r) + (64 - n)" using rem assms(4) by simp
    have "unat (drop_bit (64 - n) (br_container r)) = br_val r * 2 ^ (n - br_rem r)"
      using br_container_val [OF ok] p by (simp add: unat_drop_bit64) (simp add: e power_add mult.assoc [symmetric])
    moreover have "peek n c < 2 ^ 32"
      using peek_less [OF at_cursor_ok [OF assms(1)], of n] power_increasing [OF assms(4), of "2 :: nat"] by simp
    ultimately show ?thesis using rem by (simp add: br_look_fast_def peek_past c)
  qed
qed

lemma at_cursor_skip:
  assumes "at_cursor r c" "can_look n r" "n \<le> 64"
  shows "at_cursor (br_skip n r) (skip n c)" "can_look (m + n) r \<Longrightarrow> can_look m (br_skip n r)"
proof -
  have con: "br_consumed (br_skip n r) = min U32_MAX (br_consumed r + n)" "br_ptr (br_skip n r) = br_ptr r"
    "br_container (br_skip n r) = shl64 (br_container r) n"
    by (simp_all add: br_skip_def sat_add_def)
  show "can_look (m + n) r \<Longrightarrow> can_look m (br_skip n r)"
    using con assms(3) by (auto simp: can_look_def br_avail_def U32_MAX_def)
  show "at_cursor (br_skip n r) (skip n c)"
  proof (cases "cu_over c")
    case True
    then show ?thesis using assms(1) con by (auto simp: at_cursor_def skip_def shl64_def U32_MAX_def)
  next
    case False
    then have ok: "br_ok r" and c: "cu_rem c = br_rem r" "cu_val c = br_val r" using assms(1) by (auto simp: at_cursor_def)
    show ?thesis
    proof (cases "n \<le> br_avail r")
      case True
      then have "n \<le> br_rem r" using br_avail_le [of r] by simp
      then show ?thesis using False br_skip_ok [OF ok True] by (simp add: at_cursor_def skip_def c)
    next
      case over: False
      then have p: "br_ptr r = 0" using assms(2) by (simp add: can_look_def)
      then have rem: "br_rem r = 64 - br_consumed r" "br_rem r < n" using over by (simp_all add: br_rem_def br_avail_def)
      have c64: "br_consumed r \<le> 64" "br_container r = shl64 (load_u64_le (br_src r) 0) (br_consumed r)"
        using ok p by (simp_all add: br_ok_def)
      have "shl64 (br_container r) n = 0" using rem c64 by (simp add: shl64_shl64) (simp add: shl64_def)
      then show ?thesis using rem c64(1) p con by (auto simp: at_cursor_def skip_def c U32_MAX_def)
    qed
  qed
qed

lemma at_cursor_read:
  assumes "at_cursor r c" "can_look n r" "n \<le> 32"
  shows "br_read n r = (peek n c, snd (br_read n r))" "at_cursor (snd (br_read n r)) (skip n c)"
    "can_look (m + n) r \<Longrightarrow> can_look m (snd (br_read n r))"
  using at_cursor_peek [OF assms(1,2)] at_cursor_skip [OF assms(1,2)] assms at_cursor_ok [OF assms(1)]
  by (auto simp: br_read_def peek_def cursor_ok_def)

lemma can_look_mono: "can_look n r \<Longrightarrow> m \<le> n \<Longrightarrow> can_look m r"
  by (auto simp: can_look_def)

end
