(* ===== verification/Huff_Weights.thy ===== *)
theory Huff_Weights
  imports Fse_Ncount Bit_Cursor
begin

text \<open>
  The Huffman tree description (\<^verbatim>\<open>read_weights\<close> of \<^verbatim>\<open>huffman.rs\<close>, \<^verbatim>\<open>decompress_weights_into\<close> of
  \<^verbatim>\<open>fse.rs\<close>): one weight per symbol, as 4-bit nibbles or coded by two alternating FSE states over
  one bit stream. The FSE loop ends when the stream is overread, so reading past the end is its
  normal exit; a fast loop runs four symbols per reload while the stream is far from its start.

  The lemmas show that the fast loop changes nothing: the whole decoder is the one-symbol-at-a-time
  loop over the abstract cursor, for any bytes.
\<close>

section \<open>The two-state decoder\<close>

abbreviation weight_of :: "fse_table \<Rightarrow> nat \<Rightarrow> u8" where
  "weight_of t s \<equiv> word_of_nat (fe_symbol (fse_entry_at t s))"

function weights_fast :: "fse_table \<Rightarrow> bytes \<Rightarrow> nat \<Rightarrow> nat \<Rightarrow> nat \<Rightarrow> bitrev \<Rightarrow> bytes \<times> nat \<times> nat \<times> nat \<times> bitrev" where
  "weights_fast t d n s1 s2 br =
     (if n + 4 \<le> length d then
        let br = br_try_reload br
        in if \<not> br_unfinished br then (d, n, s1, s2, br)
           else
             let e1 = fse_entry_at t s1; d = d[n := word_of_nat (fe_symbol e1)]; (s1, br) = fse_advance e1 br;
                 e2 = fse_entry_at t s2; d = d[n + 1 := word_of_nat (fe_symbol e2)]; (s2, br) = fse_advance e2 br;
                 e1 = fse_entry_at t s1; d = d[n + 2 := word_of_nat (fe_symbol e1)]; (s1, br) = fse_advance e1 br;
                 e2 = fse_entry_at t s2; d = d[n + 3 := word_of_nat (fe_symbol e2)]; (s2, br) = fse_advance e2 br
             in weights_fast t d (n + 4) s1 s2 br
      else (d, n, s1, s2, br))"
  by pat_completeness auto
termination by (relation "measure (\<lambda>(t, d, n, s1, s2, br). length d - n)") auto

declare weights_fast.simps [simp del]

text \<open>The tail. The code's loop body is two copies of this half step with the states exchanged.\<close>

function weights_tail :: "fse_table \<Rightarrow> bytes \<Rightarrow> nat \<Rightarrow> nat \<Rightarrow> nat \<Rightarrow> bitrev \<Rightarrow> (bytes \<times> nat) res" where
  "weights_tail t d n sa sb br =
     (if length d \<le> n then Inl Corruption
      else
        let d = d[n := weight_of t sa]; n = n + 1;
            (sa, br) = fse_update t sa br;
            br = br_try_reload br
        in if br_overflowed br then
             if n < length d then Inr (d[n := weight_of t sb], n + 1) else Inr (d, n)
           else weights_tail t d n sb sa br)"
  by pat_completeness auto
termination by (relation "measure (\<lambda>(t, d, n, sa, sb, br). length d - n)") auto

declare weights_tail.simps [simp del]

text \<open>The result is the buffer, the weights written and the bytes read.\<close>

definition decompress_weights_into :: "bytes \<Rightarrow> bytes \<Rightarrow> nat \<Rightarrow> (bytes \<times> nat \<times> nat) res option" where
  "decompress_weights_into dst src max_out =
     (let cap = min max_out (length dst)
      in then_do (Some (ok_or (slice_get dst 0 cap) Corruption)) (\<lambda>d.
         then_do (read_ncount_into src 255 6) (\<lambda>(table, n).
           if length src \<le> n then Some (Inl Corruption)
           else
             let rest = drop n src
             in Some (rbind (br_new rest) (\<lambda>br.
                  let (s1, br) = fse_init_state table br;
                      (s2, br) = fse_init_state table br;
                      (d, n_out, s1, s2, br) = weights_fast table d 0 s1 s2 br
                  in rbind (weights_tail table d n_out s1 s2 br) (\<lambda>(d, n_out).
                     Inr (d @ drop cap dst, n_out, n + length rest)))))))"

section \<open>The description\<close>

text \<open>The direct weights: one nibble each, the high one first.\<close>

fun direct_weights :: "bytes \<Rightarrow> nat \<Rightarrow> nat \<Rightarrow> bytes \<Rightarrow> bytes option" where
  "direct_weights src i 0 w = Some w"
| "direct_weights src i (Suc k) w =
     Option.bind (get_unchecked src (1 + i div 2)) (\<lambda>b.
     direct_weights src (i + 1) k (w[i := (if i mod 2 = 0 then drop_bit 4 b else b AND 0x0F)]))"

definition read_weights :: "bytes \<Rightarrow> bytes \<Rightarrow> (bytes \<times> nat \<times> nat) res option" where
  "read_weights src wbuf =
     (if src = [] then Some (Inl Corruption)
      else
        let header = unat (src ! 0)
        in if 128 \<le> header then
             let nsym = header - 127; nbytes = (nsym + 1) div 2
             in if length src < 1 + nbytes then Some (Inl Corruption)
                else Option.bind (direct_weights src 0 nsym wbuf) (\<lambda>w. Some (Inr (w, nsym, 1 + nbytes)))
           else
             let csize = header
             in if csize = 0 \<or> length src < 1 + csize then Some (Inl Corruption)
                else then_do (decompress_weights_into wbuf (take csize (drop 1 src)) 255) (\<lambda>(w, wlen, _).
                     Some (Inr (w, wlen, 1 + csize))))"

section \<open>The reference\<close>

text \<open>One symbol at a time over the cursor, with \<open>k\<close> places left in the buffer.\<close>

definition next_state :: "fse_table \<Rightarrow> nat \<Rightarrow> cursor \<Rightarrow> nat" where
  "next_state t s c =
     (fe_baseline (fse_entry_at t s) + peek (fe_num_bits (fse_entry_at t s)) c mod 65536) mod 65536"

definition next_cursor :: "fse_table \<Rightarrow> nat \<Rightarrow> cursor \<Rightarrow> cursor" where
  "next_cursor t s c = skip (fe_num_bits (fse_entry_at t s)) c"

fun weights_ref :: "fse_table \<Rightarrow> nat \<Rightarrow> nat \<Rightarrow> nat \<Rightarrow> cursor \<Rightarrow> bytes res" where
  "weights_ref t 0 sa sb c = Inl Corruption"
| "weights_ref t (Suc k) sa sb c =
     (if cu_over (next_cursor t sa c) then Inr (weight_of t sa # (if 0 < k then [weight_of t sb] else []))
      else rbind (weights_ref t k sb (next_state t sa c) (next_cursor t sa c)) (\<lambda>ws. Inr (weight_of t sa # ws)))"

definition overwrite :: "'a list \<Rightarrow> nat \<Rightarrow> 'a list \<Rightarrow> 'a list" where
  "overwrite d n xs = take n d @ xs @ drop (n + length xs) d"

lemma length_overwrite [simp]: "n + length xs \<le> length d \<Longrightarrow> length (overwrite d n xs) = length d"
  by (simp add: overwrite_def)

lemma overwrite_Nil [simp]: "overwrite d n [] = d"
  by (simp add: overwrite_def)

lemma overwrite_Cons: "n < length d \<Longrightarrow> overwrite (d[n := x]) (Suc n) xs = overwrite d n (x # xs)"
  by (simp add: overwrite_def take_Suc_conv_app_nth drop_update_cancel)

lemma overwrite_one: "n < length d \<Longrightarrow> d[n := x] = overwrite d n [x]"
  using overwrite_Cons [of n d x "[]"] by simp

lemma weights_ref_length:
  "weights_ref t k sa sb c = Inr ws \<Longrightarrow> 1 \<le> length ws \<and> length ws \<le> k"
  by (induction t k sa sb c arbitrary: ws rule: weights_ref.induct) (fastforce simp: rbind_Inr_iff split: if_splits)+

lemma weights_ref_corrupt: "weights_ref t k sa sb c = Inl e \<Longrightarrow> e = Corruption"
  by (induction t k sa sb c rule: weights_ref.induct) (auto simp: rbind_Inl_iff split: if_splits)

lemma cell_bits: "table_wf m t \<Longrightarrow> fe_num_bits (fse_entry_at t s) \<le> 9"
proof -
  assume wf: "table_wf m t"
  have l: "length (ft_decode t) = 2 ^ ft_accuracy_log t" using wf by (simp add: table_wf_def)
  have "fe_num_bits (ft_decode t ! (s AND (length (ft_decode t) - 1))) \<le> ft_accuracy_log t"
    using wf unfolding l by (simp add: table_wf_def list_all_length)
  then show ?thesis using wf by (simp add: table_wf_def fse_entry_at_def)
qed

lemma advance_at:
  assumes "table_wf m t" "at_cursor br c" "can_look (k + 9) br"
  shows "\<exists>br'. fse_advance (fse_entry_at t s) br = (next_state t s c, br') \<and> at_cursor br' (next_cursor t s c) \<and> can_look k br'"
proof -
  let ?n = "fe_num_bits (fse_entry_at t s)"
  have n: "?n \<le> 9" by (rule cell_bits [OF assms(1)])
  have l: "can_look ?n br" "can_look (k + ?n) br" using can_look_mono [OF assms(3)] n by simp_all
  obtain x br' where r: "br_read ?n br = (x, br')" by fastforce
  then show ?thesis
    using at_cursor_read [OF assms(2) l(1)] at_cursor_read(3) [OF assms(2) l(1) _ l(2)] n
    by (simp add: fse_advance_def next_state_def next_cursor_def)
qed

section \<open>The decoder is its reference\<close>

lemma weights_tail_ref:
  assumes "table_wf m t" "at_cursor br c" "can_look 9 br" "n \<le> length d"
  shows "weights_tail t d n sa sb br
     = rbind (weights_ref t (length d - n) sa sb c) (\<lambda>ws. Inr (overwrite d n ws, n + length ws))"
  using assms(2-)
proof (induction "length d - n" arbitrary: d n sa sb br c)
  case (Suc k)
  have True: "n < length d" and k: "length d - n = Suc k" "length d - Suc n = k" using Suc(2) by linarith+
  show ?case
  proof -
    define d1 where "d1 = d[n := weight_of t sa]"
    have len: "length d1 = length d" by (simp add: d1_def)
    obtain br1 where a: "fse_update t sa br = (next_state t sa c, br1)" "at_cursor br1 (next_cursor t sa c)"
      using advance_at [OF assms(1) Suc(3), of 0 sa] Suc(4) by (auto simp: fse_update_def)
    note r = at_cursor_reload [OF a(2)]
    show ?thesis
    proof (cases "cu_over (next_cursor t sa c)")
      case over: True
      then show ?thesis
        using True k a(1) at_cursor_overflowed [OF r(1)] overwrite_one [of "Suc n" d1] overwrite_Cons [of n d "weight_of t sa"] overwrite_one [of n d]
        by (simp add: weights_tail.simps [of t d] Let_def flip: d1_def) (auto simp: d1_def overwrite_Cons overwrite_one)
    next
      case ok: False
      have "weights_tail t d1 (n + 1) sb (next_state t sa c) (br_try_reload br1)
          = rbind (weights_ref t (length d1 - (n + 1)) sb (next_state t sa c) (next_cursor t sa c))
              (\<lambda>ws. Inr (overwrite d1 (n + 1) ws, n + 1 + length ws))"
        using True k r(1) can_look_mono [OF r(2), of 9] by (intro Suc(1)) (auto simp: len)
      then show ?thesis
        using True ok k a(1) at_cursor_overflowed [OF r(1)]
        by (simp add: weights_tail.simps [of t d] Let_def len flip: d1_def)
          (simp add: d1_def overwrite_Cons rbind_def split: sum.split)
    qed
  qed
qed (simp add: weights_tail.simps [of t])

text \<open>Four symbols between reloads, while the start of the stream is at least 8 bytes away.\<close>

lemma weights_ref_step:
  assumes "at_cursor br c" "\<not> cu_over c" "9 \<le> cu_rem c" "table_wf m t"
  shows "weights_ref t (Suc k) sa sb c
      = rbind (weights_ref t k sb (next_state t sa c) (next_cursor t sa c)) (\<lambda>ws. Inr (weight_of t sa # ws))"
    "\<not> cu_over (next_cursor t sa c)" "cu_rem c - 9 \<le> cu_rem (next_cursor t sa c)"
  using assms cell_bits [OF assms(4), of sa] by (auto simp: next_cursor_def skip_def)

lemma unfinished_room: "at_cursor br c \<Longrightarrow> br_unfinished br \<Longrightarrow> \<not> cu_over c \<and> 120 \<le> cu_rem c"
  by (auto simp: at_cursor_def br_unfinished_def br_rem_def split: if_splits)

lemma weights_fast_ref:
  assumes "table_wf m t" "at_cursor br c" "can_look 9 br" "n \<le> length d"
  shows "(case weights_fast t d n sa sb br of (d', n', sa', sb', br') \<Rightarrow> weights_tail t d' n' sa' sb' br')
     = rbind (weights_ref t (length d - n) sa sb c) (\<lambda>ws. Inr (overwrite d n ws, n + length ws))"
  using assms(2-)
proof (induction "length d - n" arbitrary: d n sa sb br c rule: less_induct)
  case (less d n s1 s2 br c)
  note r = at_cursor_reload [OF less(2)]
  show ?case
  proof (cases "n + 4 \<le> length d")
    case False
    then show ?thesis using weights_tail_ref [OF assms(1) less(2-4)] by (simp add: weights_fast.simps [of t d])
  next
    case room: True
    show ?thesis
    proof (cases "br_unfinished (br_try_reload br)")
      case False
      then show ?thesis using room weights_tail_ref [OF assms(1) r(1) can_look_mono [OF r(2)] less(4)]
        by (simp add: weights_fast.simps [of t d] Let_def)
    next
      case True
      note u = unfinished_room [OF r(1) True]
      have l: "can_look (48 + 9) (br_try_reload br)" using r(2) by simp
      note step = weights_ref_step [OF _ _ _ assms(1)]
      obtain b1 where a1: "fse_advance (fse_entry_at t s1) (br_try_reload br) = (next_state t s1 c, b1)"
        "at_cursor b1 (next_cursor t s1 c)" "can_look (39 + 9) b1"
        using advance_at [OF assms(1) r(1) l, of s1] by auto
      define c1 where "c1 = next_cursor t s1 c"
      have c1: "\<not> cu_over c1" "111 \<le> cu_rem c1" using step(2,3) [OF r(1), of s1] u by (auto simp: c1_def)
      obtain b2 where a2: "fse_advance (fse_entry_at t s2) b1 = (next_state t s2 c1, b2)"
        "at_cursor b2 (next_cursor t s2 c1)" "can_look (30 + 9) b2"
        using advance_at [OF assms(1) a1(2), of "30 + 9" s2] a1(3) by (auto simp: c1_def)
      define c2 where "c2 = next_cursor t s2 c1"
      have c2: "\<not> cu_over c2" "102 \<le> cu_rem c2" using step(2,3) [OF a1(2), of s2] c1 by (auto simp: c2_def c1_def)
      define s3 where "s3 = next_state t s1 c"
      obtain b3 where a3: "fse_advance (fse_entry_at t s3) b2 = (next_state t s3 c2, b3)"
        "at_cursor b3 (next_cursor t s3 c2)" "can_look (21 + 9) b3"
        using advance_at [OF assms(1) a2(2), of "21 + 9" s3] a2(3) by (auto simp: c2_def c1_def)
      define c3 where "c3 = next_cursor t s3 c2"
      have c3: "\<not> cu_over c3" "93 \<le> cu_rem c3" using step(2,3) [OF a2(2), of s3] c2 by (auto simp: c3_def c2_def c1_def)
      define s4 where "s4 = next_state t s2 c1"
      obtain b4 where a4: "fse_advance (fse_entry_at t s4) b3 = (next_state t s4 c3, b4)"
        "at_cursor b4 (next_cursor t s4 c3)" "can_look 9 b4"
        using advance_at [OF assms(1) a3(2), of "12 + 9" s4] a3(3) can_look_mono by (auto simp: c3_def c2_def c1_def)
      define ys where "ys = [weight_of t s1, weight_of t s2, weight_of t s3, weight_of t s4]"
      define d4 where "d4 = d[n := weight_of t s1, n + 1 := weight_of t s2, n + 2 := weight_of t s3, n + 3 := weight_of t s4]"
      define k where "k = length d - (n + 4)"
      have k: "length d - n = Suc (Suc (Suc (Suc k)))" "length d4 = length d" using room by (simp_all add: k_def d4_def)
      define s5 where "s5 = next_state t s3 c2"
      define s6 where "s6 = next_state t s4 c3"
      define c4 where "c4 = next_cursor t s4 c3"
      have fast: "weights_fast t d n s1 s2 br = weights_fast t d4 (n + 4) s5 s6 b4"
        using room True a1(1) a2(1) a3(1) a4(1)
        by (simp add: weights_fast.simps [of t d] Let_def s3_def [symmetric] s4_def [symmetric])
          (simp add: s5_def s6_def d4_def s3_def s4_def c2_def c1_def)
      have ref: "weights_ref t (length d - n) s1 s2 c = rbind (weights_ref t k s5 s6 c4) (\<lambda>ws. Inr (ys @ ws))"
        unfolding k(1) using u c1 c2 c3
          step(1) [OF r(1), of _ s1 s2] step(1) [OF a1(2), of _ s2 s3] step(1) [OF a2(2), of _ s3 s4] step(1) [OF a3(2), of _ s4 s5]
        by (simp add: c1_def [symmetric] c2_def [symmetric] c3_def [symmetric] c4_def [symmetric] s3_def [symmetric] s4_def [symmetric]
            s5_def [symmetric] s6_def [symmetric] del: weights_ref.simps) (simp add: ys_def rbind_def split: sum.split)
      have "overwrite d4 (n + 4) ws = overwrite d n (ys @ ws)" for ws
        using room by (simp add: d4_def ys_def overwrite_Cons [symmetric] eval_nat_numeral)
      moreover have "(case weights_fast t d4 (n + 4) s5 s6 b4 of (d', n', sa', sb', br') \<Rightarrow> weights_tail t d' n' sa' sb' br')
          = rbind (weights_ref t (length d4 - (n + 4)) s5 s6 c4) (\<lambda>ws. Inr (overwrite d4 (n + 4) ws, n + 4 + length ws))"
        using room a4(2,3) k(2) by (intro less(1)) (auto simp: c4_def)
      ultimately show ?thesis
        unfolding fast ref k(2) k_def by (simp add: rbind_def ys_def split: sum.split)
    qed
  qed
qed

text \<open>The weights a description holds, by the reference.\<close>

definition weights_spec :: "bytes \<Rightarrow> nat \<Rightarrow> bytes res option" where
  "weights_spec src room =
     then_do (read_ncount_into src 255 6) (\<lambda>(t, n).
       Some (rbind (if length src \<le> n then Inl Corruption else cursor_of (drop n src)) (\<lambda>c.
         let log = ft_accuracy_log t
         in weights_ref t room (peek log c mod 65536) (peek log (skip log c) mod 65536) (skip log (skip log c)))))"

lemma init_at:
  assumes "table_wf m t" "at_cursor br c" "can_look (k + 9) br"
  shows "\<exists>br'. fse_init_state t br = (peek (ft_accuracy_log t) c mod 65536, br')
    \<and> at_cursor br' (skip (ft_accuracy_log t) c) \<and> can_look k br'"
proof -
  let ?n = "ft_accuracy_log t"
  have n: "?n \<le> 9" using assms(1) by (simp add: table_wf_def)
  have l: "can_look ?n br" "can_look (k + ?n) br" using can_look_mono [OF assms(3)] n by simp_all
  obtain x br' where r: "br_read ?n br = (x, br')" by fastforce
  then show ?thesis
    using at_cursor_read [OF assms(2) l(1)] at_cursor_read(3) [OF assms(2) l(1) _ l(2)] n
    by (simp add: fse_init_state_def)
qed

lemma weights_decoded:
  "safe_res (\<lambda>ws. 1 \<le> length ws \<and> length ws \<le> min max_out (length dst)) (weights_spec src (min max_out (length dst)))"
  "decompress_weights_into dst src max_out
     = then_do (weights_spec src (min max_out (length dst))) (\<lambda>ws. Some (Inr (overwrite dst 0 ws, length ws, length src)))"
proof -
  let ?cap = "min max_out (length dst)"
  let ?spec = "weights_spec src ?cap"
  have cap: "slice_get dst 0 ?cap = Some (take ?cap dst)" by (simp add: slice_get_def)
  have "safe_res (\<lambda>(t, n). table_wf 255 t) (read_ncount_into src 255 6)" by (rule read_ncount_wf) simp_all
  then have "safe_res (\<lambda>ws. 1 \<le> length ws \<and> length ws \<le> ?cap) ?spec
    \<and> decompress_weights_into dst src max_out = then_do ?spec (\<lambda>ws. Some (Inr (overwrite dst 0 ws, length ws, length src)))"
  proof (cases rule: safe_res_cases)
    case 1
    then show ?thesis by (simp add: weights_spec_def decompress_weights_into_def cap)
  next
    case (2 x)
    obtain t n where x: "x = (t, n)" by (rule prod.exhaust)
    have wf: "table_wf 255 t" using 2 by (simp add: x)
    show ?thesis
    proof (cases "length src \<le> n")
      case True
      then show ?thesis using 2 by (simp add: weights_spec_def decompress_weights_into_def cap x)
    next
      case False
      show ?thesis
      proof (cases "cursor_of (drop n src)")
        case (Inl e)
        then have "e = Corruption" by (simp add: cursor_of_def split: if_splits)
        then show ?thesis using 2 False Inl at_cursor_new [of "drop n src"]
          by (simp add: weights_spec_def decompress_weights_into_def cap x)
      next
        case (Inr c)
        obtain br where br: "br_new (drop n src) = Inr br" "at_cursor br c" "can_look 56 br"
          using at_cursor_new [of "drop n src"] by (auto simp: Inr)
        let ?log = "ft_accuracy_log t"
        obtain br1 where i1: "fse_init_state t br = (peek ?log c mod 65536, br1)" "at_cursor br1 (skip ?log c)" "can_look 47 br1"
          using init_at [OF wf br(2), of 47] br(3) by auto
        obtain br2 where i2: "fse_init_state t br1 = (peek ?log (skip ?log c) mod 65536, br2)" "at_cursor br2 (skip ?log (skip ?log c))" "can_look 38 br2"
          using init_at [OF wf i1(2), of 38] i1(3) by auto
        have l: "can_look 9 br2" using can_look_mono [OF i2(3)] by simp
        define r where "r = weights_ref t ?cap (peek ?log c mod 65536) (peek ?log (skip ?log c) mod 65536) (skip ?log (skip ?log c))"
        have spec: "?spec = Some r" using 2 False Inr by (simp add: weights_spec_def x r_def Let_def)
        have "(case weights_fast t (take ?cap dst) 0 (peek ?log c mod 65536) (peek ?log (skip ?log c) mod 65536) br2 of
            (d', n', sa', sb', br') \<Rightarrow> weights_tail t d' n' sa' sb' br')
          = rbind r (\<lambda>ws. Inr (overwrite (take ?cap dst) 0 ws, 0 + length ws))"
          using weights_fast_ref [OF wf i2(2) l, of 0 "take ?cap dst"] by (simp add: r_def min_def)
        then have "decompress_weights_into dst src max_out
            = Some (rbind r (\<lambda>ws. Inr (overwrite (take ?cap dst) 0 ws @ drop ?cap dst, length ws, length src)))"
          using 2 False br(1) i1(1) i2(1)
          by (simp add: decompress_weights_into_def cap x Let_def rbind_def split: prod.splits sum.splits)
        moreover have "overwrite (take ?cap dst) 0 ws @ drop ?cap dst = overwrite dst 0 ws" if "r = Inr ws" for ws
          using weights_ref_length [OF that [unfolded r_def]]
          by (simp add: overwrite_def drop_take) (metis append_take_drop_id drop_drop le_add_diff_inverse2 min.bounded_iff)
        ultimately show ?thesis
          using weights_ref_corrupt [of t ?cap] weights_ref_length [of t ?cap] by (cases r) (auto simp: spec r_def)
      qed
    qed
  qed
  then show "safe_res (\<lambda>ws. 1 \<le> length ws \<and> length ws \<le> ?cap) ?spec"
    "decompress_weights_into dst src max_out = then_do ?spec (\<lambda>ws. Some (Inr (overwrite dst 0 ws, length ws, length src)))"
    by auto
qed

text \<open>C25: the FSE weight decoder, with its four-symbol fast loop, is the reference that advances one
  state at a time over the zero-extended cursor: same weights, same errors, the rest of the caller's
  buffer untouched, for every input.\<close>

theorem weights_decoder_exact:
  "decompress_weights_into dst src max_out
     = then_do (weights_spec src (min max_out (length dst))) (\<lambda>ws. Some (Inr (overwrite dst 0 ws, length ws, length src)))"
  by (rule weights_decoded)

lemma direct_weights_ok:
  "length src \<ge> 1 + (i + k + 1) div 2 \<Longrightarrow> i + k \<le> length w \<Longrightarrow>
   \<exists>ws. direct_weights src i k w = Some (overwrite w i ws) \<and> length ws = k"
proof (induction src i k w rule: direct_weights.induct)
  case (2 src i k w)
  have r: "1 + i div 2 < length src" using 2(2) by simp
  let ?y = "if i mod 2 = 0 then drop_bit 4 (src ! Suc (i div 2)) else src ! Suc (i div 2) AND 0x0F"
  obtain ws where "direct_weights src (i + 1) k (w[i := ?y]) = Some (overwrite (w[i := ?y]) (i + 1) ws)" "length ws = k"
    using 2(1) [of "src ! Suc (i div 2)"] 2(2,3) r by auto
  then show ?case using r 2(3) overwrite_Cons [of i w ?y ws] by (intro exI [of _ "?y # ws"]) simp
qed (auto intro: exI [of _ "[]"])

text \<open>On any bytes the description gives between 1 and 255 weights at the front of the buffer.\<close>

lemma read_weights_ok:
  assumes "length w = 256"
  shows "safe_res (\<lambda>(w', n, used). \<exists>ws. w' = overwrite w 0 ws \<and> length ws = n \<and> 1 \<le> n \<and> n \<le> 255
    \<and> 1 \<le> used \<and> used \<le> length src) (read_weights src w)"
proof (cases "src = []")
  case False
  define h where "h = unat (src ! 0)"
  have h: "h < 256" by (simp add: h_def)
  show ?thesis
  proof (cases "128 \<le> h")
    case True
    show ?thesis
    proof (cases "length src < 1 + (h - 127 + 1) div 2")
      case short: True
      then show ?thesis using False True by (simp add: read_weights_def h_def Let_def)
    next
      case room: False
      obtain ws where ws: "direct_weights src 0 (h - 127) w = Some (overwrite w 0 ws)" "length ws = h - 127"
      proof -
        have "h - 127 \<le> 256" using h by linarith
        then show ?thesis using direct_weights_ok [of 0 "h - 127" src w] room assms that by auto
      qed
      have "read_weights src w = Some (Inr (overwrite w 0 ws, h - 127, 1 + (h - 127 + 1) div 2))"
        using False True room ws(1) by (simp add: read_weights_def h_def Let_def)
      then show ?thesis using ws(2) True h room by auto
    qed
  next
    case fse: False
    show ?thesis
    proof (cases "h = 0 \<or> length src < 1 + h")
      case True
      then show ?thesis using False fse by (auto simp: read_weights_def h_def Let_def)
    next
      case ok: False
      have m: "min 255 (length w) = 255" by (simp add: assms)
      note d = weights_decoded [where max_out = 255 and dst = w and src = "take h (drop 1 src)", unfolded m]
      have "read_weights src w = then_do (weights_spec (take h (drop 1 src)) 255) (\<lambda>ws. Some (Inr (overwrite w 0 ws, length ws, 1 + h)))"
        using False fse ok d(2) by (simp add: read_weights_def h_def Let_def then_do_def split: option.split sum.split)
      then show ?thesis using safe_res_then [OF d(1)] ok by (force simp: Suc_le_eq)
    qed
  qed
qed (simp add: read_weights_def)

end
