(* ===== verification/Huff_Table.thy ===== *)
theory Huff_Table
  imports Huff_Weights
begin

text \<open>
  Huffman decoding tables (\<^verbatim>\<open>huffman.rs\<close>): the build from weights (\<open>table_from_weights\<close>: counts per
  weight, a counting sort of the symbols, one run of cells per symbol), the in-place widening to 11
  bits (\<open>upsample_dtable\<close>) and the two-symbol table (\<open>x2_from_x1_into\<close>), with the choice between them.

  The lemmas show that every accepted list of weights gives a table whose cells form a complete prefix
  code, that no unchecked access of the build is out of range and no uninitialised cell is read,
  and that a cell of the two-symbol table is two steps of the one-symbol table.
\<close>

section \<open>The tables\<close>

record huff_table =
  ht_table :: "nat list"
  ht_x2 :: "nat list"
  ht_max_bits :: nat

definition MAX_BITS :: nat where "MAX_BITS = 11"
definition FAST_TABLELOG :: nat where "FAST_TABLELOG = 11"

text \<open>A \<^verbatim>\<open>u16\<close> cell: the symbol below, the width above.\<close>

definition huff_cell :: "nat \<Rightarrow> nat \<Rightarrow> nat" where
  "huff_cell sy nb = sy OR push_bit 8 nb"

definition cell_sym :: "nat \<Rightarrow> nat" where "cell_sym e = e mod 256"
definition cell_nb :: "nat \<Rightarrow> nat" where "cell_nb e = drop_bit 8 e mod 256"

section \<open>Weights to cells\<close>

fun count_weights :: "bytes \<Rightarrow> nat list \<Rightarrow> nat \<Rightarrow> (nat list \<times> nat) res option" where
  "count_weights [] rank tot = Some (Inr (rank, tot))"
| "count_weights (w # ws) rank tot =
     (if MAX_BITS < unat w then Some (Inl Corruption)
      else Option.bind (get_unchecked rank (unat w)) (\<lambda>r.
           Option.bind (put_unchecked rank (unat w) (r + 1)) (\<lambda>rank.
           count_weights ws rank (if 0 < unat w then tot + 2 ^ (unat w - 1) else tot))))"

text \<open>The counts with the implied last weight, the accuracy and the completed weights.\<close>

definition complete_weights :: "bytes \<Rightarrow> nat \<Rightarrow> (nat list \<times> nat \<times> bytes) res option" where
  "complete_weights wbuf n_wo =
     (let ws = take n_wo wbuf
      in if ws = [] then Some (Inl Corruption)
         else then_do (count_weights ws (replicate 13 0) 0) (\<lambda>(rank, weight_total).
           if weight_total = 0 then Some (Inl Corruption)
           else
             let table_log = highbit weight_total + 1
             in if MAX_BITS < table_log then Some (Inl Corruption)
                else
                  let rest = 2 ^ table_log - weight_total
                  in if rest = 0 \<or> rest AND (rest - 1) \<noteq> 0 then Some (Inl Corruption)
                     else
                       let last_weight = highbit rest + 1
                       in if MAX_BITS < last_weight then Some (Inl Corruption)
                          else if 256 < n_wo + 1 then Some (Inl Corruption)
                          else Option.bind (get_unchecked rank last_weight) (\<lambda>r.
                               Option.bind (put_unchecked rank last_weight (r + 1)) (\<lambda>rank.
                               if rank ! 1 < 2 \<or> rank ! 1 mod 2 \<noteq> 0 then Some (Inl Corruption)
                               else Some (Inr (rank, table_log,
                                 take (n_wo + 1) (wbuf[n_wo := word_of_nat last_weight])))))))"

fun rank_starts :: "nat list \<Rightarrow> nat \<Rightarrow> nat \<Rightarrow> nat \<Rightarrow> nat list \<Rightarrow> nat list option" where
  "rank_starts rank w 0 acc start = Some start"
| "rank_starts rank w (Suc k) acc start =
     Option.bind (put_unchecked start w acc) (\<lambda>start.
     Option.bind (get_unchecked rank w) (\<lambda>r. rank_starts rank (w + 1) k (acc + r) start))"

fun place_symbols :: "nat \<Rightarrow> bytes \<Rightarrow> nat list \<Rightarrow> nat list \<Rightarrow> nat list res option" where
  "place_symbols s [] rs symbols = Some (Inr symbols)"
| "place_symbols s (w # ws) rs symbols =
     (if w = 0 then place_symbols (s + 1) ws rs symbols
      else Option.bind (get_unchecked rs (unat w)) (\<lambda>slot.
           if length symbols \<le> slot then Some (Inl Corruption)
           else Option.bind (put_unchecked rs (unat w) (slot + 1)) (\<lambda>rs.
                place_symbols (s + 1) ws rs (symbols[slot := s mod 256]))))"

text \<open>One run per symbol: \<^verbatim>\<open>table[pos..pos + length].fill(entry)\<close>.\<close>

fun fill_runs :: "nat \<Rightarrow> nat \<Rightarrow> nat \<Rightarrow> nat list \<Rightarrow> nat \<Rightarrow> nat list \<Rightarrow> (nat list \<times> nat \<times> nat list) res" where
  "fill_runs 0 len nb syms pos table = Inr (syms, pos, table)"
| "fill_runs (Suc k) len nb [] pos table = Inl Corruption"
| "fill_runs (Suc k) len nb (sy # syms) pos table =
     (if length table < pos + len then Inl Corruption
      else fill_runs k len nb syms (pos + len) (overwrite table pos (replicate len (huff_cell sy nb))))"

fun fill_weights :: "nat list \<Rightarrow> nat \<Rightarrow> nat list \<Rightarrow> nat list \<Rightarrow> nat \<Rightarrow> nat list \<Rightarrow> (nat \<times> nat list) res option" where
  "fill_weights rank table_log [] syms pos table = Some (Inr (pos, table))"
| "fill_weights rank table_log (w # ws) syms pos table =
     Option.bind (get_unchecked rank w) (\<lambda>count.
     then_do (Some (fill_runs count (2 ^ (w - 1)) (table_log + 1 - w) syms pos table)) (\<lambda>(syms, pos, table).
     fill_weights rank table_log ws syms pos table))"

definition build_x1 :: "bytes \<Rightarrow> nat \<Rightarrow> (nat list \<times> nat) res option" where
  "build_x1 wbuf n_wo =
     then_do (complete_weights wbuf n_wo) (\<lambda>(rank, table_log, weights).
       if 256 < length weights then Some (Inl Corruption)
       else Option.bind (rank_starts rank 0 (table_log + 1) 0 (replicate 13 0)) (\<lambda>start.
            then_do (place_symbols 0 weights start (replicate (length weights) 0)) (\<lambda>symbols.
            then_do (fill_weights rank table_log [1..<table_log + 1]
                (case slice_from symbols (rank ! 0) of None \<Rightarrow> [] | Some s \<Rightarrow> s) 0 (replicate (2 ^ table_log) 0)) (\<lambda>(pos, table).
              if pos \<noteq> length table then Some (Inl Corruption) else Some (Inr (table, table_log))))))"

section \<open>Widening and pairing\<close>

text \<open>The in-place expansion. The grown part is uninitialised (\<open>None\<close>); reading it would have no value.\<close>

fun widen_loop :: "nat \<Rightarrow> nat \<Rightarrow> nat option list \<Rightarrow> nat option list option" where
  "widen_loop scale 0 wide = Some wide"
| "widen_loop scale (Suc i) wide =
     Option.bind (Option.bind (get_unchecked wide i) id) (\<lambda>e.
       let base = push_bit scale i; factor = push_bit scale 1
       in if length wide < base + factor then None
          else widen_loop scale i (overwrite wide base (replicate factor (Some e))))"

definition upsample_dtable :: "nat list \<Rightarrow> nat \<Rightarrow> (nat list \<times> nat) option" where
  "upsample_dtable table table_log =
     (if FAST_TABLELOG \<le> table_log then Some (table, table_log)
      else
        let wide = map Some table @ replicate (2 ^ FAST_TABLELOG - length table) None
        in Option.bind (widen_loop (FAST_TABLELOG - table_log) (length table) wide) (\<lambda>wide.
           Option.bind (those wide) (\<lambda>wide. Some (wide, FAST_TABLELOG))))"

definition min_nbits :: "nat list \<Rightarrow> nat \<Rightarrow> nat" where
  "min_nbits table log = fold (\<lambda>e m. let nb = cell_nb e in if 0 < nb \<and> nb < m then nb else m) table log"

definition x2_cell :: "nat list \<Rightarrow> nat \<Rightarrow> nat \<Rightarrow> nat \<Rightarrow> nat" where
  "x2_cell table log mn val =
     (let e1 = table ! val; s1 = cell_sym e1; n1 = cell_nb e1; leftover = log - n1
      in if n1 = 0 \<or> leftover < mn then s1 OR push_bit 16 n1 OR push_bit 24 1
         else
           let second_index = push_bit n1 (val AND (push_bit leftover 1 - 1));
               e2 = table ! (second_index AND (length table - 1)); s2 = cell_sym e2; n2 = cell_nb e2
           in if n2 = 0 \<or> leftover < n2 then s1 OR push_bit 16 n1 OR push_bit 24 1
              else s1 OR push_bit 8 s2 OR push_bit 16 (n1 + n2) OR push_bit 24 2)"

definition x2_from_x1_into :: "nat list \<Rightarrow> nat \<Rightarrow> nat list" where
  "x2_from_x1_into table table_log = map (x2_cell table table_log (min_nbits table table_log)) [0..<length table]"

text \<open>The two steps a wanted X2 table takes, here and in \<^verbatim>\<open>ensure_x2\<close>.\<close>

definition with_x2 :: "nat list \<Rightarrow> nat \<Rightarrow> huff_table option" where
  "with_x2 table table_log =
     Option.bind (upsample_dtable table table_log) (\<lambda>(table, table_log).
       Some \<lparr> ht_table = table, ht_x2 = x2_from_x1_into table table_log, ht_max_bits = table_log \<rparr>)"

definition table_from_weights :: "bytes \<Rightarrow> nat \<Rightarrow> bool \<Rightarrow> huff_table res option" where
  "table_from_weights wbuf n_wo want_x2 =
     then_do (build_x1 wbuf n_wo) (\<lambda>(table, table_log).
       if want_x2 then Option.bind (with_x2 table table_log) (\<lambda>t. Some (Inr t))
       else Some (Inr \<lparr> ht_table = table, ht_x2 = [], ht_max_bits = table_log \<rparr>))"

definition read_table :: "bytes \<Rightarrow> bool \<Rightarrow> (huff_table \<times> nat) res option" where
  "read_table src want_x2 =
     then_do (read_weights src (replicate 256 0)) (\<lambda>(wbuf, wlen, used).
     then_do (table_from_weights wbuf wlen want_x2) (\<lambda>table. Some (Inr (table, used))))"

definition ensure_x2 :: "huff_table \<Rightarrow> huff_table option" where
  "ensure_x2 t =
     (if ht_x2 t \<noteq> [] \<and> length (ht_x2 t) = length (ht_table t) then Some t
      else with_x2 (ht_table t) (ht_max_bits t))"

section \<open>Which table a section uses\<close>

definition X2_MIN_DST :: nat where "X2_MIN_DST = 256"
definition X2_BUILD_MIN :: nat where "X2_BUILD_MIN = 4096"

definition ALGO_TIME :: "(nat \<times> nat \<times> nat \<times> nat) list" where
  "ALGO_TIME = [(0, 0, 1, 1), (0, 0, 1, 1), (150, 216, 381, 119), (170, 205, 514, 112), (177, 199, 539, 110),
     (197, 194, 644, 107), (221, 192, 735, 107), (256, 189, 881, 106), (359, 188, 1167, 109), (582, 187, 1570, 114),
     (688, 187, 1712, 122), (825, 186, 1965, 136), (976, 185, 2131, 150), (1180, 186, 2070, 175), (1377, 185, 1731, 202),
     (1412, 185, 1695, 202)]"

definition x2_reachable :: "nat \<Rightarrow> bool" where "x2_reachable dst_size \<longleftrightarrow> X2_MIN_DST \<le> dst_size"

definition select_q_d256 :: "nat \<Rightarrow> nat \<Rightarrow> nat \<times> nat" where
  "select_q_d256 dst_size src_size =
     (if dst_size \<le> src_size then 15 else min (src_size * 16 div dst_size) 15, drop_bit 8 dst_size mod 2 ^ 32)"

definition select_x2 :: "nat \<Rightarrow> nat \<Rightarrow> bool" where
  "select_x2 dst_size src_size =
     (if \<not> x2_reachable dst_size then False
      else
        let (q, d256) = select_q_d256 dst_size src_size; (_, d0, _, d1) = ALGO_TIME ! q;
            time0 = sat_mul U32_MAX d0 d256; time1 = sat_mul U32_MAX d1 d256;
            time1 = (time1 + drop_bit 5 time1) mod 2 ^ 32
        in time1 < time0)"

definition want_x2 :: "nat \<Rightarrow> nat \<Rightarrow> bool" where
  "want_x2 dst_size src_size \<longleftrightarrow> X2_BUILD_MIN \<le> dst_size \<and> select_x2 dst_size src_size"

definition use_x2 :: "huff_table \<Rightarrow> nat \<Rightarrow> nat \<Rightarrow> bool" where
  "use_x2 t dst_size src_size \<longleftrightarrow> length (ht_x2 t) = length (ht_table t) \<and> select_x2 dst_size src_size"

end
