(* ===== verification/Huff_Code.thy ===== *)
theory Huff_Code
  imports Huff_Table
begin

text \<open>
  The table the build gives: for each weight, ascending, one run of \<open>2 ^ (w - 1)\<close> cells per symbol of
  that weight, in symbol order (\<open>huff_cells\<close>). The runs fill \<open>2 ^ log\<close> cells exactly and each starts
  at a multiple of its length, so that a cell is determined by its own code bits: a complete prefix
  code (\<open>x1_wf\<close>). Widening keeps this, and pairing two steps into one cell reads the same symbols.
\<close>

section \<open>Counting\<close>

definition cnt :: "bytes \<Rightarrow> nat \<Rightarrow> nat" where
  "cnt ws w = length (filter (\<lambda>x. unat x = w) ws)"

definition wsum :: "bytes \<Rightarrow> nat" where
  "wsum ws = sum_list (map (\<lambda>x. if 0 < unat x then 2 ^ (unat x - 1) else 0) ws)"

definition syms_of :: "bytes \<Rightarrow> nat \<Rightarrow> nat list" where
  "syms_of ws w = filter (\<lambda>i. unat (ws ! i) = w) [0..<length ws]"

definition start_of :: "bytes \<Rightarrow> nat \<Rightarrow> nat" where
  "start_of ws w = sum_list (map (cnt ws) [0..<w])"

lemma cnt_simps [simp]:
  "cnt [] w = 0" "cnt (x # xs) w = (if unat x = w then Suc (cnt xs w) else cnt xs w)"
  "cnt (xs @ ys) w = cnt xs w + cnt ys w"
  by (simp_all add: cnt_def)

lemma wsum_simps [simp]:
  "wsum [] = 0" "wsum (x # xs) = (if 0 < unat x then 2 ^ (unat x - 1) else 0) + wsum xs"
  "wsum (xs @ ys) = wsum xs + wsum ys"
  by (simp_all add: wsum_def)

lemma wsum_member: "x \<in> set ws \<Longrightarrow> 0 < unat x \<Longrightarrow> 2 ^ (unat x - 1) \<le> wsum ws"
  by (induction ws) auto

lemma syms_of_snoc: "syms_of (xs @ [x]) w = syms_of xs w @ (if unat x = w then [length xs] else [])"
  by (auto simp: syms_of_def nth_append intro!: filter_cong)

lemma length_syms_of: "length (syms_of ws w) = cnt ws w"
  by (induction ws rule: rev_induct) (simp_all add: syms_of_snoc, simp add: syms_of_def)

lemma syms_of_less: "s \<in> set (syms_of ws w) \<Longrightarrow> s < length ws"
  by (simp add: syms_of_def)

lemma start_of_Suc [simp]: "start_of ws (Suc w) = start_of ws w + cnt ws w" "start_of ws 0 = 0"
  by (simp_all add: start_of_def)

lemma start_of_mono: "v < w \<Longrightarrow> start_of ws v + cnt ws v \<le> start_of ws w"
  by (induction w) (auto simp: less_Suc_eq)

lemma cnt_total: "\<forall>x \<in> set ws. unat x \<le> L \<Longrightarrow> start_of ws (Suc L) = length ws"
proof (induction ws)
  case (Cons x ws)
  have "sum_list (map (cnt (x # ws)) [0..<n]) = sum_list (map (cnt ws) [0..<n]) + (if unat x < n then 1 else 0)" for n
    by (induction n) auto
  from this [of "Suc L"] Cons show ?case by (simp add: start_of_def)
qed (simp add: start_of_def)

lemma weighted_total:
  "\<forall>x \<in> set ws. unat x \<le> L \<Longrightarrow> sum_list (map (\<lambda>w. cnt ws w * 2 ^ (w - 1)) [1..<Suc L]) = wsum ws"
proof (induction ws)
  case (Cons x ws)
  have "sum_list (map (\<lambda>w. cnt (x # ws) w * 2 ^ (w - 1)) [1..<Suc n])
      = sum_list (map (\<lambda>w. cnt ws w * 2 ^ (w - 1)) [1..<Suc n]) + (if 0 < unat x \<and> unat x \<le> n then 2 ^ (unat x - 1) else 0)" for n
    by (induction n) auto
  from this [of L] Cons show ?case by simp
qed simp

lemma count_weights_ok:
  "length rank = 13 \<Longrightarrow> count_weights ws rank tot
     = (if list_all (\<lambda>w. unat w \<le> MAX_BITS) ws then Some (Inr (map (\<lambda>i. rank ! i + cnt ws i) [0..<13], tot + wsum ws))
        else Some (Inl Corruption))"
proof (induction ws arbitrary: rank tot)
  case Nil
  then show ?case by (simp add: list_eq_iff_nth_eq)
next
  case (Cons w ws)
  show ?case
  proof (cases "MAX_BITS < unat w")
    case False
    then have "unat w < 13" by (simp add: MAX_BITS_def)
    then show ?thesis using Cons False by (auto simp: nth_list_update)
  qed simp
qed

section \<open>The completed weights\<close>

lemma power_of_two:
  assumes "0 < x" "x AND (x - 1) = (0 :: nat)"
  shows "x = 2 ^ highbit x"
proof (rule ccontr)
  let ?h = "highbit x"
  assume ne: "x \<noteq> 2 ^ ?h"
  note b = highbit_bounds [OF assms(1)]
  have d: "x div 2 ^ ?h = 1" using b by (auto intro!: div_nat_eqI)
  have d': "(x - 1) div 2 ^ ?h = 1" using b ne by (auto intro!: div_nat_eqI)
  have "bit x ?h" "bit (x - 1) ?h" by (simp_all only: bit_iff_odd d d', simp_all)
  then have "bit (x AND (x - 1)) ?h" by (simp add: bit_and_iff)
  then show False unfolding assms(2) by simp
qed

text \<open>What a list of weights must be for a table to be built from it.\<close>

definition weights_ok :: "bytes \<Rightarrow> nat \<Rightarrow> bool" where
  "weights_ok ws log \<longleftrightarrow> 1 \<le> log \<and> log \<le> MAX_BITS \<and> length ws \<le> 256 \<and> list_all (\<lambda>w. unat w \<le> log) ws \<and> wsum ws = 2 ^ log"

lemma complete_weights_ok:
  assumes "n < length wbuf"
  shows "safe_res (\<lambda>(rank, log, ws). weights_ok ws log \<and> rank = map (cnt ws) [0..<13] \<and> take n ws = take n wbuf \<and> length ws = Suc n)
    (complete_weights wbuf n)"
proof -
  define ws0 where "ws0 = take n wbuf"
  let ?P = "\<lambda>(rank, log, ws). weights_ok ws log \<and> rank = map (cnt ws) [0..<13] \<and> take n ws = take n wbuf \<and> length ws = Suc n"
  note eq = complete_weights_def [of wbuf n, folded ws0_def, unfolded Let_def]
  have c: "count_weights ws0 (replicate 13 0) 0
      = (if list_all (\<lambda>w. unat w \<le> MAX_BITS) ws0 then Some (Inr (map (cnt ws0) [0..<13], wsum ws0)) else Some (Inl Corruption))"
    by (subst count_weights_ok) (auto intro!: map_cong simp: nth_Cons' eval_nat_numeral)
  consider "ws0 = []" | "ws0 \<noteq> []" "\<not> list_all (\<lambda>w. unat w \<le> MAX_BITS) ws0" | "ws0 \<noteq> []" "list_all (\<lambda>w. unat w \<le> MAX_BITS) ws0"
    by blast
  then show ?thesis
  proof cases
    case 3
    define tot where "tot = wsum ws0"
    define log where "log = highbit tot + 1"
    define rest where "rest = 2 ^ log - tot"
    define lw where "lw = highbit rest + 1"
    note eq' = eq [unfolded c if_P [OF 3(2)] if_not_P [OF 3(1)] then_do_simps prod.case, folded tot_def, folded log_def, folded rest_def, folded lw_def]
    show ?thesis
    proof (cases "tot = 0 \<or> MAX_BITS < log \<or> rest = 0 \<or> rest AND (rest - 1) \<noteq> 0 \<or> MAX_BITS < lw \<or> 256 < n + 1")
      case True
      then show ?thesis by (auto simp: eq')
    next
      case ok: False
      then have ok': "0 < tot" "log \<le> 11" "0 < rest" "rest AND (rest - 1) = 0" "lw \<le> 11" "n < 256"
        by (simp_all add: MAX_BITS_def)
      define ws where "ws = ws0 @ [word_of_nat lw]"
      have tk: "take (n + 1) (wbuf[n := word_of_nat lw]) = ws"
        using assms by (simp add: ws_def ws0_def take_Suc_conv_app_nth)
      have lw: "unat (word_of_nat lw :: u8) = lw" using ok'(5) by simp
      have b: "2 ^ (log - 1) \<le> tot" "tot < 2 ^ log" using highbit_bounds [OF ok'(1)] by (simp_all add: log_def)
      have r: "rest = 2 ^ (lw - 1)" using power_of_two [OF ok'(3,4)] by (simp add: lw_def)
      have sum: "wsum ws = 2 ^ log" using b r lw by (simp add: ws_def tot_def [symmetric] lw_def rest_def)
      have "rest \<le> 2 ^ (log - 1)" using b by (simp add: rest_def log_def)
      then have "lw \<le> log" using ok'(5) unfolding r by (simp add: log_def)
      moreover have "unat x \<le> log" if "x \<in> set ws0" for x
      proof (cases "unat x = 0")
        case False
        then have "2 ^ (unat x - 1) \<le> tot" using wsum_member [OF that] by (simp add: tot_def)
        from le_less_trans [OF this b(2)] have "unat x - 1 < log" by (rule nat_power_less_imp_less [rotated]) simp
        then show ?thesis by simp
      qed simp
      ultimately have all: "list_all (\<lambda>w. unat w \<le> log) ws" by (simp add: ws_def list_all_iff lw)
      have wok: "weights_ok ws log" using ok' all sum assms by (simp add: weights_ok_def MAX_BITS_def log_def ws_def ws0_def)
      have rank: "(map (cnt ws0) [0..<13])[lw := map (cnt ws0) [0..<13] ! lw + 1] = map (cnt ws) [0..<13]"
        using ok'(5) by (auto simp: list_eq_iff_nth_eq nth_list_update ws_def lw)
      show ?thesis using ok ok'(5) wok rank assms tk
        by (auto simp: eq' get_unchecked_def put_unchecked_def)
    qed
  qed (auto simp: eq c)
qed

section \<open>The counting sort\<close>

lemma rank_starts_ok:
  "length start = 13 \<Longrightarrow> length rank = 13 \<Longrightarrow> w + k \<le> 13 \<Longrightarrow>
   \<exists>start'. rank_starts rank w k acc start = Some start' \<and> length start' = 13
     \<and> (\<forall>v. w \<le> v \<and> v < w + k \<longrightarrow> start' ! v = acc + sum_list (map ((!) rank) [w..<v]))
     \<and> (\<forall>v < w. start' ! v = start ! v)"
proof (induction k arbitrary: w acc start)
  case (Suc k)
  obtain st where st: "rank_starts rank (w + 1) k (acc + rank ! w) (start[w := acc]) = Some st" "length st = 13"
    "\<forall>v. w + 1 \<le> v \<and> v < w + 1 + k \<longrightarrow> st ! v = acc + rank ! w + sum_list (map ((!) rank) [w + 1..<v])"
    "\<forall>v < w + 1. st ! v = start[w := acc] ! v"
    using Suc.IH [of "start[w := acc]" "w + 1" "acc + rank ! w"] Suc.prems by auto
  have "st ! v = acc + sum_list (map ((!) rank) [w..<v])" if "w \<le> v" "v < w + Suc k" for v
  proof (cases "v = w")
    case True
    then show ?thesis using st(4) Suc.prems by simp
  next
    case False
    then have "[w..<v] = w # [w + 1..<v]" using that by (simp add: upt_conv_Cons)
    then show ?thesis using st(3) that False by simp
  qed
  then show ?case using st Suc.prems by auto
qed simp

lemma place_symbols_ok:
  assumes "ws = p @ q" "length ws \<le> 256" "list_all (\<lambda>w. unat w \<le> L) ws" "L \<le> 12" "length rs = 13" "length symbols = length ws"
    "\<And>w. w \<le> L \<Longrightarrow> 0 < w \<Longrightarrow> rs ! w = start_of ws w + cnt p w"
    "\<And>w. w \<le> L \<Longrightarrow> 0 < w \<Longrightarrow> take (cnt p w) (drop (start_of ws w) symbols) = syms_of p w"
  shows "\<exists>symbols'. place_symbols (length p) q rs symbols = Some (Inr symbols') \<and> length symbols' = length ws
    \<and> (\<forall>w. w \<le> L \<and> 0 < w \<longrightarrow> take (cnt ws w) (drop (start_of ws w) symbols') = syms_of ws w)"
  using assms
proof (induction q arbitrary: p rs symbols)
  case (Cons x q)
  show ?case
  proof (cases "x = 0")
    case True
    have "cnt (p @ [x]) w = cnt p w" "syms_of (p @ [x]) w = syms_of p w" if "0 < w" for w
      using that True by (simp_all add: syms_of_snoc)
    then show ?thesis using Cons.IH [of "p @ [x]" rs symbols] Cons.prems True by simp
  next
    case False
    define w where "w = unat x"
    have w: "0 < w" "w \<le> L" using False Cons.prems(1,3) by (auto simp: w_def unat_gt_0)
    define slot where "slot = start_of ws w + cnt p w"
    have end': "slot < start_of ws w + cnt ws w" by (simp add: slot_def Cons.prems(1) w_def)
    have tot: "start_of ws (Suc L) = length ws" using cnt_total [of ws L] Cons.prems(3) by (simp add: list_all_iff)
    have slot: "slot < length ws"
      using start_of_mono [of w "Suc L" ws] end' w(2) tot by simp
    have r: "rs ! w = slot" using Cons.prems(7) [OF w(2,1)] by (simp add: slot_def)
    let ?rs = "rs[w := slot + 1]" and ?sy = "symbols[slot := length p mod 256]"
    have p256: "length p mod 256 = length p" using Cons.prems(1,2) by simp
    have rs': "?rs ! v = start_of ws v + cnt (p @ [x]) v" if "v \<le> L" "0 < v" for v
      using Cons.prems(4,5,7) that w by (auto simp: nth_list_update slot_def w_def)
    have sy': "take (cnt (p @ [x]) v) (drop (start_of ws v) ?sy) = syms_of (p @ [x]) v" if v: "v \<le> L" "0 < v" for v
    proof (cases "v = w")
      case True
      have "drop (start_of ws w) ?sy = (drop (start_of ws w) symbols)[cnt p w := length p]"
        by (simp add: slot_def p256 drop_update_swap)
      moreover have "cnt p w < length (drop (start_of ws w) symbols)" using slot Cons.prems(6) by (simp add: slot_def)
      ultimately show ?thesis
        using Cons.prems(8) [OF w(2,1)] True by (simp add: syms_of_snoc take_Suc_conv_app_nth w_def)
    next
      case ne: False
      have same: "take (cnt p v) (drop (start_of ws v) ?sy) = take (cnt p v) (drop (start_of ws v) symbols)"
      proof (cases "v < w")
        case True
        have "start_of ws v + cnt p v \<le> slot"
          using start_of_mono [OF True, of ws] by (simp add: slot_def Cons.prems(1))
        then show ?thesis by (simp add: drop_update_swap take_update_cancel split: nat_diff_split)
      next
        case False
        then have "slot < start_of ws v" using start_of_mono [of w v ws] ne end' by simp
        then show ?thesis by (simp add: drop_update_cancel)
      qed
      then show ?thesis using Cons.prems(8) [OF v] ne by (simp add: syms_of_snoc w_def)
    qed
    have "\<exists>s'. place_symbols (length (p @ [x])) q ?rs ?sy = Some (Inr s') \<and> length s' = length ws
      \<and> (\<forall>w. w \<le> L \<and> 0 < w \<longrightarrow> take (cnt ws w) (drop (start_of ws w) s') = syms_of ws w)"
      using Cons.prems rs' sy' by (intro Cons.IH) simp_all
    moreover have "w < 13" using w Cons.prems(4) by simp
    ultimately show ?thesis using False slot r Cons.prems(5,6) by (simp add: w_def [symmetric])
  qed
qed simp

lemma sorted_symbols:
  assumes "list_all (\<lambda>w. unat w \<le> L) ws" "length symbols = length ws" "v \<le> Suc L" "0 < v"
    "\<forall>w. w \<le> L \<and> 0 < w \<longrightarrow> take (cnt ws w) (drop (start_of ws w) symbols) = syms_of ws w"
  shows "drop (start_of ws v) symbols = concat (map (syms_of ws) [v..<Suc L])"
  using assms(3,4)
proof (induction "Suc L - v" arbitrary: v)
  case 0
  then have "v = Suc L" by simp
  then show ?case using cnt_total [of ws L] assms(1,2) by (simp add: list_all_iff)
next
  case (Suc k)
  have v: "v < Suc L" "v \<le> L" using Suc(2) by simp_all
  have "drop (start_of ws v) symbols = take (cnt ws v) (drop (start_of ws v) symbols) @ drop (start_of ws (Suc v)) symbols"
    by (metis add.commute append_take_drop_id drop_drop start_of_Suc(1))
  also have "drop (start_of ws (Suc v)) symbols = concat (map (syms_of ws) [Suc v..<Suc L])"
    using Suc(1) [of "Suc v"] Suc(2) v by simp
  finally show ?case using assms(5) v Suc(4) upt_conv_Cons [OF v(1)] by simp
qed

section \<open>The runs\<close>

definition weight_cells :: "bytes \<Rightarrow> nat \<Rightarrow> nat \<Rightarrow> nat list" where
  "weight_cells ws log w = concat (map (\<lambda>s. replicate (2 ^ (w - 1)) (huff_cell s (log + 1 - w))) (syms_of ws w))"

definition huff_cells :: "bytes \<Rightarrow> nat \<Rightarrow> nat list" where
  "huff_cells ws log = concat (map (weight_cells ws log) [1..<Suc log])"

lemma overwrite_overwrite:
  "p + length xs + length ys \<le> length t \<Longrightarrow> overwrite (overwrite t p xs) (p + length xs) ys = overwrite t p (xs @ ys)"
  by (simp add: overwrite_def add.commute add.left_commute)

lemma take_overwrite: "i \<le> p \<Longrightarrow> p \<le> length t \<Longrightarrow> take i (overwrite t p xs) = take i t"
  by (simp add: overwrite_def min_def)

lemma overwrite_all: "length xs = length t \<Longrightarrow> overwrite t 0 xs = xs"
  by (simp add: overwrite_def)

lemma length_runs: "length (concat (map (\<lambda>s. replicate n (f s)) ss)) = n * length ss"
  by (induction ss) simp_all

lemma fill_runs_ok:
  "pos + len * length ss \<le> length table \<Longrightarrow>
   fill_runs (length ss) len nb (ss @ rest) pos table
     = Inr (rest, pos + len * length ss, overwrite table pos (concat (map (\<lambda>s. replicate len (huff_cell s nb)) ss)))"
proof (induction ss arbitrary: pos table)
  case (Cons s ss)
  let ?t = "overwrite table pos (replicate len (huff_cell s nb))"
  have "length ?t = length table" using Cons.prems by simp
  then show ?case using Cons overwrite_overwrite [of pos "replicate len (huff_cell s nb)"]
    by (simp add: length_runs add.commute add.left_commute)
qed simp

lemma length_weight_cells: "length (weight_cells ws log w) = cnt ws w * 2 ^ (w - 1)"
  by (simp add: weight_cells_def length_runs length_syms_of)

lemma fill_weights_ok:
  assumes "rank = map (cnt ws) [0..<13]" "\<forall>v \<in> set vs. v < 13"
    "pos + length (concat (map (weight_cells ws log) vs)) \<le> length table"
  shows "fill_weights rank log vs (concat (map (syms_of ws) vs) @ rest) pos table
    = Some (Inr (pos + length (concat (map (weight_cells ws log) vs)), overwrite table pos (concat (map (weight_cells ws log) vs))))"
  using assms(2,3)
proof (induction vs arbitrary: pos table)
  case (Cons v vs)
  let ?rest = "concat (map (syms_of ws) vs) @ rest"
  let ?t = "overwrite table pos (weight_cells ws log v)"
  have l: "2 ^ (v - 1) * length (syms_of ws v) = length (weight_cells ws log v)"
    by (simp add: length_weight_cells length_syms_of)
  have f: "fill_runs (cnt ws v) (2 ^ (v - 1)) (log + 1 - v) (syms_of ws v @ ?rest) pos table
      = Inr (?rest, pos + length (weight_cells ws log v), ?t)"
    using fill_runs_ok [of pos "2 ^ (v - 1)" "syms_of ws v" table "log + 1 - v" ?rest] Cons.prems(2) l
    by (simp add: length_syms_of weight_cells_def)
  have "length ?t = length table" using Cons.prems(2) by simp
  then show ?case
    using Cons.IH [of "pos + length (weight_cells ws log v)" ?t] Cons.prems f assms(1)
      overwrite_overwrite [of pos "weight_cells ws log v" "concat (map (weight_cells ws log) vs)" table]
    by (simp add: add.assoc)
qed (use assms(1) in simp)

lemma length_huff_cells: "weights_ok ws log \<Longrightarrow> length (huff_cells ws log) = 2 ^ log"
  using weighted_total [of ws log] by (simp add: weights_ok_def huff_cells_def length_concat length_weight_cells comp_def list_all_iff)

text \<open>The build gives the cells of the completed weights, and its later tests never fail.\<close>

lemma build_x1_ok:
  assumes "n < length wbuf"
  shows "safe_res (\<lambda>(rank, log, ws). weights_ok ws log) (complete_weights wbuf n)"
    "build_x1 wbuf n = then_do (complete_weights wbuf n) (\<lambda>(rank, log, ws). Some (Inr (huff_cells ws log, log)))"
proof -
  have "safe_res (\<lambda>(rank, log, ws). weights_ok ws log) (complete_weights wbuf n)
    \<and> build_x1 wbuf n = then_do (complete_weights wbuf n) (\<lambda>(rank, log, ws). Some (Inr (huff_cells ws log, log)))"
    using complete_weights_ok [OF assms]
  proof (cases rule: safe_res_cases)
    case (2 x)
    obtain rank log ws where x: "x = (rank, log, ws)" by (metis prod.exhaust)
    have ok: "weights_ok ws log" and rank: "rank = map (cnt ws) [0..<13]" using 2(2) by (auto simp: x)
    have ok': "1 \<le> log" "log \<le> 11" "length ws \<le> 256" "list_all (\<lambda>w. unat w \<le> log) ws"
      using ok by (simp_all add: weights_ok_def MAX_BITS_def)
    obtain st where st: "rank_starts rank 0 (log + 1) 0 (replicate 13 0) = Some st" "length st = 13"
      "\<And>v. v < log + 1 \<Longrightarrow> st ! v = sum_list (map ((!) rank) [0..<v])"
      using rank_starts_ok [of "replicate 13 0" rank 0 "log + 1" 0] ok' rank by auto
    have "sum_list (map ((!) rank) [0..<v]) = start_of ws v" if "v < log + 1" for v
      using that ok'(2) unfolding start_of_def rank by (intro arg_cong [of _ _ sum_list] map_cong) auto
    then have st': "st ! v = start_of ws v" if "v < log + 1" for v using st(3) that by simp
    obtain sy where sy: "place_symbols 0 ws st (replicate (length ws) 0) = Some (Inr sy)" "length sy = length ws"
      "\<forall>w. w \<le> log \<and> 0 < w \<longrightarrow> take (cnt ws w) (drop (start_of ws w) sy) = syms_of ws w"
      using place_symbols_ok [of ws "[]" ws log st "replicate (length ws) 0"] ok' st(2) st'
      by (auto simp: syms_of_def)
    have r0: "rank ! 0 = start_of ws 1" by (simp add: rank)
    have "start_of ws 1 \<le> length ws" by (simp add: cnt_def)
    then have rest: "slice_from sy (rank ! 0) = Some (concat (map (syms_of ws) [1..<log + 1]))"
      using sorted_symbols [OF ok'(4) sy(2) _ _ sy(3), of 1] by (simp add: slice_from_def r0 sy(2))
    have "fill_weights rank log [1..<log + 1] (concat (map (syms_of ws) [1..<log + 1])) 0 (replicate (2 ^ log) 0)
        = Some (Inr (2 ^ log, huff_cells ws log))"
    proof -
      have l: "length (concat (map (weight_cells ws log) [1..<log + 1])) = 2 ^ log"
        using length_huff_cells [OF ok] by (simp add: huff_cells_def del: upt_Suc)
      have "\<forall>v \<in> set [1..<log + 1]. v < 13" using ok'(2) by auto
      from fill_weights_ok [OF rank this, where pos = 0 and log = log and table = "replicate (2 ^ log) 0" and rest = "[]"] l show ?thesis
        by (simp add: huff_cells_def overwrite_all del: upt_Suc)
    qed
    then have "build_x1 wbuf n = Some (Inr (huff_cells ws log, log))"
      using 2(1) ok' st(1) sy(1) rest length_huff_cells [OF ok] by (simp add: build_x1_def x)
    then show ?thesis using 2(1) ok by (simp add: x)
  qed (simp add: build_x1_def)
  then show "safe_res (\<lambda>(rank, log, ws). weights_ok ws log) (complete_weights wbuf n)"
    "build_x1 wbuf n = then_do (complete_weights wbuf n) (\<lambda>(rank, log, ws). Some (Inr (huff_cells ws log, log)))" by auto
qed

section \<open>A complete prefix code\<close>

definition code_block :: "nat list \<Rightarrow> nat \<Rightarrow> nat \<Rightarrow> bool" where
  "code_block table k i \<longleftrightarrow> (\<forall>j. j div 2 ^ k = i div 2 ^ k \<longrightarrow> table ! j = table ! i)"

text \<open>Every cell has a width between 1 and \<open>log\<close> and is shared by all cells with the same leading code bits.\<close>

definition x1_wf :: "nat list \<Rightarrow> nat \<Rightarrow> bool" where
  "x1_wf table log \<longleftrightarrow> 1 \<le> log \<and> log \<le> FAST_TABLELOG \<and> length table = 2 ^ log
     \<and> (\<forall>i < 2 ^ log. 1 \<le> cell_nb (table ! i) \<and> cell_nb (table ! i) \<le> log \<and> code_block table (log - cell_nb (table ! i)) i)"

definition run_cells :: "(nat \<times> nat) list \<Rightarrow> nat list" where
  "run_cells R = concat (map (\<lambda>(k, e). replicate (2 ^ k) e) R)"

lemma run_cells_simps [simp]: "run_cells [] = []" "run_cells ((k, e) # R) = replicate (2 ^ k) e @ run_cells R"
  "run_cells (R @ S) = run_cells R @ run_cells S"
  by (simp_all add: run_cells_def)

lemma run_cells_dvd: "\<forall>(j, e) \<in> set R. k \<le> j \<Longrightarrow> 2 ^ k dvd length (run_cells R)"
  by (induction R) (auto simp: le_imp_power_dvd)

lemma block_unique: "i div 2 ^ k = j div (2 ^ k :: nat) \<Longrightarrow> 2 ^ k dvd p \<Longrightarrow> p \<le> i \<Longrightarrow> i < p + 2 ^ k \<Longrightarrow> p \<le> j \<and> j < p + 2 ^ k"
proof -
  assume a: "i div 2 ^ k = j div (2 ^ k :: nat)" "2 ^ k dvd p" "p \<le> i" "i < p + 2 ^ k"
  obtain q where p: "p = 2 ^ k * q" using a(2) by blast
  have "i div 2 ^ k = q" using a(3,4) by (intro div_nat_eqI) (auto simp: p)
  then have "j div 2 ^ k = q" using a(1) by simp
  then have "2 ^ k * q \<le> j" "j < 2 ^ k * Suc q"
    using times_div_less_eq_dividend [of "2 ^ k" j] dividend_less_times_div [of "2 ^ k" j] by auto
  then show ?thesis by (simp add: p)
qed

lemma run_cells_blocks:
  assumes "sorted (map fst R)" "\<forall>(k, e) \<in> set R. 2 ^ k dvd L" "p + length (run_cells R) = L" "p \<le> i" "i < L"
  shows "\<exists>(k, e) \<in> set R. run_cells R ! (i - p) = e \<and> (\<forall>j. j div 2 ^ k = i div 2 ^ k \<longrightarrow> p \<le> j \<and> run_cells R ! (j - p) = e)"
  using assms
proof (induction R arbitrary: p)
  case (Cons x R)
  obtain k e where x: "x = (k, e)" by (rule prod.exhaust)
  have "\<forall>(j, e) \<in> set (x # R). k \<le> j" using Cons.prems(1) by (auto simp: x)
  then have "2 ^ k dvd length (run_cells (x # R))" by (rule run_cells_dvd)
  moreover have "2 ^ k dvd L" using Cons.prems(2) by (simp add: x)
  ultimately have p: "2 ^ k dvd p" using Cons.prems(3) dvd_add_left_iff [of "2 ^ k" "length (run_cells (x # R))" p] by simp
  show ?case
  proof (cases "i < p + 2 ^ k")
    case True
    have "p \<le> j \<and> run_cells (x # R) ! (j - p) = e" if "j div 2 ^ k = i div 2 ^ k" for j
      using block_unique [OF that [symmetric] p Cons.prems(4) True] by (auto simp: x nth_append)
    then show ?thesis using Cons.prems(4) True by (auto simp: x nth_append)
  next
    case False
    then have "\<exists>(k', e') \<in> set R. run_cells R ! (i - (p + 2 ^ k)) = e'
        \<and> (\<forall>j. j div 2 ^ k' = i div 2 ^ k' \<longrightarrow> p + 2 ^ k \<le> j \<and> run_cells R ! (j - (p + 2 ^ k)) = e')"
      using Cons.prems by (intro Cons.IH) (auto simp: x)
    then obtain k' e' where r: "(k', e') \<in> set R" "run_cells R ! (i - (p + 2 ^ k)) = e'"
      "\<And>j. j div 2 ^ k' = i div 2 ^ k' \<Longrightarrow> p + 2 ^ k \<le> j \<and> run_cells R ! (j - (p + 2 ^ k)) = e'" by blast
    have "run_cells (x # R) ! (j - p) = run_cells R ! (j - (p + 2 ^ k))" if "p + 2 ^ k \<le> j" for j
      using that by (auto simp: x nth_append)
    moreover have "p \<le> j" if "j div 2 ^ k' = i div 2 ^ k'" for j using r(3) [OF that] by simp
    ultimately show ?thesis using r False by (intro bexI [of _ "(k', e')"]) (auto simp: x)
  qed
qed simp

lemma cell_fields: "s < 256 \<Longrightarrow> nb < 256 \<Longrightarrow> cell_sym (huff_cell s nb) = s \<and> cell_nb (huff_cell s nb) = nb"
  using or_push_bit_add [of s 8 nb] by (simp add: huff_cell_def cell_sym_def cell_nb_def drop_bit_eq_div)

definition code_runs :: "bytes \<Rightarrow> nat \<Rightarrow> (nat \<times> nat) list" where
  "code_runs ws log = concat (map (\<lambda>w. map (\<lambda>s. (w - 1, huff_cell s (log + 1 - w))) (syms_of ws w)) [1..<Suc log])"

lemma huff_cells_expand: "huff_cells ws log = run_cells (code_runs ws log)"
proof -
  have "run_cells (concat (map f vs)) = concat (map (run_cells \<circ> f) vs)" for f :: "nat \<Rightarrow> (nat \<times> nat) list" and vs
    by (induction vs) simp_all
  moreover have "run_cells (map (\<lambda>s. (k, g s)) ss) = concat (map (\<lambda>s. replicate (2 ^ k) (g s)) ss)" for k g and ss :: "nat list"
    by (induction ss) simp_all
  ultimately show ?thesis
    by (simp add: huff_cells_def code_runs_def comp_def weight_cells_def [abs_def] del: upt_Suc)
qed

lemma code_runs_sorted: "sorted (map fst (code_runs ws log))"
proof -
  have "sorted vs \<Longrightarrow> sorted (map fst (concat (map (\<lambda>w. map (\<lambda>s. (w - 1, f s w)) (g w)) vs)))"
    for vs :: "nat list" and f :: "nat \<Rightarrow> nat \<Rightarrow> nat" and g
  proof (induction vs)
    case (Cons a vs)
    have "a - 1 \<le> w - 1" if "w \<in> set vs" for w using Cons.prems that by (simp add: diff_le_mono)
    then show ?case using Cons by (auto simp: sorted_append comp_def map_replicate_const)
  qed simp
  then show ?thesis by (simp only: code_runs_def sorted_upt)
qed

lemma huff_cells_wf:
  assumes "weights_ok ws log"
  shows "x1_wf (huff_cells ws log) log"
proof -
  let ?T = "huff_cells ws log" and ?R = "code_runs ws log"
  have l: "1 \<le> log" "log \<le> 11" "length ws \<le> 256" using assms by (simp_all add: weights_ok_def MAX_BITS_def)
  have len: "length ?T = 2 ^ log" by (rule length_huff_cells [OF assms])
  have mem: "\<exists>s w. k = w - 1 \<and> e = huff_cell s (log + 1 - w) \<and> 1 \<le> w \<and> w \<le> log \<and> s < 256" if "(k, e) \<in> set ?R" for k e
    using that syms_of_less l(3) by (fastforce simp: code_runs_def)
  have dvd: "\<forall>(k, e) \<in> set ?R. 2 ^ k dvd (2 :: nat) ^ log"
    using mem by (force intro!: le_imp_power_dvd)
  have "1 \<le> cell_nb (?T ! i) \<and> cell_nb (?T ! i) \<le> log \<and> code_block ?T (log - cell_nb (?T ! i)) i" if i: "i < 2 ^ log" for i
  proof -
    obtain k e where r: "(k, e) \<in> set ?R" "?T ! i = e" "\<And>j. j div 2 ^ k = i div 2 ^ k \<Longrightarrow> ?T ! j = e"
      using run_cells_blocks [OF code_runs_sorted dvd, of 0 i] i len by (auto simp: huff_cells_expand)
    obtain s w where w: "k = w - 1" "e = huff_cell s (log + 1 - w)" "1 \<le> w" "w \<le> log" "s < 256" using mem [OF r(1)] by blast
    have "cell_nb e = log + 1 - w" using cell_fields [of s "log + 1 - w"] w l(2) by simp
    then show ?thesis using r w by (auto simp: code_block_def)
  qed
  then show ?thesis using l len by (simp add: x1_wf_def FAST_TABLELOG_def)
qed

section \<open>Widening\<close>

definition widened :: "nat list \<Rightarrow> nat \<Rightarrow> nat list" where
  "widened table scale = concat (map (replicate (2 ^ scale)) table)"

lemma length_widened: "length (widened table scale) = length table * 2 ^ scale"
  by (induction table) (simp_all add: widened_def)

lemma widened_nth: "i < length table * 2 ^ scale \<Longrightarrow> widened table scale ! i = table ! (i div 2 ^ scale)"
proof (induction table arbitrary: i)
  case (Cons x table)
  show ?case
  proof (cases "i < 2 ^ scale")
    case False
    then have "i div 2 ^ scale = Suc ((i - 2 ^ scale) div 2 ^ scale)" by (simp add: le_div_geq)
    then show ?thesis using Cons False by (auto simp: widened_def nth_append)
  qed (simp add: widened_def nth_append)
qed simp

lemma widen_loop_ok:
  assumes "take i wide = map Some (take i table)" "i \<le> length table" "length wide = length table * 2 ^ scale"
  shows "widen_loop scale i wide = Some (overwrite wide 0 (map Some (widened (take i table) scale)))"
  using assms
proof (induction i arbitrary: wide)
  case (Suc i)
  have i: "i < length table" "i < length wide" using Suc.prems(2,3)
    by (auto intro: less_le_trans [OF _ le_trans [OF _ mult_le_mono2 [of 1]]])
  have e: "wide ! i = Some (table ! i)"
    using arg_cong [OF Suc.prems(1), of "\<lambda>xs. xs ! i"] i by simp
  let ?run = "replicate (2 ^ scale) (Some (table ! i))"
  define w where "w = overwrite wide (i * 2 ^ scale) ?run"
  have room: "i * 2 ^ scale + 2 ^ scale \<le> length wide"
    using mult_le_mono1 [OF Suc.prems(2), of "2 ^ scale"] Suc.prems(3) by (simp add: add.commute)
  have lw: "length w = length wide" using room by (simp add: w_def)
  have ii: "i \<le> i * 2 ^ scale" by simp
  have "take i wide = map Some (take i table)"
    using arg_cong [OF Suc.prems(1), of "take i"] i by (simp add: take_map min_def)
  then have "take i w = map Some (take i table)"
    using ii room take_overwrite [of i "i * 2 ^ scale" wide] by (simp add: w_def del: mult_le_cancel1)
  then have IH: "widen_loop scale i w = Some (overwrite w 0 (map Some (widened (take i table) scale)))"
    using Suc.IH i lw Suc.prems(3) by simp
  have "length (widened (take i table) scale) = i * 2 ^ scale" using i by (simp add: length_widened)
  moreover have "widened (take (Suc i) table) scale = widened (take i table) scale @ replicate (2 ^ scale) (table ! i)"
    using i by (simp add: widened_def take_Suc_conv_app_nth)
  ultimately have "overwrite w 0 (map Some (widened (take i table) scale)) = overwrite wide 0 (map Some (widened (take (Suc i) table) scale))"
    using room by (simp add: w_def overwrite_def)
  then show ?case
    using IH e i room by (simp add: w_def push_bit_eq_mult Let_def)
qed (simp add: widened_def)

lemma those_map_Some [simp]: "those (map Some xs) = Some xs"
  by (induction xs) simp_all

lemma upsample_ok:
  assumes "length table = 2 ^ log" "log \<le> FAST_TABLELOG"
  shows "upsample_dtable table log = Some (widened table (FAST_TABLELOG - log), FAST_TABLELOG)"
proof (cases "log = FAST_TABLELOG")
  case True
  have "widened table 0 = table" by (induction table) (simp_all add: widened_def)
  then show ?thesis by (simp add: upsample_dtable_def True)
next
  case False
  let ?s = "FAST_TABLELOG - log"
  define wide where "wide = map Some table @ replicate (2 ^ FAST_TABLELOG - length table) None"
  have "(2 :: nat) ^ log \<le> 2 ^ FAST_TABLELOG" using assms(2) by (rule power_increasing) simp
  then have "length wide = 2 ^ FAST_TABLELOG" by (simp add: wide_def assms(1))
  moreover have "(2 :: nat) ^ FAST_TABLELOG = 2 ^ log * 2 ^ ?s" using assms(2) by (simp flip: power_add)
  ultimately have lw: "length wide = length table * 2 ^ ?s" by (simp add: assms(1))
  have "widen_loop ?s (length table) wide = Some (overwrite wide 0 (map Some (widened table ?s)))"
    using widen_loop_ok [OF _ _ lw, of "length table"] by (simp add: wide_def)
  moreover have "overwrite wide 0 (map Some (widened table ?s)) = map Some (widened table ?s)"
    by (rule overwrite_all) (simp add: length_widened lw)
  ultimately show ?thesis using False assms(2) by (simp add: upsample_dtable_def Let_def flip: wide_def)
qed

lemma div_pow2_div_pow2: "k \<le> n \<Longrightarrow> j div 2 ^ (n - k) div 2 ^ k = (j :: nat) div 2 ^ n"
  by (simp only: div_mult2_eq [symmetric] power_add [symmetric] le_add_diff_inverse2)

lemma widened_wf:
  assumes "x1_wf table log"
  shows "x1_wf (widened table (FAST_TABLELOG - log)) FAST_TABLELOG"
proof -
  let ?s = "FAST_TABLELOG - log" and ?T = "widened table (FAST_TABLELOG - log)"
  have a: "1 \<le> log" "log \<le> FAST_TABLELOG" "length table = 2 ^ log" using assms by (simp_all add: x1_wf_def)
  have len: "length table * 2 ^ ?s = 2 ^ FAST_TABLELOG" using a by (simp flip: power_add)
  have "1 \<le> cell_nb (?T ! i) \<and> cell_nb (?T ! i) \<le> FAST_TABLELOG \<and> code_block ?T (FAST_TABLELOG - cell_nb (?T ! i)) i"
    if i: "i < 2 ^ FAST_TABLELOG" for i
  proof -
    have t: "?T ! i = table ! (i div 2 ^ ?s)" using i len by (simp add: widened_nth)
    have "i < 2 ^ log * 2 ^ ?s" using i unfolding len [symmetric] a(3) .
    then have small: "i div 2 ^ ?s < 2 ^ log" by (rule less_mult_imp_div_less)
    let ?nb = "cell_nb (table ! (i div 2 ^ ?s))"
    have c: "1 \<le> ?nb" "?nb \<le> log" "code_block table (log - ?nb) (i div 2 ^ ?s)"
      using assms small by (auto simp: x1_wf_def)
    have e: "FAST_TABLELOG - ?nb = ?s + (log - ?nb)" using c(2) a(2) by simp
    have "?T ! j = ?T ! i" if j: "j div 2 ^ (FAST_TABLELOG - ?nb) = i div 2 ^ (FAST_TABLELOG - ?nb)" for j
    proof -
      have blk: "j div 2 ^ ?s div 2 ^ (log - ?nb) = i div 2 ^ ?s div 2 ^ (log - ?nb)"
        using j unfolding e power_add by (simp add: div_mult2_eq)
      have nb: "?nb \<le> FAST_TABLELOG" using c(2) a(2) by simp
      have "j div 2 ^ FAST_TABLELOG = i div 2 ^ FAST_TABLELOG"
        using arg_cong [OF j, of "\<lambda>x. x div 2 ^ ?nb"] unfolding div_pow2_div_pow2 [OF nb] .
      also have "\<dots> = 0" using i by (rule div_less)
      finally have "j < 2 ^ FAST_TABLELOG" by (simp add: div_eq_0_iff)
      then have "?T ! j = table ! (j div 2 ^ ?s)" by (intro widened_nth) (simp only: len)
      also have "\<dots> = table ! (i div 2 ^ ?s)" using c(3) blk unfolding code_block_def by blast
      finally show ?thesis by (simp only: t)
    qed
    moreover have "?nb \<le> FAST_TABLELOG" using c(2) a(2) by simp
    ultimately show ?thesis unfolding code_block_def t using c(1) by blast
  qed
  then show ?thesis using len by (simp add: x1_wf_def length_widened) (simp add: FAST_TABLELOG_def)
qed

section \<open>One step and two steps\<close>

definition cell_at :: "nat list \<Rightarrow> nat \<Rightarrow> cursor \<Rightarrow> nat" where
  "cell_at table log c = table ! peek log c"

definition huff_next :: "nat list \<Rightarrow> nat \<Rightarrow> cursor \<Rightarrow> cursor" where
  "huff_next table log c = skip (cell_nb (cell_at table log c)) c"

lemma x1_wf_cell:
  assumes "x1_wf table log" "cursor_ok c"
  shows "1 \<le> cell_nb (cell_at table log c)" "cell_nb (cell_at table log c) \<le> log"
    "code_block table (log - cell_nb (cell_at table log c)) (peek log c)" "peek log c < length table"
  using assms peek_less [OF assms(2), of log] by (auto simp: x1_wf_def cell_at_def)

lemma huff_next_ok [simp]: "cursor_ok c \<Longrightarrow> cursor_ok (huff_next table log c)"
  by (simp add: huff_next_def)

text \<open>The fields of a two-symbol cell.\<close>

definition x2_nb :: "nat \<Rightarrow> nat" where "x2_nb e = drop_bit 16 e AND 0xFF"
definition x2_len :: "nat \<Rightarrow> nat" where "x2_len e = drop_bit 24 e"

lemma x2_fields:
  fixes s1 s2 n l :: nat
  assumes "s1 < 256" "s2 < 256" "n < 256"
  shows "s1 OR push_bit 8 s2 OR push_bit 16 n OR push_bit 24 l = s1 + 256 * (s2 + 256 * (n + 256 * l))"
proof -
  have a: "s1 OR push_bit 8 s2 = s1 + 256 * s2" using or_push_bit_add [of s1 8 s2] assms by simp
  have b: "s1 + 256 * s2 < 2 ^ 16" using assms by simp
  have c: "s1 + 256 * s2 + 65536 * n < 2 ^ 24" using assms by simp
  show ?thesis unfolding or.assoc [symmetric] a using or_push_bit_add [OF b, of n] or_push_bit_add [OF c, of l] by simp
qed

lemma low_byte: "s < 256 \<Longrightarrow> (s + 256 * x) mod 256 = s \<and> (s + 256 * x) div 256 = (x :: nat)"
  by simp

lemma x2_unpack:
  assumes "s1 < 256" "s2 < 256" "n < 256" "e = s1 + 256 * (s2 + 256 * (n + 256 * l))"
  shows "e mod 256 = s1" "drop_bit 8 e mod 256 = s2" "x2_nb e = n" "x2_len e = l"
proof -
  have d1: "e mod 256 = s1" "e div 256 = s2 + 256 * (n + 256 * l)" unfolding assms(4) using low_byte [OF assms(1)] by blast+
  have d2: "e div 256 mod 256 = s2" "e div 256 div 256 = n + 256 * l" unfolding d1(2) using low_byte [OF assms(2)] by blast+
  have d3: "e div 256 div 256 mod 256 = n" "e div 256 div 256 div 256 = l" unfolding d2(2) using low_byte [OF assms(3)] by blast+
  have p: "drop_bit 8 e = e div 256" "drop_bit 16 e = e div 256 div 256" "drop_bit 24 e = e div 256 div 256 div 256"
    by (simp_all add: drop_bit_eq_div flip: div_mult2_eq)
  show "e mod 256 = s1" "drop_bit 8 e mod 256 = s2" "x2_nb e = n" "x2_len e = l"
    unfolding x2_nb_def x2_len_def p using d1(1) d2(1) d3 by simp_all
qed

lemma x2_cell_steps:
  assumes "x1_wf table log" "cursor_ok c" "e = x2_cell table log mn (peek log c)"
  defines "e1 \<equiv> cell_at table log c" and "e2 \<equiv> cell_at table log (huff_next table log c)"
  shows "e mod 256 = cell_sym e1 \<and> x2_nb e \<le> log
    \<and> (x2_len e = 1 \<and> x2_nb e = cell_nb e1
      \<or> x2_len e = 2 \<and> drop_bit 8 e mod 256 = cell_sym e2 \<and> x2_nb e = cell_nb e1 + cell_nb e2)"
proof -
  note w = x1_wf_cell [OF assms(1,2), folded e1_def]
  have log: "log \<le> 11" "length table = 2 ^ log" using assms(1) by (auto simp: x1_wf_def FAST_TABLELOG_def)
  define n1 where "n1 = cell_nb e1"
  define lo where "lo = log - n1"
  define v where "v = peek log c"
  have n1: "1 \<le> n1" "n1 \<le> log" using w by (simp_all add: n1_def)
  have e1: "table ! v = e1" by (simp add: v_def e1_def cell_at_def)
  have s: "cell_sym x < 256" for x by (simp add: cell_sym_def)
  define second where "second = push_bit n1 (v AND (push_bit lo 1 - 1))"
  have sec: "second = v mod 2 ^ lo * 2 ^ n1" by (simp add: second_def push_bit_eq_mult)
  have "(v mod 2 ^ lo + 1) * 2 ^ n1 \<le> 2 ^ lo * 2 ^ n1" by (intro mult_le_mono1) (simp add: Suc_le_eq)
  moreover have "(2 :: nat) ^ lo * 2 ^ n1 = 2 ^ log" using n1 by (simp add: lo_def flip: power_add)
  moreover have "v mod 2 ^ lo * 2 ^ n1 < (v mod 2 ^ lo + 1) * 2 ^ n1" by simp
  ultimately have sec_less: "second < 2 ^ log" unfolding sec by linarith
  then have sec_mask: "second AND (length table - 1) = second" by (simp add: log(2))
  define f where "f = table ! second"
  define single where "single = cell_sym e1 OR push_bit 16 n1 OR push_bit 24 1"
  have single: "single = cell_sym e1 + 256 * (0 + 256 * (n1 + 256 * 1))"
    using x2_fields [of "cell_sym e1" 0 n1 1] n1 log s by (simp add: single_def)
  note us = x2_unpack [OF s _ _ single]
  have e: "e = (if n1 = 0 \<or> lo < mn then single
      else if cell_nb f = 0 \<or> lo < cell_nb f then single
      else cell_sym e1 OR push_bit 8 (cell_sym f) OR push_bit 16 (n1 + cell_nb f) OR push_bit 24 2)"
    unfolding assms(3) x2_cell_def Let_def v_def [symmetric] e1 n1_def [symmetric] lo_def [symmetric] second_def [symmetric]
      sec_mask f_def [symmetric] single_def ..
  show ?thesis
  proof (cases "n1 = 0 \<or> lo < mn \<or> cell_nb f = 0 \<or> lo < cell_nb f")
    case True
    then have "e = single" by (auto simp: e)
    then show ?thesis using us n1 log by (simp add: n1_def)
  next
    case False
    define n2 where "n2 = cell_nb f"
    have n2: "1 \<le> n2" "n2 \<le> lo" "n1 + n2 \<le> log" using False n1 by (auto simp: n2_def lo_def)
    have nx: "huff_next table log c = skip n1 c" by (simp add: huff_next_def n1_def e1_def)
    have "peek log (skip n1 c) div 2 ^ n1 = v mod 2 ^ lo"
      using peek_skip [OF assms(2) n1(2)] by (simp add: v_def lo_def)
    also have "\<dots> = second div 2 ^ n1" by (simp add: sec)
    finally have "peek log (skip n1 c) div 2 ^ n1 div 2 ^ (log - n2 - n1) = second div 2 ^ n1 div 2 ^ (log - n2 - n1)" by simp
    moreover have "2 ^ (log - n2) = (2 :: nat) ^ n1 * 2 ^ (log - n2 - n1)" using n2(3) by (simp flip: power_add)
    ultimately have "peek log (skip n1 c) div 2 ^ (log - n2) = second div 2 ^ (log - n2)" by (simp only: div_mult2_eq)
    moreover have "code_block table (log - n2) second" using assms(1) sec_less by (simp add: x1_wf_def n2_def f_def)
    ultimately have "table ! peek log (skip n1 c) = table ! second" unfolding code_block_def by blast
    then have fe: "e2 = f" unfolding f_def e2_def cell_at_def nx .
    have "e = cell_sym e1 OR push_bit 8 (cell_sym f) OR push_bit 16 (n1 + n2) OR push_bit 24 2"
      unfolding e n2_def using False by simp
    also have "\<dots> = cell_sym e1 + 256 * (cell_sym f + 256 * ((n1 + n2) + 256 * 2))"
      using n2(3) log(1) by (intro x2_fields s) simp
    finally have "e = \<dots>" .
    note ud = x2_unpack [OF s s _ this]
    show ?thesis using ud n2(3) log(1) unfolding fe by (simp add: n1_def n2_def)
  qed
qed

section \<open>The table of a description\<close>

definition huff_wf :: "huff_table \<Rightarrow> bool" where
  "huff_wf t \<longleftrightarrow> x1_wf (ht_table t) (ht_max_bits t)
     \<and> (ht_x2 t = [] \<or> ht_x2 t = x2_from_x1_into (ht_table t) (ht_max_bits t))"

lemma with_x2_ok:
  assumes "x1_wf table log"
  shows "with_x2 table log = Some \<lparr> ht_table = widened table (FAST_TABLELOG - log),
      ht_x2 = x2_from_x1_into (widened table (FAST_TABLELOG - log)) FAST_TABLELOG, ht_max_bits = FAST_TABLELOG \<rparr>"
  using upsample_ok [of table log] assms by (simp add: with_x2_def x1_wf_def)

lemma table_from_weights_eq:
  assumes "n < length wbuf"
  shows "table_from_weights wbuf n want = then_do (complete_weights wbuf n) (\<lambda>(rank, log, ws).
      Some (Inr (if want
        then \<lparr> ht_table = widened (huff_cells ws log) (FAST_TABLELOG - log),
          ht_x2 = x2_from_x1_into (widened (huff_cells ws log) (FAST_TABLELOG - log)) FAST_TABLELOG, ht_max_bits = FAST_TABLELOG \<rparr>
        else \<lparr> ht_table = huff_cells ws log, ht_x2 = [], ht_max_bits = log \<rparr>)))"
  using build_x1_ok(1) [OF assms]
  by (cases rule: safe_res_cases)
    (auto simp: table_from_weights_def build_x1_ok(2) [OF assms] with_x2_ok [OF huff_cells_wf] split: prod.splits)

lemma table_from_weights_wf:
  assumes "n < length wbuf"
  shows "safe_res huff_wf (table_from_weights wbuf n want)"
  unfolding table_from_weights_eq [OF assms]
  by (rule safe_res_then [OF build_x1_ok(1) [OF assms]])
    (auto simp: huff_wf_def widened_wf huff_cells_wf split: prod.splits)

text \<open>C21: a table is built exactly when the weights, completed by the implied last one, add up to a
  power of two of at most 11 bits (with at least two symbols of weight 1), and it is then the canonical
  one: for each weight a run of cells per symbol. The later tests of the build never fail.\<close>

theorem huffman_table_exact:
  assumes "n < length wbuf"
  shows "table_from_weights wbuf n want = then_do (complete_weights wbuf n) (\<lambda>(rank, log, ws).
      Some (Inr (if want
        then \<lparr> ht_table = widened (huff_cells ws log) (FAST_TABLELOG - log),
          ht_x2 = x2_from_x1_into (widened (huff_cells ws log) (FAST_TABLELOG - log)) FAST_TABLELOG, ht_max_bits = FAST_TABLELOG \<rparr>
        else \<lparr> ht_table = huff_cells ws log, ht_x2 = [], ht_max_bits = log \<rparr>)))
    \<and> safe_res (\<lambda>(rank, log, ws). weights_ok ws log) (complete_weights wbuf n)"
  using table_from_weights_eq [OF assms] build_x1_ok(1) [OF assms] by blast

theorem huffman_table_exact_witness:
  "table_from_weights ([1, 1] @ replicate 254 0) 2 False = Some (Inr \<lparr> ht_table = [0x200, 0x201, 0x102, 0x102], ht_x2 = [], ht_max_bits = 2 \<rparr>)"
proof -
  have c: "complete_weights ([1, 1] @ replicate 254 0) 2 = Some (Inr ([0, 2, 1] @ replicate 10 0, 2, [1, 1, 2]))"
    by code_simp
  have h: "huff_cells [1, 1, 2] 2 = [0x200, 0x201, 0x102, 0x102]" by code_simp
  from huffman_table_exact [of 2 "[1, 1] @ replicate 254 0" False] show ?thesis by (simp add: c [simplified] h)
qed

lemma read_table_ok:
  "safe_res (\<lambda>(t, used). huff_wf t \<and> 1 \<le> used \<and> used \<le> length src) (read_table src want)"
  unfolding read_table_def
proof (rule safe_res_then [OF read_weights_ok])
  fix x :: "bytes \<times> nat \<times> nat"
  obtain w n used where x: "x = (w, n, used)" by (metis prod.exhaust)
  assume "case x of (w', n, used) \<Rightarrow> \<exists>ws. w' = overwrite (replicate 256 0) 0 ws \<and> length ws = n \<and> 1 \<le> n \<and> n \<le> 255
    \<and> 1 \<le> used \<and> used \<le> length src"
  then have "n < length w" "1 \<le> used" "used \<le> length src" by (auto simp: x)
  then show "safe_res (\<lambda>(t, used). huff_wf t \<and> 1 \<le> used \<and> used \<le> length src)
      (case x of (wbuf, wlen, used) \<Rightarrow> then_do (table_from_weights wbuf wlen want) (\<lambda>table. Some (Inr (table, used))))"
    unfolding x prod.case by (intro safe_res_then [OF table_from_weights_wf]) simp_all
qed simp

text \<open>What a two-symbol cell must say, in terms of the one-symbol cells alone: it starts with the symbol of the cell with the
  same index, and either stops there, or goes on with the symbol of the cell that the bits left over index; its width is what
  these cells take.\<close>

definition pairs_agree :: "huff_table \<Rightarrow> bool" where
  "pairs_agree t \<longleftrightarrow> length (ht_x2 t) = 2 ^ ht_max_bits t \<and> length (ht_table t) = 2 ^ ht_max_bits t
     \<and> (\<forall>i < 2 ^ ht_max_bits t.
       let e = ht_x2 t ! i; e1 = ht_table t ! i; n1 = e1 div 256 mod 256; e2 = ht_table t ! (i * 2 ^ n1 mod 2 ^ ht_max_bits t); n2 = e2 div 256 mod 256
       in e mod 256 = e1 mod 256
          \<and> (e div 2 ^ 24 = 1 \<and> e div 2 ^ 16 mod 256 = n1
            \<or> e div 2 ^ 24 = 2 \<and> e div 2 ^ 8 mod 256 = e2 mod 256 \<and> e div 2 ^ 16 mod 256 = n1 + n2 \<and> n1 + n2 \<le> ht_max_bits t))"

lemma x2_cells_agree:
  fixes mn :: nat
  assumes "x1_wf table log" "i < 2 ^ log"
  defines "e \<equiv> x2_cell table log mn i" and "e1 \<equiv> table ! i"
  defines "e2 \<equiv> table ! (i * 2 ^ cell_nb e1 mod 2 ^ log)"
  shows "e mod 256 = cell_sym e1 \<and> x2_nb e \<le> log \<and> (x2_len e = 1 \<and> x2_nb e = cell_nb e1
      \<or> x2_len e = 2 \<and> drop_bit 8 e mod 256 = cell_sym e2 \<and> x2_nb e = cell_nb e1 + cell_nb e2)"
proof -
  define c where "c = \<lparr> cu_val = i, cu_rem = log, cu_over = False \<rparr>"
  have ok: "cursor_ok c" using assms(2) by (simp add: cursor_ok_def c_def)
  have pk: "peek log c = i" by (simp add: peek_def c_def)
  have c1: "cell_at table log c = e1" by (simp add: cell_at_def pk e1_def)
  have n1: "cell_nb e1 \<le> log" using assms(1,2) by (simp add: x1_wf_def e1_def)
  have "2 ^ log = (2 :: nat) ^ (log - cell_nb e1) * 2 ^ cell_nb e1" using n1 by (simp flip: power_add)
  then have "i mod 2 ^ (log - cell_nb e1) * 2 ^ log div 2 ^ (log - cell_nb e1) = i * 2 ^ cell_nb e1 mod 2 ^ log"
    by (simp add: mult.left_commute [of _ "2 ^ (log - cell_nb e1)"] mult_mod_left)
  then have "peek log (skip (cell_nb e1) c) = i * 2 ^ cell_nb e1 mod 2 ^ log"
    using n1 by (simp add: peek_def skip_def c_def)
  then have "cell_at table log (huff_next table log c) = e2"
    by (simp only: cell_at_def [of table log "skip (cell_nb e1) c"] huff_next_def c1 e2_def)
  then show ?thesis using x2_cell_steps [OF assms(1) ok, of e mn] by (simp add: pk c1 e_def)
qed

lemma huff_wf_pairs:
  assumes "huff_wf t" "ht_x2 t \<noteq> []"
  shows "pairs_agree t"
proof -
  have wf: "x1_wf (ht_table t) (ht_max_bits t)" and x2: "ht_x2 t = x2_from_x1_into (ht_table t) (ht_max_bits t)"
    using assms by (auto simp: huff_wf_def)
  have len: "length (ht_table t) = 2 ^ ht_max_bits t" "length (ht_x2 t) = 2 ^ ht_max_bits t" using wf x2 by (simp_all add: x1_wf_def x2_from_x1_into_def)
  have byte: "(e :: nat) AND 255 = e mod 256" for e using and_mask_mod [of e 8] by simp
  show ?thesis
    unfolding pairs_agree_def Let_def
  proof (intro conjI len allI impI)
    fix i :: nat assume i: "i < 2 ^ ht_max_bits t"
    have "ht_x2 t ! i = x2_cell (ht_table t) (ht_max_bits t) (min_nbits (ht_table t) (ht_max_bits t)) i"
      using i len(1) by (simp add: x2 x2_from_x1_into_def)
    with x2_cells_agree [OF wf i, of "min_nbits (ht_table t) (ht_max_bits t)"]
    have a: "ht_x2 t ! i mod 256 = cell_sym (ht_table t ! i) \<and> x2_nb (ht_x2 t ! i) \<le> ht_max_bits t
      \<and> (x2_len (ht_x2 t ! i) = 1 \<and> x2_nb (ht_x2 t ! i) = cell_nb (ht_table t ! i)
        \<or> x2_len (ht_x2 t ! i) = 2 \<and> drop_bit 8 (ht_x2 t ! i) mod 256 = cell_sym (ht_table t ! (i * 2 ^ cell_nb (ht_table t ! i) mod 2 ^ ht_max_bits t))
          \<and> x2_nb (ht_x2 t ! i) = cell_nb (ht_table t ! i) + cell_nb (ht_table t ! (i * 2 ^ cell_nb (ht_table t ! i) mod 2 ^ ht_max_bits t)))"
      by simp
    have nb: "cell_nb e = e div 256 mod 256" "cell_sym e = e mod 256" for e by (simp_all add: cell_nb_def cell_sym_def drop_bit_eq_div)
    have x2: "x2_nb e = e div 2 ^ 16 mod 256" "x2_len e = e div 2 ^ 24" "drop_bit 8 e = e div 2 ^ 8" for e :: nat
      by (simp_all add: x2_nb_def x2_len_def drop_bit_eq_div byte)
    show "ht_x2 t ! i mod 256 = ht_table t ! i mod 256" using a unfolding nb by blast
    show "ht_x2 t ! i div 2 ^ 24 = 1 \<and> ht_x2 t ! i div 2 ^ 16 mod 256 = ht_table t ! i div 256 mod 256
      \<or> ht_x2 t ! i div 2 ^ 24 = 2
        \<and> ht_x2 t ! i div 2 ^ 8 mod 256 = ht_table t ! (i * 2 ^ (ht_table t ! i div 256 mod 256) mod 2 ^ ht_max_bits t) mod 256
        \<and> ht_x2 t ! i div 2 ^ 16 mod 256
          = ht_table t ! i div 256 mod 256 + ht_table t ! (i * 2 ^ (ht_table t ! i div 256 mod 256) mod 2 ^ ht_max_bits t) div 256 mod 256
        \<and> ht_table t ! i div 256 mod 256 + ht_table t ! (i * 2 ^ (ht_table t ! i div 256 mod 256) mod 2 ^ ht_max_bits t) div 256 mod 256
          \<le> ht_max_bits t"
      using a unfolding nb x2 by metis
  qed
qed

lemma table_from_weights_want:
  assumes "n < length wbuf"
  shows "safe_res (\<lambda>t. ht_x2 t = [] \<longleftrightarrow> \<not> want) (table_from_weights wbuf n want)"
proof -
  have ne: "x2_from_x1_into (widened (huff_cells ws log) (FAST_TABLELOG - log)) FAST_TABLELOG \<noteq> []" if "weights_ok ws log" for ws log
    using widened_wf [OF huff_cells_wf [OF that]] by (auto simp: x1_wf_def x2_from_x1_into_def)
  show ?thesis
    unfolding table_from_weights_eq [OF assms]
    by (rule safe_res_then [OF build_x1_ok(1) [OF assms]]) (auto simp: ne split: prod.splits)
qed

lemma read_table_want: "safe_res (\<lambda>(t, used). ht_x2 t = [] \<longleftrightarrow> \<not> want) (read_table src want)"
  unfolding read_table_def
proof (rule safe_res_then [OF read_weights_ok])
  fix x :: "bytes \<times> nat \<times> nat"
  obtain w n used where x: "x = (w, n, used)" by (metis prod.exhaust)
  assume "case x of (w', n, used) \<Rightarrow> \<exists>ws. w' = overwrite (replicate 256 0) 0 ws \<and> length ws = n \<and> 1 \<le> n \<and> n \<le> 255
    \<and> 1 \<le> used \<and> used \<le> length src"
  then have "n < length w" by (auto simp: x)
  then show "safe_res (\<lambda>(t, used). ht_x2 t = [] \<longleftrightarrow> \<not> want)
      (case x of (wbuf, wlen, used) \<Rightarrow> then_do (table_from_weights wbuf wlen want) (\<lambda>table. Some (Inr (table, used))))"
    unfolding x prod.case by (intro safe_res_then [OF table_from_weights_want]) simp_all
qed simp

text \<open>C26: on any bytes the reader of a tree description ends in \<open>Corruption\<close> or in a table of complete
  prefix-code cells of at most 11 bits. It has a two-symbol table exactly when one was asked for, and then every cell
  of it says what its one-symbol cells say (\<open>pairs_agree\<close>). The reader uses between one byte and all of them, and no
  unchecked access of the parser or the build is out of range.\<close>

theorem read_table_wf:
  "case read_table src want of
     None \<Rightarrow> False
   | Some (Inl e) \<Rightarrow> e = Corruption
   | Some (Inr (t, used)) \<Rightarrow> x1_wf (ht_table t) (ht_max_bits t) \<and> (if want then pairs_agree t else ht_x2 t = [])
       \<and> huff_wf t \<and> 1 \<le> used \<and> used \<le> length src"
proof (cases rule: safe_res_cases [OF read_table_ok [where src = src and want = want]])
  case (2 x)
  obtain t used where x: "x = (t, used)" by (metis prod.exhaust)
  have "huff_wf t" "1 \<le> used" "used \<le> length src" using 2(2) by (simp_all add: x)
  moreover have "ht_x2 t = [] \<longleftrightarrow> \<not> want" using read_table_want [where src = src and want = want] 2(1) by (simp add: x)
  ultimately show ?thesis using 2(1) huff_wf_pairs [of t] by (simp add: x huff_wf_def)
qed simp

text \<open>A table widened later decodes the same symbols.\<close>

lemma cell_at_widened:
  assumes "x1_wf table log" "cursor_ok c"
  shows "cell_at (widened table (FAST_TABLELOG - log)) FAST_TABLELOG c = cell_at table log c"
proof -
  let ?s = "FAST_TABLELOG - log"
  have a: "log \<le> FAST_TABLELOG" "length table * 2 ^ ?s = 2 ^ FAST_TABLELOG" using assms(1) by (auto simp: x1_wf_def simp flip: power_add)
  have e: "(2 :: nat) ^ FAST_TABLELOG = 2 ^ log * 2 ^ ?s" using a(1) by (simp flip: power_add)
  have "peek FAST_TABLELOG c div 2 ^ ?s = cu_val c * 2 ^ log * 2 ^ ?s div 2 ^ ?s div 2 ^ cu_rem c"
    by (simp add: peek_def e mult.assoc div_mult2_eq [symmetric] mult.commute [of "2 ^ cu_rem c"] del: div_mult_self_is_m nonzero_mult_div_cancel_right)
  then have "peek FAST_TABLELOG c div 2 ^ ?s = peek log c" by (simp add: peek_def)
  then show ?thesis
    using peek_less [OF assms(2), of FAST_TABLELOG] a(2) by (simp add: cell_at_def widened_nth)
qed

lemma ensure_x2_ok:
  assumes "huff_wf t"
  obtains t' where "ensure_x2 t = Some t'" "huff_wf t'" "ht_x2 t' \<noteq> []" "length (ht_x2 t') = length (ht_table t')"
    "\<And>c. cursor_ok c \<Longrightarrow> cell_at (ht_table t') (ht_max_bits t') c = cell_at (ht_table t) (ht_max_bits t) c"
proof (cases "ht_x2 t \<noteq> [] \<and> length (ht_x2 t) = length (ht_table t)")
  case True
  then show ?thesis using assms by (intro that [of t]) (auto simp: ensure_x2_def)
next
  case False
  let ?w = "widened (ht_table t) (FAST_TABLELOG - ht_max_bits t)"
  have wf: "x1_wf (ht_table t) (ht_max_bits t)" using assms by (simp add: huff_wf_def)
  note w = widened_wf [OF wf]
  then have "0 < length ?w" by (simp add: x1_wf_def)
  then show ?thesis
    using False w cell_at_widened [OF wf] with_x2_ok [OF wf]
    by (intro that [of "\<lparr> ht_table = ?w, ht_x2 = x2_from_x1_into ?w FAST_TABLELOG, ht_max_bits = FAST_TABLELOG \<rparr>"])
      (auto simp: ensure_x2_def huff_wf_def x2_from_x1_into_def)
qed

text \<open>A table of three symbols, for concrete runs.\<close>

definition sample_table :: huff_table where
  "sample_table = \<lparr> ht_table = [0x200, 0x201, 0x102, 0x102], ht_x2 = [], ht_max_bits = 2 \<rparr>"

lemma sample_table_wf: "huff_wf sample_table"
proof -
  have c: "complete_weights ([1, 1] @ replicate 254 0) 2 = Some (Inr ([0, 2, 1] @ replicate 10 0, 2, [1, 1, 2]))"
    by code_simp
  have h: "huff_cells [1, 1, 2] 2 = [0x200, 0x201, 0x102, 0x102]" by code_simp
  have "table_from_weights ([1, 1] @ replicate 254 0) 2 False = Some (Inr sample_table)"
    by (subst table_from_weights_eq) (simp_all add: c [simplified] h sample_table_def)
  then show ?thesis using table_from_weights_wf [of 2 "[1, 1] @ replicate 254 0" False] by simp
qed

end
