(* ===== verification/Seq_Codes.thy ===== *)
theory Seq_Codes
  imports Zstd_Prelude
begin

text \<open>
  Sequence codes (\<^verbatim>\<open>compressed.rs\<close>): the literal-length, match-length and offset code tables,
  their packed and looked-up forms, and the repeat-offset history, as the decoder resolves it
  (\<open>resolve_offset\<close>) and as the encoder maintains it (\<open>offset_value_for\<close>, \<open>rep_code_step\<close>), with
  the encoder's coding pass (\<open>build_coded_pass\<close> of \<^verbatim>\<open>encode/block.rs\<close>). The lemmas show that every
  fast form agrees with the top-down table scan and that the decoder's arithmetic inverts the
  encoder's.

  Codes, widths and lengths are \<^verbatim>\<open>u32\<close> in the code and naturals here.
\<close>

section \<open>The tables\<close>

definition LL_BASE :: "nat list" where
  "LL_BASE = [0, 1, 2, 3, 4, 5, 6, 7, 8, 9, 10, 11, 12, 13, 14, 15, 16, 18, 20, 22, 24, 28, 32, 40,
     48, 64, 128, 256, 512, 1024, 2048, 4096, 8192, 16384, 32768, 65536]"

definition LL_BITS :: "nat list" where
  "LL_BITS = [0, 0, 0, 0, 0, 0, 0, 0, 0, 0, 0, 0, 0, 0, 0, 0, 1, 1, 1, 1, 2, 2, 3, 3, 4, 6, 7, 8, 9,
     10, 11, 12, 13, 14, 15, 16]"

definition ML_BASE :: "nat list" where
  "ML_BASE = [3, 4, 5, 6, 7, 8, 9, 10, 11, 12, 13, 14, 15, 16, 17, 18, 19, 20, 21, 22, 23, 24, 25, 26,
     27, 28, 29, 30, 31, 32, 33, 34, 35, 37, 39, 41, 43, 47, 51, 59, 67, 83, 99, 131, 259, 515, 1027,
     2051, 4099, 8195, 16387, 32771, 65539]"

definition ML_BITS :: "nat list" where
  "ML_BITS = [0, 0, 0, 0, 0, 0, 0, 0, 0, 0, 0, 0, 0, 0, 0, 0, 0, 0, 0, 0, 0, 0, 0, 0, 0, 0, 0, 0, 0, 0,
     0, 0, 1, 1, 1, 1, 2, 2, 3, 3, 4, 4, 5, 7, 8, 9, 10, 11, 12, 13, 14, 15, 16]"

text \<open>\<open>pack_ll\<close>, \<open>pack_ml\<close> and the offset table, and the two halves of a packed word.\<close>

definition pack_codes :: "nat list \<Rightarrow> nat list \<Rightarrow> nat list" where
  "pack_codes base bits = map (\<lambda>i. base ! i OR push_bit 24 (bits ! i)) [0..<length base]"

definition LL_PACK :: "nat list" where "LL_PACK = pack_codes LL_BASE LL_BITS"
definition ML_PACK :: "nat list" where "ML_PACK = pack_codes ML_BASE ML_BITS"
definition OF_PACK :: "nat list" where "OF_PACK = map (\<lambda>i. push_bit i 1) [0..<32]"

definition pk_base :: "nat \<Rightarrow> nat" where "pk_base w = w AND 0x00FFFFFF"
definition pk_bits :: "nat \<Rightarrow> nat" where "pk_bits w = drop_bit 24 w mod 256"

section \<open>From a length to its code\<close>

text \<open>\<open>code_from_base\<close>: the highest code whose base is at most the value, scanned from the top.\<close>

fun scan_down :: "nat \<Rightarrow> nat list \<Rightarrow> nat \<Rightarrow> nat option" where
  "scan_down v base 0 = None"
| "scan_down v base (Suc i) = (if base ! i \<le> v then Some i else scan_down v base i)"

definition code_from_base :: "nat \<Rightarrow> nat list \<Rightarrow> nat list \<Rightarrow> nat \<times> nat \<times> nat" where
  "code_from_base v base bits =
     (case scan_down v base (min (length base) (length bits)) of
        Some i \<Rightarrow> (i, v - base ! i, bits ! i)
      | None \<Rightarrow> (0, v, 0))"

definition LL_LUT_LEN :: nat where "LL_LUT_LEN = 64"
definition ML_LUT_LEN :: nat where "ML_LUT_LEN = 256"

fun lut_loop :: "nat \<Rightarrow> nat list \<Rightarrow> nat \<Rightarrow> nat" where
  "lut_loop v base i =
     (if base ! i \<le> v then i else if i = 0 then 0 else lut_loop v base (i - 1))"

declare lut_loop.simps [simp del]

definition build_code_lut :: "nat \<Rightarrow> nat list \<Rightarrow> nat list" where
  "build_code_lut n base = map (\<lambda>v. lut_loop v base (length base - 1)) [0..<n]"

definition LL_CODE_LUT :: "nat list" where "LL_CODE_LUT = build_code_lut LL_LUT_LEN LL_BASE"
definition ML_CODE_LUT :: "nat list" where "ML_CODE_LUT = build_code_lut ML_LUT_LEN ML_BASE"

definition ll_code :: "nat \<Rightarrow> bool \<Rightarrow> nat \<times> nat \<times> nat" where
  "ll_code len lut =
     (if lut \<and> len < LL_LUT_LEN then
        let c = LL_CODE_LUT ! len; base = LL_BASE ! c
        in if base \<le> len then (c, len - base, LL_BITS ! c) else (0, len, 0)
      else code_from_base len LL_BASE LL_BITS)"

definition ml_code :: "nat \<Rightarrow> bool \<Rightarrow> nat \<times> nat \<times> nat" where
  "ml_code len lut =
     (if lut \<and> len < ML_LUT_LEN then
        let c = ML_CODE_LUT ! len; base = ML_BASE ! c
        in if base \<le> len then (c, len - base, ML_BITS ! c) else (0, len, 0)
      else code_from_base len ML_BASE ML_BITS)"

text \<open>A coded length as one word, \<open>code | width << 8 | extra << 16\<close>.\<close>

fun enc_loop :: "nat \<Rightarrow> nat list \<Rightarrow> nat list \<Rightarrow> nat \<Rightarrow> nat" where
  "enc_loop v base bits 0 = 0"
| "enc_loop v base bits (Suc i) =
     (if base ! i \<le> v then i OR push_bit 8 (bits ! i) OR push_bit 16 (v - base ! i)
      else enc_loop v base bits i)"

definition build_len_enc :: "nat \<Rightarrow> nat list \<Rightarrow> nat list \<Rightarrow> nat list" where
  "build_len_enc n base bits = map (\<lambda>v. enc_loop v base bits (length base)) [0..<n]"

definition LL_ENC :: "nat list" where "LL_ENC = build_len_enc LL_LUT_LEN LL_BASE LL_BITS"
definition ML_ENC :: "nat list" where "ML_ENC = build_len_enc ML_LUT_LEN ML_BASE ML_BITS"

definition len_enc_scan :: "nat \<Rightarrow> nat list \<Rightarrow> nat list \<Rightarrow> nat" where
  "len_enc_scan len base bits =
     (let (code, extra, width) = code_from_base len base bits;
          msk = 2 ^ width - 1
      in code OR push_bit 8 width OR push_bit 16 (extra AND msk))"

definition ll_enc :: "nat \<Rightarrow> bool \<Rightarrow> nat" where
  "ll_enc len lut = (if lut \<and> len < LL_LUT_LEN then LL_ENC ! len else len_enc_scan len LL_BASE LL_BITS)"

definition ml_enc :: "nat \<Rightarrow> bool \<Rightarrow> nat" where
  "ml_enc len lut = (if lut \<and> len < ML_LUT_LEN then ML_ENC ! len else len_enc_scan len ML_BASE ML_BITS)"

section \<open>Offset values\<close>

definition of_code :: "nat \<Rightarrow> nat \<times> nat" where
  "of_code offset_value =
     (if offset_value \<le> 1 then (0, 0)
      else let code = highbit offset_value; extra = offset_value - push_bit code 1 in (code, extra))"

definition of_code_nb :: "nat \<Rightarrow> nat \<times> nat" where
  "of_code_nb offset_value =
     (let code = highbit (offset_value OR 1) in (code, offset_value AND (U32_MAX - push_bit code 1)))"

type_synonym reps = "nat \<times> nat \<times> nat"

fun offset_value_for :: "nat \<Rightarrow> nat \<Rightarrow> reps \<Rightarrow> nat" where
  "offset_value_for offset litlen (h0, h1, h2) =
     (if litlen = 0 then
        if offset = h1 then 1
        else if offset = h2 then 2
        else if 1 < h0 \<and> offset = h0 - 1 then 3
        else sat_add U32_MAX offset 3
      else if offset = h0 then 1
      else if offset = h1 then 2
      else if offset = h2 then 3
      else sat_add U32_MAX offset 3)"

fun rep_code_step :: "nat \<Rightarrow> nat \<Rightarrow> reps \<Rightarrow> nat \<times> reps" where
  "rep_code_step offset litlen (h0, h1, h2) =
     (let no_lit = (litlen = 0);
          c1 = (if no_lit then h1 else h0);
          c2 = (if no_lit then h2 else h1);
          c3 = (if no_lit then (h0 + 2 ^ 32 - 1) mod 2 ^ 32 else h2);
          c3_ok = (\<not> no_lit \<or> 1 < h0);
          ov = sat_add U32_MAX offset 3;
          ov = (if offset = c3 \<and> c3_ok then 3 else ov);
          ov = (if offset = c2 then 2 else ov);
          ov = (if offset = c1 then 1 else ov);
          hold = (\<not> no_lit \<and> offset = h0);
          keep2 = (hold \<or> offset = h1)
      in (ov, (offset, (if hold then h1 else h0), (if keep2 then h2 else h1))))"

fun resolve_offset :: "nat \<Rightarrow> nat \<Rightarrow> reps \<Rightarrow> (nat \<times> reps) res" where
  "resolve_offset offset_value litlen (h0, h1, h2) =
     (if 3 < offset_value then let off = offset_value - 3 in Inr (off, (off, h0, h1))
      else if litlen \<noteq> 0 then
        if offset_value = 1 then Inr (h0, (h0, h1, h2))
        else if offset_value = 2 then Inr (h1, (h1, h0, h2))
        else if offset_value = 3 then Inr (h2, (h2, h0, h1))
        else Inl Corruption
      else
        if offset_value = 1 then Inr (h1, (h1, h0, h2))
        else if offset_value = 2 then Inr (h2, (h2, h0, h1))
        else if offset_value = 3 then
          if h0 \<le> 1 then Inl Corruption
          else let off = h0 - 1 in Inr (off, (off, h0, h1))
        else Inl Corruption)"

section \<open>The encoder's coding pass\<close>

record seq =
  sq_litlen :: nat
  sq_matchlen :: nat
  sq_offset :: nat

record coded_seq =
  cs_ex :: nat
  cs_ex_bits :: nat
  cs_llc :: nat
  cs_mlc :: nat
  cs_ofc :: nat

definition code_seq :: "bool \<Rightarrow> seq \<Rightarrow> reps \<Rightarrow> coded_seq \<times> reps" where
  "code_seq lut s reps =
     (let (ov, reps) = rep_code_step (sq_offset s) (sq_litlen s) reps;
          le = ll_enc (sq_litlen s) lut;
          me = ml_enc (sq_matchlen s) lut;
          llc = le AND 63; llb = drop_bit 8 le AND 31; llx = drop_bit 16 le;
          mlc = me AND 63; mlb = drop_bit 8 me AND 31; mlx = drop_bit 16 me;
          (ofc, ofx) = of_code_nb ov;
          lm = llb + mlb;
          ex = llx OR push_bit llb mlx OR push_bit lm ofx
      in (\<lparr> cs_ex = ex, cs_ex_bits = lm + ofc, cs_llc = llc, cs_mlc = mlc, cs_ofc = ofc \<rparr>, reps))"

definition bump :: "nat list \<Rightarrow> nat \<Rightarrow> nat list" where
  "bump counts c = counts[c := counts ! c + 1]"

fun code_seqs :: "bool \<Rightarrow> seq list \<Rightarrow> reps \<Rightarrow> nat list \<Rightarrow> nat list \<Rightarrow> nat list \<Rightarrow>
    coded_seq list \<times> reps \<times> nat list \<times> nat list \<times> nat list" where
  "code_seqs lut [] reps lls ofs mls = ([], reps, lls, ofs, mls)"
| "code_seqs lut (s # ss) reps lls ofs mls =
     (let (c, reps) = code_seq lut s reps;
          (cs, rest) = code_seqs lut ss reps (bump lls (cs_llc c)) (bump ofs (cs_ofc c)) (bump mls (cs_mlc c))
      in (c # cs, rest))"

fun last_nonzero :: "nat list \<Rightarrow> nat \<Rightarrow> nat" where
  "last_nonzero xs 0 = 0"
| "last_nonzero xs (Suc i) = (if xs ! i \<noteq> 0 then i else last_nonzero xs i)"

definition build_coded_pass :: "bool \<Rightarrow> seq list \<Rightarrow> reps \<Rightarrow>
    (coded_seq list \<times> nat list \<times> nat list \<times> nat list \<times> nat) \<times> reps" where
  "build_coded_pass lut seqs reps =
     (let (coded, reps, lls, ofs, mls) =
            code_seqs lut seqs reps (replicate 64 0) (replicate 32 0) (replicate 64 0);
          of_max = last_nonzero ofs 32
      in ((coded, take 36 lls, ofs, take 53 mls, of_max), reps))"

section \<open>The decoder's arithmetic on one sequence\<close>

text \<open>What the sequence loop computes from the three codes and the three extra-bit fields.\<close>

definition seq_values :: "nat \<Rightarrow> nat \<Rightarrow> nat \<Rightarrow> nat \<Rightarrow> nat \<Rightarrow> nat \<Rightarrow> reps \<Rightarrow> (seq \<times> reps) res" where
  "seq_values llc mlc ofc ll_add ml_add offset_add reps =
     (let litlen = pk_base (LL_PACK ! llc) + ll_add;
          matchlen = pk_base (ML_PACK ! mlc) + ml_add;
          offset_value = OF_PACK ! ofc + offset_add
      in rbind (resolve_offset offset_value litlen reps) (\<lambda>(offset, reps).
         Inr (\<lparr> sq_litlen = litlen, sq_matchlen = matchlen, sq_offset = offset \<rparr>, reps)))"

text \<open>The fields are popped offset first, then match length, then literal length, so the coded
  word holds them with the literal length lowest.\<close>

definition decode_coded :: "coded_seq \<Rightarrow> reps \<Rightarrow> (seq \<times> reps) res" where
  "decode_coded c =
     (let llb = pk_bits (LL_PACK ! cs_llc c); mlb = pk_bits (ML_PACK ! cs_mlc c)
      in seq_values (cs_llc c) (cs_mlc c) (cs_ofc c) (cs_ex c mod 2 ^ llb)
           (cs_ex c div 2 ^ llb mod 2 ^ mlb) (cs_ex c div 2 ^ (llb + mlb)))"

fun decode_all :: "coded_seq list \<Rightarrow> reps \<Rightarrow> (seq list \<times> reps) res" where
  "decode_all [] reps = Inr ([], reps)"
| "decode_all (c # cs) reps =
     rbind (decode_coded c reps) (\<lambda>(s, reps).
     rbind (decode_all cs reps) (\<lambda>(ss, reps). Inr (s # ss, reps)))"

section \<open>The scan\<close>

lemma scan_down_Some:
  "scan_down v base n = Some i \<Longrightarrow> i < n \<and> base ! i \<le> v \<and> (\<forall>j. i < j \<longrightarrow> j < n \<longrightarrow> v < base ! j)"
  by (induction n) (auto split: if_splits simp: less_Suc_eq)

lemma scan_down_None: "scan_down v base n = None \<longleftrightarrow> (\<forall>j < n. v < base ! j)"
  by (induction n) (auto simp: less_Suc_eq)

lemma lut_loop_scan: "lut_loop v base n = (case scan_down v base (Suc n) of Some i \<Rightarrow> i | None \<Rightarrow> 0)"
  by (induction n) (simp_all add: lut_loop.simps)

lemma enc_loop_scan: "enc_loop v base bits n =
    (case scan_down v base n of
       Some i \<Rightarrow> i OR push_bit 8 (bits ! i) OR push_bit 16 (v - base ! i) | None \<Rightarrow> 0)"
  by (induction n) auto

text \<open>What the scan needs of a table: the base of each code continues where the one before it
  ends, and widths and codes fit their packed fields.\<close>

definition table_ok :: "nat list \<Rightarrow> nat list \<Rightarrow> bool" where
  "table_ok base bits \<longleftrightarrow> base \<noteq> [] \<and> length bits = length base \<and> length base \<le> 64
     \<and> (\<forall>b \<in> set bits. b \<le> 16) \<and> (\<forall>b \<in> set base. b < 2 ^ 24)
     \<and> tl base = map2 (\<lambda>b w. b + 2 ^ w) (butlast base) (butlast bits)"

definition table_top :: "nat list \<Rightarrow> nat list \<Rightarrow> nat" where
  "table_top base bits = last base + 2 ^ last bits"

lemma table_ok_next:
  assumes "table_ok base bits" "Suc i < length base"
  shows "base ! Suc i = base ! i + 2 ^ (bits ! i)"
proof -
  have "base ! Suc i = tl base ! i" using assms(2) by (simp add: nth_tl)
  also have "\<dots> = base ! i + 2 ^ (bits ! i)"
    using assms by (auto simp: table_ok_def nth_butlast)
  finally show ?thesis .
qed

lemma LL_table_ok: "table_ok LL_BASE LL_BITS" "table_top LL_BASE LL_BITS = 131072"
  by (simp_all add: table_ok_def table_top_def LL_BASE_def LL_BITS_def)

lemma ML_table_ok: "table_ok ML_BASE ML_BITS" "table_top ML_BASE ML_BITS = 131075"
  by (simp_all add: table_ok_def table_top_def ML_BASE_def ML_BITS_def)

lemma scan_field:
  assumes "table_ok base bits" "scan_down v base (length base) = Some i"
    "v < table_top base bits"
  shows "i < length base" "base ! i \<le> v" "v - base ! i < 2 ^ (bits ! i)"
proof -
  note s = scan_down_Some [OF assms(2)]
  show "i < length base" "base ! i \<le> v" using s by auto
  have "v < base ! i + 2 ^ (bits ! i)"
  proof (cases "Suc i < length base")
    case True
    then have "v < base ! Suc i" using s by auto
    then show ?thesis using table_ok_next [OF assms(1) True] by simp
  next
    case False
    then have "i = length base - 1" using s by auto
    moreover have "base \<noteq> []" "bits \<noteq> []" "length bits = length base"
      using assms(1) by (auto simp: table_ok_def)
    ultimately show ?thesis using assms(3) by (simp add: table_top_def last_conv_nth)
  qed
  then show "v - base ! i < 2 ^ (bits ! i)" using s by auto
qed

lemma scan_total: "table_ok base bits \<Longrightarrow> base ! 0 \<le> v \<Longrightarrow> \<exists>i. scan_down v base (length base) = Some i"
proof (rule ccontr)
  assume "table_ok base bits" "base ! 0 \<le> v" "\<nexists>i. scan_down v base (length base) = Some i"
  then show False using scan_down_None [of v base "length base"] by (auto simp: table_ok_def)
qed

section \<open>Every form of a length code agrees with the scan\<close>

lemma lut_form:
  assumes "length bits = length base" "base \<noteq> []" "len < n"
  shows "(let c = build_code_lut n base ! len; b = base ! c
      in if b \<le> len then (c, len - b, bits ! c) else (0, len, 0)) = code_from_base len base bits"
proof -
  have c: "build_code_lut n base ! len = (case scan_down len base (length base) of Some i \<Rightarrow> i | None \<Rightarrow> 0)"
    using assms lut_loop_scan [of len base "length base - 1"] by (simp add: build_code_lut_def)
  show ?thesis
  proof (cases "scan_down len base (length base)")
    case None
    then have "len < base ! 0" using scan_down_None [of len base "length base"] assms(2) by auto
    then show ?thesis using None by (simp add: c code_from_base_def assms(1))
  next
    case (Some i)
    then show ?thesis using scan_down_Some [OF Some] by (simp add: c code_from_base_def assms(1) Let_def)
  qed
qed

definition pack3 :: "nat \<times> nat \<times> nat \<Rightarrow> nat" where
  "pack3 t = (case t of (code, extra, width) \<Rightarrow> code OR push_bit 8 width OR push_bit 16 (extra mod 2 ^ width))"

lemma pack3_fields:
  assumes "code < 64" "width < 32"
  shows "pack3 (code, extra, width) AND 63 = code"
    "drop_bit 8 (pack3 (code, extra, width)) AND 31 = width"
    "drop_bit 16 (pack3 (code, extra, width)) = extra mod 2 ^ width"
proof -
  have 1: "code OR push_bit 8 width = code + 256 * width"
    using or_push_bit_add [of code 8 width] assms by simp
  have 2: "pack3 (code, extra, width) = code + 256 * width + 65536 * (extra mod 2 ^ width)"
    using or_push_bit_add [of "code + 256 * width" 16 "extra mod 2 ^ width"] assms
    by (simp add: pack3_def 1 flip: or.assoc)
  define x where "x = extra mod 2 ^ width"
  have 3: "pack3 (code, extra, width) = code + 256 * (width + 256 * x)"
    unfolding 2 x_def [symmetric] by simp
  then have "pack3 (code, extra, width) div 256 = width + 256 * x" using assms by simp
  then have 4: "drop_bit 8 (pack3 (code, extra, width)) = width + 32 * (8 * x)"
    by (simp add: drop_bit_eq_div)
  have "(code + 64 * (4 * (width + 256 * x))) mod 64 = code mod 64" by (rule mod_mult_self2)
  then show "pack3 (code, extra, width) AND 63 = code" using assms(1) by (simp add: 3)
  show "drop_bit 8 (pack3 (code, extra, width)) AND 31 = width" 
    by (simp only: 4 nat_and_mask_num mod_mult_self2) (simp add: assms(2))
  have "drop_bit 16 (pack3 (code, extra, width)) = pack3 (code, extra, width) div 256 div 256"
    by (simp add: drop_bit_eq_div div_mult2_eq [symmetric])
  also have "\<dots> = x" using assms by (simp add: 3)
  finally show "drop_bit 16 (pack3 (code, extra, width)) = extra mod 2 ^ width" by (simp add: x_def)
qed

lemma len_enc_scan_pack3: "len_enc_scan len base bits = pack3 (code_from_base len base bits)"
  unfolding len_enc_scan_def pack3_def Let_def nat_and_mask by (simp split: prod.split)

lemma enc_form:
  assumes "table_ok base bits" "len < n" "n \<le> table_top base bits"
  shows "build_len_enc n base bits ! len = pack3 (code_from_base len base bits)"
proof (cases "scan_down len base (length base)")
  case None
  then show ?thesis using assms
    by (simp add: build_len_enc_def enc_loop_scan code_from_base_def pack3_def table_ok_def)
next
  case (Some i)
  have "len < table_top base bits" using assms by simp
  note f = scan_field [OF assms(1) Some this]
  have "length bits = length base" using assms(1) by (simp add: table_ok_def)
  then show ?thesis
    using assms(2) Some f(3) by (simp add: build_len_enc_def enc_loop_scan code_from_base_def pack3_def)
qed

lemma length_codes_agree':
  "ll_code len lut = code_from_base len LL_BASE LL_BITS \<and> ml_code len lut = code_from_base len ML_BASE ML_BITS
   \<and> ll_enc len lut = pack3 (ll_code len lut) \<and> ml_enc len lut = pack3 (ml_code len lut)"
proof -
  have ll: "ll_code len lut = code_from_base len LL_BASE LL_BITS"
    using lut_form [of LL_BITS LL_BASE len LL_LUT_LEN] LL_table_ok(1)
    by (simp add: ll_code_def LL_CODE_LUT_def table_ok_def)
  moreover have ml: "ml_code len lut = code_from_base len ML_BASE ML_BITS"
    using lut_form [of ML_BITS ML_BASE len ML_LUT_LEN] ML_table_ok(1)
    by (simp add: ml_code_def ML_CODE_LUT_def table_ok_def)
  moreover have "ll_enc len lut = pack3 (ll_code len lut)"
    using enc_form [OF LL_table_ok(1), of len LL_LUT_LEN] LL_table_ok(2)
    by (simp add: ll_enc_def LL_ENC_def ll len_enc_scan_pack3 LL_LUT_LEN_def)
  moreover have "ml_enc len lut = pack3 (ml_code len lut)"
    using enc_form [OF ML_table_ok(1), of len ML_LUT_LEN] ML_table_ok(2)
    by (simp add: ml_enc_def ML_ENC_def ml len_enc_scan_pack3 ML_LUT_LEN_def)
  ultimately show ?thesis by blast
qed

text \<open>The code of a literal or match length is the highest code whose base does not exceed it,
  whatever the look-up arm, and the coded word carries that code, its width and the remainder.\<close>

theorem length_codes_agree:
  "ll_code len lut = code_from_base len LL_BASE LL_BITS \<and> ml_code len lut = code_from_base len ML_BASE ML_BITS
   \<and> ll_enc len lut = pack3 (ll_code len lut) \<and> ml_enc len lut = pack3 (ml_code len lut)"
  by (rule length_codes_agree')

section \<open>Offset codes and the repeat-offset history\<close>

lemma of_code_nb_eq:
  assumes "ov < 2 ^ 32"
  shows "of_code_nb ov = of_code ov"
proof (cases "ov \<le> 1")
  case True
  then have "ov = 0 \<or> ov = 1" by auto
  then show ?thesis by (auto simp: of_code_nb_def of_code_def U32_MAX_def Let_def)
next
  case False
  define c where "c = highbit ov"
  have c: "2 ^ c \<le> ov" "ov < 2 * 2 ^ c" using highbit_bounds [of ov] False by (auto simp: c_def)
  have c32: "c < 32" using highbit_less [of ov 32] assms False by (simp add: c_def)
  have c0: "0 < c" using False c by (cases c) auto
  have "ov OR 1 \<le> ov + 1" "ov \<le> ov OR 1"
    by (auto simp: or_Suc_0_eq)
  moreover have "ov OR 1 < 2 * 2 ^ c"
  proof -
    have "even (2 * (2 :: nat) ^ c)" by simp
    then show ?thesis using c(2) by (cases "even ov") (auto simp: or_Suc_0_eq elim: evenE dest: Suc_lessI)
  qed
  ultimately have "highbit (ov OR 1) = c" using c by (intro highbit_eqI) auto
  moreover have "ov AND (U32_MAX - push_bit c 1) = ov - 2 ^ c"
    using and_clear_top [OF c c32] by (simp add: U32_MAX_def push_bit_eq_mult)
  ultimately show ?thesis using False by (simp add: of_code_nb_def of_code_def c_def [symmetric] push_bit_eq_mult)
qed

lemma OF_PACK_nth: "c < 32 \<Longrightarrow> OF_PACK ! c = 2 ^ c"
  by (simp add: OF_PACK_def push_bit_eq_mult)

lemma of_code_value:
  assumes "0 < ov" "ov < 2 ^ 32" "of_code ov = (code, extra)"
  shows "code < 32" "OF_PACK ! code + extra = ov" "extra < 2 ^ code"
proof -
  have b: "2 ^ highbit ov \<le> ov" "ov < 2 * 2 ^ highbit ov" "highbit ov < 32"
    using highbit_bounds [of ov] highbit_less [of ov 32] assms by auto
  show "code < 32" "OF_PACK ! code + extra = ov" "extra < 2 ^ code"
  proof (atomize (full), cases "ov \<le> 1")
    case True
    then show "code < 32 \<and> OF_PACK ! code + extra = ov \<and> extra < 2 ^ code"
      using assms by (auto simp: of_code_def OF_PACK_nth)
  next
    case False
    then have "code = highbit ov" "extra = ov - 2 ^ code"
      using assms(3) by (auto simp: of_code_def Let_def push_bit_eq_mult)
    then show "code < 32 \<and> OF_PACK ! code + extra = ov \<and> extra < 2 ^ code"
      using b by (auto simp: OF_PACK_nth)
  qed
qed

definition reps_ok :: "reps \<Rightarrow> bool" where
  "reps_ok reps \<longleftrightarrow> (case reps of (h0, h1, h2) \<Rightarrow> h0 < 2 ^ 32 \<and> h1 < 2 ^ 32 \<and> h2 < 2 ^ 32)"

lemma rep_code_step_inverse':
  assumes "0 < offset" "offset \<le> U32_MAX - 3" "reps_ok reps"
  shows "rep_code_step offset litlen reps = (ov, reps') \<longrightarrow>
     ov = offset_value_for offset litlen reps \<and> 0 < ov \<and> ov \<le> U32_MAX
     \<and> resolve_offset ov litlen reps = Inr (offset, reps') \<and> reps_ok reps'"
proof -
  obtain h0 h1 h2 where r: "reps = (h0, h1, h2)" by (cases reps)
  have w: "1 < h0 \<Longrightarrow> (h0 + 2 ^ 32 - 1) mod 2 ^ 32 = h0 - 1"
    using assms(3) by (auto simp: r reps_ok_def mod_if)
  have h: "h0 < 2 ^ 32" "h1 < 2 ^ 32" "h2 < 2 ^ 32" using assms(3) by (simp_all add: r reps_ok_def)
  have o: "0 < offset" "offset < 2 ^ 32" "offset + 3 \<le> 2 ^ 32 - 1"
    using assms(1,2) by (simp_all add: U32_MAX_def)
  show ?thesis
  proof (cases "litlen = 0")
    case True
    show ?thesis
    proof (cases "1 < h0")
      case h0: True
      show ?thesis
        using True h0 h o w [OF h0]
        by (cases "offset = h1"; cases "offset = h2"; cases "offset = h0 - 1")
          (simp_all add: r sat_add_def Let_def reps_ok_def U32_MAX_def, auto)
    next
      case False
      then show ?thesis
        using True h o
        by (cases "offset = h1"; cases "offset = h2") (simp_all add: r sat_add_def Let_def reps_ok_def U32_MAX_def, auto)
    qed
  next
    case False
    then show ?thesis
      using h o by (cases "offset = h0"; cases "offset = h1"; cases "offset = h2")
        (simp_all add: r sat_add_def Let_def reps_ok_def U32_MAX_def, auto)
  qed
qed

text \<open>For every offset of at least 1 the encoder's branch-free step returns the offset value of
  the case table, and the decoder resolves that value back to the offset with the same history: the
  encoder's repeat-offset history never drifts from the decoder's.\<close>

theorem rep_code_step_inverse:
  assumes "0 < offset" "offset \<le> U32_MAX - 3" "reps_ok reps"
  shows "rep_code_step offset litlen reps = (ov, reps') \<longrightarrow>
     ov = offset_value_for offset litlen reps \<and> 0 < ov \<and> ov \<le> U32_MAX
     \<and> resolve_offset ov litlen reps = Inr (offset, reps') \<and> reps_ok reps'"
  by (rule rep_code_step_inverse' [OF assms])

theorem rep_code_step_inverse_witness:
  "2 = offset_value_for 8 0 (1, 4, 8) \<and> 0 < (2 :: nat) \<and> 2 \<le> U32_MAX
     \<and> resolve_offset 2 0 (1, 4, 8) = Inr (8, (8, 1, 4)) \<and> reps_ok (8, 1, 4)"
proof -
  have "(0 :: nat) < 8" "8 \<le> U32_MAX - 3" "reps_ok (1, 4, 8)" by (simp_all add: U32_MAX_def reps_ok_def)
  moreover have "rep_code_step 8 0 (1, 4, 8) = (2, (8, 1, 4))" by (simp add: Let_def)
  ultimately show ?thesis using rep_code_step_inverse [of 8 "(1, 4, 8)" 0 2 "(8, 1, 4)"] by blast
qed

text \<open>What the decoder's history can become: a resolved offset is the new first entry, the other
  two are entries of the old history, and resolving fails only for the value 0 and for the
  "first minus one" code when the first entry is at most 1.\<close>

theorem resolve_offset_total:
  "case resolve_offset ov litlen (h0, h1, h2) of
     Inr (off, (k0, k1, k2)) \<Rightarrow> k0 = off \<and> k1 \<in> {h0, h1} \<and> k2 \<in> {h1, h2}
       \<and> (if 3 < ov then off = ov - 3 else off \<in> {h0, h1, h2, h0 - 1})
       \<and> (if off = 0 then 0 \<in> {h0, h1, h2} else True)
   | Inl e \<Rightarrow> e = Corruption \<and> (if ov = 3 then litlen = 0 \<and> h0 \<le> 1 else ov = 0)"
proof (cases "3 < ov")
  case True
  then show ?thesis by (auto simp: Let_def)
next
  case False
  then consider "ov = 0" | "ov = 1" | "ov = 2" | "ov = 3" by linarith
  then show ?thesis by cases (cases "litlen = 0"; simp add: Let_def)+
qed

section \<open>The coding pass decodes back\<close>

lemma pack_codes_nth:
  assumes "table_ok base bits" "c < length base"
  shows "pk_base (pack_codes base bits ! c) = base ! c" "pk_bits (pack_codes base bits ! c) = bits ! c"
proof -
  have b: "base ! c < 2 ^ 24" "bits ! c < 256"
  proof -
    have "base ! c \<in> set base" "bits ! c \<in> set bits" using assms by (simp_all add: table_ok_def)
    then have "base ! c < 2 ^ 24" "bits ! c \<le> 16" using assms(1) unfolding table_ok_def by blast+
    then show "base ! c < 2 ^ 24" "bits ! c < 256" by simp_all
  qed
  have e: "pack_codes base bits ! c = base ! c + 2 ^ 24 * (bits ! c)"
    using or_push_bit_add [OF b(1), of "bits ! c"] assms(2) by (simp add: pack_codes_def)
  have "(base ! c + 2 ^ 24 * (bits ! c)) mod 2 ^ 24 = base ! c mod 2 ^ 24" by (rule mod_mult_self2)
  then show "pk_base (pack_codes base bits ! c) = base ! c"
    using b(1) unfolding pk_base_def e nat_and_mask_num by simp
  have "(base ! c + 2 ^ 24 * (bits ! c)) div 2 ^ 24 = bits ! c" using b(1) by simp
  then show "pk_bits (pack_codes base bits ! c) = bits ! c"
    using b(2) unfolding pk_bits_def e drop_bit_eq_div by simp
qed

lemma length_tables [simp]: "length LL_BASE = 36" "length ML_BASE = 53" "length LL_BITS = 36" "length ML_BITS = 53"
  by (simp_all add: LL_BASE_def ML_BASE_def LL_BITS_def ML_BITS_def)

text \<open>One length, coded and decoded.\<close>

lemma len_coded:
  assumes "table_ok base bits" "base ! 0 \<le> v" "v < table_top base bits"
  obtains c x w where "code_from_base v base bits = (c, x, w)" "c < length base" "w = bits ! c"
    "base ! c + x = v" "x < 2 ^ w" "w \<le> 16" "c < 64" "pk_base (pack_codes base bits ! c) = base ! c"
    "pk_bits (pack_codes base bits ! c) = w"
proof -
  obtain i where i: "scan_down v base (length base) = Some i"
    using scan_total [OF assms(1,2)] by blast
  note f = scan_field [OF assms(1) i assms(3)]
  have l: "length bits = length base" "length base \<le> 64" "bits ! i \<le> 16"
    using assms(1) f(1) by (auto simp: table_ok_def)
  show ?thesis
    by (rule that [of i "v - base ! i" "bits ! i"])
      (use f l i pack_codes_nth [OF assms(1) f(1)] in \<open>auto simp: code_from_base_def\<close>)
qed

definition seq_valid :: "seq \<Rightarrow> bool" where
  "seq_valid s \<longleftrightarrow> sq_litlen s < 131072 \<and> 3 \<le> sq_matchlen s \<and> sq_matchlen s < 131075
     \<and> 0 < sq_offset s \<and> sq_offset s \<le> U32_MAX - 3"

lemma LL_first: "LL_BASE ! 0 = 0" and ML_first: "ML_BASE ! 0 = 3"
  by (simp_all add: LL_BASE_def ML_BASE_def)

lemma code_seq_decodes:
  assumes "seq_valid s" "reps_ok reps" "code_seq lut s reps = (c, reps')"
  shows "decode_coded c reps = Inr (s, reps')" "reps_ok reps'"
    "cs_llc c < 36" "cs_mlc c < 53" "cs_ofc c < 32" "cs_ex c < 2 ^ cs_ex_bits c"
    "cs_ex_bits c = pk_bits (LL_PACK ! cs_llc c) + pk_bits (ML_PACK ! cs_mlc c) + cs_ofc c"
    "cs_ex_bits c \<le> 63"
proof -
  obtain ov where r: "rep_code_step (sq_offset s) (sq_litlen s) reps = (ov, reps')"
    using assms(3) by (auto simp: code_seq_def Let_def split: prod.splits)
  have o: "0 < ov" "ov \<le> U32_MAX" "resolve_offset ov (sq_litlen s) reps = Inr (sq_offset s, reps')"
      and ok: "reps_ok reps'"
    using rep_code_step_inverse' [of "sq_offset s" reps "sq_litlen s" ov reps'] assms(1,2) r
    by (auto simp: seq_valid_def)
  obtain ofc ofx where oc: "of_code ov = (ofc, ofx)" by fastforce
  have ov: "ov < 2 ^ 32" using o(2) by (simp add: U32_MAX_def)
  note of = of_code_value [OF o(1) ov oc]
  obtain llc llx llb where ll: "code_from_base (sq_litlen s) LL_BASE LL_BITS = (llc, llx, llb)"
    "llc < 36" "LL_BASE ! llc + llx = sq_litlen s" "llx < 2 ^ llb" "llb \<le> 16"
    "pk_base (LL_PACK ! llc) = LL_BASE ! llc" "pk_bits (LL_PACK ! llc) = llb"
    using assms(1) LL_table_ok(2)
    by (auto simp: seq_valid_def LL_PACK_def LL_first intro: len_coded [OF LL_table_ok(1), of "sq_litlen s"])
  obtain mlc mlx mlb where ml: "code_from_base (sq_matchlen s) ML_BASE ML_BITS = (mlc, mlx, mlb)"
    "mlc < 53" "ML_BASE ! mlc + mlx = sq_matchlen s" "mlx < 2 ^ mlb" "mlb \<le> 16"
    "pk_base (ML_PACK ! mlc) = ML_BASE ! mlc" "pk_bits (ML_PACK ! mlc) = mlb"
    using assms(1) ML_table_ok(2)
    by (auto simp: seq_valid_def ML_PACK_def ML_first intro: len_coded [OF ML_table_ok(1), of "sq_matchlen s"])
  have le: "ll_enc (sq_litlen s) lut = pack3 (llc, llx, llb)"
    and me: "ml_enc (sq_matchlen s) lut = pack3 (mlc, mlx, mlb)"
    using length_codes_agree' [of "sq_litlen s" lut] length_codes_agree' [of "sq_matchlen s" lut] ll(1) ml(1) by auto
  define lm where "lm = llb + mlb"
  define lo where "lo = llx + 2 ^ llb * mlx"
  have "2 ^ llb * (mlx + 1) \<le> (2 :: nat) ^ llb * 2 ^ mlb" using ml(4) by (intro mult_le_mono2) simp
  then have lo: "lo < 2 ^ lm" using ll(4) by (simp add: lo_def lm_def power_add)
  have ex: "llx OR push_bit llb mlx OR push_bit lm ofx = lo + 2 ^ lm * ofx"
    using or_push_bit_add [OF ll(4), of mlx] or_push_bit_add [OF lo, of ofx] by (simp add: lo_def flip: or.assoc)
  have "c = \<lparr> cs_ex = llx OR push_bit llb mlx OR push_bit lm ofx, cs_ex_bits = lm + ofc,
      cs_llc = llc, cs_mlc = mlc, cs_ofc = ofc \<rparr>"
    using assms(3) pack3_fields [of llc llb llx] pack3_fields [of mlc mlb mlx] ll ml
    by (simp add: code_seq_def r le me of_code_nb_eq [OF ov] oc Let_def lm_def)
  then have c: "c = \<lparr> cs_ex = lo + 2 ^ lm * ofx, cs_ex_bits = lm + ofc,
      cs_llc = llc, cs_mlc = mlc, cs_ofc = ofc \<rparr>"
    unfolding ex .
  have f1: "(lo + 2 ^ lm * ofx) div 2 ^ lm = ofx" using lo by simp
  have f2: "(lo + 2 ^ lm * ofx) mod 2 ^ llb = llx"
    using ll(4) by (simp add: lo_def lm_def power_add mult.assoc mod_mult_self2 distrib_left [symmetric] add.assoc)
  have f3: "(lo + 2 ^ lm * ofx) div 2 ^ llb mod 2 ^ mlb = mlx"
  proof -
    have "lo + 2 ^ lm * ofx = llx + 2 ^ llb * (mlx + 2 ^ mlb * ofx)"
      by (simp add: lo_def lm_def power_add distrib_left mult.assoc)
    then have "(lo + 2 ^ lm * ofx) div 2 ^ llb = mlx + 2 ^ mlb * ofx" using ll(4) by simp
    then show ?thesis using ml(4) by simp
  qed
  show "decode_coded c reps = Inr (s, reps')"
    using o(3) ll ml of(2) f1 f2 f3
    by (simp add: decode_coded_def Let_def c seq_values_def flip: lm_def)
  show "reps_ok reps'" by (rule ok)
  show "cs_llc c < 36" "cs_mlc c < 53" "cs_ofc c < 32" using ll ml of by (simp_all add: c)
  have "2 ^ lm * (ofx + 1) \<le> (2 :: nat) ^ lm * 2 ^ ofc" using of(3) by (intro mult_le_mono2) simp
  then show "cs_ex c < 2 ^ cs_ex_bits c" using lo by (simp add: c power_add)
  show "cs_ex_bits c = pk_bits (LL_PACK ! cs_llc c) + pk_bits (ML_PACK ! cs_mlc c) + cs_ofc c"
    using ll ml by (simp add: c lm_def)
  show "cs_ex_bits c \<le> 63" using ll(5) ml(5) of(1) by (simp add: c lm_def)
qed

definition coded_ok :: "coded_seq \<Rightarrow> bool" where
  "coded_ok c \<longleftrightarrow> cs_llc c < 36 \<and> cs_mlc c < 53 \<and> cs_ofc c < 32 \<and> cs_ex c < 2 ^ cs_ex_bits c
     \<and> cs_ex_bits c = pk_bits (LL_PACK ! cs_llc c) + pk_bits (ML_PACK ! cs_mlc c) + cs_ofc c
     \<and> cs_ex_bits c \<le> 63"

text \<open>\<open>counts\<close> is \<open>start\<close> with one added per code.\<close>

definition histogram :: "nat list \<Rightarrow> nat list \<Rightarrow> nat list \<Rightarrow> bool" where
  "histogram start codes counts \<longleftrightarrow> length counts = length start
     \<and> (\<forall>i < length start. counts ! i = start ! i + count_list codes i)"

lemma histogram_bump:
  "c < length start \<Longrightarrow> histogram (bump start c) codes counts \<Longrightarrow> histogram start (c # codes) counts"
  by (auto simp: histogram_def bump_def nth_list_update)

lemma code_seqs_conj:
  assumes "\<forall>s \<in> set ss. seq_valid s" "reps_ok reps"
    "length lls = 64" "length ofs = 32" "length mls = 64"
    "code_seqs lut ss reps lls ofs mls = (cs, reps', lls', ofs', mls')"
  shows "decode_all cs reps = Inr (ss, reps') \<and> reps_ok reps' \<and> (\<forall>c \<in> set cs. coded_ok c)
    \<and> histogram lls (map cs_llc cs) lls' \<and> histogram ofs (map cs_ofc cs) ofs'
    \<and> histogram mls (map cs_mlc cs) mls' \<and> length cs = length ss"
  using assms
proof (induction ss arbitrary: reps lls ofs mls cs)
  case Nil
  then show ?case by (auto simp: histogram_def)
next
  case (Cons s ss)
  obtain c reps1 where c: "code_seq lut s reps = (c, reps1)" by (rule prod.exhaust)
  obtain cs1 where cs1: "code_seqs lut ss reps1 (bump lls (cs_llc c)) (bump ofs (cs_ofc c)) (bump mls (cs_mlc c))
      = (cs1, reps', lls', ofs', mls')" "cs = c # cs1"
    using Cons.prems(6) by (auto simp: c Let_def split: prod.splits)
  have "seq_valid s" using Cons.prems(1) by simp
  note d = code_seq_decodes [OF this Cons.prems(2) c]
  have ok: "coded_ok c" using d(3-8) unfolding coded_ok_def by blast
  note ih = Cons.IH [OF _ d(2) _ _ _ cs1(1)]
  have "decode_all cs1 reps1 = Inr (ss, reps') \<and> reps_ok reps' \<and> (\<forall>c \<in> set cs1. coded_ok c)
      \<and> histogram (bump lls (cs_llc c)) (map cs_llc cs1) lls' \<and> histogram (bump ofs (cs_ofc c)) (map cs_ofc cs1) ofs'
      \<and> histogram (bump mls (cs_mlc c)) (map cs_mlc cs1) mls' \<and> length cs1 = length ss"
    by (rule ih) (use Cons.prems in \<open>auto simp: bump_def\<close>)
  then show ?case
    using d ok Cons.prems(3-5) by (auto simp: cs1(2) intro!: histogram_bump)
qed

lemma code_seqs_ok:
  assumes "\<forall>s \<in> set ss. seq_valid s" "reps_ok reps"
    "length lls = 64" "length ofs = 32" "length mls = 64"
    "code_seqs lut ss reps lls ofs mls = (cs, reps', lls', ofs', mls')"
  shows "decode_all cs reps = Inr (ss, reps')" "reps_ok reps'" "\<forall>c \<in> set cs. coded_ok c"
    "histogram lls (map cs_llc cs) lls'" "histogram ofs (map cs_ofc cs) ofs'"
    "histogram mls (map cs_mlc cs) mls'" "length cs = length ss"
  using code_seqs_conj [OF assms] by blast+

lemma last_nonzero_max:
  assumes "n \<le> length xs" "\<exists>i < n. xs ! i \<noteq> 0"
  shows "last_nonzero xs n < n" "xs ! last_nonzero xs n \<noteq> 0" "\<forall>j < n. xs ! j \<noteq> 0 \<longrightarrow> j \<le> last_nonzero xs n"
  using assms by (atomize (full), induction n) (auto simp: less_Suc_eq)

lemma histogram_max:
  assumes "histogram (replicate n 0) codes counts" "codes \<noteq> []" "\<forall>c \<in> set codes. c < n"
  shows "last_nonzero counts n = Max (set codes)"
proof (rule Max_eqI [symmetric])
  have h: "length counts = n" "\<And>i. i < n \<Longrightarrow> counts ! i \<noteq> 0 \<longleftrightarrow> i \<in> set codes"
    using assms(1) by (auto simp: histogram_def count_list_0_iff)
  obtain c where "c \<in> set codes" using assms(2) by (cases codes) auto
  then have "\<exists>i < n. counts ! i \<noteq> 0" using h(2) assms(3) by auto
  note l = last_nonzero_max [OF _ this, unfolded h(1)]
  show "last_nonzero counts n \<in> set codes" using l(1,2) h(2) by auto
  show "y \<le> last_nonzero counts n" if "y \<in> set codes" for y
    using l(3) h(2) that assms(3) by auto
qed simp

lemma coded_pass_decodes':
  assumes "\<forall>s \<in> set seqs. seq_valid s" "reps_ok reps"
    "build_coded_pass lut seqs reps = ((coded, lls, ofs, mls, of_max), reps')"
  shows "decode_all coded reps = Inr (seqs, reps') \<and> (\<forall>c \<in> set coded. coded_ok c)
    \<and> histogram (replicate 36 0) (map cs_llc coded) lls
    \<and> histogram (replicate 32 0) (map cs_ofc coded) ofs
    \<and> histogram (replicate 53 0) (map cs_mlc coded) mls
    \<and> (seqs \<noteq> [] \<longrightarrow> of_max = Max (set (map cs_ofc coded)))"
proof -
  obtain lls0 mls0 where c: "code_seqs lut seqs reps (replicate 64 0) (replicate 32 0) (replicate 64 0)
      = (coded, reps', lls0, ofs, mls0)" "lls = take 36 lls0" "mls = take 53 mls0" "of_max = last_nonzero ofs 32"
    using assms(3) by (auto simp: build_coded_pass_def Let_def split: prod.splits)
  note k = code_seqs_ok [OF assms(1,2) _ _ _ c(1), simplified]
  have "histogram (replicate 36 0) (map cs_llc coded) lls" "histogram (replicate 53 0) (map cs_mlc coded) mls"
    using k(4,6) by (auto simp: histogram_def c)
  moreover have "seqs \<noteq> [] \<Longrightarrow> of_max = Max (set (map cs_ofc coded))"
    unfolding c(4) by (rule histogram_max [OF k(5)]) (use k in \<open>auto simp: coded_ok_def\<close>)
  ultimately show ?thesis using k by blast
qed

text \<open>C33: the encoder's coding pass is inverted by the decoder's arithmetic: decoding the coded
  sequences from the same starting history gives back every literal length, match length and
  offset and the same final history; the coded fields are in range, at most 63 extra bits each;
  the three histograms count the codes and the largest offset code is found.\<close>

theorem coded_pass_decodes:
  assumes "\<forall>s \<in> set seqs. seq_valid s" "reps_ok reps"
    "build_coded_pass lut seqs reps = ((coded, lls, ofs, mls, of_max), reps')"
  shows "decode_all coded reps = Inr (seqs, reps') \<and> (\<forall>c \<in> set coded. coded_ok c)
    \<and> histogram (replicate 36 0) (map cs_llc coded) lls
    \<and> histogram (replicate 32 0) (map cs_ofc coded) ofs
    \<and> histogram (replicate 53 0) (map cs_mlc coded) mls
    \<and> (seqs \<noteq> [] \<longrightarrow> of_max = Max (set (map cs_ofc coded)))"
  by (rule coded_pass_decodes' [OF assms])

theorem coded_pass_decodes_witness:
  "\<exists>coded lls ofs mls of_max reps'.
     build_coded_pass True [\<lparr> sq_litlen = 5, sq_matchlen = 40, sq_offset = 100 \<rparr>] (1, 4, 8)
       = ((coded, lls, ofs, mls, of_max), reps')
     \<and> decode_all coded (1, 4, 8) = Inr ([\<lparr> sq_litlen = 5, sq_matchlen = 40, sq_offset = 100 \<rparr>], reps')"
proof -
  let ?s = "\<lparr> sq_litlen = 5, sq_matchlen = 40, sq_offset = 100 \<rparr> :: seq"
  obtain coded lls ofs mls of_max reps' where
    b: "build_coded_pass True [?s] (1, 4, 8) = ((coded, lls, ofs, mls, of_max), reps')"
    by (metis prod.exhaust)
  have v: "\<forall>s \<in> set [?s]. seq_valid s" by (simp add: seq_valid_def U32_MAX_def)
  have r: "reps_ok (1, 4, 8)" by (simp add: reps_ok_def)
  show ?thesis using coded_pass_decodes [OF v r b] b by blast
qed

end
