(* ===== verification/Fse_Predefined.thy ===== *)
theory Fse_Predefined
  imports Fse_Ncount
begin

text \<open>
  The predefined distributions of RFC 8878 and the compile-time build of their decoding tables
  (\<^verbatim>\<open>fse.rs\<close>): \<open>predefined_table\<close> has its own loops, without the error paths of the
  run-time build; a compile-time panic is \<open>None\<close>.
\<close>

definition DEFAULT_LL_NORM :: "int list" where
  "DEFAULT_LL_NORM = [4, 3, 2, 2, 2, 2, 2, 2, 2, 2, 2, 2, 2, 1, 1, 1, 2, 2, 2, 2, 2, 2, 2, 2, 2, 3, 2, 1, 1, 1, 1, 1,
    -1, -1, -1, -1]"

definition DEFAULT_ML_NORM :: "int list" where
  "DEFAULT_ML_NORM = [1, 4, 3, 2, 2, 2, 2, 2, 2, 1, 1, 1, 1, 1, 1, 1, 1, 1, 1, 1, 1, 1, 1, 1, 1, 1, 1, 1, 1, 1, 1, 1,
    1, 1, 1, 1, 1, 1, 1, 1, 1, 1, 1, 1, 1, 1, -1, -1, -1, -1, -1, -1, -1]"

definition DEFAULT_OF_NORM :: "int list" where
  "DEFAULT_OF_NORM = [1, 1, 1, 1, 1, 1, 2, 2, 2, 1, 1, 1, 1, 1, 1, 1, 1, 1, 1, 1, 1, 1, 1, 1, -1, -1, -1, -1, -1]"

fun predef_low :: "nat \<Rightarrow> int list \<Rightarrow> nat \<Rightarrow> fse_entry list \<Rightarrow> nat list \<Rightarrow> (nat \<times> fse_entry list \<times> nat list) option" where
  "predef_low s [] high t nx = Some (high, t, nx)"
| "predef_low s (p # ps) high t nx =
     (if p = -1 then
        if high = 0 \<or> length t \<le> high then None
        else predef_low (s + 1) ps (high - 1) (set_symbol high s t) (nx[s := 1])
      else predef_low (s + 1) ps high t (if 0 < p then nx[s := nat p] else nx))"

fun predef_finish :: "nat \<Rightarrow> nat \<Rightarrow> fse_entry list \<Rightarrow> nat list \<Rightarrow> fse_entry list option" where
  "predef_finish n log [] nx = Some []"
| "predef_finish n log (e # es) nx =
     (let sym = fe_symbol e; ns = nx ! sym
      in if length nx \<le> sym \<or> 65535 \<le> ns \<or> ns = 0 \<or> log < highbit ns then None
         else
           let nb = log - highbit ns
           in Option.bind (predef_finish n log es (nx[sym := ns + 1])) (\<lambda>es.
              Some (e\<lparr> fe_num_bits := nb, fe_baseline := (push_bit nb ns - n) mod 65536 \<rparr> # es)))"

definition predefined_table :: "nat \<Rightarrow> int list \<Rightarrow> nat \<Rightarrow> fse_entry list option" where
  "predefined_table n norm log =
     (if n \<noteq> push_bit log 1 \<or> 64 < length norm then None
      else
        Option.bind (predef_low 0 norm (n - 1) (replicate n blank_entry) (replicate 64 0)) (\<lambda>(high, t, nx).
        Option.bind (spread_all set_symbol (fse_step n) (n - 1) high 0 norm (0, t)) (\<lambda>(pos, t).
        predef_finish n log t nx)))"

text \<open>The counter array of the compile-time build is 64 wide, the run-time one as long as the
  counts; both hold the same values where the build looks.\<close>

lemma predef_low_eq:
  assumes "place_low s ps high d nx = Inr (high', d', nx')" "high < length d"
    "list_all (\<lambda>p. p < 65536) ps" "length nx = s + length ps"
  shows "predef_low s ps high d (nx @ zs) = Some (high', d', nx' @ zs)"
  using assms
proof (induction s ps high d nx rule: place_low.induct)
  case (2 s p ps high d nx)
  then show ?case by (auto simp: Let_def list_update_append split: if_splits)
qed simp

lemma predef_finish_eq:
  assumes "finish_entries log ts es nx = Inr es'" "log \<le> 9"
  shows "predef_finish ts log es (nx @ zs) = Some es'"
  using assms(1)
proof (induction es arbitrary: nx es')
  case (Cons e es)
  define ns where "ns = nx ! fe_symbol e"
  from Cons.prems obtain es1 where ok: "fe_symbol e < length nx" "0 < ns" "highbit ns \<le> log"
    and es1: "finish_entries log ts es (nx[fe_symbol e := (ns + 1) mod 65536]) = Inr es1"
    and es': "es' = e\<lparr> fe_num_bits := log - highbit ns,
      fe_baseline := (push_bit (log - highbit ns) ns - ts) mod 65536 \<rparr> # es1"
    by (auto simp: Let_def ns_def rbind_Inr_iff split: if_splits)
  have "ns < 2 * 2 ^ log"
    using highbit_bounds [OF ok(2)] power_increasing [OF ok(3), of "2 :: nat"] by linarith
  then have small: "ns < 1024" using power_increasing [OF assms(2), of "2 :: nat"] by simp
  show ?case
    using Cons.IH [OF es1] ok small
    by (simp add: Let_def nth_append ns_def [symmetric] es' list_update_append)
qed simp

lemma predefined_eq:
  assumes "norm_ok log norm" "5 \<le> log" "log \<le> 9" "length norm \<le> 64" "\<not> list_all (\<lambda>p. p \<le> 0) norm"
  shows "predefined_table (2 ^ log) norm log = Some (ft_decode (table_of norm log))"
proof -
  define ts where "ts = (2 :: nat) ^ log"
  have ts: "push_bit log (1 :: nat) = ts" "0 < ts" by (simp_all add: ts_def push_bit_eq_mult)
  have n: "max (length norm) 1 = length norm" using assms(5) by (cases norm) auto
  have "from_norm norm log = Some (Inr (table_of norm log))"
    using from_norm_ok assms by simp
  then have buf: "from_norm_buf norm log = Some (Inr (ft_decode (table_of norm log)))"
    unfolding from_norm_def by (cases "from_norm_buf norm log") (auto simp: rbind_Inr_iff dest: arg_cong [of _ _ ft_decode])
  have c: "\<not> \<not> (5 \<le> log \<and> log \<le> 9)" "\<not> 256 < length norm" using assms(2-4) by simp_all
  note buf' = buf [unfolded from_norm_buf_def Let_def ts(1) n if_not_P [OF c(1)] if_not_P [OF c(2)]]
  obtain high d nx where low: "place_low 0 norm (ts - 1) (replicate ts blank_entry) (replicate (length norm) 0) = Inr (high, d, nx)"
    using buf' by (cases "place_low 0 norm (ts - 1) (replicate ts blank_entry) (replicate (length norm) 0)") auto
  obtain pos d' where sp: "spread_all set_symbol (fse_step ts) (ts - 1) high 0 norm (0, d) = Some (pos, d')"
      and fin: "finish_entries log ts d' nx = Inr (ft_decode (table_of norm log))"
    using buf' unfolding low by (cases "spread_all set_symbol (fse_step ts) (ts - 1) high 0 norm (0, d)") auto
  have bound: "list_all (\<lambda>p. p < 65536) norm"
    using norm_small [OF assms(1,3)] by (simp add: list_all_iff)
  have arr: "replicate 64 0 = replicate (length norm) (0 :: nat) @ replicate (64 - length norm) 0"
    using assms(4) by (simp add: replicate_add [symmetric])
  have "predef_low 0 norm (ts - 1) (replicate ts blank_entry) (replicate 64 0) = Some (high, d, nx @ replicate (64 - length norm) 0)"
    unfolding arr using ts(2) by (intro predef_low_eq [OF low _ bound]) simp_all
  then show ?thesis
    using assms(4) sp predef_finish_eq [OF fin assms(3)]
    unfolding predefined_table_def ts_def [symmetric] ts(1) by simp
qed

lemma default_norms_ok:
  "norm_ok 6 DEFAULT_LL_NORM" "norm_ok 6 DEFAULT_ML_NORM" "norm_ok 5 DEFAULT_OF_NORM"
  "\<not> list_all (\<lambda>p. p \<le> 0) DEFAULT_LL_NORM" "\<not> list_all (\<lambda>p. p \<le> 0) DEFAULT_ML_NORM"
  "\<not> list_all (\<lambda>p. p \<le> 0) DEFAULT_OF_NORM"
  "length DEFAULT_LL_NORM = 36" "length DEFAULT_ML_NORM = 53" "length DEFAULT_OF_NORM = 29"
  by (simp_all add: norm_ok_def count_of_def DEFAULT_LL_NORM_def DEFAULT_ML_NORM_def DEFAULT_OF_NORM_def)

definition PREDEF_LL :: "fse_entry list option" where "PREDEF_LL = predefined_table 64 DEFAULT_LL_NORM 6"
definition PREDEF_ML :: "fse_entry list option" where "PREDEF_ML = predefined_table 64 DEFAULT_ML_NORM 6"
definition PREDEF_OF :: "fse_entry list option" where "PREDEF_OF = predefined_table 32 DEFAULT_OF_NORM 5"

lemma predef_tables:
  "PREDEF_LL = Some (ft_decode (table_of DEFAULT_LL_NORM 6))"
  "PREDEF_ML = Some (ft_decode (table_of DEFAULT_ML_NORM 6))"
  "PREDEF_OF = Some (ft_decode (table_of DEFAULT_OF_NORM 5))"
  using predefined_eq [OF default_norms_ok(1) _ _ _ default_norms_ok(4)]
    predefined_eq [OF default_norms_ok(2) _ _ _ default_norms_ok(5)]
    predefined_eq [OF default_norms_ok(3) _ _ _ default_norms_ok(6)]
  by (simp_all add: default_norms_ok PREDEF_LL_def PREDEF_ML_def PREDEF_OF_def)

text \<open>The tables the compiler bakes in for the predefined modes are the tables the run-time
  build gives for the three RFC distributions, entry for entry, and no build panics.\<close>

theorem predefined_tables_match:
  "\<exists>ll ml ofs. PREDEF_LL = Some ll \<and> from_norm DEFAULT_LL_NORM 6 = Some (Inr \<lparr> ft_decode = ll, ft_accuracy_log = 6 \<rparr>)
     \<and> PREDEF_ML = Some ml \<and> from_norm DEFAULT_ML_NORM 6 = Some (Inr \<lparr> ft_decode = ml, ft_accuracy_log = 6 \<rparr>)
     \<and> PREDEF_OF = Some ofs \<and> from_norm DEFAULT_OF_NORM 5 = Some (Inr \<lparr> ft_decode = ofs, ft_accuracy_log = 5 \<rparr>)"
proof -
  have t: "\<lparr> ft_decode = ft_decode (table_of n l), ft_accuracy_log = l \<rparr> = table_of n l" for n l
    by (simp add: table_of_def)
  show ?thesis
    unfolding predef_tables
    using from_norm_ok [OF default_norms_ok(1) _ _ _ default_norms_ok(4)]
      from_norm_ok [OF default_norms_ok(2) _ _ _ default_norms_ok(5)]
      from_norm_ok [OF default_norms_ok(3) _ _ _ default_norms_ok(6)]
    by (auto simp: t default_norms_ok)
qed

end
