(* ===== verification/Fse_Coding.thy ===== *)
theory Fse_Coding
  imports Fse_Predefined
begin

text \<open>
  FSE encoding tables (\<^verbatim>\<open>fse.rs\<close>, \<open>FseCTable\<close>): the build from the same normalised counts as
  the decoder's, the encoding step in its two forms (\<open>encode\<close> through the table, \<open>step\<close> through
  the sequence coder's hoisted view) and the interface between the two sides: the locale
  \<open>fse_code\<close> states that the decoder's cell undoes the encoder's step. The buffer pools are left
  out; they recycle allocations only.
\<close>

section \<open>The table and its build\<close>

record fse_cdelta =
  cd_nb :: nat
  cd_find :: int

record fse_ctable =
  ct_table_log :: nat
  ct_states :: "nat list"
  ct_delta :: "fse_cdelta list"

definition wsub32 :: "nat \<Rightarrow> nat \<Rightarrow> nat" where
  "wsub32 a b = (a + 2 ^ 32 - b) mod 2 ^ 32"

definition SEQ_DELTA_LEN :: nat where "SEQ_DELTA_LEN = 64"

text \<open>First loop: cumulative counts, and the low-probability symbols from the top.\<close>

fun cumul_loop :: "nat \<Rightarrow> int list \<Rightarrow> nat list \<Rightarrow> nat list \<Rightarrow> nat \<Rightarrow> nat list \<times> nat list \<times> nat" where
  "cumul_loop s [] cumul syms high = (cumul, syms, high)"
| "cumul_loop s (nv # nvs) cumul syms high =
     (let prev = cumul ! s
      in if nv = -1
         then cumul_loop (s + 1) nvs (cumul[s + 1 := prev + 1]) (syms[high := s mod 65536]) (high - 1)
         else cumul_loop (s + 1) nvs (cumul[s + 1 := (prev + nat (max nv 0) mod 65536) mod 65536]) syms high)"

fun fill_states :: "nat \<Rightarrow> nat \<Rightarrow> nat list \<Rightarrow> nat list \<Rightarrow> nat list \<Rightarrow> nat list res" where
  "fill_states ts u [] cumul states = Inr states"
| "fill_states ts u (s # ss) cumul states =
     (let idx = cumul ! s
      in if length states \<le> idx then Inl Corruption
         else fill_states ts (u + 1) ss (cumul[s := (idx + 1) mod 65536]) (states[idx := (ts + u) mod 65536]))"

definition absent_delta :: "nat \<Rightarrow> fse_cdelta" where
  "absent_delta log = \<lparr> cd_nb = push_bit 16 (log + 1) - push_bit log 1, cd_find = 0 \<rparr>"

fun delta_loop :: "nat \<Rightarrow> nat \<Rightarrow> int list \<Rightarrow> fse_cdelta list" where
  "delta_loop log tot [] = []"
| "delta_loop log tot (nv # nvs) =
     (if nv = 0 then absent_delta log # delta_loop log tot nvs
      else if nv = -1 \<or> nv = 1 then
        \<lparr> cd_nb = push_bit 16 log - push_bit log 1, cd_find = int tot - 1 \<rparr> # delta_loop log (tot + 1) nvs
      else
        let freq = nat (nv mod 2 ^ 32);
            hb = highbit (freq - 1);
            max_bits_out = wsub32 log hb;
            min_state_plus = push_bit max_bits_out freq mod 2 ^ 32
        in \<lparr> cd_nb = wsub32 (push_bit 16 max_bits_out mod 2 ^ 32) min_state_plus, cd_find = int tot - int freq \<rparr>
           # delta_loop log (tot + freq) nvs)"

definition ctable_from_norm :: "int list \<Rightarrow> nat \<Rightarrow> fse_ctable res option" where
  "ctable_from_norm norm log =
     (if norm = [] then Some (Inl Corruption)
      else if \<not> (5 \<le> log \<and> log \<le> 9) then Some (Inl Corruption)
      else
        let ts = push_bit log 1;
            max_sv = length norm - 1;
            (cumul, syms, high) = cumul_loop 0 norm (replicate (max_sv + 2) 0) (replicate ts 0) (ts - 1);
            cumul = cumul[max_sv + 1 := (ts + 1) mod 65536]
        in Option.bind (spread_all (\<lambda>i s t. t[i := s mod 65536]) (fse_step ts) (ts - 1) high 0 norm (0, syms))
             (\<lambda>(pos, syms).
               Some (rbind (fill_states ts 0 syms cumul (replicate ts 0)) (\<lambda>states.
                 let delta_len = max (max_sv + 1) SEQ_DELTA_LEN
                 in Inr \<lparr> ct_table_log = log, ct_states = states,
                          ct_delta = delta_loop log 0 norm @ replicate (delta_len - length norm) (absent_delta log) \<rparr>))))"

definition ctable_rle :: "nat \<Rightarrow> fse_ctable" where
  "ctable_rle symbol =
     (let d = replicate SEQ_DELTA_LEN \<lparr> cd_nb = U32_MAX, cd_find = 0 \<rparr>
      in \<lparr> ct_table_log = 0, ct_states = [0, 0],
           ct_delta = (if symbol < SEQ_DELTA_LEN then d[symbol := \<lparr> cd_nb = 0, cd_find = 0 \<rparr>] else d) \<rparr>)"

section \<open>The encoding step\<close>

definition delta_at :: "fse_ctable \<Rightarrow> nat \<Rightarrow> fse_cdelta" where
  "delta_at t symbol = (case get_at (ct_delta t) symbol of Some d \<Rightarrow> d | None \<Rightarrow> \<lparr> cd_nb = 0, cd_find = 0 \<rparr>)"

text \<open>\<^verbatim>\<open>self.state_table.get(idx as usize).copied().unwrap_or(0)\<close>.\<close>

definition state_at :: "fse_ctable \<Rightarrow> int \<Rightarrow> nat" where
  "state_at t idx = (if 0 \<le> idx \<and> idx < int (length (ct_states t)) then ct_states t ! nat idx else 0)"

definition ct_init_state2 :: "fse_ctable \<Rightarrow> nat \<Rightarrow> nat" where
  "ct_init_state2 t symbol =
     (let d = delta_at t symbol;
          nb_bits_out = drop_bit 16 ((cd_nb d + 2 ^ 15) mod 2 ^ 32);
          value = wsub32 (push_bit 16 nb_bits_out mod 2 ^ 32) (cd_nb d)
      in state_at t (int (drop_bit nb_bits_out value) + cd_find d))"

definition ct_encode :: "fse_ctable \<Rightarrow> nat \<Rightarrow> bitcstream \<Rightarrow> nat \<Rightarrow> nat \<times> bitcstream" where
  "ct_encode t state bits symbol =
     (let d = delta_at t symbol;
          nb_bits_out = drop_bit 16 ((state + cd_nb d) mod 2 ^ 32);
          bits = bc_add_bits (word_of_nat state) nb_bits_out bits
      in (state_at t (int (drop_bit nb_bits_out state) + cd_find d), bits))"

definition ct_flush :: "fse_ctable \<Rightarrow> nat \<Rightarrow> bitcstream \<Rightarrow> bitcstream" where
  "ct_flush t state bits = bc_flush (bc_add_bits (word_of_nat state) (ct_table_log t) bits)"

text \<open>The view of the sequence coder: \<open>None\<close> only for a table this module did not build.\<close>

record seq_enc =
  se_delta :: "fse_cdelta list"
  se_states :: "nat list"
  se_table_log :: nat

definition ct_seq_enc :: "fse_ctable \<Rightarrow> seq_enc option" where
  "ct_seq_enc t =
     (if ct_states t = [] \<or> length (ct_delta t) < SEQ_DELTA_LEN then None
      else Some \<lparr> se_delta = take SEQ_DELTA_LEN (ct_delta t), se_states = ct_states t, se_table_log = ct_table_log t \<rparr>)"

definition se_step :: "seq_enc \<Rightarrow> nat \<Rightarrow> nat \<Rightarrow> nat \<times> nat" where
  "se_step e state symbol =
     (let d = se_delta e ! (symbol AND (SEQ_DELTA_LEN - 1));
          nb = drop_bit 16 ((state + cd_nb d) mod 2 ^ 32);
          idx = (int (drop_bit (nb mod 32) state) + cd_find d) AND (int (length (se_states e)) - 1)
      in (se_states e ! nat idx, nb))"

text \<open>Which symbols a table can encode, and the price of a histogram.\<close>

definition can_encode_symbol :: "fse_ctable \<Rightarrow> nat \<Rightarrow> bool" where
  "can_encode_symbol t symbol =
     (case get_at (ct_delta t) symbol of
        None \<Rightarrow> False
      | Some d \<Rightarrow> if ct_table_log t = 0 then cd_nb d = 0
                  else drop_bit 16 (cd_nb d + 0xFFFF) \<le> ct_table_log t)"

definition COST_MAX :: nat where "COST_MAX = U64_MAX div 4"

fun bit_cost_loop :: "fse_ctable \<Rightarrow> nat \<Rightarrow> nat list \<Rightarrow> nat \<Rightarrow> nat" where
  "bit_cost_loop t s [] c = c"
| "bit_cost_loop t s (n # ns) c =
     (if n = 0 then bit_cost_loop t (s + 1) ns c
      else if \<not> can_encode_symbol t s then COST_MAX
      else
        let nb = max (drop_bit 16 (cd_nb (ct_delta t ! s) + 0xFFFF)) 1
        in bit_cost_loop t (s + 1) ns (c + n * nb))"

fun rle_cost_loop :: "fse_ctable \<Rightarrow> nat \<Rightarrow> nat list \<Rightarrow> nat" where
  "rle_cost_loop t s [] = 0"
| "rle_cost_loop t s (n # ns) =
     (if n = 0 then rle_cost_loop t (s + 1) ns
      else if \<not> can_encode_symbol t s then COST_MAX else rle_cost_loop t (s + 1) ns)"

definition bit_cost :: "fse_ctable \<Rightarrow> nat list \<Rightarrow> nat" where
  "bit_cost t counts = (if ct_table_log t = 0 then rle_cost_loop t 0 counts else bit_cost_loop t 0 counts 0)"

text \<open>The same price read off the normalised counts.\<close>

fun norm_bit_cost_loop :: "int list \<Rightarrow> nat \<Rightarrow> nat \<Rightarrow> nat list \<Rightarrow> nat \<Rightarrow> nat" where
  "norm_bit_cost_loop norm log s [] c = c"
| "norm_bit_cost_loop norm log s (n # ns) c =
     (if n = 0 then norm_bit_cost_loop norm log (s + 1) ns c
      else
        let p = (case get_at norm s of Some p \<Rightarrow> p | None \<Rightarrow> 0)
        in if p = 0 then COST_MAX
           else
             let nb = (if p = -1 \<or> p = 1 then log else log - highbit (nat (p mod 2 ^ 32) - 1))
             in norm_bit_cost_loop norm log (s + 1) ns (c + n * max nb 1))"

definition norm_bit_cost :: "int list \<Rightarrow> nat \<Rightarrow> nat list \<Rightarrow> nat" where
  "norm_bit_cost norm log counts = norm_bit_cost_loop norm log 0 counts 0"

section \<open>The built table in closed form\<close>

definition tbl_ok :: "int list \<Rightarrow> nat \<Rightarrow> bool" where
  "tbl_ok norm log \<longleftrightarrow> norm_ok log norm \<and> 5 \<le> log \<and> log \<le> 9 \<and> length norm \<le> 256 \<and> \<not> list_all (\<lambda>p. p \<le> 0) norm"

lemma tbl_okD:
  assumes "tbl_ok norm log"
  shows "norm_ok log norm" "5 \<le> log" "log \<le> 9" "length norm \<le> 256" "\<not> list_all (\<lambda>p. p \<le> 0) norm"
    "length (lows 0 norm) < 2 ^ log" "norm \<noteq> []" "list_all (\<lambda>p. -1 \<le> p \<and> p < 65536) norm"
    "(2 :: nat) ^ log \<le> 512" "(32 :: nat) \<le> 2 ^ log"
proof -
  show t: "norm_ok log norm" "5 \<le> log" "log \<le> 9" "length norm \<le> 256" "\<not> list_all (\<lambda>p. p \<le> 0) norm"
    using assms by (simp_all add: tbl_ok_def)
  show "length (lows 0 norm) < 2 ^ log" by (rule lows_room [OF t(1,5)])
  show "norm \<noteq> []" using t(5) by auto
  show "list_all (\<lambda>p. -1 \<le> p \<and> p < 65536) norm" by (rule norm_small [OF t(1,3)])
  show "(2 :: nat) ^ log \<le> 512" using power_increasing [OF t(3), of "2 :: nat"] by simp
  show "(32 :: nat) \<le> 2 ^ log" using power_increasing [OF t(2), of "2 :: nat"] by simp
qed

text \<open>Cumulative counts.\<close>

definition cum :: "int list \<Rightarrow> nat \<Rightarrow> nat" where
  "cum norm s = sum_list (map count_of (take s norm))"

lemma cum_Suc: "s < length norm \<Longrightarrow> cum norm (Suc s) = cum norm s + count_of (norm ! s)"
  by (simp add: cum_def take_Suc_conv_app_nth)

lemma cum_mono: "s \<le> t \<Longrightarrow> cum norm s \<le> cum norm t"
proof -
  assume "s \<le> t"
  then have "take t norm = take s norm @ take (t - s) (drop s norm)"
    by (metis le_add_diff_inverse take_add)
  then show ?thesis by (simp add: cum_def)
qed

lemma cum_le: "norm_ok log norm \<Longrightarrow> cum norm s \<le> 2 ^ log"
proof -
  assume "norm_ok log norm"
  then have "sum_list (map count_of (take s norm @ drop s norm)) = 2 ^ log" by (simp add: norm_ok_def)
  then show ?thesis unfolding map_append sum_list_append cum_def by linarith
qed

lemma cum_slots:
  assumes "s < t" "t < length norm" "i < count_of (norm ! s)"
  shows "cum norm s + i < cum norm t"
  using cum_Suc [of s norm] cum_mono [of "Suc s" t norm] assms by simp

lemma cum_inj:
  assumes "s < length norm" "t < length norm" "i < count_of (norm ! s)" "j < count_of (norm ! t)"
    "cum norm s + i = cum norm t + j"
  shows "s = t \<and> i = j"
proof (cases s t rule: linorder_cases)
  case less
  then show ?thesis using cum_slots [OF less assms(2,3)] assms(5) by simp
next
  case greater
  then show ?thesis using cum_slots [OF greater assms(1,4)] assms(5) by simp
qed (use assms in simp)

lemma cumul_loop_ok:
  assumes "list_all (\<lambda>p. -1 \<le> p \<and> p < 65536) nvs" "length cumul = s + length nvs + 1"
    "cumul ! s + sum_list (map count_of nvs) < 65536" "length (lows s nvs) \<le> high" "s + length nvs \<le> 256"
  shows "\<exists>cumul'. cumul_loop s nvs cumul syms high =
      (cumul', writes (\<lambda>i s t. t[i := s]) (zip (map (\<lambda>i. high - i) [0..<length (lows s nvs)]) (lows s nvs)) syms,
       high - length (lows s nvs))
    \<and> length cumul' = length cumul \<and> (\<forall>t \<le> s. cumul' ! t = cumul ! t)
    \<and> (\<forall>t \<le> length nvs. cumul' ! (s + t) = cumul ! s + cum nvs t)"
  using assms
proof (induction nvs arbitrary: s cumul syms high)
  case (Cons nv nvs)
  let ?c = "cumul[s + 1 := cumul ! s + count_of nv]"
  have s1: "s < length cumul" "s + 1 < length cumul" using Cons.prems(2) by simp_all
  have step: "cumul_loop s (nv # nvs) cumul syms high =
      cumul_loop (s + 1) nvs ?c (if nv = -1 then syms[high := s] else syms) (if nv = -1 then high - 1 else high)"
  proof (cases "nv = -1")
    case True
    then show ?thesis using Cons.prems(5) by (simp add: Let_def count_of_def)
  next
    case False
    then have c: "nat (max nv 0) mod 65536 = count_of nv" using Cons.prems(1) by (auto simp: count_of_def nat_less_iff)
    have "(cumul ! s + count_of nv) mod 65536 = cumul ! s + count_of nv" using Cons.prems(3) by simp
    then show ?thesis using False by (simp add: Let_def c)
  qed
  have down: "map (\<lambda>i. high - i) [0..<Suc n] = high # map (\<lambda>i. high - 1 - i) [0..<n]" for n
    by (simp add: upt_conv_Cons map_Suc_upt [symmetric] del: upt_Suc)
  define high' where "high' = (if nv = -1 then high - 1 else high)"
  define syms' where "syms' = (if nv = -1 then syms[high := s] else syms)"
  have prem: "list_all (\<lambda>p. -1 \<le> p \<and> p < 65536) nvs" "length ?c = (s + 1) + length nvs + 1"
    "?c ! (s + 1) + sum_list (map count_of nvs) < 65536" "length (lows (s + 1) nvs) \<le> high'" "s + 1 + length nvs \<le> 256"
    using Cons.prems s1 by (auto simp: high'_def split: if_splits)
  obtain cumul' where c': "cumul_loop (s + 1) nvs ?c syms' high' =
      (cumul', writes (\<lambda>i s t. t[i := s]) (zip (map (\<lambda>i. high' - i) [0..<length (lows (s + 1) nvs)]) (lows (s + 1) nvs)) syms',
       high' - length (lows (s + 1) nvs))" "length cumul' = length ?c" "\<forall>t \<le> s + 1. cumul' ! t = ?c ! t"
      "\<forall>t \<le> length nvs. cumul' ! (s + 1 + t) = ?c ! (s + 1) + cum nvs t"
    using Cons.IH [OF prem, of syms'] by blast
  have eq: "(writes (\<lambda>i s t. t[i := s]) (zip (map (\<lambda>i. high' - i) [0..<length (lows (s + 1) nvs)]) (lows (s + 1) nvs)) syms',
       high' - length (lows (s + 1) nvs)) =
      (writes (\<lambda>i s t. t[i := s]) (zip (map (\<lambda>i. high - i) [0..<length (lows s (nv # nvs))]) (lows s (nv # nvs))) syms,
       high - length (lows s (nv # nvs)))"
  proof (cases "nv = -1")
    case True
    then have l: "lows s (nv # nvs) = s # lows (s + 1) nvs" "high' = high - 1" "syms' = syms[high := s]"
      by (simp_all add: high'_def syms'_def)
    show ?thesis unfolding l length_Cons down zip_Cons_Cons writes_simps prod.inject by (intro conjI refl) simp
  next
    case False
    then have l: "lows s (nv # nvs) = lows (s + 1) nvs" "high' = high" "syms' = syms"
      by (simp_all add: high'_def syms'_def)
    show ?thesis unfolding l by (rule refl)
  qed
  show ?case
  proof (intro exI [of _ cumul'] conjI allI impI)
    show "cumul_loop s (nv # nvs) cumul syms high =
      (cumul', writes (\<lambda>i s t. t[i := s]) (zip (map (\<lambda>i. high - i) [0..<length (lows s (nv # nvs))]) (lows s (nv # nvs))) syms,
       high - length (lows s (nv # nvs)))"
      unfolding step high'_def [symmetric] syms'_def [symmetric] c'(1) using eq by simp
    show "length cumul' = length cumul" using c'(2) by simp
    fix t
    show "cumul' ! t = cumul ! t" if "t \<le> s" using c'(3) that s1 by simp
    show "cumul' ! (s + t) = cumul ! s + cum (nv # nvs) t" if "t \<le> length (nv # nvs)"
    proof (cases t)
      case 0
      then show ?thesis using c'(3) s1 by (simp add: cum_def)
    next
      case (Suc k)
      then have "cumul' ! (s + 1 + k) = ?c ! (s + 1) + cum nvs k" using c'(4) that by simp
      then show ?thesis using s1 by (simp add: Suc cum_def)
    qed
  qed
qed (simp add: cum_def)

text \<open>The scatter into the state table: the cells of one symbol fill consecutive slots.\<close>

definition slot :: "int list \<Rightarrow> nat list \<Rightarrow> nat \<Rightarrow> nat" where
  "slot norm sy u = cum norm (sy ! u) + count_list (take u sy) (sy ! u)"

lemma fill_states_ok:
  assumes sy: "length sy = ts" "ts \<le> 512"
    and range: "\<And>u. u < ts \<Longrightarrow> sy ! u < length norm \<and> slot norm sy u < ts"
    and inj: "\<And>u v. u < ts \<Longrightarrow> v < ts \<Longrightarrow> slot norm sy u = slot norm sy v \<Longrightarrow> u = v"
    and "u \<le> ts" "length st = ts" "length cumul = length norm + 1"
    and "\<And>s. s < length norm \<Longrightarrow> cumul ! s = cum norm s + count_list (take u sy) s"
    and "\<And>v. v < u \<Longrightarrow> st ! slot norm sy v = ts + v"
  shows "\<exists>st'. fill_states ts u (drop u sy) cumul st = Inr st' \<and> length st' = ts
    \<and> (\<forall>v < ts. st' ! slot norm sy v = ts + v)"
  using assms(5-)
proof (induction "ts - u" arbitrary: u cumul st)
  case 0
  then show ?case using sy(1) by (intro exI [of _ st]) simp
next
  case (Suc n)
  then have u: "u < ts" by simp
  define s where "s = sy ! u"
  have d: "drop u sy = s # drop (Suc u) sy" using u sy(1) by (simp add: s_def Cons_nth_drop_Suc)
  have idx: "cumul ! s = slot norm sy u" using Suc.prems(4) range [OF u] by (simp add: s_def slot_def)
  have lt: "slot norm sy u < ts" "s < length norm" using range [OF u] by (simp_all add: s_def)
  have val: "(ts + u) mod 65536 = ts + u" "(slot norm sy u + 1) mod 65536 = slot norm sy u + 1"
    using u sy(2) lt(1) by simp_all
  have tk: "take (Suc u) sy = take u sy @ [s]" using u sy(1) by (simp add: s_def take_Suc_conv_app_nth)
  have step: "fill_states ts u (drop u sy) cumul st =
      fill_states ts (Suc u) (drop (Suc u) sy) (cumul[s := slot norm sy u + 1]) (st[slot norm sy u := ts + u])"
    unfolding d fill_states.simps Let_def idx using lt(1) Suc.prems(2) by (simp add: val [simplified])
  show ?case unfolding step
  proof (rule Suc.hyps(1))
    show "n = ts - Suc u" "Suc u \<le> ts" using Suc.hyps(2) u by simp_all
    show "length (st[slot norm sy u := ts + u]) = ts" "length (cumul[s := slot norm sy u + 1]) = length norm + 1"
      using Suc.prems(2,3) by simp_all
    show "cumul[s := slot norm sy u + 1] ! t = cum norm t + count_list (take (Suc u) sy) t" if "t < length norm" for t
      using Suc.prems(3,4) that lt(2) idx unfolding tk by (cases "t = s") simp_all
    show "st[slot norm sy u := ts + u] ! slot norm sy v = ts + v" if "v < Suc u" for v
    proof (cases "v = u")
      case True
      then show ?thesis using lt(1) Suc.prems(2) by simp
    next
      case False
      then have "slot norm sy v \<noteq> slot norm sy u" using inj [of v u] u that by auto
      then show ?thesis using Suc.prems(5) [of v] that False by simp
    qed
  qed
qed

lemma wsub32_le: "b \<le> a \<Longrightarrow> a < 2 ^ 32 \<Longrightarrow> wsub32 a b = a - b"
proof -
  assume a: "b \<le> a" "a < 2 ^ 32"
  have eq: "a + 2 ^ 32 - b = (a - b) + 2 ^ 32" using a(1) by (rule add_diff_assoc2 [symmetric, THEN trans]) simp
  show "wsub32 a b = a - b" unfolding wsub32_def eq mod_add_self2 by (rule mod_less) (use a in linarith)
qed

definition delta_of :: "nat \<Rightarrow> nat \<Rightarrow> nat \<Rightarrow> fse_cdelta" where
  "delta_of log tot c =
     (if c = 0 then absent_delta log
      else if c = 1 then \<lparr> cd_nb = 65536 * log - 2 ^ log, cd_find = int tot - 1 \<rparr>
      else let mb = log - highbit (c - 1) in \<lparr> cd_nb = 65536 * mb - c * 2 ^ mb, cd_find = int tot - int c \<rparr>)"

text \<open>Two counts and more: the widest step and the smallest state that takes it.\<close>

lemma enc_threshold:
  assumes "2 \<le> c" "c \<le> 2 ^ log"
  shows "highbit (c - 1) < log" "2 ^ log < c * 2 ^ (log - highbit (c - 1))" "c * 2 ^ (log - highbit (c - 1)) \<le> 2 * 2 ^ log"
proof -
  let ?h = "highbit (c - 1)"
  have c: "0 < c - 1" "c - 1 < 2 ^ log" using assms by auto
  show h: "?h < log" by (rule highbit_less [OF c])
  have b: "2 ^ ?h + 1 \<le> c" "c \<le> 2 * 2 ^ ?h" using highbit_bounds [OF c(1)] c(1) by auto
  have p: "2 ^ ?h * 2 ^ (log - ?h) = (2 :: nat) ^ log" using h by (simp add: power_add [symmetric])
  show "2 ^ log < c * 2 ^ (log - ?h)"
    using mult_le_mono1 [OF b(1), of "2 ^ (log - ?h)"] p zero_less_power [of "2 :: nat" "log - ?h"]
    unfolding add_mult_distrib by linarith
  show "c * 2 ^ (log - ?h) \<le> 2 * 2 ^ log"
    using mult_le_mono1 [OF b(2), of "2 ^ (log - ?h)"] unfolding mult.assoc p .
qed

lemma delta_loop_nth:
  assumes "s < length norm" "list_all (\<lambda>p. -1 \<le> p \<and> p \<le> 2 ^ log) norm" "log \<le> 9"
  shows "delta_loop log tot norm ! s = delta_of log (tot + cum norm s) (count_of (norm ! s))"
  using assms(1,2)
proof (induction norm arbitrary: s tot)
  case (Cons nv nvs)
  have lim: "(2 :: nat) ^ log \<le> 512" using power_increasing [OF assms(3), of "2 :: nat"] by simp
  have head: "delta_loop log tot (nv # nvs) = delta_of log tot (count_of nv) # delta_loop log (tot + count_of nv) nvs"
  proof -
    consider "nv = 0" | "nv = -1 \<or> nv = 1" | "2 \<le> nv" using Cons.prems(2) by fastforce
    then show ?thesis
    proof cases
      case 3
      define c where "c = nat nv"
      have nvc: "nv = int c" "2 \<le> c" "c \<le> 2 ^ log"
        using 3 Cons.prems(2) by (auto simp: c_def le_nat_iff nat_le_iff)
      define mb where "mb = log - highbit (c - 1)"
      note t = enc_threshold [OF nvc(2,3), folded mb_def]
      have f: "nat (nv mod 2 ^ 32) = c" using nvc lim by simp
      have w1: "wsub32 log (highbit (c - 1)) = mb" using t(1) assms(3) by (simp add: wsub32_le mb_def)
      have mb: "1 \<le> mb" "mb \<le> 9" using t(1) assms(3) by (auto simp: mb_def)
      have m: "push_bit mb c mod 2 ^ 32 = c * 2 ^ mb" "push_bit 16 mb mod 2 ^ 32 = 65536 * mb"
        using t(3) lim mb(2) by (simp_all add: push_bit_eq_mult)
      have w2: "wsub32 (65536 * mb) (c * 2 ^ mb) = 65536 * mb - c * 2 ^ mb"
        using t(3) lim mb by (simp add: wsub32_le)
      have d: "\<not> nv = 0" "\<not> (nv = -1 \<or> nv = 1)" using 3 by auto
      show ?thesis
        unfolding delta_loop.simps if_not_P [OF d(1)] if_not_P [OF d(2)] Let_def f w1 m w2
        using nvc(1,2) by (simp add: delta_of_def count_of_def mb_def Let_def)
    qed (auto simp: delta_of_def count_of_def push_bit_eq_mult)
  qed
  show ?case
  proof (cases s)
    case 0
    then show ?thesis unfolding head by (simp add: cum_def)
  next
    case (Suc k)
    have "delta_loop log (tot + count_of nv) nvs ! k = delta_of log (tot + count_of nv + cum nvs k) (count_of (nvs ! k))"
      using Cons.prems Suc by (intro Cons.IH) simp_all
    then show ?thesis unfolding head Suc by (simp add: cum_def add.assoc)
  qed
qed simp

lemma length_delta_loop [simp]: "length (delta_loop log tot norm) = length norm"
  by (induction log tot norm rule: delta_loop.induct) (auto simp: Let_def)

lemma writes_mod:
  "list_all (\<lambda>w. snd w < 65536) ws \<Longrightarrow> writes (\<lambda>i s t. t[i := s mod 65536]) ws d = writes (\<lambda>i s t. t[i := s]) ws d"
  by (induction ws arbitrary: d) auto

text \<open>What the build returns on accepted counts.\<close>

lemma ctable_from_norm_ok:
  assumes "tbl_ok norm log"
  shows "\<exists>t. ctable_from_norm norm log = Some (Inr t) \<and> ct_table_log t = log
    \<and> length (ct_states t) = 2 ^ log \<and> length (ct_delta t) = max (length norm) 64
    \<and> (\<forall>u < 2 ^ log. ct_states t ! slot norm (spread_list (2 ^ log) norm) u = 2 ^ log + u)
    \<and> (\<forall>s < length norm. ct_delta t ! s = delta_of log (cum norm s) (count_of (norm ! s)))
    \<and> (\<forall>s. length norm \<le> s \<and> s < 64 \<longrightarrow> ct_delta t ! s = absent_delta log)"
proof -
  note t = tbl_okD [OF assms]
  define ts where "ts = (2 :: nat) ^ log"
  define L where "L = length (lows 0 norm)"
  let ?lw = "\<lambda>i s t. t[i := s :: nat]"
  have ts: "push_bit log (1 :: nat) = ts" "0 < ts" "ts \<le> 512" using t(9) by (simp_all add: ts_def push_bit_eq_mult)
  have L: "L < ts" using t(6) by (simp add: L_def ts_def)
  obtain n where n: "length norm = Suc n" using t(7) by (cases norm) auto
  let ?top = "zip (map (\<lambda>i. ts - 1 - i) [0..<L]) (lows 0 norm)"
  let ?walk = "filter (\<lambda>p. p \<le> ts - 1 - L) (orbit ts (fse_step ts) 0)"
  define sy where "sy = spread_list ts norm"
  have sum: "sum_list (map count_of norm) = ts" using t(1) by (simp add: norm_ok_def ts_def)
  have cl: "0 < length norm + 1" "length (replicate (n + 2) (0 :: nat)) = 0 + length norm + 1"
    "replicate (n + 2) (0 :: nat) ! 0 + sum_list (map count_of norm) < 65536" "length (lows 0 norm) \<le> ts - 1"
    "0 + length norm \<le> 256"
    using n ts(3) L t(4) sum by (simp_all add: L_def)
  obtain cumul where cum: "cumul_loop 0 norm (replicate (n + 2) 0) (replicate ts 0) (ts - 1) =
      (cumul, writes ?lw ?top (replicate ts 0), ts - 1 - L)" "length cumul = n + 2"
      "\<forall>s \<le> length norm. cumul ! s = cum norm s"
    using cumul_loop_ok [OF t(8) cl(2-5), of "replicate ts 0"] by (auto simp: L_def)
  have pl: "placement ts norm = ?top @ zip ?walk (expand 0 norm)"
    by (simp add: placement_def L_def)
  note perm = placement_perm [OF t(1,2) t(6), folded ts_def]
  have fits: "length (expand 0 norm) \<le> length ?walk"
  proof -
    have "length (map snd (placement ts norm)) = L + length (expand 0 norm)" unfolding perm(3) by (simp add: L_def)
    then have "length (zip ?walk (expand 0 norm)) = length (expand 0 norm)" unfolding pl by (simp add: L_def)
    then show ?thesis by simp
  qed
  have small: "list_all (\<lambda>w. snd w < 65536) (zip ?walk (expand 0 norm))"
    unfolding list_all_iff
  proof
    fix w assume "w \<in> set (zip ?walk (expand 0 norm))"
    then have "snd w \<in> set (expand 0 norm)" by (metis set_zip_rightD prod.collapse)
    then have "0 < count_list (expand 0 norm) (snd w)" by (metis count_list_0_iff gr0I)
    then show "snd w < 65536" using t(4) unfolding count_expand by (auto split: if_splits)
  qed
  obtain pos' where walk: "spread_all (\<lambda>i s t. t[i := s mod 65536]) (fse_step ts) (ts - 1) (ts - 1 - L) 0 norm
      (0, writes ?lw ?top (replicate ts 0)) = Some (pos', sy)"
    using spread_flat_ok [OF ts_def, of 0 "fse_step ts" "ts - 1 - L" "expand 0 norm" "\<lambda>i s t. t[i := s mod 65536]"
        "writes ?lw ?top (replicate ts 0)"] fits writes_mod [OF small]
    by (auto simp: spread_all_flat pl sy_def spread_list_def)
  have cells: "sy ! u < length norm" "count_list (take u sy) (sy ! u) < count_of (norm ! (sy ! u))" if "u < ts" for u
  proof -
    have u: "u < 2 ^ log" using that by (simp add: ts_def)
    show s: "sy ! u < length norm" using spread_cells(1) [OF t(1-5) u] by (simp add: sy_def ts_def)
    have "count_list (take u sy) (sy ! u) < count_list sy (sy ! u)"
      using that by (intro count_list_take_less) (simp add: sy_def)
    then show "count_list (take u sy) (sy ! u) < count_of (norm ! (sy ! u))"
      using spread_list_count [OF t(1,2,6), of "sy ! u"] s by (simp add: sy_def ts_def)
  qed
  have range: "sy ! u < length norm \<and> slot norm sy u < ts" if "u < ts" for u
    using cells [OF that] cum_Suc [of "sy ! u" norm] cum_le [OF t(1), of "Suc (sy ! u)"] by (simp add: slot_def ts_def)
  have inj: "u = v" if "u < ts" "v < ts" "slot norm sy u = slot norm sy v" for u v
  proof -
    have "sy ! u = sy ! v \<and> count_list (take u sy) (sy ! u) = count_list (take v sy) (sy ! v)"
      using cum_inj [OF cells(1) [OF that(1)] cells(1) [OF that(2)] cells(2) [OF that(1)] cells(2) [OF that(2)]] that(3)
      by (simp add: slot_def)
    moreover have "u < length sy" "v < length sy" using that by (simp_all add: sy_def)
    ultimately show "u = v" using nth_cell_count [of u sy] nth_cell_count [of v sy] by metis
  qed
  let ?cumul = "cumul[n + 1 := (ts + 1) mod 65536]"
  have cumul0: "?cumul ! s = cum norm s + count_list (take 0 sy) s" if "s < length norm" for s
  proof -
    have "s \<noteq> n + 1" "s \<le> length norm" using that n by simp_all
    then show ?thesis using cum(3) unfolding take_0 count_list.simps(1) by (metis add_0_right nth_list_update_neq)
  qed
  have len: "length sy = ts" "length (replicate ts (0 :: nat)) = ts" "length ?cumul = length norm + 1" "0 \<le> ts"
    using cum(2) n by (simp_all add: sy_def)
  have "\<exists>st. fill_states ts 0 (drop 0 sy) ?cumul (replicate ts 0) = Inr st \<and> length st = ts
      \<and> (\<forall>v < ts. st ! slot norm sy v = ts + v)"
    by (rule fill_states_ok [OF len(1) ts(3) range inj len(4,2,3) cumul0]) auto
  then obtain st where st: "fill_states ts 0 sy ?cumul (replicate ts 0) = Inr st" "length st = ts"
      "\<forall>v < ts. st ! slot norm sy v = ts + v"
    unfolding drop_0 by blast
  define d where "d = delta_loop log 0 norm @ replicate (max (n + 1) 64 - length norm) (absent_delta log)"
  have build: "ctable_from_norm norm log = Some (Inr \<lparr> ct_table_log = log, ct_states = st, ct_delta = d \<rparr>)"
  proof -
    have g: "\<not> norm = []" "\<not> \<not> (5 \<le> log \<and> log \<le> 9)" using t(2,3,7) by simp_all
    have n1: "length norm - 1 = n" using n by simp
    show ?thesis
      unfolding ctable_from_norm_def if_not_P [OF g(1)] if_not_P [OF g(2)] Let_def ts(1) n1 cum(1) prod.case walk
        Option.bind.simps st(1) rbind_simps SEQ_DELTA_LEN_def d_def by (rule refl)
  qed
  have bound: "list_all (\<lambda>p. -1 \<le> p \<and> p \<le> 2 ^ log) norm"
    unfolding list_all_iff
  proof
    fix p assume p: "p \<in> set norm"
    have "int (count_of p) \<le> int (2 ^ log)" using count_le [OF t(1) p] by (simp only: of_nat_le_iff)
    then show "-1 \<le> p \<and> p \<le> 2 ^ log" using t(8) p by (auto simp: list_all_iff count_of_def)
  qed
  show ?thesis
  proof (intro exI conjI allI impI)
    show "ctable_from_norm norm log = Some (Inr \<lparr> ct_table_log = log, ct_states = st, ct_delta = d \<rparr>)" by (rule build)
    fix s
    show "ct_delta \<lparr> ct_table_log = log, ct_states = st, ct_delta = d \<rparr> ! s = delta_of log (cum norm s) (count_of (norm ! s))"
      if "s < length norm"
      using delta_loop_nth [OF that bound t(3), of 0] that by (simp add: d_def nth_append)
    show "ct_delta \<lparr> ct_table_log = log, ct_states = st, ct_delta = d \<rparr> ! s = absent_delta log"
      if "length norm \<le> s \<and> s < 64"
      using that n by (auto simp: d_def nth_append intro!: nth_replicate)
  qed (use st n in \<open>auto simp: d_def sy_def ts_def\<close>)
qed

section \<open>One step and its inverse\<close>

text \<open>The table of some accepted counts: what \<open>ctable_from_norm_ok\<close> gives, as a predicate.\<close>

definition ct_ok :: "int list \<Rightarrow> nat \<Rightarrow> fse_ctable \<Rightarrow> bool" where
  "ct_ok norm log t \<longleftrightarrow> tbl_ok norm log \<and> ctable_from_norm norm log = Some (Inr t)"

lemma ct_okD:
  assumes "ct_ok norm log t"
  shows "tbl_ok norm log" "ct_table_log t = log" "length (ct_states t) = 2 ^ log" "64 \<le> length (ct_delta t)"
    "length norm \<le> length (ct_delta t)"
    "u < 2 ^ log \<Longrightarrow> ct_states t ! slot norm (spread_list (2 ^ log) norm) u = 2 ^ log + u"
    "s < length norm \<Longrightarrow> ct_delta t ! s = delta_of log (cum norm s) (count_of (norm ! s))"
    "length norm \<le> s \<Longrightarrow> s < 64 \<Longrightarrow> ct_delta t ! s = absent_delta log"
  using ctable_from_norm_ok [of norm log] assms by (auto simp: ct_ok_def)

text \<open>The number of bits an encoded symbol takes, and the slot it moves to.\<close>

lemma hi16: "q \<le> 9 \<Longrightarrow> r < 65536 \<Longrightarrow> drop_bit 16 ((65536 * q + r) mod 2 ^ 32) = (q :: nat)"
  by (simp add: drop_bit_eq_div)

lemma delta_step:
  assumes c: "0 < c" "c \<le> 2 ^ log" "log \<le> 9" "1 \<le> log" and x: "2 ^ log \<le> x" "x < 2 * 2 ^ log"
  shows "drop_bit 16 ((x + cd_nb (delta_of log tot c)) mod 2 ^ 32) = enc_nb log c x"
    "int (x div 2 ^ enc_nb log c x) + cd_find (delta_of log tot c) = int (tot + (x div 2 ^ enc_nb log c x - c))"
proof -
  have lim: "(2 :: nat) ^ log \<le> 512" using power_increasing [OF c(3), of "2 :: nat"] by simp
  show "drop_bit 16 ((x + cd_nb (delta_of log tot c)) mod 2 ^ 32) = enc_nb log c x"
  proof (cases "c = 1")
    case True
    have le: "2 ^ log \<le> 65536 * log + x" using x(1) by simp
    have "x + (65536 * log - 2 ^ log) = 65536 * log + (x - 2 ^ log)"
    proof -
      have "2 ^ log \<le> 65536 * log" using lim c(4) by simp
      then show ?thesis using x(1) by simp
    qed
    moreover have "65536 * log + (x - 2 ^ log) < 2 ^ 32" "x - 2 ^ log < 65536" using x(2) lim c(3) by simp_all
    ultimately show ?thesis using True by (simp add: delta_of_def enc_nb_def drop_bit_eq_div)
  next
    case False
    define mb where "mb = log - highbit (c - 1)"
    have c2: "2 \<le> c" using False c(1) by simp
    note t = enc_threshold [OF c2 c(2), folded mb_def]
    have mb: "1 \<le> mb" "mb \<le> 9" using t(1) c(3) by (auto simp: mb_def)
    have nb: "cd_nb (delta_of log tot c) = 65536 * mb - c * 2 ^ mb"
      using c2 by (simp add: delta_of_def mb_def Let_def)
    have m: "c * 2 ^ mb \<le> 1024" using t(3) lim by simp
    show ?thesis
    proof (cases "c * 2 ^ mb \<le> x")
      case True
      have e: "enc_nb log c x = mb" using True c2 by (simp add: enc_nb_def mb_def)
      have "x + (65536 * mb - c * 2 ^ mb) = 65536 * mb + (x - c * 2 ^ mb)" using True m mb by simp
      then show ?thesis unfolding nb e using x(2) lim by (simp only: hi16 [OF mb(2)])
    next
      case F: False
      obtain k where k: "mb = Suc k" using mb(1) by (cases mb) auto
      have e: "enc_nb log c x = k" using F c2 k by (simp add: enc_nb_def mb_def Let_def)
      have k9: "k \<le> 9" using mb(2) k by simp
      have r: "65536 - (c * 2 ^ mb - x) < 65536" using F by simp
      have "x + (65536 * mb - c * 2 ^ mb) = 65536 * k + (65536 - (c * 2 ^ mb - x))" using F m mb by (simp add: k)
      then show ?thesis unfolding nb e using hi16 [OF k9 r] by simp
    qed
  qed
  have ge: "c \<le> x div 2 ^ enc_nb log c x" by (rule enc_nb_ok(1) [OF c(1,2) x])
  then show "int (x div 2 ^ enc_nb log c x) + cd_find (delta_of log tot c) = int (tot + (x div 2 ^ enc_nb log c x - c))"
    using c(1) by (auto simp: delta_of_def Let_def)
qed

lemma delta_init:
  fixes tot :: nat
  assumes c: "0 < c" "c \<le> 2 ^ log" "1 \<le> log" "log \<le> 9"
  defines "nbo \<equiv> drop_bit 16 ((cd_nb (delta_of log tot c) + 2 ^ 15) mod 2 ^ 32)"
  shows "int (drop_bit nbo (wsub32 (push_bit 16 nbo mod 2 ^ 32) (cd_nb (delta_of log tot c)))) + cd_find (delta_of log tot c) = int tot"
proof -
  have lim: "(2 :: nat) ^ log \<le> 512" using power_increasing [OF c(4), of "2 :: nat"] by simp
  show ?thesis
  proof (cases "c = 1")
    case True
    have nb: "cd_nb (delta_of log tot c) = 65536 * log - 2 ^ log" using True by (simp add: delta_of_def)
    have "65536 * log - 2 ^ log + 2 ^ 15 = 65536 * log + (32768 - 2 ^ log)" using c(3) lim by simp
    then have nbo: "nbo = log" using c(4) unfolding nbo_def nb by (simp add: drop_bit_eq_div)
    have "wsub32 (push_bit 16 log mod 2 ^ 32) (65536 * log - 2 ^ log) = 2 ^ log"
      using c(3,4) lim by (simp add: push_bit_eq_mult wsub32_le)
    then show ?thesis unfolding nbo nb using True by (simp add: delta_of_def drop_bit_eq_div)
  next
    case False
    define mb where "mb = log - highbit (c - 1)"
    have c2: "2 \<le> c" using False c(1) by simp
    note t = enc_threshold [OF c2 c(2), folded mb_def]
    have mb: "1 \<le> mb" "mb \<le> 9" using t(1) c(4) by (auto simp: mb_def)
    have nb: "cd_nb (delta_of log tot c) = 65536 * mb - c * 2 ^ mb"
      using c2 by (simp add: delta_of_def mb_def Let_def)
    have m: "c * 2 ^ mb \<le> 1024" using t(3) lim by simp
    have "65536 * mb - c * 2 ^ mb + 2 ^ 15 = 65536 * mb + (32768 - c * 2 ^ mb)" using mb m by simp
    then have nbo: "nbo = mb" using mb(2) unfolding nbo_def nb by (simp add: drop_bit_eq_div)
    have "wsub32 (push_bit 16 mb mod 2 ^ 32) (65536 * mb - c * 2 ^ mb) = c * 2 ^ mb"
      using mb m by (simp add: push_bit_eq_mult wsub32_le)
    then show ?thesis unfolding nbo nb using c2 by (simp add: delta_of_def drop_bit_eq_div Let_def)
  qed
qed

lemma enc_cell_entry:
  assumes "tbl_ok norm log" "s < length norm" "norm ! s \<noteq> 0" and x: "2 ^ log \<le> x" "x < 2 * 2 ^ log"
  defines "u \<equiv> enc_cell norm log s x" and "nb \<equiv> enc_nb log (count_of (norm ! s)) x"
  shows "u < 2 ^ log" "slot norm (spread_list (2 ^ log) norm) u = cum norm s + (x div 2 ^ nb - count_of (norm ! s))"
    "ft_decode (table_of norm log) ! u = \<lparr> fe_baseline = x div 2 ^ nb * 2 ^ nb - 2 ^ log, fe_symbol = s, fe_num_bits = nb \<rparr>"
    "nb \<le> log"
proof -
  note t = tbl_okD [OF assms(1)]
  let ?sy = "spread_list (2 ^ log) norm"
  define c where "c = count_of (norm ! s)"
  have c: "0 < c" "c \<le> 2 ^ log" using assms(2,3) count_le [OF t(1)] by (auto simp: c_def count_of_def)
  note e = enc_nb_ok [OF c x, folded c_def]
  have nb: "nb = enc_nb log c x" by (simp add: nb_def c_def)
  show nl: "nb \<le> log" using e(3) by (simp add: nb)
  have occ: "x div 2 ^ nb - c < count_list ?sy s"
    using e(2) c spread_list_count [OF t(1,2,6), of s] assms(2) unfolding nb by (simp add: c_def [symmetric])
  have uu: "u = nth_cell ?sy s (x div 2 ^ nb - c)" by (simp add: u_def enc_cell_def Let_def nb c_def)
  note n = nth_cell_ok [OF occ, folded uu]
  show u: "u < 2 ^ log" using n by simp
  show "slot norm ?sy u = cum norm s + (x div 2 ^ nb - count_of (norm ! s))"
    using n by (simp add: slot_def c_def)
  have st: "cell_state (map count_of norm) ?sy u = x div 2 ^ nb"
    using n e(1) assms(2) by (simp add: cell_state_def c_def [symmetric] nb)
  have "log - highbit (x div 2 ^ nb) = nb" using highbit_div [OF x nl] nl by simp
  then show "ft_decode (table_of norm log) ! u = \<lparr> fe_baseline = x div 2 ^ nb * 2 ^ nb - 2 ^ log, fe_symbol = s, fe_num_bits = nb \<rparr>"
    using n unfolding table_of_nth [OF u] cell_def st Let_def by simp
qed

lemma entry_undoes:
  fixes x :: nat
  assumes "2 ^ log \<le> x" "x < 2 * 2 ^ log" "nb \<le> log"
  shows "x div 2 ^ nb * 2 ^ nb - 2 ^ log + x mod 2 ^ nb = x mod (2 :: nat) ^ log"
proof -
  have "2 ^ log div 2 ^ nb \<le> x div (2 :: nat) ^ nb" by (rule div_le_mono [OF assms(1)])
  then have "2 ^ log div 2 ^ nb * 2 ^ nb \<le> x div (2 :: nat) ^ nb * 2 ^ nb" by (rule mult_le_mono1)
  moreover have "2 ^ log div 2 ^ nb * 2 ^ nb = (2 :: nat) ^ log"
    using assms(3) by (simp add: power_diff [symmetric] power_add [symmetric])
  moreover have "x div 2 ^ nb * 2 ^ nb + x mod 2 ^ nb = x" by (rule div_mult_mod_eq)
  moreover have "x mod 2 ^ log = x - 2 ^ log" using assms(1,2) by (simp add: mod_if)
  ultimately show ?thesis by linarith
qed

text \<open>A symbol the table encodes.\<close>

definition codable :: "int list \<Rightarrow> nat \<Rightarrow> fse_ctable \<Rightarrow> nat \<Rightarrow> bool" where
  "codable norm log t s \<longleftrightarrow> ct_ok norm log t \<and> s < length norm \<and> norm ! s \<noteq> 0"

lemma codable_delta:
  assumes "codable norm log t s"
  shows "delta_at t s = delta_of log (cum norm s) (count_of (norm ! s))" "ct_delta t ! s = delta_at t s"
    "0 < count_of (norm ! s)" "count_of (norm ! s) \<le> 2 ^ log" "tbl_ok norm log" "1 \<le> log" "log \<le> 9"
proof -
  have c: "ct_ok norm log t" "s < length norm" "norm ! s \<noteq> 0" using assms by (auto simp: codable_def)
  note o = ct_okD [OF c(1)]
  have "s < length (ct_delta t)" using o(5) c(2) by simp
  then show d: "delta_at t s = delta_of log (cum norm s) (count_of (norm ! s))" "ct_delta t ! s = delta_at t s"
    using o(7) [OF c(2)] by (simp_all add: delta_at_def get_at_def)
  show "tbl_ok norm log" by (rule o(1))
  then show "1 \<le> log" "log \<le> 9" "count_of (norm ! s) \<le> 2 ^ log"
    using tbl_okD(1-3) [of norm log] count_le [of log norm] c(2) by auto
  show "0 < count_of (norm ! s)" using c(3) by (simp add: count_of_def)
qed

lemma state_at_slot:
  assumes "codable norm log t s" "2 ^ log \<le> x" "x < 2 * 2 ^ log"
  defines "nb \<equiv> enc_nb log (count_of (norm ! s)) x"
  shows "state_at t (int (drop_bit nb x) + cd_find (delta_at t s)) = 2 ^ log + enc_cell norm log s x"
    "int (drop_bit nb x) + cd_find (delta_at t s) = int (slot norm (spread_list (2 ^ log) norm) (enc_cell norm log s x))"
    "slot norm (spread_list (2 ^ log) norm) (enc_cell norm log s x) < 2 ^ log"
proof -
  note d = codable_delta [OF assms(1)]
  have c: "ct_ok norm log t" "s < length norm" "norm ! s \<noteq> 0" using assms(1) by (auto simp: codable_def)
  note e = enc_cell_entry [OF d(5) c(2,3) assms(2,3), folded nb_def]
  show i: "int (drop_bit nb x) + cd_find (delta_at t s) = int (slot norm (spread_list (2 ^ log) norm) (enc_cell norm log s x))"
    using delta_step(2) [OF d(3,4,7,6) assms(2,3), of "cum norm s"] unfolding e(2) d(1)
    by (simp add: nb_def drop_bit_eq_div)
  show lt: "slot norm (spread_list (2 ^ log) norm) (enc_cell norm log s x) < 2 ^ log"
  proof -
    have "x div 2 ^ nb - count_of (norm ! s) < count_of (norm ! s)"
      using enc_nb_ok(2) [OF d(3,4) assms(2,3)] d(3) by (simp add: nb_def)
    then show ?thesis
      using cum_Suc [OF c(2)] cum_le [OF tbl_okD(1) [OF d(5)], of "Suc s"] unfolding e(2) by simp
  qed
  show "state_at t (int (drop_bit nb x) + cd_find (delta_at t s)) = 2 ^ log + enc_cell norm log s x"
    unfolding i using lt ct_okD(3) [OF c(1)] ct_okD(6) [OF c(1) e(1)] by (simp add: state_at_def)
qed

section \<open>The interface of a coder and its decoder\<close>

text \<open>\<open>ini\<close> starts a state from the last symbol, \<open>stp\<close> moves it and says how many low bits leave
  it; \<open>ent\<close> is the decoder's table. A decoder state is the encoder's, modulo the table size.\<close>

locale fse_code =
  fixes log :: nat and ok :: "nat \<Rightarrow> bool" and valid :: "nat \<Rightarrow> bool"
    and ini :: "nat \<Rightarrow> nat" and stp :: "nat \<Rightarrow> nat \<Rightarrow> nat \<times> nat" and ent :: "nat \<Rightarrow> fse_entry"
  assumes init_valid: "ok s \<Longrightarrow> valid (ini s)"
    and init_symbol: "ok s \<Longrightarrow> fe_symbol (ent (ini s mod 2 ^ log)) = s"
    and step_valid: "valid x \<Longrightarrow> ok s \<Longrightarrow> valid (fst (stp x s))"
    and step_entry: "valid x \<Longrightarrow> ok s \<Longrightarrow> ent (fst (stp x s) mod 2 ^ log) =
      \<lparr> fe_baseline = fe_baseline (ent (fst (stp x s) mod 2 ^ log)), fe_symbol = s, fe_num_bits = snd (stp x s) \<rparr>"
    and step_back: "valid x \<Longrightarrow> ok s \<Longrightarrow>
      fe_baseline (ent (fst (stp x s) mod 2 ^ log)) + x mod 2 ^ snd (stp x s) = x mod 2 ^ log"
    and step_bits: "valid x \<Longrightarrow> ok s \<Longrightarrow> snd (stp x s) \<le> log"
    and log_le: "ok s \<Longrightarrow> log \<le> 9"
begin

text \<open>The states and the bits of a whole string, coded from the back.\<close>

fun run :: "nat list \<Rightarrow> nat \<times> (nat \<times> nat) list" where
  "run [] = (0, [])"
| "run [s] = (ini s, [])"
| "run (s # ss) = (let (x, out) = run ss; (x', nb) = stp x s in (x', (x mod 2 ^ nb, nb) # out))"

fun unrun :: "nat \<Rightarrow> (nat \<times> nat) list \<Rightarrow> nat list" where
  "unrun u [] = [fe_symbol (ent u)]"
| "unrun u ((v, nb) # out) = fe_symbol (ent u) # unrun (fe_baseline (ent u) + v) out"

lemma run_ok:
  assumes "list_all ok ss" "ss \<noteq> []"
  shows "valid (fst (run ss)) \<and> unrun (fst (run ss) mod 2 ^ log) (snd (run ss)) = ss
    \<and> length (snd (run ss)) = length ss - 1"
  using assms
proof (induction ss rule: run.induct)
  case (2 s)
  then show ?case by (simp add: init_valid init_symbol)
next
  case (3 s s' ss)
  obtain x out where r: "run (s' # ss) = (x, out)" by (cases "run (s' # ss)")
  obtain x' nb where st: "stp x s = (x', nb)" by (cases "stp x s")
  have ih: "valid x" "unrun (x mod 2 ^ log) out = s' # ss" "length out = length ss"
    using 3 r by auto
  have ok: "ok s" using 3 by simp
  have "fe_symbol (ent (x' mod 2 ^ log)) = s"
    using step_entry [OF ih(1) ok] st by (metis fse_entry.select_convs(2) fst_conv)
  then show ?case
    using step_valid [OF ih(1) ok] step_back [OF ih(1) ok] ih st r by (simp add: Let_def)
qed simp

end

section \<open>The tables provide it\<close>

definition ct_step :: "fse_ctable \<Rightarrow> nat \<Rightarrow> nat \<Rightarrow> nat \<times> nat" where
  "ct_step t x s =
     (let d = delta_at t s; nb = drop_bit 16 ((x + cd_nb d) mod 2 ^ 32)
      in (state_at t (int (drop_bit nb x) + cd_find d), nb))"

lemma ct_encode_step:
  "ct_encode t x bits s = (fst (ct_step t x s), bc_add_bits (word_of_nat x) (snd (ct_step t x s)) bits)"
  by (simp add: ct_encode_def ct_step_def Let_def)

definition in_range :: "nat \<Rightarrow> nat \<Rightarrow> bool" where
  "in_range log x \<longleftrightarrow> 2 ^ log \<le> x \<and> x < 2 * 2 ^ log"

lemma in_range_mod: "in_range log x \<Longrightarrow> x mod 2 ^ log = x - 2 ^ log"
  using less_diff_conv2 [of "2 ^ log" x "2 ^ log"] by (simp add: in_range_def mod_if)

lemma ct_step_ok:
  assumes "codable norm log t s" "in_range log x"
  shows "ct_step t x s = (2 ^ log + enc_cell norm log s x, enc_nb log (count_of (norm ! s)) x)"
  using delta_step(1) [OF codable_delta(3,4,7,6) [OF assms(1)], of x "cum norm s"] state_at_slot(1) [OF assms(1), of x] assms(2)
  unfolding ct_step_def Let_def codable_delta(1) [OF assms(1)] in_range_def by simp

lemma enc_cell_range:
  assumes "codable norm log t s" "in_range log x"
  shows "in_range log (2 ^ log + enc_cell norm log s x)"
    "(2 ^ log + enc_cell norm log s x) mod 2 ^ log = enc_cell norm log s x"
proof -
  have "enc_cell norm log s x < 2 ^ log"
    using enc_cell_entry(1) [OF codable_delta(5) [OF assms(1)]] assms by (simp add: codable_def in_range_def)
  then show "in_range log (2 ^ log + enc_cell norm log s x)"
    "(2 ^ log + enc_cell norm log s x) mod 2 ^ log = enc_cell norm log s x" by (simp_all add: in_range_def)
qed

lemma ct_init_ok:
  assumes "codable norm log t s"
  shows "\<exists>u < 2 ^ log. ct_init_state2 t s = 2 ^ log + u \<and> fe_symbol (ft_decode (table_of norm log) ! u) = s"
proof -
  note d = codable_delta [OF assms]
  have c: "ct_ok norm log t" "s < length norm" using assms by (auto simp: codable_def)
  note k = tbl_okD [OF d(5)]
  let ?sy = "spread_list (2 ^ log) norm"
  have "0 < count_list ?sy s" using d(3) c(2) spread_list_count [OF k(1,2,6), of s] by simp
  note n = nth_cell_ok [OF this]
  define u where "u = nth_cell ?sy s 0"
  have u: "u < 2 ^ log" "?sy ! u = s" "slot norm ?sy u = cum norm s" using n by (simp_all add: u_def slot_def)
  have "cum norm s < 2 ^ log" using cum_Suc [OF c(2)] cum_le [OF k(1), of "Suc s"] d(3) by simp
  then have "state_at t (int (cum norm s)) = 2 ^ log + u"
    using ct_okD(3) [OF c(1)] ct_okD(6) [OF c(1) u(1)] u(3) by (simp add: state_at_def)
  then have "ct_init_state2 t s = 2 ^ log + u"
    unfolding ct_init_state2_def Let_def d(1) delta_init [OF d(3,4,6,7)] by simp
  then show ?thesis using u by (auto simp: table_of_nth)
qed

lemma norm_code_laws:
  assumes "codable norm log t s" "in_range log x"
  shows "in_range log (fst (ct_step t x s))"
    "ft_decode (table_of norm log) ! (fst (ct_step t x s) mod 2 ^ log) =
      \<lparr> fe_baseline = fe_baseline (ft_decode (table_of norm log) ! (fst (ct_step t x s) mod 2 ^ log)),
        fe_symbol = s, fe_num_bits = snd (ct_step t x s) \<rparr>"
    "fe_baseline (ft_decode (table_of norm log) ! (fst (ct_step t x s) mod 2 ^ log)) + x mod 2 ^ snd (ct_step t x s) = x mod 2 ^ log"
    "snd (ct_step t x s) \<le> log"
proof -
  note e = enc_cell_entry [OF codable_delta(5) [OF assms(1)], of s x]
  have c: "s < length norm" "norm ! s \<noteq> 0" "2 ^ log \<le> x" "x < 2 * 2 ^ log"
    using assms by (auto simp: codable_def in_range_def)
  note r = enc_cell_range [OF assms]
  show "in_range log (fst (ct_step t x s))" using r by (simp add: ct_step_ok [OF assms])
  show "ft_decode (table_of norm log) ! (fst (ct_step t x s) mod 2 ^ log) =
      \<lparr> fe_baseline = fe_baseline (ft_decode (table_of norm log) ! (fst (ct_step t x s) mod 2 ^ log)),
        fe_symbol = s, fe_num_bits = snd (ct_step t x s) \<rparr>"
    unfolding ct_step_ok [OF assms] fst_conv snd_conv r(2) e(3) [OF c] by simp
  show "snd (ct_step t x s) \<le> log" unfolding ct_step_ok [OF assms] snd_conv by (rule e(4) [OF c])
  show "fe_baseline (ft_decode (table_of norm log) ! (fst (ct_step t x s) mod 2 ^ log)) + x mod 2 ^ snd (ct_step t x s) = x mod 2 ^ log"
    unfolding ct_step_ok [OF assms] fst_conv snd_conv r(2) e(3) [OF c]
    using entry_undoes [OF c(3,4) e(4) [OF c]] by simp
qed

lemma norm_init_laws:
  assumes "codable norm log t s"
  shows "in_range log (ct_init_state2 t s)"
    "fe_symbol (ft_decode (table_of norm log) ! (ct_init_state2 t s mod 2 ^ log)) = s"
  using ct_init_ok [OF assms] by (auto simp: in_range_def)

interpretation table: fse_code log "codable norm log t" "in_range log" "ct_init_state2 t" "ct_step t"
  "\<lambda>u. ft_decode (table_of norm log) ! u"
  for norm log t
  using norm_code_laws norm_init_laws codable_delta(7) by unfold_locales

text \<open>The sequence coder's view takes the same step.\<close>

definition seq_view :: "fse_ctable \<Rightarrow> seq_enc" where
  "seq_view t = \<lparr> se_delta = take SEQ_DELTA_LEN (ct_delta t), se_states = ct_states t, se_table_log = ct_table_log t \<rparr>"

lemma ct_seq_enc_ok: "ct_ok norm log t \<Longrightarrow> ct_seq_enc t = Some (seq_view t)"
  using ct_okD(3,4) [of norm log t] tbl_okD(10) [OF ct_okD(1), of norm log t]
  by (auto simp: ct_seq_enc_def seq_view_def SEQ_DELTA_LEN_def)

lemma int_and_mask: "(k :: int) AND (2 ^ n - 1) = k mod 2 ^ n"
  by (simp add: and.commute flip: mask_eq_exp_minus_1 take_bit_eq_mask take_bit_eq_mod)

lemma se_step_eq:
  assumes "codable norm log t s" "in_range log x" "s < 64"
  shows "se_step (seq_view t) x s = ct_step t x s"
proof -
  have c: "ct_ok norm log t" using assms(1) by (auto simp: codable_def)
  have len: "int (length (ct_states t)) = 2 ^ log" using ct_okD(3) [OF c] by simp
  have mask: "s AND (SEQ_DELTA_LEN - 1) = s" using assms(3) by (simp add: SEQ_DELTA_LEN_def)
  have d: "se_delta (seq_view t) ! s = delta_at t s"
    using assms(3) codable_delta(2) [OF assms(1)] by (simp add: seq_view_def SEQ_DELTA_LEN_def)
  have nb: "drop_bit 16 ((x + cd_nb (delta_at t s)) mod 2 ^ 32) = enc_nb log (count_of (norm ! s)) x"
    using ct_step_ok [OF assms(1,2)] by (simp add: ct_step_def Let_def)
  have le: "enc_nb log (count_of (norm ! s)) x mod 32 = enc_nb log (count_of (norm ! s)) x"
    using norm_code_laws(4) [OF assms(1,2)] codable_delta(7) [OF assms(1)] by (simp add: ct_step_ok [OF assms(1,2)])
  have x: "2 ^ log \<le> x" "x < 2 * 2 ^ log" using assms(2) by (simp_all add: in_range_def)
  note st = state_at_slot [OF assms(1) x]
  have "nat (int (slot norm (spread_list (2 ^ log) norm) (enc_cell norm log s x)) mod 2 ^ log) =
      slot norm (spread_list (2 ^ log) norm) (enc_cell norm log s x)"
    using st(3) by (simp add: nat_mod_distrib nat_power_eq)
  moreover have "ct_states t ! slot norm (spread_list (2 ^ log) norm) (enc_cell norm log s x) = 2 ^ log + enc_cell norm log s x"
    using st(1) unfolding st(2) state_at_def using st(3) ct_okD(3) [OF c] by simp
  ultimately show ?thesis
    unfolding se_step_def Let_def mask d nb le ct_step_ok [OF assms(1,2)]
    by (simp add: st(2) seq_view_def len int_and_mask)
qed

definition seq_codable :: "int list \<Rightarrow> nat \<Rightarrow> fse_ctable \<Rightarrow> nat \<Rightarrow> bool" where
  "seq_codable norm log t s \<longleftrightarrow> codable norm log t s \<and> s < 64"

interpretation view: fse_code log "seq_codable norm log t" "in_range log" "ct_init_state2 t" "se_step (seq_view t)"
  "\<lambda>u. ft_decode (table_of norm log) ! u"
  for norm log t
proof unfold_locales
  fix s x assume "in_range log x" "seq_codable norm log t s"
  then have a: "codable norm log t s" "in_range log x" and e: "se_step (seq_view t) x s = ct_step t x s"
    using se_step_eq by (auto simp: seq_codable_def)
  show "in_range log (fst (se_step (seq_view t) x s))"
    "ft_decode (table_of norm log) ! (fst (se_step (seq_view t) x s) mod 2 ^ log) =
      \<lparr> fe_baseline = fe_baseline (ft_decode (table_of norm log) ! (fst (se_step (seq_view t) x s) mod 2 ^ log)),
        fe_symbol = s, fe_num_bits = snd (se_step (seq_view t) x s) \<rparr>"
    "fe_baseline (ft_decode (table_of norm log) ! (fst (se_step (seq_view t) x s) mod 2 ^ log))
      + x mod 2 ^ snd (se_step (seq_view t) x s) = x mod 2 ^ log"
    "snd (se_step (seq_view t) x s) \<le> log"
    unfolding e using norm_code_laws [OF a] by blast+
next
  fix s assume "seq_codable norm log t s"
  then have a: "codable norm log t s" by (simp add: seq_codable_def)
  show "in_range log (ct_init_state2 t s)"
    "fe_symbol (ft_decode (table_of norm log) ! (ct_init_state2 t s mod 2 ^ log)) = s" "log \<le> 9"
    using norm_init_laws [OF a] codable_delta(7) [OF a] by simp_all
qed

text \<open>A single-symbol table never moves and never writes a bit.\<close>

lemma rle_view:
  assumes "s < 64"
  shows "ct_init_state2 (ctable_rle s) s = 0" "se_step (seq_view (ctable_rle s)) 0 s = (0, 0)"
    "ct_seq_enc (ctable_rle s) = Some (seq_view (ctable_rle s))"
  using assms by (simp_all add: ct_init_state2_def ctable_rle_def delta_at_def get_at_def SEQ_DELTA_LEN_def
    se_step_def seq_view_def ct_seq_enc_def wsub32_def state_at_def Let_def)

interpretation rle: fse_code 0 "\<lambda>s. s = s0 \<and> s0 < 64" "\<lambda>x. x = 0" "ct_init_state2 (ctable_rle s0)"
  "se_step (seq_view (ctable_rle s0))" "\<lambda>u. ft_decode (fse_rle s0) ! u"
  for s0
  by unfold_locales (auto simp: rle_view fse_rle_def blank_entry_def)

lemma ct_ok_ex:
  assumes "norm_ok log norm" "5 \<le> log" "log \<le> 9" "length norm \<le> 256" "\<not> list_all (\<lambda>p. p \<le> 0) norm"
  shows "\<exists>t. ct_ok norm log t" "from_norm norm log = Some (Inr (table_of norm log))"
proof -
  have "tbl_ok norm log" using assms by (simp add: tbl_ok_def)
  then show "\<exists>t. ct_ok norm log t" using ctable_from_norm_ok [of norm log] by (auto simp: ct_ok_def)
  show "from_norm norm log = Some (Inr (table_of norm log))" by (rule from_norm_ok [OF assms])
qed

lemma entry_at_table: "u < 2 ^ log \<Longrightarrow> fse_entry_at (table_of norm log) u = ft_decode (table_of norm log) ! u"
  by (simp add: fse_entry_at_def)

text \<open>C36: the decoder undoes the encoder, one symbol at a time: both tables are built from any
  accepted counts, the state stays in its range, and the decoder's cell for the new state names the
  symbol, asks for exactly the bits the encoder wrote, and leads back to the old state.\<close>

theorem fse_step_inverse:
  assumes "norm_ok log norm" "5 \<le> log" "log \<le> 9" "length norm \<le> 256" "\<not> list_all (\<lambda>p. p \<le> 0) norm"
    and "s < length norm" "norm ! s \<noteq> 0" "2 ^ log \<le> x" "x < 2 * 2 ^ log"
  shows "\<exists>ct dt x' nb. ctable_from_norm norm log = Some (Inr ct) \<and> from_norm norm log = Some (Inr dt)
    \<and> ct_encode ct x bits s = (x', bc_add_bits (word_of_nat x) nb bits)
    \<and> 2 ^ log \<le> x' \<and> x' < 2 * 2 ^ log \<and> nb \<le> log
    \<and> fe_symbol (fse_entry_at dt (x' - 2 ^ log)) = s \<and> fe_num_bits (fse_entry_at dt (x' - 2 ^ log)) = nb
    \<and> fe_baseline (fse_entry_at dt (x' - 2 ^ log)) + x mod 2 ^ nb = x - 2 ^ log"
proof -
  obtain ct where ct: "ct_ok norm log ct" using ct_ok_ex(1) [OF assms(1-5)] by blast
  have c: "codable norm log ct s" "in_range log x" using ct assms(6-9) by (simp_all add: codable_def in_range_def)
  note laws = norm_code_laws [OF c]
  define x' nb where "x' = fst (ct_step ct x s)" and "nb = snd (ct_step ct x s)"
  have r: "in_range log x'" using laws(1) by (simp add: x'_def)
  then have lt: "x' - 2 ^ log < 2 ^ log" by (auto simp: in_range_def)
  have e: "fse_entry_at (table_of norm log) (x' - 2 ^ log) = ft_decode (table_of norm log) ! (x' mod 2 ^ log)"
    using entry_at_table [OF lt] in_range_mod [OF r] by simp
  have "fe_symbol (ft_decode (table_of norm log) ! (x' mod 2 ^ log)) = s"
    "fe_num_bits (ft_decode (table_of norm log) ! (x' mod 2 ^ log)) = nb"
    using laws(2) by (metis fse_entry.select_convs(2) x'_def, metis fse_entry.select_convs(3) x'_def nb_def)
  moreover have "fe_baseline (ft_decode (table_of norm log) ! (x' mod 2 ^ log)) + x mod 2 ^ nb = x - 2 ^ log"
    using laws(3) in_range_mod [OF c(2)] by (simp add: x'_def nb_def)
  moreover have "ct_encode ct x bits s = (x', bc_add_bits (word_of_nat x) nb bits)"
    by (simp add: ct_encode_step x'_def nb_def)
  moreover have "nb \<le> log" using laws(4) by (simp add: nb_def)
  ultimately show ?thesis
    using ct ct_ok_ex(2) [OF assms(1-5)] r unfolding ct_ok_def in_range_def
    by (intro exI [of _ ct] exI [of _ "table_of norm log"] exI [of _ x'] exI [of _ nb]) (simp add: e)
qed

theorem fse_step_inverse_witness:
  "\<exists>ct dt x' nb. ctable_from_norm [16, 8, -1, 4, 3] 5 = Some (Inr ct) \<and> from_norm [16, 8, -1, 4, 3] 5 = Some (Inr dt)
     \<and> ct_encode ct 45 bc_new 3 = (x', bc_add_bits (word_of_nat 45) nb bc_new) \<and> fe_symbol (fse_entry_at dt (x' - 32)) = 3"
  using fse_step_inverse [OF sample_norm(1) _ _ _ sample_norm(2), of 3 45 bc_new] by force

section \<open>The price of a table\<close>

lemma price_of_delta:
  assumes "0 < c" "c \<le> 2 ^ log" "1 \<le> log" "log \<le> 9"
  shows "drop_bit 16 (cd_nb (delta_of log tot c) + 0xFFFF) = (if c = 1 then log else log - highbit (c - 1))"
proof -
  have lim: "(2 :: nat) ^ log \<le> 512" using power_increasing [OF assms(4), of "2 :: nat"] by simp
  show ?thesis
  proof (cases "c = 1")
    case True
    have "65536 * log - 2 ^ log + 65535 = 65536 * log + (65535 - 2 ^ log)" using lim assms(3) by simp
    then show ?thesis using True by (simp add: delta_of_def drop_bit_eq_div)
  next
    case False
    define mb where "mb = log - highbit (c - 1)"
    have c2: "2 \<le> c" using False assms(1) by simp
    note t = enc_threshold [OF c2 assms(2), folded mb_def]
    have mb: "1 \<le> mb" using t(1) by (simp add: mb_def)
    have pos: "0 < c * 2 ^ mb" "c * 2 ^ mb \<le> 1024" using t(3) lim assms(1) by simp_all
    have "65536 * mb - c * 2 ^ mb + 65535 = 65536 * mb + (65535 - c * 2 ^ mb)" using pos mb by simp
    moreover have "cd_nb (delta_of log tot c) = 65536 * mb - c * 2 ^ mb"
      using c2 by (simp add: delta_of_def mb_def Let_def)
    moreover have "log - highbit (c - 1) = mb" by (simp add: mb_def)
    ultimately show ?thesis using False by (simp add: drop_bit_eq_div)
  qed
qed

lemma price_absent: "1 \<le> log \<Longrightarrow> log \<le> 9 \<Longrightarrow> log < drop_bit 16 (cd_nb (absent_delta log) + 0xFFFF)"
proof -
  assume a: "1 \<le> log" "log \<le> 9"
  have lim: "(2 :: nat) ^ log \<le> 512" using power_increasing [OF a(2), of "2 :: nat"] by simp
  have "65536 * (log + 1) - 2 ^ log + 65535 = 65536 * (log + 1) + (65535 - 2 ^ log)" using lim by simp
  then show ?thesis by (simp add: absent_delta_def push_bit_eq_mult drop_bit_eq_div)
qed

lemma can_encode_iff:
  assumes "ct_ok norm log t"
  shows "can_encode_symbol t s \<longleftrightarrow> s < length norm \<and> norm ! s \<noteq> 0"
proof -
  note o = ct_okD [OF assms]
  note k = tbl_okD [OF o(1)]
  have l: "1 \<le> log" "log \<le> 9" using k by simp_all
  have log0: "ct_table_log t \<noteq> 0" using k(2) o(2) by simp
  consider "s < length norm" | "length norm \<le> s" "s < length (ct_delta t)" | "length (ct_delta t) \<le> s" by linarith
  then show ?thesis
  proof cases
    case 1
    then have d: "get_at (ct_delta t) s = Some (delta_of log (cum norm s) (count_of (norm ! s)))"
      using o(5,7) by (simp add: get_at_def)
    show ?thesis
    proof (cases "norm ! s = 0")
      case True
      then show ?thesis using price_absent [OF l] log0 d o(2) by (simp add: can_encode_symbol_def delta_of_def count_of_def)
    next
      case False
      then have c: "0 < count_of (norm ! s)" "count_of (norm ! s) \<le> 2 ^ log"
        using count_le [OF k(1)] 1 by (auto simp: count_of_def)
      then show ?thesis
        using price_of_delta [OF c l, of "cum norm s"] log0 d o(2) 1 False by (simp add: can_encode_symbol_def)
    qed
  next
    case 2
    obtain t' where t': "ctable_from_norm norm log = Some (Inr t')" "length (ct_delta t') = max (length norm) 64"
      using ctable_from_norm_ok [OF o(1)] by blast
    then have "length (ct_delta t) = max (length norm) 64" using assms by (simp add: ct_ok_def)
    then have "ct_delta t ! s = absent_delta log" using o(8) 2 by (auto simp: max_def split: if_splits)
    then show ?thesis using price_absent [OF l] log0 2 o(2) by (simp add: can_encode_symbol_def get_at_def)
  next
    case 3
    then show ?thesis using o(5) by (simp add: can_encode_symbol_def get_at_def)
  qed
qed

text \<open>Pricing a candidate from its normalised counts gives exactly the price of the table it would
  build, symbols without probability included.\<close>

theorem norm_bit_cost_exact:
  assumes "norm_ok log norm" "5 \<le> log" "log \<le> 9" "length norm \<le> 256" "\<not> list_all (\<lambda>p. p \<le> 0) norm"
    and "ctable_from_norm norm log = Some (Inr ct)"
  shows "norm_bit_cost norm log counts = bit_cost ct counts"
proof -
  have ct: "ct_ok norm log ct" using assms by (simp add: ct_ok_def tbl_ok_def)
  note o = ct_okD [OF ct]
  note k = tbl_okD [OF o(1)]
  have l: "1 \<le> log" "log \<le> 9" using k by simp_all
  have nb: "(if norm ! s = -1 \<or> norm ! s = 1 then log else log - highbit (nat (norm ! s mod 2 ^ 32) - 1))
      = drop_bit 16 (cd_nb (ct_delta ct ! s) + 0xFFFF)" if "s < length norm" "norm ! s \<noteq> 0" for s
  proof -
    have c: "0 < count_of (norm ! s)" "count_of (norm ! s) \<le> 2 ^ log"
      using count_le [OF k(1)] that by (auto simp: count_of_def)
    have ge: "-1 \<le> norm ! s \<and> norm ! s < 65536" using k(8) that(1) by (simp add: list_all_length)
    have "norm ! s \<noteq> -1 \<Longrightarrow> nat (norm ! s mod 2 ^ 32) = count_of (norm ! s)"
      using ge by (simp add: count_of_def)
    moreover have "count_of (norm ! s) = 1 \<longleftrightarrow> norm ! s = -1 \<or> norm ! s = 1"
      using ge by (auto simp: count_of_def)
    ultimately show ?thesis
      using price_of_delta [OF c l, of "cum norm s"] o(7) [OF that(1)] by auto
  qed
  have "norm_bit_cost_loop norm log s counts c = bit_cost_loop ct s counts c" for s c
  proof (induction counts arbitrary: s c)
    case (Cons n ns)
    show ?case
    proof (cases "n = 0 \<or> \<not> can_encode_symbol ct s")
      case True
      then show ?thesis using Cons.IH can_encode_iff [OF ct, of s] by (auto simp: get_at_def)
    next
      case False
      then have s: "s < length norm" "norm ! s \<noteq> 0" using can_encode_iff [OF ct, of s] by simp_all
      then show ?thesis using False Cons.IH nb [OF s] by (simp add: get_at_def Let_def)
    qed
  qed simp
  then show ?thesis using k(2) o(2) by (simp add: norm_bit_cost_def bit_cost_def)
qed

theorem norm_bit_cost_exact_witness:
  "\<exists>ct. ctable_from_norm [16, 8, -1, 4, 3] 5 = Some (Inr ct) \<and> norm_bit_cost [16, 8, -1, 4, 3] 5 [9, 5, 0, 2] = bit_cost ct [9, 5, 0, 2]"
proof -
  obtain ct where "ct_ok [16, 8, -1, 4, 3] 5 ct" using ct_ok_ex(1) [OF sample_norm(1) _ _ _ sample_norm(2)] by force
  then show ?thesis
    using norm_bit_cost_exact [OF sample_norm(1) _ _ _ sample_norm(2), of ct] by (force simp: ct_ok_def)
qed

end
