(* ===== verification/Seq_Writer.thy ===== *)
theory Seq_Writer
  imports Seq_Codes Bit_Streams Fse_Coding Fse_Predefined
begin

text \<open>
  The sequence section's bit stream on the encoder's side (\<^verbatim>\<open>encode/block.rs\<close>): the size bound
  \<open>seq_stream_bound\<close>, the four-local accumulator \<^verbatim>\<open>SeqBitWriter\<close> over a slice sized
  beforehand, and the loop \<open>encode_seq_bits\<close> that codes the sequences from the last to the first.

  The accumulator is a stack of bits: \<open>sw_val\<close> is the number the bits form, \<open>sw_len\<close> how many there
  are. The stream of a list of sequences is the number \<open>stream_val\<close>, and the loop never leaves a
  slice of \<open>seq_stream_bound\<close> bytes.
\<close>

section \<open>The size bound\<close>

fun weigh :: "nat list \<Rightarrow> nat list \<Rightarrow> nat" where
  "weigh (n # ns) (w # ws) = n * w + weigh ns ws"
| "weigh _ _ = 0"

definition seq_stream_bound :: "nat list \<Rightarrow> nat list \<Rightarrow> nat list \<Rightarrow> fse_ctable \<Rightarrow> fse_ctable \<Rightarrow> fse_ctable \<Rightarrow> nat" where
  "seq_stream_bound ll_count of_count ml_count ll_t of_t ml_t =
     (let logs = ct_table_log ll_t + ct_table_log of_t + ct_table_log ml_t;
          seqs = sum_list ll_count;
          bits = 1 + weigh ll_count LL_BITS + weigh ml_count ML_BITS + weigh of_count [0..<length of_count]
      in drop_bit 3 (bits + seqs * logs) + 8)"

section \<open>The accumulator\<close>

definition LOW_MASK :: "nat list" where
  "LOW_MASK = map (\<lambda>n. if n < 32 then push_bit n 1 - 1 else U32_MAX) [0..<64]"

record seq_writer =
  sw_out :: bytes
  sw_pos :: nat
  sw_acc :: u64
  sw_nbits :: nat

definition sw_add :: "nat \<Rightarrow> nat \<Rightarrow> seq_writer \<Rightarrow> seq_writer" where
  "sw_add v nb w =
     (let low = v AND LOW_MASK ! (nb AND 63)
      in w\<lparr> sw_acc := sw_acc w OR push_bit (sw_nbits w mod 64) (word_of_nat low),
           sw_nbits := (sw_nbits w + nb) mod 2 ^ 32 \<rparr>)"

definition sw_add_raw :: "nat \<Rightarrow> nat \<Rightarrow> seq_writer \<Rightarrow> seq_writer" where
  "sw_add_raw v nb w =
     w\<lparr> sw_acc := sw_acc w OR push_bit (sw_nbits w mod 64) (word_of_nat v),
       sw_nbits := (sw_nbits w + nb) mod 2 ^ 32 \<rparr>"

definition sw_flush :: "seq_writer \<Rightarrow> seq_writer res" where
  "sw_flush w =
     (case slice_get (sw_out w) (sw_pos w) (sw_pos w + 8) of
        None \<Rightarrow> Inl Corruption
      | Some _ \<Rightarrow> Inr (w\<lparr>
          sw_out := take (sw_pos w) (sw_out w) @ le_bytes 8 (unat (sw_acc w)) @ drop (sw_pos w + 8) (sw_out w),
          sw_pos := sw_pos w + drop_bit 3 (sw_nbits w),
          sw_acc := drop_bit ((sw_nbits w AND (U32_MAX - 7)) mod 64) (sw_acc w),
          sw_nbits := sw_nbits w AND 7 \<rparr>))"

definition sw_add_wide :: "nat \<Rightarrow> nat \<Rightarrow> seq_writer \<Rightarrow> seq_writer res" where
  "sw_add_wide ex ex_bits w =
     rbind (sw_flush w) (\<lambda>w.
     rbind (if 56 < ex_bits
            then rbind (sw_flush (sw_add_raw (ex AND 0xFFFFFFFF) 32 w)) (\<lambda>w. Inr (drop_bit 32 ex, ex_bits - 32, w))
            else Inr (ex, ex_bits, w)) (\<lambda>(ex, ex_bits, w).
     sw_flush (sw_add_raw ex ex_bits w)))"

section \<open>The loop\<close>

text \<open>One trip round: offset, match length and literal length step, then the extra bits.\<close>

definition esb_step :: "seq_enc \<Rightarrow> seq_enc \<Rightarrow> seq_enc \<Rightarrow> coded_seq \<Rightarrow> (nat \<times> nat \<times> nat) \<times> seq_writer \<Rightarrow>
    ((nat \<times> nat \<times> nat) \<times> seq_writer) res" where
  "esb_step ll of' ml c st =
     (case st of ((ll_s, of_s, ml_s), w) \<Rightarrow>
       let (s, nb) = se_step of' of_s (cs_ofc c); w = sw_add of_s nb w; of_s = s;
           (s, nb) = se_step ml ml_s (cs_mlc c); w = sw_add ml_s nb w; ml_s = s;
           (s, nb) = se_step ll ll_s (cs_llc c); w = sw_add ll_s nb w; ll_s = s
       in if 63 < sw_nbits w + cs_ex_bits c
          then rbind (sw_add_wide (cs_ex c) (cs_ex_bits c) w) (\<lambda>w. Inr ((ll_s, of_s, ml_s), w))
          else rbind (sw_flush (sw_add_raw (cs_ex c) (cs_ex_bits c) w)) (\<lambda>w. Inr ((ll_s, of_s, ml_s), w)))"

fun esb_loop :: "seq_enc \<Rightarrow> seq_enc \<Rightarrow> seq_enc \<Rightarrow> coded_seq list \<Rightarrow> (nat \<times> nat \<times> nat) \<times> seq_writer \<Rightarrow>
    ((nat \<times> nat \<times> nat) \<times> seq_writer) res" where
  "esb_loop ll of' ml [] st = Inr st"
| "esb_loop ll of' ml (c # cs) st = rbind (esb_step ll of' ml c st) (esb_loop ll of' ml cs)"

text \<open>The final states, the end mark and the tail byte.\<close>

definition esb_close :: "seq_enc \<Rightarrow> seq_enc \<Rightarrow> seq_enc \<Rightarrow> (nat \<times> nat \<times> nat) \<times> seq_writer \<Rightarrow> (nat \<times> bytes) res" where
  "esb_close ll of' ml st =
     (case st of ((ll_s, of_s, ml_s), w) \<Rightarrow>
       let w = sw_add ml_s (se_table_log ml) w;
           w = sw_add of_s (se_table_log of') w;
           w = sw_add ll_s (se_table_log ll) w;
           w = sw_add 1 1 w
       in rbind (sw_flush w) (\<lambda>w.
          if 0 < sw_nbits w then
            if length (sw_out w) \<le> sw_pos w then Inl Corruption
            else Inr (sw_pos w + 1, (sw_out w)[sw_pos w := word_of_nat (unat (sw_acc w))])
          else Inr (sw_pos w, sw_out w)))"

definition encode_seq_bits :: "coded_seq list \<Rightarrow> fse_ctable \<Rightarrow> fse_ctable \<Rightarrow> fse_ctable \<Rightarrow> bytes \<Rightarrow> (nat \<times> bytes) res" where
  "encode_seq_bits coded ll_t of_t ml_t out =
     (case (ct_seq_enc ll_t, ct_seq_enc of_t, ct_seq_enc ml_t) of
        (Some ll, Some of', Some ml) \<Rightarrow>
          if coded = [] then Inl Corruption
          else
            let lst = coded ! (length coded - 1); rest = butlast coded;
                ml_s = ct_init_state2 ml_t (cs_mlc lst);
                of_s = ct_init_state2 of_t (cs_ofc lst);
                ll_s = ct_init_state2 ll_t (cs_llc lst);
                w = \<lparr> sw_out = out, sw_pos = 0, sw_acc = 0, sw_nbits = 0 \<rparr>
            in rbind (sw_flush (sw_add_raw (cs_ex lst) (cs_ex_bits lst) w)) (\<lambda>w.
               rbind (esb_loop ll of' ml (rev rest) ((ll_s, of_s, ml_s), w)) (\<lambda>st.
               esb_close ll of' ml st))
      | _ \<Rightarrow> Inl Corruption)"

section \<open>The accumulator is a stack of bits\<close>

definition sw_len :: "seq_writer \<Rightarrow> nat" where
  "sw_len w = 8 * sw_pos w + sw_nbits w"

definition sw_val :: "seq_writer \<Rightarrow> nat" where
  "sw_val w = le_nat (take (sw_pos w) (sw_out w)) + 2 ^ (8 * sw_pos w) * unat (sw_acc w)"

definition sw_ok :: "seq_writer \<Rightarrow> bool" where
  "sw_ok w \<longleftrightarrow> sw_nbits w < 64 \<and> unat (sw_acc w) < 2 ^ sw_nbits w \<and> sw_pos w \<le> length (sw_out w)"

lemma sw_val_less: "sw_ok w \<Longrightarrow> sw_val w < 2 ^ sw_len w"
proof -
  assume a: "sw_ok w"
  then have "2 ^ (8 * sw_pos w) * (unat (sw_acc w) + 1) \<le> (2 :: nat) ^ (8 * sw_pos w) * 2 ^ sw_nbits w"
    by (intro mult_le_mono2) (simp add: sw_ok_def)
  moreover have "le_nat (take (sw_pos w) (sw_out w)) < 2 ^ (8 * sw_pos w)"
    using le_nat_less_pow2 [of "take (sw_pos w) (sw_out w)"] a by (simp add: sw_ok_def min_absorb2)
  ultimately show ?thesis by (simp add: sw_val_def sw_len_def power_add)
qed

lemma LOW_MASK_field: "nb < 32 \<Longrightarrow> v AND LOW_MASK ! (nb AND 63) = v mod 2 ^ nb"
  by (simp add: LOW_MASK_def push_bit_eq_mult)

definition pushed :: "nat \<Rightarrow> nat \<Rightarrow> seq_writer \<Rightarrow> seq_writer \<Rightarrow> bool" where
  "pushed v nb w w' \<longleftrightarrow> sw_ok w' \<and> sw_len w' = sw_len w + nb \<and> sw_val w' = sw_val w + 2 ^ sw_len w * v
     \<and> length (sw_out w') = length (sw_out w)"

lemma sw_add_raw_ok:
  assumes "sw_ok w" "v < 2 ^ nb" "sw_nbits w + nb \<le> 63"
  shows "pushed v nb w (sw_add_raw v nb w)" "sw_nbits (sw_add_raw v nb w) = sw_nbits w + nb"
    "sw_pos (sw_add_raw v nb w) = sw_pos w"
proof -
  have v64: "v < 2 ^ 64"
    using assms(2,3) power_increasing [of nb 64 "2 :: nat"] by linarith
  have v: "unat (word_of_nat v :: u64) = v" unfolding unat_of_nat64 using v64 by (rule mod_less)
  have n: "(sw_nbits w + nb) mod 2 ^ 32 = sw_nbits w + nb" "sw_nbits w mod 64 = sw_nbits w"
    using assms by (simp_all add: sw_ok_def)
  have a: "unat (sw_acc w OR push_bit (sw_nbits w) (word_of_nat v)) = unat (sw_acc w) + 2 ^ sw_nbits w * v"
    using unat_or_push64 [of "sw_acc w" "sw_nbits w" "word_of_nat v" nb, unfolded v] assms by (simp add: sw_ok_def)
  have "2 ^ sw_nbits w * (v + 1) \<le> 2 ^ sw_nbits w * 2 ^ nb" using assms(2) by (intro mult_le_mono2) simp
  then have lt: "unat (sw_acc w) + 2 ^ sw_nbits w * v < 2 ^ (sw_nbits w + nb)"
    using assms(1) by (simp add: sw_ok_def power_add)
  show "sw_nbits (sw_add_raw v nb w) = sw_nbits w + nb" "sw_pos (sw_add_raw v nb w) = sw_pos w"
    unfolding sw_add_raw_def n by simp_all
  show "pushed v nb w (sw_add_raw v nb w)"
    using assms lt unfolding pushed_def sw_add_raw_def n sw_ok_def sw_len_def sw_val_def
    by (simp add: a power_add distrib_left mult.assoc)
qed

lemma sw_add_eq: "nb < 32 \<Longrightarrow> sw_add v nb w = sw_add_raw (v mod 2 ^ nb) nb w"
  by (simp only: sw_add_def sw_add_raw_def LOW_MASK_field Let_def)

lemma nbits_high: "n < 64 \<Longrightarrow> (n AND (U32_MAX - 7)) mod 64 = 8 * (n div 8)"
proof -
  assume "n < 64"
  moreover have "list_all (\<lambda>n. (n AND (U32_MAX - 7)) mod 64 = 8 * (n div 8)) [0..<64]"
    by (simp add: U32_MAX_def upt_rec_numeral upt_rec [of 0 64] upt_rec [of "Suc 0" 64] flip: numeral_2_eq_2)
  ultimately show ?thesis by (simp add: list_all_iff)
qed

lemma sw_flush_ok:
  assumes "sw_ok w" "sw_pos w + 8 \<le> length (sw_out w)"
  shows "\<exists>w'. sw_flush w = Inr w' \<and> pushed 0 0 w w' \<and> sw_nbits w' < 8 \<and> sw_nbits w' = sw_nbits w mod 8"
proof -
  define q m where "q = sw_nbits w div 8" and "m = sw_nbits w mod 8"
  have bp: "sw_nbits w = 8 * q + m" "m < 8" by (simp_all add: q_def m_def)
  have q: "q < 8" using assms(1) bp by (simp add: sw_ok_def)
  define w' where "w' = w\<lparr>
      sw_out := take (sw_pos w) (sw_out w) @ le_bytes 8 (unat (sw_acc w)) @ drop (sw_pos w + 8) (sw_out w),
      sw_pos := sw_pos w + q, sw_acc := drop_bit (8 * q) (sw_acc w), sw_nbits := m \<rparr>"
  have f: "sw_flush w = Inr w'"
    using assms nbits_high [of "sw_nbits w"]
    by (simp add: sw_flush_def slice_get_def w'_def q_def m_def sw_ok_def drop_bit_eq_div)
  have len: "length (sw_out w') = length (sw_out w)" using assms(2) by (simp add: w'_def)
  have "unat (sw_acc w) < 2 ^ (8 * q) * 2 ^ m" using assms(1) bp by (simp add: sw_ok_def power_add)
  then have "unat (sw_acc w) div 2 ^ (8 * q) < 2 ^ m" by (simp add: less_mult_imp_div_less mult.commute)
  then have ok: "sw_ok w'" using assms q bp len by (simp add: sw_ok_def w'_def unat_drop_bit64)
  have tk: "take (sw_pos w') (sw_out w') = take (sw_pos w) (sw_out w) @ take q (le_bytes 8 (unat (sw_acc w)))"
    using assms(2) q by (simp add: w'_def)
  have "le_nat (take q (le_bytes 8 (unat (sw_acc w)))) = unat (sw_acc w) mod 2 ^ (8 * q)"
    using unat_u64_less [of "sw_acc w"] q by (simp add: le_nat_take pow_256 min_absorb1)
  then have "sw_val w' = le_nat (take (sw_pos w) (sw_out w)) + 2 ^ (8 * sw_pos w) * (unat (sw_acc w) mod 2 ^ (8 * q))
      + 2 ^ (8 * (sw_pos w + q)) * (unat (sw_acc w) div 2 ^ (8 * q))"
    using assms(2) unfolding sw_val_def tk by (simp add: le_nat_append pow_256 min_absorb2 w'_def unat_drop_bit64)
  also have "\<dots> = le_nat (take (sw_pos w) (sw_out w)) + 2 ^ (8 * sw_pos w) *
      (unat (sw_acc w) mod 2 ^ (8 * q) + 2 ^ (8 * q) * (unat (sw_acc w) div 2 ^ (8 * q)))"
    by (simp only: distrib_left power_add mult.assoc add.assoc)
  finally have val: "sw_val w' = sw_val w" by (simp add: sw_val_def)
  have "sw_len w' = sw_len w" using bp by (simp add: sw_len_def w'_def)
  then show ?thesis using f ok val len bp(2) by (simp add: pushed_def) (simp add: w'_def m_def)
qed

section \<open>The fields on the stack\<close>

text \<open>A stack of fields, the top first: how many bits it holds and the number they form.\<close>

definition slen :: "(nat \<times> nat) list \<Rightarrow> nat" where
  "slen fs = sum_list (map snd fs)"

fun sval :: "(nat \<times> nat) list \<Rightarrow> nat" where
  "sval [] = 0"
| "sval ((v, n) # fs) = sval fs + 2 ^ slen fs * v"

lemma slen_simps [simp]: "slen [] = 0" "slen ((v, n) # fs) = n + slen fs"
  by (simp_all add: slen_def)

definition holds :: "seq_writer \<Rightarrow> nat \<Rightarrow> (nat \<times> nat) list \<Rightarrow> bool" where
  "holds w cap fs \<longleftrightarrow> sw_ok w \<and> sw_len w = slen fs \<and> sw_val w = sval fs \<and> length (sw_out w) = cap"

lemma sval_less: "holds w cap fs \<Longrightarrow> sval fs < 2 ^ slen fs"
  using sw_val_less [of w] by (simp add: holds_def)

lemma holds_raw:
  assumes "holds w cap fs" "v < 2 ^ nb" "sw_nbits w + nb \<le> 63"
  shows "holds (sw_add_raw v nb w) cap ((v, nb) # fs)" "sw_nbits (sw_add_raw v nb w) = sw_nbits w + nb"
  using sw_add_raw_ok [of w v nb] assms by (auto simp: holds_def pushed_def)

lemma holds_add:
  assumes "holds w cap fs" "nb \<le> 9" "sw_nbits w \<le> 54"
  shows "holds (sw_add v nb w) cap ((v mod 2 ^ nb, nb) # fs)" "sw_nbits (sw_add v nb w) = sw_nbits w + nb"
  using holds_raw [OF assms(1), of "v mod 2 ^ nb" nb] assms(2,3) by (simp_all add: sw_add_eq)

lemma holds_flush:
  assumes "holds w cap fs" "slen fs div 8 + 8 \<le> cap"
  shows "\<exists>w'. sw_flush w = Inr w' \<and> holds w' cap fs \<and> sw_nbits w' < 8"
proof -
  have "8 * sw_pos w \<le> slen fs" using assms(1) by (simp add: holds_def sw_len_def)
  then have "sw_pos w \<le> slen fs div 8" by linarith
  then show ?thesis using sw_flush_ok [of w] assms by (auto simp: holds_def pushed_def)
qed

text \<open>A field in two pieces, low half first, is the same number.\<close>

lemma sval_split: "k \<le> n \<Longrightarrow> sval ((v div 2 ^ k, n - k) # (v mod 2 ^ k, k) # fs) = sval ((v, n) # fs)"
  "k \<le> n \<Longrightarrow> slen ((v div 2 ^ k, n - k) # (v mod 2 ^ k, k) # fs) = slen ((v, n) # fs)"
proof -
  have "2 ^ slen fs * (v mod 2 ^ k) + 2 ^ (k + slen fs) * (v div 2 ^ k) = 2 ^ slen fs * v"
    by (simp add: power_add mult.assoc [symmetric] mult.commute [of _ "2 ^ slen fs"] flip: distrib_left)
      (simp add: mult.assoc flip: distrib_left)
  then show "sval ((v div 2 ^ k, n - k) # (v mod 2 ^ k, k) # fs) = sval ((v, n) # fs)" by simp
qed simp

lemma holds_wide:
  assumes "holds w cap fs" "ex < 2 ^ b" "b \<le> 63" "(b + slen fs) div 8 + 8 \<le> cap"
  shows "\<exists>w'. sw_add_wide ex b w = Inr w' \<and> holds w' cap ((ex, b) # fs) \<and> sw_nbits w' < 8"
proof -
  have "slen fs div 8 \<le> (b + slen fs) div 8" by (simp add: div_le_mono)
  then obtain w1 where w1: "sw_flush w = Inr w1" "holds w1 cap fs" "sw_nbits w1 < 8"
    using holds_flush [OF assms(1)] assms(4) by (meson add_le_mono le_refl order_trans)
  show ?thesis
  proof (cases "56 < b")
    case False
    have "holds (sw_add_raw ex b w1) cap ((ex, b) # fs)"
      using holds_raw(1) [OF w1(2) assms(2)] w1(3) False by simp
    then show ?thesis using holds_flush [of "sw_add_raw ex b w1" cap "(ex, b) # fs"] assms(4) False w1(1)
      by (simp add: sw_add_wide_def)
  next
    case True
    have lo: "ex AND 0xFFFFFFFF = ex mod 2 ^ 32" using nat_and_mask [of ex 32] by simp
    define w2 where "w2 = sw_add_raw (ex mod 2 ^ 32) 32 w1"
    have w2: "holds w2 cap ((ex mod 2 ^ 32, 32) # fs)"
      unfolding w2_def by (rule holds_raw(1) [OF w1(2)]) (use w1(3) in simp_all)
    have "(32 + slen fs) div 8 \<le> (b + slen fs) div 8" using True by (intro div_le_mono) simp
    then obtain w3 where w3: "sw_flush w2 = Inr w3" "holds w3 cap ((ex mod 2 ^ 32, 32) # fs)" "sw_nbits w3 < 8"
      using holds_flush [OF w2] assms(4) by (auto dest: order_trans [rotated])
    have "(2 :: nat) ^ (b - 32) * 2 ^ 32 = 2 ^ (b - 32 + 32)" by (simp only: power_add)
    then have "ex < 2 ^ (b - 32) * 2 ^ 32" using assms(2) True by simp
    then have hi: "ex div 2 ^ 32 < 2 ^ (b - 32)" by (rule less_mult_imp_div_less)
    define w4 where "w4 = sw_add_raw (ex div 2 ^ 32) (b - 32) w3"
    have "holds w4 cap ((ex div 2 ^ 32, b - 32) # (ex mod 2 ^ 32, 32) # fs)"
      unfolding w4_def by (rule holds_raw(1) [OF w3(2) hi]) (use w3(3) assms(3) in simp)
    moreover have "32 \<le> b" using True by simp
    ultimately have w4: "holds w4 cap ((ex, b) # fs)"
      unfolding holds_def by (simp only: sval_split)
    obtain w5 where w5: "sw_flush w4 = Inr w5" "holds w5 cap ((ex, b) # fs)" "sw_nbits w5 < 8"
      using holds_flush [OF w4] assms(4) by auto
    have "sw_add_wide ex b w = Inr w5"
      using True w1(1) w3(1) w5(1) unfolding sw_add_wide_def lo w2_def w4_def by (simp add: drop_bit_eq_div)
    then show ?thesis using w5 by blast
  qed
qed

section \<open>The loop pushes the fields of the sequences\<close>

text \<open>The states and the stack of fields, coded from the last sequence to the first.\<close>

fun seq_states :: "fse_ctable \<Rightarrow> fse_ctable \<Rightarrow> fse_ctable \<Rightarrow> coded_seq list \<Rightarrow> (nat \<times> nat \<times> nat) \<times> (nat \<times> nat) list" where
  "seq_states ll of' ml [] = ((0, 0, 0), [])"
| "seq_states ll of' ml [c] =
     ((ct_init_state2 ll (cs_llc c), ct_init_state2 of' (cs_ofc c), ct_init_state2 ml (cs_mlc c)),
      [(cs_ex c, cs_ex_bits c)])"
| "seq_states ll of' ml (c # cs) =
     (let ((l, q, m), fs) = seq_states ll of' ml cs;
          (l', nl) = se_step (seq_view ll) l (cs_llc c);
          (q', nq) = se_step (seq_view of') q (cs_ofc c);
          (m', nm) = se_step (seq_view ml) m (cs_mlc c)
      in ((l', q', m'), (cs_ex c, cs_ex_bits c) # (l mod 2 ^ nl, nl) # (m mod 2 ^ nm, nm) # (q mod 2 ^ nq, nq) # fs))"

text \<open>A table of the encoder and the table the decoder builds from the same counts.\<close>

locale seq_table = fse_code log ok valid "ct_init_state2 ct" "se_step (seq_view ct)" "\<lambda>u. ft_decode dt ! u"
  for log :: nat and ok valid :: "nat \<Rightarrow> bool" and ct :: fse_ctable and dt :: fse_table +
  assumes views: "ok s \<Longrightarrow> ct_seq_enc ct = Some (seq_view ct) \<and> ct_table_log ct = log
    \<and> ft_accuracy_log dt = log \<and> length (ft_decode dt) = 2 ^ log"

interpretation norm_tab: seq_table log "seq_codable norm log t" "in_range log" t "table_of norm log"
  for norm log t
proof unfold_locales
  fix s assume "seq_codable norm log t s"
  then have c: "ct_ok norm log t" by (auto simp: seq_codable_def codable_def)
  show "ct_seq_enc t = Some (seq_view t) \<and> ct_table_log t = log
      \<and> ft_accuracy_log (table_of norm log) = log \<and> length (ft_decode (table_of norm log)) = 2 ^ log"
    using ct_seq_enc_ok [OF c] ct_okD(2) [OF c] by (simp add: table_of_simps)
qed

interpretation rle_tab: seq_table 0 "\<lambda>s. s = s0 \<and> s0 < 64" "\<lambda>x. x = 0" "ctable_rle s0" "fse_rle s0"
  for s0
  by unfold_locales
    (auto simp: ct_seq_enc_def ctable_rle_def seq_view_def fse_rle_def SEQ_DELTA_LEN_def Let_def)

text \<open>The three tables of a block.\<close>

locale seq_coder =
  ll: seq_table lg okl vl ctl dtl + of': seq_table og oko vo cto dto + ml: seq_table mg okm vm ctm dtm
  for lg okl vl ctl dtl og oko vo cto dto mg okm vm ctm dtm
begin

definition good :: "coded_seq \<Rightarrow> bool" where
  "good c \<longleftrightarrow> okl (cs_llc c) \<and> oko (cs_ofc c) \<and> okm (cs_mlc c) \<and> cs_ex c < 2 ^ cs_ex_bits c \<and> cs_ex_bits c \<le> 63"

abbreviation states :: "coded_seq list \<Rightarrow> (nat \<times> nat \<times> nat) \<times> (nat \<times> nat) list" where
  "states \<equiv> seq_states ctl cto ctm"

lemma states_valid:
  assumes "list_all good cs" "cs \<noteq> []" "states cs = ((l, q, m), fs)"
  shows "vl l \<and> vo q \<and> vm m"
  using assms
proof (induction cs arbitrary: l q m fs rule: induct_list012)
  case (2 c)
  then show ?case using ll.init_valid of'.init_valid ml.init_valid by (auto simp: good_def)
next
  case (3 c c' cs)
  obtain l1 q1 m1 fs1 where r: "states (c' # cs) = ((l1, q1, m1), fs1)" by (metis prod.exhaust)
  have v: "vl l1 \<and> vo q1 \<and> vm m1" using 3 r by auto
  then show ?case using 3(3,5) ll.step_valid of'.step_valid ml.step_valid
    by (fastforce simp: r Let_def good_def split: prod.splits)
qed simp

lemma esb_step_ok:
  assumes "list_all good (c # c' # cs)" "states (c' # cs) = ((l, q, m), fs)" "states (c # c' # cs) = (st', fs')"
    and "holds w cap fs" "sw_nbits w < 8" "slen fs' div 8 + 8 \<le> cap"
  shows "\<exists>w'. esb_step (seq_view ctl) (seq_view cto) (seq_view ctm) c ((l, q, m), w) = Inr (st', w')
    \<and> holds w' cap fs' \<and> sw_nbits w' < 8"
proof -
  have v: "vl l" "vo q" "vm m" using states_valid [OF _ _ assms(2)] assms(1) by auto
  have g: "okl (cs_llc c)" "oko (cs_ofc c)" "okm (cs_mlc c)" "cs_ex c < 2 ^ cs_ex_bits c" "cs_ex_bits c \<le> 63"
    using assms(1) by (simp_all add: good_def)
  obtain l' nl where sl: "se_step (seq_view ctl) l (cs_llc c) = (l', nl)" by fastforce
  obtain q' nq where sq: "se_step (seq_view cto) q (cs_ofc c) = (q', nq)" by fastforce
  obtain m' nm where sm: "se_step (seq_view ctm) m (cs_mlc c) = (m', nm)" by fastforce
  have n: "nl \<le> 9" "nq \<le> 9" "nm \<le> 9"
    using ll.step_bits [OF v(1) g(1)] of'.step_bits [OF v(2) g(2)] ml.step_bits [OF v(3) g(3)]
      ll.log_le [OF g(1)] of'.log_le [OF g(2)] ml.log_le [OF g(3)] by (simp_all add: sl sq sm)
  define w1 where "w1 = sw_add q nq w"
  define w2 where "w2 = sw_add m nm w1"
  define w3 where "w3 = sw_add l nl w2"
  let ?gs = "(l mod 2 ^ nl, nl) # (m mod 2 ^ nm, nm) # (q mod 2 ^ nq, nq) # fs"
  note h1 = holds_add [OF assms(4) n(2), of q, folded w1_def]
  note h2 = holds_add [OF h1(1) n(3), of m, folded w2_def]
  note h3 = holds_add [OF h2(1) n(1), of l, folded w3_def]
  have w3: "holds w3 cap ?gs" using h1 h2 h3 n assms(5) by simp
  have e: "st' = (l', q', m')" "fs' = (cs_ex c, cs_ex_bits c) # ?gs"
    using assms(3) by (simp_all add: assms(2) sl sq sm)
  have step: "esb_step (seq_view ctl) (seq_view cto) (seq_view ctm) c ((l, q, m), w) =
      (if 63 < sw_nbits w3 + cs_ex_bits c
       then rbind (sw_add_wide (cs_ex c) (cs_ex_bits c) w3) (\<lambda>w. Inr ((l', q', m'), w))
       else rbind (sw_flush (sw_add_raw (cs_ex c) (cs_ex_bits c) w3)) (\<lambda>w. Inr ((l', q', m'), w)))"
    by (simp add: esb_step_def sl sq sm w1_def w2_def w3_def)
  show ?thesis
  proof (cases "63 < sw_nbits w3 + cs_ex_bits c")
    case True
    then show ?thesis
      using holds_wide [OF w3 g(4,5)] assms(6) unfolding step e by fastforce
  next
    case False
    then show ?thesis
      using holds_flush [OF holds_raw(1) [OF w3 g(4)]] assms(6) unfolding step e by fastforce
  qed
qed

lemma slen_states: "slen (snd (states cs)) \<le> slen (snd (states (c # cs)))"
  by (cases cs) (auto simp: Let_def split: prod.splits)

lemma esb_loop_append: "esb_loop a b d (xs @ ys) st = rbind (esb_loop a b d xs st) (esb_loop a b d ys)"
  by (induction xs arbitrary: st) (auto simp: rbind_def split: sum.splits)

lemma esb_loop_ok:
  assumes "list_all good cs" "cs \<noteq> []" "states cs = (st, fs)" "slen fs div 8 + 8 \<le> cap"
    and "holds w cap [(cs_ex (last cs), cs_ex_bits (last cs))]" "sw_nbits w < 8"
  shows "\<exists>w'. esb_loop (seq_view ctl) (seq_view cto) (seq_view ctm) (rev (butlast cs))
      (fst (states [last cs]), w) = Inr (st, w') \<and> holds w' cap fs \<and> sw_nbits w' < 8"
  using assms
proof (induction cs arbitrary: st fs rule: induct_list012)
  case (2 c)
  then show ?case by auto
next
  case (3 c c' cs)
  obtain l q m fs1 where r: "states (c' # cs) = ((l, q, m), fs1)" by (metis prod.exhaust)
  have "slen fs1 \<le> slen fs" using slen_states [of "c' # cs" c] 3(5) by (simp only: r snd_conv)
  then have "slen fs1 div 8 + 8 \<le> cap" using 3(6) div_le_mono [of "slen fs1" "slen fs" 8] by linarith
  then obtain w1 where w1: "esb_loop (seq_view ctl) (seq_view cto) (seq_view ctm) (rev (butlast (c' # cs)))
      (fst (states [last (c' # cs)]), w) = Inr ((l, q, m), w1)" "holds w1 cap fs1" "sw_nbits w1 < 8"
    using 3(2) [of "(l, q, m)" fs1] 3(3) 3(7,8) r by auto
  obtain w2 where w2: "esb_step (seq_view ctl) (seq_view cto) (seq_view ctm) c ((l, q, m), w1) = Inr (st, w2)"
      "holds w2 cap fs" "sw_nbits w2 < 8"
    using esb_step_ok [OF 3(3) r 3(5) w1(2,3) 3(6)] by blast
  have "rev (butlast (c # c' # cs)) = rev (butlast (c' # cs)) @ [c]" "last (c # c' # cs) = last (c' # cs)" by simp_all
  then show ?case using w1(1) w2 by (simp only: esb_loop_append) simp
qed simp

text \<open>The whole stream: the last states on top of the fields, under the end mark.\<close>

definition stream :: "coded_seq list \<Rightarrow> (nat \<times> nat) list" where
  "stream cs = (case states cs of ((l, q, m), fs) \<Rightarrow>
     (l mod 2 ^ lg, lg) # (q mod 2 ^ og, og) # (m mod 2 ^ mg, mg) # fs)"

lemma esb_close_ok:
  assumes "holds w cap fs" "sw_nbits w < 8" "lg \<le> 9" "og \<le> 9" "mg \<le> 9"
    and F: "F = (l mod 2 ^ lg, lg) # (q mod 2 ^ og, og) # (m mod 2 ^ mg, mg) # fs" "(slen F + 1) div 8 + 8 \<le> cap"
    and logs: "se_table_log ctl' = lg" "se_table_log cto' = og" "se_table_log ctm' = mg"
  shows "\<exists>n out. esb_close ctl' cto' ctm' ((l, q, m), w) = Inr (n, out) \<and> length out = cap \<and> n \<le> cap
    \<and> n = slen F div 8 + 1 \<and> le_nat (take n out) = sval F + 2 ^ slen F \<and> sval F < 2 ^ slen F"
proof -
  define w1 where "w1 = sw_add m mg w"
  define w2 where "w2 = sw_add q og w1"
  define w3 where "w3 = sw_add l lg w2"
  define w4 where "w4 = sw_add 1 1 w3"
  note h1 = holds_add [OF assms(1,5), of m, folded w1_def]
  note h2 = holds_add [OF h1(1) assms(4), of q, folded w2_def]
  note h3 = holds_add [OF h2(1) assms(3), of l, folded w3_def]
  have w3: "holds w3 cap F" "sw_nbits w3 \<le> 34" using h1 h2 h3 assms(2-5) F(1) by simp_all
  note h4 = holds_add [OF w3(1), of 1 1, folded w4_def]
  have w4: "holds w4 cap ((1, 1) # F)" using h4(1) w3(2) by simp
  obtain w5 where w5: "sw_flush w4 = Inr w5" "holds w5 cap ((1, 1) # F)" "sw_nbits w5 < 8"
    using holds_flush [OF w4] F(2) by auto
  let ?p = "sw_pos w5" and ?nb = "sw_nbits w5" and ?o = "sw_out w5"
  have len: "8 * ?p + ?nb = slen F + 1" and val: "sw_val w5 = sval F + 2 ^ slen F"
    and ok: "sw_ok w5" and cap: "length ?o = cap"
    using w5(2) by (simp_all add: holds_def sw_len_def)
  have acc: "unat (sw_acc w5) < 2 ^ ?nb" "(2 :: nat) ^ ?nb \<le> 2 ^ 7"
    using ok w5(3) power_increasing [of ?nb 7 "2 :: nat"] by (simp_all add: sw_ok_def)
  define n where "n = (if 0 < ?nb then ?p + 1 else ?p)"
  define out where "out = (if 0 < ?nb then ?o[?p := word_of_nat (unat (sw_acc w5))] else ?o)"
  have p: "?p < cap" using len F(2) by linarith
  have "esb_close ctl' cto' ctm' ((l, q, m), w) = Inr (n, out)"
    using w5(1) p unfolding w4_def w3_def w2_def w1_def
    by (simp add: esb_close_def logs n_def out_def cap)
  moreover have "n = slen F div 8 + 1" using len w5(3) by (auto simp: n_def)
  moreover have "le_nat (take n out) = sw_val w5"
  proof (cases "?nb = 0")
    case True
    then show ?thesis using acc by (simp add: n_def out_def sw_val_def)
  next
    case False
    have "take n out = take ?p ?o @ [word_of_nat (unat (sw_acc w5))]"
      using False p cap by (simp add: n_def out_def take_Suc_conv_app_nth)
    moreover have "unat (word_of_nat (unat (sw_acc w5)) :: u8) = unat (sw_acc w5)"
      unfolding unat_word8_of_nat using acc by simp
    ultimately show ?thesis using acc p cap by (simp add: le_nat_append sw_val_def pow_256 min_absorb2)
  qed
  moreover have "n \<le> cap" "length out = cap" using p cap by (simp_all add: n_def out_def)
  ultimately show ?thesis using val sval_less [OF w3(1)] by auto
qed

lemma encode_ok:
  assumes "list_all good cs" "cs \<noteq> []" "(slen (stream cs) + 1) div 8 + 8 \<le> length out"
  shows "\<exists>n out'. encode_seq_bits cs ctl cto ctm out = Inr (n, out') \<and> length out' = length out \<and> n \<le> length out
    \<and> n = slen (stream cs) div 8 + 1 \<and> le_nat (take n out') = sval (stream cs) + 2 ^ slen (stream cs)
    \<and> sval (stream cs) < 2 ^ slen (stream cs)"
proof -
  obtain l q m fs where r: "states cs = ((l, q, m), fs)" by (metis prod.exhaust)
  have F: "stream cs = (l mod 2 ^ lg, lg) # (q mod 2 ^ og, og) # (m mod 2 ^ mg, mg) # fs"
    by (simp add: stream_def r)
  have g: "good (last cs)" using assms(1,2) by (simp add: list_all_iff)
  have ok: "okl (cs_llc (last cs))" "oko (cs_ofc (last cs))" "okm (cs_mlc (last cs))" using g by (simp_all add: good_def)
  note v = ll.views [OF ok(1)] of'.views [OF ok(2)] ml.views [OF ok(3)]
  let ?w0 = "\<lparr> sw_out = out, sw_pos = 0, sw_acc = 0, sw_nbits = 0 \<rparr>"
  let ?c = "last cs"
  have "slen (snd (states [?c])) \<le> slen fs"
  proof -
    have "cs \<noteq> [] \<Longrightarrow> slen (snd (states [last cs])) \<le> slen (snd (states cs))" for cs
      by (induction cs rule: list_nonempty_induct) (use slen_states in \<open>auto intro: order_trans simp del: seq_states.simps(2,3)\<close>)
    then show ?thesis using assms(2) r by (metis snd_conv)
  qed
  then have "cs_ex_bits ?c \<le> slen fs" "slen fs \<le> slen (stream cs) + 1" by (simp_all add: F)
  then have small: "cs_ex_bits ?c div 8 + 8 \<le> length out" "slen fs div 8 + 8 \<le> length out"
    using assms(3) div_le_mono [of "slen fs" "slen (stream cs) + 1" 8] div_le_mono [of "cs_ex_bits ?c" "slen fs" 8]
    by linarith+
  have "holds ?w0 (length out) []" by (simp add: holds_def sw_ok_def sw_len_def sw_val_def)
  then have "holds (sw_add_raw (cs_ex ?c) (cs_ex_bits ?c) ?w0) (length out) [(cs_ex ?c, cs_ex_bits ?c)]"
    using holds_raw(1) g by (simp add: good_def)
  then obtain w1 where w1: "sw_flush (sw_add_raw (cs_ex ?c) (cs_ex_bits ?c) ?w0) = Inr w1"
      "holds w1 (length out) [(cs_ex ?c, cs_ex_bits ?c)]" "sw_nbits w1 < 8"
    using holds_flush small(1) by fastforce
  obtain w2 where w2: "esb_loop (seq_view ctl) (seq_view cto) (seq_view ctm) (rev (butlast cs))
      (fst (states [?c]), w1) = Inr ((l, q, m), w2)" "holds w2 (length out) fs" "sw_nbits w2 < 8"
    using esb_loop_ok [OF assms(1,2) r small(2) w1(2,3)] by blast
  have logs: "se_table_log (seq_view ctl) = lg" "se_table_log (seq_view cto) = og" "se_table_log (seq_view ctm) = mg"
    using v by (simp_all add: seq_view_def)
  have "encode_seq_bits cs ctl cto ctm out = esb_close (seq_view ctl) (seq_view cto) (seq_view ctm) ((l, q, m), w2)"
    using v w1(1) w2(1) assms(2) by (simp add: encode_seq_bits_def last_conv_nth)
  then show ?thesis
    using esb_close_ok [OF w2(2,3) ll.log_le [OF ok(1)] of'.log_le [OF ok(2)] ml.log_le [OF ok(3)] F assms(3) logs]
    by auto
qed

lemma slen_stream:
  assumes "list_all good cs" "cs \<noteq> []"
  shows "slen (stream cs) \<le> sum_list (map cs_ex_bits cs) + length cs * (lg + og + mg)"
proof -
  have "slen (snd (states cs)) + (lg + og + mg) \<le> sum_list (map cs_ex_bits cs) + length cs * (lg + og + mg)"
    using assms
  proof (induction cs rule: induct_list012)
    case (3 c c' cs)
    obtain l q m fs where r: "states (c' # cs) = ((l, q, m), fs)" by (metis prod.exhaust)
    have v: "vl l" "vo q" "vm m" using states_valid [OF _ _ r] 3(3) by auto
    have "snd (se_step (seq_view ctl) l (cs_llc c)) \<le> lg" "snd (se_step (seq_view cto) q (cs_ofc c)) \<le> og"
      "snd (se_step (seq_view ctm) m (cs_mlc c)) \<le> mg"
      using ll.step_bits [OF v(1)] of'.step_bits [OF v(2)] ml.step_bits [OF v(3)] 3(3) by (simp_all add: good_def)
    then show ?case using 3(2,3) r by (auto simp: Let_def split: prod.splits)
  qed simp_all
  then show ?thesis by (auto simp: stream_def split: prod.splits)
qed

end

section \<open>The bound suffices\<close>

lemma weigh_sum: "weigh ns ws = (\<Sum>i < min (length ns) (length ws). ns ! i * ws ! i)"
  by (induction ns ws rule: weigh.induct) (simp_all add: sum.lessThan_Suc_shift del: sum.lessThan_Suc)

lemma sum_count: "\<forall>c \<in> set codes. c < (k :: nat) \<Longrightarrow> (\<Sum>i < k. count_list codes i * f i) = sum_list (map f codes)"
proof (induction codes)
  case (Cons c codes)
  have "(\<Sum>i < k. count_list (c # codes) i * f i) = (\<Sum>i < k. count_list codes i * f i + (if i = c then f i else 0))"
    by (intro sum.cong) auto
  also have "\<dots> = (\<Sum>i < k. count_list codes i * f i) + f c"
    using Cons.prems by (simp add: sum.distrib)
  finally show ?case using Cons by simp
qed simp

lemma weigh_histogram:
  assumes "histogram (replicate k 0) codes counts" "\<forall>c \<in> set codes. c < k" "length ws = k"
  shows "weigh counts ws = sum_list (map (\<lambda>c. ws ! c) codes)" "length counts = k"
    "sum_list counts = length codes"
proof -
  have h: "length counts = k" "\<And>i. i < k \<Longrightarrow> counts ! i = count_list codes i"
    using assms(1) by (auto simp: histogram_def)
  have "weigh counts ws = (\<Sum>i < k. count_list codes i * ws ! i)"
    unfolding weigh_sum using h assms(3) by (intro sum.cong) auto
  then show "weigh counts ws = sum_list (map (\<lambda>c. ws ! c) codes)" using sum_count [OF assms(2)] by simp
  have "sum_list counts = (\<Sum>i < k. count_list codes i * 1)"
    using h by (simp add: sum_list_sum_nth atLeast0LessThan)
  then show "sum_list counts = length codes"
    using sum_count [OF assms(2), of "\<lambda>i. 1"] by (simp add: sum_list_triv)
  show "length counts = k" by (rule h)
qed

lemma pack_bits:
  "c < 36 \<Longrightarrow> pk_bits (LL_PACK ! c) = LL_BITS ! c" "c < 53 \<Longrightarrow> pk_bits (ML_PACK ! c) = ML_BITS ! c"
  using pack_codes_nth(2) [OF LL_table_ok(1)] pack_codes_nth(2) [OF ML_table_ok(1)]
  by (simp_all add: LL_PACK_def ML_PACK_def)

lemma seq_stream_bound_eq:
  assumes "\<forall>c \<in> set coded. coded_ok c" "histogram (replicate 36 0) (map cs_llc coded) lls"
    "histogram (replicate 32 0) (map cs_ofc coded) ofs" "histogram (replicate 53 0) (map cs_mlc coded) mls"
  shows "seq_stream_bound lls ofs mls ctl cto ctm =
    (sum_list (map cs_ex_bits coded) + length coded * (ct_table_log ctl + ct_table_log cto + ct_table_log ctm) + 1) div 8 + 8"
proof -
  have c: "\<forall>c \<in> set (map cs_llc coded). c < 36" "\<forall>c \<in> set (map cs_ofc coded). c < 32" "\<forall>c \<in> set (map cs_mlc coded). c < 53"
    using assms(1) by (auto simp: coded_ok_def)
  note ll = weigh_histogram [OF assms(2) c(1), of LL_BITS]
    and of' = weigh_histogram [OF assms(3) c(2), of "[0..<32]"]
    and ml = weigh_histogram [OF assms(4) c(3), of ML_BITS]
  have "sum_list (map cs_ex_bits coded) = sum_list (map (\<lambda>c. LL_BITS ! cs_llc c + ML_BITS ! cs_mlc c + [0..<32] ! cs_ofc c) coded)"
    using assms(1) by (intro arg_cong [of _ _ sum_list] map_cong) (auto simp: coded_ok_def pack_bits)
  then show ?thesis
    using ll of' ml by (simp add: seq_stream_bound_def Let_def drop_bit_eq_div sum_list_addf comp_def algebra_simps)
qed

text \<open>The tables of one field on the two sides: built from the same normalised counts (compressed and
  predefined modes), or of a single symbol; and the symbols they can code.\<close>

inductive table_pair :: "fse_ctable \<Rightarrow> fse_table \<Rightarrow> nat set \<Rightarrow> bool" where
  built: "tbl_ok norm log \<Longrightarrow> ctable_from_norm norm log = Some (Inr ct) \<Longrightarrow> from_norm norm log = Some (Inr dt) \<Longrightarrow>
    table_pair ct dt {s. s < length norm \<and> norm ! s \<noteq> 0 \<and> s < 64}"
| single: "s < 64 \<Longrightarrow> table_pair (ctable_rle s) (fse_rle s) {s}"

inductive_cases table_pairE [elim?]: "table_pair ct dt syms"

lemma table_pair_table:
  assumes "table_pair ct dt syms"
  shows "\<exists>log valid. seq_table log (\<lambda>s. s \<in> syms) valid ct dt"
  using assms
proof cases
  case (built norm log)
  have t: "dt = table_of norm log"
    using from_norm_ok [OF tbl_okD(1-5) [OF built(2)]] built(4) by simp
  have "(\<lambda>s. s \<in> syms) = seq_codable norm log ct"
    using built by (auto simp: fun_eq_iff seq_codable_def codable_def ct_ok_def)
  then show ?thesis using norm_tab.seq_table_axioms [of log norm ct] unfolding t by metis
next
  case (single s)
  then have "(\<lambda>x. x \<in> syms) = (\<lambda>x. x = s \<and> s < 64)" by auto
  then show ?thesis using rle_tab.seq_table_axioms [of s] unfolding single by metis
qed

text \<open>The three tables of a block, all from normalised counts.\<close>

interpretation norms: seq_coder lg "seq_codable nl lg tl" "in_range lg" tl "table_of nl lg"
  og "seq_codable no og to" "in_range og" to "table_of no og" mg "seq_codable nm mg tm" "in_range mg" tm "table_of nm mg"
  for lg nl tl og no to mg nm tm
  by (intro seq_coder.intro norm_tab.seq_table_axioms)

definition seqs_codable :: "nat set \<Rightarrow> nat set \<Rightarrow> nat set \<Rightarrow> coded_seq list \<Rightarrow> bool" where
  "seqs_codable sl so sm coded \<longleftrightarrow> coded \<noteq> []
     \<and> list_all (\<lambda>c. coded_ok c \<and> cs_llc c \<in> sl \<and> cs_ofc c \<in> so \<and> cs_mlc c \<in> sm) coded"

definition seq_counts :: "coded_seq list \<Rightarrow> nat list \<Rightarrow> nat list \<Rightarrow> nat list \<Rightarrow> bool" where
  "seq_counts coded lls ofs mls \<longleftrightarrow> histogram (replicate 36 0) (map cs_llc coded) lls
     \<and> histogram (replicate 32 0) (map cs_ofc coded) ofs \<and> histogram (replicate 53 0) (map cs_mlc coded) mls"

text \<open>Encoding with the three tables of a block, in the abstract coder they give.\<close>

lemma encode_seq_bits_stream:
  assumes "table_pair ctl dtl sl" "table_pair cto dto so" "table_pair ctm dtm sm"
    "seqs_codable sl so sm coded" "seq_counts coded lls ofs mls"
    "seq_stream_bound lls ofs mls ctl cto ctm \<le> length out"
  obtains lg vl og vo mg vm n out' where
    "seq_coder lg (\<lambda>s. s \<in> sl) vl ctl dtl og (\<lambda>s. s \<in> so) vo cto dto mg (\<lambda>s. s \<in> sm) vm ctm dtm"
    "list_all (seq_coder.good (\<lambda>s. s \<in> sl) (\<lambda>s. s \<in> so) (\<lambda>s. s \<in> sm)) coded"
    "encode_seq_bits coded ctl cto ctm out = Inr (n, out')" "length out' = length out"
    "n + 7 \<le> seq_stream_bound lls ofs mls ctl cto ctm"
    "n = slen (seq_coder.stream lg ctl og cto mg ctm coded) div 8 + 1"
    "le_nat (take n out') = sval (seq_coder.stream lg ctl og cto mg ctm coded)
       + 2 ^ slen (seq_coder.stream lg ctl og cto mg ctm coded)"
    "sval (seq_coder.stream lg ctl og cto mg ctm coded) < 2 ^ slen (seq_coder.stream lg ctl og cto mg ctm coded)"
proof -
  obtain lg vl og vo mg vm where t: "seq_table lg (\<lambda>s. s \<in> sl) vl ctl dtl" "seq_table og (\<lambda>s. s \<in> so) vo cto dto"
      "seq_table mg (\<lambda>s. s \<in> sm) vm ctm dtm"
    using table_pair_table assms(1-3) by meson
  note sc = seq_coder.intro [OF t]
  have ne: "coded \<noteq> []" using assms(4) by (simp add: seqs_codable_def)
  have good: "list_all (seq_coder.good (\<lambda>s. s \<in> sl) (\<lambda>s. s \<in> so) (\<lambda>s. s \<in> sm)) coded"
    using assms(4) by (auto simp: seqs_codable_def seq_coder.good_def [OF sc] list_all_iff coded_ok_def)
  have ok: "\<forall>c \<in> set coded. coded_ok c" "cs_llc (hd coded) \<in> sl" "cs_ofc (hd coded) \<in> so" "cs_mlc (hd coded) \<in> sm"
    using assms(4) by (auto simp: seqs_codable_def list_all_iff)
  have logs: "ct_table_log ctl = lg" "ct_table_log cto = og" "ct_table_log ctm = mg"
    using seq_table.views [OF t(1) ok(2)] seq_table.views [OF t(2) ok(3)] seq_table.views [OF t(3) ok(4)] by simp_all
  let ?F = "seq_coder.stream lg ctl og cto mg ctm coded"
  let ?T = "sum_list (map cs_ex_bits coded) + length coded * (lg + og + mg)"
  have len: "slen ?F \<le> ?T" by (rule seq_coder.slen_stream [OF sc good ne])
  have bound: "seq_stream_bound lls ofs mls ctl cto ctm = (?T + 1) div 8 + 8"
    using seq_stream_bound_eq [OF ok(1)] assms(5) by (simp add: seq_counts_def logs)
  have le: "(slen ?F + 1) div 8 + 8 \<le> (?T + 1) div 8 + 8" using len by (simp add: div_le_mono)
  then have "(slen ?F + 1) div 8 + 8 \<le> length out" using assms(6) bound by linarith
  from seq_coder.encode_ok [OF sc good ne this] obtain n out' where
    r: "encode_seq_bits coded ctl cto ctm out = Inr (n, out')" "length out' = length out" "n = slen ?F div 8 + 1"
      "le_nat (take n out') = sval ?F + 2 ^ slen ?F" "sval ?F < 2 ^ slen ?F" by blast
  have "slen ?F div 8 \<le> (slen ?F + 1) div 8" by (rule div_le_mono) simp
  then have "n + 7 \<le> seq_stream_bound lls ofs mls ctl cto ctm" using r(3) bound le by linarith
  then show ?thesis using that [OF sc good r(1,2) _ r(3,4,5)] by blast
qed

text \<open>The predefined tables code every literal length and match length code, and offset codes up to 28.\<close>

lemma default_pairs:
  "\<exists>ct. table_pair ct (table_of DEFAULT_LL_NORM 6) {..<36}"
  "\<exists>ct. table_pair ct (table_of DEFAULT_OF_NORM 5) {..<29}"
  "\<exists>ct. table_pair ct (table_of DEFAULT_ML_NORM 6) {..<53}"
proof -
  have *: "\<exists>ct. table_pair ct (table_of n k) {..<length n}"
    if "norm_ok k n" "5 \<le> k" "k \<le> 9" "length n \<le> 64" "\<not> list_all (\<lambda>p. p \<le> 0) n" "list_all (\<lambda>p. p \<noteq> 0) n" for n k
  proof -
    have "length n \<le> 256" using that(4) by simp
    from ct_ok_ex [OF that(1-3) this that(5)] obtain ct where "ct_ok n k ct" "from_norm n k = Some (Inr (table_of n k))" by blast
    then have "table_pair ct (table_of n k) {s. s < length n \<and> n ! s \<noteq> 0 \<and> s < 64}"
      by (intro table_pair.built) (auto simp: ct_ok_def)
    moreover have "{s. s < length n \<and> n ! s \<noteq> 0 \<and> s < 64} = {..<length n}"
      using that(4,6) by (auto simp: list_all_length)
    ultimately show ?thesis by auto
  qed
  note d = default_norms_ok
  show "\<exists>ct. table_pair ct (table_of DEFAULT_LL_NORM 6) {..<36}"
    using * [OF d(1) _ _ _ d(4)] by (simp add: d(7)) (simp add: DEFAULT_LL_NORM_def)
  show "\<exists>ct. table_pair ct (table_of DEFAULT_OF_NORM 5) {..<29}"
    using * [OF d(3) _ _ _ d(6)] by (simp add: d(9)) (simp add: DEFAULT_OF_NORM_def)
  show "\<exists>ct. table_pair ct (table_of DEFAULT_ML_NORM 6) {..<53}"
    using * [OF d(2) _ _ _ d(5)] by (simp add: d(8)) (simp add: DEFAULT_ML_NORM_def)
qed

lemma PACK_bounds:
  "list_all (\<lambda>w. pk_bits w \<le> 16 \<and> pk_base w + 2 ^ pk_bits w \<le> 131072) LL_PACK"
  "list_all (\<lambda>w. pk_bits w \<le> 16 \<and> 3 \<le> pk_base w \<and> pk_base w + 2 ^ pk_bits w \<le> 131075) ML_PACK"
  "length LL_PACK = 36" "length ML_PACK = 53" "length OF_PACK = 32"
  by (simp_all add: LL_PACK_def ML_PACK_def OF_PACK_def pack_codes_def LL_BASE_def LL_BITS_def ML_BASE_def ML_BITS_def
      pk_bits_def pk_base_def drop_bit_eq_div push_bit_eq_mult)

definition sample_seq :: seq where
  "sample_seq = \<lparr> sq_litlen = 5, sq_matchlen = 40, sq_offset = 100 \<rparr>"

lemma sample_seq_codable:
  assumes "build_coded_pass lut [sample_seq] (1, 4, 8) = ((coded, lls, ofs, mls, of_max), reps')"
  shows "seqs_codable {..<36} {..<29} {..<53} coded" "list_all (\<lambda>c. cs_ex_bits c \<le> 57) coded"
    "seq_counts coded lls ofs mls" "seq_valid sample_seq" "reps_ok (1, 4, 8)"
proof -
  show v: "seq_valid sample_seq" "reps_ok (1, 4, 8)" by (simp_all add: sample_seq_def seq_valid_def U32_MAX_def reps_ok_def)
  have cp: "\<forall>c \<in> set coded. coded_ok c" "seq_counts coded lls ofs mls"
    using coded_pass_decodes' [OF _ v(2) assms] v(1) by (auto simp: seq_counts_def)
  then show "seq_counts coded lls ofs mls" by simp
  obtain c r where c: "code_seq lut sample_seq (1, 4, 8) = (c, r)" by (rule prod.exhaust)
  have "highbit 103 = 6" by (rule highbit_eqI) simp_all
  then have o: "cs_ofc c = 6"
    using arg_cong [OF c, of "\<lambda>p. cs_ofc (fst p)"]
    by (simp add: code_seq_def sample_seq_def Let_def sat_add_def U32_MAX_def of_code_nb_def split_def)
  have e: "coded = [c]" using assms c by (auto simp: build_coded_pass_def Let_def split: prod.splits)
  have k: "coded_ok c" using cp(1) e by simp
  then have "cs_ex_bits c \<le> 57"
    using PACK_bounds(1,2) o by (fastforce simp: coded_ok_def list_all_length PACK_bounds(3,4))
  then show "seqs_codable {..<36} {..<29} {..<53} coded" "list_all (\<lambda>c. cs_ex_bits c \<le> 57) coded"
    using k o unfolding e seqs_codable_def by (auto simp: coded_ok_def)
qed

text \<open>The slice the encoder sizes from the three histograms is always big enough: the loop never
  fails on a block whose codes its tables can code, and ends at least 7 bytes before the end of the
  bound, so the last 8-byte store fits.\<close>

theorem seq_stream_bound_suffices:
  assumes "table_pair ctl dtl sl" "table_pair cto dto so" "table_pair ctm dtm sm"
    "seqs_codable sl so sm coded" "seq_counts coded lls ofs mls"
    "seq_stream_bound lls ofs mls ctl cto ctm \<le> length out"
  shows "\<exists>n out'. encode_seq_bits coded ctl cto ctm out = Inr (n, out') \<and> length out' = length out
    \<and> n + 7 \<le> seq_stream_bound lls ofs mls ctl cto ctm"
  by (rule encode_seq_bits_stream [OF assms]) blast

theorem seq_stream_bound_suffices_witness:
  "\<exists>ctl cto ctm coded lls ofs mls of_max reps' n out'.
     build_coded_pass True [sample_seq] (1, 4, 8) = ((coded, lls, ofs, mls, of_max), reps')
     \<and> encode_seq_bits coded ctl cto ctm (replicate (seq_stream_bound lls ofs mls ctl cto ctm) 0) = Inr (n, out')"
proof -
  obtain ctl cto ctm where t: "table_pair ctl (table_of DEFAULT_LL_NORM 6) {..<36}"
      "table_pair cto (table_of DEFAULT_OF_NORM 5) {..<29}" "table_pair ctm (table_of DEFAULT_ML_NORM 6) {..<53}"
    using default_pairs by blast
  obtain coded lls ofs mls of_max reps' where
    b: "build_coded_pass True [sample_seq] (1, 4, 8) = ((coded, lls, ofs, mls, of_max), reps')" by (metis prod.exhaust)
  note s = sample_seq_codable [OF b]
  let ?out = "replicate (seq_stream_bound lls ofs mls ctl cto ctm) 0"
  have "seq_stream_bound lls ofs mls ctl cto ctm \<le> length ?out" by simp
  from seq_stream_bound_suffices [OF t s(1,3) this] show ?thesis using b by blast
qed

end
