(* ===== verification/Seq_Reader.thy ===== *)
theory Seq_Reader
  imports Seq_Writer
begin

text \<open>
  The sequence section's bit stream on the decoder's side (\<^verbatim>\<open>compressed.rs\<close>): the three states,
  the unmasked packed table loads, the extra bits and the step to the next states, for one sequence
  and for the whole section. An unchecked load outside its table has no value (\<open>None\<close>).

  Well-formed tables never reach such a load, whatever the bits; and the section the encoder wrote
  decodes to the sequences that were coded, with the reader exactly at the start of the stream.
\<close>

section \<open>One sequence\<close>

record seq_tabs =
  tb_ll :: fse_table
  tb_of :: fse_table
  tb_ml :: fse_table

type_synonym seq_states = "nat \<times> nat \<times> nat"

definition seq_init :: "seq_tabs \<Rightarrow> bitrev \<Rightarrow> seq_states \<times> bitrev" where
  "seq_init t br =
     (let (ll_s, br) = fse_init_state (tb_ll t) br;
          (of_s, br) = fse_init_state (tb_of t) br;
          (ml_s, br) = fse_init_state (tb_ml t) br
      in ((ll_s, of_s, ml_s), br))"

definition seq_fetch :: "bool \<Rightarrow> seq_tabs \<Rightarrow> seq_states \<Rightarrow> bitrev \<Rightarrow>
    ((nat \<times> nat \<times> nat) \<times> (nat \<times> nat \<times> nat) \<times> bitrev) res option" where
  "seq_fetch seqcheck t st br =
     (case st of (ll_s, of_s, ml_s) \<Rightarrow>
       let br = br_try_reload br
       in Option.bind (fse_entry_u32 (tb_ll t) ll_s) (\<lambda>ll_w.
          Option.bind (fse_entry_u32 (tb_of t) of_s) (\<lambda>of_w.
          Option.bind (fse_entry_u32 (tb_ml t) ml_s) (\<lambda>ml_w.
            let ll_code = fse_symbol ll_w; of_code = fse_symbol of_w; ml_code = fse_symbol ml_w
            in if \<not> seqcheck \<and> (35 < ll_code \<or> 52 < ml_code \<or> 31 < of_code) then Some (Inl Corruption)
               else
                 let (offset_add, br) = br_read of_code br
                 in Option.bind (get_unchecked LL_PACK ll_code) (\<lambda>ll_w2.
                    Option.bind (get_unchecked ML_PACK ml_code) (\<lambda>ml_w2.
                      let (ml_add, br) = br_read (pk_bits ml_w2) br;
                          (ll_add, br) = br_read (pk_bits ll_w2) br;
                          litlen = pk_base ll_w2 + ll_add;
                          matchlen = pk_base ml_w2 + ml_add
                      in Option.bind (get_unchecked OF_PACK of_code) (\<lambda>b.
                           let offset_value = b + offset_add
                           in Some (Inr ((ll_w, of_w, ml_w), (litlen, matchlen, offset_value), br)))))))))"

definition seq_advance :: "nat \<times> nat \<times> nat \<Rightarrow> bitrev \<Rightarrow> seq_states \<times> bitrev" where
  "seq_advance ws br =
     (case ws of (ll_w, of_w, ml_w) \<Rightarrow>
       let br = br_try_reload br;
           (ll_s, br) = fse_advance_w ll_w br;
           (ml_s, br) = fse_advance_w ml_w br;
           (of_s, br) = fse_advance_w of_w br
       in ((ll_s, of_s, ml_s), br))"

text \<open>\<^verbatim>\<open>decode_one!\<close>: fetch, resolve the offset, and step the states unless this was the last.\<close>

record seq_cursor =
  sc_states :: seq_states
  sc_br :: bitrev
  sc_reps :: reps

definition seq_decode_one :: "bool \<Rightarrow> seq_tabs \<Rightarrow> bool \<Rightarrow> seq_cursor \<Rightarrow> (seq \<times> seq_cursor) res option" where
  "seq_decode_one seqcheck t nxt cur =
     Option.bind (seq_fetch seqcheck t (sc_states cur) (sc_br cur)) (\<lambda>r.
       Some (rbind r (\<lambda>(ws, (litlen, matchlen, offset_value), br).
         rbind (resolve_offset offset_value litlen (sc_reps cur)) (\<lambda>(offset, reps).
         let (st, br) = (if nxt then seq_advance ws br else (sc_states cur, br))
         in Inr (\<lparr> sq_litlen = litlen, sq_matchlen = matchlen, sq_offset = offset \<rparr>,
                 \<lparr> sc_states = st, sc_br = br, sc_reps = reps \<rparr>)))))"

text \<open>All sequences of a section, none executed.\<close>

fun seq_decode_all :: "bool \<Rightarrow> seq_tabs \<Rightarrow> nat \<Rightarrow> seq_cursor \<Rightarrow> (seq list \<times> seq_cursor) res option" where
  "seq_decode_all seqcheck t 0 cur = Some (Inr ([], cur))"
| "seq_decode_all seqcheck t (Suc n) cur =
     Option.bind (seq_decode_one seqcheck t (n \<noteq> 0) cur) (\<lambda>r.
       case r of
         Inl e \<Rightarrow> Some (Inl e)
       | Inr (s, cur) \<Rightarrow>
           Option.bind (seq_decode_all seqcheck t n cur) (\<lambda>r.
             Some (rbind r (\<lambda>(ss, cur). Inr (s # ss, cur)))))"

lemma seq_decode_all_step:
  "seq_decode_one seqcheck t (n \<noteq> 0) cur = Some (Inr (s, cur1)) \<Longrightarrow>
   seq_decode_all seqcheck t n cur1 = Some (Inr (ss, cur2)) \<Longrightarrow>
   seq_decode_all seqcheck t (Suc n) cur = Some (Inr (s # ss, cur2))"
  by simp

section \<open>Well-formed tables are never left\<close>

definition tabs_wf :: "seq_tabs \<Rightarrow> bool" where
  "tabs_wf t \<longleftrightarrow> table_wf 35 (tb_ll t) \<and> table_wf 31 (tb_of t) \<and> table_wf 52 (tb_ml t)"

definition states_wf :: "seq_tabs \<Rightarrow> seq_states \<Rightarrow> bool" where
  "states_wf t st \<longleftrightarrow> (case st of (l, q, m) \<Rightarrow> l < 2 ^ ft_accuracy_log (tb_ll t)
     \<and> q < 2 ^ ft_accuracy_log (tb_of t) \<and> m < 2 ^ ft_accuracy_log (tb_ml t))"

lemma br_read_less: "n \<le> 32 \<Longrightarrow> fst (br_read n br) < 2 ^ n"
proof -
  assume n: "n \<le> 32"
  have "unat (drop_bit (64 - n) (br_container br)) < 2 ^ n" if "n \<noteq> 0"
  proof -
    have "unat (br_container br) < 2 ^ n * 2 ^ (64 - n)"
      using unat_u64_less [of "br_container br"] n by (simp flip: power_add)
    then show ?thesis by (simp add: unat_drop_bit64 less_mult_imp_div_less)
  qed
  then show ?thesis by (auto simp: br_read_def br_look_fast_def intro: le_less_trans [OF mod_less_eq_dividend])
qed

lemma advance_w_less:
  assumes "fse_baseline w + 2 ^ fse_nbits w \<le> 2 ^ log" "fse_nbits w \<le> 9" "log \<le> 9"
  shows "fst (fse_advance_w w br) < 2 ^ log"
proof -
  obtain v br' where v: "br_read (fse_nbits w) br = (v, br')" by fastforce
  have "v < 2 ^ fse_nbits w" using br_read_less [of "fse_nbits w" br] assms(2) by (simp add: v)
  then have "(fse_baseline w + v mod 65536) mod 65536 < 2 ^ log"
    using assms(1) mod_less_eq_dividend [of v 65536] mod_less_eq_dividend [of "fse_baseline w + v mod 65536" 65536]
    by linarith
  then show ?thesis by (simp add: fse_advance_w_def v)
qed

lemma init_state_less: "ft_accuracy_log t \<le> 9 \<Longrightarrow> fst (fse_init_state t br) < 2 ^ ft_accuracy_log t"
  using br_read_less [of "ft_accuracy_log t" br]
  by (auto simp: fse_init_state_def Let_def split: prod.splits intro: le_less_trans [OF mod_less_eq_dividend])

lemma seq_init_wf: "tabs_wf t \<Longrightarrow> states_wf t (fst (seq_init t br))"
  using init_state_less [of "tb_ll t"] init_state_less [of "tb_of t"] init_state_less [of "tb_ml t"]
  by (fastforce simp: seq_init_def Let_def states_wf_def tabs_wf_def table_wf_def split: prod.splits dest: arg_cong [of _ _ fst])

lemma seq_advance_wf:
  assumes "tabs_wf t" "states_wf t st" "st = (l, q, m)"
    "fse_entry_u32 (tb_ll t) l = Some lw" "fse_entry_u32 (tb_of t) q = Some qw" "fse_entry_u32 (tb_ml t) m = Some mw"
  shows "states_wf t (fst (seq_advance (lw, qw, mw) br))"
proof -
  have w: "table_wf 35 (tb_ll t)" "table_wf 31 (tb_of t)" "table_wf 52 (tb_ml t)" using assms(1) by (simp_all add: tabs_wf_def)
  have s: "l < 2 ^ ft_accuracy_log (tb_ll t)" "q < 2 ^ ft_accuracy_log (tb_of t)" "m < 2 ^ ft_accuracy_log (tb_ml t)"
    using assms(2,3) by (simp_all add: states_wf_def)
  have step: "fst (fse_advance_w w' br') < 2 ^ ft_accuracy_log t'"
    if "table_wf k t'" "u < 2 ^ ft_accuracy_log t'" "k < 256" "fse_entry_u32 t' u = Some w'" for k t' u w' br'
    by (rule table_wf_entry [OF that(1-3)], rule advance_w_less)
      (use that in \<open>auto simp: table_wf_def\<close>)
  show ?thesis
    using step [OF w(1) s(1) _ assms(4)] step [OF w(2) s(2) _ assms(5)] step [OF w(3) s(3) _ assms(6)]
    by (simp add: seq_advance_def Let_def states_wf_def split_def)
qed

definition seq_bounded :: "seq \<Rightarrow> bool" where
  "seq_bounded s \<longleftrightarrow> sq_litlen s < 131072 \<and> 3 \<le> sq_matchlen s \<and> sq_matchlen s < 131075 \<and> sq_offset s < 2 ^ 32"

lemma resolve_reps_ok:
  assumes "resolve_offset ov n reps = Inr (off, reps')" "ov < 2 ^ 32" "reps_ok reps"
  shows "off < 2 ^ 32 \<and> reps_ok reps'"
  using assms by (cases reps) (auto simp: reps_ok_def Let_def split: if_splits)

text \<open>The words of the three entries, when the tables and the states are well formed.\<close>

lemma seq_words:
  assumes "tabs_wf t" "states_wf t (l, q, m)"
  obtains lw qw mw where "fse_entry_u32 (tb_ll t) l = Some lw" "fse_entry_u32 (tb_of t) q = Some qw"
    "fse_entry_u32 (tb_ml t) m = Some mw"
    "fse_symbol lw = fe_symbol (ft_decode (tb_ll t) ! l)" "fse_symbol qw = fe_symbol (ft_decode (tb_of t) ! q)"
    "fse_symbol mw = fe_symbol (ft_decode (tb_ml t) ! m)"
    "fse_symbol lw \<le> 35" "fse_symbol qw \<le> 31" "fse_symbol mw \<le> 52"
    "fse_nbits lw = fe_num_bits (ft_decode (tb_ll t) ! l)" "fse_baseline lw = fe_baseline (ft_decode (tb_ll t) ! l)"
    "fse_nbits qw = fe_num_bits (ft_decode (tb_of t) ! q)" "fse_baseline qw = fe_baseline (ft_decode (tb_of t) ! q)"
    "fse_nbits mw = fe_num_bits (ft_decode (tb_ml t) ! m)" "fse_baseline mw = fe_baseline (ft_decode (tb_ml t) ! m)"
proof -
  have w: "table_wf 35 (tb_ll t)" "table_wf 31 (tb_of t)" "table_wf 52 (tb_ml t)" using assms(1) by (simp_all add: tabs_wf_def)
  have s: "l < 2 ^ ft_accuracy_log (tb_ll t)" "q < 2 ^ ft_accuracy_log (tb_of t)" "m < 2 ^ ft_accuracy_log (tb_ml t)"
    using assms(2) by (simp_all add: states_wf_def)
  show ?thesis
    by (rule table_wf_entry [OF w(1) s(1)], simp, rule table_wf_entry [OF w(2) s(2)], simp,
        rule table_wf_entry [OF w(3) s(3)], simp, rule that) simp_all
qed

lemma seq_fetch_eq:
  assumes "fse_entry_u32 (tb_ll t) l = Some lw" "fse_entry_u32 (tb_of t) q = Some qw" "fse_entry_u32 (tb_ml t) m = Some mw"
    "fse_symbol lw = llc" "fse_symbol qw = ofc" "fse_symbol mw = mlc" "llc \<le> 35" "ofc \<le> 31" "mlc \<le> 52"
    "br_read ofc (br_try_reload br) = (oa, br1)" "br_read (pk_bits (ML_PACK ! mlc)) br1 = (ma, br2)"
    "br_read (pk_bits (LL_PACK ! llc)) br2 = (la, br3)"
  shows "seq_fetch seqcheck t (l, q, m) br = Some (Inr ((lw, qw, mw),
    (pk_base (LL_PACK ! llc) + la, pk_base (ML_PACK ! mlc) + ma, OF_PACK ! ofc + oa), br3))"
proof -
  have "get_unchecked LL_PACK llc = Some (LL_PACK ! llc)" "get_unchecked ML_PACK mlc = Some (ML_PACK ! mlc)"
    "get_unchecked OF_PACK ofc = Some (OF_PACK ! ofc)"
    using assms(7-9) by (simp_all add: get_unchecked_def PACK_bounds)
  then show ?thesis using assms by (simp add: seq_fetch_def Let_def)
qed

lemma seq_fetch_safe:
  assumes "tabs_wf t" "states_wf t st"
  obtains ws l m ov br' where "seq_fetch seqcheck t st br = Some (Inr (ws, (l, m, ov), br'))" "ov < 2 ^ 32"
    "\<And>b. states_wf t (fst (seq_advance ws b))"
    "\<And>off. off < 2 ^ 32 \<Longrightarrow> seq_bounded \<lparr> sq_litlen = l, sq_matchlen = m, sq_offset = off \<rparr>"
proof -
  obtain l q m where st: "st = (l, q, m)" by (metis prod.exhaust)
  obtain lw qw mw where w: "fse_entry_u32 (tb_ll t) l = Some lw" "fse_entry_u32 (tb_of t) q = Some qw"
      "fse_entry_u32 (tb_ml t) m = Some mw" "fse_symbol lw \<le> 35" "fse_symbol qw \<le> 31" "fse_symbol mw \<le> 52"
    using seq_words [OF assms(1) assms(2) [unfolded st]] by metis
  obtain oa br1 where oa: "br_read (fse_symbol qw) (br_try_reload br) = (oa, br1)" by fastforce
  obtain ma br2 where ma: "br_read (pk_bits (ML_PACK ! fse_symbol mw)) br1 = (ma, br2)" by fastforce
  obtain la br3 where la: "br_read (pk_bits (LL_PACK ! fse_symbol lw)) br2 = (la, br3)" by fastforce
  note f = seq_fetch_eq [OF w(1-3) refl refl refl w(4-6) oa ma la, of seqcheck, folded st]
  have p: "pk_bits (LL_PACK ! fse_symbol lw) \<le> 16" "pk_base (LL_PACK ! fse_symbol lw) + 2 ^ pk_bits (LL_PACK ! fse_symbol lw) \<le> 131072"
    "pk_bits (ML_PACK ! fse_symbol mw) \<le> 16" "3 \<le> pk_base (ML_PACK ! fse_symbol mw)"
    "pk_base (ML_PACK ! fse_symbol mw) + 2 ^ pk_bits (ML_PACK ! fse_symbol mw) \<le> 131075"
    using PACK_bounds w(4,6) by (auto simp: list_all_length)
  have v: "oa < 2 ^ fse_symbol qw" "ma < 2 ^ pk_bits (ML_PACK ! fse_symbol mw)" "la < 2 ^ pk_bits (LL_PACK ! fse_symbol lw)"
    using br_read_less [of "fse_symbol qw" "br_try_reload br"] br_read_less [of "pk_bits (ML_PACK ! fse_symbol mw)" br1]
      br_read_less [of "pk_bits (LL_PACK ! fse_symbol lw)" br2] p w(5) by (simp_all add: oa ma la)
  have "OF_PACK ! fse_symbol qw + oa < 2 * 2 ^ fse_symbol qw" using v(1) w(5) by (simp add: OF_PACK_nth)
  also have "2 * 2 ^ fse_symbol qw \<le> (2 :: nat) ^ 32" using w(5) power_increasing [of "Suc (fse_symbol qw)" 32 "2 :: nat"] by simp
  finally have ov: "OF_PACK ! fse_symbol qw + oa < 2 ^ 32" .
  show ?thesis
    by (rule that [OF f ov]) (use seq_advance_wf [OF assms st w(1-3)] v(2,3) p in \<open>simp_all add: seq_bounded_def\<close>)
qed

lemma resolve_corrupt: "resolve_offset ov n reps = Inl e \<Longrightarrow> e = Corruption"
  by (cases reps) (auto simp: Let_def split: if_splits)

lemma seq_decode_one_safe:
  assumes "tabs_wf t" "states_wf t (sc_states cur)" "reps_ok (sc_reps cur)"
  shows "case seq_decode_one seqcheck t nxt cur of
      None \<Rightarrow> False
    | Some (Inl e) \<Rightarrow> e = Corruption
    | Some (Inr (s, cur')) \<Rightarrow> seq_bounded s \<and> states_wf t (sc_states cur') \<and> reps_ok (sc_reps cur')"
proof -
  obtain ws l m ov br' where f: "seq_fetch seqcheck t (sc_states cur) (sc_br cur) = Some (Inr (ws, (l, m, ov), br'))" "ov < 2 ^ 32"
    "\<And>b. states_wf t (fst (seq_advance ws b))"
    "\<And>off. off < 2 ^ 32 \<Longrightarrow> seq_bounded \<lparr> sq_litlen = l, sq_matchlen = m, sq_offset = off \<rparr>"
    by (rule seq_fetch_safe [OF assms(1,2), where seqcheck = seqcheck and br = "sc_br cur"]) (rule that)
  show ?thesis
  proof (cases "resolve_offset ov l (sc_reps cur)")
    case (Inl e)
    then show ?thesis using resolve_corrupt [OF Inl] by (simp add: seq_decode_one_def f(1))
  next
    case (Inr offr)
    obtain off reps' where o: "offr = (off, reps')" by (rule prod.exhaust)
    then show ?thesis
      using Inr resolve_reps_ok [OF Inr [unfolded o] f(2) assms(3)] f(3,4) assms(2)
      by (auto simp: seq_decode_one_def f(1) split_def Let_def)
  qed
qed

lemma seq_decode_all_safe:
  assumes "tabs_wf t" "states_wf t (sc_states cur)" "reps_ok (sc_reps cur)"
  shows "case seq_decode_all seqcheck t n cur of
      None \<Rightarrow> False
    | Some (Inl e) \<Rightarrow> e = Corruption
    | Some (Inr (ss, cur')) \<Rightarrow> length ss = n \<and> list_all seq_bounded ss \<and> reps_ok (sc_reps cur')"
  using assms
proof (induction n arbitrary: cur)
  case (Suc n)
  note one = seq_decode_one_safe [OF Suc.prems, of seqcheck "n \<noteq> 0"]
  show ?case
  proof (cases "seq_decode_one seqcheck t (n \<noteq> 0) cur")
    case None
    then show ?thesis using one by simp
  next
    case (Some r)
    show ?thesis
    proof (cases r)
      case (Inl e)
      then show ?thesis using one Some by simp
    next
      case (Inr sc)
      obtain s cur1 where sc: "sc = (s, cur1)" by (rule prod.exhaust)
      have o: "seq_bounded s" "states_wf t (sc_states cur1)" "reps_ok (sc_reps cur1)"
        using one Some Inr sc by simp_all
      show ?thesis
        using Suc.IH [OF Suc.prems(1) o(2,3)] o(1) Some Inr sc
        by (cases "seq_decode_all seqcheck t n cur1") (auto split: sum.splits prod.splits simp: rbind_def)
    qed
  qed
qed simp

section \<open>The reader follows the stack of fields\<close>

definition reads :: "bitrev \<Rightarrow> (nat \<times> nat) list \<Rightarrow> bool" where
  "reads br fs \<longleftrightarrow> br_ok br \<and> br_rem br = slen fs \<and> br_val br = sval fs"

definition fields_ok :: "(nat \<times> nat) list \<Rightarrow> bool" where
  "fields_ok fs \<longleftrightarrow> list_all (\<lambda>(v, n). v < 2 ^ n) fs"

lemma fields_ok_simps [simp]: "fields_ok []" "fields_ok ((v, n) # fs) \<longleftrightarrow> v < 2 ^ n \<and> fields_ok fs"
  by (simp_all add: fields_ok_def)

lemma fields_ok_less: "fields_ok fs \<Longrightarrow> sval fs < 2 ^ slen fs"
proof (induction fs rule: sval.induct)
  case (2 v n fs)
  then have "sval fs < 2 ^ slen fs" "v + 1 \<le> 2 ^ n" by simp_all
  moreover have "2 ^ slen fs * (v + 1) \<le> 2 ^ slen fs * 2 ^ n" using 2(2) by (intro mult_le_mono2) simp
  ultimately show ?case by (simp add: power_add mult.commute)
qed simp

lemma reads_field:
  assumes "reads br ((v, n) # fs)" "fields_ok fs" "n \<le> br_avail br" "n \<le> 32"
  shows "\<exists>br'. br_read n br = (v, br') \<and> reads br' fs \<and> br_avail br' = br_avail br - n"
  using br.rd_top [of br n "slen fs" v "sval fs"] assms fields_ok_less [OF assms(2)]
  by (auto simp: reads_def mult.commute add.commute)

lemma reads_reload:
  assumes "reads br fs"
  shows "reads (br_try_reload br) fs" "min 57 (slen fs) \<le> br_avail (br_try_reload br)"
  using br.refill_ok [of br] assms by (auto simp: reads_def br_try_reload_def)

text \<open>The extra bits of a sequence, popped as three fields.\<close>

lemma reads_ex:
  assumes "reads br ((x, a + b + c) # fs)" "fields_ok fs" "x < 2 ^ (a + b + c)"
  shows "reads br ((x div 2 ^ (a + b), c) # (x div 2 ^ a mod 2 ^ b, b) # (x mod 2 ^ a, a) # fs)"
    "x div 2 ^ (a + b) < 2 ^ c" "fields_ok ((x div 2 ^ a mod 2 ^ b, b) # (x mod 2 ^ a, a) # fs)"
proof -
  have 1: "x mod 2 ^ (a + b) = x mod 2 ^ a + 2 ^ a * (x div 2 ^ a mod 2 ^ b)" by (rule mod_pow2_add [symmetric])
  have "sval ((x div 2 ^ (a + b), c) # (x div 2 ^ a mod 2 ^ b, b) # (x mod 2 ^ a, a) # fs) =
      sval ((x div 2 ^ (a + b), c) # (x mod 2 ^ (a + b), a + b) # fs)"
    unfolding 1 by (simp add: power_add distrib_left mult.assoc mult.left_commute add.commute add.left_commute)
  also have "\<dots> = sval ((x, a + b + c) # fs)" using sval_split(1) [of "a + b" "a + b + c" x fs] by simp
  finally show "reads br ((x div 2 ^ (a + b), c) # (x div 2 ^ a mod 2 ^ b, b) # (x mod 2 ^ a, a) # fs)"
    using assms(1) by (simp add: reads_def)
  show "x div 2 ^ (a + b) < 2 ^ c"
    using assms(3) by (intro less_mult_imp_div_less) (simp add: power_add mult.commute mult.assoc)
  show "fields_ok ((x div 2 ^ a mod 2 ^ b, b) # (x mod 2 ^ a, a) # fs)" using assms(2) by simp
qed

context seq_table
begin

text \<open>A state the encoder left is read back from the bits it shifted out.\<close>

lemma read_back:
  assumes "valid x" "ok s" "stp' = se_step (seq_view ct) x s"
    "fse_nbits w = fe_num_bits (ft_decode dt ! (fst stp' mod 2 ^ log))"
    "fse_baseline w = fe_baseline (ft_decode dt ! (fst stp' mod 2 ^ log))"
    "reads br ((x mod 2 ^ snd stp', snd stp') # fs)" "fields_ok fs" "snd stp' \<le> br_avail br"
  shows "\<exists>br'. fse_advance_w w br = (x mod 2 ^ log, br') \<and> reads br' fs \<and> br_avail br' = br_avail br - snd stp'"
proof -
  have nb: "snd stp' \<le> log" "log \<le> 9" using step_bits [OF assms(1,2)] log_le [OF assms(2)] assms(3) by simp_all
  have e: "fse_nbits w = snd stp'" using step_entry [OF assms(1,2)] assms(3,4) by (metis fse_entry.select_convs(3))
  have bk: "fse_baseline w + x mod 2 ^ snd stp' = x mod 2 ^ log"
    using step_back [OF assms(1,2)] assms(3,5) by simp
  have lim: "x mod 2 ^ log < 65536"
    using power_increasing [OF nb(2), of "2 :: nat"] by (intro less_le_trans [OF mod_less_divisor]) simp_all
  then have "x mod 2 ^ snd stp' < 65536" using bk by linarith
  then have v: "(fse_baseline w + x mod 2 ^ snd stp' mod 65536) mod 65536 = x mod 2 ^ log" using bk lim by simp
  obtain br' where r: "br_read (snd stp') br = (x mod 2 ^ snd stp', br')" "reads br' fs"
      "br_avail br' = br_avail br - snd stp'"
    using reads_field [OF assms(6-8)] nb by auto
  have "fse_advance_w w br = (x mod 2 ^ log, br')" unfolding fse_advance_w_def e r(1) Let_def prod.case v by (rule refl)
  then show ?thesis using r(2,3) by blast
qed

end

context seq_coder
begin

lemma states_fields_ok: "list_all good cs \<Longrightarrow> fields_ok (snd (states cs))"
proof (induction cs rule: induct_list012)
  case (3 c c' cs)
  obtain l q m fs where "states (c' # cs) = ((l, q, m), fs)" by (metis prod.exhaust)
  then show ?case using 3(2,3) by (auto simp: Let_def good_def split: prod.splits)
qed (auto simp: good_def)

text \<open>The symbols at the states of the first sequence are its codes.\<close>

lemma head_symbols:
  assumes "list_all good (c # cs)" "states (c # cs) = ((l, q, m), fs)"
  shows "fe_symbol (ft_decode dtl ! (l mod 2 ^ lg)) = cs_llc c" "fe_symbol (ft_decode dto ! (q mod 2 ^ og)) = cs_ofc c"
    "fe_symbol (ft_decode dtm ! (m mod 2 ^ mg)) = cs_mlc c"
    "\<exists>rest. fs = (cs_ex c, cs_ex_bits c) # rest \<and> fields_ok rest"
proof -
  have g: "okl (cs_llc c)" "oko (cs_ofc c)" "okm (cs_mlc c)" using assms(1) by (simp_all add: good_def)
  have "fe_symbol (ft_decode dtl ! (l mod 2 ^ lg)) = cs_llc c \<and> fe_symbol (ft_decode dto ! (q mod 2 ^ og)) = cs_ofc c
    \<and> fe_symbol (ft_decode dtm ! (m mod 2 ^ mg)) = cs_mlc c \<and> (\<exists>rest. fs = (cs_ex c, cs_ex_bits c) # rest)"
  proof (cases cs)
    case Nil
    then show ?thesis using assms(2) ll.init_symbol [OF g(1)] of'.init_symbol [OF g(2)] ml.init_symbol [OF g(3)] by auto
  next
    case (Cons c' cs')
    obtain l1 q1 m1 fs1 where r: "states (c' # cs') = ((l1, q1, m1), fs1)" by (metis prod.exhaust)
    have v: "vl l1" "vo q1" "vm m1" using states_valid [OF _ _ r] assms(1) Cons by auto
    have "fe_symbol (ft_decode dtl ! (fst (se_step (seq_view ctl) l1 (cs_llc c)) mod 2 ^ lg)) = cs_llc c"
      "fe_symbol (ft_decode dto ! (fst (se_step (seq_view cto) q1 (cs_ofc c)) mod 2 ^ og)) = cs_ofc c"
      "fe_symbol (ft_decode dtm ! (fst (se_step (seq_view ctm) m1 (cs_mlc c)) mod 2 ^ mg)) = cs_mlc c"
      using ll.step_entry [OF v(1) g(1)] of'.step_entry [OF v(2) g(2)] ml.step_entry [OF v(3) g(3)]
      by (metis fse_entry.select_convs(2))+
    then show ?thesis using assms(2) r Cons by (auto simp: Let_def split: prod.splits)
  qed
  then show "fe_symbol (ft_decode dtl ! (l mod 2 ^ lg)) = cs_llc c" "fe_symbol (ft_decode dto ! (q mod 2 ^ og)) = cs_ofc c"
    "fe_symbol (ft_decode dtm ! (m mod 2 ^ mg)) = cs_mlc c"
    "\<exists>rest. fs = (cs_ex c, cs_ex_bits c) # rest \<and> fields_ok rest"
    using states_fields_ok [OF assms(1)] assms(2) by auto
qed

definition tabs :: seq_tabs where
  "tabs = \<lparr> tb_ll = dtl, tb_of = dto, tb_ml = dtm \<rparr>"

lemma one_reads:
  assumes "tabs_wf tabs" "list_all good (c # cs)" "states (c # cs) = ((l, q, m), (x, n) # rest)"
    "coded_ok c" "cs_ex_bits c \<le> 57" "reads br ((x, n) # rest)" "decode_coded c reps = Inr (s, reps')"
    and logs: "ft_accuracy_log dtl = lg" "ft_accuracy_log dto = og" "ft_accuracy_log dtm = mg"
  shows "\<exists>lw qw mw br3. seq_decode_one seqcheck tabs nxt
      \<lparr> sc_states = (l mod 2 ^ lg, q mod 2 ^ og, m mod 2 ^ mg), sc_br = br, sc_reps = reps \<rparr>
      = Some (Inr (s, \<lparr> sc_states = (if nxt then fst (seq_advance (lw, qw, mw) br3) else (l mod 2 ^ lg, q mod 2 ^ og, m mod 2 ^ mg)),
          sc_br = (if nxt then snd (seq_advance (lw, qw, mw) br3) else br3), sc_reps = reps' \<rparr>))
    \<and> reads br3 rest
    \<and> fse_nbits lw = fe_num_bits (ft_decode dtl ! (l mod 2 ^ lg)) \<and> fse_baseline lw = fe_baseline (ft_decode dtl ! (l mod 2 ^ lg))
    \<and> fse_nbits qw = fe_num_bits (ft_decode dto ! (q mod 2 ^ og)) \<and> fse_baseline qw = fe_baseline (ft_decode dto ! (q mod 2 ^ og))
    \<and> fse_nbits mw = fe_num_bits (ft_decode dtm ! (m mod 2 ^ mg)) \<and> fse_baseline mw = fe_baseline (ft_decode dtm ! (m mod 2 ^ mg))"
proof -
  note h = head_symbols [OF assms(2,3)]
  have f: "x = cs_ex c" "n = cs_ex_bits c" "fields_ok rest" using h(4) by auto
  have wf: "states_wf tabs (l mod 2 ^ lg, q mod 2 ^ og, m mod 2 ^ mg)" by (simp add: states_wf_def tabs_def logs)
  obtain lw qw mw where w: "fse_entry_u32 (tb_ll tabs) (l mod 2 ^ lg) = Some lw" "fse_entry_u32 (tb_of tabs) (q mod 2 ^ og) = Some qw"
    "fse_entry_u32 (tb_ml tabs) (m mod 2 ^ mg) = Some mw"
    "fse_symbol lw = cs_llc c" "fse_symbol qw = cs_ofc c" "fse_symbol mw = cs_mlc c"
    "fse_nbits lw = fe_num_bits (ft_decode dtl ! (l mod 2 ^ lg))" "fse_baseline lw = fe_baseline (ft_decode dtl ! (l mod 2 ^ lg))"
    "fse_nbits qw = fe_num_bits (ft_decode dto ! (q mod 2 ^ og))" "fse_baseline qw = fe_baseline (ft_decode dto ! (q mod 2 ^ og))"
    "fse_nbits mw = fe_num_bits (ft_decode dtm ! (m mod 2 ^ mg))" "fse_baseline mw = fe_baseline (ft_decode dtm ! (m mod 2 ^ mg))"
    by (rule seq_words [OF assms(1) wf]) (simp add: tabs_def h(1-3))
  define a where "a = pk_bits (LL_PACK ! cs_llc c)"
  define b where "b = pk_bits (ML_PACK ! cs_mlc c)"
  have c: "cs_llc c \<le> 35" "cs_ofc c \<le> 31" "cs_mlc c \<le> 52" "cs_ex_bits c = a + b + cs_ofc c" "cs_ex c < 2 ^ cs_ex_bits c"
    using assms(4) by (auto simp: coded_ok_def a_def b_def)
  have ab: "a \<le> 16" "b \<le> 16" using PACK_bounds c(1,3) by (auto simp: list_all_length a_def b_def)
  let ?br = "br_try_reload br"
  have r0: "reads ?br ((cs_ex c, a + b + cs_ofc c) # rest)" "a + b + cs_ofc c \<le> br_avail ?br"
    using reads_reload [OF assms(6)] assms(5) c(4) by (simp_all add: f)
  note ex = reads_ex [OF r0(1) f(3) c(5) [unfolded c(4)]]
  obtain br1 where b1: "br_read (cs_ofc c) ?br = (cs_ex c div 2 ^ (a + b), br1)"
      "reads br1 ((cs_ex c div 2 ^ a mod 2 ^ b, b) # (cs_ex c mod 2 ^ a, a) # rest)" "br_avail br1 = br_avail ?br - cs_ofc c"
    using reads_field [OF ex(1,3)] r0(2) c(2) by auto
  have av: "b \<le> br_avail br1" "a \<le> br_avail br1 - b" using r0(2) b1(3) by linarith+
  obtain br2 where b2: "br_read b br1 = (cs_ex c div 2 ^ a mod 2 ^ b, br2)" "reads br2 ((cs_ex c mod 2 ^ a, a) # rest)"
      "br_avail br2 = br_avail br1 - b"
    using reads_field [OF b1(2)] f(3) av(1) ab(2) by auto
  obtain br3 where b3: "br_read a br2 = (cs_ex c mod 2 ^ a, br3)" "reads br3 rest"
    using reads_field [OF b2(2) f(3)] av(2) ab(1) by (auto simp: b2(3))
  note fetch = seq_fetch_eq [OF w(1-3) w(4-6) c(1-3) b1(1) b2(1) [unfolded b_def] b3(1) [unfolded a_def], of seqcheck]
  have res: "rbind (resolve_offset (OF_PACK ! cs_ofc c + cs_ex c div 2 ^ (a + b)) (pk_base (LL_PACK ! cs_llc c) + cs_ex c mod 2 ^ a) reps)
      (\<lambda>(offset, reps). Inr (\<lparr> sq_litlen = pk_base (LL_PACK ! cs_llc c) + cs_ex c mod 2 ^ a,
        sq_matchlen = pk_base (ML_PACK ! cs_mlc c) + cs_ex c div 2 ^ a mod 2 ^ b, sq_offset = offset \<rparr>, reps)) = Inr (s, reps')"
    using assms(7) by (simp add: decode_coded_def seq_values_def Let_def a_def b_def)
  show ?thesis
    by (rule exI [of _ lw], rule exI [of _ qw], rule exI [of _ mw], rule exI [of _ br3])
      (use res w(7-12) b3(2) in \<open>auto simp: seq_decode_one_def fetch a_def b_def rbind_Inr_iff split_def Let_def\<close>)
qed

lemma decode_stream:
  assumes "tabs_wf tabs" "list_all good cs" "cs \<noteq> []" "list_all (\<lambda>c. coded_ok c \<and> cs_ex_bits c \<le> 57) cs"
    "states cs = ((l, q, m), fs)" "reads br fs" "decode_all cs reps = Inr (ss, reps')"
    and logs: "ft_accuracy_log dtl = lg" "ft_accuracy_log dto = og" "ft_accuracy_log dtm = mg"
  shows "\<exists>st br'. seq_decode_all seqcheck tabs (length cs)
      \<lparr> sc_states = (l mod 2 ^ lg, q mod 2 ^ og, m mod 2 ^ mg), sc_br = br, sc_reps = reps \<rparr>
      = Some (Inr (ss, \<lparr> sc_states = st, sc_br = br', sc_reps = reps' \<rparr>)) \<and> reads br' []"
  using assms(2-7)
proof (induction cs arbitrary: l q m fs br reps ss rule: induct_list012)
  case (2 c)
  obtain x n where fs: "fs = [(x, n)]" using 2 by auto
  have "coded_ok c" "cs_ex_bits c \<le> 57" using 2 by simp_all
  moreover obtain s where "decode_coded c reps = Inr (s, reps')" "ss = [s]"
    using 2 by (auto simp: rbind_Inr_iff)
  ultimately show ?case
    using one_reads [OF assms(1) 2(1) 2(4) [unfolded fs] _ _ _ _ logs, of br reps s reps' seqcheck False] 2(5) fs
    by auto
next
  case (3 c c' cs)
  obtain l1 q1 m1 fs1 where r: "states (c' # cs) = ((l1, q1, m1), fs1)" by (metis prod.exhaust)
  define sl where "sl = se_step (seq_view ctl) l1 (cs_llc c)"
  define sq where "sq = se_step (seq_view cto) q1 (cs_ofc c)"
  define sm where "sm = se_step (seq_view ctm) m1 (cs_mlc c)"
  let ?fs2 = "(l1 mod 2 ^ snd sl, snd sl) # (m1 mod 2 ^ snd sm, snd sm) # (q1 mod 2 ^ snd sq, snd sq) # fs1"
  have e: "l = fst sl" "q = fst sq" "m = fst sm" "fs = (cs_ex c, cs_ex_bits c) # ?fs2"
    using 3(6) r by (simp_all add: sl_def sq_def sm_def split_def Let_def)
  have v: "vl l1" "vo q1" "vm m1" using states_valid [OF _ _ r] 3(3) by auto
  have g: "okl (cs_llc c)" "oko (cs_ofc c)" "okm (cs_mlc c)" using 3(3) by (simp_all add: good_def)
  have n: "snd sl \<le> 9" "snd sq \<le> 9" "snd sm \<le> 9"
    using ll.step_bits [OF v(1) g(1)] of'.step_bits [OF v(2) g(2)] ml.step_bits [OF v(3) g(3)]
      ll.log_le [OF g(1)] of'.log_le [OF g(2)] ml.log_le [OF g(3)] by (simp_all add: sl_def sq_def sm_def)
  obtain s reps1 ss1 where d: "decode_coded c reps = Inr (s, reps1)" "decode_all (c' # cs) reps1 = Inr (ss1, reps')" "ss = s # ss1"
    using 3(8) by (auto simp: rbind_Inr_iff)
  have c: "coded_ok c" "cs_ex_bits c \<le> 57" using 3(5) by simp_all
  have st: "states (c # c' # cs) = ((fst sl, fst sq, fst sm), (cs_ex c, cs_ex_bits c) # ?fs2)" using 3(6) e by simp
  obtain lw qw mw br3 where one: "seq_decode_one seqcheck tabs True
      \<lparr> sc_states = (fst sl mod 2 ^ lg, fst sq mod 2 ^ og, fst sm mod 2 ^ mg), sc_br = br, sc_reps = reps \<rparr>
      = Some (Inr (s, \<lparr> sc_states = fst (seq_advance (lw, qw, mw) br3), sc_br = snd (seq_advance (lw, qw, mw) br3), sc_reps = reps1 \<rparr>))"
      "reads br3 ?fs2"
    and lw: "fse_nbits lw = fe_num_bits (ft_decode dtl ! (fst sl mod 2 ^ lg))" "fse_baseline lw = fe_baseline (ft_decode dtl ! (fst sl mod 2 ^ lg))"
    and qw: "fse_nbits qw = fe_num_bits (ft_decode dto ! (fst sq mod 2 ^ og))" "fse_baseline qw = fe_baseline (ft_decode dto ! (fst sq mod 2 ^ og))"
    and mw: "fse_nbits mw = fe_num_bits (ft_decode dtm ! (fst sm mod 2 ^ mg))" "fse_baseline mw = fe_baseline (ft_decode dtm ! (fst sm mod 2 ^ mg))"
    using one_reads [OF assms(1) 3(3) st c 3(7) [unfolded e(4)] d(1) logs, of seqcheck True] unfolding if_P [OF TrueI] by blast
  have f1: "fields_ok fs1" using states_fields_ok [of "c' # cs"] 3(3) r by simp
  let ?br = "br_try_reload br3"
  have av: "reads ?br ?fs2" "snd sl + snd sm + snd sq \<le> br_avail ?br"
    using reads_reload [OF one(2)] n by simp_all
  obtain br4 where b4: "fse_advance_w lw ?br = (l1 mod 2 ^ lg, br4)"
      "reads br4 ((m1 mod 2 ^ snd sm, snd sm) # (q1 mod 2 ^ snd sq, snd sq) # fs1)" "br_avail br4 = br_avail ?br - snd sl"
    using ll.read_back [OF v(1) g(1) sl_def lw av(1)] av(2) f1 by auto
  have a4: "snd sm \<le> br_avail br4" "snd sq \<le> br_avail br4 - snd sm" using av(2) b4(3) by linarith+
  obtain br5 where b5: "fse_advance_w mw br4 = (m1 mod 2 ^ mg, br5)"
      "reads br5 ((q1 mod 2 ^ snd sq, snd sq) # fs1)" "br_avail br5 = br_avail br4 - snd sm"
    using ml.read_back [OF v(3) g(3) sm_def mw b4(2)] a4(1) f1 by auto
  obtain br6 where b6: "fse_advance_w qw br5 = (q1 mod 2 ^ og, br6)" "reads br6 fs1"
    using of'.read_back [OF v(2) g(2) sq_def qw b5(2)] a4(2) b5(3) f1 by auto
  have adv: "seq_advance (lw, qw, mw) br3 = ((l1 mod 2 ^ lg, q1 mod 2 ^ og, m1 mod 2 ^ mg), br6)"
    using b4(1) b5(1) b6(1) by (simp add: seq_advance_def)
  obtain st' br' where ih: "seq_decode_all seqcheck tabs (length (c' # cs))
      \<lparr> sc_states = (l1 mod 2 ^ lg, q1 mod 2 ^ og, m1 mod 2 ^ mg), sc_br = br6, sc_reps = reps1 \<rparr>
      = Some (Inr (ss1, \<lparr> sc_states = st', sc_br = br', sc_reps = reps' \<rparr>))" "reads br' []"
    using 3(2) [OF _ _ _ r b6(2) d(2)] 3(3,5) by auto
  have "seq_decode_all seqcheck tabs (length (c # c' # cs))
      \<lparr> sc_states = (l mod 2 ^ lg, q mod 2 ^ og, m mod 2 ^ mg), sc_br = br, sc_reps = reps \<rparr>
      = Some (Inr (ss, \<lparr> sc_states = st', sc_br = br', sc_reps = reps' \<rparr>))"
    unfolding list.size(4) [of c] add_Suc_right add_0_right e(1-3) d(3)
    by (rule seq_decode_all_step [OF _ ih(1)]) (use one(1) in \<open>simp add: adv\<close>)
  then show ?case using ih(2) by blast
qed simp

end

section \<open>The section decodes to what was coded\<close>

lemma marked_stream:
  assumes "le_nat s = V + 2 ^ L" "V < 2 ^ L" "length s = L div 8 + 1"
  obtains r where "br_new s = Inr r" "br_ok r" "br_rem r = L" "br_val r = V" "br_consumed r \<le> 8 \<or> br_ptr r = 0"
proof -
  have ne: "s \<noteq> []" using assms(3) by auto
  have top: "highbit (le_nat s) = L" using assms(1,2) by (intro highbit_eqI) simp_all
  have nz: "s ! (length s - 1) \<noteq> 0"
  proof
    assume "s ! (length s - 1) = 0"
    then have "le_nat s < 2 ^ (8 * (length s - 1))"
      using le_nat_last [OF ne] le_nat_less_pow2 [of "butlast s"] by simp
    also have "\<dots> \<le> 2 ^ L" using assms(3) by (intro power_increasing) auto
    finally show False using assms(1) by simp
  qed
  show ?thesis by (rule br_new_ok [OF ne nz, unfolded top]) (rule that, auto simp: assms(1))
qed

context seq_coder
begin

lemma init_reads:
  assumes "list_all good cs" "cs \<noteq> []" "states cs = ((l, q, m), fs)" "reads br (stream cs)" "lg + og + mg \<le> br_avail br"
    and logs: "ft_accuracy_log dtl = lg" "ft_accuracy_log dto = og" "ft_accuracy_log dtm = mg" "lg \<le> 9" "og \<le> 9" "mg \<le> 9"
  shows "\<exists>br'. seq_init tabs br = ((l mod 2 ^ lg, q mod 2 ^ og, m mod 2 ^ mg), br') \<and> reads br' fs"
proof -
  have fs: "fields_ok fs" using states_fields_ok [OF assms(1)] assms(3) by simp
  have r: "reads br ((l mod 2 ^ lg, lg) # (q mod 2 ^ og, og) # (m mod 2 ^ mg, mg) # fs)"
    using assms(4) by (simp add: stream_def assms(3))
  have a: "lg \<le> br_avail br" "og \<le> br_avail br - lg" "mg \<le> br_avail br - lg - og" using assms(5) by linarith+
  obtain br1 where b1: "br_read lg br = (l mod 2 ^ lg, br1)" "reads br1 ((q mod 2 ^ og, og) # (m mod 2 ^ mg, mg) # fs)"
      "br_avail br1 = br_avail br - lg"
    using reads_field [OF r _ a(1)] fs logs(4) by auto
  obtain br2 where b2: "br_read og br1 = (q mod 2 ^ og, br2)" "reads br2 ((m mod 2 ^ mg, mg) # fs)"
      "br_avail br2 = br_avail br - lg - og"
    using reads_field [OF b1(2)] a(2) fs logs(5) b1(3) by auto
  obtain br3 where b3: "br_read mg br2 = (m mod 2 ^ mg, br3)" "reads br3 fs"
    using reads_field [OF b2(2)] a(3) fs logs(6) b2(3) by auto
  have small: "(x mod 2 ^ k) mod 65536 = x mod 2 ^ k" if "k \<le> 9" for x k :: nat
    using power_increasing [OF that, of "2 :: nat"] by (intro mod_less less_le_trans [OF mod_less_divisor]) simp_all
  have "seq_init tabs br = ((l mod 2 ^ lg, q mod 2 ^ og, m mod 2 ^ mg), br3)"
    unfolding seq_init_def fse_init_state_def tabs_def seq_tabs.simps logs(1-3) b1(1) b2(1) b3(1) Let_def prod.case
    using small logs(4-6) by simp
  then show ?thesis using b3(2) by blast
qed

lemma section_decodes:
  assumes "tabs_wf tabs" "list_all good cs" "cs \<noteq> []" "list_all (\<lambda>c. coded_ok c \<and> cs_ex_bits c \<le> 57) cs"
    "decode_all cs reps = Inr (ss, reps')"
    "le_nat s = sval (stream cs) + 2 ^ slen (stream cs)" "sval (stream cs) < 2 ^ slen (stream cs)"
    "length s = slen (stream cs) div 8 + 1"
  shows "\<exists>br st br' st'. br_new s = Inr br \<and> seq_init tabs br = (st, br')
    \<and> seq_decode_all seqcheck tabs (length cs) \<lparr> sc_states = st, sc_br = br', sc_reps = reps \<rparr> = Some (Inr (ss, st'))
    \<and> sc_reps st' = reps' \<and> br_finished_exactly (sc_br st')"
proof -
  have g: "okl (cs_llc (hd cs))" "oko (cs_ofc (hd cs))" "okm (cs_mlc (hd cs))"
    using assms(2,3) by (cases cs; simp add: good_def)+
  have logs: "ft_accuracy_log dtl = lg" "ft_accuracy_log dto = og" "ft_accuracy_log dtm = mg" "lg \<le> 9" "og \<le> 9" "mg \<le> 9"
    using ll.views [OF g(1)] of'.views [OF g(2)] ml.views [OF g(3)] ll.log_le [OF g(1)] of'.log_le [OF g(2)] ml.log_le [OF g(3)]
    by simp_all
  obtain l q m fs where r: "states cs = ((l, q, m), fs)" by (metis prod.exhaust)
  obtain br where br: "br_new s = Inr br" "br_ok br" "br_rem br = slen (stream cs)" "br_val br = sval (stream cs)"
      "br_consumed br \<le> 8 \<or> br_ptr br = 0"
    by (rule marked_stream [OF assms(6,7,8)])
  have "lg + og + mg \<le> slen (stream cs)" by (simp add: stream_def r)
  then have av: "lg + og + mg \<le> br_avail br"
    using br(3,5) logs(4-6) br_avail_start [of br] by (auto simp: br_avail_def)
  have "reads br (stream cs)" using br by (simp add: reads_def)
  then obtain br' where i: "seq_init tabs br = ((l mod 2 ^ lg, q mod 2 ^ og, m mod 2 ^ mg), br')" "reads br' fs"
    using init_reads [OF assms(2,3) r _ av logs] by blast
  obtain st br2 where d: "seq_decode_all seqcheck tabs (length cs)
      \<lparr> sc_states = (l mod 2 ^ lg, q mod 2 ^ og, m mod 2 ^ mg), sc_br = br', sc_reps = reps \<rparr>
      = Some (Inr (ss, \<lparr> sc_states = st, sc_br = br2, sc_reps = reps' \<rparr>))" "reads br2 []"
    using decode_stream [OF assms(1-4) r i(2) assms(5) logs(1-3)] by blast
  have "br_finished_exactly br2" using d(2) br.finished_iff [of br2] by (simp add: reads_def)
  then show ?thesis using br(1) i(1) d(1) by auto
qed

end

lemma decode_all_length: "decode_all cs reps = Inr (ss, reps') \<Longrightarrow> length ss = length cs"
  by (induction cs arbitrary: reps ss) (auto simp: rbind_Inr_iff)

text \<open>C14: the sequence section round-trips when no sequence carries more than 57 extra bits: what \<open>encode_seq_bits\<close>
  writes for the coding pass of any list of such valid sequences that the tables can encode, into a buffer
  of the size its bound asks for, \<open>BitRev::new\<close> accepts, and the decoder's loop reads back those very
  sequences, with the same repeat-offset history and the reader exactly at the start of the stream
  (the \<open>finished_exactly\<close> test passes). The three pairs of tables are those of any mode. The limit is the
  decoder's: it reloads once before the extra bits of a sequence, which the encoder lets grow to 63, and beyond 57
  it may misread them.\<close>

theorem seq_section_roundtrip:
  assumes "list_all seq_valid seqs" "reps_ok reps"
    "build_coded_pass lut seqs reps = ((coded, lls, ofs, mls, of_max), reps')"
    "table_pair ctl (tb_ll t) sl" "table_pair cto (tb_of t) so" "table_pair ctm (tb_ml t) sm" "tabs_wf t"
    "seqs_codable sl so sm coded" "list_all (\<lambda>c. cs_ex_bits c \<le> 57) coded"
    "seq_stream_bound lls ofs mls ctl cto ctm \<le> length out"
  shows "\<exists>n out' br st br' st'. encode_seq_bits coded ctl cto ctm out = Inr (n, out')
    \<and> br_new (take n out') = Inr br \<and> seq_init t br = (st, br')
    \<and> seq_decode_all seqcheck t (length seqs) \<lparr> sc_states = st, sc_br = br', sc_reps = reps \<rparr>
        = Some (Inr (seqs, st')) \<and> sc_reps st' = reps' \<and> br_finished_exactly (sc_br st')"
proof -
  have cp: "decode_all coded reps = Inr (seqs, reps')" "seq_counts coded lls ofs mls" "\<forall>c \<in> set coded. coded_ok c"
    using coded_pass_decodes' [OF _ assms(2,3)] assms(1) by (auto simp: seq_counts_def list_all_iff)
  obtain lg vl og vo mg vm n out' where
    sc: "seq_coder lg (\<lambda>s. s \<in> sl) vl ctl (tb_ll t) og (\<lambda>s. s \<in> so) vo cto (tb_of t) mg (\<lambda>s. s \<in> sm) vm ctm (tb_ml t)"
    and good: "list_all (seq_coder.good (\<lambda>s. s \<in> sl) (\<lambda>s. s \<in> so) (\<lambda>s. s \<in> sm)) coded"
    and e: "encode_seq_bits coded ctl cto ctm out = Inr (n, out')" "length out' = length out"
    and n: "n + 7 \<le> seq_stream_bound lls ofs mls ctl cto ctm"
    and strm: "n = slen (seq_coder.stream lg ctl og cto mg ctm coded) div 8 + 1"
      "le_nat (take n out') = sval (seq_coder.stream lg ctl og cto mg ctm coded) + 2 ^ slen (seq_coder.stream lg ctl og cto mg ctm coded)"
      "sval (seq_coder.stream lg ctl og cto mg ctm coded) < 2 ^ slen (seq_coder.stream lg ctl og cto mg ctm coded)"
    using encode_seq_bits_stream [OF assms(4-6,8) cp(2) assms(10)] by metis
  have t: "seq_coder.tabs (tb_ll t) (tb_of t) (tb_ml t) = t" by (simp add: seq_coder.tabs_def [OF sc])
  have ne: "coded \<noteq> []" using assms(8) by (simp add: seqs_codable_def)
  have len: "length coded = length seqs" using decode_all_length [OF cp(1)] by simp
  have ok: "list_all (\<lambda>c. coded_ok c \<and> cs_ex_bits c \<le> 57) coded" using cp(3) assms(9) by (simp add: list_all_iff)
  have n': "length (take n out') = slen (seq_coder.stream lg ctl og cto mg ctm coded) div 8 + 1"
    using strm(1) n e(2) assms(10) by simp
  show ?thesis
    using seq_coder.section_decodes [OF sc _ good ne ok cp(1) strm(2,3) n', of seqcheck] assms(7) e(1)
    unfolding t len by blast
qed

definition default_tabs :: seq_tabs where
  "default_tabs = \<lparr> tb_ll = table_of DEFAULT_LL_NORM 6, tb_of = table_of DEFAULT_OF_NORM 5, tb_ml = table_of DEFAULT_ML_NORM 6 \<rparr>"

lemma default_tabs_wf: "tabs_wf default_tabs"
  using from_norm_wf(1) [OF default_norms_ok(1) from_norm_ok [OF default_norms_ok(1) _ _ _ default_norms_ok(4)], of 35]
    from_norm_wf(1) [OF default_norms_ok(2) from_norm_ok [OF default_norms_ok(2) _ _ _ default_norms_ok(5)], of 52]
    from_norm_wf(1) [OF default_norms_ok(3) from_norm_ok [OF default_norms_ok(3) _ _ _ default_norms_ok(6)], of 31]
  by (simp add: tabs_wf_def default_tabs_def default_norms_ok)

theorem seq_section_roundtrip_witness:
  "\<exists>ctl cto ctm coded out n out' br st br' st'.
     encode_seq_bits coded ctl cto ctm out = Inr (n, out') \<and> br_new (take n out') = Inr br \<and> seq_init default_tabs br = (st, br')
     \<and> seq_decode_all True default_tabs 1 \<lparr> sc_states = st, sc_br = br', sc_reps = (1, 4, 8) \<rparr> = Some (Inr ([sample_seq], st'))"
proof -
  obtain ctl cto ctm where t: "table_pair ctl (tb_ll default_tabs) {..<36}" "table_pair cto (tb_of default_tabs) {..<29}"
      "table_pair ctm (tb_ml default_tabs) {..<53}"
    using default_pairs by (auto simp: default_tabs_def)
  obtain coded lls ofs mls of_max reps' where
    b: "build_coded_pass True [sample_seq] (1, 4, 8) = ((coded, lls, ofs, mls, of_max), reps')" by (metis prod.exhaust)
  note s = sample_seq_codable [OF b]
  let ?out = "replicate (seq_stream_bound lls ofs mls ctl cto ctm) 0"
  have "list_all seq_valid [sample_seq]" "seq_stream_bound lls ofs mls ctl cto ctm \<le> length ?out" using s(4) by simp_all
  from seq_section_roundtrip [OF this(1) s(5) b t default_tabs_wf s(1,2) this(2), of True] show ?thesis by fastforce
qed

end
