(* ===== verification/Match_Copy.thy ===== *)
theory Match_Copy
  imports Zstd_Prelude
begin

text \<open>
  The copies of the sequence loop (\<^verbatim>\<open>compressed.rs\<close>): literals into the output and matches from
  the output's own history or a dictionary, with their fixed-width tiers, strided copies, splat
  and doubling loop, most of them over raw pointers.

  Memory is modelled as the allocation itself: a list of cells, each a byte or uninitialised, with
  the published length. A raw copy outside the allocation, of uninitialised cells, or between
  overlapping ranges has no value (\<open>None\<close>), so that a theorem giving a value also shows that no
  such copy is reached. The reference is the byte-at-a-time LZ77 copy \<open>lz_copy\<close>.
\<close>

section \<open>Memory, vectors and raw copies\<close>

type_synonym mem = "u8 option list"

record vec =
  v_mem :: mem
  v_len :: nat

definition vec_cap :: "vec \<Rightarrow> nat" where "vec_cap v = length (v_mem v)"

definition put :: "mem \<Rightarrow> nat \<Rightarrow> mem \<Rightarrow> mem" where
  "put m i cs = take i m @ cs @ drop (i + length cs) m"

text \<open>\<^verbatim>\<open>ptr::copy_nonoverlapping\<close> inside one allocation, from another slice, and \<^verbatim>\<open>ptr::write_bytes\<close>.\<close>

definition copy_no :: "nat \<Rightarrow> nat \<Rightarrow> nat \<Rightarrow> mem \<Rightarrow> mem option" where
  "copy_no w src dst m =
     (if src + w \<le> length m \<and> dst + w \<le> length m \<and> (src + w \<le> dst \<or> dst + w \<le> src)
         \<and> list_all (\<lambda>c. c \<noteq> None) (take w (drop src m))
      then Some (put m dst (take w (drop src m))) else None)"

definition copy_in :: "nat \<Rightarrow> bytes \<Rightarrow> nat \<Rightarrow> nat \<Rightarrow> mem \<Rightarrow> mem option" where
  "copy_in w lits src dst m =
     (if src + w \<le> length lits \<and> dst + w \<le> length m
      then Some (put m dst (map Some (take w (drop src lits)))) else None)"

definition write_bytes :: "nat \<Rightarrow> u8 option \<Rightarrow> nat \<Rightarrow> mem \<Rightarrow> mem option" where
  "write_bytes dst b n m =
     (if dst + n \<le> length m \<and> b \<noteq> None then Some (put m dst (replicate n b)) else None)"

text \<open>The safe \<^verbatim>\<open>Vec\<close> operations: they grow the allocation when it is too small.\<close>

definition vec_reserve :: "nat \<Rightarrow> vec \<Rightarrow> vec" where
  "vec_reserve n v = v\<lparr> v_mem := v_mem v @ replicate (v_len v + n - vec_cap v) None \<rparr>"

definition vec_extend :: "mem \<Rightarrow> vec \<Rightarrow> vec" where
  "vec_extend cs v = \<lparr> v_mem = put (v_mem v) (v_len v) cs, v_len = v_len v + length cs \<rparr>"

definition vec_within :: "nat \<Rightarrow> nat \<Rightarrow> vec \<Rightarrow> vec" where
  "vec_within a b v = vec_extend (take (b - a) (drop a (v_mem v))) v"

definition publish :: "mem \<Rightarrow> nat \<Rightarrow> vec" where
  "publish m n = \<lparr> v_mem = m, v_len = n \<rparr>"

section \<open>Literal copies\<close>

definition copy_literals_cold :: "bool \<Rightarrow> bytes \<Rightarrow> nat \<Rightarrow> nat \<Rightarrow> nat \<Rightarrow> vec \<Rightarrow> nat \<Rightarrow> (nat \<times> vec) res option" where
  "copy_literals_cold arm lits lit_pos e n out len =
     (if arm \<and> n \<le> 32 \<and> lit_pos + 32 \<le> length lits \<and> 32 \<le> vec_cap out - len then
        Option.bind (copy_in 32 lits lit_pos len (v_mem out)) (\<lambda>m. Some (Inr (e, publish m (len + n))))
      else if arm \<and> n \<le> 64 \<and> lit_pos + 64 \<le> length lits \<and> 64 \<le> vec_cap out - len then
        Option.bind (copy_in 64 lits lit_pos len (v_mem out)) (\<lambda>m. Some (Inr (e, publish m (len + n))))
      else Some (rbind (ok_or (slice_get lits lit_pos e) Corruption)
        (\<lambda>chunk. Inr (e, vec_extend (map Some chunk) out))))"

definition copy_literals :: "bytes \<Rightarrow> nat \<Rightarrow> nat \<Rightarrow> vec \<Rightarrow> bool \<Rightarrow> (nat \<times> vec) res option" where
  "copy_literals lits lit_pos n out arm =
     (if length lits - lit_pos < n then Some (Inl Corruption)
      else
        let e = lit_pos + n; len = v_len out
        in if arm \<and> n \<le> 16 \<and> lit_pos + 16 \<le> length lits \<and> 16 \<le> vec_cap out - len then
             Option.bind (copy_in 16 lits lit_pos len (v_mem out)) (\<lambda>m. Some (Inr (e, publish m (len + n))))
           else copy_literals_cold arm lits lit_pos e n out len)"

definition copy_literals_hot :: "bytes \<Rightarrow> nat \<Rightarrow> nat \<Rightarrow> vec \<Rightarrow> bool \<Rightarrow> nat \<Rightarrow> (nat \<times> vec) res option" where
  "copy_literals_hot lits lit_pos n out arm dst_at =
     (if length lits - lit_pos < n then Some (Inl Corruption)
      else
        let e = lit_pos + n
        in if arm \<and> n \<le> 16 \<and> lit_pos + 16 \<le> length lits then
             Option.bind (copy_in 16 lits lit_pos dst_at (v_mem out)) (\<lambda>m. Some (Inr (e, publish m (dst_at + n))))
           else copy_literals_cold arm lits lit_pos e n out dst_at)"

text \<open>\<open>lit_cold_raw\<close>: the outer option is definedness, the inner one the code's \<^verbatim>\<open>Option\<close>.\<close>

definition lit_cold_raw :: "bytes \<Rightarrow> nat \<Rightarrow> nat \<Rightarrow> mem \<Rightarrow> nat \<Rightarrow> nat \<Rightarrow> (nat \<times> mem \<times> nat) option option" where
  "lit_cold_raw lits lit_p rm m op_at n =
     (if n \<le> 32 \<and> 32 \<le> rm then
        Option.bind (copy_in 32 lits lit_p op_at m) (\<lambda>m. Some (Some (lit_p + n, m, op_at + n)))
      else if n \<le> 64 \<and> 64 \<le> rm then
        Option.bind (copy_in 64 lits lit_p op_at m) (\<lambda>m. Some (Some (lit_p + n, m, op_at + n)))
      else Some None)"

section \<open>Match copies\<close>

text \<open>\<^verbatim>\<open>while done < len { copy_nonoverlapping(src + done, dst + done, w); done += w }\<close>.\<close>

partial_function (option) stride_copy :: "nat \<Rightarrow> nat \<Rightarrow> nat \<Rightarrow> nat \<Rightarrow> nat \<Rightarrow> mem \<Rightarrow> mem option" where
  "stride_copy w src dst len dn m =
     (if dn < len then Option.bind (copy_no w (src + dn) (dst + dn) m) (stride_copy w src dst len (dn + w))
      else Some m)"

definition match_cold_raw :: "mem \<Rightarrow> nat \<Rightarrow> nat \<Rightarrow> nat \<Rightarrow> (mem \<times> nat) option option" where
  "match_cold_raw m op_at off len =
     (if len \<le> 32 \<and> 32 \<le> off then
        Option.bind (copy_no 32 (op_at - off) op_at m) (\<lambda>m. Some (Some (m, op_at + len)))
      else if len \<le> 64 \<and> 64 \<le> off then
        Option.bind (copy_no 64 (op_at - off) op_at m) (\<lambda>m. Some (Some (m, op_at + len)))
      else if 64 \<le> off then
        Option.bind (stride_copy 64 (op_at - off) op_at len 0 m) (\<lambda>m. Some (Some (m, op_at + len)))
      else if 32 \<le> off then
        Option.bind (stride_copy 32 (op_at - off) op_at len 0 m) (\<lambda>m. Some (Some (m, op_at + len)))
      else if off = 1 then
        Option.bind (write_bytes op_at (m ! (op_at - 1)) len m) (\<lambda>m. Some (Some (m, op_at + len)))
      else Some None)"

text \<open>The doubling loop of the overlapping band: \<open>avail\<close> grows by what each round copies.\<close>

partial_function (option) overlap_loop :: "nat \<Rightarrow> nat \<Rightarrow> nat \<Rightarrow> nat \<Rightarrow> vec \<Rightarrow> vec res option" where
  "overlap_loop src len avail copied v =
     (if copied < len then
        let tk = min (len - copied) avail
        in case checked_add USIZE_MAX src tk of
             None \<Rightarrow> Some (Inl Corruption)
           | Some e \<Rightarrow>
               if v_len v < e then Some (Inl Corruption)
               else overlap_loop src len (avail + tk) (copied + tk) (vec_within src e v)
      else Some (Inr v))"

definition copy_from_decoded_cold :: "bool \<Rightarrow> bool \<Rightarrow> vec \<Rightarrow> nat \<Rightarrow> nat \<Rightarrow> nat \<Rightarrow> vec res option" where
  "copy_from_decoded_cold g wide out dst_at off len =
     (let src = dst_at - off; m = v_mem out
      in if wide \<and> len \<le> 32 \<and> 32 \<le> off \<and> (g \<or> 32 \<le> vec_cap out - dst_at) then
           Option.bind (copy_no 32 src dst_at m) (\<lambda>m. Some (Inr (publish m (dst_at + len))))
         else if wide \<and> len \<le> 64 \<and> 64 \<le> off \<and> (g \<or> 64 \<le> vec_cap out - dst_at) then
           Option.bind (copy_no 64 src dst_at m) (\<lambda>m. Some (Inr (publish m (dst_at + len))))
         else if off = 1 then
           if g then
             Option.bind (write_bytes dst_at (m ! src) len m) (\<lambda>m. Some (Inr (publish m (dst_at + len))))
           else Some (Inr (vec_extend (replicate len (m ! src)) out))
         else if len \<le> off then
           if g \<and> 32 \<le> off then
             Option.bind (stride_copy 32 src dst_at len 0 m) (\<lambda>m. Some (Inr (publish m (dst_at + len))))
           else
             case checked_add USIZE_MAX src len of
               None \<Rightarrow> Some (Inl Corruption)
             | Some e \<Rightarrow> if v_len out < e then Some (Inl Corruption) else Some (Inr (vec_within src e out))
         else overlap_loop src len off 0 (vec_reserve len out))"

definition copy_from_decoded_body :: "vec \<Rightarrow> nat \<Rightarrow> nat \<Rightarrow> bool \<Rightarrow> vec res option" where
  "copy_from_decoded_body out src len wide =
     (let off = v_len out - src
      in if wide \<and> len \<le> 16 \<and> 16 \<le> off \<and> 16 \<le> vec_cap out - v_len out then
           Option.bind (copy_no 16 src (v_len out) (v_mem out)) (\<lambda>m. Some (Inr (publish m (v_len out + len))))
         else copy_from_decoded_cold False wide out (v_len out) off len)"

definition copy_from_decoded :: "vec \<Rightarrow> nat \<Rightarrow> nat \<Rightarrow> bool \<Rightarrow> vec res option" where
  "copy_from_decoded out src len wide =
     (if v_len out \<le> src then Some (Inl Corruption)
      else if len = 0 then Some (Inr out)
      else copy_from_decoded_body out src len wide)"

definition copy_from_decoded_hot :: "vec \<Rightarrow> nat \<Rightarrow> nat \<Rightarrow> nat \<Rightarrow> bool \<Rightarrow> vec res option" where
  "copy_from_decoded_hot out dst_at off len wide =
     (if wide \<and> len \<le> 16 \<and> 16 \<le> off then
        Option.bind (copy_no 16 (dst_at - off) dst_at (v_mem out)) (\<lambda>m. Some (Inr (publish m (dst_at + len))))
      else copy_from_decoded_cold True wide out dst_at off len)"

text \<open>\<^verbatim>\<open>off.wrapping_sub(1) >= bound\<close> on \<^verbatim>\<open>usize\<close>: rejects 0 and everything above the bound.\<close>

definition wrapping_sub64 :: "nat \<Rightarrow> nat \<Rightarrow> nat" where
  "wrapping_sub64 a b = (if b \<le> a then a - b else a + 2 ^ 64 - b)"

definition copy_match_nodict :: "vec \<Rightarrow> nat \<Rightarrow> nat \<Rightarrow> nat \<Rightarrow> nat \<Rightarrow> bool \<Rightarrow> vec res option" where
  "copy_match_nodict out dst_at off matchlen win_lim wide =
     (if min dst_at win_lim \<le> wrapping_sub64 off 1 then Some (Inl Corruption)
      else copy_from_decoded_hot out dst_at off matchlen wide)"

record match_ctx =
  mc_dict :: bytes
  mc_frame_start :: nat
  mc_frame_skipped :: nat
  mc_window_size :: nat
  mc_block_max :: nat
  mc_wide :: bool

definition copy_match :: "vec \<Rightarrow> match_ctx \<Rightarrow> nat \<Rightarrow> nat \<Rightarrow> vec res option" where
  "copy_match out ctx off len =
     (let dict = mc_dict ctx; frame_start = mc_frame_start ctx; frame_skipped = mc_frame_skipped ctx
      in if off = 0 then Some (Inl Corruption)
         else
           let retained = v_len out - frame_start;
               produced = sat_add USIZE_MAX retained frame_skipped;
               virtual_len = length dict + produced
           in if virtual_len < off then Some (Inl Corruption)
              else
                let src_pos0 = virtual_len - off
                in if length dict \<le> src_pos0 \<and> mc_window_size ctx < off then Some (Inl Corruption)
                   else if mc_block_max ctx < len then Some (Inl Corruption)
                   else if length dict \<le> src_pos0 then
                     let frame_off = src_pos0 - length dict
                     in if frame_off < frame_skipped then Some (Inl Corruption)
                        else copy_from_decoded out (frame_start + (frame_off - frame_skipped)) len (mc_wide ctx)
                   else
                     case slice_from dict src_pos0 of
                       None \<Rightarrow> Some (Inl Corruption)
                     | Some tail \<Rightarrow>
                         let out = vec_reserve len out;
                             from_dict = min len (length tail);
                             out = vec_extend (map Some (take from_dict tail)) out;
                             rest = len - from_dict
                         in if 0 < rest then
                              if 0 < frame_skipped then Some (Inl Corruption)
                              else copy_from_decoded out frame_start rest (mc_wide ctx)
                            else Some (Inr out))"

section \<open>The reference copy\<close>

fun lz_copy :: "nat \<Rightarrow> nat \<Rightarrow> 'a list \<Rightarrow> 'a list" where
  "lz_copy off 0 out = out"
| "lz_copy off (Suc n) out = lz_copy off n (out @ [out ! (length out - off)])"

lemma length_lz_copy [simp]: "length (lz_copy off n out) = length out + n"
  by (induction off n out rule: lz_copy.induct) auto

lemma lz_copy_add: "lz_copy off (a + b) out = lz_copy off b (lz_copy off a out)"
  by (induction off a out rule: lz_copy.induct) auto

lemma lz_copy_snoc: "lz_copy off (Suc n) out =
    lz_copy off n out @ [lz_copy off n out ! (length out + n - off)]"
  using lz_copy_add [of off n 1 out] by simp

lemma lz_copy_closed:
  assumes "1 \<le> off" "off \<le> length out"
  shows "lz_copy off n out = out @ map (\<lambda>i. out ! (length out - off + i mod off)) [0..<n]"
proof (induction n)
  case (Suc n)
  let ?m = "map (\<lambda>i. out ! (length out - off + i mod off)) [0..<n]"
  have "(out @ ?m) ! (length out + n - off) = out ! (length out - off + n mod off)"
  proof (cases "n < off")
    case True
    then have "length out + n - off < length out" using assms by linarith
    then show ?thesis using True assms by (simp add: nth_append Nat.add_diff_assoc2)
  next
    case False
    then have "length out + n - off = length out + (n - off)" by simp
    moreover have "(n - off) mod off = n mod off" using False by (simp add: le_mod_geq)
    ultimately show ?thesis using False assms by (simp add: nth_append)
  qed
  then show ?case unfolding lz_copy_snoc Suc.IH by simp
qed simp

lemma lz_copy_nth:
  assumes "1 \<le> off" "off \<le> length out" "i < length out + n"
  shows "lz_copy off n out ! i =
    (if i < length out then out ! i else out ! (length out - off + (i - length out) mod off))"
  using assms(3) unfolding lz_copy_closed [OF assms(1,2)] by (auto simp: nth_append)

lemma lz_copy_take: "k \<le> n \<Longrightarrow> take (length out + k) (lz_copy off n out) = lz_copy off k out"
proof -
  have "take (length xs) (lz_copy off j xs) = xs" for j and xs :: "'a list"
    by (induction j) (simp_all add: lz_copy_snoc del: lz_copy.simps(2))
  then have "take (length (lz_copy off k out)) (lz_copy off (n - k) (lz_copy off k out)) = lz_copy off k out" .
  then show "k \<le> n \<Longrightarrow> ?thesis" using lz_copy_add [of off k "n - k" out] by simp
qed

text \<open>Copying a block that starts \<open>off\<close> behind the end, at most \<open>off\<close> long, and, when the copied
  part is whole periods, a block from the very first source position.\<close>

lemma lz_copy_block:
  assumes "1 \<le> off" "off \<le> length out" "w \<le> off"
  shows "out @ take w (drop (length out - off) out) = lz_copy off w out"
proof (rule nth_equalityI)
  fix i assume "i < length (out @ take w (drop (length out - off) out))"
  then show "(out @ take w (drop (length out - off) out)) ! i = lz_copy off w out ! i"
    using assms by (auto simp: nth_append lz_copy_nth)
qed (use assms in simp)

lemma lz_copy_period:
  assumes "1 \<le> off" "off \<le> length out" "off dvd c" "tk \<le> off + c"
  shows "lz_copy off c out @ take tk (drop (length out - off) (lz_copy off c out)) = lz_copy off (c + tk) out"
proof (rule nth_equalityI)
  obtain k where k: "c = k * off" using assms(3) by (metis dvd_div_mult_self)
  show len: "length (lz_copy off c out @ take tk (drop (length out - off) (lz_copy off c out)))
      = length (lz_copy off (c + tk) out)" using assms by simp
  fix i assume "i < length (lz_copy off c out @ take tk (drop (length out - off) (lz_copy off c out)))"
  then have i: "i < length out + (c + tk)" using len by simp
  show "(lz_copy off c out @ take tk (drop (length out - off) (lz_copy off c out))) ! i = lz_copy off (c + tk) out ! i"
  proof (cases "i < length out + c")
    case True
    then show ?thesis using assms by (simp add: nth_append lz_copy_nth)
  next
    case False
    define j where "j = i - (length out + c)"
    have j: "j < tk" "i = length out + c + j" using i False by (auto simp: j_def)
    have "(lz_copy off c out @ take tk (drop (length out - off) (lz_copy off c out))) ! i
        = lz_copy off c out ! (length out - off + j)"
      using False j assms by (simp add: nth_append)
    also have "\<dots> = out ! (length out - off + j mod off)"
    proof (cases "j < off")
      case True
      then show ?thesis using assms j by (simp add: lz_copy_nth)
    next
      case False
      have "length out - off + j = length out + (j - off)" using False assms(2) by simp
      moreover have "(j - off) mod off = j mod off" using False by (simp add: le_mod_geq)
      ultimately show ?thesis using assms j False by (simp add: lz_copy_nth)
    qed
    also have "\<dots> = lz_copy off (c + tk) out ! i"
      using assms j by (simp add: lz_copy_nth k)
    finally show ?thesis .
  qed
qed

section \<open>Cells that hold given bytes\<close>

definition mem_is :: "mem \<Rightarrow> bytes \<Rightarrow> bool" where
  "mem_is m out \<longleftrightarrow> length out \<le> length m \<and> take (length out) m = map Some out"

definition vec_is :: "vec \<Rightarrow> bytes \<Rightarrow> bool" where
  "vec_is v out \<longleftrightarrow> v_len v = length out \<and> mem_is (v_mem v) out"

lemma length_put [simp]: "i + length cs \<le> length m \<Longrightarrow> length (put m i cs) = length m"
  by (simp add: put_def)

lemma put_mem_is:
  assumes "mem_is m out"
  shows "mem_is (put m (length out) (map Some xs)) (out @ xs)"
  using assms by (simp add: mem_is_def put_def)

lemma mem_is_slice:
  assumes "mem_is m out" "src + w \<le> length out"
  shows "take w (drop src m) = map Some (take w (drop src out))"
proof -
  have "take w (drop src m) = take w (drop src (take (length out) m))"
    using assms(2) by (simp add: drop_take min_absorb1)
  also have "\<dots> = map Some (take w (drop src out))"
    using assms(1) by (simp add: mem_is_def take_map drop_map)
  finally show ?thesis .
qed

lemma mem_is_nth: "mem_is m out \<Longrightarrow> i < length out \<Longrightarrow> m ! i = Some (out ! i)"
  using mem_is_slice [of m out i 1] by (simp add: mem_is_def take_Suc_drop)

lemma mem_is_take: "mem_is m xs \<Longrightarrow> mem_is m (take k xs)"
proof -
  assume a: "mem_is m xs"
  have "take (length (take k xs)) m = take k (take (length xs) m)" by (simp add: min.commute)
  also have "\<dots> = map Some (take k xs)" using a by (simp add: mem_is_def take_map)
  finally show ?thesis using a by (auto simp: mem_is_def min_le_iff_disj)
qed

lemma mem_is_prefix: "mem_is m (lz_copy off w out) \<Longrightarrow> n \<le> w \<Longrightarrow> mem_is m (lz_copy off n out)"
  using mem_is_take [of m "lz_copy off w out" "length out + n"] by (simp add: lz_copy_take)

text \<open>The fixed-width copy: it needs \<open>w\<close> writable cells past the end and moves \<open>w\<close> bytes.\<close>

lemma copy_no_step:
  assumes "mem_is m out" "1 \<le> off" "off \<le> length out" "w \<le> off" "length out + w \<le> length m"
  obtains m' where "copy_no w (length out - off) (length out) m = Some m'" "length m' = length m"
    "mem_is m' (lz_copy off w out)"
proof -
  have sl: "take w (drop (length out - off) m) = map Some (take w (drop (length out - off) out))"
    using assms by (intro mem_is_slice) auto
  have "copy_no w (length out - off) (length out) m =
      Some (put m (length out) (map Some (take w (drop (length out - off) out))))"
  proof -
    have "length out - off + w \<le> length m" "length out - off + w \<le> length out" using assms by auto
    then show ?thesis using assms(5) by (simp add: copy_no_def sl list_all_iff)
  qed
  moreover have "mem_is (put m (length out) (map Some (take w (drop (length out - off) out)))) (lz_copy off w out)"
    using put_mem_is [OF assms(1)] lz_copy_block [OF assms(2-4)] by metis
  ultimately show ?thesis using that assms by simp
qed

lemma copy_no_publish:
  assumes "mem_is m out" "1 \<le> off" "off \<le> length out" "w \<le> off" "length out + w \<le> length m" "n \<le> w"
  shows "\<exists>m'. copy_no w (length out - off) (length out) m = Some m' \<and> length m' = length m
    \<and> mem_is m' (lz_copy off n out)"
  using copy_no_step [OF assms(1-5)] mem_is_prefix [OF _ assms(6)] by metis

lemma stride_copy_ok:
  assumes "mem_is m (lz_copy off dn out)" "1 \<le> off" "off \<le> length out" "0 < w" "w \<le> off"
    "length out + len + w \<le> length m"
  shows "\<exists>m'. stride_copy w (length out - off) (length out) len dn m = Some m' \<and> length m' = length m
    \<and> mem_is m' (lz_copy off len out)"
  using assms
proof (induction "len - dn" arbitrary: dn m rule: less_induct)
  case less
  show ?case
  proof (cases "dn < len")
    case False
    then show ?thesis using less.prems(1) mem_is_prefix by (auto simp: stride_copy.simps)
  next
    case True
    let ?cur = "lz_copy off dn out"
    have src: "length ?cur - off = length out - off + dn" using less.prems(3) by simp
    obtain m1 where m1: "copy_no w (length out - off + dn) (length out + dn) m = Some m1" "length m1 = length m"
        "mem_is m1 (lz_copy off (dn + w) out)"
      using copy_no_step [OF less.prems(1), of off w] less.prems True
      by (auto simp: lz_copy_add src)
    then show ?thesis
      using less.hyps [of "dn + w" m1] less.prems True by (auto simp: stride_copy.simps [of w])
  qed
qed

lemma vec_extend_is: "vec_is v out \<Longrightarrow> vec_is (vec_extend (map Some xs) v) (out @ xs)"
  using put_mem_is [of "v_mem v" out xs] by (simp add: vec_is_def vec_extend_def)

lemma vec_extend_cap: "vec_is v out \<Longrightarrow> vec_cap v \<le> vec_cap (vec_extend cs v)"
  by (simp add: vec_is_def mem_is_def vec_cap_def vec_extend_def put_def)

lemma vec_reserve_is: "vec_is v out \<Longrightarrow> vec_is (vec_reserve n v) out"
  "vec_cap v \<le> vec_cap (vec_reserve n v)"
  by (simp_all add: vec_is_def mem_is_def vec_cap_def vec_reserve_def)

lemma vec_within_is:
  assumes "vec_is v out" "src + n \<le> length out"
  shows "vec_is (vec_within src (src + n) v) (out @ take n (drop src out))"
    "vec_cap v \<le> vec_cap (vec_within src (src + n) v)"
proof -
  have "take n (drop src (v_mem v)) = map Some (take n (drop src out))"
    using assms by (intro mem_is_slice) (auto simp: vec_is_def)
  then show "vec_is (vec_within src (src + n) v) (out @ take n (drop src out))"
    using vec_extend_is [OF assms(1)] by (simp add: vec_within_def)
  show "vec_cap v \<le> vec_cap (vec_within src (src + n) v)"
    using vec_extend_cap [OF assms(1)] by (simp add: vec_within_def)
qed

lemma overlap_loop_ok:
  assumes "vec_is v (lz_copy off c out)" "1 \<le> off" "off \<le> length out" "c \<le> len"
    "c < len \<Longrightarrow> off dvd c" "length out + len < 2 ^ 63"
  shows "\<exists>v'. overlap_loop (length out - off) len (off + c) c v = Some (Inr v')
    \<and> vec_is v' (lz_copy off len out) \<and> vec_cap v \<le> vec_cap v'"
  using assms
proof (induction "len - c" arbitrary: c v rule: less_induct)
  case less
  show ?case
  proof (cases "c < len")
    case False
    then show ?thesis using less.prems by (auto simp: overlap_loop.simps)
  next
    case True
    define tk where "tk = min (len - c) (off + c)"
    have tk: "0 < tk" "tk \<le> off + c" "c + tk \<le> len" using True less.prems(2) by (auto simp: tk_def)
    have dvd: "c + tk < len \<Longrightarrow> off dvd c + tk"
      using less.prems(5) True by (auto simp: tk_def min_def split: if_splits)
    have chk: "checked_add USIZE_MAX (length out - off) tk = Some (length out - off + tk)"
      using less.prems(6) tk by (simp add: checked_add_def USIZE_MAX_def)
    have fit: "length out - off + tk \<le> length (lz_copy off c out)" using tk less.prems(3) by simp
    let ?v1 = "vec_within (length out - off) (length out - off + tk) v"
    have v1: "vec_is ?v1 (lz_copy off (c + tk) out)" "vec_cap v \<le> vec_cap ?v1"
      using vec_within_is [OF less.prems(1) fit] lz_copy_period [OF less.prems(2,3) less.prems(5) [OF True] tk(2)]
      by simp_all
    obtain v' where v': "overlap_loop (length out - off) len (off + (c + tk)) (c + tk) ?v1 = Some (Inr v')"
        "vec_is v' (lz_copy off len out)" "vec_cap ?v1 \<le> vec_cap v'"
    proof -
      have lt: "len - (c + tk) < len - c" using tk True by linarith
      show ?thesis
        using less.hyps [OF lt v1(1) less.prems(2,3) tk(3) dvd less.prems(6)] that by blast
    qed
    have "overlap_loop (length out - off) len (off + c) c v = overlap_loop (length out - off) len (off + (c + tk)) (c + tk) ?v1"
      using True fit less.prems(1) by (subst overlap_loop.simps)
        (simp add: chk tk_def [symmetric] vec_is_def add.assoc)
    then show ?thesis using v' v1(2) by auto
  qed
qed

section \<open>Every tier is the byte-at-a-time copy\<close>

lemma publish_is: "mem_is m out \<Longrightarrow> n = length out \<Longrightarrow> vec_is (publish m n) out"
  "vec_cap (publish m n) = length m"
  by (simp_all add: vec_is_def publish_def vec_cap_def)

lemma write_bytes_ok:
  assumes "mem_is m out" "out \<noteq> []" "length out + n \<le> length m"
  shows "\<exists>m'. write_bytes (length out) (m ! (length out - 1)) n m = Some m' \<and> length m' = length m
    \<and> mem_is m' (lz_copy 1 n out)"
proof -
  have b: "m ! (length out - 1) = Some (out ! (length out - 1))"
    using assms by (intro mem_is_nth) auto
  have "out @ replicate n (out ! (length out - 1)) = lz_copy 1 n out"
    using assms(2) lz_copy_closed [of 1 out n] by (cases out) (simp_all add: map_replicate_const Suc_le_eq)
  then show ?thesis
    using put_mem_is [OF assms(1), of "replicate n (out ! (length out - 1))"] assms(3)
    by (simp add: write_bytes_def b [simplified])
qed

text \<open>What each match copy promises: from a vector that holds \<open>out\<close>, one that holds the copy, in an
  allocation no smaller.\<close>

definition copies :: "vec res option \<Rightarrow> vec \<Rightarrow> bytes \<Rightarrow> bool" where
  "copies r v out' \<longleftrightarrow> (\<exists>v'. r = Some (Inr v') \<and> vec_is v' out' \<and> vec_cap v \<le> vec_cap v')"

lemma copiesI: "r = Some (Inr v') \<Longrightarrow> vec_is v' out' \<Longrightarrow> vec_cap v \<le> vec_cap v' \<Longrightarrow> copies r v out'"
  by (auto simp: copies_def)

lemma bind_publish:
  assumes "\<exists>m'. r = Some m' \<and> length m' = length (v_mem v) \<and> mem_is m' out'" "n = length out'"
  shows "copies (Option.bind r (\<lambda>m. Some (Inr (publish m n)))) v out'"
  using assms publish_is by (auto simp: copies_def vec_cap_def)

lemma cold_ok:
  assumes v: "vec_is v out" and off: "1 \<le> off" "off \<le> length out" and len: "0 < len"
    and small: "length out + len < 2 ^ 63" and room: "g \<Longrightarrow> length out + len + 64 \<le> vec_cap v"
  shows "copies (copy_from_decoded_cold g wide v (length out) off len) v (lz_copy off len out)"
proof -
  have m: "mem_is (v_mem v) out" "v_len v = length out" using v by (simp_all add: vec_is_def)
  have fixed: "copies (Option.bind (copy_no w (length out - off) (length out) (v_mem v))
      (\<lambda>m. Some (Inr (publish m (length out + len))))) v (lz_copy off len out)"
    if "len \<le> w" "w \<le> off" "g \<or> w \<le> vec_cap v - length out" "w \<le> 64" "0 < w" for w
    using copy_no_publish [OF m(1) off that(2) _ that(1)] that room
    by (intro bind_publish) (auto simp: vec_cap_def)
  have chk: "checked_add USIZE_MAX (length out - off) len = Some (length out - off + len)"
    using small by (simp add: checked_add_def USIZE_MAX_def)
  consider (t32) "wide \<and> len \<le> 32 \<and> 32 \<le> off \<and> (g \<or> 32 \<le> vec_cap v - length out)"
    | (t64) "\<not> (wide \<and> len \<le> 32 \<and> 32 \<le> off \<and> (g \<or> 32 \<le> vec_cap v - length out))"
        "wide \<and> len \<le> 64 \<and> 64 \<le> off \<and> (g \<or> 64 \<le> vec_cap v - length out)"
    | (rest) "\<not> (wide \<and> len \<le> 32 \<and> 32 \<le> off \<and> (g \<or> 32 \<le> vec_cap v - length out))"
        "\<not> (wide \<and> len \<le> 64 \<and> 64 \<le> off \<and> (g \<or> 64 \<le> vec_cap v - length out))" by blast
  then show ?thesis
  proof cases
    case t32
    then show ?thesis using fixed [of 32] by (simp add: copy_from_decoded_cold_def Let_def)
  next
    case t64
    have "copy_from_decoded_cold g wide v (length out) off len =
        Option.bind (copy_no 64 (length out - off) (length out) (v_mem v))
          (\<lambda>m. Some (Inr (publish m (length out + len))))"
      unfolding copy_from_decoded_cold_def Let_def if_not_P [OF t64(1)] if_P [OF t64(2)] by (rule refl)
    then show ?thesis using fixed [of 64] t64(2) by simp
  next
    case rest
    have cold: "copy_from_decoded_cold g wide v (length out) off len =
        (if off = 1 then
           if g then Option.bind (write_bytes (length out) (v_mem v ! (length out - off)) len (v_mem v))
               (\<lambda>m. Some (Inr (publish m (length out + len))))
           else Some (Inr (vec_extend (replicate len (v_mem v ! (length out - off))) v))
         else if len \<le> off then
           if g \<and> 32 \<le> off then Option.bind (stride_copy 32 (length out - off) (length out) len 0 (v_mem v))
               (\<lambda>m. Some (Inr (publish m (length out + len))))
           else Some (Inr (vec_within (length out - off) (length out - off + len) v))
         else overlap_loop (length out - off) len off 0 (vec_reserve len v))"
      unfolding copy_from_decoded_cold_def Let_def if_not_P [OF rest(1)] if_not_P [OF rest(2)]
      using off by (auto simp: chk m(2))
    consider "off = 1" "g" | "off = 1" "\<not> g" | "off \<noteq> 1" "len \<le> off" "g" "32 \<le> off"
      | "off \<noteq> 1" "len \<le> off" "\<not> (g \<and> 32 \<le> off)" | "off \<noteq> 1" "off < len" by linarith
    then show ?thesis
    proof cases
      case 1
      have "out \<noteq> []" using off by auto
      then show ?thesis
        using write_bytes_ok [OF m(1), of len] 1 room
        unfolding cold if_P [OF 1(1)] if_P [OF 1(2)]
        by (intro bind_publish) (auto simp: vec_cap_def)
    next
      case 2
      have "v_mem v ! (length out - 1) = Some (out ! (length out - 1))"
        using m(1) off by (intro mem_is_nth) auto
      moreover have "out @ replicate len (out ! (length out - 1)) = lz_copy 1 len out"
        using off lz_copy_closed [of 1 out len] by (simp add: map_replicate_const)
      ultimately show ?thesis
        using vec_extend_is [OF v, of "replicate len (out ! (length out - 1))"] vec_extend_cap [OF v]
        unfolding cold if_P [OF 2(1)] if_not_P [OF 2(2)] unfolding 2(1)
        by (intro copiesI [OF refl]) simp_all
    next
      case 3
      have "\<exists>m'. stride_copy 32 (length out - off) (length out) len 0 (v_mem v) = Some m'
          \<and> length m' = length (v_mem v) \<and> mem_is m' (lz_copy off len out)"
        using stride_copy_ok [of "v_mem v" off 0 out 32 len] m(1) off 3 room by (auto simp: vec_cap_def)
      then show ?thesis
        unfolding cold if_not_P [OF 3(1)] if_P [OF 3(2)] if_P [OF conjI [OF 3(3,4)]]
        by (intro bind_publish) auto
    next
      case 4
      have "length out - off + len \<le> length out" using 4 off by linarith
      then show ?thesis
        using vec_within_is [OF v, of "length out - off" len] lz_copy_block [OF off 4(2)]
        unfolding cold if_not_P [OF 4(1)] if_P [OF 4(2)] if_not_P [OF 4(3)]
        by (intro copiesI [OF refl]) simp_all
    next
      case 5
      have v1: "vec_is (vec_reserve len v) (lz_copy off 0 out)" using vec_reserve_is(1) [OF v] by simp
      obtain v' where "overlap_loop (length out - off) len (off + 0) 0 (vec_reserve len v) = Some (Inr v')"
          "vec_is v' (lz_copy off len out)" "vec_cap (vec_reserve len v) \<le> vec_cap v'"
        using overlap_loop_ok [OF v1 off _ _ small] by auto
      then show ?thesis
        using 5 vec_reserve_is(2) [of v len] by (auto simp: cold copies_def)
    qed
  qed
qed

lemma body_ok:
  assumes v: "vec_is v out" and src: "src < length out" and len: "0 < len" and small: "length out + len < 2 ^ 63"
  shows "copies (copy_from_decoded_body v src len wide) v (lz_copy (length out - src) len out)"
proof (cases "wide \<and> len \<le> 16 \<and> 16 \<le> length out - src \<and> 16 \<le> vec_cap v - length out")
  case True
  have m: "mem_is (v_mem v) out" "v_len v = length out" using v by (simp_all add: vec_is_def)
  have "\<exists>m'. copy_no 16 (length out - (length out - src)) (length out) (v_mem v) = Some m'
      \<and> length m' = length (v_mem v) \<and> mem_is m' (lz_copy (length out - src) len out)"
    using True src by (intro copy_no_publish [OF m(1)]) (auto simp: vec_cap_def)
  then show ?thesis
    using True src by (simp add: copy_from_decoded_body_def Let_def m(2)) (intro bind_publish, auto)
next
  case False
  then show ?thesis
    using cold_ok [OF v, of "length out - src" len False wide] src len small v
    by (auto simp: copy_from_decoded_body_def Let_def vec_is_def)
qed

lemma hot_ok:
  assumes v: "vec_is v out" and off: "1 \<le> off" "off \<le> length out" and len: "0 < len"
    and small: "length out + len < 2 ^ 63" and room: "length out + len + 64 \<le> vec_cap v"
  shows "copies (copy_from_decoded_hot v (length out) off len wide) v (lz_copy off len out)"
proof (cases "wide \<and> len \<le> 16 \<and> 16 \<le> off")
  case True
  have m: "mem_is (v_mem v) out" using v by (simp add: vec_is_def)
  then show ?thesis
    using copy_no_publish [OF m off, of 16 len] True room
    by (simp add: copy_from_decoded_hot_def) (intro bind_publish, auto simp: vec_cap_def)
next
  case False
  show ?thesis
    unfolding copy_from_decoded_hot_def if_not_P [OF False] by (rule cold_ok [OF v off len small room])
qed

section \<open>The raw rungs of the sequence loop\<close>

lemma match_cold_raw_ok:
  assumes m: "mem_is m out" and off: "1 \<le> off" "off \<le> length out" and room: "length out + len + 64 \<le> length m"
  shows "match_cold_raw m (length out) off len = Some None \<and> 2 \<le> off \<and> off < 32
    \<or> (\<exists>m'. match_cold_raw m (length out) off len = Some (Some (m', length out + len))
        \<and> length m' = length m \<and> mem_is m' (lz_copy off len out))"
proof -
  have fixed: "\<exists>m'. copy_no w (length out - off) (length out) m = Some m' \<and> length m' = length m
      \<and> mem_is m' (lz_copy off len out)" if "len \<le> w" "w \<le> off" "w \<le> 64" for w
    using that room by (intro copy_no_publish [OF m off]) auto
  have stride: "\<exists>m'. stride_copy w (length out - off) (length out) len 0 m = Some m' \<and> length m' = length m
      \<and> mem_is m' (lz_copy off len out)" if "0 < w" "w \<le> off" "w \<le> 64" for w
    using that room m off by (intro stride_copy_ok) auto
  have splat: "off = 1 \<Longrightarrow> \<exists>m'. write_bytes (length out) (m ! (length out - 1)) len m = Some m' \<and> length m' = length m
      \<and> mem_is m' (lz_copy 1 len out)"
    using room off by (intro write_bytes_ok [OF m]) auto
  consider "len \<le> 32" "32 \<le> off" | "\<not> (len \<le> 32 \<and> 32 \<le> off)" "len \<le> 64" "64 \<le> off"
    | "\<not> (len \<le> 32 \<and> 32 \<le> off)" "\<not> len \<le> 64" "64 \<le> off"
    | "\<not> (len \<le> 32 \<and> 32 \<le> off)" "\<not> 64 \<le> off" "32 \<le> off" | "off = 1" | "off < 32" "off \<noteq> 1" by linarith
  then show ?thesis
  proof cases
    case 1
    then show ?thesis using fixed [of 32] by (auto simp: match_cold_raw_def)
  next
    case 2
    then show ?thesis using fixed [of 64] by (auto simp: match_cold_raw_def)
  next
    case 3
    then show ?thesis using stride [of 64] by (auto simp: match_cold_raw_def)
  next
    case 4
    then show ?thesis using stride [of 32] by (auto simp: match_cold_raw_def)
  next
    case 5
    then show ?thesis using splat by (auto simp: match_cold_raw_def)
  next
    case 6
    then show ?thesis using off by (auto simp: match_cold_raw_def)
  qed
qed

lemma copy_in_publish:
  assumes "mem_is m out" "p + w \<le> length lits" "length out + w \<le> length m" "n \<le> w"
  shows "\<exists>m'. copy_in w lits p (length out) m = Some m' \<and> length m' = length m
    \<and> mem_is m' (out @ take n (drop p lits))"
proof -
  let ?m = "put m (length out) (map Some (take w (drop p lits)))"
  have "mem_is ?m (out @ take w (drop p lits))" by (rule put_mem_is [OF assms(1)])
  then have "mem_is ?m (take (length out + n) (out @ take w (drop p lits)))" by (rule mem_is_take)
  then show ?thesis using assms by (simp add: copy_in_def min_absorb1)
qed

lemma lit_cold_raw_ok:
  assumes m: "mem_is m out" and rm: "rm = length lits - p" "p \<le> length lits" "n \<le> rm"
    and room: "length out + n + 64 \<le> length m"
  shows "lit_cold_raw lits p rm m (length out) n = Some None
    \<or> (\<exists>m'. lit_cold_raw lits p rm m (length out) n = Some (Some (p + n, m', length out + n))
        \<and> length m' = length m \<and> mem_is m' (out @ take n (drop p lits)))"
proof -
  have fixed: "\<exists>m'. copy_in w lits p (length out) m = Some m' \<and> length m' = length m
      \<and> mem_is m' (out @ take n (drop p lits))" if "n \<le> w" "w \<le> rm" "w \<le> 64" for w
    using that rm room by (intro copy_in_publish [OF m]) auto
  show ?thesis
    using fixed [of 32] fixed [of 64] by (auto simp: lit_cold_raw_def)
qed

section \<open>The checked entries\<close>

text \<open>C35: without a dictionary a match copy rejects exactly the offsets outside \<open>1 .. min(produced,
  window)\<close>, and otherwise the output grows by the byte-at-a-time copy, whichever width, stride,
  splat or doubling loop moved the bytes: no raw move leaves the allocation, reads an uninitialised
  cell or overlaps itself, given the 64 bytes of slack the block reserves.\<close>

theorem copy_match_nodict_exact:
  assumes "vec_is v out" "0 < len" "off < 2 ^ 32" "length out + len < 2 ^ 63" "length out + len + 64 \<le> vec_cap v"
  shows "if 1 \<le> off \<and> off \<le> min (length out) win_lim
    then copies (copy_match_nodict v (length out) off len win_lim wide) v (lz_copy off len out)
    else copy_match_nodict v (length out) off len win_lim wide = Some (Inl Corruption)"
proof -
  have w: "min (length out) win_lim \<le> wrapping_sub64 off 1 \<longleftrightarrow> \<not> (1 \<le> off \<and> off \<le> min (length out) win_lim)"
    using assms(3,4) by (auto simp: wrapping_sub64_def)
  show ?thesis
  proof (cases "1 \<le> off \<and> off \<le> min (length out) win_lim")
    case True
    then have "\<not> min (length out) win_lim \<le> wrapping_sub64 off 1" using w by blast
    then show ?thesis
      unfolding copy_match_nodict_def if_P [OF True]
      using hot_ok [OF assms(1) _ _ assms(2,4,5), of off wide] True by simp
  next
    case False
    then have bad: "min (length out) win_lim \<le> wrapping_sub64 off 1" using w by blast
    show ?thesis unfolding copy_match_nodict_def if_not_P [OF False] if_P [OF bad] by (rule refl)
  qed
qed

definition sample_vec :: vec where
  "sample_vec = \<lparr> v_mem = map Some [1, 2, 3] @ replicate 80 None, v_len = 3 \<rparr>"

lemma sample_vec_is: "vec_is sample_vec [1, 2, 3]" "vec_cap sample_vec = 83"
  by (simp_all add: sample_vec_def vec_is_def mem_is_def vec_cap_def)

theorem copy_match_nodict_exact_witness:
  "copies (copy_match_nodict sample_vec 3 2 5 100 True) sample_vec [1, 2, 3, 2, 3, 2, 3, 2]"
proof -
  have "lz_copy 2 5 [1, 2, 3 :: u8] = [1, 2, 3, 2, 3, 2, 3, 2]" by (simp add: eval_nat_numeral)
  moreover have "copies (copy_match_nodict sample_vec (length [1, 2, 3 :: u8]) 2 5 100 True) sample_vec
      (lz_copy 2 5 [1, 2, 3])"
    using copy_match_nodict_exact [OF sample_vec_is(1), of 5 2 100 True] by (simp add: sample_vec_is(2))
  ultimately show ?thesis by (simp add: numeral_3_eq_3)
qed

text \<open>The reference of the general copy: one byte at a time over dictionary, then the part of the
  frame no longer held, then the frame bytes in the vector.\<close>

definition match_byte :: "match_ctx \<Rightarrow> nat \<Rightarrow> bytes \<Rightarrow> u8 res" where
  "match_byte ctx off out =
     (let dict = mc_dict ctx; skipped = mc_frame_skipped ctx; start = mc_frame_start ctx;
          pos = length dict + (length out - start + skipped) - off
      in if pos < length dict then Inr (dict ! pos)
         else if pos - length dict < skipped then Inl Corruption
         else Inr (out ! (start + (pos - length dict - skipped))))"

fun match_push :: "match_ctx \<Rightarrow> nat \<Rightarrow> nat \<Rightarrow> bytes \<Rightarrow> bytes res" where
  "match_push ctx off 0 out = Inr out"
| "match_push ctx off (Suc n) out = rbind (match_byte ctx off out) (\<lambda>b. match_push ctx off n (out @ [b]))"

definition match_ref :: "match_ctx \<Rightarrow> nat \<Rightarrow> nat \<Rightarrow> bytes \<Rightarrow> bytes res" where
  "match_ref ctx off len out =
     (let dict = mc_dict ctx;
          virtual_len = length dict + (length out - mc_frame_start ctx + mc_frame_skipped ctx)
      in if off = 0 \<or> virtual_len < off then Inl Corruption
         else if length dict + off \<le> virtual_len \<and> mc_window_size ctx < off then Inl Corruption
         else if mc_block_max ctx < len then Inl Corruption
         else match_push ctx off len out)"

lemma match_push_add: "match_push ctx off (a + b) out = rbind (match_push ctx off a out) (match_push ctx off b)"
  by (induction ctx off a out rule: match_push.induct) (auto simp: rbind_def split: sum.splits)

text \<open>The virtual position of the next byte, counted from the start of the dictionary.\<close>

definition virt :: "match_ctx \<Rightarrow> bytes \<Rightarrow> nat" where
  "virt ctx out = length (mc_dict ctx) + (length out - mc_frame_start ctx + mc_frame_skipped ctx)"

lemma virt_snoc: "mc_frame_start ctx \<le> length out \<Longrightarrow> virt ctx (out @ xs) = virt ctx out + length xs"
  by (simp add: virt_def)

lemma match_byte_dict: "virt ctx out - off < length (mc_dict ctx) \<Longrightarrow>
    match_byte ctx off out = Inr (mc_dict ctx ! (virt ctx out - off))"
  by (simp add: match_byte_def Let_def virt_def)

lemma match_byte_gap: "length (mc_dict ctx) \<le> virt ctx out - off \<Longrightarrow>
    virt ctx out - off < length (mc_dict ctx) + mc_frame_skipped ctx \<Longrightarrow> match_byte ctx off out = Inl Corruption"
  unfolding match_byte_def Let_def virt_def [symmetric] by auto

lemma match_byte_frame:
  assumes "mc_frame_start ctx \<le> length out" "off \<le> length out - mc_frame_start ctx"
  shows "match_byte ctx off out = Inr (out ! (length out - off))"
proof -
  have p: "virt ctx out - off = length (mc_dict ctx) + mc_frame_skipped ctx + (length out - mc_frame_start ctx - off)"
    using assms by (simp add: virt_def)
  have "mc_frame_start ctx + (length out - mc_frame_start ctx - off) = length out - off" using assms by simp
  then show ?thesis unfolding match_byte_def Let_def virt_def [symmetric] p by simp
qed

lemma match_push_frame:
  assumes "mc_frame_start ctx \<le> length out" "off \<le> length out - mc_frame_start ctx"
  shows "match_push ctx off n out = Inr (lz_copy off n out)"
  using assms
proof (induction n arbitrary: out)
  case (Suc n)
  have "match_push ctx off n (out @ [out ! (length out - off)]) = Inr (lz_copy off n (out @ [out ! (length out - off)]))"
    using Suc.prems by (intro Suc.IH) auto
  then show ?case using match_byte_frame [OF Suc.prems] by simp
qed simp

lemma match_push_dict:
  assumes "mc_frame_start ctx \<le> length out" "off \<le> virt ctx out" "virt ctx out - off + n \<le> length (mc_dict ctx)"
  shows "match_push ctx off n out = Inr (out @ take n (drop (virt ctx out - off) (mc_dict ctx)))"
  using assms
proof (induction n arbitrary: out)
  case (Suc n)
  let ?p = "virt ctx out - off" and ?b = "mc_dict ctx ! (virt ctx out - off)"
  have p: "?p < length (mc_dict ctx)" using Suc.prems(3) by simp
  have next_p: "virt ctx (out @ [?b]) - off = Suc ?p" using Suc.prems(1,2) by (simp add: virt_snoc)
  have "match_push ctx off n (out @ [?b]) = Inr ((out @ [?b]) @ take n (drop (Suc ?p) (mc_dict ctx)))"
    using Suc.IH [of "out @ [?b]"] Suc.prems unfolding next_p by (simp add: virt_snoc)
  moreover have "take (Suc n) (drop ?p (mc_dict ctx)) = ?b # take n (drop (Suc ?p) (mc_dict ctx))"
    by (simp add: Cons_nth_drop_Suc [OF p, symmetric])
  ultimately show ?case using match_byte_dict [OF p] by simp
qed simp

lemma copy_from_decoded_ok:
  assumes "vec_is v out" "src < length out" "0 < len" "length out + len < 2 ^ 63"
  shows "copies (copy_from_decoded v src len wide) v (lz_copy (length out - src) len out)"
  using body_ok [OF assms, of wide] assms by (simp add: copy_from_decoded_def vec_is_def)

lemma copies_trans: "copies r w out' \<Longrightarrow> vec_cap v \<le> vec_cap w \<Longrightarrow> copies r v out'"
  by (force simp: copies_def)

lemma copy_match_frame:
  assumes "vec_is v out" "mc_frame_start ctx \<le> length out" "0 < len" "length out + len < 2 ^ 63"
    "length out + mc_frame_skipped ctx < 2 ^ 64"
    "off \<noteq> 0" "off \<le> virt ctx out" "\<not> mc_window_size ctx < off" "\<not> mc_block_max ctx < len"
    "length (mc_dict ctx) \<le> virt ctx out - off"
  shows "copy_match v ctx off len =
    (if virt ctx out - off < length (mc_dict ctx) + mc_frame_skipped ctx then Some (Inl Corruption)
     else copy_from_decoded v (length out - off) len (mc_wide ctx))"
proof -
  have vl: "length (mc_dict ctx) + sat_add USIZE_MAX (v_len v - mc_frame_start ctx) (mc_frame_skipped ctx) = virt ctx out"
    using assms(1,5) by (simp add: sat_add_def USIZE_MAX_def virt_def vec_is_def)
  have src: "mc_frame_start ctx + (virt ctx out - off - length (mc_dict ctx) - mc_frame_skipped ctx) = length out - off"
    if "\<not> virt ctx out - off < length (mc_dict ctx) + mc_frame_skipped ctx"
    using that assms(2,7) unfolding virt_def by linarith
  have nlt: "\<not> virt ctx out < off" using assms(7) by simp
  have gap: "virt ctx out - off - length (mc_dict ctx) < mc_frame_skipped ctx \<longleftrightarrow>
      virt ctx out - off < length (mc_dict ctx) + mc_frame_skipped ctx"
    using assms(10) by linarith
  show ?thesis
    unfolding copy_match_def Let_def vl gap
    using assms(6,8,9,10) nlt src by simp
qed

lemma copy_match_dict:
  assumes "vec_is v out" "length out + mc_frame_skipped ctx < 2 ^ 64"
    "off \<noteq> 0" "off \<le> virt ctx out" "\<not> mc_block_max ctx < len" "virt ctx out - off < length (mc_dict ctx)"
    "n = min len (length (mc_dict ctx) - (virt ctx out - off))"
    "w = vec_extend (map Some (take n (drop (virt ctx out - off) (mc_dict ctx)))) (vec_reserve len v)"
  shows "copy_match v ctx off len =
    (if n < len then if 0 < mc_frame_skipped ctx then Some (Inl Corruption)
       else copy_from_decoded w (mc_frame_start ctx) (len - n) (mc_wide ctx)
     else Some (Inr w))"
proof -
  have vl: "length (mc_dict ctx) + sat_add USIZE_MAX (v_len v - mc_frame_start ctx) (mc_frame_skipped ctx) = virt ctx out"
    using assms(1,2) by (simp add: sat_add_def USIZE_MAX_def virt_def vec_is_def)
  have nlt: "\<not> virt ctx out < off" "\<not> length (mc_dict ctx) \<le> virt ctx out - off" using assms(4,6) by simp_all
  have sl: "slice_from (mc_dict ctx) (virt ctx out - off) = Some (drop (virt ctx out - off) (mc_dict ctx))"
    using assms(6) by (simp add: slice_from_def)
  have rest: "0 < len - n \<longleftrightarrow> n < len" by auto
  show ?thesis
    unfolding copy_match_def Let_def vl assms(8)
    using assms(3,5) nlt by (simp add: sl assms(7) rest [unfolded assms(7)])
qed

lemma copy_match_ok:
  assumes "vec_is v out" "mc_frame_start ctx \<le> length out" "0 < len" "length out + len < 2 ^ 63"
    "length out + mc_frame_skipped ctx < 2 ^ 64"
  shows "case match_ref ctx off len out of
      Inl e \<Rightarrow> copy_match v ctx off len = Some (Inl e)
    | Inr out' \<Rightarrow> copies (copy_match v ctx off len) v out'"
proof -
  let ?d = "mc_dict ctx" and ?sk = "mc_frame_skipped ctx" and ?fs = "mc_frame_start ctx"
  have len_v: "v_len v = length out" using assms(1) by (simp add: vec_is_def)
  have vl: "length ?d + sat_add USIZE_MAX (v_len v - ?fs) ?sk = virt ctx out"
    using assms(5) by (simp add: sat_add_def USIZE_MAX_def virt_def len_v)
  have ref: "match_ref ctx off len out =
      (if off = 0 \<or> virt ctx out < off then Inl Corruption
       else if length ?d + off \<le> virt ctx out \<and> mc_window_size ctx < off then Inl Corruption
       else if mc_block_max ctx < len then Inl Corruption else match_push ctx off len out)"
    by (simp add: match_ref_def virt_def)
  consider "off = 0 \<or> virt ctx out < off"
    | "off \<noteq> 0" "off \<le> virt ctx out"
      "length ?d \<le> virt ctx out - off \<and> mc_window_size ctx < off \<or> mc_block_max ctx < len"
    | "off \<noteq> 0" "off \<le> virt ctx out"
      "\<not> (length ?d \<le> virt ctx out - off \<and> mc_window_size ctx < off)" "\<not> mc_block_max ctx < len"
    by linarith
  then show ?thesis
  proof cases
    case 1
    then show ?thesis by (auto simp: ref copy_match_def Let_def vl)
  next
    case 2
    then show ?thesis by (auto simp: ref copy_match_def Let_def vl)
  next
    case 3
    have ref3: "match_ref ctx off len out = match_push ctx off len out"
      using 3 by (auto simp: ref)
    show ?thesis
    proof (cases "length ?d \<le> virt ctx out - off")
      case True
      have win: "\<not> mc_window_size ctx < off" using True 3 by simp
      note cm = copy_match_frame [OF assms 3(1,2) win 3(4) True]
      show ?thesis
      proof (cases "virt ctx out - off < length ?d + ?sk")
        case gap: True
        obtain k where "len = Suc k" using assms(3) gr0_conv_Suc by blast
        then show ?thesis
          using match_byte_gap [OF True gap] gap unfolding ref3 cm by simp
      next
        case False
        have off: "off \<le> length out - ?fs" using False 3(2) unfolding virt_def by linarith
        have src: "length out - off < length out" "length out - (length out - off) = off"
          using off 3(1) by linarith+
        show ?thesis
          using match_push_frame [OF assms(2) off, of len] False
            copy_from_decoded_ok [OF assms(1) src(1) assms(3,4), of "mc_wide ctx"]
          unfolding ref3 cm src(2) by simp
      qed
    next
      case False
      then have pos: "virt ctx out - off < length ?d" by simp
      define n where "n = min len (length ?d - (virt ctx out - off))"
      define dict_part where "dict_part = take n (drop (virt ctx out - off) ?d)"
      define w where "w = vec_extend (map Some dict_part) (vec_reserve len v)"
      note cm = copy_match_dict [OF assms(1,5) 3(1,2,4) pos n_def w_def [unfolded dict_part_def]]
      have n: "0 < n" "n \<le> len" "virt ctx out - off + n \<le> length ?d" using pos assms(3) by (auto simp: n_def)
      have plen: "length dict_part = n" using n by (simp add: dict_part_def)
      have push: "match_push ctx off n out = Inr (out @ dict_part)"
        unfolding dict_part_def by (rule match_push_dict [OF assms(2) 3(2) n(3)])
      have w_is: "vec_is w (out @ dict_part)" "vec_cap v \<le> vec_cap w"
        using vec_extend_is [OF vec_reserve_is(1) [OF assms(1)]] vec_reserve_is(2) [of v len]
          vec_extend_cap [OF vec_reserve_is(1) [OF assms(1)]]
        by (auto simp: w_def intro: order_trans)
      show ?thesis
      proof (cases "n < len")
        case True
        define k where "k = len - n"
        have k: "0 < k" "len = n + k" "len - n = k" using True by (simp_all add: k_def)
        have edge: "virt ctx (out @ dict_part) - off = length ?d" "off \<le> virt ctx (out @ dict_part)"
          using True 3(2) pos assms(2) by (auto simp: virt_snoc plen n_def)
        have split: "match_push ctx off len out = match_push ctx off k (out @ dict_part)"
          unfolding k(2) match_push_add push by simp
        show ?thesis
        proof (cases "0 < ?sk")
          case skip: True
          obtain j where "k = Suc j" using k(1) gr0_conv_Suc by blast
          then show ?thesis
            using match_byte_gap [of ctx "out @ dict_part" off] edge skip True
            unfolding ref3 cm split k(3) by simp
        next
          case noskip: False
          have off: "off = length (out @ dict_part) - ?fs" "?fs \<le> length (out @ dict_part)"
            using edge noskip assms(2) unfolding virt_def by auto
          have lt: "?fs < length (out @ dict_part)" using assms(2) n(1) plen by simp
          have small: "length (out @ dict_part) + k < 2 ^ 63" using assms(4) k(2) plen by simp
          have "match_push ctx off k (out @ dict_part) = Inr (lz_copy off k (out @ dict_part))"
            by (rule match_push_frame [OF off(2)]) (simp add: off(1))
          then show ?thesis
            using copies_trans [OF copy_from_decoded_ok [OF w_is(1) lt k(1) small, of "mc_wide ctx"] w_is(2)] True noskip
            unfolding ref3 cm split k(3) off(1) [symmetric] by simp
        qed
      next
        case False
        then have "n = len" using n(2) by simp
        then show ?thesis using push w_is unfolding ref3 cm by (auto simp: copies_def)
      qed
    qed
  qed
qed

text \<open>C34: the general match copy (dictionary, retained history, skipped prefix of the frame) is the
  byte-at-a-time copy over the virtual buffer: same error on every branch, same bytes otherwise,
  with the copy split once at the end of the dictionary instead of tested on every byte.\<close>

theorem copy_match_refines:
  assumes "vec_is v out" "mc_frame_start ctx \<le> length out" "0 < len" "length out + len < 2 ^ 63"
    "length out + mc_frame_skipped ctx < 2 ^ 64"
  shows "case match_ref ctx off len out of
      Inl e \<Rightarrow> copy_match v ctx off len = Some (Inl e)
    | Inr out' \<Rightarrow> copies (copy_match v ctx off len) v out'"
  by (rule copy_match_ok [OF assms])

definition sample_ctx :: match_ctx where
  "sample_ctx = \<lparr> mc_dict = [7, 8, 9], mc_frame_start = 0, mc_frame_skipped = 0, mc_window_size = 16,
    mc_block_max = 100, mc_wide = True \<rparr>"

theorem copy_match_refines_witness:
  "copies (copy_match sample_vec sample_ctx 4 3) sample_vec [1, 2, 3, 9, 1, 2]"
proof -
  have "match_ref sample_ctx 4 3 [1, 2, 3] = Inr [1, 2, 3, 9, 1, 2]"
    by (simp add: match_ref_def match_byte_def sample_ctx_def eval_nat_numeral rbind_def)
  then show ?thesis
    using copy_match_refines [OF sample_vec_is(1), of sample_ctx 3 4] by (simp add: sample_ctx_def)
qed

section \<open>Literal copies publish exactly the literals\<close>

definition lits_copied :: "(nat \<times> vec) res option \<Rightarrow> vec \<Rightarrow> nat \<Rightarrow> bytes \<Rightarrow> bool" where
  "lits_copied r v e out' \<longleftrightarrow>
     (\<exists>v'. r = Some (Inr (e, v')) \<and> vec_is v' out' \<and> vec_cap v \<le> vec_cap v')"

lemma bind_publish_lits:
  assumes "\<exists>m'. r = Some m' \<and> length m' = length (v_mem v) \<and> mem_is m' out'" "k = length out'"
  shows "lits_copied (Option.bind r (\<lambda>m. Some (Inr (e, publish m k)))) v e out'"
  using assms publish_is by (auto simp: lits_copied_def vec_cap_def)

lemma lits_fixed:
  assumes "vec_is v out" "w \<le> vec_cap v - length out" "p + w \<le> length lits" "n \<le> w"
  shows "lits_copied (Option.bind (copy_in w lits p (length out) (v_mem v))
    (\<lambda>m. Some (Inr (p + n, publish m (length out + n))))) v (p + n) (out @ take n (drop p lits))"
proof -
  have m: "mem_is (v_mem v) out" and fit: "length out \<le> vec_cap v"
    using assms(1) by (auto simp: vec_is_def mem_is_def vec_cap_def)
  have room: "length out + w \<le> length (v_mem v)" using assms(2) fit by (simp add: vec_cap_def)
  show ?thesis
    using copy_in_publish [OF m assms(3) room assms(4)] assms(3,4) by (intro bind_publish_lits) auto
qed

lemma copy_literals_cold_ok:
  assumes v: "vec_is v out" and n: "p \<le> length lits" "n \<le> length lits - p"
  shows "lits_copied (copy_literals_cold arm lits p (p + n) n v (length out)) v (p + n) (out @ take n (drop p lits))"
proof -
  have sl: "slice_get lits p (p + n) = Some (take n (drop p lits))"
    using n by (simp add: slice_get_def)
  have safe: "lits_copied (Some (rbind (ok_or (slice_get lits p (p + n)) Corruption)
      (\<lambda>chunk. Inr (p + n, vec_extend (map Some chunk) v)))) v (p + n) (out @ take n (drop p lits))"
    using vec_extend_is [OF v] vec_extend_cap [OF v] by (simp add: sl lits_copied_def ok_or_def rbind_def)
  show ?thesis
    using lits_fixed [OF v, of 32 p lits n] lits_fixed [OF v, of 64 p lits n] safe
    unfolding copy_literals_cold_def by (simp split: if_split)
qed

text \<open>The literal copies, checked and hot, take exactly the next \<open>n\<close> literals or report
  corruption when fewer remain; the 16, 32 and 64-byte over-copies never show in the output.\<close>

theorem copy_literals_exact:
  assumes "vec_is v out" "p \<le> length lits"
  shows "if n \<le> length lits - p
    then lits_copied (copy_literals lits p n v arm) v (p + n) (out @ take n (drop p lits))
      \<and> (16 \<le> vec_cap v - length out \<longrightarrow>
         lits_copied (copy_literals_hot lits p n v arm (length out)) v (p + n) (out @ take n (drop p lits)))
    else copy_literals lits p n v arm = Some (Inl Corruption)
      \<and> copy_literals_hot lits p n v arm (length out) = Some (Inl Corruption)"
proof (cases "n \<le> length lits - p")
  case True
  have len: "v_len v = length out" using assms(1) by (simp add: vec_is_def)
  have nlt: "\<not> length lits - p < n" using True by simp
  show ?thesis
    using lits_fixed [OF assms(1), of 16 p lits n] copy_literals_cold_ok [OF assms True, of arm] nlt
    unfolding copy_literals_def copy_literals_hot_def Let_def len by (simp split: if_split)
next
  case False
  then show ?thesis by (simp add: copy_literals_def copy_literals_hot_def)
qed

theorem copy_literals_exact_witness:
  "lits_copied (copy_literals_hot [5, 6, 7, 8] 1 2 sample_vec True 3) sample_vec 3 [1, 2, 3, 6, 7]"
proof -
  have "(2 :: nat) \<le> length [5, 6, 7, 8 :: u8] - 1" "16 \<le> vec_cap sample_vec - length [1, 2, 3 :: u8]"
    by (simp_all add: sample_vec_is(2))
  then have "lits_copied (copy_literals_hot [5, 6, 7, 8] 1 2 sample_vec True (length [1, 2, 3 :: u8])) sample_vec
      (1 + 2) ([1, 2, 3] @ take 2 (drop 1 [5, 6, 7, 8]))"
    using copy_literals_exact [OF sample_vec_is(1), of 1 "[5, 6, 7, 8]" 2 True] by (simp split: if_splits)
  then show ?thesis by (simp add: numeral_3_eq_3)
qed

end
