(* ===== verification/Seq_Exec.thy ===== *)
theory Seq_Exec
  imports Seq_Reader Match_Copy
begin

text \<open>
  Executing sequences (\<^verbatim>\<open>decode_sequences_inner\<close> of \<^verbatim>\<open>compressed.rs\<close>): one fused test of seven
  wrapping differences guards the two 16-byte copies of the common case, a slow arm re-derives every
  test, and a running budget bounds what a block may produce. Three loops run the same sequences: the
  classic one, the depth-1 interleave and the eight-deep queue.

  All of them are shown to be the byte-at-a-time execution \<open>exec_all_ref\<close> of the decoded sequences.
\<close>

section \<open>One sequence on the raw cursors\<close>

record exec_ctx =
  xc_lits :: bytes
  xc_match :: match_ctx
  xc_litcopy_arm :: bool

definition xc_nodict :: "exec_ctx \<Rightarrow> bool" where
  "xc_nodict X \<longleftrightarrow> mc_dict (xc_match X) = [] \<and> mc_frame_start (xc_match X) = 0 \<and> mc_frame_skipped (xc_match X) = 0"

definition xc_win_lim :: "exec_ctx \<Rightarrow> nat" where
  "xc_win_lim X = min (mc_window_size (xc_match X)) USIZE_MAX"

definition xc_win_eff :: "exec_ctx \<Rightarrow> nat" where
  "xc_win_eff X = (if xc_nodict X then xc_win_lim X else 0)"

text \<open>The cursors: the output's allocation, \<^verbatim>\<open>op\<close>, the literal cursor and the budget. The length the
  \<^verbatim>\<open>Vec\<close> itself records lags behind \<^verbatim>\<open>op\<close> until \<open>publish\<close>.\<close>

record exec_state =
  xs_mem :: mem
  xs_op :: nat
  xs_lit :: nat
  xs_budget :: nat

text \<open>\<^verbatim>\<open>(x as isize) >= 0\<close>.\<close>

definition nonneg64 :: "nat \<Rightarrow> bool" where
  "nonneg64 x \<longleftrightarrow> x < 2 ^ 63"

definition fused_test :: "exec_ctx \<Rightarrow> exec_state \<Rightarrow> seq \<Rightarrow> nat" where
  "fused_test X st s =
     (let n = sq_litlen s; mlen = sq_matchlen s; off = sq_offset s;
          b_ok = wrapping_sub64 (xs_budget st) (n + mlen);
          lit_guard = wrapping_sub64 (length (xc_lits X)) 16
      in b_ok
         OR wrapping_sub64 16 n
         OR wrapping_sub64 lit_guard (xs_lit st)
         OR wrapping_sub64 16 mlen
         OR wrapping_sub64 off 16
         OR wrapping_sub64 (xs_op st) off
         OR wrapping_sub64 (xc_win_eff X) off)"

definition exec_fast :: "exec_ctx \<Rightarrow> exec_state \<Rightarrow> seq \<Rightarrow> exec_state res option" where
  "exec_fast X st s =
     (let n = sq_litlen s; mlen = sq_matchlen s; d = xs_op st + n
      in Option.bind (copy_in 16 (xc_lits X) (xs_lit st) (xs_op st) (xs_mem st)) (\<lambda>m.
         Option.bind (copy_no 16 (d - sq_offset s) d m) (\<lambda>m.
         Some (Inr \<lparr> xs_mem = m, xs_op = xs_op st + (n + mlen), xs_lit = xs_lit st + n,
                    xs_budget = wrapping_sub64 (xs_budget st) (n + mlen) \<rparr>))))"

text \<open>The slow arm: literals, then the match.\<close>

definition slow_literals :: "exec_ctx \<Rightarrow> exec_state \<Rightarrow> nat \<Rightarrow> exec_state res option" where
  "slow_literals X st n =
     (let lits = xc_lits X; lit_off = xs_lit st; lit_rem = length lits - lit_off; arm = xc_litcopy_arm X
      in if arm \<and> nonneg64 (wrapping_sub64 16 n OR wrapping_sub64 lit_rem 16) then
           Option.bind (copy_in 16 lits lit_off (xs_op st) (xs_mem st)) (\<lambda>m.
             Some (Inr (st\<lparr> xs_mem := m, xs_op := xs_op st + n, xs_lit := lit_off + n \<rparr>)))
         else
           Option.bind (if arm then lit_cold_raw lits lit_off lit_rem (xs_mem st) (xs_op st) n else Some None) (\<lambda>raw.
             case raw of
               Some (np, m, nop) \<Rightarrow> Some (Inr (st\<lparr> xs_mem := m, xs_op := nop, xs_lit := np \<rparr>))
             | None \<Rightarrow>
                 Option.bind (copy_literals_cold arm lits lit_off (lit_off + n) n (publish (xs_mem st) (xs_op st)) (xs_op st))
                   (\<lambda>r. Some (rbind r (\<lambda>(p, v).
                     Inr (st\<lparr> xs_mem := v_mem v, xs_op := v_len v, xs_lit := p \<rparr>))))))"

definition slow_match :: "exec_ctx \<Rightarrow> exec_state \<Rightarrow> nat \<Rightarrow> nat \<Rightarrow> exec_state res option" where
  "slow_match X st off mlen =
     (let dst = xs_op st; wide = mc_wide (xc_match X)
      in if min dst (xc_win_eff X) \<le> wrapping_sub64 off 1 then
           if xc_nodict X then Some (Inl Corruption)
           else
             Option.bind (copy_match (publish (xs_mem st) (xs_op st)) (xc_match X) off mlen) (\<lambda>r.
               Some (rbind r (\<lambda>v. Inr (st\<lparr> xs_mem := v_mem v, xs_op := v_len v \<rparr>))))
         else if wide \<and> nonneg64 (wrapping_sub64 off 16 OR wrapping_sub64 16 mlen) then
           Option.bind (copy_no 16 (xs_op st - off) (xs_op st) (xs_mem st)) (\<lambda>m.
             Some (Inr (st\<lparr> xs_mem := m, xs_op := xs_op st + mlen \<rparr>)))
         else
           Option.bind (if wide then match_cold_raw (xs_mem st) (xs_op st) off mlen else Some None) (\<lambda>raw.
             case raw of
               Some (m, nop) \<Rightarrow> Some (Inr (st\<lparr> xs_mem := m, xs_op := nop \<rparr>))
             | None \<Rightarrow>
                 Option.bind (copy_from_decoded_cold True wide (publish (xs_mem st) (xs_op st)) dst off mlen) (\<lambda>r.
                   Some (rbind r (\<lambda>v. Inr (st\<lparr> xs_mem := v_mem v, xs_op := v_len v \<rparr>))))))"

definition exec_slow :: "exec_ctx \<Rightarrow> exec_state \<Rightarrow> seq \<Rightarrow> exec_state res option" where
  "exec_slow X st s =
     (let n = sq_litlen s; mlen = sq_matchlen s;
          b_ok = wrapping_sub64 (xs_budget st) (n + mlen);
          lit_rem = length (xc_lits X) - xs_lit st;
          l_ok = wrapping_sub64 lit_rem n
      in if \<not> nonneg64 (b_ok OR l_ok) then Some (Inl Corruption)
         else
           Option.bind (slow_literals X (st\<lparr> xs_budget := b_ok \<rparr>) n) (\<lambda>r.
             case r of Inl e \<Rightarrow> Some (Inl e) | Inr st \<Rightarrow> slow_match X st (sq_offset s) mlen))"

definition exec_seq :: "exec_ctx \<Rightarrow> exec_state \<Rightarrow> seq \<Rightarrow> exec_state res option" where
  "exec_seq X st s =
     (if xc_litcopy_arm X \<and> mc_wide (xc_match X) \<and> nonneg64 (fused_test X st s)
      then exec_fast X st s else exec_slow X st s)"

text \<open>The queued loops execute through the \<^verbatim>\<open>Vec\<close> entries instead (\<^verbatim>\<open>d11_exec!\<close>).\<close>

record queue_state =
  qs_out :: vec
  qs_lit :: nat
  qs_budget :: nat

definition exec_queued :: "exec_ctx \<Rightarrow> queue_state \<Rightarrow> seq \<Rightarrow> queue_state res option" where
  "exec_queued X st s =
     (let n = sq_litlen s; mlen = sq_matchlen s; need = n + mlen
      in if qs_budget st < need then Some (Inl Corruption)
         else
           let dst0 = v_len (qs_out st)
           in Option.bind (copy_literals_hot (xc_lits X) (qs_lit st) n (qs_out st) (xc_litcopy_arm X) dst0) (\<lambda>r.
                case r of
                  Inl e \<Rightarrow> Some (Inl e)
                | Inr (p, out) \<Rightarrow>
                    Option.bind
                      (if xc_nodict X
                       then copy_match_nodict out (dst0 + n) (sq_offset s) mlen (xc_win_lim X) (mc_wide (xc_match X))
                       else copy_match out (xc_match X) (sq_offset s) mlen) (\<lambda>r.
                      Some (rbind r (\<lambda>out.
                        Inr \<lparr> qs_out = out, qs_lit = p, qs_budget = qs_budget st - need \<rparr>)))))"

section \<open>The reference execution\<close>

record ref_state =
  rs_out :: bytes
  rs_lit :: nat
  rs_budget :: nat

definition exec_ref :: "exec_ctx \<Rightarrow> ref_state \<Rightarrow> seq \<Rightarrow> ref_state res" where
  "exec_ref X st s =
     (let n = sq_litlen s; mlen = sq_matchlen s
      in if rs_budget st < n + mlen \<or> length (xc_lits X) - rs_lit st < n then Inl Corruption
         else rbind (match_ref (xc_match X) (sq_offset s) mlen (rs_out st @ take n (drop (rs_lit st) (xc_lits X)))) (\<lambda>out.
           Inr \<lparr> rs_out = out, rs_lit = rs_lit st + n, rs_budget = rs_budget st - (n + mlen) \<rparr>))"

fun exec_all_ref :: "exec_ctx \<Rightarrow> seq list \<Rightarrow> ref_state \<Rightarrow> ref_state res" where
  "exec_all_ref X [] st = Inr st"
| "exec_all_ref X (s # ss) st = rbind (exec_ref X st s) (exec_all_ref X ss)"

text \<open>What the cursors stand for: the output so far, 64 bytes of slack past whatever the budget still
  allows, and sizes far from the word size.\<close>

definition mem_room :: "exec_ctx \<Rightarrow> mem \<Rightarrow> ref_state \<Rightarrow> bool" where
  "mem_room X m r \<longleftrightarrow> mem_is m (rs_out r) \<and> rs_lit r \<le> length (xc_lits X)
     \<and> length (rs_out r) + rs_budget r + 64 \<le> length m
     \<and> length (rs_out r) + rs_budget r + mc_frame_skipped (xc_match X) < 2 ^ 62
     \<and> length (xc_lits X) < 2 ^ 62 \<and> mc_window_size (xc_match X) < 2 ^ 64
     \<and> mc_frame_start (xc_match X) \<le> length (rs_out r) \<and> rs_budget r \<le> mc_block_max (xc_match X)"

definition cursors :: "exec_ctx \<Rightarrow> exec_state \<Rightarrow> ref_state \<Rightarrow> bool" where
  "cursors X st r \<longleftrightarrow> mem_room X (xs_mem st) r \<and> xs_op st = length (rs_out r) \<and> xs_lit st = rs_lit r \<and> xs_budget st = rs_budget r"

definition queued :: "exec_ctx \<Rightarrow> queue_state \<Rightarrow> ref_state \<Rightarrow> bool" where
  "queued X st r \<longleftrightarrow> mem_room X (v_mem (qs_out st)) r \<and> v_len (qs_out st) = length (rs_out r)
     \<and> qs_lit st = rs_lit r \<and> qs_budget st = rs_budget r"

section \<open>Sign tests\<close>

lemma nonneg64_or [simp]: "nonneg64 (a OR b) \<longleftrightarrow> nonneg64 a \<and> nonneg64 b"
proof -
  have "x < 2 ^ 63 \<longleftrightarrow> drop_bit 63 x = 0" for x :: nat by (simp add: drop_bit_eq_div div_eq_0_iff)
  then show ?thesis by (simp add: nonneg64_def or_eq_0_iff)
qed

lemma nonneg64_sub: "a < 2 ^ 63 \<Longrightarrow> b < 2 ^ 63 \<Longrightarrow> nonneg64 (wrapping_sub64 a b) \<longleftrightarrow> b \<le> a"
  by (auto simp: nonneg64_def wrapping_sub64_def)

lemma nonneg64_subD: "nonneg64 (wrapping_sub64 a b) \<Longrightarrow> b < 2 ^ 63 \<Longrightarrow> b \<le> a"
  by (auto simp: nonneg64_def wrapping_sub64_def split: if_splits)

lemma wrapping_sub64_le: "b \<le> a \<Longrightarrow> wrapping_sub64 a b = a - b"
  by (simp add: wrapping_sub64_def)

lemma lit_guard_iff: "L < 2 ^ 62 \<Longrightarrow> p \<le> L \<Longrightarrow> nonneg64 (wrapping_sub64 (wrapping_sub64 L 16) p) \<Longrightarrow> p + 16 \<le> L"
  by (auto simp: nonneg64_def wrapping_sub64_def split: if_splits)

section \<open>The match side\<close>

text \<open>Without a dictionary the reference copy is \<open>lz_copy\<close> behind the offset guard.\<close>

lemma match_ref_nodict:
  assumes "xc_nodict X" "mc_window_size (xc_match X) < 2 ^ 64" "len \<le> mc_block_max (xc_match X)"
  shows "match_ref (xc_match X) off len out =
    (if 1 \<le> off \<and> off \<le> length out \<and> off \<le> xc_win_lim X then Inr (lz_copy off len out) else Inl Corruption)"
  using assms match_push_frame [of "xc_match X" out off len]
  by (auto simp: match_ref_def Let_def xc_nodict_def xc_win_lim_def USIZE_MAX_def min_def)

lemma match_ref_corrupt: "match_ref ctx off len out = Inl e \<Longrightarrow> e = Corruption"
proof -
  have "match_push ctx off n out = Inl e \<Longrightarrow> e = Corruption" for n
    by (induction n arbitrary: out) (auto simp: rbind_Inl_iff match_byte_def Let_def split: if_splits)
  then show "match_ref ctx off len out = Inl e \<Longrightarrow> e = Corruption"
    by (auto simp: match_ref_def Let_def split: if_splits)
qed

lemma match_ref_extends: "match_ref ctx off len out = Inr out' \<Longrightarrow> \<exists>xs. out' = out @ xs \<and> length xs = len"
proof -
  have "match_push ctx off n out = Inr out' \<Longrightarrow> \<exists>xs. out' = out @ xs \<and> length xs = n" for n
    by (induction n arbitrary: out) (fastforce simp: rbind_Inr_iff)+
  then show "match_ref ctx off len out = Inr out' \<Longrightarrow> \<exists>xs. out' = out @ xs \<and> length xs = len"
    by (auto simp: match_ref_def Let_def split: if_splits)
qed

section \<open>The cursors refine the reference\<close>

text \<open>\<open>tracks\<close>: a run of the code from cursors that stand for \<open>r\<close> ends where the reference ends.\<close>

definition tracks :: "('s \<Rightarrow> ref_state \<Rightarrow> bool) \<Rightarrow> 's res option \<Rightarrow> ref_state res \<Rightarrow> bool" where
  "tracks rel res ref \<longleftrightarrow> (case ref of
     Inl e \<Rightarrow> e = Corruption \<and> res = Some (Inl Corruption)
   | Inr r \<Rightarrow> \<exists>st. res = Some (Inr st) \<and> rel st r)"

lemma vec_is_publish: "mem_is m out \<Longrightarrow> vec_is (publish m (length out)) out"
  by (simp add: vec_is_def publish_def)

text \<open>Literals only move the output and the literal cursor; the budget covers them.\<close>

definition lits_done :: "exec_ctx \<Rightarrow> ref_state \<Rightarrow> nat \<Rightarrow> ref_state" where
  "lits_done X r n = r\<lparr> rs_out := rs_out r @ take n (drop (rs_lit r) (xc_lits X)), rs_lit := rs_lit r + n,
     rs_budget := rs_budget r - n \<rparr>"

lemma mem_room_lits:
  assumes "mem_room X m r" "n \<le> rs_budget r" "n \<le> length (xc_lits X) - rs_lit r"
    "mem_is m' (rs_out r @ take n (drop (rs_lit r) (xc_lits X)))" "length m \<le> length m'"
  shows "mem_room X m' (lits_done X r n)"
  using assms by (auto simp: mem_room_def lits_done_def)

lemma slow_literals_ok:
  assumes c: "mem_room X (xs_mem st) r" "xs_op st = length (rs_out r)" "xs_lit st = rs_lit r"
    and n: "n \<le> rs_budget r" "n \<le> length (xc_lits X) - rs_lit r"
  shows "\<exists>m'. slow_literals X st n = Some (Inr (st\<lparr> xs_mem := m', xs_op := length (rs_out r) + n, xs_lit := rs_lit r + n \<rparr>))
    \<and> mem_room X m' (lits_done X r n)"
proof -
  let ?L = "length (xc_lits X)" and ?o = "rs_out r @ take n (drop (rs_lit r) (xc_lits X))"
  have m: "mem_is (xs_mem st) (rs_out r)" "rs_lit r \<le> ?L" "?L < 2 ^ 62" "n < 2 ^ 62"
    "length (rs_out r) + n + 64 \<le> length (xs_mem st)"
    using c(1) n by (auto simp: mem_room_def)
  have test: "nonneg64 (wrapping_sub64 16 n) \<longleftrightarrow> n \<le> 16" "nonneg64 (wrapping_sub64 (?L - rs_lit r) 16) \<longleftrightarrow> 16 \<le> ?L - rs_lit r"
    using m by (simp_all add: nonneg64_sub)
  have lo: "length ?o = length (rs_out r) + n" using n(2) by simp
  consider (fixed) "xc_litcopy_arm X" "n \<le> 16" "16 \<le> ?L - rs_lit r"
    | (raw) "xc_litcopy_arm X" "\<not> (n \<le> 16 \<and> 16 \<le> ?L - rs_lit r)" | (off) "\<not> xc_litcopy_arm X" by blast
  then show ?thesis
  proof cases
    case fixed
    have fit: "rs_lit r + 16 \<le> ?L" "length (rs_out r) + 16 \<le> length (xs_mem st)" using fixed m(5) by linarith+
    obtain m' where "copy_in 16 (xc_lits X) (rs_lit r) (length (rs_out r)) (xs_mem st) = Some m'" "length m' = length (xs_mem st)"
        "mem_is m' ?o"
      using copy_in_publish [OF m(1) fit fixed(2)] by blast
    then show ?thesis using fixed mem_room_lits [OF c(1) n] by (auto simp: slow_literals_def Let_def test c(2,3))
  next
    case raw
    show ?thesis
    proof (cases "lit_cold_raw (xc_lits X) (rs_lit r) (?L - rs_lit r) (xs_mem st) (length (rs_out r)) n = Some None")
      case True
      obtain v' where v': "copy_literals_cold True (xc_lits X) (rs_lit r) (rs_lit r + n) n (publish (xs_mem st) (length (rs_out r))) (length (rs_out r))
          = Some (Inr (rs_lit r + n, v'))" "vec_is v' ?o" "length (xs_mem st) \<le> vec_cap v'"
        using copy_literals_cold_ok [OF vec_is_publish [OF m(1)] m(2) n(2), of True]
        by (auto simp: lits_copied_def publish_is(2))
      have "v_len v' = length (rs_out r) + n" "mem_is (v_mem v') ?o" "length (xs_mem st) \<le> length (v_mem v')"
        using v'(2,3) lo by (simp_all add: vec_is_def vec_cap_def)
      then show ?thesis using raw True v'(1) mem_room_lits [OF c(1) n]
        by (auto simp: slow_literals_def Let_def test c(2,3))
    next
      case False
      then obtain m' where "lit_cold_raw (xc_lits X) (rs_lit r) (?L - rs_lit r) (xs_mem st) (length (rs_out r)) n
          = Some (Some (rs_lit r + n, m', length (rs_out r) + n))" "length m' = length (xs_mem st)" "mem_is m' ?o"
        using lit_cold_raw_ok [OF m(1) refl m(2) n(2) m(5)] by auto
      then show ?thesis using raw mem_room_lits [OF c(1) n] by (auto simp: slow_literals_def Let_def test c(2,3))
    qed
  next
    case off
    obtain v' where v': "copy_literals_cold False (xc_lits X) (rs_lit r) (rs_lit r + n) n (publish (xs_mem st) (length (rs_out r))) (length (rs_out r))
        = Some (Inr (rs_lit r + n, v'))" "vec_is v' ?o" "length (xs_mem st) \<le> vec_cap v'"
      using copy_literals_cold_ok [OF vec_is_publish [OF m(1)] m(2) n(2), of False]
      by (auto simp: lits_copied_def publish_is(2))
    have "v_len v' = length (rs_out r) + n" "mem_is (v_mem v') ?o" "length (xs_mem st) \<le> length (v_mem v')"
      using v'(2,3) lo by (simp_all add: vec_is_def vec_cap_def)
    then show ?thesis using off v'(1) mem_room_lits [OF c(1) n]
      by (auto simp: slow_literals_def Let_def c(2,3))
  qed
qed

definition match_done :: "ref_state \<Rightarrow> nat \<Rightarrow> bytes \<Rightarrow> ref_state" where
  "match_done r len out' = r\<lparr> rs_out := out', rs_budget := rs_budget r - len \<rparr>"

lemma mem_room_match:
  assumes "mem_room X m r" "len \<le> rs_budget r" "length out' = length (rs_out r) + len" "mem_is m' out'" "length m \<le> length m'"
  shows "mem_room X m' (match_done r len out')"
  using assms by (auto simp: mem_room_def match_done_def)

lemma copies_room:
  assumes "copies res (publish m (length (rs_out r))) out'" "mem_room X m r" "len \<le> rs_budget r"
    "length out' = length (rs_out r) + len"
  obtains v' where "res = Some (Inr v')" "v_len v' = length out'" "mem_room X (v_mem v') (match_done r len out')"
  using assms mem_room_match [OF assms(2,3,4)]
  by (auto simp: copies_def publish_is(2) vec_is_def) (simp add: vec_cap_def)

lemma offset_guard:
  assumes "dst < 2 ^ 62" "off < 2 ^ 32"
  shows "min dst w \<le> wrapping_sub64 off 1 \<longleftrightarrow> \<not> (1 \<le> off \<and> off \<le> dst \<and> off \<le> w)"
proof (cases "off = 0")
  case True
  have "min dst w \<le> dst" by simp
  then show ?thesis using True assms(1) by (simp add: wrapping_sub64_def)
next
  case False
  then have "wrapping_sub64 off 1 = off - 1" by (simp add: wrapping_sub64_le)
  then show ?thesis using False by auto
qed

lemma slow_match_ok:
  assumes c: "mem_room X (xs_mem st) r" "xs_op st = length (rs_out r)"
    and len: "0 < len" "len \<le> rs_budget r" "off < 2 ^ 32"
  shows "case match_ref (xc_match X) off len (rs_out r) of
      Inl e \<Rightarrow> slow_match X st off len = Some (Inl Corruption)
    | Inr out' \<Rightarrow> \<exists>m'. slow_match X st off len = Some (Inr (st\<lparr> xs_mem := m', xs_op := length out' \<rparr>))
        \<and> mem_room X m' (match_done r len out')"
proof -
  let ?out = "rs_out r" and ?m = "xs_mem st" and ?w = "mc_wide (xc_match X)"
  have m: "mem_is ?m ?out" "length ?out + len + 64 \<le> length ?m" "length ?out < 2 ^ 62"
    "length ?out + len < 2 ^ 63" "mc_window_size (xc_match X) < 2 ^ 64" "len \<le> mc_block_max (xc_match X)"
    "mc_frame_start (xc_match X) \<le> length ?out" "length ?out + mc_frame_skipped (xc_match X) < 2 ^ 64"
    using c(1) len(2) by (auto simp: mem_room_def)
  show ?thesis
  proof (cases "xc_nodict X")
    case False
    then have sm: "slow_match X st off len = Option.bind (copy_match (publish ?m (length ?out)) (xc_match X) off len) (\<lambda>r.
        Some (rbind r (\<lambda>v. Inr (st\<lparr> xs_mem := v_mem v, xs_op := v_len v \<rparr>))))"
      by (simp add: slow_match_def Let_def c(2) xc_win_eff_def)
    note ok = copy_match_ok [OF vec_is_publish [OF m(1)] m(7) len(1) m(4,8), of off]
    show ?thesis
    proof (cases "match_ref (xc_match X) off len ?out")
      case (Inl e)
      then show ?thesis using ok match_ref_corrupt [OF Inl] by (simp add: sm)
    next
      case (Inr out')
      then have l: "length out' = length ?out + len" using match_ref_extends by fastforce
      have "copies (copy_match (publish ?m (length ?out)) (xc_match X) off len) (publish ?m (length ?out)) out'"
        using ok Inr by simp
      then obtain v' where "copy_match (publish ?m (length ?out)) (xc_match X) off len = Some (Inr v')" "v_len v' = length out'"
          "mem_room X (v_mem v') (match_done r len out')"
        by (rule copies_room [OF _ c(1) len(2) l])
      then show ?thesis using Inr by (auto simp: sm)
    qed
  next
    case True
    have we: "xc_win_eff X = xc_win_lim X" using True by (simp add: xc_win_eff_def)
    note ref = match_ref_nodict [OF True m(5,6), of off ?out]
    show ?thesis
    proof (cases "1 \<le> off \<and> off \<le> length ?out \<and> off \<le> xc_win_lim X")
      case False
      then have "min (length ?out) (xc_win_eff X) \<le> wrapping_sub64 off 1"
        using offset_guard [OF m(3) len(3)] by (simp add: we)
      then show ?thesis using True unfolding ref if_not_P [OF False] by (simp add: slow_match_def Let_def c(2))
    next
      case good: True
      then have g: "\<not> min (length ?out) (xc_win_eff X) \<le> wrapping_sub64 off 1" and off: "1 \<le> off" "off \<le> length ?out"
        using offset_guard [OF m(3) len(3)] by (auto simp: we)
      have test: "nonneg64 (wrapping_sub64 off 16) \<longleftrightarrow> 16 \<le> off" "nonneg64 (wrapping_sub64 16 len) \<longleftrightarrow> len \<le> 16"
        using len(3) m(4) by (simp_all add: nonneg64_sub)
      have l: "length (lz_copy off len ?out) = length ?out + len" by simp
      note room = mem_room_match [OF c(1) len(2) l]
      have cold: "\<exists>m'. Option.bind (copy_from_decoded_cold True w (publish ?m (length ?out)) (length ?out) off len) (\<lambda>r.
            Some (rbind r (\<lambda>v. Inr (st\<lparr> xs_mem := v_mem v, xs_op := v_len v \<rparr>))))
          = Some (Inr (st\<lparr> xs_mem := m', xs_op := length ?out + len \<rparr>))
          \<and> mem_room X m' (match_done r len (lz_copy off len ?out))" for w
        by (rule copies_room [OF cold_ok [OF vec_is_publish [OF m(1)] off len(1) m(4), of True w] c(1) len(2) l])
          (use m(2) in \<open>auto simp: publish_is(2)\<close>)
      have "\<exists>m'. slow_match X st off len = Some (Inr (st\<lparr> xs_mem := m', xs_op := length ?out + len \<rparr>))
          \<and> mem_room X m' (match_done r len (lz_copy off len ?out))"
      proof (cases "?w \<and> 16 \<le> off \<and> len \<le> 16")
        case True
        then obtain m' where "copy_no 16 (length ?out - off) (length ?out) ?m = Some m'" "length m' = length ?m"
            "mem_is m' (lz_copy off len ?out)"
          using copy_no_publish [OF m(1) off, of 16 len] m(2) by auto
        then show ?thesis using g True room [of m'] by (auto simp: slow_match_def Let_def c(2) test)
      next
        case False
        have sm: "slow_match X st off len = Option.bind (if ?w then match_cold_raw ?m (length ?out) off len else Some None) (\<lambda>raw.
            case raw of
               Some (m, nop) \<Rightarrow> Some (Inr (st\<lparr> xs_mem := m, xs_op := nop \<rparr>))
             | None \<Rightarrow>
                 Option.bind (copy_from_decoded_cold True ?w (publish ?m (length ?out)) (length ?out) off len) (\<lambda>r.
                   Some (rbind r (\<lambda>v. Inr (st\<lparr> xs_mem := v_mem v, xs_op := v_len v \<rparr>)))))"
          using g False by (auto simp: slow_match_def Let_def c(2) test)
        show ?thesis
          using match_cold_raw_ok [OF m(1) off m(2)] cold [of ?w] room unfolding sm by (cases ?w) auto
      qed
      then show ?thesis unfolding ref if_P [OF good] by simp
    qed
  qed
qed

lemma exec_ref_eq:
  assumes "sq_litlen s + sq_matchlen s \<le> rs_budget r" "sq_litlen s \<le> length (xc_lits X) - rs_lit r"
  shows "exec_ref X r s = rbind (match_ref (xc_match X) (sq_offset s) (sq_matchlen s) (rs_out (lits_done X r (sq_litlen s))))
    (\<lambda>out. Inr (match_done (lits_done X r (sq_litlen s)) (sq_matchlen s) out))"
  using assms by (cases r) (simp add: exec_ref_def Let_def lits_done_def match_done_def not_less)

lemma exec_fast_ok:
  assumes c: "cursors X st r" and s: "seq_bounded s" and fused: "nonneg64 (fused_test X st s)"
  shows "tracks (cursors X) (exec_fast X st s) (exec_ref X r s)"
proof -
  define n where "n = sq_litlen s"
  define mlen where "mlen = sq_matchlen s"
  define off where "off = sq_offset s"
  let ?out = "rs_out r" and ?m = "xs_mem st" and ?L = "length (xc_lits X)"
  have st: "xs_op st = length ?out" "xs_lit st = rs_lit r" "xs_budget st = rs_budget r" and room: "mem_room X ?m r"
    using c by (simp_all add: cursors_def)
  have m: "mem_is ?m ?out" "rs_lit r \<le> ?L" "?L < 2 ^ 62" "length ?out + rs_budget r + 64 \<le> length ?m"
    "rs_budget r < 2 ^ 62" "length ?out < 2 ^ 62" "rs_budget r \<le> mc_block_max (xc_match X)" "mc_window_size (xc_match X) < 2 ^ 64"
    using room by (auto simp: mem_room_def)
  have b: "n < 131072" "3 \<le> mlen" "mlen < 131075" "off < 2 ^ 32"
    using s by (simp_all add: seq_bounded_def n_def mlen_def off_def)
  have f: "nonneg64 (wrapping_sub64 (rs_budget r) (n + mlen))" "nonneg64 (wrapping_sub64 16 n)"
    "nonneg64 (wrapping_sub64 (wrapping_sub64 ?L 16) (rs_lit r))" "nonneg64 (wrapping_sub64 16 mlen)"
    "nonneg64 (wrapping_sub64 off 16)" "nonneg64 (wrapping_sub64 (length ?out) off)" "nonneg64 (wrapping_sub64 (xc_win_eff X) off)"
    using fused by (simp_all add: fused_test_def Let_def st n_def mlen_def off_def)
  have t: "n + mlen \<le> rs_budget r" "n \<le> 16" "rs_lit r + 16 \<le> ?L" "mlen \<le> 16" "16 \<le> off" "off \<le> length ?out" "off \<le> xc_win_eff X"
    using nonneg64_subD [OF f(1)] nonneg64_subD [OF f(2)] lit_guard_iff [OF m(3,2) f(3)] nonneg64_subD [OF f(4)]
      nonneg64_subD [OF f(5)] nonneg64_subD [OF f(6)] nonneg64_subD [OF f(7)] b by auto
  then have nd: "xc_nodict X" "off \<le> xc_win_lim X" by (auto simp: xc_win_eff_def split: if_splits)
  define out1 where "out1 = ?out @ take n (drop (rs_lit r) (xc_lits X))"
  have nl: "n \<le> ?L - rs_lit r" using t(2,3) by linarith
  then have l1: "length out1 = length ?out + n" by (simp add: out1_def)
  have fit: "length ?out + 16 \<le> length ?m" "length out1 + 16 \<le> length ?m" using m(4) t(1,2) l1 by linarith+
  obtain m1 where m1: "copy_in 16 (xc_lits X) (rs_lit r) (length ?out) ?m = Some m1" "length m1 = length ?m" "mem_is m1 out1"
    using copy_in_publish [OF m(1) t(3) fit(1) t(2)] by (auto simp: out1_def)
  have o: "1 \<le> off" "off \<le> length out1" using t(5,6) l1 by linarith+
  obtain m2 where m2: "copy_no 16 (length out1 - off) (length out1) m1 = Some m2" "length m2 = length m1"
      "mem_is m2 (lz_copy off mlen out1)"
    using copy_no_publish [OF m1(3) o t(5) _ t(4)] fit(2) m1(2) by auto
  have l2: "length (lz_copy off mlen out1) = length out1 + mlen" by simp
  have ex: "exec_fast X st s = Some (Inr \<lparr> xs_mem = m2, xs_op = length ?out + (n + mlen), xs_lit = rs_lit r + n,
      xs_budget = rs_budget r - (n + mlen) \<rparr>)"
    using m1(1) m2(1) t(1) by (simp add: exec_fast_def Let_def st l1 wrapping_sub64_le flip: n_def mlen_def off_def)
  have lits: "rs_out (lits_done X r n) = out1" "rs_budget (lits_done X r n) = rs_budget r - n" "rs_lit (lits_done X r n) = rs_lit r + n"
    by (simp_all add: lits_done_def out1_def)
  have r1: "mem_room X m1 (lits_done X r n)"
    using mem_room_lits [OF room _ nl, of m1] m1 t(1) by (simp add: out1_def)
  have r2: "mem_room X m2 (match_done (lits_done X r n) mlen (lz_copy off mlen out1))"
    by (rule mem_room_match [OF r1]) (use t(1) m2 in \<open>simp_all add: lits\<close>)
  have "match_ref (xc_match X) off mlen out1 = Inr (lz_copy off mlen out1)"
    using match_ref_nodict [OF nd(1) m(8), of mlen off out1] o nd(2) m(7) t(1) by simp
  then have "exec_ref X r s = Inr (match_done (lits_done X r n) mlen (lz_copy off mlen out1))"
    using t(1) nl by (simp add: exec_ref_eq lits flip: n_def mlen_def off_def)
  then show ?thesis using r2 l1 by (simp add: tracks_def ex cursors_def match_done_def lits)
qed

lemma exec_slow_ok:
  assumes c: "cursors X st r" and s: "seq_bounded s"
  shows "tracks (cursors X) (exec_slow X st s) (exec_ref X r s)"
proof -
  define n where "n = sq_litlen s"
  define mlen where "mlen = sq_matchlen s"
  define off where "off = sq_offset s"
  let ?L = "length (xc_lits X)"
  have st: "xs_op st = length (rs_out r)" "xs_lit st = rs_lit r" "xs_budget st = rs_budget r" and room: "mem_room X (xs_mem st) r"
    using c by (simp_all add: cursors_def)
  have m: "rs_lit r \<le> ?L" "?L < 2 ^ 62" "rs_budget r < 2 ^ 62" using room by (auto simp: mem_room_def)
  have b: "n < 131072" "3 \<le> mlen" "mlen < 131075" "off < 2 ^ 32"
    using s by (simp_all add: seq_bounded_def n_def mlen_def off_def)
  have test: "nonneg64 (wrapping_sub64 (rs_budget r) (n + mlen)) \<longleftrightarrow> n + mlen \<le> rs_budget r"
    "nonneg64 (wrapping_sub64 (?L - rs_lit r) n) \<longleftrightarrow> n \<le> ?L - rs_lit r"
    using m b by (simp_all add: nonneg64_sub)
  show ?thesis
  proof (cases "n + mlen \<le> rs_budget r \<and> n \<le> ?L - rs_lit r")
    case False
    then have "exec_ref X r s = Inl Corruption" by (auto simp: exec_ref_def Let_def simp flip: n_def mlen_def)
    moreover have "exec_slow X st s = Some (Inl Corruption)"
      using False by (auto simp: exec_slow_def Let_def st test simp flip: n_def mlen_def)
    ultimately show ?thesis by (simp add: tracks_def)
  next
    case True
    define st1 where "st1 = st\<lparr> xs_budget := rs_budget r - (n + mlen) \<rparr>"
    have st1: "xs_mem st1 = xs_mem st" "xs_op st1 = length (rs_out r)" "xs_lit st1 = rs_lit r"
      by (simp_all add: st1_def st)
    obtain m' where lits: "slow_literals X st1 n = Some (Inr (st1\<lparr> xs_mem := m', xs_op := length (rs_out r) + n, xs_lit := rs_lit r + n \<rparr>))"
        "mem_room X m' (lits_done X r n)"
      using slow_literals_ok [of X st1 r n] room st1 True by auto
    define st2 where "st2 = st1\<lparr> xs_mem := m', xs_op := length (rs_out r) + n, xs_lit := rs_lit r + n \<rparr>"
    let ?r1 = "lits_done X r n"
    have len1: "length (rs_out ?r1) = length (rs_out r) + n" using True by (simp add: lits_done_def)
    have pos: "nonneg64 (rs_budget r - (n + mlen))" "nonneg64 (?L - (rs_lit r + n))"
      using m by (simp_all add: nonneg64_def)
    have es: "exec_slow X st s = slow_match X st2 off mlen"
      using True lits(1) pos by (simp add: exec_slow_def Let_def st test wrapping_sub64_le st2_def st1_def flip: n_def mlen_def off_def)
    have er: "exec_ref X r s = rbind (match_ref (xc_match X) off mlen (rs_out ?r1)) (\<lambda>out. Inr (match_done ?r1 mlen out))"
      using True by (simp add: exec_ref_eq flip: n_def mlen_def off_def)
    have sm: "case match_ref (xc_match X) off mlen (rs_out ?r1) of
        Inl e \<Rightarrow> slow_match X st2 off mlen = Some (Inl Corruption)
      | Inr out' \<Rightarrow> \<exists>m'. slow_match X st2 off mlen = Some (Inr (st2\<lparr> xs_mem := m', xs_op := length out' \<rparr>))
          \<and> mem_room X m' (match_done ?r1 mlen out')"
      by (rule slow_match_ok) (use lits(2) len1 True b in \<open>auto simp: st2_def lits_done_def\<close>)
    show ?thesis
    proof (cases "match_ref (xc_match X) off mlen (rs_out ?r1)")
      case (Inl e)
      then show ?thesis using sm match_ref_corrupt [OF Inl] by (simp add: er es tracks_def)
    next
      case (Inr out')
      then show ?thesis using sm
        by (auto simp: er es tracks_def cursors_def match_done_def st2_def st1_def lits_done_def)
    qed
  qed
qed

lemma exec_seq_ok:
  assumes "cursors X st r" "seq_bounded s"
  shows "tracks (cursors X) (exec_seq X st s) (exec_ref X r s)"
  using exec_fast_ok [OF assms] exec_slow_ok [OF assms] by (simp add: exec_seq_def)

lemma copy_literals_hot_ok:
  assumes "vec_is v out" "p \<le> length lits" "n \<le> length lits - p" "16 \<le> vec_cap v - length out"
  shows "lits_copied (copy_literals_hot lits p n v arm (length out)) v (p + n) (out @ take n (drop p lits))"
  using lits_fixed [OF assms(1), of 16 p lits n] copy_literals_cold_ok [OF assms(1-3), of arm] assms
  by (auto simp: copy_literals_hot_def Let_def)

lemma exec_queued_ok:
  assumes c: "queued X st r" and s: "seq_bounded s"
  shows "tracks (queued X) (exec_queued X st s) (exec_ref X r s)"
proof -
  define n where "n = sq_litlen s"
  define mlen where "mlen = sq_matchlen s"
  define off where "off = sq_offset s"
  let ?L = "length (xc_lits X)" and ?v = "qs_out st"
  have st: "v_len ?v = length (rs_out r)" "qs_lit st = rs_lit r" "qs_budget st = rs_budget r" and room: "mem_room X (v_mem ?v) r"
    using c by (simp_all add: queued_def)
  have m: "rs_lit r \<le> ?L" and v: "vec_is ?v (rs_out r)" using room st by (auto simp: mem_room_def vec_is_def)
  have b: "n < 131072" "3 \<le> mlen" "mlen < 131075" "off < 2 ^ 32"
    using s by (simp_all add: seq_bounded_def n_def mlen_def off_def)
  consider (over) "rs_budget r < n + mlen" | (short) "\<not> rs_budget r < n + mlen" "?L - rs_lit r < n"
    | (ok) "n + mlen \<le> rs_budget r" "n \<le> ?L - rs_lit r" by linarith
  then show ?thesis
  proof cases
    case over
    then show ?thesis by (simp add: tracks_def exec_ref_def exec_queued_def Let_def st flip: n_def mlen_def)
  next
    case short
    then show ?thesis by (simp add: tracks_def exec_ref_def exec_queued_def copy_literals_hot_def Let_def st flip: n_def mlen_def)
  next
    case ok
    let ?r1 = "lits_done X r n"
    have "16 \<le> vec_cap ?v - length (rs_out r)" using room by (auto simp: mem_room_def vec_cap_def)
    then obtain v1 where v1: "copy_literals_hot (xc_lits X) (rs_lit r) n ?v (xc_litcopy_arm X) (length (rs_out r)) = Some (Inr (rs_lit r + n, v1))"
        "vec_is v1 (rs_out ?r1)" "vec_cap ?v \<le> vec_cap v1"
      using copy_literals_hot_ok [OF v m ok(2), of "xc_litcopy_arm X"] by (auto simp: lits_copied_def lits_done_def)
    have len1: "length (rs_out ?r1) = length (rs_out r) + n" using ok by (simp add: lits_done_def)
    have room1: "mem_room X (v_mem v1) ?r1"
      using mem_room_lits [OF room _ ok(2), of "v_mem v1"] v1(2,3) ok(1) by (simp add: lits_done_def vec_is_def vec_cap_def)
    have facts: "mc_window_size (xc_match X) < 2 ^ 64" "mlen \<le> mc_block_max (xc_match X)" "mlen \<le> rs_budget ?r1"
      "length (rs_out ?r1) + mlen < 2 ^ 63" "length (rs_out ?r1) + mlen + 64 \<le> vec_cap v1" "0 < mlen"
      "mc_frame_start (xc_match X) \<le> length (rs_out ?r1)" "length (rs_out ?r1) + mc_frame_skipped (xc_match X) < 2 ^ 64"
      "length (rs_out ?r1) < 2 ^ 62"
      using room1 ok b by (auto simp: mem_room_def lits_done_def vec_cap_def)
    define cm where "cm = (if xc_nodict X
        then copy_match_nodict v1 (length (rs_out r) + n) off mlen (xc_win_lim X) (mc_wide (xc_match X))
        else copy_match v1 (xc_match X) off mlen)"
    have eq: "exec_queued X st s = Option.bind cm (\<lambda>r'. Some (rbind r' (\<lambda>out.
        Inr \<lparr> qs_out = out, qs_lit = rs_lit r + n, qs_budget = rs_budget r - (n + mlen) \<rparr>)))"
      using ok v1(1) by (simp add: exec_queued_def Let_def st cm_def flip: n_def mlen_def off_def)
    have er: "exec_ref X r s = rbind (match_ref (xc_match X) off mlen (rs_out ?r1)) (\<lambda>out. Inr (match_done ?r1 mlen out))"
      using ok by (simp add: exec_ref_eq flip: n_def mlen_def off_def)
    have "case match_ref (xc_match X) off mlen (rs_out ?r1) of Inl e \<Rightarrow> cm = Some (Inl Corruption) | Inr out' \<Rightarrow> copies cm v1 out'"
    proof (cases "xc_nodict X")
      case False
      then show ?thesis using copy_match_ok [OF v1(2) facts(7,6,4,8), of off] match_ref_corrupt
        by (auto simp: cm_def split: sum.splits)
    next
      case True
      note ref = match_ref_nodict [OF True facts(1,2), of off "rs_out ?r1"]
      have g: "min (length (rs_out ?r1)) (xc_win_lim X) \<le> wrapping_sub64 off 1 \<longleftrightarrow>
          \<not> (1 \<le> off \<and> off \<le> length (rs_out ?r1) \<and> off \<le> xc_win_lim X)"
        by (rule offset_guard [OF facts(9) b(4)])
      have hot: "1 \<le> off \<Longrightarrow> off \<le> length (rs_out ?r1) \<Longrightarrow>
          copies (copy_from_decoded_hot v1 (length (rs_out ?r1)) off mlen (mc_wide (xc_match X))) v1 (lz_copy off mlen (rs_out ?r1))"
        using hot_ok [OF v1(2) _ _ facts(6,4,5)] .
      show ?thesis unfolding ref cm_def if_P [OF True] len1 [symmetric] copy_match_nodict_def g using hot by auto
    qed
    then show ?thesis
    proof (cases "match_ref (xc_match X) off mlen (rs_out ?r1)")
      case Inl
      then show ?thesis using \<open>case _ of Inl e \<Rightarrow> _ | Inr out' \<Rightarrow> _\<close> match_ref_corrupt [OF Inl] by (simp add: er eq tracks_def)
    next
      case (Inr out')
      then have l: "length out' = length (rs_out ?r1) + mlen" using match_ref_extends by fastforce
      obtain v2 where v2: "cm = Some (Inr v2)" "vec_is v2 out'" "vec_cap v1 \<le> vec_cap v2"
        using \<open>case _ of Inl e \<Rightarrow> _ | Inr out' \<Rightarrow> _\<close> Inr by (auto simp: copies_def)
      have "mem_room X (v_mem v2) (match_done ?r1 mlen out')"
        by (rule mem_room_match [OF room1 facts(3) l]) (use v2 in \<open>simp_all add: vec_is_def vec_cap_def\<close>)
      then show ?thesis using v2 unfolding er eq Inr
        by (simp add: tracks_def queued_def match_done_def lits_done_def vec_is_def)
    qed
  qed
qed

section \<open>The three loops\<close>

definition seq_of :: "nat \<Rightarrow> nat \<Rightarrow> nat \<Rightarrow> seq" where
  "seq_of litlen matchlen offset = \<lparr> sq_litlen = litlen, sq_matchlen = matchlen, sq_offset = offset \<rparr>"

text \<open>The classic loop: fetch, resolve, execute, advance.\<close>

fun classic_loop :: "bool \<Rightarrow> seq_tabs \<Rightarrow> exec_ctx \<Rightarrow> nat \<Rightarrow> seq_cursor \<Rightarrow> exec_state \<Rightarrow> (seq_cursor \<times> exec_state) res option" where
  "classic_loop seqcheck t X 0 cur st = Some (Inr (cur, st))"
| "classic_loop seqcheck t X (Suc rm) cur st =
     Option.bind (seq_fetch seqcheck t (sc_states cur) (sc_br cur)) (\<lambda>r.
     case r of
       Inl e \<Rightarrow> Some (Inl e)
     | Inr (ws, (litlen, matchlen, offset_value), br) \<Rightarrow>
         case resolve_offset offset_value litlen (sc_reps cur) of
           Inl e \<Rightarrow> Some (Inl e)
         | Inr (offset, reps) \<Rightarrow>
             Option.bind (exec_seq X st (seq_of litlen matchlen offset)) (\<lambda>r.
             case r of
               Inl e \<Rightarrow> Some (Inl e)
             | Inr st \<Rightarrow>
                 let (states, br) = (if rm \<noteq> 0 then seq_advance ws br else (sc_states cur, br))
                 in classic_loop seqcheck t X rm \<lparr> sc_states = states, sc_br = br, sc_reps = reps \<rparr> st))"

text \<open>The depth-1 interleave (\<^verbatim>\<open>pipe1\<close>): one sequence is pending while the next is decoded. The
  prefetches have no effect on the state.\<close>

fun pipe1_loop :: "bool \<Rightarrow> seq_tabs \<Rightarrow> exec_ctx \<Rightarrow> nat \<Rightarrow> nat \<times> nat \<times> nat \<Rightarrow> seq \<Rightarrow> seq_cursor \<Rightarrow> queue_state \<Rightarrow>
    (seq_cursor \<times> queue_state) res option" where
  "pipe1_loop seqcheck t X 0 cw c cur st = Option.bind (exec_queued X st c) (\<lambda>r. Some (rbind r (\<lambda>st. Inr (cur, st))))"
| "pipe1_loop seqcheck t X (Suc rm) cw c cur st =
     (let (states, br) = seq_advance cw (sc_br cur)
      in Option.bind (seq_fetch seqcheck t states br) (\<lambda>r.
         case r of
           Inl e \<Rightarrow> Some (Inl e)
         | Inr (nw, (litlen, matchlen, offset_value), br) \<Rightarrow>
             case resolve_offset offset_value litlen (sc_reps cur) of
               Inl e \<Rightarrow> Some (Inl e)
             | Inr (offset, reps) \<Rightarrow>
                 Option.bind (exec_queued X st c) (\<lambda>r.
                 case r of
                   Inl e \<Rightarrow> Some (Inl e)
                 | Inr st \<Rightarrow> pipe1_loop seqcheck t X rm nw (seq_of litlen matchlen offset)
                     \<lparr> sc_states = states, sc_br = br, sc_reps = reps \<rparr> st)))"

definition pipe1 :: "bool \<Rightarrow> seq_tabs \<Rightarrow> exec_ctx \<Rightarrow> nat \<Rightarrow> seq_cursor \<Rightarrow> queue_state \<Rightarrow> (seq_cursor \<times> queue_state) res option" where
  "pipe1 seqcheck t X rm cur st =
     Option.bind (seq_fetch seqcheck t (sc_states cur) (sc_br cur)) (\<lambda>r.
     case r of
       Inl e \<Rightarrow> Some (Inl e)
     | Inr (cw, (litlen, matchlen, offset_value), br) \<Rightarrow>
         case resolve_offset offset_value litlen (sc_reps cur) of
           Inl e \<Rightarrow> Some (Inl e)
         | Inr (offset, reps) \<Rightarrow>
             pipe1_loop seqcheck t X (rm - 1) cw (seq_of litlen matchlen offset)
               \<lparr> sc_states = sc_states cur, sc_br = br, sc_reps = reps \<rparr> st)"

text \<open>The queue of eight (\<^verbatim>\<open>pipeline\<close>): decoding runs up to eight sequences ahead of execution.\<close>

definition PIPE :: nat where "PIPE = 8"

record pipe_state =
  ps_cur :: seq_cursor
  ps_queue :: "seq list"
  ps_dec :: nat
  ps_exe :: nat
  ps_out :: queue_state

definition pipe_decode :: "bool \<Rightarrow> seq_tabs \<Rightarrow> nat \<Rightarrow> pipe_state \<Rightarrow> pipe_state res option" where
  "pipe_decode seqcheck t nseq p =
     (let n_dec = ps_dec p + 1
      in Option.bind (seq_decode_one seqcheck t (n_dec \<noteq> nseq) (ps_cur p)) (\<lambda>r.
         Some (rbind r (\<lambda>(s, cur).
           Inr (p\<lparr> ps_cur := cur, ps_queue := (ps_queue p)[(n_dec - 1) mod PIPE := s], ps_dec := n_dec \<rparr>)))))"

function pipe_fill :: "bool \<Rightarrow> seq_tabs \<Rightarrow> nat \<Rightarrow> pipe_state \<Rightarrow> pipe_state res option" where
  "pipe_fill seqcheck t nseq p =
     (if ps_dec p < nseq \<and> ps_dec p - ps_exe p < PIPE then
        (case pipe_decode seqcheck t nseq p of
           None \<Rightarrow> None
         | Some (Inl e) \<Rightarrow> Some (Inl e)
         | Some (Inr p) \<Rightarrow> pipe_fill seqcheck t nseq p)
      else Some (Inr p))"
  by pat_completeness auto
termination
  by (relation "measure (\<lambda>(_, _, nseq, p). nseq - ps_dec p)")
    (auto simp: pipe_decode_def Let_def rbind_Inr_iff split: Option.bind_splits)

function pipe_run :: "bool \<Rightarrow> seq_tabs \<Rightarrow> exec_ctx \<Rightarrow> nat \<Rightarrow> pipe_state \<Rightarrow> pipe_state res option" where
  "pipe_run seqcheck t X nseq p =
     (if ps_exe p < nseq then
        (case exec_queued X (ps_out p) (ps_queue p ! (ps_exe p mod PIPE)) of
           None \<Rightarrow> None
         | Some (Inl e) \<Rightarrow> Some (Inl e)
         | Some (Inr st) \<Rightarrow>
             let p = p\<lparr> ps_out := st, ps_exe := ps_exe p + 1 \<rparr>
             in (case (if ps_dec p < nseq then pipe_decode seqcheck t nseq p else Some (Inr p)) of
                   None \<Rightarrow> None
                 | Some (Inl e) \<Rightarrow> Some (Inl e)
                 | Some (Inr p) \<Rightarrow> pipe_run seqcheck t X nseq p))
      else Some (Inr p))"
  by pat_completeness auto
termination
  by (relation "measure (\<lambda>(_, _, _, nseq, p). nseq - ps_exe p)")
    (auto simp: pipe_decode_def Let_def rbind_Inr_iff split: Option.bind_splits if_splits)

declare pipe_fill.simps [simp del] pipe_run.simps [simp del]

definition pipeline :: "bool \<Rightarrow> seq_tabs \<Rightarrow> exec_ctx \<Rightarrow> nat \<Rightarrow> seq_cursor \<Rightarrow> queue_state \<Rightarrow> (seq_cursor \<times> queue_state) res option" where
  "pipeline seqcheck t X nseq cur st =
     Option.bind (pipe_fill seqcheck t nseq
         \<lparr> ps_cur = cur, ps_queue = replicate PIPE (seq_of 0 0 0), ps_dec = 0, ps_exe = 0, ps_out = st \<rparr>) (\<lambda>r.
       case r of
         Inl e \<Rightarrow> Some (Inl e)
       | Inr p \<Rightarrow> Option.bind (pipe_run seqcheck t X nseq p) (\<lambda>r. Some (rbind r (\<lambda>p. Inr (ps_cur p, ps_out p)))))"

section \<open>Every loop is decode, then execute\<close>

definition section_ref :: "bool \<Rightarrow> seq_tabs \<Rightarrow> exec_ctx \<Rightarrow> nat \<Rightarrow> seq_cursor \<Rightarrow> ref_state \<Rightarrow> (seq_cursor \<times> ref_state) res" where
  "section_ref seqcheck t X n cur r =
     (case seq_decode_all seqcheck t n cur of
        Some (Inr (ss, cur')) \<Rightarrow> rbind (exec_all_ref X ss r) (\<lambda>r. Inr (cur', r))
      | _ \<Rightarrow> Inl Corruption)"

definition ends_as :: "('s \<Rightarrow> ref_state \<Rightarrow> bool) \<Rightarrow> (seq_cursor \<times> 's) res option \<Rightarrow> (seq_cursor \<times> ref_state) res \<Rightarrow> bool" where
  "ends_as rel res ref \<longleftrightarrow> (case ref of
     Inl e \<Rightarrow> e = Corruption \<and> res = Some (Inl Corruption)
   | Inr (cur, r) \<Rightarrow> \<exists>st. res = Some (Inr (cur, st)) \<and> rel st r)"

definition cursor_wf :: "seq_tabs \<Rightarrow> seq_cursor \<Rightarrow> bool" where
  "cursor_wf t cur \<longleftrightarrow> states_wf t (sc_states cur) \<and> reps_ok (sc_reps cur)"

lemma exec_ref_corrupt: "exec_ref X r s = Inl e \<Longrightarrow> e = Corruption"
  by (auto simp: exec_ref_def Let_def rbind_Inl_iff dest: match_ref_corrupt split: if_splits)

lemma exec_all_ref_corrupt: "exec_all_ref X ss r = Inl e \<Longrightarrow> e = Corruption"
  by (induction ss arbitrary: r) (auto simp: rbind_Inl_iff dest: exec_ref_corrupt)

text \<open>One sequence decoded, and how the section goes on from there.\<close>

lemma decode_cases:
  assumes "tabs_wf t" "cursor_wf t cur"
  obtains (bad) ws l m ov br' where "seq_fetch seqcheck t (sc_states cur) (sc_br cur) = Some (Inr (ws, (l, m, ov), br'))"
      "resolve_offset ov l (sc_reps cur) = Inl Corruption" "\<And>n r. section_ref seqcheck t X (Suc n) cur r = Inl Corruption"
      "\<And>nxt. seq_decode_one seqcheck t nxt cur = Some (Inl Corruption)"
    | (seq) ws l m ov br' off reps where "seq_fetch seqcheck t (sc_states cur) (sc_br cur) = Some (Inr (ws, (l, m, ov), br'))"
      "resolve_offset ov l (sc_reps cur) = Inr (off, reps)" "seq_bounded (seq_of l m off)"
      "\<And>nxt. seq_decode_one seqcheck t nxt cur = Some (Inr (seq_of l m off,
         \<lparr> sc_states = (if nxt then fst (seq_advance ws br') else sc_states cur),
           sc_br = (if nxt then snd (seq_advance ws br') else br'), sc_reps = reps \<rparr>))"
      "\<And>nxt. cursor_wf t \<lparr> sc_states = (if nxt then fst (seq_advance ws br') else sc_states cur),
           sc_br = (if nxt then snd (seq_advance ws br') else br'), sc_reps = reps \<rparr>"
proof -
  have wf: "states_wf t (sc_states cur)" "reps_ok (sc_reps cur)" using assms(2) by (simp_all add: cursor_wf_def)
  obtain ws l m ov br' where f: "seq_fetch seqcheck t (sc_states cur) (sc_br cur) = Some (Inr (ws, (l, m, ov), br'))" "ov < 2 ^ 32"
    "\<And>b. states_wf t (fst (seq_advance ws b))"
    "\<And>off. off < 2 ^ 32 \<Longrightarrow> seq_bounded \<lparr> sq_litlen = l, sq_matchlen = m, sq_offset = off \<rparr>"
    by (rule seq_fetch_safe [OF assms(1) wf(1), where seqcheck = seqcheck and br = "sc_br cur"]) (rule that)
  show ?thesis
  proof (cases "resolve_offset ov l (sc_reps cur)")
    case (Inl e)
    then have e: "e = Corruption" by (rule resolve_corrupt)
    have "seq_decode_one seqcheck t nxt cur = Some (Inl Corruption)" for nxt
      using Inl e by (simp add: seq_decode_one_def f(1))
    then show ?thesis using bad [OF f(1)] Inl e by (simp add: section_ref_def)
  next
    case (Inr offr)
    obtain off reps where o: "offr = (off, reps)" by (rule prod.exhaust)
    note ok = resolve_reps_ok [OF Inr [unfolded o] f(2) wf(2)]
    show ?thesis
      by (rule seq [OF f(1) Inr [unfolded o]])
        (use f(3,4) ok wf(1) Inr o in \<open>auto simp: seq_of_def cursor_wf_def seq_decode_one_def f(1) split_def Let_def\<close>)
  qed
qed

lemma section_ref_Suc:
  assumes "seq_decode_one seqcheck t (n \<noteq> 0) cur = Some (Inr (s, cur1))"
  shows "section_ref seqcheck t X (Suc n) cur r =
    (case exec_ref X r s of Inl _ \<Rightarrow> Inl Corruption | Inr r1 \<Rightarrow> section_ref seqcheck t X n cur1 r1)"
proof (cases "seq_decode_all seqcheck t n cur1")
  case None
  then show ?thesis using assms by (simp add: section_ref_def split: sum.split)
next
  case (Some d)
  show ?thesis
  proof (cases d)
    case (Inl e)
    then show ?thesis using assms Some by (simp add: section_ref_def split: sum.split)
  next
    case (Inr sc)
    obtain ss cur2 where "sc = (ss, cur2)" by (rule prod.exhaust)
    then show ?thesis using assms Some Inr by (auto simp: section_ref_def dest: exec_ref_corrupt split: sum.split)
  qed
qed

lemma classic_loop_ok:
  assumes "tabs_wf t" "cursor_wf t cur" "cursors X st r"
  shows "ends_as (cursors X) (classic_loop seqcheck t X n cur st) (section_ref seqcheck t X n cur r)"
  using assms(2,3)
proof (induction n arbitrary: cur st r)
  case 0
  then show ?case by (simp add: section_ref_def ends_as_def)
next
  case (Suc n)
  show ?case
  proof (cases rule: decode_cases [OF assms(1) Suc.prems(1), where seqcheck = seqcheck and X = X, case_names bad seq])
    case (bad ws l m ov br')
    then show ?thesis by (simp add: ends_as_def)
  next
    case (seq ws l m ov br' off reps)
    let ?cur = "\<lparr> sc_states = (if n \<noteq> 0 then fst (seq_advance ws br') else sc_states cur),
           sc_br = (if n \<noteq> 0 then snd (seq_advance ws br') else br'), sc_reps = reps \<rparr>"
    note ref = section_ref_Suc [OF seq(4), where X = X and r = r]
    note ex = exec_seq_ok [OF Suc.prems(2) seq(3)]
    show ?thesis
    proof (cases "exec_ref X r (seq_of l m off)")
      case (Inl e)
      then have "exec_seq X st (seq_of l m off) = Some (Inl Corruption)" using ex by (simp add: tracks_def)
      then show ?thesis unfolding ref Inl by (simp add: seq(1,2) ends_as_def)
    next
      case (Inr r1)
      then obtain st1 where st1: "exec_seq X st (seq_of l m off) = Some (Inr st1)" "cursors X st1 r1"
        using ex by (auto simp: tracks_def)
      have "classic_loop seqcheck t X (Suc n) cur st = classic_loop seqcheck t X n ?cur st1"
        by (simp add: seq(1,2) st1(1) split_def Let_def)
      then show ?thesis using Suc.IH [OF seq(5) st1(2)] unfolding ref Inr by simp
    qed
  qed
qed

definition step_past :: "nat \<Rightarrow> nat \<times> nat \<times> nat \<Rightarrow> seq_cursor \<Rightarrow> seq_cursor" where
  "step_past n ws cur = \<lparr> sc_states = (if n \<noteq> 0 then fst (seq_advance ws (sc_br cur)) else sc_states cur),
     sc_br = (if n \<noteq> 0 then snd (seq_advance ws (sc_br cur)) else sc_br cur), sc_reps = sc_reps cur \<rparr>"

lemma pipe1_loop_ok:
  assumes "tabs_wf t" "cursor_wf t (step_past n cw cur)" "seq_bounded c" "queued X st r"
  shows "ends_as (queued X) (pipe1_loop seqcheck t X n cw c cur st)
    (case exec_ref X r c of Inl _ \<Rightarrow> Inl Corruption | Inr r1 \<Rightarrow> section_ref seqcheck t X n (step_past n cw cur) r1)"
  using assms(2-4)
proof (induction n arbitrary: cw c cur st r)
  case 0
  then show ?case using exec_queued_ok [OF 0(3,2)]
    by (auto simp: tracks_def ends_as_def section_ref_def step_past_def split: sum.splits)
next
  case (Suc n)
  let ?cur = "step_past (Suc n) cw cur"
  have adv: "seq_advance cw (sc_br cur) = (sc_states ?cur, sc_br ?cur)" "sc_reps cur = sc_reps ?cur"
    by (simp_all add: step_past_def)
  note ex = exec_queued_ok [OF Suc.prems(3,2)]
  show ?case
  proof (cases rule: decode_cases [OF assms(1) Suc.prems(1), where seqcheck = seqcheck and X = X, case_names bad seq])
    case (bad ws l m ov br')
    then show ?thesis unfolding pipe1_loop.simps adv by (auto simp: ends_as_def split: sum.split)
  next
    case (seq ws l m ov br' off reps)
    let ?new = "\<lparr> sc_states = sc_states ?cur, sc_br = br', sc_reps = reps \<rparr>"
    show ?thesis
    proof (cases "exec_ref X r c")
      case (Inl e)
      then have "exec_queued X st c = Some (Inl Corruption)" using ex by (simp add: tracks_def)
      then show ?thesis unfolding pipe1_loop.simps adv by (simp add: seq(1,2) Inl ends_as_def)
    next
      case (Inr r1)
      then obtain st1 where st1: "exec_queued X st c = Some (Inr st1)" "queued X st1 r1"
        using ex by (auto simp: tracks_def)
      have new: "step_past n ws ?new = \<lparr> sc_states = (if n \<noteq> 0 then fst (seq_advance ws br') else sc_states ?cur),
           sc_br = (if n \<noteq> 0 then snd (seq_advance ws br') else br'), sc_reps = reps \<rparr>"
        by (simp add: step_past_def)
      have run: "pipe1_loop seqcheck t X (Suc n) cw c cur st = pipe1_loop seqcheck t X n ws (seq_of l m off) ?new st1"
        unfolding pipe1_loop.simps adv by (simp add: seq(1,2) st1(1))
      show ?thesis
        using Suc.IH [of ws ?new "seq_of l m off" st1 r1] seq(3,5) st1(2)
        unfolding run Inr sum.case section_ref_Suc [OF seq(4), where X = X and r = r1] new by simp
    qed
  qed
qed

lemma pipe1_refines:
  assumes "tabs_wf t" "cursor_wf t cur" "queued X st r" "0 < n"
  shows "ends_as (queued X) (pipe1 seqcheck t X n cur st) (section_ref seqcheck t X n cur r)"
proof (cases rule: decode_cases [OF assms(1,2), where seqcheck = seqcheck and X = X, case_names bad seq])
  case (bad ws l m ov br')
  then show ?thesis using bad(3) [of "n - 1"] assms(4) by (simp add: pipe1_def ends_as_def)
next
  case (seq ws l m ov br' off reps)
  let ?new = "\<lparr> sc_states = sc_states cur, sc_br = br', sc_reps = reps \<rparr>"
  have n: "n = Suc (n - 1)" using assms(4) by simp
  have new: "step_past (n - 1) ws ?new = \<lparr> sc_states = (if n - 1 \<noteq> 0 then fst (seq_advance ws br') else sc_states cur),
       sc_br = (if n - 1 \<noteq> 0 then snd (seq_advance ws br') else br'), sc_reps = reps \<rparr>"
    by (simp add: step_past_def)
  have run: "pipe1 seqcheck t X n cur st = pipe1_loop seqcheck t X (n - 1) ws (seq_of l m off) ?new st"
    by (simp add: pipe1_def seq(1,2))
  have ref: "section_ref seqcheck t X n cur r = (case exec_ref X r (seq_of l m off) of Inl _ \<Rightarrow> Inl Corruption
      | Inr r1 \<Rightarrow> section_ref seqcheck t X (n - 1) (step_past (n - 1) ws ?new) r1)"
    by (subst n) (simp only: section_ref_Suc [OF seq(4)] new)
  show ?thesis unfolding run ref
    by (rule pipe1_loop_ok [OF assms(1) _ seq(3) assms(3)]) (simp only: new seq(5))
qed

section \<open>The queue of eight\<close>

text \<open>What is decoded and not yet executed, and what remains of the section from there.\<close>

definition window :: "pipe_state \<Rightarrow> seq list" where
  "window p = map (\<lambda>i. ps_queue p ! (i mod PIPE)) [ps_exe p..<ps_dec p]"

definition pending_ref :: "bool \<Rightarrow> seq_tabs \<Rightarrow> exec_ctx \<Rightarrow> seq list \<Rightarrow> nat \<Rightarrow> seq_cursor \<Rightarrow> ref_state \<Rightarrow> (seq_cursor \<times> ref_state) res" where
  "pending_ref seqcheck t X ws n cur r =
     (case seq_decode_all seqcheck t n cur of
        Some (Inr (ss, cur')) \<Rightarrow> rbind (exec_all_ref X (ws @ ss) r) (\<lambda>r. Inr (cur', r))
      | _ \<Rightarrow> Inl Corruption)"

lemma exec_all_ref_append: "exec_all_ref X (xs @ ys) r = rbind (exec_all_ref X xs r) (exec_all_ref X ys)"
  by (induction xs arbitrary: r) (auto simp: rbind_def split: sum.splits)

lemma pending_decode:
  assumes "seq_decode_one seqcheck t (n \<noteq> 0) cur = Some (Inr (s, cur1))"
  shows "pending_ref seqcheck t X ws (Suc n) cur r = pending_ref seqcheck t X (ws @ [s]) n cur1 r"
proof (cases "seq_decode_all seqcheck t n cur1")
  case None
  then show ?thesis using assms by (simp add: pending_ref_def)
next
  case (Some d)
  then show ?thesis using assms by (cases d) (auto simp: pending_ref_def)
qed

lemma pending_exec:
  "pending_ref seqcheck t X (c # ws) n cur r =
    (case exec_ref X r c of Inl _ \<Rightarrow> Inl Corruption | Inr r1 \<Rightarrow> pending_ref seqcheck t X ws n cur r1)"
  by (auto simp: pending_ref_def dest: exec_ref_corrupt split: option.split sum.split)

definition pipe_ok :: "seq_tabs \<Rightarrow> exec_ctx \<Rightarrow> nat \<Rightarrow> pipe_state \<Rightarrow> ref_state \<Rightarrow> bool" where
  "pipe_ok t X nseq p r \<longleftrightarrow> cursor_wf t (ps_cur p) \<and> length (ps_queue p) = PIPE \<and> ps_exe p \<le> ps_dec p \<and> ps_dec p \<le> nseq
     \<and> ps_dec p - ps_exe p \<le> PIPE \<and> list_all seq_bounded (window p) \<and> queued X (ps_out p) r"

lemma window_push:
  assumes "length (ps_queue p) = PIPE" "ps_exe p \<le> ps_dec p" "ps_dec p - ps_exe p < PIPE"
  shows "window (p\<lparr> ps_cur := cur, ps_queue := (ps_queue p)[ps_dec p mod PIPE := s], ps_dec := ps_dec p + 1 \<rparr>) = window p @ [s]"
proof -
  have "(ps_queue p)[ps_dec p mod PIPE := s] ! (i mod PIPE) = ps_queue p ! (i mod PIPE)"
    if "ps_exe p \<le> i" "i < ps_dec p" for i
  proof -
    have "i mod PIPE \<noteq> ps_dec p mod PIPE"
    proof
      assume "i mod PIPE = ps_dec p mod PIPE"
      then have "PIPE dvd ps_dec p - i" using that by (metis mod_eq_dvd_iff_nat less_imp_le_nat)
      then show False using that assms(3) by (auto dest: dvd_imp_le)
    qed
    then show ?thesis by simp
  qed
  then show ?thesis using assms by (simp add: window_def PIPE_def)
qed

lemma pipe_decode_ok:
  assumes "tabs_wf t" "pipe_ok t X nseq p r" "ps_dec p < nseq" "ps_dec p - ps_exe p < PIPE"
  shows "pipe_decode seqcheck t nseq p = Some (Inl Corruption)
      \<and> (\<forall>r. pending_ref seqcheck t X (window p) (nseq - ps_dec p) (ps_cur p) r = Inl Corruption)
    \<or> (\<exists>p'. pipe_decode seqcheck t nseq p = Some (Inr p') \<and> pipe_ok t X nseq p' r \<and> ps_dec p' = ps_dec p + 1
      \<and> ps_exe p' = ps_exe p
      \<and> (\<forall>r. pending_ref seqcheck t X (window p') (nseq - ps_dec p') (ps_cur p') r
          = pending_ref seqcheck t X (window p) (nseq - ps_dec p) (ps_cur p) r))"
proof -
  have k: "cursor_wf t (ps_cur p)" "length (ps_queue p) = PIPE" "ps_exe p \<le> ps_dec p" "list_all seq_bounded (window p)"
    "queued X (ps_out p) r"
    using assms(2) by (simp_all add: pipe_ok_def)
  obtain n where n: "nseq - ps_dec p = Suc n" using assms(3) by (metis Suc_diff_Suc)
  then have nz: "ps_dec p + 1 \<noteq> nseq \<longleftrightarrow> n \<noteq> 0" by auto
  show ?thesis
  proof (cases rule: decode_cases [OF assms(1) k(1), where seqcheck = seqcheck and X = X, case_names bad seq])
    case (bad ws l m ov br')
    then have "pipe_decode seqcheck t nseq p = Some (Inl Corruption)" by (simp add: pipe_decode_def Let_def)
    moreover have "pending_ref seqcheck t X (window p) (nseq - ps_dec p) (ps_cur p) r = Inl Corruption" for r
      using bad(4) by (simp add: n pending_ref_def)
    ultimately show ?thesis by blast
  next
    case (seq ws l m ov br' off reps)
    let ?s = "seq_of l m off"
    define cur1 where "cur1 = \<lparr> sc_states = (if n \<noteq> 0 then fst (seq_advance ws br') else sc_states (ps_cur p)),
           sc_br = (if n \<noteq> 0 then snd (seq_advance ws br') else br'), sc_reps = reps \<rparr>"
    let ?p = "p\<lparr> ps_cur := cur1, ps_queue := (ps_queue p)[ps_dec p mod PIPE := ?s], ps_dec := ps_dec p + 1 \<rparr>"
    have one: "seq_decode_one seqcheck t (n \<noteq> 0) (ps_cur p) = Some (Inr (?s, cur1))" unfolding cur1_def by (rule seq(4))
    have d: "pipe_decode seqcheck t nseq p = Some (Inr ?p)"
      unfolding pipe_decode_def Let_def nz one by simp
    have w: "window ?p = window p @ [?s]" by (rule window_push [OF k(2,3) assms(4)])
    have "cursor_wf t cur1" unfolding cur1_def by (rule seq(5))
    then have ok: "pipe_ok t X nseq ?p r"
      using k seq(3) assms(3,4) w by (simp add: pipe_ok_def)
    have n': "nseq - ps_dec ?p = n" using n by simp
    have "pending_ref seqcheck t X (window ?p) (nseq - ps_dec ?p) (ps_cur ?p) r'
        = pending_ref seqcheck t X (window p) (nseq - ps_dec p) (ps_cur p) r'" for r'
      unfolding w n' n pending_decode [OF one] by simp
    then show ?thesis using d ok by (intro disjI2 exI [of _ ?p]) simp
  qed
qed

lemma pipe_fill_ok:
  assumes "tabs_wf t" "pipe_ok t X nseq p r"
    "pending_ref seqcheck t X (window p) (nseq - ps_dec p) (ps_cur p) r = ref"
  shows "pipe_fill seqcheck t nseq p = Some (Inl Corruption) \<and> ref = Inl Corruption
    \<or> (\<exists>p'. pipe_fill seqcheck t nseq p = Some (Inr p') \<and> pipe_ok t X nseq p' r \<and> ps_exe p' = ps_exe p
      \<and> (ps_dec p' = nseq \<or> PIPE \<le> ps_dec p' - ps_exe p')
      \<and> pending_ref seqcheck t X (window p') (nseq - ps_dec p') (ps_cur p') r = ref)"
  using assms(2,3)
proof (induction "nseq - ps_dec p" arbitrary: p rule: less_induct)
  case less
  show ?case
  proof (cases "ps_dec p < nseq \<and> ps_dec p - ps_exe p < PIPE")
    case False
    then show ?thesis using less.prems by (auto simp: pipe_fill.simps [of _ _ _ p] pipe_ok_def)
  next
    case True
    from pipe_decode_ok [OF assms(1) less.prems(1), of seqcheck] True consider
        (bad) "pipe_decode seqcheck t nseq p = Some (Inl Corruption)" "ref = Inl Corruption"
      | (ok) p' where "pipe_decode seqcheck t nseq p = Some (Inr p')" "pipe_ok t X nseq p' r" "ps_dec p' = ps_dec p + 1"
          "ps_exe p' = ps_exe p" "pending_ref seqcheck t X (window p') (nseq - ps_dec p') (ps_cur p') r = ref"
      using less.prems(2) by blast
    then show ?thesis
    proof cases
      case bad
      then show ?thesis using True by (simp add: pipe_fill.simps [of _ _ _ p])
    next
      case ok
      have "nseq - ps_dec p' < nseq - ps_dec p" using ok(3) True by linarith
      from less.hyps [OF this ok(2,5)] show ?thesis using True ok(1,4) by (simp add: pipe_fill.simps [of _ _ _ p])
    qed
  qed
qed

lemma pipe_run_ok:
  assumes "tabs_wf t" "pipe_ok t X nseq p r" "ps_dec p = min nseq (ps_exe p + PIPE)"
    "pending_ref seqcheck t X (window p) (nseq - ps_dec p) (ps_cur p) r = ref"
  shows "ends_as (queued X) (Option.bind (pipe_run seqcheck t X nseq p) (\<lambda>r. Some (rbind r (\<lambda>p. Inr (ps_cur p, ps_out p))))) ref"
  using assms(2-4)
proof (induction "nseq - ps_exe p" arbitrary: p r rule: less_induct)
  case less
  have k: "cursor_wf t (ps_cur p)" "length (ps_queue p) = PIPE" "list_all seq_bounded (window p)" "queued X (ps_out p) r"
    using less.prems(1) by (simp_all add: pipe_ok_def)
  show ?case
  proof (cases "ps_exe p < nseq")
    case False
    then have d: "ps_dec p = nseq" "window p = []" using less.prems(1,2) by (auto simp: window_def pipe_ok_def)
    then have "ref = Inr (ps_cur p, r)" using less.prems(3) by (simp add: pending_ref_def)
    then show ?thesis using False k(4) by (simp add: pipe_run.simps [of _ _ _ _ p] ends_as_def)
  next
    case True
    let ?c = "ps_queue p ! (ps_exe p mod PIPE)"
    have lt: "ps_exe p < ps_dec p" using True less.prems(2) by (simp add: PIPE_def)
    define W where "W = map (\<lambda>i. ps_queue p ! (i mod PIPE)) [Suc (ps_exe p)..<ps_dec p]"
    have w: "window p = ?c # W" using lt by (simp add: window_def W_def upt_conv_Cons)
    have c: "seq_bounded ?c" "list_all seq_bounded W" using k(3) by (simp_all add: w)
    note ex = exec_queued_ok [OF k(4) c(1)]
    show ?thesis
    proof (cases "exec_ref X r ?c")
      case (Inl e)
      then have "exec_queued X (ps_out p) ?c = Some (Inl Corruption)" using ex by (simp add: tracks_def)
      moreover have "ref = Inl Corruption" using less.prems(3) Inl by (simp add: w pending_exec)
      ultimately show ?thesis using True by (simp add: pipe_run.simps [of _ _ _ _ p] ends_as_def)
    next
      case (Inr r1)
      then obtain st1 where st1: "exec_queued X (ps_out p) ?c = Some (Inr st1)" "queued X st1 r1"
        using ex by (auto simp: tracks_def)
      define q where "q = p\<lparr> ps_out := st1, ps_exe := ps_exe p + 1 \<rparr>"
      have q: "window q = W" "ps_dec q = ps_dec p" "ps_exe q = ps_exe p + 1" "ps_cur q = ps_cur p"
        by (simp_all add: q_def window_def W_def)
      have qok: "pipe_ok t X nseq q r1"
        using less.prems(1) lt c(2) st1(2) unfolding pipe_ok_def q by (auto simp: q_def)
      have qref: "pending_ref seqcheck t X (window q) (nseq - ps_dec q) (ps_cur q) r1 = ref"
        using less.prems(3) by (simp add: w q pending_exec Inr)
      have dec: "nseq - ps_exe p' < nseq - ps_exe p" if "ps_exe p' = ps_exe q" for p'
        using True that by (simp add: q)
      show ?thesis
      proof (cases "ps_dec p < nseq")
        case False
        then have "ps_dec q = min nseq (ps_exe q + PIPE)" using less.prems(1,2) by (simp add: q pipe_ok_def)
        from less.hyps [OF dec [OF refl] qok this qref] show ?thesis
          using True False st1(1) by (simp add: pipe_run.simps [of _ _ _ _ p] q_def Let_def)
      next
        case more: True
        then have gap: "ps_dec q < nseq" "ps_dec q - ps_exe q < PIPE" using less.prems(2) by (auto simp: q PIPE_def)
        from pipe_decode_ok [OF assms(1) qok gap, of seqcheck] consider
            (bad) "pipe_decode seqcheck t nseq q = Some (Inl Corruption)" "ref = Inl Corruption"
          | (ok) p' where "pipe_decode seqcheck t nseq q = Some (Inr p')" "pipe_ok t X nseq p' r1" "ps_dec p' = ps_dec q + 1"
              "ps_exe p' = ps_exe q" "pending_ref seqcheck t X (window p') (nseq - ps_dec p') (ps_cur p') r1 = ref"
          using qref by blast
        then show ?thesis
        proof cases
          case bad
          then show ?thesis using True more st1(1) by (simp add: pipe_run.simps [of _ _ _ _ p] q_def Let_def ends_as_def)
        next
          case ok
          have "ps_dec p' = min nseq (ps_exe p' + PIPE)" using ok(3,4) less.prems(2) more by (simp add: q)
          from less.hyps [OF dec [OF ok(4)] ok(2) this ok(5)] show ?thesis
            using True more st1(1) ok(1) by (simp add: pipe_run.simps [of _ _ _ _ p] q_def Let_def)
        qed
      qed
    qed
  qed
qed

lemma pipeline_refines:
  assumes "tabs_wf t" "cursor_wf t cur" "queued X st r"
  shows "ends_as (queued X) (pipeline seqcheck t X n cur st) (section_ref seqcheck t X n cur r)"
proof -
  let ?p = "\<lparr> ps_cur = cur, ps_queue = replicate PIPE (seq_of 0 0 0), ps_dec = 0, ps_exe = 0, ps_out = st \<rparr>"
  have ok: "pipe_ok t X n ?p r" using assms(2,3) by (simp add: pipe_ok_def window_def)
  have ref: "pending_ref seqcheck t X (window ?p) (n - ps_dec ?p) (ps_cur ?p) r = section_ref seqcheck t X n cur r"
    by (simp add: pending_ref_def section_ref_def window_def split: option.split sum.split)
  from pipe_fill_ok [OF assms(1) ok ref] consider
      (bad) "pipe_fill seqcheck t n ?p = Some (Inl Corruption)" "section_ref seqcheck t X n cur r = Inl Corruption"
    | (ok) p' where "pipe_fill seqcheck t n ?p = Some (Inr p')" "pipe_ok t X n p' r" "ps_exe p' = 0"
        "ps_dec p' = n \<or> PIPE \<le> ps_dec p' - ps_exe p'"
        "pending_ref seqcheck t X (window p') (n - ps_dec p') (ps_cur p') r = section_ref seqcheck t X n cur r"
    by fastforce
  then show ?thesis
  proof cases
    case bad
    then show ?thesis by (simp add: pipeline_def ends_as_def)
  next
    case ok
    have "ps_dec p' = min n (ps_exe p' + PIPE)" using ok(2-4) by (auto simp: pipe_ok_def)
    from pipe_run_ok [OF assms(1) ok(2) this ok(5)] show ?thesis by (simp add: pipeline_def ok(1))
  qed
qed

section \<open>The loops\<close>

text \<open>C13: the classic loop, with its fused test, its raw cursors and every copy tier, is the decoding of
  all sequences followed by their byte-at-a-time execution: the same output, literal cursor, budget,
  history and reader, or \<open>Corruption\<close> when either fails; no unchecked load or raw copy leaves its bounds.\<close>

theorem classic_loop_refines:
  assumes "tabs_wf t" "cursor_wf t cur" "cursors X st r"
  shows "ends_as (cursors X) (classic_loop seqcheck t X n cur st) (section_ref seqcheck t X n cur r)"
  by (rule classic_loop_ok [OF assms])

definition sample_ctx_exec :: exec_ctx where
  "sample_ctx_exec = \<lparr> xc_lits = [5, 6, 7, 8],
     xc_match = \<lparr> mc_dict = [], mc_frame_start = 0, mc_frame_skipped = 0, mc_window_size = 1024, mc_block_max = 100, mc_wide = True \<rparr>,
     xc_litcopy_arm = True \<rparr>"

definition sample_cursor :: seq_cursor where
  "sample_cursor = \<lparr> sc_states = (1, 2, 3),
     sc_br = \<lparr> br_src = replicate 8 1, br_ptr = 0, br_container = 12345, br_consumed = 8 \<rparr>, sc_reps = (1, 4, 8) \<rparr>"

definition sample_ref :: ref_state where
  "sample_ref = \<lparr> rs_out = [1, 2, 3], rs_lit = 0, rs_budget = 100 \<rparr>"

definition sample_cells :: mem where
  "sample_cells = map Some [1, 2, 3] @ replicate 164 None"

lemma sample_exec:
  "cursor_wf default_tabs sample_cursor" "mem_room sample_ctx_exec sample_cells sample_ref"
  by (simp_all add: cursor_wf_def sample_cursor_def states_wf_def default_tabs_def reps_ok_def mem_room_def sample_ctx_exec_def
      sample_ref_def sample_cells_def mem_is_def)

theorem classic_loop_refines_witness:
  "ends_as (cursors sample_ctx_exec)
     (classic_loop True default_tabs sample_ctx_exec 3 sample_cursor \<lparr> xs_mem = sample_cells, xs_op = 3, xs_lit = 0, xs_budget = 100 \<rparr>)
     (section_ref True default_tabs sample_ctx_exec 3 sample_cursor sample_ref)"
  by (rule classic_loop_refines [OF default_tabs_wf sample_exec(1)])
    (use sample_exec(2) in \<open>simp add: cursors_def, simp add: sample_ref_def\<close>)

text \<open>The two read-ahead loops run the same section as the classic one: the interleave with one
  pending sequence and the queue of eight execute every sequence once, in order, with the values it
  was decoded to, so their output, literal cursor, budget and final cursor are those of the same
  reference, and they fail exactly when it fails.\<close>

theorem queued_loops_refine:
  assumes "tabs_wf t" "cursor_wf t cur" "queued X st r" "0 < n"
  shows "ends_as (queued X) (pipe1 seqcheck t X n cur st) (section_ref seqcheck t X n cur r)
    \<and> ends_as (queued X) (pipeline seqcheck t X n cur st) (section_ref seqcheck t X n cur r)"
  using pipe1_refines [OF assms] pipeline_refines [OF assms(1-3)] by simp

theorem queued_loops_refine_witness:
  "ends_as (queued sample_ctx_exec)
     (pipe1 True default_tabs sample_ctx_exec 3 sample_cursor \<lparr> qs_out = publish sample_cells 3, qs_lit = 0, qs_budget = 100 \<rparr>)
     (section_ref True default_tabs sample_ctx_exec 3 sample_cursor sample_ref)"
proof -
  have "queued sample_ctx_exec \<lparr> qs_out = publish sample_cells 3, qs_lit = 0, qs_budget = 100 \<rparr> sample_ref"
    using sample_exec(2) by (simp add: queued_def publish_def) (simp add: sample_ref_def)
  from queued_loops_refine [OF default_tabs_wf sample_exec(1) this, of 3] show ?thesis by simp
qed

end
