(* ===== verification/Seq_Block.thy ===== *)
theory Seq_Block
  imports Seq_Exec Fse_Ncount Byte_Reader
begin

text \<open>
  The sequences section of a compressed block (\<^verbatim>\<open>compressed.rs\<close>): the header with its three table
  modes, the state a frame carries from block to block, and the whole of \<open>decode_sequences\<close>: reader,
  states, reservation, the loop, the exact-end test and the trailing literals.

  On any bytes and any well-formed state the section decodes without leaving a table or a buffer,
  appends at most \<open>block_max\<close> bytes, keeps the state well formed, and appends exactly what the
  reference execution does.
\<close>

section \<open>The state of a frame\<close>

text \<open>\<^verbatim>\<open>BlockState\<close> without the Huffman table and the recycled literal buffer, which this section does
  not touch.\<close>

record block_state =
  bs_ll :: "fse_table option"
  bs_of :: "fse_table option"
  bs_ml :: "fse_table option"
  bs_reps :: reps

definition block_state_new :: block_state where
  "block_state_new = \<lparr> bs_ll = None, bs_of = None, bs_ml = None, bs_reps = (1, 4, 8) \<rparr>"

section \<open>The tables\<close>

fun trailing_zeros :: "nat \<Rightarrow> nat" where
  "trailing_zeros n = (if n = 0 then 64 else if odd n then 0 else Suc (trailing_zeros (n div 2)))"

declare trailing_zeros.simps [simp del]

definition seq_table :: "bytes \<Rightarrow> nat \<Rightarrow> nat \<Rightarrow> nat \<Rightarrow> fse_table option \<Rightarrow> fse_entry list option \<Rightarrow> (fse_table \<times> nat) res option" where
  "seq_table src mode max_sym max_log prev predefined =
     (if mode = 0 then
        Option.bind predefined (\<lambda>d.
          Some (Inr (\<lparr> ft_decode = d, ft_accuracy_log = trailing_zeros (length d) \<rparr>, 0)))
      else if mode = 1 then
        Some (rbind (ok_or (get_at src 0) Corruption) (\<lambda>sym.
          if max_sym < unat sym then Inl Corruption else Inr (fse_rle (unat sym), 1)))
      else if mode = 2 then read_ncount_into src max_sym max_log
      else if mode = 3 then Some (rbind (ok_or prev Corruption) (\<lambda>t. Inr (t, 0)))
      else Some (Inl Corruption))"

text \<open>The number of sequences, a varint of one to three bytes after which a modes byte must follow.\<close>

definition parse_nseq :: "bytes \<Rightarrow> (nat \<times> nat) res" where
  "parse_nseq src =
     (let byte0 = unat (src ! 0); pos = 1
      in if byte0 < 128 then Inr (byte0, pos)
         else if byte0 < 255 then
           if length src \<le> pos then Inl Corruption
           else Inr (push_bit 8 (byte0 - 128) + unat (src ! pos), pos + 1)
         else
           if length src \<le> pos + 1 then Inl Corruption
           else Inr (unat (src ! pos) + push_bit 8 (unat (src ! (pos + 1))) + 0x7F00, pos + 2))"

definition seq_header_tables :: "bytes \<Rightarrow> block_state \<Rightarrow> (nat \<times> nat \<times> seq_tabs) res option" where
  "seq_header_tables src state =
     (case parse_nseq src of
        Inl e \<Rightarrow> Some (Inl e)
      | Inr (nseq, pos) \<Rightarrow>
          if length src \<le> pos then Some (Inl Corruption)
          else
            let modes = unat (src ! pos); pos = pos + 1
            in if modes AND 3 \<noteq> 0 then Some (Inl Corruption)
               else
                 let ll_mode = drop_bit 6 modes; of_mode = drop_bit 4 modes AND 3; ml_mode = drop_bit 2 modes AND 3
                 in Option.bind (seq_table (drop pos src) ll_mode 35 9 (bs_ll state) PREDEF_LL) (\<lambda>r.
                    case r of Inl e \<Rightarrow> Some (Inl e) | Inr (ll, n) \<Rightarrow>
                      let pos = pos + n
                      in case slice_from src pos of None \<Rightarrow> Some (Inl Corruption) | Some rest \<Rightarrow>
                         Option.bind (seq_table rest of_mode 31 8 (bs_of state) PREDEF_OF) (\<lambda>r.
                         case r of Inl e \<Rightarrow> Some (Inl e) | Inr (of', n) \<Rightarrow>
                           let pos = pos + n
                           in case slice_from src pos of None \<Rightarrow> Some (Inl Corruption) | Some rest \<Rightarrow>
                              Option.bind (seq_table rest ml_mode 52 9 (bs_ml state) PREDEF_ML) (\<lambda>r.
                              Some (rbind r (\<lambda>(ml, n).
                                Inr (pos + n, nseq, \<lparr> tb_ll = ll, tb_of = of', tb_ml = ml \<rparr>)))))))"

text \<open>\<open>decode_seq_header\<close>: \<open>None\<close> is a block of literals only, which have been appended.\<close>

definition decode_seq_header :: "bytes \<Rightarrow> bytes \<Rightarrow> vec \<Rightarrow> block_state \<Rightarrow> ((nat \<times> nat \<times> seq_tabs) option \<times> vec) res option" where
  "decode_seq_header src lits out state =
     (if unat (src ! 0) = 0 then Some (Inr (None, vec_extend (map Some lits) out))
      else Option.bind (seq_header_tables src state) (\<lambda>r. Some (rbind r (\<lambda>h. Inr (Some h, out)))))"

section \<open>The section\<close>

text \<open>Which arms are on: all but the shipping choice (\<open>litcopy\<close>, \<open>matchcopy\<close> and \<open>seqcheck\<close> on, the
  read-ahead loops off) exist in profile builds only.\<close>

record seq_arms =
  ar_seqcheck :: bool
  ar_litcopy :: bool
  ar_matchcopy :: bool
  ar_pipeline :: bool
  ar_pipe1 :: bool

definition shipping_arms :: seq_arms where
  "shipping_arms = \<lparr> ar_seqcheck = True, ar_litcopy = True, ar_matchcopy = True, ar_pipeline = False, ar_pipe1 = False \<rparr>"

definition COPY_PAD :: nat where "COPY_PAD = 64"

record frame_ctx =
  fx_window_size :: nat
  fx_block_max :: nat
  fx_dict :: bytes
  fx_frame_start :: nat
  fx_frame_skipped :: nat

definition exec_ctx_of :: "seq_arms \<Rightarrow> frame_ctx \<Rightarrow> bytes \<Rightarrow> exec_ctx" where
  "exec_ctx_of A fx lits =
     \<lparr> xc_lits = lits,
       xc_match = \<lparr> mc_dict = fx_dict fx, mc_frame_start = fx_frame_start fx, mc_frame_skipped = fx_frame_skipped fx,
         mc_window_size = fx_window_size fx, mc_block_max = fx_block_max fx, mc_wide = ar_matchcopy A \<rparr>,
       xc_litcopy_arm = ar_litcopy A \<rparr>"

text \<open>The loops in the code's order. The read-ahead loops leave \<open>rem\<close> at 0, so the classic loop then
  runs no sequence; its literal pointer \<open>lit_p\<close> was taken before them, at the first literal.\<close>

definition run_loops :: "seq_arms \<Rightarrow> seq_tabs \<Rightarrow> exec_ctx \<Rightarrow> nat \<Rightarrow> seq_cursor \<Rightarrow> vec \<Rightarrow> nat \<Rightarrow> (seq_cursor \<times> exec_state) res option" where
  "run_loops A t X nseq cur out budget =
     (let queue = \<lparr> qs_out = out, qs_lit = 0, qs_budget = budget \<rparr>;
          ahead = (if ar_pipeline A \<and> 0 < nseq then Option.bind (pipeline (ar_seqcheck A) t X nseq cur queue)
                     (\<lambda>r. Some (rbind r (\<lambda>(cur, q). Inr (0, cur, q))))
                   else Some (Inr (nseq, cur, queue)));
          ahead = Option.bind ahead (\<lambda>r.
            case r of Inl e \<Rightarrow> Some (Inl e) | Inr (rm, cur, queue) \<Rightarrow>
              if ar_pipe1 A \<and> rm \<noteq> 0 then Option.bind (pipe1 (ar_seqcheck A) t X rm cur queue)
                (\<lambda>r. Some (rbind r (\<lambda>(cur, q). Inr (0, cur, q))))
              else Some (Inr (rm, cur, queue)))
      in Option.bind ahead (\<lambda>r.
           case r of Inl e \<Rightarrow> Some (Inl e) | Inr (rm, cur, queue) \<Rightarrow>
             classic_loop (ar_seqcheck A) t X rm cur
               \<lparr> xs_mem = v_mem (qs_out queue), xs_op = v_len (qs_out queue), xs_lit = 0, xs_budget = qs_budget queue \<rparr>))"

definition decode_sequences :: "seq_arms \<Rightarrow> bytes \<Rightarrow> bytes \<Rightarrow> vec \<Rightarrow> frame_ctx \<Rightarrow> block_state \<Rightarrow> (vec \<times> block_state) res option" where
  "decode_sequences A src lits out fx state =
     (if src = [] then Some (Inl Corruption)
      else
        Option.bind (decode_seq_header src lits out state) (\<lambda>r.
        case r of
          Inl e \<Rightarrow> Some (Inl e)
        | Inr (None, out) \<Rightarrow> Some (Inr (out, state))
        | Inr (Some (pos, nseq, t), out) \<Rightarrow>
            case rbind (ok_or (slice_from src pos) Corruption) br_new of
              Inl e \<Rightarrow> Some (Inl e)
            | Inr br \<Rightarrow>
                let (st, br) = seq_init t br;
                    X = exec_ctx_of A fx lits;
                    out = vec_reserve (fx_block_max fx + COPY_PAD) out
                in Option.bind (run_loops A t X nseq \<lparr> sc_states = st, sc_br = br, sc_reps = bs_reps state \<rparr> out (fx_block_max fx)) (\<lambda>r.
                   Some (rbind r (\<lambda>(cur, xs).
                     let out = publish (xs_mem xs) (xs_op xs)
                     in if \<not> br_finished_exactly (sc_br cur) then Inl Corruption
                        else rbind (ok_or (slice_from lits (xs_lit xs)) Corruption) (\<lambda>rest.
                          if xs_budget xs < length rest then Inl Corruption
                          else Inr (vec_extend (map Some rest) out,
                            \<lparr> bs_ll = Some (tb_ll t), bs_of = Some (tb_of t), bs_ml = Some (tb_ml t), bs_reps = sc_reps cur \<rparr>)))))))"

section \<open>Tables and state stay well formed\<close>

definition state_wf :: "block_state \<Rightarrow> bool" where
  "state_wf s \<longleftrightarrow> pred_option (table_wf 35) (bs_ll s) \<and> pred_option (table_wf 31) (bs_of s)
     \<and> pred_option (table_wf 52) (bs_ml s) \<and> reps_ok (bs_reps s)"

lemma block_state_new_wf: "state_wf block_state_new"
  by (simp add: state_wf_def block_state_new_def reps_ok_def)

lemma predefined_wf:
  "seq_table src 0 m ml prev PREDEF_LL = Some (Inr (table_of DEFAULT_LL_NORM 6, 0))"
  "seq_table src 0 m ml prev PREDEF_OF = Some (Inr (table_of DEFAULT_OF_NORM 5, 0))"
  "seq_table src 0 m ml prev PREDEF_ML = Some (Inr (table_of DEFAULT_ML_NORM 6, 0))"
proof -
  have "trailing_zeros 64 = 6" "trailing_zeros 32 = 5" by (simp_all add: trailing_zeros.simps)
  moreover have "\<lparr> ft_decode = ft_decode (table_of n l), ft_accuracy_log = l \<rparr> = table_of n l" for n l
    by (simp add: table_of_def)
  ultimately show
    "seq_table src 0 m ml prev PREDEF_LL = Some (Inr (table_of DEFAULT_LL_NORM 6, 0))"
    "seq_table src 0 m ml prev PREDEF_OF = Some (Inr (table_of DEFAULT_OF_NORM 5, 0))"
    "seq_table src 0 m ml prev PREDEF_ML = Some (Inr (table_of DEFAULT_ML_NORM 6, 0))"
    by (simp_all add: seq_table_def predef_tables)
qed

lemma seq_table_safe:
  assumes "max_log \<le> 9" "max_sym \<le> 255" "pred_option (table_wf max_sym) prev"
    "\<And>src. seq_table src 0 max_sym max_log prev predefined = Some (Inr (t0, 0))" "table_wf max_sym t0"
  shows "safe_res (\<lambda>(t, n). table_wf max_sym t) (seq_table src mode max_sym max_log prev predefined)"
proof -
  consider "mode = 0" | "mode = 1" | "mode = 2" | "mode = 3" | "\<not> mode \<le> 3" by linarith
  then show ?thesis
  proof cases
    case 1
    then show ?thesis using assms(4,5) by simp
  next
    case 2
    then show ?thesis by (auto simp: seq_table_def get_at_def intro: fse_rle_wf)
  next
    case 3
    then show ?thesis using read_ncount_wf [OF assms(1,2)] by (simp add: seq_table_def)
  next
    case 4
    then show ?thesis using assms(3) by (cases prev) (simp_all add: seq_table_def)
  next
    case 5
    then show ?thesis by (simp add: seq_table_def)
  qed
qed

lemma seq_header_safe:
  assumes "state_wf state"
  shows "safe_res (\<lambda>(pos, nseq, t). tabs_wf t) (seq_header_tables src state)"
proof -
  have d: "table_wf 35 (table_of DEFAULT_LL_NORM 6)" "table_wf 31 (table_of DEFAULT_OF_NORM 5)" "table_wf 52 (table_of DEFAULT_ML_NORM 6)"
    using default_tabs_wf by (simp_all add: tabs_wf_def default_tabs_def)
  have s: "pred_option (table_wf 35) (bs_ll state)" "pred_option (table_wf 31) (bs_of state)" "pred_option (table_wf 52) (bs_ml state)"
    using assms by (simp_all add: state_wf_def)
  note ll = seq_table_safe [where max_log = 9, OF _ _ s(1) predefined_wf(1) d(1), simplified]
  note of' = seq_table_safe [where max_log = 8, OF _ _ s(2) predefined_wf(2) d(2), simplified]
  note ml = seq_table_safe [where max_log = 9, OF _ _ s(3) predefined_wf(3) d(3), simplified]
  have corrupt: "parse_nseq src = Inl e \<Longrightarrow> e = Corruption" for e
    by (auto simp: parse_nseq_def Let_def split: if_splits)
  show ?thesis
    unfolding seq_header_tables_def Let_def
    by (auto split: sum.split option.split prod.split dest: corrupt
        intro!: safe_res_bind [OF ll] safe_res_bind [OF of'] safe_res_map [OF ml] simp: tabs_wf_def)
qed

section \<open>The section as decode, execute, append\<close>

definition decode_sequences_ref :: "seq_arms \<Rightarrow> bytes \<Rightarrow> bytes \<Rightarrow> bytes \<Rightarrow> frame_ctx \<Rightarrow> block_state \<Rightarrow> (bytes \<times> block_state) res" where
  "decode_sequences_ref A src lits out fx state =
     (if src = [] then Inl Corruption
      else if src ! 0 = 0 then Inr (out @ lits, state)
      else
        case seq_header_tables src state of
          Some (Inr (pos, nseq, t)) \<Rightarrow>
            rbind (rbind (ok_or (slice_from src pos) Corruption) br_new) (\<lambda>br.
            let (st, br) = seq_init t br
            in rbind (section_ref (ar_seqcheck A) t (exec_ctx_of A fx lits) nseq \<lparr> sc_states = st, sc_br = br, sc_reps = bs_reps state \<rparr>
                 \<lparr> rs_out = out, rs_lit = 0, rs_budget = fx_block_max fx \<rparr>) (\<lambda>(cur, r).
               if \<not> br_finished_exactly (sc_br cur) \<or> rs_budget r < length lits - rs_lit r then Inl Corruption
               else Inr (rs_out r @ drop (rs_lit r) lits,
                 \<lparr> bs_ll = Some (tb_ll t), bs_of = Some (tb_of t), bs_ml = Some (tb_ml t), bs_reps = sc_reps cur \<rparr>)))
        | _ \<Rightarrow> Inl Corruption)"

text \<open>What the frame loop guarantees around a block.\<close>

definition block_pre :: "bytes \<Rightarrow> vec \<Rightarrow> bytes \<Rightarrow> frame_ctx \<Rightarrow> bool" where
  "block_pre lits v out fx \<longleftrightarrow> vec_is v out \<and> length out + fx_block_max fx + fx_frame_skipped fx < 2 ^ 62
     \<and> length lits \<le> fx_block_max fx \<and> fx_window_size fx < 2 ^ 64 \<and> fx_frame_start fx \<le> length out"

lemma br_new_corrupt: "br_new src = Inl e \<Longrightarrow> e = Corruption"
  by (auto simp: br_new_def Let_def split: if_splits)

lemma seq_decode_all_wf:
  assumes "tabs_wf t" "cursor_wf t cur" "seq_decode_all seqcheck t n cur = Some (Inr (ss, cur'))"
  shows "list_all seq_bounded ss" "length ss = n" "reps_ok (sc_reps cur')"
  using seq_decode_all_safe [where t = t and cur = cur and seqcheck = seqcheck and n = n] assms by (auto simp: cursor_wf_def)

lemma exec_ref_extends:
  "exec_ref X r s = Inr r' \<Longrightarrow> (\<exists>xs. rs_out r' = rs_out r @ xs \<and> length xs + rs_budget r' = rs_budget r)"
  by (auto simp: exec_ref_def Let_def rbind_Inr_iff dest!: match_ref_extends split: if_splits)

lemma exec_all_ref_extends:
  "exec_all_ref X ss r = Inr r' \<Longrightarrow> (\<exists>xs. rs_out r' = rs_out r @ xs \<and> length xs + rs_budget r' = rs_budget r)"
proof (induction ss arbitrary: r)
  case (Cons s ss)
  then obtain r1 where "exec_ref X r s = Inr r1" "exec_all_ref X ss r1 = Inr r'" by (auto simp: rbind_Inr_iff)
  then show ?case using exec_ref_extends [of X r s r1] Cons.IH [of r1] by fastforce
qed simp

lemma section_ref_extends:
  assumes "tabs_wf t" "cursor_wf t cur" "section_ref seqcheck t X n cur r = Inr (cur', r')"
  shows "\<exists>xs. rs_out r' = rs_out r @ xs \<and> length xs + rs_budget r' = rs_budget r" "reps_ok (sc_reps cur')"
  using assms(3) seq_decode_all_wf [OF assms(1,2)] exec_all_ref_extends
  by (auto simp: section_ref_def rbind_Inr_iff split: option.splits sum.splits prod.splits)

lemma tables_in_state_wf:
  "tabs_wf t \<Longrightarrow> reps_ok reps \<Longrightarrow>
   state_wf \<lparr> bs_ll = Some (tb_ll t), bs_of = Some (tb_of t), bs_ml = Some (tb_ml t), bs_reps = reps \<rparr>"
  by (simp add: state_wf_def tabs_wf_def)

lemma decode_sequences_ref_safe:
  assumes "state_wf state" "length lits \<le> fx_block_max fx"
  shows "case decode_sequences_ref A src lits out fx state of
      Inl e \<Rightarrow> e = Corruption
    | Inr (out', state') \<Rightarrow> state_wf state' \<and> (\<exists>xs. out' = out @ xs \<and> length xs \<le> fx_block_max fx)"
proof -
  have reps: "reps_ok (bs_reps state)" using assms(1) by (simp add: state_wf_def)
  consider "src = []" | "src \<noteq> []" "src ! 0 = 0" | "src \<noteq> []" "src ! 0 \<noteq> 0" by blast
  then show ?thesis
  proof cases
    case 3
    from seq_header_safe [OF assms(1), of src] show ?thesis
    proof (cases rule: safe_res_cases)
      case 1
      then show ?thesis using 3 by (simp add: decode_sequences_ref_def)
    next
      case (2 h)
      obtain pos nseq t where h: "h = (pos, nseq, t)" by (metis prod.exhaust)
      have t: "tabs_wf t" using 2 by (simp add: h)
      show ?thesis
      proof (cases "rbind (ok_or (slice_from src pos) Corruption) br_new")
        case (Inl e)
        then have "e = Corruption" by (auto simp: rbind_Inl_iff ok_or_def dest: br_new_corrupt split: option.splits)
        then show ?thesis using 3 2 Inl by (simp add: decode_sequences_ref_def h)
      next
        case (Inr br)
        obtain st br' where i: "seq_init t br = (st, br')" by fastforce
        let ?cur = "\<lparr> sc_states = st, sc_br = br', sc_reps = bs_reps state \<rparr>"
        let ?r = "\<lparr> rs_out = out, rs_lit = 0, rs_budget = fx_block_max fx \<rparr>"
        have wf: "cursor_wf t ?cur" using seq_init_wf [OF t, of br] reps by (simp add: cursor_wf_def i)
        show ?thesis
        proof (cases "section_ref (ar_seqcheck A) t (exec_ctx_of A fx lits) nseq ?cur ?r")
          case (Inl e)
          then have "e = Corruption"
            by (auto simp: section_ref_def rbind_Inl_iff dest: exec_all_ref_corrupt split: option.splits sum.splits)
          then show ?thesis using 3 2 Inr Inl by (simp add: decode_sequences_ref_def h i)
        next
          case sec: (Inr cr)
          obtain cur r where cr: "cr = (cur, r)" by (rule prod.exhaust)
          note ext = section_ref_extends [OF t wf sec [unfolded cr]]
          show ?thesis
            using 3 2 Inr sec cr ext tables_in_state_wf [OF t ext(2)]
            by (auto simp: decode_sequences_ref_def h i)
        qed
      qed
    qed
  qed (use assms in \<open>auto simp: decode_sequences_ref_def\<close>)
qed

text \<open>The room a block reserves, before the first sequence.\<close>

lemma reserved_room:
  assumes "block_pre lits v out fx"
  shows "mem_room (exec_ctx_of A fx lits) (v_mem (vec_reserve (fx_block_max fx + COPY_PAD) v))
      \<lparr> rs_out = out, rs_lit = 0, rs_budget = fx_block_max fx \<rparr>"
    "v_len (vec_reserve (fx_block_max fx + COPY_PAD) v) = length out"
proof -
  have v: "vec_is v out" using assms by (simp add: block_pre_def)
  note r = vec_reserve_is(1) [OF v, of "fx_block_max fx + COPY_PAD"]
  show "v_len (vec_reserve (fx_block_max fx + COPY_PAD) v) = length out" using r by (simp add: vec_is_def)
  have "length out + fx_block_max fx + 64 \<le> length (v_mem (vec_reserve (fx_block_max fx + COPY_PAD) v))"
    using v by (simp add: vec_reserve_def vec_cap_def vec_is_def COPY_PAD_def)
  then show "mem_room (exec_ctx_of A fx lits) (v_mem (vec_reserve (fx_block_max fx + COPY_PAD) v))
      \<lparr> rs_out = out, rs_lit = 0, rs_budget = fx_block_max fx \<rparr>"
    using assms r by (simp add: mem_room_def exec_ctx_of_def block_pre_def vec_is_def)
qed

lemma tail_appended:
  assumes "cursors X xs r" "xs_budget xs = rs_budget r"
  shows "vec_is (vec_extend (map Some rest) (publish (xs_mem xs) (xs_op xs))) (rs_out r @ rest)"
  using assms vec_extend_is [OF vec_is_publish] by (simp add: cursors_def mem_room_def)

lemma decode_sequences_ok:
  assumes "state_wf state" "block_pre lits v out fx" "\<not> ar_pipeline A" "\<not> ar_pipe1 A"
  shows "case decode_sequences_ref A src lits out fx state of
      Inl e \<Rightarrow> decode_sequences A src lits v fx state = Some (Inl Corruption)
    | Inr (out', state') \<Rightarrow> \<exists>v'. decode_sequences A src lits v fx state = Some (Inr (v', state')) \<and> vec_is v' out'"
proof -
  have v: "vec_is v out" using assms(2) by (simp add: block_pre_def)
  have reps: "reps_ok (bs_reps state)" using assms(1) by (simp add: state_wf_def)
  consider "src = []" | "src \<noteq> []" "src ! 0 = 0" | "src \<noteq> []" "src ! 0 \<noteq> 0" by blast
  then show ?thesis
  proof cases
    case 2
    then show ?thesis using vec_extend_is [OF v, of lits]
      by (simp add: decode_sequences_ref_def decode_sequences_def decode_seq_header_def)
  next
    case 3
    then have src: "src \<noteq> []" "unat (src ! 0) \<noteq> 0" "src ! 0 \<noteq> 0" by (auto simp: unat_eq_0)
    from seq_header_safe [OF assms(1), of src] show ?thesis
    proof (cases rule: safe_res_cases)
      case 1
      then show ?thesis using src by (simp add: decode_sequences_ref_def decode_sequences_def decode_seq_header_def)
    next
      case (2 h)
      obtain pos nseq t where h: "h = (pos, nseq, t)" by (metis prod.exhaust)
      have t: "tabs_wf t" using 2 by (simp add: h)
      show ?thesis
      proof (cases "rbind (ok_or (slice_from src pos) Corruption) br_new")
        case (Inl e)
        then have "e = Corruption" by (auto simp: rbind_Inl_iff ok_or_def dest: br_new_corrupt split: option.splits)
        then show ?thesis using src 2 Inl by (simp add: decode_sequences_ref_def decode_sequences_def decode_seq_header_def h)
      next
        case (Inr br)
        obtain st br' where i: "seq_init t br = (st, br')" by fastforce
        let ?cur = "\<lparr> sc_states = st, sc_br = br', sc_reps = bs_reps state \<rparr>"
        let ?r = "\<lparr> rs_out = out, rs_lit = 0, rs_budget = fx_block_max fx \<rparr>"
        let ?X = "exec_ctx_of A fx lits" and ?v = "vec_reserve (fx_block_max fx + COPY_PAD) v"
        let ?xs = "\<lparr> xs_mem = v_mem ?v, xs_op = v_len ?v, xs_lit = 0, xs_budget = fx_block_max fx \<rparr>"
        have wf: "cursor_wf t ?cur" using seq_init_wf [OF t, of br] reps by (simp add: cursor_wf_def i)
        have cu: "cursors ?X ?xs ?r" using reserved_room(1) [OF assms(2), of A] reserved_room(2) [OF assms(2)] by (simp add: cursors_def)
        note loop = classic_loop_ok [where seqcheck = "ar_seqcheck A" and n = nseq, OF t wf cu]
        have run: "run_loops A t ?X nseq ?cur ?v (fx_block_max fx) = classic_loop (ar_seqcheck A) t ?X nseq ?cur ?xs"
          using assms(3,4) by (simp add: run_loops_def)
        have L: "length lits = length (xc_lits ?X)" by (simp add: exec_ctx_of_def)
        show ?thesis
        proof (cases "section_ref (ar_seqcheck A) t ?X nseq ?cur ?r")
          case (Inl e)
          then show ?thesis using src 2 Inr loop
            by (simp add: decode_sequences_ref_def decode_sequences_def decode_seq_header_def h i run ends_as_def)
        next
          case sec: (Inr cr)
          obtain cur r where cr: "cr = (cur, r)" by (rule prod.exhaust)
          obtain xs where xs: "classic_loop (ar_seqcheck A) t ?X nseq ?cur ?xs = Some (Inr (cur, xs))" "cursors ?X xs r"
            using loop sec by (auto simp: ends_as_def cr)
          have k: "xs_lit xs = rs_lit r" "xs_budget xs = rs_budget r" "rs_lit r \<le> length lits"
            using xs(2) by (auto simp: cursors_def mem_room_def L)
          show ?thesis
            using src 2 Inr sec cr xs(1) k tail_appended [OF xs(2) k(2)]
            by (auto simp: decode_sequences_ref_def decode_sequences_def decode_seq_header_def h i run slice_from_def)
        qed
      qed
    qed
  qed (simp add: decode_sequences_ref_def decode_sequences_def)
qed

text \<open>C9: the sequences section refines decode, execute, append: with the shipping arms (and any choice
  of the copy arms) \<open>decode_sequences\<close> on any bytes appends to the output exactly the reference
  execution of the sequences and the trailing literals, and hands on the same tables and history;
  it fails with \<open>Corruption\<close> exactly when the reference does. No unchecked table load, raw copy or
  pointer write is ever out of bounds, for any input.\<close>

theorem decode_sequences_refines:
  assumes "state_wf state" "block_pre lits v out fx" "\<not> ar_pipeline A" "\<not> ar_pipe1 A"
  shows "case decode_sequences_ref A src lits out fx state of
      Inl e \<Rightarrow> decode_sequences A src lits v fx state = Some (Inl Corruption)
    | Inr (out', state') \<Rightarrow> \<exists>v'. decode_sequences A src lits v fx state = Some (Inr (v', state')) \<and> vec_is v' out'"
  by (rule decode_sequences_ok [OF assms])

text \<open>C12: on any bytes, however hostile, the section keeps the state of the frame well formed (tables in
  range of their symbols and states, a history of 32-bit offsets), only appends to the output, and
  appends at most \<open>block_max\<close> bytes; what it refuses it refuses with \<open>Corruption\<close>.\<close>

theorem decode_sequences_invariant:
  assumes "state_wf state" "block_pre lits v out fx"
  shows "case decode_sequences shipping_arms src lits v fx state of
      None \<Rightarrow> False
    | Some (Inl e) \<Rightarrow> e = Corruption
    | Some (Inr (v', state')) \<Rightarrow> state_wf state' \<and> (\<exists>xs. vec_is v' (out @ xs) \<and> length xs \<le> fx_block_max fx)"
proof -
  have l: "length lits \<le> fx_block_max fx" using assms(2) by (simp add: block_pre_def)
  have a: "\<not> ar_pipeline shipping_arms" "\<not> ar_pipe1 shipping_arms" by (simp_all add: shipping_arms_def)
  show ?thesis
    using decode_sequences_ok [where A = shipping_arms and src = src, OF assms a]
      decode_sequences_ref_safe [where A = shipping_arms and src = src and out = out and fx = fx and lits = lits, OF assms(1) l]
    by (cases "decode_sequences_ref shipping_arms src lits out fx state") auto
qed

section \<open>The read-ahead loops repeat the literals\<close>

text \<open>After a read-ahead loop the literal pointer the tail uses still stands at the first literal.\<close>

lemma run_loops_ahead:
  assumes "tabs_wf t" "cursor_wf t cur" "queued X \<lparr> qs_out = v, qs_lit = 0, qs_budget = k \<rparr> r0" "0 < n" "ar_pipeline A \<or> ar_pipe1 A"
    "section_ref (ar_seqcheck A) t X n cur r0 = Inr (cur', r)"
  shows "\<exists>q. run_loops A t X n cur v k = Some (Inr (cur',
      \<lparr> xs_mem = v_mem (qs_out q), xs_op = v_len (qs_out q), xs_lit = 0, xs_budget = qs_budget q \<rparr>)) \<and> queued X q r"
proof -
  let ?q = "\<lparr> qs_out = v, qs_lit = 0, qs_budget = k \<rparr>"
  obtain q where "pipeline (ar_seqcheck A) t X n cur ?q = Some (Inr (cur', q))" "queued X q r"
    using pipeline_refines [OF assms(1-3), of "ar_seqcheck A" n] assms(6) by (auto simp: ends_as_def)
  moreover obtain q' where "pipe1 (ar_seqcheck A) t X n cur ?q = Some (Inr (cur', q'))" "queued X q' r"
    using pipe1_refines [OF assms(1-4), of "ar_seqcheck A"] assms(6) by (auto simp: ends_as_def)
  ultimately show ?thesis using assms(4,5) by (cases "ar_pipeline A") (auto simp: run_loops_def Let_def)
qed

text \<open>C39: with a read-ahead loop on (profile builds), a section the reference accepts ends with the whole
  literal buffer appended after what its sequences produced, literals that they took included: the loop's own literal
  cursor \<open>rs_lit\<close> is lost.\<close>

theorem read_ahead_repeats_literals:
  assumes "block_pre lits v out fx" "ar_pipeline A \<or> ar_pipe1 A" "src \<noteq> []" "src ! 0 \<noteq> 0"
    "state_wf state" "seq_header_tables src state = Some (Inr (pos, nseq, t))" "0 < nseq"
    "rbind (ok_or (slice_from src pos) Corruption) br_new = Inr br" "seq_init t br = (st, br')"
    "section_ref (ar_seqcheck A) t (exec_ctx_of A fx lits) nseq \<lparr> sc_states = st, sc_br = br', sc_reps = bs_reps state \<rparr>
       \<lparr> rs_out = out, rs_lit = 0, rs_budget = fx_block_max fx \<rparr> = Inr (cur, r)"
    "br_finished_exactly (sc_br cur)" "length lits \<le> rs_budget r"
  shows "\<exists>v'. decode_sequences A src lits v fx state
      = Some (Inr (v', \<lparr> bs_ll = Some (tb_ll t), bs_of = Some (tb_of t), bs_ml = Some (tb_ml t), bs_reps = sc_reps cur \<rparr>))
    \<and> vec_is v' (rs_out r @ lits)"
proof -
  let ?X = "exec_ctx_of A fx lits" and ?v = "vec_reserve (fx_block_max fx + COPY_PAD) v"
  let ?cur = "\<lparr> sc_states = st, sc_br = br', sc_reps = bs_reps state \<rparr>"
  have t: "tabs_wf t" using seq_header_safe [OF assms(5), of src] assms(6) by simp
  have wf: "cursor_wf t ?cur" using seq_init_wf [OF t, of br] assms(5,9) by (simp add: cursor_wf_def state_wf_def)
  have q: "queued ?X \<lparr> qs_out = ?v, qs_lit = 0, qs_budget = fx_block_max fx \<rparr> \<lparr> rs_out = out, rs_lit = 0, rs_budget = fx_block_max fx \<rparr>"
    using reserved_room [OF assms(1)] by (simp add: queued_def)
  obtain k where k: "run_loops A t ?X nseq ?cur ?v (fx_block_max fx) = Some (Inr (cur,
      \<lparr> xs_mem = v_mem (qs_out k), xs_op = v_len (qs_out k), xs_lit = 0, xs_budget = qs_budget k \<rparr>))" "queued ?X k r"
    using run_loops_ahead [OF t wf q assms(7,2,10)] by blast
  have c: "cursors (?X\<lparr> xc_lits := [] \<rparr>) \<lparr> xs_mem = v_mem (qs_out k), xs_op = v_len (qs_out k), xs_lit = 0, xs_budget = qs_budget k \<rparr>
      (r\<lparr> rs_lit := 0 \<rparr>)"
    using k(2) by (simp add: cursors_def queued_def mem_room_def)
  have b: "qs_budget k = rs_budget r" using k(2) by (simp add: queued_def)
  show ?thesis
    using assms(3,4,6,8,9,11,12) k(1) b tail_appended [OF c, of lits]
    by (simp add: decode_sequences_def decode_seq_header_def slice_from_def unat_eq_0)
qed

definition sample_arms :: seq_arms where
  "sample_arms = shipping_arms\<lparr> ar_pipe1 := True \<rparr>"

definition sample_src :: bytes where "sample_src = [1, 84, 1, 2, 0, 4]"

definition sample_fx :: frame_ctx where
  "sample_fx = \<lparr> fx_window_size = 1024, fx_block_max = 100, fx_dict = [], fx_frame_start = 0, fx_frame_skipped = 0 \<rparr>"

lemma sample_header: "seq_header_tables sample_src block_state_new
    = Some (Inr (5, 1, \<lparr> tb_ll = fse_rle 1, tb_of = fse_rle 2, tb_ml = fse_rle 0 \<rparr>))"
  by (simp add: seq_header_tables_def sample_src_def parse_nseq_def seq_table_def get_at_def slice_from_def drop_bit_eq_div Let_def)


definition sample_bitrev :: bitrev where
  "sample_bitrev = \<lparr> br_src = [4], br_ptr = 0, br_container = 0, br_consumed = 62 \<rparr>"

lemma sample_br: "br_new [4] = Inr sample_bitrev"
  by (simp add: br_new_def highbit.simps padded_word_def shl64_def Let_def sample_bitrev_def)

definition sample_tabs :: seq_tabs where
  "sample_tabs = \<lparr> tb_ll = fse_rle 1, tb_of = fse_rle 2, tb_ml = fse_rle 0 \<rparr>"

definition sample_end :: seq_cursor where
  "sample_end = \<lparr> sc_states = (0, 0, 0), sc_br = sample_bitrev\<lparr> br_consumed := 64 \<rparr>, sc_reps = (1, 1, 4) \<rparr>"

lemma sample_init: "seq_init sample_tabs sample_bitrev = ((0, 0, 0), sample_bitrev)"
  by (simp add: seq_init_def sample_tabs_def fse_init_state_def fse_rle_def br_read_def)

lemma sample_fetch:
  "seq_fetch True sample_tabs (0, 0, 0) sample_bitrev
   = Some (Inr ((65536, 131072, 0), (1, 3, 4), sample_bitrev\<lparr> br_consumed := 64 \<rparr>))"
proof -
  have p: "LL_PACK ! 1 = 1" "ML_PACK ! 0 = 3" "OF_PACK ! 2 = 4" by (simp_all add: LL_PACK_def ML_PACK_def OF_PACK_def pack_codes_def LL_BASE_def LL_BITS_def ML_BASE_def ML_BITS_def)
  have l: "length LL_PACK = 36" "length ML_PACK = 53" "length OF_PACK = 32" by (rule PACK_bounds)+
  have w: "fse_entry_u32 (fse_rle 1) 0 = Some 65536" "fse_entry_u32 (fse_rle 2) 0 = Some 131072" "fse_entry_u32 (fse_rle 0) 0 = Some 0"
    by (simp_all add: fse_entry_u32_def fse_rle_def blank_entry_def)
  have y: "fse_symbol 65536 = 1" "fse_symbol 131072 = 2" "fse_symbol 0 = 0" "pk_bits 1 = 0" "pk_bits 3 = 0" "pk_base 1 = 1" "pk_base 3 = 3"
    by (simp_all add: fse_symbol_def pk_bits_def pk_base_def drop_bit_eq_div)
  have r: "br_try_reload sample_bitrev = sample_bitrev" by (simp add: br_try_reload_def br_reload_def sample_bitrev_def)
  have b: "br_read 2 sample_bitrev = (0, sample_bitrev\<lparr> br_consumed := 64 \<rparr>)" "br_read 0 br = (0, br)" for br
    by (simp_all add: br_read_def br_look_fast_def br_skip_def sample_bitrev_def shl64_def sat_add_def U32_MAX_def)
  show ?thesis
    by (simp add: seq_fetch_def sample_tabs_def Let_def w w [simplified] y y [simplified] p [simplified] l b r get_unchecked_def [abs_def] p [simplified])
qed

lemma sample_one:
  "seq_decode_one True sample_tabs False \<lparr> sc_states = (0, 0, 0), sc_br = sample_bitrev, sc_reps = (1, 4, 8) \<rparr>
   = Some (Inr (\<lparr> sq_litlen = 1, sq_matchlen = 3, sq_offset = 1 \<rparr>, sample_end))"
  by (simp add: seq_decode_one_def sample_fetch sample_end_def)

lemma sample_section:
  "section_ref True sample_tabs (exec_ctx_of sample_arms sample_fx [65]) 1 \<lparr> sc_states = (0, 0, 0), sc_br = sample_bitrev, sc_reps = (1, 4, 8) \<rparr>
     \<lparr> rs_out = [], rs_lit = 0, rs_budget = 100 \<rparr> = Inr (sample_end, \<lparr> rs_out = [65, 65, 65, 65], rs_lit = 1, rs_budget = 96 \<rparr>)"
proof -
  have "seq_decode_all True sample_tabs 1 \<lparr> sc_states = (0, 0, 0), sc_br = sample_bitrev, sc_reps = (1, 4, 8) \<rparr>
      = Some (Inr ([\<lparr> sq_litlen = 1, sq_matchlen = 3, sq_offset = 1 \<rparr>], sample_end))"
    using seq_decode_all_step [where n = 0 and ss = "[]" and ?cur2.0 = sample_end and ?cur1.0 = sample_end and seqcheck = True and t = sample_tabs]
      sample_one by simp
  moreover have "exec_all_ref (exec_ctx_of sample_arms sample_fx [65]) [\<lparr> sq_litlen = 1, sq_matchlen = 3, sq_offset = 1 \<rparr>]
      \<lparr> rs_out = [], rs_lit = 0, rs_budget = 100 \<rparr> = Inr \<lparr> rs_out = [65, 65, 65, 65], rs_lit = 1, rs_budget = 96 \<rparr>"
    by (simp add: exec_ref_def exec_ctx_of_def sample_arms_def shipping_arms_def sample_fx_def match_ref_def match_byte_def eval_nat_numeral)
  ultimately show ?thesis by (simp only: section_ref_def option.case sum.case prod.case rbind_simps)
qed

definition empty_vec :: vec where "empty_vec = \<lparr> v_mem = [], v_len = 0 \<rparr>"

lemma sample_pre: "block_pre [65] empty_vec [] sample_fx"
  by (simp add: block_pre_def empty_vec_def sample_fx_def vec_is_def mem_is_def)

theorem decode_sequences_refines_witness:
  "case decode_sequences_ref shipping_arms sample_src [65] [] sample_fx block_state_new of
      Inl e \<Rightarrow> decode_sequences shipping_arms sample_src [65] empty_vec sample_fx block_state_new = Some (Inl Corruption)
    | Inr (out', state') \<Rightarrow> \<exists>v'. decode_sequences shipping_arms sample_src [65] empty_vec sample_fx block_state_new
        = Some (Inr (v', state')) \<and> vec_is v' out'"
  by (rule decode_sequences_refines [OF block_state_new_wf sample_pre]) (simp_all add: shipping_arms_def)

theorem decode_sequences_invariant_witness:
  "case decode_sequences shipping_arms sample_src [65] empty_vec sample_fx block_state_new of
      None \<Rightarrow> False
    | Some (Inl e) \<Rightarrow> e = Corruption
    | Some (Inr (v', state')) \<Rightarrow> state_wf state' \<and> (\<exists>xs. vec_is v' ([] @ xs) \<and> length xs \<le> fx_block_max sample_fx)"
  by (rule decode_sequences_invariant [OF block_state_new_wf sample_pre])

text \<open>One sequence, one literal: \<open>AAAA\<close> as shipped, \<open>AAAAA\<close> with the interleaving loop.\<close>

theorem read_ahead_repeats_literals_witness:
  "\<exists>v' state'. decode_sequences sample_arms sample_src [65] empty_vec sample_fx block_state_new = Some (Inr (v', state'))
     \<and> vec_is v' [65, 65, 65, 65, 65]"
proof -
  have b: "rbind (ok_or (slice_from sample_src 5) Corruption) br_new = Inr sample_bitrev"
    by (simp add: sample_src_def slice_from_def sample_br [simplified])
  have s: "section_ref (ar_seqcheck sample_arms) sample_tabs (exec_ctx_of sample_arms sample_fx [65]) 1
      \<lparr> sc_states = (0, 0, 0), sc_br = sample_bitrev, sc_reps = bs_reps block_state_new \<rparr>
      \<lparr> rs_out = [], rs_lit = 0, rs_budget = fx_block_max sample_fx \<rparr>
      = Inr (sample_end, \<lparr> rs_out = [65, 65, 65, 65], rs_lit = 1, rs_budget = 96 \<rparr>)"
    using sample_section by (simp add: sample_arms_def shipping_arms_def block_state_new_def sample_fx_def)
  from read_ahead_repeats_literals [OF sample_pre _ _ _ block_state_new_wf sample_header [folded sample_tabs_def] _ b sample_init s]
  show ?thesis by (auto simp: sample_arms_def sample_src_def sample_end_def sample_bitrev_def br_finished_exactly_def)
qed

end
