(* ===== verification/Huff_Stream.thy ===== *)
theory Huff_Stream
  imports Huff_Code Seq_Block
begin

text \<open>
  Huffman streams (\<^verbatim>\<open>huffman.rs\<close>): decoding one stream a symbol at a time (X1) or up to two symbols
  per lookup (X2), and four streams at once: the X1 body, the X2 ladder and the fast X2 loop over
  left-justified registers with a sentinel bit. Output slices are written in place through unchecked
  accesses, so that a two-symbol write may leave a byte that the next write replaces.
\<close>

section \<open>One symbol at a time\<close>

definition decode_one :: "bitrev \<Rightarrow> nat list \<Rightarrow> nat \<Rightarrow> nat \<Rightarrow> (u8 \<times> bitrev) res option" where
  "decode_one br dt msk mx =
     Option.bind (get_unchecked dt (br_look_fast mx br AND msk)) (\<lambda>e.
       let nbits = cell_nb e
       in if nbits = 0 then Some (Inl Corruption) else Some (Inr (word_of_nat e, br_skip nbits br)))"

fun x1_group :: "nat list \<Rightarrow> nat \<Rightarrow> nat \<Rightarrow> nat \<Rightarrow> nat \<Rightarrow> bytes \<Rightarrow> bitrev \<Rightarrow> (bytes \<times> bitrev) res option" where
  "x1_group dt msk mx 0 i dst br = Some (Inr (dst, br))"
| "x1_group dt msk mx (Suc k) i dst br =
     then_do (decode_one br dt msk mx) (\<lambda>(v, br).
     Option.bind (put_unchecked dst i v) (\<lambda>dst. x1_group dt msk mx k (i + 1) dst br))"

function x1_fives :: "nat list \<Rightarrow> nat \<Rightarrow> nat \<Rightarrow> nat \<Rightarrow> nat \<Rightarrow> bytes \<Rightarrow> bitrev \<Rightarrow> (nat \<times> bytes \<times> bitrev) res option" where
  "x1_fives dt msk mx n i dst br =
     (if i + 5 \<le> n then
        then_do (x1_group dt msk mx 5 i dst (br_try_reload br)) (\<lambda>(dst, br). x1_fives dt msk mx n (i + 5) dst br)
      else Some (Inr (i, dst, br)))"
  by pat_completeness auto
termination by (relation "measure (\<lambda>(dt, msk, mx, n, i, dst, br). n - i)") auto

function x1_singles :: "nat list \<Rightarrow> nat \<Rightarrow> nat \<Rightarrow> nat \<Rightarrow> nat \<Rightarrow> bytes \<Rightarrow> bitrev \<Rightarrow> (bytes \<times> bitrev) res option" where
  "x1_singles dt msk mx n i dst br =
     (if i < n then
        then_do (x1_group dt msk mx 1 i dst (br_try_reload br)) (\<lambda>(dst, br). x1_singles dt msk mx n (i + 1) dst br)
      else Some (Inr (dst, br)))"
  by pat_completeness auto
termination by (relation "measure (\<lambda>(dt, msk, mx, n, i, dst, br). n - i)") auto

declare x1_fives.simps [simp del] x1_singles.simps [simp del]

definition decode_into_x1 :: "huff_table \<Rightarrow> bitrev \<Rightarrow> bytes \<Rightarrow> bytes res option" where
  "decode_into_x1 t br dst =
     (let mx = ht_max_bits t; dt = ht_table t
      in if dt = [] then Some (Inl Corruption)
         else
           let msk = length dt - 1; n = length dst
           in then_do (x1_fives dt msk mx n 0 dst br) (\<lambda>(i, dst, br).
              then_do (x1_singles dt msk mx n i dst br) (\<lambda>(dst, br).
              if \<not> br_finished_exactly br then Some (Inl Corruption) else Some (Inr dst))))"

section \<open>Up to two symbols per lookup\<close>

text \<open>One lookup and its two writes, over any source of cells: \<open>fetch\<close> reads the cell, \<open>adv\<close> skips its bits.\<close>

definition emit2 :: "('s \<Rightarrow> nat option) \<Rightarrow> (nat \<Rightarrow> 's \<Rightarrow> 's) \<Rightarrow> bytes \<Rightarrow> nat \<Rightarrow> 's \<Rightarrow> (nat \<times> bytes \<times> 's) option" where
  "emit2 fetch adv dst i s =
     Option.bind (fetch s) (\<lambda>e.
     Option.bind (put_unchecked dst i (word_of_nat e)) (\<lambda>dst.
     Option.bind (put_unchecked dst (i + 1) (word_of_nat (drop_bit 8 e))) (\<lambda>dst.
     Some (i + x2_len e, dst, adv e s))))"

fun emits2 :: "('s \<Rightarrow> nat option) \<Rightarrow> (nat \<Rightarrow> 's \<Rightarrow> 's) \<Rightarrow> nat \<Rightarrow> bytes \<Rightarrow> nat \<Rightarrow> 's \<Rightarrow> (nat \<times> bytes \<times> 's) option" where
  "emits2 fetch adv 0 dst i s = Some (i, dst, s)"
| "emits2 fetch adv (Suc k) dst i s = Option.bind (emit2 fetch adv dst i s) (\<lambda>(i, dst, s). emits2 fetch adv k dst i s)"

definition x2_fetch :: "nat list \<Rightarrow> nat \<Rightarrow> bitrev \<Rightarrow> nat option" where
  "x2_fetch dt mx br = get_unchecked dt (br_look_fast mx br AND (length dt - 1))"

definition x2_skip :: "nat \<Rightarrow> bitrev \<Rightarrow> bitrev" where "x2_skip e = br_skip (x2_nb e)"

definition write_x2 :: "nat list \<Rightarrow> nat \<Rightarrow> bytes \<Rightarrow> nat \<Rightarrow> bitrev \<Rightarrow> (nat \<times> bytes \<times> bitrev) option" where
  "write_x2 dt mx = emit2 (x2_fetch dt mx) x2_skip"

partial_function (option) x2_loop :: "nat \<Rightarrow> nat list \<Rightarrow> nat \<Rightarrow> nat \<Rightarrow> bytes \<Rightarrow> bitrev \<Rightarrow> (nat \<times> bytes \<times> bitrev) option" where
  "x2_loop k dt mx i dst br =
     (if i + 2 * k \<le> length dst then
        Option.bind (emits2 (x2_fetch dt mx) x2_skip k dst i (br_try_reload br)) (\<lambda>(i, dst, br). x2_loop k dt mx i dst br)
      else Some (i, dst, br))"

text \<open>Five lookups per reload while ten bytes are free, then one, then the last symbol from X1.\<close>

definition decode_into_x2 :: "huff_table \<Rightarrow> bitrev \<Rightarrow> bytes \<Rightarrow> bytes res option" where
  "decode_into_x2 t br dst =
     (let mx = ht_max_bits t; dt = ht_x2 t
      in if dt = [] then Some (Inl Corruption)
         else
           Option.bind (x2_loop 5 dt mx 0 dst br) (\<lambda>(i, dst, br).
           Option.bind (x2_loop 1 dt mx i dst br) (\<lambda>(i, dst, br).
           then_do (x1_singles (ht_table t) (length (ht_table t) - 1) mx (length dst) i dst br) (\<lambda>(dst, br).
           if \<not> br_finished_exactly br then Some (Inl Corruption) else Some (Inr dst)))))"

definition decode_stream :: "huff_table \<Rightarrow> bytes \<Rightarrow> bytes \<Rightarrow> bytes res option" where
  "decode_stream t src dst =
     (if dst = [] then Some (Inr dst)
      else then_do (Some (br_new src)) (\<lambda>br.
        if use_x2 t (length dst) (length src) then decode_into_x2 t br dst else decode_into_x1 t br dst))"

section \<open>The reference\<close>

text \<open>The symbols and the position after \<open>n\<close> steps over the cursor.\<close>

fun huff_syms :: "nat list \<Rightarrow> nat \<Rightarrow> nat \<Rightarrow> cursor \<Rightarrow> bytes" where
  "huff_syms table log 0 c = []"
| "huff_syms table log (Suc n) c = word_of_nat (cell_at table log c) # huff_syms table log n (huff_next table log c)"

fun huff_after :: "nat list \<Rightarrow> nat \<Rightarrow> nat \<Rightarrow> cursor \<Rightarrow> cursor" where
  "huff_after table log 0 c = c"
| "huff_after table log (Suc n) c = huff_after table log n (huff_next table log c)"

definition huff_ref :: "nat list \<Rightarrow> nat \<Rightarrow> nat \<Rightarrow> cursor \<Rightarrow> bytes res" where
  "huff_ref table log n c = (if at_end (huff_after table log n c) then Inr (huff_syms table log n c) else Inl Corruption)"

definition stream_ref :: "huff_table \<Rightarrow> bytes \<Rightarrow> nat \<Rightarrow> bytes res" where
  "stream_ref t src n =
     (if n = 0 then Inr [] else rbind (cursor_of src) (huff_ref (ht_table t) (ht_max_bits t) n))"

lemma length_huff_syms [simp]: "length (huff_syms table log n c) = n"
  by (induction n arbitrary: c) simp_all

lemma huff_syms_add:
  "huff_syms table log (m + n) c = huff_syms table log m c @ huff_syms table log n (huff_after table log m c)"
  "huff_after table log (m + n) c = huff_after table log n (huff_after table log m c)"
  by (induction m arbitrary: c) simp_all

lemma huff_after_ok [simp]: "cursor_ok c \<Longrightarrow> cursor_ok (huff_after table log n c)"
  by (induction n arbitrary: c) simp_all

section \<open>X1 is the reference\<close>

lemma decode_one_ok:
  assumes "x1_wf dt mx" "at_cursor br c" "can_look (11 + k) br"
  shows "\<exists>br'. decode_one br dt (length dt - 1) mx = Some (Inr (word_of_nat (cell_at dt mx c), br'))
    \<and> at_cursor br' (huff_next dt mx c) \<and> can_look k br'"
proof -
  note ok = at_cursor_ok [OF assms(2)]
  note w = x1_wf_cell [OF assms(1) ok]
  have mx: "1 \<le> mx" "mx \<le> 11" "length dt = 2 ^ mx" using assms(1) by (auto simp: x1_wf_def FAST_TABLELOG_def)
  let ?nb = "cell_nb (cell_at dt mx c)"
  have "br_look_fast mx br = peek mx c"
    using mx can_look_mono [OF assms(3), of mx] by (intro at_cursor_peek [OF assms(2)]) auto
  moreover have "peek mx c < 2 ^ mx" using w(4) mx(3) by simp
  ultimately have g: "get_unchecked dt (br_look_fast mx br AND (length dt - 1)) = Some (cell_at dt mx c)"
    by (simp add: mx(3) cell_at_def)
  have l: "can_look ?nb br" "can_look (k + ?nb) br" using w(2) mx(2) can_look_mono [OF assms(3)] by simp_all
  show ?thesis
    using g w(1,2) mx(2) at_cursor_skip [OF assms(2) l(1)] at_cursor_skip(2) [OF assms(2) l(1) _ l(2)]
    by (simp add: decode_one_def Let_def huff_next_def)
qed

lemma x1_group_ok:
  assumes "x1_wf dt mx" "at_cursor br c" "can_look (11 * k) br" "i + k \<le> length dst"
  shows "\<exists>br'. x1_group dt (length dt - 1) mx k i dst br = Some (Inr (overwrite dst i (huff_syms dt mx k c), br'))
    \<and> at_cursor br' (huff_after dt mx k c)"
  using assms(2-)
proof (induction k arbitrary: i dst br c)
  case (Suc k)
  obtain br1 where s: "decode_one br dt (length dt - 1) mx = Some (Inr (word_of_nat (cell_at dt mx c), br1))"
    "at_cursor br1 (huff_next dt mx c)" "can_look (11 * k) br1"
    using decode_one_ok [OF assms(1) Suc.prems(1), of "11 * k"] Suc.prems(2) by auto
  have i: "i < length dst" using Suc.prems(3) by simp
  show ?case
    using Suc.IH [OF s(2,3), of "i + 1" "dst[i := word_of_nat (cell_at dt mx c)]"] Suc.prems(3) s(1) i
    by (auto simp: overwrite_Cons)
qed simp

lemma x1_fives_ok:
  assumes "x1_wf dt mx" "at_cursor br c" "i \<le> length dst"
  shows "\<exists>m br'. x1_fives dt (length dt - 1) mx (length dst) i dst br = Some (Inr (i + m, overwrite dst i (huff_syms dt mx m c), br'))
    \<and> i + m \<le> length dst \<and> at_cursor br' (huff_after dt mx m c)"
  using assms(2-)
proof (induction "length dst - i" arbitrary: i dst br c rule: less_induct)
  case less
  note r = at_cursor_reload [OF less.prems(1)]
  show ?case
  proof (cases "i + 5 \<le> length dst")
    case True
    obtain br1 where g: "x1_group dt (length dt - 1) mx 5 i dst (br_try_reload br) = Some (Inr (overwrite dst i (huff_syms dt mx 5 c), br1))"
      "at_cursor br1 (huff_after dt mx 5 c)"
      using x1_group_ok [OF assms(1) r(1), of 5 i dst] can_look_mono [OF r(2)] True by auto
    let ?d = "overwrite dst i (huff_syms dt mx 5 c)"
    have l: "length ?d = length dst" "length ?d - (i + 5) < length dst - i" using True by simp_all
    obtain m br2 where f: "x1_fives dt (length dt - 1) mx (length dst) (i + 5) ?d br1
        = Some (Inr (i + 5 + m, overwrite ?d (i + 5) (huff_syms dt mx m (huff_after dt mx 5 c)), br2))"
      "i + 5 + m \<le> length dst" "at_cursor br2 (huff_after dt mx m (huff_after dt mx 5 c))"
      using less.hyps [OF l(2) g(2)] True l(1) by auto
    have "overwrite ?d (i + 5) (huff_syms dt mx m (huff_after dt mx 5 c)) = overwrite dst i (huff_syms dt mx (5 + m) c)"
      using overwrite_overwrite [of i "huff_syms dt mx 5 c" "huff_syms dt mx m (huff_after dt mx 5 c)" dst] f(2)
      unfolding huff_syms_add by simp
    then show ?thesis
      using True g(1) f huff_syms_add(2) [of dt mx 5 m c]
      by (intro exI [of _ "5 + m"]) (simp add: x1_fives.simps [of dt] add.assoc)
  next
    case False
    then show ?thesis using less.prems by (intro exI [of _ 0]) (simp add: x1_fives.simps [of dt])
  qed
qed

lemma x1_singles_ok:
  assumes "x1_wf dt mx" "at_cursor br c" "i \<le> length dst"
  shows "\<exists>br'. x1_singles dt (length dt - 1) mx (length dst) i dst br
      = Some (Inr (overwrite dst i (huff_syms dt mx (length dst - i) c), br')) \<and> at_cursor br' (huff_after dt mx (length dst - i) c)"
  using assms(2-)
proof (induction "length dst - i" arbitrary: i dst br c)
  case (Suc k)
  note r = at_cursor_reload [OF Suc.prems(1)]
  have i: "i < length dst" "length dst - Suc i = k" using Suc(2) by simp_all
  obtain br1 where g: "x1_group dt (length dt - 1) mx 1 i dst (br_try_reload br) = Some (Inr (overwrite dst i (huff_syms dt mx 1 c), br1))"
    "at_cursor br1 (huff_after dt mx 1 c)"
    using x1_group_ok [OF assms(1) r(1), of 1 i dst] can_look_mono [OF r(2)] i by auto
  define d where "d = overwrite dst i (huff_syms dt mx 1 c)"
  have l: "length d = length dst" using i by (simp add: d_def)
  obtain br2 where f: "x1_singles dt (length dt - 1) mx (length dst) (i + 1) d br1
      = Some (Inr (overwrite d (i + 1) (huff_syms dt mx k (huff_after dt mx 1 c)), br2))"
    "at_cursor br2 (huff_after dt mx k (huff_after dt mx 1 c))"
    using Suc(1) [of d "i + 1" br1 "huff_after dt mx 1 c"] i l g(2) by auto
  have "overwrite d (i + 1) (huff_syms dt mx k (huff_after dt mx 1 c)) = overwrite dst i (huff_syms dt mx (1 + k) c)"
    using overwrite_overwrite [of i "huff_syms dt mx 1 c" "huff_syms dt mx k (huff_after dt mx 1 c)" dst] i
    unfolding huff_syms_add by (simp add: d_def)
  moreover have "1 + k = length dst - i" using Suc(2) by simp
  moreover have "x1_singles dt (length dt - 1) mx (length dst) i dst br = x1_singles dt (length dt - 1) mx (length dst) (i + 1) d br1"
    using i g(1) by (subst x1_singles.simps) (simp del: x1_group.simps add: d_def)
  ultimately show ?case using f huff_syms_add(2) [of dt mx 1 k c] by (metis (no_types))
qed (simp add: x1_singles.simps [of dt])

lemma decode_into_x1_ok:
  assumes "x1_wf (ht_table t) (ht_max_bits t)" "at_cursor br c"
  shows "decode_into_x1 t br dst = Some (huff_ref (ht_table t) (ht_max_bits t) (length dst) c)"
proof -
  let ?dt = "ht_table t" and ?mx = "ht_max_bits t"
  have ne: "?dt \<noteq> []" using assms(1) by (auto simp: x1_wf_def)
  obtain m br1 where f: "x1_fives ?dt (length ?dt - 1) ?mx (length dst) 0 dst br = Some (Inr (m, overwrite dst 0 (huff_syms ?dt ?mx m c), br1))"
    "m \<le> length dst" "at_cursor br1 (huff_after ?dt ?mx m c)"
    using x1_fives_ok [OF assms, of 0 dst] by auto
  define d where "d = overwrite dst 0 (huff_syms ?dt ?mx m c)"
  have l: "length d = length dst" using f(2) by (simp add: d_def)
  let ?k = "length dst - m"
  obtain br2 where g: "x1_singles ?dt (length ?dt - 1) ?mx (length dst) m d br1
      = Some (Inr (overwrite d m (huff_syms ?dt ?mx ?k (huff_after ?dt ?mx m c)), br2))"
    "at_cursor br2 (huff_after ?dt ?mx ?k (huff_after ?dt ?mx m c))"
    using x1_singles_ok [OF assms(1) f(3), of m d] f(2) l by auto
  have k: "m + ?k = length dst" using f(2) by simp
  have "overwrite d m (huff_syms ?dt ?mx ?k (huff_after ?dt ?mx m c)) = huff_syms ?dt ?mx (length dst) c"
    using overwrite_overwrite [of 0 "huff_syms ?dt ?mx m c" "huff_syms ?dt ?mx ?k (huff_after ?dt ?mx m c)" dst] k
      huff_syms_add(1) [of ?dt ?mx m ?k c] by (simp add: d_def overwrite_all)
  moreover have "br_finished_exactly br2 \<longleftrightarrow> at_end (huff_after ?dt ?mx (length dst) c)"
    using at_cursor_finished [OF g(2)] huff_syms_add(2) [of ?dt ?mx m ?k c] k by simp
  ultimately show ?thesis
    using ne f(1) g(1) by (simp add: decode_into_x1_def Let_def d_def [symmetric] huff_ref_def)
qed

section \<open>A source of two-symbol cells\<close>

text \<open>
  What the X2 loops rely on, whether the bits sit in a \<^verbatim>\<open>BitRev\<close> or in a left-justified register.
  \<open>stands r k s c\<close>: the source \<open>s\<close> is at the cursor \<open>c\<close>, can be looked at \<open>k\<close> more times, and reloaded \<open>r\<close> times.
\<close>

locale x2_source =
  fixes table :: "nat list" and log :: nat
    and fetch :: "'s \<Rightarrow> nat option" and adv :: "nat \<Rightarrow> 's \<Rightarrow> 's" and reload :: "'s \<Rightarrow> 's option"
    and stands :: "nat \<Rightarrow> nat \<Rightarrow> 's \<Rightarrow> cursor \<Rightarrow> bool"
  assumes wf: "stands r k s c \<Longrightarrow> x1_wf table log \<and> cursor_ok c"
    and look: "stands r (Suc k) s c \<Longrightarrow> fetch s = Some (x2_cell table log (min_nbits table log) (peek log c))"
    and step: "stands r (Suc k) s c \<Longrightarrow> x2_nb e \<le> log \<Longrightarrow> stands r k (adv e s) (skip (x2_nb e) c)"
    and refill: "stands (Suc r) 0 s c \<Longrightarrow> \<exists>s'. reload s = Some s' \<and> stands r 5 s' c"
    and weaken: "stands r k s c \<Longrightarrow> j \<le> k \<Longrightarrow> stands r j s c"
begin

definition lane_ok :: "nat \<Rightarrow> nat \<Rightarrow> nat \<Rightarrow> cursor \<Rightarrow> nat \<times> bytes \<times> 's \<Rightarrow> bool" where
  "lane_ok r k n c l \<longleftrightarrow> (case l of (i, dst, s) \<Rightarrow> length dst = n \<and> i \<le> n \<and> take i dst = huff_syms table log i c
     \<and> stands r k s (huff_after table log i c))"

lemma emit2_ok:
  assumes "lane_ok r (Suc k) n c (i, dst, s)" "i + 2 \<le> n"
  shows "\<exists>i' dst' s'. emit2 fetch adv dst i s = Some (i', dst', s') \<and> i < i' \<and> i' \<le> i + 2 \<and> lane_ok r k n c (i', dst', s')"
proof -
  let ?c = "huff_after table log i c"
  have a: "length dst = n" "i \<le> n" "take i dst = huff_syms table log i c" "stands r (Suc k) s ?c"
    using assms(1) by (auto simp: lane_ok_def)
  note w = wf [OF a(4), THEN conjunct1] wf [OF a(4), THEN conjunct2]
  define e where "e = x2_cell table log (min_nbits table log) (peek log ?c)"
  let ?e1 = "cell_at table log ?c" and ?e2 = "cell_at table log (huff_next table log ?c)"
  have st: "e mod 256 = cell_sym ?e1" "x2_nb e \<le> log"
    and br: "x2_len e = 1 \<and> x2_nb e = cell_nb ?e1
      \<or> x2_len e = 2 \<and> drop_bit 8 e mod 256 = cell_sym ?e2 \<and> x2_nb e = cell_nb ?e1 + cell_nb ?e2"
    using x2_cell_steps [OF w e_def] by blast+
  have byte: "x mod 256 = cell_sym y \<Longrightarrow> (word_of_nat x :: u8) = word_of_nat y" for x y
    by (rule word_unat_eq_iff [THEN iffD2]) (simp add: unat_of_nat cell_sym_def)
  define d where "d = dst[i := word_of_nat e, i + 1 := word_of_nat (drop_bit 8 e)]"
  have em: "emit2 fetch adv dst i s = Some (i + x2_len e, d, adv e s)"
    using look [OF a(4)] assms(2) a(1) by (simp add: emit2_def d_def flip: e_def)
  have adv: "stands r k (adv e s) (skip (x2_nb e) ?c)" by (rule step [OF a(4) st(2)])
  have t1: "take (i + 1) d = take i dst @ [word_of_nat e]" and t2: "take (i + 2) d = take i dst @ [word_of_nat e, word_of_nat (drop_bit 8 e)]"
    using assms(2) a(1) by (simp_all add: d_def take_Suc_conv_app_nth)
  from br show ?thesis
  proof (elim disjE conjE)
    assume "x2_len e = 1" "x2_nb e = cell_nb ?e1"
    moreover have "huff_after table log (i + 1) c = skip (cell_nb ?e1) ?c"
      by (simp only: huff_syms_add) (simp add: huff_next_def)
    moreover have "huff_syms table log (i + 1) c = huff_syms table log i c @ [word_of_nat ?e1]"
      by (simp only: huff_syms_add) simp
    ultimately show ?thesis
      using em adv t1 a(1-3) assms(2) byte [OF st(1)] by (simp add: lane_ok_def d_def)
  next
    assume two: "x2_len e = 2" "drop_bit 8 e mod 256 = cell_sym ?e2" "x2_nb e = cell_nb ?e1 + cell_nb ?e2"
    moreover have "huff_after table log (i + 2) c = skip (cell_nb ?e1 + cell_nb ?e2) ?c"
      using skip_skip [OF w(2)] by (simp only: huff_syms_add) (simp add: huff_next_def eval_nat_numeral)
    moreover have "huff_syms table log (i + 2) c = huff_syms table log i c @ [word_of_nat ?e1, word_of_nat ?e2]"
      by (simp only: huff_syms_add) (simp add: eval_nat_numeral)
    ultimately show ?thesis
      using em adv t2 a(1-3) assms(2) byte [OF st(1)] byte [OF two(2)] by (simp add: lane_ok_def d_def)
  qed
qed

lemma emits2_ok:
  assumes "lane_ok r (j + k) n c (i, dst, s)" "i + 2 * j \<le> n"
  shows "\<exists>i' dst' s'. emits2 fetch adv j dst i s = Some (i', dst', s') \<and> i + j \<le> i' \<and> i' \<le> i + 2 * j \<and> lane_ok r k n c (i', dst', s')"
  using assms
proof (induction j arbitrary: i dst s)
  case (Suc j)
  obtain i1 d1 s1 where e: "emit2 fetch adv dst i s = Some (i1, d1, s1)" "i < i1" "i1 \<le> i + 2" "lane_ok r (j + k) n c (i1, d1, s1)"
    using emit2_ok [of r "j + k" n c i dst s] Suc.prems by auto
  then obtain i2 d2 s2 where "emits2 fetch adv j d1 i1 s1 = Some (i2, d2, s2)" "i1 + j \<le> i2" "i2 \<le> i1 + 2 * j" "lane_ok r k n c (i2, d2, s2)"
    using Suc.IH [of i1 d1 s1] Suc.prems(2) by auto
  then show ?case using e by auto
qed simp

lemma lane_weaken: "lane_ok r k n c l \<Longrightarrow> j \<le> k \<Longrightarrow> lane_ok r j n c l"
  using weaken by (auto simp: lane_ok_def)

end

definition br_stands :: "nat list \<Rightarrow> nat \<Rightarrow> nat \<Rightarrow> nat \<Rightarrow> bitrev \<Rightarrow> cursor \<Rightarrow> bool" where
  "br_stands table log r k br c \<longleftrightarrow> x1_wf table log \<and> at_cursor br c \<and> can_look (11 * k) br"

lemma br_stands_reload: "x1_wf table log \<Longrightarrow> at_cursor br c \<Longrightarrow> k \<le> 5 \<Longrightarrow> br_stands table log r k (br_try_reload br) c"
  using at_cursor_reload [of br c] can_look_mono [of 57 "br_try_reload br" "11 * k"] by (simp add: br_stands_def)

lemma x2_fetch_ok:
  assumes "br_stands table log r (Suc k) br c"
  shows "x2_fetch (x2_from_x1_into table log) log br = Some (x2_cell table log (min_nbits table log) (peek log c))"
proof -
  have a: "at_cursor br c" "can_look (11 + 11 * k) br" "1 \<le> log" "log \<le> 11" "length table = 2 ^ log"
    using assms by (auto simp: br_stands_def x1_wf_def FAST_TABLELOG_def)
  have l: "br_look_fast log br = peek log c" using a can_look_mono [OF a(2), of log] by (intro at_cursor_peek [OF a(1)]) auto
  have "peek log c < 2 ^ log" by (rule peek_less [OF at_cursor_ok [OF a(1)]])
  then show ?thesis using a(5) by (simp add: x2_fetch_def l x2_from_x1_into_def)
qed

interpretation rev_x2: x2_source table log "x2_fetch (x2_from_x1_into table log) log" x2_skip
    "\<lambda>br. Some (br_try_reload br)" "br_stands table log" for table log
proof
  fix r k s c assume "br_stands table log r k s c"
  then show "x1_wf table log \<and> cursor_ok c" using at_cursor_ok by (auto simp: br_stands_def)
  fix j assume "j \<le> k"
  with \<open>br_stands table log r k s c\<close> show "br_stands table log r j s c"
    using can_look_mono [of "11 * k" s "11 * j"] by (simp add: br_stands_def)
next
  fix r k s c assume "br_stands table log r (Suc k) s c"
  then show "x2_fetch (x2_from_x1_into table log) log s = Some (x2_cell table log (min_nbits table log) (peek log c))"
    by (rule x2_fetch_ok)
next
  fix r k s c e assume a: "br_stands table log r (Suc k) s c" "x2_nb e \<le> log"
  then have "log \<le> 11" "at_cursor s c" "can_look (11 * k + 11) s" by (auto simp: br_stands_def x1_wf_def FAST_TABLELOG_def add.commute)
  then show "br_stands table log r k (x2_skip e s) (skip (x2_nb e) c)"
    using a at_cursor_skip(1) [of s c "x2_nb e"] at_cursor_skip(2) [of s c "x2_nb e" "11 * k"] can_look_mono [of "11 * k + 11" s "11 * k + x2_nb e"] can_look_mono [of "11 * k + 11" s] by (simp add: br_stands_def x2_skip_def)
next
  fix r s c assume "br_stands table log (Suc r) 0 s c"
  then show "\<exists>s'. Some (br_try_reload s) = Some s' \<and> br_stands table log r 5 s' c"
    using br_stands_reload [of table log s c 5] by (auto simp: br_stands_def)
qed

abbreviation x2_lane_ok :: "nat list \<Rightarrow> nat \<Rightarrow> nat \<Rightarrow> cursor \<Rightarrow> nat \<times> bytes \<times> bitrev \<Rightarrow> bool" where
  "x2_lane_ok table log \<equiv> rev_x2.lane_ok table log 0 0"

lemma x2_loop_ok:
  assumes "x2_lane_ok table log n c (i, dst, br)" "1 \<le> k" "k \<le> 5"
  shows "\<exists>i' dst' br'. x2_loop k (x2_from_x1_into table log) log i dst br = Some (i', dst', br') \<and> x2_lane_ok table log n c (i', dst', br')"
  using assms(1)
proof (induction "n - i" arbitrary: i dst br rule: less_induct)
  case less
  have a: "length dst = n" "x1_wf table log" "at_cursor br (huff_after table log i c)" "i \<le> n" "take i dst = huff_syms table log i c"
    using less.prems by (auto simp: rev_x2.lane_ok_def br_stands_def)
  show ?case
  proof (cases "i + 2 * k \<le> n")
    case True
    have "rev_x2.lane_ok table log 0 (k + 0) n c (i, dst, br_try_reload br)"
      using a br_stands_reload [OF a(2,3) assms(3)] by (simp add: rev_x2.lane_ok_def)
    from rev_x2.emits2_ok [OF this True] obtain i1 d1 b1 where
      e: "emits2 (x2_fetch (x2_from_x1_into table log) log) x2_skip k dst i (br_try_reload br) = Some (i1, d1, b1)"
      "i + k \<le> i1" "x2_lane_ok table log n c (i1, d1, b1)" by blast
    have "n - i1 < n - i" using e(2) assms(2) True by simp
    from less.hyps [OF this e(3)] show ?thesis using True e(1) a(1) by (simp add: x2_loop.simps [of k _ log i])
  next
    case False
    then show ?thesis using less.prems a(1) by (simp add: x2_loop.simps [of k _ log i])
  qed
qed

lemma x1_wf_x2_ne: "x1_wf table log \<Longrightarrow> x2_from_x1_into table log \<noteq> []"
  by (auto simp: x1_wf_def x2_from_x1_into_def)

lemma decode_into_x2_ok:
  assumes "x1_wf (ht_table t) (ht_max_bits t)" "ht_x2 t = x2_from_x1_into (ht_table t) (ht_max_bits t)" "at_cursor br c"
  shows "decode_into_x2 t br dst = Some (huff_ref (ht_table t) (ht_max_bits t) (length dst) c)"
proof -
  let ?dt = "ht_table t" and ?mx = "ht_max_bits t" and ?n = "length dst"
  have "x2_lane_ok ?dt ?mx ?n c (0, dst, br)" using assms by (simp add: rev_x2.lane_ok_def br_stands_def can_look_def)
  from x2_loop_ok [OF this, of 5] obtain i1 d1 b1 where
    l1: "x2_loop 5 (x2_from_x1_into ?dt ?mx) ?mx 0 dst br = Some (i1, d1, b1)" "x2_lane_ok ?dt ?mx ?n c (i1, d1, b1)" by auto
  from x2_loop_ok [OF l1(2), of 1] obtain i2 d2 b2 where
    l2: "x2_loop 1 (x2_from_x1_into ?dt ?mx) ?mx i1 d1 b1 = Some (i2, d2, b2)" "x2_lane_ok ?dt ?mx ?n c (i2, d2, b2)" by auto
  have d2: "length d2 = ?n" "i2 \<le> ?n" "take i2 d2 = huff_syms ?dt ?mx i2 c" "at_cursor b2 (huff_after ?dt ?mx i2 c)"
    using l2(2) by (auto simp: rev_x2.lane_ok_def br_stands_def)
  let ?k = "?n - i2"
  obtain b3 where g: "x1_singles ?dt (length ?dt - 1) ?mx ?n i2 d2 b2 = Some (Inr (overwrite d2 i2 (huff_syms ?dt ?mx ?k (huff_after ?dt ?mx i2 c)), b3))"
    "at_cursor b3 (huff_after ?dt ?mx ?k (huff_after ?dt ?mx i2 c))"
    using x1_singles_ok [OF assms(1) d2(4), of i2 d2] d2(1,2) by auto
  have k: "i2 + ?k = ?n" using d2(2) by simp
  have "overwrite d2 i2 (huff_syms ?dt ?mx ?k (huff_after ?dt ?mx i2 c)) = huff_syms ?dt ?mx ?n c"
    using d2(1-3) huff_syms_add(1) [of ?dt ?mx i2 ?k c] k by (simp add: overwrite_def)
  moreover have "br_finished_exactly b3 \<longleftrightarrow> at_end (huff_after ?dt ?mx ?n c)"
    using at_cursor_finished [OF g(2)] huff_syms_add(2) [of ?dt ?mx i2 ?k c] k by simp
  ultimately show ?thesis
    using x1_wf_x2_ne [OF assms(1)] assms(2) l1(1) l2(1) g(1) d2(1) by (simp add: decode_into_x2_def Let_def huff_ref_def)
qed

section \<open>One stream\<close>

lemma decode_stream_ok:
  assumes "huff_wf t"
  shows "decode_stream t src dst = Some (stream_ref t src (length dst))"
proof (cases "dst = []")
  case False
  have wf: "x1_wf (ht_table t) (ht_max_bits t)" using assms by (simp add: huff_wf_def)
  have x2: "use_x2 t a b \<Longrightarrow> ht_x2 t = x2_from_x1_into (ht_table t) (ht_max_bits t)" for a b
    using assms wf by (auto simp: huff_wf_def use_x2_def x1_wf_def)
  show ?thesis
    using at_cursor_new [of src] False decode_into_x1_ok [OF wf] decode_into_x2_ok [OF wf x2]
    by (cases "cursor_of src") (auto simp: decode_stream_def stream_ref_def cursor_of_def split: if_splits)
qed (simp add: decode_stream_def stream_ref_def)

text \<open>C11: with any well-formed table, one stream decodes to the symbols of its bits, one code after the other,
  whether the X1 or the X2 loops run, and is an error exactly when the stream has no end mark or its last code
  does not end on the first bit; no unchecked access is out of range.\<close>

theorem decode_stream_exact:
  assumes "huff_wf t"
  shows "decode_stream t src dst = Some (stream_ref t src (length dst))"
  using assms by (rule decode_stream_ok)

theorem decode_stream_exact_witness:
  "decode_stream sample_table [0x31] [9, 9, 9] = Some (Inr [2, 0, 1])"
proof -
  have "stream_ref sample_table [0x31] 3 = Inr [2, 0, 1]" by code_simp
  with decode_stream_exact [OF sample_table_wf, of "[0x31]" "[9, 9, 9]"] show ?thesis by (simp add: eval_nat_numeral)
qed

end
