(* ===== verification/Huff_Quad.thy ===== *)
theory Huff_Quad
  imports Huff_Stream
begin

text \<open>
  Four Huffman streams at once (\<^verbatim>\<open>huffman.rs\<close>, \<^verbatim>\<open>decode_4x\<close>): the X1 body, the X2 ladder over
  \<^verbatim>\<open>BitRev\<close> readers, and the fast X2 loop over left-justified registers with a sentinel bit. Each loop
  interleaves the four lanes in a fixed order, kept here as a schedule of operations; the lanes share
  nothing, so every schedule does to each lane what that lane's own operations do.
\<close>

section \<open>Lanes and schedules\<close>

fun run_lane :: "('o \<Rightarrow> 'l \<Rightarrow> 'l res option) \<Rightarrow> 'o list \<Rightarrow> 'l \<Rightarrow> 'l res option" where
  "run_lane f [] l = Some (Inr l)"
| "run_lane f (x # xs) l = then_do (f x l) (run_lane f xs)"

fun run_lanes :: "('o \<Rightarrow> 'l \<Rightarrow> 'l res option) \<Rightarrow> (nat \<times> 'o) list \<Rightarrow> 'l list \<Rightarrow> 'l list res option" where
  "run_lanes f [] ls = Some (Inr ls)"
| "run_lanes f ((j, x) # ops) ls = then_do (f x (ls ! j)) (\<lambda>l. run_lanes f ops (ls[j := l]))"

definition ops_of :: "nat \<Rightarrow> (nat \<times> 'o) list \<Rightarrow> 'o list" where
  "ops_of j ops = map snd (filter (\<lambda>p. fst p = j) ops)"

text \<open>A schedule does to each lane what the lane's own operations do, in any interleaving.\<close>

lemma run_lanes_local:
  assumes "\<forall>p \<in> set ops. fst p < length ls"
    and "\<forall>j < length ls. \<exists>l. run_lane f (ops_of j ops) (ls ! j) = Some (Inr l) \<and> P j l"
  shows "\<exists>ls'. run_lanes f ops ls = Some (Inr ls') \<and> length ls' = length ls \<and> (\<forall>j < length ls. P j (ls' ! j))"
  using assms
proof (induction ops arbitrary: ls)
  case (Cons p ops)
  obtain i x where p: "p = (i, x)" by (metis prod.exhaust)
  have i: "i < length ls" using Cons.prems(1) by (simp add: p)
  obtain l where l: "f x (ls ! i) = Some (Inr l)" "\<exists>l'. run_lane f (ops_of i ops) l = Some (Inr l') \<and> P i l'"
    using Cons.prems(2) i by (fastforce simp: p ops_of_def then_do_def split: option.splits sum.splits)
  have "\<exists>l'. run_lane f (ops_of j ops) (ls[i := l] ! j) = Some (Inr l') \<and> P j l'" if "j < length ls" for j
    using Cons.prems(2) that l(2) by (cases "j = i") (auto simp: p ops_of_def)
  with Cons.IH [of "ls[i := l]"] Cons.prems(1) show ?case by (auto simp: p l(1))
qed (fastforce simp: ops_of_def)

lemma all_lt_4: "(\<forall>j < (4 :: nat). P j) \<longleftrightarrow> P 0 \<and> P 1 \<and> P 2 \<and> P 3"
  by (auto simp: less_Suc_eq eval_nat_numeral)

section \<open>Four streams, one symbol at a time\<close>

text \<open>A lane holds its output, its reader and the value just decoded (\<^verbatim>\<open>v0\<close>\<open>..\<close>\<^verbatim>\<open>v3\<close>).\<close>

datatype x1_op = X1_Reload | X1_Decode | X1_Put nat

type_synonym x1_lane = "bytes \<times> bitrev \<times> u8"

fun x1_step :: "nat list \<Rightarrow> nat \<Rightarrow> nat \<Rightarrow> x1_op \<Rightarrow> x1_lane \<Rightarrow> x1_lane res option" where
  "x1_step dt msk mx X1_Reload (dst, br, v) = Some (Inr (dst, br_try_reload br, v))"
| "x1_step dt msk mx X1_Decode (dst, br, v) = then_do (decode_one br dt msk mx) (\<lambda>(v, br). Some (Inr (dst, br, v)))"
| "x1_step dt msk mx (X1_Put i) (dst, br, v) = Option.bind (put_unchecked dst i v) (\<lambda>dst. Some (Inr (dst, br, v)))"

definition four :: "'o \<Rightarrow> (nat \<times> 'o) list" where
  "four x = [(0, x), (1, x), (2, x), (3, x)]"

definition x1_by_four :: "nat \<Rightarrow> (nat \<times> x1_op) list" where
  "x1_by_four i = four X1_Reload @ concat (map (\<lambda>k. four X1_Decode @ four (X1_Put (i + k))) [0, 1, 2, 3])"

definition x1_by_one :: "nat \<Rightarrow> (nat \<times> x1_op) list" where
  "x1_by_one i = four X1_Reload @ concat (map (\<lambda>j. [(j, X1_Decode), (j, X1_Put i)]) [0, 1, 2, 3])"

function x1_quads :: "nat list \<Rightarrow> nat \<Rightarrow> nat \<Rightarrow> nat \<Rightarrow> nat \<Rightarrow> x1_lane list \<Rightarrow> (nat \<times> x1_lane list) res option" where
  "x1_quads dt msk mx n i ls =
     (if i + 4 \<le> n then then_do (run_lanes (x1_step dt msk mx) (x1_by_four i) ls) (\<lambda>ls. x1_quads dt msk mx n (i + 4) ls)
      else Some (Inr (i, ls)))"
  by pat_completeness auto
termination by (relation "measure (\<lambda>(dt, msk, mx, n, i, ls). n - i)") auto

function x1_ones :: "nat list \<Rightarrow> nat \<Rightarrow> nat \<Rightarrow> nat \<Rightarrow> nat \<Rightarrow> x1_lane list \<Rightarrow> x1_lane list res option" where
  "x1_ones dt msk mx n i ls =
     (if i < n then then_do (run_lanes (x1_step dt msk mx) (x1_by_one i) ls) (\<lambda>ls. x1_ones dt msk mx n (i + 1) ls)
      else Some (Inr ls))"
  by pat_completeness auto
termination by (relation "measure (\<lambda>(dt, msk, mx, n, i, ls). n - i)") auto

declare x1_quads.simps [simp del] x1_ones.simps [simp del]

text \<open>Each lane's remaining output, one lane after the other.\<close>

fun finish_lanes :: "(bitrev \<Rightarrow> bytes \<Rightarrow> bytes res option) \<Rightarrow> (nat \<times> bytes \<times> bitrev) list \<Rightarrow> bytes list res option" where
  "finish_lanes f [] = Some (Inr [])"
| "finish_lanes f ((i, dst, br) # ls) =
     then_do (f br (drop i dst)) (\<lambda>r. then_do (finish_lanes f ls) (\<lambda>ds. Some (Inr ((take i dst @ r) # ds))))"

fun new_readers :: "bytes list \<Rightarrow> bitrev list res" where
  "new_readers [] = Inr []"
| "new_readers (s # ss) = rbind (br_new s) (\<lambda>b. rbind (new_readers ss) (\<lambda>bs. Inr (b # bs)))"

definition min_len :: "bytes list \<Rightarrow> nat" where
  "min_len ds = Min (length ` set ds)"

definition decode_4x_x1 :: "huff_table \<Rightarrow> bytes list \<Rightarrow> bytes list \<Rightarrow> bytes list res option" where
  "decode_4x_x1 t ss ds =
     then_do (Some (new_readers ss)) (\<lambda>bs.
       let mx = ht_max_bits t; dt = ht_table t
       in if dt = [] then Some (Inl Corruption)
          else
            let msk = length dt - 1; n = min_len ds
            in then_do (x1_quads dt msk mx n 0 (map2 (\<lambda>d b. (d, b, 0)) ds bs)) (\<lambda>(i, ls).
               then_do (x1_ones dt msk mx n i ls) (\<lambda>ls.
               finish_lanes (decode_into_x1 t) (map (\<lambda>(d, b, v). (n, d, b)) ls))))"

section \<open>Four streams, two symbols per lookup\<close>

datatype x2_op = X2_Reload | X2_Sym

fun x2_step :: "('s \<Rightarrow> nat option) \<Rightarrow> (nat \<Rightarrow> 's \<Rightarrow> 's) \<Rightarrow> ('s \<Rightarrow> 's option) \<Rightarrow> x2_op
    \<Rightarrow> nat \<times> bytes \<times> 's \<Rightarrow> (nat \<times> bytes \<times> 's) res option" where
  "x2_step fetch adv reload X2_Reload (i, dst, s) = Option.bind (reload s) (\<lambda>s. Some (Inr (i, dst, s)))"
| "x2_step fetch adv reload X2_Sym (i, dst, s) = Option.bind (emit2 fetch adv dst i s) (\<lambda>l. Some (Inr l))"

text \<open>The ladder: reload the four readers, then five rounds of one lookup each.\<close>

definition x2_ladder :: "(nat \<times> x2_op) list" where
  "x2_ladder = four X2_Reload @ concat (replicate 5 (four X2_Sym))"

definition rev_step :: "nat list \<Rightarrow> nat \<Rightarrow> x2_op \<Rightarrow> nat \<times> bytes \<times> bitrev \<Rightarrow> (nat \<times> bytes \<times> bitrev) res option" where
  "rev_step dt mx = x2_step (x2_fetch dt mx) x2_skip (\<lambda>br. Some (br_try_reload br))"

partial_function (option) x2_ladders :: "nat list \<Rightarrow> nat \<Rightarrow> (nat \<times> bytes \<times> bitrev) list \<Rightarrow> (nat \<times> bytes \<times> bitrev) list res option" where
  "x2_ladders dt mx ls =
     (if \<forall>l \<in> set ls. fst l + 10 \<le> length (fst (snd l)) then
        Option.bind (run_lanes (rev_step dt mx) x2_ladder ls) (\<lambda>r. case r of Inl e \<Rightarrow> Some (Inl e) | Inr ls \<Rightarrow> x2_ladders dt mx ls)
      else Some (Inr ls))"

text \<open>\<^verbatim>\<open>dN.get_mut(iN..)\<close> for the four lanes, then each lane's rest.\<close>

definition finish_x2 :: "huff_table \<Rightarrow> (nat \<times> bytes \<times> bitrev) list \<Rightarrow> bytes list res option" where
  "finish_x2 t ls =
     (if \<forall>l \<in> set ls. fst l \<le> length (fst (snd l)) then finish_lanes (decode_into_x2 t) ls else Some (Inl Corruption))"

definition decode_4x_x2_slow :: "huff_table \<Rightarrow> bytes list \<Rightarrow> bytes list \<Rightarrow> bytes list res option" where
  "decode_4x_x2_slow t ss ds =
     then_do (Some (new_readers ss)) (\<lambda>bs.
       if ht_x2 t = [] then Some (Inl Corruption)
       else then_do (x2_ladders (ht_x2 t) (ht_max_bits t) (map2 (\<lambda>d b. (0, d, b)) ds bs)) (finish_x2 t))"

section \<open>The fast loop\<close>

text \<open>A register, its window's position, and the stream it reads.\<close>

type_synonym fast_src = "u64 \<times> nat \<times> bytes"

definition init_fast_dstream :: "bytes \<Rightarrow> nat \<Rightarrow> u64 option" where
  "init_fast_dstream src ip =
     Option.bind (get_unchecked src (ip + 7)) (\<lambda>lst.
       let n = if lst = 0 then 0 else 8 - highbit (unat lst)
       in Some (push_bit n (load_u64_le src ip OR 1)))"

definition fast_fetch :: "nat list \<Rightarrow> fast_src \<Rightarrow> nat option" where
  "fast_fetch dt s = (case s of (bits, ip, src) \<Rightarrow> get_unchecked dt (unat (drop_bit 53 bits)))"

definition fast_adv :: "nat \<Rightarrow> fast_src \<Rightarrow> fast_src" where
  "fast_adv e s = (case s of (bits, ip, src) \<Rightarrow> (push_bit (drop_bit 16 e AND 0x3F) bits, ip, src))"

definition ctz64 :: "u64 \<Rightarrow> nat" where "ctz64 w = trailing_zeros (unat w)"

definition reload_fast :: "fast_src \<Rightarrow> fast_src option" where
  "reload_fast s = (case s of (bits, ip, src) \<Rightarrow>
     let ctz = ctz64 bits; nb_bytes = drop_bit 3 ctz
     in if ip < nb_bytes \<or> length src < ip - nb_bytes + 8 then None
        else Some (push_bit (ctz AND 7) (load_u64_le src (ip - nb_bytes) OR 1), ip - nb_bytes, src))"

definition fast_step :: "nat list \<Rightarrow> x2_op \<Rightarrow> nat \<times> bytes \<times> fast_src \<Rightarrow> (nat \<times> bytes \<times> fast_src) res option" where
  "fast_step dt = x2_step (fast_fetch dt) fast_adv reload_fast"

text \<open>Five lookups each for lanes 0 to 2, then lane 3's, between which the registers are reloaded.\<close>

definition fast_sched :: "(nat \<times> x2_op) list" where
  "fast_sched = concat (replicate 5 [(0, X2_Sym), (1, X2_Sym), (2, X2_Sym)])
     @ [(3, X2_Sym), (3, X2_Sym), (0, X2_Reload), (3, X2_Sym), (1, X2_Reload), (3, X2_Sym), (2, X2_Reload), (3, X2_Sym), (3, X2_Reload)]"

definition fast_ip :: "nat \<times> bytes \<times> fast_src \<Rightarrow> nat" where
  "fast_ip l = (case l of (op, dst, bits, ip, src) \<Rightarrow> ip)"

definition fast_iters :: "(nat \<times> bytes \<times> fast_src) list \<Rightarrow> nat" where
  "fast_iters ls = Min (set (map (\<lambda>l. fast_ip l div 7) ls @ map (\<lambda>l. (length (fst (snd l)) - fst l) div 10) ls))"

partial_function (option) fast_passes :: "nat list \<Rightarrow> nat \<Rightarrow> (nat \<times> bytes \<times> fast_src) list \<Rightarrow> (nat \<times> bytes \<times> fast_src) list res option" where
  "fast_passes dt olimit ls =
     (if fst (ls ! 3) < olimit then
        Option.bind (run_lanes (fast_step dt) fast_sched ls) (\<lambda>r. case r of Inl e \<Rightarrow> Some (Inl e) | Inr ls \<Rightarrow> fast_passes dt olimit ls)
      else Some (Inr ls))"

partial_function (option) fast_loop :: "nat list \<Rightarrow> (nat \<times> bytes \<times> fast_src) list \<Rightarrow> (nat \<times> bytes \<times> fast_src) list res option" where
  "fast_loop dt ls =
     (let iters = fast_iters ls
      in if iters = 0 then Some (Inr ls)
         else Option.bind (fast_passes dt (fst (ls ! 3) + iters * 5) ls) (\<lambda>r. case r of Inl e \<Rightarrow> Some (Inl e) | Inr ls \<Rightarrow> fast_loop dt ls))"

fun fast_init :: "bytes list \<Rightarrow> bytes list \<Rightarrow> (nat \<times> bytes \<times> fast_src) list option" where
  "fast_init (s # ss) (d # ds) =
     Option.bind (init_fast_dstream s (length s - 8)) (\<lambda>b.
     Option.bind (fast_init ss ds) (\<lambda>ls. Some ((0, d, b, length s - 8, s) # ls)))"
| "fast_init _ _ = Some []"

definition fast_4x2_refuses :: "huff_table \<Rightarrow> bytes list \<Rightarrow> bool" where
  "fast_4x2_refuses t ss \<longleftrightarrow>
     ht_max_bits t \<noteq> FAST_TABLELOG \<or> length (ht_x2 t) \<noteq> 2 ^ FAST_TABLELOG \<or> (\<exists>s \<in> set ss. length s < 8)"

definition fast_4x2 :: "huff_table \<Rightarrow> bytes list \<Rightarrow> bytes list \<Rightarrow> (nat \<times> bytes \<times> fast_src) list option res option" where
  "fast_4x2 t ss ds =
     (if fast_4x2_refuses t ss then Some (Inr None)
      else Option.bind (fast_init ss ds) (\<lambda>ls. then_do (fast_loop (ht_x2 t) ls) (\<lambda>ls. Some (Inr (Some ls)))))"

fun from_windows :: "(nat \<times> bytes \<times> fast_src) list \<Rightarrow> (nat \<times> bytes \<times> bitrev) list res" where
  "from_windows [] = Inr []"
| "from_windows ((op, dst, bits, ip, src) # ls) =
     rbind (br_from_window src ip (ctz64 bits)) (\<lambda>b. rbind (from_windows ls) (\<lambda>bs. Inr ((op, dst, b) # bs)))"

definition decode_4x :: "huff_table \<Rightarrow> bytes list \<Rightarrow> bytes list \<Rightarrow> bytes list res option" where
  "decode_4x t ss ds =
     (if \<exists>s \<in> set ss. s = [] then Some (Inl Corruption)
      else if \<not> use_x2 t (sum_list (map length ds)) (sum_list (map length ss)) then decode_4x_x1 t ss ds
      else then_do (fast_4x2 t ss ds) (\<lambda>fast. case fast of
             Some ls \<Rightarrow> then_do (Some (from_windows ls)) (finish_x2 t)
           | None \<Rightarrow> decode_4x_x2_slow t ss ds))"

section \<open>The reference\<close>

text \<open>Where a lane starts. The fast loop does not look for the end mark of a stream whose last byte is
  zero: it takes all of its bits as data.\<close>

definition lane_cursor :: "bool \<Rightarrow> bytes \<Rightarrow> cursor res" where
  "lane_cursor fast s =
     (if fast \<and> s \<noteq> [] \<and> s ! (length s - 1) = 0
      then Inr \<lparr> cu_val = le_nat s, cu_rem = 8 * length s, cu_over = False \<rparr>
      else cursor_of s)"

fun all_ok :: "'a res list \<Rightarrow> 'a list res" where
  "all_ok [] = Inr []"
| "all_ok (r # rs) = rbind r (\<lambda>x. rbind (all_ok rs) (\<lambda>xs. Inr (x # xs)))"

definition quad_ref :: "bool \<Rightarrow> huff_table \<Rightarrow> bytes list \<Rightarrow> nat list \<Rightarrow> bytes list res" where
  "quad_ref fast t ss ns = all_ok (map2 (\<lambda>s n. rbind (lane_cursor fast s) (huff_ref (ht_table t) (ht_max_bits t) n)) ss ns)"

definition takes_fast :: "huff_table \<Rightarrow> bytes list \<Rightarrow> bytes list \<Rightarrow> bool" where
  "takes_fast t ss ds \<longleftrightarrow> use_x2 t (sum_list (map length ds)) (sum_list (map length ss)) \<and> \<not> fast_4x2_refuses t ss"

lemma all_ok_Corruption:
  "\<forall>e. Inl e \<in> set rs \<longrightarrow> e = Corruption \<Longrightarrow> Inl Corruption \<in> set rs \<Longrightarrow> all_ok rs = Inl Corruption"
proof (induction rs)
  case (Cons r rs)
  show ?case
  proof (cases r)
    case (Inr x)
    with Cons show ?thesis by auto
  qed (use Cons.prems in auto)
qed simp

lemma lane_cursor_False [simp]: "lane_cursor False = cursor_of"
  by (simp add: fun_eq_iff lane_cursor_def)

lemma lane_cursor_Inl: "lane_cursor fast s = Inl e \<Longrightarrow> e = Corruption"
  by (auto simp: lane_cursor_def cursor_of_def split: if_splits)

lemma huff_ref_Inl: "huff_ref table log n c = Inl e \<Longrightarrow> e = Corruption"
  by (auto simp: huff_ref_def split: if_splits)

lemma quad_ref_bad:
  assumes "s \<in> set ss" "lane_cursor fast s = Inl e" "length ss = length ns"
  shows "quad_ref fast t ss ns = Inl Corruption"
proof -
  obtain j where j: "j < length ss" "ss ! j = s" using assms(1) by (auto simp: in_set_conv_nth)
  let ?f = "\<lambda>s n. rbind (lane_cursor fast s) (huff_ref (ht_table t) (ht_max_bits t) n)"
  have "?f s (ns ! j) = Inl Corruption" using assms(2) lane_cursor_Inl [OF assms(2)] by simp
  then have "Inl Corruption \<in> set (map2 ?f ss ns)"
    using j assms(3) by (auto simp: set_zip intro!: image_eqI [of _ _ "(s, ns ! j)"] exI [of _ j])
  moreover have "e = Corruption" if "Inl e \<in> set (map2 ?f ss ns)" for e
    using that by (auto simp: rbind_Inl_iff dest!: sym [of "Inl _"] lane_cursor_Inl huff_ref_Inl)
  ultimately show ?thesis unfolding quad_ref_def using all_ok_Corruption by blast
qed

lemma quad_ref_good:
  assumes "map (lane_cursor fast) ss = map Inr cs"
  shows "quad_ref fast t ss ns = all_ok (map2 (\<lambda>c n. huff_ref (ht_table t) (ht_max_bits t) n c) cs ns)"
proof -
  have "map2 (\<lambda>s n. rbind (lane_cursor fast s) (huff_ref (ht_table t) (ht_max_bits t) n)) ss ns
      = map2 (\<lambda>r n. rbind r (huff_ref (ht_table t) (ht_max_bits t) n)) (map (lane_cursor fast) ss) ns"
    by (auto simp: zip_map1)
  then show ?thesis unfolding quad_ref_def assms by (simp add: zip_map1 case_prod_unfold comp_def)
qed

section \<open>Readers and the rest of a lane\<close>

lemma new_readers_ok:
  assumes "map cursor_of ss = map Inr cs"
  shows "\<exists>bs. new_readers ss = Inr bs \<and> length bs = length ss \<and> (\<forall>j < length ss. at_cursor (bs ! j) (cs ! j))"
  using assms
proof (induction ss arbitrary: cs)
  case (Cons s ss)
  then obtain c cs' where cs: "cs = c # cs'" "cursor_of s = Inr c" "map cursor_of ss = map Inr cs'" by (cases cs) auto
  obtain b where "br_new s = Inr b" "at_cursor b c" using at_cursor_new [of s] cs(2) by auto
  with Cons.IH [OF cs(3)] show ?case by (auto simp: cs(1) nth_Cons split: nat.split)
qed simp

lemma new_readers_bad: "s \<in> set ss \<Longrightarrow> cursor_of s = Inl e \<Longrightarrow> new_readers ss = Inl Corruption"
proof (induction ss)
  case (Cons x ss)
  show ?case
  proof (cases "cursor_of x")
    case (Inl e)
    then show ?thesis using at_cursor_new [of x] by simp
  next
    case (Inr c)
    then obtain b where "br_new x = Inr b" using at_cursor_new [of x] by auto
    with Inr Cons show ?thesis by auto
  qed
qed simp

lemma all_cursors: "(\<exists>cs. map (lane_cursor fast) ss = map Inr cs) \<or> (\<exists>s \<in> set ss. \<exists>e. lane_cursor fast s = Inl e)"
proof (induction ss)
  case (Cons s ss)
  show ?case
  proof (cases "lane_cursor fast s")
    case (Inr c)
    from Cons.IH show ?thesis
    proof
      assume "\<exists>cs. map (lane_cursor fast) ss = map Inr cs"
      then obtain cs where "map (lane_cursor fast) ss = map Inr cs" ..
      with Inr have "map (lane_cursor fast) (s # ss) = map Inr (c # cs)" by simp
      then show ?thesis by blast
    qed auto
  qed auto
qed simp

text \<open>A lane that has written its first \<open>i\<close> symbols.\<close>

definition wrote :: "huff_table \<Rightarrow> cursor \<Rightarrow> nat \<Rightarrow> nat \<times> bytes \<times> bitrev \<Rightarrow> bool" where
  "wrote t c n l \<longleftrightarrow> (case l of (i, dst, br) \<Rightarrow> length dst = n \<and> i \<le> n
     \<and> take i dst = huff_syms (ht_table t) (ht_max_bits t) i c \<and> at_cursor br (huff_after (ht_table t) (ht_max_bits t) i c))"

lemma huff_ref_rest:
  assumes "i \<le> n"
  shows "rbind (huff_ref table log (n - i) (huff_after table log i c)) (\<lambda>r. Inr (huff_syms table log i c @ r)) = huff_ref table log n c"
  using huff_syms_add [of table log i "n - i" c] assms by (simp add: huff_ref_def)

lemma finish_lanes_ok:
  assumes "\<And>br c dst. at_cursor br c \<Longrightarrow> f br dst = Some (huff_ref (ht_table t) (ht_max_bits t) (length dst) c)"
    and "length ls = length cs" "length ns = length cs" "\<forall>j < length cs. wrote t (cs ! j) (ns ! j) (ls ! j)"
  shows "finish_lanes f ls = Some (all_ok (map2 (\<lambda>c n. huff_ref (ht_table t) (ht_max_bits t) n c) cs ns))"
  using assms(2-)
proof (induction ls arbitrary: cs ns)
  case (Cons l ls)
  then obtain c cs' n ns' where e: "cs = c # cs'" "ns = n # ns'" by (metis length_Suc_conv)
  obtain i d b where l: "l = (i, d, b)" by (metis prod.exhaust)
  have w: "length d = n" "i \<le> n" "take i d = huff_syms (ht_table t) (ht_max_bits t) i c" "at_cursor b (huff_after (ht_table t) (ht_max_bits t) i c)"
    using Cons.prems(3) by (auto simp: e l wrote_def dest!: spec [of _ 0])
  have "\<forall>j < length cs'. wrote t (cs' ! j) (ns' ! j) (ls ! j)" using Cons.prems(3) by (auto simp: e)
  with Cons.IH [of cs' ns'] Cons.prems(1,2) have ih: "finish_lanes f ls = Some (all_ok (map2 (\<lambda>c n. huff_ref (ht_table t) (ht_max_bits t) n c) cs' ns'))"
    by (simp add: e)
  have "then_do (f b (drop i d)) (\<lambda>r. then_do (finish_lanes f ls) (\<lambda>ds. Some (Inr ((take i d @ r) # ds))))
      = Some (rbind (rbind (huff_ref (ht_table t) (ht_max_bits t) (n - i) (huff_after (ht_table t) (ht_max_bits t) i c)) (\<lambda>r. Inr (take i d @ r)))
          (\<lambda>x. rbind (all_ok (map2 (\<lambda>c n. huff_ref (ht_table t) (ht_max_bits t) n c) cs' ns')) (\<lambda>xs. Inr (x # xs))))"
    using assms(1) [OF w(4), of "drop i d"] w(1) unfolding ih by (auto simp: then_do_def rbind_def split: sum.split)
  also have "\<dots> = Some (rbind (huff_ref (ht_table t) (ht_max_bits t) n c)
          (\<lambda>x. rbind (all_ok (map2 (\<lambda>c n. huff_ref (ht_table t) (ht_max_bits t) n c) cs' ns')) (\<lambda>xs. Inr (x # xs))))"
    unfolding w(3) huff_ref_rest [OF w(2)] ..
  finally show ?case by (simp add: l e)
qed simp

lemma run_lane_append: "run_lane f (xs @ ys) l = then_do (run_lane f xs l) (run_lane f ys)"
  by (induction xs arbitrary: l) (auto simp: then_do_def split: option.split sum.split)

section \<open>The X1 body\<close>

definition x1_at :: "huff_table \<Rightarrow> cursor \<Rightarrow> nat \<Rightarrow> nat \<Rightarrow> nat \<Rightarrow> x1_lane \<Rightarrow> bool" where
  "x1_at t c n k i l \<longleftrightarrow> (case l of (dst, br, v) \<Rightarrow> wrote t c n (i, dst, br) \<and> can_look (11 * k) br)"

abbreviation x1_run :: "huff_table \<Rightarrow> x1_op list \<Rightarrow> x1_lane \<Rightarrow> x1_lane res option" where
  "x1_run t \<equiv> run_lane (x1_step (ht_table t) (length (ht_table t) - 1) (ht_max_bits t))"

lemma x1_reload_lane: "x1_at t c n k i l \<Longrightarrow> \<exists>l'. x1_step dt msk mx X1_Reload l = Some (Inr l') \<and> x1_at t c n 5 i l'"
  using at_cursor_reload can_look_mono [of 57 _ 55] by (cases l) (auto simp: x1_at_def wrote_def)

lemma x1_sym_lane:
  assumes "x1_wf (ht_table t) (ht_max_bits t)" "x1_at t c n (Suc k) i l" "i < n"
  shows "\<exists>l'. x1_run t [X1_Decode, X1_Put i] l = Some (Inr l') \<and> x1_at t c n k (Suc i) l'"
proof -
  let ?dt = "ht_table t" and ?mx = "ht_max_bits t"
  obtain d b v where l: "l = (d, b, v)" by (metis prod.exhaust)
  let ?c = "huff_after ?dt ?mx i c"
  have a: "length d = n" "take i d = huff_syms ?dt ?mx i c" "at_cursor b ?c" "can_look (11 + 11 * k) b"
    using assms(2) by (auto simp: x1_at_def wrote_def l)
  obtain b' where d: "decode_one b ?dt (length ?dt - 1) ?mx = Some (Inr (word_of_nat (cell_at ?dt ?mx ?c), b'))"
    "at_cursor b' (huff_next ?dt ?mx ?c)" "can_look (11 * k) b'"
    using decode_one_ok [OF assms(1) a(3,4)] by auto
  have "huff_after ?dt ?mx (i + 1) c = huff_next ?dt ?mx ?c" "huff_syms ?dt ?mx (i + 1) c = huff_syms ?dt ?mx i c @ [word_of_nat (cell_at ?dt ?mx ?c)]"
    by (simp_all only: huff_syms_add) simp_all
  then show ?thesis using d a(1,2) assms(3) by (auto simp: l x1_at_def wrote_def take_Suc_conv_app_nth)
qed

lemma x1_syms_lane:
  assumes "x1_wf (ht_table t) (ht_max_bits t)" "x1_at t c n (m + k) i l" "i + m \<le> n"
  shows "\<exists>l'. x1_run t (concat (map (\<lambda>k. [X1_Decode, X1_Put (i + k)]) [0..<m])) l = Some (Inr l') \<and> x1_at t c n k (i + m) l'"
  using assms(2-)
proof (induction m arbitrary: k)
  case (Suc m)
  obtain l1 where l1: "x1_run t (concat (map (\<lambda>k. [X1_Decode, X1_Put (i + k)]) [0..<m])) l = Some (Inr l1)" "x1_at t c n (Suc k) (i + m) l1"
    using Suc.IH [of "Suc k"] Suc.prems by auto
  obtain l2 where "x1_run t [X1_Decode, X1_Put (i + m)] l1 = Some (Inr l2)" "x1_at t c n k (Suc (i + m)) l2"
    using x1_sym_lane [OF assms(1) l1(2)] Suc.prems(2) by auto
  then show ?case using l1(1) by (auto simp: run_lane_append simp del: run_lane.simps)
qed simp

lemma x1_ops:
  "\<forall>j < 4. ops_of j (x1_by_four i) = X1_Reload # concat (map (\<lambda>k. [X1_Decode, X1_Put (i + k)]) [0..<4])"
  "\<forall>j < 4. ops_of j (x1_by_one i) = X1_Reload # concat (map (\<lambda>k. [X1_Decode, X1_Put (i + k)]) [0..<1])"
  unfolding all_lt_4 by (simp_all add: ops_of_def x1_by_four_def x1_by_one_def four_def upt_conv_Cons)

lemma x1_sched_lt: "\<forall>p \<in> set (x1_by_four i). fst p < 4" "\<forall>p \<in> set (x1_by_one i). fst p < 4"
  by (auto simp: x1_by_four_def x1_by_one_def four_def)

definition x1_lanes :: "huff_table \<Rightarrow> cursor list \<Rightarrow> nat list \<Rightarrow> nat \<Rightarrow> x1_lane list \<Rightarrow> bool" where
  "x1_lanes t cs ns i ls \<longleftrightarrow> length ls = 4 \<and> (\<forall>j < 4. x1_at t (cs ! j) (ns ! j) 0 i (ls ! j))"

lemma x1_pass:
  assumes "x1_wf (ht_table t) (ht_max_bits t)" "x1_lanes t cs ns i ls" "\<forall>j < 4. i + m \<le> ns ! j" "m \<le> 5"
    and "\<forall>j < 4. ops_of j ops = X1_Reload # concat (map (\<lambda>k. [X1_Decode, X1_Put (i + k)]) [0..<m])" "\<forall>p \<in> set ops. fst p < 4"
  shows "\<exists>ls'. run_lanes (x1_step (ht_table t) (length (ht_table t) - 1) (ht_max_bits t)) ops ls = Some (Inr ls') \<and> x1_lanes t cs ns (i + m) ls'"
proof -
  have four: "length ls = 4" using assms(2) by (simp add: x1_lanes_def)
  have "\<exists>l. x1_run t (ops_of j ops) (ls ! j) = Some (Inr l) \<and> x1_at t (cs ! j) (ns ! j) 0 (i + m) l" if j: "j < 4" for j
  proof -
    obtain l1 where l1: "x1_step (ht_table t) (length (ht_table t) - 1) (ht_max_bits t) X1_Reload (ls ! j) = Some (Inr l1)" "x1_at t (cs ! j) (ns ! j) 5 i l1"
      using x1_reload_lane assms(2) j unfolding x1_lanes_def by blast
    have "x1_at t (cs ! j) (ns ! j) (m + 0) i l1" using l1(2) assms(4) can_look_mono by (auto simp: x1_at_def split: prod.splits)
    from x1_syms_lane [OF assms(1) this] show ?thesis using assms(3,5) l1(1) j by auto
  qed
  from run_lanes_local [of ops ls, unfolded four, OF assms(6), where P = "\<lambda>j. x1_at t (cs ! j) (ns ! j) 0 (i + m)"] this
  show ?thesis using four by (fastforce simp: x1_lanes_def)
qed

lemma x1_quads_ok:
  assumes "x1_wf (ht_table t) (ht_max_bits t)" "x1_lanes t cs ns i ls" "\<forall>j < 4. n \<le> ns ! j" "i \<le> n"
  shows "\<exists>i' ls'. x1_quads (ht_table t) (length (ht_table t) - 1) (ht_max_bits t) n i ls = Some (Inr (i', ls')) \<and> i' \<le> n \<and> x1_lanes t cs ns i' ls'"
  using assms(2,4)
proof (induction "n - i" arbitrary: i ls rule: less_induct)
  case less
  show ?case
  proof (cases "i + 4 \<le> n")
    case True
    then have "\<forall>j < 4. i + 4 \<le> ns ! j" using assms(3) order_trans by blast
    from x1_pass [OF assms(1) less.prems(1) this _ x1_ops(1) x1_sched_lt(1)] obtain ls1 where
      l1: "run_lanes (x1_step (ht_table t) (length (ht_table t) - 1) (ht_max_bits t)) (x1_by_four i) ls = Some (Inr ls1)" "x1_lanes t cs ns (i + 4) ls1"
      by auto
    have "n - (i + 4) < n - i" using True by simp
    from less.hyps [OF this l1(2) True] show ?thesis using True l1(1) by (subst x1_quads.simps) simp
  next
    case False
    then show ?thesis using less.prems by (subst x1_quads.simps) simp
  qed
qed

lemma x1_ones_ok:
  assumes "x1_wf (ht_table t) (ht_max_bits t)" "x1_lanes t cs ns i ls" "\<forall>j < 4. n \<le> ns ! j" "i \<le> n"
  shows "\<exists>ls'. x1_ones (ht_table t) (length (ht_table t) - 1) (ht_max_bits t) n i ls = Some (Inr ls') \<and> x1_lanes t cs ns n ls'"
  using assms(2,4)
proof (induction "n - i" arbitrary: i ls rule: less_induct)
  case less
  show ?case
  proof (cases "i < n")
    case True
    then have "\<forall>j < 4. i + 1 \<le> ns ! j" using assms(3) by (metis Suc_eq_plus1 Suc_leI order_less_le_trans)
    from x1_pass [OF assms(1) less.prems(1) this _ x1_ops(2) x1_sched_lt(2)] obtain ls1 where
      l1: "run_lanes (x1_step (ht_table t) (length (ht_table t) - 1) (ht_max_bits t)) (x1_by_one i) ls = Some (Inr ls1)" "x1_lanes t cs ns (i + 1) ls1"
      by auto
    have "n - (i + 1) < n - i" "i + 1 \<le> n" using True by simp_all
    from less.hyps [OF this(1) l1(2) this(2)] show ?thesis using True l1(1) by (subst x1_ones.simps) simp
  next
    case False
    then show ?thesis using less.prems by (subst x1_ones.simps) simp
  qed
qed

text \<open>The four lanes once their loops have ended.\<close>

lemma min_len_le: "d \<in> set ds \<Longrightarrow> min_len ds \<le> length d"
  by (simp add: min_len_def)

lemma decode_4x_x1_good:
  assumes "huff_wf t" "length ss = 4" "length ds = 4" "map cursor_of ss = map Inr cs"
  shows "decode_4x_x1 t ss ds = Some (all_ok (map2 (\<lambda>c n. huff_ref (ht_table t) (ht_max_bits t) n c) cs (map length ds)))"
proof -
  have wf: "x1_wf (ht_table t) (ht_max_bits t)" using assms(1) by (simp add: huff_wf_def)
  then have ne: "ht_table t \<noteq> []" by (auto simp: x1_wf_def)
  have len: "length cs = 4" using assms(2,4) by (metis length_map)
  obtain bs where bs: "new_readers ss = Inr bs" "length bs = 4" "\<forall>j < 4. at_cursor (bs ! j) (cs ! j)"
    using new_readers_ok [OF assms(4)] assms(2) by auto
  let ?n = "min_len ds" and ?ns = "map length ds"
  have n: "\<forall>j < 4. ?n \<le> ?ns ! j" using assms(3) min_len_le by simp
  have "x1_lanes t cs ?ns 0 (map2 (\<lambda>d b. (d, b, 0)) ds bs)"
    using assms(3) bs(2,3) by (simp add: x1_lanes_def x1_at_def wrote_def can_look_def)
  from x1_quads_ok [OF wf this n] obtain i ls where
    q: "x1_quads (ht_table t) (length (ht_table t) - 1) (ht_max_bits t) ?n 0 (map2 (\<lambda>d b. (d, b, 0)) ds bs) = Some (Inr (i, ls))"
      "i \<le> ?n" "x1_lanes t cs ?ns i ls" by auto
  from x1_ones_ok [OF wf q(3) n q(2)] obtain ls' where
    o: "x1_ones (ht_table t) (length (ht_table t) - 1) (ht_max_bits t) ?n i ls = Some (Inr ls')" "x1_lanes t cs ?ns ?n ls'" by auto
  have w: "\<forall>j < length cs. wrote t (cs ! j) (?ns ! j) (map (\<lambda>(d, b, v). (?n, d, b)) ls' ! j)"
    using o(2) len by (auto simp: x1_lanes_def x1_at_def split: prod.splits)
  have "finish_lanes (decode_into_x1 t) (map (\<lambda>(d, b, v). (?n, d, b)) ls')
      = Some (all_ok (map2 (\<lambda>c n. huff_ref (ht_table t) (ht_max_bits t) n c) cs ?ns))"
    using o(2) len assms(3) w by (intro finish_lanes_ok decode_into_x1_ok [OF wf]) (auto simp: x1_lanes_def)
  then show ?thesis using ne bs(1) q(1) o(1) by (simp add: decode_4x_x1_def Let_def)
qed

lemma decode_4x_x1_ok:
  assumes "huff_wf t" "length ss = 4" "length ds = 4"
  shows "decode_4x_x1 t ss ds = Some (quad_ref False t ss (map length ds))"
  using all_cursors [of False ss]
proof
  assume "\<exists>cs. map (lane_cursor False) ss = map Inr cs"
  then obtain cs where cs: "map (lane_cursor False) ss = map Inr cs" ..
  have "map cursor_of ss = map Inr cs" using cs by simp
  then show ?thesis using decode_4x_x1_good [OF assms] quad_ref_good [OF cs] by simp
next
  assume "\<exists>s \<in> set ss. \<exists>e. lane_cursor False s = Inl e"
  then obtain s e where s: "s \<in> set ss" "lane_cursor False s = Inl e" by blast
  have "new_readers ss = Inl Corruption" using new_readers_bad [OF s(1)] s(2) by (simp add: lane_cursor_def)
  then show ?thesis using quad_ref_bad [OF s] assms(2,3) by (simp add: decode_4x_x1_def)
qed

section \<open>The X2 loops over any source\<close>

context x2_source begin

abbreviation x2_at :: "x2_op \<Rightarrow> nat \<times> bytes \<times> 's \<Rightarrow> (nat \<times> bytes \<times> 's) res option" where
  "x2_at \<equiv> x2_step fetch adv reload"

lemma reload_lane:
  assumes "lane_ok (Suc r) 0 n c l"
  shows "\<exists>l'. x2_at X2_Reload l = Some (Inr l') \<and> fst l' = fst l \<and> lane_ok r 5 n c l'"
  using assms by (cases l) (auto simp: lane_ok_def dest!: refill)

lemma syms_lane:
  assumes "lane_ok r (j + k) n c l" "fst l + 2 * j \<le> n"
  shows "\<exists>l'. run_lane x2_at (replicate j X2_Sym) l = Some (Inr l') \<and> fst l + j \<le> fst l' \<and> fst l' \<le> fst l + 2 * j \<and> lane_ok r k n c l'"
  using assms
proof (induction j arbitrary: l)
  case (Suc j)
  obtain i d s where l: "l = (i, d, s)" by (metis prod.exhaust)
  obtain i1 d1 s1 where e: "emit2 fetch adv d i s = Some (i1, d1, s1)" "i < i1" "i1 \<le> i + 2" "lane_ok r (j + k) n c (i1, d1, s1)"
    using emit2_ok [of r "j + k" n c i d s] Suc.prems by (auto simp: l)
  from Suc.IH [OF e(4)] e(3) Suc.prems(2) obtain l2 where
    "run_lane x2_at (replicate j X2_Sym) (i1, d1, s1) = Some (Inr l2)" "i1 + j \<le> fst l2" "fst l2 \<le> i1 + 2 * j" "lane_ok r k n c l2"
    by (auto simp: l)
  then show ?case using e by (auto simp: l)
qed simp

lemma ladder_lane:
  assumes "lane_ok (Suc r) 0 n c l" "fst l + 10 \<le> n"
  shows "\<exists>l'. run_lane x2_at (X2_Reload # replicate 5 X2_Sym) l = Some (Inr l') \<and> fst l + 5 \<le> fst l' \<and> lane_ok r 0 n c l'"
proof -
  obtain l1 where l1: "x2_at X2_Reload l = Some (Inr l1)" "fst l1 = fst l" "lane_ok r (5 + 0) n c l1"
    using reload_lane [OF assms(1)] by auto
  from syms_lane [OF l1(3)] l1(2) assms(2) show ?thesis by (auto simp: l1(1) simp del: replicate.simps)
qed

lemma fast_lane:
  assumes "lane_ok (Suc r) 5 n c l" "fst l + 10 \<le> n"
  shows "\<exists>l'. run_lane x2_at (replicate 5 X2_Sym @ [X2_Reload]) l = Some (Inr l')
    \<and> fst l + 5 \<le> fst l' \<and> fst l' \<le> fst l + 10 \<and> lane_ok r 5 n c l'"
proof -
  have "lane_ok (Suc r) (5 + 0) n c l" using assms(1) by simp
  from syms_lane [OF this] assms(2) obtain l1 where l1: "run_lane x2_at (replicate 5 X2_Sym) l = Some (Inr l1)"
    "fst l + 5 \<le> fst l1" "fst l1 \<le> fst l + 10" "lane_ok (Suc r) 0 n c l1" by auto
  from reload_lane [OF l1(4)] l1 show ?thesis by (auto simp: run_lane_append simp del: replicate.simps)
qed

definition lanes_ok :: "nat \<Rightarrow> nat \<Rightarrow> nat list \<Rightarrow> cursor list \<Rightarrow> (nat \<times> bytes \<times> 's) list \<Rightarrow> bool" where
  "lanes_ok r k ns cs ls \<longleftrightarrow> length ls = 4 \<and> (\<forall>j < 4. lane_ok r k (ns ! j) (cs ! j) (ls ! j))"

lemma lanes_room: "lanes_ok r k ns cs ls \<Longrightarrow> j < 4 \<Longrightarrow> length (fst (snd (ls ! j))) = ns ! j \<and> fst (ls ! j) \<le> ns ! j"
  by (simp add: lanes_ok_def lane_ok_def split_beta)

lemma lanes_pass:
  assumes "length ls = 4" "\<forall>p \<in> set ops. fst p < 4"
    and "\<forall>j < 4. ops_of j ops = xs" "\<forall>j < 4. \<exists>l'. run_lane x2_at xs (ls ! j) = Some (Inr l') \<and> Q j l' \<and> lane_ok r k (ns ! j) (cs ! j) l'"
  shows "\<exists>ls'. run_lanes x2_at ops ls = Some (Inr ls') \<and> lanes_ok r k ns cs ls' \<and> (\<forall>j < 4. Q j (ls' ! j))"
  using run_lanes_local [of ops ls, unfolded assms(1), OF assms(2), where P = "\<lambda>j l. Q j l \<and> lane_ok r k (ns ! j) (cs ! j) l"] assms(3,4)
  by (fastforce simp: lanes_ok_def)

end

lemma ladder_ops: "\<forall>j < 4. ops_of j x2_ladder = X2_Reload # replicate 5 X2_Sym" "\<forall>p \<in> set x2_ladder. fst p < 4"
  unfolding all_lt_4 by (simp_all add: ops_of_def x2_ladder_def four_def eval_nat_numeral)

lemma fast_ops: "\<forall>j < 4. ops_of j fast_sched = replicate 5 X2_Sym @ [X2_Reload]" "\<forall>p \<in> set fast_sched. fst p < 4"
  unfolding all_lt_4 by (simp_all add: ops_of_def fast_sched_def eval_nat_numeral)

section \<open>The X2 ladder\<close>

lemma br_stands_any: "br_stands table log r k br c \<longleftrightarrow> br_stands table log r' k br c"
  by (simp add: br_stands_def)

lemma rev_lane_any: "rev_x2.lane_ok table log r k n c l \<longleftrightarrow> rev_x2.lane_ok table log r' k n c l"
  by (cases l) (simp add: rev_x2.lane_ok_def br_stands_any [of _ _ r _ _ _ r'])

lemma x2_ladders_ok:
  assumes "rev_x2.lanes_ok table log 0 0 ns cs ls"
  shows "\<exists>ls'. x2_ladders (x2_from_x1_into table log) log ls = Some (Inr ls') \<and> rev_x2.lanes_ok table log 0 0 ns cs ls'"
  using assms
proof (induction "ns ! 0 - fst (ls ! 0)" arbitrary: ls rule: less_induct)
  case less
  have four: "length ls = 4" using less.prems by (simp add: rev_x2.lanes_ok_def)
  have iff: "(\<forall>l \<in> set ls. fst l + 10 \<le> length (fst (snd l))) \<longleftrightarrow> (\<forall>j < 4. fst (ls ! j) + 10 \<le> ns ! j)"
    using rev_x2.lanes_room [OF less.prems] by (auto simp: all_set_conv_all_nth four)
  show ?case
  proof (cases "\<forall>j < 4. fst (ls ! j) + 10 \<le> ns ! j")
    case True
    have "\<forall>j < 4. \<exists>l'. run_lane (rev_step (x2_from_x1_into table log) log) (X2_Reload # replicate 5 X2_Sym) (ls ! j) = Some (Inr l')
        \<and> fst (ls ! j) + 5 \<le> fst l' \<and> rev_x2.lane_ok table log 0 0 (ns ! j) (cs ! j) l'"
      unfolding rev_step_def
      using True less.prems rev_lane_any [of table log 0 0 _ _ _ "Suc 0"] by (intro allI impI rev_x2.ladder_lane) (auto simp: rev_x2.lanes_ok_def)
    from rev_x2.lanes_pass [OF four ladder_ops(2) ladder_ops(1), folded rev_step_def, OF this] obtain ls1 where
      p: "run_lanes (rev_step (x2_from_x1_into table log) log) x2_ladder ls = Some (Inr ls1)" "rev_x2.lanes_ok table log 0 0 ns cs ls1"
        "\<forall>j < 4. fst (ls ! j) + 5 \<le> fst (ls1 ! j)" by blast
    have "fst (ls ! 0) + 5 \<le> fst (ls1 ! 0)" "fst (ls ! 0) + 10 \<le> ns ! 0" using p(3) True by simp_all
    then have "ns ! 0 - fst (ls1 ! 0) < ns ! 0 - fst (ls ! 0)" by linarith
    from less.hyps [OF this p(2)] show ?thesis using True p(1) by (simp add: x2_ladders.simps [of _ _ ls] iff)
  next
    case False
    then show ?thesis using less.prems by (simp only: x2_ladders.simps [of _ _ ls] iff if_False) blast
  qed
qed

lemma finish_x2_ok:
  assumes "x1_wf (ht_table t) (ht_max_bits t)" "ht_x2 t = x2_from_x1_into (ht_table t) (ht_max_bits t)"
    and "length cs = 4" "length ns = 4" "length ls = 4" "\<forall>j < 4. wrote t (cs ! j) (ns ! j) (ls ! j)"
  shows "finish_x2 t ls = Some (all_ok (map2 (\<lambda>c n. huff_ref (ht_table t) (ht_max_bits t) n c) cs ns))"
proof -
  have "\<forall>l \<in> set ls. fst l \<le> length (fst (snd l))"
    using assms(5,6) by (simp add: all_set_conv_all_nth wrote_def split_beta)
  moreover have "finish_lanes (decode_into_x2 t) ls = Some (all_ok (map2 (\<lambda>c n. huff_ref (ht_table t) (ht_max_bits t) n c) cs ns))"
    using assms(3-6) by (intro finish_lanes_ok decode_into_x2_ok [OF assms(1,2)]) simp_all
  ultimately show ?thesis by (simp add: finish_x2_def)
qed

lemma decode_4x_x2_slow_ok:
  assumes "x1_wf (ht_table t) (ht_max_bits t)" "ht_x2 t = x2_from_x1_into (ht_table t) (ht_max_bits t)"
    and "length ss = 4" "length ds = 4"
  shows "decode_4x_x2_slow t ss ds = Some (quad_ref False t ss (map length ds))"
  using all_cursors [of False ss]
proof
  assume "\<exists>cs. map (lane_cursor False) ss = map Inr cs"
  then obtain cs where cs: "map (lane_cursor False) ss = map Inr cs" ..
  then have cs': "map cursor_of ss = map Inr cs" and len: "length cs = 4" using assms(3) by (auto dest: arg_cong [of _ _ length])
  obtain bs where bs: "new_readers ss = Inr bs" "length bs = 4" "\<forall>j < 4. at_cursor (bs ! j) (cs ! j)"
    using new_readers_ok [OF cs'] assms(3) by auto
  have "rev_x2.lanes_ok (ht_table t) (ht_max_bits t) 0 0 (map length ds) cs (map2 (\<lambda>d b. (0, d, b)) ds bs)"
    using assms(1,4) bs(2,3) by (simp add: rev_x2.lanes_ok_def rev_x2.lane_ok_def br_stands_def can_look_def)
  from x2_ladders_ok [OF this, folded assms(2)] obtain ls where
    l: "x2_ladders (ht_x2 t) (ht_max_bits t) (map2 (\<lambda>d b. (0, d, b)) ds bs) = Some (Inr ls)"
      "rev_x2.lanes_ok (ht_table t) (ht_max_bits t) 0 0 (map length ds) cs ls" by auto
  have "finish_x2 t ls = Some (all_ok (map2 (\<lambda>c n. huff_ref (ht_table t) (ht_max_bits t) n c) cs (map length ds)))"
    using l(2) assms(4) len
    by (intro finish_x2_ok assms(1,2)) (auto simp: rev_x2.lanes_ok_def rev_x2.lane_ok_def wrote_def br_stands_def split: prod.splits)
  then show ?thesis using quad_ref_good [OF cs] x1_wf_x2_ne [OF assms(1)] bs(1) l(1) by (simp add: decode_4x_x2_slow_def assms(2))
next
  assume "\<exists>s \<in> set ss. \<exists>e. lane_cursor False s = Inl e"
  then obtain s e where s: "s \<in> set ss" "lane_cursor False s = Inl e" by blast
  have "new_readers ss = Inl Corruption" using new_readers_bad [OF s(1)] s(2) by (simp add: lane_cursor_def)
  then show ?thesis using quad_ref_bad [OF s] assms(3,4) by (simp add: decode_4x_x2_slow_def)
qed

text \<open>The same four streams without the ladder: the four one-stream loops from the first symbol on. The comment above the ladder
  (\<^verbatim>\<open>huffman.rs\<close>, lines 558-571) says that the ladder and \<^verbatim>\<open>decode_into_x2\<close> do not consume the
  bitstream identically; for every table the reader builds they do, and the two give the same answer.\<close>

definition decode_4x_sweep :: "huff_table \<Rightarrow> bytes list \<Rightarrow> bytes list \<Rightarrow> bytes list res option" where
  "decode_4x_sweep t ss ds =
     then_do (Some (new_readers ss)) (\<lambda>bs.
       if ht_x2 t = [] then Some (Inl Corruption) else finish_x2 t (map2 (\<lambda>d b. (0, d, b)) ds bs))"

lemma decode_4x_sweep_ok:
  assumes "x1_wf (ht_table t) (ht_max_bits t)" "ht_x2 t = x2_from_x1_into (ht_table t) (ht_max_bits t)"
    and "length ss = 4" "length ds = 4"
  shows "decode_4x_sweep t ss ds = Some (quad_ref False t ss (map length ds))"
  using all_cursors [of False ss]
proof
  assume "\<exists>cs. map (lane_cursor False) ss = map Inr cs"
  then obtain cs where cs: "map (lane_cursor False) ss = map Inr cs" ..
  then have cs': "map cursor_of ss = map Inr cs" and len: "length cs = 4" using assms(3) by (auto dest: arg_cong [of _ _ length])
  obtain bs where bs: "new_readers ss = Inr bs" "length bs = 4" "\<forall>j < 4. at_cursor (bs ! j) (cs ! j)"
    using new_readers_ok [OF cs'] assms(3) by auto
  have "finish_x2 t (map2 (\<lambda>d b. (0, d, b)) ds bs) = Some (all_ok (map2 (\<lambda>c n. huff_ref (ht_table t) (ht_max_bits t) n c) cs (map length ds)))"
    using bs(2,3) assms(4) len by (intro finish_x2_ok assms(1,2)) (simp_all add: wrote_def)
  then show ?thesis using quad_ref_good [OF cs] x1_wf_x2_ne [OF assms(1)] bs(1) by (simp add: decode_4x_sweep_def assms(2))
next
  assume "\<exists>s \<in> set ss. \<exists>e. lane_cursor False s = Inl e"
  then obtain s e where s: "s \<in> set ss" "lane_cursor False s = Inl e" by blast
  have "new_readers ss = Inl Corruption" using new_readers_bad [OF s(1)] s(2) by (simp add: lane_cursor_def)
  then show ?thesis using quad_ref_bad [OF s] assms(3,4) by (simp add: decode_4x_sweep_def)
qed

lemma ladder_is_sweep:
  assumes "huff_wf t" "ht_x2 t \<noteq> []" "length ss = 4" "length ds = 4"
  shows "decode_4x_x2_slow t ss ds = decode_4x_sweep t ss ds"
  using assms decode_4x_x2_slow_ok [of t ss ds] decode_4x_sweep_ok [of t ss ds] by (auto simp: huff_wf_def)

section \<open>The fast loop\<close>

text \<open>The register of a reader that has consumed \<open>z\<close> bits of the window at \<open>ip\<close>; its lowest set bit says so.\<close>

definition window_at :: "bytes \<Rightarrow> nat \<Rightarrow> nat \<Rightarrow> bitrev" where
  "window_at src ip z = \<lparr> br_src = src, br_ptr = ip, br_container = shl64 (load_u64_le src ip) z, br_consumed = z \<rparr>"

definition fast_stands :: "nat list \<Rightarrow> nat \<Rightarrow> nat \<Rightarrow> nat \<Rightarrow> fast_src \<Rightarrow> cursor \<Rightarrow> bool" where
  "fast_stands table log r k s c \<longleftrightarrow> (case s of (bits, ip, src) \<Rightarrow>
     x1_wf table log \<and> log = 11 \<and> 7 * r \<le> ip \<and> ip + 8 \<le> length src
     \<and> (\<exists>z. bits = push_bit z (load_u64_le src ip OR 1) \<and> z + 11 * k \<le> 63 \<and> at_cursor (window_at src ip z) c))"

lemma trailing_zeros_shift: "odd m \<Longrightarrow> trailing_zeros (2 ^ z * m) = z"
proof (induction z)
  case 0
  then show ?case by (subst trailing_zeros.simps) (auto elim: oddE)
next
  case (Suc z)
  then have "m \<noteq> 0" by (auto elim: oddE)
  then show ?case using Suc by (subst trailing_zeros.simps) simp
qed

lemma ctz64_sentinel:
  assumes "z \<le> 63"
  shows "ctz64 (push_bit z (w OR 1)) = z"
proof -
  have "unat (push_bit z (w OR 1)) = 2 ^ z * (unat (w OR 1) mod 2 ^ (64 - z))"
    using unat_shl64 [of z "w OR 1"] assms by (simp add: shl64_def)
  moreover have "odd (unat (w OR 1))" by (simp add: unsigned_or_eq even_or_iff)
  then have "odd (unat (w OR 1) mod 2 ^ (64 - z))"
    using assms by (simp flip: take_bit_eq_mod add: even_take_bit_eq)
  ultimately show ?thesis using trailing_zeros_shift by (simp add: ctz64_def)
qed

lemma sentinel_below: "z + 11 \<le> 63 \<Longrightarrow> drop_bit 53 (push_bit z (w OR 1)) = drop_bit 53 (push_bit z (w :: u64))"
  by (rule bit_eqI) (auto simp: bit_simps)

lemma nb_mask: "x2_nb e \<le> 11 \<Longrightarrow> drop_bit 16 e AND 0x3F = x2_nb e"
proof -
  assume a: "x2_nb e \<le> 11"
  have "drop_bit 16 e AND 0x3F = drop_bit 16 e mod 256 mod 64" using nat_and_mask [of "drop_bit 16 e" 6] by (simp add: mod_mod_cancel)
  then show ?thesis using a by (simp add: x2_nb_def)
qed

interpretation fast_x2: x2_source table log "fast_fetch (x2_from_x1_into table log)" fast_adv reload_fast "fast_stands table log" for table log
proof
  fix r k s c assume s: "fast_stands table log r k s c"
  then show "x1_wf table log \<and> cursor_ok c" using at_cursor_ok by (auto simp: fast_stands_def)
  fix j assume "j \<le> k"
  then have "z + 11 * k \<le> 63 \<Longrightarrow> z + 11 * j \<le> 63" for z by simp
  with s show "fast_stands table log r j s c" by (auto simp: fast_stands_def)
next
  fix r k s c assume "fast_stands table log r (Suc k) s c"
  then obtain bits ip src z where s: "s = (bits, ip, src)" "x1_wf table log" "log = 11" "bits = push_bit z (load_u64_le src ip OR 1)"
    "z + 11 \<le> 63" "at_cursor (window_at src ip z) c" by (auto simp: fast_stands_def)
  have "11 \<le> 64 - z" using s(5) by linarith
  then have "can_look 11 (window_at src ip z)" by (simp add: can_look_def br_avail_def window_at_def)
  then have "br_look_fast 11 (window_at src ip z) = peek 11 c" by (intro at_cursor_peek [OF s(6)]) simp_all
  moreover have p: "peek 11 c < 2 ^ 11" by (rule peek_less [OF at_cursor_ok [OF s(6)]])
  moreover have "unat (drop_bit 53 bits) = unat (drop_bit 53 (br_container (window_at src ip z)))"
    using s(5) unfolding s(4) sentinel_below [OF s(5)] by (simp add: window_at_def shl64_def)
  moreover have "unat (br_container (window_at src ip z)) < 2 ^ 64" by (rule order_less_le_trans [OF unsigned_less]) simp
  then have "unat (drop_bit 53 (br_container (window_at src ip z))) < 2 ^ 32" by (simp add: unat_drop_bit64 less_mult_imp_div_less)
  ultimately have "unat (drop_bit 53 bits) = peek 11 c" by (simp add: br_look_fast_def)
  then show "fast_fetch (x2_from_x1_into table log) s = Some (x2_cell table log (min_nbits table log) (peek log c))"
    using p s(2,3) by (simp add: s(1) fast_fetch_def x2_from_x1_into_def x1_wf_def)
next
  fix r k s c e assume a: "fast_stands table log r (Suc k) s c" "x2_nb e \<le> log"
  then obtain bits ip src z where s: "s = (bits, ip, src)" "x1_wf table log" "log = 11" "bits = push_bit z (load_u64_le src ip OR 1)"
    "z + 11 + 11 * k \<le> 63" "at_cursor (window_at src ip z) c" "7 * r \<le> ip" "ip + 8 \<le> length src" by (auto simp: fast_stands_def)
  let ?n = "x2_nb e"
  have n: "?n \<le> 11" using a(2) s(3) by simp
  have "?n \<le> 64 - z" using s(5) n by linarith
  then have "can_look ?n (window_at src ip z)" by (simp add: can_look_def br_avail_def window_at_def)
  from at_cursor_skip(1) [OF s(6) this] n have "at_cursor (br_skip ?n (window_at src ip z)) (skip ?n c)" by simp
  moreover have "br_skip ?n (window_at src ip z) = window_at src ip (z + ?n)"
    using s(5) n by (simp add: br_skip_def window_at_def shl64_shl64 sat_add_def U32_MAX_def)
  moreover have "fast_adv e s = (push_bit (z + ?n) (load_u64_le src ip OR 1), ip, src)"
    unfolding s(1,4) fast_adv_def prod.case nb_mask [OF n] push_bit_push_bit by (simp only: add.commute)
  moreover have "z + ?n + 11 * k \<le> 63" using s(5) n by linarith
  ultimately show "fast_stands table log r k (fast_adv e s) (skip ?n c)"
    using s(2,3,7,8) unfolding fast_stands_def by auto
next
  fix r s c assume "fast_stands table log (Suc r) 0 s c"
  then obtain bits ip src z where s: "s = (bits, ip, src)" "x1_wf table log" "log = 11" "bits = push_bit z (load_u64_le src ip OR 1)"
    "z \<le> 63" "at_cursor (window_at src ip z) c" "7 + 7 * r \<le> ip" "ip + 8 \<le> length src" by (auto simp: fast_stands_def)
  have c: "ctz64 bits = z" using ctz64_sentinel [OF s(5)] s(4) by simp
  have d: "z div 8 \<le> 7" using s(5) by simp
  let ?ip = "ip - z div 8"
  have ip: "z div 8 \<le> ip" "7 * r \<le> ?ip" "?ip + 8 \<le> length src" using d s(7,8) by linarith+
  have "br_try_reload (window_at src ip z) = window_at src ?ip (z mod 8)"
    using s(5,8) ip by (auto simp: br_try_reload_def br_reload_def window_at_def Let_def shl64_def)
  with at_cursor_reload(1) [OF s(6)] have "at_cursor (window_at src ?ip (z mod 8)) c" by simp
  moreover have "z mod 8 + 55 \<le> 63" by (simp add: le_less_Suc_eq less_Suc_eq_le [symmetric])
  ultimately show "\<exists>s'. reload_fast s = Some s' \<and> fast_stands table log r 5 s' c"
    using s(2,3) ip by (auto simp: s(1) reload_fast_def c Let_def drop_bit_eq_div fast_stands_def intro!: exI [of _ "z mod 8"])
qed

abbreviation fast_lanes :: "nat list \<Rightarrow> nat \<Rightarrow> nat list \<Rightarrow> cursor list \<Rightarrow> (nat \<times> bytes \<times> fast_src) list \<Rightarrow> bool" where
  "fast_lanes table r \<equiv> fast_x2.lanes_ok table 11 r 5"

lemma fast_stands_room: "fast_stands table log r k s c \<longleftrightarrow> fast_stands table log 0 k s c \<and> 7 * r \<le> fst (snd s)"
  by (auto simp: fast_stands_def split_beta)

lemma fast_lanes_room:
  assumes "fast_lanes table r ns cs ls" "\<forall>j < 4. 7 * r' \<le> fast_ip (ls ! j)"
  shows "fast_lanes table r' ns cs ls"
proof -
  have "fast_x2.lane_ok table 11 r' 5 n c l" if "fast_x2.lane_ok table 11 r 5 n c l" "7 * r' \<le> fast_ip l" for n c l
    using that fast_stands_room [of table 11 r] fast_stands_room [of table 11 r']
    by (simp add: fast_x2.lane_ok_def fast_ip_def split_beta)
  then show ?thesis using assms unfolding fast_x2.lanes_ok_def by blast
qed

lemma init_fast_ok:
  assumes "x1_wf table 11" "8 \<le> length s"
  shows "\<exists>bits c. init_fast_dstream s (length s - 8) = Some bits \<and> lane_cursor True s = Inr c
    \<and> fast_stands table 11 0 5 (bits, length s - 8, s) c"
proof -
  let ?ip = "length s - 8"
  have ip: "?ip + 7 = length s - 1" "?ip + 8 \<le> length s" "s \<noteq> []" using assms(2) by auto
  define z where "z = (if s ! (length s - 1) = 0 then 0 else 8 - highbit (unat (s ! (length s - 1))))"
  have i: "init_fast_dstream s ?ip = Some (push_bit z (load_u64_le s ?ip OR 1))"
    using assms(2) unfolding init_fast_dstream_def ip(1) by (simp add: z_def Let_def)
  have z: "z \<le> 8" by (simp add: z_def)
  have "\<exists>c. lane_cursor True s = Inr c \<and> at_cursor (window_at s ?ip z) c"
  proof (cases "s ! (length s - 1) = 0")
    case True
    have l: "le_nat s < 2 ^ (8 * length s)" by (rule le_nat_less_pow2)
    have r: "8 * ?ip + 64 = 8 * length s" using assms(2) by simp
    have "br_ok (window_at s ?ip z)" using True ip by (simp add: br_ok_def window_at_def z_def)
    moreover have "br_rem (window_at s ?ip z) = 8 * length s" using True r by (simp add: br_rem_def window_at_def z_def)
    moreover from this l have "br_val (window_at s ?ip z) = le_nat s" by (simp add: br_val_def) (simp add: window_at_def)
    ultimately show ?thesis using True ip(3) by (simp add: lane_cursor_def at_cursor_def)
  next
    case False
    then obtain c where c: "cursor_of s = Inr c" using ip(3) by (auto simp: cursor_of_def)
    have "br_new s = Inr (window_at s ?ip z)" using False ip(3) assms(2) by (simp add: br_new_def Let_def z_def window_at_def)
    with at_cursor_new [of s] c False show ?thesis by (simp add: lane_cursor_def)
  qed
  then show ?thesis using i z assms(1) ip(2) by (auto simp: fast_stands_def intro!: exI [of _ z])
qed

lemma fast_init_ok:
  assumes "x1_wf table 11" "\<forall>s \<in> set ss. 8 \<le> length s" "length ss = length ds"
  shows "\<exists>ls cs. fast_init ss ds = Some ls \<and> length ls = length ss \<and> map (lane_cursor True) ss = map Inr cs
    \<and> (\<forall>j < length ss. fast_x2.lane_ok table 11 0 5 (length (ds ! j)) (cs ! j) (ls ! j))"
  using assms(2,3)
proof (induction ss arbitrary: ds)
  case (Cons s ss)
  obtain d ds' where ds: "ds = d # ds'" using Cons.prems(2) by (cases ds) auto
  obtain bits c where h: "init_fast_dstream s (length s - 8) = Some bits" "lane_cursor True s = Inr c"
    "fast_stands table 11 0 5 (bits, length s - 8, s) c" using init_fast_ok [OF assms(1), of s] Cons.prems(1) by auto
  obtain ls cs where t: "fast_init ss ds' = Some ls" "length ls = length ss" "map (lane_cursor True) ss = map Inr cs"
    "\<forall>j < length ss. fast_x2.lane_ok table 11 0 5 (length (ds' ! j)) (cs ! j) (ls ! j)"
    using Cons.IH [of ds'] Cons.prems by (auto simp: ds)
  have "fast_x2.lane_ok table 11 0 5 (length d) c (0, d, bits, length s - 8, s)" using h(3) by (simp add: fast_x2.lane_ok_def)
  with h t show ?case by (auto simp: ds nth_Cons split: nat.split intro!: exI [of _ "c # cs"])
qed simp

lemma fast_passes_ok:
  assumes "fast_lanes table r ns cs ls" "\<forall>j < 4. fst (ls ! j) + 10 * r \<le> ns ! j" "olimit \<le> fst (ls ! 3) + 5 * r"
  shows "\<exists>ls'. fast_passes (x2_from_x1_into table 11) olimit ls = Some (Inr ls') \<and> fast_lanes table 0 ns cs ls' \<and> olimit \<le> fst (ls' ! 3)"
  using assms
proof (induction r arbitrary: ls)
  case 0
  then show ?case by (simp add: fast_passes.simps [of _ _ ls])
next
  case (Suc r)
  show ?case
  proof (cases "fst (ls ! 3) < olimit")
    case True
    have four: "length ls = 4" using Suc.prems(1) by (simp add: fast_x2.lanes_ok_def)
    have "\<forall>j < 4. \<exists>l'. run_lane (fast_step (x2_from_x1_into table 11)) (replicate 5 X2_Sym @ [X2_Reload]) (ls ! j) = Some (Inr l')
        \<and> (fst (ls ! j) + 5 \<le> fst l' \<and> fst l' \<le> fst (ls ! j) + 10) \<and> fast_x2.lane_ok table 11 r 5 (ns ! j) (cs ! j) l'"
      unfolding fast_step_def
      using Suc.prems(1,2) by (intro allI impI) (fastforce simp: fast_x2.lanes_ok_def dest: fast_x2.fast_lane)
    from fast_x2.lanes_pass [OF four fast_ops(2) fast_ops(1), folded fast_step_def, OF this] obtain ls1 where
      p: "run_lanes (fast_step (x2_from_x1_into table 11)) fast_sched ls = Some (Inr ls1)" "fast_lanes table r ns cs ls1"
        "\<forall>j < 4. fst (ls ! j) + 5 \<le> fst (ls1 ! j) \<and> fst (ls1 ! j) \<le> fst (ls ! j) + 10" by blast
    have "\<forall>j < 4. fst (ls1 ! j) + 10 * r \<le> ns ! j" using p(3) Suc.prems(2) by fastforce
    moreover have "olimit \<le> fst (ls1 ! 3) + 5 * r" using p(3) Suc.prems(3) by (auto dest!: spec [of _ 3])
    ultimately show ?thesis using Suc.IH [OF p(2)] True p(1) by (simp add: fast_passes.simps [of _ _ ls])
  next
    case False
    have "fast_lanes table 0 ns cs ls" by (rule fast_lanes_room [OF Suc.prems(1)]) simp
    with False show ?thesis by (simp add: fast_passes.simps [of _ _ ls])
  qed
qed

lemma fast_iters_le:
  assumes "fast_lanes table 0 ns cs ls" "j < 4"
  shows "7 * fast_iters ls \<le> fast_ip (ls ! j)" "fst (ls ! j) + 10 * fast_iters ls \<le> ns ! j"
proof -
  have j: "j < length ls" using assms by (simp add: fast_x2.lanes_ok_def)
  have "fast_iters ls \<le> fast_ip (ls ! j) div 7" "fast_iters ls \<le> (length (fst (snd (ls ! j))) - fst (ls ! j)) div 10"
    unfolding fast_iters_def by (rule Min_le; use j in \<open>auto intro: imageI\<close>)+
  then show "7 * fast_iters ls \<le> fast_ip (ls ! j)" "fst (ls ! j) + 10 * fast_iters ls \<le> ns ! j"
    using fast_x2.lanes_room [OF assms] by linarith+
qed

lemma fast_loop_ok:
  assumes "fast_lanes table 0 ns cs ls"
  shows "\<exists>ls'. fast_loop (x2_from_x1_into table 11) ls = Some (Inr ls') \<and> fast_lanes table 0 ns cs ls'"
  using assms
proof (induction "ns ! 3 - fst (ls ! 3)" arbitrary: ls rule: less_induct)
  case less
  let ?r = "fast_iters ls"
  show ?case
  proof (cases "?r = 0")
    case True
    then show ?thesis using less.prems by (simp add: fast_loop.simps [of _ ls])
  next
    case False
    note le = fast_iters_le [OF less.prems]
    have "fast_lanes table ?r ns cs ls"
      using fast_lanes_room [OF less.prems] le(1) by blast
    from fast_passes_ok [OF this] le(2) obtain ls1 where
      p: "fast_passes (x2_from_x1_into table 11) (fst (ls ! 3) + ?r * 5) ls = Some (Inr ls1)" "fast_lanes table 0 ns cs ls1"
        "fst (ls ! 3) + ?r * 5 \<le> fst (ls1 ! 3)" by (auto simp: mult.commute)
    have "ns ! 3 - fst (ls1 ! 3) < ns ! 3 - fst (ls ! 3)" using p(3) False le(2) [of 3] by linarith
    from less.hyps [OF this p(2)] show ?thesis using False p(1) by (simp add: fast_loop.simps [of _ ls] Let_def)
  qed
qed

lemma from_windows_ok:
  assumes "\<forall>j < length ls. fast_x2.lane_ok (ht_table t) 11 0 5 (N j) (C j) (ls ! j)" "ht_max_bits t = 11"
  shows "\<exists>rs. from_windows ls = Inr rs \<and> length rs = length ls \<and> (\<forall>j < length ls. wrote t (C j) (N j) (rs ! j))"
  using assms(1)
proof (induction ls arbitrary: N C)
  case (Cons l ls)
  obtain op d bits ip src where l: "l = (op, d, bits, ip, src)" by (metis prod.exhaust)
  have "fast_x2.lane_ok (ht_table t) 11 0 5 (N 0) (C 0) l" using Cons.prems by (auto dest: spec [of _ 0])
  then obtain z where a: "length d = N 0" "op \<le> N 0" "take op d = huff_syms (ht_table t) 11 op (C 0)"
    "bits = push_bit z (load_u64_le src ip OR 1)" "z \<le> 63" "ip + 8 \<le> length src"
    "at_cursor (window_at src ip z) (huff_after (ht_table t) 11 op (C 0))"
    by (auto simp: l fast_x2.lane_ok_def fast_stands_def)
  have w: "br_from_window src ip (ctz64 bits) = Inr (window_at src ip z)"
    using a(5,6) unfolding a(4) ctz64_sentinel [OF a(5)] by (simp add: br_from_window_def window_at_def)
  have o: "wrote t (C 0) (N 0) (op, d, window_at src ip z)" using a assms(2) by (simp add: wrote_def)
  have "\<forall>j < length ls. fast_x2.lane_ok (ht_table t) 11 0 5 (N (Suc j)) (C (Suc j)) (ls ! j)"
    using Cons.prems by auto
  from Cons.IH [OF this] w o show ?case by (auto simp: l nth_Cons split: nat.split)
qed simp

section \<open>The whole\<close>

lemma FAST_TABLELOG_11: "FAST_TABLELOG = 11" by (simp add: FAST_TABLELOG_def)

lemma decode_4x_fast_ok:
  assumes "huff_wf t" "takes_fast t ss ds" "length ss = 4" "length ds = 4"
  shows "then_do (fast_4x2 t ss ds) (\<lambda>fast. case fast of
       Some ls \<Rightarrow> then_do (Some (from_windows ls)) (finish_x2 t)
     | None \<Rightarrow> decode_4x_x2_slow t ss ds) = Some (quad_ref True t ss (map length ds))"
proof -
  have mx: "ht_max_bits t = 11" and x2l: "length (ht_x2 t) = 2 ^ 11" and s8: "\<forall>s \<in> set ss. 8 \<le> length s"
    and nr: "\<not> fast_4x2_refuses t ss"
    using assms(2) by (auto simp: takes_fast_def fast_4x2_refuses_def FAST_TABLELOG_11 not_less)
  have wf: "x1_wf (ht_table t) 11" using assms(1) mx by (simp add: huff_wf_def)
  have x2: "ht_x2 t = x2_from_x1_into (ht_table t) 11" using assms(1) mx x2l by (auto simp: huff_wf_def)
  obtain ls cs where i: "fast_init ss ds = Some ls" "length ls = 4" "map (lane_cursor True) ss = map Inr cs"
    "\<forall>j < 4. fast_x2.lane_ok (ht_table t) 11 0 5 (length (ds ! j)) (cs ! j) (ls ! j)"
    using fast_init_ok [OF wf s8, of ds] unfolding assms(3,4) by blast
  have len: "length cs = 4" using i(3) assms(3) by (auto dest: arg_cong [of _ _ length])
  have "fast_lanes (ht_table t) 0 (map length ds) cs ls" using i(2,4) assms(4) by (simp add: fast_x2.lanes_ok_def)
  from fast_loop_ok [OF this] obtain ls1 where
    l: "fast_loop (ht_x2 t) ls = Some (Inr ls1)" "fast_lanes (ht_table t) 0 (map length ds) cs ls1" by (auto simp: x2)
  have "\<forall>j < length ls1. fast_x2.lane_ok (ht_table t) 11 0 5 (map length ds ! j) (cs ! j) (ls1 ! j)"
    using l(2) by (simp add: fast_x2.lanes_ok_def)
  from from_windows_ok [OF this mx] l(2) obtain rs where
    r: "from_windows ls1 = Inr rs" "length rs = 4" "\<forall>j < 4. wrote t (cs ! j) (map length ds ! j) (rs ! j)"
    by (auto simp: fast_x2.lanes_ok_def)
  have "finish_x2 t rs = Some (all_ok (map2 (\<lambda>c n. huff_ref (ht_table t) (ht_max_bits t) n c) cs (map length ds)))"
    using r(2,3) len assms(4) by (intro finish_x2_ok) (simp_all add: mx wf x2)
  then show ?thesis
    using nr i(1) l(1) r(1) quad_ref_good [OF i(3)] by (simp add: fast_4x2_def)
qed

lemma decode_4x_ok:
  assumes "huff_wf t" "length ss = 4" "length ds = 4"
  shows "decode_4x t ss ds = Some (quad_ref (takes_fast t ss ds) t ss (map length ds))"
proof (cases "\<exists>s \<in> set ss. s = []")
  case True
  have "\<not> takes_fast t ss ds" using True by (force simp: takes_fast_def fast_4x2_refuses_def)
  moreover have "quad_ref False t ss (map length ds) = Inl Corruption"
    using True assms(2,3) by (auto intro!: quad_ref_bad [of "[]"] simp: cursor_of_def)
  ultimately show ?thesis using True by (simp add: decode_4x_def)
next
  case ne: False
  have wf: "x1_wf (ht_table t) (ht_max_bits t)" using assms(1) by (simp add: huff_wf_def)
  show ?thesis
  proof (cases "use_x2 t (sum_list (map length ds)) (sum_list (map length ss))")
    case False
    then show ?thesis using ne decode_4x_x1_ok [OF assms] by (simp add: decode_4x_def takes_fast_def)
  next
    case True
    have x2: "ht_x2 t = x2_from_x1_into (ht_table t) (ht_max_bits t)"
      using assms(1) True wf by (auto simp: huff_wf_def use_x2_def x1_wf_def)
    show ?thesis
    proof (cases "takes_fast t ss ds")
      case fast: True
      with ne True decode_4x_fast_ok [OF assms(1) fast assms(2,3)] show ?thesis by (simp add: decode_4x_def)
    next
      case False
      then have "fast_4x2_refuses t ss" using True by (simp add: takes_fast_def)
      with False ne True decode_4x_x2_slow_ok [OF wf x2 assms(2,3)] show ?thesis by (simp add: decode_4x_def fast_4x2_def)
    qed
  qed
qed

text \<open>C10: with any well-formed table, four streams decode to four outputs, each the symbols of its own stream,
  whether the X1 body, the X2 ladder or the fast loop runs, and the result is an error exactly when some lane's
  reference is; no unchecked access is out of range and every loop ends. The fast loop differs from the
  others in one thing, which \<open>lane_cursor\<close> holds: it does not ask for an end mark. In particular the ladder gives what the
  four one-stream loops alone would give (\<open>ladder_is_sweep\<close>), against the comment above it.\<close>

theorem decode_4x_exact:
  assumes "huff_wf t" "length ss = 4" "length ds = 4"
  shows "decode_4x t ss ds = Some (quad_ref (takes_fast t ss ds) t ss (map length ds))"
  using assms by (rule decode_4x_ok)

theorem decode_4x_exact_witness:
  "decode_4x sample_table (replicate 4 [0x31]) [[9, 9, 9], [9, 9, 9], [9, 9, 9], [9, 9, 9]] = Some (Inr (replicate 4 [2, 0, 1]))"
proof -
  have "\<not> takes_fast sample_table (replicate 4 [0x31]) [[9, 9, 9], [9, 9, 9], [9, 9, 9], [9, 9, 9]]"
    by (simp add: takes_fast_def use_x2_def sample_table_def)
  moreover have "quad_ref False sample_table (replicate 4 [0x31]) [3, 3, 3, 3] = Inr (replicate 4 [2, 0, 1])" by code_simp
  ultimately show ?thesis
    using decode_4x_exact [OF sample_table_wf, of "replicate 4 [0x31]" "[[9, 9, 9], [9, 9, 9], [9, 9, 9], [9, 9, 9]]"]
    by (simp add: eval_nat_numeral)
qed

lemma huff_ref_cong:
  assumes "\<And>c. cursor_ok c \<Longrightarrow> cell_at table' log' c = cell_at table log c" "cursor_ok c"
  shows "huff_ref table' log' n c = huff_ref table log n c"
proof -
  have "huff_syms table' log' n c = huff_syms table log n c \<and> huff_after table' log' n c = huff_after table log n c"
    using assms(2) by (induction n arbitrary: c) (simp_all add: huff_next_def assms(1))
  then show ?thesis by (simp add: huff_ref_def)
qed

lemma sample_zeros:
  "huff_ref (ht_table sample_table) (ht_max_bits sample_table) n \<lparr> cu_val = 0, cu_rem = 2 * n, cu_over = False \<rparr> = Inr (replicate n 0)"
proof -
  have "cell_at (ht_table sample_table) (ht_max_bits sample_table) \<lparr> cu_val = 0, cu_rem = r, cu_over = False \<rparr> = 0x200" for r
    by (simp add: cell_at_def peek_def sample_table_def)
  then have "huff_syms (ht_table sample_table) (ht_max_bits sample_table) n \<lparr> cu_val = 0, cu_rem = 2 * n, cu_over = False \<rparr> = replicate n 0
    \<and> huff_after (ht_table sample_table) (ht_max_bits sample_table) n \<lparr> cu_val = 0, cu_rem = 2 * n, cu_over = False \<rparr>
      = \<lparr> cu_val = 0, cu_rem = 0, cu_over = False \<rparr>"
    by (induction n) (simp_all add: huff_next_def cell_nb_def skip_def word_eq_iff_unsigned)
  then show ?thesis by (simp add: huff_ref_def at_end_def)
qed

text \<open>C40: four streams of zeros have no end mark. One at a time they are rejected, together, in the fast loop,
  they decode: the loop does not ask for the mark, which the one-stream decoder does.\<close>

theorem fast_loop_takes_unmarked:
  "\<exists>t. ensure_x2 sample_table = Some t \<and> huff_wf t
    \<and> decode_stream t (replicate 16 0) (replicate 64 9) = Some (Inl Corruption)
    \<and> decode_4x t (replicate 4 (replicate 16 0)) (replicate 4 (replicate 64 9)) = Some (Inr (replicate 4 (replicate 64 0)))"
proof -
  obtain t where t: "ensure_x2 sample_table = Some t" "huff_wf t" "ht_x2 t \<noteq> []" "length (ht_x2 t) = length (ht_table t)"
    "\<And>c. cursor_ok c \<Longrightarrow> cell_at (ht_table t) (ht_max_bits t) c = cell_at (ht_table sample_table) (ht_max_bits sample_table) c"
    using ensure_x2_ok [OF sample_table_wf] by blast
  have "ht_max_bits t = 11 \<and> length (ht_x2 t) = 2 ^ 11"
  proof -
    have wf: "x1_wf (ht_table sample_table) (ht_max_bits sample_table)" using sample_table_wf by (simp add: huff_wf_def)
    have e: "ht_x2 sample_table = []" "length (ht_table sample_table) = 4" "ht_max_bits sample_table = 2" by (simp_all add: sample_table_def)
    have "with_x2 (ht_table sample_table) (ht_max_bits sample_table) = Some t" using t(1) by (simp only: ensure_x2_def e) simp
    then have "ht_max_bits t = FAST_TABLELOG" "length (ht_x2 t) = 4 * 2 ^ (FAST_TABLELOG - 2)"
      unfolding with_x2_ok [OF wf] by (auto simp: e x2_from_x1_into_def length_widened)
    then show ?thesis by (simp add: FAST_TABLELOG_def)
  qed
  moreover have "select_x2 256 64"
    by (simp add: select_x2_def x2_reachable_def X2_MIN_DST_def select_q_d256_def ALGO_TIME_def sat_mul_def U32_MAX_def drop_bit_eq_div Let_def)
  ultimately have fast: "takes_fast t (replicate 4 (replicate 16 0)) (replicate 4 (replicate 64 9))"
    using t(4) by (simp add: takes_fast_def use_x2_def fast_4x2_refuses_def FAST_TABLELOG_def sum_list_replicate)
  have zero: "le_nat (replicate 16 0) = 0" by (simp add: eval_nat_numeral)
  have "lane_cursor True (replicate 16 0) = Inr \<lparr> cu_val = 0, cu_rem = 2 * 64, cu_over = False \<rparr>"
    by (simp add: lane_cursor_def zero)
  moreover have "huff_ref (ht_table t) (ht_max_bits t) 64 \<lparr> cu_val = 0, cu_rem = 2 * 64, cu_over = False \<rparr> = Inr (replicate 64 0)"
    using sample_zeros [of 64] by (subst huff_ref_cong [OF t(5)]) (simp_all add: cursor_ok_def)
  moreover have r4: "replicate 4 x = [x, x, x, x]" for x :: 'a by (simp add: eval_nat_numeral)
  ultimately have "quad_ref True t (replicate 4 (replicate 16 0)) (replicate 4 64) = Inr (replicate 4 (replicate 64 0))"
    by (simp only: quad_ref_def r4 zip_Cons_Cons zip_Nil list.map prod.case rbind_simps all_ok.simps)
  then have "decode_4x t (replicate 4 (replicate 16 0)) (replicate 4 (replicate 64 9)) = Some (Inr (replicate 4 (replicate 64 0)))"
    using decode_4x_ok [OF t(2), of "replicate 4 (replicate 16 0)" "replicate 4 (replicate 64 9)"] fast by simp
  moreover have "decode_stream t (replicate 16 0) (replicate 64 9) = Some (Inl Corruption)"
    using decode_stream_ok [OF t(2), of "replicate 16 0" "replicate 64 9"] by (simp add: stream_ref_def cursor_of_def)
  ultimately show ?thesis using t(1,2) by blast
qed

end
