(* ===== verification/Lit_Section.thy ===== *)
theory Lit_Section
  imports Huff_Quad
begin

text \<open>
  The literals section of a compressed block (\<^verbatim>\<open>compressed.rs\<close>): its header, the raw, RLE and
  Huffman-coded bodies with one or four streams, and the table a later section reuses. The recycled
  buffers change no value and are left out.
\<close>

section \<open>The header\<close>

record lit_header =
  lh_type :: nat
  lh_regen :: nat
  lh_csize :: nat
  lh_streams :: nat

definition parse_lit_header :: "reader \<Rightarrow> (lit_header \<times> reader) res" where
  "parse_lit_header r =
     rbind (rd_u8 r) (\<lambda>(first, r).
     let first = unat first; lit_type = first AND 3; size_fmt = drop_bit 2 first AND 3
     in if lit_type = 0 \<or> lit_type = 1 then
          if size_fmt = 0 \<or> size_fmt = 2 then
            let regen = drop_bit 3 first in Inr (\<lparr> lh_type = lit_type, lh_regen = regen, lh_csize = regen, lh_streams = 1 \<rparr>, r)
          else if size_fmt = 1 then
            rbind (rd_u8 r) (\<lambda>(b1, r).
            let regen = drop_bit 4 first + push_bit 4 (unat b1)
            in Inr (\<lparr> lh_type = lit_type, lh_regen = regen, lh_csize = regen, lh_streams = 1 \<rparr>, r))
          else if size_fmt = 3 then
            rbind (rd_u8 r) (\<lambda>(b1, r). rbind (rd_u8 r) (\<lambda>(b2, r).
            let regen = drop_bit 4 first + push_bit 4 (unat b1) + push_bit 12 (unat b2)
            in Inr (\<lparr> lh_type = lit_type, lh_regen = regen, lh_csize = regen, lh_streams = 1 \<rparr>, r)))
          else Inl Corruption
        else if lit_type = 2 \<or> lit_type = 3 then
          if size_fmt = 0 \<or> size_fmt = 1 then
            rbind (rd_u8 r) (\<lambda>(b1, r). rbind (rd_u8 r) (\<lambda>(b2, r).
            let regen = (drop_bit 4 first + push_bit 4 (unat b1)) AND 0x3FF;
                csize = (drop_bit 6 (unat b1) + push_bit 2 (unat b2)) AND 0x3FF
            in Inr (\<lparr> lh_type = lit_type, lh_regen = regen, lh_csize = csize, lh_streams = (if size_fmt = 0 then 1 else 4) \<rparr>, r)))
          else if size_fmt = 2 then
            rbind (rd_u8 r) (\<lambda>(b1, r). rbind (rd_u8 r) (\<lambda>(b2, r). rbind (rd_u8 r) (\<lambda>(b3, r).
            let regen = drop_bit 4 first + push_bit 4 (unat b1) + push_bit 12 (unat b2 AND 3);
                csize = drop_bit 2 (unat b2) + push_bit 6 (unat b3)
            in Inr (\<lparr> lh_type = lit_type, lh_regen = regen, lh_csize = csize AND 0x3FFF, lh_streams = 4 \<rparr>, r))))
          else if size_fmt = 3 then
            rbind (rd_u8 r) (\<lambda>(b1, r). rbind (rd_u8 r) (\<lambda>(b2, r). rbind (rd_u8 r) (\<lambda>(b3, r). rbind (rd_u8 r) (\<lambda>(b4, r).
            let regen = drop_bit 4 first + push_bit 4 (unat b1) + push_bit 12 (unat b2 AND 0x3F);
                csize = drop_bit 6 (unat b2) + push_bit 2 (unat b3) + push_bit 10 (unat b4)
            in Inr (\<lparr> lh_type = lit_type, lh_regen = regen, lh_csize = csize AND 0x3FFFF, lh_streams = 4 \<rparr>, r)))))
          else Inl Corruption
        else Inl Corruption)"

section \<open>The bodies\<close>

text \<open>The jump table of four streams: the slices of the source, and of the output by their lengths.\<close>

definition four_streams :: "bytes \<Rightarrow> nat \<Rightarrow> (bytes list \<times> bytes list) res" where
  "four_streams src regen =
     (let out = replicate regen 0
      in if length src < 6 then Inl Corruption
         else
           let s1 = le_nat [src ! 0, src ! 1]; s2 = le_nat [src ! 2, src ! 3]; s3 = le_nat [src ! 4, src ! 5];
               total = length src - 6
           in if total < s1 + s2 + s3 then Inl Corruption
              else
                let s4 = total - s1 - s2 - s3; rest = drop 6 src
                in if s1 = 0 \<or> s2 = 0 \<or> s3 = 0 \<or> s4 = 0 then Inl Corruption
                   else
                     let n = length out; chunk = (regen + 3) div 4
                     in if chunk = 0 \<or> n < 4 then Inl Corruption
                        else
                          let d0 = take (min chunk n) out; rest_d = drop (min chunk n) out; n1 = length rest_d;
                              d1 = take (min chunk n1) rest_d; rest_d = drop (min chunk n1) rest_d; n2 = length rest_d;
                              d2 = take (min chunk n2) rest_d; d3 = drop (min chunk n2) rest_d
                          in if d0 = [] \<or> d1 = [] \<or> d2 = [] \<or> d3 = [] then Inl Corruption
                             else Inr ([take s1 rest, take s2 (drop s1 rest), take s3 (drop (s1 + s2) rest), drop (s1 + s2 + s3) rest],
                                       [d0, d1, d2, d3]))"

definition decode_huff_streams :: "huff_table \<Rightarrow> bytes \<Rightarrow> nat \<Rightarrow> nat \<Rightarrow> bytes res option" where
  "decode_huff_streams table src regen n_streams =
     (if n_streams = 1 then decode_stream table src (replicate regen 0)
      else then_do (Some (four_streams src regen)) (\<lambda>(ss, ds).
           then_do (decode_4x table ss ds) (\<lambda>ds. Some (Inr (concat ds)))))"

section \<open>The section\<close>

text \<open>\<open>state.huff\<close> is passed in and handed on.\<close>

definition decode_literals :: "reader \<Rightarrow> huff_table option \<Rightarrow> nat \<Rightarrow> (bytes \<times> reader \<times> huff_table option) res option" where
  "decode_literals r huff block_max =
     then_do (Some (parse_lit_header r)) (\<lambda>(h, r).
       if block_max < lh_regen h then Some (Inl Corruption)
       else if lh_type h = 0 then then_do (Some (rd_take (lh_regen h) r)) (\<lambda>(src, r). Some (Inr (src, r, huff)))
       else if lh_type h = 1 then then_do (Some (rd_u8 r)) (\<lambda>(b, r). Some (Inr (replicate (lh_regen h) b, r, huff)))
       else if lh_type h = 2 then
         then_do (Some (rd_take (lh_csize h) r)) (\<lambda>(sect, r).
         then_do (read_table sect (want_x2 (lh_regen h) (lh_csize h))) (\<lambda>(table, tree_size).
         then_do (Some (ok_or (slice_from sect tree_size) Corruption)) (\<lambda>body.
         then_do (decode_huff_streams table body (lh_regen h) (lh_streams h)) (\<lambda>lits. Some (Inr (lits, r, Some table))))))
       else if lh_type h = 3 then
         then_do (Some (ok_or huff Corruption)) (\<lambda>table.
         Option.bind (if want_x2 (lh_regen h) (lh_csize h) then ensure_x2 table else Some table) (\<lambda>table.
         then_do (Some (rd_take (lh_csize h) r)) (\<lambda>(sect, r).
         then_do (decode_huff_streams table sect (lh_regen h) (lh_streams h)) (\<lambda>lits. Some (Inr (lits, r, Some table))))))
       else Some (Inl Corruption))"

section \<open>Bodies against their reference\<close>

definition huff_body_ref :: "huff_table \<Rightarrow> bytes \<Rightarrow> nat \<Rightarrow> nat \<Rightarrow> bytes res" where
  "huff_body_ref t src regen n_streams =
     (if n_streams = 1 then stream_ref t src regen
      else rbind (four_streams src regen) (\<lambda>(ss, ds).
           rbind (quad_ref (takes_fast t ss ds) t ss (map length ds)) (\<lambda>xs. Inr (concat xs))))"

lemma take_drop_parts: "concat [take a xs, take b (drop a xs), take c (drop (a + b) xs), drop (a + b + c) xs] = xs"
  by (simp add: add.commute [of _ a] add.left_commute add.assoc flip: drop_drop)
    (metis append_take_drop_id drop_drop add.commute)

lemma four_streams_ok:
  assumes "four_streams src regen = Inr (ss, ds)"
  shows "length ss = 4" "length ds = 4" "sum_list (map length ds) = regen" "concat ss = drop 6 src"
proof -
  let ?s1 = "le_nat [src ! 0, src ! 1]" and ?s2 = "le_nat [src ! 2, src ! 3]" and ?s3 = "le_nat [src ! 4, src ! 5]"
  let ?r = "drop 6 src" and ?k = "(regen + 3) div 4"
  let ?o1 = "replicate regen (0 :: u8)"
  let ?o2 = "drop (min ?k (length ?o1)) ?o1"
  let ?o3 = "drop (min ?k (length ?o2)) ?o2"
  have e: "ss = [take ?s1 ?r, take ?s2 (drop ?s1 ?r), take ?s3 (drop (?s1 + ?s2) ?r), drop (?s1 + ?s2 + ?s3) ?r]"
    "ds = [take (min ?k (length ?o1)) ?o1, take (min ?k (length ?o2)) ?o2, take (min ?k (length ?o3)) ?o3, drop (min ?k (length ?o3)) ?o3]"
    using assms unfolding four_streams_def Let_def by (simp_all only: sum.inject sum.distinct prod.inject split: if_splits)
  show "length ss = 4" "length ds = 4" by (simp_all add: e)
  show "concat ss = ?r" unfolding e(1) by (rule take_drop_parts)
  have "concat ds = ?o1" unfolding e(2) by (simp only: concat.simps append_Nil2 append_take_drop_id)
  then have "length (concat ds) = regen" by simp
  then show "sum_list (map length ds) = regen" by (simp only: length_concat)
qed

lemma decode_huff_streams_ok:
  assumes "huff_wf t"
  shows "decode_huff_streams t src regen n = Some (huff_body_ref t src regen n)"
proof (cases "n = 1")
  case True
  then show ?thesis using decode_stream_ok [OF assms, of src "replicate regen 0"] by (simp add: decode_huff_streams_def huff_body_ref_def)
next
  case False
  show ?thesis
  proof (cases "four_streams src regen")
    case (Inl e)
    then show ?thesis using False by (simp add: decode_huff_streams_def huff_body_ref_def)
  next
    case (Inr p)
    obtain ss ds where p: "p = (ss, ds)" by (metis prod.exhaust)
    note f = four_streams_ok [OF Inr [unfolded p]]
    show ?thesis
      using False Inr p decode_4x_ok [OF assms f(1,2)]
      by (cases "quad_ref (takes_fast t ss ds) t ss (map length ds)") (simp_all add: decode_huff_streams_def huff_body_ref_def)
  qed
qed

lemma all_ok_lengths:
  "all_ok (map2 (\<lambda>s n. rbind (f s) (huff_ref table log n)) ss ns) = Inr xs \<Longrightarrow> length ss = length ns \<Longrightarrow> map length xs = ns"
proof (induction ss arbitrary: ns xs)
  case (Cons s ss)
  then obtain n ns' where ns: "ns = n # ns'" "length ss = length ns'" by (cases ns) auto
  from Cons.prems(1) obtain x ys where x: "rbind (f s) (huff_ref table log n) = Inr x" "xs = x # ys"
    "all_ok (map2 (\<lambda>s n. rbind (f s) (huff_ref table log n)) ss ns') = Inr ys"
    by (auto simp: ns res_simps)
  have "length x = n" using x(1) by (auto simp: res_simps huff_ref_def split: if_splits)
  with x(2) Cons.IH [OF x(3) ns(2)] show ?case by (simp add: ns)
qed simp

lemma stream_ref_length: "stream_ref t src n = Inr xs \<Longrightarrow> length xs = n"
  by (auto simp: stream_ref_def huff_ref_def res_simps split: if_splits)

lemma huff_body_length:
  assumes "huff_body_ref t src regen n = Inr lits"
  shows "length lits = regen"
proof (cases "n = 1")
  case True
  then show ?thesis using assms stream_ref_length by (simp add: huff_body_ref_def)
next
  case False
  then obtain ss ds xs where f: "four_streams src regen = Inr (ss, ds)" "quad_ref (takes_fast t ss ds) t ss (map length ds) = Inr xs" "lits = concat xs"
    using assms by (auto simp: huff_body_ref_def res_simps)
  note g = four_streams_ok [OF f(1)]
  have "map length xs = map length ds" using all_ok_lengths [OF f(2) [unfolded quad_ref_def]] g(1,2) by simp
  then show ?thesis using g(3) by (simp add: f(3) length_concat)
qed

lemma four_streams_Inl: "four_streams src regen = Inl e \<Longrightarrow> e = Corruption"
  by (auto simp: four_streams_def Let_def split: if_splits)

lemma all_ok_Inl: "all_ok rs = Inl e \<Longrightarrow> Inl e \<in> set rs"
proof (induction rs)
  case (Cons r rs)
  then show ?case by (cases r) (auto simp: rbind_Inl_iff)
qed simp

lemma quad_ref_Inl: "quad_ref fast t ss ns = Inl e \<Longrightarrow> e = Corruption"
  unfolding quad_ref_def
  by (auto dest!: all_ok_Inl simp: rbind_Inl_iff dest!: sym [of "Inl _"] lane_cursor_Inl huff_ref_Inl)

lemma huff_body_Inl: "huff_body_ref t src regen n = Inl e \<Longrightarrow> e = Corruption"
  using lane_cursor_Inl [of False src e]
  by (auto simp: huff_body_ref_def stream_ref_def rbind_Inl_iff split: if_splits dest: huff_ref_Inl four_streams_Inl quad_ref_Inl)

section \<open>The section on any bytes\<close>

text \<open>\<open>safe_in E P m\<close>: no undefined behaviour, errors only from \<open>E\<close>, results with \<open>P\<close>.\<close>

definition safe_in :: "zerror set \<Rightarrow> ('a \<Rightarrow> bool) \<Rightarrow> 'a res option \<Rightarrow> bool" where
  "safe_in E P m \<longleftrightarrow> (case m of None \<Rightarrow> False | Some (Inl e) \<Rightarrow> e \<in> E | Some (Inr x) \<Rightarrow> P x)"

lemma safe_in_simps [simp]:
  "\<not> safe_in E P None" "safe_in E P (Some (Inl e)) \<longleftrightarrow> e \<in> E" "safe_in E P (Some (Inr x)) \<longleftrightarrow> P x"
  by (simp_all add: safe_in_def)

lemma safe_in_cases:
  assumes "safe_in E P m"
  obtains e where "m = Some (Inl e)" "e \<in> E" | x where "m = Some (Inr x)" "P x"
  using assms by (auto simp: safe_in_def split: option.splits sum.splits)

lemma safe_in_then:
  assumes "safe_in E P m" "\<And>x. P x \<Longrightarrow> safe_in E Q (f x)"
  shows "safe_in E Q (then_do m f)"
  using assms(1) by (rule safe_in_cases) (simp_all add: assms(2))

lemma safe_in_mono: "safe_in E P m \<Longrightarrow> E \<subseteq> F \<Longrightarrow> (\<And>x. P x \<Longrightarrow> Q x) \<Longrightarrow> safe_in F Q m"
  by (auto simp: safe_in_def split: option.splits sum.splits)

lemma safe_res_in: "safe_res P m \<Longrightarrow> Corruption \<in> E \<Longrightarrow> safe_in E P m"
  by (auto simp: safe_res_def safe_in_def split: option.splits sum.splits)

definition LIT_ERRORS :: "zerror set" where "LIT_ERRORS = {Corruption, UnexpectedEof}"

lemma LIT_ERRORS_simps [simp]: "Corruption \<in> LIT_ERRORS" "UnexpectedEof \<in> LIT_ERRORS"
  by (simp_all add: LIT_ERRORS_def)

lemma rd_u8_safe: "rd_wf r \<Longrightarrow> safe_in LIT_ERRORS (\<lambda>(b, r'). advanced r 1 1 r') (Some (rd_u8 r))"
  by (cases "rd_u8 r") (auto dest: f8.rd_InlD f8.rd_advanced [of r _ _ 1 1])

lemma rd_take_safe: "rd_wf r \<Longrightarrow> safe_in LIT_ERRORS (\<lambda>(s, r'). length s = n \<and> advanced r 0 n r') (Some (rd_take n r))"
  by (auto simp: rd_take_eq advanced_skip)

text \<open>One more header byte, read after \<open>a\<close> bytes.\<close>

lemma then_u8:
  assumes "rd_wf r0" "advanced r0 1 a r" "\<And>b r'. advanced r0 1 (a + 1) r' \<Longrightarrow> safe_in LIT_ERRORS Q (Some (f (b, r')))"
  shows "safe_in LIT_ERRORS Q (Some (rbind (rd_u8 r) f))"
proof -
  have wf: "rd_wf r" using advanced_wf assms(1,2) by blast
  have "advanced r0 1 (a + 1) r'" if "advanced r 1 1 r'" for r'
    using advanced_trans [OF assms(2) that] by (rule advanced_mono) simp_all
  then show ?thesis using rd_u8_safe [OF wf] assms(3) by (cases "rd_u8 r") auto
qed

lemma parse_lit_header_safe:
  assumes "rd_wf r"
  shows "safe_in LIT_ERRORS (\<lambda>(h, r'). advanced r 1 5 r' \<and> lh_type h \<le> 3 \<and> (lh_streams h = 1 \<or> lh_streams h = 4)) (Some (parse_lit_header r))"
proof -
  let ?Q = "\<lambda>(h, r'). advanced r 1 5 r' \<and> lh_type h \<le> 3 \<and> (lh_streams h = 1 \<or> lh_streams h = 4)"
  have t: "n AND 3 \<le> (3 :: nat)" for n using mod_less_divisor [of 4 n] by (simp add: nat_and_3)
  have mono: "advanced r (Suc 0) a r' \<Longrightarrow> a \<le> 5 \<Longrightarrow> advanced r (Suc 0) 5 r'" for a r'
    using advanced_mono [of r 1 a r' 1 5] by simp
  note upto5 = mono [of "Suc (Suc (Suc 0))"] mono [of "Suc (Suc (Suc (Suc 0)))"] mono [of "Suc (Suc (Suc (Suc (Suc 0))))"]
    mono [of "Suc (Suc 0)"] mono [of "Suc 0"]
  show ?thesis
  proof (cases "rd_u8 r")
    case (Inl e)
    then show ?thesis using rd_u8_safe [OF assms] by (simp add: parse_lit_header_def)
  next
    case (Inr p)
    obtain b r1 where p: "p = (b, r1)" by (metis prod.exhaust)
    have a1: "advanced r 1 1 r1" using rd_u8_safe [OF assms] Inr by (simp add: p)
    show ?thesis
      unfolding parse_lit_header_def Inr p rbind_simps prod.case Let_def
      using t [of "unat b"] a1
      by (auto intro!: then_u8 [OF assms] dest: upto5 [simplified])
  qed
qed

text \<open>Past the header, at least a byte further.\<close>

definition past :: "reader \<Rightarrow> reader \<Rightarrow> bool" where
  "past r r' \<longleftrightarrow> (\<exists>n. advanced r 1 n r')"

lemma past_wf: "rd_wf r \<Longrightarrow> past r r' \<Longrightarrow> rd_wf r'"
  using advanced_wf by (auto simp: past_def)

lemma past_trans: "past r r' \<Longrightarrow> advanced r' a b r'' \<Longrightarrow> past r r''"
  unfolding past_def using advanced_trans [of r 1 _ r' a b r''] advanced_mono [of r "1 + a" _ r'' 1] by (metis le_add1 order_refl)

lemma then_in:
  assumes "safe_in LIT_ERRORS P (Some m)" "\<And>x. P x \<Longrightarrow> safe_in LIT_ERRORS Q (f x)"
  shows "safe_in LIT_ERRORS Q (then_do (Some m) f)"
  using safe_in_then [OF assms] .

lemma huff_streams_safe:
  assumes "huff_wf t"
  shows "safe_in LIT_ERRORS (\<lambda>lits. length lits = regen) (decode_huff_streams t src regen n)"
  unfolding decode_huff_streams_ok [OF assms]
  using huff_body_length [of t src regen n] huff_body_Inl [of t src regen n] by (cases "huff_body_ref t src regen n") auto

lemma ensure_x2_safe:
  assumes "huff_wf t"
  obtains t' where "(if w then ensure_x2 t else Some t) = Some t'" "huff_wf t'"
  using assms ensure_x2_ok [OF assms] by (cases w) auto

lemma decode_literals_ok:
  assumes "rd_wf r" "pred_option huff_wf huff"
  shows "safe_in LIT_ERRORS (\<lambda>(lits, r', huff'). pred_option huff_wf huff' \<and> length lits \<le> block_max \<and> past r r')
    (decode_literals r huff block_max)"
  unfolding decode_literals_def
proof (rule then_in [OF parse_lit_header_safe [OF assms(1)]])
  fix x :: "lit_header \<times> reader"
  obtain h r1 where x: "x = (h, r1)" by (metis prod.exhaust)
  assume "case x of (h, r') \<Rightarrow> advanced r 1 5 r' \<and> lh_type h \<le> 3 \<and> (lh_streams h = 1 \<or> lh_streams h = 4)"
  then have a: "past r r1" by (auto simp: x past_def)
  then have wf: "rd_wf r1" using past_wf assms(1) by blast
  let ?Q = "\<lambda>(lits, r', huff'). pred_option huff_wf huff' \<and> length lits \<le> block_max \<and> past r r'"
  have raw: "safe_in LIT_ERRORS ?Q (then_do (Some (rd_take (lh_regen h) r1)) (\<lambda>(src, r). Some (Inr (src, r, huff))))"
    if "lh_regen h \<le> block_max"
    by (rule then_in [OF rd_take_safe [OF wf]]) (use that a assms(2) past_trans in auto)
  have rle: "safe_in LIT_ERRORS ?Q (then_do (Some (rd_u8 r1)) (\<lambda>(b, r). Some (Inr (replicate (lh_regen h) b, r, huff))))"
    if "lh_regen h \<le> block_max"
    by (rule then_in [OF rd_u8_safe [OF wf]]) (use that a assms(2) past_trans in auto)
  have body: "safe_in LIT_ERRORS ?Q (then_do (decode_huff_streams t b (lh_regen h) (lh_streams h)) (\<lambda>lits. Some (Inr (lits, r2, Some t))))"
    if "lh_regen h \<le> block_max" "huff_wf t" "past r r2" for t b r2
    by (rule safe_in_then [OF huff_streams_safe]) (use that in auto)
  have tree: "safe_in LIT_ERRORS ?Q (then_do (Some (rd_take (lh_csize h) r1)) (\<lambda>(sect, r).
         then_do (read_table sect (want_x2 (lh_regen h) (lh_csize h))) (\<lambda>(table, tree_size).
         then_do (Some (ok_or (slice_from sect tree_size) Corruption)) (\<lambda>body.
         then_do (decode_huff_streams table body (lh_regen h) (lh_streams h)) (\<lambda>lits. Some (Inr (lits, r, Some table)))))))"
    if l: "lh_regen h \<le> block_max"
  proof (rule then_in [OF rd_take_safe [OF wf]])
    fix y :: "bytes \<times> reader"
    obtain sect r2 where y: "y = (sect, r2)" by (metis prod.exhaust)
    assume "case y of (s, r') \<Rightarrow> length s = lh_csize h \<and> advanced r1 0 (lh_csize h) r'"
    then have p: "past r r2" using past_trans [OF a] by (auto simp: y)
    show "safe_in LIT_ERRORS ?Q (case y of (sect, r) \<Rightarrow>
         then_do (read_table sect (want_x2 (lh_regen h) (lh_csize h))) (\<lambda>(table, tree_size).
         then_do (Some (ok_or (slice_from sect tree_size) Corruption)) (\<lambda>body.
         then_do (decode_huff_streams table body (lh_regen h) (lh_streams h)) (\<lambda>lits. Some (Inr (lits, r, Some table))))))"
      unfolding y prod.case
      by (rule safe_in_then [OF safe_res_in [OF read_table_ok]]) (auto simp: slice_from_def intro!: body [OF l _ p])
  qed
  have reuse: "safe_in LIT_ERRORS ?Q (then_do (Some (ok_or huff Corruption)) (\<lambda>table.
         Option.bind (if want_x2 (lh_regen h) (lh_csize h) then ensure_x2 table else Some table) (\<lambda>table.
         then_do (Some (rd_take (lh_csize h) r1)) (\<lambda>(sect, r).
         then_do (decode_huff_streams table sect (lh_regen h) (lh_streams h)) (\<lambda>lits. Some (Inr (lits, r, Some table)))))))"
    if l: "lh_regen h \<le> block_max"
  proof (cases huff)
    case (Some t)
    then have "huff_wf t" using assms(2) by simp
    then obtain t' where t': "(if want_x2 (lh_regen h) (lh_csize h) then ensure_x2 t else Some t) = Some t'" "huff_wf t'"
      by (rule ensure_x2_safe)
    show ?thesis
      unfolding Some ok_or_simps then_do_simps t'(1) Option.bind.simps
      by (rule then_in [OF rd_take_safe [OF wf]]) (auto intro!: body [OF l t'(2)] past_trans [OF a])
  qed simp
  show "safe_in LIT_ERRORS ?Q (case x of (h, r) \<Rightarrow>
       if block_max < lh_regen h then Some (Inl Corruption)
       else if lh_type h = 0 then then_do (Some (rd_take (lh_regen h) r)) (\<lambda>(src, r). Some (Inr (src, r, huff)))
       else if lh_type h = 1 then then_do (Some (rd_u8 r)) (\<lambda>(b, r). Some (Inr (replicate (lh_regen h) b, r, huff)))
       else if lh_type h = 2 then
         then_do (Some (rd_take (lh_csize h) r)) (\<lambda>(sect, r).
         then_do (read_table sect (want_x2 (lh_regen h) (lh_csize h))) (\<lambda>(table, tree_size).
         then_do (Some (ok_or (slice_from sect tree_size) Corruption)) (\<lambda>body.
         then_do (decode_huff_streams table body (lh_regen h) (lh_streams h)) (\<lambda>lits. Some (Inr (lits, r, Some table))))))
       else if lh_type h = 3 then
         then_do (Some (ok_or huff Corruption)) (\<lambda>table.
         Option.bind (if want_x2 (lh_regen h) (lh_csize h) then ensure_x2 table else Some table) (\<lambda>table.
         then_do (Some (rd_take (lh_csize h) r)) (\<lambda>(sect, r).
         then_do (decode_huff_streams table sect (lh_regen h) (lh_streams h)) (\<lambda>lits. Some (Inr (lits, r, Some table))))))
       else Some (Inl Corruption))"
    unfolding x prod.case using raw rle tree reuse by (simp only: if_split not_less) (simp add: not_less)
qed

text \<open>C24: the literals section is safe on any bytes. It returns; it fails only with \<open>Corruption\<close> or
  \<open>UnexpectedEof\<close>; no stream writes out of range; the literals never exceed the block maximum, the
  reader stays inside its slice, and the Huffman table kept for the next block is a well-formed one.\<close>

theorem decode_literals_safe:
  assumes "rd_wf r" "pred_option huff_wf huff"
  shows "case decode_literals r huff block_max of
      None \<Rightarrow> False
    | Some (Inl e) \<Rightarrow> e \<in> {Corruption, UnexpectedEof}
    | Some (Inr (lits, r', huff')) \<Rightarrow> length lits \<le> block_max \<and> rd_wf r' \<and> pred_option huff_wf huff'"
  using decode_literals_ok [OF assms, of block_max] past_wf [of r] assms(1)
  by (auto simp: safe_in_def LIT_ERRORS_def split: option.splits sum.splits)

theorem decode_literals_safe_witness:
  "decode_literals (rd_new [0x10, 5, 6]) None 8 \<noteq> None"
  using decode_literals_safe [of "rd_new [0x10, 5, 6]" None 8] by (auto split: option.splits)

end
