(* ===== verification/Frame_Header.thy ===== *)
theory Frame_Header
  imports Byte_Reader
begin

unbundle bit_operations_syntax

text \<open>
  Frame and block headers: the parsers of \<^verbatim>\<open>frame.rs\<close> and \<^verbatim>\<open>block.rs\<close> and the encoder's
  writers of the same fields (\<^verbatim>\<open>write_frame_header\<close>, \<^verbatim>\<open>write_block_header\<close> and
  \<^verbatim>\<open>patch_block_header\<close> of \<^verbatim>\<open>encode/block.rs\<close>). The lemmas give the exact value and the bounds
  of every parsed field and the round trips writer to parser.
\<close>

section \<open>Frame headers\<close>

definition MAGIC :: nat where "MAGIC = 0xFD2FB528"
definition MAGIC_SKIPPABLE_MIN :: nat where "MAGIC_SKIPPABLE_MIN = 0x184D2A50"
definition MAGIC_SKIPPABLE_MAX :: nat where "MAGIC_SKIPPABLE_MAX = 0x184D2A5F"
definition BLOCKSIZE_MAX :: nat where "BLOCKSIZE_MAX = 128 * 1024"
definition DEFAULT_WINDOW_MAX :: nat where "DEFAULT_WINDOW_MAX = 128 * 1024 * 1024"

record frame_header =
  fh_window_size :: nat
  fh_dict_id :: "nat option"
  fh_content_size :: "nat option"
  fh_checksum :: bool
  fh_single_segment :: bool

definition block_size_max :: "frame_header \<Rightarrow> nat" where
  "block_size_max h = min (fh_window_size h) BLOCKSIZE_MAX"

datatype frame_kind =
    FkZstd frame_header
  | FkSkippable nat nat  \<comment> \<open>magic, user data size\<close>

definition is_skippable_magic :: "nat \<Rightarrow> bool" where
  "is_skippable_magic m \<longleftrightarrow> MAGIC_SKIPPABLE_MIN \<le> m \<and> m \<le> MAGIC_SKIPPABLE_MAX"

definition window_size_from_desc :: "u8 \<Rightarrow> nat res" where
  "window_size_from_desc desc =
     (let exponent = unat (drop_bit 3 desc);
          mantissa = unat (desc AND 7);
          window_log = sat_add U32_MAX 10 exponent
      in if 64 \<le> window_log then Inl WindowTooLarge
         else let base = 2 ^ window_log;
                  extra = mantissa * 2 ^ (window_log - 3)
              in Inr (sat_add U64_MAX base extra))"

text \<open>\<^verbatim>\<open>id.filter(|&id| id != 0)\<close>: a zero Dictionary_ID means "no dictionary".\<close>

definition nonzero_id :: "nat option \<Rightarrow> nat option" where
  "nonzero_id m = (case m of None \<Rightarrow> None | Some i \<Rightarrow> if i \<noteq> 0 then Some i else None)"

text \<open>The three \<^verbatim>\<open>match\<close>es of \<open>parse_zstd_header\<close> that read an optional field.\<close>

definition parse_window_desc :: "bool \<Rightarrow> reader \<Rightarrow> (u8 option \<times> reader) res" where
  "parse_window_desc single r =
     (if single then Inr (None, r) else rbind (rd_u8 r) (\<lambda>(b, r). Inr (Some b, r)))"

definition parse_dict_id :: "u8 \<Rightarrow> reader \<Rightarrow> (nat option \<times> reader) res" where
  "parse_dict_id flag r =
     rbind
       (if flag = 0 then Inr (None, r)
        else if flag = 1 then rbind (rd_u8 r) (\<lambda>(b, r). Inr (Some (unat b), r))
        else if flag = 2 then rbind (rd_u16_le r) (\<lambda>(v, r). Inr (Some v, r))
        else if flag = 3 then rbind (rd_u32_le r) (\<lambda>(v, r). Inr (Some v, r))
        else Inl BadMagic)
       (\<lambda>(id, r). Inr (nonzero_id id, r))"

definition parse_content_size :: "u8 \<Rightarrow> bool \<Rightarrow> reader \<Rightarrow> (nat option \<times> reader) res" where
  "parse_content_size flag single r =
     (if flag = 0 \<and> single then rbind (rd_u8 r) (\<lambda>(b, r). Inr (Some (unat b), r))
      else if flag = 0 then Inr (None, r)
      else if flag = 1 then rbind (rd_u16_le r) (\<lambda>(v, r). Inr (Some (v + 256), r))
      else if flag = 2 then rbind (rd_u32_le r) (\<lambda>(v, r). Inr (Some v, r))
      else if flag = 3 then rbind (rd_u64_le r) (\<lambda>(v, r). Inr (Some v, r))
      else Inl BadMagic)"

definition parse_zstd_header :: "reader \<Rightarrow> (frame_header \<times> reader) res" where
  "parse_zstd_header r =
     rbind (rd_u8 r) (\<lambda>(desc, r).
     let fcs_flag = drop_bit 6 desc;
         single_segment = (desc AND 0x20 \<noteq> 0);
         reserved = (desc AND 0x08 \<noteq> 0);
         checksum = (desc AND 0x04 \<noteq> 0);
         dict_flag = desc AND 0x03
     in if reserved then Inl ReservedBitSet
        else
          rbind (parse_window_desc single_segment r) (\<lambda>(window_desc, r).
          rbind (parse_dict_id dict_flag r) (\<lambda>(dict_id, r).
          rbind (parse_content_size fcs_flag single_segment r) (\<lambda>(content_size, r).
          rbind (if single_segment then Inr (case content_size of None \<Rightarrow> 0 | Some s \<Rightarrow> s)
                 else window_size_from_desc (case window_desc of None \<Rightarrow> 0 | Some d \<Rightarrow> d))
            (\<lambda>window_size.
          Inr (\<lparr> fh_window_size = window_size, fh_dict_id = dict_id, fh_content_size = content_size,
                 fh_checksum = checksum, fh_single_segment = single_segment \<rparr>, r))))))"

definition parse_kind :: "reader \<Rightarrow> (frame_kind \<times> reader) res" where
  "parse_kind r =
     rbind (rd_u32_le r) (\<lambda>(magic, r).
     if magic = MAGIC then rbind (parse_zstd_header r) (\<lambda>(h, r). Inr (FkZstd h, r))
     else if is_skippable_magic magic then
       rbind (rd_u32_le r) (\<lambda>(user_data_size, r). Inr (FkSkippable magic user_data_size, r))
     else Inl BadMagic)"

definition get_frame_header :: "bytes \<Rightarrow> frame_kind res" where
  "get_frame_header src = rbind (parse_kind (rd_new src)) (\<lambda>(k, r). Inr k)"

section \<open>Block headers\<close>

datatype block_type = BtRaw | BtRle | BtCompressed

record block_header =
  bh_last :: bool
  bh_ty :: block_type
  bh_size :: nat

definition parse_block_header :: "reader \<Rightarrow> (block_header \<times> reader) res" where
  "parse_block_header r =
     rbind (rd_u24_le r) (\<lambda>(n, r).
     let is_last = (n AND 1 \<noteq> 0); t = drop_bit 1 n AND 3; size = drop_bit 3 n
     in rbind (if t = 0 then Inr BtRaw else if t = 1 then Inr BtRle
               else if t = 2 then Inr BtCompressed else Inl ReservedBlockType)
          (\<lambda>ty. Inr (\<lparr> bh_last = is_last, bh_ty = ty, bh_size = size \<rparr>, r)))"

definition payload_len :: "block_header \<Rightarrow> nat" where
  "payload_len h =
     (case bh_ty h of BtRle \<Rightarrow> 1 | BtRaw \<Rightarrow> bh_size h | BtCompressed \<Rightarrow> bh_size h)"

section \<open>The encoder's writers\<close>

definition block_header_word :: "bool \<Rightarrow> block_type \<Rightarrow> nat \<Rightarrow> nat" where
  "block_header_word is_last ty sz =
     (let t = (case ty of BtRaw \<Rightarrow> 0 | BtRle \<Rightarrow> 1 | BtCompressed \<Rightarrow> (2 :: nat))
      in of_bool is_last OR push_bit 1 t OR (push_bit 3 sz mod 2 ^ 32))"

definition write_block_header :: "bytes \<Rightarrow> bool \<Rightarrow> block_type \<Rightarrow> nat \<Rightarrow> bytes" where
  "write_block_header out is_last ty sz =
     (let n = block_header_word is_last ty sz
      in out @ [word_of_nat n] @ [word_of_nat (drop_bit 8 n)] @ [word_of_nat (drop_bit 16 n)])"

definition patch_block_header :: "bytes \<Rightarrow> nat \<Rightarrow> bool \<Rightarrow> block_type \<Rightarrow> nat \<Rightarrow> bytes option" where
  "patch_block_header out pos is_last ty sz =
     (let n = block_header_word is_last ty sz
      in if pos + 2 < length out
         then Some (out[pos := word_of_nat n, pos + 1 := word_of_nat (drop_bit 8 n),
                        pos + 2 := word_of_nat (drop_bit 16 n)])
         else None)"

definition fcs_field :: "nat \<Rightarrow> bool \<Rightarrow> bool \<Rightarrow> u8 \<times> bytes" where
  "fcs_field sz known single =
     (let (fcs_flag, fcs_bytes) =
        (if \<not> known then (0, [])
         else if single \<and> sz < 256 then (0, [word_of_nat sz])
         else if sz < 256 + 65536 then
           let v = (sz mod 2 ^ 16 + 2 ^ 16 - 256) mod 2 ^ 16 in (1, le_bytes 2 v)
         else if sz < 2 ^ 32 then (2, le_bytes 4 (sz mod 2 ^ 32))
         else (3, le_bytes 8 sz))
      in if known \<and> \<not> single \<and> sz < 256 then (2, le_bytes 4 (sz mod 2 ^ 32))
         else (fcs_flag, fcs_bytes))"

definition dict_field :: "nat option \<Rightarrow> u8 \<times> bytes" where
  "dict_field dict_id =
     (case nonzero_id dict_id of
        None \<Rightarrow> (0, [])
      | Some did \<Rightarrow> if did < 256 then (1, [word_of_nat did])
                   else if did < 65536 then (2, le_bytes 2 (did mod 2 ^ 16))
                   else (3, le_bytes 4 did))"

definition header_single :: "nat \<Rightarrow> nat \<Rightarrow> nat option \<Rightarrow> bool \<Rightarrow> bool" where
  "header_single src_len window_log pledged ext_hist =
     (let window = 2 ^ min window_log 31;
          size = (case pledged of None \<Rightarrow> src_len | Some p \<Rightarrow> p)
      in pledged \<noteq> None \<and> size \<le> window \<and> \<not> ext_hist)"

definition header_desc :: "u8 \<Rightarrow> bool \<Rightarrow> bool \<Rightarrow> u8 \<Rightarrow> u8" where
  "header_desc fcs_flag single checksum dict_flag =
     (let desc = push_bit 6 fcs_flag;
          desc = (if single then desc OR 0x20 else desc);
          desc = (if checksum then desc OR 0x04 else desc)
      in desc OR dict_flag)"

definition write_frame_header ::
  "bytes \<Rightarrow> nat \<Rightarrow> nat \<Rightarrow> bool \<Rightarrow> nat option \<Rightarrow> nat option \<Rightarrow> bool \<Rightarrow> bytes" where
  "write_frame_header out src_len window_log checksum pledged dict_id ext_hist =
     (let size = (case pledged of None \<Rightarrow> src_len | Some p \<Rightarrow> p);
          known = (pledged \<noteq> None);
          single = header_single src_len window_log pledged ext_hist;
          (fcs_flag, fcs_bytes) = fcs_field size known single;
          (dict_flag, dict_bytes) = dict_field dict_id;
          desc = header_desc fcs_flag single checksum dict_flag;
          win = (if single then [] else [word_of_nat (push_bit 3 (min (window_log - 10) 31))])
      in out @ le_bytes 4 MAGIC @ [desc] @ win @ dict_bytes @ fcs_bytes)"


section \<open>Properties of the block header\<close>

lemma block_header_word_eq:
  assumes "sz < 2 ^ 29"
  shows "block_header_word is_last ty sz =
    of_bool is_last + 2 * (case ty of BtRaw \<Rightarrow> 0 | BtRle \<Rightarrow> 1 | BtCompressed \<Rightarrow> 2) + 8 * sz"
proof -
  let ?t = "(case ty of BtRaw \<Rightarrow> 0 | BtRle \<Rightarrow> 1 | BtCompressed \<Rightarrow> 2) :: nat"
  have t: "?t < 3" by (cases ty) auto
  have 1: "of_bool is_last OR push_bit 1 ?t = of_bool is_last + 2 * ?t"
    using or_push_bit_add [of "of_bool is_last" 1 ?t] by (simp split: if_splits)
  have 2: "of_bool is_last + 2 * ?t < 2 ^ 3"
    using t by (cases is_last) auto
  have 3: "push_bit 3 sz mod 2 ^ 32 = push_bit 3 sz"
    using assms by (simp add: push_bit_eq_mult)
  have "(of_bool is_last OR push_bit 1 ?t) OR push_bit 3 sz = of_bool is_last + 2 * ?t + 8 * sz"
    using or_push_bit_add [OF 2, of sz] by (simp only: 1) simp
  then show ?thesis by (simp only: block_header_word_def Let_def 3 or.assoc)
qed

lemma write_block_header_bytes:
  "write_block_header out is_last ty sz = out @ le_bytes 3 (block_header_word is_last ty sz)"
  by (simp add: write_block_header_def Let_def numeral_3_eq_3 drop_bit_eq_div div_mult2_eq [symmetric])

lemma written_block_header_parses:
  assumes "sz < 2 ^ 21" "rd_wf r" "rd_rest r = write_block_header [] is_last ty sz @ bs"
  shows "parse_block_header r = Inr (\<lparr> bh_last = is_last, bh_ty = ty, bh_size = sz \<rparr>, rd_skip 3 r)
    \<and> rd_rest (rd_skip 3 r) = bs"
proof -
  let ?t = "(case ty of BtRaw \<Rightarrow> 0 | BtRle \<Rightarrow> 1 | BtCompressed \<Rightarrow> 2) :: nat"
  define n where "n = block_header_word is_last ty sz"
  have n: "n = of_bool is_last + 2 * ?t + 8 * sz"
    using assms(1) by (simp add: n_def block_header_word_eq)
  have t: "?t < 3" by (cases ty) auto
  then have "n < 256 ^ 3" using assms(1) by (simp add: n)
  moreover have "rd_rest r = le_bytes 3 n @ bs"
    using assms(3) by (simp add: write_block_header_bytes n_def)
  ultimately have 1: "rd_u24_le r = Inr (n, rd_skip 3 r)" and 2: "rd_rest (rd_skip 3 r) = bs"
    using f24.rd_written [OF assms(2)] by auto
  have "(n AND 1 \<noteq> 0) = is_last"
  proof -
    have "odd n = is_last" by (simp add: n)
    then show ?thesis by (simp add: and_one_eq odd_iff_mod_2_eq_one)
  qed
  moreover have "drop_bit 1 n AND 3 = ?t"
  proof -
    have "drop_bit 1 n = ?t + 4 * sz" by (simp add: drop_bit_eq_div n)
    moreover have "(?t + 4 * sz) AND 3 = (?t + 4 * sz) mod 4"
      using take_bit_eq_mask [of 2 "?t + 4 * sz"] by (simp add: mask_eq_exp_minus_1 take_bit_eq_mod)
    ultimately show ?thesis using t by simp
  qed
  moreover have "drop_bit 3 n = sz"
    using t by (cases is_last) (simp_all add: drop_bit_eq_div n)
  ultimately show ?thesis
    using 2 by (simp add: parse_block_header_def 1 Let_def) (cases ty; simp)
qed

text \<open>The three bytes the encoder writes as a block header parse back to the same flag, type
  and size, for every size below 2^21, and nothing after them is consumed.\<close>

theorem block_header_roundtrip:
  assumes "sz < 2 ^ 21" "rd_wf r" "rd_rest r = write_block_header [] is_last ty sz @ bs"
  shows "parse_block_header r = Inr (\<lparr> bh_last = is_last, bh_ty = ty, bh_size = sz \<rparr>, rd_skip 3 r)
    \<and> rd_rest (rd_skip 3 r) = bs"
  using assms by (rule written_block_header_parses)

theorem block_header_roundtrip_witness:
  "parse_block_header (rd_new [0x1D, 0, 0, 9]) =
     Inr (\<lparr> bh_last = True, bh_ty = BtCompressed, bh_size = 3 \<rparr>, rd_skip 3 (rd_new [0x1D, 0, 0, 9]))"
  using block_header_roundtrip [of 3 "rd_new [0x1D, 0, 0, 9]" True BtCompressed "[9]"]
  by (simp add: write_block_header_def block_header_word_def)

section \<open>Properties of the frame header\<close>

lemma window_size_bounds:
  "window_size_from_desc d = Inr ((8 + unat d mod 8) * 2 ^ (7 + unat d div 8))
   \<and> 2 ^ 10 \<le> (8 + unat d mod 8) * 2 ^ (7 + unat d div 8)
   \<and> (8 + unat d mod 8) * 2 ^ (7 + unat d div 8) \<le> 15 * 2 ^ 38"
proof -
  define e where "e = unat d div 8"
  define m where "m = unat d mod 8"
  have e: "e \<le> 31" using unat_u8_less [of d] unfolding e_def by arith
  have m: "m \<le> 7" by (simp add: m_def less_Suc_eq_le [symmetric])
  have 1: "unat (drop_bit 3 d) = e" by (simp only: e_def unat_drop_bit_eq) (simp add: drop_bit_eq_div)
  have 2: "unat (d AND 7) = m"
    using take_bit_eq_mask [of 3 "unat d"]
    by (simp add: m_def unsigned_and_eq mask_eq_exp_minus_1 take_bit_eq_mod)
  have pe: "(2 :: nat) ^ e \<le> 2 ^ 31" using e by (rule power_increasing) simp
  have val: "2 ^ (10 + e) + m * 2 ^ (10 + e - 3) = (8 + m) * 2 ^ (7 + e)"
    by (simp add: power_add algebra_simps)
  have hi: "(8 + m) * 2 ^ (7 + e) \<le> 15 * 2 ^ 38"
    using mult_le_mono [OF _ pe, of "8 + m" 15] m by (simp add: power_add mult.commute)
  have lo: "2 ^ 10 \<le> (8 + m) * 2 ^ (7 + e)"
    using mult_le_mono [of 8 "8 + m" "2 ^ 7" "2 ^ (7 + e)"] by (simp add: power_add)
  have "sat_add U32_MAX 10 e = 10 + e" using e by (simp add: sat_add_def U32_MAX_def)
  moreover have "sat_add U64_MAX (2 ^ (10 + e)) (m * 2 ^ (10 + e - 3)) = (8 + m) * 2 ^ (7 + e)"
    using hi by (simp only: sat_add_def val U64_MAX_def) simp
  ultimately have "window_size_from_desc d = Inr ((8 + m) * 2 ^ (7 + e))"
    using e by (simp add: window_size_from_desc_def 1 2 Let_def)
  then show ?thesis using lo hi by (simp add: e_def m_def)
qed

text \<open>A window descriptor always denotes a window, the value of RFC 8878, and the window is
  between 1 KiB and 3.75 TiB: the overflow guard and the saturating addition are never reached.\<close>

theorem window_size_exact:
  "window_size_from_desc d = Inr ((8 + unat d mod 8) * 2 ^ (7 + unat d div 8))
   \<and> 2 ^ 10 \<le> (8 + unat d mod 8) * 2 ^ (7 + unat d div 8)
   \<and> (8 + unat d mod 8) * 2 ^ (7 + unat d div 8) \<le> 15 * 2 ^ 38"
  by (rule window_size_bounds)

lemma parse_window_desc_ok:
  assumes "rd_wf r" "parse_window_desc single r = Inr (w, r')"
  shows "advanced r (of_bool (\<not> single)) (of_bool (\<not> single)) r'" "single \<longleftrightarrow> w = None"
  using assms
  by (auto simp: parse_window_desc_def res_simps advanced_refl split: if_splits
      intro: f8.rd_advanced)

lemma nonzero_id_props:
  "nonzero_id m \<noteq> Some 0"
  "case m of None \<Rightarrow> True | Some v \<Rightarrow> P v \<Longrightarrow>
     case nonzero_id m of None \<Rightarrow> True | Some v \<Rightarrow> P v"
  by (auto simp: nonzero_id_def split: option.splits)

lemma parse_dict_id_ok:
  assumes "rd_wf r" "parse_dict_id flag r = Inr (d, r')"
  shows "advanced r 0 4 r'" "d \<noteq> Some 0" "case d of None \<Rightarrow> True | Some v \<Rightarrow> v < 2 ^ 32"
proof -
  obtain m where m: "d = nonzero_id m"
    and p: "(if flag = 0 then Inr (None, r)
        else if flag = 1 then rbind (rd_u8 r) (\<lambda>(b, r). Inr (Some (unat b), r))
        else if flag = 2 then rbind (rd_u16_le r) (\<lambda>(v, r). Inr (Some v, r))
        else if flag = 3 then rbind (rd_u32_le r) (\<lambda>(v, r). Inr (Some v, r))
        else Inl BadMagic) = Inr (m, r')"
    using assms(2) by (auto simp: parse_dict_id_def rbind_Inr_iff)
  show "advanced r 0 4 r'"
    using p assms(1) by (auto simp: rbind_Inr_iff advanced_refl split: if_splits intro: rd_advanced)
  show "d \<noteq> Some 0" unfolding m by (rule nonzero_id_props)
  have "case m of None \<Rightarrow> True | Some v \<Rightarrow> v < 2 ^ 32"
    using p assms(1) by (auto simp: rbind_Inr_iff split: if_splits dest: rd_bounds)
  then show "case d of None \<Rightarrow> True | Some v \<Rightarrow> v < 2 ^ 32"
    unfolding m by (rule nonzero_id_props)
qed

lemma parse_content_size_ok:
  assumes "rd_wf r" "parse_content_size flag single r = Inr (c, r')"
  shows "advanced r (of_bool single) 8 r'" "single \<Longrightarrow> c \<noteq> None"
    "case c of None \<Rightarrow> True | Some v \<Rightarrow> v < 2 ^ 64"
  using assms
  by (auto simp: parse_content_size_def res_simps advanced_refl
      split: if_splits option.splits intro: rd_advanced dest: rd_bounds)

lemma zstd_header_fields:
  assumes "rd_wf r" "parse_zstd_header r = Inr (h, r')"
  shows "advanced r 2 14 r' \<and> fh_dict_id h \<noteq> Some 0
    \<and> (case fh_dict_id h of None \<Rightarrow> True | Some d \<Rightarrow> d < 2 ^ 32)
    \<and> (case fh_content_size h of None \<Rightarrow> True | Some c \<Rightarrow> c < 2 ^ 64)
    \<and> fh_window_size h < 2 ^ 64
    \<and> (if fh_single_segment h then fh_content_size h = Some (fh_window_size h)
       else 2 ^ 10 \<le> fh_window_size h)"
proof -
  obtain desc r1 where 1: "rd_u8 r = Inr (desc, r1)" using assms(2)
    by (cases "rd_u8 r") (auto simp: parse_zstd_header_def)
  define single where "single \<longleftrightarrow> desc AND 0x20 \<noteq> 0"
  obtain w r2 where 2: "parse_window_desc single r1 = Inr (w, r2)"
    using assms(2) by (auto simp: parse_zstd_header_def 1 Let_def rbind_Inr_iff single_def split: if_splits)
  obtain d r3 where 3: "parse_dict_id (desc AND 0x03) r2 = Inr (d, r3)" "fh_dict_id h = d"
    and c: "parse_content_size (drop_bit 6 desc) single r3 = Inr (fh_content_size h, r')"
    and ws: "(if single then Inr (case fh_content_size h of None \<Rightarrow> 0 | Some s \<Rightarrow> s)
        else window_size_from_desc (case w of None \<Rightarrow> 0 | Some d \<Rightarrow> d)) = Inr (fh_window_size h)"
    and s: "fh_single_segment h = single"
    using assms(2) 2
    by (auto simp: parse_zstd_header_def 1 Let_def rbind_Inr_iff single_def split: if_splits)
  have a1: "advanced r 1 1 r1" using f8.rd_advanced [OF assms(1) 1] by simp
  then have w1: "rd_wf r1" using assms(1) by (rule advanced_wf [rotated])
  note a2 = parse_window_desc_ok [OF w1 2]
  then have w2: "rd_wf r2" using w1 by (blast intro: advanced_wf)
  note a3 = parse_dict_id_ok [OF w2 3(1)]
  then have w3: "rd_wf r3" using w2 by (blast intro: advanced_wf)
  note a4 = parse_content_size_ok [OF w3 c]
  have "advanced r (1 + of_bool (\<not> single) + 0 + of_bool single) (1 + of_bool (\<not> single) + 4 + 8) r'"
    using a1 a2(1) a3(1) a4(1) by (blast intro: advanced_trans)
  then have adv: "advanced r 2 14 r'" by (rule advanced_mono) auto
  show ?thesis
  proof (cases single)
    case True
    then obtain x where "fh_content_size h = Some x" using a4(2) by auto
    then show ?thesis using adv a3 a4 ws s True by (simp add: 3)
  next
    case False
    then show ?thesis
      using adv a3 a4 ws s window_size_bounds [of "case w of None \<Rightarrow> 0 | Some d \<Rightarrow> d"] by (auto simp: 3)
  qed
qed

text \<open>What an accepted frame header satisfies. It takes 2 to 14 bytes, all inside the slice;
  a Dictionary_ID is never 0; every field fits its width; a single-segment frame has its content
  size as window, any other a window of at least 1 KiB.\<close>

theorem parse_zstd_header_ok:
  assumes "rd_wf r" "parse_zstd_header r = Inr (h, r')"
  shows "advanced r 2 14 r' \<and> fh_dict_id h \<noteq> Some 0
    \<and> (case fh_dict_id h of None \<Rightarrow> True | Some d \<Rightarrow> d < 2 ^ 32)
    \<and> (case fh_content_size h of None \<Rightarrow> True | Some c \<Rightarrow> c < 2 ^ 64)
    \<and> fh_window_size h < 2 ^ 64
    \<and> (if fh_single_segment h then fh_content_size h = Some (fh_window_size h)
       else 2 ^ 10 \<le> fh_window_size h)"
  using assms by (rule zstd_header_fields)

theorem parse_zstd_header_ok_witness:
  "advanced (rd_new [0x21, 7, 5, 9]) 2 14 (rd_skip 3 (rd_new [0x21, 7, 5, 9]))"
proof -
  let ?r = "rd_new [0x21, 7, 5, 9]"
  have 1: "rd_wf ?r" by simp
  have 2: "parse_zstd_header ?r = Inr (\<lparr> fh_window_size = 5, fh_dict_id = Some 7,
      fh_content_size = Some 5, fh_checksum = False, fh_single_segment = True \<rparr>, rd_skip 3 ?r)"
    by code_simp
  show ?thesis using parse_zstd_header_ok [OF 1 2] by blast
qed

section \<open>The encoder's header parses back\<close>

lemma header_desc_fields:
  assumes "f \<in> {0, 1, 2, 3}" "d \<in> {0, 1, 2, 3}"
  shows "drop_bit 6 (header_desc f s c d) = f" "(header_desc f s c d AND 0x20 \<noteq> 0) = s"
    "header_desc f s c d AND 0x08 = 0" "(header_desc f s c d AND 0x04 \<noteq> 0) = c"
    "header_desc f s c d AND 0x03 = d"
  using assms by (cases s; cases c; auto simp: header_desc_def)+

lemma fcs_field_flag: "fst (fcs_field sz known single) \<in> {0, 1, 2, 3}"
  by (simp add: fcs_field_def Let_def)

lemma dict_field_flag: "fst (dict_field d) \<in> {0, 1, 2, 3}"
  by (simp add: dict_field_def split: option.splits)

lemma written_u8:
  assumes "rd_wf r" "rd_rest r = word_of_nat x # bs" "x < 256"
  shows "\<exists>b. rd_u8 r = Inr (b, rd_skip 1 r) \<and> unat b = x"
  using rd_u8_Cons(1) [OF assms(1,2)] assms(3) by simp

lemma fcs_field_parses:
  assumes "rd_wf r" "rd_rest r = snd (fcs_field sz known single) @ bs" "sz < 2 ^ 64" "single \<longrightarrow> known"
  shows "parse_content_size (fst (fcs_field sz known single)) single r =
     Inr (if known then Some sz else None, rd_skip (length (snd (fcs_field sz known single))) r)"
proof -
  consider "\<not> known" | "known" "single" "sz < 256" | "known" "\<not> (single \<and> sz < 256)" "256 \<le> sz" "sz < 65792"
    | "known" "sz < 256" "\<not> single" | "known" "65792 \<le> sz" "sz < 2 ^ 32" | "known" "2 ^ 32 \<le> sz"
    by fastforce
  then show ?thesis
  proof cases
    case 1
    then show ?thesis using assms by (simp add: fcs_field_def parse_content_size_def)
  next
    case 2
    then show ?thesis using assms written_u8 [of r sz bs]
      by (auto simp: fcs_field_def parse_content_size_def)
  next
    case 3
    define v where "v = (sz mod 2 ^ 16 + 2 ^ 16 - 256) mod 2 ^ 16"
    have v: "v + 256 = sz" "v < 256 ^ 2"
      using 3 by (auto simp: v_def mod_if)
    have f: "fcs_field sz known single = (1, le_bytes 2 v)"
      using 3 by (auto simp: fcs_field_def v_def Let_def)
    show ?thesis using 3 v assms f16.rd_written(1) [OF assms(1), of v bs]
      unfolding f by (simp add: parse_content_size_def)
  next
    case 4
    then have f: "fcs_field sz known single = (2, le_bytes 4 sz)"
      by (auto simp: fcs_field_def Let_def)
    show ?thesis using 4 assms f32.rd_written(1) [OF assms(1), of sz bs]
      unfolding f by (simp add: parse_content_size_def)
  next
    case 5
    then have f: "fcs_field sz known single = (2, le_bytes 4 sz)"
      by (auto simp: fcs_field_def Let_def)
    show ?thesis using 5 assms f32.rd_written(1) [OF assms(1), of sz bs]
      unfolding f by (simp add: parse_content_size_def)
  next
    case 6
    then have f: "fcs_field sz known single = (3, le_bytes 8 sz)"
      by (auto simp: fcs_field_def Let_def)
    show ?thesis using 6 assms f64.rd_written(1) [OF assms(1), of sz bs]
      unfolding f by (simp add: parse_content_size_def)
  qed
qed

lemma dict_field_parses:
  assumes "rd_wf r" "rd_rest r = snd (dict_field d) @ bs" "case d of None \<Rightarrow> True | Some v \<Rightarrow> v < 2 ^ 32"
  shows "parse_dict_id (fst (dict_field d)) r =
     Inr (nonzero_id d, rd_skip (length (snd (dict_field d))) r)"
proof (cases "nonzero_id d")
  case None
  then show ?thesis using assms by (simp add: dict_field_def parse_dict_id_def nonzero_id_def)
next
  case (Some v)
  then have d: "d = Some v" "v \<noteq> 0" "v < 2 ^ 32"
    using assms(3) by (auto simp: nonzero_id_def split: option.splits if_splits)
  consider "v < 256" | "256 \<le> v" "v < 65536" | "65536 \<le> v" by fastforce
  then show ?thesis
  proof cases
    case 1
    then show ?thesis using assms(2) Some d written_u8 [OF assms(1), of v bs]
      by (auto simp: dict_field_def parse_dict_id_def nonzero_id_def)
  next
    case 2
    then have f: "dict_field d = (2, le_bytes 2 v)" by (simp add: dict_field_def Some)
    show ?thesis using 2 d assms(2) f16.rd_written(1) [OF assms(1), of v bs]
      unfolding f by (simp add: parse_dict_id_def nonzero_id_def)
  next
    case 3
    then have f: "dict_field d = (3, le_bytes 4 v)" by (simp add: dict_field_def Some)
    show ?thesis using 3 d assms(2) f32.rd_written(1) [OF assms(1), of v bs]
      unfolding f by (simp add: parse_dict_id_def nonzero_id_def)
  qed
qed

text \<open>The header the decoder should see for the arguments of \<open>write_frame_header\<close>.\<close>

definition intended_header ::
  "nat \<Rightarrow> nat \<Rightarrow> bool \<Rightarrow> nat option \<Rightarrow> nat option \<Rightarrow> bool \<Rightarrow> frame_header" where
  "intended_header src_len window_log checksum pledged dict_id ext_hist =
     (let single = header_single src_len window_log pledged ext_hist
      in \<lparr> fh_window_size =
             (if single then (case pledged of None \<Rightarrow> 0 | Some s \<Rightarrow> s) else 2 ^ (10 + min (window_log - 10) 31)),
           fh_dict_id = nonzero_id dict_id, fh_content_size = pledged,
           fh_checksum = checksum, fh_single_segment = single \<rparr>)"

lemma window_size_written:
  assumes "e \<le> 31"
  shows "window_size_from_desc (word_of_nat (push_bit 3 e)) = Inr (2 ^ (10 + e))"
proof -
  have "unat (word_of_nat (push_bit 3 e) :: u8) = 8 * e"
    using assms by (simp only: unat_word8_of_nat) (simp add: push_bit_eq_mult)
  then show ?thesis
    using window_size_bounds [of "word_of_nat (push_bit 3 e)"] by (simp add: power_add)
qed

lemma written_header_parses:
  assumes "rd_wf r"
    and "rd_rest r = write_frame_header [] src_len window_log checksum pledged dict_id ext_hist @ bs"
    and "case pledged of None \<Rightarrow> True | Some s \<Rightarrow> s < 2 ^ 64"
    and "case dict_id of None \<Rightarrow> True | Some d \<Rightarrow> d < 2 ^ 32"
  shows "\<exists>r'. parse_kind r =
      Inr (FkZstd (intended_header src_len window_log checksum pledged dict_id ext_hist), r')
    \<and> rd_rest r' = bs"
proof -
  define sz where "sz = (case pledged of None \<Rightarrow> src_len | Some p \<Rightarrow> p)"
  define known where "known \<longleftrightarrow> pledged \<noteq> None"
  define single where "single = header_single src_len window_log pledged ext_hist"
  define ff where "ff = fcs_field sz known single"
  define df where "df = dict_field dict_id"
  define e where "e = min (window_log - 10) 31"
  define desc where "desc = header_desc (fst ff) single checksum (fst df)"
  define win :: bytes where "win = (if single then [] else [word_of_nat (push_bit 3 e)])"
  have sk: "single \<longrightarrow> known" by (simp add: single_def header_single_def known_def Let_def)
  define r4 where "r4 = rd_skip 4 r"
  define r5 where "r5 = rd_skip 1 r4"
  define r6 where "r6 = rd_skip (length win) r5"
  define r7 where "r7 = rd_skip (length (snd df)) r6"
  define r8 where "r8 = rd_skip (length (snd ff)) r7"
  have rest: "rd_rest r = le_bytes 4 MAGIC @ desc # win @ snd df @ snd ff @ bs"
    using assms(2) by (simp add: write_frame_header_def Let_def ff_def df_def desc_def win_def
        single_def known_def sz_def e_def case_prod_beta)
  have magic: "rd_u32_le r = Inr (MAGIC, r4)" and rest4: "rd_rest r4 = desc # win @ snd df @ snd ff @ bs"
    and wf4: "rd_wf r4"
    using f32.rd_written [OF assms(1) rest] by (simp_all add: MAGIC_def r4_def)
  note d = rd_u8_Cons [OF wf4 rest4, folded r5_def]
  have w: "parse_window_desc single r5 =
      Inr (if single then None else Some (word_of_nat (push_bit 3 e)), r6)"
    using d rd_u8_Cons(1) [OF d(3)] by (auto simp: parse_window_desc_def win_def r6_def)
  have rest6: "rd_rest r6 = snd df @ snd ff @ bs" and wf6: "rd_wf r6"
    using d by (auto simp: r6_def rd_skip_rest intro: rd_skip_wf)
  have dd: "parse_dict_id (fst df) r6 = Inr (nonzero_id dict_id, r7)"
    using dict_field_parses [OF wf6 rest6 [unfolded df_def] assms(4)] by (simp add: r7_def df_def)
  have rest7: "rd_rest r7 = snd ff @ bs" and wf7: "rd_wf r7"
    using rest6 wf6 by (auto simp: r7_def rd_skip_rest intro: rd_skip_wf)
  have szok: "known \<Longrightarrow> sz < 2 ^ 64" using assms(3) by (auto simp: known_def sz_def)
  have cs: "parse_content_size (fst ff) single r7 = Inr (pledged, r8)"
  proof (cases pledged)
    case None
    then show ?thesis
      using sk by (simp add: ff_def known_def fcs_field_def parse_content_size_def r8_def)
  next
    case (Some p)
    then show ?thesis
      using fcs_field_parses [OF wf7 rest7 [unfolded ff_def] _ sk] szok
      by (simp add: r8_def ff_def known_def sz_def)
  qed
  have rest8: "rd_rest r8 = bs" using rest7 by (simp add: r8_def rd_skip_rest)
  note flags = header_desc_fields [of "fst ff" "fst df" single checksum, folded desc_def,
    OF fcs_field_flag [of sz known single, folded ff_def] dict_field_flag [of dict_id, folded df_def]]
  define ws where "ws = (if single then (case pledged of None \<Rightarrow> 0 | Some s \<Rightarrow> s) else 2 ^ (10 + e))"
  have "e \<le> 31" by (simp add: e_def)
  then have "(if single then Inr (case pledged of None \<Rightarrow> 0 | Some s \<Rightarrow> s)
      else window_size_from_desc (case if single then None else Some (word_of_nat (push_bit 3 e)) of
        None \<Rightarrow> 0 | Some d \<Rightarrow> d)) = Inr ws"
    by (simp add: window_size_written ws_def)
  then have "parse_zstd_header r4 = Inr (\<lparr> fh_window_size = ws, fh_dict_id = nonzero_id dict_id,
      fh_content_size = pledged, fh_checksum = checksum, fh_single_segment = single \<rparr>, r8)"
    by (simp add: parse_zstd_header_def Let_def d(1) flags w dd cs)
  also have "\<dots> = Inr (intended_header src_len window_log checksum pledged dict_id ext_hist, r8)"
    by (simp add: intended_header_def Let_def single_def ws_def e_def)
  finally have "parse_zstd_header r4 =
      Inr (intended_header src_len window_log checksum pledged dict_id ext_hist, r8)" .
  then have "parse_kind r =
      Inr (FkZstd (intended_header src_len window_log checksum pledged dict_id ext_hist), r8)"
    by (simp add: parse_kind_def magic)
  then show ?thesis using rest8 by blast
qed

text \<open>C30: the frame header the encoder writes parses back to exactly the fields it was asked to
  write, whatever the sizes, Dictionary_ID, checksum flag, window and history flag, and the parser
  stops at its last byte. The window a decoder must hold is the content size of a single-segment
  frame and otherwise the encoder's window, never less than 1 KiB.\<close>

theorem frame_header_roundtrip:
  assumes "rd_wf r"
    and "rd_rest r = write_frame_header [] src_len window_log checksum pledged dict_id ext_hist @ bs"
    and "case pledged of None \<Rightarrow> True | Some s \<Rightarrow> s < 2 ^ 64"
    and "case dict_id of None \<Rightarrow> True | Some d \<Rightarrow> d < 2 ^ 32"
  shows "\<exists>r'. parse_kind r =
      Inr (FkZstd (intended_header src_len window_log checksum pledged dict_id ext_hist), r')
    \<and> rd_rest r' = bs"
  using assms by (rule written_header_parses)

theorem frame_header_roundtrip_witness:
  "\<exists>r'. parse_kind (rd_new (write_frame_header [] 0 21 True (Some 300) (Some 70000) True @ [7])) =
      Inr (FkZstd \<lparr> fh_window_size = 2 ^ 21, fh_dict_id = Some 70000, fh_content_size = Some 300,
        fh_checksum = True, fh_single_segment = False \<rparr>, r') \<and> rd_rest r' = [7]"
  using frame_header_roundtrip [of "rd_new (write_frame_header [] 0 21 True (Some 300) (Some 70000) True @ [7])"
    0 21 True "Some 300" "Some 70000" True "[7]"]
  by (simp add: write_frame_header_def fcs_field_def dict_field_def header_single_def Let_def
      intended_header_def nonzero_id_def)

end
