(* ===== verification/Xxh64.thy ===== *)
theory Xxh64
  imports Zstd_Prelude
begin

text \<open>
  The content checksum, \<^verbatim>\<open>xxh64.rs\<close>: the one-shot \<open>xxh64_seed\<close> with its tile kernel and its scalar
  stripe walk, and the incremental state \<open>Xxh64\<close> every decoder and encoder path drives. The
  reference is one stripe loop; the lemmas show that each kernel, the tile walk, the 128-byte walk and the
  incremental state all compute it, and that it is the hash of the specification, written out apart
  from the code (\<open>xxh64_spec\<close>) and evaluated on published answers.
\<close>

section \<open>Primitives\<close>

definition XP1 :: u64 where "XP1 = 0x9E3779B185EBCA87"
definition XP2 :: u64 where "XP2 = 0xC2B2AE3D27D4EB4F"
definition XP3 :: u64 where "XP3 = 0x165667B19E3779F9"
definition XP4 :: u64 where "XP4 = 0x85EBCA77C2B2AE63"
definition XP5 :: u64 where "XP5 = 0x27D4EB2F165667C5"

definition xx_round :: "u64 \<Rightarrow> u64 \<Rightarrow> u64" where
  "xx_round acc input = word_rotl 31 (acc + input * XP2) * XP1"

definition xx_merge :: "u64 \<Rightarrow> u64 \<Rightarrow> u64" where
  "xx_merge acc val = (acc XOR xx_round 0 val) * XP1 + XP4"

definition read_u64_at :: "bytes \<Rightarrow> nat \<Rightarrow> u64" where
  "read_u64_at s i = word_of_nat (le_nat (take 8 (drop i s)))"

definition read_u32_at :: "bytes \<Rightarrow> nat \<Rightarrow> nat" where
  "read_u32_at s i = le_nat (take 4 (drop i s))"

type_synonym lanes = "u64 \<times> u64 \<times> u64 \<times> u64"

fun stripe :: "lanes \<Rightarrow> bytes \<Rightarrow> nat \<Rightarrow> lanes" where
  "stripe (v1, v2, v3, v4) src off =
     (xx_round v1 (read_u64_at src off), xx_round v2 (read_u64_at src (off + 8)),
      xx_round v3 (read_u64_at src (off + 16)), xx_round v4 (read_u64_at src (off + 24)))"

section \<open>The pre-multiplying kernel\<close>

definition PRE_TILE :: nat where "PRE_TILE = 256"

text \<open>One 64-bit lane of the vector kernels: three 32-bit multiplies and a cross sum.\<close>

definition premul_lane :: "u64 \<Rightarrow> u64" where
  "premul_lane a =
     (let p2lo = XP2 AND 0xFFFFFFFF; p2hi = drop_bit 32 XP2;
          t0 = (a AND 0xFFFFFFFF) * p2lo;
          t1 = (a AND 0xFFFFFFFF) * p2hi;
          ah = drop_bit 32 a;
          t2 = ah * p2lo;
          cross = push_bit 32 (t1 + t2)
      in t0 + cross)"

definition premul_p2_avx2 :: "bytes \<Rightarrow> u64 list" where
  "premul_p2_avx2 tile =
     concat (map (\<lambda>i. map (\<lambda>j. premul_lane (read_u64_at tile (i * 32 + j * 8))) [0..<4])
       [0..<PRE_TILE div 32])"

definition premul_p2_neon :: "bytes \<Rightarrow> u64 list" where
  "premul_p2_neon tile =
     concat (map (\<lambda>i. map (\<lambda>j. premul_lane (read_u64_at tile (i * 16 + j * 8))) [0..<2])
       [0..<PRE_TILE div 16])"

definition round_pre :: "u64 \<Rightarrow> u64 \<Rightarrow> u64" where
  "round_pre acc pre = word_rotl 31 (acc + pre) * XP1"

text \<open>\<^verbatim>\<open>slice::chunks_exact\<close>: whole chunks of \<open>k\<close>, the remainder dropped.\<close>

function chunks_exact :: "nat \<Rightarrow> 'a list \<Rightarrow> 'a list list" where
  "chunks_exact k xs = (if k = 0 \<or> length xs < k then [] else take k xs # chunks_exact k (drop k xs))"
  by auto
termination by (relation "measure (\<lambda>(k, xs). length xs)") auto

declare chunks_exact.simps [simp del]

fun pre_step :: "u64 list \<Rightarrow> nat \<Rightarrow> lanes \<Rightarrow> lanes" where
  "pre_step pre k (v1, v2, v3, v4) =
     (round_pre v1 (pre ! k), round_pre v2 (pre ! (k + 1)),
      round_pre v3 (pre ! (k + 2)), round_pre v4 (pre ! (k + 3)))"

definition stripes_pre :: "(bytes \<Rightarrow> u64 list) \<Rightarrow> bytes \<Rightarrow> lanes \<Rightarrow> nat \<times> lanes" where
  "stripes_pre premul input v =
     (let n = (length input div PRE_TILE) * PRE_TILE
      in if n = 0 then (0, v)
         else (n, fold (\<lambda>tile v. let pre = premul tile
                                 in fold (\<lambda>q. pre_step pre (4 * q)) [0..<PRE_TILE div 8 div 4] v)
                    (chunks_exact PRE_TILE (take n input)) v))"

text \<open>Which kernel a call runs: the build and the CPU decide.\<close>

datatype xx_arm = ArmAvx2 | ArmNeon | ArmScalar

fun stripes_hybrid :: "xx_arm \<Rightarrow> bytes \<Rightarrow> lanes \<Rightarrow> nat \<times> lanes" where
  "stripes_hybrid ArmAvx2 input v = stripes_pre premul_p2_avx2 input v"
| "stripes_hybrid ArmNeon input v = stripes_pre premul_p2_neon input v"
| "stripes_hybrid ArmScalar input v = (0, v)"

definition stripes_scalar :: "bytes \<Rightarrow> lanes \<Rightarrow> nat \<times> lanes" where
  "stripes_scalar input v =
     (let n128 = (length input div 128) * 128;
          v = fold (\<lambda>c v. stripe (stripe (stripe (stripe v c 0) c 32) c 64) c 96)
                (chunks_exact 128 (take n128 input)) v;
          n32 = (length input div 32) * 32;
          v = fold (\<lambda>c v. stripe v c 0) (chunks_exact 32 (take (n32 - n128) (drop n128 input))) v
      in (n32, v))"

definition stripes_all :: "xx_arm \<Rightarrow> bytes \<Rightarrow> lanes \<Rightarrow> bytes \<times> lanes" where
  "stripes_all arm input v =
     (let (done1, v) = stripes_hybrid arm input v;
          rest = drop done1 input;
          (done2, v) = stripes_scalar rest v
      in (drop done2 rest, v))"

section \<open>The finisher and the one-shot hash\<close>

function tail_words :: "bytes \<Rightarrow> u64 \<Rightarrow> bytes \<times> u64" where
  "tail_words tail acc =
     (if 8 \<le> length tail then
        let k1 = xx_round 0 (read_u64_at tail 0)
        in tail_words (drop 8 tail) (word_rotl 27 (acc XOR k1) * XP1 + XP4)
      else (tail, acc))"
  by auto
termination by (relation "measure (\<lambda>(tail, acc). length tail)") auto

declare tail_words.simps [simp del]

definition tail_quad :: "bytes \<Rightarrow> u64 \<Rightarrow> bytes \<times> u64" where
  "tail_quad tail acc =
     (if 4 \<le> length tail then
        let k1 = word_of_nat (read_u32_at tail 0)
        in (drop 4 tail, word_rotl 23 (acc XOR k1 * XP1) * XP2 + XP3)
      else (tail, acc))"

definition tail_byte :: "u8 \<Rightarrow> u64 \<Rightarrow> u64" where
  "tail_byte b acc = word_rotl 11 (acc XOR word_of_nat (unat b) * XP5) * XP1"

definition avalanche :: "u64 \<Rightarrow> u64" where
  "avalanche acc =
     (let acc = acc XOR drop_bit 33 acc;
          acc = acc * XP2;
          acc = acc XOR drop_bit 29 acc;
          acc = acc * XP3
      in acc XOR drop_bit 32 acc)"

definition finish_tail :: "bytes \<Rightarrow> u64 \<Rightarrow> u64 \<Rightarrow> u64" where
  "finish_tail tail acc tot =
     (let acc = acc + tot;
          (tail, acc) = tail_words tail acc;
          (tail, acc) = tail_quad tail acc;
          acc = fold tail_byte (take 3 tail) acc
      in avalanche acc)"

fun combine :: "lanes \<Rightarrow> u64" where
  "combine (v1, v2, v3, v4) =
     (let acc = word_rotl 1 v1 + word_rotl 7 v2 + word_rotl 12 v3 + word_rotl 18 v4;
          acc = xx_merge acc v1;
          acc = xx_merge acc v2;
          acc = xx_merge acc v3
      in xx_merge acc v4)"

definition xxh64_seed :: "xx_arm \<Rightarrow> bytes \<Rightarrow> u64 \<Rightarrow> u64" where
  "xxh64_seed arm input seed =
     (if 32 \<le> length input then
        let v = (seed + XP1 + XP2, seed + XP2, seed, seed - XP1);
            (rest, v) = stripes_all arm input v
        in finish_tail rest (combine v) (word_of_nat (length input))
      else finish_tail input (seed + XP5) (word_of_nat (length input)))"

definition xxh64 :: "xx_arm \<Rightarrow> bytes \<Rightarrow> u64" where
  "xxh64 arm input = xxh64_seed arm input 0"

definition content_checksum :: "xx_arm \<Rightarrow> bytes \<Rightarrow> nat" where
  "content_checksum arm data = unat (xxh64 arm data) mod 2 ^ 32"

section \<open>The incremental state\<close>

record xxh64_state =
  xs_total :: u64
  xs_v :: lanes
  xs_buf :: bytes
  xs_buf_len :: nat

text \<open>A fixed-width copy into a buffer, and \<open>copy_into_buf\<close>'s ladder of overlapping pairs.\<close>

definition blit :: "'a list \<Rightarrow> nat \<Rightarrow> 'a list \<Rightarrow> 'a list" where
  "blit buf i xs = take i buf @ xs @ drop (i + length xs) buf"

definition copy_pair :: "nat \<Rightarrow> 'a list \<Rightarrow> nat \<Rightarrow> 'a list \<Rightarrow> 'a list" where
  "copy_pair w buf i src =
     (let n = length src
      in blit (blit buf i (take w src)) (i + (n - w)) (take w (drop (n - w) src)))"

definition copy_into_buf :: "bytes \<Rightarrow> nat \<Rightarrow> bytes \<Rightarrow> bytes" where
  "copy_into_buf buf i src =
     (let n = length src
      in if 16 \<le> n then copy_pair 16 buf i src
         else if 8 \<le> n then copy_pair 8 buf i src
         else if 4 \<le> n then copy_pair 4 buf i src
         else if 2 \<le> n then copy_pair 2 buf i src
         else if n = 1 then buf[i := src ! 0]
         else buf)"

definition xx_new :: xxh64_state where
  "xx_new = \<lparr> xs_total = 0, xs_v = (XP1 + XP2, XP2, 0, 0 - XP1), xs_buf = replicate 32 0, xs_buf_len = 0 \<rparr>"

definition xx_update :: "xx_arm \<Rightarrow> bytes \<Rightarrow> xxh64_state \<Rightarrow> xxh64_state" where
  "xx_update arm data s =
     (let s = s\<lparr> xs_total := xs_total s + word_of_nat (length data) \<rparr>;
          buf_len = xs_buf_len s mod 32
      in if buf_len + length data < 32 then
           s\<lparr> xs_buf := copy_into_buf (xs_buf s) buf_len data, xs_buf_len := buf_len + length data \<rparr>
         else
           let v = xs_v s;
               (data, v, s) =
                 (if 0 < buf_len then
                    let tk = 32 - buf_len; hd = take tk data;
                        s = s\<lparr> xs_buf := copy_into_buf (xs_buf s) buf_len hd \<rparr>
                    in (drop tk data, stripe v (xs_buf s) 0, s\<lparr> xs_buf_len := 0 \<rparr>)
                  else (data, v, s));
               (rest, v) = stripes_all arm data v;
               s = (if rest \<noteq> [] then
                      let n = length rest mod 32
                      in s\<lparr> xs_buf := copy_into_buf (xs_buf s) 0 (take n rest), xs_buf_len := n \<rparr>
                    else s)
           in s\<lparr> xs_v := v \<rparr>)"

definition xx_digest :: "xxh64_state \<Rightarrow> u64" where
  "xx_digest s =
     (let rest = take (xs_buf_len s mod 32) (xs_buf s);
          acc = (if 32 \<le> unat (xs_total s) then combine (xs_v s) else XP5)
      in finish_tail rest acc (xs_total s))"

section \<open>The reference: one stripe loop\<close>

function stripes_ref :: "lanes \<Rightarrow> bytes \<Rightarrow> lanes" where
  "stripes_ref v s = (if length s < 32 then v else stripes_ref (stripe v s 0) (drop 32 s))"
  by auto
termination by (relation "measure (\<lambda>(v, s). length s)") auto

declare stripes_ref.simps [simp del]

definition init_lanes :: "u64 \<Rightarrow> lanes" where
  "init_lanes seed = (seed + XP1 + XP2, seed + XP2, seed, seed - XP1)"

definition xxh64_ref :: "bytes \<Rightarrow> u64 \<Rightarrow> u64" where
  "xxh64_ref input seed =
     (let acc = (if 32 \<le> length input then combine (stripes_ref (init_lanes seed) input) else seed + XP5);
          tail = drop (length input div 32 * 32) input;
          (tail, acc) = tail_words tail (acc + word_of_nat (length input));
          (tail, acc) = tail_quad tail acc
      in avalanche (fold tail_byte tail acc))"

lemma read_u64_drop: "read_u64_at (drop k s) i = read_u64_at s (k + i)"
  by (simp add: read_u64_at_def add.commute)

lemma read_u64_append: "i + 8 \<le> length s \<Longrightarrow> read_u64_at (s @ t) i = read_u64_at s i"
  by (simp add: read_u64_at_def)

lemma stripe_drop: "stripe v s off = stripe v (drop off s) 0"
  by (cases v) (simp add: read_u64_drop)

lemma stripe_append: "32 \<le> length s \<Longrightarrow> stripe v (s @ t) 0 = stripe v s 0"
  by (cases v) (simp add: read_u64_append)

lemma stripes_ref_short: "length s < 32 \<Longrightarrow> stripes_ref v s = v"
  by (simp add: stripes_ref.simps [of v s])

lemma stripes_ref_one: "length s = 32 \<Longrightarrow> stripes_ref v s = stripe v s 0"
  by (simp add: stripes_ref.simps [of v s] stripes_ref_short)

lemma stripes_ref_append:
  "32 dvd length a \<Longrightarrow> stripes_ref v (a @ b) = stripes_ref (stripes_ref v a) b"
proof (induction v a rule: stripes_ref.induct)
  case (1 v a)
  show ?case
  proof (cases "length a < 32")
    case True
    then have "a = []" using 1(2) by (auto dest: dvd_imp_le)
    then show ?thesis by (simp add: stripes_ref_short)
  next
    case False
    have "32 dvd length (drop 32 a)" using 1(2) by (simp add: dvd_diff_nat)
    then have "stripes_ref (stripe v a 0) (drop 32 a @ b) = stripes_ref (stripes_ref (stripe v a 0) (drop 32 a)) b"
      using 1(1) [OF False] by simp
    then show ?thesis
      using False by (simp add: stripes_ref.simps [of v "a @ b"] stripes_ref.simps [of v a] stripe_append)
  qed
qed

lemma stripes_ref_take: "stripes_ref v s = stripes_ref v (take (length s div 32 * 32) s)"
proof -
  have "stripes_ref v (take (length s div 32 * 32) s @ drop (length s div 32 * 32) s)
      = stripes_ref v (take (length s div 32 * 32) s)"
    by (subst stripes_ref_append) (simp_all add: stripes_ref_short minus_div_mult_eq_mod min_absorb1)
  then show ?thesis by simp
qed

lemma fold_stripes:
  "32 * m \<le> length s \<Longrightarrow> fold (\<lambda>q v. stripe v s (32 * q)) [0..<m] v = stripes_ref v (take (32 * m) s)"
proof (induction m)
  case 0
  then show ?case by (simp add: stripes_ref_short)
next
  case (Suc m)
  define c where "c = take 32 (drop (32 * m) s)"
  have c: "length c = 32" "drop (32 * m) s = c @ drop (32 + 32 * m) s"
    using Suc.prems by (simp_all add: c_def flip: drop_drop)
  have t: "take (32 * Suc m) s = take (32 * m) s @ c"
    unfolding c_def take_add [symmetric] by (simp add: add.commute)
  have "stripe w s (32 * m) = stripes_ref w c" for w
    using c by (simp add: stripe_drop [of w s "32 * m"] stripe_append stripes_ref_one)
  then show ?case
    using Suc unfolding t by (simp add: stripes_ref_append min_absorb2)
qed

lemma fold_chunks:
  assumes "0 < k" "32 dvd k" "\<And>c v. length c = k \<Longrightarrow> f c v = stripes_ref v c"
  shows "fold f (chunks_exact k xs) v = stripes_ref v (take (length xs div k * k) xs)"
  using assms
proof (induction k xs arbitrary: v rule: chunks_exact.induct)
  case (1 k xs)
  show ?case
  proof (cases "length xs < k")
    case True
    then show ?thesis by (simp add: chunks_exact.simps [of k xs] stripes_ref_short)
  next
    case False
    have len: "length (take k xs) = k" using False by simp
    have "length xs div k * k = k + length (drop k xs) div k * k"
      using False 1(2) by (simp add: le_div_geq)
    then have t: "take (length xs div k * k) xs = take k xs @ take (length (drop k xs) div k * k) (drop k xs)"
      by (simp add: take_add)
    have "fold f (chunks_exact k (drop k xs)) (f (take k xs) v) =
        stripes_ref (f (take k xs) v) (take (length (drop k xs) div k * k) (drop k xs))"
      using False 1 by auto
    then show ?thesis
      using False 1(2,3) 1(4) [OF len] len
      by (simp add: chunks_exact.simps [of k xs] t stripes_ref_append del: length_drop)
  qed
qed

section \<open>The kernels\<close>

lemma word64_split: "a = (a AND 0xFFFFFFFF) + push_bit 32 (drop_bit 32 (a :: u64))"
proof -
  have "(a AND 0xFFFFFFFF) = take_bit 32 a"
    using take_bit_eq_mask [of 32 a] by (simp add: mask_eq_exp_minus_1)
  then show ?thesis
    using bits_ident [of 32 a] by (simp add: add.commute)
qed

lemma premul_lane_mult: "premul_lane a = a * XP2"
proof -
  let ?al = "a AND 0xFFFFFFFF" and ?ah = "drop_bit 32 a"
  let ?bl = "XP2 AND 0xFFFFFFFF" and ?bh = "drop_bit 32 XP2"
  have z: "(2 :: u64) ^ 32 * (2 ^ 32 * x) = 0" for x
  proof -
    have "(2 :: u64) ^ 32 * (2 ^ 32 * x) = 2 ^ 64 * x" by (simp add: mult.assoc [symmetric])
    also have "(2 :: u64) ^ 64 = 0" by simp
    finally show ?thesis by simp
  qed
  have "a * XP2 = (?al + 2 ^ 32 * ?ah) * (?bl + 2 ^ 32 * ?bh)"
    using word64_split [of a] word64_split [of XP2] by (simp only: push_bit_eq_mult mult.commute)
  also have "\<dots> = ?al * ?bl + 2 ^ 32 * (?al * ?bh + ?ah * ?bl) + 2 ^ 32 * (2 ^ 32 * (?ah * ?bh))"
    by (simp only: distrib_left distrib_right mult_ac add_ac)
  also have "\<dots> = premul_lane a"
    by (simp only: z) (simp add: premul_lane_def Let_def push_bit_eq_mult mult.commute)
  finally show ?thesis by simp
qed

definition premul_ref :: "bytes \<Rightarrow> u64 list" where
  "premul_ref tile = map (\<lambda>i. read_u64_at tile (8 * i) * XP2) [0..<32]"

lemma premul_avx2_eq: "premul_p2_avx2 tile = premul_ref tile"
  by (simp add: premul_p2_avx2_def premul_ref_def PRE_TILE_def premul_lane_mult upt_conv_Cons)

lemma premul_neon_eq: "premul_p2_neon tile = premul_ref tile"
  by (simp add: premul_p2_neon_def premul_ref_def PRE_TILE_def premul_lane_mult upt_conv_Cons)

lemma pre_step_stripe: "q < 8 \<Longrightarrow> pre_step (premul_ref tile) (4 * q) v = stripe v tile (32 * q)"
  by (cases v) (simp add: premul_ref_def round_pre_def xx_round_def algebra_simps)

lemma stripes_pre_ref:
  assumes "\<And>t. length t = PRE_TILE \<Longrightarrow> premul t = premul_ref t"
  shows "stripes_pre premul input v =
     (length input div 256 * 256, stripes_ref v (take (length input div 256 * 256) input))"
proof -
  have tile: "fold (\<lambda>q. pre_step (premul t) (4 * q)) [0..<PRE_TILE div 8 div 4] w = stripes_ref w t"
    if "length t = 256" for t w
  proof -
    have "fold (\<lambda>q. pre_step (premul t) (4 * q)) [0..<8] w = fold (\<lambda>q v. stripe v t (32 * q)) [0..<8] w"
      using assms that by (intro fold_cong) (auto simp: PRE_TILE_def pre_step_stripe fun_eq_iff)
    then show ?thesis using fold_stripes [of 8 t w] that by (simp add: PRE_TILE_def)
  qed
  show ?thesis
    using fold_chunks [of 256 "\<lambda>t v. fold (\<lambda>q. pre_step (premul t) (4 * q)) [0..<PRE_TILE div 8 div 4] v"
        "take (length input div 256 * 256) input" v] tile
    by (auto simp: stripes_pre_def Let_def PRE_TILE_def stripes_ref_short min_absorb2 div_less_iff_less_mult)
qed

lemma stripes_hybrid_ref:
  obtains n where "n \<le> length input" "32 dvd n" "stripes_hybrid arm input v = (n, stripes_ref v (take n input))"
proof (cases arm)
  case ArmScalar
  show ?thesis by (rule that [of 0]) (simp_all add: ArmScalar stripes_ref_short)
next
  case ArmAvx2
  show ?thesis
    by (rule that [of "length input div 256 * 256"])
      (simp_all add: ArmAvx2 stripes_pre_ref premul_avx2_eq)
next
  case ArmNeon
  show ?thesis
    by (rule that [of "length input div 256 * 256"])
      (simp_all add: ArmNeon stripes_pre_ref premul_neon_eq)
qed

lemma stripes_scalar_ref:
  "stripes_scalar input v = (length input div 32 * 32, stripes_ref v input)"
proof -
  define a where "a = take (length input div 128 * 128) input"
  define b where "b = take (length input div 32 * 32 - length input div 128 * 128)
      (drop (length input div 128 * 128) input)"
  have 4: "stripe (stripe (stripe (stripe w c 0) c 32) c 64) c 96 = stripes_ref w c"
    if "length c = 128" for c w
    using fold_stripes [of 4 c w] that by (simp add: upt_conv_Cons)
  have la: "length a = length input div 128 * 128" by (simp add: a_def)
  have le: "length input div 128 * 128 \<le> length input div 32 * 32"
    using div_mult2_eq [of "length input" 32 4] by (simp add: mult.commute)
  have lb: "length b = length input div 32 * 32 - length input div 128 * 128"
    using le by (simp add: b_def)
  have d: "32 dvd length a" "32 dvd length b" unfolding lb by (simp_all add: la dvd_diff_nat dvd_mult)
  have ab: "a @ b = take (length input div 32 * 32) input"
    using le by (simp add: a_def b_def take_add [symmetric])
  have "fold (\<lambda>c v. stripe (stripe (stripe (stripe v c 0) c 32) c 64) c 96) (chunks_exact 128 a) v = stripes_ref v a"
    using fold_chunks [of 128 "\<lambda>c v. stripe (stripe (stripe (stripe v c 0) c 32) c 64) c 96" a v] 4
    by (simp add: la a_def)
  moreover have "fold (\<lambda>c v. stripe v c 0) (chunks_exact 32 b) w = stripes_ref w b" for w
    using fold_chunks [of 32 "\<lambda>c v. stripe v c 0" b w] stripes_ref_one d(2) by simp
  ultimately have "stripes_scalar input v = (length input div 32 * 32, stripes_ref (stripes_ref v a) b)"
    by (simp add: stripes_scalar_def Let_def a_def b_def)
  also have "stripes_ref (stripes_ref v a) b = stripes_ref v (a @ b)"
    using d(1) by (simp add: stripes_ref_append)
  finally show ?thesis using ab stripes_ref_take [of v input] by simp
qed

lemma stripes_all_ref:
  "stripes_all arm input v = (drop (length input div 32 * 32) input, stripes_ref v input)"
proof -
  obtain n where n: "n \<le> length input" "32 dvd n"
      "stripes_hybrid arm input v = (n, stripes_ref v (take n input))"
    by (rule stripes_hybrid_ref)
  obtain m where m: "n = 32 * m" using n(2) by (rule dvdE)
  define l where "l = length (drop n input)"
  have "length input = 32 * m + l" using n(1) by (simp add: l_def m)
  then have "n + length (drop n input) div 32 * 32 = length input div 32 * 32"
    unfolding l_def [symmetric] by (simp add: m)
  then show ?thesis
    using n stripes_ref_append [of "take n input" v "drop n input"]
    by (simp add: stripes_all_def stripes_scalar_ref min_absorb2 add.commute)
qed

lemma fold_tail_short:
  assumes "length tail < 32"
  shows "take 3 (fst (tail_quad (fst (tail_words tail acc)) acc')) = fst (tail_quad (fst (tail_words tail acc)) acc')"
proof -
  have "length (fst (tail_words t a)) < 8" for t a
    by (induction t a rule: tail_words.induct) (subst tail_words.simps, auto simp: Let_def)
  from this [of tail acc] show ?thesis by (simp add: tail_quad_def Let_def) arith
qed

lemma finish_tail_ref:
  "length tail < 32 \<Longrightarrow> finish_tail tail acc tot =
     (let (tail, acc) = tail_words tail (acc + tot); (tail, acc) = tail_quad tail acc
      in avalanche (fold tail_byte tail acc))"
  using fold_tail_short [of tail "acc + tot"]
  by (simp add: finish_tail_def Let_def case_prod_beta)

lemma xxh64_seed_ref: "xxh64_seed arm input seed = xxh64_ref input seed"
proof (cases "32 \<le> length input")
  case True
  have "length (drop (length input div 32 * 32) input) < 32"
    by (simp add: minus_div_mult_eq_mod)
  then show ?thesis
    using True by (simp add: xxh64_seed_def xxh64_ref_def stripes_all_ref finish_tail_ref init_lanes_def Let_def)
next
  case False
  then show ?thesis by (simp add: xxh64_seed_def xxh64_ref_def finish_tail_ref Let_def)
qed

section \<open>The specification, written out\<close>

text \<open>
  XXH64 as its specification states it, sharing nothing with the code above: the primes as decimal numbers, bytes
  addressed by their position in the input, and one accumulator at a time, each over all of its words.
\<close>

definition spec_num :: "nat \<Rightarrow> bytes \<Rightarrow> nat \<Rightarrow> u64" where
  "spec_num n s p = word_of_nat (sum_list (map (\<lambda>j. unat (s ! (p + j)) * 256 ^ j) [0..<n]))"

definition spec_round :: "u64 \<Rightarrow> u64 \<Rightarrow> u64" where
  "spec_round acc w = word_rotl 31 (acc + w * 14029467366897019727) * 11400714785074694791"

definition spec_lane :: "bytes \<Rightarrow> nat \<Rightarrow> u64 \<Rightarrow> u64" where
  "spec_lane s k v = fold (\<lambda>i acc. spec_round acc (spec_num 8 s (32 * i + 8 * k))) [0..<length s div 32] v"

definition spec_merge :: "u64 \<Rightarrow> u64 \<Rightarrow> u64" where
  "spec_merge v acc = (acc XOR spec_round 0 v) * 11400714785074694791 + 9650029242287828579"

definition spec_start :: "u64 \<Rightarrow> bytes \<Rightarrow> u64" where
  "spec_start seed s =
     (if length s < 32 then seed + 2870177450012600261
      else
        let v1 = spec_lane s 0 (seed + 11400714785074694791 + 14029467366897019727);
            v2 = spec_lane s 1 (seed + 14029467366897019727);
            v3 = spec_lane s 2 seed;
            v4 = spec_lane s 3 (seed - 11400714785074694791)
        in fold spec_merge [v1, v2, v3, v4] (word_rotl 1 v1 + word_rotl 7 v2 + word_rotl 12 v3 + word_rotl 18 v4))"

definition spec_words :: "bytes \<Rightarrow> nat \<Rightarrow> u64 \<Rightarrow> u64" where
  "spec_words s p acc = fold (\<lambda>i acc. word_rotl 27 (acc XOR spec_round 0 (spec_num 8 s (p + 8 * i))) * 11400714785074694791
     + 9650029242287828579) [0..<(length s - p) div 8] acc"

definition spec_quad :: "bytes \<Rightarrow> nat \<Rightarrow> u64 \<Rightarrow> u64" where
  "spec_quad s p acc =
     (if p + 4 \<le> length s
      then word_rotl 23 (acc XOR spec_num 4 s p * 11400714785074694791) * 14029467366897019727 + 1609587929392839161 else acc)"

definition spec_bytes :: "bytes \<Rightarrow> nat \<Rightarrow> u64 \<Rightarrow> u64" where
  "spec_bytes s p acc =
     fold (\<lambda>i acc. word_rotl 11 (acc XOR spec_num 1 s i * 2870177450012600261) * 11400714785074694791) [p..<length s] acc"

definition spec_avalanche :: "u64 \<Rightarrow> u64" where
  "spec_avalanche h =
     (let h1 = (h XOR drop_bit 33 h) * 14029467366897019727; h2 = (h1 XOR drop_bit 29 h1) * 1609587929392839161
      in h2 XOR drop_bit 32 h2)"

definition xxh64_spec :: "u64 \<Rightarrow> bytes \<Rightarrow> u64" where
  "xxh64_spec seed s =
     (let n = length s
      in spec_avalanche (spec_bytes s (n - n mod 4) (spec_quad s (n - n mod 8) (spec_words s (n - n mod 32)
           (spec_start seed s + word_of_nat n)))))"

lemma primes: "XP1 = 11400714785074694791" "XP2 = 14029467366897019727" "XP3 = 1609587929392839161"
    "XP4 = 9650029242287828579" "XP5 = 2870177450012600261"
  by (simp_all add: XP1_def XP2_def XP3_def XP4_def XP5_def)

lemma le_nat_sum: "p + n \<le> length s \<Longrightarrow> le_nat (take n (drop p s)) = sum_list (map (\<lambda>j. unat (s ! (p + j)) * 256 ^ j) [0..<n])"
proof (induction n)
  case (Suc n)
  then have "take (Suc n) (drop p s) = take n (drop p s) @ [s ! (p + n)]" by (simp add: take_Suc_conv_app_nth)
  then show ?case using Suc by (simp add: le_nat_append min_absorb2 mult.commute)
qed simp

lemma spec_num_read: "p + 8 \<le> length s \<Longrightarrow> spec_num 8 s p = read_u64_at s p"
  "p + 4 \<le> length s \<Longrightarrow> spec_num 4 s p = word_of_nat (read_u32_at s p)"
  unfolding spec_num_def read_u64_at_def read_u32_at_def by (simp_all only: le_nat_sum)

lemma spec_round_eq: "xx_round = spec_round"
  by (simp add: fun_eq_iff xx_round_def spec_round_def primes)

lemma spec_lanes:
  assumes "32 * m \<le> length s"
  shows "fold (\<lambda>q v. stripe v s (32 * q)) [0..<m] (v1, v2, v3, v4) =
    (let lane = \<lambda>k. fold (\<lambda>i acc. spec_round acc (spec_num 8 s (32 * i + 8 * k))) [0..<m] in (lane 0 v1, lane 1 v2, lane 2 v3, lane 3 v4))"
  using assms
proof (induction m)
  case (Suc m)
  then show ?case
    using spec_num_read(1) [of "32 * m + 8 * _" s, symmetric] by (simp add: Let_def spec_round_eq spec_num_read(1))
qed simp

lemma stripes_spec:
  "stripes_ref (v1, v2, v3, v4) s = (spec_lane s 0 v1, spec_lane s 1 v2, spec_lane s 2 v3, spec_lane s 3 v4)"
proof -
  have "stripes_ref (v1, v2, v3, v4) s = stripes_ref (v1, v2, v3, v4) (take (32 * (length s div 32)) s)"
    by (subst stripes_ref_take) (simp add: mult.commute)
  also have "\<dots> = fold (\<lambda>q v. stripe v s (32 * q)) [0..<length s div 32] (v1, v2, v3, v4)"
    by (rule fold_stripes [symmetric]) simp
  finally show ?thesis by (simp add: spec_lanes spec_lane_def Let_def)
qed

lemma tail_words_spec: "p \<le> length s \<Longrightarrow> tail_words (drop p s) acc = (drop (p + 8 * ((length s - p) div 8)) s, spec_words s p acc)"
proof (induction "length s - p" arbitrary: p acc rule: less_induct)
  case less
  show ?case
  proof (cases "p + 8 \<le> length s")
    case False
    then have "(length s - p) div 8 = 0" "\<not> 8 \<le> length (drop p s)" by simp_all
    then show ?thesis by (subst tail_words.simps) (simp add: spec_words_def)
  next
    case True
    define w where "w = word_rotl 27 (acc XOR spec_round 0 (spec_num 8 s p)) * 11400714785074694791 + 9650029242287828579"
    have n: "(length s - p) div 8 = Suc ((length s - (p + 8)) div 8)" using True by (simp add: le_div_geq)
    have "tail_words (drop p s) acc = tail_words (drop (p + 8) s) w"
    proof -
      have l: "8 \<le> length (drop p s)" using True by simp
      show ?thesis
        by (subst tail_words.simps)
          (simp only: if_P [OF l] Let_def spec_round_eq read_u64_drop add_0_right drop_drop w_def spec_num_read(1) [OF True] primes add.commute [of 8])
    qed
    also have "\<dots> = (drop (p + 8 + 8 * ((length s - (p + 8)) div 8)) s, spec_words s (p + 8) w)"
      using True by (intro less.hyps) simp_all
    also have "spec_words s (p + 8) w = spec_words s p acc"
      unfolding spec_words_def n upt_conv_Cons [OF zero_less_Suc] map_Suc_upt [symmetric] fold_map o_def fold_simps
      by (simp add: w_def algebra_simps)
    finally show ?thesis by (simp add: n add.assoc)
  qed
qed

lemma tail_bytes_spec: "fold tail_byte (drop p s) acc = spec_bytes s p acc"
proof -
  have "drop p s = map (nth s) [p..<length s]" using arg_cong [OF map_nth [of s], of "drop p"] by (simp add: drop_map)
  moreover have "fold (\<lambda>i. tail_byte (s ! i)) [p..<length s] acc = spec_bytes s p acc"
    unfolding spec_bytes_def by (intro fold_cong) (simp_all add: fun_eq_iff tail_byte_def spec_num_def primes)
  ultimately show ?thesis by (simp add: fold_map o_def)
qed

lemma combine_spec: "combine (v1, v2, v3, v4) =
    fold spec_merge [v1, v2, v3, v4] (word_rotl 1 v1 + word_rotl 7 v2 + word_rotl 12 v3 + word_rotl 18 v4)"
proof -
  have "xx_merge acc v = spec_merge v acc" for acc v by (simp only: xx_merge_def spec_merge_def spec_round_eq primes)
  then show ?thesis by simp
qed

lemma if_not: "(if \<not> b then x else y) = (if b then y else x)"
  by simp

lemma xxh64_ref_spec: "xxh64_ref s seed = xxh64_spec seed s"
proof -
  define n where "n = length s"
  define p where "p = n - n mod 32"
  define h where "h = spec_words s p (spec_start seed s + word_of_nat n)"
  have p: "length s div 32 * 32 = p" "p \<le> length s" by (simp_all add: p_def n_def minus_mod_eq_div_mult)
  have q: "p + 8 * ((length s - p) div 8) = n - n mod 8"
  proof -
    define r where "r = n mod 32"
    have r: "length s - p = r" "p = n - r" "r \<le> n" by (simp_all add: p_def r_def n_def)
    have "8 * (r div 8) = r - r mod 8" by (simp add: minus_mod_eq_mult_div)
    moreover have "r mod 8 = n mod 8" by (simp add: r_def mod_mod_cancel)
    moreover have "r mod 8 \<le> r" by (rule mod_less_eq_dividend)
    ultimately show ?thesis using r by simp
  qed
  have start: "(if 32 \<le> length s then combine (stripes_ref (init_lanes seed) s) else seed + XP5) = spec_start seed s"
    by (simp only: spec_start_def init_lanes_def stripes_spec combine_spec Let_def primes not_le [symmetric] if_not)
  have words: "tail_words (drop p s) (spec_start seed s + word_of_nat (length s)) = (drop (n - n mod 8) s, h)"
    using tail_words_spec [OF p(2)] unfolding q h_def n_def by simp
  have m4: "n mod 8 mod 4 = n mod 4" by (simp add: mod_mod_cancel)
  have quad: "tail_quad (drop (n - n mod 8) s) h = (drop (n - n mod 4) s, spec_quad s (n - n mod 8) h)"
  proof (cases "4 \<le> n mod 8")
    case True
    have l: "n - n mod 8 + 4 \<le> length s" using True mod_less_eq_dividend [of n 8] unfolding n_def by linarith
    have "n mod 8 mod 4 = n mod 8 - 4" using True by (simp add: le_mod_geq)
    then have e: "4 + (n - n mod 8) = n - n mod 4" using m4 True mod_less_eq_dividend [of n 8] by linarith
    have "4 \<le> length (drop (n - n mod 8) s)" using l unfolding length_drop by linarith
    then have "tail_quad (drop (n - n mod 8) s) h = (drop (4 + (n - n mod 8)) s,
        word_rotl 23 (h XOR word_of_nat (read_u32_at s (n - n mod 8)) * XP1) * XP2 + XP3)"
      by (simp only: tail_quad_def if_True Let_def drop_drop read_u32_at_def add_0)
    then show ?thesis unfolding e spec_quad_def if_P [OF l] spec_num_read(2) [OF l] primes .
  next
    case False
    have l: "\<not> n - n mod 8 + 4 \<le> length s" using False mod_less_eq_dividend [of n 8] unfolding n_def by linarith
    have e: "n - n mod 8 = n - n mod 4" using False m4 by simp
    have "\<not> 4 \<le> length (drop (n - n mod 8) s)" using l unfolding length_drop by linarith
    then show ?thesis using l e by (simp only: tail_quad_def spec_quad_def if_False)
  qed
  have av: "avalanche = spec_avalanche" by (simp add: fun_eq_iff avalanche_def spec_avalanche_def Let_def primes)
  show ?thesis
    unfolding xxh64_ref_def Let_def xxh64_spec_def n_def [symmetric] start [folded n_def] p(1) [folded n_def] words [folded n_def]
      prod.case quad tail_bytes_spec av p_def [symmetric] h_def [symmetric]
    by (rule refl)
qed

text \<open>Rotations and shifts of numerals, for the published answers.\<close>

lemma word_rotl_split:
  assumes "0 < r" "r < 64"
  shows "word_rotl r (w :: u64) = push_bit r w + drop_bit (64 - r) w"
proof -
  have small: "\<not> bit w m" if "64 \<le> m" for m using that bit_imp_le_length [of w m] by auto
  have "word_rotl r w = push_bit r w OR drop_bit (64 - r) w"
  proof (rule bit_eqI)
    fix n assume "possible_bit TYPE(u64) n"
    then have n: "n < 64" by simp
    have l: "bit (word_rotl r w) n = bit w ((n + (64 - r)) mod 64)" using n assms by (simp add: bit_word_rotl_iff)
    have p: "bit (push_bit r w OR drop_bit (64 - r) w) n \<longleftrightarrow> r \<le> n \<and> bit w (n - r) \<or> bit w ((64 - r) + n)"
      using n by (simp add: bit_or_iff bit_push_bit_iff bit_drop_bit_eq)
    show "bit (word_rotl r w) n = bit (push_bit r w OR drop_bit (64 - r) w) n"
    proof (cases "n < r")
      case True
      then have "(n + (64 - r)) mod 64 = (64 - r) + n" using assms by (subst mod_less) simp_all
      then show ?thesis using True unfolding l p by (metis not_less)
    next
      case False
      have "n + (64 - r) = (n - r) + 64" using False assms by simp
      then have "(n + (64 - r)) mod 64 = ((n - r) + 64) mod 64" by (rule arg_cong)
      also have "\<dots> = n - r" using n by simp
      finally have "(n + (64 - r)) mod 64 = n - r" .
      moreover have "64 \<le> (64 - r) + n" using False assms by simp
      ultimately show ?thesis using False small unfolding l p by (metis not_less)
    qed
  qed
  also have "push_bit r w AND drop_bit (64 - r) w = 0"
  proof (rule bit_eqI)
    fix n
    have "r \<le> n \<Longrightarrow> 64 \<le> (64 - r) + n" using assms by simp
    then show "bit (push_bit r w AND drop_bit (64 - r) w) n = bit 0 n"
      using small by (auto simp: bit_and_iff bit_push_bit_iff bit_drop_bit_eq)
  qed
  then have "push_bit r w OR drop_bit (64 - r) w = push_bit r w + drop_bit (64 - r) w"
    by (simp add: disjunctive_add_eq_or)
  finally show ?thesis .
qed

lemma u64_nat: "word_of_nat (unat w) = (w :: u64)"
  by simp

lemma drop_bit_unat: "drop_bit k (w :: u64) = word_of_nat (unat w div 2 ^ k)"
proof -
  have "unat (drop_bit k w) = unat w div 2 ^ k" by (simp only: unat_drop_bit_eq) (simp only: drop_bit_eq_div)
  then show ?thesis by (metis u64_nat)
qed

lemma unat_numeral_64: "unat (numeral w :: u64) = numeral w mod 2 ^ 64"
  by (simp only: unat_numeral take_bit_eq_mod len_num1 len_bit0 len_num0) simp

lemma drop_bit_numeral: "drop_bit k (numeral w :: u64) = word_of_nat (numeral w mod 2 ^ 64 div 2 ^ k)"
  by (simp only: drop_bit_unat unat_numeral_64)

lemma rotl_numeral: "0 < r \<Longrightarrow> r < 64 \<Longrightarrow>
    word_rotl r (numeral w :: u64) = word_of_nat (numeral w mod 2 ^ 64 * 2 ^ r + numeral w mod 2 ^ 64 div 2 ^ (64 - r))"
proof -
  have "(numeral w :: u64) = word_of_nat (numeral w mod 2 ^ 64)" by (metis unat_numeral_64 u64_nat)
  then have "push_bit r (numeral w :: u64) = word_of_nat (numeral w mod 2 ^ 64) * 2 ^ r" unfolding push_bit_eq_mult by (rule arg_cong)
  then show "0 < r \<Longrightarrow> r < 64 \<Longrightarrow> ?thesis" by (simp only: word_rotl_split drop_bit_numeral of_nat_add of_nat_mult of_nat_power of_nat_numeral)
qed

lemma minus_prime: "(- 11400714785074694791 :: u64) = 7046029288634856825"
  by simp

lemmas spec_eval = xxh64_spec_def spec_start_def spec_lane_def spec_merge_def spec_words_def spec_quad_def spec_bytes_def
  spec_avalanche_def spec_round_def spec_num_def Let_def rotl_numeral drop_bit_numeral minus_prime upt_conv_Cons

text \<open>The published answers: of no bytes, of \<open>abc\<close>, of 39 bytes (a stripe and a tail of 7), and of 32 zeros.\<close>

definition SAMPLE_39 :: bytes where
  "SAMPLE_39 = [0x4E, 0x6F, 0x62, 0x6F, 0x64, 0x79, 0x20, 0x69, 0x6E, 0x73, 0x70, 0x65, 0x63, 0x74, 0x73, 0x20, 0x74, 0x68, 0x65, 0x20, 0x73, 0x70, 0x61, 0x6D, 0x6D, 0x69, 0x73, 0x68, 0x20, 0x72, 0x65, 0x70, 0x65, 0x74, 0x69, 0x74, 0x69, 0x6F, 0x6E]"

lemma spec_answer_empty: "xxh64_spec 0 [] = 0xEF46DB3751D8E999"
  by (simp add: spec_eval)

lemma spec_answer_abc: "xxh64_spec 0 [0x61, 0x62, 0x63] = 0x44BC2CF5AD770999"
  by (simp add: spec_eval)

lemma spec_answer_39: "xxh64_spec 0 SAMPLE_39 = 0xFBCEA83C8A378BF1"
  by (simp add: spec_eval SAMPLE_39_def)

lemma spec_answer_zeros: "xxh64_spec 0 (replicate 32 0) = 0xF6E9BE5D70632CF5"
  by (simp add: spec_eval)

lemmas spec_answers = spec_answer_empty spec_answer_abc spec_answer_39 spec_answer_zeros

text \<open>C31: whichever kernel the build and the CPU select, the one-shot hash of any input and seed is XXH64 as
  specified (\<open>xxh64_spec\<close>, with its own primes, rotations and byte addressing): the 256-byte tiles, the
  128-byte chunks, the premultiplied words and the bounded byte loop lose no byte. The
  specification, and so the hash, gives the published answers on four inputs.\<close>

theorem xxh64_seed_reference:
  "xxh64_seed arm input seed = xxh64_spec seed input
    \<and> xxh64_seed arm [] 0 = 0xEF46DB3751D8E999 \<and> xxh64_seed arm [0x61, 0x62, 0x63] 0 = 0x44BC2CF5AD770999
    \<and> xxh64_seed arm SAMPLE_39 0 = 0xFBCEA83C8A378BF1 \<and> xxh64_seed arm (replicate 32 0) 0 = 0xF6E9BE5D70632CF5"
  by (simp add: xxh64_seed_ref xxh64_ref_spec spec_answers del: replicate.simps)

section \<open>The incremental state\<close>

lemma length_blit [simp]: "i + length xs \<le> length buf \<Longrightarrow> length (blit buf i xs) = length buf"
  by (simp add: blit_def)

lemma nth_blit:
  "i + length xs \<le> length buf \<Longrightarrow> j < length buf \<Longrightarrow>
   blit buf i xs ! j = (if i \<le> j \<and> j < i + length xs then xs ! (j - i) else buf ! j)"
  by (auto simp: blit_def nth_append)

lemma copy_pair_blit:
  assumes "w \<le> length src" "length src \<le> 2 * w" "i + length src \<le> length buf"
  shows "copy_pair w buf i src = blit buf i src"
proof (rule nth_equalityI)
  let ?b1 = "blit buf i (take w src)"
  have b1: "length ?b1 = length buf" using assms by simp
  show len: "length (copy_pair w buf i src) = length (blit buf i src)"
    using assms b1 by (simp add: copy_pair_def Let_def)
  fix j
  assume "j < length (copy_pair w buf i src)"
  then have j: "j < length buf" using len assms by simp
  have "copy_pair w buf i src ! j = (if i + (length src - w) \<le> j \<and> j < i + (length src - w) + w
      then drop (length src - w) src ! (j - (i + (length src - w))) else ?b1 ! j)"
    using assms b1 j by (simp add: copy_pair_def Let_def nth_blit)
  also have "\<dots> = blit buf i src ! j"
    using assms j by (auto simp: nth_blit intro!: arg_cong [of _ _ "nth src"])
  finally show "copy_pair w buf i src ! j = blit buf i src ! j" .
qed

lemma copy_into_buf_blit:
  assumes "length src \<le> 32" "i + length src \<le> length buf"
  shows "copy_into_buf buf i src = blit buf i src"
proof -
  consider "length src = 0" | "length src = 1" | "2 \<le> length src" by linarith
  then show ?thesis
  proof cases
    case 3
    then show ?thesis using assms by (simp add: copy_into_buf_def Let_def copy_pair_blit)
  qed (use assms in \<open>auto simp: copy_into_buf_def blit_def length_Suc_conv upd_conv_take_nth_drop\<close>)
qed

definition xx_inv :: "xxh64_state \<Rightarrow> bytes \<Rightarrow> bool" where
  "xx_inv s data \<longleftrightarrow> xs_total s = word_of_nat (length data)
     \<and> xs_v s = stripes_ref (init_lanes 0) data
     \<and> xs_buf_len s = length data mod 32 \<and> length (xs_buf s) = 32
     \<and> take (xs_buf_len s) (xs_buf s) = drop (length data div 32 * 32) data"

lemma xx_new_inv: "xx_inv xx_new []"
  by (simp add: xx_inv_def xx_new_def stripes_ref_short init_lanes_def)

lemma take_blit: "i + length xs \<le> length buf \<Longrightarrow> take (i + length xs) (blit buf i xs) = take i buf @ xs"
  by (simp add: blit_def min_absorb2)

lemma whole_stripes:
  assumes "32 dvd length a" "length b < 32"
  shows "length (a @ b) div 32 * 32 = length a" "length (a @ b) mod 32 = length b"
  using assms by (auto elim!: dvdE)

lemma xx_update_inv:
  assumes "xx_inv s data"
  shows "xx_inv (xx_update arm d s) (data @ d)"
proof -
  define a where "a = take (length data div 32 * 32) data"
  define b where "b = drop (length data div 32 * 32) data"
  have ab: "data = a @ b" by (simp add: a_def b_def)
  have la: "32 dvd length a" by (simp add: a_def min_absorb2)
  have lb: "length b < 32" "length b = length data mod 32" by (simp_all add: b_def minus_div_mult_eq_mod)
  have inv: "xs_total s = word_of_nat (length data)" "xs_v s = stripes_ref (init_lanes 0) a"
      "xs_buf_len s = length b" "length (xs_buf s) = 32" "take (length b) (xs_buf s) = b"
    using assms stripes_ref_take [of "init_lanes 0" data]
    unfolding xx_inv_def b_def [symmetric] a_def [symmetric] lb(2) [symmetric] by auto
  have tot: "xs_total s + word_of_nat (length d) = word_of_nat (length (data @ d))"
    by (simp add: inv)
  show ?thesis
  proof (cases "length b + length d < 32")
    case True
    have u: "xx_update arm d s = s\<lparr> xs_total := word_of_nat (length (data @ d)),
        xs_buf := blit (xs_buf s) (length b) d, xs_buf_len := length b + length d \<rparr>"
      using True lb(1) inv tot copy_into_buf_blit [of d "length b" "xs_buf s"]
      by (simp add: xx_update_def Let_def)
    note w = whole_stripes [of a "b @ d"]
    have "stripes_ref (init_lanes 0) (data @ d) = stripes_ref (init_lanes 0) a"
      using stripes_ref_append [OF la, of _ "b @ d"] True by (simp add: ab stripes_ref_short)
    then show ?thesis
      using w True la inv take_blit [of "length b" d "xs_buf s"]
      by (simp add: u xx_inv_def ab)
  next
    case False
    define tk where "tk = (if 0 < length b then 32 - length b else 0)"
    define buf where "buf = (if 0 < length b then blit (xs_buf s) (length b) (take tk d) else xs_buf s)"
    define a' where "a' = (if 0 < length b then a @ b @ take tk d else a)"
    define d' where "d' = drop tk d"
    have tk: "tk \<le> length d" using False by (auto simp: tk_def)
    have a': "32 dvd length a'" using la lb(1) tk by (auto simp: a'_def tk_def min_absorb2)
    have app: "data @ d = a' @ d'" by (auto simp: ab a'_def d'_def tk_def)
    have bufl: "length buf = 32" using inv lb(1) tk by (auto simp: buf_def tk_def)
    have bufc: "0 < length b \<Longrightarrow> buf = b @ take tk d"
      using take_blit [of "length b" "take tk d" "xs_buf s"] inv lb(1) tk bufl by (auto simp: buf_def tk_def)
    have v1: "(if 0 < length b then stripe (xs_v s) buf 0 else xs_v s) = stripes_ref (init_lanes 0) a'"
      using bufc stripes_ref_append [OF la, of _ "b @ take tk d"] bufl inv
      by (auto simp: a'_def stripes_ref_one)
    define rest where "rest = drop (length d' div 32 * 32) d'"
    have rl: "length rest < 32" "length rest = length d' mod 32" by (simp_all add: rest_def minus_div_mult_eq_mod)
    have v2: "stripes_all arm d' (stripes_ref (init_lanes 0) a') = (rest, stripes_ref (init_lanes 0) (data @ d))"
      using stripes_ref_append [OF a'] by (simp add: stripes_all_ref rest_def app)
    have u: "xx_update arm d s = s\<lparr> xs_total := word_of_nat (length (data @ d)),
        xs_buf := (if rest \<noteq> [] then blit buf 0 rest else buf),
        xs_buf_len := (if rest \<noteq> [] then length rest else 0), xs_v := stripes_ref (init_lanes 0) (data @ d) \<rparr>"
      using False lb(1) inv tot v1 v2 rl tk bufl copy_into_buf_blit [of "take tk d" "length b" "xs_buf s"]
        copy_into_buf_blit [of rest 0 buf]
      by (cases "b = []"; simp add: xx_update_def Let_def tk_def buf_def d'_def)
    have len: "length (data @ d) mod 32 = length rest"
      unfolding app using a' rl(2) by (auto elim!: dvdE)
    have last: "drop (length (data @ d) div 32 * 32) (data @ d) = rest"
    proof -
      have "length (a' @ d') div 32 * 32 = length a' + length d' div 32 * 32"
        using a' by (auto elim!: dvdE)
      then show ?thesis by (simp add: app rest_def)
    qed
    have "take (length rest) (blit buf 0 rest) = rest"
      using take_blit [of 0 rest buf] rl(1) bufl by simp
    then show ?thesis using len last bufl rl(1) unfolding u xx_inv_def by auto
  qed
qed

lemma xx_updates_inv: "xx_inv s data \<Longrightarrow>
    xx_inv (fold (\<lambda>(arm, d). xx_update arm d) ds s) (data @ concat (map snd ds))"
proof (induction ds arbitrary: s data)
  case (Cons c ds)
  then show ?case
    using Cons.IH [OF xx_update_inv [OF Cons.prems, of "fst c" "snd c"]] by (simp add: case_prod_beta)
qed simp

lemma xx_digest_inv:
  assumes "xx_inv s data" "length data < 2 ^ 64"
  shows "xx_digest s = xxh64 arm data"
proof -
  have "unat (word_of_nat (length data) :: u64) = length data"
    using assms(2) unfolding unat_of_nat64 by simp
  moreover have "length (drop (length data div 32 * 32) data) < 32"
    by (simp add: minus_div_mult_eq_mod)
  moreover have "xs_buf_len s mod 32 = xs_buf_len s" using assms(1) by (simp add: xx_inv_def)
  then have "take (xs_buf_len s mod 32) (xs_buf s) = drop (length data div 32 * 32) data"
    "xs_total s = word_of_nat (length data)" "xs_v s = stripes_ref (init_lanes 0) data"
    using assms(1) unfolding xx_inv_def by auto
  ultimately have "xx_digest s = xxh64_ref data 0"
    by (simp only: xx_digest_def Let_def finish_tail_ref xxh64_ref_def) simp
  then show ?thesis by (simp add: xxh64_def xxh64_seed_ref)
qed

text \<open>C32: the incremental checksum equals the one-shot hash of the concatenated input, for every
  way of splitting it into updates and every kernel each update runs, for inputs below 2^64
  bytes.\<close>

theorem xx_streaming:
  assumes "length (concat (map snd ds)) < 2 ^ 64"
  shows "xx_digest (fold (\<lambda>(arm, d). xx_update arm d) ds xx_new) = xxh64 arm (concat (map snd ds))"
  using xx_digest_inv [OF xx_updates_inv [OF xx_new_inv, of ds]] assms by simp

theorem xx_streaming_witness:
  "xx_digest (fold (\<lambda>(arm, d). xx_update arm d) [(ArmScalar, [1, 2]), (ArmAvx2, replicate 40 7)] xx_new)
     = xxh64 ArmNeon ([1, 2] @ replicate 40 7)"
  using xx_streaming [of "[(ArmScalar, [1, 2]), (ArmAvx2, replicate 40 7)]" ArmNeon] by simp

end
