(* ===== verification/Frame_Decode.thy ===== *)
theory Frame_Decode
  imports Lit_Section Frame_Header Xxh64
begin

text \<open>
  Decoding frames (\<^verbatim>\<open>decode.rs\<close>, and the block driver of \<^verbatim>\<open>compressed.rs\<close>): a compressed block is a
  literals section and a sequences section over the state a frame carries; a frame is a header, blocks
  until the one marked last, and an optional checksum; an input is a series of frames with skippable
  frames between them. The output vector is appended to under a cap.

  The reservations change the capacity of the output only; that the allocator grants them is assumed,
  and a request beyond \<^verbatim>\<open>isize::MAX\<close> fails as the code says.
\<close>

section \<open>One compressed block\<close>

text \<open>\<^verbatim>\<open>BlockState\<close>: the Huffman table and what the sequences section keeps.\<close>

record dec_state =
  ds_huff :: "huff_table option"
  ds_seq :: block_state

record dict_entropy =
  de_huff :: huff_table
  de_ll :: fse_table
  de_of :: fse_table
  de_ml :: fse_table
  de_reps :: reps

record dictionary =
  dc_id :: nat
  dc_content :: bytes
  dc_entropy :: "dict_entropy option"

definition dec_state_new :: dec_state where
  "dec_state_new = \<lparr> ds_huff = None, ds_seq = block_state_new \<rparr>"

definition from_dict :: "dictionary option \<Rightarrow> dec_state" where
  "from_dict dict =
     (case dict of None \<Rightarrow> dec_state_new | Some d \<Rightarrow>
        case dc_entropy d of None \<Rightarrow> dec_state_new | Some e \<Rightarrow>
          \<lparr> ds_huff = Some (de_huff e),
            ds_seq = \<lparr> bs_ll = Some (de_ll e), bs_of = Some (de_of e), bs_ml = Some (de_ml e), bs_reps = de_reps e \<rparr> \<rparr>)"

definition decode_compressed_block :: "seq_arms \<Rightarrow> bytes \<Rightarrow> vec \<Rightarrow> frame_ctx \<Rightarrow> dec_state \<Rightarrow> (vec \<times> dec_state) res option" where
  "decode_compressed_block A payload out fx st =
     then_do (decode_literals (rd_new payload) (ds_huff st) (fx_block_max fx)) (\<lambda>(lits, r, huff).
     then_do (Some (rd_take (rd_remaining r) r)) (\<lambda>(seq_bytes, r).
     then_do (decode_sequences A seq_bytes lits out fx (ds_seq st)) (\<lambda>(out, sq).
     Some (Inr (out, \<lparr> ds_huff = huff, ds_seq = sq \<rparr>)))))"

section \<open>One frame\<close>

record decode_opts =
  do_window_max :: nat
  do_ignore_checksum :: bool

definition default_opts :: decode_opts where
  "default_opts = \<lparr> do_window_max = DEFAULT_WINDOW_MAX, do_ignore_checksum = False \<rparr>"

text \<open>The bench arms: the sequence loops', the hash kernel, and when the checksum runs block by block.\<close>

record frame_arms =
  fa_seq :: seq_arms
  fa_xx :: xx_arm
  fa_ck_stream :: bool
  fa_ck_fuse_min :: nat

text \<open>What stays the same through a frame, and what its loop changes.\<close>

record frame_call =
  fc_header :: frame_header
  fc_hist :: bytes
  fc_out_cap :: nat
  fc_start :: nat

record frame_state =
  fs_rd :: reader
  fs_out :: vec
  fs_st :: dec_state
  fs_running :: "xxh64_state option"
  fs_hashed :: nat
  fs_sized :: bool

definition check_dict :: "frame_header \<Rightarrow> dictionary option \<Rightarrow> unit res" where
  "check_dict h dict =
     (case fh_dict_id h of None \<Rightarrow> Inr ()
      | Some i \<Rightarrow> (case dict of None \<Rightarrow> Inl (DictionaryNeeded i)
          | Some d \<Rightarrow> if dc_id d \<noteq> i then Inl (DictionaryMismatch i (dc_id d)) else Inr ()))"

definition try_reserve :: "nat \<Rightarrow> vec \<Rightarrow> vec option" where
  "try_reserve n out = (if 2 ^ 63 \<le> v_len out + n then None else Some (vec_reserve n out))"

definition reserve_declared :: "frame_header \<Rightarrow> nat \<Rightarrow> reader \<Rightarrow> vec \<Rightarrow> vec res" where
  "reserve_declared h out_cap r out =
     (case fh_content_size h of None \<Rightarrow> Inr out
      | Some n \<Rightarrow>
          if out_cap - v_len out < n then Inl ContentSizeTooLarge
          else let provable = sat_mul USIZE_MAX (rd_remaining r div 3) (block_size_max h)
               in ok_or (try_reserve (sat_add USIZE_MAX (min n provable) COPY_PAD) out) ContentSizeTooLarge)"

text \<open>Without a declared size: once a block has landed, reserve what its ratio promises, at most 64 MiB.\<close>

definition reserve_from_ratio :: "frame_call \<Rightarrow> block_header \<Rightarrow> frame_state \<Rightarrow> frame_state" where
  "reserve_from_ratio C bh F =
     (if fs_sized F then F
      else let out = fs_out F; produced = v_len out - fc_start C
           in if 0 < produced then
                let want = sat_mul USIZE_MAX produced (sat_add USIZE_MAX (rd_remaining (fs_rd F)) 1) div max (payload_len bh) 1;
                    cap = min want (push_bit 20 64);
                    out = (if vec_cap out - v_len out < cap
                           then (case try_reserve cap out of None \<Rightarrow> out | Some out \<Rightarrow> out) else out)
                in F\<lparr> fs_out := out, fs_sized := True \<rparr>
              else F)"

definition block_fx :: "frame_call \<Rightarrow> frame_ctx" where
  "block_fx C = \<lparr> fx_window_size = fh_window_size (fc_header C), fx_block_max = block_size_max (fc_header C),
     fx_dict = fc_hist C, fx_frame_start = fc_start C, fx_frame_skipped = 0 \<rparr>"

definition decode_block :: "seq_arms \<Rightarrow> frame_call \<Rightarrow> block_header \<Rightarrow> frame_state \<Rightarrow> frame_state res option" where
  "decode_block A C bh F =
     (let r = fs_rd F; out = fs_out F; n = bh_size bh; block_max = block_size_max (fc_header C)
      in if block_max < n then Some (Inl BlockTooLarge)
         else case bh_ty bh of
           BtRaw \<Rightarrow>
             if fc_out_cap C - v_len out < n then Some (Inl ContentSizeTooLarge)
             else then_do (Some (rd_take n r)) (\<lambda>(payload, r).
                  Some (Inr (F\<lparr> fs_rd := r, fs_out := vec_extend (map Some payload) out \<rparr>)))
         | BtRle \<Rightarrow>
             if fc_out_cap C - v_len out < n then Some (Inl ContentSizeTooLarge)
             else then_do (Some (rd_u8 r)) (\<lambda>(b, r).
                  Some (Inr (F\<lparr> fs_rd := r, fs_out := vec_extend (replicate n (Some b)) out \<rparr>)))
         | BtCompressed \<Rightarrow>
             then_do (Some (rd_take n r)) (\<lambda>(payload, r).
             then_do (decode_compressed_block A payload out (block_fx C) (fs_st F)) (\<lambda>(out, st).
               if fc_out_cap C < v_len out then Some (Inl ContentSizeTooLarge)
               else Some (Inr (F\<lparr> fs_rd := r, fs_out := out, fs_st := st \<rparr>)))))"

text \<open>The bytes of a vector from \<open>a\<close> on; an uninitialised cell in them has no value.\<close>

definition vec_bytes :: "nat \<Rightarrow> vec \<Rightarrow> bytes option" where
  "vec_bytes a v = those (drop a (take (v_len v) (v_mem v)))"

definition hash_block :: "xx_arm \<Rightarrow> frame_state \<Rightarrow> frame_state option" where
  "hash_block xx F =
     (case fs_running F of None \<Rightarrow> Some F
      | Some h \<Rightarrow> Option.bind (vec_bytes (fs_hashed F) (fs_out F)) (\<lambda>d.
          Some (F\<lparr> fs_running := Some (xx_update xx d h), fs_hashed := v_len (fs_out F) \<rparr>)))"

text \<open>One pass of the loop: whether the block was the last one, and the state after it.\<close>

definition frame_pass :: "frame_arms \<Rightarrow> frame_call \<Rightarrow> frame_state \<Rightarrow> (bool \<times> frame_state) res option" where
  "frame_pass A C F =
     then_do (Some (parse_block_header (fs_rd F))) (\<lambda>(bh, r).
     then_do (decode_block (fa_seq A) C bh (reserve_from_ratio C bh (F\<lparr> fs_rd := r \<rparr>))) (\<lambda>F.
     Option.bind (hash_block (fa_xx A) F) (\<lambda>F. Some (Inr (bh_last bh, F)))))"

partial_function (option) frame_loop :: "frame_arms \<Rightarrow> frame_call \<Rightarrow> frame_state \<Rightarrow> frame_state res option" where
  "frame_loop A C F =
     Option.bind (frame_pass A C F) (\<lambda>p. case p of Inl e \<Rightarrow> Some (Inl e)
       | Inr (fin, F) \<Rightarrow> if fin then Some (Inr F) else frame_loop A C F)"

definition frame_checksum :: "frame_arms \<Rightarrow> decode_opts \<Rightarrow> frame_call \<Rightarrow> frame_state \<Rightarrow> reader res option" where
  "frame_checksum A opts C F =
     (if \<not> fh_checksum (fc_header C) then Some (Inr (fs_rd F))
      else then_do (Some (rd_u32_le (fs_rd F))) (\<lambda>(got, r).
        if do_ignore_checksum opts then Some (Inr r)
        else Option.bind (case fs_running F of
               Some h \<Rightarrow> Some (unat (xx_digest h) mod 2 ^ 32)
             | None \<Rightarrow> Option.bind (vec_bytes (fc_start C) (fs_out F)) (\<lambda>d. Some (content_checksum (fa_xx A) d))) (\<lambda>computed.
           if computed \<noteq> got then Some (Inl ChecksumMismatch) else Some (Inr r))))"

definition decode_zstd_frame :: "frame_arms \<Rightarrow> reader \<Rightarrow> frame_header \<Rightarrow> decode_opts \<Rightarrow> dictionary option \<Rightarrow> bytes \<Rightarrow> vec \<Rightarrow> nat
    \<Rightarrow> (reader \<times> vec) res option" where
  "decode_zstd_frame A r h opts dict hist out out_cap =
     (if do_window_max opts < fh_window_size h then Some (Inl WindowTooLarge)
      else
        then_do (Some (check_dict h dict)) (\<lambda>_.
        then_do (Some (reserve_declared h out_cap r out)) (\<lambda>out.
        let C = \<lparr> fc_header = h, fc_hist = hist, fc_out_cap = out_cap, fc_start = v_len out \<rparr>;
            fuse_by_size = (case fh_content_size h of Some n \<Rightarrow> fa_ck_fuse_min A \<le> n | None \<Rightarrow> False);
            running = (if fh_checksum h \<and> \<not> do_ignore_checksum opts \<and> (fa_ck_stream A \<or> fuse_by_size) then Some xx_new else None)
        in then_do (frame_loop A C \<lparr> fs_rd = r, fs_out = out, fs_st = from_dict dict, fs_running = running,
               fs_hashed = fc_start C, fs_sized = (fh_content_size h \<noteq> None) \<rparr>) (\<lambda>F.
           then_do (frame_checksum A opts C F) (\<lambda>r.
           case fh_content_size h of
             Some n \<Rightarrow> if v_len (fs_out F) - fc_start C \<noteq> n then Some (Inl ContentSizeMismatch) else Some (Inr (r, fs_out F))
           | None \<Rightarrow> Some (Inr (r, fs_out F)))))))"

section \<open>A series of frames\<close>

definition check_magic :: "bool \<Rightarrow> reader \<Rightarrow> unit res" where
  "check_magic saw_zstd r =
     (case rd_peek_u32_le r of
        Inr m \<Rightarrow> if m = MAGIC \<or> is_skippable_magic m then Inr ()
                 else if saw_zstd then Inl TrailingBytes else Inl BadMagic
      | Inl e \<Rightarrow> if saw_zstd \<and> 0 < rd_remaining r then Inl TrailingBytes else Inl e)"

partial_function (option) frames_loop :: "frame_arms \<Rightarrow> decode_opts \<Rightarrow> dictionary option \<Rightarrow> bytes \<Rightarrow> nat \<Rightarrow> reader \<Rightarrow> bool \<Rightarrow> vec
    \<Rightarrow> (bool \<times> vec) res option" where
  "frames_loop A opts dict hist out_cap r saw_zstd out =
     (if rd_is_empty r then Some (Inr (saw_zstd, out))
      else case rbind (check_magic saw_zstd r) (\<lambda>_. parse_kind r) of
        Inl e \<Rightarrow> Some (Inl e)
      | Inr (kind, r) \<Rightarrow> (case kind of
            FkSkippable m n \<Rightarrow> (case rd_take n r of
                Inl e \<Rightarrow> Some (Inl e)
              | Inr (d, r) \<Rightarrow> frames_loop A opts dict hist out_cap r saw_zstd out)
          | FkZstd h \<Rightarrow> Option.bind (decode_zstd_frame A r h opts dict hist out out_cap) (\<lambda>x. case x of
                Inl e \<Rightarrow> Some (Inl e)
              | Inr (r, out) \<Rightarrow> frames_loop A opts dict hist out_cap r True out)))"

definition decompress_into_history :: "frame_arms \<Rightarrow> bytes \<Rightarrow> decode_opts \<Rightarrow> dictionary option \<Rightarrow> bytes \<Rightarrow> vec \<Rightarrow> nat \<Rightarrow> vec res option" where
  "decompress_into_history A src opts dict prefix out out_cap =
     (if src = [] then Some (Inl UnexpectedEof)
      else let hist = (case dict of None \<Rightarrow> prefix | Some d \<Rightarrow> dc_content d)
           in then_do (frames_loop A opts dict hist out_cap (rd_new src) False out) (\<lambda>(saw_zstd, out).
              if saw_zstd then Some (Inr out) else Some (Inl UnexpectedEof)))"

definition decompress_with_limit :: "frame_arms \<Rightarrow> bytes \<Rightarrow> decode_opts \<Rightarrow> nat \<Rightarrow> vec res option" where
  "decompress_with_limit A src opts max_output = decompress_into_history A src opts None [] empty_vec max_output"

definition decompress_into_with_limit :: "frame_arms \<Rightarrow> vec \<Rightarrow> bytes \<Rightarrow> decode_opts \<Rightarrow> nat \<Rightarrow> (nat \<times> vec) res option" where
  "decompress_into_with_limit A dst src opts max_output =
     then_do (decompress_into_history A src opts None [] dst (sat_add USIZE_MAX (v_len dst) max_output)) (\<lambda>dst'.
       Some (Inr (v_len dst' - v_len dst, dst')))"

definition decompress_with_history :: "frame_arms \<Rightarrow> bytes \<Rightarrow> decode_opts \<Rightarrow> dictionary option \<Rightarrow> bytes \<Rightarrow> vec res option" where
  "decompress_with_history A src opts dict prefix = decompress_into_history A src opts dict prefix empty_vec USIZE_MAX"

text \<open>The public entry points.\<close>

definition decompress_with :: "frame_arms \<Rightarrow> bytes \<Rightarrow> decode_opts \<Rightarrow> vec res option" where
  "decompress_with A src opts = decompress_with_history A src opts None []"

definition decompress :: "frame_arms \<Rightarrow> bytes \<Rightarrow> vec res option" where
  "decompress A src = decompress_with A src default_opts"

definition decompress_using_dict_with :: "frame_arms \<Rightarrow> bytes \<Rightarrow> dictionary \<Rightarrow> decode_opts \<Rightarrow> vec res option" where
  "decompress_using_dict_with A src dict opts = decompress_with_history A src opts (Some dict) []"

definition decompress_using_dict :: "frame_arms \<Rightarrow> bytes \<Rightarrow> dictionary \<Rightarrow> vec res option" where
  "decompress_using_dict A src dict = decompress_using_dict_with A src dict default_opts"

definition decompress_using_prefix_with :: "frame_arms \<Rightarrow> bytes \<Rightarrow> bytes \<Rightarrow> decode_opts \<Rightarrow> vec res option" where
  "decompress_using_prefix_with A src prefix opts = decompress_with_history A src opts None prefix"

definition decompress_using_prefix :: "frame_arms \<Rightarrow> bytes \<Rightarrow> bytes \<Rightarrow> vec res option" where
  "decompress_using_prefix A src prefix = decompress_using_prefix_with A src prefix default_opts"

definition decompress_into_with :: "frame_arms \<Rightarrow> vec \<Rightarrow> bytes \<Rightarrow> decode_opts \<Rightarrow> (nat \<times> vec) res option" where
  "decompress_into_with A dst src opts =
     then_do (decompress_into_history A src opts None [] dst USIZE_MAX) (\<lambda>dst'. Some (Inr (v_len dst' - v_len dst, dst')))"

definition decompress_into :: "frame_arms \<Rightarrow> vec \<Rightarrow> bytes \<Rightarrow> (nat \<times> vec) res option" where
  "decompress_into A dst src = decompress_into_with A dst src default_opts"

section \<open>Walking frames without decoding them\<close>

partial_function (option) skip_block_loop :: "nat \<Rightarrow> reader \<Rightarrow> reader res option" where
  "skip_block_loop block_max r =
     (case parse_block_header r of
        Inl e \<Rightarrow> Some (Inl e)
      | Inr (bh, r) \<Rightarrow>
          if (bh_ty bh = BtRaw \<or> bh_ty bh = BtCompressed) \<and> block_max < bh_size bh then Some (Inl BlockTooLarge)
          else (case rd_take (payload_len bh) r of
              Inl e \<Rightarrow> Some (Inl e)
            | Inr (d, r) \<Rightarrow> if bh_last bh then Some (Inr r) else skip_block_loop block_max r))"

definition skip_blocks :: "reader \<Rightarrow> frame_header \<Rightarrow> reader res option" where
  "skip_blocks r h =
     then_do (skip_block_loop (block_size_max h) r) (\<lambda>r.
       if fh_checksum h then Some (rbind (rd_u32_le r) (\<lambda>(v, r). Inr r)) else Some (Inr r))"

definition find_frame_compressed_size :: "bytes \<Rightarrow> nat res option" where
  "find_frame_compressed_size src =
     then_do (Some (parse_kind (rd_new src))) (\<lambda>(kind, r). case kind of
         FkSkippable m n \<Rightarrow> then_do (Some (rd_take n r)) (\<lambda>(d, r). Some (Inr (rd_pos r)))
       | FkZstd h \<Rightarrow> then_do (skip_blocks r h) (\<lambda>r. Some (Inr (rd_pos r))))"

partial_function (option) content_size_loop :: "reader \<Rightarrow> nat option res option" where
  "content_size_loop r =
     (case parse_kind r of
        Inl e \<Rightarrow> Some (Inl e)
      | Inr (FkSkippable m n, r) \<Rightarrow> (case rd_take n r of Inl e \<Rightarrow> Some (Inl e) | Inr (d, r) \<Rightarrow> content_size_loop r)
      | Inr (FkZstd h, r) \<Rightarrow> Some (Inr (fh_content_size h)))"

definition content_size :: "bytes \<Rightarrow> nat option res option" where
  "content_size src = content_size_loop (rd_new src)"

record listed_frame =
  lf_kind :: frame_kind
  lf_size :: nat

partial_function (option) inspect_loop :: "bytes \<Rightarrow> nat \<Rightarrow> listed_frame list \<Rightarrow> listed_frame list res option" where
  "inspect_loop src off out =
     (if length src \<le> off then Some (Inr out)
      else Option.bind (find_frame_compressed_size (drop off src)) (\<lambda>x. case x of
          Inl e \<Rightarrow> Some (Inl e)
        | Inr n \<Rightarrow>
            if n = 0 then Some (Inl Corruption)
            else if length src < off + n then None
            else (case get_frame_header (take n (drop off src)) of
                Inl e \<Rightarrow> Some (Inl e)
              | Inr kind \<Rightarrow> inspect_loop src (off + n) (out @ [\<lparr> lf_kind = kind, lf_size = n \<rparr>]))))"

definition inspect_frames :: "bytes \<Rightarrow> listed_frame list res option" where
  "inspect_frames src = (if src = [] then Some (Inl UnexpectedEof) else inspect_loop src 0 [])"

record block_census =
  ce_raw :: nat
  ce_rle :: nat
  ce_compressed :: nat
  ce_raw_bytes :: nat
  ce_rle_regen :: nat
  ce_payload :: nat

definition count_block :: "block_header \<Rightarrow> block_census \<Rightarrow> block_census" where
  "count_block bh c =
     (case bh_ty bh of
        BtRaw \<Rightarrow> c\<lparr> ce_raw := ce_raw c + 1, ce_raw_bytes := ce_raw_bytes c + bh_size bh \<rparr>
      | BtRle \<Rightarrow> c\<lparr> ce_rle := ce_rle c + 1, ce_rle_regen := ce_rle_regen c + bh_size bh \<rparr>
      | BtCompressed \<Rightarrow> c\<lparr> ce_compressed := ce_compressed c + 1, ce_payload := ce_payload c + bh_size bh \<rparr>)"

partial_function (option) census_loop :: "reader \<Rightarrow> block_census \<Rightarrow> block_census res option" where
  "census_loop r c =
     (case parse_block_header r of
        Inl e \<Rightarrow> Some (Inl e)
      | Inr (bh, r) \<Rightarrow> (case rd_take (payload_len bh) r of
            Inl e \<Rightarrow> Some (Inl e)
          | Inr (d, r) \<Rightarrow> if bh_last bh then Some (Inr (count_block bh c)) else census_loop r (count_block bh c)))"

definition frame_block_census :: "bytes \<Rightarrow> block_census res option" where
  "frame_block_census src =
     then_do (Some (parse_kind (rd_new src))) (\<lambda>(kind, r). case kind of
         FkSkippable m n \<Rightarrow> Some (Inl BadMagic)
       | FkZstd h \<Rightarrow> census_loop r \<lparr> ce_raw = 0, ce_rle = 0, ce_compressed = 0, ce_raw_bytes = 0, ce_rle_regen = 0, ce_payload = 0 \<rparr>)"

section \<open>The reference\<close>

text \<open>
  The same input as pure functions on byte lists: no capacity, no hash arm, no cells. A block appends
  its payload, its repeated byte, or what its sections' references append.
\<close>

definition compressed_ref :: "seq_arms \<Rightarrow> bytes \<Rightarrow> bytes \<Rightarrow> frame_ctx \<Rightarrow> dec_state \<Rightarrow> (bytes \<times> dec_state) res" where
  "compressed_ref A payload out fx st =
     (case decode_literals (rd_new payload) (ds_huff st) (fx_block_max fx) of
        None \<Rightarrow> Inl Corruption
      | Some (Inl e) \<Rightarrow> Inl e
      | Some (Inr (lits, r, huff)) \<Rightarrow>
          rbind (decode_sequences_ref A (rd_rest r) lits out fx (ds_seq st)) (\<lambda>(out, sq). Inr (out, \<lparr> ds_huff = huff, ds_seq = sq \<rparr>)))"

definition block_ref :: "seq_arms \<Rightarrow> frame_call \<Rightarrow> block_header \<Rightarrow> reader \<Rightarrow> bytes \<Rightarrow> dec_state \<Rightarrow> (reader \<times> bytes \<times> dec_state) res" where
  "block_ref A C bh r out st =
     (let n = bh_size bh
      in if block_size_max (fc_header C) < n then Inl BlockTooLarge
         else case bh_ty bh of
           BtRaw \<Rightarrow> if fc_out_cap C - length out < n then Inl ContentSizeTooLarge
             else rbind (rd_take n r) (\<lambda>(payload, r). Inr (r, out @ payload, st))
         | BtRle \<Rightarrow> if fc_out_cap C - length out < n then Inl ContentSizeTooLarge
             else rbind (rd_u8 r) (\<lambda>(b, r). Inr (r, out @ replicate n b, st))
         | BtCompressed \<Rightarrow> rbind (rd_take n r) (\<lambda>(payload, r).
             rbind (compressed_ref A payload out (block_fx C) st) (\<lambda>(out, st).
             if fc_out_cap C < length out then Inl ContentSizeTooLarge else Inr (r, out, st))))"

lemma rd_take_less: "rd_take n r = Inr (s, r') \<Longrightarrow> rd_remaining r' \<le> rd_remaining r"
  by (auto simp: rd_take_def res_simps checked_add_def rd_remaining_def split: if_splits)

lemma rd_u8_less: "rd_u8 r = Inr (b, r') \<Longrightarrow> rd_remaining r' \<le> rd_remaining r"
  by (auto simp: rd_u8_def res_simps rd_remaining_def)

lemma rd_array_remaining: "rd_array n r = Inr s \<Longrightarrow> n \<le> rd_remaining r"
  by (auto simp: rd_array_def res_simps slice_get_def rd_remaining_def sat_add_def split: if_splits)

lemma parse_block_header_less: "parse_block_header r = Inr (bh, r') \<Longrightarrow> rd_remaining r' + 3 = rd_remaining r"
  by (auto simp: parse_block_header_def rd_u24_le_def res_simps Let_def rd_remaining_def split: if_splits
      dest!: rd_array_remaining)

lemma block_ref_less: "block_ref A C bh r out st = Inr (r', x) \<Longrightarrow> rd_remaining r' \<le> rd_remaining r"
  by (auto simp: block_ref_def res_simps Let_def split: if_splits block_type.splits dest: rd_take_less rd_u8_less)

function blocks_ref :: "seq_arms \<Rightarrow> frame_call \<Rightarrow> reader \<Rightarrow> bytes \<Rightarrow> dec_state \<Rightarrow> (reader \<times> bytes) res" where
  "blocks_ref A C r out st =
     (case parse_block_header r of
        Inl e \<Rightarrow> Inl e
      | Inr (bh, r) \<Rightarrow> (case block_ref A C bh r out st of
            Inl e \<Rightarrow> Inl e
          | Inr (r, out, st) \<Rightarrow> if bh_last bh then Inr (r, out) else blocks_ref A C r out st))"
  by pat_completeness auto
termination
  by (relation "measure (\<lambda>(A, C, r, out, st). rd_remaining r)")
    (auto dest!: parse_block_header_less block_ref_less)

declare blocks_ref.simps [simp del]

definition frame_ref :: "seq_arms \<Rightarrow> reader \<Rightarrow> frame_header \<Rightarrow> decode_opts \<Rightarrow> dictionary option \<Rightarrow> bytes \<Rightarrow> bytes \<Rightarrow> nat
    \<Rightarrow> (reader \<times> bytes) res" where
  "frame_ref A r h opts dict hist out out_cap =
     (if do_window_max opts < fh_window_size h then Inl WindowTooLarge
      else
        rbind (check_dict h dict) (\<lambda>_.
        if \<exists>n. fh_content_size h = Some n \<and> out_cap - length out < n then Inl ContentSizeTooLarge
        else
          let C = \<lparr> fc_header = h, fc_hist = hist, fc_out_cap = out_cap, fc_start = length out \<rparr>
          in rbind (blocks_ref A C r out (from_dict dict)) (\<lambda>(r, out').
             rbind (if fh_checksum h then rbind (rd_u32_le r) (\<lambda>(got, r).
                 if \<not> do_ignore_checksum opts \<and> content_checksum ArmScalar (drop (length out) out') \<noteq> got
                 then Inl ChecksumMismatch else Inr r) else Inr r) (\<lambda>r.
             if \<exists>n. fh_content_size h = Some n \<and> length out' - length out \<noteq> n then Inl ContentSizeMismatch else Inr (r, out')))))"

section \<open>The code against the reference\<close>

definition dec_wf :: "dec_state \<Rightarrow> bool" where
  "dec_wf st \<longleftrightarrow> pred_option huff_wf (ds_huff st) \<and> state_wf (ds_seq st)"

text \<open>The output so far and what the rest of the input can still add stay far below the address space.\<close>

definition fits :: "reader \<Rightarrow> bytes \<Rightarrow> bool" where
  "fits r out \<longleftrightarrow> length out + (rd_remaining r + 1) * BLOCKSIZE_MAX < 2 ^ 61"

lemma block_max_le: "block_size_max h \<le> BLOCKSIZE_MAX"
  by (simp add: block_size_max_def)

lemma rd_rest_wf: "rd_wf r \<Longrightarrow> length (rd_rest r) < 2 ^ 63"
  by (auto simp: rd_wf_def rd_rest_def)

lemma rd_take_len: "rd_wf r \<Longrightarrow> rd_take n r = Inr (s, r') \<Longrightarrow> length s < 2 ^ 63"
  using rd_rest_wf [of r] by (auto simp: rd_take_eq split: if_splits)

lemma block_max_pos: "fh_window_size h = 0 \<Longrightarrow> block_size_max h = 0"
  by (simp add: block_size_max_def)

lemma compressed_ref_ok:
  assumes "dec_wf st" "vec_is v out" "length payload < 2 ^ 63" "length out + fx_block_max fx + fx_frame_skipped fx < 2 ^ 62"
    "fx_window_size fx < 2 ^ 64" "fx_frame_start fx \<le> length out" "\<not> ar_pipeline A" "\<not> ar_pipe1 A"
  shows "case compressed_ref A payload out fx st of
      Inl e \<Rightarrow> decode_compressed_block A payload v fx st = Some (Inl e) \<and> e \<in> LIT_ERRORS
    | Inr (out', st') \<Rightarrow> (\<exists>v'. decode_compressed_block A payload v fx st = Some (Inr (v', st')) \<and> vec_is v' out')
        \<and> dec_wf st' \<and> (\<exists>xs. out' = out @ xs \<and> length xs \<le> fx_block_max fx)"
proof -
  have wf: "rd_wf (rd_new payload)" "pred_option huff_wf (ds_huff st)" "state_wf (ds_seq st)"
    using assms(1,3) by (simp_all add: dec_wf_def)
  from decode_literals_ok [OF wf(1,2), of "fx_block_max fx"] show ?thesis
  proof (cases rule: safe_in_cases)
    case (1 e)
    then show ?thesis by (simp add: compressed_ref_def decode_compressed_block_def)
  next
    case (2 x)
    obtain lits r huff where x: "x = (lits, r, huff)" by (metis prod.exhaust)
    have l: "pred_option huff_wf huff" "length lits \<le> fx_block_max fx" "past (rd_new payload) r" using 2(2) by (auto simp: x)
    have rw: "rd_wf r" using past_wf [OF wf(1) l(3)] .
    have tk: "rd_take (rd_remaining r) r = Inr (rd_rest r, rd_skip (rd_remaining r) r)"
      using rd_take_eq [OF rw, of "rd_remaining r"] by (simp add: rd_rest_length [symmetric])
    have pre: "block_pre lits v out fx" using assms(2,4-6) l(2) by (simp add: block_pre_def)
    note d = decode_sequences_ok [where src = "rd_rest r", OF wf(3) pre assms(7,8)]
    note s = decode_sequences_ref_safe [where A = A and src = "rd_rest r" and out = out, OF wf(3) l(2)]
    show ?thesis
    proof (cases "decode_sequences_ref A (rd_rest r) lits out fx (ds_seq st)")
      case (Inl e)
      with d s tk 2(1) show ?thesis by (simp add: x compressed_ref_def decode_compressed_block_def)
    next
      case (Inr p)
      obtain out' sq where p: "p = (out', sq)" by (metis prod.exhaust)
      obtain v' where "decode_sequences A (rd_rest r) lits v fx (ds_seq st) = Some (Inr (v', sq))" "vec_is v' out'"
        using d by (auto simp: Inr p)
      with s tk 2(1) l(1) Inr p show ?thesis
        by (auto simp: x compressed_ref_def decode_compressed_block_def dec_wf_def)
    qed
  qed
qed

text \<open>What a frame's loop keeps, with the reader, the bytes and the state the reference has there.\<close>

definition frame_at :: "frame_call \<Rightarrow> frame_state \<Rightarrow> reader \<Rightarrow> bytes \<Rightarrow> dec_state \<Rightarrow> bool" where
  "frame_at C F r out st \<longleftrightarrow> fs_rd F = r \<and> rd_wf r \<and> vec_is (fs_out F) out \<and> fs_st F = st \<and> dec_wf st
     \<and> fits r out \<and> fc_start C \<le> length out \<and> fs_hashed F \<le> length out \<and> fc_start C \<le> fs_hashed F
     \<and> (\<forall>h. fs_running F = Some h \<longrightarrow> xx_inv h (drop (fc_start C) (take (fs_hashed F) out)))"

definition hashed :: "frame_state \<Rightarrow> bytes \<Rightarrow> bool" where
  "hashed F out \<longleftrightarrow> (fs_running F \<noteq> None \<longrightarrow> fs_hashed F = length out)"

lemma vec_bytes_is: "vec_is v out \<Longrightarrow> vec_bytes a v = Some (drop a out)"
  by (simp add: vec_is_def mem_is_def vec_bytes_def drop_map)

lemma reserve_from_ratio_at: "frame_at C F r out st \<Longrightarrow> frame_at C (reserve_from_ratio C bh F) r out st"
  using vec_reserve_is
  by (auto simp: frame_at_def reserve_from_ratio_def Let_def try_reserve_def split: option.split)

lemma fits_append:
  assumes "fits r out" "rd_remaining r' + 1 \<le> rd_remaining r" "length xs \<le> BLOCKSIZE_MAX"
  shows "fits r' (out @ xs)"
proof -
  have "(rd_remaining r' + 2) * BLOCKSIZE_MAX \<le> (rd_remaining r + 1) * BLOCKSIZE_MAX" using assms(2) by (intro mult_le_mono1) simp
  then show ?thesis using assms(1,3) by (simp add: fits_def add_mult_distrib)
qed

lemma fits_less:
  assumes "fits r out" "rd_remaining r' \<le> rd_remaining r"
  shows "fits r' out"
proof -
  have "(rd_remaining r' + 1) * BLOCKSIZE_MAX \<le> (rd_remaining r + 1) * BLOCKSIZE_MAX" using assms(2) by (intro mult_le_mono1) simp
  then show ?thesis using assms(1) unfolding fits_def by linarith
qed

text \<open>A block read after its header: the reader stands three bytes further than where \<open>fits\<close> held.\<close>

lemma decode_block_ok:
  assumes "frame_at C F r out st" "fits r0 out" "rd_remaining r + 3 = rd_remaining r0"
    "fh_window_size (fc_header C) < 2 ^ 64" "\<not> ar_pipeline A" "\<not> ar_pipe1 A"
  shows "case block_ref A C bh r out st of
      Inl e \<Rightarrow> decode_block A C bh F = Some (Inl e)
    | Inr (r', out', st') \<Rightarrow> (\<exists>F'. decode_block A C bh F = Some (Inr F') \<and> frame_at C F' r' out' st'
        \<and> fs_running F' = fs_running F \<and> fs_hashed F' = fs_hashed F) \<and> (\<exists>xs. out' = out @ xs \<and> length xs \<le> block_size_max (fc_header C))"
proof (cases "block_size_max (fc_header C) < bh_size bh")
  case True
  then show ?thesis by (simp add: block_ref_def decode_block_def Let_def)
next
  case False
  let ?n = "bh_size bh" and ?bm = "block_size_max (fc_header C)"
  have n: "?n \<le> ?bm" "?bm \<le> BLOCKSIZE_MAX" using False block_max_le by simp_all
  have f: "fs_rd F = r" "rd_wf r" "vec_is (fs_out F) out" "fs_st F = st" "dec_wf st" "fc_start C \<le> length out" "v_len (fs_out F) = length out"
    "fs_hashed F \<le> length out" using assms(1) by (auto simp: frame_at_def vec_is_def)
  have at: "frame_at C (F\<lparr> fs_rd := r', fs_out := v', fs_st := st' \<rparr>) r' (out @ xs) st'"
    if "advanced r 0 k r'" "vec_is v' (out @ xs)" "length xs \<le> BLOCKSIZE_MAX" "dec_wf st'" for k r' v' xs st'
  proof -
    have "rd_remaining r' \<le> rd_remaining r" using that(1) by (auto simp: advanced_def rd_remaining_def)
    then have "fits r' (out @ xs)" using fits_append [OF assms(2) _ that(3), of r'] assms(3) by simp
    then show ?thesis using assms(1) that(2,4) advanced_wf [OF f(2) that(1)] by (auto simp: frame_at_def)
  qed
  show ?thesis
  proof (cases "bh_ty bh")
    case BtRaw
    then show ?thesis
      using False f n at [of "bh_size bh" _ "vec_extend (map Some (take ?n (rd_rest r))) (fs_out F)" "take ?n (rd_rest r)" st]
        vec_extend_is [OF f(3), of "take ?n (rd_rest r)"] rd_take_eq [OF f(2), of ?n]
      by (auto simp: block_ref_def decode_block_def Let_def advanced_skip intro!: exI [of _ "take ?n (rd_rest r)"])
  next
    case BtRle
    show ?thesis
    proof (cases "rd_u8 r")
      case (Inl e)
      then show ?thesis using BtRle False f by (simp add: block_ref_def decode_block_def Let_def)
    next
      case (Inr p)
      obtain b r' where p: "p = (b, r')" by (metis prod.exhaust)
      have a: "advanced r 0 1 r'" using f8.rd_advanced [OF f(2) Inr [unfolded p], of 0 1] by simp
      show ?thesis
        using BtRle False f n Inr p at [OF a, of "vec_extend (replicate ?n (Some b)) (fs_out F)" "replicate ?n b" st]
          vec_extend_is [OF f(3), of "replicate ?n b"]
        by (auto simp: block_ref_def decode_block_def Let_def)
    qed
  next
    case BtCompressed
    show ?thesis
    proof (cases "rd_take ?n r")
      case (Inl e)
      then show ?thesis using BtCompressed False f by (simp add: block_ref_def decode_block_def Let_def)
    next
      case (Inr p)
      obtain payload r' where p: "p = (payload, r')" by (metis prod.exhaust)
      have a: "advanced r 0 ?n r'" using Inr rd_take_eq [OF f(2), of ?n] by (auto simp: p advanced_skip split: if_splits)
      have bfx: "fx_block_max (block_fx C) = ?bm" by (simp add: block_fx_def)
      have "length out + ?bm < 2 ^ 62" using assms(2) n(2) by (simp add: fits_def add_mult_distrib)
      then have c: "case compressed_ref A payload out (block_fx C) st of
          Inl e \<Rightarrow> decode_compressed_block A payload (fs_out F) (block_fx C) st = Some (Inl e) \<and> e \<in> LIT_ERRORS
        | Inr (out', st') \<Rightarrow> (\<exists>v'. decode_compressed_block A payload (fs_out F) (block_fx C) st = Some (Inr (v', st')) \<and> vec_is v' out')
            \<and> dec_wf st' \<and> (\<exists>xs. out' = out @ xs \<and> length xs \<le> fx_block_max (block_fx C))"
        using f(6) assms(4) by (intro compressed_ref_ok f(5) f(3) rd_take_len [OF f(2) Inr [unfolded p]] assms(5,6)) (simp_all add: block_fx_def)
      show ?thesis
      proof (cases "compressed_ref A payload out (block_fx C) st")
        case (Inl e)
        then show ?thesis using c BtCompressed False f Inr p by (simp add: block_ref_def decode_block_def Let_def)
      next
        case ok: (Inr q)
        obtain out' st' where q: "q = (out', st')" by (metis prod.exhaust)
        obtain v' xs where v: "decode_compressed_block A payload (fs_out F) (block_fx C) st = Some (Inr (v', st'))" "vec_is v' (out @ xs)"
          "out' = out @ xs" "dec_wf st'" "length xs \<le> ?bm"
          using c bfx unfolding ok q by auto
        have "v_len v' = length out'" using v(2,3) by (simp add: vec_is_def)
        then show ?thesis
          using BtCompressed False f Inr p ok q v at [OF a v(2) _ v(4)] n(2) by (simp add: block_ref_def decode_block_def Let_def)
      qed
    qed
  qed
qed

lemma parse_block_header_ok:
  assumes "rd_wf r" "parse_block_header r = Inr (bh, r')"
  shows "rd_wf r'" "rd_remaining r' + 3 = rd_remaining r"
proof -
  show "rd_wf r'"
    using assms by (auto simp: parse_block_header_def res_simps Let_def split: if_splits dest: f24.rd_InrD(5))
  show "rd_remaining r' + 3 = rd_remaining r" by (rule parse_block_header_less [OF assms(2)])
qed

lemma hash_block_ok:
  assumes "frame_at C F r out st"
  shows "\<exists>F'. hash_block xx F = Some F' \<and> frame_at C F' r out st \<and> hashed F' out"
proof (cases "fs_running F")
  case None
  then show ?thesis using assms by (auto simp: hash_block_def hashed_def)
next
  case (Some h)
  have f: "vec_is (fs_out F) out" "fs_hashed F \<le> length out" "fc_start C \<le> fs_hashed F" "v_len (fs_out F) = length out"
    "xx_inv h (drop (fc_start C) (take (fs_hashed F) out))"
    using assms Some by (auto simp: frame_at_def vec_is_def)
  have "drop (fc_start C) (take (fs_hashed F) out) @ drop (fs_hashed F) out = drop (fc_start C) out"
    using f(2,3) by (metis append_take_drop_id drop_append diff_is_0_eq drop_0 length_take min.absorb2)
  then have "xx_inv (xx_update xx (drop (fs_hashed F) out) h) (drop (fc_start C) out)"
    using xx_update_inv [OF f(5), of xx "drop (fs_hashed F) out"] by simp
  then show ?thesis
    using assms Some f(4) vec_bytes_is [OF f(1)] by (auto simp: hash_block_def frame_at_def hashed_def)
qed

lemma frame_loop_ok:
  assumes "frame_at C F r out st" "fh_window_size (fc_header C) < 2 ^ 64" "\<not> ar_pipeline (fa_seq A)" "\<not> ar_pipe1 (fa_seq A)"
  shows "case blocks_ref (fa_seq A) C r out st of
      Inl e \<Rightarrow> frame_loop A C F = Some (Inl e)
    | Inr (r', out') \<Rightarrow> (\<exists>F' st'. frame_loop A C F = Some (Inr F') \<and> frame_at C F' r' out' st' \<and> hashed F' out'
        \<and> (fs_running F' = None \<longleftrightarrow> fs_running F = None))
        \<and> (\<exists>xs. out' = out @ xs \<and> 3 * length xs \<le> (rd_remaining r - rd_remaining r') * block_size_max (fc_header C))
        \<and> rd_remaining r' + 3 \<le> rd_remaining r"
  using assms(1)
proof (induction "rd_remaining r" arbitrary: F r out st rule: less_induct)
  case less
  let ?bm = "block_size_max (fc_header C)"
  have f: "fs_rd F = r" "rd_wf r" "fits r out" using less.prems by (auto simp: frame_at_def)
  show ?case
  proof (cases "parse_block_header r")
    case (Inl e)
    then show ?thesis using f by (simp add: blocks_ref.simps [of _ _ r] frame_loop.simps [of _ _ F] frame_pass_def)
  next
    case (Inr p)
    obtain bh r1 where p: "p = (bh, r1)" by (metis prod.exhaust)
    note h = parse_block_header_ok [OF f(2) Inr [unfolded p]]
    have fits1: "fits r1 out" using fits_append [OF f(3), of r1 "[]"] h(2) by simp
    have "frame_at C (F\<lparr> fs_rd := r1 \<rparr>) r1 out st" using less.prems h(1) fits1 by (auto simp: frame_at_def)
    then have at: "frame_at C (reserve_from_ratio C bh (F\<lparr> fs_rd := r1 \<rparr>)) r1 out st" by (rule reserve_from_ratio_at)
    let ?F = "reserve_from_ratio C bh (F\<lparr> fs_rd := r1 \<rparr>)"
    have run: "fs_running ?F = fs_running F" by (simp add: reserve_from_ratio_def Let_def)
    note d = decode_block_ok [OF at f(3) h(2) assms(2-4), of bh]
    show ?thesis
    proof (cases "block_ref (fa_seq A) C bh r1 out st")
      case bad: (Inl e)
      then show ?thesis using d f Inr p by (simp add: blocks_ref.simps [of _ _ r] frame_loop.simps [of _ _ F] frame_pass_def)
    next
      case ok: (Inr q)
      obtain r2 out2 st2 where q: "q = (r2, out2, st2)" by (metis prod.exhaust)
      obtain F2 xs where F2: "decode_block (fa_seq A) C bh ?F = Some (Inr F2)" "frame_at C F2 r2 out2 st2" "fs_running F2 = fs_running F"
        "out2 = out @ xs" "length xs \<le> ?bm" using d run by (auto simp: ok q)
      obtain F3 where F3: "hash_block (fa_xx A) F2 = Some F3" "frame_at C F3 r2 out2 st2" "hashed F3 out2"
        using hash_block_ok [OF F2(2)] by blast
      have run3: "fs_running F3 = None \<longleftrightarrow> fs_running F = None"
        using F3(1) F2(3) by (auto simp: hash_block_def split: option.splits bind_splits)
      have pass: "frame_pass A C F = Some (Inr (bh_last bh, F3))" using f Inr p F2(1) F3(1) by (simp add: frame_pass_def)
      have rem: "rd_remaining r2 + 3 \<le> rd_remaining r" using block_ref_less [OF ok [unfolded q]] h(2) by simp
      show ?thesis
      proof (cases "bh_last bh")
        case True
        have "3 * length xs \<le> 3 * ?bm" using F2(5) by simp
        also have "\<dots> \<le> (rd_remaining r - rd_remaining r2) * ?bm" using rem by (intro mult_le_mono1) simp
        finally show ?thesis
          using True pass Inr p ok q F2(4) F3 run3 rem
          by (auto simp: blocks_ref.simps [of _ _ r] frame_loop.simps [of _ _ F])
      next
        case False
        have eq: "blocks_ref (fa_seq A) C r out st = blocks_ref (fa_seq A) C r2 out2 st2" "frame_loop A C F = frame_loop A C F3"
          using False pass Inr p ok q by (simp_all add: blocks_ref.simps [of _ _ r] frame_loop.simps [of _ _ F])
        have "rd_remaining r2 < rd_remaining r" using rem by simp
        note ih = less.hyps [OF this F3(2)]
        show ?thesis
        proof (cases "blocks_ref (fa_seq A) C r2 out2 st2")
          case (Inl e)
          then show ?thesis using ih by (simp add: eq)
        next
          case done': (Inr w)
          obtain r' out' where w: "w = (r', out')" by (metis prod.exhaust)
          obtain ys where ys: "out' = out2 @ ys" "3 * length ys \<le> (rd_remaining r2 - rd_remaining r') * ?bm" "rd_remaining r' + 3 \<le> rd_remaining r2"
            using ih by (auto simp: done' w)
          have "3 * length (xs @ ys) \<le> 3 * ?bm + (rd_remaining r2 - rd_remaining r') * ?bm" using ys(2) F2(5) by simp
          also have "\<dots> = (3 + (rd_remaining r2 - rd_remaining r')) * ?bm" by (simp only: add_mult_distrib)
          also have "\<dots> \<le> (rd_remaining r - rd_remaining r') * ?bm" using rem ys(3) by (intro mult_le_mono1) simp
          finally show ?thesis using ih F2(4) ys(1,3) rem run3 unfolding eq done' w by auto
        qed
      qed
    qed
  qed
qed

definition dict_wf :: "dictionary option \<Rightarrow> bool" where
  "dict_wf dict \<longleftrightarrow> dec_wf (from_dict dict)"

lemma no_dict_wf [simp]: "dict_wf None"
  by (simp add: dict_wf_def from_dict_def dec_state_new_def dec_wf_def block_state_new_wf)

lemma content_checksum_arm: "content_checksum arm d = content_checksum ArmScalar d"
  by (simp add: content_checksum_def xxh64_def xxh64_seed_ref)

lemma frame_checksum_ok:
  assumes "frame_at C F r out st" "hashed F out"
  shows "frame_checksum A opts C F = Some (if fh_checksum (fc_header C) then rbind (rd_u32_le r) (\<lambda>(got, r).
      if \<not> do_ignore_checksum opts \<and> content_checksum ArmScalar (drop (fc_start C) out) \<noteq> got then Inl ChecksumMismatch else Inr r)
    else Inr r)"
proof -
  have f: "fs_rd F = r" "vec_is (fs_out F) out" "length out < 2 ^ 64" using assms(1) by (auto simp: frame_at_def fits_def)
  have "(case fs_running F of Some h \<Rightarrow> Some (unat (xx_digest h) mod 2 ^ 32)
      | None \<Rightarrow> Option.bind (vec_bytes (fc_start C) (fs_out F)) (\<lambda>d. Some (content_checksum (fa_xx A) d)))
    = Some (content_checksum ArmScalar (drop (fc_start C) out))"
  proof (cases "fs_running F")
    case None
    then show ?thesis using vec_bytes_is [OF f(2)] content_checksum_arm [of "fa_xx A"] by simp
  next
    case (Some h)
    then have "xx_inv h (drop (fc_start C) out)" using assms by (auto simp: frame_at_def hashed_def)
    then have "xx_digest h = xxh64 ArmScalar (drop (fc_start C) out)" using f(3) by (intro xx_digest_inv) simp_all
    then show ?thesis using Some by (simp add: content_checksum_def)
  qed
  then show ?thesis using f(1) by (cases "rd_u32_le r") (auto simp: frame_checksum_def)
qed

section \<open>A frame and a series of frames\<close>

lemma reserve_declared_ok:
  assumes "vec_is v out" "fits r out"
  shows "case reserve_declared h out_cap r v of
      Inl e \<Rightarrow> e = ContentSizeTooLarge \<and> (\<exists>n. fh_content_size h = Some n \<and> out_cap - length out < n)
    | Inr v' \<Rightarrow> vec_is v' out \<and> \<not> (\<exists>n. fh_content_size h = Some n \<and> out_cap - length out < n)"
proof (cases "fh_content_size h")
  case None
  then show ?thesis using assms(1) by (simp add: reserve_declared_def)
next
  case (Some n)
  let ?k = "sat_add USIZE_MAX (min n (sat_mul USIZE_MAX (rd_remaining r div 3) (block_size_max h))) COPY_PAD"
  have "?k \<le> rd_remaining r div 3 * block_size_max h + COPY_PAD" by (simp add: sat_add_def sat_mul_def)
  also have "\<dots> \<le> rd_remaining r * BLOCKSIZE_MAX + COPY_PAD" using block_max_le by (intro add_le_mono1 mult_le_mono) simp_all
  finally have "v_len v + ?k < 2 ^ 63" using assms by (simp add: fits_def vec_is_def COPY_PAD_def add_mult_distrib)
  moreover have "v_len v = length out" using assms(1) by (simp add: vec_is_def)
  ultimately show ?thesis
    using Some vec_reserve_is(1) [OF assms(1), of ?k] by (simp add: reserve_declared_def try_reserve_def Let_def)
qed

lemma decode_zstd_frame_ok:
  assumes "rd_wf r" "vec_is v out" "fits r out" "dict_wf dict" "fh_window_size h < 2 ^ 64"
    and "\<not> ar_pipeline (fa_seq A)" "\<not> ar_pipe1 (fa_seq A)"
  shows "case frame_ref (fa_seq A) r h opts dict hist out out_cap of
      Inl e \<Rightarrow> decode_zstd_frame A r h opts dict hist v out_cap = Some (Inl e)
    | Inr (r', out') \<Rightarrow> (\<exists>v'. decode_zstd_frame A r h opts dict hist v out_cap = Some (Inr (r', v')) \<and> vec_is v' out')
        \<and> rd_wf r' \<and> fits r' out' \<and> rd_remaining r' < rd_remaining r
        \<and> (\<exists>xs. out' = out @ xs \<and> 3 * length xs \<le> (rd_remaining r - rd_remaining r') * block_size_max h)"
proof (cases "do_window_max opts < fh_window_size h")
  case True
  then show ?thesis by (simp add: frame_ref_def decode_zstd_frame_def)
next
  case win: False
  show ?thesis
  proof (cases "check_dict h dict")
    case (Inl e)
    then show ?thesis using win by (simp add: frame_ref_def decode_zstd_frame_def)
  next
    case dic: (Inr u)
    note rs = reserve_declared_ok [OF assms(2,3), of h out_cap]
    show ?thesis
    proof (cases "reserve_declared h out_cap r v")
      case (Inl e)
      then show ?thesis using win dic rs by (auto simp: frame_ref_def decode_zstd_frame_def)
    next
      case res: (Inr v1)
      have v1: "vec_is v1 out" "v_len v1 = length out" and nc: "\<not> (\<exists>n. fh_content_size h = Some n \<and> out_cap - length out < n)"
        using rs by (auto simp: res vec_is_def)
      define C where "C = \<lparr> fc_header = h, fc_hist = hist, fc_out_cap = out_cap, fc_start = length out \<rparr>"
      define running where "running = (if fh_checksum h \<and> \<not> do_ignore_checksum opts
          \<and> (fa_ck_stream A \<or> (case fh_content_size h of Some n \<Rightarrow> fa_ck_fuse_min A \<le> n | None \<Rightarrow> False)) then Some xx_new else None)"
      define F where "F = \<lparr> fs_rd = r, fs_out = v1, fs_st = from_dict dict, fs_running = running,
               fs_hashed = length out, fs_sized = (fh_content_size h \<noteq> None) \<rparr>"
      have at: "frame_at C F r out (from_dict dict)"
        using assms(1,3,4) v1 xx_new_inv by (auto simp: frame_at_def F_def C_def dict_wf_def running_def)
      have hC: "fc_header C = h" "fc_start C = length out" by (simp_all add: C_def)
      have code: "decode_zstd_frame A r h opts dict hist v out_cap =
        then_do (frame_loop A C F) (\<lambda>F. then_do (frame_checksum A opts C F) (\<lambda>r.
           case fh_content_size h of
             Some n \<Rightarrow> if v_len (fs_out F) - length out \<noteq> n then Some (Inl ContentSizeMismatch) else Some (Inr (r, fs_out F))
           | None \<Rightarrow> Some (Inr (r, fs_out F))))"
        using win dic res v1(2)
        by (cases "fh_content_size h") (simp_all add: decode_zstd_frame_def Let_def C_def running_def F_def)
      have ref: "frame_ref (fa_seq A) r h opts dict hist out out_cap =
        rbind (blocks_ref (fa_seq A) C r out (from_dict dict)) (\<lambda>(r, out').
             rbind (if fh_checksum h then rbind (rd_u32_le r) (\<lambda>(got, r).
                 if \<not> do_ignore_checksum opts \<and> content_checksum ArmScalar (drop (length out) out') \<noteq> got
                 then Inl ChecksumMismatch else Inr r) else Inr r) (\<lambda>r.
             if \<exists>n. fh_content_size h = Some n \<and> length out' - length out \<noteq> n then Inl ContentSizeMismatch else Inr (r, out')))"
        unfolding frame_ref_def Let_def C_def [symmetric] if_not_P [OF nc] if_not_P [OF win] dic rbind_simps ..
      note l = frame_loop_ok [where A = A, OF at [folded], unfolded hC, OF assms(5-7)]
      show ?thesis
      proof (cases "blocks_ref (fa_seq A) C r out (from_dict dict)")
        case (Inl e)
        then show ?thesis using l by (simp add: code ref)
      next
        case (Inr p)
        obtain r1 out1 where p: "p = (r1, out1)" by (metis prod.exhaust)
        obtain F1 st1 xs where F1: "frame_loop A C F = Some (Inr F1)" "frame_at C F1 r1 out1 st1" "hashed F1 out1"
          "out1 = out @ xs" "3 * length xs \<le> (rd_remaining r - rd_remaining r1) * block_size_max h" "rd_remaining r1 + 3 \<le> rd_remaining r"
          using l by (auto simp: Inr p hC)
        have o: "vec_is (fs_out F1) out1" "v_len (fs_out F1) = length out1" "rd_wf r1" "fits r1 out1"
          using F1(2) by (auto simp: frame_at_def vec_is_def)
        define ck where "ck = (if fh_checksum h then rbind (rd_u32_le r1) (\<lambda>(got, r).
                 if \<not> do_ignore_checksum opts \<and> content_checksum ArmScalar (drop (length out) out1) \<noteq> got
                 then Inl ChecksumMismatch else Inr r) else Inr r1)"
        have ck: "frame_checksum A opts C F1 = Some ck" using frame_checksum_ok [OF F1(2,3), of A opts] by (simp add: hC ck_def)
        show ?thesis
        proof (cases ck)
          case bad: (Inl e)
          then show ?thesis using F1(1) ck Inr p by (simp add: code ref flip: ck_def)
        next
          case good: (Inr r2)
          have r2: "rd_wf r2" "rd_remaining r2 \<le> rd_remaining r1"
            using good o(3) by (auto simp: ck_def res_simps split: if_splits dest: f32.rd_InrD(2,5) simp: rd_remaining_def)
          have "fits r2 out1" by (rule fits_less [OF o(4) r2(2)])
          moreover have mono: "(rd_remaining r - rd_remaining r1) * block_size_max h \<le> (rd_remaining r - rd_remaining r2) * block_size_max h"
            using r2(2) by (intro mult_le_mono1) simp
          moreover have "frame_ref (fa_seq A) r h opts dict hist out out_cap
              = (if \<exists>n. fh_content_size h = Some n \<and> length out1 - length out \<noteq> n then Inl ContentSizeMismatch else Inr (r2, out1))"
            unfolding ref Inr p rbind_simps prod.case ck_def [symmetric] good ..
          moreover have "decode_zstd_frame A r h opts dict hist v out_cap
              = (if \<exists>n. fh_content_size h = Some n \<and> length out1 - length out \<noteq> n then Some (Inl ContentSizeMismatch) else Some (Inr (r2, fs_out F1)))"
            unfolding code F1(1) then_do_simps ck good o(2) by (simp split: option.split)
          moreover have "rd_remaining r2 < rd_remaining r" using r2(2) F1(6) by simp
          moreover have "3 * length xs \<le> (rd_remaining r - rd_remaining r2) * block_size_max h"
            by (rule order_trans [OF F1(5) mono])
          ultimately show ?thesis using F1(4) o(1) r2(1) by (auto split: if_splits)
        qed
      qed
    qed
  qed
qed

lemma rd_fixed_less:
  "rd_u16_le r = Inr (v, r') \<Longrightarrow> rd_remaining r' \<le> rd_remaining r"
  "rd_u32_le r = Inr (v, r') \<Longrightarrow> rd_remaining r' + 4 = rd_remaining r"
  "rd_u64_le r = Inr (v, r') \<Longrightarrow> rd_remaining r' \<le> rd_remaining r"
  by (auto simp: rd_u16_le_def rd_u32_le_def rd_u64_le_def res_simps rd_remaining_def dest!: rd_array_remaining)

lemma parse_zstd_header_less: "parse_zstd_header r = Inr (h, r') \<Longrightarrow> rd_remaining r' \<le> rd_remaining r"
proof -
  have w: "parse_window_desc b r = Inr (x, r') \<Longrightarrow> rd_remaining r' \<le> rd_remaining r" for b r x r'
    by (auto simp: parse_window_desc_def res_simps split: if_splits dest: rd_u8_less)
  have d: "parse_dict_id f r = Inr (x, r') \<Longrightarrow> rd_remaining r' \<le> rd_remaining r" for f r x r'
    by (auto simp: parse_dict_id_def res_simps split: if_splits dest: rd_u8_less rd_fixed_less)
  have c: "parse_content_size f b r = Inr (x, r') \<Longrightarrow> rd_remaining r' \<le> rd_remaining r" for f b r x r'
    by (auto simp: parse_content_size_def res_simps split: if_splits dest: rd_u8_less rd_fixed_less)
  assume h: "parse_zstd_header r = Inr (h, r')"
  obtain b r1 where b: "rd_u8 r = Inr (b, r1)" using h by (auto simp: parse_zstd_header_def res_simps)
  define single where "single \<longleftrightarrow> b AND 0x20 \<noteq> 0"
  obtain x r2 where x: "parse_window_desc single r1 = Inr (x, r2)"
    using h by (auto simp: parse_zstd_header_def b Let_def res_simps single_def split: if_splits)
  obtain y r3 where y: "parse_dict_id (b AND 3) r2 = Inr (y, r3)"
    using h x by (auto simp: parse_zstd_header_def b Let_def res_simps single_def split: if_splits)
  have "parse_content_size (drop_bit 6 b) single r3 = Inr (fh_content_size h, r')"
    using h x y by (auto simp: parse_zstd_header_def b Let_def res_simps single_def split: if_splits)
  then show ?thesis using rd_u8_less [OF b] w [OF x] d [OF y] c by fastforce
qed

lemma parse_kind_less: "parse_kind r = Inr (k, r') \<Longrightarrow> rd_remaining r' < rd_remaining r"
  by (auto simp: parse_kind_def res_simps split: if_splits dest!: rd_fixed_less(2) parse_zstd_header_less)

lemma blocks_ref_less: "blocks_ref A C r out st = Inr (r', out') \<Longrightarrow> rd_remaining r' \<le> rd_remaining r"
proof (induction A C r out st rule: blocks_ref.induct)
  case (1 A C r out st)
  then show ?case
    by (subst (asm) (2) blocks_ref.simps)
      (fastforce split: sum.splits prod.splits if_splits dest: parse_block_header_less block_ref_less)
qed

lemma frame_ref_less: "frame_ref A r h opts dict hist out out_cap = Inr (r', out') \<Longrightarrow> rd_remaining r' \<le> rd_remaining r"
  by (fastforce simp: frame_ref_def Let_def res_simps split: if_splits dest: blocks_ref_less rd_fixed_less(2))

function frames_ref :: "seq_arms \<Rightarrow> decode_opts \<Rightarrow> dictionary option \<Rightarrow> bytes \<Rightarrow> nat \<Rightarrow> reader \<Rightarrow> bool \<Rightarrow> bytes \<Rightarrow> (bool \<times> bytes) res" where
  "frames_ref A opts dict hist out_cap r saw_zstd out =
     (if rd_is_empty r then Inr (saw_zstd, out)
      else case rbind (check_magic saw_zstd r) (\<lambda>_. parse_kind r) of
        Inl e \<Rightarrow> Inl e
      | Inr (kind, r) \<Rightarrow> (case kind of
            FkSkippable m n \<Rightarrow> (case rd_take n r of
                Inl e \<Rightarrow> Inl e
              | Inr (d, r) \<Rightarrow> frames_ref A opts dict hist out_cap r saw_zstd out)
          | FkZstd h \<Rightarrow> (case frame_ref A r h opts dict hist out out_cap of
                Inl e \<Rightarrow> Inl e
              | Inr (r, out) \<Rightarrow> frames_ref A opts dict hist out_cap r True out)))"
  by pat_completeness auto
termination
  by (relation "measure (\<lambda>(A, opts, dict, hist, out_cap, r, saw_zstd, out). rd_remaining r)")
    (auto simp: res_simps dest!: parse_kind_less rd_take_less frame_ref_less)

declare frames_ref.simps [simp del]

definition decompress_ref :: "seq_arms \<Rightarrow> bytes \<Rightarrow> decode_opts \<Rightarrow> dictionary option \<Rightarrow> bytes \<Rightarrow> bytes \<Rightarrow> nat \<Rightarrow> bytes res" where
  "decompress_ref A src opts dict prefix out out_cap =
     (if src = [] then Inl UnexpectedEof
      else rbind (frames_ref A opts dict (case dict of None \<Rightarrow> prefix | Some d \<Rightarrow> dc_content d) out_cap (rd_new src) False out)
        (\<lambda>(saw, out). if saw then Inr out else Inl UnexpectedEof))"

lemma parse_kind_wf:
  assumes "rd_wf r" "parse_kind r = Inr (k, r')"
  shows "rd_wf r'" "k = FkZstd h \<Longrightarrow> fh_window_size h < 2 ^ 64"
proof -
  obtain m r1 where m: "rd_u32_le r = Inr (m, r1)" using assms(2) by (auto simp: parse_kind_def res_simps)
  have w1: "rd_wf r1" by (rule f32.rd_InrD(5) [OF assms(1) m])
  have z: "rd_wf r' \<and> fh_window_size h < 2 ^ 64" if "parse_zstd_header r1 = Inr (h, r')" for h
    using zstd_header_fields [OF w1 that] advanced_wf [OF w1] by blast
  show "rd_wf r'" "k = FkZstd h \<Longrightarrow> fh_window_size h < 2 ^ 64"
    using assms(2) z f32.rd_InrD(5) [OF w1] by (auto simp: parse_kind_def m res_simps split: if_splits)
qed

lemma frames_loop_ok:
  assumes "rd_wf r" "vec_is v out" "fits r out" "dict_wf dict" "\<not> ar_pipeline (fa_seq A)" "\<not> ar_pipe1 (fa_seq A)"
  shows "case frames_ref (fa_seq A) opts dict hist out_cap r saw out of
      Inl e \<Rightarrow> frames_loop A opts dict hist out_cap r saw v = Some (Inl e)
    | Inr (saw', out') \<Rightarrow> (\<exists>v'. frames_loop A opts dict hist out_cap r saw v = Some (Inr (saw', v')) \<and> vec_is v' out')
        \<and> (\<exists>xs. out' = out @ xs \<and> 3 * length xs \<le> rd_remaining r * BLOCKSIZE_MAX)"
  using assms(1-3)
proof (induction "rd_remaining r" arbitrary: r saw v out rule: less_induct)
  case less
  show ?case
  proof (cases "rd_is_empty r")
    case True
    then show ?thesis using less.prems(2) by (simp add: frames_ref.simps [of _ _ _ _ _ r] frames_loop.simps [of _ _ _ _ _ r])
  next
    case ne: False
    show ?thesis
    proof (cases "rbind (check_magic saw r) (\<lambda>_. parse_kind r)")
      case (Inl e)
      then show ?thesis using ne by (simp add: frames_ref.simps [of _ _ _ _ _ r] frames_loop.simps [of _ _ _ _ _ r])
    next
      case (Inr p)
      obtain k r1 where p: "p = (k, r1)" by (metis prod.exhaust)
      have pk: "parse_kind r = Inr (k, r1)" using Inr by (auto simp: p res_simps)
      note w1 = parse_kind_wf [OF less.prems(1) pk] and l1 = parse_kind_less [OF pk]
      show ?thesis
      proof (cases k)
        case (FkSkippable m n)
        show ?thesis
        proof (cases "rd_take n r1")
          case bad: (Inl e)
          then show ?thesis using ne Inr p FkSkippable by (simp add: frames_ref.simps [of _ _ _ _ _ r] frames_loop.simps [of _ _ _ _ _ r])
        next
          case tk: (Inr q)
          obtain d r2 where q: "q = (d, r2)" by (metis prod.exhaust)
          have w2: "rd_wf r2" using tk rd_take_eq [OF w1(1), of n] rd_skip_wf [OF w1(1)] by (auto simp: q split: if_splits)
          have l2: "rd_remaining r2 < rd_remaining r" using rd_take_less [OF tk [unfolded q]] l1 by simp
          have eq: "frames_ref (fa_seq A) opts dict hist out_cap r saw out = frames_ref (fa_seq A) opts dict hist out_cap r2 saw out"
            "frames_loop A opts dict hist out_cap r saw v = frames_loop A opts dict hist out_cap r2 saw v"
            using ne Inr p FkSkippable tk q by (simp_all add: frames_ref.simps [of _ _ _ _ _ r] frames_loop.simps [of _ _ _ _ _ r])
          have mono: "x \<le> rd_remaining r2 * BLOCKSIZE_MAX \<Longrightarrow> x \<le> rd_remaining r * BLOCKSIZE_MAX" for x
            by (erule order_trans) (rule mult_le_mono1 [OF less_imp_le [OF l2]])
          from less.hyps [OF l2 w2 less.prems(2) fits_less [OF less.prems(3) less_imp_le [OF l2]], of saw] show ?thesis
            unfolding eq by (auto split: sum.splits prod.splits intro: mono)
        qed
      next
        case (FkZstd h)
        note f1 = fits_less [OF less.prems(3) less_imp_le [OF l1]]
        note fr = decode_zstd_frame_ok [OF w1(1) less.prems(2) f1 assms(4) w1(2) [OF FkZstd] assms(5,6), of opts hist out_cap]
        show ?thesis
        proof (cases "frame_ref (fa_seq A) r1 h opts dict hist out out_cap")
          case bad: (Inl e)
          then show ?thesis using ne Inr p FkZstd fr by (simp add: frames_ref.simps [of _ _ _ _ _ r] frames_loop.simps [of _ _ _ _ _ r])
        next
          case ok: (Inr q)
          obtain r2 out2 where q: "q = (r2, out2)" by (metis prod.exhaust)
          obtain v2 xs where v2: "decode_zstd_frame A r1 h opts dict hist v out_cap = Some (Inr (r2, v2))" "vec_is v2 out2" "rd_wf r2" "fits r2 out2"
            "rd_remaining r2 < rd_remaining r1" "out2 = out @ xs" "3 * length xs \<le> (rd_remaining r1 - rd_remaining r2) * block_size_max h"
            using fr by (auto simp: ok q)
          have l2: "rd_remaining r2 < rd_remaining r" using v2(5) l1 by simp
          have eq: "frames_ref (fa_seq A) opts dict hist out_cap r saw out = frames_ref (fa_seq A) opts dict hist out_cap r2 True out2"
            "frames_loop A opts dict hist out_cap r saw v = frames_loop A opts dict hist out_cap r2 True v2"
            using ne Inr p FkZstd ok q v2(1) by (simp_all add: frames_ref.simps [of _ _ _ _ _ r] frames_loop.simps [of _ _ _ _ _ r])
          note ih = less.hyps [OF l2 v2(3,2,4), of True]
          have b: "3 * length xs \<le> (rd_remaining r - rd_remaining r2) * BLOCKSIZE_MAX"
            by (rule order_trans [OF v2(7) mult_le_mono]) (use l1 in \<open>simp_all add: block_max_le diff_le_mono less_imp_le\<close>)
          show ?thesis
          proof (cases "frames_ref (fa_seq A) opts dict hist out_cap r2 True out2")
            case (Inl e)
            then show ?thesis using ih by (simp add: eq)
          next
            case fin: (Inr w)
            obtain saw' out' where w: "w = (saw', out')" by (metis prod.exhaust)
            obtain ys where ys: "out' = out2 @ ys" "3 * length ys \<le> rd_remaining r2 * BLOCKSIZE_MAX" using ih by (auto simp: fin w)
            have "3 * length (xs @ ys) \<le> (rd_remaining r - rd_remaining r2) * BLOCKSIZE_MAX + rd_remaining r2 * BLOCKSIZE_MAX"
              using b ys(2) by simp
            also have "\<dots> = rd_remaining r * BLOCKSIZE_MAX" using l2 by (simp flip: add_mult_distrib)
            finally show ?thesis using ih v2(6) ys(1) unfolding eq fin w by auto
          qed
        qed
      qed
    qed
  qed
qed

lemma decompress_into_ok:
  assumes "vec_is v out" "length out + (length src + 1) * BLOCKSIZE_MAX < 2 ^ 61" "dict_wf dict"
    and "\<not> ar_pipeline (fa_seq A)" "\<not> ar_pipe1 (fa_seq A)"
  shows "case decompress_ref (fa_seq A) src opts dict prefix out out_cap of
      Inl e \<Rightarrow> decompress_into_history A src opts dict prefix v out_cap = Some (Inl e)
    | Inr out' \<Rightarrow> (\<exists>v'. decompress_into_history A src opts dict prefix v out_cap = Some (Inr v') \<and> vec_is v' out')
        \<and> (\<exists>xs. out' = out @ xs \<and> 3 * length xs \<le> length src * BLOCKSIZE_MAX)"
proof (cases "src = []")
  case False
  let ?hist = "case dict of None \<Rightarrow> prefix | Some d \<Rightarrow> dc_content d"
  have "length src < 2 ^ 63"
  proof -
    have "length src * 1 \<le> length src * BLOCKSIZE_MAX" by (rule mult_le_mono2) (simp add: BLOCKSIZE_MAX_def)
    then have "length src < 2 ^ 61" using assms(2) unfolding add_mult_distrib by linarith
    then show ?thesis by (rule order_less_le_trans) simp
  qed
  then have wf: "rd_wf (rd_new src)" by simp
  have fit: "fits (rd_new src) out" using assms(2) by (simp add: fits_def rd_new_def rd_remaining_def)
  have rem: "rd_remaining (rd_new src) = length src" by (simp add: rd_new_def rd_remaining_def)
  note f = frames_loop_ok [OF wf assms(1) fit assms(3-5), of opts ?hist out_cap False, unfolded rem]
  show ?thesis
  proof (cases "frames_ref (fa_seq A) opts dict ?hist out_cap (rd_new src) False out")
    case (Inl e)
    then show ?thesis using f False by (simp add: decompress_ref_def decompress_into_history_def)
  next
    case (Inr p)
    obtain saw out' where p: "p = (saw, out')" by (metis prod.exhaust)
    then show ?thesis using f False Inr by (auto simp: decompress_ref_def decompress_into_history_def)
  qed
qed (simp add: decompress_ref_def decompress_into_history_def)

definition shipping_frame_arms :: frame_arms where
  "shipping_frame_arms = \<lparr> fa_seq = shipping_arms, fa_xx = ArmScalar, fa_ck_stream = False, fa_ck_fuse_min = USIZE_MAX \<rparr>"

lemma empty_vec_is: "vec_is empty_vec []"
  by (simp add: vec_is_def mem_is_def empty_vec_def)

lemma shipping_no_ahead: "\<not> ar_pipeline (fa_seq shipping_frame_arms)" "\<not> ar_pipe1 (fa_seq shipping_frame_arms)"
  by (simp_all add: shipping_frame_arms_def shipping_arms_def)

end
