(* ===== verification/History_View.thy ===== *)
theory History_View
  imports Frame_Decode
begin

text \<open>
  A decoder that drops output it will not need again (\<^verbatim>\<open>frame_start\<close> and \<^verbatim>\<open>frame_skipped\<close> of
  \<^verbatim>\<open>stream.rs\<close>) against one that keeps all of it: as long as a window of the frame is held, a block decodes
  to the same bytes. With a dictionary the dropped decoder may refuse a match that starts in the
  dictionary and runs into the dropped bytes; nothing else differs.
\<close>

section \<open>Results that agree\<close>

text \<open>The second run fails as the first does, or returns a related value; if \<open>lossy\<close> it may also give up.\<close>

definition agrees :: "bool \<Rightarrow> ('a \<Rightarrow> 'b \<Rightarrow> bool) \<Rightarrow> 'a res \<Rightarrow> 'b res \<Rightarrow> bool" where
  "agrees lossy R m m' \<longleftrightarrow> lossy \<and> m' = Inl Corruption \<or>
     (case m of Inl e \<Rightarrow> m' = Inl e | Inr x \<Rightarrow> (\<exists>x'. m' = Inr x' \<and> R x x'))"

lemma agrees_simps [simp]:
  "agrees lossy R (Inl e) (Inl e)"
  "agrees lossy R (Inr x) (Inr x') \<longleftrightarrow> R x x'"
  by (auto simp: agrees_def)

lemma agrees_bind:
  assumes "agrees lossy R m m'" "\<And>x x'. R x x' \<Longrightarrow> agrees lossy S (f x) (f' x')"
  shows "agrees lossy S (rbind m f) (rbind m' f')"
  using assms by (cases m; cases m') (auto simp: agrees_def)

lemma agrees_refl: "(\<And>x. R x x) \<Longrightarrow> agrees lossy R m m"
  by (cases m) auto

lemma agrees_mono: "agrees lossy R m m' \<Longrightarrow> (\<And>x x'. R x x' \<Longrightarrow> S x x') \<Longrightarrow> agrees lossy S m m'"
  by (cases m; cases m') (auto simp: agrees_def)

section \<open>Matches\<close>

text \<open>\<open>T\<close> is the whole output with the frame starting at \<open>mc_frame_start c\<close>; \<open>D\<close> is the end of it that is held.\<close>

definition same_history :: "match_ctx \<Rightarrow> bytes \<Rightarrow> match_ctx \<Rightarrow> bytes \<Rightarrow> bool" where
  "same_history c T c' D \<longleftrightarrow>
     mc_dict c' = mc_dict c \<and> mc_window_size c' = mc_window_size c \<and> mc_block_max c' = mc_block_max c
     \<and> mc_frame_skipped c = 0 \<and> mc_frame_start c \<le> length T \<and> mc_frame_start c' \<le> length D
     \<and> D = drop (length T - length D) T \<and> length D \<le> length T
     \<and> length T - mc_frame_start c = length D - mc_frame_start c' + mc_frame_skipped c'
     \<and> (mc_frame_skipped c' = 0 \<or> mc_frame_start c' = 0 \<and> mc_window_size c \<le> length D)"

lemma same_history_append:
  assumes "same_history c T c' D"
  shows "same_history c (T @ xs) c' (D @ xs)"
proof -
  have "D @ xs = drop (length (T @ xs) - length (D @ xs)) (T @ xs)"
    using assms by (simp add: same_history_def)
  then show ?thesis using assms unfolding same_history_def by auto
qed

lemma suffix_nth:
  assumes "D = drop (length T - length D) T" "length D \<le> length T" "0 < k" "k \<le> length D"
  shows "T ! (length T - k) = D ! (length D - k)"
proof -
  have "D ! (length D - k) = drop (length T - length D) T ! (length D - k)"
    by (rule arg_cong [OF assms(1), of "\<lambda>xs. xs ! (length D - k)"])
  also have "\<dots> = T ! (length T - length D + (length D - k))" by (rule nth_drop) simp
  also have "length T - length D + (length D - k) = length T - k" using assms(2,4) by simp
  finally show ?thesis by simp
qed

lemma match_byte_view:
  assumes "same_history c T c' D" "0 < off" "off \<le> length (mc_dict c) + (length T - mc_frame_start c)"
    "off \<le> mc_window_size c \<or> mc_dict c \<noteq> []"
  shows "agrees (mc_dict c \<noteq> []) (=) (match_byte c off T) (match_byte c' off D)"
proof -
  let ?d = "length (mc_dict c)" and ?p = "length T - mc_frame_start c"
  have v: "?d + (length D - mc_frame_start c' + mc_frame_skipped c') = ?d + (?p + 0)" and dict: "mc_dict c' = mc_dict c"
    and sk: "mc_frame_skipped c = 0" and st: "mc_frame_start c \<le> length T" "mc_frame_start c' \<le> length D"
    using assms(1) by (auto simp: same_history_def)
  show ?thesis
  proof (cases "?d + ?p - off < ?d")
    case True
    then show ?thesis using v by (simp add: match_byte_def Let_def dict sk)
  next
    case False
    then have off: "off \<le> ?p" using assms(2,3) by arith
    have t: "match_byte c off T = Inr (T ! (length T - off))"
      using False off st by (simp add: match_byte_def Let_def sk)
    have pos: "?d + (length D - mc_frame_start c' + mc_frame_skipped c') - off = ?d + (?p - off)" using v off by arith
    have m: "match_byte c' off D = (if ?p - off < mc_frame_skipped c' then Inl Corruption
        else Inr (D ! (mc_frame_start c' + (?p - off - mc_frame_skipped c'))))"
      by (simp only: match_byte_def Let_def dict pos not_add_less1 if_False add_diff_cancel_left')
    show ?thesis
    proof (cases "?p - off < mc_frame_skipped c'")
      case True
      then have "mc_frame_start c' = 0" "mc_window_size c \<le> length D" using assms(1) by (auto simp: same_history_def)
      then have "mc_dict c \<noteq> []" using assms(1,4) True off by (auto simp: same_history_def)
      moreover have "match_byte c' off D = Inl Corruption"
        using True by (simp add: m)
      ultimately show ?thesis by (simp add: agrees_def)
    next
      case held: False
      have k: "off \<le> length D" using held v off st by linarith
      have "mc_frame_start c' + (?p - off - mc_frame_skipped c') = length D - off" using held v off st by linarith
      then have "match_byte c' off D = Inr (D ! (length D - off))"
        using held by (simp add: m)
      moreover have "T ! (length T - off) = D ! (length D - off)"
        by (rule suffix_nth) (use assms(1,2) k in \<open>simp_all add: same_history_def\<close>)
      ultimately show ?thesis by (simp add: t)
    qed
  qed
qed

lemma match_push_view:
  assumes "same_history c T c' D" "0 < off" "off \<le> length (mc_dict c) + (length T - mc_frame_start c)"
    "off \<le> mc_window_size c \<or> mc_dict c \<noteq> []"
  shows "agrees (mc_dict c \<noteq> []) (\<lambda>T D. same_history c T c' D) (match_push c off n T) (match_push c' off n D)"
  using assms
proof (induction n arbitrary: T D)
  case (Suc n)
  show ?case unfolding match_push.simps
  proof (rule agrees_bind [OF match_byte_view [OF Suc.prems]])
    fix x x' :: u8
    assume "x = x'"
    then show "agrees (mc_dict c \<noteq> []) (\<lambda>T D. same_history c T c' D) (match_push c off n (T @ [x])) (match_push c' off n (D @ [x']))"
      using Suc.prems same_history_append [OF Suc.prems(1), of "[x]"]
      by (intro Suc.IH) (auto simp: same_history_def)
  qed
qed simp

lemma match_ref_view:
  assumes "same_history c T c' D"
  shows "agrees (mc_dict c \<noteq> []) (\<lambda>T D. same_history c T c' D) (match_ref c off n T) (match_ref c' off n D)"
proof -
  have v: "length D - mc_frame_start c' + mc_frame_skipped c' = length T - mc_frame_start c + mc_frame_skipped c"
    and e: "mc_dict c' = mc_dict c" "mc_window_size c' = mc_window_size c" "mc_block_max c' = mc_block_max c" "mc_frame_skipped c = 0"
    using assms by (simp_all add: same_history_def)
  let ?v = "length (mc_dict c) + (length T - mc_frame_start c + mc_frame_skipped c)"
  consider "off = 0 \<or> ?v < off" | "\<not> (off = 0 \<or> ?v < off)" "length (mc_dict c) + off \<le> ?v \<and> mc_window_size c < off"
    | "\<not> (off = 0 \<or> ?v < off)" "\<not> (length (mc_dict c) + off \<le> ?v \<and> mc_window_size c < off)" "mc_block_max c < n"
    | "\<not> (off = 0 \<or> ?v < off)" "\<not> (length (mc_dict c) + off \<le> ?v \<and> mc_window_size c < off)" "\<not> mc_block_max c < n"
    by blast
  then show ?thesis
  proof cases
    case 4
    have "agrees (mc_dict c \<noteq> []) (\<lambda>T D. same_history c T c' D) (match_push c off n T) (match_push c' off n D)"
      by (rule match_push_view [OF assms]) (use 4 e(4) in auto)
    then show ?thesis
      unfolding match_ref_def Let_def v e(1-3) if_not_P [OF 4(1)] if_not_P [OF 4(2)] if_not_P [OF 4(3)] .
  qed (simp_all add: match_ref_def Let_def v e(1-3))
qed

section \<open>Sequences and blocks\<close>

definition same_run :: "exec_ctx \<Rightarrow> ref_state \<Rightarrow> exec_ctx \<Rightarrow> ref_state \<Rightarrow> bool" where
  "same_run X r X' r' \<longleftrightarrow> xc_lits X' = xc_lits X \<and> same_history (xc_match X) (rs_out r) (xc_match X') (rs_out r')
     \<and> rs_lit r' = rs_lit r \<and> rs_budget r' = rs_budget r"

abbreviation lossy :: "exec_ctx \<Rightarrow> bool" where "lossy X \<equiv> mc_dict (xc_match X) \<noteq> []"

lemma exec_ref_view:
  assumes "same_run X r X' r'"
  shows "agrees (lossy X) (\<lambda>r r'. same_run X r X' r') (exec_ref X r s) (exec_ref X' r' s)"
proof -
  let ?n = "sq_litlen s" and ?m = "sq_matchlen s"
  have e: "rs_budget r' = rs_budget r" "rs_lit r' = rs_lit r" "xc_lits X' = xc_lits X" using assms by (simp_all add: same_run_def)
  show ?thesis
  proof (cases "rs_budget r < ?n + ?m \<or> length (xc_lits X) - rs_lit r < ?n")
    case True
    then show ?thesis by (simp add: exec_ref_def Let_def e)
  next
    case False
    have "same_history (xc_match X) (rs_out r @ take ?n (drop (rs_lit r) (xc_lits X))) (xc_match X') (rs_out r' @ take ?n (drop (rs_lit r) (xc_lits X)))"
      using assms by (intro same_history_append) (simp add: same_run_def)
    from match_ref_view [OF this, of "sq_offset s" ?m] show ?thesis
      unfolding exec_ref_def Let_def e if_not_P [OF False]
      by (rule agrees_bind) (simp add: same_run_def e)
  qed
qed

lemma exec_all_ref_view:
  "same_run X r X' r' \<Longrightarrow> agrees (lossy X) (\<lambda>r r'. same_run X r X' r') (exec_all_ref X ss r) (exec_all_ref X' ss r')"
proof (induction ss arbitrary: r r')
  case (Cons s ss)
  show ?case unfolding exec_all_ref.simps by (rule agrees_bind [OF exec_ref_view [OF Cons.prems]]) (rule Cons.IH)
qed simp

lemma section_ref_view:
  assumes "same_run X r X' r'"
  shows "agrees (lossy X) (\<lambda>(c, r) (c', r'). c' = c \<and> same_run X r X' r') (section_ref sc t X n cur r) (section_ref sc t X' n cur r')"
proof (cases "\<exists>ss cur'. seq_decode_all sc t n cur = Some (Inr (ss, cur'))")
  case True
  then obtain ss cur' where d: "seq_decode_all sc t n cur = Some (Inr (ss, cur'))" by blast
  show ?thesis unfolding section_ref_def d option.case sum.case prod.case
    by (rule agrees_bind [OF exec_all_ref_view [OF assms]]) simp
next
  case False
  then have "section_ref sc t X n cur r = Inl Corruption" "section_ref sc t X' n cur r' = Inl Corruption"
    by (auto simp: section_ref_def split: option.split sum.split)
  then show ?thesis by simp
qed

definition same_frame :: "frame_ctx \<Rightarrow> bytes \<Rightarrow> frame_ctx \<Rightarrow> bytes \<Rightarrow> bool" where
  "same_frame fx T fx' D \<longleftrightarrow>
     fx_dict fx' = fx_dict fx \<and> fx_window_size fx' = fx_window_size fx \<and> fx_block_max fx' = fx_block_max fx
     \<and> fx_frame_skipped fx = 0 \<and> fx_frame_start fx \<le> length T \<and> fx_frame_start fx' \<le> length D
     \<and> D = drop (length T - length D) T \<and> length D \<le> length T
     \<and> length T - fx_frame_start fx = length D - fx_frame_start fx' + fx_frame_skipped fx'
     \<and> (fx_frame_skipped fx' = 0 \<or> fx_frame_start fx' = 0 \<and> fx_window_size fx \<le> length D)"

lemma same_frame_history: "same_history (xc_match (exec_ctx_of A fx lits)) T (xc_match (exec_ctx_of A fx' lits)) D \<longleftrightarrow> same_frame fx T fx' D"
  by (simp add: same_frame_def same_history_def exec_ctx_of_def)

lemma same_frame_append: "same_frame fx T fx' D \<Longrightarrow> same_frame fx (T @ xs) fx' (D @ xs)"
  using same_history_append by (simp flip: same_frame_history [where A = undefined and lits = "[]"])

lemma same_frame_const: "same_frame fx T fx' D \<Longrightarrow> fx_dict fx' = fx_dict fx \<and> fx_block_max fx' = fx_block_max fx"
  by (simp add: same_frame_def)

lemma decode_sequences_view:
  assumes "same_frame fx T fx' D"
  shows "agrees (fx_dict fx \<noteq> []) (\<lambda>(T, s) (D, s'). s' = s \<and> same_frame fx T fx' D)
    (decode_sequences_ref A src lits T fx state) (decode_sequences_ref A src lits D fx' state)"
proof -
  note c = same_frame_const [OF assms]
  have run: "same_run (exec_ctx_of A fx lits) \<lparr> rs_out = T, rs_lit = 0, rs_budget = fx_block_max fx \<rparr>
      (exec_ctx_of A fx' lits) \<lparr> rs_out = D, rs_lit = 0, rs_budget = fx_block_max fx \<rparr>"
    using assms by (simp add: same_run_def same_frame_history) (simp add: exec_ctx_of_def)
  have l: "lossy (exec_ctx_of A fx lits) \<longleftrightarrow> fx_dict fx \<noteq> []" by (simp add: exec_ctx_of_def)
  consider "src = []" | "src \<noteq> []" "src ! 0 = 0"
    | pos nseq t where "src \<noteq> []" "src ! 0 \<noteq> 0" "seq_header_tables src state = Some (Inr (pos, nseq, t))"
    | "src \<noteq> []" "src ! 0 \<noteq> 0" "\<not> (\<exists>h. seq_header_tables src state = Some (Inr h))"
    by (metis prod.exhaust)
  then show ?thesis
  proof cases
    case 1
    then show ?thesis by (simp add: decode_sequences_ref_def)
  next
    case 2
    then show ?thesis using assms by (simp add: decode_sequences_ref_def same_frame_append)
  next
    case (3 pos nseq t)
    let ?br = "rbind (ok_or (slice_from src pos) Corruption) br_new"
    have tail: "agrees (fx_dict fx \<noteq> []) (\<lambda>(T, s) (D, s'). s' = s \<and> same_frame fx T fx' D)
        (rbind (section_ref sc t (exec_ctx_of A fx lits) nseq cur \<lparr> rs_out = T, rs_lit = 0, rs_budget = fx_block_max fx \<rparr>) (\<lambda>(cur, r).
           if b cur \<or> rs_budget r < length lits - rs_lit r then Inl Corruption else Inr (rs_out r @ drop (rs_lit r) lits, g cur)))
        (rbind (section_ref sc t (exec_ctx_of A fx' lits) nseq cur \<lparr> rs_out = D, rs_lit = 0, rs_budget = fx_block_max fx \<rparr>) (\<lambda>(cur, r).
           if b cur \<or> rs_budget r < length lits - rs_lit r then Inl Corruption else Inr (rs_out r @ drop (rs_lit r) lits, g cur)))" for sc cur b g
      by (rule agrees_bind [OF section_ref_view [OF run, unfolded l]])
        (auto simp: same_run_def same_frame_history intro: same_frame_append)
    show ?thesis unfolding decode_sequences_ref_def 3(3) option.case sum.case prod.case if_not_P [OF 3(1)] if_not_P [OF 3(2)] conjunct2 [OF c]
    proof (rule agrees_bind [where R = "(=)", OF agrees_refl])
      fix br br' :: bitrev
      assume br: "br = br'"
      obtain ss b where i: "seq_init t br' = (ss, b)" by fastforce
      show "agrees (fx_dict fx \<noteq> []) (\<lambda>(T, s) (D, s'). s' = s \<and> same_frame fx T fx' D)
          (let (st, br) = seq_init t br in rbind (section_ref (ar_seqcheck A) t (exec_ctx_of A fx lits) nseq \<lparr> sc_states = st, sc_br = br, sc_reps = bs_reps state \<rparr>
             \<lparr> rs_out = T, rs_lit = 0, rs_budget = fx_block_max fx \<rparr>) (\<lambda>(cur, r).
               if \<not> br_finished_exactly (sc_br cur) \<or> rs_budget r < length lits - rs_lit r then Inl Corruption
               else Inr (rs_out r @ drop (rs_lit r) lits,
                 \<lparr> bs_ll = Some (tb_ll t), bs_of = Some (tb_of t), bs_ml = Some (tb_ml t), bs_reps = sc_reps cur \<rparr>)))
          (let (st, br) = seq_init t br' in rbind (section_ref (ar_seqcheck A) t (exec_ctx_of A fx' lits) nseq \<lparr> sc_states = st, sc_br = br, sc_reps = bs_reps state \<rparr>
             \<lparr> rs_out = D, rs_lit = 0, rs_budget = fx_block_max fx \<rparr>) (\<lambda>(cur, r).
               if \<not> br_finished_exactly (sc_br cur) \<or> rs_budget r < length lits - rs_lit r then Inl Corruption
               else Inr (rs_out r @ drop (rs_lit r) lits,
                 \<lparr> bs_ll = Some (tb_ll t), bs_of = Some (tb_of t), bs_ml = Some (tb_ml t), bs_reps = sc_reps cur \<rparr>)))"
        unfolding br Let_def i prod.case by (rule tail)
    qed simp
  next
    case 4
    then show ?thesis
      by (cases "seq_header_tables src state") (auto simp: decode_sequences_ref_def split: sum.split)
  qed
qed

lemma compressed_ref_view:
  assumes "same_frame fx T fx' D"
  shows "agrees (fx_dict fx \<noteq> []) (\<lambda>(T, s) (D, s'). s' = s \<and> same_frame fx T fx' D)
    (compressed_ref A payload T fx st) (compressed_ref A payload D fx' st)"
proof -
  note c = same_frame_const [OF assms]
  show ?thesis
  proof (cases "\<exists>lits r huff. decode_literals (rd_new payload) (ds_huff st) (fx_block_max fx) = Some (Inr (lits, r, huff))")
    case False
    then show ?thesis by (auto simp: compressed_ref_def c split: option.split sum.split)
  next
    case True
    then obtain lits r huff where d: "decode_literals (rd_new payload) (ds_huff st) (fx_block_max fx) = Some (Inr (lits, r, huff))" by blast
    show ?thesis unfolding compressed_ref_def conjunct2 [OF c] d option.case sum.case prod.case
      by (rule agrees_bind [OF decode_sequences_view [OF assms]]) auto
  qed
qed

end
