(* ===== verification/Frame_Roundtrip.thy ===== *)
theory Frame_Roundtrip
  imports Frame_Decode
begin

text \<open>
  Frames the encoder stores (\<^verbatim>\<open>encode/block.rs\<close>: the exits of \<^verbatim>\<open>encode_block_inner\<close> that write an empty,
  a repeated or a raw block) against the one-shot decoder, and what the decoder promises on any input.
\<close>

section \<open>Storing blocks\<close>

text \<open>\<^verbatim>\<open>rle_byte\<close>: eight bytes at a time against a splatted word, then one at a time.\<close>

function rle_words :: "bytes \<Rightarrow> u64 \<Rightarrow> nat \<Rightarrow> nat option" where
  "rle_words block splat i =
     (if i + 8 \<le> length block then
        if load_u64_le block i \<noteq> splat then None else rle_words block splat (i + 8)
      else Some i)"
  by pat_completeness auto
termination by (relation "measure (\<lambda>(block, splat, i). length block - i)") auto

function rle_tail :: "bytes \<Rightarrow> u8 \<Rightarrow> nat \<Rightarrow> bool" where
  "rle_tail block b i = (if i < length block then (if block ! i \<noteq> b then False else rle_tail block b (i + 1)) else True)"
  by pat_completeness auto
termination by (relation "measure (\<lambda>(block, b, i). length block - i)") auto

declare rle_words.simps [simp del] rle_tail.simps [simp del]

definition rle_byte :: "bytes \<Rightarrow> u8 option" where
  "rle_byte block =
     (if length block < 2 then None
      else let b = block ! 0; splat = word_of_nat (unat b) * 0x0101010101010101
           in Option.bind (rle_words block splat 0) (\<lambda>i. if rle_tail block b i then Some b else None))"

text \<open>The exit for an empty block and for a repeated byte, before any search; and the raw exit after it.\<close>

definition short_exit :: "bytes \<Rightarrow> bytes \<Rightarrow> bool \<Rightarrow> bytes option" where
  "short_exit out block is_last =
     (if block = [] then Some (write_block_header out is_last BtRaw 0)
      else case rle_byte block of
        Some b \<Rightarrow> Some (write_block_header out is_last BtRle (length block mod 2 ^ 32) @ [b])
      | None \<Rightarrow> None)"

definition raw_exit :: "bytes \<Rightarrow> bytes \<Rightarrow> bool \<Rightarrow> bytes" where
  "raw_exit out block is_last = write_block_header out is_last BtRaw (length block mod 2 ^ 32) @ block"

definition store_block :: "bytes \<Rightarrow> bytes \<Rightarrow> bool \<Rightarrow> bytes" where
  "store_block out block is_last =
     (case short_exit out block is_last of Some out \<Rightarrow> out | None \<Rightarrow> raw_exit out block is_last)"

fun store_blocks :: "bytes \<Rightarrow> bytes list \<Rightarrow> bytes" where
  "store_blocks out [] = out"
| "store_blocks out [b] = store_block out b True"
| "store_blocks out (b # c # bs) = store_blocks (store_block out b False) (c # bs)"

text \<open>A stored frame: what its header was asked to say, and the blocks.\<close>

record stored =
  sd_src_len :: nat
  sd_window_log :: nat
  sd_checksum :: bool
  sd_pledged :: "nat option"
  sd_ext_hist :: bool
  sd_blocks :: "bytes list"

definition sd_content :: "stored \<Rightarrow> bytes" where
  "sd_content f = concat (sd_blocks f)"

definition sd_header :: "stored \<Rightarrow> frame_header" where
  "sd_header f = intended_header (sd_src_len f) (sd_window_log f) (sd_checksum f) (sd_pledged f) None (sd_ext_hist f)"

definition stored_frame :: "stored \<Rightarrow> bytes" where
  "stored_frame f =
     store_blocks (write_frame_header [] (sd_src_len f) (sd_window_log f) (sd_checksum f) (sd_pledged f) None (sd_ext_hist f))
       (sd_blocks f)
     @ (if sd_checksum f then le_bytes 4 (content_checksum ArmScalar (sd_content f)) else [])"

text \<open>What the caller owes: blocks no larger than the window and 128 KiB, and an honest pledge.\<close>

definition sd_ok :: "decode_opts \<Rightarrow> stored \<Rightarrow> bool" where
  "sd_ok opts f \<longleftrightarrow> sd_blocks f \<noteq> []
     \<and> list_all (\<lambda>b. length b \<le> block_size_max (sd_header f)) (sd_blocks f)
     \<and> fh_window_size (sd_header f) \<le> do_window_max opts
     \<and> (sd_pledged f = None \<or> sd_pledged f = Some (length (sd_content f)))"

section \<open>The run test\<close>

lemma rle_tail_iff: "rle_tail block b i \<longleftrightarrow> (\<forall>j\<in>{i ..< length block}. block ! j = b)"
proof (induction block b i rule: rle_tail.induct)
  case (1 block b i)
  show ?case
  proof (cases "i < length block \<and> block ! i = b")
    case True
    then have "rle_tail block b i \<longleftrightarrow> rle_tail block b (i + 1)" by (subst rle_tail.simps) simp
    moreover have "{i ..< length block} = insert i {i + 1 ..< length block}" using True by auto
    ultimately show ?thesis using True 1 by simp
  next
    case False
    then show ?thesis by (subst rle_tail.simps) auto
  qed
qed

lemma rep8: "replicate 8 x = [x, x, x, x, x, x, x, x]"
  by (simp add: numeral_eq_Suc)

lemma splat_word: "(word_of_nat (unat b) * 0x0101010101010101 :: u64) = word_of_nat (le_nat (replicate 8 b))"
proof -
  have r: "replicate 8 b = [b, b, b, b, b, b, b, b]" by (rule rep8)
  have "le_nat (replicate 8 b) = unat b * 0x0101010101010101" unfolding r le_nat.simps by simp
  then show ?thesis by (simp only: of_nat_mult of_nat_numeral)
qed

lemma word64_of_nat_inj:
  assumes "x < 2 ^ 64" "y < 2 ^ 64"
  shows "(word_of_nat x :: u64) = word_of_nat y \<longleftrightarrow> x = y"
proof
  assume "(word_of_nat x :: u64) = word_of_nat y"
  then have "unat (word_of_nat x :: u64) = unat (word_of_nat y :: u64)" by (rule arg_cong)
  then show "x = y" using assms by (simp only: unat_of_nat64 mod_less)
qed simp

lemma load_splat:
  assumes "i + 8 \<le> length block"
  shows "load_u64_le block i = word_of_nat (unat b) * 0x0101010101010101 \<longleftrightarrow> take 8 (drop i block) = replicate 8 b"
proof -
  have l: "length (take 8 (drop i block)) = 8" "length (replicate 8 b) = 8" using assms by simp_all
  have e: "8 * 8 = (64::nat)" by simp
  have b: "le_nat (take 8 (drop i block)) < 2 ^ 64" "le_nat (replicate 8 b) < 2 ^ 64"
    using le_nat_less_pow2 [of "take 8 (drop i block)"] le_nat_less_pow2 [of "replicate 8 b"] unfolding l e by (auto simp only:)
  have "le_nat (take 8 (drop i block)) = le_nat (replicate 8 b) \<longleftrightarrow> take 8 (drop i block) = replicate 8 b"
    using le_bytes_le_nat [of "take 8 (drop i block)"] le_bytes_le_nat [of "replicate 8 b"] unfolding l by metis
  then show ?thesis unfolding splat_word load_u64_le_def word64_of_nat_inj [OF b] .
qed

lemma take8_all: "i + 8 \<le> length block \<Longrightarrow> take 8 (drop i block) = replicate 8 b \<longleftrightarrow> (\<forall>j\<in>{i ..< i + 8}. block ! j = b)"
proof -
  assume l: "i + 8 \<le> length block"
  have "take 8 (drop i block) = replicate 8 b \<longleftrightarrow> (\<forall>k < 8. block ! (i + k) = b)"
    using l by (auto simp: list_eq_iff_nth_eq)
  also have "\<dots> \<longleftrightarrow> (\<forall>j\<in>{i ..< i + 8}. block ! j = b)"
    by (metis add_diff_inverse_nat atLeastLessThan_iff le_add1 nat_add_left_cancel_less not_le)
  finally show ?thesis .
qed

lemma rle_words_iff:
  assumes "splat = word_of_nat (unat b) * 0x0101010101010101"
  shows "(\<exists>j. rle_words block splat i = Some j \<and> rle_tail block b j) \<longleftrightarrow> (\<forall>j\<in>{i ..< length block}. block ! j = b)"
  using assms
proof (induction block splat i rule: rle_words.induct)
  case (1 block splat i)
  note r = rle_words.simps [of block splat i]
  show ?case
  proof (cases "i + 8 \<le> length block")
    case False
    then show ?thesis by (subst r) (simp add: rle_tail_iff)
  next
    case True
    have all: "{i ..< length block} = {i ..< i + 8} \<union> {i + 8 ..< length block}" using True by auto
    note w = load_splat [OF True, of b, folded 1(2), unfolded take8_all [OF True]]
    show ?thesis
    proof (cases "load_u64_le block i = splat")
      case eq: True
      have "rle_words block splat i = rle_words block splat (i + 8)" using True eq by (subst r) simp
      then show ?thesis using 1(1) [OF True _ 1(2)] eq w unfolding all by (auto simp only: ball_Un)
    next
      case ne: False
      have "rle_words block splat i = None" using True ne by (subst r) simp
      then show ?thesis using ne w unfolding all by (auto simp only: ball_Un)
    qed
  qed
qed

lemma all_same_replicate: "xs = replicate (length xs) b \<longleftrightarrow> (\<forall>j\<in>{0 ..< length xs}. xs ! j = b)"
  by (subst list_eq_iff_nth_eq) (simp add: Ball_def)

lemma rle_byte_Some: "rle_byte block = Some b \<longleftrightarrow> 2 \<le> length block \<and> block = replicate (length block) b"
proof (cases "2 \<le> length block")
  case True
  let ?w = "rle_words block (word_of_nat (unat (block ! 0)) * 0x0101010101010101) 0"
  have "rle_byte block = Some b \<longleftrightarrow> block ! 0 = b \<and> (\<exists>j. ?w = Some j \<and> rle_tail block (block ! 0) j)"
    using True unfolding rle_byte_def Let_def by (cases ?w) auto
  also have "\<dots> \<longleftrightarrow> block ! 0 = b \<and> (\<forall>j\<in>{0 ..< length block}. block ! j = block ! 0)"
    unfolding rle_words_iff [OF refl] ..
  also have "\<dots> \<longleftrightarrow> block = replicate (length block) b"
    unfolding all_same_replicate using True by force
  finally show ?thesis using True by blast
qed (simp add: rle_byte_def)

section \<open>A stored block is what the decoder appends\<close>

lemma store_block_append: "store_block out block is_last = out @ store_block [] block is_last"
  by (simp add: store_block_def short_exit_def raw_exit_def write_block_header_bytes split: option.split)

lemma stored_block_decodes:
  assumes "rd_wf r" "rd_rest r = store_block [] block is_last @ bs"
    and "length block \<le> block_size_max (fc_header C)" "length out + length block \<le> fc_out_cap C"
  shows "\<exists>bh r1 r2. parse_block_header r = Inr (bh, r1) \<and> block_ref A C bh r1 out st = Inr (r2, out @ block, st)
    \<and> bh_last bh = is_last \<and> rd_wf r2 \<and> rd_rest r2 = bs"
proof -
  have le: "length block \<le> BLOCKSIZE_MAX" using assms(3) block_max_le order_trans by blast
  then have l: "length block < 2 ^ 21" and m: "length block mod 4294967296 = length block" by (simp_all add: BLOCKSIZE_MAX_def)
  have cap: "\<not> fc_out_cap C - length out < length block" "\<not> block_size_max (fc_header C) < length block" using assms(3,4) by linarith+
  have fin: ?thesis
    if rest: "rd_rest r = write_block_header [] is_last ty (length block) @ p @ bs"
      and ref: "\<And>r1. rd_wf r1 \<Longrightarrow> rd_rest r1 = p @ bs \<Longrightarrow>
        block_ref A C \<lparr> bh_last = is_last, bh_ty = ty, bh_size = length block \<rparr> r1 out st = Inr (rd_skip (length p) r1, out @ block, st)"
    for ty p
  proof -
    note h = written_block_header_parses [OF l assms(1) rest]
    have w: "rd_wf (rd_skip 3 r)"
      using rd_skip_wf [OF assms(1), of 3] rest by (simp add: write_block_header_bytes)
    have rr: "rd_rest (rd_skip 3 r) = p @ bs" using h ..
    have "rd_wf (rd_skip (length p) (rd_skip 3 r))" "rd_rest (rd_skip (length p) (rd_skip 3 r)) = bs"
      by (simp_all add: rd_skip_wf [OF w] rd_skip_rest [of "length p"] rr del: rd_skip_skip)
    then show ?thesis using h ref [OF w] by auto
  qed
  show ?thesis
  proof (cases "short_exit [] block is_last")
    case None
    have "rd_rest r = write_block_header [] is_last BtRaw (length block) @ block @ bs"
      using assms(2) None by (simp add: store_block_def raw_exit_def m)
    then show ?thesis
      by (rule fin) (simp add: block_ref_def Let_def cap rd_take_eq)
  next
    case (Some o')
    show ?thesis
    proof (cases "block = []")
      case True
      then have "rd_rest r = write_block_header [] is_last BtRaw (length block) @ [] @ bs"
        using assms(2) by (simp add: store_block_def short_exit_def)
      then show ?thesis
        by (rule fin) (simp add: block_ref_def Let_def True rd_take_eq)
    next
      case False
      then obtain b where b: "rle_byte block = Some b" using Some by (auto simp: short_exit_def split: option.splits)
      then have e: "replicate (length block) b = block" using rle_byte_Some by metis
      have "rd_rest r = write_block_header [] is_last BtRle (length block) @ [b] @ bs"
        using assms(2) False b by (simp add: store_block_def short_exit_def m)
      then show ?thesis
        by (rule fin) (simp add: block_ref_def Let_def cap rd_u8_Cons(1) e)
    qed
  qed
qed

lemma store_blocks_append: "store_blocks out blocks = out @ store_blocks [] blocks"
proof (induction blocks arbitrary: out rule: induct_list012)
  case (3 x y zs)
  note ih = 3(2)
  have "store_blocks out (x # y # zs) = out @ store_block [] x False @ store_blocks [] (y # zs)"
    using ih [of "store_block out x False"] store_block_append [of out x False] by (simp del: store_blocks.simps add: store_blocks.simps(3))
  moreover have "store_blocks [] (x # y # zs) = store_block [] x False @ store_blocks [] (y # zs)"
    by (simp only: store_blocks.simps(3)) (rule ih)
  ultimately show ?case by simp
next
  case (2 x)
  show ?case using store_block_append [of out x True] by simp
qed simp

lemma store_blocks_Cons:
  "store_blocks [] (x # y # zs) = store_block [] x False @ store_blocks [] (y # zs)"
  unfolding store_blocks.simps(3) by (rule store_blocks_append)

lemma stored_blocks_decode:
  assumes "rd_wf r" "rd_rest r = store_blocks [] blocks @ bs" "blocks \<noteq> []"
    and "list_all (\<lambda>b. length b \<le> block_size_max (fc_header C)) blocks" "length out + length (concat blocks) \<le> fc_out_cap C"
  shows "\<exists>r'. blocks_ref A C r out st = Inr (r', out @ concat blocks) \<and> rd_wf r' \<and> rd_rest r' = bs"
  using assms
proof (induction blocks arbitrary: r out rule: induct_list012)
  case (2 x)
  then obtain bh r1 r2 where "parse_block_header r = Inr (bh, r1)" "block_ref A C bh r1 out st = Inr (r2, out @ x, st)"
      "bh_last bh" "rd_wf r2" "rd_rest r2 = bs"
    using stored_block_decodes [of r x True bs C out A st] by auto
  then show ?case by (simp add: blocks_ref.simps [of _ _ r])
next
  case (3 x y zs)
  have "rd_rest r = store_block [] x False @ store_blocks [] (y # zs) @ bs" using 3(4) by (simp only: store_blocks_Cons append_assoc)
  moreover have "length x \<le> block_size_max (fc_header C)" "length out + length x \<le> fc_out_cap C" using 3(6,7) by simp_all
  ultimately obtain bh r1 r2 where s: "parse_block_header r = Inr (bh, r1)" "block_ref A C bh r1 out st = Inr (r2, out @ x, st)"
      "\<not> bh_last bh" "rd_wf r2" "rd_rest r2 = store_blocks [] (y # zs) @ bs"
    using stored_block_decodes [of r x False "store_blocks [] (y # zs) @ bs" C out A st] 3(3) by auto
  obtain r' where "blocks_ref A C r2 (out @ x) st = Inr (r', (out @ x) @ concat (y # zs))" "rd_wf r'" "rd_rest r' = bs"
    using 3(2) [OF s(4,5), of "out @ x"] 3(6,7) by auto
  then show ?case using s(1,2,3) by (simp add: blocks_ref.simps [of _ _ r])
qed simp

section \<open>Frames of stored blocks\<close>

lemma check_magic_parsed: "parse_kind r = Inr x \<Longrightarrow> check_magic saw r = Inr ()"
  by (auto simp: parse_kind_def check_magic_def rd_u32_le_def rd_peek_u32_le_def res_simps split: if_splits)

lemma stored_frame_decodes:
  assumes "rd_wf r" "rd_rest r = stored_frame f @ bs" "sd_ok opts f" "length out + length (sd_content f) \<le> out_cap"
    "length (sd_content f) < 2 ^ 64"
  shows "\<exists>r1 r2. parse_kind r = Inr (FkZstd (sd_header f), r1)
    \<and> frame_ref A r1 (sd_header f) opts dict hist out out_cap = Inr (r2, out @ sd_content f) \<and> rd_wf r2 \<and> rd_rest r2 = bs"
proof -
  let ?ck = "if sd_checksum f then le_bytes 4 (content_checksum ArmScalar (sd_content f)) else []"
  let ?C = "\<lparr> fc_header = sd_header f, fc_hist = hist, fc_out_cap = out_cap, fc_start = length out \<rparr>"
  have rest: "rd_rest r = write_frame_header [] (sd_src_len f) (sd_window_log f) (sd_checksum f) (sd_pledged f) None (sd_ext_hist f)
      @ store_blocks [] (sd_blocks f) @ ?ck @ bs"
    using assms(2) unfolding stored_frame_def
    by (subst (asm) store_blocks_append) (simp only: append_assoc)
  have pl: "case sd_pledged f of None \<Rightarrow> True | Some s \<Rightarrow> s < 2 ^ 64" using assms(3,5) by (auto simp: sd_ok_def)
  obtain r1 where r1: "parse_kind r = Inr (FkZstd (sd_header f), r1)" "rd_rest r1 = store_blocks [] (sd_blocks f) @ ?ck @ bs"
    using written_header_parses [OF assms(1) rest pl] by (auto simp: sd_header_def)
  have w1: "rd_wf r1" by (rule parse_kind_wf(1) [OF assms(1) r1(1)])
  obtain r2 where r2: "blocks_ref A ?C r1 out (from_dict dict) = Inr (r2, out @ sd_content f)" "rd_wf r2" "rd_rest r2 = ?ck @ bs"
    using stored_blocks_decode [OF w1 r1(2), of ?C out A "from_dict dict"] assms(3,4) by (auto simp: sd_ok_def sd_content_def)
  have ck: "content_checksum ArmScalar (sd_content f) < 256 ^ 4" by (simp add: content_checksum_def)
  have h: "fh_checksum (sd_header f) = sd_checksum f" "fh_dict_id (sd_header f) = None" "fh_content_size (sd_header f) = sd_pledged f"
    by (simp_all add: sd_header_def intended_header_def Let_def nonzero_id_def)
  have n: "\<not> do_window_max opts < fh_window_size (sd_header f)" "\<not> (\<exists>n. sd_pledged f = Some n \<and> out_cap - length out < n)"
    "\<not> (\<exists>n. sd_pledged f = Some n \<and> length (out @ sd_content f) - length out \<noteq> n)"
    using assms(3,4) by (auto simp: sd_ok_def)
  have fr: "frame_ref A r1 (sd_header f) opts dict hist out out_cap = Inr (r3, out @ sd_content f)"
    if "(if sd_checksum f then rbind (rd_u32_le r2) (\<lambda>(got, r). if \<not> do_ignore_checksum opts
          \<and> content_checksum ArmScalar (sd_content f) \<noteq> got then Inl ChecksumMismatch else Inr r) else Inr r2) = Inr r3" for r3
    using n that by (cases "sd_pledged f"; cases "sd_checksum f"; simp add: frame_ref_def check_dict_def h r2(1))
  show ?thesis
  proof (cases "sd_checksum f")
    case False
    then show ?thesis using fr [of r2] r1 r2 by auto
  next
    case True
    then have "rd_rest r2 = le_bytes 4 (content_checksum ArmScalar (sd_content f)) @ bs" using r2(3) by simp
    note g = f32.rd_written [OF r2(2) this ck]
    show ?thesis using fr [of "rd_skip 4 r2"] r1(1) g True by auto
  qed
qed

lemma stored_frames_decode:
  assumes "rd_wf r" "rd_rest r = concat (map stored_frame fs) @ bs" "list_all (sd_ok opts) fs"
    "length out + length (concat (map sd_content fs)) \<le> out_cap" "out_cap < 2 ^ 64"
  shows "\<exists>r'. frames_ref A opts dict hist out_cap r saw out =
      frames_ref A opts dict hist out_cap r' (saw \<or> fs \<noteq> []) (out @ concat (map sd_content fs)) \<and> rd_wf r' \<and> rd_rest r' = bs"
  using assms
proof (induction fs arbitrary: r saw out)
  case (Cons f fs)
  have rest: "rd_rest r = stored_frame f @ concat (map stored_frame fs) @ bs" using Cons.prems(2) by simp
  have b: "length (sd_content f) < 2 ^ 64" "length out + length (sd_content f) \<le> out_cap" using Cons.prems(4,5) by simp_all
  obtain r1 r2 where s: "parse_kind r = Inr (FkZstd (sd_header f), r1)"
      "frame_ref A r1 (sd_header f) opts dict hist out out_cap = Inr (r2, out @ sd_content f)" "rd_wf r2"
      "rd_rest r2 = concat (map stored_frame fs) @ bs"
    using stored_frame_decodes [OF Cons.prems(1) rest _ b(2,1), of opts A dict hist] Cons.prems(3) by auto
  have ne: "\<not> rd_is_empty r"
    using s(1) parse_kind_less [OF s(1)] by (auto simp: rd_is_empty_def)
  have eq: "frames_ref A opts dict hist out_cap r saw out = frames_ref A opts dict hist out_cap r2 True (out @ sd_content f)"
    using ne s(1,2) by (simp add: frames_ref.simps [of _ _ _ _ _ r] check_magic_parsed [OF s(1)])
  have "\<exists>r'. frames_ref A opts dict hist out_cap r2 True (out @ sd_content f) =
      frames_ref A opts dict hist out_cap r' (True \<or> fs \<noteq> []) ((out @ sd_content f) @ concat (map sd_content fs)) \<and> rd_wf r' \<and> rd_rest r' = bs"
    by (rule Cons.IH [OF s(3,4)]) (use Cons.prems(3-5) in auto)
  then show ?case by (simp add: eq)
qed auto

lemma frames_ref_end: "rd_rest r = [] \<Longrightarrow> frames_ref A opts dict hist out_cap r saw out = Inr (saw, out)"
  by (simp add: frames_ref.simps [of _ _ _ _ _ r] rd_is_empty_iff)

text \<open>Bytes that cannot start a frame.\<close>

definition junk :: "bytes \<Rightarrow> bool" where
  "junk bs \<longleftrightarrow> bs \<noteq> [] \<and> (length bs < 4 \<or> le_nat (take 4 bs) \<noteq> MAGIC \<and> \<not> is_skippable_magic (le_nat (take 4 bs)))"

lemma frames_ref_junk:
  assumes "rd_wf r" "junk (rd_rest r)"
  shows "frames_ref A opts dict hist out_cap r True out = Inl TrailingBytes"
proof -
  have "check_magic True r = Inl TrailingBytes"
    using assms by (auto simp: junk_def check_magic_def rd_peek_eq rd_rest_length [symmetric])
  then show ?thesis using assms by (simp add: frames_ref.simps [of _ _ _ _ _ r] rd_is_empty_iff junk_def)
qed

lemma stored_frame_ne: "stored_frame f \<noteq> []"
proof -
  have "write_frame_header [] a b c d e g \<noteq> []" for a b c d e g
    by (simp add: write_frame_header_def Let_def case_prod_beta)
  then show ?thesis unfolding stored_frame_def by (subst store_blocks_append) simp
qed

lemma stored_frames_ref:
  assumes "fs \<noteq> []" "list_all (sd_ok opts) fs" "length (concat (map sd_content fs)) \<le> out_cap" "out_cap < 2 ^ 64"
    "length (concat (map stored_frame fs) @ bs) < 2 ^ 63" "bs = [] \<or> junk bs"
  shows "decompress_ref A (concat (map stored_frame fs) @ bs) opts dict prefix [] out_cap =
      (if bs = [] then Inr (concat (map sd_content fs)) else Inl TrailingBytes)"
proof -
  let ?hist = "case dict of None \<Rightarrow> prefix | Some d \<Rightarrow> dc_content d"
  have "concat (map stored_frame fs) @ bs \<noteq> []" using assms(1) stored_frame_ne by (cases fs) auto
  moreover have "\<exists>r'. frames_ref A opts dict ?hist out_cap (rd_new (concat (map stored_frame fs) @ bs)) False [] =
      frames_ref A opts dict ?hist out_cap r' (False \<or> fs \<noteq> []) ([] @ concat (map sd_content fs)) \<and> rd_wf r' \<and> rd_rest r' = bs"
    by (rule stored_frames_decode) (use assms in simp_all)
  ultimately show ?thesis using assms(1,6) by (auto simp: decompress_ref_def frames_ref_end frames_ref_junk)
qed

lemma input_small:
  assumes "length out + (length src + 1) * BLOCKSIZE_MAX < 2 ^ 61"
  shows "length src < 2 ^ 63" "length out < 2 ^ 61"
proof -
  have "length src * 1 \<le> length src * BLOCKSIZE_MAX" by (rule mult_le_mono2) (simp add: BLOCKSIZE_MAX_def)
  then have "length src < 2 ^ 61" using assms unfolding add_mult_distrib by linarith
  then show "length src < 2 ^ 63" by (rule order_less_le_trans) simp
  show "length out < 2 ^ 61" using assms by linarith
qed

lemma sample_stored:
  fixes f :: stored
  assumes "f = \<lparr> sd_src_len = 0, sd_window_log = 17, sd_checksum = True, sd_pledged = Some 5, sd_ext_hist = False,
    sd_blocks = [[7, 7, 7], [104, 105]] \<rparr>"
  shows "sd_ok default_opts f" "sd_content f = [7, 7, 7, 104, 105]" "length (stored_frame f) < 40"
proof -
  show "sd_ok default_opts f" "sd_content f = [7, 7, 7, 104, 105]"
    by (simp_all add: assms sd_ok_def sd_header_def intended_header_def header_single_def block_size_max_def BLOCKSIZE_MAX_def
        sd_content_def default_opts_def DEFAULT_WINDOW_MAX_def)
  show "length (stored_frame f) < 40"
    by (simp add: assms stored_frame_def write_frame_header_def Let_def case_prod_beta header_single_def fcs_field_def dict_field_def
        store_block_def short_exit_def raw_exit_def write_block_header_bytes split: option.splits)
qed

section \<open>What the one-shot decoder promises\<close>

text \<open>The encoder's test for a block of one repeated byte, eight bytes at a time and then one at a
  time, answers exactly that: at least two bytes, all equal to the byte returned.\<close>

theorem rle_byte_exact:
  "rle_byte block = (if 2 \<le> length block \<and> block = replicate (length block) (block ! 0) then Some (block ! 0) else None)"
proof (cases "rle_byte block")
  case None
  then show ?thesis using rle_byte_Some [of block "block ! 0"] by auto
next
  case (Some b)
  note s = rle_byte_Some [THEN iffD1, OF this]
  then have "block ! 0 = b" using nth_replicate [of 0 "length block" b] by fastforce
  then show ?thesis using s Some by simp
qed

text \<open>C1: the one-shot decoder with the two profile-only read-ahead loops off (with them on its output is another one,
  \<open>Seq_Block\<close>), on any bytes whose output fits an address space of \<open>2 ^ 61\<close> bytes, with any prefix or well-formed
  dictionary, any cap, and any choice of checksum arm, hash kernel and copy arms: it returns, has no undefined behaviour,
  fails exactly when the reference over byte lists fails and with the same error, and otherwise appends exactly what
  the reference appends.\<close>

theorem decompress_refines:
  assumes "vec_is v out" "length out + (length src + 1) * BLOCKSIZE_MAX < 2 ^ 61" "dict_wf dict"
    and "\<not> ar_pipeline (fa_seq A)" "\<not> ar_pipe1 (fa_seq A)"
  shows "case decompress_ref (fa_seq A) src opts dict prefix out out_cap of
      Inl e \<Rightarrow> decompress_into_history A src opts dict prefix v out_cap = Some (Inl e)
    | Inr out' \<Rightarrow> \<exists>v'. decompress_into_history A src opts dict prefix v out_cap = Some (Inr v') \<and> vec_is v' out'"
  using decompress_into_ok [OF assms, of opts prefix out_cap] by (auto split: sum.splits)

theorem decompress_refines_witness:
  "\<exists>v. decompress_into_history shipping_frame_arms (stored_frame \<lparr> sd_src_len = 0, sd_window_log = 17, sd_checksum = True,
        sd_pledged = Some 5, sd_ext_hist = False, sd_blocks = [[7, 7, 7], [104, 105]] \<rparr>)
      default_opts None [] empty_vec 100 = Some (Inr v) \<and> vec_is v [7, 7, 7, 104, 105]"
proof -
  let ?f = "\<lparr> sd_src_len = 0, sd_window_log = 17, sd_checksum = True, sd_pledged = Some 5, sd_ext_hist = False,
    sd_blocks = [[7, 7, 7], [104, 105]] \<rparr>"
  note f = sample_stored [OF refl [of ?f]]
  have "decompress_ref (fa_seq shipping_frame_arms) (stored_frame ?f) default_opts None [] [] 100 = Inr [7, 7, 7, 104, 105]"
    using stored_frames_ref [of "[?f]" default_opts 100 "[]" "fa_seq shipping_frame_arms" None "[]"] f by simp
  moreover have "length ([] :: bytes) + (length (stored_frame ?f) + 1) * BLOCKSIZE_MAX < 2 ^ 61"
    using f(3) by (simp add: BLOCKSIZE_MAX_def)
  ultimately show ?thesis
    using decompress_refines [OF empty_vec_is _ no_dict_wf shipping_no_ahead, of "stored_frame ?f" default_opts "[]" 100] by simp
qed

text \<open>C2: what the encoder's stored frames say is what the decoder returns: any series of frames of empty,
  repeated and raw blocks, with or without a checksum, a pledged size or a single segment, decodes to the
  concatenation of their blocks, under any cap that holds it (the profile-only read-ahead loops off).\<close>

theorem stored_frames_roundtrip:
  assumes "fs \<noteq> []" "list_all (sd_ok opts) fs" "length (concat (map sd_content fs)) \<le> max_output" "max_output < 2 ^ 64"
    and "(length (concat (map stored_frame fs)) + 1) * BLOCKSIZE_MAX < 2 ^ 61"
    and "\<not> ar_pipeline (fa_seq A)" "\<not> ar_pipe1 (fa_seq A)"
  shows "\<exists>v. decompress_with_limit A (concat (map stored_frame fs)) opts max_output = Some (Inr v)
    \<and> vec_is v (concat (map sd_content fs))"
proof -
  have b: "length ([] :: bytes) + (length (concat (map stored_frame fs)) + 1) * BLOCKSIZE_MAX < 2 ^ 61" using assms(5) by simp
  show ?thesis
    using decompress_into_ok [OF empty_vec_is b no_dict_wf assms(6,7), of opts "[]" max_output]
      stored_frames_ref [OF assms(1-4), of "[]" "fa_seq A"] input_small(1) [OF b]
    by (simp add: decompress_with_limit_def)
qed

theorem stored_frames_roundtrip_witness:
  "\<exists>v. decompress_with_limit shipping_frame_arms (stored_frame \<lparr> sd_src_len = 0, sd_window_log = 17, sd_checksum = True,
        sd_pledged = Some 5, sd_ext_hist = False, sd_blocks = [[7, 7, 7], [104, 105]] \<rparr>)
      default_opts 5 = Some (Inr v) \<and> vec_is v [7, 7, 7, 104, 105]"
proof -
  let ?f = "\<lparr> sd_src_len = 0, sd_window_log = 17, sd_checksum = True, sd_pledged = Some 5, sd_ext_hist = False,
    sd_blocks = [[7, 7, 7], [104, 105]] \<rparr>"
  note f = sample_stored [OF refl [of ?f]]
  have "(length (concat (map stored_frame [?f])) + 1) * BLOCKSIZE_MAX < 2 ^ 61"
    using f(3) by (simp add: BLOCKSIZE_MAX_def)
  then show ?thesis
    using stored_frames_roundtrip [OF _ _ _ _ _ shipping_no_ahead, of "[?f]" default_opts 5] f by simp
qed

text \<open>Bytes after a frame are an error of their own: a series of stored frames followed by anything that
  is not the start of another frame, a fragment of a magic number included, is refused with
  \<open>TrailingBytes\<close>, never accepted and never taken for a bad first magic.\<close>

theorem trailing_bytes_refused:
  assumes "fs \<noteq> []" "list_all (sd_ok opts) fs" "length (concat (map sd_content fs)) \<le> max_output" "max_output < 2 ^ 64"
    and "(length (concat (map stored_frame fs) @ bs) + 1) * BLOCKSIZE_MAX < 2 ^ 61" "junk bs"
    and "\<not> ar_pipeline (fa_seq A)" "\<not> ar_pipe1 (fa_seq A)"
  shows "decompress_with_limit A (concat (map stored_frame fs) @ bs) opts max_output = Some (Inl TrailingBytes)"
proof -
  have b: "length ([] :: bytes) + (length (concat (map stored_frame fs) @ bs) + 1) * BLOCKSIZE_MAX < 2 ^ 61" using assms(5) by simp
  have "bs \<noteq> []" using assms(6) by (simp add: junk_def)
  then show ?thesis
    using decompress_into_ok [OF empty_vec_is b no_dict_wf assms(7,8), of opts "[]" max_output]
      stored_frames_ref [OF assms(1-4) input_small(1) [OF b], of "fa_seq A"] assms(6)
    by (simp add: decompress_with_limit_def)
qed

theorem trailing_bytes_refused_witness:
  "decompress_with_limit shipping_frame_arms (stored_frame \<lparr> sd_src_len = 0, sd_window_log = 17, sd_checksum = True,
        sd_pledged = Some 5, sd_ext_hist = False, sd_blocks = [[7, 7, 7], [104, 105]] \<rparr> @ [0x28, 0xB5])
      default_opts 5 = Some (Inl TrailingBytes)"
proof -
  let ?f = "\<lparr> sd_src_len = 0, sd_window_log = 17, sd_checksum = True, sd_pledged = Some 5, sd_ext_hist = False,
    sd_blocks = [[7, 7, 7], [104, 105]] \<rparr>"
  note f = sample_stored [OF refl [of ?f]]
  have "(length (concat (map stored_frame [?f]) @ [0x28, 0xB5]) + 1) * BLOCKSIZE_MAX < 2 ^ 61"
    using f(3) by (simp add: BLOCKSIZE_MAX_def)
  moreover have "junk [0x28, 0xB5]" by (simp add: junk_def)
  ultimately show ?thesis
    using trailing_bytes_refused [OF _ _ _ _ _ _ shipping_no_ahead, of "[?f]" default_opts 5 "[0x28, 0xB5]"] f by simp
qed

end
