(* ===== verification/Frame_Walk.thy ===== *)
theory Frame_Walk
  imports Frame_Roundtrip
begin

text \<open>
  What a caller may conclude from a frame the decoder accepted (its output stays under the cap and within
  a third of 128 KiB per input byte, its header told the truth), and that walking frames without decoding them
  (\<^verbatim>\<open>find_frame_compressed_size\<close>, \<^verbatim>\<open>inspect_frames\<close> of \<^verbatim>\<open>decode.rs\<close>) agrees with decoding them.
\<close>

section \<open>Caps\<close>

lemma rd_take_length: "rd_take n r = Inr (s, r') \<Longrightarrow> length s = n"
  by (auto simp: rd_take_def res_simps checked_add_def split: if_splits)

lemma block_ref_cap:
  "block_ref A C bh r out st = Inr (r', out', st') \<Longrightarrow> length out \<le> fc_out_cap C \<Longrightarrow> length out' \<le> fc_out_cap C"
  by (auto simp: block_ref_def Let_def res_simps split: if_splits block_type.splits dest!: rd_take_length)

lemma blocks_ref_cap:
  "blocks_ref A C r out st = Inr (r', out') \<Longrightarrow> length out \<le> fc_out_cap C \<Longrightarrow> length out' \<le> fc_out_cap C"
proof (induction A C r out st rule: blocks_ref.induct)
  case (1 A C r out st)
  obtain bh r1 where b: "parse_block_header r = Inr (bh, r1)"
    using 1(2) by (auto simp: blocks_ref.simps [of _ _ r] split: sum.splits)
  obtain r2 out2 st2 where s: "block_ref A C bh r1 out st = Inr (r2, out2, st2)"
    using 1(2) by (auto simp: blocks_ref.simps [of _ _ r] b split: sum.splits)
  note cap = block_ref_cap [OF s 1(3)]
  show ?case
  proof (cases "bh_last bh")
    case True
    then show ?thesis using 1(2) cap by (simp add: blocks_ref.simps [of _ _ r] b s)
  next
    case False
    then have "blocks_ref A C r2 out2 st2 = Inr (r', out')" using 1(2) by (simp add: blocks_ref.simps [of _ _ r] b s)
    then show ?thesis using 1(1) [OF b refl s refl refl False] cap by blast
  qed
qed

lemma frame_ref_InrD:
  assumes "frame_ref A r h opts dict hist out out_cap = Inr (r', out')"
  obtains r1 where
    "fh_window_size h \<le> do_window_max opts" "check_dict h dict = Inr ()"
    "blocks_ref A \<lparr> fc_header = h, fc_hist = hist, fc_out_cap = out_cap, fc_start = length out \<rparr> r out (from_dict dict) = Inr (r1, out')"
    "if fh_checksum h then \<exists>got. rd_u32_le r1 = Inr (got, r')
        \<and> (do_ignore_checksum opts \<or> content_checksum ArmScalar (drop (length out) out') = got) else r' = r1"
    "\<And>n. fh_content_size h = Some n \<Longrightarrow> length out' - length out = n"
  using assms
  by (auto simp: frame_ref_def Let_def res_simps split: if_splits)

lemma frame_ref_cap:
  "frame_ref A r h opts dict hist out out_cap = Inr (r', out') \<Longrightarrow> length out \<le> out_cap \<Longrightarrow> length out' \<le> out_cap"
  by (erule frame_ref_InrD) (auto dest: blocks_ref_cap)

lemma frames_ref_cap:
  "frames_ref A opts dict hist out_cap r saw out = Inr (saw', out') \<Longrightarrow> length out \<le> out_cap \<Longrightarrow> length out' \<le> out_cap"
proof (induction A opts dict hist out_cap r saw out rule: frames_ref.induct)
  case (1 A opts dict hist out_cap r saw out)
  note eq = frames_ref.simps [of A opts dict hist out_cap r saw out]
  show ?case
  proof (cases "rd_is_empty r")
    case True
    then show ?thesis using 1 by (simp add: eq)
  next
    case ne: False
    obtain k r1 where k: "rbind (check_magic saw r) (\<lambda>_. parse_kind r) = Inr (k, r1)"
      using 1(3) ne by (auto simp: eq split: sum.splits)
    show ?thesis
    proof (cases k)
      case (FkSkippable m n)
      obtain d r2 where d: "rd_take n r1 = Inr (d, r2)"
        using 1(3) ne k FkSkippable by (auto simp: eq split: sum.splits)
      have "frames_ref A opts dict hist out_cap r2 saw out = Inr (saw', out')"
        using 1(3) ne k FkSkippable d by (simp add: eq)
      then show ?thesis using 1(2) [OF ne k refl FkSkippable d refl] 1(4) by blast
    next
      case (FkZstd h)
      obtain r2 out2 where f: "frame_ref A r1 h opts dict hist out out_cap = Inr (r2, out2)"
        using 1(3) ne k FkZstd by (auto simp: eq split: sum.splits)
      have "frames_ref A opts dict hist out_cap r2 True out2 = Inr (saw', out')"
        using 1(3) ne k FkZstd f by (simp add: eq)
      then show ?thesis using 1(1) [OF ne k refl FkZstd f refl] frame_ref_cap [OF f 1(4)] by blast
    qed
  qed
qed

section \<open>Walking is decoding without the bytes\<close>

lemma rd_u8_take: "rd_wf r \<Longrightarrow> rd_u8 r = Inr (b, r') \<Longrightarrow> \<exists>d. rd_take 1 r = Inr (d, r')"
  using f8.rd_InrD(1,2) [of r b r'] by (simp add: rd_take_eq)

lemma block_ref_walk:
  assumes "rd_wf r" "block_ref A C bh r out st = Inr (r', out', st')"
  shows "bh_size bh \<le> block_size_max (fc_header C)" "\<exists>d. rd_take (payload_len bh) r = Inr (d, r')" "rd_wf r'"
proof -
  show "bh_size bh \<le> block_size_max (fc_header C)" using assms(2) by (auto simp: block_ref_def Let_def split: if_splits)
  show t: "\<exists>d. rd_take (payload_len bh) r = Inr (d, r')"
    using assms rd_u8_take
    by (cases "bh_ty bh") (auto simp: block_ref_def Let_def payload_len_def res_simps split: if_splits)
  then show "rd_wf r'" using assms(1) by (auto simp: rd_take_eq rd_skip_wf split: if_splits)
qed

lemma blocks_ref_walk:
  "blocks_ref A C r out st = Inr (r', out') \<Longrightarrow> rd_wf r \<Longrightarrow>
    skip_block_loop (block_size_max (fc_header C)) r = Some (Inr r') \<and> rd_wf r'"
proof (induction A C r out st rule: blocks_ref.induct)
  case (1 A C r out st)
  obtain bh r1 where b: "parse_block_header r = Inr (bh, r1)"
    using 1(2) by (auto simp: blocks_ref.simps [of _ _ r] split: sum.splits)
  obtain r2 out2 st2 where s: "block_ref A C bh r1 out st = Inr (r2, out2, st2)"
    using 1(2) by (auto simp: blocks_ref.simps [of _ _ r] b split: sum.splits)
  have w1: "rd_wf r1"
    using b f24.rd_InrD(5) [OF 1(3)] by (auto simp: parse_block_header_def res_simps Let_def split: if_splits)
  obtain d where d: "rd_take (payload_len bh) r1 = Inr (d, r2)" using block_ref_walk(2) [OF w1 s] by blast
  have "\<not> block_size_max (fc_header C) < bh_size bh" using block_ref_walk(1) [OF w1 s] by simp
  then have step: "skip_block_loop (block_size_max (fc_header C)) r =
      (if bh_last bh then Some (Inr r2) else skip_block_loop (block_size_max (fc_header C)) r2)"
    by (subst skip_block_loop.simps) (simp add: b d)
  show ?case
  proof (cases "bh_last bh")
    case True
    then show ?thesis using 1(2) block_ref_walk(3) [OF w1 s] by (simp add: blocks_ref.simps [of _ _ r] b s step)
  next
    case False
    then have "blocks_ref A C r2 out2 st2 = Inr (r', out')" using 1(2) by (simp add: blocks_ref.simps [of _ _ r] b s)
    then show ?thesis using 1(1) [OF b refl s refl refl False] block_ref_walk(3) [OF w1 s] False by (simp add: step)
  qed
qed

lemma frame_ref_walk:
  assumes "rd_wf r" "frame_ref A r h opts dict hist out out_cap = Inr (r', out')"
  shows "skip_blocks r h = Some (Inr r')"
proof -
  obtain r1 where b: "blocks_ref A \<lparr> fc_header = h, fc_hist = hist, fc_out_cap = out_cap, fc_start = length out \<rparr> r out (from_dict dict) = Inr (r1, out')"
    and c: "if fh_checksum h then \<exists>got. rd_u32_le r1 = Inr (got, r')
        \<and> (do_ignore_checksum opts \<or> content_checksum ArmScalar (drop (length out) out') = got) else r' = r1"
    using assms(2) by (rule frame_ref_InrD)
  have "skip_block_loop (block_size_max h) r = Some (Inr r1)" using blocks_ref_walk [OF b assms(1)] by simp
  then show ?thesis using c by (auto simp: skip_blocks_def)
qed

section \<open>Listing frames\<close>

text \<open>A walker moves forward over the same bytes.\<close>

definition walked :: "reader \<Rightarrow> reader \<Rightarrow> bool" where
  "walked r r' \<longleftrightarrow> rd_data r' = rd_data r \<and> rd_pos r \<le> rd_pos r' \<and> rd_wf r'"

lemma walked_trans: "walked r s \<Longrightarrow> walked s t \<Longrightarrow> walked r t"
  by (simp add: walked_def)

lemma walked_steps:
  assumes "rd_wf r"
  shows "parse_block_header r = Inr (bh, r') \<Longrightarrow> walked r r'"
    and "rd_take n r = Inr (d, r') \<Longrightarrow> walked r r'"
    and "rd_u32_le r = Inr (x, r') \<Longrightarrow> walked r r'"
proof -
  have adv: "advanced r 0 hi r' \<Longrightarrow> walked r r'" for hi
    using advanced_wf [OF assms] by (auto simp: walked_def advanced_def)
  show "parse_block_header r = Inr (bh, r') \<Longrightarrow> walked r r'"
    using adv f24.rd_advanced [OF assms, of _ r' 0 3] by (auto simp: parse_block_header_def res_simps Let_def split: if_splits)
  show "rd_u32_le r = Inr (x, r') \<Longrightarrow> walked r r'"
    using adv f32.rd_advanced [OF assms, of x r' 0 4] by simp
  show "rd_take n r = Inr (d, r') \<Longrightarrow> walked r r'"
    using assms by (auto simp: rd_take_eq walked_def rd_skip_wf split: if_splits)
qed

lemma skip_block_loop_total: "rd_wf r \<Longrightarrow> \<exists>x. skip_block_loop bm r = Some x \<and> (\<forall>r'. x = Inr r' \<longrightarrow> walked r r')"
proof (induction "rd_remaining r" arbitrary: r rule: less_induct)
  case less
  show ?case
  proof (cases "parse_block_header r")
    case (Inl e)
    then show ?thesis by (subst skip_block_loop.simps) simp
  next
    case (Inr p)
    obtain bh r1 where p: "p = (bh, r1)" by (metis prod.exhaust)
    note w1 = walked_steps(1) [OF less.prems Inr [unfolded p]]
    show ?thesis
    proof (cases "rd_take (payload_len bh) r1")
      case (Inl e)
      then show ?thesis by (subst skip_block_loop.simps) (simp add: Inr p)
    next
      case t: (Inr q)
      obtain d r2 where q: "q = (d, r2)" by (metis prod.exhaust)
      have l: "rd_remaining r2 < rd_remaining r"
        using rd_take_less [OF t [unfolded q]] parse_block_header_less [OF Inr [unfolded p]] by simp
      have w2: "walked r1 r2" using walked_steps(2) [OF _ t [unfolded q]] w1 by (simp add: walked_def)
      note w = walked_trans [OF w1 w2]
      obtain x where x: "skip_block_loop bm r2 = Some x" "\<forall>r'. x = Inr r' \<longrightarrow> walked r2 r'"
        using less.hyps [OF l] w by (auto simp: walked_def)
      have step: "skip_block_loop bm r =
          (if (bh_ty bh = BtRaw \<or> bh_ty bh = BtCompressed) \<and> bm < bh_size bh then Some (Inl BlockTooLarge)
           else if bh_last bh then Some (Inr r2) else skip_block_loop bm r2)"
        by (subst skip_block_loop.simps) (simp add: Inr p t q)
      show ?thesis unfolding step x(1) using x(2) w by (auto intro: walked_trans)
    qed
  qed
qed

lemma skip_blocks_total:
  assumes "rd_wf r"
  shows "\<exists>x. skip_blocks r h = Some x \<and> (\<forall>r'. x = Inr r' \<longrightarrow> walked r r')"
proof -
  obtain x where x: "skip_block_loop (block_size_max h) r = Some x" "\<forall>r'. x = Inr r' \<longrightarrow> walked r r'"
    using skip_block_loop_total [OF assms] by blast
  show ?thesis
  proof (cases x)
    case (Inl e)
    then show ?thesis by (simp add: skip_blocks_def x)
  next
    case (Inr r1)
    then have w: "walked r r1" using x by blast
    then have "rd_u32_le r1 = Inr (v, r') \<Longrightarrow> walked r r'" for v r'
      using walked_steps(3) [of r1 v r'] walked_trans by (auto simp: walked_def)
    then show ?thesis using w Inr by (auto simp: skip_blocks_def x res_simps)
  qed
qed

lemma parse_kind_advanced:
  assumes "rd_wf r" "parse_kind r = Inr (k, r')"
  shows "advanced r 4 18 r'"
proof -
  obtain m r1 where m: "rd_u32_le r = Inr (m, r1)" using assms(2) by (auto simp: parse_kind_def res_simps)
  have a: "advanced r 4 4 r1" and w: "rd_wf r1" using f32.rd_advanced [OF assms(1) m, of 4 4] f32.rd_InrD(5) [OF assms(1) m] by auto
  have fin: "advanced r1 0 14 r'" if "parse_zstd_header r1 = Inr (h, r')" for h
    using zstd_header_fields [OF w that] by (auto intro: advanced_mono)
  have "advanced r1 0 14 r'"
    using assms(2) fin f32.rd_advanced [OF w, of _ r' 0 14]
    by (auto simp: parse_kind_def m res_simps split: if_splits)
  from advanced_trans [OF a this] show ?thesis by simp
qed

lemma frame_ref_checksum:
  assumes "rd_wf r" "frame_ref A r h opts dict hist out out_cap = Inr (r', out')"
  shows "\<not> fh_checksum h \<or> do_ignore_checksum opts \<or>
    le_nat (take 4 (drop (rd_pos r' - 4) (rd_data r))) = content_checksum ArmScalar (drop (length out) out')"
  using assms(2)
proof (rule frame_ref_InrD)
  fix r1
  assume b: "blocks_ref A \<lparr> fc_header = h, fc_hist = hist, fc_out_cap = out_cap, fc_start = length out \<rparr> r out (from_dict dict) = Inr (r1, out')"
    and c: "if fh_checksum h then \<exists>got. rd_u32_le r1 = Inr (got, r')
        \<and> (do_ignore_checksum opts \<or> content_checksum ArmScalar (drop (length out) out') = got) else r' = r1"
  have w: "walked r r1" using skip_block_loop_total [OF assms(1), of "block_size_max h"] blocks_ref_walk [OF b assms(1)] by auto
  show ?thesis
  proof (cases "fh_checksum h \<and> \<not> do_ignore_checksum opts")
    case True
    then have g: "rd_u32_le r1 = Inr (content_checksum ArmScalar (drop (length out) out'), r')" using c by auto
    show ?thesis using f32.rd_InrD(2,3) [OF _ g] w by (simp add: walked_def rd_rest_def)
  qed auto
qed

lemma compressed_size_total:
  assumes "length src < 2 ^ 63"
  shows "\<exists>x. find_frame_compressed_size src = Some x \<and> (\<forall>n. x = Inr n \<longrightarrow> 0 < n \<and> n \<le> length src \<and> (\<exists>k. get_frame_header src = Inr k))"
proof -
  have w: "rd_wf (rd_new src)" using assms by simp
  show ?thesis
  proof (cases "parse_kind (rd_new src)")
    case (Inl e)
    then show ?thesis by (simp add: find_frame_compressed_size_def)
  next
    case (Inr p)
    obtain k r where p: "p = (k, r)" by (metis prod.exhaust)
    note wr = parse_kind_wf(1) [OF w Inr [unfolded p]]
    have data: "0 < rd_pos r" "rd_data r = src"
      using parse_kind_advanced [OF w Inr [unfolded p]] by (auto simp: advanced_def rd_new_def)
    have fin: "walked r r' \<Longrightarrow> 0 < rd_pos r' \<and> rd_pos r' \<le> length src" for r'
      using data by (auto simp: walked_def rd_wf_def)
    show ?thesis
    proof (cases k)
      case (FkSkippable m n)
      then show ?thesis using walked_steps(2) [OF wr, of n] fin
        by (cases "rd_take n r") (auto simp: find_frame_compressed_size_def Inr p get_frame_header_def)
    next
      case (FkZstd h)
      obtain x where "skip_blocks r h = Some x" "\<forall>r'. x = Inr r' \<longrightarrow> walked r r'" using skip_blocks_total [OF wr] by blast
      then show ?thesis using fin FkZstd by (cases x) (auto simp: find_frame_compressed_size_def Inr p get_frame_header_def)
    qed
  qed
qed

lemma inspect_loop_total:
  assumes "length src < 2 ^ 63" "off \<le> length src"
  shows "\<exists>x. inspect_loop src off out = Some x \<and> (\<forall>fs. x = Inr fs \<longrightarrow> (\<exists>gs. fs = out @ gs
    \<and> sum_list (map lf_size gs) = length src - off \<and> list_all (\<lambda>f. 0 < lf_size f) gs))"
  using assms(2)
proof (induction "length src - off" arbitrary: off out rule: less_induct)
  case less
  show ?case
  proof (cases "off < length src")
    case False
    then show ?thesis using less.prems by (subst inspect_loop.simps) simp
  next
    case True
    have l: "length (drop off src) < 2 ^ 63" using assms(1) by simp
    obtain x where x: "find_frame_compressed_size (drop off src) = Some x"
      and ok: "\<And>n. x = Inr n \<Longrightarrow> 0 < n \<and> n \<le> length (drop off src)" using compressed_size_total [OF l] by blast
    show ?thesis
    proof (cases x)
      case (Inl e)
      then show ?thesis using True by (subst inspect_loop.simps) (simp add: x)
    next
      case (Inr n)
      then have n: "0 < n" "off + n \<le> length src" "\<not> length src < off + n" using ok [OF Inr] True by auto
      show ?thesis
      proof (cases "get_frame_header (take n (drop off src))")
        case (Inl e)
        then show ?thesis using True n by (subst inspect_loop.simps) (simp add: x Inr)
      next
        case k: (Inr k)
        let ?f = "\<lparr> lf_kind = k, lf_size = n \<rparr>"
        have step: "inspect_loop src off out = inspect_loop src (off + n) (out @ [?f])"
          using True n by (subst inspect_loop.simps) (simp add: x Inr k)
        have m: "length src - (off + n) < length src - off" using n True by simp
        obtain y where y: "inspect_loop src (off + n) (out @ [?f]) = Some y"
          and ys: "\<And>fs. y = Inr fs \<Longrightarrow> \<exists>gs. fs = (out @ [?f]) @ gs
            \<and> sum_list (map lf_size gs) = length src - (off + n) \<and> list_all (\<lambda>f. 0 < lf_size f) gs"
          using less.hyps [OF m n(2), of "out @ [?f]"] by blast
        have "\<exists>gs. fs = out @ gs \<and> sum_list (map lf_size gs) = length src - off \<and> list_all (\<lambda>f. 0 < lf_size f) gs"
          if eq: "y = Inr fs" for fs
        proof -
          obtain gs where g: "fs = (out @ [?f]) @ gs" "sum_list (map lf_size gs) = length src - (off + n)"
            "list_all (\<lambda>f. 0 < lf_size f) gs" using ys [OF eq] by blast
          then show ?thesis using n by (intro exI [of _ "?f # gs"]) simp
        qed
        then show ?thesis unfolding step y by blast
      qed
    qed
  qed
qed

lemma sample_decodes:
  fixes f :: stored
  assumes "f = \<lparr> sd_src_len = 0, sd_window_log = 17, sd_checksum = True, sd_pledged = Some 5, sd_ext_hist = False,
    sd_blocks = [[7, 7, 7], [104, 105]] \<rparr>"
  shows "\<exists>r r' v'. parse_kind (rd_new (stored_frame f)) = Inr (FkZstd (sd_header f), r)
    \<and> decode_zstd_frame shipping_frame_arms r (sd_header f) default_opts None [] empty_vec 100 = Some (Inr (r', v'))
    \<and> rd_wf r \<and> fits r [] \<and> fh_window_size (sd_header f) < 2 ^ 64 \<and> rd_pos r' = length (stored_frame f)"
proof -
  note f = sample_stored [OF assms]
  have w: "rd_wf (rd_new (stored_frame f))" using f(3) by simp
  obtain r r' where r: "parse_kind (rd_new (stored_frame f)) = Inr (FkZstd (sd_header f), r)"
      "frame_ref (fa_seq shipping_frame_arms) r (sd_header f) default_opts None [] [] 100 = Inr (r', [7, 7, 7, 104, 105])"
      "rd_wf r'" "rd_rest r' = []"
    using stored_frame_decodes [OF w, of f "[]" default_opts "[]" 100 "fa_seq shipping_frame_arms" None "[]"] f by auto
  have wr: "rd_wf r" "fh_window_size (sd_header f) < 2 ^ 64" using parse_kind_wf [OF w r(1)] by simp_all
  have "rd_remaining r < 40" using parse_kind_less [OF r(1)] f(3) by (simp add: rd_new_def rd_remaining_def)
  then have fit: "fits r []" by (simp add: fits_def BLOCKSIZE_MAX_def)
  obtain v' where v: "decode_zstd_frame shipping_frame_arms r (sd_header f) default_opts None [] empty_vec 100 = Some (Inr (r', v'))"
    using decode_zstd_frame_ok [OF wr(1) empty_vec_is fit no_dict_wf wr(2) shipping_no_ahead, of default_opts "[]" 100] r(2) by auto
  have "walked r r'" using frame_ref_walk [OF wr(1) r(2)] skip_blocks_total [OF wr(1), of "sd_header f"] by auto
  then have "rd_data r' = stored_frame f"
    using parse_kind_advanced [OF w r(1)] by (auto simp: walked_def advanced_def rd_new_def)
  then have "rd_pos r' = length (stored_frame f)" using r(3,4) by (simp add: rd_rest_def rd_wf_def)
  then show ?thesis using r(1) v wr fit by blast
qed

section \<open>What a caller may conclude\<close>

text \<open>C22: the one-shot decoder never returns more than the caller allowed, and never more than a third of
  128 KiB per byte of input, whatever the headers declare: the bound its speculative reservation trusts (the
  profile-only read-ahead loops off, which repeat literals).\<close>

theorem decompress_bounded:
  assumes "(length src + 1) * BLOCKSIZE_MAX < 2 ^ 61" "\<not> ar_pipeline (fa_seq A)" "\<not> ar_pipe1 (fa_seq A)"
    and "decompress_with_limit A src opts max_output = Some (Inr v)"
  shows "v_len v \<le> max_output \<and> 3 * v_len v \<le> length src * BLOCKSIZE_MAX"
proof -
  have b: "length ([] :: bytes) + (length src + 1) * BLOCKSIZE_MAX < 2 ^ 61" using assms(1) by simp
  note ok = decompress_into_ok [OF empty_vec_is b no_dict_wf assms(2,3), of opts "[]" max_output]
  obtain out where out: "decompress_ref (fa_seq A) src opts None [] [] max_output = Inr out"
    using ok assms(4) by (cases "decompress_ref (fa_seq A) src opts None [] [] max_output") (auto simp: decompress_with_limit_def)
  have "length out \<le> max_output"
    using out frames_ref_cap by (fastforce simp: decompress_ref_def res_simps split: if_splits)
  moreover have "vec_is v out" "3 * length out \<le> length src * BLOCKSIZE_MAX"
    using ok out assms(4) by (auto simp: decompress_with_limit_def)
  ultimately show ?thesis by (simp add: vec_is_def)
qed

theorem decompress_bounded_witness:
  "\<exists>v. decompress_with_limit shipping_frame_arms (stored_frame \<lparr> sd_src_len = 0, sd_window_log = 17, sd_checksum = True,
        sd_pledged = Some 5, sd_ext_hist = False, sd_blocks = [[7, 7, 7], [104, 105]] \<rparr>)
      default_opts 5 = Some (Inr v) \<and> v_len v \<le> 5"
proof -
  let ?f = "\<lparr> sd_src_len = 0, sd_window_log = 17, sd_checksum = True,
        sd_pledged = Some 5, sd_ext_hist = False, sd_blocks = [[7, 7, 7], [104, 105]] \<rparr>"
  note f = sample_stored [OF refl [of ?f]]
  have b: "(length (stored_frame ?f) + 1) * BLOCKSIZE_MAX < 2 ^ 61" using f(3) by (simp add: BLOCKSIZE_MAX_def)
  have "decompress_ref (fa_seq shipping_frame_arms) (stored_frame ?f) default_opts None [] [] 5 = Inr [7, 7, 7, 104, 105]"
    using stored_frames_ref [of "[?f]" default_opts 5 "[]" "fa_seq shipping_frame_arms"] f by simp
  then obtain v where v: "decompress_with_limit shipping_frame_arms (stored_frame ?f) default_opts 5 = Some (Inr v)"
    using decompress_into_ok [OF empty_vec_is _ no_dict_wf shipping_no_ahead, of "stored_frame ?f" default_opts "[]" 5] b
    by (auto simp: decompress_with_limit_def)
  then show ?thesis using decompress_bounded [OF b shipping_no_ahead v] by blast
qed

text \<open>C23: a frame the decoder accepts told the truth: its window was allowed, the dictionary it names is the
  one given, the output is exactly its declared size, and its checksum, unless ignored, is that of the
  output, whichever of the hashing arms ran (the profile-only read-ahead loops off).\<close>

theorem accepted_frame_sound:
  assumes "rd_wf r" "vec_is v out" "fits r out" "dict_wf dict" "fh_window_size h < 2 ^ 64"
    and "\<not> ar_pipeline (fa_seq A)" "\<not> ar_pipe1 (fa_seq A)"
    and "decode_zstd_frame A r h opts dict hist v out_cap = Some (Inr (r', v'))"
  shows "\<exists>xs. vec_is v' (out @ xs) \<and> fh_window_size h \<le> do_window_max opts \<and> fh_dict_id h \<in> {None, map_option dc_id dict}
    \<and> fh_content_size h \<in> {None, Some (length xs)}
    \<and> (\<not> fh_checksum h \<or> do_ignore_checksum opts \<or>
        le_nat (take 4 (drop (rd_pos r' - 4) (rd_data r))) = content_checksum ArmScalar xs)"
proof -
  note ok = decode_zstd_frame_ok [OF assms(1-7), of opts hist out_cap]
  obtain out' where f: "frame_ref (fa_seq A) r h opts dict hist out out_cap = Inr (r', out')" and v: "vec_is v' out'"
    using ok assms(8) by (cases "frame_ref (fa_seq A) r h opts dict hist out out_cap") auto
  obtain xs where xs: "out' = out @ xs" using ok by (auto simp: f)
  note c = frame_ref_checksum [OF assms(1) f]
  from f have "fh_window_size h \<le> do_window_max opts \<and> fh_dict_id h \<in> {None, map_option dc_id dict} \<and> fh_content_size h \<in> {None, Some (length xs)}"
    by (rule frame_ref_InrD) (cases "fh_content_size h"; auto simp: xs check_dict_def split: option.splits if_splits)
  then show ?thesis using v c unfolding xs by (intro exI [of _ xs]) auto
qed

theorem accepted_frame_sound_witness:
  "\<exists>h r r' v' xs. parse_kind (rd_new (stored_frame \<lparr> sd_src_len = 0, sd_window_log = 17, sd_checksum = True,
        sd_pledged = Some 5, sd_ext_hist = False, sd_blocks = [[7, 7, 7], [104, 105]] \<rparr>)) = Inr (FkZstd h, r)
    \<and> decode_zstd_frame shipping_frame_arms r h default_opts None [] empty_vec 100 = Some (Inr (r', v'))
    \<and> vec_is v' ([] @ xs) \<and> fh_content_size h \<in> {None, Some (length xs)}"
proof -
  let ?f = "\<lparr> sd_src_len = 0, sd_window_log = 17, sd_checksum = True,
        sd_pledged = Some 5, sd_ext_hist = False, sd_blocks = [[7, 7, 7], [104, 105]] \<rparr>"
  obtain r r' v' where s: "parse_kind (rd_new (stored_frame ?f)) = Inr (FkZstd (sd_header ?f), r)"
    "decode_zstd_frame shipping_frame_arms r (sd_header ?f) default_opts None [] empty_vec 100 = Some (Inr (r', v'))"
    "rd_wf r" "fits r []" "fh_window_size (sd_header ?f) < 2 ^ 64"
    using sample_decodes [OF refl [of ?f]] by blast
  show ?thesis
    using accepted_frame_sound [OF s(3) empty_vec_is s(4) no_dict_wf s(5) shipping_no_ahead s(2)] s(1,2) by blast
qed

text \<open>C27: the size found by walking a frame's block headers is where the decoder stops when it accepts the
  frame, so skipping and decoding never disagree on where the next frame starts (the profile-only read-ahead loops off).\<close>

theorem compressed_size_agrees:
  assumes "length src < 2 ^ 63" "parse_kind (rd_new src) = Inr (FkZstd h, r)"
    and "vec_is v out" "fits r out" "dict_wf dict" "\<not> ar_pipeline (fa_seq A)" "\<not> ar_pipe1 (fa_seq A)"
    and "decode_zstd_frame A r h opts dict hist v out_cap = Some (Inr (r', v'))"
  shows "find_frame_compressed_size src = Some (Inr (rd_pos r'))"
proof -
  have "rd_wf (rd_new src)" using assms(1) by simp
  note w = parse_kind_wf [OF this assms(2)]
  note ok = decode_zstd_frame_ok [OF w(1) assms(3-5) w(2) [OF refl] assms(6,7), of opts hist out_cap]
  obtain out' where "frame_ref (fa_seq A) r h opts dict hist out out_cap = Inr (r', out')"
    using ok assms(8) by (cases "frame_ref (fa_seq A) r h opts dict hist out out_cap") auto
  from frame_ref_walk [OF w(1) this] show ?thesis by (simp add: find_frame_compressed_size_def assms(2))
qed

theorem compressed_size_agrees_witness:
  "\<exists>n. find_frame_compressed_size (stored_frame \<lparr> sd_src_len = 0, sd_window_log = 17, sd_checksum = True,
        sd_pledged = Some 5, sd_ext_hist = False, sd_blocks = [[7, 7, 7], [104, 105]] \<rparr>) = Some (Inr n)
    \<and> n = length (stored_frame \<lparr> sd_src_len = 0, sd_window_log = 17, sd_checksum = True,
        sd_pledged = Some 5, sd_ext_hist = False, sd_blocks = [[7, 7, 7], [104, 105]] \<rparr>)"
proof -
  let ?f = "\<lparr> sd_src_len = 0, sd_window_log = 17, sd_checksum = True,
        sd_pledged = Some 5, sd_ext_hist = False, sd_blocks = [[7, 7, 7], [104, 105]] \<rparr>"
  obtain r r' v' where s: "parse_kind (rd_new (stored_frame ?f)) = Inr (FkZstd (sd_header ?f), r)"
    "decode_zstd_frame shipping_frame_arms r (sd_header ?f) default_opts None [] empty_vec 100 = Some (Inr (r', v'))"
    "fits r []" "rd_pos r' = length (stored_frame ?f)"
    using sample_decodes [OF refl [of ?f]] by blast
  have "length (stored_frame ?f) < 2 ^ 63" using sample_stored(3) [OF refl [of ?f]] by simp
  from compressed_size_agrees [OF this s(1) empty_vec_is s(3) no_dict_wf shipping_no_ahead s(2)]
  show ?thesis using s(4) by simp
qed

text \<open>C28: listing the frames of any input ends, with no slice out of range; when it succeeds no frame is empty
  and together they are the whole input.\<close>

theorem inspect_frames_covers:
  assumes "length src < 2 ^ 63"
  shows "\<exists>x. inspect_frames src = Some x
    \<and> (case x of Inl e \<Rightarrow> True | Inr fs \<Rightarrow> sum_list (map lf_size fs) = length src \<and> list_all (\<lambda>f. 0 < lf_size f) fs)"
proof (cases "src = []")
  case False
  then show ?thesis using inspect_loop_total [OF assms, of 0 "[]"] by (auto simp: inspect_frames_def split: sum.splits)
qed (simp add: inspect_frames_def)

theorem inspect_frames_covers_witness:
  "\<exists>x. inspect_frames [0x50, 0x2A, 0x4D, 0x18, 0, 0, 0, 0] = Some x"
  using inspect_frames_covers [of "[0x50, 0x2A, 0x4D, 0x18, 0, 0, 0, 0]"] by auto

end
