(* ===== verification/Prefix_Parse.thy ===== *)
theory Prefix_Parse
  imports Frame_Header
begin

text \<open>
  Parsing what has arrived so far: interface \<open>stream_parser\<close>, a parser whose answer on a prefix is its answer on
  the whole unless it ran out of bytes. It is closed under the ways the parsers of \<^verbatim>\<open>frame.rs\<close> and
  \<^verbatim>\<open>block.rs\<close> are put together, and interpreted on both.
\<close>

section \<open>Parsers on a prefix\<close>

text \<open>\<open>s\<close> reads on where \<open>r\<close> ends. A parser that succeeds on \<open>r\<close> does the same on \<open>s\<close>, and one that fails for any reason
  but the end of the bytes fails the same way.\<close>

definition extends :: "reader \<Rightarrow> reader \<Rightarrow> bool" where
  "extends r s \<longleftrightarrow> rd_wf r \<and> rd_wf s \<and> (\<exists>ys. rd_rest s = rd_rest r @ ys)"

lemma extends_skip: "extends r s \<Longrightarrow> k \<le> length (rd_rest r) \<Longrightarrow> extends (rd_skip k r) (rd_skip k s)"
  by (auto simp: extends_def rd_skip_rest rd_skip_wf)

locale stream_parser =
  fixes p :: "reader \<Rightarrow> ('a \<times> reader) res"
  assumes prefix_ok: "extends r s \<Longrightarrow> p r = Inr (x, r') \<Longrightarrow> \<exists>k. k \<le> length (rd_rest r) \<and> r' = rd_skip k r \<and> p s = Inr (x, rd_skip k s)"
    and prefix_err: "extends r s \<Longrightarrow> p r = Inl e \<Longrightarrow> e \<noteq> UnexpectedEof \<Longrightarrow> p s = Inl e"

lemma parser_bind:
  assumes "stream_parser p" "\<And>x. stream_parser (q x)"
  shows "stream_parser (\<lambda>r. rbind (p r) (\<lambda>(x, r). q x r))"
proof
  fix r s y r'
  assume e: "extends r s" and "rbind (p r) (\<lambda>(x, r). q x r) = Inr (y, r')"
  then obtain x r1 where 1: "p r = Inr (x, r1)" "q x r1 = Inr (y, r')" by (auto simp: rbind_Inr_iff)
  obtain k where k: "k \<le> length (rd_rest r)" "r1 = rd_skip k r" "p s = Inr (x, rd_skip k s)"
    using stream_parser.prefix_ok [OF assms(1) e 1(1)] by blast
  obtain l where l: "l \<le> length (rd_rest r1)" "r' = rd_skip l r1" "q x (rd_skip k s) = Inr (y, rd_skip l (rd_skip k s))"
    using stream_parser.prefix_ok [OF assms(2) extends_skip [OF e k(1)] 1(2) [unfolded k(2)]] k(2) by blast
  show "\<exists>k. k \<le> length (rd_rest r) \<and> r' = rd_skip k r \<and> rbind (p s) (\<lambda>(x, r). q x r) = Inr (y, rd_skip k s)"
    using k l by (intro exI [of _ "k + l"]) (simp add: rd_skip_rest)
next
  fix r s e
  assume e: "extends r s" and f: "rbind (p r) (\<lambda>(x, r). q x r) = Inl e" "e \<noteq> UnexpectedEof"
  then consider "p r = Inl e" | x r1 where "p r = Inr (x, r1)" "q x r1 = Inl e" by (cases "p r") auto
  then show "rbind (p s) (\<lambda>(x, r). q x r) = Inl e"
  proof cases
    case 1
    then show ?thesis using stream_parser.prefix_err [OF assms(1) e 1 f(2)] by simp
  next
    case (2 x r1)
    obtain k where k: "k \<le> length (rd_rest r)" "r1 = rd_skip k r" "p s = Inr (x, rd_skip k s)"
      using stream_parser.prefix_ok [OF assms(1) e 2(1)] by blast
    then show ?thesis using stream_parser.prefix_err [OF assms(2) extends_skip [OF e k(1)] 2(2) [unfolded k(2)] f(2)] by simp
  qed
qed

lemma parser_return: "stream_parser (\<lambda>r. Inr (x, r))"
  by unfold_locales (auto intro: exI [of _ 0])

lemma parser_fail: "stream_parser (\<lambda>r. Inl e)"
  by unfold_locales auto

lemma parser_if: "stream_parser p \<Longrightarrow> stream_parser q \<Longrightarrow> stream_parser (\<lambda>r. if b then p r else q r)"
  by (cases b) simp_all

lemma parser_value: "(\<And>x. stream_parser (q x)) \<Longrightarrow> stream_parser (\<lambda>r. rbind m (\<lambda>x. q x r))"
  by (cases m) (simp_all add: parser_fail)

context le_field begin

lemma field_parser:
  assumes "inj val"
  shows "stream_parser rd"
proof
  fix r s x r'
  assume e: "extends r s" and x: "rd r = Inr (x, r')"
  then have r: "n \<le> length (rd_rest r)" "r' = rd_skip n r" "val x = le_nat (take n (rd_rest r))"
    using rd_InrD(1-3) [of r x r'] by (auto simp: extends_def)
  obtain ys where ys: "rd_rest s = rd_rest r @ ys" "rd_wf s" using e by (auto simp: extends_def)
  obtain y where "rd s = Inr (y, rd_skip n s)" "val y = le_nat (take n (rd_rest s))"
    using rd_ok [OF ys(2), of thesis] r(1) ys(1) by auto
  then show "\<exists>k. k \<le> length (rd_rest r) \<and> r' = rd_skip k r \<and> rd s = Inr (x, rd_skip k s)"
    using r ys(1) injD [OF assms, of y x] by auto
next
  fix r s e
  assume "extends r s" "rd r = Inl e" "e \<noteq> UnexpectedEof"
  then show "rd s = Inl e" using rd_InlD by (auto simp: extends_def)
qed

end

lemma field_parsers: "stream_parser rd_u8" "stream_parser rd_u16_le" "stream_parser rd_u24_le" "stream_parser rd_u32_le" "stream_parser rd_u64_le"
  by (rule f8.field_parser f16.field_parser f24.field_parser f32.field_parser f64.field_parser, simp add: inj_def word_unat_eq_iff)+

lemmas parser_intros = parser_bind parser_return parser_fail parser_if parser_value field_parsers

lemma header_parsers:
  "stream_parser (parse_window_desc b)" "stream_parser (parse_dict_id f)" "stream_parser (parse_content_size f b)"
  unfolding parse_window_desc_def parse_dict_id_def parse_content_size_def
  by (intro parser_intros)+

interpretation zstd_header: stream_parser parse_zstd_header
  unfolding parse_zstd_header_def Let_def
  by (intro parser_intros header_parsers)

interpretation kind: stream_parser parse_kind
  unfolding parse_kind_def
  by (intro parser_intros zstd_header.stream_parser_axioms)

interpretation block_header: stream_parser parse_block_header
  unfolding parse_block_header_def Let_def
  by (intro parser_intros)

text \<open>Taking bytes that have not all arrived.\<close>

interpretation taking: stream_parser "rd_take n" for n
proof
  fix r s x r'
  assume "extends r s" "rd_take n r = Inr (x, r')"
  then show "\<exists>k. k \<le> length (rd_rest r) \<and> r' = rd_skip k r \<and> rd_take n s = Inr (x, rd_skip k s)"
    by (auto simp: extends_def rd_take_eq split: if_splits)
next
  fix r s e
  assume "extends r s" "rd_take n r = Inl e" "e \<noteq> UnexpectedEof"
  then show "rd_take n s = Inl e" by (auto simp: extends_def rd_take_eq split: if_splits)
qed

end
