(* ===== verification/Stream_Decode.thy ===== *)
theory Stream_Decode
  imports History_View Frame_Walk Prefix_Parse
begin

text \<open>
  The streaming decompressor (\<^verbatim>\<open>Decompressor\<close> of \<^verbatim>\<open>stream.rs\<close>): a machine fed with chunks of input and
  drained into chunks of output, which keeps a window of history and drops the rest. Its steps are
  shown to follow the one-shot decoder, whatever the chunks.

  An error ends the machine: the code leaves it in the middle of a block then, and the model has no state
  there. The copy of the input buffer is a byte list; the decoded buffer is a vector with its spare cells.
\<close>

section \<open>The machine\<close>

text \<open>The arms a bench switches, and the cap on the buffer a header may reserve (8 MiB as shipped).\<close>

record stream_arms =
  sa_seq :: seq_arms
  sa_xx :: xx_arm
  sa_reserve_cap :: nat

record decompressor =
  dz_opts :: decode_opts
  dz_input :: bytes
  dz_in_off :: nat
  dz_decoded :: vec
  dz_decoded_off :: nat
  dz_header :: "frame_header option"
  dz_state :: dec_state
  dz_xxh :: xxh64_state
  dz_frame_out :: nat
  dz_in_checksum :: bool
  dz_saw_zstd :: bool
  dz_dict :: "dictionary option"
  dz_prefix :: bytes
  dz_frame_start :: nat
  dz_frame_skipped :: nat

definition dz_with_options :: "decode_opts \<Rightarrow> decompressor" where
  "dz_with_options opts =
     \<lparr> dz_opts = opts, dz_input = [], dz_in_off = 0, dz_decoded = empty_vec, dz_decoded_off = 0, dz_header = None,
       dz_state = dec_state_new, dz_xxh = xx_new, dz_frame_out = 0, dz_in_checksum = False, dz_saw_zstd = False,
       dz_dict = None, dz_prefix = [], dz_frame_start = 0, dz_frame_skipped = 0 \<rparr>"

definition dz_new :: decompressor where "dz_new = dz_with_options default_opts"

definition dz_set_dictionary :: "dictionary \<Rightarrow> decompressor \<Rightarrow> decompressor" where
  "dz_set_dictionary dict d = d\<lparr> dz_prefix := dc_content dict, dz_dict := Some dict \<rparr>"

definition dz_set_prefix :: "bytes \<Rightarrow> decompressor \<Rightarrow> decompressor" where
  "dz_set_prefix prefix d = d\<lparr> dz_dict := None, dz_prefix := prefix \<rparr>"

definition dz_in_avail :: "decompressor \<Rightarrow> nat" where
  "dz_in_avail d = length (dz_input d) - dz_in_off d"

definition dz_in_bytes :: "decompressor \<Rightarrow> bytes" where
  "dz_in_bytes d = drop (dz_in_off d) (dz_input d)"

definition dz_finish_frame :: "decompressor \<Rightarrow> decompressor" where
  "dz_finish_frame d = d\<lparr> dz_header := None, dz_in_checksum := False, dz_state := dec_state_new \<rparr>"

definition dz_consume :: "nat \<Rightarrow> decompressor \<Rightarrow> decompressor" where
  "dz_consume n d = d\<lparr> dz_in_off := dz_in_off d + n \<rparr>"

section \<open>One step\<close>

text \<open>What a header reserves; \<^verbatim>\<open>Vec::reserve\<close> panics beyond \<^verbatim>\<open>isize::MAX\<close>.\<close>

definition dz_want :: "stream_arms \<Rightarrow> frame_header \<Rightarrow> nat" where
  "dz_want A h =
     (let keep = (2 * fh_window_size h + 2 * block_size_max h) mod 2 ^ 64
      in min (case fh_content_size h of Some cs \<Rightarrow> min (sat_add USIZE_MAX cs (block_size_max h)) keep | None \<Rightarrow> keep)
           (sa_reserve_cap A))"

definition dz_start_frame :: "stream_arms \<Rightarrow> frame_header \<Rightarrow> decompressor \<Rightarrow> decompressor option" where
  "dz_start_frame A h d =
     Option.bind (try_reserve (dz_want A h) (dz_decoded d)) (\<lambda>v.
     Some (d\<lparr> dz_decoded := v, dz_header := Some h, dz_state := from_dict (dz_dict d), dz_xxh := xx_new, dz_frame_out := 0,
        dz_frame_start := v_len v, dz_frame_skipped := 0, dz_saw_zstd := True \<rparr>))"

definition dz_try_header :: "stream_arms \<Rightarrow> decompressor \<Rightarrow> (bool \<times> decompressor) res option" where
  "dz_try_header A d =
     (if dz_in_avail d < 4 then Some (Inr (False, d))
      else
        let b = dz_in_bytes d; magic = le_nat (take 4 b)
        in if is_skippable_magic magic then
             if dz_in_avail d < 8 then Some (Inr (False, d))
             else
               let n = le_nat (take 4 (drop 4 b))
               in if dz_in_avail d < 8 + n then Some (Inr (False, d)) else Some (Inr (True, dz_consume (8 + n) d))
           else if magic \<noteq> MAGIC then Some (Inl (if dz_saw_zstd d then TrailingBytes else BadMagic))
           else case parse_kind (rd_new b) of
             Inl e \<Rightarrow> if e = UnexpectedEof then Some (Inr (False, d)) else Some (Inl e)
           | Inr (FkSkippable m n, r) \<Rightarrow>
               if rd_remaining r < n then Some (Inr (False, d)) else Some (Inr (True, dz_consume (rd_pos r + n) d))
           | Inr (FkZstd h, r) \<Rightarrow>
               if do_window_max (dz_opts d) < fh_window_size h then Some (Inl WindowTooLarge)
               else then_do (Some (check_dict h (dz_dict d))) (\<lambda>_.
                 Option.bind (dz_start_frame A h (dz_consume (rd_pos r) d)) (\<lambda>d. Some (Inr (True, d)))))"

definition dz_fx :: "frame_header \<Rightarrow> decompressor \<Rightarrow> frame_ctx" where
  "dz_fx h d = \<lparr> fx_window_size = fh_window_size h, fx_block_max = block_size_max h, fx_dict = dz_prefix d,
     fx_frame_start = dz_frame_start d, fx_frame_skipped = dz_frame_skipped d \<rparr>"

text \<open>One block whose payload is \<open>input[a..b]\<close>.\<close>

definition dz_block :: "stream_arms \<Rightarrow> frame_header \<Rightarrow> block_header \<Rightarrow> nat \<Rightarrow> nat \<Rightarrow> decompressor \<Rightarrow> (vec \<times> dec_state) res option" where
  "dz_block A h bh a b d =
     (let n = bh_size bh; payload = take (b - a) (drop a (dz_input d)); out = dz_decoded d
      in if block_size_max h < n then Some (Inl BlockTooLarge)
         else case bh_ty bh of
           BtRaw \<Rightarrow> Some (Inr (vec_extend (map Some payload) out, dz_state d))
         | BtRle \<Rightarrow> Some (rbind (ok_or (if a < b then get_at (dz_input d) a else None) Corruption) (\<lambda>b0.
             Inr (vec_extend (replicate n (Some b0)) out, dz_state d)))
         | BtCompressed \<Rightarrow> decode_compressed_block (sa_seq A) payload out (dz_fx h d) (dz_state d))"

text \<open>After the last block: the checksum is still to come, or the declared size is checked.\<close>

definition dz_block_end :: "frame_header \<Rightarrow> block_header \<Rightarrow> decompressor \<Rightarrow> decompressor res" where
  "dz_block_end h bh d =
     (if \<not> bh_last bh then Inr d
      else if fh_checksum h then Inr (d\<lparr> dz_in_checksum := True \<rparr>)
      else if \<exists>n. fh_content_size h = Some n \<and> dz_frame_out d \<noteq> n then Inl ContentSizeMismatch
      else Inr (dz_finish_frame d))"

definition dz_try_block :: "stream_arms \<Rightarrow> decompressor \<Rightarrow> (bool \<times> decompressor) res option" where
  "dz_try_block A d =
     (case dz_header d of None \<Rightarrow> Some (Inl Corruption) | Some h \<Rightarrow>
        if dz_in_avail d < 3 then Some (Inr (False, d))
        else case parse_block_header (rd_new (dz_in_bytes d)) of
          Inl e \<Rightarrow> if e = UnexpectedEof then Some (Inr (False, d)) else Some (Inl e)
        | Inr (bh, r) \<Rightarrow>
            let n = payload_len bh
            in if rd_remaining r < n then Some (Inr (False, d))
               else
                 let a = dz_in_off d + rd_pos r; b = a + n; d = d\<lparr> dz_in_off := b \<rparr>; start = v_len (dz_decoded d)
                 in then_do (dz_block A h bh a b d) (\<lambda>(v, st).
                    Option.bind (vec_bytes start v) (\<lambda>produced.
                    Some (rbind (dz_block_end h bh (d\<lparr> dz_decoded := v, dz_state := st, dz_xxh := xx_update (sa_xx A) produced (dz_xxh d),
                      dz_frame_out := dz_frame_out d + length produced \<rparr>)) (\<lambda>d. Inr (True, d))))))"

definition dz_checksum :: "decompressor \<Rightarrow> (bool \<times> decompressor) res" where
  "dz_checksum d =
     (if dz_in_avail d < 4 then Inr (False, d)
      else
        let got = le_nat (take 4 (dz_in_bytes d)); d = dz_consume 4 d
        in if unat (xx_digest (dz_xxh d)) mod 2 ^ 32 \<noteq> got then Inl ChecksumMismatch
           else if \<exists>h n. dz_header d = Some h \<and> fh_content_size h = Some n \<and> dz_frame_out d \<noteq> n then Inl ContentSizeMismatch
           else Inr (True, dz_finish_frame d))"

definition dz_progress :: "stream_arms \<Rightarrow> decompressor \<Rightarrow> (bool \<times> decompressor) res option" where
  "dz_progress A d =
     (if dz_in_checksum d then Some (dz_checksum d)
      else if dz_header d = None then dz_try_header A d else dz_try_block A d)"

section \<open>One call\<close>

partial_function (option) dz_loop :: "stream_arms \<Rightarrow> nat \<Rightarrow> decompressor \<Rightarrow> decompressor res option" where
  "dz_loop A room d =
     (let have = v_len (dz_decoded d) - dz_decoded_off d
      in if 0 < have \<and> room \<le> have then Some (Inr d)
         else Option.bind (dz_progress A d) (\<lambda>x. case x of
             Inl e \<Rightarrow> Some (Inl e)
           | Inr (go, d) \<Rightarrow> if go then dz_loop A room d else Some (Inr d)))"

definition dz_compact_input :: "decompressor \<Rightarrow> decompressor" where
  "dz_compact_input d =
     (if dz_in_off d = 0 then d
      else if dz_in_off d = length (dz_input d) then d\<lparr> dz_input := [], dz_in_off := 0 \<rparr>
      else if 64 * 1024 \<le> dz_in_off d \<and> 2 * length (dz_input d) \<le> 3 * dz_in_off d then
        d\<lparr> dz_input := drop (dz_in_off d) (dz_input d), dz_in_off := 0 \<rparr>
      else d)"

text \<open>\<^verbatim>\<open>drain(..n)\<close>: the rest moves to the front, the capacity stays.\<close>

definition vec_drain :: "nat \<Rightarrow> vec \<Rightarrow> vec" where
  "vec_drain n v = \<lparr> v_mem = drop n (v_mem v) @ replicate n None, v_len = v_len v - n \<rparr>"

definition SLIDE_EXTRA_MAX :: nat where "SLIDE_EXTRA_MAX = 8 * 2 ^ 20"

definition dz_compact :: "decompressor \<Rightarrow> decompressor" where
  "dz_compact d =
     (let window = (case dz_header d of Some h \<Rightarrow> fh_window_size h | None \<Rightarrow> BLOCKSIZE_MAX);
          keep_from = v_len (dz_decoded d) - window;
          dropped = min (dz_decoded_off d) keep_from;
          extra = min window SLIDE_EXTRA_MAX
      in if max (window + extra) (64 * 1024) \<le> dropped then
           let d = d\<lparr> dz_decoded := vec_drain dropped (dz_decoded d), dz_decoded_off := dz_decoded_off d - dropped \<rparr>
           in if dropped \<le> dz_frame_start d then d\<lparr> dz_frame_start := dz_frame_start d - dropped \<rparr>
              else d\<lparr> dz_frame_skipped := dz_frame_skipped d + (dropped - dz_frame_start d), dz_frame_start := 0 \<rparr>
         else d)"

record stream_status =
  st_consumed :: nat
  st_produced :: nat
  st_done :: bool

text \<open>A call with \<open>room\<close> bytes of output: the status, the bytes written and the machine after it.\<close>

definition dz_stream :: "stream_arms \<Rightarrow> bytes \<Rightarrow> nat \<Rightarrow> bool \<Rightarrow> decompressor \<Rightarrow> (stream_status \<times> bytes \<times> decompressor) res option" where
  "dz_stream A inp room fin d =
     then_do (dz_loop A room (d\<lparr> dz_input := dz_input d @ inp \<rparr>)) (\<lambda>d.
       let d = dz_compact_input d; avail = v_len (dz_decoded d) - dz_decoded_off d; n = min avail room
       in Option.bind (vec_bytes (dz_decoded_off d) (dz_decoded d)) (\<lambda>pending.
          let chunk = take n pending; d = dz_compact (d\<lparr> dz_decoded_off := dz_decoded_off d + n \<rparr>)
          in if fin \<and> dz_in_avail d \<noteq> 0 \<and> dz_header d = None \<and> n = 0 \<and> avail = 0 then Some (Inl UnexpectedEof)
             else
               let dn = (fin \<and> dz_in_avail d = 0 \<and> dz_header d = None \<and> dz_decoded_off d = v_len (dz_decoded d))
               in if dn \<and> \<not> dz_saw_zstd d then Some (Inl UnexpectedEof)
                  else Some (Inr (\<lparr> st_consumed = length inp, st_produced = n, st_done = dn \<rparr>, chunk, d))))"

end
