(* ===== verification/Stream_Follow.thy ===== *)
theory Stream_Follow
  imports Stream_Decode
begin

text \<open>
  The streaming decompressor against the one-shot reference: at every moment what is left of the reference's
  run is a function of the machine (\<open>resume\<close>), and every step keeps it. The machine's buffer is the end of
  the output so far (\<open>stands\<close>), at least a window of the current frame.
\<close>

section \<open>What is left of the one-shot run\<close>

text \<open>The streaming decoder has no cap on its output and always verifies the checksum.\<close>

definition NO_CAP :: nat where "NO_CAP = 2 ^ 66"

definition verifying :: "decode_opts \<Rightarrow> decode_opts" where
  "verifying opts = opts\<lparr> do_ignore_checksum := False \<rparr>"

lemma verifying_simps [simp]: "do_window_max (verifying opts) = do_window_max opts" "\<not> do_ignore_checksum (verifying opts)"
  by (simp_all add: verifying_def)

definition frames_from :: "stream_arms \<Rightarrow> decompressor \<Rightarrow> reader \<Rightarrow> bool \<Rightarrow> bytes \<Rightarrow> (bool \<times> bytes) res" where
  "frames_from A d r saw T = frames_ref (sa_seq A) (verifying (dz_opts d)) (dz_dict d) (dz_prefix d) NO_CAP r saw T"

definition frame_tail :: "frame_header \<Rightarrow> nat \<Rightarrow> reader \<Rightarrow> bytes \<Rightarrow> reader res" where
  "frame_tail h start r T =
     rbind (if fh_checksum h then rbind (rd_u32_le r) (\<lambda>(got, r).
         if content_checksum ArmScalar (drop start T) \<noteq> got then Inl ChecksumMismatch else Inr r) else Inr r) (\<lambda>r.
     if \<exists>n. fh_content_size h = Some n \<and> length T - start \<noteq> n then Inl ContentSizeMismatch else Inr r)"

definition call_of :: "frame_header \<Rightarrow> decompressor \<Rightarrow> bytes \<Rightarrow> frame_call" where
  "call_of h d T = \<lparr> fc_header = h, fc_hist = dz_prefix d, fc_out_cap = NO_CAP, fc_start = length T - dz_frame_out d \<rparr>"

definition end_frame :: "stream_arms \<Rightarrow> decompressor \<Rightarrow> frame_header \<Rightarrow> nat \<Rightarrow> reader \<times> bytes \<Rightarrow> (bool \<times> bytes) res" where
  "end_frame A d h start = (\<lambda>(r, T). rbind (frame_tail h start r T) (\<lambda>r. frames_from A d r True T))"

definition resume :: "stream_arms \<Rightarrow> decompressor \<Rightarrow> reader \<Rightarrow> bytes \<Rightarrow> (bool \<times> bytes) res" where
  "resume A d r T =
     (case dz_header d of
        None \<Rightarrow> frames_from A d r (dz_saw_zstd d) T
      | Some h \<Rightarrow>
          rbind (if dz_in_checksum d then Inr (r, T) else blocks_ref (sa_seq A) (call_of h d T) r T (dz_state d))
            (end_frame A d h (length T - dz_frame_out d)))"

text \<open>\<open>T\<close> is the output so far, \<open>D\<close> the end of it that is buffered.\<close>

definition stands :: "decompressor \<Rightarrow> bytes \<Rightarrow> bytes \<Rightarrow> bool" where
  "stands d T D \<longleftrightarrow> dz_in_off d \<le> length (dz_input d) \<and> vec_is (dz_decoded d) D \<and> dz_decoded_off d \<le> length D
     \<and> length D \<le> length T \<and> D = drop (length T - length D) T \<and> dict_wf (dz_dict d)
     \<and> (case dz_header d of
          None \<Rightarrow> \<not> dz_in_checksum d
        | Some h \<Rightarrow> dz_saw_zstd d \<and> fh_window_size h < 2 ^ 64 \<and> dz_frame_out d \<le> length T \<and> dec_wf (dz_state d)
            \<and> xx_inv (dz_xxh d) (drop (length T - dz_frame_out d) T)
            \<and> same_frame (block_fx (call_of h d T)) T (dz_fx h d) D \<and> (dz_in_checksum d \<longrightarrow> fh_checksum h))"

definition ahead :: "decompressor \<Rightarrow> reader \<Rightarrow> bytes \<Rightarrow> bool" where
  "ahead d r ys \<longleftrightarrow> rd_wf r \<and> rd_rest r = dz_in_bytes d @ ys"

definition moved :: "nat \<Rightarrow> decompressor \<Rightarrow> decompressor \<Rightarrow> bool" where
  "moved k d d' \<longleftrightarrow> dz_input d' = dz_input d \<and> dz_in_off d' = dz_in_off d + k \<and> dz_decoded_off d' = dz_decoded_off d
     \<and> dz_opts d' = dz_opts d \<and> dz_dict d' = dz_dict d \<and> dz_prefix d' = dz_prefix d \<and> (dz_saw_zstd d \<longrightarrow> dz_saw_zstd d')"

text \<open>What one step may do: fail as the reference does (or give up, with a dictionary), wait for bytes, or move.\<close>

inductive follows :: "stream_arms \<Rightarrow> decompressor \<Rightarrow> reader \<Rightarrow> bytes \<Rightarrow> bytes \<Rightarrow> bytes \<Rightarrow> (bool \<times> decompressor) res \<Rightarrow> bool"
  for A d r ys T D where
  refuses: "resume A d r T = Inl e \<or> dz_prefix d \<noteq> [] \<and> e = Corruption \<Longrightarrow> follows A d r ys T D (Inl e)"
| waits: "(ys = [] \<Longrightarrow> dz_header d = None \<and> dz_in_bytes d = [] \<or> (\<exists>e. resume A d r T = Inl e)) \<Longrightarrow> follows A d r ys T D (Inr (False, d))"
| moves: "0 < k \<Longrightarrow> k \<le> dz_in_avail d \<Longrightarrow> moved k d d' \<Longrightarrow> stands d' (T @ xs) (D @ xs) \<Longrightarrow> fits (rd_skip k r) (T @ xs)
    \<Longrightarrow> resume A d' (rd_skip k r) (T @ xs) = resume A d r T \<Longrightarrow> follows A d r ys T D (Inr (True, d'))"

inductive_cases follows_InlE: "follows A d r ys T D (Inl e)"
inductive_cases follows_waitE: "follows A d r ys T D (Inr (False, d'))"
inductive_cases follows_moveE: "follows A d r ys T D (Inr (True, d'))"

lemma in_avail_eq: "dz_in_avail d = length (dz_in_bytes d)"
  by (simp add: dz_in_avail_def dz_in_bytes_def)

lemma ahead_facts:
  assumes "ahead d r ys"
  shows "rd_wf r" "extends (rd_new (dz_in_bytes d)) r" "length (dz_in_bytes d) < 2 ^ 63"
    "k \<le> dz_in_avail d \<Longrightarrow> k \<le> length (rd_rest r)"
    "k \<le> dz_in_avail d \<Longrightarrow> take k (rd_rest r) = take k (dz_in_bytes d)"
proof -
  show w: "rd_wf r" using assms by (simp add: ahead_def)
  show l: "length (dz_in_bytes d) < 2 ^ 63" using assms rd_rest_wf [OF w] by (simp add: ahead_def)
  show "extends (rd_new (dz_in_bytes d)) r" using assms l by (simp add: extends_def ahead_def)
qed (use assms in \<open>simp_all add: ahead_def in_avail_eq\<close>)

lemma frames_from_cons:
  assumes "rd_rest r \<noteq> []"
  shows "frames_from A d r saw T = (case rbind (check_magic saw r) (\<lambda>_. parse_kind r) of
        Inl e \<Rightarrow> Inl e
      | Inr (kind, r) \<Rightarrow> (case kind of
            FkSkippable m n \<Rightarrow> (case rd_take n r of Inl e \<Rightarrow> Inl e | Inr (d', r) \<Rightarrow> frames_from A d r saw T)
          | FkZstd h \<Rightarrow> (case frame_ref (sa_seq A) r h (verifying (dz_opts d)) (dz_dict d) (dz_prefix d) T NO_CAP of
                Inl e \<Rightarrow> Inl e
              | Inr (r, out) \<Rightarrow> frames_from A d r True out)))"
  unfolding frames_from_def frames_ref.simps [of _ _ _ _ _ r] using assms by (simp add: rd_is_empty_iff)

lemma frames_from_moved: "dz_opts d' = dz_opts d \<Longrightarrow> dz_dict d' = dz_dict d \<Longrightarrow> dz_prefix d' = dz_prefix d
  \<Longrightarrow> frames_from A d' = frames_from A d"
  by (simp add: frames_from_def fun_eq_iff)

section \<open>A header\<close>

lemma frame_ref_tail:
  "frame_ref A r h (verifying opts) dict hist T NO_CAP =
     (if do_window_max opts < fh_window_size h then Inl WindowTooLarge
      else rbind (check_dict h dict) (\<lambda>_.
        if \<exists>n. fh_content_size h = Some n \<and> NO_CAP - length T < n then Inl ContentSizeTooLarge
        else rbind (blocks_ref A \<lparr> fc_header = h, fc_hist = hist, fc_out_cap = NO_CAP, fc_start = length T \<rparr> r T (from_dict dict))
          (\<lambda>(r, T'). rbind (frame_tail h (length T) r T') (\<lambda>r. Inr (r, T')))))"
proof -
  have fuse: "rbind X (\<lambda>r. if b then Inl e else Inr (r, T')) = rbind (rbind X (\<lambda>r. if b then Inl e else Inr r)) (\<lambda>r. Inr (r, T'))"
    for X :: "reader res" and b e and T' :: bytes
    by (cases X) simp_all
  show ?thesis by (simp only: frame_ref_def verifying_simps Let_def frame_tail_def fuse simp_thms)
qed

lemma magic_not_skippable: "is_skippable_magic m \<Longrightarrow> m \<noteq> MAGIC"
  by (auto simp: is_skippable_magic_def MAGIC_def MAGIC_SKIPPABLE_MIN_def MAGIC_SKIPPABLE_MAX_def)

lemma parse_skippable:
  assumes "rd_wf r" "4 \<le> length (rd_rest r)" "is_skippable_magic (le_nat (take 4 (rd_rest r)))"
  shows "parse_kind r = (if 8 \<le> length (rd_rest r)
      then Inr (FkSkippable (le_nat (take 4 (rd_rest r))) (le_nat (take 4 (drop 4 (rd_rest r)))), rd_skip 8 r) else Inl UnexpectedEof)"
proof -
  have "rd_u32_le r = Inr (le_nat (take 4 (rd_rest r)), rd_skip 4 r)"
    using f32.rd_ok [OF assms(1,2)] by auto
  moreover have "rd_wf (rd_skip 4 r)" using assms(1,2) by (rule rd_skip_wf)
  then have "rd_u32_le (rd_skip 4 r) = (if 8 \<le> length (rd_rest r) then Inr (le_nat (take 4 (drop 4 (rd_rest r))), rd_skip 8 r) else Inl UnexpectedEof)"
    using f32.rd_eq [of "rd_skip 4 r"] by (auto simp: rd_skip_rest)
  ultimately show ?thesis using magic_not_skippable [OF assms(3)] assms(3) by (simp add: parse_kind_def)
qed

text \<open>The reference at a frame boundary, by what the first four bytes are.\<close>

lemma frames_from_short:
  assumes "rd_wf r" "rd_rest r \<noteq> []" "length (rd_rest r) < 4"
  shows "\<exists>e. frames_from A d r saw T = Inl e"
proof -
  have "\<exists>e. check_magic saw r = Inl e" using assms by (simp add: check_magic_def rd_peek_eq)
  then show ?thesis unfolding frames_from_cons [OF assms(2)] by auto
qed

lemma check_magic_eq:
  assumes "rd_wf r" "4 \<le> length (rd_rest r)"
  shows "check_magic saw r = (let m = le_nat (take 4 (rd_rest r)) in
    if m = MAGIC \<or> is_skippable_magic m then Inr () else if saw then Inl TrailingBytes else Inl BadMagic)"
  using assms by (simp add: check_magic_def rd_peek_eq Let_def)

lemma nonempty_rest: "4 \<le> length (rd_rest r) \<Longrightarrow> rd_rest r \<noteq> []"
  by auto

lemma fits_skip: "fits r T \<Longrightarrow> fits (rd_skip k r) T"
  by (erule fits_less) (simp add: rd_remaining_def)

lemma frames_from_skippable:
  assumes "rd_wf r" "4 \<le> length (rd_rest r)" "is_skippable_magic (le_nat (take 4 (rd_rest r)))"
  shows "frames_from A d r saw T =
    (let n = le_nat (take 4 (drop 4 (rd_rest r))) in
     if 8 + n \<le> length (rd_rest r) then frames_from A d (rd_skip (8 + n) r) saw T else Inl UnexpectedEof)"
proof (cases "8 \<le> length (rd_rest r)")
  case True
  then have "rd_wf (rd_skip 8 r)" using assms(1) by (simp add: rd_skip_wf)
  then show ?thesis unfolding frames_from_cons [OF nonempty_rest [OF assms(2)]] parse_skippable [OF assms] check_magic_eq [OF assms(1,2)]
    using assms(3) True by (auto simp: Let_def rd_take_eq rd_skip_rest)
next
  case False
  then show ?thesis unfolding frames_from_cons [OF nonempty_rest [OF assms(2)]] parse_skippable [OF assms] check_magic_eq [OF assms(1,2)]
    using assms(3) by (simp add: Let_def)
qed

lemma parse_kind_magic:
  assumes "rd_wf r" "4 \<le> length (rd_rest r)" "le_nat (take 4 (rd_rest r)) = MAGIC" "parse_kind r = Inr (k, r')"
  obtains h where "k = FkZstd h" "fh_window_size h < 2 ^ 64" "\<And>n. fh_content_size h = Some n \<Longrightarrow> n < 2 ^ 64"
proof -
  have m: "rd_u32_le r = Inr (MAGIC, rd_skip 4 r)" using f32.rd_ok [OF assms(1,2)] assms(3) by auto
  have w: "rd_wf (rd_skip 4 r)" using assms(1,2) by (rule rd_skip_wf)
  obtain h where h: "parse_zstd_header (rd_skip 4 r) = Inr (h, r')" "k = FkZstd h"
    using assms(4) m by (auto simp: parse_kind_def res_simps)
  from zstd_header_fields [OF w h(1)] show ?thesis by (intro that [OF h(2)]) auto
qed

lemma boundary_zstd:
  assumes "rd_wf r" "4 \<le> length (rd_rest r)" "le_nat (take 4 (rd_rest r)) = MAGIC"
  shows "frames_from A d r saw T = rbind (parse_kind r) (\<lambda>(kind, r). case kind of
      FkSkippable m n \<Rightarrow> (case rd_take n r of Inl e \<Rightarrow> Inl e | Inr (d', r) \<Rightarrow> frames_from A d r saw T)
    | FkZstd h \<Rightarrow> (case frame_ref (sa_seq A) r h (verifying (dz_opts d)) (dz_dict d) (dz_prefix d) T NO_CAP of
          Inl e \<Rightarrow> Inl e | Inr (r, out) \<Rightarrow> frames_from A d r True out))"
  unfolding frames_from_cons [OF nonempty_rest [OF assms(2)]] check_magic_eq [OF assms(1,2)] Let_def assms(3)
  by (simp add: rbind_def)

lemma resume_header: "dz_header d = None \<Longrightarrow> resume A d r T = frames_from A d r (dz_saw_zstd d) T"
  by (simp add: resume_def)

lemma stands_reserve:
  assumes "stands d T D" "length T < 2 ^ 61" "n < 2 ^ 62"
  obtains v where "try_reserve n (dz_decoded d) = Some v" "vec_is v D" "v_len v = length D"
proof -
  have v: "vec_is (dz_decoded d) D" "length D \<le> length T" using assms(1) by (simp_all add: stands_def)
  then have "v_len (dz_decoded d) = length D" by (simp add: vec_is_def)
  then have "try_reserve n (dz_decoded d) = Some (vec_reserve n (dz_decoded d))" using v(2) assms(2,3) by (simp add: try_reserve_def)
  moreover note vec_reserve_is(1) [OF v(1), of n]
  ultimately show ?thesis using that by (simp add: vec_is_def)
qed

lemma start_frame_follows:
  assumes st: "stands d T D" "dz_header d = None" and a: "ahead d r ys" "fits r T" and k: "0 < k" "k \<le> dz_in_avail d"
    and h: "fh_window_size h < 2 ^ 64" "\<And>n. fh_content_size h = Some n \<Longrightarrow> n < 2 ^ 64" "sa_reserve_cap A < 2 ^ 62"
    and c: "\<not> do_window_max (dz_opts d) < fh_window_size h" "check_dict h (dz_dict d) = Inr ()"
    and res: "resume A d r T = (case frame_ref (sa_seq A) (rd_skip k r) h (verifying (dz_opts d)) (dz_dict d) (dz_prefix d) T NO_CAP of
          Inl e \<Rightarrow> Inl e | Inr (r, out) \<Rightarrow> frames_from A d r True out)"
  shows "\<exists>d'. dz_start_frame A h (dz_consume k d) = Some d' \<and> follows A d r ys T D (Inr (True, d'))"
proof -
  have small: "length T < 2 ^ 61" using a(2) by (simp add: fits_def)
  have "dz_want A h < 2 ^ 62" using h(3) by (simp add: dz_want_def Let_def)
  from stands_reserve [OF st(1) small this] obtain v where v: "try_reserve (dz_want A h) (dz_decoded d) = Some v" "vec_is v D" "v_len v = length D"
    by blast
  let ?d = "d\<lparr> dz_in_off := dz_in_off d + k, dz_decoded := v, dz_header := Some h, dz_state := from_dict (dz_dict d), dz_xxh := xx_new,
      dz_frame_out := 0, dz_frame_start := length D, dz_frame_skipped := 0, dz_saw_zstd := True \<rparr>"
  have s: "dz_start_frame A h (dz_consume k d) = Some ?d" using v by (simp add: dz_start_frame_def dz_consume_def)
  have sf: "same_frame (block_fx (call_of h ?d T)) T (dz_fx h ?d) D"
    using st(1) by (simp add: same_frame_def block_fx_def call_of_def dz_fx_def stands_def)
  have "\<not> dz_in_checksum d" using st by (simp add: stands_def)
  moreover have "dz_in_off d + k \<le> length (dz_input d)" using st(1) k(2) by (auto simp: stands_def dz_in_avail_def)
  ultimately have st': "stands ?d T D"
    using st(1) v(2) h(1) sf xx_new_inv by (simp add: stands_def dict_wf_def)
  have cap: "\<not> (\<exists>n. fh_content_size h = Some n \<and> NO_CAP - length T < n)"
  proof
    assume "\<exists>n. fh_content_size h = Some n \<and> NO_CAP - length T < n"
    then obtain n where n: "n < 2 ^ 64" "NO_CAP - length T < n" using h(2) by blast
    moreover have "(2 :: nat) ^ 64 \<le> 2 ^ 66 - 2 ^ 61" by simp
    ultimately show False using small by (simp add: NO_CAP_def)
  qed
  have ff: "frames_from A ?d = frames_from A d" by (rule frames_from_moved) simp_all
  have "resume A ?d (rd_skip k r) T = resume A d r T"
    unfolding res frame_ref_tail if_not_P [OF c(1)] c(2) rbind_simps if_not_P [OF cap]
    using \<open>\<not> dz_in_checksum d\<close>
    by (cases "blocks_ref (sa_seq A) \<lparr>fc_header = h, fc_hist = dz_prefix d, fc_out_cap = NO_CAP, fc_start = length T\<rparr> (rd_skip k r) T (from_dict (dz_dict d))")
      (auto simp: resume_def call_of_def end_frame_def ff rbind_def split: sum.split)
  then have "follows A d r ys T D (Inr (True, ?d))"
    using st' fits_skip [OF a(2)] by (intro follows.moves [where xs = "[]", OF k]) (simp_all add: moved_def)
  then show ?thesis using s by blast
qed

lemma try_header_follows:
  assumes st: "stands d T D" "dz_header d = None" and a: "ahead d r ys" "fits r T" and cap: "sa_reserve_cap A < 2 ^ 62"
  shows "\<exists>x. dz_try_header A d = Some x \<and> follows A d r ys T D x"
proof -
  note f = ahead_facts [OF a(1)] and res = resume_header [OF st(2), of A r T]
  let ?b = "dz_in_bytes d"
  have whole: "rd_rest r = ?b" if "ys = []" using a(1) that by (simp add: ahead_def)
  have wait: "follows A d r ys T D (Inr (False, d))" if "ys = [] \<Longrightarrow> ?b \<noteq> [] \<Longrightarrow> \<exists>e. frames_from A d r (dz_saw_zstd d) T = Inl e"
    using that st(2) unfolding res [symmetric] by (intro follows.waits) blast
  show ?thesis
  proof (cases "dz_in_avail d < 4")
    case True
    then have "follows A d r ys T D (Inr (False, d))"
      using frames_from_short [OF f(1)] by (intro wait) (simp add: whole in_avail_eq)
    then show ?thesis using True by (simp add: dz_try_header_def)
  next
    case four: False
    then have 4: "4 \<le> length (rd_rest r)" "take 4 (rd_rest r) = take 4 ?b" using f(4,5) by auto
    let ?m = "le_nat (take 4 ?b)"
    consider "is_skippable_magic ?m" | "\<not> is_skippable_magic ?m" "?m \<noteq> MAGIC" | "\<not> is_skippable_magic ?m" "?m = MAGIC" by blast
    then show ?thesis
    proof cases
      case 1
      note sk = frames_from_skippable [OF f(1) 4(1), unfolded 4(2), OF 1, of A d "dz_saw_zstd d" T]
      let ?n = "le_nat (take 4 (drop 4 ?b))"
      have short: "follows A d r ys T D (Inr (False, d))" if "dz_in_avail d < 8 + ?n"
        using that sk by (intro wait) (simp add: whole in_avail_eq)
      show ?thesis
      proof (cases "dz_in_avail d < 8 + ?n")
        case True
        then show ?thesis using four 1 short by (auto simp: dz_try_header_def Let_def)
      next
        case False
        then have n: "8 + ?n \<le> dz_in_avail d" "8 \<le> length ?b" by (simp_all add: in_avail_eq)
        have "rd_rest r = ?b @ ys" using a(1) by (simp add: ahead_def)
        then have "take 4 (drop 4 (rd_rest r)) = take 4 (drop 4 ?b)" using n(2) by simp
        then have eq: "frames_from A d r (dz_saw_zstd d) T = frames_from A d (rd_skip (8 + ?n) r) (dz_saw_zstd d) T"
          using sk f(4) [OF n(1)] by (simp add: Let_def)
        have "follows A d r ys T D (Inr (True, dz_consume (8 + ?n) d))"
        proof (rule follows.moves [where xs = "[]", OF _ n(1)])
          show "stands (dz_consume (8 + ?n) d) (T @ []) (D @ [])"
            using st n(1) by (auto simp: stands_def dz_consume_def dz_in_avail_def)
          show "resume A (dz_consume (8 + ?n) d) (rd_skip (8 + ?n) r) (T @ []) = resume A d r T"
            unfolding res eq using st(2) frames_from_moved [of "dz_consume (8 + ?n) d" d A] by (simp add: resume_def dz_consume_def)
        qed (use fits_skip [OF a(2)] in \<open>simp_all add: moved_def dz_consume_def\<close>)
        then show ?thesis using four 1 False by (auto simp: dz_try_header_def Let_def)
      qed
    next
      case 2
      then have "resume A d r T = Inl (if dz_saw_zstd d then TrailingBytes else BadMagic)"
        unfolding res frames_from_cons [OF nonempty_rest [OF 4(1)]] check_magic_eq [OF f(1) 4(1)] by (simp add: 4(2) Let_def)
      then show ?thesis using four 2 by (auto simp: dz_try_header_def Let_def intro: follows.refuses)
    next
      case 3
      note bz = boundary_zstd [OF f(1) 4(1), unfolded 4(2), OF 3(2), of A d "dz_saw_zstd d" T]
      have step: "dz_try_header A d = (case parse_kind (rd_new ?b) of
             Inl e \<Rightarrow> if e = UnexpectedEof then Some (Inr (False, d)) else Some (Inl e)
           | Inr (FkSkippable m n, r) \<Rightarrow>
               if rd_remaining r < n then Some (Inr (False, d)) else Some (Inr (True, dz_consume (rd_pos r + n) d))
           | Inr (FkZstd h, r) \<Rightarrow>
               if do_window_max (dz_opts d) < fh_window_size h then Some (Inl WindowTooLarge)
               else then_do (Some (check_dict h (dz_dict d))) (\<lambda>_.
                 Option.bind (dz_start_frame A h (dz_consume (rd_pos r) d)) (\<lambda>d. Some (Inr (True, d)))))"
        using four 3 by (simp add: dz_try_header_def Let_def)
      show ?thesis
      proof (cases "parse_kind (rd_new ?b)")
        case (Inl e)
        show ?thesis
        proof (cases "e = UnexpectedEof")
          case True
          have "\<exists>e. parse_kind r = Inl e" if "ys = []"
          proof (rule ccontr)
            assume "\<not> ?thesis"
            then obtain x r' where "parse_kind r = Inr (x, r')" by (cases "parse_kind r") auto
            moreover have "extends r (rd_new ?b)" using f(1,3) whole [OF that] by (simp add: extends_def)
            ultimately show False using kind.prefix_ok Inl by fastforce
          qed
          then have "follows A d r ys T D (Inr (False, d))" by (intro wait) (auto simp: bz)
          then show ?thesis using True Inl step by simp
        next
          case False
          then have "resume A d r T = Inl e" using kind.prefix_err [OF f(2) Inl False] by (simp add: res bz)
          then show ?thesis using False Inl step by (auto intro: follows.refuses)
        qed
      next
        case (Inr p)
        obtain q r1 where p: "p = (q, r1)" by (metis prod.exhaust)
        have w: "rd_wf (rd_new ?b)" "4 \<le> length (rd_rest (rd_new ?b))" "le_nat (take 4 (rd_rest (rd_new ?b))) = MAGIC"
          using f(3) four 3 by (simp_all add: in_avail_eq)
        obtain h where q: "q = FkZstd h" and h: "fh_window_size h < 2 ^ 64" "\<And>n. fh_content_size h = Some n \<Longrightarrow> n < 2 ^ 64"
          using parse_kind_magic [OF w Inr [unfolded p]] by blast
        obtain k where k: "k \<le> length ?b" "r1 = rd_skip k (rd_new ?b)" "parse_kind r = Inr (FkZstd h, rd_skip k r)"
          using kind.prefix_ok [OF f(2) Inr [unfolded p q]] by auto
        have pos: "0 < k" "rd_pos r1 = k"
          using parse_kind_less [OF k(3)] by (auto simp: k(2) rd_remaining_def rd_new_def)
        note rs = res [unfolded bz k(3), simplified]
        show ?thesis
        proof (cases "do_window_max (dz_opts d) < fh_window_size h")
          case True
          then have "resume A d r T = Inl WindowTooLarge" by (simp add: rs frame_ref_def)
          then show ?thesis using True by (auto simp: step Inr p q intro: follows.refuses)
        next
          case win: False
          show ?thesis
          proof (cases "check_dict h (dz_dict d)")
            case (Inl e)
            then have "resume A d r T = Inl e" using win by (simp add: rs frame_ref_def)
            then show ?thesis using win Inl by (auto simp: step Inr p q intro: follows.refuses)
          next
            case dict: (Inr u)
            obtain d' where "dz_start_frame A h (dz_consume k d) = Some d'" "follows A d r ys T D (Inr (True, d'))"
              using start_frame_follows [OF st a pos(1) _ h cap win _ rs] k(1) dict by (auto simp: in_avail_eq)
            then show ?thesis using win dict by (simp add: step Inr p q pos(2))
          qed
        qed
      qed
    qed
  qed
qed

section \<open>The checksum\<close>

lemma resume_frame:
  assumes "dz_header d = Some h"
  shows "resume A d r T = rbind (if dz_in_checksum d then Inr (r, T) else blocks_ref (sa_seq A) (call_of h d T) r T (dz_state d))
    (end_frame A d h (length T - dz_frame_out d))"
  by (simp add: resume_def assms)

lemma end_frame_pair: "end_frame A d h start (r, T) = rbind (frame_tail h start r T) (\<lambda>r. frames_from A d r True T)"
  by (simp add: end_frame_def)

lemma finish_stands:
  assumes "stands d T D" "dz_in_off d + k \<le> length (dz_input d)"
  shows "stands (dz_finish_frame (dz_consume k d)) T D"
  using assms by (simp add: stands_def dz_finish_frame_def dz_consume_def)

lemma finish_resume:
  assumes "dz_saw_zstd d"
  shows "resume A (dz_finish_frame (dz_consume k d)) r T = frames_from A d r True T"
proof -
  have "frames_from A (dz_finish_frame (dz_consume k d)) = frames_from A d"
    by (rule frames_from_moved) (simp_all add: dz_finish_frame_def dz_consume_def)
  then show ?thesis using assms by (simp add: resume_def dz_finish_frame_def dz_consume_def)
qed

lemma checksum_follows:
  assumes st: "stands d T D" "dz_header d = Some h" "dz_in_checksum d" and a: "ahead d r ys" "fits r T"
  shows "follows A d r ys T D (dz_checksum d)"
proof -
  note f = ahead_facts [OF a(1)]
  let ?b = "dz_in_bytes d" and ?start = "length T - dz_frame_out d"
  have res: "resume A d r T = rbind (frame_tail h ?start r T) (\<lambda>r. frames_from A d r True T)" and ck: "fh_checksum h"
    using st by (simp_all add: resume_frame end_frame_pair stands_def)
  show ?thesis
  proof (cases "dz_in_avail d < 4")
    case True
    have "follows A d r ys T D (Inr (False, d))"
    proof (rule follows.waits)
      assume "ys = []"
      then have "length (rd_rest r) < 4" using a(1) True by (simp add: ahead_def in_avail_eq)
      then have "rd_u32_le r = Inl UnexpectedEof" using f32.rd_eof [OF f(1)] by simp
      then show "dz_header d = None \<and> ?b = [] \<or> (\<exists>e. resume A d r T = Inl e)" by (simp add: res frame_tail_def ck)
    qed
    then show ?thesis using True by (simp add: dz_checksum_def)
  next
    case False
    then have 4: "4 \<le> dz_in_avail d" by simp
    let ?got = "le_nat (take 4 ?b)" and ?sum = "content_checksum ArmScalar (drop ?start T)"
    have u: "rd_u32_le r = Inr (?got, rd_skip 4 r)" using f32.rd_ok [OF f(1) f(4) [OF 4]] f(5) [OF 4] by auto
    have x: "xx_inv (dz_xxh d) (drop ?start T)" "dz_frame_out d \<le> length T" and saw: "dz_saw_zstd d" using st by (simp_all add: stands_def)
    have "length T < 2 ^ 61" using a(2) by (simp add: fits_def)
    then have "length T < 2 ^ 64" by simp
    then have "xx_digest (dz_xxh d) = xxh64 ArmScalar (drop ?start T)" using x(1) by (intro xx_digest_inv) simp_all
    then have dig: "unat (xx_digest (dz_xxh (dz_consume 4 d))) mod 2 ^ 32 = ?sum" by (simp add: content_checksum_def dz_consume_def)
    have len: "length T - ?start = dz_frame_out d" using x(2) by simp
    have step: "dz_checksum d = (if ?sum \<noteq> ?got then Inl ChecksumMismatch
        else if \<exists>n. fh_content_size h = Some n \<and> dz_frame_out d \<noteq> n then Inl ContentSizeMismatch
        else Inr (True, dz_finish_frame (dz_consume 4 d)))"
      unfolding dz_checksum_def if_not_P [OF False] Let_def dig using st(2) by (simp add: dz_consume_def)
    have rs: "resume A d r T = rbind (if ?sum \<noteq> ?got then Inl ChecksumMismatch
        else if \<exists>n. fh_content_size h = Some n \<and> dz_frame_out d \<noteq> n then Inl ContentSizeMismatch
        else Inr (rd_skip 4 r)) (\<lambda>r. frames_from A d r True T)"
      unfolding res frame_tail_def len using ck u by simp
    consider "?sum \<noteq> ?got" | "\<not> ?sum \<noteq> ?got" "\<exists>n. fh_content_size h = Some n \<and> dz_frame_out d \<noteq> n"
      | "\<not> ?sum \<noteq> ?got" "\<not> (\<exists>n. fh_content_size h = Some n \<and> dz_frame_out d \<noteq> n)" by blast
    then show ?thesis
    proof cases
      case 3
      have off: "dz_in_off d + 4 \<le> length (dz_input d)" using 4 by (simp add: dz_in_avail_def)
      have "follows A d r ys T D (Inr (True, dz_finish_frame (dz_consume 4 d)))"
      proof (rule follows.moves [where xs = "[]" and k = 4])
        show "resume A (dz_finish_frame (dz_consume 4 d)) (rd_skip 4 r) (T @ []) = resume A d r T"
          unfolding finish_resume [OF saw] rs if_not_P [OF 3(1)] if_not_P [OF 3(2)] by simp
      qed (use 4 finish_stands [OF st(1) off] fits_skip [OF a(2)] in \<open>simp_all add: moved_def dz_finish_frame_def dz_consume_def\<close>)
      then show ?thesis unfolding step if_not_P [OF 3(1)] if_not_P [OF 3(2)] .
    qed (simp_all add: step rs follows.refuses)
  qed
qed

section \<open>A block\<close>

lemma dz_block_in_off [simp]: "dz_block A h bh a b (d\<lparr> dz_in_off := i \<rparr>) = dz_block A h bh a b d"
  by (simp add: dz_block_def dz_fx_def Let_def split: block_type.split)

text \<open>What the reference and the machine both have after a block.\<close>

definition block_related :: "frame_header \<Rightarrow> decompressor \<Rightarrow> bytes \<Rightarrow> bytes \<Rightarrow> reader \<Rightarrow> reader \<times> bytes \<times> dec_state \<Rightarrow> vec \<times> dec_state \<Rightarrow> bool" where
  "block_related h d T D r' = (\<lambda>(r, T', st) (v, st').
     r = r' \<and> st' = st \<and> dec_wf st \<and> (\<exists>xs. T' = T @ xs \<and> length xs \<le> block_size_max h \<and> vec_is v (D @ xs)))"

lemma same_suffix:
  assumes "D @ xs = drop (length (T @ ys) - length (D @ xs)) (T @ ys)" "length xs = length ys" "length D \<le> length T"
  shows "xs = ys"
proof -
  have "drop (length (T @ ys) - length (D @ xs)) (T @ ys) = drop (length T - length D) T @ ys" using assms(2,3) by simp
  then have "D @ xs = drop (length T - length D) T @ ys" by (rule trans [OF assms(1)])
  then show ?thesis using assms(2) by (metis append_eq_append_conv)
qed

lemma same_frame_grown:
  assumes "same_frame fx T fx' D" "same_frame fx (T @ ys) fx' (D @ xs)"
  shows "xs = ys"
proof (rule same_suffix)
  have "length T - fx_frame_start fx = length D - fx_frame_start fx' + fx_frame_skipped fx'" "fx_frame_start fx \<le> length T"
    "fx_frame_start fx' \<le> length D" using assms(1) by (simp_all add: same_frame_def)
  moreover have "length T + length ys - fx_frame_start fx = length D + length xs - fx_frame_start fx' + fx_frame_skipped fx'"
    using assms(2) by (simp add: same_frame_def)
  ultimately show "length xs = length ys" by linarith
  show "D @ xs = drop (length (T @ ys) - length (D @ xs)) (T @ ys)" using assms(2) unfolding same_frame_def by blast
  show "length D \<le> length T" using assms(1) unfolding same_frame_def by blast
qed

lemma compressed_ref_grows:
  assumes "dec_wf st" "length payload < 2 ^ 63" "length T + fx_block_max fx + fx_frame_skipped fx < 2 ^ 62"
    "fx_window_size fx < 2 ^ 64" "fx_frame_start fx \<le> length T" "\<not> ar_pipeline A" "\<not> ar_pipe1 A"
    and "compressed_ref A payload T fx st = Inr (T', st')"
  shows "\<exists>xs. T' = T @ xs \<and> length xs \<le> fx_block_max fx"
proof -
  have "vec_is \<lparr> v_mem = map Some T, v_len = length T \<rparr> T" by (simp add: vec_is_def mem_is_def)
  from compressed_ref_ok [OF assms(1) this assms(2-7)] show ?thesis by (simp add: assms(8))
qed

lemma compressed_follows:
  assumes st: "dec_wf st" "vec_is v D" "same_frame fx T fx' D"
    and b: "length payload < 2 ^ 63" "length T + fx_block_max fx < 2 ^ 62" "fx_window_size fx < 2 ^ 64"
    and arms: "\<not> ar_pipeline A" "\<not> ar_pipe1 A"
  shows "\<exists>x. decode_compressed_block A payload v fx' st = Some x \<and>
    agrees (fx_dict fx \<noteq> []) (\<lambda>(T', st1) (v', st2). st2 = st1 \<and> dec_wf st1 \<and> (\<exists>xs. T' = T @ xs \<and> length xs \<le> fx_block_max fx \<and> vec_is v' (D @ xs)))
      (compressed_ref A payload T fx st) x"
proof -
  have c: "fx_block_max fx' = fx_block_max fx" "fx_window_size fx' = fx_window_size fx" "fx_frame_skipped fx = 0"
    "fx_frame_start fx \<le> length T" "fx_frame_start fx' \<le> length D" "length D \<le> length T"
    "length T - fx_frame_start fx = length D - fx_frame_start fx' + fx_frame_skipped fx'"
    using st(3) by (simp_all add: same_frame_def)
  have "fx_frame_skipped fx' = 0 \<or> fx_frame_start fx' = 0" using st(3) by (auto simp: same_frame_def)
  then have sum: "length D + fx_block_max fx' + fx_frame_skipped fx' < 2 ^ 62" using c(1,4-7) b(2) by linarith
  have "fx_window_size fx' < 2 ^ 64" using c(2) b(3) by simp
  note ok = compressed_ref_ok [OF st(1,2) b(1) sum this c(5) arms]
  note view = compressed_ref_view [OF st(3), of A payload st]
  show ?thesis
  proof (cases "compressed_ref A payload D fx' st")
    case (Inl e)
    then show ?thesis using ok view by (cases "compressed_ref A payload T fx st") (auto simp: agrees_def)
  next
    case (Inr p)
    obtain D' st' where p: "p = (D', st')" by (metis prod.exhaust)
    obtain v' xs where v': "decode_compressed_block A payload v fx' st = Some (Inr (v', st'))" "vec_is v' D'" "dec_wf st'" "D' = D @ xs"
      using ok by (auto simp: Inr p)
    obtain T' where T': "compressed_ref A payload T fx st = Inr (T', st')" "same_frame fx T' fx' D'"
      using view by (cases "compressed_ref A payload T fx st") (auto simp: agrees_def Inr p)
    have "length T + fx_block_max fx + fx_frame_skipped fx < 2 ^ 62" using b(2) c(3) by simp
    from compressed_ref_grows [OF st(1) b(1) this b(3) c(4) arms T'(1)]
    obtain ys where ys: "T' = T @ ys" "length ys \<le> fx_block_max fx" by blast
    have "xs = ys" using same_frame_grown [OF st(3)] T'(2) by (simp add: ys v'(4))
    then show ?thesis using v' T'(1) ys by simp
  qed
qed

lemma no_cap:
  assumes "length T + k < 2 ^ 62"
  shows "\<not> NO_CAP - length T < k" "\<not> NO_CAP < length T + k"
proof -
  have "(2 :: nat) ^ 62 \<le> 2 ^ 66" by simp
  then show "\<not> NO_CAP - length T < k" "\<not> NO_CAP < length T + k" using assms unfolding NO_CAP_def by linarith+
qed

lemma dz_block_follows:
  assumes st: "stands d T D" "dz_header d = Some h" and r: "rd_wf r" "rd_rest r = drop a (dz_input d) @ ys"
    and n: "payload_len bh \<le> length (dz_input d) - a" and small: "length T + block_size_max h < 2 ^ 62"
    and arms: "\<not> ar_pipeline (sa_seq A)" "\<not> ar_pipe1 (sa_seq A)"
  shows "\<exists>x. dz_block A h bh a (a + payload_len bh) d = Some x \<and>
    agrees (dz_prefix d \<noteq> []) (block_related h d T D (rd_skip (payload_len bh) r))
      (block_ref (sa_seq A) (call_of h d T) bh r T (dz_state d)) x"
proof -
  let ?C = "call_of h d T" and ?n = "payload_len bh"
  have C: "fc_header ?C = h" "fc_out_cap ?C = NO_CAP" "fx_block_max (block_fx ?C) = block_size_max h"
    "fx_window_size (block_fx ?C) = fh_window_size h" "fx_dict (block_fx ?C) = dz_prefix d"
    by (simp_all add: call_of_def block_fx_def)
  have s: "dec_wf (dz_state d)" "vec_is (dz_decoded d) D" "same_frame (block_fx ?C) T (dz_fx h d) D" "fh_window_size h < 2 ^ 64"
    using st by (simp_all add: stands_def)
  show ?thesis
  proof (cases "block_size_max h < bh_size bh")
    case True
    then show ?thesis by (simp add: dz_block_def block_ref_def C Let_def)
  next
    case False
    then have bs: "bh_size bh \<le> block_size_max h" by simp
    then have "length T + bh_size bh < 2 ^ 62" using small by linarith
    note cap = no_cap [OF this]
    have len: "?n \<le> length (rd_rest r)" using n by (simp add: r(2))
    have pay: "take ?n (drop a (dz_input d)) = take ?n (rd_rest r)" using n by (simp add: r(2))
    have tk: "rd_take ?n r = Inr (take ?n (rd_rest r), rd_skip ?n r)" using len by (simp add: rd_take_eq [OF r(1)])
    show ?thesis
    proof (cases "bh_ty bh")
      case BtRaw
      then have p: "?n = bh_size bh" by (simp add: payload_len_def)
      have "block_ref (sa_seq A) ?C bh r T (dz_state d) = Inr (rd_skip ?n r, T @ take ?n (rd_rest r), dz_state d)"
        using False BtRaw tk cap(1) unfolding p by (simp add: block_ref_def C Let_def)
      moreover have "dz_block A h bh a (a + ?n) d = Some (Inr (vec_extend (map Some (take ?n (rd_rest r))) (dz_decoded d), dz_state d))"
        using False BtRaw pay by (simp add: dz_block_def Let_def)
      ultimately show ?thesis using s(1) bs p vec_extend_is [OF s(2), of "take ?n (rd_rest r)"] len by (simp add: block_related_def)
    next
      case BtRle
      then have p: "?n = 1" by (simp add: payload_len_def)
      then obtain b bs' where b: "drop a (dz_input d) = b # bs'" using n by (cases "drop a (dz_input d)") auto
      then have at: "a < length (dz_input d)" "dz_input d ! a = b" by (auto simp: nth_via_drop intro: ccontr)
      have "rd_u8 r = Inr (b, rd_skip 1 r)" by (rule rd_u8_Cons [OF r(1)]) (simp add: r(2) b)
      then have "block_ref (sa_seq A) ?C bh r T (dz_state d) = Inr (rd_skip ?n r, T @ replicate (bh_size bh) b, dz_state d)"
        using False BtRle cap(1) by (simp add: block_ref_def C Let_def p)
      moreover have "dz_block A h bh a (a + ?n) d = Some (Inr (vec_extend (replicate (bh_size bh) (Some b)) (dz_decoded d), dz_state d))"
        using False BtRle at by (simp add: dz_block_def Let_def p get_at_def)
      ultimately show ?thesis using s(1) bs vec_extend_is [OF s(2), of "replicate (bh_size bh) b"] by (simp add: block_related_def)
    next
      case BtCompressed
      then have p: "?n = bh_size bh" by (simp add: payload_len_def)
      have "length (take ?n (rd_rest r)) < 2 ^ 63" using rd_rest_wf [OF r(1)] by simp
      moreover have "length T + fx_block_max (block_fx ?C) < 2 ^ 62" "fx_window_size (block_fx ?C) < 2 ^ 64" using small s(4) C by simp_all
      ultimately obtain x where x: "decode_compressed_block (sa_seq A) (take ?n (rd_rest r)) (dz_decoded d) (dz_fx h d) (dz_state d) = Some x"
        "agrees (dz_prefix d \<noteq> []) (\<lambda>(T', st1) (v', st2). st2 = st1 \<and> dec_wf st1 \<and> (\<exists>xs. T' = T @ xs \<and> length xs \<le> block_size_max h \<and> vec_is v' (D @ xs)))
          (compressed_ref (sa_seq A) (take ?n (rd_rest r)) T (block_fx ?C) (dz_state d)) x"
        using compressed_follows [OF s(1-3) _ _ _ arms, of "take ?n (rd_rest r)"] C by auto
      have "dz_block A h bh a (a + ?n) d = Some x"
        using False BtCompressed pay x(1) by (simp add: dz_block_def Let_def)
      moreover have "block_ref (sa_seq A) ?C bh r T (dz_state d) =
          rbind (compressed_ref (sa_seq A) (take ?n (rd_rest r)) T (block_fx ?C) (dz_state d)) (\<lambda>(T', st).
            if NO_CAP < length T' then Inl ContentSizeTooLarge else Inr (rd_skip ?n r, T', st))"
        using False BtCompressed tk unfolding p by (simp add: block_ref_def C Let_def)
      moreover have "agrees (dz_prefix d \<noteq> []) (block_related h d T D (rd_skip ?n r)) (rbind (compressed_ref (sa_seq A) (take ?n (rd_rest r)) T (block_fx ?C) (dz_state d)) (\<lambda>(T', st).
            if NO_CAP < length T' then Inl ContentSizeTooLarge else Inr (rd_skip ?n r, T', st))) (rbind x Inr)"
      proof (rule agrees_bind [OF x(2)])
        fix y :: "bytes \<times> dec_state" and y' :: "vec \<times> dec_state"
        assume "(\<lambda>(T', st1) (v', st2). st2 = st1 \<and> dec_wf st1 \<and> (\<exists>xs. T' = T @ xs \<and> length xs \<le> block_size_max h \<and> vec_is v' (D @ xs))) y y'"
        then obtain xs st1 v' where y: "y = (T @ xs, st1)" "y' = (v', st1)" "dec_wf st1" "length xs \<le> block_size_max h" "vec_is v' (D @ xs)"
          by (cases y; cases y') auto
        then have "length T + length xs < 2 ^ 62" using small by linarith
        from no_cap(2) [OF this] show "agrees (dz_prefix d \<noteq> []) (block_related h d T D (rd_skip ?n r))
            ((\<lambda>(T', st). if NO_CAP < length T' then Inl ContentSizeTooLarge else Inr (rd_skip ?n r, T', st)) y) (Inr y')"
          using y by (simp add: block_related_def)
      qed
      moreover have "rbind x Inr = x" by (cases x) simp_all
      ultimately show ?thesis by simp
    qed
  qed
qed

text \<open>The machine after a block of \<open>xs\<close>, before it looks whether the block was the last.\<close>

definition after_block :: "stream_arms \<Rightarrow> nat \<Rightarrow> vec \<Rightarrow> dec_state \<Rightarrow> bytes \<Rightarrow> decompressor \<Rightarrow> decompressor" where
  "after_block A k v st xs d = d\<lparr> dz_in_off := dz_in_off d + k, dz_decoded := v, dz_state := st, dz_xxh := xx_update (sa_xx A) xs (dz_xxh d),
     dz_frame_out := dz_frame_out d + length xs \<rparr>"

lemma after_block_stands:
  assumes "stands d T D" "dz_header d = Some h" "k \<le> dz_in_avail d" "vec_is v (D @ xs)" "dec_wf st"
  shows "stands (after_block A k v st xs d) (T @ xs) (D @ xs)" "call_of h (after_block A k v st xs d) (T @ xs) = call_of h d T"
    "length (T @ xs) - dz_frame_out (after_block A k v st xs d) = length T - dz_frame_out d"
proof -
  have s: "dz_frame_out d \<le> length T" "xx_inv (dz_xxh d) (drop (length T - dz_frame_out d) T)"
    "same_frame (block_fx (call_of h d T)) T (dz_fx h d) D" "dz_in_off d \<le> length (dz_input d)" "length D \<le> length T"
    "D = drop (length T - length D) T"
    using assms(1,2) by (simp_all add: stands_def)
  show start: "length (T @ xs) - dz_frame_out (after_block A k v st xs d) = length T - dz_frame_out d" by (simp add: after_block_def)
  then show call: "call_of h (after_block A k v st xs d) (T @ xs) = call_of h d T" by (simp add: call_of_def) (simp add: after_block_def)
  have "dz_fx h (after_block A k v st xs d) = dz_fx h d" by (simp add: dz_fx_def after_block_def)
  moreover have "drop (length (T @ xs) - dz_frame_out (after_block A k v st xs d)) (T @ xs) = drop (length T - dz_frame_out d) T @ xs"
    unfolding start by simp
  moreover have "xx_inv (dz_xxh (after_block A k v st xs d)) (drop (length T - dz_frame_out d) T @ xs)"
    using xx_update_inv [OF s(2)] by (simp add: after_block_def)
  moreover have "D @ xs = drop (length (T @ xs) - length (D @ xs)) (T @ xs)"
    using same_frame_append [OF s(3), of xs] unfolding same_frame_def by blast
  moreover have "dz_in_off d + k \<le> length (dz_input d)" using s(4) assms(3) by (simp add: dz_in_avail_def)
  ultimately show "stands (after_block A k v st xs d) (T @ xs) (D @ xs)"
    using assms s call same_frame_append [OF s(3), of xs] unfolding stands_def
    by (simp add: after_block_def)
qed

lemma checksum_flag_stands:
  assumes "stands d T D" "dz_header d = Some h" "fh_checksum h"
  shows "stands (d\<lparr> dz_in_checksum := True \<rparr>) T D"
proof -
  have "call_of h (d\<lparr> dz_in_checksum := True \<rparr>) T = call_of h d T" "dz_fx h (d\<lparr> dz_in_checksum := True \<rparr>) = dz_fx h d"
    by (simp_all add: call_of_def dz_fx_def)
  then show ?thesis using assms by (simp add: stands_def)
qed

lemma block_end_follows:
  assumes st: "stands d T D" "dz_header d = Some h" "\<not> dz_in_checksum d" and a: "fits r T"
    and k: "0 < k" "k \<le> dz_in_avail d" "k \<le> length (rd_rest r)"
    and xs: "length xs \<le> block_size_max h" "vec_is v (D @ xs)" "dec_wf st'"
    and bl: "blocks_ref (sa_seq A) (call_of h d T) r T (dz_state d) =
      (if bh_last bh then Inr (rd_skip k r, T @ xs) else blocks_ref (sa_seq A) (call_of h d T) (rd_skip k r) (T @ xs) st')"
  shows "follows A d r ys T D (rbind (dz_block_end h bh (after_block A k v st' xs d)) (\<lambda>d. Inr (True, d)))"
proof -
  let ?d = "after_block A k v st' xs d" and ?start = "length T - dz_frame_out d"
  have res: "resume A d r T = rbind (if bh_last bh then Inr (rd_skip k r, T @ xs)
      else blocks_ref (sa_seq A) (call_of h d T) (rd_skip k r) (T @ xs) st') (end_frame A d h ?start)"
    using st by (simp add: resume_frame bl)
  note ab = after_block_stands [OF st(1,2) k(2) xs(2,3), of A]
  have hd: "dz_header ?d = Some h" "\<not> dz_in_checksum ?d" "dz_saw_zstd ?d" "moved k d ?d" "dz_state ?d = st'"
      "dz_frame_out ?d = dz_frame_out d + length xs" "dz_in_off ?d = dz_in_off d + k" "dz_input ?d = dz_input d"
    using st by (simp_all add: after_block_def moved_def stands_def)
  have ff: "frames_from A ?d = frames_from A d" using hd(4) by (intro frames_from_moved) (simp_all add: moved_def)
  have ef: "end_frame A ?d h ?start = end_frame A d h ?start" by (simp add: end_frame_def ff)
  have fit: "fits (rd_skip k r) (T @ xs)"
    using fits_append [OF a _ order_trans [OF xs(1) block_max_le]] k(1,3) by (simp add: rd_remaining_def rd_rest_def)
  have moves: "follows A d r ys T D (Inr (True, d'))"
    if "moved k d d'" "stands d' (T @ xs) (D @ xs)" "resume A d' (rd_skip k r) (T @ xs) = resume A d r T" for d'
    using that by (intro follows.moves [OF k(1,2) _ _ fit]) simp_all
  have fo: "length (T @ xs) - ?start = dz_frame_out ?d" using st hd(6) by (auto simp: stands_def)
  consider "\<not> bh_last bh" | "bh_last bh" "fh_checksum h"
    | "bh_last bh" "\<not> fh_checksum h" "\<exists>n. fh_content_size h = Some n \<and> dz_frame_out ?d \<noteq> n"
    | "bh_last bh" "\<not> fh_checksum h" "\<not> (\<exists>n. fh_content_size h = Some n \<and> dz_frame_out ?d \<noteq> n)" by blast
  then show ?thesis
  proof cases
    case 1
    have "resume A ?d (rd_skip k r) (T @ xs) = resume A d r T"
      unfolding res resume_frame [OF hd(1)] ab(2,3) ef using 1 hd by simp
    from moves [OF hd(4) ab(1) this] show ?thesis using 1 by (simp add: dz_block_end_def)
  next
    case 2
    let ?c = "?d\<lparr> dz_in_checksum := True \<rparr>"
    have "frames_from A ?c = frames_from A ?d" by (rule frames_from_moved) simp_all
    then have "end_frame A ?c h ?start = end_frame A d h ?start" by (simp add: end_frame_def ff)
    then have "resume A ?c (rd_skip k r) (T @ xs) = resume A d r T"
      unfolding res using 2 hd ab(3) by (simp add: resume_frame)
    moreover have "moved k d ?c" using hd(4) by (simp add: moved_def)
    ultimately show ?thesis using moves checksum_flag_stands [OF ab(1) hd(1) 2(2)] 2 by (simp add: dz_block_end_def)
  next
    case 3
    then have "resume A d r T = Inl ContentSizeMismatch"
      unfolding res using fo by (simp add: end_frame_def frame_tail_def)
    then show ?thesis using 3 by (auto simp: dz_block_end_def intro: follows.refuses)
  next
    case 4
    have cf: "dz_finish_frame (dz_consume 0 ?d) = dz_finish_frame ?d" by (simp add: dz_consume_def)
    have "dz_in_off ?d + 0 \<le> length (dz_input ?d)" using ab(1) by (simp add: stands_def)
    from finish_stands [OF ab(1) this] have "stands (dz_finish_frame ?d) (T @ xs) (D @ xs)" unfolding cf .
    moreover have "resume A (dz_finish_frame ?d) (rd_skip k r) (T @ xs) = resume A d r T"
      using finish_resume [OF hd(3), of A 0 "rd_skip k r" "T @ xs"] unfolding cf ff res
      using 4(1,2) by (simp add: end_frame_def frame_tail_def fo [simplified] if_not_P [OF 4(3)])
    moreover have "moved k d (dz_finish_frame ?d)" using hd(4) by (simp add: moved_def dz_finish_frame_def)
    moreover have "dz_block_end h bh ?d = Inr (dz_finish_frame ?d)" using 4(1,2) by (simp add: dz_block_end_def if_not_P [OF 4(3)])
    ultimately show ?thesis using moves by simp
  qed
qed

lemma try_block_follows:
  assumes st: "stands d T D" "dz_header d = Some h" "\<not> dz_in_checksum d" and a: "ahead d r ys" "fits r T"
    and arms: "\<not> ar_pipeline (sa_seq A)" "\<not> ar_pipe1 (sa_seq A)"
  shows "\<exists>x. dz_try_block A d = Some x \<and> follows A d r ys T D x"
proof -
  note f = ahead_facts [OF a(1)]
  let ?b = "dz_in_bytes d" and ?C = "call_of h d T" and ?start = "length T - dz_frame_out d"
  have res: "resume A d r T = rbind (blocks_ref (sa_seq A) ?C r T (dz_state d)) (end_frame A d h ?start)"
    using st by (simp add: resume_frame)
  have whole: "rd_rest r = ?b" if "ys = []" using a(1) that by (simp add: ahead_def)
  show ?thesis
  proof (cases "dz_in_avail d < 3")
    case True
    have "follows A d r ys T D (Inr (False, d))"
    proof (rule follows.waits)
      assume "ys = []"
      then have "length (rd_rest r) < 3" using True by (simp add: whole in_avail_eq)
      then have "rd_u24_le r = Inl UnexpectedEof" using f24.rd_eof [OF f(1)] by simp
      then show "dz_header d = None \<and> ?b = [] \<or> (\<exists>e. resume A d r T = Inl e)"
        by (simp add: res blocks_ref.simps [of _ _ r] parse_block_header_def)
    qed
    then show ?thesis using True st(2) by (simp add: dz_try_block_def)
  next
    case three: False
    show ?thesis
    proof (cases "parse_block_header (rd_new ?b)")
      case (Inl e)
      have "rd_wf (rd_new ?b)" using f(3) by simp
      from f24.rd_ok [OF this] three have "\<exists>v. rd_u24_le (rd_new ?b) = Inr v" by (auto simp: in_avail_eq)
      then have e: "e \<noteq> UnexpectedEof" using Inl by (auto simp: parse_block_header_def Let_def split: if_splits)
      have "resume A d r T = Inl e"
        using block_header.prefix_err [OF f(2) Inl e] by (simp add: res blocks_ref.simps [of _ _ r])
      then show ?thesis using three st(2) Inl e by (auto simp: dz_try_block_def intro: follows.refuses)
    next
      case (Inr p)
      obtain bh r1 where p: "p = (bh, r1)" by (metis prod.exhaust)
      obtain k where k: "k \<le> length ?b" "r1 = rd_skip k (rd_new ?b)" "parse_block_header r = Inr (bh, rd_skip k r)"
        using block_header.prefix_ok [OF f(2) Inr [unfolded p]] by auto
      have k3: "k = 3" "rd_pos r1 = 3"
        using parse_block_header_less [OF Inr [unfolded p]] k(1) by (simp_all add: k(2) rd_remaining_def rd_new_def)
      let ?n = "payload_len bh" and ?r1 = "rd_skip 3 r"
      have rem: "rd_remaining r1 = dz_in_avail d - 3" by (simp add: k(2) k3(1) rd_remaining_def rd_new_def in_avail_eq)
      have bl: "blocks_ref (sa_seq A) ?C r T (dz_state d) = (case block_ref (sa_seq A) ?C bh ?r1 T (dz_state d) of
            Inl e \<Rightarrow> Inl e
          | Inr (r, out, st) \<Rightarrow> if bh_last bh then Inr (r, out) else blocks_ref (sa_seq A) ?C r out st)"
        by (simp add: blocks_ref.simps [of _ _ r] k(3) k3(1))
      show ?thesis
      proof (cases "dz_in_avail d - 3 < ?n")
        case True
        have "follows A d r ys T D (Inr (False, d))"
        proof (rule follows.waits)
          assume "ys = []"
          then have "length (rd_rest ?r1) < ?n" using True by (simp add: rd_skip_rest whole in_avail_eq)
          moreover have "rd_wf ?r1" using f(1,4) three by (simp add: rd_skip_wf)
          ultimately have "\<exists>e. block_ref (sa_seq A) ?C bh ?r1 T (dz_state d) = Inl e"
            using block_ref_walk(2) [of ?r1 "sa_seq A" ?C bh T "dz_state d"] by (cases "block_ref (sa_seq A) ?C bh ?r1 T (dz_state d)") (fastforce simp: rd_take_eq)+
          then show "dz_header d = None \<and> ?b = [] \<or> (\<exists>e. resume A d r T = Inl e)" by (auto simp: res bl)
        qed
        then show ?thesis using three st(2) True by (simp add: dz_try_block_def Inr p rem)
      next
        case False
        let ?k = "3 + ?n" and ?a = "dz_in_off d + 3"
        have avail: "?k \<le> dz_in_avail d" using three False by simp
        have w1: "rd_wf ?r1" using f(1,4) three by (simp add: rd_skip_wf)
        have rest1: "rd_rest ?r1 = drop ?a (dz_input d) @ ys"
          using a(1) three by (simp add: ahead_def rd_skip_rest dz_in_bytes_def dz_in_avail_def add.commute)
        have pl: "?n \<le> length (dz_input d) - ?a" using avail by (simp add: dz_in_avail_def)
        have small: "length T + block_size_max h < 2 ^ 62"
          using a(2) block_max_le [of h] by (simp add: fits_def BLOCKSIZE_MAX_def)
        obtain x where x: "dz_block A h bh ?a (?a + ?n) d = Some x"
          "agrees (dz_prefix d \<noteq> []) (block_related h d T D (rd_skip ?n ?r1)) (block_ref (sa_seq A) ?C bh ?r1 T (dz_state d)) x"
          using dz_block_follows [OF st(1,2) w1 rest1 pl small arms] by blast
        have vl: "v_len (dz_decoded d) = length D" using st(1) by (simp add: stands_def vec_is_def)
        have step: "dz_try_block A d = then_do (Some x) (\<lambda>(v, st). Option.bind (vec_bytes (length D) v) (\<lambda>xs.
            Some (rbind (dz_block_end h bh (after_block A ?k v st xs d)) (\<lambda>d. Inr (True, d)))))"
          using three st(2) False vl x(1) k3(2)
          by (simp add: dz_try_block_def Inr p rem Let_def after_block_def add.assoc)
        show ?thesis
        proof (cases x)
          case (Inl e)
          then have "resume A d r T = Inl e \<or> dz_prefix d \<noteq> [] \<and> e = Corruption"
            using x(2) by (cases "block_ref (sa_seq A) ?C bh ?r1 T (dz_state d)") (auto simp: agrees_def res bl)
          then show ?thesis by (simp add: step Inl follows.refuses)
        next
          case ok: (Inr q)
          obtain v st' where q: "q = (v, st')" by (metis prod.exhaust)
          obtain xs where xs: "block_ref (sa_seq A) ?C bh ?r1 T (dz_state d) = Inr (rd_skip ?k r, T @ xs, st')" "length xs \<le> block_size_max h"
            "vec_is v (D @ xs)" "dec_wf st'"
            using x(2) by (cases "block_ref (sa_seq A) ?C bh ?r1 T (dz_state d)") (auto simp: agrees_def ok q block_related_def)
          have bl': "blocks_ref (sa_seq A) ?C r T (dz_state d) =
              (if bh_last bh then Inr (rd_skip ?k r, T @ xs) else blocks_ref (sa_seq A) ?C (rd_skip ?k r) (T @ xs) st')"
            by (simp add: bl xs(1))
          from block_end_follows [OF st a(2) _ avail f(4) [OF avail] xs(2-4) bl'] show ?thesis
            using vec_bytes_is [OF xs(3), of "length D"] by (simp add: step ok q)
        qed
      qed
    qed
  qed
qed

lemma progress_follows:
  assumes "stands d T D" "ahead d r ys" "fits r T" "sa_reserve_cap A < 2 ^ 62"
    and "\<not> ar_pipeline (sa_seq A)" "\<not> ar_pipe1 (sa_seq A)"
  shows "\<exists>x. dz_progress A d = Some x \<and> follows A d r ys T D x"
proof (cases "dz_header d")
  case None
  then have "\<not> dz_in_checksum d" using assms(1) by (simp add: stands_def)
  then show ?thesis using try_header_follows [OF assms(1) None assms(2-4)] None by (simp add: dz_progress_def)
next
  case (Some h)
  then show ?thesis
    using checksum_follows [OF assms(1) Some _ assms(2,3)] try_block_follows [OF assms(1) Some _ assms(2,3,5,6)]
    by (auto simp: dz_progress_def)
qed

end
