(* ===== verification/Stream_Run.thy ===== *)
theory Stream_Run
  imports Stream_Follow
begin

text \<open>
  Calls of the streaming decompressor and series of them: each call keeps the machine where the reference
  is, compaction never drops what a later match may read, and a series of calls gives the bytes the one-shot
  decoder gives. A call that has all of the input and room for a byte produces one or is done.
\<close>

section \<open>The loop of a call\<close>

definition pending :: "decompressor \<Rightarrow> nat" where
  "pending d = v_len (dz_decoded d) - dz_decoded_off d"

text \<open>Nothing left to do: between frames with no byte left, or on an input the reference rejects.\<close>

definition idle :: "stream_arms \<Rightarrow> decompressor \<Rightarrow> reader \<Rightarrow> bytes \<Rightarrow> bool" where
  "idle A d r T \<longleftrightarrow> dz_header d = None \<and> dz_in_bytes d = [] \<or> (\<exists>e. resume A d r T = Inl e)"

definition leads :: "stream_arms \<Rightarrow> decompressor \<Rightarrow> reader \<Rightarrow> bytes \<Rightarrow> bytes \<Rightarrow> nat \<Rightarrow> bytes \<Rightarrow> decompressor \<Rightarrow> bool" where
  "leads A d r T D k xs d' \<longleftrightarrow> k \<le> dz_in_avail d \<and> moved k d d' \<and> stands d' (T @ xs) (D @ xs) \<and> fits (rd_skip k r) (T @ xs)
     \<and> resume A d' (rd_skip k r) (T @ xs) = resume A d r T"

lemma leads_refl: "stands d T D \<Longrightarrow> fits r T \<Longrightarrow> leads A d r T D 0 [] d"
  by (simp add: leads_def moved_def)

lemma leads_trans:
  assumes "leads A d r T D k xs d1" "leads A d1 (rd_skip k r) (T @ xs) (D @ xs) l ys d2"
  shows "leads A d r T D (k + l) (xs @ ys) d2"
  using assms by (auto simp: leads_def moved_def dz_in_avail_def)

lemma leads_ahead: "ahead d r ys \<Longrightarrow> leads A d r T D k xs d' \<Longrightarrow> ahead d' (rd_skip k r) ys"
  by (simp add: ahead_def leads_def moved_def dz_in_bytes_def dz_in_avail_def rd_skip_wf rd_skip_rest add.commute)

lemma dz_loop_follows:
  assumes "stands d T D" "ahead d r ys" "fits r T" "sa_reserve_cap A < 2 ^ 62"
    and "\<not> ar_pipeline (sa_seq A)" "\<not> ar_pipe1 (sa_seq A)"
  shows "\<exists>x. dz_loop A room d = Some x \<and> (case x of
      Inl e \<Rightarrow> resume A d r T = Inl e \<or> dz_prefix d \<noteq> [] \<and> e = Corruption
    | Inr d' \<Rightarrow> \<exists>k xs. leads A d r T D k xs d'
        \<and> (0 < pending d' \<and> room \<le> pending d' \<or> (ys = [] \<longrightarrow> idle A d' (rd_skip k r) (T @ xs))))"
  using assms(1-3)
proof (induction "dz_in_avail d" arbitrary: d r T D rule: less_induct)
  case less
  note eq = dz_loop.simps [of A room d, folded pending_def, unfolded Let_def]
  show ?case
  proof (cases "0 < pending d \<and> room \<le> pending d")
    case True
    then show ?thesis using leads_refl [OF less.prems(1,3)] by (auto simp: eq)
  next
    case more: False
    obtain x where x: "dz_progress A d = Some x" "follows A d r ys T D x"
      using progress_follows [OF less.prems assms(4-6)] by blast
    from x(2) show ?thesis
    proof cases
      case (refuses e)
      then show ?thesis using more by (auto simp: eq x(1))
    next
      case waits
      then have "ys = [] \<longrightarrow> idle A d (rd_skip 0 r) (T @ [])" by (simp add: idle_def)
      then have "\<exists>k xs. leads A d r T D k xs d \<and> (ys = [] \<longrightarrow> idle A d (rd_skip k r) (T @ xs))"
        using leads_refl [OF less.prems(1,3)] by blast
      moreover have "dz_loop A room d = Some (Inr d)" using more waits by (auto simp: eq x(1))
      ultimately show ?thesis by auto
    next
      case (moves k d1 xs)
      have 1: "leads A d r T D k xs d1" using moves by (simp add: leads_def)
      have l: "dz_in_avail d1 < dz_in_avail d" using moves by (simp add: moved_def dz_in_avail_def)
      have loop: "dz_loop A room d = dz_loop A room d1" using more moves(1) by (auto simp: eq x(1))
      obtain y where y: "dz_loop A room d1 = Some y" "case y of
          Inl e \<Rightarrow> resume A d1 (rd_skip k r) (T @ xs) = Inl e \<or> dz_prefix d1 \<noteq> [] \<and> e = Corruption
        | Inr d' \<Rightarrow> \<exists>l zs. leads A d1 (rd_skip k r) (T @ xs) (D @ xs) l zs d'
            \<and> (0 < pending d' \<and> room \<le> pending d' \<or> (ys = [] \<longrightarrow> idle A d' (rd_skip l (rd_skip k r)) ((T @ xs) @ zs)))"
        using less.hyps [OF l moves(5) leads_ahead [OF less.prems(2) 1] moves(6)] by blast
      show ?thesis
      proof (cases y)
        case (Inl e)
        then show ?thesis using y moves(4,7) by (simp add: loop moved_def)
      next
        case (Inr d2)
        then obtain l zs where 2: "leads A d1 (rd_skip k r) (T @ xs) (D @ xs) l zs d2"
          "0 < pending d2 \<and> room \<le> pending d2 \<or> (ys = [] \<longrightarrow> idle A d2 (rd_skip l (rd_skip k r)) ((T @ xs) @ zs))" using y(2) by auto
        then have "0 < pending d2 \<and> room \<le> pending d2 \<or> (ys = [] \<longrightarrow> idle A d2 (rd_skip (k + l) r) (T @ xs @ zs))" by simp
        then show ?thesis using leads_trans [OF 1 2(1)] Inr by (auto simp: loop y(1))
      qed
    qed
  qed
qed

section \<open>Compaction\<close>

definition same_phase :: "decompressor \<Rightarrow> decompressor \<Rightarrow> bool" where
  "same_phase d d' \<longleftrightarrow> dz_opts d' = dz_opts d \<and> dz_dict d' = dz_dict d \<and> dz_prefix d' = dz_prefix d \<and> dz_header d' = dz_header d
     \<and> dz_saw_zstd d' = dz_saw_zstd d \<and> dz_in_checksum d' = dz_in_checksum d \<and> dz_state d' = dz_state d
     \<and> dz_frame_out d' = dz_frame_out d \<and> dz_xxh d' = dz_xxh d"

lemma same_phase_call: "same_phase d d' \<Longrightarrow> call_of h d' T = call_of h d T"
  by (simp add: same_phase_def call_of_def)

lemma same_phase_resume:
  assumes "same_phase d d'"
  shows "resume A d' r T = resume A d r T"
proof -
  have "frames_from A d' = frames_from A d" using assms by (intro frames_from_moved) (simp_all add: same_phase_def)
  then have "end_frame A d' = end_frame A d" by (simp add: end_frame_def fun_eq_iff)
  then show ?thesis
    using assms \<open>frames_from A d' = frames_from A d\<close> same_phase_call [OF assms] by (simp add: resume_def same_phase_def split: option.split)
qed

lemma stands_rebuffer:
  assumes "stands d T D" "same_phase d d'" "dz_in_off d' \<le> length (dz_input d')" "vec_is (dz_decoded d') D'" "dz_decoded_off d' \<le> length D'"
    and "length D' \<le> length T" "D' = drop (length T - length D') T"
    and "\<And>h. dz_header d = Some h \<Longrightarrow> same_frame (block_fx (call_of h d T)) T (dz_fx h d') D'"
  shows "stands d' T D'"
  using assms(1-6,8) assms(7) [symmetric] same_phase_call [OF assms(2)]
  unfolding stands_def same_phase_def by (simp split: option.splits)

lemma compact_input_ok:
  "same_phase d (dz_compact_input d)" "pending (dz_compact_input d) = pending d"
  "dz_in_off d \<le> length (dz_input d) \<Longrightarrow> dz_in_bytes (dz_compact_input d) = dz_in_bytes d"
  "stands d T D \<Longrightarrow> stands (dz_compact_input d) T D"
  "dz_decoded (dz_compact_input d) = dz_decoded d" "dz_decoded_off (dz_compact_input d) = dz_decoded_off d"
proof -
  have b: "dz_in_off d \<le> length (dz_input d) \<Longrightarrow> dz_in_off (dz_compact_input d) \<le> length (dz_input (dz_compact_input d))"
    by (simp add: dz_compact_input_def)
  have fx: "dz_fx h (dz_compact_input d) = dz_fx h d" for h by (simp add: dz_compact_input_def dz_fx_def)
  show ph: "same_phase d (dz_compact_input d)" and "pending (dz_compact_input d) = pending d"
    and dec: "dz_decoded (dz_compact_input d) = dz_decoded d" "dz_decoded_off (dz_compact_input d) = dz_decoded_off d"
    by (simp_all add: dz_compact_input_def same_phase_def pending_def)
  show "dz_in_off d \<le> length (dz_input d) \<Longrightarrow> dz_in_bytes (dz_compact_input d) = dz_in_bytes d"
    by (simp add: dz_compact_input_def dz_in_bytes_def)
  show "stands (dz_compact_input d) T D" if st: "stands d T D"
  proof (rule stands_rebuffer [OF st ph])
    show "D = drop (length T - length D) T" using st unfolding stands_def by blast
  qed (use st b in \<open>simp_all add: stands_def dec fx\<close>)
qed

lemma vec_drain_is:
  assumes "vec_is v D" "n \<le> length D"
  shows "vec_is (vec_drain n v) (drop n D)"
proof -
  have v: "v_len v = length D" "length D \<le> length (v_mem v)" "take (length D) (v_mem v) = map Some D"
    using assms(1) by (simp_all add: vec_is_def mem_is_def)
  have "take (length D - n) (drop n (v_mem v)) = drop n (take (length D) (v_mem v))" by (simp add: drop_take)
  then show ?thesis using v assms(2) by (simp add: vec_is_def mem_is_def vec_drain_def drop_map)
qed

lemma drop_suffix:
  assumes "D = drop (length T - length D) T" "length D \<le> length T" "n \<le> length D"
  shows "drop n D = drop (length T - length (drop n D)) T"
proof -
  have "drop n D = drop n (drop (length T - length D) T)" by (rule arg_cong [OF assms(1)])
  also have "\<dots> = drop (n + (length T - length D)) T" by simp
  also have "n + (length T - length D) = length T - length (drop n D)" using assms(2,3) by simp
  finally show ?thesis .
qed

text \<open>What is dropped is neither pending nor within a window of the end, so the frame's history stays the same.\<close>

lemma same_frame_drop:
  assumes "same_frame fx T fx' D" "n \<le> length D - fx_window_size fx" "0 < n"
    and "fx_dict fx2 = fx_dict fx'" "fx_window_size fx2 = fx_window_size fx'" "fx_block_max fx2 = fx_block_max fx'"
    and "if n \<le> fx_frame_start fx' then fx_frame_start fx2 = fx_frame_start fx' - n \<and> fx_frame_skipped fx2 = fx_frame_skipped fx'
      else fx_frame_start fx2 = 0 \<and> fx_frame_skipped fx2 = fx_frame_skipped fx' + (n - fx_frame_start fx')"
  shows "same_frame fx T fx2 (drop n D)"
proof -
  have c: "D = drop (length T - length D) T" "length D \<le> length T" "fx_frame_start fx' \<le> length D"
    "length T - fx_frame_start fx = length D - fx_frame_start fx' + fx_frame_skipped fx'"
    "fx_frame_skipped fx' = 0 \<or> fx_frame_start fx' = 0 \<and> fx_window_size fx \<le> length D"
    using assms(1) unfolding same_frame_def by blast+
  have "n \<le> length D" using assms(2) by simp
  note suf = drop_suffix [OF c(1,2) this]
  have "length T - fx_frame_start fx = length (drop n D) - fx_frame_start fx2 + fx_frame_skipped fx2"
    "fx_frame_start fx2 \<le> length (drop n D)"
    "fx_frame_skipped fx2 = 0 \<or> fx_frame_start fx2 = 0 \<and> fx_window_size fx \<le> length (drop n D)"
    using assms(2,3,7) c(3-5) by (auto split: if_splits)
  moreover have "length (drop n D) \<le> length T" using c(2) by simp
  moreover have "fx_dict fx2 = fx_dict fx" "fx_window_size fx2 = fx_window_size fx" "fx_block_max fx2 = fx_block_max fx"
    "fx_frame_skipped fx = 0" "fx_frame_start fx \<le> length T"
    using assms(1,4-6) by (simp_all add: same_frame_def)
  ultimately show ?thesis using suf unfolding same_frame_def by blast
qed

lemma slide_eq:
  "(if n \<le> dz_frame_start d then d\<lparr> dz_frame_start := dz_frame_start d - n \<rparr>
    else d\<lparr> dz_frame_skipped := dz_frame_skipped d + (n - dz_frame_start d), dz_frame_start := 0 \<rparr>)
   = d\<lparr> dz_frame_start := dz_frame_start d - n, dz_frame_skipped := dz_frame_skipped d + (n - dz_frame_start d) \<rparr>"
  by (cases d) simp

lemma compact_ok:
  assumes "stands d T D"
  shows "\<exists>D'. stands (dz_compact d) T D' \<and> drop (dz_decoded_off (dz_compact d)) D' = drop (dz_decoded_off d) D"
    "same_phase d (dz_compact d)" "dz_in_bytes (dz_compact d) = dz_in_bytes d"
proof -
  define w where "w = (case dz_header d of Some h \<Rightarrow> fh_window_size h | None \<Rightarrow> BLOCKSIZE_MAX)"
  define n where "n = min (dz_decoded_off d) (v_len (dz_decoded d) - w)"
  define go where "go \<longleftrightarrow> max (w + min w SLIDE_EXTRA_MAX) (64 * 1024) \<le> n"
  have st: "vec_is (dz_decoded d) D" "v_len (dz_decoded d) = length D" "dz_decoded_off d \<le> length D" "length D \<le> length T"
    "D = drop (length T - length D) T" "dz_in_off d \<le> length (dz_input d)"
    using assms unfolding stands_def vec_is_def by blast+
  have eq: "dz_compact d = (if go then d\<lparr> dz_decoded := vec_drain n (dz_decoded d), dz_decoded_off := dz_decoded_off d - n,
      dz_frame_start := dz_frame_start d - n, dz_frame_skipped := dz_frame_skipped d + (n - dz_frame_start d) \<rparr> else d)"
    unfolding dz_compact_def Let_def slide_eq w_def [symmetric] n_def [symmetric] go_def [symmetric] by simp
  show ph: "same_phase d (dz_compact d)" and "dz_in_bytes (dz_compact d) = dz_in_bytes d"
    unfolding eq by (simp_all add: same_phase_def dz_in_bytes_def)
  show "\<exists>D'. stands (dz_compact d) T D' \<and> drop (dz_decoded_off (dz_compact d)) D' = drop (dz_decoded_off d) D"
  proof (cases go)
    case False
    then show ?thesis using assms unfolding eq if_not_P [OF False] by blast
  next
    case True
    have n: "n \<le> dz_decoded_off d" "n \<le> length D" "0 < n" "n \<le> length D - w"
      using True st unfolding go_def n_def by linarith+
    have dropped: "drop (dz_decoded_off d - n) (drop n D) = drop (dz_decoded_off d) D" using n(1) by simp
    have "stands (dz_compact d) T (drop n D)"
    proof (rule stands_rebuffer [OF assms ph])
      show "drop n D = drop (length T - length (drop n D)) T" by (rule drop_suffix [OF st(5,4) n(2)])
    next
      fix h
      assume h: "dz_header d = Some h"
      then have sf: "same_frame (block_fx (call_of h d T)) T (dz_fx h d) D" using assms by (simp add: stands_def)
      show "same_frame (block_fx (call_of h d T)) T (dz_fx h (dz_compact d)) (drop n D)"
        by (rule same_frame_drop [OF sf _ n(3)])
          (use n(4) h True in \<open>simp_all add: eq w_def dz_fx_def block_fx_def call_of_def\<close>)
    qed (use st n True vec_drain_is [OF st(1) n(2)] in \<open>simp_all add: eq\<close>)
    then show ?thesis using dropped True by (intro exI [of _ "drop n D"]) (simp add: eq)
  qed
qed

section \<open>One call\<close>

text \<open>The machine between calls: \<open>got\<close> is what the caller has drained of the output so far, \<open>ys\<close> what is still to be fed.\<close>

definition serving :: "decompressor \<Rightarrow> reader \<Rightarrow> bytes \<Rightarrow> bytes \<Rightarrow> bytes \<Rightarrow> bool" where
  "serving d r T got ys \<longleftrightarrow> (\<exists>D. stands d T D \<and> T = got @ drop (dz_decoded_off d) D) \<and> ahead d r ys \<and> fits r T"

definition settled :: "decompressor \<Rightarrow> bool" where
  "settled d \<longleftrightarrow> dz_header d = None \<and> dz_in_bytes d = [] \<and> pending d = 0 \<and> dz_saw_zstd d"

inductive answers :: "stream_arms \<Rightarrow> decompressor \<Rightarrow> reader \<Rightarrow> bytes \<Rightarrow> bytes \<Rightarrow> bytes \<Rightarrow> bytes \<Rightarrow> nat \<Rightarrow> bool
    \<Rightarrow> (stream_status \<times> bytes \<times> decompressor) res \<Rightarrow> bool"
  for A d r T got inp ys room fin where
  fails: "resume A d r T = Inl e \<or> dz_prefix d \<noteq> [] \<and> e = Corruption \<Longrightarrow> answers A d r T got inp ys room fin (Inl e)"
| truncated: "fin \<Longrightarrow> (ys = [] \<Longrightarrow> (\<exists>e. resume A d r T = Inl e) \<or> (\<exists>T'. resume A d r T = Inr (False, T')))
    \<Longrightarrow> answers A d r T got inp ys room fin (Inl UnexpectedEof)"
| serves: "serving d' r' T' (got @ chunk) ys \<Longrightarrow> resume A d' r' T' = resume A d r T \<Longrightarrow> dz_prefix d' = dz_prefix d
    \<Longrightarrow> length chunk \<le> room \<Longrightarrow> dn \<longleftrightarrow> fin \<and> settled d'
    \<Longrightarrow> (fin \<Longrightarrow> ys = [] \<Longrightarrow> 0 < room \<Longrightarrow> chunk = [] \<Longrightarrow> \<not> dn \<Longrightarrow> \<exists>e. resume A d r T = Inl e)
    \<Longrightarrow> answers A d r T got inp ys room fin
      (Inr (\<lparr> st_consumed = length inp, st_produced = length chunk, st_done = dn \<rparr>, chunk, d'))"

inductive_cases answers_InlE: "answers A d r T got inp ys room fin (Inl e)"
inductive_cases answers_InrE: "answers A d r T got inp ys room fin (Inr (s, chunk, d'))"

lemma feed_ok:
  assumes "stands d T D" "ahead d r (inp @ ys)"
  shows "stands (d\<lparr> dz_input := dz_input d @ inp \<rparr>) T D" "ahead (d\<lparr> dz_input := dz_input d @ inp \<rparr>) r ys"
    "same_phase d (d\<lparr> dz_input := dz_input d @ inp \<rparr>)"
proof -
  show ph: "same_phase d (d\<lparr> dz_input := dz_input d @ inp \<rparr>)" by (simp add: same_phase_def)
  show "stands (d\<lparr> dz_input := dz_input d @ inp \<rparr>) T D"
  proof (rule stands_rebuffer [OF assms(1) ph])
    show "D = drop (length T - length D) T" using assms(1) unfolding stands_def by blast
  qed (use assms(1) in \<open>simp_all add: stands_def dz_fx_def\<close>)
  show "ahead (d\<lparr> dz_input := dz_input d @ inp \<rparr>) r ys"
    using assms by (simp add: ahead_def dz_in_bytes_def stands_def)
qed

lemma frames_from_nil: "rd_rest r = [] \<Longrightarrow> frames_from A d r saw T = Inr (saw, T)"
  by (simp add: frames_from_def frames_ref.simps [of _ _ _ _ _ r] rd_is_empty_iff)

text \<open>Draining \<open>n\<close> bytes of what is pending and compacting both buffers.\<close>

definition drained :: "nat \<Rightarrow> decompressor \<Rightarrow> decompressor" where
  "drained n d = dz_compact ((dz_compact_input d)\<lparr> dz_decoded_off := dz_decoded_off (dz_compact_input d) + n \<rparr>)"

lemma drained_ok:
  assumes st: "stands d T D" "T = got @ drop (dz_decoded_off d) D" "ahead d r ys" "fits r T" and n: "n \<le> pending d"
  shows "\<exists>rest. vec_bytes (dz_decoded_off d) (dz_decoded d) = Some rest \<and> length rest = pending d
      \<and> serving (drained n d) r T (got @ take n rest) ys"
    and "same_phase d (drained n d)" "dz_in_bytes (drained n d) = dz_in_bytes d" "pending (drained n d) = pending d - n"
    "dz_decoded_off (drained n d) \<le> v_len (dz_decoded (drained n d))"
proof -
  let ?d1 = "dz_compact_input d" and ?rest = "drop (dz_decoded_off d) D"
  let ?d2 = "?d1\<lparr> dz_decoded_off := dz_decoded_off ?d1 + n \<rparr>"
  have vl: "v_len (dz_decoded d) = length D" "dz_decoded_off d \<le> length D" using st(1) by (simp_all add: stands_def vec_is_def)
  then have pend: "length ?rest = pending d" by (simp add: pending_def)
  note c1 = compact_input_ok(1,5,6) [of d] compact_input_ok(2) [of d] compact_input_ok(4) [OF st(1)]
  have st2: "stands ?d2 T D"
  proof (rule stands_rebuffer [OF c1(5)])
    show "D = drop (length T - length D) T" using st(1) unfolding stands_def by blast
    show "same_phase ?d1 ?d2" by (simp add: same_phase_def)
    show "same_frame (block_fx (call_of h ?d1 T)) T (dz_fx h ?d2) D" if "dz_header ?d1 = Some h" for h
      using c1(5) that by (simp add: stands_def dz_fx_def)
  qed (use c1(5) pend vl n in \<open>simp_all add: stands_def c1(2,3)\<close>)
  have d3: "drained n d = dz_compact ?d2" by (simp add: drained_def)
  note c3 = compact_ok [OF st2, folded d3]
  obtain D3 where D3: "stands (drained n d) T D3" "drop (dz_decoded_off (drained n d)) D3 = drop (dz_decoded_off ?d2) D" using c3(1) by blast
  have rest3: "drop (dz_decoded_off (drained n d)) D3 = drop n ?rest" using D3(2) by (simp add: c1(3) add.commute)
  have T3: "T = (got @ take n ?rest) @ drop (dz_decoded_off (drained n d)) D3"
    unfolding rest3 append_assoc append_take_drop_id by (rule st(2))
  show ph: "same_phase d (drained n d)" using c1(1) c3(2) by (simp add: same_phase_def)
  show inb: "dz_in_bytes (drained n d) = dz_in_bytes d"
    using c3(3) compact_input_ok(3) [of d] st(1) by (simp add: dz_in_bytes_def stands_def)
  have "serving (drained n d) r T (got @ take n ?rest) ys"
    using D3(1) T3 st(3,4) inb unfolding serving_def ahead_def by (simp; blast)
  moreover have "vec_bytes (dz_decoded_off d) (dz_decoded d) = Some ?rest"
    using st(1) vec_bytes_is [of "dz_decoded d" D] by (simp add: stands_def)
  ultimately show "\<exists>rest. vec_bytes (dz_decoded_off d) (dz_decoded d) = Some rest \<and> length rest = pending d
      \<and> serving (drained n d) r T (got @ take n rest) ys"
    using pend by blast
  have "pending (drained n d) = length (drop (dz_decoded_off (drained n d)) D3)" using D3(1) by (simp add: pending_def stands_def vec_is_def)
  then show "pending (drained n d) = pending d - n" unfolding rest3 using pend by simp
  show "dz_decoded_off (drained n d) \<le> v_len (dz_decoded (drained n d))" using D3(1) by (simp add: stands_def vec_is_def)
qed

text \<open>From the loop on: \<open>d\<close> is the machine it leaves.\<close>

lemma after_loop_answers:
  assumes st: "stands d T D" "T = got @ drop (dz_decoded_off d) D" "ahead d r ys" "fits r T"
    and origin: "resume A d r T = resume A d0 r0 T0" "dz_prefix d = dz_prefix d0"
    and loop: "0 < pending d \<and> room \<le> pending d \<or> (ys = [] \<longrightarrow> idle A d r T)"
    and run: "dz_loop A room (d0\<lparr> dz_input := dz_input d0 @ inp \<rparr>) = Some (Inr d)"
  shows "\<exists>x. dz_stream A inp room fin d0 = Some x \<and> answers A d0 r0 T0 got inp ys room fin x"
proof -
  let ?n = "min (pending d) room"
  let ?d = "drained ?n d"
  note dr = drained_ok [OF st, of ?n, simplified]
  obtain rest where rest: "vec_bytes (dz_decoded_off d) (dz_decoded d) = Some rest" "length rest = pending d"
    "serving ?d r T (got @ take ?n rest) ys" using dr(1) by blast
  have res: "resume A ?d r T = resume A d0 r0 T0" using same_phase_resume [OF dr(2)] origin(1) by simp
  have lc: "length (take ?n rest) = ?n" using rest(2) by simp
  define bad where "bad \<longleftrightarrow> fin \<and> dz_in_avail ?d \<noteq> 0 \<and> dz_header ?d = None \<and> ?n = 0 \<and> pending d = 0"
  define dn where "dn \<longleftrightarrow> fin \<and> dz_in_avail ?d = 0 \<and> dz_header ?d = None \<and> dz_decoded_off ?d = v_len (dz_decoded ?d)"
  note ci = compact_input_ok(2,5,6) [of d]
  have eq: "dz_stream A inp room fin d0 = (if bad then Some (Inl UnexpectedEof)
      else if dn \<and> \<not> dz_saw_zstd ?d then Some (Inl UnexpectedEof)
      else Some (Inr (\<lparr> st_consumed = length inp, st_produced = ?n, st_done = dn \<rparr>, take ?n rest, ?d)))"
    unfolding dz_stream_def run then_do_simps Let_def pending_def [symmetric] ci(1) drained_def [symmetric]
      bad_def [symmetric] dn_def [symmetric] by (simp add: ci rest(1))
  have hd: "dz_header ?d = dz_header d" "dz_saw_zstd ?d = dz_saw_zstd d" "dz_prefix ?d = dz_prefix d0"
    using dr(2) origin(2) by (simp_all add: same_phase_def)
  have nil: "resume A ?d r T = Inr (dz_saw_zstd ?d, T)" if "dz_in_bytes d = []" "dz_header d = None" "ys = []"
    using that st(3) hd(1) frames_from_nil [of r A ?d] by (simp add: resume_def ahead_def)
  consider "bad" | "\<not> bad" "dn \<and> \<not> dz_saw_zstd ?d" | "\<not> bad" "\<not> (dn \<and> \<not> dz_saw_zstd ?d)" by blast
  then show ?thesis
  proof cases
    case 1
    have "\<exists>e. resume A d0 r0 T0 = Inl e" if "ys = []"
      using 1 loop that origin(1) dr(3) by (auto simp: bad_def idle_def in_avail_eq)
    then have "answers A d0 r0 T0 got inp ys room fin (Inl UnexpectedEof)"
      using 1 by (intro answers.truncated) (auto simp: bad_def)
    then show ?thesis using 1 by (simp add: eq)
  next
    case 2
    have "\<exists>T'. resume A d0 r0 T0 = Inr (False, T')" if "ys = []"
      using 2 nil that hd(1) dr(3) by (auto simp: dn_def in_avail_eq simp flip: res)
    then have "answers A d0 r0 T0 got inp ys room fin (Inl UnexpectedEof)"
      using 2 by (intro answers.truncated) (auto simp: dn_def)
    then show ?thesis using 2 by (simp add: eq)
  next
    case 3
    have dn: "dn \<longleftrightarrow> fin \<and> settled ?d"
      using 3(2) dr(5) by (auto simp: dn_def settled_def pending_def in_avail_eq)
    have "\<exists>e. resume A d0 r0 T0 = Inl e" if "fin" "ys = []" "0 < room" "take ?n rest = []" "\<not> dn"
    proof -
      have z: "pending d = 0" using that(3,4) lc by (metis length_0_conv min_def less_not_refl)
      then have "idle A d r T" using loop that(2) by simp
      moreover have "\<not> (dz_header d = None \<and> dz_in_bytes d = [])"
        using that(1,5) z dr(3-5) hd(1) by (auto simp: dn_def in_avail_eq pending_def)
      ultimately show ?thesis using origin(1) by (auto simp: idle_def)
    qed
    then have "answers A d0 r0 T0 got inp ys room fin
        (Inr (\<lparr> st_consumed = length inp, st_produced = length (take ?n rest), st_done = dn \<rparr>, take ?n rest, ?d))"
      using rest(3) res hd(3) dn lc by (intro answers.serves) simp_all
    then show ?thesis unfolding lc eq if_not_P [OF 3(1)] if_not_P [OF 3(2)] by blast
  qed
qed

lemma dz_stream_answers:
  assumes "serving d r T got (inp @ ys)" "sa_reserve_cap A < 2 ^ 62" "\<not> ar_pipeline (sa_seq A)" "\<not> ar_pipe1 (sa_seq A)"
  shows "\<exists>x. dz_stream A inp room fin d = Some x \<and> answers A d r T got inp ys room fin x"
proof -
  let ?d = "d\<lparr> dz_input := dz_input d @ inp \<rparr>"
  obtain D where D: "stands d T D" "T = got @ drop (dz_decoded_off d) D" "ahead d r (inp @ ys)" "fits r T"
    using assms(1) by (auto simp: serving_def)
  note f = feed_ok [OF D(1,3)]
  have res: "resume A ?d r T = resume A d r T" by (rule same_phase_resume [OF f(3)])
  obtain x where x: "dz_loop A room ?d = Some x" "case x of
      Inl e \<Rightarrow> resume A ?d r T = Inl e \<or> dz_prefix ?d \<noteq> [] \<and> e = Corruption
    | Inr d' \<Rightarrow> \<exists>k xs. leads A ?d r T D k xs d'
        \<and> (0 < pending d' \<and> room \<le> pending d' \<or> (ys = [] \<longrightarrow> idle A d' (rd_skip k r) (T @ xs)))"
    using dz_loop_follows [OF f(1,2) D(4) assms(2-4)] by blast
  show ?thesis
  proof (cases x)
    case (Inl e)
    then show ?thesis using x res by (auto simp: dz_stream_def intro: answers.fails)
  next
    case (Inr d')
    then obtain k xs where l: "leads A ?d r T D k xs d'"
      "0 < pending d' \<and> room \<le> pending d' \<or> (ys = [] \<longrightarrow> idle A d' (rd_skip k r) (T @ xs))" using x(2) by auto
    have m: "stands d' (T @ xs) (D @ xs)" "fits (rd_skip k r) (T @ xs)" "resume A d' (rd_skip k r) (T @ xs) = resume A d r T"
      "dz_prefix d' = dz_prefix d" "dz_decoded_off d' = dz_decoded_off d"
      using l(1) res by (simp_all add: leads_def moved_def)
    have "T @ xs = got @ drop (dz_decoded_off d') (D @ xs)" using D(1,2) m(5) by (simp add: stands_def)
    from after_loop_answers [OF m(1) this leads_ahead [OF f(2) l(1)] m(2-4) l(2)] x(1) Inr show ?thesis by simp
  qed
qed

end
