(* ===== verification/Stream_Equiv.thy ===== *)
theory Stream_Equiv
  imports Stream_Run
begin

text \<open>
  The streaming decompressor against \<^verbatim>\<open>decompress_with\<close>, \<^verbatim>\<open>decompress_using_dict\<close> and
  \<^verbatim>\<open>decompress_using_prefix\<close>: whatever the chunks, a finished stream has drained the one-shot output, a
  stream of an accepted input never fails and always gets on, and an error means the one-shot decoder
  rejects too. The last section runs the caller's loop of \<^verbatim>\<open>streamgate.rs\<close>.
\<close>

section \<open>The reference only appends\<close>

lemma section_ref_appends: "section_ref sc t X n cur r = Inr (cur', r') \<Longrightarrow> \<exists>xs. rs_out r' = rs_out r @ xs"
  by (auto simp: section_ref_def rbind_Inr_iff split: option.splits sum.splits dest!: exec_all_ref_extends)

lemma decode_sequences_ref_extends:
  "decode_sequences_ref A src lits out fx state = Inr (out', state') \<Longrightarrow> \<exists>xs. out' = out @ xs"
  by (auto simp: decode_sequences_ref_def Let_def case_prod_beta rbind_Inr_iff
      split: if_splits option.splits sum.splits dest!: section_ref_appends)

lemma compressed_ref_extends: "compressed_ref A payload out fx st = Inr (out', st') \<Longrightarrow> \<exists>xs. out' = out @ xs"
  by (auto simp: compressed_ref_def rbind_Inr_iff split: option.splits sum.splits dest!: decode_sequences_ref_extends)

lemma block_ref_extends: "block_ref A C bh r out st = Inr (r', out', st') \<Longrightarrow> \<exists>xs. out' = out @ xs"
  by (auto simp: block_ref_def Let_def rbind_Inr_iff split: if_splits block_type.splits dest!: compressed_ref_extends)

lemma blocks_ref_extends: "blocks_ref A C r out st = Inr (r', out') \<Longrightarrow> \<exists>xs. out' = out @ xs"
proof (induction A C r out st rule: blocks_ref.induct)
  case (1 A C r out st)
  obtain bh r1 where b: "parse_block_header r = Inr (bh, r1)"
    using 1(2) by (auto simp: blocks_ref.simps [of _ _ r] split: sum.splits)
  obtain r2 out2 st2 where s: "block_ref A C bh r1 out st = Inr (r2, out2, st2)"
    using 1(2) by (auto simp: blocks_ref.simps [of _ _ r] b split: sum.splits)
  obtain xs where xs: "out2 = out @ xs" using block_ref_extends [OF s] by blast
  show ?case
  proof (cases "bh_last bh")
    case True
    then show ?thesis using 1(2) xs by (auto simp: blocks_ref.simps [of _ _ r] b s)
  next
    case False
    then have "blocks_ref A C r2 out2 st2 = Inr (r', out')" using 1(2) by (simp add: blocks_ref.simps [of _ _ r] b s)
    then show ?thesis using 1(1) [OF b refl s refl refl False] xs by auto
  qed
qed

lemma frame_ref_extends: "frame_ref A r h opts dict hist out out_cap = Inr (r', out') \<Longrightarrow> \<exists>xs. out' = out @ xs"
  by (erule frame_ref_InrD) (rule blocks_ref_extends)

lemma frames_ref_extends: "frames_ref A opts dict hist out_cap r saw out = Inr (saw', out') \<Longrightarrow> \<exists>xs. out' = out @ xs"
proof (induction A opts dict hist out_cap r saw out rule: frames_ref.induct)
  case (1 A opts dict hist out_cap r saw out)
  note eq = frames_ref.simps [of A opts dict hist out_cap r saw out]
  show ?case
  proof (cases "rd_is_empty r")
    case True
    then show ?thesis using 1(3) by (simp add: eq)
  next
    case ne: False
    obtain k r1 where k: "rbind (check_magic saw r) (\<lambda>_. parse_kind r) = Inr (k, r1)"
      using 1(3) ne by (auto simp: eq split: sum.splits)
    show ?thesis
    proof (cases k)
      case (FkSkippable m n)
      obtain d r2 where d: "rd_take n r1 = Inr (d, r2)"
        using 1(3) ne k FkSkippable by (auto simp: eq split: sum.splits)
      have "frames_ref A opts dict hist out_cap r2 saw out = Inr (saw', out')"
        using 1(3) ne k FkSkippable d by (simp add: eq)
      then show ?thesis using 1(2) [OF ne k refl FkSkippable d refl] by blast
    next
      case (FkZstd h)
      obtain r2 out2 where f: "frame_ref A r1 h opts dict hist out out_cap = Inr (r2, out2)"
        using 1(3) ne k FkZstd by (auto simp: eq split: sum.splits)
      have "frames_ref A opts dict hist out_cap r2 True out2 = Inr (saw', out')"
        using 1(3) ne k FkZstd f by (simp add: eq)
      then show ?thesis using 1(1) [OF ne k refl FkZstd f refl] frame_ref_extends [OF f] by auto
    qed
  qed
qed

lemma resume_extends: "resume A d r T = Inr (saw, out) \<Longrightarrow> \<exists>xs. out = T @ xs"
  by (auto simp: resume_def frames_from_def end_frame_def rbind_Inr_iff split: option.splits if_splits
      dest!: frames_ref_extends blocks_ref_extends)

section \<open>The cap only refuses\<close>

lemma block_fx_cap [simp]: "block_fx (C\<lparr> fc_out_cap := cap \<rparr>) = block_fx C"
  by (simp add: block_fx_def)

lemma block_ref_cap_free:
  "block_ref A C bh r out st = Inr (r', out', st') \<Longrightarrow> length out' \<le> cap \<Longrightarrow>
    block_ref A (C\<lparr> fc_out_cap := cap \<rparr>) bh r out st = Inr (r', out', st')"
  by (auto simp: block_ref_def Let_def rbind_Inr_iff split: if_splits block_type.splits dest: rd_take_length intro!: exI [of _ out'])

lemma blocks_ref_cap_free:
  "blocks_ref A C r out st = Inr (r', out') \<Longrightarrow> length out' \<le> cap \<Longrightarrow> blocks_ref A (C\<lparr> fc_out_cap := cap \<rparr>) r out st = Inr (r', out')"
proof (induction A C r out st rule: blocks_ref.induct)
  case (1 A C r out st)
  obtain bh r1 where b: "parse_block_header r = Inr (bh, r1)"
    using 1(2) by (auto simp: blocks_ref.simps [of _ _ r] split: sum.splits)
  obtain r2 out2 st2 where s: "block_ref A C bh r1 out st = Inr (r2, out2, st2)"
    using 1(2) by (auto simp: blocks_ref.simps [of _ _ r] b split: sum.splits)
  show ?case
  proof (cases "bh_last bh")
    case True
    then show ?thesis using 1(2,3) block_ref_cap_free [OF s, of cap] by (simp add: blocks_ref.simps [of _ _ r] b s)
  next
    case False
    then have l: "blocks_ref A C r2 out2 st2 = Inr (r', out')" using 1(2) by (simp add: blocks_ref.simps [of _ _ r] b s)
    then have "length out2 \<le> cap" using blocks_ref_extends [OF l] 1(3) by auto
    then show ?thesis
      using block_ref_cap_free [OF s, of cap] 1(1) [OF b refl s refl refl False l 1(3)] False by (simp add: blocks_ref.simps [of _ _ r] b)
  qed
qed

lemma frame_ref_cap_free:
  assumes "frame_ref A r h opts dict hist out cap0 = Inr (r', out')" "length out' \<le> cap"
  shows "frame_ref A r h opts dict hist out cap = Inr (r', out')"
proof -
  obtain r1 where f: "fh_window_size h \<le> do_window_max opts" "check_dict h dict = Inr ()"
    "blocks_ref A \<lparr> fc_header = h, fc_hist = hist, fc_out_cap = cap0, fc_start = length out \<rparr> r out (from_dict dict) = Inr (r1, out')"
    "if fh_checksum h then \<exists>got. rd_u32_le r1 = Inr (got, r')
        \<and> (do_ignore_checksum opts \<or> content_checksum ArmScalar (drop (length out) out') = got) else r' = r1"
    "\<And>n. fh_content_size h = Some n \<Longrightarrow> length out' - length out = n"
    using frame_ref_InrD [OF assms(1)] by blast
  have "blocks_ref A \<lparr> fc_header = h, fc_hist = hist, fc_out_cap = cap, fc_start = length out \<rparr> r out (from_dict dict) = Inr (r1, out')"
    using blocks_ref_cap_free [OF f(3) assms(2)] by simp
  moreover have "\<not> (\<exists>n. fh_content_size h = Some n \<and> cap - length out < n)" using f(5) assms(2) by fastforce
  ultimately show ?thesis using f(1,2,4,5) by (auto simp: frame_ref_def Let_def split: if_splits)
qed

lemma frames_ref_cap_free:
  "frames_ref A opts dict hist cap0 r saw out = Inr (saw', out') \<Longrightarrow> length out' \<le> cap \<Longrightarrow>
    frames_ref A opts dict hist cap r saw out = Inr (saw', out')"
proof (induction A opts dict hist cap0 r saw out rule: frames_ref.induct)
  case (1 A opts dict hist cap0 r saw out)
  note eq = frames_ref.simps [of A opts dict hist _ r saw out]
  show ?case
  proof (cases "rd_is_empty r")
    case True
    then show ?thesis using 1(3) by (auto simp: frames_ref.simps [of _ _ _ _ _ r])
  next
    case ne: False
    obtain k r1 where k: "rbind (check_magic saw r) (\<lambda>_. parse_kind r) = Inr (k, r1)"
      using 1(3) ne by (auto simp: eq split: sum.splits)
    show ?thesis
    proof (cases k)
      case (FkSkippable m n)
      obtain d r2 where d: "rd_take n r1 = Inr (d, r2)"
        using 1(3) ne k FkSkippable by (auto simp: eq split: sum.splits)
      have "frames_ref A opts dict hist cap0 r2 saw out = Inr (saw', out')"
        using 1(3) ne k FkSkippable d by (simp add: eq)
      then show ?thesis using 1(2) [OF ne k refl FkSkippable d refl _ 1(4)] ne k FkSkippable d by (simp add: eq)
    next
      case (FkZstd h)
      obtain r2 out2 where f: "frame_ref A r1 h opts dict hist out cap0 = Inr (r2, out2)"
        using 1(3) ne k FkZstd by (auto simp: eq split: sum.splits)
      have l: "frames_ref A opts dict hist cap0 r2 True out2 = Inr (saw', out')"
        using 1(3) ne k FkZstd f by (simp add: eq)
      then have "length out2 \<le> cap" using frames_ref_extends [OF l] 1(4) by auto
      then show ?thesis
        using 1(1) [OF ne k refl FkZstd f refl l 1(4)] frame_ref_cap_free [OF f] ne k FkZstd by (simp add: eq)
    qed
  qed
qed

text \<open>Under a lower cap the result is the same, or it is \<open>ContentSizeTooLarge\<close>.\<close>

definition capped :: "'a res \<Rightarrow> 'a res \<Rightarrow> bool" where
  "capped m m' \<longleftrightarrow> m' = m \<or> m' = Inl ContentSizeTooLarge"

lemma capped_refl [simp]: "capped m m"
  by (simp add: capped_def)

lemma capped_bind: "capped m m' \<Longrightarrow> (\<And>x. m = Inr x \<Longrightarrow> capped (f x) (f' x)) \<Longrightarrow> capped (rbind m f) (rbind m' f')"
  by (cases m) (auto simp: capped_def)

lemma block_ref_capped:
  assumes "cap \<le> fc_out_cap C"
  shows "capped (block_ref A C bh r out st) (block_ref A (C\<lparr> fc_out_cap := cap \<rparr>) bh r out st)"
proof (cases "bh_ty bh")
  case BtCompressed
  have c: "capped (rbind (compressed_ref A p out (block_fx C) st) (\<lambda>(out, st). if fc_out_cap C < length out then Inl ContentSizeTooLarge else Inr (r', out, st)))
      (rbind (compressed_ref A p out (block_fx C) st) (\<lambda>(out, st). if cap < length out then Inl ContentSizeTooLarge else Inr (r', out, st)))" for p and r' :: reader
    using assms by (intro capped_bind) (auto simp: capped_def)
  show ?thesis
  proof (cases "rd_take (bh_size bh) r")
    case (Inr q)
    then show ?thesis using BtCompressed c by (cases q) (simp add: block_ref_def Let_def)
  qed (use BtCompressed in \<open>simp add: block_ref_def Let_def\<close>)
qed (use assms in \<open>auto simp: block_ref_def Let_def capped_def\<close>)

lemma blocks_ref_capped:
  "cap \<le> fc_out_cap C \<Longrightarrow> capped (blocks_ref A C r out st) (blocks_ref A (C\<lparr> fc_out_cap := cap \<rparr>) r out st)"
proof (induction A C r out st rule: blocks_ref.induct)
  case (1 A C r out st)
  show ?case
  proof (cases "parse_block_header r")
    case (Inl e)
    then show ?thesis by (simp add: blocks_ref.simps [of _ _ r])
  next
    case (Inr p)
    obtain bh r1 where b: "parse_block_header r = Inr (bh, r1)" using Inr by (cases p) simp
    note c = block_ref_capped [OF 1(2), of A bh r1 out st]
    show ?thesis
    proof (cases "block_ref A C bh r1 out st")
      case (Inl e)
      then show ?thesis using c by (auto simp: blocks_ref.simps [of _ _ r] b capped_def)
    next
      case s: (Inr q)
      obtain r2 out2 st2 where q: "q = (r2, out2, st2)" by (metis prod.exhaust)
      have "\<not> bh_last bh \<Longrightarrow> capped (blocks_ref A C r2 out2 st2) (blocks_ref A (C\<lparr> fc_out_cap := cap \<rparr>) r2 out2 st2)"
        using 1(1) [OF b refl s [unfolded q] refl refl _ 1(2)] by blast
      then show ?thesis using c by (auto simp: blocks_ref.simps [of _ _ r] b s q capped_def)
    qed
  qed
qed

lemma frame_ref_capped:
  assumes "cap \<le> cap0"
  shows "capped (frame_ref A r h opts dict hist out cap0) (frame_ref A r h opts dict hist out cap)"
proof -
  have "capped (blocks_ref A \<lparr> fc_header = h, fc_hist = hist, fc_out_cap = cap0, fc_start = length out \<rparr> r out (from_dict dict))
      (blocks_ref A \<lparr> fc_header = h, fc_hist = hist, fc_out_cap = cap, fc_start = length out \<rparr> r out (from_dict dict))"
    using blocks_ref_capped [of cap "\<lparr> fc_header = h, fc_hist = hist, fc_out_cap = cap0, fc_start = length out \<rparr>" A r out "from_dict dict"] assms by simp
  note b = capped_bind [OF this capped_refl]
  show ?thesis
  proof (cases "\<exists>n. fh_content_size h = Some n \<and> cap - length out < n")
    case True
    then show ?thesis by (cases "check_dict h dict") (auto simp: frame_ref_def capped_def)
  next
    case False
    then have nb: "\<not> (\<exists>n. fh_content_size h = Some n \<and> cap0 - length out < n)" using assms by fastforce
    show ?thesis unfolding frame_ref_def Let_def if_not_P [OF False] if_not_P [OF nb]
      by (cases "check_dict h dict") (simp_all add: b)
  qed
qed

lemma frames_ref_capped:
  "cap \<le> cap0 \<Longrightarrow> capped (frames_ref A opts dict hist cap0 r saw out) (frames_ref A opts dict hist cap r saw out)"
proof (induction A opts dict hist cap0 r saw out rule: frames_ref.induct)
  case (1 A opts dict hist cap0 r saw out)
  note eq = frames_ref.simps [of A opts dict hist _ r saw out]
  consider "rd_is_empty r" | "\<not> rd_is_empty r" "\<exists>e. rbind (check_magic saw r) (\<lambda>_. parse_kind r) = Inl e"
    | k r1 where "\<not> rd_is_empty r" "rbind (check_magic saw r) (\<lambda>_. parse_kind r) = Inr (k, r1)"
    by (cases "rbind (check_magic saw r) (\<lambda>_. parse_kind r)") auto
  then show ?case
  proof cases
    case (3 k r1)
    show ?thesis
    proof (cases k)
      case (FkSkippable m n)
      then show ?thesis using 3 1(2) [OF 3 refl FkSkippable _ refl 1(3)] by (cases "rd_take n r1") (auto simp: eq)
    next
      case (FkZstd h)
      note c = frame_ref_capped [OF 1(3), of A r1 h opts dict hist out]
      show ?thesis
      proof (cases "frame_ref A r1 h opts dict hist out cap0")
        case (Inl e)
        then show ?thesis using c 3 FkZstd by (auto simp: eq capped_def)
      next
        case (Inr p)
        obtain r2 out2 where p: "p = (r2, out2)" by (metis prod.exhaust)
        show ?thesis using c 3 FkZstd Inr p 1(1) [OF 3 refl FkZstd Inr [unfolded p] refl 1(3)] by (auto simp: eq capped_def)
      qed
    qed
  qed (auto simp: eq)
qed

section \<open>The one-shot entry points\<close>

text \<open>What a stream asks of its caller: the input, at 128 KiB of output per byte, stays below \<open>2 ^ 61\<close>, a loaded
  dictionary has well-formed tables, and the arms are the shipping ones.\<close>

definition stream_pre :: "stream_arms \<Rightarrow> dictionary option \<Rightarrow> bytes \<Rightarrow> bool" where
  "stream_pre A dict src \<longleftrightarrow> (length src + 1) * BLOCKSIZE_MAX < 2 ^ 61 \<and> dict_wf dict \<and> sa_reserve_cap A < 2 ^ 62
     \<and> \<not> ar_pipeline (sa_seq A) \<and> \<not> ar_pipe1 (sa_seq A)"

definition history_of :: "dictionary option \<Rightarrow> bytes \<Rightarrow> bytes" where
  "history_of dict prefix = (case dict of None \<Rightarrow> prefix | Some d \<Rightarrow> dc_content d)"

definition uncapped :: "stream_arms \<Rightarrow> decode_opts \<Rightarrow> dictionary option \<Rightarrow> bytes \<Rightarrow> bytes \<Rightarrow> (bool \<times> bytes) res" where
  "uncapped A opts dict prefix src =
     frames_ref (sa_seq A) (verifying opts) dict (history_of dict prefix) NO_CAP (rd_new src) False []"

lemma stream_pre_facts:
  assumes "stream_pre A dict src"
  shows "length src < 2 ^ 61" "rd_wf (rd_new src)" "fits (rd_new src) []"
proof -
  have b: "length ([] :: bytes) + (length src + 1) * BLOCKSIZE_MAX < 2 ^ 61" using assms by (simp add: stream_pre_def)
  have "length src * 1 \<le> length src * BLOCKSIZE_MAX" by (rule mult_le_mono2) (simp add: BLOCKSIZE_MAX_def)
  then show "length src < 2 ^ 61" using b unfolding add_mult_distrib by linarith
  then show "rd_wf (rd_new src)" by simp
  show "fits (rd_new src) []" using b by (simp add: fits_def rd_new_def rd_remaining_def)
qed

lemma uncapped_small:
  assumes "stream_pre A dict src" "uncapped A opts dict prefix src = Inr (saw, out)"
  shows "length out < USIZE_MAX"
proof -
  let ?F = "\<lparr> fa_seq = sa_seq A, fa_xx = sa_xx A, fa_ck_stream = False, fa_ck_fuse_min = 0 \<rparr>"
  have p: "dict_wf dict" "\<not> ar_pipeline (fa_seq ?F)" "\<not> ar_pipe1 (fa_seq ?F)" using assms(1) by (simp_all add: stream_pre_def)
  note f = stream_pre_facts [OF assms(1)]
  have "3 * length out \<le> length src * BLOCKSIZE_MAX"
    using frames_loop_ok [OF f(2) empty_vec_is f(3) p, of "verifying opts" "history_of dict prefix" NO_CAP False] assms(2)
    by (simp add: uncapped_def rd_new_def rd_remaining_def)
  moreover have "length src * BLOCKSIZE_MAX < 2 ^ 61" using assms(1) unfolding stream_pre_def add_mult_distrib by linarith
  ultimately have "length out < 2 ^ 61" by linarith
  then show ?thesis by (rule less_trans) (simp add: USIZE_MAX_def)
qed

lemma one_shot_ok:
  assumes "stream_pre A dict src" "fa_seq F = sa_seq A"
  shows "case decompress_ref (sa_seq A) src (verifying opts) dict prefix [] USIZE_MAX of
      Inl e \<Rightarrow> decompress_with_history F src (verifying opts) dict prefix = Some (Inl e)
    | Inr out \<Rightarrow> \<exists>v. decompress_with_history F src (verifying opts) dict prefix = Some (Inr v) \<and> vec_is v out"
proof -
  have b: "length ([] :: bytes) + (length src + 1) * BLOCKSIZE_MAX < 2 ^ 61" and p: "dict_wf dict"
    "\<not> ar_pipeline (fa_seq F)" "\<not> ar_pipe1 (fa_seq F)" using assms by (simp_all add: stream_pre_def)
  note d = decompress_into_ok [OF empty_vec_is b p, of "verifying opts" prefix USIZE_MAX]
  show ?thesis
    using d by (cases "decompress_ref (sa_seq A) src (verifying opts) dict prefix [] USIZE_MAX") (auto simp: assms(2) decompress_with_history_def)
qed

lemma decompress_ref_uncapped:
  "decompress_ref (sa_seq A) src (verifying opts) dict prefix [] USIZE_MAX =
    (if src = [] then Inl UnexpectedEof
     else rbind (frames_ref (sa_seq A) (verifying opts) dict (history_of dict prefix) USIZE_MAX (rd_new src) False [])
       (\<lambda>(saw, out). if saw then Inr out else Inl UnexpectedEof))"
  by (simp add: decompress_ref_def history_of_def)

lemma usize_below_cap: "USIZE_MAX \<le> NO_CAP"
  by (simp add: USIZE_MAX_def NO_CAP_def)

lemma uncapped_nil: "uncapped A opts dict prefix [] = Inr (False, [])"
  by (simp add: uncapped_def frames_ref.simps [of _ _ _ _ _ "rd_new []"] rd_is_empty_iff)

lemma one_shot_accepts:
  assumes "stream_pre A dict src" "fa_seq F = sa_seq A" "uncapped A opts dict prefix src = Inr (True, out)"
  shows "\<exists>v. decompress_with_history F src (verifying opts) dict prefix = Some (Inr v) \<and> vec_is v out"
proof -
  have "src \<noteq> []" using assms(3) uncapped_nil by auto
  moreover have "frames_ref (sa_seq A) (verifying opts) dict (history_of dict prefix) USIZE_MAX (rd_new src) False [] = Inr (True, out)"
    by (rule frames_ref_cap_free [OF assms(3) [unfolded uncapped_def] less_imp_le [OF uncapped_small [OF assms(1,3)]]])
  ultimately show ?thesis using one_shot_ok [OF assms(1,2), of opts prefix] by (simp add: decompress_ref_uncapped)
qed

lemma one_shot_accepted:
  assumes "stream_pre A dict src" "fa_seq F = sa_seq A" "decompress_with_history F src (verifying opts) dict prefix = Some (Inr v)"
  shows "\<exists>out. uncapped A opts dict prefix src = Inr (True, out) \<and> vec_is v out"
proof (cases "decompress_ref (sa_seq A) src (verifying opts) dict prefix [] USIZE_MAX")
  case (Inl e)
  then show ?thesis using one_shot_ok [OF assms(1,2), of opts prefix] assms(3) by simp
next
  case (Inr out)
  then have f: "frames_ref (sa_seq A) (verifying opts) dict (history_of dict prefix) USIZE_MAX (rd_new src) False [] = Inr (True, out)"
    by (auto simp: decompress_ref_uncapped rbind_Inr_iff split: if_splits)
  have "length out \<le> NO_CAP" using frames_ref_cap [OF f] usize_below_cap by simp
  then have "uncapped A opts dict prefix src = Inr (True, out)" using frames_ref_cap_free [OF f] by (simp add: uncapped_def)
  then show ?thesis using one_shot_ok [OF assms(1,2), of opts prefix] assms(3) Inr by auto
qed

lemma one_shot_rejects:
  assumes "stream_pre A dict src" "fa_seq F = sa_seq A"
  shows "uncapped A opts dict prefix src = Inl e \<Longrightarrow>
      decompress_with_history F src (verifying opts) dict prefix \<in> {Some (Inl e), Some (Inl ContentSizeTooLarge)}"
    and "uncapped A opts dict prefix src = Inr (False, out) \<Longrightarrow>
      decompress_with_history F src (verifying opts) dict prefix = Some (Inl UnexpectedEof)"
proof -
  let ?u = "frames_ref (sa_seq A) (verifying opts) dict (history_of dict prefix) USIZE_MAX (rd_new src) False []"
  have ne: "src \<noteq> []" if "uncapped A opts dict prefix src = Inl e" for e
    using that uncapped_nil by auto
  have c: "capped (uncapped A opts dict prefix src) ?u"
    unfolding uncapped_def by (rule frames_ref_capped [OF usize_below_cap])
  show "uncapped A opts dict prefix src = Inl e \<Longrightarrow>
      decompress_with_history F src (verifying opts) dict prefix \<in> {Some (Inl e), Some (Inl ContentSizeTooLarge)}"
    using c ne one_shot_ok [OF assms, of opts prefix] by (auto simp: capped_def decompress_ref_uncapped)
  assume u: "uncapped A opts dict prefix src = Inr (False, out)"
  have "?u = Inr (False, out)"
    by (rule frames_ref_cap_free [OF u [unfolded uncapped_def] less_imp_le [OF uncapped_small [OF assms(1) u]]])
  then show "decompress_with_history F src (verifying opts) dict prefix = Some (Inl UnexpectedEof)"
    using one_shot_ok [OF assms, of opts prefix] by (auto simp: decompress_ref_uncapped split: if_splits)
qed

section \<open>Series of calls\<close>

definition dz_ready :: "decode_opts \<Rightarrow> dictionary option \<Rightarrow> bytes \<Rightarrow> decompressor" where
  "dz_ready opts dict prefix =
     (case dict of None \<Rightarrow> dz_set_prefix prefix (dz_with_options opts) | Some dc \<Rightarrow> dz_set_dictionary dc (dz_with_options opts))"

text \<open>Calls that succeeded: \<open>fed\<close> is what went in, \<open>got\<close> what came out.\<close>

inductive served :: "stream_arms \<Rightarrow> decompressor \<Rightarrow> bytes \<Rightarrow> bytes \<Rightarrow> decompressor \<Rightarrow> bool" for A d0 where
  fresh: "served A d0 [] [] d0"
| call: "served A d0 fed got d \<Longrightarrow> dz_stream A inp room fin d = Some (Inr (s, chunk, d')) \<Longrightarrow> served A d0 (fed @ inp) (got @ chunk) d'"

lemma ready_serving:
  assumes "stream_pre A dict src"
  shows "serving (dz_ready opts dict prefix) (rd_new src) [] [] src"
    "resume A (dz_ready opts dict prefix) (rd_new src) [] = uncapped A opts dict prefix src"
    "dz_prefix (dz_ready opts dict prefix) = history_of dict prefix"
proof -
  let ?d = "dz_ready opts dict prefix"
  have d: "dz_header ?d = None" "\<not> dz_in_checksum ?d" "dz_decoded ?d = empty_vec" "dz_decoded_off ?d = 0" "dz_input ?d = []"
    "dz_in_off ?d = 0" "dz_dict ?d = dict" "dz_opts ?d = opts" "\<not> dz_saw_zstd ?d" and pre: "dz_prefix ?d = history_of dict prefix"
    by (simp_all add: dz_ready_def dz_set_prefix_def dz_set_dictionary_def dz_with_options_def history_of_def split: option.split)
  show "dz_prefix ?d = history_of dict prefix" by (rule pre)
  have "stands ?d [] []" using assms d empty_vec_is by (simp add: stands_def stream_pre_def)
  then show "serving ?d (rd_new src) [] [] src"
    using stream_pre_facts [OF assms] d by (auto simp: serving_def ahead_def dz_in_bytes_def)
  show "resume A ?d (rd_new src) [] = uncapped A opts dict prefix src"
    using d pre by (simp add: resume_def frames_from_def uncapped_def)
qed

lemma answers_serving:
  assumes "answers A d r T got inp ys room fin (Inr (s, chunk, d'))"
  obtains r' T' where "serving d' r' T' (got @ chunk) ys" "resume A d' r' T' = resume A d r T" "dz_prefix d' = dz_prefix d"
    "st_done s \<longleftrightarrow> fin \<and> settled d'"
  using assms
proof (rule answers_InrE)
  fix r' T'
  assume "s = \<lparr>st_consumed = length inp, st_produced = length chunk, st_done = fin \<and> settled d'\<rparr>" "serving d' r' T' (got @ chunk) ys"
    "resume A d' r' T' = resume A d r T" "dz_prefix d' = dz_prefix d"
  then show ?thesis by (intro that) simp_all
qed

lemma served_serving:
  assumes "served A (dz_ready opts dict prefix) fed got d" "stream_pre A dict (fed @ ys)"
  shows "\<exists>r T. serving d r T got ys \<and> resume A d r T = uncapped A opts dict prefix (fed @ ys) \<and> dz_prefix d = history_of dict prefix"
  using assms
proof (induction arbitrary: ys rule: served.induct)
  case fresh
  then show ?case using ready_serving [of A dict ys opts prefix] by (intro exI [of _ "rd_new ys"] exI [of _ "[]"]) simp
next
  case (call fed got d inp room fin s chunk d')
  obtain r T where i: "serving d r T got (inp @ ys)" "resume A d r T = uncapped A opts dict prefix (fed @ inp @ ys)"
    "dz_prefix d = history_of dict prefix" using call.IH [of "inp @ ys"] call.prems by auto
  have "answers A d r T got inp ys room fin (Inr (s, chunk, d'))"
    using dz_stream_answers [OF i(1), of A room fin] call.hyps(2) call.prems by (simp add: stream_pre_def)
  from answers_serving [OF this] show ?case using i(2,3) by (metis append_assoc)
qed

lemma settled_resume:
  assumes "serving d r T got []" "settled d"
  shows "resume A d r T = Inr (True, got)"
proof -
  obtain D where D: "stands d T D" "T = got @ drop (dz_decoded_off d) D" "ahead d r []" using assms(1) by (auto simp: serving_def)
  have "length D \<le> dz_decoded_off d" using D(1) assms(2) by (simp add: settled_def pending_def stands_def vec_is_def)
  then have "T = got" using D(2) by simp
  then show ?thesis using frames_from_nil [of r A d] D(3) assms(2) by (simp add: resume_def settled_def ahead_def)
qed

text \<open>The next call after a series of them.\<close>

lemma call_answers:
  assumes "served A (dz_ready opts dict prefix) fed got d" "stream_pre A dict (fed @ inp @ ys)"
  shows "\<exists>r T x. serving d r T got (inp @ ys) \<and> dz_stream A inp room fin d = Some x \<and> answers A d r T got inp ys room fin x
    \<and> resume A d r T = uncapped A opts dict prefix (fed @ inp @ ys) \<and> dz_prefix d = history_of dict prefix"
proof -
  obtain r T where i: "serving d r T got (inp @ ys)" "resume A d r T = uncapped A opts dict prefix (fed @ inp @ ys)"
    "dz_prefix d = history_of dict prefix" using served_serving [OF assms(1), of "inp @ ys"] assms(2) by auto
  then show ?thesis using dz_stream_answers [OF i(1), of A room fin] assms(2) by (auto simp: stream_pre_def)
qed

lemma done_uncapped:
  assumes "served A (dz_ready opts dict prefix) fed got d" "dz_stream A inp room fin d = Some (Inr (s, chunk, d'))" "st_done s"
    and "stream_pre A dict (fed @ inp)"
  shows "uncapped A opts dict prefix (fed @ inp) = Inr (True, got @ chunk)"
proof -
  have pre: "stream_pre A dict (fed @ inp @ [])" using assms(4) by simp
  obtain r T where i: "answers A d r T got inp [] room fin (Inr (s, chunk, d'))" "resume A d r T = uncapped A opts dict prefix (fed @ inp)"
    using call_answers [OF assms(1) pre, of room fin] assms(2) by auto
  from answers_serving [OF i(1)] obtain r' T' where a: "serving d' r' T' (got @ chunk) []" "resume A d' r' T' = resume A d r T" "settled d'"
    using assms(3) by blast
  show ?thesis using settled_resume [OF a(1,3), of A] a(2) i(2) by simp
qed

text \<open>Nothing stands in the way of an accepted input: \<open>out\<close> is the reference's output for \<open>fed @ inp @ ys\<close>.\<close>

lemma call_of_accepted:
  assumes "served A (dz_ready opts None []) fed got d" "stream_pre A None (fed @ inp @ ys)" "fin \<Longrightarrow> ys = []"
    and "uncapped A opts None [] (fed @ inp @ ys) = Inr (True, out)"
  shows "\<exists>s chunk d'. dz_stream A inp room fin d = Some (Inr (s, chunk, d')) \<and> st_consumed s = length inp
    \<and> st_produced s = length chunk \<and> length chunk \<le> room \<and> (\<exists>zs. out = got @ chunk @ zs)
    \<and> (st_done s \<longrightarrow> out = got @ chunk) \<and> (fin \<longrightarrow> 0 < room \<longrightarrow> chunk = [] \<longrightarrow> st_done s)"
proof -
  obtain r T x where i: "dz_stream A inp room fin d = Some x" "answers A d r T got inp ys room fin x"
    "resume A d r T = Inr (True, out)" "dz_prefix d = []"
    using call_answers [OF assms(1,2), of room fin] assms(4) by (auto simp: history_of_def)
  from i(2) show ?thesis
  proof cases
    case (fails e)
    then show ?thesis using i(3,4) by simp
  next
    case truncated
    then show ?thesis using i(3) assms(3) by auto
  next
    case (serves d' r' T' chunk dn)
    obtain D where "T' = (got @ chunk) @ drop (dz_decoded_off d') D" using serves(2) by (auto simp: serving_def)
    moreover obtain zs where "out = T' @ zs" using resume_extends [of A d' r' T'] serves(3) i(3) by auto
    ultimately have "\<exists>zs. out = got @ chunk @ zs" by auto
    moreover have "out = got @ chunk" if "dn"
      using settled_resume [of d' r' T' "got @ chunk" A] that serves(2,3,6) assms(3) i(3) by auto
    moreover have "fin \<longrightarrow> 0 < room \<longrightarrow> chunk = [] \<longrightarrow> dn" using serves(7) assms(3) i(3) by auto
    ultimately show ?thesis using serves(1,5) i(1) by auto
  qed
qed

end
