(* ===== verification/Stream_Caller.thy ===== *)
theory Stream_Caller
  imports Stream_Equiv
begin

text \<open>
  What a caller of the streaming decompressor may rely on, and the caller's own loop of
  \<^verbatim>\<open>rusty_zstd-bench/examples/streamgate.rs\<close>: feed in chunks, drain what comes, end with the last bytes.
\<close>

section \<open>A caller's loop\<close>

text \<open>\<^verbatim>\<open>expect\<close> panics on an error; here the error is the value.\<close>

partial_function (option) feed_loop :: "stream_arms \<Rightarrow> nat \<Rightarrow> bytes \<Rightarrow> decompressor \<Rightarrow> bytes \<Rightarrow> (decompressor \<times> bytes) res option" where
  "feed_loop A obuf inp d out =
     Option.bind (dz_stream A inp obuf False d) (\<lambda>x. case x of
         Inl e \<Rightarrow> Some (Inl e)
       | Inr (s, chunk, d) \<Rightarrow>
           if st_consumed s = 0 \<and> st_produced s = 0 then Some (Inr (d, out @ chunk))
           else feed_loop A obuf (drop (st_consumed s) inp) d (out @ chunk))"

partial_function (option) feed_chunks :: "stream_arms \<Rightarrow> bytes \<Rightarrow> nat \<Rightarrow> nat \<Rightarrow> nat \<Rightarrow> decompressor \<Rightarrow> bytes \<Rightarrow> (decompressor \<times> bytes) res option" where
  "feed_chunks A z chunk obuf i d out =
     (if length z \<le> i then Some (Inr (d, out))
      else let e = min (i + chunk) (length z)
           in Option.bind (feed_loop A obuf (take (e - i) (drop i z)) d out) (\<lambda>x. case x of
                Inl err \<Rightarrow> Some (Inl err)
              | Inr (d, out) \<Rightarrow> feed_chunks A z chunk obuf e d out))"

partial_function (option) drain_loop :: "stream_arms \<Rightarrow> nat \<Rightarrow> decompressor \<Rightarrow> bytes \<Rightarrow> bytes res option" where
  "drain_loop A obuf d out =
     Option.bind (dz_stream A [] obuf True d) (\<lambda>x. case x of
         Inl e \<Rightarrow> Some (Inl e)
       | Inr (s, chunk, d) \<Rightarrow> if st_produced s = 0 then Some (Inr (out @ chunk)) else drain_loop A obuf d (out @ chunk))"

definition stream_decompress :: "stream_arms \<Rightarrow> bytes \<Rightarrow> nat \<Rightarrow> nat \<Rightarrow> bytes res option" where
  "stream_decompress A z chunk obuf =
     then_do (feed_chunks A z chunk obuf 0 dz_new []) (\<lambda>(d, out). drain_loop A obuf d out)"

lemma new_ready: "dz_new = dz_ready default_opts None []"
  by (simp add: dz_new_def dz_ready_def dz_set_prefix_def dz_with_options_def)

lemma served_call:
  "served A d0 fed got d \<Longrightarrow> dz_stream A [] room fin d = Some (Inr (s, chunk, d')) \<Longrightarrow> served A d0 fed (got @ chunk) d'"
  using served.call [of A d0 fed got d "[]"] by simp

text \<open>Every call that produces shortens what is left of the output, so both loops end.\<close>

lemma feed_loop_empty:
  assumes "stream_pre A None (fed @ ys)" "uncapped A opts None [] (fed @ ys) = Inr (True, out)"
    and "served A (dz_ready opts None []) fed got d"
  shows "\<exists>got' d'. feed_loop A obuf [] d got = Some (Inr (d', got')) \<and> served A (dz_ready opts None []) fed got' d'"
  using assms(3)
proof (induction "length out - length got" arbitrary: got d rule: less_induct)
  case less
  have pre: "stream_pre A None (fed @ [] @ ys)" and u: "uncapped A opts None [] (fed @ [] @ ys) = Inr (True, out)" using assms by simp_all
  obtain s chunk d' where c: "dz_stream A [] obuf False d = Some (Inr (s, chunk, d'))" "st_consumed s = 0" "st_produced s = length chunk"
    "\<exists>zs. out = got @ chunk @ zs"
    using call_of_accepted [OF less.prems pre _ u, of False obuf] by auto
  note srv = served_call [OF less.prems c(1)]
  show ?case
  proof (cases "chunk = []")
    case True
    then show ?thesis using c srv by (subst feed_loop.simps) auto
  next
    case False
    then have "length out - length (got @ chunk) < length out - length got" using c(4) by auto
    from less.hyps [OF this srv] show ?thesis using c False by (subst feed_loop.simps) simp
  qed
qed

lemma feed_loop_ok:
  assumes "stream_pre A None (fed @ inp @ ys)" "uncapped A opts None [] (fed @ inp @ ys) = Inr (True, out)"
    and "served A (dz_ready opts None []) fed got d"
  shows "\<exists>got' d'. feed_loop A obuf inp d got = Some (Inr (d', got')) \<and> served A (dz_ready opts None []) (fed @ inp) got' d'"
proof -
  obtain s chunk d' where c: "dz_stream A inp obuf False d = Some (Inr (s, chunk, d'))" "st_consumed s = length inp" "st_produced s = length chunk"
    using call_of_accepted [OF assms(3,1) _ assms(2), of False obuf] by auto
  note srv = served.call [OF assms(3) c(1)]
  show ?thesis
  proof (cases "inp = [] \<and> chunk = []")
    case True
    then show ?thesis using c srv by (subst feed_loop.simps) auto
  next
    case False
    then show ?thesis using feed_loop_empty [of A "fed @ inp" ys, OF _ _ srv] assms(1,2) c by (subst feed_loop.simps) auto
  qed
qed

lemma feed_chunks_ok:
  assumes "stream_pre A None z" "uncapped A opts None [] z = Inr (True, out)" "0 < chunk"
    and "served A (dz_ready opts None []) (take i z) got d" "i \<le> length z"
  shows "\<exists>got' d'. feed_chunks A z chunk obuf i d got = Some (Inr (d', got')) \<and> served A (dz_ready opts None []) z got' d'"
  using assms(4,5)
proof (induction "length z - i" arbitrary: i got d rule: less_induct)
  case less
  show ?case
  proof (cases "length z \<le> i")
    case True
    then show ?thesis using less.prems by (subst feed_chunks.simps) simp
  next
    case False
    let ?e = "min (i + chunk) (length z)"
    let ?inp = "take (?e - i) (drop i z)"
    have e: "i < ?e" "?e \<le> length z" using False assms(3) by auto
    have t: "take i z @ ?inp = take ?e z" using e by (metis less_imp_le take_add le_add_diff_inverse)
    then have z: "take i z @ ?inp @ drop ?e z = z" by (metis append_assoc append_take_drop_id)
    obtain got' d' where f: "feed_loop A obuf ?inp d got = Some (Inr (d', got'))" "served A (dz_ready opts None []) (take ?e z) got' d'"
      using feed_loop_ok [of A "take i z" ?inp "drop ?e z" opts out got d obuf, unfolded z, OF assms(1,2) less.prems(1)] unfolding t by blast
    have "length z - ?e < length z - i" using e by linarith
    from less.hyps [OF this f(2) e(2)] show ?thesis using False f(1) by (subst feed_chunks.simps) (simp add: Let_def)
  qed
qed

lemma drain_loop_ok:
  assumes "stream_pre A None z" "uncapped A opts None [] z = Inr (True, out)" "0 < obuf"
    and "served A (dz_ready opts None []) z got d"
  shows "drain_loop A obuf d got = Some (Inr out)"
  using assms(4)
proof (induction "length out - length got" arbitrary: got d rule: less_induct)
  case less
  have pre: "stream_pre A None (z @ [] @ [])" and u: "uncapped A opts None [] (z @ [] @ []) = Inr (True, out)" using assms by simp_all
  obtain s chunk d' where c: "dz_stream A [] obuf True d = Some (Inr (s, chunk, d'))" "st_produced s = length chunk"
    "\<exists>zs. out = got @ chunk @ zs" "st_done s \<Longrightarrow> out = got @ chunk" "chunk = [] \<Longrightarrow> st_done s"
    using call_of_accepted [OF less.prems pre _ u, of True obuf] assms(3) by auto
  show ?case
  proof (cases "chunk = []")
    case True
    then show ?thesis using c by (subst drain_loop.simps) simp
  next
    case False
    then have "length out - length (got @ chunk) < length out - length got" using c(3) by auto
    from less.hyps [OF this served_call [OF less.prems c(1)]] show ?thesis using c False by (subst drain_loop.simps) simp
  qed
qed

lemma stream_decompress_ok:
  assumes "stream_pre A None z" "uncapped A default_opts None [] z = Inr (True, out)" "0 < chunk" "0 < obuf"
  shows "stream_decompress A z chunk obuf = Some (Inr out)"
proof -
  have "served A (dz_ready default_opts None []) (take 0 z) [] dz_new" unfolding new_ready by (simp add: served.fresh)
  then obtain got d where "feed_chunks A z chunk obuf 0 dz_new [] = Some (Inr (d, got))" "served A (dz_ready default_opts None []) z got d"
    using feed_chunks_ok [OF assms(1-3)] by blast
  then show ?thesis using drain_loop_ok [OF assms(1,2,4)] by (simp add: stream_decompress_def)
qed

text \<open>Some series of calls ends.\<close>

lemma run_to_done:
  assumes "stream_pre A None z" "uncapped A opts None [] z = Inr (True, out)" "0 < room" "served A (dz_ready opts None []) z got d"
  shows "\<exists>got' d' s chunk d2. served A (dz_ready opts None []) z got' d' \<and> dz_stream A [] room True d' = Some (Inr (s, chunk, d2)) \<and> st_done s"
  using assms(4)
proof (induction "length out - length got" arbitrary: got d rule: less_induct)
  case less
  have pre: "stream_pre A None (z @ [] @ [])" and u: "uncapped A opts None [] (z @ [] @ []) = Inr (True, out)" using assms by simp_all
  obtain s chunk d' where c: "dz_stream A [] room True d = Some (Inr (s, chunk, d'))" "\<exists>zs. out = got @ chunk @ zs" "chunk = [] \<Longrightarrow> st_done s"
    using call_of_accepted [OF less.prems pre _ u, of True room] assms(3) by auto
  show ?case
  proof (cases "chunk = []")
    case False
    then have "length out - length (got @ chunk) < length out - length got" using c(2) by auto
    from less.hyps [OF this served_call [OF less.prems c(1)]] show ?thesis .
  qed (use less.prems c in blast)
qed

section \<open>What a caller may rely on\<close>

definition shipping_stream_arms :: stream_arms where
  "shipping_stream_arms = \<lparr> sa_seq = shipping_arms, sa_xx = ArmScalar, sa_reserve_cap = 8 * 2 ^ 20 \<rparr>"

abbreviation sample_frame :: bytes where
  "sample_frame \<equiv> stored_frame \<lparr> sd_src_len = 0, sd_window_log = 17, sd_checksum = True, sd_pledged = Some 5, sd_ext_hist = False,
     sd_blocks = [[7, 7, 7], [104, 105]] \<rparr>"

lemma verifying_default: "verifying default_opts = default_opts"
  by (simp add: verifying_def default_opts_def)

lemma vec_is_unique: "vec_is v out \<Longrightarrow> vec_is v out' \<Longrightarrow> out = out'"
  by (auto simp: vec_is_def mem_is_def)

lemma shipping_pre: "length src < 1000 \<Longrightarrow> stream_pre shipping_stream_arms None src"
  by (simp add: stream_pre_def shipping_stream_arms_def shipping_arms_def BLOCKSIZE_MAX_def)

lemma sample_stream:
  "stream_pre shipping_stream_arms None sample_frame"
  "uncapped shipping_stream_arms default_opts None [] sample_frame = Inr (True, [7, 7, 7, 104, 105])"
  "\<exists>v. decompress_with_history shipping_frame_arms sample_frame default_opts None [] = Some (Inr v) \<and> vec_is v [7, 7, 7, 104, 105]"
  "fa_seq shipping_frame_arms = sa_seq shipping_stream_arms"
proof -
  let ?f = "\<lparr> sd_src_len = 0, sd_window_log = 17, sd_checksum = True, sd_pledged = Some 5, sd_ext_hist = False,
     sd_blocks = [[7, 7, 7], [104, 105]] \<rparr> :: stored"
  note f = sample_stored [OF refl [of ?f]]
  show pre: "stream_pre shipping_stream_arms None sample_frame" using f(3) by (intro shipping_pre) simp
  show arms: "fa_seq shipping_frame_arms = sa_seq shipping_stream_arms" by (simp add: shipping_frame_arms_def shipping_stream_arms_def)
  have "decompress_ref (sa_seq shipping_stream_arms) (concat (map stored_frame [?f]) @ []) default_opts None [] [] USIZE_MAX = Inr [7, 7, 7, 104, 105]"
    by (subst stored_frames_ref) (use f in \<open>simp_all add: USIZE_MAX_def\<close>)
  then have d: "decompress_ref (sa_seq shipping_stream_arms) sample_frame (verifying default_opts) None [] [] USIZE_MAX = Inr [7, 7, 7, 104, 105]"
    by (simp add: verifying_default)
  then show h: "\<exists>v. decompress_with_history shipping_frame_arms sample_frame default_opts None [] = Some (Inr v) \<and> vec_is v [7, 7, 7, 104, 105]"
    using one_shot_ok [OF pre arms, of default_opts "[]"] by (simp add: verifying_default)
  then show "uncapped shipping_stream_arms default_opts None [] sample_frame = Inr (True, [7, 7, 7, 104, 105])"
    using one_shot_accepted [OF pre arms, of default_opts "[]"] vec_is_unique by (auto simp: verifying_default)
qed

text \<open>C3: when a stream says it is done, whatever the chunks it was fed and drained in, with or without a dictionary or prefix,
  what was drained is what the one-shot decoder, verifying checksums, makes of everything that was fed.\<close>

theorem stream_done_is_one_shot:
  assumes "served A (dz_ready opts dict prefix) fed got d" "dz_stream A inp room fin d = Some (Inr (s, chunk, d'))" "st_done s"
    and "stream_pre A dict (fed @ inp)" "fa_seq F = sa_seq A"
  shows "\<exists>v. decompress_with_history F (fed @ inp) (verifying opts) dict prefix = Some (Inr v) \<and> vec_is v (got @ chunk)"
  by (rule one_shot_accepts [OF assms(4,5) done_uncapped [OF assms(1-4)]])

theorem stream_done_is_one_shot_witness:
  "\<exists>got d s chunk d'. dz_stream shipping_stream_arms [] 2 True d = Some (Inr (s, chunk, d')) \<and> st_done s
    \<and> (\<exists>v. decompress_with_history shipping_frame_arms (sample_frame @ []) (verifying default_opts) None [] = Some (Inr v) \<and> vec_is v (got @ chunk))"
proof -
  note sample = sample_stream
  obtain s0 c0 d0 where "dz_stream shipping_stream_arms sample_frame 2 False (dz_ready default_opts None []) = Some (Inr (s0, c0, d0))"
    using call_of_accepted [OF served.fresh, where A = shipping_stream_arms and inp = sample_frame and ys = "[]" and fin = False
        and opts = default_opts and room = 2 and out = "[7, 7, 7, 104, 105]"] sample(1,2) by auto
  from served.call [OF served.fresh this] have "served shipping_stream_arms (dz_ready default_opts None []) sample_frame c0 d0" by simp
  from run_to_done [OF sample(1,2) _ this, of 2] obtain got d s chunk d' where
    r: "served shipping_stream_arms (dz_ready default_opts None []) sample_frame got d"
    "dz_stream shipping_stream_arms [] 2 True d = Some (Inr (s, chunk, d'))" "st_done s" by auto
  have "stream_pre shipping_stream_arms None (sample_frame @ [])" using sample(1) by simp
  from stream_done_is_one_shot [OF r this sample(4)] show ?thesis using r(2,3) by blast
qed

text \<open>C8: a call on any input, well formed or not, returns: no slice is out of range, no uninitialised byte is read,
  the loop ends, and what it reports is what it took and gave.\<close>

theorem stream_call_total:
  assumes "served A (dz_ready opts dict prefix) fed got d" "stream_pre A dict (fed @ inp)"
  shows "\<exists>x. dz_stream A inp room fin d = Some x \<and> (case x of Inl e \<Rightarrow> True
    | Inr (s, chunk, d') \<Rightarrow> st_consumed s = length inp \<and> st_produced s = length chunk \<and> length chunk \<le> room)"
proof -
  have pre: "stream_pre A dict (fed @ inp @ [])" using assms(2) by simp
  obtain r T x where x: "dz_stream A inp room fin d = Some x" "answers A d r T got inp [] room fin x"
    using call_answers [OF assms(1) pre, of room fin] by auto
  from x(2) show ?thesis by (cases rule: answers.cases) (use x(1) in auto)
qed

theorem stream_call_total_witness:
  "\<exists>x. dz_stream shipping_stream_arms [1, 2, 3, 4] 10 True (dz_ready default_opts None []) = Some x"
  using stream_call_total [OF served.fresh, where A = shipping_stream_arms and dict = None and inp = "[1, 2, 3, 4]"
      and opts = default_opts and prefix = "[]" and room = 10 and fin = True] shipping_pre [of "[1, 2, 3, 4]"]
  by auto

text \<open>C6: a stream without dictionary and prefix, fed with an input that the one-shot decoder accepts when it verifies
  checksums, never fails on the way, and the bytes drained so far are always a prefix of the one-shot output, the whole of it
  when the stream is done. (With a prefix or dictionary, or when checksums are to be ignored, the stream can refuse what
  the one-shot decoder accepts.) Both decoders run the same copy arms, the read-ahead loops off, within \<open>stream_pre\<close>.\<close>

theorem stream_never_fails:
  assumes "decompress_with_history F (fed @ inp @ ys) (verifying opts) None [] = Some (Inr v)" "vec_is v out"
    and "served A (dz_ready opts None []) fed got d" "fin \<Longrightarrow> ys = []"
    and "stream_pre A None (fed @ inp @ ys)" "fa_seq F = sa_seq A"
  shows "\<exists>s chunk d' zs. dz_stream A inp room fin d = Some (Inr (s, chunk, d')) \<and> out = got @ chunk @ zs \<and> (st_done s \<longrightarrow> zs = [])"
proof -
  have "uncapped A opts None [] (fed @ inp @ ys) = Inr (True, out)"
    using one_shot_accepted [OF assms(5,6,1)] vec_is_unique [OF assms(2)] by auto
  from call_of_accepted [OF assms(3,5,4) this, where room = room and fin = fin] show ?thesis by fastforce
qed

theorem stream_never_fails_witness:
  "\<exists>s chunk d' zs. dz_stream shipping_stream_arms sample_frame 2 False (dz_ready default_opts None []) = Some (Inr (s, chunk, d'))
    \<and> [7, 7, 7, 104, 105] = [] @ chunk @ zs \<and> (zs = [] \<or> \<not> st_done s)"
proof -
  note sample = sample_stream
  obtain v where "decompress_with_history shipping_frame_arms ([] @ sample_frame @ []) (verifying default_opts) None [] = Some (Inr v)"
    "vec_is v [7, 7, 7, 104, 105]" using sample(3) by (auto simp: verifying_default)
  from stream_never_fails [OF this served.fresh [of shipping_stream_arms] _ _ sample(4), where fin = False and room = 2] show ?thesis using sample(1) by auto
qed

text \<open>C4: a stream without dictionary and prefix does not wait forever: when the one-shot decoder that verifies checksums accepts
  what was fed, then once everything is fed a call with room for a byte produces one or is done. Both decoders run
  the same copy arms, the read-ahead loops off, on an input within \<open>stream_pre\<close>.\<close>

theorem stream_gets_on:
  assumes "decompress_with_history F (fed @ inp) (verifying opts) None [] = Some (Inr v)"
    and "served A (dz_ready opts None []) fed got d" "0 < room" "stream_pre A None (fed @ inp)" "fa_seq F = sa_seq A"
  shows "\<exists>s chunk d'. dz_stream A inp room True d = Some (Inr (s, chunk, d')) \<and> (chunk \<noteq> [] \<or> st_done s)"
proof -
  obtain out where u: "uncapped A opts None [] (fed @ inp @ []) = Inr (True, out)" using one_shot_accepted [OF assms(4,5,1)] by auto
  have pre: "stream_pre A None (fed @ inp @ [])" using assms(4) by simp
  show ?thesis using call_of_accepted [OF assms(2) pre _ u, of True room] assms(3) by blast
qed

theorem stream_gets_on_witness:
  "\<exists>s chunk d'. dz_stream shipping_stream_arms sample_frame 2 True (dz_ready default_opts None []) = Some (Inr (s, chunk, d'))
    \<and> (chunk \<noteq> [] \<or> st_done s)"
proof -
  note sample = sample_stream
  obtain v where "decompress_with_history shipping_frame_arms ([] @ sample_frame) (verifying default_opts) None [] = Some (Inr v)"
    using sample(3) by (auto simp: verifying_default)
  from stream_gets_on [OF this served.fresh [of shipping_stream_arms] _ _ sample(4), where room = 2] show ?thesis using sample(1) by auto
qed

text \<open>C7: an error of a stream without dictionary and prefix is final: the one-shot decoder, when it verifies checksums, rejects
  everything within \<open>stream_pre\<close> that starts with what was fed, with the same error or because of a declared size beyond
  the address space; only a stream cut short by the caller reports \<open>UnexpectedEof\<close> of its own. (With a prefix or
  dictionary, or when checksums are to be ignored, an error of the stream need not be one of the one-shot decoder.)\<close>

theorem stream_errors_are_final:
  assumes "served A (dz_ready opts None []) fed got d" "dz_stream A inp room fin d = Some (Inl e)"
    and "stream_pre A None (fed @ inp @ ys)" "fin \<Longrightarrow> ys = []" "fa_seq F = sa_seq A"
  shows "\<exists>e'. decompress_with_history F (fed @ inp @ ys) (verifying opts) None [] = Some (Inl e')
    \<and> (e' = e \<or> e' = ContentSizeTooLarge \<or> fin \<and> e = UnexpectedEof)"
proof -
  obtain r T where i: "answers A d r T got inp ys room fin (Inl e)" "resume A d r T = uncapped A opts None [] (fed @ inp @ ys)" "dz_prefix d = []"
    using call_answers [OF assms(1,3), of room fin] assms(2) by (auto simp: history_of_def)
  note rej = one_shot_rejects [OF assms(3,5), of opts "[]"]
  from i(1) show ?thesis
  proof (rule answers_InlE)
    assume "resume A d r T = Inl e \<or> dz_prefix d \<noteq> [] \<and> e = Corruption"
    then have "uncapped A opts None [] (fed @ inp @ ys) = Inl e" using i(2,3) by simp
    from rej(1) [OF this] show ?thesis by auto
  next
    assume a: "e = UnexpectedEof" "fin" "ys = [] \<Longrightarrow> (\<exists>e. resume A d r T = Inl e) \<or> (\<exists>T'. resume A d r T = Inr (False, T'))"
    then have "(\<exists>e. resume A d r T = Inl e) \<or> (\<exists>T'. resume A d r T = Inr (False, T'))" using assms(4) by blast
    then consider e' where "uncapped A opts None [] (fed @ inp @ ys) = Inl e'" | T' where "uncapped A opts None [] (fed @ inp @ ys) = Inr (False, T')"
      unfolding i(2) by blast
    then show ?thesis using a(1,2) rej by cases (blast, blast)
  qed
qed

theorem stream_errors_are_final_witness:
  "\<exists>e'. decompress_with_history shipping_frame_arms ([] @ [1, 2, 3, 4] @ [9]) (verifying default_opts) None [] = Some (Inl e')
    \<and> (e' = BadMagic \<or> e' = ContentSizeTooLarge)"
proof -
  have e: "dz_stream shipping_stream_arms [1, 2, 3, 4] 1 False (dz_ready default_opts None []) = Some (Inl BadMagic)"
    by (simp add: dz_stream_def dz_loop.simps [of _ _ "_ :: decompressor"] dz_progress_def dz_try_header_def dz_ready_def dz_set_prefix_def dz_with_options_def
        dz_in_avail_def dz_in_bytes_def is_skippable_magic_def MAGIC_def MAGIC_SKIPPABLE_MIN_def Let_def empty_vec_def)
  have "stream_pre shipping_stream_arms None ([] @ [1, 2, 3, 4] @ [9])" by (rule shipping_pre) simp
  from stream_errors_are_final [OF served.fresh e this _ sample_stream(4)] show ?thesis by auto
qed

text \<open>C5: the caller's loop that feeds an input in chunks of any size and drains it into a buffer of any size ends, and
  returns exactly what the one-shot decoder returns.\<close>

theorem stream_decompress_exact:
  assumes "decompress F z = Some (Inr v)" "vec_is v out" "0 < chunk" "0 < obuf" "stream_pre A None z" "fa_seq F = sa_seq A"
  shows "stream_decompress A z chunk obuf = Some (Inr out)"
proof -
  have "decompress_with_history F z (verifying default_opts) None [] = Some (Inr v)"
    using assms(1) by (simp add: decompress_def decompress_with_def verifying_default)
  from one_shot_accepted [OF assms(5,6) this] have "uncapped A default_opts None [] z = Inr (True, out)"
    using vec_is_unique [OF assms(2)] by auto
  from stream_decompress_ok [OF assms(5) this assms(3,4)] show ?thesis .
qed

theorem stream_decompress_exact_witness:
  "stream_decompress shipping_stream_arms sample_frame 3 2 = Some (Inr [7, 7, 7, 104, 105])"
proof -
  note sample = sample_stream
  obtain v where "decompress shipping_frame_arms sample_frame = Some (Inr v)" "vec_is v [7, 7, 7, 104, 105]"
    using sample(3) by (auto simp: decompress_def decompress_with_def)
  from stream_decompress_exact [OF this _ _ sample(1,4), of 3 2] show ?thesis by simp
qed

end
