(* ===== verification/Huff_Encode.thy ===== *)
theory Huff_Encode
  imports Huff_Stream
begin

text \<open>
  The Huffman encoder's table and streams (\<^verbatim>\<open>HuffCTable\<close> of \<^verbatim>\<open>huffman.rs\<close>): the table read back from a
  list of weights (\<open>ctable_from_weights\<close>, as a dictionary loads it), the reference emitter of one stream
  (\<open>encode_stream_scalar_into\<close>, a bit field per literal from the last to the first) and the shipping one
  (\<open>emit_celt\<close>: two containers filled from the top, flushed once per group of \<open>K\<close> literals by an unaligned
  8-byte store into reserved memory).

  The lemmas show that both emitters write the same bytes, that no unchecked access of the fast one is out
  of range, and that a stream decodes to its literals with the decoding table of the same weights.
\<close>

section \<open>The table\<close>

record huff_ctable =
  hc_entry :: "nat list"
  hc_celt :: "u64 list"
  hc_table :: huff_table
  hc_weights :: bytes
  hc_max_nbits :: nat

definition pack_huff_entries :: "nat list \<Rightarrow> nat list \<Rightarrow> nat list" where
  "pack_huff_entries nbits code = map (\<lambda>i. code ! i OR push_bit 16 (nbits ! i)) [0..<256]"

definition finish_ctable :: "nat list \<Rightarrow> huff_table \<Rightarrow> bytes \<Rightarrow> nat list \<Rightarrow> huff_ctable" where
  "finish_ctable entry table weights_wo_last nbits =
     \<lparr> hc_entry = entry,
       hc_celt = map (\<lambda>e. let nb = drop_bit 16 e in
         if nb \<noteq> 0 then push_bit (64 - nb) (word_of_nat (e AND 0xFFFF)) OR word_of_nat nb else 0) entry,
       hc_table = table, hc_weights = weights_wo_last, hc_max_nbits = fold max nbits 0 \<rparr>"

text \<open>The loop over the cells of the decoding table: the first cell of a symbol gives its width and code.\<close>

fun code_walk :: "nat \<Rightarrow> nat \<Rightarrow> nat list \<Rightarrow> nat list \<Rightarrow> nat list \<Rightarrow> (nat list \<times> nat list) option" where
  "code_walk max_bits idx [] out_nbits code = Some (out_nbits, code)"
| "code_walk max_bits idx (e # es) out_nbits code =
     (let sy = cell_sym e; nb = cell_nb e in
      if nb = 0 then code_walk max_bits (idx + 1) es out_nbits code
      else Option.bind (get_unchecked out_nbits sy) (\<lambda>old.
           if old \<noteq> 0 then code_walk max_bits (idx + 1) es out_nbits code
           else Option.bind (put_unchecked out_nbits sy nb) (\<lambda>out_nbits.
                Option.bind (put_unchecked code sy (drop_bit (max_bits - nb) idx mod 2 ^ 16)) (\<lambda>code.
                code_walk max_bits (idx + 1) es out_nbits code))))"

definition ctable_from_weights :: "bytes \<Rightarrow> huff_ctable res option" where
  "ctable_from_weights weights =
     (if 255 < length weights then Some (Inl Corruption)
      else
        let wtmp = weights @ replicate (256 - length weights) 0
        in then_do (table_from_weights wtmp (length weights) False) (\<lambda>table.
           Option.bind (code_walk (ht_max_bits table) 0 (ht_table table) (replicate 256 0) (replicate 256 0)) (\<lambda>(out_nbits, code).
           Some (Inr (finish_ctable (pack_huff_entries out_nbits code) table weights out_nbits)))))"

definition read_tree_tables :: "bytes \<Rightarrow> (huff_table \<times> huff_ctable \<times> nat) res option" where
  "read_tree_tables src =
     then_do (read_weights src (replicate 256 0)) (\<lambda>(wbuf, wlen, used).
     then_do (ctable_from_weights (take wlen wbuf)) (\<lambda>ct.
     then_do (table_from_weights wbuf wlen True) (\<lambda>dt.
     Some (Inr (dt, ct, used)))))"

definition covers_freq :: "huff_ctable \<Rightarrow> nat list \<Rightarrow> bool" where
  "covers_freq ct freq = list_all (\<lambda>s. \<not> (freq ! s \<noteq> 0 \<and> drop_bit 16 (hc_entry ct ! s) = 0)) [0..<256]"

section \<open>The reference emitter\<close>

fun scalar_loop :: "nat list \<Rightarrow> bytes \<Rightarrow> bitcstream \<Rightarrow> bitcstream res" where
  "scalar_loop entry [] bits = Inr bits"
| "scalar_loop entry (b # bs) bits =
     (let e = entry ! unat b; nb = drop_bit 16 e in
      if nb = 0 then Inl Corruption
      else scalar_loop entry bs (bc_add_bits (word_of_nat (e AND 0xFFFF)) nb bits))"

definition encode_stream_scalar_into :: "huff_ctable \<Rightarrow> bytes \<Rightarrow> bytes res" where
  "encode_stream_scalar_into ct src =
     (if src = [] then Inl Corruption
      else rbind (scalar_loop (hc_entry ct) (rev src) bc_new) (\<lambda>bits. Inr (bc_close bits)))"

section \<open>The shipping emitter\<close>

text \<open>The state of \<^verbatim>\<open>emit_celt\<close>: the container and its count (only the low byte of the count is read), the
  reserved memory from the stream's first byte on (\<open>None\<close> where nothing was written), the bytes committed.\<close>

record celt_state =
  cs_c :: u64
  cs_p :: u64
  cs_out :: "u8 option list"
  cs_op :: nat

definition celt_add :: "bool \<Rightarrow> u64 \<Rightarrow> u64 \<times> u64 \<Rightarrow> u64 \<times> u64" where
  "celt_add fast e = (\<lambda>(c, p). (drop_bit (unat (e AND 63)) c OR (if fast then e else e AND NOT 0xFF), p + e))"

definition celt_flush :: "celt_state \<Rightarrow> celt_state option" where
  "celt_flush s =
     (let nbits = cs_p s AND 0xFF;
          v = drop_bit (unat ((64 - nbits) AND 63)) (cs_c s)
      in if length (cs_out s) < cs_op s + 8 then None
         else Some (s\<lparr> cs_out := overwrite (cs_out s) (cs_op s) (map Some (le_bytes 8 (unat v))),
                       cs_op := cs_op s + unat (drop_bit 3 nbits), cs_p := cs_p s AND 7 \<rparr>))"

text \<open>\<open>sym(n - u)\<close> for each \<open>u\<close> in turn, added to a container.\<close>

fun celt_adds :: "u64 list \<Rightarrow> bytes \<Rightarrow> bool \<Rightarrow> nat \<Rightarrow> nat list \<Rightarrow> u64 \<times> u64 \<Rightarrow> (u64 \<times> u64) option" where
  "celt_adds celt src fast n [] cp = Some cp"
| "celt_adds celt src fast n (u # us) cp =
     (if n < u then None
      else Option.bind (get_unchecked src (n - u)) (\<lambda>b.
           Option.bind (get_unchecked celt (unat b)) (\<lambda>e.
           celt_adds celt src fast n us (celt_add fast e cp))))"

text \<open>\<open>K\<close> literals below \<open>n\<close>: all but the last unmasked.\<close>

definition celt_group :: "u64 list \<Rightarrow> bytes \<Rightarrow> nat \<Rightarrow> bool \<Rightarrow> nat \<Rightarrow> u64 \<times> u64 \<Rightarrow> (u64 \<times> u64) option" where
  "celt_group celt src K last_fast n cp =
     Option.bind (celt_adds celt src True n [1..<K] cp) (celt_adds celt src last_fast n [K])"

definition with_cp :: "celt_state \<Rightarrow> u64 \<times> u64 \<Rightarrow> celt_state" where
  "with_cp s cp = s\<lparr> cs_c := fst cp, cs_p := snd cp \<rparr>"

definition celt_round :: "u64 list \<Rightarrow> bytes \<Rightarrow> nat \<Rightarrow> bool \<Rightarrow> nat \<Rightarrow> celt_state \<Rightarrow> celt_state option" where
  "celt_round celt src K last_fast n s =
     Option.bind (celt_group celt src K last_fast n (cs_c s, cs_p s)) (\<lambda>cp. celt_flush (with_cp s cp))"

partial_function (option) celt_pairs :: "u64 list \<Rightarrow> bytes \<Rightarrow> nat \<Rightarrow> bool \<Rightarrow> nat \<Rightarrow> celt_state \<Rightarrow> celt_state option" where
  "celt_pairs celt src K last_fast n s =
     (if n = 0 then Some s
      else Option.bind (celt_round celt src K last_fast n s) (\<lambda>s.
           if n < 2 * K then None
           else Option.bind (celt_group celt src K last_fast (n - K) (0, 0)) (\<lambda>(c1, p1).
                Option.bind (celt_flush (with_cp s (drop_bit (unat (p1 AND 0xFF) mod 64) (cs_c s) OR c1, cs_p s + p1))) (\<lambda>s.
                celt_pairs celt src K last_fast (n - 2 * K) s))))"

declare celt_pairs.simps [code]

definition emit_celt :: "nat \<Rightarrow> bool \<Rightarrow> huff_ctable \<Rightarrow> bytes \<Rightarrow> bytes \<Rightarrow> (nat \<times> bytes) option" where
  "emit_celt K last_fast ct src buf =
     (let mx = max 1 (min MAX_BITS (hc_max_nbits ct));
          s = \<lparr> cs_c = 0, cs_p = 0, cs_out = replicate (drop_bit 3 (length src * mx) + 16) None, cs_op = 0 \<rparr>;
          n = length src; r = n mod K
      in Option.bind (if 0 < r
           then Option.bind (celt_adds (hc_celt ct) src False n [1..<Suc r] (cs_c s, cs_p s)) (\<lambda>cp.
             Option.bind (celt_flush (with_cp s cp)) (\<lambda>s. Some (n - r, s)))
           else Some (n, s)) (\<lambda>(n, s).
         Option.bind (if n mod (2 * K) \<noteq> 0
           then Option.bind (celt_round (hc_celt ct) src K last_fast n s) (\<lambda>s. Some (n - K, s))
           else Some (n, s)) (\<lambda>(n, s).
         Option.bind (celt_pairs (hc_celt ct) src K last_fast n s) (\<lambda>s.
         Option.bind (celt_flush (with_cp s (celt_add False (push_bit 63 1 OR 1) (cs_c s, cs_p s)))) (\<lambda>s.
         let total = cs_op s + (if cs_p s AND 0xFF \<noteq> 0 then 1 else 0)
         in Option.bind (those (take total (cs_out s))) (\<lambda>w. Some (total, buf @ w)))))))"

definition encode_rev_append :: "huff_ctable \<Rightarrow> bytes \<Rightarrow> bytes \<Rightarrow> (nat \<times> bytes) option" where
  "encode_rev_append ct src buf =
     (if hc_max_nbits ct = 11 then emit_celt 5 False ct src buf
      else if hc_max_nbits ct = 10 then emit_celt 5 True ct src buf
      else if hc_max_nbits ct = 9 then emit_celt 6 False ct src buf
      else if hc_max_nbits ct = 8 then emit_celt 7 False ct src buf
      else if hc_max_nbits ct = 7 then emit_celt 8 False ct src buf
      else emit_celt 9 True ct src buf)"

text \<open>\<open>fast\<close> is \<^verbatim>\<open>huff_fast_enabled()\<close>; the BMI2 twin is the same body.\<close>

definition encode_stream_append :: "bool \<Rightarrow> huff_ctable \<Rightarrow> bytes \<Rightarrow> bytes \<Rightarrow> (nat \<times> bytes) res option" where
  "encode_stream_append fast ct src dst =
     (if src = [] then Some (Inl Corruption)
      else if fast then Option.bind (encode_rev_append ct src dst) (\<lambda>r. Some (Inr r))
      else Some (rbind (encode_stream_scalar_into ct src) (\<lambda>s. Inr (length s, dst @ s))))"

definition encode_stream_into :: "bool \<Rightarrow> huff_ctable \<Rightarrow> bytes \<Rightarrow> bytes res option" where
  "encode_stream_into fast ct src =
     (if fast then
        if src = [] then Some (Inl Corruption) else Option.bind (encode_rev_append ct src []) (\<lambda>(_, s). Some (Inr s))
      else Some (encode_stream_scalar_into ct src))"

section \<open>Fields\<close>

text \<open>A stream abstractly: fields \<open>(code, width)\<close> pushed one above the other.\<close>

fun field_val :: "(nat \<times> nat) list \<Rightarrow> nat" where
  "field_val [] = 0"
| "field_val ((c, n) # fs) = c + 2 ^ n * field_val fs"

definition field_len :: "(nat \<times> nat) list \<Rightarrow> nat" where
  "field_len fs = sum_list (map snd fs)"

lemma field_len_simps [simp]:
  "field_len [] = 0" "field_len ((c, n) # fs) = n + field_len fs" "field_len (fs @ gs) = field_len fs + field_len gs"
  by (simp_all add: field_len_def)

lemma field_val_append: "field_val (fs @ gs) = field_val fs + 2 ^ field_len fs * field_val gs"
  by (induction fs rule: field_val.induct) (simp_all add: power_add algebra_simps)

definition fields_fit :: "(nat \<times> nat) list \<Rightarrow> bool" where
  "fields_fit fs \<longleftrightarrow> list_all (\<lambda>(c, n). c < 2 ^ n) fs"

lemma field_val_less: "fields_fit fs \<Longrightarrow> field_val fs < 2 ^ field_len fs"
proof (induction fs rule: field_val.induct)
  case (2 c n fs)
  then have "field_val fs + 1 \<le> 2 ^ field_len fs" by (simp add: fields_fit_def)
  then have "2 ^ n * (field_val fs + 1) \<le> 2 ^ n * 2 ^ field_len fs" by (rule mult_le_mono2)
  then show ?case using 2(2) by (simp add: fields_fit_def power_add distrib_left)
qed simp

text \<open>The bytes of a closed stream, whoever wrote them.\<close>

definition stream_bytes :: "(nat \<times> nat) list \<Rightarrow> bytes" where
  "stream_bytes fs = le_bytes (field_len fs div 8 + 1) (field_val fs + 2 ^ field_len fs)"

lemma le_bytes_eqI: "le_nat xs = v \<Longrightarrow> length xs = n \<Longrightarrow> xs = le_bytes n v"
  using le_bytes_le_nat [of xs] by simp

definition push_all :: "(nat \<times> nat) list \<Rightarrow> bitcstream \<Rightarrow> bitcstream" where
  "push_all fs w = fold (\<lambda>(c, n). bc_add_bits (word_of_nat c) n) fs w"

lemma push_all_ok:
  assumes "fields_fit fs" "list_all (\<lambda>(c, n). n \<le> 56) fs" "bc_ok w"
  shows "bc_ok (push_all fs w) \<and> bc_len (push_all fs w) = bc_len w + field_len fs
    \<and> bc_val (push_all fs w) = bc_val w + 2 ^ bc_len w * field_val fs"
  using assms
proof (induction fs arbitrary: w rule: field_val.induct)
  case (2 c n fs)
  have "n < 64" using 2(3) by simp
  then have "(2 :: nat) ^ n < 2 ^ 64" by (rule power_strict_increasing) simp
  then have "c < 2 ^ 64" using 2(2) by (simp add: fields_fit_def)
  then have c: "unat (word_of_nat c :: u64) mod 2 ^ n = c"
    using 2(2) unfolding unat_of_nat64 by (simp add: fields_fit_def)
  note a = bc_add_bits_ok [OF 2(4), of n "word_of_nat c"]
  note ih = 2(1) [of "bc_add_bits (word_of_nat c) n w"]
  have "push_all ((c, n) # fs) w = push_all fs (bc_add_bits (word_of_nat c) n w)" by (simp add: push_all_def)
  moreover have "n \<le> 56" "fields_fit fs" "list_all (\<lambda>(c, n). n \<le> 56) fs" using 2(2,3) by (simp_all add: fields_fit_def)
  ultimately show ?case using a ih by (simp add: c power_add algebra_simps)
qed (simp add: push_all_def)

lemma close_fields:
  assumes "fields_fit fs" "list_all (\<lambda>(c, n). n \<le> 56) fs"
  shows "bc_close (push_all fs bc_new) = stream_bytes fs"
proof -
  have w: "bc_ok (push_all fs bc_new)" "bc_len (push_all fs bc_new) = field_len fs" "bc_val (push_all fs bc_new) = field_val fs"
    using push_all_ok [OF assms bc_new_ok(1)] by (simp_all add: bc_new_ok)
  show ?thesis using bc_close_val(1,2) [OF w(1)] unfolding stream_bytes_def w(2,3) by (rule le_bytes_eqI)
qed

lemma stream_cursor:
  assumes "fields_fit fs"
  shows "cursor_of (stream_bytes fs) = Inr \<lparr> cu_val = field_val fs, cu_rem = field_len fs, cu_over = False \<rparr>"
proof -
  define L where "L = field_len fs"
  define N where "N = field_val fs + 2 ^ L"
  have v: "field_val fs < 2 ^ L" using field_val_less [OF assms] by (simp add: L_def)
  have N: "N < 256 ^ (L div 8 + 1)"
  proof -
    have "N < 2 ^ (L + 1)" using v by (simp add: N_def)
    also have "\<dots> \<le> 2 ^ (8 * (L div 8 + 1))" by (intro power_increasing) simp_all
    finally show ?thesis unfolding pow_256 .
  qed
  have b: "stream_bytes fs = le_bytes (L div 8 + 1) N" by (simp add: stream_bytes_def L_def N_def)
  have le: "le_nat (stream_bytes fs) = N" using N by (simp only: b le_nat_le_bytes_id)
  have ne: "stream_bytes fs \<noteq> []" by (simp add: b)
  have h: "highbit N = L" using v by (intro highbit_eqI) (simp_all add: N_def)
  have "stream_bytes fs ! (length (stream_bytes fs) - 1) \<noteq> 0"
  proof
    assume "stream_bytes fs ! (length (stream_bytes fs) - 1) = 0"
    then have "le_nat (stream_bytes fs) < 2 ^ (8 * (length (stream_bytes fs) - 1))"
      using le_nat_last [OF ne] le_nat_less_pow2 [of "butlast (stream_bytes fs)"] by simp
    also have "\<dots> \<le> 2 ^ L" by (intro power_increasing) (simp_all add: b)
    finally show False using le by (simp add: N_def)
  qed
  then show ?thesis using ne by (simp add: cursor_of_def le h) (simp add: N_def L_def)
qed

section \<open>The fields of a list of literals\<close>

definition code_of :: "huff_ctable \<Rightarrow> nat \<Rightarrow> nat" where "code_of ct s = hc_entry ct ! s AND 0xFFFF"
definition width_of :: "huff_ctable \<Rightarrow> nat \<Rightarrow> nat" where "width_of ct s = drop_bit 16 (hc_entry ct ! s)"

definition lit_field :: "huff_ctable \<Rightarrow> u8 \<Rightarrow> nat \<times> nat" where
  "lit_field ct b = (code_of ct (unat b), width_of ct (unat b))"

text \<open>What the table build establishes.\<close>

definition ctable_ok :: "huff_ctable \<Rightarrow> bool" where
  "ctable_ok ct \<longleftrightarrow> length (hc_entry ct) = 256 \<and> length (hc_celt ct) = 256 \<and> hc_max_nbits ct \<le> MAX_BITS
     \<and> (\<forall>s < 256. width_of ct s \<le> hc_max_nbits ct \<and> code_of ct s < 2 ^ width_of ct s
          \<and> (width_of ct s \<noteq> 0 \<longrightarrow> hc_celt ct ! s = push_bit (64 - width_of ct s) (word_of_nat (code_of ct s)) OR word_of_nat (width_of ct s)))"

definition covered :: "huff_ctable \<Rightarrow> bytes \<Rightarrow> bool" where
  "covered ct src \<longleftrightarrow> list_all (\<lambda>b. width_of ct (unat b) \<noteq> 0) src"

lemma ctable_okD:
  assumes "ctable_ok ct" "s < 256"
  shows "width_of ct s \<le> hc_max_nbits ct" "width_of ct s \<le> 11" "code_of ct s < 2 ^ width_of ct s"
    "width_of ct s \<noteq> 0 \<Longrightarrow> hc_celt ct ! s = push_bit (64 - width_of ct s) (word_of_nat (code_of ct s)) OR word_of_nat (width_of ct s)"
    "s < length (hc_celt ct)"
  using assms by (auto simp: ctable_ok_def MAX_BITS_def intro: order_trans)

lemma lit_fields_ok:
  assumes "ctable_ok ct"
  shows "fields_fit (map (lit_field ct) bs)" "list_all (\<lambda>(c, n). n \<le> 11) (map (lit_field ct) bs)"
  using ctable_okD(2,3) [OF assms] by (auto simp: fields_fit_def list_all_iff lit_field_def)

lemma scalar_loop_eq:
  "scalar_loop (hc_entry ct) bs w = (if covered ct bs then Inr (push_all (map (lit_field ct) bs) w) else Inl Corruption)"
  by (induction bs arbitrary: w)
    (auto simp: covered_def push_all_def Let_def lit_field_def code_of_def width_of_def)

lemma encode_scalar_eq:
  assumes "ctable_ok ct" "src \<noteq> []"
  shows "encode_stream_scalar_into ct src =
    (if covered ct src then Inr (stream_bytes (map (lit_field ct) (rev src))) else Inl Corruption)"
proof -
  have "list_all (\<lambda>(c, n). n \<le> 56) (map (lit_field ct) (rev src))"
    using lit_fields_ok(2) [OF assms(1), of "rev src"] by (auto simp: list_all_iff)
  with close_fields [OF lit_fields_ok(1) [OF assms(1)]] show ?thesis
    using assms(2) by (simp add: encode_stream_scalar_into_def scalar_loop_eq covered_def)
qed

section \<open>The container filled from the top\<close>

text \<open>\<open>cont c p V l\<close>: the top \<open>p\<close> bits of the container are \<open>V\<close>, the newest field uppermost; below them is \<open>l\<close>,
  what older fields and unmasked widths have left.\<close>

definition cont :: "u64 \<Rightarrow> nat \<Rightarrow> nat \<Rightarrow> nat \<Rightarrow> bool" where
  "cont c p V l \<longleftrightarrow> p \<le> 64 \<and> V < 2 ^ p \<and> l < 2 ^ (64 - p) \<and> unat c = l + 2 ^ (64 - p) * V"

lemma or_less_pow2: "a < 2 ^ k \<Longrightarrow> b < 2 ^ k \<Longrightarrow> a OR b < (2 :: nat) ^ k"
  by (metis take_bit_nat_eq_self take_bit_nat_less_exp take_bit_or)

text \<open>Fields side by side: two numbers of \<open>k\<close> low bits OR-ed, their upper parts stacked.\<close>

lemma or_stacked:
  fixes a b u v :: nat
  assumes "a < 2 ^ k" "b < 2 ^ k" "u < 2 ^ p"
  shows "(a + 2 ^ k * u) OR (b + 2 ^ (k + p) * v) = (a OR b) + 2 ^ k * (u + 2 ^ p * v)"
proof -
  have "(a + 2 ^ k * u) OR (b + 2 ^ (k + p) * v) = (a OR push_bit k u) OR (b OR push_bit k (push_bit p v))"
    using or_push_bit_add [OF assms(1), of u] or_push_bit_add [OF assms(2), of "push_bit p v"]
    by (simp add: push_bit_eq_mult power_add mult.commute mult.left_commute)
  also have "\<dots> = (a OR b) OR push_bit k (u OR push_bit p v)"
    by (simp add: push_bit_or or.assoc or.left_commute or.commute)
  also have "\<dots> = (a OR b) + 2 ^ k * (u OR push_bit p v)" by (rule or_push_bit_add [OF or_less_pow2 [OF assms(1,2)]])
  also have "u OR push_bit p v = u + 2 ^ p * v" by (rule or_push_bit_add [OF assms(3)])
  finally show ?thesis .
qed

text \<open>An element of \<^verbatim>\<open>celt\<close>.\<close>

definition elt :: "nat \<Rightarrow> nat \<Rightarrow> u64" where
  "elt code nb = push_bit (64 - nb) (word_of_nat code) OR word_of_nat nb"

lemma elt_parts:
  assumes "1 \<le> nb" "nb \<le> 11" "code < 2 ^ nb"
  shows "unat (elt code nb) = nb + 2 ^ (64 - nb) * code" "unat (elt code nb AND 63) = nb"
    "unat (elt code nb) mod 256 = nb" "unat (elt code nb AND NOT 0xFF) = 2 ^ (64 - nb) * code"
proof -
  have p64: "(2 :: nat) ^ (64 - nb) * 2 ^ nb = 2 ^ 64" using assms(2) by (simp flip: power_add)
  have "2 ^ (64 - nb) * code < 2 ^ (64 - nb) * 2 ^ nb" using assms(3) by simp
  then have small: "2 ^ (64 - nb) * code < 2 ^ 64" by (simp only: p64)
  have "2 ^ 53 \<le> (2 :: nat) ^ (64 - nb)" using assms(2) by (intro power_increasing) simp_all
  then have nb: "nb < 2 ^ (64 - nb)" using assms(2) by simp
  have cw: "unat (word_of_nat code :: u64) = code"
  proof -
    have "code < 2 ^ 11" using assms(2,3) by (meson less_le_trans one_le_numeral power_increasing)
    then show ?thesis by (simp add: unat_of_nat64)
  qed
  have push: "unat (push_bit (64 - nb) (word_of_nat code) :: u64) = 2 ^ (64 - nb) * code"
    using small by (simp only: unat_push_bit64 cw mult.commute mod_less)
  have nw: "unat (word_of_nat nb :: u64) = nb" using assms(2) by (simp add: unat_of_nat64)
  show u: "unat (elt code nb) = nb + 2 ^ (64 - nb) * code"
    unfolding elt_def unsigned_or_eq push nw or.commute [of _ nb] push_bit_eq_mult [symmetric] mult.commute [of _ code]
    using or_push_bit_add [OF nb, of code] by (simp add: push_bit_eq_mult mult.commute)
  have d: "(2 :: nat) ^ (64 - nb) = 256 * 2 ^ (56 - nb)"
    using assms(2) power_add [of "2 :: nat" 8 "56 - nb"] by simp
  show "unat (elt code nb) mod 256 = nb" unfolding u d mult.assoc using assms(2) by simp
  have "(2 :: nat) ^ (64 - nb) = 64 * 2 ^ (58 - nb)"
    using assms(2) power_add [of "2 :: nat" 6 "58 - nb"] by simp
  then have "unat (elt code nb) mod 2 ^ 6 = nb" unfolding u using assms(2) by (simp add: mult.assoc)
  then show "unat (elt code nb AND 63) = nb"
    using unat_and_mask64 [of 6 "elt code nb"] by simp
  have "elt code nb AND NOT 0xFF = push_bit (64 - nb) (word_of_nat code)"
  proof (rule bit_word_eqI)
    fix n assume n: "n < LENGTH(64)"
    have "take_bit 8 (word_of_nat nb) = (word_of_nat nb :: u64)"
      using assms(2) by (simp add: take_bit_eq_mod word_unat_eq_iff nw unsigned_take_bit_eq unat_mod)
    then have hi: "8 \<le> n \<Longrightarrow> \<not> bit (word_of_nat nb :: u64) n" by (metis bit_take_bit_iff not_le)
    have "bit (0xFF :: u64) n \<longleftrightarrow> n < 8"
      using mask_eq_exp_minus_1 [of 8, where 'a = u64] bit_mask_iff [of 8 n, where 'a = u64] n by simp
    then have m: "bit (NOT 0xFF :: u64) n \<longleftrightarrow> 8 \<le> n" using n by (simp only: bit_not_iff) (simp add: not_less)
    show "bit (elt code nb AND NOT 0xFF) n = bit (push_bit (64 - nb) (word_of_nat code) :: u64) n"
      using hi n assms(2) by (simp only: elt_def bit_and_iff bit_or_iff bit_push_bit_iff m) auto
  qed
  then show "unat (elt code nb AND NOT 0xFF) = 2 ^ (64 - nb) * code" by (simp only: push)
qed

lemma cont_shift:
  assumes "cont c p V l" "p + n \<le> 64"
  shows "unat (drop_bit n c) = l div 2 ^ n + 2 ^ (64 - (p + n)) * V" "l div 2 ^ n < 2 ^ (64 - (p + n))"
proof -
  have d: "(2 :: nat) ^ (64 - p) = 2 ^ (64 - (p + n)) * 2 ^ n" using assms(2) by (simp flip: power_add)
  have "unat (drop_bit n c) = (l + 2 ^ n * (2 ^ (64 - (p + n)) * V)) div 2 ^ n"
    using assms(1) unfolding cont_def unat_drop_bit64 d by (simp only: ac_simps)
  then show "unat (drop_bit n c) = l div 2 ^ n + 2 ^ (64 - (p + n)) * V" by simp
  show "l div 2 ^ n < 2 ^ (64 - (p + n))"
    using assms(1) unfolding cont_def d by (simp add: less_mult_imp_div_less)
qed

text \<open>A container laid over another that was shifted out of its way.\<close>

lemma cont_over:
  assumes "cont c p V l" "unat e = m + 2 ^ (64 - n) * W" "W < 2 ^ n" "p + n \<le> 64" "m < 2 ^ (64 - (p + n))"
  shows "cont (drop_bit n c OR e) (p + n) (V + 2 ^ p * W) ((l div 2 ^ n) OR m)"
proof -
  have k: "(2 :: nat) ^ (64 - n) = 2 ^ (64 - (p + n) + p)" using assms(4) by simp
  have V: "V < 2 ^ p" using assms(1) by (simp add: cont_def)
  have "V + 2 ^ p * W < 2 ^ (p + n)"
  proof -
    have "2 ^ p * (W + 1) \<le> 2 ^ p * 2 ^ n" using assms(3) by (intro mult_le_mono2) simp
    then show ?thesis using V by (simp add: power_add)
  qed
  moreover have "unat (drop_bit n c OR e) = ((l div 2 ^ n) OR m) + 2 ^ (64 - (p + n)) * (V + 2 ^ p * W)"
    unfolding unsigned_or_eq cont_shift(1) [OF assms(1,4)] assms(2) k
    by (rule or_stacked [OF cont_shift(2) [OF assms(1,4)] assms(5) V])
  ultimately show ?thesis
    using or_less_pow2 [OF cont_shift(2) [OF assms(1,4)] assms(5)] assms(4) by (simp add: cont_def)
qed

lemma celt_add_ok:
  assumes "cont c p V l" "unat pw mod 256 = p" "1 \<le> nb" "nb \<le> 11" "code < 2 ^ nb" "p + nb \<le> 64"
    "fast \<longrightarrow> nb < 2 ^ (64 - (p + nb))"
  shows "\<exists>c' pw'. celt_add fast (elt code nb) (c, pw) = (c', pw') \<and> unat pw' mod 256 = p + nb
    \<and> cont c' (p + nb) (V + 2 ^ p * code) ((l div 2 ^ nb) OR (if fast then nb else 0))"
proof -
  note e = elt_parts [OF assms(3-5)]
  define x where "x = (if fast then elt code nb else elt code nb AND NOT 0xFF)"
  have x: "unat x = (if fast then nb else 0) + 2 ^ (64 - nb) * code" using e(1,4) by (auto simp: x_def)
  have "(if fast then nb else 0) < 2 ^ (64 - (p + nb))" using assms(7) by simp
  from cont_over [OF assms(1) x assms(5,6) this]
  have c: "cont (drop_bit nb c OR x) (p + nb) (V + 2 ^ p * code) ((l div 2 ^ nb) OR (if fast then nb else 0))" .
  have "unat (pw + elt code nb) mod 256 = (unat pw + unat (elt code nb)) mod 2 ^ 64 mod 256"
    by (simp add: unat_word_ariths)
  also have "\<dots> = (unat pw + unat (elt code nb)) mod 256" by (rule mod_mod_cancel) simp
  also have "\<dots> = (unat pw mod 256 + unat (elt code nb) mod 256) mod 256" by (rule mod_add_eq [symmetric])
  finally have "unat (pw + elt code nb) mod 256 = p + nb" using assms(2,6) e(3) by simp
  moreover have "celt_add fast (elt code nb) (c, pw) = (drop_bit nb c OR x, pw + elt code nb)"
    by (simp only: celt_add_def prod.case e(2) x_def)
  ultimately show ?thesis using c by blast
qed

text \<open>The noise below the fields of a container that started at zero.\<close>

lemma noise_step: "l < 2 ^ w \<Longrightarrow> nb < 2 ^ w \<Longrightarrow> (l div 2 ^ nb) OR (if fast then nb else 0) < (2 :: nat) ^ w"
  by (rule or_less_pow2) (auto intro: le_less_trans [OF div_le_dividend])

section \<open>Groups of literals\<close>

text \<open>The fields of the literals \<open>u\<close> places below \<open>n\<close>, in the order they are added.\<close>

definition below :: "huff_ctable \<Rightarrow> bytes \<Rightarrow> nat \<Rightarrow> nat list \<Rightarrow> (nat \<times> nat) list" where
  "below ct src n us = map (\<lambda>u. lit_field ct (src ! (n - u))) us"

lemma below_simps [simp]:
  "below ct src n [] = []" "below ct src n (u # us) = lit_field ct (src ! (n - u)) # below ct src n us"
  "below ct src n (us @ vs) = below ct src n us @ below ct src n vs"
  by (simp_all add: below_def)

lemma below_len: "ctable_ok ct \<Longrightarrow> field_len (below ct src n us) \<le> length us * hc_max_nbits ct"
  by (induction us) (auto simp: lit_field_def ctable_okD intro: add_mono)

lemma celt_adds_ok:
  assumes "ctable_ok ct" "covered ct src" "n \<le> length src" "list_all (\<lambda>u. 1 \<le> u \<and> u \<le> n) us"
    "cont c p V l" "unat pw mod 256 = p" "p + length us * hc_max_nbits ct \<le> 64"
    "fast \<longrightarrow> w + p + length us * hc_max_nbits ct \<le> 64" "hc_max_nbits ct < 2 ^ w"
  shows "\<exists>c' pw' l'. celt_adds (hc_celt ct) src fast n us (c, pw) = Some (c', pw')
    \<and> unat pw' mod 256 = p + field_len (below ct src n us)
    \<and> cont c' (p + field_len (below ct src n us)) (V + 2 ^ p * field_val (below ct src n us)) l'
    \<and> (l < 2 ^ w \<longrightarrow> l' < 2 ^ w)"
  using assms(4-8)
proof (induction us arbitrary: c pw p V l)
  case (Cons u us)
  define b where "b = src ! (n - u)"
  have i: "n - u < length src" "u \<le> n" using Cons.prems(1) assms(3) by auto
  then have "b \<in> set src" by (simp add: b_def)
  then have nz: "width_of ct (unat b) \<noteq> 0" using assms(2) by (auto simp: covered_def list_all_iff)
  note k = ctable_okD [OF assms(1), of "unat b", simplified]
  define nb where "nb = width_of ct (unat b)"
  define code where "code = code_of ct (unat b)"
  have nb: "1 \<le> nb" "nb \<le> 11" "code < 2 ^ nb" "nb \<le> hc_max_nbits ct" using k nz by (auto simp: nb_def code_def)
  have e: "hc_celt ct ! unat b = elt code nb" using k(4) nz by (simp add: elt_def nb_def code_def)
  have room: "p + nb \<le> 64" "p + nb + length us * hc_max_nbits ct \<le> 64" using Cons.prems(4) nb(4) by auto
  have noise: "nb < 2 ^ (64 - (p + nb))" if "fast"
  proof -
    have "w \<le> 64 - (p + nb)" using Cons.prems(5) that nb(4) by auto
    then have "(2 :: nat) ^ w \<le> 2 ^ (64 - (p + nb))" by (rule power_increasing) simp
    then show ?thesis using nb(4) assms(9) by linarith
  qed
  obtain c1 pw1 where a: "celt_add fast (elt code nb) (c, pw) = (c1, pw1)" "unat pw1 mod 256 = p + nb"
    "cont c1 (p + nb) (V + 2 ^ p * code) ((l div 2 ^ nb) OR (if fast then nb else 0))"
    using celt_add_ok [OF Cons.prems(2,3) nb(1-3) room(1)] noise by blast
  have us: "list_all (\<lambda>u. 1 \<le> u \<and> u \<le> n) us" using Cons.prems(1) by simp
  have "fast \<longrightarrow> w + (p + nb) + length us * hc_max_nbits ct \<le> 64" using Cons.prems(5) nb(4) by auto
  from Cons.IH [OF us a(3,2) room(2) this]
  obtain c' pw' l' where r: "celt_adds (hc_celt ct) src fast n us (c1, pw1) = Some (c', pw')"
    "unat pw' mod 256 = p + nb + field_len (below ct src n us)"
    "cont c' (p + nb + field_len (below ct src n us)) (V + 2 ^ p * code + 2 ^ (p + nb) * field_val (below ct src n us)) l'"
    "(l div 2 ^ nb) OR (if fast then nb else 0) < 2 ^ w \<longrightarrow> l' < 2 ^ w" by blast
  have "nb < 2 ^ w" using nb(4) assms(9) by simp
  then have lw: "l < 2 ^ w \<longrightarrow> l' < 2 ^ w" using r(4) noise_step [of l w nb fast] by blast
  have f: "below ct src n (u # us) = (code, nb) # below ct src n us" by (simp add: lit_field_def b_def code_def nb_def)
  have step: "celt_adds (hc_celt ct) src fast n (u # us) (c, pw) = Some (c', pw')"
    using i k(5) a(1) r(1) e by (simp add: not_less b_def)
  show ?case
    using step lw r(2,3) unfolding f
    by (intro exI [of _ c'] exI [of _ pw'] exI [of _ l']) (simp add: power_add algebra_simps)
qed auto

text \<open>When a group of \<open>K\<close> codes of at most \<open>m\<close> bits, whose widths have \<open>w\<close> bits, fits on 7 leftover bits.\<close>

definition group_fits :: "nat \<Rightarrow> bool \<Rightarrow> nat \<Rightarrow> nat \<Rightarrow> bool" where
  "group_fits K last_fast m w \<longleftrightarrow> 1 \<le> K \<and> m < 2 ^ w \<and> 7 + K * m \<le> 64 \<and> w + 7 + (K - 1) * m \<le> 64
     \<and> (last_fast \<longrightarrow> w + 7 + K * m \<le> 64)"

lemma group_steps:
  assumes "ctable_ok ct" "covered ct src" "n \<le> length src" "K \<le> n" "group_fits K last_fast (hc_max_nbits ct) w"
    "cont c p V l" "unat pw mod 256 = p" "p \<le> 7"
  shows "\<exists>c' pw' l'. celt_group (hc_celt ct) src K last_fast n (c, pw) = Some (c', pw')
    \<and> unat pw' mod 256 = p + field_len (below ct src n [1..<Suc K])
    \<and> cont c' (p + field_len (below ct src n [1..<Suc K])) (V + 2 ^ p * field_val (below ct src n [1..<Suc K])) l'
    \<and> (p = 0 \<longrightarrow> l < 2 ^ w \<longrightarrow> l' < 2 ^ (57 - field_len (below ct src n [1..<Suc K])))"
proof -
  let ?m = "hc_max_nbits ct" and ?A = "below ct src n [1..<K]" and ?f = "lit_field ct (src ! (n - K))"
  have g: "1 \<le> K" "?m < 2 ^ w" "7 + K * ?m \<le> 64" "w + 7 + (K - 1) * ?m \<le> 64" "last_fast \<Longrightarrow> w + 7 + K * ?m \<le> 64"
    using assms(5) by (auto simp: group_fits_def)
  have split: "[1..<Suc K] = [1..<K] @ [K]" using g(1) by simp
  have Km: "K * ?m = (K - 1) * ?m + ?m" using g(1) by (cases K) simp_all
  have la: "field_len ?A \<le> (K - 1) * ?m" using below_len [OF assms(1), of src n "[1..<K]"] by simp
  have nb: "snd ?f \<le> ?m" by (simp add: lit_field_def ctable_okD [OF assms(1)])
  have "list_all (\<lambda>u. 1 \<le> u \<and> u \<le> n) [1..<K]" using assms(4) by (auto simp: list_all_iff)
  moreover have "p + length [1..<K] * ?m \<le> 64" using g(3) Km assms(8) by simp
  moreover have "True \<longrightarrow> w + p + length [1..<K] * ?m \<le> 64" using g(4) assms(8) by simp
  ultimately obtain c1 pw1 l1 where 1: "celt_adds (hc_celt ct) src True n [1..<K] (c, pw) = Some (c1, pw1)"
    "unat pw1 mod 256 = p + field_len ?A" "cont c1 (p + field_len ?A) (V + 2 ^ p * field_val ?A) l1" "l < 2 ^ w \<longrightarrow> l1 < 2 ^ w"
    using celt_adds_ok [OF assms(1-3) _ assms(6,7) _ _ g(2), of "[1..<K]" True] by blast
  define q where "q = p + field_len ?A"
  have q: "q \<le> 7 + (K - 1) * ?m" using la assms(8) by (simp add: q_def)
  define b where "b = src ! (n - K)"
  have i: "n - K < length src" using assms(3,4) g(1) by simp
  then have "b \<in> set src" by (simp add: b_def)
  then have nz: "width_of ct (unat b) \<noteq> 0" using assms(2) by (auto simp: covered_def list_all_iff)
  note k = ctable_okD [OF assms(1), of "unat b", simplified]
  define nb where "nb = width_of ct (unat b)"
  define code where "code = code_of ct (unat b)"
  have nb: "1 \<le> nb" "nb \<le> 11" "code < 2 ^ nb" "nb \<le> ?m" using k nz by (auto simp: nb_def code_def)
  have e: "hc_celt ct ! unat b = elt code nb" using k(4) nz by (simp add: elt_def nb_def code_def)
  have f: "below ct src n [1..<Suc K] = ?A @ [(code, nb)]" unfolding split by (simp add: lit_field_def b_def code_def nb_def)
  have room: "q + nb \<le> 64" using q nb(4) g(3) Km by linarith
  have "last_fast \<longrightarrow> nb < 2 ^ (64 - (q + nb))"
  proof
    assume lf: last_fast
    have "w \<le> 64 - (q + nb)" using g(5) [OF lf] q nb(4) Km by linarith
    then have "(2 :: nat) ^ w \<le> 2 ^ (64 - (q + nb))" by (rule power_increasing) simp
    then show "nb < 2 ^ (64 - (q + nb))" using nb(4) g(2) by linarith
  qed
  then obtain c' pw' where 2: "celt_add last_fast (elt code nb) (c1, pw1) = (c', pw')" "unat pw' mod 256 = q + nb"
    "cont c' (q + nb) (V + 2 ^ p * field_val ?A + 2 ^ q * code) ((l1 div 2 ^ nb) OR (if last_fast then nb else 0))"
    using celt_add_ok [OF 1(3,2) [folded q_def] nb(1-3) room] by blast
  have run: "celt_group (hc_celt ct) src K last_fast n (c, pw) = Some (c', pw')"
    using 1(1) 2(1) i assms(4) k(5) e by (simp add: celt_group_def not_less b_def)
  have len: "field_len (below ct src n [1..<Suc K]) = field_len ?A + nb" by (simp only: f) simp
  have val: "V + 2 ^ p * field_val (below ct src n [1..<Suc K]) = V + 2 ^ p * field_val ?A + 2 ^ q * code"
    by (simp only: f) (simp add: field_val_append q_def power_add algebra_simps)
  have noise: "(l1 div 2 ^ nb) OR (if last_fast then nb else 0) < 2 ^ (57 - (field_len ?A + nb))" if "p = 0" "l < 2 ^ w"
  proof -
    have l1: "l1 < 2 ^ w" using 1(4) that by blast
    show ?thesis
    proof (cases last_fast)
      case True
      have "w \<le> 57 - (field_len ?A + nb)" using g(5) [OF True] la nb(4) Km by linarith
      then have "(2 :: nat) ^ w \<le> 2 ^ (57 - (field_len ?A + nb))" by (rule power_increasing) simp
      then show ?thesis using noise_step [OF l1, of nb last_fast] nb(4) g(2) by linarith
    next
      case False
      have "w \<le> 57 - field_len ?A" using g(4) la by linarith
      then have "(2 :: nat) ^ w \<le> 2 ^ (57 - field_len ?A)" by (rule power_increasing) simp
      also have "57 - field_len ?A = 57 - (field_len ?A + nb) + nb" using la nb(4) g(3) Km by linarith
      finally have "l1 < 2 ^ (57 - (field_len ?A + nb)) * 2 ^ nb" using l1 by (simp add: power_add)
      then show ?thesis using False by (simp add: less_mult_imp_div_less)
    qed
  qed
  show ?thesis
    unfolding val len using run 2(2,3) noise unfolding q_def
    by (intro exI [of _ c'] exI [of _ pw'] exI) (auto simp: add.assoc)
qed

section \<open>Flushing\<close>

text \<open>The emitter holds the fields \<open>F\<close>: whole bytes \<open>W\<close> committed, \<open>p\<close> bits \<open>V\<close> in the container.\<close>

definition celt_at :: "(nat \<times> nat) list \<Rightarrow> nat \<Rightarrow> celt_state \<Rightarrow> bytes \<Rightarrow> nat \<Rightarrow> nat \<Rightarrow> bool" where
  "celt_at F cap s W p V \<longleftrightarrow> length (cs_out s) = cap \<and> unat (cs_p s) mod 256 = p \<and> length W = cs_op s
     \<and> take (cs_op s) (cs_out s) = map Some W \<and> (\<exists>l. cont (cs_c s) p V l)
     \<and> field_len F = 8 * length W + p \<and> field_val F = le_nat W + 2 ^ (8 * length W) * V"

definition holds :: "(nat \<times> nat) list \<Rightarrow> nat \<Rightarrow> celt_state \<Rightarrow> bool" where
  "holds F cap s \<longleftrightarrow> (\<exists>W p V. celt_at F cap s W p V \<and> p < 8)"

lemma holds_parts:
  assumes "holds F cap s"
  shows "\<exists>W p V l. celt_at F cap s W p V \<and> p \<le> 7 \<and> cont (cs_c s) p V l \<and> unat (cs_p s) mod 256 = p"
proof -
  obtain W p V where a: "celt_at F cap s W p V" "p < 8" using assms by (auto simp: holds_def)
  then obtain l where "cont (cs_c s) p V l" "unat (cs_p s) mod 256 = p" by (auto simp: celt_at_def)
  with a have "celt_at F cap s W p V \<and> p \<le> 7 \<and> cont (cs_c s) p V l \<and> unat (cs_p s) mod 256 = p" by simp
  then show ?thesis by blast
qed

lemma take_overwrite_at: "n + length xs \<le> length d \<Longrightarrow> k \<le> length xs \<Longrightarrow> take (n + k) (overwrite d n xs) = take n d @ take k xs"
  by (simp add: overwrite_def)

lemma flush_at:
  assumes "celt_at F cap s W p V" "length W + 8 \<le> cap"
  shows "\<exists>s'. celt_flush s = Some s' \<and> cs_op s' = length W + p div 8 \<and> unat (cs_p s' AND 0xFF) = p mod 8
    \<and> celt_at F cap s' (W @ take (p div 8) (le_bytes 8 V)) (p mod 8) (V div 2 ^ (8 * (p div 8)))
    \<and> (0 < p \<longrightarrow> (\<forall>k \<le> 8. take (length W + k) (cs_out s') = map Some (W @ take k (le_bytes 8 V))))"
proof -
  obtain l where a: "length (cs_out s) = cap" "unat (cs_p s) mod 256 = p" "length W = cs_op s"
     "take (cs_op s) (cs_out s) = map Some W" "cont (cs_c s) p V l"
     "field_len F = 8 * length W + p" "field_val F = le_nat W + 2 ^ (8 * length W) * V"
    using assms(1) by (auto simp: celt_at_def)
  have p: "p \<le> 64" "V < 2 ^ p" "l < 2 ^ (64 - p)" "unat (cs_c s) = l + 2 ^ (64 - p) * V" using a(5) by (auto simp: cont_def)
  define q where "q = p div 8"
  have q: "q \<le> 8" "p = 8 * q + p mod 8" using p(1) by (simp_all add: q_def)
  have ff: "unat (cs_p s AND 0xFF) = p"
    using unat_and_mask64 [of 8 "cs_p s"] a(2) by simp
  then have nb: "cs_p s AND 0xFF = word_of_nat p" using p(1) by (simp add: word_unat_eq_iff unat_of_nat64)
  define v where "v = drop_bit (unat ((64 - word_of_nat p :: u64) AND 63)) (cs_c s)"
  have sh: "unat ((64 - word_of_nat p :: u64) AND 63) = (64 - p) mod 64"
  proof -
    have "(64 :: u64) - word_of_nat p = word_of_nat (64 - p)" using p(1) by (simp add: of_nat_diff)
    then have "unat ((64 :: u64) - word_of_nat p) = 64 - p" by (simp add: unat_of_nat64)
    then show ?thesis using unat_and_mask64 [of 6 "64 - word_of_nat p"] by simp
  qed
  have v: "unat v = V" if "0 < p"
  proof -
    have "unat v = (l + 2 ^ (64 - p) * V) div 2 ^ (64 - p)"
      using that p(1,4) sh by (simp add: v_def unat_drop_bit64)
    then show ?thesis using p(3) by simp
  qed
  define s' where "s' = s\<lparr> cs_out := overwrite (cs_out s) (cs_op s) (map Some (le_bytes 8 (unat v))), cs_op := cs_op s + q, cs_p := cs_p s AND 7 \<rparr>"
  have d3: "unat (drop_bit 3 (word_of_nat p :: u64)) = q" using p(1) by (simp add: unat_drop_bit64 unat_of_nat64 q_def)
  have run: "celt_flush s = Some s'"
    unfolding celt_flush_def nb Let_def v_def [symmetric] d3 using a(1,3) assms(2) by (simp add: s'_def)
  have and7: "unat (cs_p s AND 7) = p mod 8"
  proof -
    have "unat (cs_p s) mod 8 = unat (cs_p s) mod 256 mod 8" by (simp add: mod_mod_cancel)
    then show ?thesis using unat_and_mask64 [of 3 "cs_p s"] a(2) by simp
  qed
  then have m8: "unat (cs_p s') mod 256 = p mod 8" by (simp add: s'_def)
  have tk: "take (length W + k) (cs_out s') = map Some (W @ take k (le_bytes 8 (unat v)))" if "k \<le> 8" for k
    using take_overwrite_at [of "cs_op s" "map Some (le_bytes 8 (unat v))" "cs_out s" k] a(1,3,4) assms(2) that
    by (simp add: s'_def take_map)
  have tq: "take q (le_bytes 8 (unat v)) = take q (le_bytes 8 V)"
    using v by (cases "p = 0") (simp_all add: q_def)
  have Vq: "V div 2 ^ (8 * q) < 2 ^ (p mod 8)"
    using p(2) q(2) by (metis less_mult_imp_div_less mult.commute power_add)
  have "unat (cs_c s) = l + 2 ^ (64 - p) * (V mod 2 ^ (8 * q)) + 2 ^ (64 - p mod 8) * (V div 2 ^ (8 * q))"
  proof -
    have e: "(64 - p) + 8 * q = 64 - p mod 8" using p(1) q(2) by linarith
    have "2 ^ (64 - p) * V = 2 ^ (64 - p) * (V mod 2 ^ (8 * q) + 2 ^ (8 * q) * (V div 2 ^ (8 * q)))" by simp
    also have "\<dots> = 2 ^ (64 - p) * (V mod 2 ^ (8 * q)) + 2 ^ (64 - p mod 8) * (V div 2 ^ (8 * q))"
      unfolding distrib_left e [symmetric] power_add by (simp only: mult.assoc)
    finally show ?thesis using p(4) by simp
  qed
  moreover have "l + 2 ^ (64 - p) * (V mod 2 ^ (8 * q)) < 2 ^ (64 - p mod 8)"
  proof -
    have e: "(64 - p) + 8 * q = 64 - p mod 8" using p(1) q(2) by linarith
    have "2 ^ (64 - p) * (V mod 2 ^ (8 * q) + 1) \<le> 2 ^ (64 - p) * 2 ^ (8 * q)" by (intro mult_le_mono2) (simp add: Suc_le_eq)
    then show ?thesis using p(3) by (simp add: e [symmetric] power_add)
  qed
  ultimately have c': "cont (cs_c s') (p mod 8) (V div 2 ^ (8 * q)) (l + 2 ^ (64 - p) * (V mod 2 ^ (8 * q)))"
    using Vq by (simp add: cont_def s'_def)
  have lq: "le_nat (W @ take q (le_bytes 8 V)) = le_nat W + 2 ^ (8 * length W) * (V mod 2 ^ (8 * q))"
  proof -
    have "V < 2 ^ 64" using p(1,2) by (meson less_le_trans one_le_numeral power_increasing)
    then have "le_nat (le_bytes 8 V) = V" by (intro le_nat_le_bytes_id) simp
    then show ?thesis using q(1) by (simp add: le_nat_append le_nat_take pow_256 min_absorb1)
  qed
  have "celt_at F cap s' (W @ take q (le_bytes 8 V)) (p mod 8) (V div 2 ^ (8 * q))"
    unfolding celt_at_def
  proof (intro conjI exI)
    show "length (cs_out s') = cap" using a(1,3) assms(2) by (simp add: s'_def)
    show "take (cs_op s') (cs_out s') = map Some (W @ take q (le_bytes 8 V))"
      using tk [OF q(1)] a(3) tq by (simp add: s'_def)
    show "length (W @ take q (le_bytes 8 V)) = cs_op s'" using a(3) q(1) by (simp add: s'_def)
    show "field_len F = 8 * length (W @ take q (le_bytes 8 V)) + p mod 8" using a(6) q by simp
    have "le_nat W + 2 ^ (8 * length W) * V
        = le_nat W + 2 ^ (8 * length W) * (V mod 2 ^ (8 * q) + 2 ^ (8 * q) * (V div 2 ^ (8 * q)))" by simp
    also have "\<dots> = le_nat W + 2 ^ (8 * length W) * (V mod 2 ^ (8 * q)) + 2 ^ (8 * (length W + q)) * (V div 2 ^ (8 * q))"
      by (simp only: distrib_left power_add mult.assoc add.assoc)
    finally show "field_val F = le_nat (W @ take q (le_bytes 8 V))
        + 2 ^ (8 * length (W @ take q (le_bytes 8 V))) * (V div 2 ^ (8 * q))"
      unfolding lq using a(7) q(1) by simp
  qed (use m8 c' in auto)
  moreover have "unat (cs_p s' AND 0xFF) = p mod 8"
    using unat_and_mask64 [of 8 "cs_p s'"] m8 by simp
  moreover have "take (length W + k) (cs_out s') = map Some (W @ take k (le_bytes 8 V))" if "0 < p" "k \<le> 8" for k
    using tk [OF that(2)] v [OF that(1)] by simp
  ultimately show ?thesis using run a(3) by (intro exI [of _ s']) (simp add: q_def [symmetric], simp add: s'_def)
qed

section \<open>The whole stream\<close>

definition fields_from :: "huff_ctable \<Rightarrow> bytes \<Rightarrow> nat \<Rightarrow> (nat \<times> nat) list" where
  "fields_from ct src n = map (lit_field ct) (rev (drop n src))"

lemma fields_from_below:
  assumes "K \<le> n" "n \<le> length src"
  shows "fields_from ct src (n - K) = fields_from ct src n @ below ct src n [1..<Suc K]"
proof -
  have "drop (n - K) src = take K (drop (n - K) src) @ drop n src"
    using append_take_drop_id [of K "drop (n - K) src"] assms by simp
  then have "rev (drop (n - K) src) = rev (drop n src) @ rev (take K (drop (n - K) src))" by (metis rev_append)
  moreover have "rev (take K (drop (n - K) src)) = map (\<lambda>u. src ! (n - u)) [1..<Suc K]"
    using assms by (intro nth_equalityI) (auto simp: rev_nth simp del: upt_Suc)
  ultimately show ?thesis by (simp add: fields_from_def below_def)
qed

lemma fields_from_len:
  assumes "ctable_ok ct"
  shows "field_len (fields_from ct src n) \<le> length src * hc_max_nbits ct"
proof -
  have "field_len (map (lit_field ct) bs) \<le> length bs * hc_max_nbits ct" for bs
    using ctable_okD(1) [OF assms] by (induction bs) (auto simp: lit_field_def intro: add_mono)
  from this [of "rev (drop n src)"] show ?thesis
    by (simp add: fields_from_def) (meson diff_le_self mult_le_mono1 order_trans)
qed

lemma at_add:
  assumes "celt_at F cap s W p V" "unat pw mod 256 = p + field_len G" "cont c (p + field_len G) (V + 2 ^ p * field_val G) l"
  shows "celt_at (F @ G) cap (with_cp s (c, pw)) W (p + field_len G) (V + 2 ^ p * field_val G)"
  using assms by (auto simp: celt_at_def with_cp_def field_val_append power_add distrib_left mult.assoc)

lemma flush_holds:
  assumes "celt_at F cap s W p V" "field_len F div 8 + 8 \<le> cap"
  shows "\<exists>s'. celt_flush s = Some s' \<and> holds F cap s'"
proof -
  have "length W \<le> field_len F div 8" using assms(1) by (auto simp: celt_at_def)
  then have "length W + 8 \<le> cap" using assms(2) by linarith
  from flush_at [OF assms(1) this] obtain s' where s: "celt_flush s = Some s'"
    "celt_at F cap s' (W @ take (p div 8) (le_bytes 8 V)) (p mod 8) (V div 2 ^ (8 * (p div 8)))" by blast
  have "p mod 8 < 8" by simp
  with s show ?thesis unfolding holds_def by blast
qed

lemma cont_0: "cont 0 0 0 0" by (simp add: cont_def)

text \<open>What a run of the emitter relies on: a good table that covers the literals, groups that fit, reserved room.\<close>

definition emit_env :: "huff_ctable \<Rightarrow> bytes \<Rightarrow> nat \<Rightarrow> bool \<Rightarrow> nat \<Rightarrow> nat \<Rightarrow> bool" where
  "emit_env ct src K last_fast w cap \<longleftrightarrow> ctable_ok ct \<and> covered ct src \<and> group_fits K last_fast (hc_max_nbits ct) w
     \<and> length src * hc_max_nbits ct div 8 + 8 \<le> cap"

lemma emit_envD:
  assumes "emit_env ct src K last_fast w cap"
  shows "ctable_ok ct" "covered ct src" "group_fits K last_fast (hc_max_nbits ct) w" "1 \<le> K"
    "length src * hc_max_nbits ct div 8 + 8 \<le> cap"
  using assms by (auto simp: emit_env_def group_fits_def)

lemma emit_room: "emit_env ct src K last_fast w cap \<Longrightarrow> field_len (fields_from ct src n) div 8 + 8 \<le> cap"
  using div_le_mono [OF fields_from_len [of ct src n], of 8] by (auto simp: emit_env_def dest: order_trans)

lemma round_holds:
  assumes env: "emit_env ct src K last_fast w cap"
    and h: "holds (fields_from ct src n) cap s" and kn: "K \<le> n" "n \<le> length src"
  shows "\<exists>s'. celt_round (hc_celt ct) src K last_fast n s = Some s' \<and> holds (fields_from ct src (n - K)) cap s'"
proof -
  note env' = emit_envD [OF env]
  obtain W p V l where a: "celt_at (fields_from ct src n) cap s W p V" "p \<le> 7" "cont (cs_c s) p V l" "unat (cs_p s) mod 256 = p"
    using holds_parts [OF h] by blast
  obtain c' pw' l' where g: "celt_group (hc_celt ct) src K last_fast n (cs_c s, cs_p s) = Some (c', pw')"
    "unat pw' mod 256 = p + field_len (below ct src n [1..<Suc K])"
    "cont c' (p + field_len (below ct src n [1..<Suc K])) (V + 2 ^ p * field_val (below ct src n [1..<Suc K])) l'"
    using group_steps [OF env'(1,2) kn(2,1) env'(3) a(3,4,2)] by blast
  note at = at_add [OF a(1) g(2,3), folded fields_from_below [OF kn]]
  from flush_holds [OF this emit_room [OF env]] show ?thesis by (simp add: celt_round_def g(1))
qed

lemma pair_holds:
  assumes env: "emit_env ct src K last_fast w cap"
    and h: "holds (fields_from ct src n) cap s" and kn: "K \<le> n" "n \<le> length src"
  shows "\<exists>c1 p1 s'. celt_group (hc_celt ct) src K last_fast n (0, 0) = Some (c1, p1)
    \<and> celt_flush (with_cp s (drop_bit (unat (p1 AND 0xFF) mod 64) (cs_c s) OR c1, cs_p s + p1)) = Some s'
    \<and> holds (fields_from ct src (n - K)) cap s'"
proof -
  note env' = emit_envD [OF env]
  let ?G = "below ct src n [1..<Suc K]"
  define q where "q = field_len ?G"
  obtain W p V l where a: "celt_at (fields_from ct src n) cap s W p V" "p \<le> 7" "cont (cs_c s) p V l" "unat (cs_p s) mod 256 = p"
    using holds_parts [OF h] by blast
  have "0 < (2 :: nat) ^ w" by simp
  then obtain c1 p1 m where g: "celt_group (hc_celt ct) src K last_fast n (0, 0) = Some (c1, p1)"
    "unat p1 mod 256 = q" "cont c1 q (field_val ?G) m" "m < 2 ^ (57 - q)"
    using group_steps [OF env'(1,2) kn(2,1) env'(3) cont_0, of 0] unfolding q_def by (auto simp del: upt_Suc)
  have q: "q \<le> 57" using below_len [OF env'(1), of src n "[1..<Suc K]"] env'(3) by (simp add: q_def group_fits_def del: upt_Suc)
  have c1: "unat c1 = m + 2 ^ (64 - q) * field_val ?G" "field_val ?G < 2 ^ q" using g(3) by (auto simp: cont_def)
  have "57 - q \<le> 64 - (p + q)" using a(2) by simp
  then have "(2 :: nat) ^ (57 - q) \<le> 2 ^ (64 - (p + q))" by (rule power_increasing) simp
  then have m: "m < 2 ^ (64 - (p + q))" by (rule less_le_trans [OF g(4)])
  have sh: "unat (p1 AND 0xFF) mod 64 = q" using unat_and_mask64 [of 8 p1] g(2) q by simp
  have pq: "p + q \<le> 64" using a(2) q by simp
  note c = cont_over [OF a(3) c1 pq m]
  have "unat (cs_p s + p1) mod 256 = (unat (cs_p s) + unat p1) mod 2 ^ 64 mod 256" by (simp add: unat_word_ariths)
  also have "\<dots> = (unat (cs_p s) + unat p1) mod 256" by (rule mod_mod_cancel) simp
  also have "\<dots> = (p + q) mod 256" unfolding a(4) [symmetric] g(2) [symmetric] by (rule mod_add_eq [symmetric])
  finally have "unat (cs_p s + p1) mod 256 = p + q" using a(2) q by simp
  from at_add [OF a(1) this [unfolded q_def] c [unfolded q_def], folded fields_from_below [OF kn] q_def]
  have "celt_at (fields_from ct src (n - K)) cap (with_cp s (drop_bit q (cs_c s) OR c1, cs_p s + p1)) W (p + q) (V + 2 ^ p * field_val ?G)" .
  from flush_holds [OF this emit_room [OF env]] show ?thesis using g(1) by (simp add: sh)
qed

lemma pairs_hold:
  assumes env: "emit_env ct src K last_fast w cap"
    and "holds (fields_from ct src n) cap s" "2 * K dvd n" "n \<le> length src"
  shows "\<exists>s'. celt_pairs (hc_celt ct) src K last_fast n s = Some s' \<and> holds (fields_from ct src 0) cap s'"
  using assms(2-)
proof (induction n arbitrary: s rule: less_induct)
  case (less n)
  show ?case
  proof (cases "n = 0")
    case True
    then show ?thesis using less.prems(1) by (subst celt_pairs.simps) simp
  next
    case False
    note K = emit_envD(4) [OF env]
    have n: "2 * K \<le> n" using less.prems(2) False by (simp add: dvd_imp_le)
    obtain s1 where 1: "celt_round (hc_celt ct) src K last_fast n s = Some s1" "holds (fields_from ct src (n - K)) cap s1"
      using round_holds [OF env less.prems(1) _ less.prems(3)] n by auto
    have b: "K \<le> n - K" "n - K \<le> length src" "n - K - K = n - 2 * K" using n less.prems(3) by auto
    obtain c1 p1 s2 where 2: "celt_group (hc_celt ct) src K last_fast (n - K) (0, 0) = Some (c1, p1)"
      "celt_flush (with_cp s1 (drop_bit (unat (p1 AND 0xFF) mod 64) (cs_c s1) OR c1, cs_p s1 + p1)) = Some s2"
      "holds (fields_from ct src (n - 2 * K)) cap s2"
      using pair_holds [OF env 1(2) b(1,2)] unfolding b(3) by blast
    have "2 * K dvd n - 2 * K" "n - 2 * K < n" "n - 2 * K \<le> length src" using less.prems(2,3) False K by (auto simp: dvd_diff_nat)
    with less.IH [OF _ 2(3)] obtain s' where "celt_pairs (hc_celt ct) src K last_fast (n - 2 * K) s2 = Some s'"
      "holds (fields_from ct src 0) cap s'" by blast
    then show ?thesis using False n by (subst celt_pairs.simps) (simp add: 1(1) 2(1,2))
  qed
qed

text \<open>The first groups, which leave a multiple of \<open>2 * K\<close> literals.\<close>

definition emit_rest :: "u64 list \<Rightarrow> bytes \<Rightarrow> nat \<Rightarrow> celt_state \<Rightarrow> (nat \<times> celt_state) option" where
  "emit_rest celt src K s =
     (let n = length src; r = n mod K
      in if 0 < r
         then Option.bind (celt_adds celt src False n [1..<Suc r] (cs_c s, cs_p s)) (\<lambda>cp.
           Option.bind (celt_flush (with_cp s cp)) (\<lambda>s. Some (n - r, s)))
         else Some (n, s))"

definition emit_odd :: "u64 list \<Rightarrow> bytes \<Rightarrow> nat \<Rightarrow> bool \<Rightarrow> nat \<Rightarrow> celt_state \<Rightarrow> (nat \<times> celt_state) option" where
  "emit_odd celt src K last_fast n s =
     (if n mod (2 * K) \<noteq> 0
      then Option.bind (celt_round celt src K last_fast n s) (\<lambda>s. Some (n - K, s))
      else Some (n, s))"

definition emit_end :: "celt_state \<Rightarrow> bytes \<Rightarrow> (nat \<times> bytes) option" where
  "emit_end s buf =
     Option.bind (celt_flush (with_cp s (celt_add False (push_bit 63 1 OR 1) (cs_c s, cs_p s)))) (\<lambda>s.
     let total = cs_op s + (if cs_p s AND 0xFF \<noteq> 0 then 1 else 0)
     in Option.bind (those (take total (cs_out s))) (\<lambda>w. Some (total, buf @ w)))"

lemma emit_celt_stages:
  "emit_celt K last_fast ct src buf =
     Option.bind (emit_rest (hc_celt ct) src K \<lparr> cs_c = 0, cs_p = 0,
         cs_out = replicate (drop_bit 3 (length src * max 1 (min MAX_BITS (hc_max_nbits ct))) + 16) None, cs_op = 0 \<rparr>) (\<lambda>(n, s).
     Option.bind (emit_odd (hc_celt ct) src K last_fast n s) (\<lambda>(n, s).
     Option.bind (celt_pairs (hc_celt ct) src K last_fast n s) (\<lambda>s. emit_end s buf)))"
  by (simp add: emit_celt_def emit_rest_def emit_odd_def emit_end_def Let_def)

lemma emit_rest_ok:
  assumes env: "emit_env ct src K last_fast w cap"
    and s: "cs_c s = 0" "cs_p s = 0" "cs_op s = 0" "length (cs_out s) = cap"
  shows "\<exists>n s'. emit_rest (hc_celt ct) src K s = Some (n, s') \<and> n \<le> length src \<and> K dvd n \<and> holds (fields_from ct src n) cap s'"
proof -
  note env' = emit_envD [OF env]
  define n where "n = length src"
  define r where "r = n mod K"
  have at: "celt_at (fields_from ct src n) cap s [] 0 0"
    using s cont_0 by (auto simp: celt_at_def fields_from_def n_def)
  show ?thesis
  proof (cases "0 < r")
    case False
    have "(0 :: nat) < 8" by simp
    with at have "holds (fields_from ct src n) cap s" unfolding holds_def by blast
    moreover have "emit_rest (hc_celt ct) src K s = Some (n, s)" using False by (simp add: emit_rest_def Let_def n_def r_def)
    ultimately show ?thesis using False by (auto simp: n_def r_def)
  next
    case True
    have r: "r < K" "r \<le> n" using env'(4) by (simp_all add: r_def)
    have "r * hc_max_nbits ct \<le> K * hc_max_nbits ct" using r(1) by (intro mult_le_mono1) simp
    also have "\<dots> \<le> 57" using env'(3) by (simp add: group_fits_def)
    finally have fit: "0 + length [1..<Suc r] * hc_max_nbits ct \<le> 64" by (simp del: upt_Suc)
    have us: "list_all (\<lambda>u. 1 \<le> u \<and> u \<le> n) [1..<Suc r]" using r(2) by (auto simp: list_all_iff)
    have "unat (0 :: u64) mod 256 = 0" "hc_max_nbits ct < 2 ^ w" "n \<le> length src" using env'(3) by (simp_all add: group_fits_def n_def)
    then obtain c' pw' l' where a: "celt_adds (hc_celt ct) src False n [1..<Suc r] (0, 0) = Some (c', pw')"
      "unat pw' mod 256 = 0 + field_len (below ct src n [1..<Suc r])"
      "cont c' (0 + field_len (below ct src n [1..<Suc r])) (0 + 2 ^ 0 * field_val (below ct src n [1..<Suc r])) l'"
      using celt_adds_ok [OF env'(1,2) _ us cont_0 _ fit, of 0 False w] by (auto simp del: upt_Suc)
    have nl: "n \<le> length src" by (simp add: n_def)
    from flush_holds [OF at_add [OF at a(2,3), folded fields_from_below [OF r(2) nl]] emit_room [OF env]]
    obtain s' where f: "celt_flush (with_cp s (c', pw')) = Some s'" "holds (fields_from ct src (n - r)) cap s'" by blast
    have "emit_rest (hc_celt ct) src K s = Some (n - r, s')"
      using True a(1) f(1) s by (simp add: emit_rest_def Let_def n_def [symmetric] r_def [symmetric] del: upt_Suc)
    moreover have "K dvd n - r" by (simp add: r_def dvd_minus_mod)
    ultimately show ?thesis using f(2) nl by auto
  qed
qed

lemma emit_odd_ok:
  assumes env: "emit_env ct src K last_fast w cap"
    and h: "holds (fields_from ct src n) cap s" "K dvd n" "n \<le> length src"
  shows "\<exists>n' s'. emit_odd (hc_celt ct) src K last_fast n s = Some (n', s') \<and> n' \<le> length src \<and> 2 * K dvd n' \<and> holds (fields_from ct src n') cap s'"
proof (cases "n mod (2 * K) = 0")
  case True
  then show ?thesis using h by (auto simp: emit_odd_def)
next
  case False
  obtain j where j: "n = K * j" using h(2) by auto
  have odd: "odd j"
  proof
    assume "even j"
    then have "2 * K dvd n" unfolding j by (simp add: mult.commute)
    with False show False by simp
  qed
  then obtain i where i: "j = 2 * i + 1" by (elim oddE)
  have n: "K \<le> n" "n - K = 2 * K * i" by (simp_all add: j i algebra_simps)
  obtain s' where "celt_round (hc_celt ct) src K last_fast n s = Some s'" "holds (fields_from ct src (n - K)) cap s'"
    using round_holds [OF env h(1) n(1) h(3)] by blast
  then show ?thesis using False n h(3) by (simp add: emit_odd_def)
qed

lemma those_map_Some_take: "take k xs = map Some ys \<Longrightarrow> those (take k xs) = Some ys"
  by simp

lemma emit_end_ok:
  assumes "holds F cap s" "field_len F div 8 + 8 \<le> cap" "fields_fit F"
  shows "emit_end s buf = Some (length (stream_bytes F), buf @ stream_bytes F)"
proof -
  obtain W p V l where a: "celt_at F cap s W p V" "p \<le> 7" "cont (cs_c s) p V l" "unat (cs_p s) mod 256 = p"
    using holds_parts [OF assms(1)] by blast
  have pV: "V < 2 ^ p" using a(3) by (simp add: cont_def)
  have e: "push_bit 63 1 OR 1 = elt 1 1" by (simp add: elt_def)
  obtain c' pw' where add: "celt_add False (elt 1 1) (cs_c s, cs_p s) = (c', pw')" "unat pw' mod 256 = p + 1"
    "cont c' (p + 1) (V + 2 ^ p * 1) ((l div 2 ^ 1) OR (if False then 1 else 0))"
    using celt_add_ok [OF a(3,4), of 1 1 False] a(2) by auto
  have g: "field_len [(1, 1)] = 1" "field_val [(1 :: nat, 1)] = 1" by simp_all
  note at = at_add [OF a(1), of pw' "[(1, 1)]", unfolded g, OF add(2,3)]
  have W: "length W \<le> field_len F div 8" using a(1) by (auto simp: celt_at_def)
  then have wc: "length W + 8 \<le> cap" using assms(2) by linarith
  define p' where "p' = p + 1"
  define V' where "V' = V + 2 ^ p * 1"
  obtain s' where f: "celt_flush (with_cp s (c', pw')) = Some s'" "cs_op s' = length W + p' div 8"
    "unat (cs_p s' AND 0xFF) = p' mod 8" "\<forall>k \<le> 8. take (length W + k) (cs_out s') = map Some (W @ take k (le_bytes 8 V'))"
    using flush_at [OF at wc] unfolding p'_def [symmetric] V'_def [symmetric] by (auto simp: p'_def)
  define k where "k = p' div 8 + (if p' mod 8 \<noteq> 0 then 1 else 0)"
  have k: "k = 1" using a(2) by (cases "p = 7") (auto simp: k_def p'_def div_eq_0_iff)
  have "cs_p s' AND 0xFF \<noteq> 0 \<longleftrightarrow> p' mod 8 \<noteq> 0" using f(3) by (metis unat_eq_zero)
  then have total: "cs_op s' + (if cs_p s' AND 0xFF \<noteq> 0 then 1 else 0) = length W + k" using f(2) by (simp add: k_def)
  have "those (take (length W + k) (cs_out s')) = Some (W @ take k (le_bytes 8 V'))"
    using f(4) k by (intro those_map_Some_take) (metis one_le_numeral)
  then have run: "emit_end s buf = Some (length W + k, buf @ W @ take k (le_bytes 8 V'))"
    unfolding emit_end_def e add(1) f(1) Option.bind.bind_lunit Let_def total by simp
  have "V' < 256"
  proof -
    have "V' < 2 ^ (p + 1)" using pV by (simp add: V'_def)
    also have "\<dots> \<le> 2 ^ 8" using a(2) by (intro power_increasing) simp_all
    finally show ?thesis by simp
  qed
  then have "le_nat (take k (le_bytes 8 V')) = V'"
    using le_nat_le_bytes_id [of V' 8] by (simp add: k le_nat_take)
  moreover have "field_len F = 8 * length W + p" "field_val F = le_nat W + 2 ^ (8 * length W) * V" using a(1) by (auto simp: celt_at_def)
  ultimately have "le_nat (W @ take k (le_bytes 8 V')) = field_val F + 2 ^ field_len F" "length (W @ take k (le_bytes 8 V')) = field_len F div 8 + 1"
    using a(2) k by (simp_all add: le_nat_append pow_256 V'_def power_add distrib_left)
  then have "W @ take k (le_bytes 8 V') = stream_bytes F" unfolding stream_bytes_def by (rule le_bytes_eqI)
  moreover from this have "length (stream_bytes F) = length W + k" using k by (metis length_append length_le_bytes length_take min_absorb2 numeral_le_one_iff one_le_numeral)
  ultimately show ?thesis using run by simp
qed

lemma emit_celt_ok:
  assumes "ctable_ok ct" "covered ct src" "src \<noteq> []" "group_fits K last_fast (hc_max_nbits ct) w"
  shows "emit_celt K last_fast ct src buf =
    Some (length (stream_bytes (map (lit_field ct) (rev src))), buf @ stream_bytes (map (lit_field ct) (rev src)))"
proof -
  define cap where "cap = drop_bit 3 (length src * max 1 (min MAX_BITS (hc_max_nbits ct))) + 16"
  have "hc_max_nbits ct \<le> max 1 (min MAX_BITS (hc_max_nbits ct))" using assms(1) by (auto simp: ctable_ok_def)
  then have "length src * hc_max_nbits ct div 8 \<le> length src * max 1 (min MAX_BITS (hc_max_nbits ct)) div 8"
    by (intro div_le_mono mult_le_mono2)
  then have env: "emit_env ct src K last_fast w cap"
    using assms by (simp add: emit_env_def cap_def drop_bit_eq_div)
  define s0 where "s0 = \<lparr> cs_c = 0, cs_p = 0, cs_out = replicate cap (None :: u8 option), cs_op = 0 \<rparr>"
  have s0: "cs_c s0 = 0" "cs_p s0 = 0" "cs_op s0 = 0" "length (cs_out s0) = cap" by (simp_all add: s0_def)
  obtain n1 s1 where 1: "emit_rest (hc_celt ct) src K s0 = Some (n1, s1)" "n1 \<le> length src" "K dvd n1" "holds (fields_from ct src n1) cap s1"
    using emit_rest_ok [OF env s0] by blast
  obtain n2 s2 where 2: "emit_odd (hc_celt ct) src K last_fast n1 s1 = Some (n2, s2)" "n2 \<le> length src" "2 * K dvd n2" "holds (fields_from ct src n2) cap s2"
    using emit_odd_ok [OF env 1(4,3,2)] by blast
  obtain s3 where 3: "celt_pairs (hc_celt ct) src K last_fast n2 s2 = Some s3" "holds (fields_from ct src 0) cap s3"
    using pairs_hold [OF env 2(4,3,2)] by blast
  have f: "fields_from ct src 0 = map (lit_field ct) (rev src)" by (simp add: fields_from_def)
  have fit: "fields_fit (fields_from ct src 0)" unfolding f by (rule lit_fields_ok(1) [OF assms(1)])
  show ?thesis
    using emit_end_ok [OF 3(2) emit_room [OF env] fit, of buf] 1(1) 2(1) 3(1)
    by (simp add: emit_celt_stages s0_def cap_def f)
qed

lemma encode_rev_append_ok:
  assumes "ctable_ok ct" "covered ct src" "src \<noteq> []"
  shows "encode_rev_append ct src buf =
    Some (length (stream_bytes (map (lit_field ct) (rev src))), buf @ stream_bytes (map (lit_field ct) (rev src)))"
proof -
  have m: "hc_max_nbits ct \<le> 11" using assms(1) by (simp add: ctable_ok_def MAX_BITS_def)
  note ok = emit_celt_ok [OF assms]
  consider "hc_max_nbits ct = 11" | "hc_max_nbits ct = 10" | "hc_max_nbits ct = 9" | "hc_max_nbits ct = 8" | "hc_max_nbits ct = 7" | "hc_max_nbits ct \<le> 6"
    using m by linarith
  then show ?thesis
  proof cases
    case 1 then show ?thesis by (simp add: encode_rev_append_def ok [where w = 4] group_fits_def)
  next
    case 2 then show ?thesis by (simp add: encode_rev_append_def ok [where w = 4] group_fits_def)
  next
    case 3 then show ?thesis by (simp add: encode_rev_append_def ok [where w = 4] group_fits_def)
  next
    case 4 then show ?thesis by (simp add: encode_rev_append_def ok [where w = 4] group_fits_def)
  next
    case 5 then show ?thesis by (simp add: encode_rev_append_def ok [where w = 3] group_fits_def)
  next
    case 6 then show ?thesis by (simp add: encode_rev_append_def ok [where w = 3] group_fits_def)
  qed
qed

lemma encode_stream_append_ok:
  assumes "ctable_ok ct" "covered ct src" "src \<noteq> []"
  shows "encode_stream_append fast ct src dst = Some (Inr (length (stream_bytes (map (lit_field ct) (rev src))),
      dst @ stream_bytes (map (lit_field ct) (rev src))))"
    "encode_stream_into fast ct src = Some (Inr (stream_bytes (map (lit_field ct) (rev src))))"
  using assms by (simp_all add: encode_stream_append_def encode_stream_into_def encode_rev_append_ok encode_scalar_eq)

section \<open>The table of a list of weights\<close>

text \<open>Each code is the leading bits of the cells that decode to its symbol.\<close>

definition codes_of :: "huff_ctable \<Rightarrow> nat list \<Rightarrow> nat \<Rightarrow> bool" where
  "codes_of ct table log \<longleftrightarrow> (\<forall>s < 256. width_of ct s \<noteq> 0 \<longrightarrow>
     (\<exists>i < length table. cell_sym (table ! i) = s \<and> cell_nb (table ! i) = width_of ct s \<and> code_of ct s = i div 2 ^ (log - width_of ct s)))"

definition walked :: "nat list \<Rightarrow> nat \<Rightarrow> nat \<Rightarrow> nat list \<Rightarrow> nat list \<Rightarrow> bool" where
  "walked table log k nb code \<longleftrightarrow> length nb = 256 \<and> length code = 256
     \<and> (\<forall>s < 256. (nb ! s \<noteq> 0 \<longrightarrow> (\<exists>i < k. cell_sym (table ! i) = s \<and> cell_nb (table ! i) = nb ! s \<and> code ! s = i div 2 ^ (log - nb ! s)))
          \<and> (nb ! s = 0 \<longrightarrow> code ! s = 0))
     \<and> (\<forall>i < k. nb ! cell_sym (table ! i) \<noteq> 0)"

lemma cell_sym_less [simp]: "cell_sym e < 256"
  by (simp add: cell_sym_def)

lemma code_walk_ok:
  assumes "x1_wf table log" "walked table log k nb code" "k \<le> length table"
  shows "\<exists>nb' code'. code_walk log k (drop k table) nb code = Some (nb', code') \<and> walked table log (length table) nb' code'"
  using assms(2,3)
proof (induction "length table - k" arbitrary: k nb code)
  case 0
  then show ?case by auto
next
  case (Suc m)
  define e where "e = table ! k"
  have k: "k < length table" using Suc.hyps(2) by simp
  then have d: "drop k table = e # drop (Suc k) table" by (simp add: Cons_nth_drop_Suc e_def)
  have wf: "1 \<le> cell_nb e" "cell_nb e \<le> log" "log \<le> 11" "k < 2 ^ log"
    using assms(1) k by (auto simp: x1_wf_def e_def FAST_TABLELOG_def)
  note w = Suc.prems(1)
  have l: "cell_sym e < length nb" "cell_sym e < length code" using w by (simp_all add: walked_def)
  have less: "i < Suc k \<longleftrightarrow> i < k \<or> i = k" for i by auto
  have ex_less: "(\<exists>i < k. P i) \<Longrightarrow> (\<exists>i < Suc k. P i)" for P by (metis less_Suc_eq)
  note ih = Suc.hyps(1) [of "Suc k", OF _ _]
  show ?case
  proof (cases "nb ! cell_sym e = 0")
    case False
    have w': "walked table log (Suc k) nb code"
      unfolding walked_def
    proof (intro conjI allI impI)
      fix i assume "i < Suc k" then show "nb ! cell_sym (table ! i) \<noteq> 0" using w False unfolding less by (auto simp: walked_def e_def)
    next
      fix s :: nat assume "s < 256" "nb ! s \<noteq> 0"
      then show "\<exists>i < Suc k. cell_sym (table ! i) = s \<and> cell_nb (table ! i) = nb ! s \<and> code ! s = i div 2 ^ (log - nb ! s)"
        using w by (intro ex_less) (simp add: walked_def)
    qed (use w in \<open>simp_all add: walked_def\<close>)
    have "code_walk log k (drop k table) nb code = code_walk log (Suc k) (drop (Suc k) table) nb code"
      using wf(1) False l by (simp add: d Let_def)
    then show ?thesis using Suc.hyps(1) [of "Suc k" nb code] Suc.hyps(2) w' k by simp
  next
    case True
    define nb1 where "nb1 = nb[cell_sym e := cell_nb e]"
    define code1 where "code1 = code[cell_sym e := k div 2 ^ (log - cell_nb e)]"
    have "k div 2 ^ (log - cell_nb e) < 2 ^ 16"
    proof -
      have "k div 2 ^ (log - cell_nb e) \<le> k" by (rule div_le_dividend)
      also have "k < 2 ^ log" by (rule wf(4))
      also have "(2 :: nat) ^ log \<le> 2 ^ 16" using wf(3) by (intro power_increasing) simp_all
      finally show ?thesis .
    qed
    then have "code_walk log k (drop k table) nb code = code_walk log (Suc k) (drop (Suc k) table) nb1 code1"
      using wf(1) True l by (simp add: d Let_def drop_bit_eq_div nb1_def code1_def)
    moreover have "walked table log (Suc k) nb1 code1"
      unfolding walked_def
    proof (intro conjI allI impI)
      fix i assume i: "i < Suc k"
      show "nb1 ! cell_sym (table ! i) \<noteq> 0"
        using w i wf(1) l unfolding less by (cases "cell_sym (table ! i) = cell_sym e") (auto simp: walked_def nb1_def e_def)
    next
      fix s :: nat assume s: "s < 256" "nb1 ! s \<noteq> 0"
      show "\<exists>i < Suc k. cell_sym (table ! i) = s \<and> cell_nb (table ! i) = nb1 ! s \<and> code1 ! s = i div 2 ^ (log - nb1 ! s)"
      proof (cases "s = cell_sym e")
        case same: True
        then show ?thesis using l by (intro exI [of _ k]) (simp add: nb1_def code1_def e_def)
      next
        case False
        then have "nb1 ! s = nb ! s" "code1 ! s = code ! s" by (simp_all add: nb1_def code1_def)
        then show ?thesis using w s by (intro ex_less) (simp add: walked_def)
      qed
    next
      fix s :: nat assume s: "s < 256" "nb1 ! s = 0"
      then have "s \<noteq> cell_sym e" using wf(1) l by (auto simp: nb1_def)
      then show "code1 ! s = 0" using w s by (simp add: walked_def nb1_def code1_def)
    qed (use w in \<open>simp_all add: walked_def nb1_def code1_def\<close>)
    ultimately show ?thesis using Suc.hyps(1) [of "Suc k" nb1 code1] Suc.hyps(2) k by simp
  qed
qed

lemma fold_max_bounds:
  fixes xs :: "nat list"
  shows "x \<in> set xs \<Longrightarrow> x \<le> fold max xs 0" "(\<And>x. x \<in> set xs \<Longrightarrow> x \<le> m) \<Longrightarrow> fold max xs 0 \<le> m"
proof -
  have "fold max xs 0 = Max (set (0 # xs))" by (rule Max.set_eq_fold [symmetric])
  then show "x \<in> set xs \<Longrightarrow> x \<le> fold max xs 0" "(\<And>x. x \<in> set xs \<Longrightarrow> x \<le> m) \<Longrightarrow> fold max xs 0 \<le> m" by auto
qed

lemma finish_ctable_ok:
  assumes "x1_wf table log" "walked table log (length table) nb code"
  shows "ctable_ok (finish_ctable (pack_huff_entries nb code) t ws nb)"
    "codes_of (finish_ctable (pack_huff_entries nb code) t ws nb) table log"
    "\<forall>i < length table. width_of (finish_ctable (pack_huff_entries nb code) t ws nb) (cell_sym (table ! i)) \<noteq> 0"
proof -
  let ?ct = "finish_ctable (pack_huff_entries nb code) t ws nb"
  have log: "1 \<le> log" "log \<le> 11" "length table = 2 ^ log" using assms(1) by (auto simp: x1_wf_def FAST_TABLELOG_def)
  have w: "length nb = 256" "length code = 256" "\<forall>i < length table. nb ! cell_sym (table ! i) \<noteq> 0"
    "\<And>s. s < 256 \<Longrightarrow> nb ! s = 0 \<Longrightarrow> code ! s = 0"
    "\<And>s. s < 256 \<Longrightarrow> nb ! s \<noteq> 0 \<Longrightarrow> \<exists>i < length table. cell_sym (table ! i) = s \<and> cell_nb (table ! i) = nb ! s \<and> code ! s = i div 2 ^ (log - nb ! s)"
    using assms(2) by (auto simp: walked_def)
  have nb: "nb ! s \<le> log \<and> code ! s < 2 ^ (nb ! s)" if s: "s < 256" for s
  proof (cases "nb ! s = 0")
    case False
    then obtain i where i: "i < length table" "cell_nb (table ! i) = nb ! s" "code ! s = i div 2 ^ (log - nb ! s)" using w(5) [OF s] by auto
    have n: "nb ! s \<le> log" using assms(1) i(1,2) by (auto simp: x1_wf_def)
    then have "(2 :: nat) ^ log = 2 ^ nb ! s * 2 ^ (log - nb ! s)" by (simp flip: power_add)
    then have "i div 2 ^ (log - nb ! s) < 2 ^ nb ! s" using i(1) by (simp add: log(3) less_mult_imp_div_less)
    then show ?thesis using n i(3) by simp
  qed (use w(4) s in auto)
  have code: "code ! s < 2 ^ 16" if s: "s < 256" for s
  proof -
    have "(2 :: nat) ^ (nb ! s) \<le> 2 ^ 16" using nb [OF s] log(2) by (intro power_increasing) simp_all
    then show ?thesis using nb [OF s] by simp
  qed
  have entry: "hc_entry ?ct ! s = code ! s + 2 ^ 16 * (nb ! s)" if "s < 256" for s
    using or_push_bit_add [OF code [OF that]] that by (simp add: finish_ctable_def pack_huff_entries_def)
  have wd: "width_of ?ct s = nb ! s" if "s < 256" for s
    using code [OF that] by (simp only: width_of_def entry [OF that] drop_bit_eq_div) simp
  have mask: "(0xFFFF :: nat) = 2 ^ 16 - 1" by simp
  have cd: "code_of ?ct s = code ! s" if "s < 256" for s
    using code [OF that] by (simp only: code_of_def entry [OF that] mask nat_and_mask) simp
  have mx: "nb ! s \<le> hc_max_nbits ?ct" if "s < 256" for s
    using fold_max_bounds(1) [of "nb ! s" nb] that w(1) by (simp add: finish_ctable_def)
  have "hc_max_nbits ?ct \<le> log"
    unfolding finish_ctable_def huff_ctable.simps using nb w(1) by (intro fold_max_bounds(2)) (auto simp: in_set_conv_nth)
  then have mx': "hc_max_nbits ?ct \<le> MAX_BITS" using log(2) by (simp add: MAX_BITS_def)
  have le: "length (hc_entry ?ct) = 256" by (simp add: finish_ctable_def pack_huff_entries_def)
  have celt: "hc_celt ?ct ! s = push_bit (64 - width_of ?ct s) (word_of_nat (code_of ?ct s)) OR word_of_nat (width_of ?ct s)"
    if "s < 256" "width_of ?ct s \<noteq> 0" for s
  proof -
    have "hc_celt ?ct ! s = (let e = hc_entry ?ct ! s; nb = drop_bit 16 e in
        if nb \<noteq> 0 then push_bit (64 - nb) (word_of_nat (e AND 0xFFFF)) OR word_of_nat nb else 0)"
      using that(1) le by (simp add: finish_ctable_def Let_def)
    then show ?thesis using that(2) unfolding width_of_def code_of_def Let_def by (simp only: if_True not_False_eq_True simp_thms)
  qed
  have lc: "length (hc_celt ?ct) = 256" by (simp add: finish_ctable_def pack_huff_entries_def)
  have "width_of ?ct s \<le> hc_max_nbits ?ct \<and> code_of ?ct s < 2 ^ width_of ?ct s" if "s < 256" for s
    unfolding wd [OF that] cd [OF that] using nb [OF that] mx [OF that] by blast
  with le lc mx' celt show "ctable_ok ?ct" unfolding ctable_ok_def by blast
  show "codes_of ?ct table log"
    using w(5) by (simp add: codes_of_def wd cd)
  show "\<forall>i < length table. width_of ?ct (cell_sym (table ! i)) \<noteq> 0"
    using w(3) by (simp add: wd)
qed

text \<open>The table of weights that complete to a code.\<close>

definition ctable_for :: "bytes \<Rightarrow> nat list \<times> nat \<times> bytes \<Rightarrow> huff_ctable \<Rightarrow> bool" where
  "ctable_for ws done' ct \<longleftrightarrow> (case done' of (rank, log, ws') \<Rightarrow>
     x1_wf (huff_cells ws' log) log \<and> ctable_ok ct \<and> codes_of ct (huff_cells ws' log) log \<and> hc_weights ct = ws
      \<and> (\<forall>i < length (huff_cells ws' log). width_of ct (cell_sym (huff_cells ws' log ! i)) \<noteq> 0))"

lemma ctable_from_weights_eq:
  assumes "length ws \<le> 255" "complete_weights (ws @ replicate (256 - length ws) 0) (length ws) = Some (Inr w)"
  shows "\<exists>ct. ctable_from_weights ws = Some (Inr ct) \<and> ctable_for ws w ct"
proof -
  define wb where "wb = ws @ replicate (256 - length ws) (0 :: u8)"
  have n: "length ws < length wb" using assms(1) by (simp add: wb_def)
  obtain rank log ws' where w: "w = (rank, log, ws')" by (metis prod.exhaust)
  note c = assms(2) [folded wb_def, unfolded w]
  define T where "T = huff_cells ws' log"
  have "weights_ok ws' log" using build_x1_ok(1) [OF n] c by simp
  then have wf: "x1_wf T log" unfolding T_def by (rule huff_cells_wf)
  have t: "table_from_weights wb (length ws) False = Some (Inr \<lparr> ht_table = T, ht_x2 = [], ht_max_bits = log \<rparr>)"
    using table_from_weights_eq [OF n, of False] c by (simp add: T_def)
  have "walked T log 0 (replicate 256 0) (replicate 256 0)" by (simp add: walked_def)
  from code_walk_ok [OF wf this] obtain nb code where k: "code_walk log 0 T (replicate 256 0) (replicate 256 0) = Some (nb, code)"
    "walked T log (length T) nb code" by auto
  have "ctable_from_weights ws = Some (Inr (finish_ctable (pack_huff_entries nb code) \<lparr> ht_table = T, ht_x2 = [], ht_max_bits = log \<rparr> ws nb))"
    using assms(1) t k(1) by (simp add: ctable_from_weights_def Let_def wb_def)
  moreover have "hc_weights (finish_ctable (pack_huff_entries nb code) \<lparr> ht_table = T, ht_x2 = [], ht_max_bits = log \<rparr> ws nb) = ws"
    by (simp add: finish_ctable_def)
  ultimately show ?thesis using finish_ctable_ok [OF wf k(2)] wf unfolding ctable_for_def w prod.case T_def by blast
qed

lemma ctable_from_weights_ok:
  "safe_res (\<lambda>ct. length ws \<le> 255 \<and> (\<exists>w. complete_weights (ws @ replicate (256 - length ws) 0) (length ws) = Some (Inr w) \<and> ctable_for ws w ct))
    (ctable_from_weights ws)"
proof (cases "length ws \<le> 255")
  case True
  then have n: "length ws < length (ws @ replicate (256 - length ws) (0 :: u8))" by simp
  show ?thesis
    using build_x1_ok(1) [OF n]
  proof (cases rule: safe_res_cases)
    case 1
    then show ?thesis using True table_from_weights_eq [OF n, of False] by (simp add: ctable_from_weights_def Let_def)
  next
    case (2 w)
    then show ?thesis using ctable_from_weights_eq [OF True 2(1)] True by auto
  qed
qed (simp add: ctable_from_weights_def)

section \<open>Decoding what was encoded\<close>

lemma cell_of_code:
  assumes "x1_wf table log" "codes_of ct table log" "width_of ct (unat b) \<noteq> 0" "V < 2 ^ L"
  defines "c \<equiv> \<lparr> cu_val = V + 2 ^ L * code_of ct (unat b), cu_rem = L + width_of ct (unat b), cu_over = False \<rparr>"
  shows "(word_of_nat (cell_at table log c) :: u8) = b" "huff_next table log c = \<lparr> cu_val = V, cu_rem = L, cu_over = False \<rparr>"
proof -
  define s where "s = unat b"
  define nb where "nb = width_of ct s"
  define code where "code = code_of ct s"
  have s: "s < 256" by (simp add: s_def)
  have nz: "width_of ct s \<noteq> 0" using assms(3) by (simp add: s_def)
  obtain i where i: "i < length table" "cell_sym (table ! i) = s" "cell_nb (table ! i) = nb" "code = i div 2 ^ (log - nb)"
    using assms(2) s nz unfolding codes_of_def nb_def code_def by blast
  have wf: "nb \<le> log" "code_block table (log - nb) i" using assms(1) i(1,3) by (auto simp: x1_wf_def)
  have c: "c = \<lparr> cu_val = V + 2 ^ L * code, cu_rem = L + nb, cu_over = False \<rparr>" by (simp add: c_def nb_def code_def s_def)
  have "peek log c div 2 ^ (log - nb) = (V + 2 ^ L * code) * 2 ^ log div 2 ^ (L + nb + (log - nb))"
    by (simp only: peek_def c cursor.simps power_add div_mult2_eq)
  also have "L + nb + (log - nb) = L + log" using wf(1) by simp
  also have "(V + 2 ^ L * code) * 2 ^ log div 2 ^ (L + log) = (V + 2 ^ L * code) div 2 ^ L" by (rule mult_pow2_div_pow2)
  also have "\<dots> = i div 2 ^ (log - nb)" using assms(4) i(4) by simp
  finally have "table ! peek log c = table ! i" using wf(2) unfolding code_block_def by blast
  then have at: "cell_at table log c = table ! i" by (simp add: cell_at_def)
  have "unat (word_of_nat (table ! i) :: u8) = unat b" using i(2) by (simp add: cell_sym_def s_def)
  then show "(word_of_nat (cell_at table log c) :: u8) = b" by (simp add: at word_unat_eq_iff)
  have "huff_next table log c = skip nb c" by (simp add: huff_next_def at i(3))
  also have "\<dots> = \<lparr> cu_val = V, cu_rem = L, cu_over = False \<rparr>" using assms(4) by (simp add: skip_def c)
  finally show "huff_next table log c = \<lparr> cu_val = V, cu_rem = L, cu_over = False \<rparr>" .
qed

lemma decode_fields:
  assumes "x1_wf table log" "codes_of ct table log" "ctable_ok ct" "covered ct src"
  defines "F \<equiv> map (lit_field ct) (rev src)"
  shows "huff_ref table log (length src) \<lparr> cu_val = field_val F, cu_rem = field_len F, cu_over = False \<rparr> = Inr src"
  using assms(4) unfolding F_def
proof (induction src)
  case (Cons b bs)
  define G where "G = map (lit_field ct) (rev bs)"
  have G: "field_val G < 2 ^ field_len G" unfolding G_def by (rule field_val_less [OF lit_fields_ok(1) [OF assms(3)]])
  have b: "width_of ct (unat b) \<noteq> 0" "covered ct bs" using Cons.prems by (simp_all add: covered_def)
  have f: "map (lit_field ct) (rev (b # bs)) = G @ [(code_of ct (unat b), width_of ct (unat b))]" by (simp add: G_def lit_field_def)
  note c = cell_of_code [OF assms(1,2) b(1) G]
  show ?case using Cons.IH [OF b(2), folded G_def] unfolding f by (simp add: huff_ref_def field_val_append c split: if_splits)
qed (simp add: huff_ref_def at_end_def)

text \<open>A decoding table of the code: its cells, as built or widened to 11 bits.\<close>

definition same_code :: "huff_ctable \<Rightarrow> huff_table \<Rightarrow> bool" where
  "same_code ct t \<longleftrightarrow> ctable_ok ct \<and> huff_wf t \<and> (\<exists>table log. x1_wf table log \<and> codes_of ct table log
     \<and> (ht_table t = table \<and> ht_max_bits t = log
        \<or> ht_table t = widened table (FAST_TABLELOG - log) \<and> ht_max_bits t = FAST_TABLELOG))"

lemma huff_syms_widened:
  assumes "x1_wf table log" "cursor_ok c"
  shows "huff_syms (widened table (FAST_TABLELOG - log)) FAST_TABLELOG n c = huff_syms table log n c"
    "huff_after (widened table (FAST_TABLELOG - log)) FAST_TABLELOG n c = huff_after table log n c"
  using assms(2) by (induction n arbitrary: c) (simp_all add: huff_next_def cell_at_widened [OF assms(1)])

lemma decode_same_code:
  assumes "same_code ct t" "covered ct src"
  defines "F \<equiv> map (lit_field ct) (rev src)"
  shows "huff_ref (ht_table t) (ht_max_bits t) (length src) \<lparr> cu_val = field_val F, cu_rem = field_len F, cu_over = False \<rparr> = Inr src"
proof -
  obtain table log where t: "x1_wf table log" "codes_of ct table log" "ctable_ok ct"
    "ht_table t = table \<and> ht_max_bits t = log \<or> ht_table t = widened table (FAST_TABLELOG - log) \<and> ht_max_bits t = FAST_TABLELOG"
    using assms(1) by (auto simp: same_code_def)
  have "field_val F < 2 ^ field_len F" unfolding F_def by (rule field_val_less [OF lit_fields_ok(1) [OF t(3)]])
  then have ok: "cursor_ok \<lparr> cu_val = field_val F, cu_rem = field_len F, cu_over = False \<rparr>" by (simp add: cursor_ok_def)
  show ?thesis
    using t(4) decode_fields [OF t(1-3) assms(2)] unfolding F_def
    by (auto simp: huff_ref_def huff_syms_widened [OF t(1) ok, unfolded F_def] split: if_splits)
qed

lemma stream_ref_encoded:
  assumes "same_code ct t" "covered ct src" "src \<noteq> []"
  shows "stream_ref t (stream_bytes (map (lit_field ct) (rev src))) (length src) = Inr src"
proof -
  have "ctable_ok ct" using assms(1) by (simp add: same_code_def)
  then show ?thesis
    using decode_same_code [OF assms(1,2)] stream_cursor [OF lit_fields_ok(1)] assms(3) by (simp add: stream_ref_def)
qed

lemma same_code_weights:
  assumes "ctable_from_weights ws = Some (Inr ct)"
    "table_from_weights (ws @ replicate (256 - length ws) 0) (length ws) want = Some (Inr t)"
  shows "same_code ct t"
proof -
  have n: "length ws < length (ws @ replicate (256 - length ws) (0 :: u8))"
    using assms(1) by (auto simp: ctable_from_weights_def split: if_splits)
  obtain rank log ws' where c: "complete_weights (ws @ replicate (256 - length ws) 0) (length ws) = Some (Inr (rank, log, ws'))"
      "x1_wf (huff_cells ws' log) log" "ctable_ok ct" "codes_of ct (huff_cells ws' log) log"
    using ctable_from_weights_ok [of ws] assms(1) by (auto simp: ctable_for_def)
  have "huff_wf t" using table_from_weights_wf [OF n, of want] assms(2) by simp
  moreover have "ht_table t = huff_cells ws' log \<and> ht_max_bits t = log
      \<or> ht_table t = widened (huff_cells ws' log) (FAST_TABLELOG - log) \<and> ht_max_bits t = FAST_TABLELOG"
    using table_from_weights_eq [OF n, of want] c(1) assms(2) by (auto split: if_splits)
  ultimately show ?thesis using c(2-4) unfolding same_code_def by blast
qed

lemma read_tree_tables_ok:
  "safe_res (\<lambda>(dt, ct, used). same_code ct dt \<and> huff_wf dt \<and> 1 \<le> used \<and> used \<le> length src) (read_tree_tables src)"
proof -
  have "safe_res (\<lambda>(w', n, used). \<exists>ws. w' = overwrite (replicate 256 0) 0 ws \<and> length ws = n \<and> 1 \<le> n \<and> n \<le> 255
    \<and> 1 \<le> used \<and> used \<le> length src) (read_weights src (replicate 256 0))"
    by (rule read_weights_ok) simp
  then show ?thesis
  proof (cases rule: safe_res_cases)
    case (2 x)
    then obtain ws used where x: "x = (overwrite (replicate 256 0) 0 ws, length ws, used)" "1 \<le> length ws" "length ws \<le> 255" "1 \<le> used" "used \<le> length src"
      by auto
    have wb: "overwrite (replicate 256 0) 0 ws = ws @ replicate (256 - length ws) 0" by (simp add: overwrite_def)
    have eq: "read_tree_tables src = then_do (ctable_from_weights ws) (\<lambda>ct.
        then_do (table_from_weights (ws @ replicate (256 - length ws) 0) (length ws) True) (\<lambda>dt. Some (Inr (dt, ct, used))))"
      using 2(1) by (simp add: read_tree_tables_def x(1) wb)
    have n: "length ws < length (ws @ replicate (256 - length ws) (0 :: u8))" using x(3) by simp
    show ?thesis
    proof (cases rule: safe_res_cases [OF ctable_from_weights_ok [of ws]])
      case 1
      then show ?thesis by (simp add: eq)
    next
      case ct: (2 ct)
      show ?thesis
      proof (cases rule: safe_res_cases [OF table_from_weights_wf [OF n, of True]])
        case 1
        then show ?thesis by (simp add: eq ct(1))
      next
        case (2 dt)
        then show ?thesis using same_code_weights [OF ct(1) 2(1)] x(4,5) by (simp add: eq ct(1))
      qed
    qed
  qed (simp add: read_tree_tables_def)
qed

section \<open>What the encoder promises\<close>

text \<open>C17: the literal emitter that ships (two containers filled from the top, flushed once per group of 5 to 9
  literals into reserved memory, with no masking of most codes) writes byte for byte the stream of the reference
  emitter, which pushes one masked bit field per literal; none of its unchecked loads and stores is out of range.\<close>

theorem literal_emitters_agree:
  assumes "ctable_from_weights ws = Some (Inr ct)" "covered ct src" "src \<noteq> []"
  shows "\<exists>s. encode_stream_scalar_into ct src = Inr s \<and> encode_stream_into True ct src = Some (Inr s)
    \<and> encode_stream_append True ct src dst = Some (Inr (length s, dst @ s))
    \<and> encode_stream_append False ct src dst = Some (Inr (length s, dst @ s))"
proof -
  have ok: "ctable_ok ct" using ctable_from_weights_ok [of ws] assms(1) by (auto simp: ctable_for_def)
  show ?thesis
    using encode_scalar_eq [OF ok assms(3)] encode_stream_append_ok [OF ok assms(2,3)] assms(2) by simp
qed

text \<open>A table of three symbols, built from two weights.\<close>

definition sample_done :: "nat list \<times> nat \<times> bytes" where
  "sample_done = ([0, 2, 1] @ replicate 10 0, 2, [1, 1, 2])"

lemma sample_weights:
  "complete_weights ([1, 1] @ replicate (256 - length [1 :: u8, 1]) 0) (length [1 :: u8, 1]) = Some (Inr sample_done)"
  "table_from_weights ([1, 1] @ replicate (256 - length [1 :: u8, 1]) 0) (length [1 :: u8, 1]) False = Some (Inr sample_table)"
proof -
  show c: "complete_weights ([1, 1] @ replicate (256 - length [1 :: u8, 1]) 0) (length [1 :: u8, 1]) = Some (Inr sample_done)"
    by code_simp
  have h: "huff_cells [1, 1, 2] 2 = [0x200, 0x201, 0x102, 0x102]" by code_simp
  have n: "length [1 :: u8, 1] < length ([1 :: u8, 1] @ replicate (256 - length [1 :: u8, 1]) 0)" by simp
  show "table_from_weights ([1, 1] @ replicate (256 - length [1 :: u8, 1]) 0) (length [1 :: u8, 1]) False = Some (Inr sample_table)"
    unfolding table_from_weights_eq [OF n] c then_do_simps sample_done_def prod.case by (simp add: h sample_table_def)
qed

lemma sample_ctable:
  "\<exists>ct. ctable_from_weights [1, 1] = Some (Inr ct) \<and> same_code ct sample_table \<and> (\<forall>src. set src \<subseteq> {0, 1, 2} \<longrightarrow> covered ct src)"
proof -
  have h: "huff_cells [1, 1, 2] 2 = [0x200, 0x201, 0x102, 0x102]" by code_simp
  have "length [1 :: u8, 1] \<le> 255" by simp
  from ctable_from_weights_eq [OF this sample_weights(1)]
  obtain ct where ct: "ctable_from_weights [1, 1] = Some (Inr ct)" "ctable_for [1, 1] sample_done ct" by blast
  note sc = same_code_weights [OF ct(1) sample_weights(2)]
  have w: "width_of ct (cell_sym ([0x200, 0x201, 0x102, 0x102] ! i)) \<noteq> 0" if "i < 4" for i
    using ct(2) that by (simp add: ctable_for_def sample_done_def h)
  have "width_of ct 0 \<noteq> 0" "width_of ct 1 \<noteq> 0" "width_of ct 2 \<noteq> 0"
    using w [of 0] w [of 1] w [of 2] by (simp_all add: cell_sym_def)
  then have "covered ct src" if "set src \<subseteq> {0, 1, 2}" for src using that by (auto simp: covered_def list_all_iff)
  with ct(1) sc show ?thesis by blast
qed

theorem literal_emitters_agree_witness:
  "\<exists>ct s. encode_stream_scalar_into ct [2, 0, 1] = Inr s \<and> encode_stream_into True ct [2, 0, 1] = Some (Inr s)"
proof -
  obtain ct where ct: "ctable_from_weights [1, 1] = Some (Inr ct)" "covered ct [2, 0, 1]" using sample_ctable by auto
  from literal_emitters_agree [OF ct] show ?thesis by blast
qed

text \<open>C18: any list of literals the code covers survives the round trip: the stream either emitter writes decodes,
  with any decoding table built from the same weights (one symbol or two per step, narrow or widened), to the literals.\<close>

theorem literal_stream_roundtrip:
  assumes "ctable_from_weights ws = Some (Inr ct)"
    "table_from_weights (ws @ replicate (256 - length ws) 0) (length ws) want = Some (Inr t)"
    "covered ct src" "src \<noteq> []" "length dst = length src"
  shows "\<exists>s. encode_stream_into fast ct src = Some (Inr s) \<and> decode_stream t s dst = Some (Inr src)"
proof -
  have sc: "same_code ct t" by (rule same_code_weights [OF assms(1,2)])
  then have "ctable_ok ct" "huff_wf t" by (simp_all add: same_code_def)
  then show ?thesis
    using encode_stream_append_ok(2) [OF _ assms(3,4), of fast] stream_ref_encoded [OF sc assms(3,4)] assms(5)
    by (simp add: decode_stream_ok)
qed

theorem literal_stream_roundtrip_witness:
  "\<exists>ct s. encode_stream_into True ct [2, 0, 1, 1] = Some (Inr s) \<and> decode_stream sample_table s [9, 9, 9, 9] = Some (Inr [2, 0, 1, 1])"
proof -
  obtain ct where ct: "ctable_from_weights [1, 1] = Some (Inr ct)" "covered ct [2, 0, 1, 1]" using sample_ctable by auto
  from literal_stream_roundtrip [OF ct(1) sample_weights(2) ct(2), of "[9, 9, 9, 9]" True] show ?thesis by auto
qed

text \<open>The coverage test on a histogram is the test on the literals.\<close>

lemma covers_freq_exact:
  assumes "\<And>s. s < 256 \<Longrightarrow> freq ! s \<noteq> 0 \<longleftrightarrow> word_of_nat s \<in> set src"
  shows "covers_freq ct freq \<longleftrightarrow> covered ct src"
proof -
  have "covers_freq ct freq \<longleftrightarrow> (\<forall>s < 256. word_of_nat s \<in> set src \<longrightarrow> width_of ct s \<noteq> 0)"
    using assms unfolding covers_freq_def list_all_iff width_of_def by (metis atLeastLessThan_iff set_upt zero_le)
  also have "\<dots> \<longleftrightarrow> (\<forall>b \<in> set src. width_of ct (unat b) \<noteq> 0)"
  proof (intro iffI ballI allI impI)
    fix b assume "\<forall>s < 256. word_of_nat s \<in> set src \<longrightarrow> width_of ct s \<noteq> 0" "b \<in> set src"
    then show "width_of ct (unat b) \<noteq> 0" by (auto dest!: spec [of _ "unat b"])
  next
    fix s :: nat assume "\<forall>b \<in> set src. width_of ct (unat b) \<noteq> 0" "s < 256" "word_of_nat s \<in> set src"
    then show "width_of ct s \<noteq> 0" by force
  qed
  finally show ?thesis by (simp add: covered_def list_all_iff)
qed

end
