(* ===== verification/Dictionaries.thy ===== *)
theory Dictionaries
  imports Frame_Roundtrip Huff_Encode Fse_Coding
begin

text \<open>
  Dictionaries (\<^verbatim>\<open>dict.rs\<close>): raw content, or a trained dictionary with the entropy tables both
  sides start a frame from. A trained dictionary is read once and gives a decoding and an encoding table per code
  (\<open>read_tree_tables\<close> of \<^verbatim>\<open>huffman.rs\<close>, \<open>read_ncount_ctable\<close> of \<^verbatim>\<open>fse.rs\<close>).

  The lemmas show that loading is safe on any bytes, that the decoding tables of a loaded dictionary are
  what the block decoder relies on (so its theorems hold with any loaded dictionary), that the encoding tables
  belong to them, and that the trainer's writer and the parser agree.
\<close>

section \<open>The tables of a trained dictionary\<close>

definition read_ncount_ctable :: "bytes \<Rightarrow> nat \<Rightarrow> nat \<Rightarrow> (fse_table \<times> fse_ctable \<times> nat) res option" where
  "read_ncount_ctable src max_symbol max_log =
     then_do (parse_ncount_into src max_symbol max_log) (\<lambda>(norm, accuracy, consumed).
     then_do (from_norm norm accuracy) (\<lambda>dt.
     then_do (ctable_from_norm norm accuracy) (\<lambda>ct.
     Some (Inr (dt, ct, consumed)))))"

text \<open>The encoder's half of \<^verbatim>\<open>DictEntropy\<close>; the decoder's half is the \<open>dict_entropy\<close> of the dictionary.\<close>

record dict_encoders =
  dn_huff :: huff_ctable
  dn_ll :: fse_ctable
  dn_of :: fse_ctable
  dn_ml :: fse_ctable

definition MAGIC_DICTIONARY :: nat where "MAGIC_DICTIONARY = 0xEC30A437"
definition DICT_ID_PUBLIC_MIN :: nat where "DICT_ID_PUBLIC_MIN = 32768"
definition DICT_ID_PUBLIC_MAX :: nat where "DICT_ID_PUBLIC_MAX = 0x80000000"

text \<open>A parser run on \<^verbatim>\<open>&src[pos..]\<close>, which has no value past the end.\<close>

definition parse_at :: "bytes \<Rightarrow> nat \<Rightarrow> (bytes \<Rightarrow> 'a res option) \<Rightarrow> 'a res option" where
  "parse_at src pos rd = Option.bind (slice_from src pos) rd"

text \<open>The last part: the three repeat offsets, which must reach into the content, and the content.\<close>

definition trained_tail :: "bytes \<Rightarrow> nat \<Rightarrow> dict_entropy \<Rightarrow> dict_encoders \<Rightarrow> (dictionary \<times> dict_encoders option) res" where
  "trained_tail src pos entropy enc =
     (if length src < pos + 12 then Inl Corruption
      else
        let rb = take 12 (drop pos src);
            r0 = le_nat (take 4 rb); r1 = le_nat (take 4 (drop 4 rb)); r2 = le_nat (take 4 (drop 8 rb));
            content = drop (pos + 12) src;
            clen = length content mod 2 ^ 32
        in if r0 = 0 \<or> r1 = 0 \<or> r2 = 0 \<or> clen < r0 \<or> clen < r1 \<or> clen < r2 then Inl Corruption
           else Inr (\<lparr> dc_id = le_nat (take 4 (drop 4 src)), dc_content = content,
                       dc_entropy = Some (entropy\<lparr> de_reps := (r0, r1, r2) \<rparr>) \<rparr>, Some enc))"

definition parse_trained :: "bytes \<Rightarrow> (dictionary \<times> dict_encoders option) res option" where
  "parse_trained src =
     (if length src < 8 then Some (Inl Corruption)
      else
        let pos = 8
        in then_do (parse_at src pos read_tree_tables) (\<lambda>(huff_d, huff_c, hn).
        let pos = pos + hn in then_do (parse_at src pos (\<lambda>s. read_ncount_ctable s 31 8)) (\<lambda>(of_d, of_c, n).
        let pos = pos + n in then_do (parse_at src pos (\<lambda>s. read_ncount_ctable s 52 9)) (\<lambda>(ml_d, ml_c, n).
        let pos = pos + n in then_do (parse_at src pos (\<lambda>s. read_ncount_ctable s 35 9)) (\<lambda>(ll_d, ll_c, n).
        Some (trained_tail src (pos + n)
          \<lparr> de_huff = huff_d, de_ll = ll_d, de_of = of_d, de_ml = ml_d, de_reps = (0, 0, 0) \<rparr>
          \<lparr> dn_huff = huff_c, dn_ll = ll_c, dn_of = of_c, dn_ml = ml_c \<rparr>))))))"

definition dict_raw :: "bytes \<Rightarrow> dictionary" where
  "dict_raw content = \<lparr> dc_id = 0, dc_content = content, dc_entropy = None \<rparr>"

definition dict_from_bytes :: "bytes \<Rightarrow> (dictionary \<times> dict_encoders option) res option" where
  "dict_from_bytes src =
     (if 8 \<le> length src \<and> le_nat (take 4 src) = MAGIC_DICTIONARY then parse_trained src
      else Some (Inr (dict_raw src, None)))"

section \<open>Writing one\<close>

definition public_dict_id :: "xx_arm \<Rightarrow> bytes \<Rightarrow> nat option \<Rightarrow> nat" where
  "public_dict_id arm content forced =
     (case forced of Some ident \<Rightarrow> ident
      | None \<Rightarrow>
          let ident = content_checksum arm content;
              ident = (if ident < DICT_ID_PUBLIC_MIN then sat_add U32_MAX ident DICT_ID_PUBLIC_MIN else ident);
              ident = (if DICT_ID_PUBLIC_MAX \<le> ident
                then let ident = ident AND (DICT_ID_PUBLIC_MAX - 1)
                     in if ident < DICT_ID_PUBLIC_MIN then (ident + DICT_ID_PUBLIC_MIN) mod 2 ^ 32 else ident
                else ident)
          in if ident = 0 then DICT_ID_PUBLIC_MIN else ident)"

definition write_trained_parts :: "nat \<Rightarrow> bytes \<Rightarrow> bytes \<Rightarrow> bytes \<Rightarrow> bytes \<Rightarrow> nat \<times> nat \<times> nat \<Rightarrow> bytes \<Rightarrow> bytes" where
  "write_trained_parts ident huff_tree of_ncount ml_ncount ll_ncount rs content =
     (case rs of (r0, r1, r2) \<Rightarrow>
        le_bytes 4 MAGIC_DICTIONARY @ le_bytes 4 ident @ huff_tree @ of_ncount @ ml_ncount @ ll_ncount
        @ (le_bytes 4 r0 @ le_bytes 4 r1 @ le_bytes 4 r2) @ content)"

section \<open>Loading\<close>

text \<open>An encoding and a decoding table built from the same accepted counts.\<close>

definition fse_pair :: "nat \<Rightarrow> fse_table \<Rightarrow> fse_ctable \<Rightarrow> bool" where
  "fse_pair m dt ct \<longleftrightarrow> table_wf m dt \<and> (\<exists>norm log. ct_ok norm log ct \<and> dt = table_of norm log \<and> length norm \<le> Suc m)"

lemma read_ncount_ctable_ok:
  assumes "max_log \<le> 9" "max_symbol \<le> 255"
  shows "safe_res (\<lambda>(dt, ct, n). fse_pair max_symbol dt ct \<and> n \<le> length src) (read_ncount_ctable src max_symbol max_log)"
  unfolding read_ncount_ctable_def
proof (rule safe_res_then)
  show "safe_res (\<lambda>(norm, log, n). norm_ok log norm \<and> 5 \<le> log \<and> log \<le> max_log \<and> length norm \<le> Suc max_symbol \<and> n \<le> length src)
      (parse_ncount_into src max_symbol max_log)"
    using parse_ncount_ok [where src = src and max_symbol = max_symbol and max_log = max_log] assms(1)
    by (auto simp: safe_res_def split: option.splits sum.splits)
  fix x :: "int list \<times> nat \<times> nat"
  obtain norm log n where x: "x = (norm, log, n)" by (metis prod.exhaust)
  assume "case x of (norm, log, n) \<Rightarrow> norm_ok log norm \<and> 5 \<le> log \<and> log \<le> max_log \<and> length norm \<le> Suc max_symbol \<and> n \<le> length src"
  then have k: "norm_ok log norm" "5 \<le> log" "log \<le> 9" "length norm \<le> Suc max_symbol" "n \<le> length src" using assms(1) by (simp_all add: x)
  have "safe_res (\<lambda>t. True) (from_norm norm log)"
    using from_norm_range [of log norm] by (simp add: safe_res_def split: option.splits sum.splits)
  then show "safe_res (\<lambda>(dt, ct, n). fse_pair max_symbol dt ct \<and> n \<le> length src) (case x of (norm, accuracy, consumed) \<Rightarrow>
      then_do (from_norm norm accuracy) (\<lambda>dt. then_do (ctable_from_norm norm accuracy) (\<lambda>ct. Some (Inr (dt, ct, consumed)))))"
    unfolding x prod.case
  proof (cases rule: safe_res_cases)
    case (2 dt)
    note h = from_norm_some_high [OF k(1) 2(1)]
    obtain ct where ct: "ct_ok norm log ct" using ct_ok_ex(1) [OF k(1-3) h] by blast
    have dt: "dt = table_of norm log" using ct_ok_ex(2) [OF k(1-3) h] 2(1) by simp
    have "table_wf max_symbol dt" using from_norm_wf(1) [OF k(1) 2(1) k(4)] .
    then have "fse_pair max_symbol dt ct" using ct dt k(4) by (auto simp: fse_pair_def)
    then show "safe_res (\<lambda>(dt, ct, n). fse_pair max_symbol dt ct \<and> n \<le> length src)
      (then_do (from_norm norm log) (\<lambda>dt. then_do (ctable_from_norm norm log) (\<lambda>ct. Some (Inr (dt, ct, n)))))"
      using ct k(5) by (simp add: 2(1) ct_ok_def)
  qed simp
qed

text \<open>What loading establishes for the decoder and the encoder.\<close>

definition loaded :: "dictionary \<Rightarrow> dict_encoders option \<Rightarrow> bool" where
  "loaded d enc \<longleftrightarrow> dict_wf (Some d) \<and> dc_id d < 2 ^ 32
     \<and> (case dc_entropy d of None \<Rightarrow> enc = None
        | Some e \<Rightarrow> (\<exists>c. enc = Some c \<and> same_code (dn_huff c) (de_huff e) \<and> fse_pair 35 (de_ll e) (dn_ll c)
             \<and> fse_pair 31 (de_of e) (dn_of c) \<and> fse_pair 52 (de_ml e) (dn_ml c))
           \<and> (case de_reps e of (r0, r1, r2) \<Rightarrow> list_all (\<lambda>r. 1 \<le> r \<and> r \<le> length (dc_content d)) [r0, r1, r2]))"

lemma parse_at_ok:
  assumes "pos \<le> length src" "\<And>s. safe_res (\<lambda>(a, b, n). P a b \<and> n \<le> length s) (rd s)"
  shows "safe_res (\<lambda>(a, b, n). P a b \<and> pos + n \<le> length src) (parse_at src pos rd)"
  using assms(2) [of "drop pos src"] assms(1) by (auto simp: parse_at_def slice_from_def elim!: safe_res_mono)

lemma le_nat_take4: "le_nat (take 4 bs) < 2 ^ 32"
proof -
  have "le_nat (take 4 bs) < 256 ^ length (take 4 bs)" by (rule le_nat_less)
  also have "\<dots> \<le> 256 ^ 4" by (intro power_increasing) simp_all
  finally show ?thesis by simp
qed

text \<open>The tables of a dictionary, apart from its repeat offsets.\<close>

definition tables_loaded :: "dict_entropy \<Rightarrow> dict_encoders \<Rightarrow> bool" where
  "tables_loaded e c \<longleftrightarrow> same_code (dn_huff c) (de_huff e) \<and> fse_pair 35 (de_ll e) (dn_ll c)
     \<and> fse_pair 31 (de_of e) (dn_of c) \<and> fse_pair 52 (de_ml e) (dn_ml c)"

lemma trained_tail_ok:
  assumes "tables_loaded e c"
  shows "safe_res (\<lambda>(d, enc). loaded d enc) (Some (trained_tail src pos e c))"
proof (cases "length src < pos + 12")
  case False
  define rb where "rb = take 12 (drop pos src)"
  define r0 where "r0 = le_nat (take 4 rb)"
  define r1 where "r1 = le_nat (take 4 (drop 4 rb))"
  define r2 where "r2 = le_nat (take 4 (drop 8 rb))"
  define content where "content = drop (pos + 12) src"
  define clen where "clen = length content mod 2 ^ 32"
  have eq: "trained_tail src pos e c = (if r0 = 0 \<or> r1 = 0 \<or> r2 = 0 \<or> clen < r0 \<or> clen < r1 \<or> clen < r2 then Inl Corruption
      else Inr (\<lparr> dc_id = le_nat (take 4 (drop 4 src)), dc_content = content, dc_entropy = Some (e\<lparr> de_reps := (r0, r1, r2) \<rparr>) \<rparr>, Some c))"
    unfolding trained_tail_def if_not_P [OF False] Let_def rb_def r0_def r1_def r2_def content_def clen_def by (rule refl)
  have r: "r0 < 2 ^ 32" "r1 < 2 ^ 32" "r2 < 2 ^ 32" unfolding r0_def r1_def r2_def by (rule le_nat_take4)+
  have cl: "clen \<le> length content" by (simp add: clen_def)
  have d: "dict_wf (Some \<lparr> dc_id = i, dc_content = content, dc_entropy = Some (e\<lparr> de_reps := (r0, r1, r2) \<rparr>) \<rparr>)" for i
    using assms r by (simp add: dict_wf_def from_dict_def dec_wf_def state_wf_def reps_ok_def tables_loaded_def fse_pair_def same_code_def)
  show ?thesis
  proof (cases "r0 = 0 \<or> r1 = 0 \<or> r2 = 0 \<or> clen < r0 \<or> clen < r1 \<or> clen < r2")
    case True
    then show ?thesis unfolding eq by (simp only: if_True safe_res_simps)
  next
    case ok: False
    then have "loaded \<lparr> dc_id = le_nat (take 4 (drop 4 src)), dc_content = content, dc_entropy = Some (e\<lparr> de_reps := (r0, r1, r2) \<rparr>) \<rparr> (Some c)"
      using assms d cl le_nat_take4 [of "drop 4 src"] unfolding loaded_def tables_loaded_def by simp
    then show ?thesis unfolding eq if_not_P [OF ok] by simp
  qed
qed (simp add: trained_tail_def)

lemma parse_trained_ok: "safe_res (\<lambda>(d, enc). loaded d enc) (parse_trained src)"
proof (cases "length src < 8")
  case False
  have huff: "safe_res (\<lambda>(dt, ct, n). same_code ct dt \<and> n \<le> length s) (read_tree_tables s)" for s
    using read_tree_tables_ok [of s] by (rule safe_res_mono) auto
  have nc: "safe_res (\<lambda>(dt, ct, n). fse_pair m dt ct \<and> n \<le> length s) (read_ncount_ctable s m l)" if "l \<le> 9" "m \<le> 255" for s m l
    by (rule read_ncount_ctable_ok [OF that])
  have at: "pos \<le> length src \<Longrightarrow> l \<le> 9 \<Longrightarrow> m \<le> 255 \<Longrightarrow> safe_res (\<lambda>(dt, ct, n). fse_pair m dt ct \<and> pos + n \<le> length src)
      (parse_at src pos (\<lambda>s. read_ncount_ctable s m l))" for pos m l
    using parse_at_ok [of pos src "fse_pair m" "\<lambda>s. read_ncount_ctable s m l"] nc by blast
  have "8 \<le> length src" using False by simp
  note hd = parse_at_ok [OF this, of "\<lambda>dt ct. same_code ct dt" read_tree_tables, OF huff]
  show ?thesis
    unfolding parse_trained_def if_not_P [OF False] Let_def
    apply (rule safe_res_then [OF hd], clarify)
    apply (rule safe_res_then [OF at], assumption, simp, simp, clarify)
    apply (rule safe_res_then [OF at], assumption, simp, simp, clarify)
    apply (rule safe_res_then [OF at], assumption, simp, simp, clarify)
    apply (rule trained_tail_ok)
    apply (simp add: tables_loaded_def)
    done
qed (simp add: parse_trained_def)

text \<open>C19: loading a dictionary from any bytes ends in \<open>Corruption\<close> or in a dictionary whose decoding tables the
  block decoder can rely on, whose encoding tables were built from the same counts and weights, and whose repeat
  offsets reach into its content; no slice or unchecked access of the loaders is out of range.\<close>

theorem dictionary_load_safe:
  "case dict_from_bytes src of
     None \<Rightarrow> False
   | Some (Inl e) \<Rightarrow> e = Corruption
   | Some (Inr (d, enc)) \<Rightarrow> loaded d enc"
proof -
  have "loaded (dict_raw src) None"
    by (simp add: loaded_def dict_raw_def dict_wf_def from_dict_def dec_state_new_def dec_wf_def block_state_new_wf)
  then have "safe_res (\<lambda>(d, enc). loaded d enc) (dict_from_bytes src)"
    using parse_trained_ok [of src] by (simp add: dict_from_bytes_def)
  then show ?thesis by (auto simp: safe_res_def split: option.splits sum.splits)
qed

text \<open>C20: decoding with any dictionary loaded from bytes is decoding by the reference, on every input: the
  same output or the same error, with no unchecked access out of range. Nothing is asked of the dictionary; the
  profile-only read-ahead loops are off, and the output fits \<open>2 ^ 61\<close> bytes.\<close>

theorem dictionary_decode_exact:
  assumes "dict_from_bytes b = Some (Inr (d, enc))" "(length src + 1) * BLOCKSIZE_MAX < 2 ^ 61"
    and "\<not> ar_pipeline (fa_seq A)" "\<not> ar_pipe1 (fa_seq A)"
  shows "case decompress_ref (fa_seq A) src opts (Some d) [] [] USIZE_MAX of
      Inl e \<Rightarrow> decompress_using_dict_with A src d opts = Some (Inl e)
    | Inr out \<Rightarrow> \<exists>v. decompress_using_dict_with A src d opts = Some (Inr v) \<and> vec_is v out"
proof -
  have "loaded (dict_raw b) None"
    by (simp add: loaded_def dict_raw_def dict_wf_def from_dict_def dec_state_new_def dec_wf_def block_state_new_wf)
  then have "dict_wf (Some d)"
    using assms(1) parse_trained_ok [of b] by (auto simp: dict_from_bytes_def loaded_def split: if_splits)
  moreover have "length ([] :: bytes) + (length src + 1) * BLOCKSIZE_MAX < 2 ^ 61" using assms(2) by simp
  ultimately show ?thesis
    using decompress_into_ok [OF empty_vec_is _ _ assms(3,4), of src "Some d" opts "[]" USIZE_MAX]
    by (cases "decompress_ref (fa_seq A) src opts (Some d) [] [] USIZE_MAX")
      (auto simp: decompress_using_dict_with_def decompress_with_history_def)
qed

theorem dictionary_decode_exact_witness:
  "\<exists>d v. dict_from_bytes [1, 2, 3] = Some (Inr (d, None)) \<and> decompress_using_dict_with shipping_frame_arms (stored_frame
      \<lparr> sd_src_len = 0, sd_window_log = 17, sd_checksum = True, sd_pledged = Some 5, sd_ext_hist = False, sd_blocks = [[7, 7, 7], [104, 105]] \<rparr>)
      d default_opts = Some (Inr v) \<and> vec_is v [7, 7, 7, 104, 105]"
proof -
  let ?f = "\<lparr> sd_src_len = 0, sd_window_log = 17, sd_checksum = True, sd_pledged = Some 5, sd_ext_hist = False,
     sd_blocks = [[7, 7, 7], [104, 105]] \<rparr> :: stored"
  note f = sample_stored [OF refl [of ?f]]
  have "decompress_ref (fa_seq shipping_frame_arms) (concat (map stored_frame [?f]) @ []) default_opts (Some (dict_raw [1, 2, 3])) [] [] USIZE_MAX
      = Inr [7, 7, 7, 104, 105]"
    by (subst stored_frames_ref) (use f in \<open>simp_all add: USIZE_MAX_def\<close>)
  then have r: "decompress_ref (fa_seq shipping_frame_arms) (stored_frame ?f) default_opts (Some (dict_raw [1, 2, 3])) [] [] USIZE_MAX
      = Inr [7, 7, 7, 104, 105]" by simp
  have l: "dict_from_bytes [1, 2, 3] = Some (Inr (dict_raw [1, 2, 3], None))" by (simp add: dict_from_bytes_def)
  have b: "(length (stored_frame ?f) + 1) * BLOCKSIZE_MAX < 2 ^ 61" using f(3) by (simp add: BLOCKSIZE_MAX_def)
  from dictionary_decode_exact [OF l b shipping_no_ahead, of default_opts] r l show ?thesis by auto
qed

section \<open>Writing and identifying\<close>

text \<open>The parser reads what the trainer writes: each table from its own description (whatever follows it), the
  repeat offsets, the content.\<close>

lemma trained_parts_parse:
  assumes "ident < 2 ^ 32" "r0 < 2 ^ 32" "r1 < 2 ^ 32" "r2 < 2 ^ 32" "length content < 2 ^ 32"
    "list_all (\<lambda>r. 1 \<le> r \<and> r \<le> length content) [r0, r1, r2]"
    "\<And>s. read_tree_tables (ht @ s) = Some (Inr (hd', hc, length ht))"
    "\<And>s. read_ncount_ctable (ofn @ s) 31 8 = Some (Inr (ofd, ofc, length ofn))"
    "\<And>s. read_ncount_ctable (mln @ s) 52 9 = Some (Inr (mld, mlc, length mln))"
    "\<And>s. read_ncount_ctable (lln @ s) 35 9 = Some (Inr (lld, llc, length lln))"
  shows "dict_from_bytes (write_trained_parts ident ht ofn mln lln (r0, r1, r2) content) = Some (Inr (
      \<lparr> dc_id = ident, dc_content = content, dc_entropy = Some \<lparr> de_huff = hd', de_ll = lld, de_of = ofd, de_ml = mld, de_reps = (r0, r1, r2) \<rparr> \<rparr>,
      Some \<lparr> dn_huff = hc, dn_ll = llc, dn_of = ofc, dn_ml = mlc \<rparr>))"
proof -
  define R where "R = le_bytes 4 r0 @ le_bytes 4 r1 @ le_bytes 4 r2"
  define A where "A = le_bytes 4 MAGIC_DICTIONARY @ le_bytes 4 ident"
  define src where "src = A @ ht @ ofn @ mln @ lln @ R @ content"
  have w: "write_trained_parts ident ht ofn mln lln (r0, r1, r2) content = src" by (simp add: write_trained_parts_def src_def A_def R_def)
  have A: "length A = 8" "take 4 A = le_bytes 4 MAGIC_DICTIONARY" "drop 4 A = le_bytes 4 ident" by (simp_all add: A_def)
  have len: "8 \<le> length src" "\<not> length src < 8" using A(1) by (simp_all add: src_def)
  have "le_nat (take 4 src) = MAGIC_DICTIONARY" using A by (simp add: src_def MAGIC_DICTIONARY_def)
  then have p: "dict_from_bytes src = parse_trained src" using len by (simp add: dict_from_bytes_def)
  define p1 where "p1 = 8 + length ht"
  define p2 where "p2 = p1 + length ofn"
  define p3 where "p3 = p2 + length mln"
  define p4 where "p4 = p3 + length lln"
  have at: "parse_at src 8 read_tree_tables = Some (Inr (hd', hc, length ht))"
    "parse_at src p1 (\<lambda>s. read_ncount_ctable s 31 8) = Some (Inr (ofd, ofc, length ofn))"
    "parse_at src p2 (\<lambda>s. read_ncount_ctable s 52 9) = Some (Inr (mld, mlc, length mln))"
    "parse_at src p3 (\<lambda>s. read_ncount_ctable s 35 9) = Some (Inr (lld, llc, length lln))"
    using A(1) by (simp_all add: parse_at_def slice_from_def src_def p1_def p2_def p3_def assms(7-10))
  have drop4: "drop p4 src = R @ content" "length src = p4 + 12 + length content" "drop (p4 + 12) src = content"
    using A(1) by (simp_all add: src_def p1_def p2_def p3_def p4_def R_def)
  have R: "take 12 (R @ content) = R" "le_nat (take 4 R) = r0" "le_nat (take 4 (drop 4 R)) = r1" "le_nat (take 4 (drop 8 R)) = r2"
    using assms(2-4) by (simp_all add: R_def)
  have i: "le_nat (take 4 (drop 4 src)) = ident" using A assms(1) by (simp add: src_def)
  have tail: "trained_tail src p4 e c = Inr (\<lparr> dc_id = ident, dc_content = content, dc_entropy = Some (e\<lparr> de_reps := (r0, r1, r2) \<rparr>) \<rparr>, Some c)" for e c
    using assms(5,6) unfolding trained_tail_def drop4 R i Let_def by simp
  show ?thesis
    unfolding w p parse_trained_def if_not_P [OF len(2)] Let_def at(1) then_do_simps prod.case
      p1_def [symmetric] at(2) p2_def [symmetric] at(3) p3_def [symmetric] at(4) p4_def [symmetric] tail by simp
qed

text \<open>A generated Dictionary_ID is public: at least 32768 and below \<open>2 ^ 31\<close>, whatever the content; a forced one
  is taken as it is.\<close>

theorem public_id_in_range:
  "DICT_ID_PUBLIC_MIN \<le> public_dict_id arm content None \<and> public_dict_id arm content None < DICT_ID_PUBLIC_MAX
   \<and> public_dict_id arm content (Some i) = i"
proof -
  define c where "c = content_checksum arm content"
  have c: "c < 4294967296" by (simp add: c_def content_checksum_def)
  define x where "x = (if c < 32768 then c + 32768 else c)"
  have x: "32768 \<le> x" "x < 4294967296" using c by (auto simp: x_def)
  have "sat_add U32_MAX c 32768 = c + 32768" if "c < 32768" using that by (simp add: sat_add_def U32_MAX_def)
  then have eq: "public_dict_id arm content None = (let y = (if 2147483648 \<le> x
        then let z = x AND 2147483647 in if z < 32768 then (z + 32768) mod 2 ^ 32 else z else x)
      in if y = 0 then 32768 else y)"
    by (simp add: public_dict_id_def c_def [symmetric] x_def DICT_ID_PUBLIC_MIN_def DICT_ID_PUBLIC_MAX_def Let_def)
  have z: "x AND 2147483647 < 2147483648"
    using nat_and_mask [of x 31] by simp
  show ?thesis
    using x z unfolding eq by (auto simp: public_dict_id_def DICT_ID_PUBLIC_MIN_def DICT_ID_PUBLIC_MAX_def Let_def)
qed

end
