(* ===== verification/Seek_Table.thy ===== *)
theory Seek_Table
  imports Frame_Roundtrip
begin

text \<open>
  The seekable format (\<^verbatim>\<open>seekable.rs\<close>): independent frames followed by a skippable frame that lists
  their sizes and checksums, so that one frame can be decoded without the others. The frame encoder
  (\<^verbatim>\<open>encode_oneshot\<close>, with the parameters it is given) is an argument \<open>enc\<close> of the writer.

  The lemmas show that the table written is the table parsed, that parsing is in bounds on any bytes, and that
  seeking to an offset of what was written decodes the chunk that holds it.
\<close>

definition SEEKABLE_SKIPPABLE_MAGIC :: nat where "SEEKABLE_SKIPPABLE_MAGIC = 0x184D2A5E"
definition SEEKABLE_MAGIC :: nat where "SEEKABLE_MAGIC = 0x8F92EAB1"

record seek_entry =
  se_compressed :: nat
  se_decompressed :: nat
  se_checksum :: "nat option"

record seek_table =
  sk_entries :: "seek_entry list"

text \<open>The sums are \<^verbatim>\<open>u64\<close>.\<close>

definition uncompressed_offset :: "seek_table \<Rightarrow> nat \<Rightarrow> nat" where
  "uncompressed_offset t i = sum_list (map se_decompressed (take i (sk_entries t))) mod 2 ^ 64"

definition compressed_offset :: "seek_table \<Rightarrow> nat \<Rightarrow> nat" where
  "compressed_offset t i = sum_list (map se_compressed (take i (sk_entries t))) mod 2 ^ 64"

definition uncompressed_size :: "seek_table \<Rightarrow> nat" where
  "uncompressed_size t = sum_list (map se_decompressed (sk_entries t)) mod 2 ^ 64"

section \<open>The table on disk\<close>

definition seek_row :: "bool \<Rightarrow> seek_entry \<Rightarrow> bytes" where
  "seek_row checksums e =
     (let entry_size = if checksums then 12 else 8;
          b = le_bytes 4 (se_compressed e) @ le_bytes 4 (se_decompressed e)
            @ (if checksums then le_bytes 4 (case se_checksum e of None \<Rightarrow> 0 | Some c \<Rightarrow> c) else replicate 4 0)
      in take entry_size b)"

definition append_seek_table :: "bytes \<Rightarrow> seek_entry list \<Rightarrow> bool \<Rightarrow> bytes" where
  "append_seek_table out entries checksums =
     (let entry_size = if checksums then 12 else 8;
          payload = length entries * entry_size + 9;
          hdr = le_bytes 4 SEEKABLE_SKIPPABLE_MAGIC @ le_bytes 4 (payload mod 2 ^ 32);
          ftr = le_bytes 4 (length entries mod 2 ^ 32) @ [if checksums then 0x80 else 0] @ le_bytes 4 SEEKABLE_MAGIC
      in out @ hdr @ concat (map (seek_row checksums) entries) @ ftr)"

definition chunks_exact :: "nat \<Rightarrow> bytes \<Rightarrow> bytes list" where
  "chunks_exact n body = map (\<lambda>i. take n (drop (i * n) body)) [0..<length body div n]"

definition parse_row :: "bool \<Rightarrow> bytes \<Rightarrow> seek_entry" where
  "parse_row has_sum ch =
     \<lparr> se_compressed = le_nat (take 4 ch), se_decompressed = le_nat (take 4 (drop 4 ch)),
       se_checksum = (if has_sum then Some (le_nat (take 4 (drop 8 ch))) else None) \<rparr>"

definition parse_seek_table :: "bytes \<Rightarrow> seek_table res" where
  "parse_seek_table src =
     (if length src < 17 then Inl Corruption
      else
        let n = length src;
            tl9 = drop (n - 9) src;
            magic = le_nat (drop 5 tl9);
            descriptor = tl9 ! 4
        in if magic \<noteq> SEEKABLE_MAGIC then Inl BadMagic
           else if descriptor AND 0x7C \<noteq> 0 then Inl ReservedBitSet
           else
             let has_sum = descriptor AND 0x80 \<noteq> 0;
                 num = le_nat (take 4 tl9);
                 entry_size = if has_sum then 12 else 8
             in rbind (ok_or (Option.bind (checked_mul USIZE_MAX num entry_size) (\<lambda>e. checked_add USIZE_MAX e 9)) Corruption) (\<lambda>payload.
                if U32_MAX < payload then Inl Corruption
                else
                  let skippable_len = sat_add USIZE_MAX 8 payload
                  in if n < skippable_len then Inl Corruption
                     else
                       let start = n - skippable_len;
                           hdr = take 8 (drop start src);
                           sm = le_nat (take 4 hdr)
                       in if sm \<noteq> SEEKABLE_SKIPPABLE_MAGIC \<and> \<not> is_skippable_magic sm then Inl BadMagic
                          else if le_nat (drop 4 hdr) \<noteq> payload then Inl Corruption
                          else rbind (ok_or (slice_get src (start + 8) (start + 8 + num * entry_size)) Corruption) (\<lambda>body.
                               Inr \<lparr> sk_entries = map (parse_row has_sum) (chunks_exact entry_size body) \<rparr>)))"

section \<open>Seeking and writing\<close>

fun frame_at_loop :: "frame_arms \<Rightarrow> bytes \<Rightarrow> nat \<Rightarrow> seek_entry list \<Rightarrow> nat \<Rightarrow> nat \<Rightarrow> vec res option" where
  "frame_at_loop A src offset [] uoff coff = Some (Inl UnexpectedEof)"
| "frame_at_loop A src offset (e # es) uoff coff =
     (let next = (uoff + se_decompressed e) mod 2 ^ 64
      in if offset < next then
           then_do (Some (ok_or (checked_add USIZE_MAX coff (se_compressed e)) Corruption)) (\<lambda>stop.
           if length src < stop then Some (Inl UnexpectedEof)
           else decompress A (take (stop - coff) (drop coff src)))
         else then_do (Some (ok_or (checked_add USIZE_MAX coff (se_compressed e)) Corruption)) (\<lambda>coff.
              frame_at_loop A src offset es next coff))"

definition decompress_frame_at :: "frame_arms \<Rightarrow> bytes \<Rightarrow> seek_table \<Rightarrow> nat \<Rightarrow> vec res option" where
  "decompress_frame_at A src table offset = frame_at_loop A src offset (sk_entries table) 0 0"

text \<open>The do-while loop over the chunks.\<close>

partial_function (option) seek_loop :: "(bytes \<Rightarrow> bytes res) \<Rightarrow> xx_arm \<Rightarrow> bool \<Rightarrow> nat \<Rightarrow> bytes \<Rightarrow> nat \<Rightarrow> seek_entry list \<Rightarrow> bytes
    \<Rightarrow> (seek_entry list \<times> bytes) res option" where
  "seek_loop enc arm checksum max_frame src off entries out =
     (let stop = min (off + max_frame) (length src); chunk = take (stop - off) (drop off src)
      in case enc chunk of
           Inl e \<Rightarrow> Some (Inl e)
         | Inr zst \<Rightarrow>
             if U32_MAX < length zst then Some (Inl ContentSizeTooLarge)
             else if U32_MAX < length chunk then Some (Inl ContentSizeTooLarge)
             else
               let e = \<lparr> se_compressed = length zst, se_decompressed = length chunk,
                         se_checksum = (if checksum then Some (content_checksum arm chunk) else None) \<rparr>
               in if length src \<le> stop then Some (Inr (entries @ [e], out @ zst))
                  else seek_loop enc arm checksum max_frame src stop (entries @ [e]) (out @ zst))"

declare seek_loop.simps [code]

definition compress_seekable_adv :: "(bytes \<Rightarrow> bytes res) \<Rightarrow> xx_arm \<Rightarrow> bytes \<Rightarrow> bool \<Rightarrow> nat \<Rightarrow> bytes res option" where
  "compress_seekable_adv enc arm src checksum max_frame_size =
     then_do (seek_loop enc arm checksum (max max_frame_size 1) src 0 [] []) (\<lambda>(entries, out).
     Some (Inr (append_seek_table out entries checksum)))"

section \<open>What is written is what is parsed\<close>

lemma chunks_exact_concat:
  assumes "\<forall>x \<in> set xs. length x = n" "0 < n"
  shows "chunks_exact n (concat xs) = xs"
proof -
  have len: "length (concat ys) = length ys * n" if "\<forall>x \<in> set ys. length x = n" for ys :: "bytes list"
    using that by (induction ys) simp_all
  have nth: "take n (drop (i * n) (concat ys)) = ys ! i" if "\<forall>x \<in> set ys. length x = n" "i < length ys" for ys :: "bytes list" and i
    using that by (induction ys arbitrary: i) (auto simp: nth_Cons' gr0_conv_Suc)
  show ?thesis using assms by (intro nth_equalityI) (simp_all add: chunks_exact_def len nth)
qed

definition entry_fits :: "bool \<Rightarrow> seek_entry \<Rightarrow> bool" where
  "entry_fits checksums e \<longleftrightarrow> se_compressed e < 2 ^ 32 \<and> se_decompressed e < 2 ^ 32
     \<and> (if checksums then \<exists>c < 2 ^ 32. se_checksum e = Some c else se_checksum e = None)"

lemma seek_row_ok:
  assumes "entry_fits checksums e"
  shows "length (seek_row checksums e) = (if checksums then 12 else 8)" "parse_row checksums (seek_row checksums e) = e"
  using assms by (auto simp: seek_row_def Let_def parse_row_def entry_fits_def simp del: le_bytes.simps)

lemma seek_flags: "(0x80 :: u8) AND 0x7C = 0" "(0x80 :: u8) AND 0x80 \<noteq> 0"
  by simp_all

lemma parse_append_table:
  assumes "list_all (entry_fits checksums) entries" "length entries * (if checksums then 12 else 8) + 9 \<le> U32_MAX"
  shows "parse_seek_table (append_seek_table out entries checksums) = Inr \<lparr> sk_entries = entries \<rparr>"
proof -
  define es where "es = (if checksums then 12 else 8 :: nat)"
  define payload where "payload = length entries * es + 9"
  define hdr where "hdr = le_bytes 4 SEEKABLE_SKIPPABLE_MAGIC @ le_bytes 4 payload"
  define rows where "rows = concat (map (seek_row checksums) entries)"
  define fl where "fl = (if checksums then 0x80 else 0 :: u8)"
  define ftr where "ftr = le_bytes 4 (length entries) @ [fl] @ le_bytes 4 SEEKABLE_MAGIC"
  define src where "src = out @ hdr @ rows @ ftr"
  have pl: "payload \<le> U32_MAX" "payload < 2 ^ 32" using assms(2) by (simp_all add: payload_def es_def U32_MAX_def)
  have "length entries \<le> payload" by (simp add: payload_def es_def)
  then have le: "length entries < 2 ^ 32" using pl by simp
  have eq: "append_seek_table out entries checksums = src"
    unfolding append_seek_table_def Let_def src_def hdr_def rows_def ftr_def fl_def es_def [symmetric] payload_def [symmetric]
    using pl le by simp
  have row: "\<forall>x \<in> set (map (seek_row checksums) entries). length x = es"
    using assms(1) seek_row_ok(1) by (auto simp: list_all_iff es_def)
  have lrows: "length rows = length entries * es"
    using row unfolding rows_def by (induction entries) (auto simp: add.commute)
  have lens: "length hdr = 8" "length ftr = 9" by (simp_all add: hdr_def ftr_def)
  have n: "length src = length out + 8 + payload" by (simp add: src_def lens lrows payload_def)
  have tl: "drop (length src - 9) src = ftr" by (simp add: src_def lens)
  have f: "le_nat (drop 5 ftr) = SEEKABLE_MAGIC" "ftr ! 4 = fl" "le_nat (take 4 ftr) = length entries"
    using le by (simp_all add: ftr_def SEEKABLE_MAGIC_def nth_append)
  have fl: "fl AND 0x7C = 0" "fl AND 0x80 \<noteq> 0 \<longleftrightarrow> checksums" by (simp_all add: fl_def seek_flags)
  have start: "length src - sat_add USIZE_MAX 8 payload = length out" "sat_add USIZE_MAX 8 payload = 8 + payload"
    using pl by (simp_all add: n sat_add_def USIZE_MAX_def U32_MAX_def)
  have h: "take 8 (drop (length out) src) = hdr" "le_nat (take 4 hdr) = SEEKABLE_SKIPPABLE_MAGIC" "le_nat (drop 4 hdr) = payload"
    using pl(2) by (simp_all add: src_def lens hdr_def SEEKABLE_SKIPPABLE_MAGIC_def)
  have body: "slice_get src (length out + 8) (length out + 8 + length entries * es) = Some rows"
    by (simp add: slice_get_def src_def lens lrows)
  have ck: "Option.bind (checked_mul USIZE_MAX (length entries) es) (\<lambda>e. checked_add USIZE_MAX e 9) = Some payload"
    using pl by (simp add: checked_mul_def checked_add_def payload_def USIZE_MAX_def U32_MAX_def)
  have "chunks_exact es rows = map (seek_row checksums) entries"
    unfolding rows_def by (rule chunks_exact_concat [OF row]) (simp add: es_def)
  then have rows: "map (parse_row checksums) (chunks_exact es rows) = entries"
    using assms(1) seek_row_ok(2) by (auto simp: list_all_iff intro: map_idI)
  have g: "\<not> length src < 17" "\<not> U32_MAX < payload" "\<not> length src < sat_add USIZE_MAX 8 payload"
    using pl n start(2) by (simp_all add: payload_def)
  show ?thesis
    unfolding eq parse_seek_table_def if_not_P [OF g(1)] Let_def tl f fl es_def [symmetric] ck ok_or_simps rbind_simps if_not_P [OF g(2)]
      if_not_P [OF g(3)] start(1) h body rows by (simp add: rows)
qed

text \<open>The writer does not check that the table fits its 32-bit size field; a table that does not is refused.\<close>

lemma oversized_table_refused:
  assumes "U32_MAX < length entries * (if checksums then 12 else 8) + 9" "length entries < 2 ^ 32"
  shows "parse_seek_table (append_seek_table out entries checksums) = Inl Corruption"
proof -
  define es where "es = (if checksums then 12 else 8 :: nat)"
  define payload where "payload = length entries * es + 9"
  define hdr where "hdr = le_bytes 4 SEEKABLE_SKIPPABLE_MAGIC @ le_bytes 4 (payload mod 2 ^ 32)"
  define rows where "rows = concat (map (seek_row checksums) entries)"
  define fl where "fl = (if checksums then 0x80 else 0 :: u8)"
  define ftr where "ftr = le_bytes 4 (length entries mod 2 ^ 32) @ [fl] @ le_bytes 4 SEEKABLE_MAGIC"
  define src where "src = out @ hdr @ rows @ ftr"
  have eq: "append_seek_table out entries checksums = src"
    unfolding append_seek_table_def Let_def src_def hdr_def rows_def ftr_def fl_def es_def [symmetric] payload_def [symmetric] by (rule refl)
  have lens: "length hdr = 8" "length ftr = 9" by (simp_all add: hdr_def ftr_def)
  have g: "\<not> length src < 17" by (simp add: src_def lens)
  have tl: "drop (length src - 9) src = ftr" by (simp add: src_def lens)
  have f: "le_nat (drop 5 ftr) = SEEKABLE_MAGIC" "ftr ! 4 = fl" "le_nat (take 4 ftr) = length entries"
    using assms(2) by (simp_all add: ftr_def SEEKABLE_MAGIC_def nth_append)
  have fl: "fl AND 0x7C = 0" "fl AND 0x80 \<noteq> 0 \<longleftrightarrow> checksums" by (simp_all add: fl_def seek_flags)
  have big: "U32_MAX < payload" using assms(1) by (simp add: payload_def es_def)
  have "payload \<le> 4294967296 * 12 + 9" using assms(2) by (simp add: payload_def es_def)
  then have ck: "Option.bind (checked_mul USIZE_MAX (length entries) es) (\<lambda>e. checked_add USIZE_MAX e 9) = Some payload"
    by (simp add: checked_mul_def checked_add_def payload_def USIZE_MAX_def)
  show ?thesis
    unfolding eq parse_seek_table_def if_not_P [OF g(1)] Let_def tl f fl es_def [symmetric] ck ok_or_simps rbind_simps if_P [OF big] by simp
qed

section \<open>Parsing any bytes\<close>

lemma le_nat_field: "length bs \<le> 4 \<Longrightarrow> le_nat bs < 2 ^ 32"
proof -
  assume "length bs \<le> 4"
  then have "(256 :: nat) ^ length bs \<le> 256 ^ 4" by (intro power_increasing) simp_all
  then show ?thesis using le_nat_less [of bs] by simp
qed

lemma parse_row_fits: "entry_fits has_sum (parse_row has_sum ch)"
  by (simp add: entry_fits_def parse_row_def le_nat_field [simplified])

lemma parse_seek_table_ok:
  "case parse_seek_table src of
     Inl e \<Rightarrow> e = Corruption \<or> e = BadMagic \<or> e = ReservedBitSet
   | Inr t \<Rightarrow> \<exists>has_sum. list_all (entry_fits has_sum) (sk_entries t) \<and> 8 * length (sk_entries t) + 17 \<le> length src
       \<and> length (sk_entries t) < 2 ^ 29"
proof (cases "parse_seek_table src")
  case (Inl e)
  then show ?thesis
    by (auto simp: parse_seek_table_def Let_def rbind_Inl_iff ok_or_def split: if_splits option.splits)
next
  case (Inr t)
  define n where "n = length src"
  define tl9 where "tl9 = drop (n - 9) src"
  define has_sum where "has_sum \<longleftrightarrow> tl9 ! 4 AND 0x80 \<noteq> 0"
  define num where "num = le_nat (take 4 tl9)"
  define es where "es = (if has_sum then 12 else 8 :: nat)"
  obtain payload body where b:
    "Option.bind (checked_mul USIZE_MAX num es) (\<lambda>e. checked_add USIZE_MAX e 9) = Some payload" "\<not> U32_MAX < payload"
    "\<not> n < sat_add USIZE_MAX 8 payload"
    "slice_get src (n - sat_add USIZE_MAX 8 payload + 8) (n - sat_add USIZE_MAX 8 payload + 8 + num * es) = Some body"
    "t = \<lparr> sk_entries = map (parse_row has_sum) (chunks_exact es body) \<rparr>"
    using Inr unfolding parse_seek_table_def Let_def n_def [symmetric] tl9_def [symmetric] has_sum_def [symmetric] num_def [symmetric] es_def [symmetric]
    by (auto simp: res_simps split: if_splits)
  have p: "payload = num * es + 9" using b(1) by (auto simp: checked_mul_def checked_add_def split: if_splits Option.bind_splits)
  have "sat_add USIZE_MAX 8 payload = 8 + payload" using b(2) by (simp add: sat_add_def USIZE_MAX_def U32_MAX_def)
  then have n: "8 + payload \<le> n" using b(3) by simp
  have body: "length body = num * es" using b(4) by (auto simp: slice_get_def split: if_splits)
  have len: "length (chunks_exact es body) = num" by (simp add: chunks_exact_def body es_def)
  have "es = 12 \<or> es = 8" by (simp add: es_def)
  then have "8 * num + 17 \<le> length src" "num < 2 ^ 29" using n p b(2) by (auto simp: n_def U32_MAX_def)
  then show ?thesis using Inr parse_row_fits by (auto simp: len b(5) list_all_iff)
qed

text \<open>The offsets of a parsed table do not wrap.\<close>

lemma sum_field_less: "list_all (\<lambda>e. f e < 2 ^ 32) es \<Longrightarrow> sum_list (map f es) \<le> length es * (2 ^ 32 - 1)"
  by (induction es) auto

lemma parsed_offsets:
  assumes "parse_seek_table src = Inr t"
  shows "uncompressed_offset t i = sum_list (map se_decompressed (take i (sk_entries t)))"
    "compressed_offset t i = sum_list (map se_compressed (take i (sk_entries t)))"
    "uncompressed_size t = sum_list (map se_decompressed (sk_entries t))"
proof -
  obtain ck where f: "list_all (entry_fits ck) (sk_entries t)" "length (sk_entries t) < 2 ^ 29"
    using parse_seek_table_ok [of src] assms by auto
  have "sum_list (map g (take i (sk_entries t))) < 2 ^ 64" if "list_all (\<lambda>e. g e < 2 ^ 32) (sk_entries t)" for g :: "seek_entry \<Rightarrow> nat" and i
  proof -
    have "list_all (\<lambda>e. g e < 2 ^ 32) (take i (sk_entries t))" using that by (auto simp: list_all_iff dest: in_set_takeD)
    then have "sum_list (map g (take i (sk_entries t))) \<le> length (take i (sk_entries t)) * (2 ^ 32 - 1)" by (rule sum_field_less)
    also have "\<dots> \<le> 2 ^ 29 * (2 ^ 32 - 1)" using f(2) by (intro mult_le_mono1) simp
    finally show ?thesis by simp
  qed
  note s = this
  have fits: "list_all (\<lambda>e. se_decompressed e < 2 ^ 32) (sk_entries t)" "list_all (\<lambda>e. se_compressed e < 2 ^ 32) (sk_entries t)"
    using f(1) by (auto simp: list_all_iff entry_fits_def)
  show "uncompressed_offset t i = sum_list (map se_decompressed (take i (sk_entries t)))"
    "compressed_offset t i = sum_list (map se_compressed (take i (sk_entries t)))"
    using s [OF fits(1), of i] s [OF fits(2), of i] by (simp_all add: uncompressed_offset_def compressed_offset_def)
  show "uncompressed_size t = sum_list (map se_decompressed (sk_entries t))"
    using s [OF fits(1), of "length (sk_entries t)"] by (simp add: uncompressed_size_def)
qed

section \<open>Writing chunk by chunk\<close>

text \<open>The chunks of the input: \<open>m\<close> bytes each, the last one shorter, one empty chunk for empty input.\<close>

function chunk_list :: "nat \<Rightarrow> bytes \<Rightarrow> bytes list" where
  "chunk_list m xs = (if length xs \<le> m \<or> m = 0 then [xs] else take m xs # chunk_list m (drop m xs))"
  by pat_completeness auto
termination by (relation "measure (\<lambda>(m, xs). length xs)") auto

declare chunk_list.simps [simp del]

lemma chunk_list_split:
  assumes "0 < m" "chunk_list m src = xs @ c # ys"
  shows "concat xs @ c @ concat ys = src" "length (concat xs) = length xs * m" "c = take m (drop (length xs * m) src)" "length c \<le> m"
proof -
  have "concat xs @ c @ concat ys = src \<and> length (concat xs) = length xs * m \<and> c = take m (drop (length xs * m) src)"
    using assms
  proof (induction m src arbitrary: xs rule: chunk_list.induct)
    case (1 m src)
    show ?case
    proof (cases "length src \<le> m \<or> m = 0")
      case True
      then have "[src] = xs @ c # ys" using 1(3) by (simp add: chunk_list.simps [of m src])
      then have "xs = []" "c = src" "ys = []" by (cases xs; simp)+
      then show ?thesis using True 1(2) by simp
    next
      case False
      then have e: "take m src # chunk_list m (drop m src) = xs @ c # ys" using 1(3) by (simp add: chunk_list.simps [of m src])
      show ?thesis
      proof (cases xs)
        case Nil
        then have "c = take m src" "chunk_list m (drop m src) = ys" using e by auto
        moreover have "concat (chunk_list m zs) = zs" for zs
          by (induction m zs rule: chunk_list.induct) (simp add: chunk_list.simps)
        ultimately show ?thesis using Nil by auto
      next
        case (Cons x xs')
        then have x: "x = take m src" "chunk_list m (drop m src) = xs' @ c # ys" using e by auto
        have ih: "concat xs' @ c @ concat ys = drop m src \<and> length (concat xs') = length xs' * m \<and> c = take m (drop (length xs' * m) (drop m src))"
          using 1(1) [OF False 1(2) x(2)] .
        then show ?thesis using Cons x(1) False by (auto simp: add.commute)
      qed
    qed
  qed
  then show "concat xs @ c @ concat ys = src" "length (concat xs) = length xs * m" "c = take m (drop (length xs * m) src)" by blast+
  then show "length c \<le> m" by simp
qed

lemma concat_chunk_list [simp]: "concat (chunk_list m zs) = zs"
  by (induction m zs rule: chunk_list.induct) (simp add: chunk_list.simps)

lemma length_chunk_list: "0 < m \<Longrightarrow> length (chunk_list m zs) \<le> length zs div m + 1"
proof (induction m zs rule: chunk_list.induct)
  case (1 m zs)
  show ?case
  proof (cases "length zs \<le> m")
    case False
    then have "length (chunk_list m (drop m zs)) \<le> (length zs - m) div m + 1" using 1 by simp
    also have "\<dots> = length zs div m" using False 1(2) by (simp add: le_div_geq)
    finally show ?thesis using False 1(2) by (simp add: chunk_list.simps [of m zs])
  qed (simp add: chunk_list.simps [of m zs])
qed

text \<open>The frame an encoder writes for a chunk, and its row.\<close>

definition frame_for :: "(bytes \<Rightarrow> bytes res) \<Rightarrow> bytes \<Rightarrow> bytes" where
  "frame_for enc c = (case enc c of Inl _ \<Rightarrow> [] | Inr z \<Rightarrow> z)"

definition row_for :: "(bytes \<Rightarrow> bytes res) \<Rightarrow> xx_arm \<Rightarrow> bool \<Rightarrow> bytes \<Rightarrow> seek_entry" where
  "row_for enc arm checksum c = \<lparr> se_compressed = length (frame_for enc c), se_decompressed = length c,
     se_checksum = (if checksum then Some (content_checksum arm c) else None) \<rparr>"

lemma seek_loop_ok:
  assumes "0 < m" "m \<le> U32_MAX" "\<forall>c. length c \<le> m \<longrightarrow> (\<exists>z. enc c = Inr z \<and> length z \<le> U32_MAX)"
  shows "off \<le> length src \<Longrightarrow> seek_loop enc arm checksum m src off entries out =
    Some (Inr (entries @ map (row_for enc arm checksum) (chunk_list m (drop off src)), out @ concat (map (frame_for enc) (chunk_list m (drop off src)))))"
proof (induction "length src - off" arbitrary: off entries out rule: less_induct)
  case less
  define rest where "rest = drop off src"
  define stop where "stop = min (off + m) (length src)"
  have chunk: "take (stop - off) (drop off src) = take m rest"
    using less.prems by (auto simp: stop_def rest_def min_def)
  have lc: "length (take m rest) \<le> m" by simp
  then obtain z where z: "enc (take m rest) = Inr z" "length z \<le> U32_MAX" using assms(3) by blast
  then have f: "frame_for enc (take m rest) = z" by (simp add: frame_for_def)
  have small: "\<not> U32_MAX < length (take m rest)" "\<not> U32_MAX < length z" using assms(2) z(2) by auto
  have row: "\<lparr> se_compressed = length z, se_decompressed = length (take m rest),
      se_checksum = (if checksum then Some (content_checksum arm (take m rest)) else None) \<rparr> = row_for enc arm checksum (take m rest)"
    by (simp add: row_for_def f)
  have step: "seek_loop enc arm checksum m src off entries out =
      (if length src \<le> stop then Some (Inr (entries @ [row_for enc arm checksum (take m rest)], out @ z))
       else seek_loop enc arm checksum m src stop (entries @ [row_for enc arm checksum (take m rest)]) (out @ z))"
    unfolding seek_loop.simps [of _ _ _ _ _ off] Let_def stop_def [symmetric] chunk z(1) sum.case if_not_P [OF small(1)] if_not_P [OF small(2)] row
    by (rule refl)
  show ?case
  proof (cases "length rest \<le> m")
    case True
    then have "length src \<le> stop" using less.prems by (simp add: rest_def stop_def)
    then show ?thesis using True f unfolding step rest_def [symmetric] by (simp add: chunk_list.simps [of m rest])
  next
    case False
    then have s: "stop = off + m" "stop < length src" using less.prems by (auto simp: rest_def stop_def)
    have d: "drop stop src = drop m rest" by (simp add: s(1) rest_def add.commute)
    have "seek_loop enc arm checksum m src stop (entries @ [row_for enc arm checksum (take m rest)]) (out @ z) =
      Some (Inr ((entries @ [row_for enc arm checksum (take m rest)]) @ map (row_for enc arm checksum) (chunk_list m (drop stop src)),
        (out @ z) @ concat (map (frame_for enc) (chunk_list m (drop stop src)))))"
      using s assms(1) less.prems by (intro less.hyps) auto
    then show ?thesis using s(2) False assms(1) f unfolding step rest_def [symmetric] d by (simp add: chunk_list.simps [of m rest])
  qed
qed

section \<open>Seeking\<close>

text \<open>The frame that covers an offset is found and cut out exactly.\<close>

lemma frame_at_loop_ok:
  assumes "u \<le> offset" "offset < u + length (concat cs)" "u + length (concat cs) < 2 ^ 64"
    "length (pre @ concat (map (frame_for enc) cs)) \<le> USIZE_MAX"
  shows "\<exists>xs c ys. cs = xs @ c # ys \<and> u + length (concat xs) \<le> offset \<and> offset < u + length (concat xs) + length c
    \<and> frame_at_loop A (pre @ concat (map (frame_for enc) cs) @ post) offset (map (row_for enc arm checksum) cs) u (length pre)
      = decompress A (frame_for enc c)"
  using assms
proof (induction cs arbitrary: u pre)
  case (Cons c cs)
  let ?z = "frame_for enc c"
  have next': "(u + length c) mod 2 ^ 64 = u + length c" using Cons.prems(3) by simp
  have room: "length pre + length ?z \<le> USIZE_MAX" using Cons.prems(4) by simp
  have step: "frame_at_loop A (pre @ concat (map (frame_for enc) (c # cs)) @ post) offset (map (row_for enc arm checksum) (c # cs)) u (length pre)
    = (if offset < u + length c then decompress A ?z
       else frame_at_loop A (pre @ concat (map (frame_for enc) (c # cs)) @ post) offset (map (row_for enc arm checksum) cs) (u + length c) (length pre + length ?z))"
    using room unfolding list.map frame_at_loop.simps Let_def row_for_def seek_entry.simps next' by (simp add: checked_add_def)
  show ?case
  proof (cases "offset < u + length c")
    case True
    have "c # cs = [] @ c # cs" by simp
    moreover have "u + length (concat []) \<le> offset" "offset < u + length (concat []) + length c" using Cons.prems(1) True by simp_all
    ultimately show ?thesis using step True by (metis (no_types, lifting))
  next
    case False
    have "length ((pre @ ?z) @ concat (map (frame_for enc) cs)) \<le> USIZE_MAX" using Cons.prems(4) by simp
    then obtain xs d ys where ih: "cs = xs @ d # ys" "u + length c + length (concat xs) \<le> offset" "offset < u + length c + length (concat xs) + length d"
      "frame_at_loop A ((pre @ ?z) @ concat (map (frame_for enc) cs) @ post) offset (map (row_for enc arm checksum) cs) (u + length c) (length (pre @ ?z))
        = decompress A (frame_for enc d)"
      using Cons.IH [of "u + length c" "pre @ ?z"] Cons.prems False by auto
    have "c # cs = (c # xs) @ d # ys" using ih(1) by simp
    moreover have "u + length (concat (c # xs)) \<le> offset" "offset < u + length (concat (c # xs)) + length d" using ih(2,3) by simp_all
    moreover have "frame_at_loop A (pre @ concat (map (frame_for enc) (c # cs)) @ post) offset (map (row_for enc arm checksum) (c # cs)) u (length pre)
      = decompress A (frame_for enc d)" using step False ih(4) by simp
    ultimately show ?thesis by blast
  qed
qed simp

section \<open>What the seekable format promises\<close>

text \<open>The seek table survives the round trip after any bytes: every row of a table whose sizes and checksums are
  32-bit numbers is read back as it was written.\<close>

theorem seek_table_roundtrip:
  assumes "list_all (entry_fits checksums) entries" "length entries * (if checksums then 12 else 8) + 9 \<le> U32_MAX"
  shows "parse_seek_table (append_seek_table out entries checksums) = Inr \<lparr> sk_entries = entries \<rparr>"
  using assms by (rule parse_append_table)

theorem seek_table_roundtrip_witness:
  "parse_seek_table (append_seek_table [1, 2] [\<lparr> se_compressed = 300, se_decompressed = 7, se_checksum = Some 9 \<rparr>] True)
    = Inr \<lparr> sk_entries = [\<lparr> se_compressed = 300, se_decompressed = 7, se_checksum = Some 9 \<rparr>] \<rparr>"
  using seek_table_roundtrip [of True "[\<lparr> se_compressed = 300, se_decompressed = 7, se_checksum = Some 9 \<rparr>]" "[1, 2]"]
  by (simp add: entry_fits_def U32_MAX_def)

text \<open>Parsing a seek table from any bytes ends in one of three errors or in a table that fits the input, with 32-bit
  sizes and either a checksum in every row or none.\<close>

theorem seek_table_parse_safe:
  "case parse_seek_table src of
     Inl e \<Rightarrow> e = Corruption \<or> e = BadMagic \<or> e = ReservedBitSet
   | Inr t \<Rightarrow> (\<exists>has_sum. list_all (entry_fits has_sum) (sk_entries t)) \<and> 8 * length (sk_entries t) + 17 \<le> length src
       \<and> uncompressed_size t = sum_list (map se_decompressed (sk_entries t))"
  using parse_seek_table_ok [of src] parsed_offsets(3) [of src] by (cases "parse_seek_table src") auto

text \<open>C29: for an input cut in chunks of at most \<open>U32_MAX\<close> bytes whose table, of 8 or 12 bytes for each chunk, stays within
  32 bits, and an encoder that writes, for a chunk, a frame of at most \<open>U32_MAX\<close> bytes the decoder returns it from, the
  seekable writer ends with a blob whose table lists all of the input, and seeking to any offset of the input decodes
  exactly the chunk that holds it. (A table beyond 32 bits is written with a wrapped size and refused,
  \<open>oversized_table_refused\<close>.)\<close>

theorem seekable_seeks:
  assumes "max max_frame 1 \<le> U32_MAX"
    and "\<And>c. length c \<le> max max_frame 1 \<Longrightarrow> \<exists>z v. enc c = Inr z \<and> length z \<le> U32_MAX \<and> decompress A z = Some (Inr v) \<and> vec_is v c"
    and "(length src div max max_frame 1 + 1) * (if checksum then 12 else 8) + 9 \<le> U32_MAX"
  shows "\<exists>blob table. compress_seekable_adv enc arm src checksum max_frame = Some (Inr blob) \<and> parse_seek_table blob = Inr table
    \<and> uncompressed_size table = length src
    \<and> (\<forall>offset < length src. \<exists>v. decompress_frame_at A blob table offset = Some (Inr v)
         \<and> vec_is v (take (max max_frame 1) (drop (offset div max max_frame 1 * max max_frame 1) src)))"
proof -
  define m where "m = max max_frame 1"
  define cs where "cs = chunk_list m src"
  define rows where "rows = map (row_for enc arm checksum) cs"
  define frames where "frames = concat (map (frame_for enc) cs)"
  define blob where "blob = append_seek_table frames rows checksum"
  have m: "0 < m" "m \<le> U32_MAX" using assms(1) by (simp_all add: m_def)
  have enc: "\<exists>z v. enc c = Inr z \<and> length z \<le> U32_MAX \<and> decompress A z = Some (Inr v) \<and> vec_is v c" if "length c \<le> m" for c
    using assms(2) that by (simp add: m_def)
  have "\<forall>c. length c \<le> m \<longrightarrow> (\<exists>z. enc c = Inr z \<and> length z \<le> U32_MAX)" using enc by blast
  from seek_loop_ok [OF m this, of 0 src arm checksum "[]" "[]"]
  have loop: "seek_loop enc arm checksum m src 0 [] [] = Some (Inr (rows, frames))" by (simp add: rows_def frames_def cs_def)
  then have comp: "compress_seekable_adv enc arm src checksum max_frame = Some (Inr blob)"
    unfolding compress_seekable_adv_def m_def [symmetric] by (simp add: blob_def)
  have chunk: "length c \<le> m" "length (frame_for enc c) \<le> U32_MAX" if "c \<in> set cs" for c
  proof -
    from split_list [OF that] obtain xs ys where "cs = xs @ c # ys" by blast
    then show "length c \<le> m" using chunk_list_split(4) [OF m(1)] by (simp add: cs_def)
    then show "length (frame_for enc c) \<le> U32_MAX" using enc [of c] by (auto simp: frame_for_def)
  qed
  have ncs: "length cs \<le> length src div m + 1" unfolding cs_def by (rule length_chunk_list [OF m(1)])
  have "entry_fits checksum (row_for enc arm checksum c)" if "c \<in> set cs" for c
    using chunk [OF that] m(2) by (simp add: entry_fits_def row_for_def content_checksum_def U32_MAX_def)
  then have fit: "list_all (entry_fits checksum) rows" by (simp add: list_all_iff rows_def)
  have rows_max: "(length src div m + 1) * (if checksum then 12 else 8) + 9 \<le> U32_MAX" using assms(3) by (simp add: m_def)
  have "length rows * (if checksum then 12 else 8) \<le> (length src div m + 1) * (if checksum then 12 else 8)"
    using ncs by (intro mult_le_mono1) (simp add: rows_def)
  then have payload: "length rows * (if checksum then 12 else 8) + 9 \<le> U32_MAX" using rows_max by linarith
  have parse: "parse_seek_table blob = Inr \<lparr> sk_entries = rows \<rparr>" unfolding blob_def by (rule parse_append_table [OF fit payload])
  have "uncompressed_size \<lparr> sk_entries = rows \<rparr> = sum_list (map se_decompressed rows)" using parsed_offsets(3) [OF parse] by simp
  also have "\<dots> = length (concat cs)" by (simp add: rows_def row_for_def length_concat comp_def)
  finally have total: "uncompressed_size \<lparr> sk_entries = rows \<rparr> = length src" by (simp add: cs_def)
  have few: "length src div m + 1 \<le> 2 ^ 29 - 1" using rows_max by (simp add: U32_MAX_def split: if_splits)
  have "length src \<le> (length src div m + 1) * m" using dividend_less_div_times [OF m(1), of "length src"] by simp
  also have "\<dots> \<le> (2 ^ 29 - 1) * U32_MAX" by (rule mult_le_mono [OF few m(2)])
  finally have small: "length src < 2 ^ 61" by (simp add: U32_MAX_def)
  have lf: "length (frames) \<le> USIZE_MAX"
  proof -
    have "length (concat (map (frame_for enc) ds)) \<le> length ds * U32_MAX" if "set ds \<subseteq> set cs" for ds
      using that chunk(2) by (induction ds) (auto intro: add_mono)
    then have "length frames \<le> length cs * U32_MAX" by (simp add: frames_def)
    also have "\<dots> \<le> (2 ^ 29 - 1) * U32_MAX" by (rule mult_le_mono1 [OF le_trans [OF ncs few]])
    also have "\<dots> \<le> USIZE_MAX" by (simp add: USIZE_MAX_def U32_MAX_def)
    finally show ?thesis .
  qed
  have seek: "\<exists>v. decompress_frame_at A blob \<lparr> sk_entries = rows \<rparr> offset = Some (Inr v) \<and> vec_is v (take m (drop (offset div m * m) src))"
    if "offset < length src" for offset
  proof -
    obtain post where b: "blob = frames @ post" by (simp add: blob_def append_seek_table_def Let_def)
    have "0 + length (concat cs) < 2 ^ 64" "offset < 0 + length (concat cs)" "length ([] @ concat (map (frame_for enc) cs)) \<le> USIZE_MAX"
      using small that lf by (simp_all add: cs_def frames_def)
    then obtain xs c ys where f: "cs = xs @ c # ys" "length (concat xs) \<le> offset" "offset < length (concat xs) + length c"
      "frame_at_loop A ([] @ concat (map (frame_for enc) cs) @ post) offset (map (row_for enc arm checksum) cs) 0 (length ([] :: bytes))
        = decompress A (frame_for enc c)"
      using frame_at_loop_ok [of 0 offset cs "[]" enc A post arm checksum] by auto
    note sp = chunk_list_split [OF m(1) f(1) [unfolded cs_def]]
    have "length xs = offset div m"
      using f(2,3) sp(2,4) m(1) by (intro div_nat_eqI [symmetric]) (auto simp: mult.commute)
    then have c: "c = take m (drop (offset div m * m) src)" using sp(3) by simp
    obtain z v where z: "enc c = Inr z" "decompress A z = Some (Inr v)" "vec_is v c" using enc [OF sp(4)] by blast
    have "decompress_frame_at A blob \<lparr> sk_entries = rows \<rparr> offset = Some (Inr v)"
      using f(4) z by (simp add: decompress_frame_at_def b frames_def rows_def frame_for_def)
    then show ?thesis using z(3) c by blast
  qed
  then show ?thesis unfolding m_def [symmetric] using comp parse total by blast
qed

text \<open>An encoder that stores its chunk as one raw or repeated block.\<close>

definition store_chunk :: "bytes \<Rightarrow> bytes res" where
  "store_chunk c = Inr (stored_frame \<lparr> sd_src_len = 0, sd_window_log = 17, sd_checksum = False, sd_pledged = Some (length c),
     sd_ext_hist = False, sd_blocks = [c] \<rparr>)"

lemma store_chunk_ok:
  assumes "length c \<le> 2"
  shows "\<exists>z v. store_chunk c = Inr z \<and> length z \<le> U32_MAX \<and> decompress shipping_frame_arms z = Some (Inr v) \<and> vec_is v c"
proof -
  define f where "f = \<lparr> sd_src_len = 0, sd_window_log = 17, sd_checksum = False, sd_pledged = Some (length c), sd_ext_hist = False, sd_blocks = [c] \<rparr>"
  have ok: "sd_ok default_opts f" "sd_content f = c"
    using assms by (simp_all add: f_def sd_ok_def sd_header_def intended_header_def header_single_def block_size_max_def BLOCKSIZE_MAX_def
        sd_content_def default_opts_def DEFAULT_WINDOW_MAX_def)
  have len: "length (stored_frame f) < 60"
    using assms by (auto simp: f_def stored_frame_def write_frame_header_def Let_def case_prod_beta header_single_def fcs_field_def dict_field_def
        store_block_def short_exit_def raw_exit_def write_block_header_bytes split: option.splits)
  have b: "length ([] :: bytes) + (length (stored_frame f) + 1) * BLOCKSIZE_MAX < 2 ^ 61" using len by (simp add: BLOCKSIZE_MAX_def)
  have "decompress_ref (fa_seq shipping_frame_arms) (concat (map stored_frame [f]) @ []) default_opts None [] [] USIZE_MAX = Inr c"
    by (subst stored_frames_ref) (use ok len assms in \<open>simp_all add: USIZE_MAX_def\<close>)
  then have r: "decompress_ref (fa_seq shipping_frame_arms) (stored_frame f) default_opts None [] [] USIZE_MAX = Inr c" by simp
  have "\<exists>v. decompress shipping_frame_arms (stored_frame f) = Some (Inr v) \<and> vec_is v c"
    using decompress_into_ok [OF empty_vec_is b no_dict_wf shipping_no_ahead, of default_opts "[]" USIZE_MAX]
    unfolding r sum.case by (auto simp: decompress_def decompress_with_def decompress_with_history_def)
  then show ?thesis using len by (auto simp: store_chunk_def f_def U32_MAX_def)
qed

theorem seekable_seeks_witness:
  "\<exists>blob table v. compress_seekable_adv store_chunk ArmScalar [7, 8, 9] True 2 = Some (Inr blob) \<and> parse_seek_table blob = Inr table
    \<and> decompress_frame_at shipping_frame_arms blob table 2 = Some (Inr v) \<and> vec_is v [9]"
proof -
  have len: "length [7 :: u8, 8, 9] = 3" "max 2 1 = (2 :: nat)" by simp_all
  have "max 2 1 \<le> U32_MAX" "(length [7 :: u8, 8, 9] div max 2 1 + 1) * (if True then 12 else 8) + 9 \<le> U32_MAX"
    unfolding len by (simp_all add: U32_MAX_def)
  moreover have "\<exists>z v. store_chunk c = Inr z \<and> length z \<le> U32_MAX \<and> decompress shipping_frame_arms z = Some (Inr v) \<and> vec_is v c"
    if "length c \<le> max 2 1" for c using store_chunk_ok that by simp
  ultimately obtain blob table where s: "compress_seekable_adv store_chunk ArmScalar [7, 8, 9] True 2 = Some (Inr blob)"
    "parse_seek_table blob = Inr table"
    "\<forall>offset < length [7 :: u8, 8, 9]. \<exists>v. decompress_frame_at shipping_frame_arms blob table offset = Some (Inr v)
         \<and> vec_is v (take (max 2 1) (drop (offset div max 2 1 * max 2 1) [7, 8, 9]))"
    using seekable_seeks [where max_frame = 2 and enc = store_chunk and A = shipping_frame_arms and src = "[7, 8, 9]" and arm = ArmScalar and checksum = True]
    by blast
  have "take (max 2 1) (drop (2 div max 2 1 * max 2 1) [7, 8, 9]) = [9 :: u8]" by code_simp
  with s(3) have "\<exists>v. decompress_frame_at shipping_frame_arms blob table 2 = Some (Inr v) \<and> vec_is v [9]"
    by (metis length_Cons less_Suc_eq list.size(3) numeral_2_eq_2)
  with s(1,2) show ?thesis by blast
qed

end
