(* ===== verification/Huff_Build.thy ===== *)
theory Huff_Build
  imports Huff_Encode
begin

text \<open>
  The encoder's Huffman code from counts (\<^verbatim>\<open>huffman.rs\<close>): the two-queue merge over an arena of nodes and
  the walk that reads the depths off it (\<open>huffman_nbits\<close>), the repair that limits them to 11 bits
  with one bit set per code length (\<open>limit_nbits\<close>), and the code table (\<open>ctable_from_nbits\<close>); also the
  histograms of the literals, whole and per segment.

  The lemmas show that the build ends on any counts, never leaves the arena, and always succeeds when two symbols
  are present: every symbol present gets a code of 1 to 11 bits, no other does, and the code is
  complete, so that the table built from its weights has exactly these widths.
\<close>

section \<open>The merge\<close>

record huff_node =
  nd_count :: nat
  nd_left :: nat
  nd_right :: nat
  nd_sym :: int

text \<open>The smaller head of the two queues, a leaf before an internal node of the same count; the indices after it.\<close>

definition queue_head :: "huff_node list \<Rightarrow> nat list \<Rightarrow> nat \<Rightarrow> (nat \<times> nat) option" where
  "queue_head nodes q k = Option.bind (get_at q k) (\<lambda>i. map_option (\<lambda>n. (nd_count n, i)) (get_at nodes i))"

definition pop_min :: "huff_node list \<Rightarrow> nat list \<Rightarrow> nat \<Rightarrow> nat list \<Rightarrow> nat \<Rightarrow> (nat \<times> nat \<times> nat) option" where
  "pop_min nodes leaves li internal ii =
     (case (queue_head nodes leaves li, queue_head nodes internal ii) of
        (Some (l, leaf), Some (x, node)) \<Rightarrow> if l \<le> x then Some (leaf, li + 1, ii) else Some (node, li, ii + 1)
      | (None, Some (x, node)) \<Rightarrow> Some (node, li, ii + 1)
      | (Some (l, leaf), None) \<Rightarrow> Some (leaf, li + 1, ii)
      | (None, None) \<Rightarrow> None)"

definition merge_step :: "nat list \<Rightarrow> huff_node list \<Rightarrow> nat \<Rightarrow> nat list \<Rightarrow> nat
    \<Rightarrow> (huff_node list \<times> nat \<times> nat list \<times> nat) res" where
  "merge_step leaves nodes li internal ii =
     rbind (ok_or (pop_min nodes leaves li internal ii) Corruption) (\<lambda>(a, li, ii).
     rbind (ok_or (pop_min nodes leaves li internal ii) Corruption) (\<lambda>(b, li, ii).
       case (get_at nodes a, get_at nodes b) of
         (Some x, Some y) \<Rightarrow>
           Inr (nodes @ [\<lparr> nd_count = nd_count x + nd_count y, nd_left = a, nd_right = b, nd_sym = -1 \<rparr>],
                li, internal @ [length nodes], ii)
       | _ \<Rightarrow> Inl Corruption))"

partial_function (option) merge_loop :: "nat list \<Rightarrow> huff_node list \<Rightarrow> nat \<Rightarrow> nat list \<Rightarrow> nat
    \<Rightarrow> (huff_node list \<times> nat \<times> nat list \<times> nat) res option" where
  "merge_loop leaves nodes li internal ii =
     (if 1 < (length leaves - li) + (length internal - ii) then
        case merge_step leaves nodes li internal ii of
          Inl e \<Rightarrow> Some (Inl e)
        | Inr (nodes, li, internal, ii) \<Rightarrow> merge_loop leaves nodes li internal ii
      else Some (Inr (nodes, li, internal, ii)))"

declare merge_loop.simps [code]

text \<open>The recursion over the arena; a symbol at the root gets one bit.\<close>

partial_function (option) tree_walk :: "huff_node list \<Rightarrow> nat \<Rightarrow> nat \<Rightarrow> nat list \<Rightarrow> nat list option" where
  "tree_walk nodes i depth nbits =
     (case get_at nodes i of
        None \<Rightarrow> Some nbits
      | Some node \<Rightarrow>
          if 0 \<le> nd_sym node then Some (nbits[nat (nd_sym node) := max depth 1])
          else Option.bind (tree_walk nodes (nd_left node) (sat_add 255 depth 1) nbits) (\<lambda>nbits.
               tree_walk nodes (nd_right node) (sat_add 255 depth 1) nbits))"

declare tree_walk.simps [code]

section \<open>The length limit\<close>

definition trailing_zeros64 :: "u64 \<Rightarrow> nat" where
  "trailing_zeros64 w = length (takeWhile (\<lambda>k. \<not> bit w k) [0..<64])"

text \<open>The lowest member of a set of bytes kept as four words; the first level in a list that has one.\<close>

fun lowest_from :: "nat \<Rightarrow> u64 list \<Rightarrow> nat option" where
  "lowest_from i [] = None"
| "lowest_from i (w # ws) = (if w \<noteq> 0 then Some (i * 64 + trailing_zeros64 w) else lowest_from (i + 1) ws)"

definition lowest :: "u64 list \<Rightarrow> nat option" where "lowest st = lowest_from 0 st"

fun find_level :: "u64 list list \<Rightarrow> nat list \<Rightarrow> (nat \<times> nat) option" where
  "find_level lv [] = None"
| "find_level lv (nb # nbs) = (case lowest (lv ! nb) of Some s \<Rightarrow> Some (nb, s) | None \<Rightarrow> find_level lv nbs)"

definition level_add :: "nat \<Rightarrow> nat \<Rightarrow> u64 list list \<Rightarrow> u64 list list" where
  "level_add nb s lv = lv[nb := (lv ! nb)[drop_bit 6 s := lv ! nb ! drop_bit 6 s OR push_bit (s AND 63) 1]]"

definition level_del :: "nat \<Rightarrow> nat \<Rightarrow> u64 list list \<Rightarrow> u64 list list" where
  "level_del nb s lv = lv[nb := (lv ! nb)[drop_bit 6 s := lv ! nb ! drop_bit 6 s AND NOT (push_bit (s AND 63) 1)]]"

fun clamp_nbits :: "nat \<Rightarrow> bytes \<Rightarrow> nat list \<Rightarrow> int \<Rightarrow> u64 list list \<Rightarrow> nat list \<times> int \<times> u64 list list" where
  "clamp_nbits max_bits [] nbits kraft lv = (nbits, kraft, lv)"
| "clamp_nbits max_bits (p # ps) nbits kraft lv =
     (let s = unat p;
          nbits = (if max_bits < nbits ! s \<or> nbits ! s = 0 then nbits[s := max_bits] else nbits)
      in clamp_nbits max_bits ps nbits (kraft + 2 ^ (max_bits - nbits ! s)) (level_add (nbits ! s) s lv))"

function lengthen :: "nat \<Rightarrow> nat list \<Rightarrow> int \<Rightarrow> u64 list list \<Rightarrow> nat list \<times> int \<times> u64 list list" where
  "lengthen max_bits nbits kraft lv =
     (if 2 ^ max_bits < kraft then
        case find_level lv [1..<min max_bits 15] of
          None \<Rightarrow> (nbits, kraft, lv)
        | Some (nb, s) \<Rightarrow> lengthen max_bits (nbits[s := nbits ! s + 1]) (kraft - 2 ^ (max_bits - nb - 1))
            (level_add (nb + 1) s (level_del nb s lv))
      else (nbits, kraft, lv))"
  by auto

termination
  by (relation "measure (\<lambda>(max_bits, nbits, kraft, lv). nat (kraft - 2 ^ max_bits))") auto

function shorten :: "nat \<Rightarrow> nat list \<Rightarrow> int \<Rightarrow> u64 list list \<Rightarrow> nat list \<times> int \<times> u64 list list" where
  "shorten max_bits nbits kraft lv =
     (if kraft < 2 ^ max_bits then
        case find_level lv (rev [2..<min max_bits 15 + 1]) of
          None \<Rightarrow> (nbits, kraft, lv)
        | Some (nb, s) \<Rightarrow> shorten max_bits (nbits[s := nbits ! s - 1]) (kraft + 2 ^ (max_bits - nb))
            (level_add (nb - 1) s (level_del nb s lv))
      else (nbits, kraft, lv))"
  by auto

termination
  by (relation "measure (\<lambda>(max_bits, nbits, kraft, lv). nat (2 ^ max_bits - kraft))") auto

declare lengthen.simps [simp del] shorten.simps [simp del]

definition limit_nbits :: "nat list \<Rightarrow> bytes \<Rightarrow> nat \<Rightarrow> nat list" where
  "limit_nbits nbits present max_bits =
     (let (nbits, kraft, lv) = clamp_nbits max_bits present nbits 0 (replicate 16 (replicate 4 0));
          (nbits, kraft, lv) = lengthen max_bits nbits kraft lv
      in fst (shorten max_bits nbits kraft lv))"

section \<open>The code\<close>

definition huffman_nbits :: "nat list \<Rightarrow> nat list res option" where
  "huffman_nbits freq =
     (let present = map word_of_nat (filter (\<lambda>s. 0 < freq ! s) [0..<256]);
          nbits = replicate 256 0
      in if length present < 2 then Some (Inl Corruption)
         else if length present = 2 then
           Some (Inr (nbits[unat (present ! 0) := 1, unat (present ! 1) := 1]))
         else
           let nodes = map (\<lambda>p. \<lparr> nd_count = freq ! unat p, nd_left = USIZE_MAX, nd_right = USIZE_MAX, nd_sym = int (unat p) \<rparr>) present;
               keys = map (\<lambda>i. push_bit 8 (nd_count (nodes ! i)) OR i) [0..<min (length nodes) 256];
               leaves = map (\<lambda>k. k AND 0xFF) (sort keys)
           in then_do (merge_loop leaves nodes 0 [] 0) (\<lambda>(nodes, li, internal, ii).
              case (get_at leaves li, get_at internal ii) of
                (Some r, None) \<Rightarrow> Option.bind (tree_walk nodes r 0 nbits) (\<lambda>nbits. Some (Inr (limit_nbits nbits present MAX_BITS)))
              | (None, Some r) \<Rightarrow> Option.bind (tree_walk nodes r 0 nbits) (\<lambda>nbits. Some (Inr (limit_nbits nbits present MAX_BITS)))
              | _ \<Rightarrow> Some (Inl Corruption)))"

definition ctable_from_nbits :: "nat list \<Rightarrow> huff_ctable res option" where
  "ctable_from_nbits nbits =
     (case filter (\<lambda>s. 0 < nbits ! s) (rev [0..<length nbits]) of
        [] \<Rightarrow> Some (Inl Corruption)
      | max_symbol # _ \<Rightarrow>
          let huff_log = fold max nbits 0
          in if huff_log = 0 \<or> MAX_BITS < huff_log then Some (Inl Corruption)
             else if max_symbol = 0 then Some (Inl Corruption)
             else
               let weights = map (\<lambda>s. let nb = nbits ! s in if nb = 0 then 0 else word_of_nat (huff_log + 1 - nb)) [0..<max_symbol]
               in if 255 < length weights then Some (Inl Corruption)
                  else
                    let wtmp = weights @ replicate (256 - length weights) 0
                    in then_do (table_from_weights wtmp (length weights) False) (\<lambda>table.
                       Option.bind (code_walk (ht_max_bits table) 0 (ht_table table) (replicate 256 0) (replicate 256 0)) (\<lambda>(out_nbits, code).
                       Some (Inr (finish_ctable (pack_huff_entries out_nbits code) table weights out_nbits)))))"

definition build_ctable_from_freq :: "nat list \<Rightarrow> huff_ctable res option" where
  "build_ctable_from_freq freq = then_do (huffman_nbits freq) ctable_from_nbits"

section \<open>Histograms\<close>

text \<open>Four tables in turn, folded at the end; the counts of a slice shorter than \<open>2 ^ 32\<close> do not wrap.\<close>

definition bump :: "nat list \<Rightarrow> u8 \<Rightarrow> nat list" where "bump h b = h[unat b := h ! unat b + 1]"

fun hist_quads :: "bytes \<Rightarrow> nat list \<Rightarrow> nat list \<Rightarrow> nat list \<Rightarrow> nat list \<Rightarrow> nat list \<times> nat list \<times> nat list \<times> nat list" where
  "hist_quads (c0 # c1 # c2 # c3 # bs) h h1 h2 h3 = hist_quads bs (bump h c0) (bump h1 c1) (bump h2 c2) (bump h3 c3)"
| "hist_quads bs h h1 h2 h3 = (fold (\<lambda>b h. bump h b) bs h, h1, h2, h3)"

definition hist_count :: "bytes \<Rightarrow> nat list \<Rightarrow> nat list" where
  "hist_count bs h =
     (let (h, h1, h2, h3) = hist_quads bs h (replicate 256 0) (replicate 256 0) (replicate 256 0)
      in map (\<lambda>i. h ! i + (h1 ! i + h2 ! i + h3 ! i)) [0..<256])"

fun segments_fill :: "bytes \<Rightarrow> nat \<Rightarrow> nat list \<Rightarrow> nat \<Rightarrow> nat list list" where
  "segments_fill lits chunk [] off = []"
| "segments_fill lits chunk (i # is) off =
     (let stop = (if i = 3 then length lits else min (off + chunk) (length lits))
      in hist_count (take (stop - off) (drop off lits)) (replicate 256 0) # segments_fill lits chunk is stop)"

definition segment_histograms_into :: "bytes \<Rightarrow> nat \<Rightarrow> nat list list" where
  "segment_histograms_into lits n_streams =
     (if n_streams \<noteq> 4 then [hist_count lits (replicate 256 0)]
      else segments_fill lits ((length lits + 3) div 4) [0..<4] 0)"

section \<open>The bit sets\<close>

lemma trailing_zeros64_bit:
  assumes "w \<noteq> 0"
  shows "trailing_zeros64 w < 64 \<and> bit w (trailing_zeros64 w)"
proof -
  obtain k where k: "bit w k" using assms by (metis bit_eqI bit_0_eq bot_apply bot_bool_def)
  then have "k < 64" using bit_imp_le_length [of w k] by simp
  with k have "\<not> (\<forall>x \<in> set [0..<64]. \<not> bit w x)" by auto
  then have "trailing_zeros64 w < length [0..<64]"
    unfolding trailing_zeros64_def by (metis length_takeWhile_le le_neq_implies_less takeWhile_eq_all_conv takeWhile_eq_take take_all_iff order_refl)
  with nth_length_takeWhile [of "\<lambda>k. \<not> bit w k" "[0..<64]"] show ?thesis unfolding trailing_zeros64_def by simp
qed

lemma lowest_from_ok:
  "case lowest_from i st of None \<Rightarrow> \<forall>w \<in> set st. w = 0
     | Some s \<Rightarrow> \<exists>j < length st. s div 64 = i + j \<and> bit (st ! j) (s mod 64)"
proof (induction st arbitrary: i)
  case (Cons w ws)
  show ?case
  proof (cases "w = 0")
    case True
    then show ?thesis using Cons [of "i + 1"] by (fastforce split: option.splits)
  next
    case False
    with trailing_zeros64_bit [OF False] show ?thesis by (intro option.case_eq_if [THEN iffD2] conjI) auto
  qed
qed simp

text \<open>The levels hold, for each length, the symbols present with it.\<close>

definition levels_of :: "nat set \<Rightarrow> nat list \<Rightarrow> u64 list list \<Rightarrow> bool" where
  "levels_of P nbits lv \<longleftrightarrow> length lv = 16 \<and> (\<forall>nb < 16. length (lv ! nb) = 4)
     \<and> (\<forall>nb < 16. \<forall>s < 256. bit (lv ! nb ! (s div 64)) (s mod 64) \<longleftrightarrow> s \<in> P \<and> nbits ! s = nb)"

lemma find_level_ok:
  assumes "levels_of P nbits lv" "P \<subseteq> {..<256}" "set nbs \<subseteq> {..<16}"
  shows "case find_level lv nbs of
      None \<Rightarrow> \<forall>s \<in> P. nbits ! s \<notin> set nbs
    | Some (nb, s) \<Rightarrow> s \<in> P \<and> nbits ! s = nb \<and> (\<exists>k < length nbs. nbs ! k = nb \<and> (\<forall>j < k. \<forall>t \<in> P. nbits ! t \<noteq> nbs ! j))"
  using assms(3)
proof (induction nbs)
  case (Cons nb nbs)
  have nb: "nb < 16" using Cons.prems by simp
  have len: "length (lv ! nb) = 4"
    and mem: "\<And>s. s < 256 \<Longrightarrow> bit (lv ! nb ! (s div 64)) (s mod 64) \<longleftrightarrow> s \<in> P \<and> nbits ! s = nb"
    using assms(1) nb by (simp_all add: levels_of_def)
  show ?case
  proof (cases "lowest (lv ! nb)")
    case None
    then have z: "\<forall>w \<in> set (lv ! nb). w = 0" using lowest_from_ok [where i = 0 and st = "lv ! nb"] by (simp add: lowest_def)
    have "nbits ! t \<noteq> nb" if "t \<in> P" for t
    proof -
      have t: "t < 256" using assms(2) that by auto
      then have "t div 64 < 4" by simp
      then have "lv ! nb ! (t div 64) = 0" using z len by simp
      then show ?thesis using mem [OF t] that by simp
    qed
    show ?thesis
    proof (cases "find_level lv nbs")
      case None': None
      then show ?thesis using Cons \<open>lowest (lv ! nb) = None\<close> \<open>\<And>t. t \<in> P \<Longrightarrow> nbits ! t \<noteq> nb\<close> by auto
    next
      case (Some r)
      obtain m s where r: "r = (m, s)" by (cases r)
      obtain k where k: "s \<in> P" "nbits ! s = m" "k < length nbs" "nbs ! k = m" "\<forall>j < k. \<forall>t \<in> P. nbits ! t \<noteq> nbs ! j"
        using Cons Some by (auto simp: r)
      have "\<forall>j < Suc k. \<forall>t \<in> P. nbits ! t \<noteq> (nb # nbs) ! j"
        using k(5) \<open>\<And>t. t \<in> P \<Longrightarrow> nbits ! t \<noteq> nb\<close> by (auto simp: less_Suc_eq_0_disj)
      then show ?thesis using k(1-4) None Some by (auto simp: r intro!: exI [where x = "Suc k"])
    qed
  next
    case (Some s)
    then obtain j where "j < 4" "s div 64 = j" "bit (lv ! nb ! j) (s mod 64)"
      using lowest_from_ok [where i = 0 and st = "lv ! nb"] len by (auto simp: lowest_def)
    then have "s < 256" "bit (lv ! nb ! (s div 64)) (s mod 64)" by auto
    then show ?thesis using mem [of s] Some by auto
  qed
qed simp

lemma bit_word_one_at: "k < 64 \<Longrightarrow> bit (push_bit k (1 :: u64)) j \<longleftrightarrow> j = k"
  by (auto simp: bit_exp_iff)

lemma level_index: "drop_bit 6 s = (s :: nat) div 64" "s AND 63 = s mod (64 :: nat)"
  using and_mask_mod [of s 6] by (simp_all add: drop_bit_eq_div)

lemma levels_move:
  assumes "levels_of P nbits lv" "s \<in> P" "s < 256" "nbits ! s = nb" "nb < 16" "nb' < 16" "nb \<noteq> nb'" "length nbits = 256"
  shows "levels_of P (nbits[s := nb']) (level_add nb' s (level_del nb s lv))"
proof -
  define q where "q = s div 64"
  define r where "r = s mod 64"
  have q: "q < 4" "r < 64" using assms(3) by (simp_all add: q_def r_def)
  have len: "length lv = 16" "\<And>m. m < 16 \<Longrightarrow> length (lv ! m) = 4" using assms(1) by (simp_all add: levels_of_def)
  define lv' where "lv' = level_add nb' s (level_del nb s lv)"
  have at: "lv' ! m = (if m = nb' then (lv ! m)[q := lv ! m ! q OR push_bit r 1]
      else if m = nb then (lv ! m)[q := lv ! m ! q AND NOT (push_bit r 1)] else lv ! m)" if "m < 16" for m
    using len that assms(5-7)
    unfolding lv'_def level_add_def level_del_def level_index q_def [symmetric] r_def [symmetric] by (simp add: nth_list_update)
  have "bit (lv' ! m ! (t div 64)) (t mod 64) \<longleftrightarrow> t \<in> P \<and> nbits[s := nb'] ! t = m" if m: "m < 16" and t: "t < 256" for m t
  proof -
    have old: "bit (lv ! m ! (t div 64)) (t mod 64) \<longleftrightarrow> t \<in> P \<and> nbits ! t = m"
      using assms(1) m t by (simp add: levels_of_def)
    have t4: "t div 64 < 4" "t mod 64 < 64" using t by simp_all
    have eq: "t = s \<longleftrightarrow> t div 64 = q \<and> t mod 64 = r" unfolding q_def r_def by (metis div_mult_mod_eq)
    have one: "bit (push_bit r (1 :: u64)) (t mod 64) \<longleftrightarrow> t mod 64 = r" using bit_word_one_at [OF q(2)] by blast
    have new: "bit (lv' ! m ! (t div 64)) (t mod 64) \<longleftrightarrow> (if t = s then m = nb' \<or> m \<noteq> nb \<and> bit (lv ! m ! (t div 64)) (t mod 64)
        else bit (lv ! m ! (t div 64)) (t mod 64))"
      using len(2) [OF m] q(1) t4 one assms(7) unfolding at [OF m] eq
      by (auto simp: nth_list_update bit_or_iff bit_and_iff bit_not_iff split: if_splits)
    show ?thesis using new old assms(2-4,8) t by (auto simp: nth_list_update)
  qed
  moreover have "length lv' = 16" "\<And>m. m < 16 \<Longrightarrow> length (lv' ! m) = 4"
    using len at by (simp_all add: lv'_def level_add_def level_del_def)
  ultimately show ?thesis unfolding lv'_def levels_of_def by blast
qed

lemma levels_insert:
  assumes "levels_of P nbits lv" "s \<notin> P" "s < 256" "nbits ! s = nb" "nb < 16"
  shows "levels_of (insert s P) nbits (level_add nb s lv)"
proof -
  define q where "q = s div 64"
  define r where "r = s mod 64"
  have q: "q < 4" "r < 64" using assms(3) by (simp_all add: q_def r_def)
  have len: "length lv = 16" "\<And>m. m < 16 \<Longrightarrow> length (lv ! m) = 4" using assms(1) by (simp_all add: levels_of_def)
  define lv' where "lv' = level_add nb s lv"
  have at: "lv' ! m = (if m = nb then (lv ! m)[q := lv ! m ! q OR push_bit r 1] else lv ! m)" if "m < 16" for m
    using len that assms(5) unfolding lv'_def level_add_def level_index q_def [symmetric] r_def [symmetric] by simp
  have "bit (lv' ! m ! (t div 64)) (t mod 64) \<longleftrightarrow> t \<in> insert s P \<and> nbits ! t = m" if m: "m < 16" and t: "t < 256" for m t
  proof -
    have old: "bit (lv ! m ! (t div 64)) (t mod 64) \<longleftrightarrow> t \<in> P \<and> nbits ! t = m" using assms(1) m t by (simp add: levels_of_def)
    have t4: "t div 64 < 4" "t mod 64 < 64" using t by simp_all
    have eq: "t = s \<longleftrightarrow> t div 64 = q \<and> t mod 64 = r" unfolding q_def r_def by (metis div_mult_mod_eq)
    have one: "bit (push_bit r (1 :: u64)) (t mod 64) \<longleftrightarrow> t mod 64 = r" using bit_word_one_at [OF q(2)] by blast
    have new: "bit (lv' ! m ! (t div 64)) (t mod 64) \<longleftrightarrow> t = s \<and> m = nb \<or> bit (lv ! m ! (t div 64)) (t mod 64)"
      using len(2) [OF m] q(1) t4 one unfolding at [OF m] eq by (auto simp: nth_list_update bit_or_iff split: if_splits)
    show ?thesis using new old assms(2,4) by auto
  qed
  moreover have "length lv' = 16" "\<And>m. m < 16 \<Longrightarrow> length (lv' ! m) = 4" using len at by (simp_all add: lv'_def level_add_def)
  ultimately show ?thesis unfolding lv'_def levels_of_def by blast
qed

section \<open>Lengths that satisfy Kraft's equality\<close>

definition kraft_of :: "nat \<Rightarrow> nat set \<Rightarrow> nat list \<Rightarrow> int" where
  "kraft_of L P nbits = (\<Sum>s \<in> P. 2 ^ (L - nbits ! s))"

definition lengths_in :: "nat \<Rightarrow> nat set \<Rightarrow> nat list \<Rightarrow> bool" where
  "lengths_in L P nbits \<longleftrightarrow> length nbits = 256 \<and> P \<subseteq> {..<256} \<and> (\<forall>s \<in> P. 1 \<le> nbits ! s \<and> nbits ! s \<le> L)"

lemma clamp_nbits_ok:
  assumes "distinct ps" "unat ` set ps \<inter> D = {}" "lengths_in L D nbits" "levels_of D nbits lv" "1 \<le> L" "L \<le> 15"
  shows "\<exists>nbits' lv'. clamp_nbits L ps nbits (kraft_of L D nbits) lv = (nbits', kraft_of L (D \<union> unat ` set ps) nbits', lv')
    \<and> lengths_in L (D \<union> unat ` set ps) nbits' \<and> levels_of (D \<union> unat ` set ps) nbits' lv'
    \<and> (\<forall>s. s \<notin> unat ` set ps \<longrightarrow> nbits' ! s = nbits ! s)"
  using assms(1-4)
proof (induction ps arbitrary: D nbits lv)
  case (Cons p ps)
  define s where "s = unat p"
  define nbits1 where "nbits1 = (if L < nbits ! s \<or> nbits ! s = 0 then nbits[s := L] else nbits)"
  have s: "s < 256" "s \<notin> D" using Cons.prems(2) by (auto simp: s_def)
  have l: "length nbits = 256" "D \<subseteq> {..<256}" "finite D" using Cons.prems(3) by (auto simp: lengths_in_def intro: finite_subset)
  have n1: "1 \<le> nbits1 ! s" "nbits1 ! s \<le> L" "\<And>t. t \<noteq> s \<Longrightarrow> nbits1 ! t = nbits ! t" "length nbits1 = 256"
    using s l assms(5) by (auto simp: nbits1_def)
  have same: "\<And>t. t \<in> D \<Longrightarrow> nbits1 ! t = nbits ! t" using n1(3) s(2) by metis
  have k: "kraft_of L D nbits + 2 ^ (L - nbits1 ! s) = kraft_of L (insert s D) nbits1"
    using l(3) s(2) same by (simp add: kraft_of_def)
  have "levels_of D nbits1 lv" using Cons.prems(4) same unfolding levels_of_def by metis
  then have lv: "levels_of (insert s D) nbits1 (level_add (nbits1 ! s) s lv)"
    using n1(2) assms(6) by (intro levels_insert s refl) auto
  have ok: "lengths_in L (insert s D) nbits1" using Cons.prems(3) n1 same s by (auto simp: lengths_in_def)
  have d: "distinct ps" "unat ` set ps \<inter> insert s D = {}"
    using Cons.prems(1,2) by (auto simp: s_def) (metis unsigned_word_eqI)
  obtain nbits' lv' where r: "clamp_nbits L ps nbits1 (kraft_of L (insert s D) nbits1) (level_add (nbits1 ! s) s lv)
        = (nbits', kraft_of L (insert s D \<union> unat ` set ps) nbits', lv')"
      "lengths_in L (insert s D \<union> unat ` set ps) nbits'" "levels_of (insert s D \<union> unat ` set ps) nbits' lv'"
      "\<forall>t. t \<notin> unat ` set ps \<longrightarrow> nbits' ! t = nbits1 ! t"
    using Cons.IH [OF d ok lv] by blast
  have un: "insert s D \<union> unat ` set ps = D \<union> unat ` set (p # ps)" by (auto simp: s_def)
  have "clamp_nbits L (p # ps) nbits (kraft_of L D nbits) lv
      = clamp_nbits L ps nbits1 (kraft_of L D nbits + 2 ^ (L - nbits1 ! s)) (level_add (nbits1 ! s) s lv)"
    by (simp add: Let_def s_def nbits1_def)
  then show ?case using r n1(3) unfolding k un by (intro exI [where x = nbits'] exI [where x = lv']) (auto simp: s_def)
qed auto

lemma kraft_move:
  assumes "finite P" "s \<in> P" "s < length nbits"
  shows "kraft_of L P (nbits[s := m]) = kraft_of L P nbits - 2 ^ (L - nbits ! s) + 2 ^ (L - m)"
proof -
  have "kraft_of L P (nbits[s := m]) = 2 ^ (L - m) + (\<Sum>t \<in> P - {s}. 2 ^ (L - nbits ! t))"
    using assms by (simp add: kraft_of_def sum.remove [of P s])
  moreover have "kraft_of L P nbits = 2 ^ (L - nbits ! s) + (\<Sum>t \<in> P - {s}. 2 ^ (L - nbits ! t))"
    using assms by (simp add: kraft_of_def sum.remove [of P s])
  ultimately show ?thesis by simp
qed

lemma pow2_step: "Suc n \<le> L \<Longrightarrow> (2 :: int) ^ (L - n) = 2 * 2 ^ (L - Suc n)"
  by (metis Suc_diff_Suc Suc_le_lessD power_Suc)

lemma lengthen_ok:
  assumes "lengths_in L P nbits" "levels_of P nbits lv" "1 \<le> L" "L \<le> 15" "int (card P) \<le> 2 ^ L"
  shows "\<exists>nbits' lv'. lengthen L nbits (kraft_of L P nbits) lv = (nbits', kraft_of L P nbits', lv')
    \<and> lengths_in L P nbits' \<and> levels_of P nbits' lv' \<and> kraft_of L P nbits' \<le> 2 ^ L
    \<and> (\<forall>s. s \<notin> P \<longrightarrow> nbits' ! s = nbits ! s)"
  using assms(1,2)
proof (induction "nat (kraft_of L P nbits - 2 ^ L)" arbitrary: nbits lv rule: less_induct)
  case less
  have l: "length nbits = 256" "P \<subseteq> {..<256}" "finite P" "\<And>s. s \<in> P \<Longrightarrow> 1 \<le> nbits ! s \<and> nbits ! s \<le> L"
    using less.prems(1) by (auto simp: lengths_in_def intro: finite_subset)
  have sub: "set [1..<min L 15] \<subseteq> {..<16}" by auto
  note fl = find_level_ok [OF less.prems(2) l(2) sub]
  show ?case
  proof (cases "2 ^ L < kraft_of L P nbits")
    case False
    then show ?thesis using less.prems by (subst lengthen.simps) auto
  next
    case big: True
    show ?thesis
    proof (cases "find_level lv [1..<min L 15]")
      case None
      have "nbits ! s = L" if "s \<in> P" for s
        using fl None that l(4) [OF that] assms(4) by (fastforce simp: min_def)
      then have "kraft_of L P nbits = int (card P)" by (simp add: kraft_of_def)
      then show ?thesis using big assms(5) by simp
    next
      case (Some r)
      obtain nb s where r: "r = (nb, s)" by (cases r)
      obtain k where "s \<in> P" "nbits ! s = nb" "k < length [1..<min L 15]" "[1..<min L 15] ! k = nb" using fl Some by (auto simp: r)
      moreover from this have "nb \<in> set [1..<min L 15]" by (metis nth_mem)
      ultimately have s: "s \<in> P" "nbits ! s = nb" "1 \<le> nb" "nb < L" "nb < 15" "s < 256" using l(2) by auto
      define nbits1 where "nbits1 = nbits[s := Suc nb]"
      define lv1 where "lv1 = level_add (Suc nb) s (level_del nb s lv)"
      have eq: "lengthen L nbits (kraft_of L P nbits) lv = lengthen L nbits1 (kraft_of L P nbits - 2 ^ (L - nb - 1)) lv1"
        using big Some s(2) by (subst lengthen.simps) (simp add: r nbits1_def lv1_def)
      have k: "kraft_of L P nbits - 2 ^ (L - nb - 1) = kraft_of L P nbits1"
        using kraft_move [OF l(3) s(1), of nbits L "Suc nb"] s l(1) pow2_step [of nb L] by (simp add: nbits1_def)
      have ok: "lengths_in L P nbits1" using less.prems(1) s by (auto simp: lengths_in_def nbits1_def nth_list_update)
      have lv: "levels_of P nbits1 lv1"
        unfolding nbits1_def lv1_def using s l(1) by (intro levels_move less.prems(2)) auto
      have "nat (kraft_of L P nbits1 - 2 ^ L) < nat (kraft_of L P nbits - 2 ^ L)"
        using big unfolding k [symmetric] by simp
      from less.hyps [OF this ok lv] obtain nbits' lv' where ih:
        "lengthen L nbits1 (kraft_of L P nbits1) lv1 = (nbits', kraft_of L P nbits', lv')"
        "lengths_in L P nbits'" "levels_of P nbits' lv'" "kraft_of L P nbits' \<le> 2 ^ L" "\<forall>t. t \<notin> P \<longrightarrow> nbits' ! t = nbits1 ! t"
        by blast
      have "\<forall>t. t \<notin> P \<longrightarrow> nbits' ! t = nbits ! t" using ih(5) s(1) unfolding nbits1_def by (metis nth_list_update_neq)
      then show ?thesis using ih unfolding eq k by blast
    qed
  qed
qed


lemma kraft_dvd:
  assumes "finite P" "\<forall>s \<in> P. nbits ! s \<le> m" "m \<le> L"
  shows "2 ^ (L - m) dvd kraft_of L P nbits"
  unfolding kraft_of_def using assms(2) by (intro dvd_sum) (simp add: le_imp_power_dvd diff_le_mono2)

lemma shorten_ok:
  assumes "lengths_in L P nbits" "levels_of P nbits lv" "1 \<le> L" "L \<le> 15" "2 \<le> card P" "kraft_of L P nbits \<le> 2 ^ L"
  shows "\<exists>nbits' lv'. shorten L nbits (kraft_of L P nbits) lv = (nbits', 2 ^ L, lv')
    \<and> lengths_in L P nbits' \<and> kraft_of L P nbits' = 2 ^ L \<and> (\<forall>s. s \<notin> P \<longrightarrow> nbits' ! s = nbits ! s)"
  using assms(1,2,6)
proof (induction "nat (2 ^ L - kraft_of L P nbits)" arbitrary: nbits lv rule: less_induct)
  case less
  have l: "length nbits = 256" "P \<subseteq> {..<256}" "finite P" "\<And>s. s \<in> P \<Longrightarrow> 1 \<le> nbits ! s \<and> nbits ! s \<le> L"
    using less.prems(1) by (auto simp: lengths_in_def intro: finite_subset)
  define nbs where "nbs = rev [2..<min L 15 + 1]"
  have sub: "set nbs \<subseteq> {..<16}" by (auto simp: nbs_def)
  note fl = find_level_ok [OF less.prems(2) l(2) sub]
  show ?case
  proof (cases "kraft_of L P nbits < 2 ^ L")
    case False
    then show ?thesis using less.prems by (subst shorten.simps) auto
  next
    case small: True
    show ?thesis
    proof (cases "find_level lv nbs")
      case None
      have "nbits ! s = 1" if "s \<in> P" for s
      proof (rule ccontr)
        assume "nbits ! s \<noteq> 1"
        then have "nbits ! s \<in> set nbs" using l(4) [OF that] assms(4) by (auto simp: nbs_def)
        then show False using fl None that by simp
      qed
      then have "kraft_of L P nbits = int (card P) * 2 ^ (L - 1)" by (simp add: kraft_of_def)
      moreover have "(2 :: int) ^ L = 2 * 2 ^ (L - 1)" using pow2_step [of 0 L] assms(3) by simp
      moreover have "2 * 2 ^ (L - 1) \<le> int (card P) * 2 ^ (L - 1)" using assms(5) by (intro mult_right_mono) auto
      ultimately show ?thesis using small by simp
    next
      case (Some r)
      obtain nb s where r: "r = (nb, s)" by (cases r)
      obtain k where k: "s \<in> P" "nbits ! s = nb" "k < length nbs" "nbs ! k = nb" "\<forall>j < k. \<forall>t \<in> P. nbits ! t \<noteq> nbs ! j"
        using fl Some by (auto simp: r)
      have len: "length nbs = min L 15 - 1" using assms(3) by (simp add: nbs_def del: upt_Suc)
      have at: "nbs ! j = min L 15 - j" if "j < length nbs" for j
      proof -
        have "nbs ! j = [2..<Suc (min L 15)] ! (min L 15 - 2 - j)"
          using that len unfolding nbs_def by (subst rev_nth) (simp_all del: upt_Suc)
        also have "2 + (min L 15 - 2 - j) < Suc (min L 15)" using that len by (cases "L \<le> 15") auto
        then have "[2..<Suc (min L 15)] ! (min L 15 - 2 - j) = 2 + (min L 15 - 2 - j)" by (rule nth_upt)
        finally show ?thesis using that len by (cases "L \<le> 15") auto
      qed
      have nb: "nb = L - k" "k + 2 \<le> L" using k(3,4) at [OF k(3)] len assms(4) by auto
      have s: "s \<in> P" "nbits ! s = nb" "2 \<le> nb" "nb \<le> L" "nb < 16" "s < 256"
        using k(1,2) nb assms(4) l(2) by auto
      have max: "nbits ! t \<le> nb" if "t \<in> P" for t
      proof (rule ccontr)
        assume "\<not> nbits ! t \<le> nb"
        then have j: "L - nbits ! t < k" "L - nbits ! t < length nbs" using l(4) [OF that] nb k(3) by auto
        have "nbs ! (L - nbits ! t) = nbits ! t" using at [OF j(2)] l(4) [OF that] assms(4) by simp
        then show False using k(5) j(1) that by metis
      qed
      define nbits1 where "nbits1 = nbits[s := nb - 1]"
      define lv1 where "lv1 = level_add (nb - 1) s (level_del nb s lv)"
      have eq: "shorten L nbits (kraft_of L P nbits) lv = shorten L nbits1 (kraft_of L P nbits + 2 ^ (L - nb)) lv1"
        using small Some s(2) by (subst shorten.simps) (simp add: r nbits1_def lv1_def nbs_def)
      have kr: "kraft_of L P nbits + 2 ^ (L - nb) = kraft_of L P nbits1"
        using kraft_move [OF l(3) s(1), of nbits L "nb - 1"] s l(1) pow2_step [of "nb - 1" L] by (simp add: nbits1_def)
      have ok: "lengths_in L P nbits1" using less.prems(1) s by (auto simp: lengths_in_def nbits1_def nth_list_update)
      have lv: "levels_of P nbits1 lv1"
        unfolding nbits1_def lv1_def using s l(1) by (intro levels_move less.prems(2)) auto
      have "2 ^ (L - nb) dvd kraft_of L P nbits" using kraft_dvd [OF l(3)] max s(4) by blast
      moreover have "(2 :: int) ^ (L - nb) dvd 2 ^ L" by (simp add: le_imp_power_dvd)
      ultimately have "2 ^ (L - nb) dvd 2 ^ L - kraft_of L P nbits" by (metis dvd_diff)
      then have "2 ^ (L - nb) \<le> 2 ^ L - kraft_of L P nbits" using small by (intro zdvd_imp_le) auto
      then have le: "kraft_of L P nbits1 \<le> 2 ^ L" unfolding kr [symmetric] by simp
      have "nat (2 ^ L - kraft_of L P nbits1) < nat (2 ^ L - kraft_of L P nbits)"
        using small unfolding kr [symmetric] by simp
      from less.hyps [OF this ok lv le] obtain nbits' lv' where ih:
        "shorten L nbits1 (kraft_of L P nbits1) lv1 = (nbits', 2 ^ L, lv')"
        "lengths_in L P nbits'" "kraft_of L P nbits' = 2 ^ L" "\<forall>t. t \<notin> P \<longrightarrow> nbits' ! t = nbits1 ! t"
        by blast
      have "\<forall>t. t \<notin> P \<longrightarrow> nbits' ! t = nbits ! t" using ih(4) s(1) unfolding nbits1_def by (metis nth_list_update_neq)
      then show ?thesis using ih(1-3) unfolding eq kr by blast
    qed
  qed
qed

lemma limit_nbits_ok:
  assumes "distinct present" "2 \<le> length present" "length nbits = 256" "1 \<le> L" "L \<le> 15" "int (length present) \<le> 2 ^ L"
  defines "P \<equiv> unat ` set present"
  shows "lengths_in L P (limit_nbits nbits present L) \<and> kraft_of L P (limit_nbits nbits present L) = 2 ^ L
    \<and> (\<forall>s. s \<notin> P \<longrightarrow> limit_nbits nbits present L ! s = nbits ! s)"
proof -
  have card: "card P = length present" unfolding P_def using assms(1)
    by (simp add: card_image inj_on_def word_unat_eq_iff distinct_card)
  have z: "kraft_of L {} nbits = 0" by (simp add: kraft_of_def)
  have "lengths_in L {} nbits" "levels_of {} nbits (replicate 16 (replicate 4 0))"
    using assms(3) by (auto simp: lengths_in_def levels_of_def)
  from clamp_nbits_ok [OF assms(1) _ this assms(4,5), unfolded z Un_empty_left, folded P_def]
  obtain n1 lv1 where c: "clamp_nbits L present nbits 0 (replicate 16 (replicate 4 0)) = (n1, kraft_of L P n1, lv1)"
    "lengths_in L P n1" "levels_of P n1 lv1" "\<forall>s. s \<notin> P \<longrightarrow> n1 ! s = nbits ! s" by auto
  obtain n2 lv2 where d: "lengthen L n1 (kraft_of L P n1) lv1 = (n2, kraft_of L P n2, lv2)"
    "lengths_in L P n2" "levels_of P n2 lv2" "kraft_of L P n2 \<le> 2 ^ L" "\<forall>s. s \<notin> P \<longrightarrow> n2 ! s = n1 ! s"
    using lengthen_ok [OF c(2,3) assms(4,5)] assms(6) card by auto
  obtain n3 lv3 where e: "shorten L n2 (kraft_of L P n2) lv2 = (n3, 2 ^ L, lv3)"
    "lengths_in L P n3" "kraft_of L P n3 = 2 ^ L" "\<forall>s. s \<notin> P \<longrightarrow> n3 ! s = n2 ! s"
    using shorten_ok [OF d(2,3) assms(4,5) _ d(4)] assms(2) card by auto
  have "limit_nbits nbits present L = n3" by (simp add: limit_nbits_def c(1) d(1) e(1))
  then show ?thesis using e(2-4) d(5) c(4) by simp
qed

section \<open>The merge ends in one tree\<close>

text \<open>Children come before their parent; a leaf carries one of the symbols \<open>P\<close>.\<close>

definition arena_ok :: "nat set \<Rightarrow> huff_node list \<Rightarrow> bool" where
  "arena_ok P nodes \<longleftrightarrow> (\<forall>i < length nodes.
     if 0 \<le> nd_sym (nodes ! i) then nat (nd_sym (nodes ! i)) \<in> P else nd_left (nodes ! i) < i \<and> nd_right (nodes ! i) < i)"

definition queues_ok :: "nat \<Rightarrow> nat list \<Rightarrow> nat \<Rightarrow> nat list \<Rightarrow> nat \<Rightarrow> bool" where
  "queues_ok n leaves li internal ii \<longleftrightarrow> set leaves \<subseteq> {..<n} \<and> set internal \<subseteq> {..<n} \<and> li \<le> length leaves \<and> ii \<le> length internal"

lemma queue_head_ok:
  "set q \<subseteq> {..<length nodes} \<Longrightarrow> queue_head nodes q k = (if k < length q then Some (nd_count (nodes ! (q ! k)), q ! k) else None)"
  by (auto simp: queue_head_def get_at_def subset_iff)

lemma pop_min_ok:
  assumes "queues_ok (length nodes) leaves li internal ii" "li + ii < length leaves + length internal"
  shows "\<exists>i li' ii'. pop_min nodes leaves li internal ii = Some (i, li', ii') \<and> i < length nodes
    \<and> queues_ok (length nodes) leaves li' internal ii' \<and> li' + ii' = Suc (li + ii)"
proof -
  have q: "set leaves \<subseteq> {..<length nodes}" "set internal \<subseteq> {..<length nodes}" "li \<le> length leaves" "ii \<le> length internal"
    using assms(1) by (simp_all add: queues_ok_def)
  have l: "leaves ! li < length nodes" if "li < length leaves" using q(1) that nth_mem by blast
  have i: "internal ! ii < length nodes" if "ii < length internal" using q(2) that nth_mem by blast
  show ?thesis
    using q l i assms(2) unfolding pop_min_def queue_head_ok [OF q(1)] queue_head_ok [OF q(2)]
    by (cases "li < length leaves"; cases "ii < length internal") (auto simp: queues_ok_def)
qed

lemma merge_step_ok:
  assumes "arena_ok P nodes" "queues_ok (length nodes) leaves li internal ii" "Suc (li + ii) < length leaves + length internal"
  shows "\<exists>nodes' li' internal' ii'. merge_step leaves nodes li internal ii = Inr (nodes', li', internal', ii')
    \<and> arena_ok P nodes' \<and> queues_ok (length nodes') leaves li' internal' ii'
    \<and> length internal' = Suc (length internal) \<and> li' + ii' = li + ii + 2"
proof -
  obtain a l1 i1 where a: "pop_min nodes leaves li internal ii = Some (a, l1, i1)" "a < length nodes"
    "queues_ok (length nodes) leaves l1 internal i1" "l1 + i1 = Suc (li + ii)"
    using pop_min_ok [OF assms(2)] assms(3) by auto
  obtain b l2 i2 where b: "pop_min nodes leaves l1 internal i1 = Some (b, l2, i2)" "b < length nodes"
    "queues_ok (length nodes) leaves l2 internal i2" "l2 + i2 = Suc (l1 + i1)"
    using pop_min_ok [OF a(3)] a(4) assms(3) by auto
  let ?N = "nodes @ [\<lparr> nd_count = nd_count (nodes ! a) + nd_count (nodes ! b), nd_left = a, nd_right = b, nd_sym = -1 \<rparr>]"
  have "merge_step leaves nodes li internal ii = Inr (?N, l2, internal @ [length nodes], i2)"
    using a(1,2) b(1,2) by (simp add: merge_step_def get_at_def)
  moreover have "arena_ok P ?N" using assms(1) a(2) b(2) by (auto simp: arena_ok_def nth_append)
  moreover have "queues_ok (length ?N) leaves l2 (internal @ [length nodes]) i2" using b(3) by (auto simp: queues_ok_def)
  ultimately show ?thesis using a(4) b(4) by (intro exI conjI) auto
qed

lemma merge_loop_ok:
  assumes "arena_ok P nodes" "queues_ok (length nodes) leaves li internal ii" "li + ii < length leaves + length internal"
  shows "\<exists>nodes' li' internal' ii'. merge_loop leaves nodes li internal ii = Some (Inr (nodes', li', internal', ii'))
    \<and> arena_ok P nodes' \<and> queues_ok (length nodes') leaves li' internal' ii'
    \<and> Suc (li' + ii') = length leaves + length internal'"
  using assms
proof (induction "length leaves + length internal - (li + ii)" arbitrary: nodes li internal ii rule: less_induct)
  case less
  have le: "li \<le> length leaves" "ii \<le> length internal" using less.prems(2) by (simp_all add: queues_ok_def)
  show ?case
  proof (cases "Suc (li + ii) < length leaves + length internal")
    case True
    obtain nodes' li' internal' ii' where s: "merge_step leaves nodes li internal ii = Inr (nodes', li', internal', ii')"
      "arena_ok P nodes'" "queues_ok (length nodes') leaves li' internal' ii'"
      "length internal' = Suc (length internal)" "li' + ii' = li + ii + 2"
      using merge_step_ok [OF less.prems(1,2) True] by blast
    have "merge_loop leaves nodes li internal ii = merge_loop leaves nodes' li' internal' ii'"
    proof -
      have "1 < (length leaves - li) + (length internal - ii)" using True le by arith
      then show ?thesis by (subst merge_loop.simps) (simp only: s(1) if_True sum.case prod.case)
    qed
    then show ?thesis using less.hyps [OF _ s(2,3)] s(4,5) True by auto
  next
    case False
    then have "merge_loop leaves nodes li internal ii = Some (Inr (nodes, li, internal, ii))"
    proof -
      have "\<not> 1 < (length leaves - li) + (length internal - ii)" using False le by arith
      then show ?thesis by (subst merge_loop.simps) (simp only: if_False)
    qed
    then show ?thesis using less.prems False by auto
  qed
qed

lemma tree_walk_ok:
  assumes "arena_ok P nodes" "i < length nodes"
  shows "\<exists>nbits'. tree_walk nodes i depth nbits = Some nbits' \<and> length nbits' = length nbits \<and> (\<forall>s. s \<notin> P \<longrightarrow> nbits' ! s = nbits ! s)"
  using assms(2)
proof (induction i arbitrary: depth nbits rule: less_induct)
  case (less i)
  define nd where "nd = nodes ! i"
  have at: "get_at nodes i = Some nd" using less.prems by (simp add: get_at_def nd_def)
  show ?case
  proof (cases "0 \<le> nd_sym nd")
    case True
    have P: "nat (nd_sym nd) \<in> P" using assms(1) less.prems True by (auto simp: arena_ok_def nd_def)
    have "tree_walk nodes i depth nbits = Some (nbits[nat (nd_sym nd) := max depth 1])"
      using True by (subst tree_walk.simps) (simp add: at)
    moreover have "nbits[nat (nd_sym nd) := max depth 1] ! s = nbits ! s" if "s \<notin> P" for s using P that by (intro nth_list_update_neq) auto
    ultimately show ?thesis by simp
  next
    case False
    have c: "nd_left nd < i" "nd_right nd < i" using assms(1) less.prems False by (auto simp: arena_ok_def nd_def)
    obtain n1 where n1: "tree_walk nodes (nd_left nd) (sat_add 255 depth 1) nbits = Some n1" "length n1 = length nbits"
        "\<forall>s. s \<notin> P \<longrightarrow> n1 ! s = nbits ! s"
      using less.IH [OF c(1)] c(1) less.prems by (meson less_trans)
    obtain n2 where n2: "tree_walk nodes (nd_right nd) (sat_add 255 depth 1) n1 = Some n2" "length n2 = length n1"
        "\<forall>s. s \<notin> P \<longrightarrow> n2 ! s = n1 ! s"
      using less.IH [OF c(2)] c(2) less.prems by (meson less_trans)
    have "tree_walk nodes i depth nbits = Some n2"
      using False n1(1) n2(1) by (subst tree_walk.simps) (simp add: at)
    then show ?thesis using n1(2,3) n2(2,3) by simp
  qed
qed

section \<open>The lengths\<close>

definition seen :: "nat list \<Rightarrow> nat set" where "seen freq = {s. s < 256 \<and> 0 < freq ! s}"

definition code_lengths :: "nat list \<Rightarrow> nat list \<Rightarrow> bool" where
  "code_lengths freq nbits \<longleftrightarrow> lengths_in MAX_BITS (seen freq) nbits \<and> kraft_of MAX_BITS (seen freq) nbits = 2 ^ MAX_BITS
     \<and> (\<forall>s < 256. s \<notin> seen freq \<longrightarrow> nbits ! s = 0)"

lemma huffman_nbits_ok:
  "if card (seen freq) < 2 then huffman_nbits freq = Some (Inl Corruption)
   else \<exists>nbits. huffman_nbits freq = Some (Inr nbits) \<and> code_lengths freq nbits"
proof -
  define syms where "syms = filter (\<lambda>s. 0 < freq ! s) [0..<256]"
  define present :: bytes where "present = map word_of_nat syms"
  define P where "P = seen freq"
  have sy: "set syms = P" "distinct syms" "\<And>s. s \<in> set syms \<Longrightarrow> s < 256" by (auto simp: syms_def P_def seen_def)
  have card: "card P = length present" using distinct_card [OF sy(2)] by (simp add: sy(1) present_def)
  have un: "map unat present = syms"
    unfolding present_def map_map comp_def using sy(3) by (intro map_idI) (simp add: unat_of_nat)
  then have P: "unat ` set present = P" using sy(1) by (metis set_map)
  have dist: "distinct present" using sy(2) unfolding un [symmetric] by (simp add: distinct_map)
  have len: "length present \<le> 256" unfolding present_def syms_def using length_filter_le [of _ "[0..<256]"] by simp
  have out: "\<And>s. s < 256 \<Longrightarrow> (replicate 256 0 :: nat list) ! s = 0" by simp
  have eq: "huffman_nbits freq = (if length present < 2 then Some (Inl Corruption)
      else if length present = 2 then Some (Inr ((replicate 256 0)[unat (present ! 0) := 1, unat (present ! 1) := 1]))
      else huffman_nbits freq)"
    by (simp add: huffman_nbits_def present_def syms_def Let_def)
  consider "length present < 2" | "length present = 2" | "2 < length present" by linarith
  then show ?thesis
  proof cases
    case 1
    then show ?thesis using eq card by (simp add: P_def)
  next
    case 2
    obtain a b where ab: "present = [a, b]" using 2 by (metis (no_types, lifting) One_nat_def Suc_1 length_0_conv length_Suc_conv)
    have ne: "unat a \<noteq> unat b" using dist by (simp add: ab word_unat_eq_iff)
    have Pab: "P = {unat a, unat b}" using P by (simp add: ab)
    define nbits where "nbits = (replicate 256 0)[unat a := (1 :: nat), unat b := 1]"
    have "unat a < 256" "unat b < 256" by simp_all
    then have "code_lengths freq nbits" using ne
      unfolding code_lengths_def lengths_in_def P_def [symmetric] Pab kraft_of_def nbits_def
      by (auto simp: MAX_BITS_def nth_list_update)
    then show ?thesis using 2 eq card by (simp add: ab nbits_def P_def)
  next
    case 3
    define nodes where "nodes = map (\<lambda>p. \<lparr> nd_count = freq ! unat p, nd_left = USIZE_MAX, nd_right = USIZE_MAX, nd_sym = int (unat p) \<rparr>) present"
    define keys where "keys = map (\<lambda>i. push_bit 8 (nd_count (nodes ! i)) OR i) [0..<min (length nodes) 256]"
    define leaves where "leaves = map (\<lambda>k. k AND 0xFF) (sort keys)"
    have ln: "length nodes = length present" by (simp add: nodes_def)
    have ll: "length leaves = length present" using len by (simp add: leaves_def keys_def ln)
    have key: "\<exists>i < length nodes. k AND 0xFF = i" if "k \<in> set keys" for k
    proof -
      from that have "k \<in> (\<lambda>i. push_bit 8 (nd_count (nodes ! i)) OR i) ` set [0..<min (length nodes) 256]" by (simp only: keys_def set_map)
      then obtain i where "i \<in> set [0..<min (length nodes) 256]" "k = push_bit 8 (nd_count (nodes ! i)) OR i" by (elim imageE)
      then have i: "i < length nodes" "i < 256" "k = push_bit 8 (nd_count (nodes ! i)) OR i" by simp_all
      have m: "k AND 0xFF = k mod 256" using and_mask_mod [of k 8] by simp
      have e: "k = i + 256 * nd_count (nodes ! i)" using or_push_bit_add [of i 8] i(2,3) by (simp add: or.commute)
      have "k AND 0xFF = i" unfolding m unfolding e using i(2) by simp
      then show ?thesis using i(1) by blast
    qed
    have a: "arena_ok P nodes" using P by (auto simp: arena_ok_def nodes_def)
    have q: "queues_ok (length nodes) leaves 0 [] 0" using key by (auto simp: queues_ok_def leaves_def)
    have n0: "0 + 0 < length leaves + length ([] :: nat list)" using 3 ll by auto
    obtain nodes' li internal ii where m: "merge_loop leaves nodes 0 [] 0 = Some (Inr (nodes', li, internal, ii))"
      "arena_ok P nodes'" "queues_ok (length nodes') leaves li internal ii" "Suc (li + ii) = length leaves + length internal"
      using merge_loop_ok [OF a q n0] by blast
    have eq3: "huffman_nbits freq = (case (get_at leaves li, get_at internal ii) of
        (Some r, None) \<Rightarrow> Option.bind (tree_walk nodes' r 0 (replicate 256 0)) (\<lambda>nbits. Some (Inr (limit_nbits nbits present MAX_BITS)))
      | (None, Some r) \<Rightarrow> Option.bind (tree_walk nodes' r 0 (replicate 256 0)) (\<lambda>nbits. Some (Inr (limit_nbits nbits present MAX_BITS)))
      | _ \<Rightarrow> Some (Inl Corruption))"
      using 3 m(1) unfolding leaves_def keys_def nodes_def present_def syms_def
      by (simp add: huffman_nbits_def Let_def)
    obtain r where r: "r < length nodes'" "huffman_nbits freq =
        Option.bind (tree_walk nodes' r 0 (replicate 256 0)) (\<lambda>nbits. Some (Inr (limit_nbits nbits present MAX_BITS)))"
    proof (cases "li < length leaves")
      case True
      then have "ii = length internal" using m(3,4) by (auto simp: queues_ok_def)
      moreover have "leaves ! li < length nodes'" using True m(3) unfolding queues_ok_def by (meson lessThan_iff nth_mem subsetD)
      ultimately show ?thesis using that [of "leaves ! li"] True unfolding eq3 by (simp add: get_at_def)
    next
      case False
      then have ii: "li = length leaves" "ii < length internal" using m(3,4) by (auto simp: queues_ok_def)
      then have "internal ! ii < length nodes'" using m(3) unfolding queues_ok_def by (meson lessThan_iff nth_mem subsetD)
      then show ?thesis using that [of "internal ! ii"] ii unfolding eq3 by (simp add: get_at_def)
    qed
    obtain nbits where w: "tree_walk nodes' r 0 (replicate 256 0) = Some nbits" "length nbits = 256"
        "\<forall>s. s \<notin> P \<longrightarrow> nbits ! s = replicate 256 0 ! s"
      using tree_walk_ok [OF m(2) r(1), of 0 "replicate 256 0"] by auto
    have "code_lengths freq (limit_nbits nbits present MAX_BITS)"
      using limit_nbits_ok [OF dist _ w(2), of MAX_BITS] 3 len w(3)
      unfolding P code_lengths_def P_def [symmetric] by (simp add: MAX_BITS_def)
    then show ?thesis using r(2) w(1) 3 card by (simp add: P_def)
  qed
qed

section \<open>A complete list of weights is accepted\<close>

lemma pow2_and_pred: "2 ^ k AND (2 ^ k - 1) = (0 :: nat)"
  by (simp add: and_mask_mod)

lemma wsum_parity: "wsum ws mod 2 = cnt ws 1 mod 2"
proof (induction ws)
  case (Cons x xs)
  consider "unat x = 0" | "unat x = 1" | k where "unat x = Suc (Suc k)" by (metis One_nat_def not0_implies_Suc)
  then show ?case using Cons by cases (simp_all add: mod_Suc_eq flip: mod_Suc_eq [of "wsum xs"])
qed simp

lemma complete_weights_complete:
  assumes "weights_ok (ws @ [w]) log" "w \<noteq> 0" "1 \<le> cnt (ws @ [w]) 1" "ws \<noteq> []" "wbuf = ws @ rest" "rest \<noteq> []"
  shows "complete_weights wbuf (length ws) = Some (Inr (map (cnt (ws @ [w])) [0..<13], log, ws @ [w]))"
proof -
  have l: "1 \<le> log" "log \<le> 11" "length ws \<le> 255" "list_all (\<lambda>x. unat x \<le> log) (ws @ [w])" "wsum (ws @ [w]) = 2 ^ log"
    using assms(1) by (simp_all add: weights_ok_def MAX_BITS_def)
  define k where "k = unat w - 1"
  have w0: "0 < unat w" using assms(2) by (simp add: unat_gt_0)
  have k: "unat w = Suc k" "k < log" using l(4) w0 by (auto simp: k_def)
  define tot where "tot = wsum ws"
  have tot: "tot + 2 ^ k = 2 ^ log" using l(5) k(1) by (simp add: tot_def)
  have half: "(2 :: nat) ^ log = 2 * 2 ^ (log - 1)" using l(1) by (metis Suc_pred' less_eq_Suc_le One_nat_def power_Suc)
  have "(2 :: nat) ^ k \<le> 2 ^ (log - 1)" using k(2) by (intro power_increasing) auto
  then have b: "2 ^ (log - 1) \<le> tot" "tot < 2 * 2 ^ (log - 1)"
    using tot half zero_less_power [of "2 :: nat" k] by linarith+
  have hb: "highbit tot + 1 = log" using highbit_eqI [OF b] l(1) by simp
  have rest: "2 ^ log - tot = 2 ^ k" using tot by simp
  have tk: "take (length ws) wbuf = ws" "take (length ws + 1) (wbuf[length ws := w]) = ws @ [w]"
    using assms(5,6) by (cases rest; simp)+
  have "list_all (\<lambda>x. unat x \<le> MAX_BITS) ws" using l(2,4) by (auto simp: list_all_iff MAX_BITS_def)
  then have c: "count_weights ws (replicate 13 0) 0 = Some (Inr (map (cnt ws) [0..<13], tot))"
    by (subst count_weights_ok) (auto intro!: map_cong simp: nth_Cons' eval_nat_numeral tot_def)
  have lw: "highbit (2 ^ k) + 1 = Suc k" using highbit_eqI [of k "2 ^ k"] by simp
  have wo: "word_of_nat (Suc k) = w" unfolding k(1) [symmetric] by simp
  have rank: "(map (cnt ws) [0..<13])[Suc k := map (cnt ws) [0..<13] ! Suc k + 1] = map (cnt (ws @ [w])) [0..<13]"
    using k l(2) by (auto simp: list_eq_iff_nth_eq nth_list_update)
  have even: "cnt (ws @ [w]) 1 mod 2 = 0" using wsum_parity [of "ws @ [w]"] l(5) half by simp
  then have two: "2 \<le> cnt (ws @ [w]) 1" using assms(3) by presburger
  have r1: "map (cnt (ws @ [w])) [0..<13] ! 1 = cnt (ws @ [w]) 1" by (simp del: cnt_simps)
  have tot0: "tot \<noteq> 0" using b(1) by (metis not_one_le_zero one_le_numeral one_le_power order_trans)
  have len13: "Suc k < 13" "\<not> MAX_BITS < Suc k" "\<not> MAX_BITS < log" using k l(2) by (auto simp: MAX_BITS_def)
  show ?thesis
    unfolding complete_weights_def Let_def tk(1) c then_do_simps prod.case hb rest lw wo
    using assms(4) tot0 len13 l(3) pow2_and_pred [of k] rank two even r1 tk(2)
    by (simp add: get_unchecked_def put_unchecked_def del: cnt_simps)
qed

lemma set_huff_cells:
  "set (huff_cells ws log) = {huff_cell s (log + 1 - unat (ws ! s)) | s. s < length ws \<and> 1 \<le> unat (ws ! s) \<and> unat (ws ! s) \<le> log}"
  by (auto simp: huff_cells_def weight_cells_def syms_of_def less_Suc_eq_le simp del: upt_Suc)

section \<open>From lengths to the table\<close>

lemma unat_small: "k < 256 \<Longrightarrow> unat (word_of_nat k :: u8) = k"
  by (simp add: unat_of_nat)

lemma wsum_lengths:
  assumes "\<forall>s < n. nbits ! s \<le> H" "H \<le> 11"
  shows "int (wsum (map (\<lambda>s. let nb = nbits ! s in if nb = 0 then 0 else word_of_nat (H + 1 - nb)) [0..<n]))
    = kraft_of H {s. s < n \<and> 0 < nbits ! s} nbits"
  using assms(1)
proof (induction n)
  case (Suc n)
  have fin: "finite {s. s < n \<and> 0 < nbits ! s}" by simp
  show ?case
  proof (cases "nbits ! n = 0")
    case True
    then have "{s. s < Suc n \<and> 0 < nbits ! s} = {s. s < n \<and> 0 < nbits ! s}" by (auto simp: less_Suc_eq)
    then show ?thesis using Suc True by (simp add: Let_def)
  next
    case False
    then have "{s. s < Suc n \<and> 0 < nbits ! s} = insert n {s. s < n \<and> 0 < nbits ! s}" by (auto simp: less_Suc_eq)
    moreover define v :: u8 where "v = word_of_nat (H + 1 - nbits ! n)"
    have "unat v = H + 1 - nbits ! n" unfolding v_def using assms(2) by (intro unat_small) simp
    then have "unat v = Suc (H - nbits ! n)" using Suc.prems by (simp add: Suc_diff_le)
    moreover have "map (\<lambda>s. let nb = nbits ! s in if nb = 0 then 0 else word_of_nat (H + 1 - nb)) [0..<Suc n]
        = map (\<lambda>s. let nb = nbits ! s in if nb = 0 then 0 else word_of_nat (H + 1 - nb)) [0..<n] @ [v]"
      using False by (simp add: Let_def v_def)
    ultimately show ?thesis using Suc fin by (simp add: kraft_of_def del: upt_Suc)
  qed
qed (simp add: kraft_of_def)

lemma kraft_scale:
  assumes "\<forall>s \<in> P. nbits ! s \<le> H" "H \<le> L"
  shows "kraft_of L P nbits = 2 ^ (L - H) * kraft_of H P nbits"
proof -
  have "(2 :: int) ^ (L - nbits ! s) = 2 ^ (L - H) * 2 ^ (H - nbits ! s)" if "s \<in> P" for s
    using assms that by (simp flip: power_add)
  then show ?thesis by (simp add: kraft_of_def sum_distrib_left)
qed

lemma ctable_widths:
  assumes "ctable_for ws (rank, H, ws') ct" "weights_ok ws' H" "s < 256"
  shows "width_of ct s = (if s < length ws' \<and> 0 < unat (ws' ! s) then H + 1 - unat (ws' ! s) else 0)"
proof -
  define T where "T = huff_cells ws' H"
  have l: "H \<le> 11" "length ws' \<le> 256" "\<And>j. j < length ws' \<Longrightarrow> unat (ws' ! j) \<le> H"
    using assms(2) by (auto simp: weights_ok_def MAX_BITS_def list_all_iff)
  have c: "codes_of ct T H" "\<forall>i < length T. width_of ct (cell_sym (T ! i)) \<noteq> 0"
    using assms(1) by (simp_all add: ctable_for_def T_def)
  have cell: "cell_sym (huff_cell j (H + 1 - unat (ws' ! j))) = j \<and> cell_nb (huff_cell j (H + 1 - unat (ws' ! j))) = H + 1 - unat (ws' ! j)"
    if "j < length ws'" for j
    using cell_fields [of j "H + 1 - unat (ws' ! j)"] that l(1,2) by simp
  show ?thesis
  proof (cases "width_of ct s = 0")
    case False
    then obtain i where i: "i < length T" "cell_sym (T ! i) = s" "cell_nb (T ! i) = width_of ct s"
      using c(1) assms(3) unfolding codes_of_def by blast
    then have "T ! i \<in> set T" by simp
    then obtain j where "T ! i = huff_cell j (H + 1 - unat (ws' ! j))" "j < length ws'" "1 \<le> unat (ws' ! j)"
      unfolding T_def set_huff_cells by blast
    then show ?thesis using cell [of j] i(2,3) by auto
  next
    case True
    have "\<not> (s < length ws' \<and> 0 < unat (ws' ! s))"
    proof
      assume s: "s < length ws' \<and> 0 < unat (ws' ! s)"
      then have "huff_cell s (H + 1 - unat (ws' ! s)) \<in> set T" using l(3) [of s] unfolding T_def set_huff_cells by auto
      then obtain i where "i < length T" "T ! i = huff_cell s (H + 1 - unat (ws' ! s))" by (metis in_set_conv_nth)
      then have "width_of ct s \<noteq> 0" using c(2) cell [of s] s by metis
      with True show False by simp
    qed
    then show ?thesis using True by simp
  qed
qed

definition built_for :: "nat list \<Rightarrow> huff_ctable \<Rightarrow> bool" where
  "built_for nbits ct \<longleftrightarrow> ctable_from_weights (hc_weights ct) = Some (Inr ct) \<and> (\<forall>s < 256. width_of ct s = nbits ! s)"

lemma ctable_from_nbits_ok:
  assumes "code_lengths freq nbits"
  shows "\<exists>ct. ctable_from_nbits nbits = Some (Inr ct) \<and> built_for nbits ct"
proof -
  define P where "P = seen freq"
  have len: "length nbits = 256" and bd: "\<And>s. s \<in> P \<Longrightarrow> 1 \<le> nbits ! s \<and> nbits ! s \<le> 11" and fin: "finite P"
    and kr: "kraft_of 11 P nbits = 2 ^ 11" and z: "\<And>s. s < 256 \<Longrightarrow> s \<notin> P \<Longrightarrow> nbits ! s = 0" and P256: "P \<subseteq> {..<256}"
    using assms by (auto simp: code_lengths_def lengths_in_def P_def MAX_BITS_def seen_def)
  have Pn: "s \<in> P \<longleftrightarrow> s < 256 \<and> 0 < nbits ! s" for s using bd [of s] z [of s] P256 by (cases "s \<in> P") auto
  define H where "H = fold max nbits 0"
  define m where "m = Max P"
  have "P \<noteq> {}" using kr by (auto simp: kraft_of_def)
  then have m: "m \<in> P" "\<And>s. s \<in> P \<Longrightarrow> s \<le> m" using fin by (simp_all add: m_def)
  have m256: "m < 256" "0 < nbits ! m" using m(1) Pn by auto
  have le11: "nbits ! s \<le> 11" if "s < 256" for s using bd [of s] z [of s] that by (cases "s \<in> P") auto
  have leH: "nbits ! s \<le> H" if "s < 256" for s using fold_max_bounds(1) [of "nbits ! s" nbits] that len by (simp add: H_def)
  have H: "1 \<le> H" "H \<le> 11"
    using leH [OF m256(1)] m256(2) fold_max_bounds(2) [of nbits 11] le11 len by (auto simp: H_def in_set_conv_nth)
  have attained: "\<exists>s < 256. nbits ! s = H"
  proof -
    have "Max (set (0 # nbits)) = H" unfolding H_def by (rule Max.set_eq_fold)
    then have "H \<in> set (0 # nbits)" by (metis List.finite_set Max_in empty_not_insert list.simps(15))
    then show ?thesis using H(1) len by (auto simp: in_set_conv_nth)
  qed
  have head: "\<exists>tl. filter (\<lambda>s. 0 < nbits ! s) (rev [0..<length nbits]) = m # tl"
  proof -
    have "[0..<256] = [0..<m] @ [m..<256]" using m256(1) upt_add_eq_append [of 0 m "256 - m"] by simp
    then have "rev [0..<256] = rev [Suc m..<256] @ m # rev [0..<m]" using upt_conv_Cons [OF m256(1)] by simp
    moreover have "filter (\<lambda>s. 0 < nbits ! s) (rev [Suc m..<256]) = []" using m(2) Pn by (force simp: filter_empty_conv)
    ultimately show ?thesis using m256(2) len by simp
  qed
  define ws where "ws = map (\<lambda>s. let nb = nbits ! s in if nb = 0 then 0 else (word_of_nat (H + 1 - nb) :: u8)) [0..<m]"
  define w where "w = (word_of_nat (H + 1 - nbits ! m) :: u8)"
  have lw: "length ws = m" "length ws \<le> 255" using m256(1) by (simp_all add: ws_def)
  have ws': "ws @ [w] = map (\<lambda>s. let nb = nbits ! s in if nb = 0 then 0 else word_of_nat (H + 1 - nb)) [0..<Suc m]"
    using m256(2) by (simp add: ws_def w_def Let_def)
  have at: "unat ((ws @ [w]) ! s) = (if nbits ! s = 0 then 0 else H + 1 - nbits ! s)" if "s \<le> m" for s
  proof -
    have "(ws @ [w]) ! s = (if nbits ! s = 0 then 0 else word_of_nat (H + 1 - nbits ! s))"
      unfolding ws' using that by (simp add: Let_def del: upt_Suc)
    moreover have "unat (word_of_nat (H + 1 - nbits ! s) :: u8) = H + 1 - nbits ! s" using H(2) by (intro unat_small) simp
    ultimately show ?thesis by simp
  qed
  have Pm: "{s. s < Suc m \<and> 0 < nbits ! s} = P" using m(2) m256(1) Pn by (auto simp: less_Suc_eq_le)
  have "kraft_of 11 P nbits = 2 ^ (11 - H) * kraft_of H P nbits"
    using leH P256 H(2) by (intro kraft_scale) auto
  moreover have "(2 :: int) ^ 11 = 2 ^ (11 - H) * 2 ^ H" using H(2) by (simp flip: power_add)
  ultimately have "(2 :: int) ^ (11 - H) * kraft_of H P nbits = 2 ^ (11 - H) * 2 ^ H" using kr by metis
  then have krH: "kraft_of H P nbits = 2 ^ H" by (subst (asm) mult_cancel_left) simp
  have "int (wsum (ws @ [w])) = 2 ^ H"
    unfolding ws' using wsum_lengths [of "Suc m" nbits H] leH m256(1) H(2) krH Pm by simp
  then have sum: "wsum (ws @ [w]) = 2 ^ H" by (metis of_nat_eq_iff of_nat_numeral of_nat_power)
  have all: "list_all (\<lambda>x. unat x \<le> H) (ws @ [w])"
    using at lw(1) m256 bd by (auto simp: list_all_length less_Suc_eq_le)
  have ok: "weights_ok (ws @ [w]) H" using H lw sum all by (simp add: weights_ok_def MAX_BITS_def)
  have w0: "w \<noteq> 0" using at [of m] lw(1) m256(2) leH [OF m256(1)] by (auto simp: nth_append)
  obtain s1 where s1: "s1 < 256" "nbits ! s1 = H" using attained by blast
  then have "s1 \<le> m" using m(2) Pn H(1) by auto
  then have "unat ((ws @ [w]) ! s1) = 1" "s1 < length (ws @ [w])" using at [of s1] s1 H(1) lw(1) by auto
  then have "0 < cnt (ws @ [w]) 1" unfolding cnt_def by (metis (mono_tags, lifting) filter_empty_conv length_greater_0_conv nth_mem)
  then have c1: "1 \<le> cnt (ws @ [w]) 1" by linarith
  have m0: "m \<noteq> 0"
  proof
    assume "m = 0"
    then have "P = {0}" using m by auto
    then have "(2 :: int) ^ (11 - nbits ! 0) = 2 ^ 11" using kr by (simp add: kraft_of_def)
    then have "11 - nbits ! 0 = 11" by (metis power_inject_exp one_less_numeral_iff semiring_norm(76))
    then show False using m256(2) \<open>m = 0\<close> by simp
  qed
  then have ne: "ws \<noteq> []" using lw(1) by auto
  have cw: "complete_weights (ws @ replicate (256 - length ws) 0) (length ws) = Some (Inr (map (cnt (ws @ [w])) [0..<13], H, ws @ [w]))"
    using lw(2) by (intro complete_weights_complete [OF ok w0 c1 ne]) auto
  obtain ct where ct: "ctable_from_weights ws = Some (Inr ct)" "ctable_for ws (map (cnt (ws @ [w])) [0..<13], H, ws @ [w]) ct"
    using ctable_from_weights_eq [OF lw(2) cw] by blast
  obtain tl' where hd: "filter (\<lambda>s. 0 < nbits ! s) (rev [0..<length nbits]) = m # tl'" using head by blast
  have "ctable_from_nbits nbits = ctable_from_weights ws"
    unfolding ctable_from_nbits_def hd list.case Let_def H_def [symmetric] ws_def [unfolded Let_def, symmetric] ctable_from_weights_def
    using H m0 lw by (simp add: MAX_BITS_def)
  moreover have "hc_weights ct = ws" using ct(2) by (simp add: ctable_for_def)
  moreover have "width_of ct s = nbits ! s" if "s < 256" for s
  proof (cases "s \<le> m")
    case True
    have "width_of ct s = (if s < length (ws @ [w]) \<and> 0 < unat ((ws @ [w]) ! s) then H + 1 - unat ((ws @ [w]) ! s) else 0)"
      by (rule ctable_widths [OF ct(2) ok that])
    then show ?thesis using True at [OF True] lw(1) leH [OF that] by (cases "nbits ! s = 0") simp_all
  next
    case False
    then have "s \<notin> P" using m(2) by blast
    then have "nbits ! s = 0" using Pn that by simp
    then show ?thesis using ctable_widths [OF ct(2) ok that] False lw(1) by simp
  qed
  ultimately show ?thesis using ct(1) by (auto simp: built_for_def)
qed

lemma build_ctable_ok:
  "if card (seen freq) < 2 then build_ctable_from_freq freq = Some (Inl Corruption)
   else \<exists>nbits ct. build_ctable_from_freq freq = Some (Inr ct) \<and> code_lengths freq nbits \<and> built_for nbits ct"
proof (cases "card (seen freq) < 2")
  case True
  then show ?thesis using huffman_nbits_ok [of freq] by (simp add: build_ctable_from_freq_def)
next
  case False
  then obtain nbits where n: "huffman_nbits freq = Some (Inr nbits)" "code_lengths freq nbits"
    using huffman_nbits_ok [of freq] by auto
  then show ?thesis using ctable_from_nbits_ok [OF n(2)] False by (auto simp: build_ctable_from_freq_def)
qed

lemma built_widths:
  assumes "code_lengths freq nbits" "built_for nbits ct" "s < 256"
  shows "width_of ct s \<le> 11" "width_of ct s \<noteq> 0 \<longleftrightarrow> 0 < freq ! s"
proof -
  have w: "width_of ct s = nbits ! s" using assms(2,3) by (simp add: built_for_def)
  show "width_of ct s \<le> 11" "width_of ct s \<noteq> 0 \<longleftrightarrow> 0 < freq ! s"
    using assms(1,3) unfolding w code_lengths_def lengths_in_def
    by (cases "s \<in> seen freq"; force simp: seen_def MAX_BITS_def)+
qed

section \<open>Histograms count\<close>

lemma length_bump [simp]: "length (bump h b) = length h"
  by (simp add: bump_def)

lemma bump_nth: "length h = 256 \<Longrightarrow> s < 256 \<Longrightarrow> bump h b ! s = h ! s + (if unat b = s then 1 else 0)"
  by (simp add: bump_def nth_list_update)

lemma fold_bump:
  "length h = 256 \<Longrightarrow> s < 256 \<Longrightarrow> length (fold (\<lambda>b h. bump h b) bs h) = 256 \<and> fold (\<lambda>b h. bump h b) bs h ! s = h ! s + cnt bs s"
  by (induction bs arbitrary: h) (simp_all add: bump_nth)

lemma hist_quads_ok:
  assumes "length h = 256" "length h1 = 256" "length h2 = 256" "length h3 = 256" "s < 256"
  shows "case hist_quads bs h h1 h2 h3 of (a, b, c, d) \<Rightarrow>
     a ! s + b ! s + c ! s + d ! s = h ! s + h1 ! s + h2 ! s + h3 ! s + cnt bs s"
  using assms(1-4)
proof (induction bs h h1 h2 h3 rule: hist_quads.induct)
  case (1 c0 c1 c2 c3 bs h h1 h2 h3)
  then show ?case using assms(5) by (simp add: bump_nth split: prod.splits)
qed (simp_all add: fold_bump bump_nth assms(5))

lemma hist_count_ok: "length (hist_count bs h) = 256" "length h = 256 \<Longrightarrow> s < 256 \<Longrightarrow> hist_count bs h ! s = h ! s + cnt bs s"
  using hist_quads_ok [of h "replicate 256 0" "replicate 256 0" "replicate 256 0" s bs]
  by (auto simp: hist_count_def split: prod.splits)

text \<open>The counts of a whole section are the sums over its segments.\<close>

definition freq_of :: "nat list list \<Rightarrow> nat list" where
  "freq_of segs = fold (\<lambda>h freq. map (\<lambda>s. freq ! s + h ! s) [0..<256]) segs (replicate 256 0)"

lemma fold_sum_nth:
  "length f = 256 \<Longrightarrow> s < 256 \<Longrightarrow> length (fold (\<lambda>h freq. map (\<lambda>s. freq ! s + h ! s) [0..<256]) segs f) = 256
     \<and> fold (\<lambda>h freq. map (\<lambda>s. freq ! s + h ! s) [0..<256]) segs f ! s = f ! s + sum_list (map (\<lambda>h. h ! s) segs)"
  by (induction segs arbitrary: f) (simp_all add: add.assoc)

lemma cnt_split: "cnt (take n bs) s + cnt (drop n bs) s = cnt bs s"
  by (metis append_take_drop_id cnt_simps(3))

lemma segments_fill_ok:
  assumes "s < 256" "off \<le> length lits" "is = [] \<longrightarrow> off = length lits" "is \<noteq> [] \<longrightarrow> List.last is = 3" "3 \<notin> set (butlast is)"
  shows "sum_list (map (\<lambda>h. h ! s) (segments_fill lits chunk is off)) = cnt (drop off lits) s"
  using assms(2-)
proof (induction "is" arbitrary: off)
  case (Cons i js)
  define stop where "stop = (if i = 3 then length lits else min (off + chunk) (length lits))"
  have st: "off \<le> stop" "stop \<le> length lits" using Cons.prems(1) by (auto simp: stop_def)
  have pre: "js = [] \<longrightarrow> stop = length lits" "js \<noteq> [] \<longrightarrow> List.last js = 3" "3 \<notin> set (butlast js)"
    using Cons.prems(3,4) by (cases js; simp add: stop_def)+
  have "drop (stop - off) (drop off lits) = drop stop lits" using st by simp
  then have "cnt (take (stop - off) (drop off lits)) s + cnt (drop stop lits) s = cnt (drop off lits) s"
    by (metis cnt_split)
  then show ?case using Cons.IH [OF st(2) pre] assms(1) hist_count_ok(2) [of "replicate 256 0" s]
    by (simp add: Let_def stop_def [symmetric])
qed simp

lemma segment_histograms_ok:
  assumes "s < 256"
  shows "freq_of (segment_histograms_into lits n) ! s = cnt lits s" "length (freq_of (segment_histograms_into lits n)) = 256"
proof -
  have "sum_list (map (\<lambda>h. h ! s) (segment_histograms_into lits n)) = cnt lits s"
  proof (cases "n = 4")
    case True
    have "[0..<4] = [0, 1, 2, 3 :: nat]" by (simp add: upt_rec)
    then have "([0..<4] :: nat list) \<noteq> []" "List.last [0..<4] = (3 :: nat)" "3 \<notin> set (butlast [0..<4 :: nat])" by simp_all
    then show ?thesis using segments_fill_ok [OF assms, of 0 lits "[0..<4]"] True by (simp add: segment_histograms_into_def)
  next
    case False
    then show ?thesis using hist_count_ok(2) [of "replicate 256 0" s] assms by (simp add: segment_histograms_into_def)
  qed
  then show "freq_of (segment_histograms_into lits n) ! s = cnt lits s" "length (freq_of (segment_histograms_into lits n)) = 256"
    using fold_sum_nth [where f = "replicate 256 0" and s = s and segs = "segment_histograms_into lits n"] assms
    unfolding freq_of_def by simp_all
qed

section \<open>What the build promises\<close>

text \<open>C15: the code built from any counts: with fewer than two symbols present the build fails with \<open>Corruption\<close>; with
  two or more it always succeeds, whatever the shape of the merge tree and however deep it was before the repair.
  Exactly the symbols present have a code, none longer than 11 bits, the lengths satisfy Kraft's equality, so that the code is
  complete, and the table is the one built from the weights that are written to the stream.\<close>

theorem huffman_code_built:
  "if card (seen freq) < 2 then build_ctable_from_freq freq = Some (Inl Corruption)
   else \<exists>ct. build_ctable_from_freq freq = Some (Inr ct) \<and> ctable_from_weights (hc_weights ct) = Some (Inr ct)
     \<and> (\<forall>s < 256. width_of ct s \<le> 11 \<and> (width_of ct s \<noteq> 0 \<longleftrightarrow> 0 < freq ! s))
     \<and> (\<Sum>s \<in> seen freq. 2 ^ (11 - width_of ct s)) = (2 ^ 11 :: int)"
proof (cases "card (seen freq) < 2")
  case False
  then obtain nbits ct where b: "build_ctable_from_freq freq = Some (Inr ct)" "code_lengths freq nbits" "built_for nbits ct"
    using build_ctable_ok [of freq] by auto
  have "(\<Sum>s \<in> seen freq. 2 ^ (11 - width_of ct s)) = kraft_of 11 (seen freq) nbits"
    using b(3) by (auto simp: kraft_of_def built_for_def seen_def intro!: sum.cong)
  also have "\<dots> = 2 ^ 11" using b(2) by (simp add: code_lengths_def MAX_BITS_def)
  finally show ?thesis using False b(1,3) built_widths [OF b(2,3)] by (auto simp: built_for_def)
next
  case True
  then show ?thesis using build_ctable_ok [of freq] by simp
qed

theorem huffman_code_built_witness:
  "\<exists>ct. build_ctable_from_freq ([5, 1, 9] @ replicate 253 0) = Some (Inr ct) \<and> width_of ct 0 \<noteq> 0 \<and> width_of ct 1 \<le> 11 \<and> width_of ct 3 = 0"
proof -
  define f :: "nat list" where "f = [5, 1, 9] @ replicate 253 0"
  have "seen f = {0, 1, 2}" by (auto simp: f_def seen_def nth_append nth_Cons' split: if_splits)
  then have "\<not> card (seen f) < 2" by simp
  then obtain ct where b: "build_ctable_from_freq f = Some (Inr ct)"
    and w: "\<forall>s < 256. width_of ct s \<le> 11 \<and> (width_of ct s \<noteq> 0 \<longleftrightarrow> 0 < f ! s)"
    using huffman_code_built [of f] by auto
  have f: "f ! 0 = 5" "f ! 3 = 0" by (simp_all add: f_def)
  have "width_of ct 0 \<noteq> 0" using w f(1) by simp
  moreover have "width_of ct 3 = 0" using spec [OF w, of 3] f(2) by simp
  moreover have "width_of ct 1 \<le> 11" using w by simp
  ultimately show ?thesis using b unfolding f_def by blast
qed

end
