(* ===== verification/Fse_Encode.thy ===== *)
theory Fse_Encode
  imports Fse_Coding
begin

text \<open>
  The encoder's side of FSE headers (\<^verbatim>\<open>fse.rs\<close>): the choice of the table size, the normalisation of counts
  with its fallback, the writer of the NCount header, the two-state encoder of Huffman weights, and the
  two functions that put them together for a histogram.

  The lemmas show that all of them end on any input and that their unchecked reads are in range;
  that the header of any counts that fill a table is parsed back to these counts is shown in \<open>Fse_Header\<close>.
\<close>

section \<open>Normalising counts\<close>

definition lz32 :: "nat \<Rightarrow> nat" where "lz32 n = (if n = 0 then 32 else 31 - highbit n)"

definition optimal_table_log :: "nat \<Rightarrow> nat \<Rightarrow> nat \<Rightarrow> nat" where
  "optimal_table_log max_log src_size max_symbol =
     (if src_size \<le> 1 then 5
      else
        let max_bits_src = wsub32 31 (lz32 (wsub32 (src_size mod 2 ^ 32) 1)) - 2;
            min_bits_src = (wsub32 31 (lz32 (src_size mod 2 ^ 32)) + 1) mod 2 ^ 32;
            min_bits_sym = (wsub32 31 (lz32 (max_symbol mod 2 ^ 32)) + 2) mod 2 ^ 32;
            min_bits = max (min min_bits_src min_bits_sym) 5;
            log = max (min max_log max_bits_src) min_bits
        in min (max log 5) 9)"

definition REST_TO_BEAT :: "nat list" where
  "REST_TO_BEAT = [0, 473195, 504333, 520860, 550000, 700000, 750000, 830000]"

text \<open>One probability of the primary path; the products are \<^verbatim>\<open>u64\<close>.\<close>

definition scaled_prob :: "nat \<Rightarrow> nat \<Rightarrow> nat \<Rightarrow> int" where
  "scaled_prob scale step c =
     (let v_step = push_bit (scale - 20) 1;
          proba = as_i16 (int (drop_bit scale (c * step mod 2 ^ 64)))
      in if proba < 8 then
           let rest = nat ((int (c * step) - proba * 2 ^ scale) mod 2 ^ 64)
           in if v_step * REST_TO_BEAT ! min (nat (proba mod 2 ^ 64)) 7 mod 2 ^ 64 < rest then proba + 1 else proba
         else proba)"

record norm_state =
  ns_norm :: "int list"
  ns_still :: int
  ns_largest :: nat
  ns_largest_p :: int

fun norm_loop :: "(nat \<Rightarrow> int) \<Rightarrow> int \<Rightarrow> nat \<Rightarrow> nat \<Rightarrow> nat list \<Rightarrow> norm_state \<Rightarrow> norm_state" where
  "norm_loop prob low_prob low_threshold s [] st = st"
| "norm_loop prob low_prob low_threshold s (c # cs) st =
     (if c = 0 then norm_loop prob low_prob low_threshold (s + 1) cs st
      else if c \<le> low_threshold then
        norm_loop prob low_prob low_threshold (s + 1) cs (st\<lparr> ns_norm := (ns_norm st)[s := low_prob], ns_still := ns_still st - 1 \<rparr>)
      else
        let p = prob c;
            st = (if ns_largest_p st < p then st\<lparr> ns_largest_p := p, ns_largest := s \<rparr> else st)
        in norm_loop prob low_prob low_threshold (s + 1) cs (st\<lparr> ns_norm := (ns_norm st)[s := p], ns_still := ns_still st - p \<rparr>))"

text \<open>The last step of both paths: what is left goes to the largest count.\<close>

definition give_rest :: "int list \<Rightarrow> nat \<Rightarrow> int \<Rightarrow> int list option" where
  "give_rest norm largest left =
     Option.bind (get_unchecked norm largest) (\<lambda>v.
       let v = as_i16 (v + left) in put_unchecked norm largest (if v < 1 then 1 else v))"

definition normalize_count :: "nat list \<Rightarrow> nat \<Rightarrow> nat \<Rightarrow> bool \<Rightarrow> int list res option" where
  "normalize_count counts table_log tot use_low_prob =
     (if tot = 0 \<or> \<not> (5 \<le> table_log \<and> table_log \<le> 9) \<or> counts = [] then Some (Inl Corruption)
      else if tot \<in> set counts then Some (Inl Corruption)
      else
        let low_prob = (if use_low_prob then -1 else 1);
            scale = 62 - table_log;
            step = 2 ^ 62 div max tot 1;
            st = norm_loop (scaled_prob scale step) low_prob (drop_bit table_log tot) 0 counts
              \<lparr> ns_norm = replicate (length counts) 0, ns_still = 2 ^ table_log, ns_largest = 0, ns_largest_p = 0 \<rparr>
        in Option.bind (get_unchecked (ns_norm st) (ns_largest st)) (\<lambda>nl.
           if \<bar>nl\<bar> div 2 \<le> \<bar>ns_still st\<bar> \<and> ns_still st < 0 then
             let n2 = map (\<lambda>c. if c = 0 then 0 else as_i16 (int (max (push_bit table_log c div tot) 1))) counts;
                 dist = sum_list n2
             in Option.bind (give_rest n2 (ns_largest st) (2 ^ table_log - dist)) (\<lambda>n2. Some (Inr n2))
           else Option.bind (give_rest (ns_norm st) (ns_largest st) (ns_still st)) (\<lambda>norm. Some (Inr norm))))"

section \<open>The header\<close>

text \<open>The output with its 32-bit accumulator.\<close>

record ncount_out =
  no_out :: bytes
  no_bits :: nat
  no_count :: nat

definition no_put :: "nat \<Rightarrow> nat \<Rightarrow> ncount_out \<Rightarrow> ncount_out" where
  "no_put v n w = w\<lparr> no_bits := no_bits w OR push_bit (no_count w) v mod 2 ^ 32, no_count := no_count w + n \<rparr>"

definition no_push :: "ncount_out \<Rightarrow> ncount_out" where
  "no_push w = w\<lparr> no_out := no_out w @ [word_of_nat (no_bits w), word_of_nat (drop_bit 8 (no_bits w))] \<rparr>"

definition no_flush :: "ncount_out \<Rightarrow> ncount_out" where
  "no_flush w =
     (if 16 < no_count w then (no_push w)\<lparr> no_bits := drop_bit 16 (no_bits w), no_count := no_count w - 16 \<rparr> else w)"

text \<open>A run of absent symbols: 24 at a time, 3 at a time, the rest.\<close>

function put_runs24 :: "nat \<Rightarrow> nat \<Rightarrow> ncount_out \<Rightarrow> nat \<times> ncount_out" where
  "put_runs24 symbol start w =
     (if start + 24 \<le> symbol then
        let w = no_push (no_put 0xFFFF 0 w) in put_runs24 symbol (start + 24) (w\<lparr> no_bits := drop_bit 16 (no_bits w) \<rparr>)
      else (start, w))"
  by auto

termination
  by (relation "measure (\<lambda>(symbol, start, w). symbol - start)") auto

function put_runs3 :: "nat \<Rightarrow> nat \<Rightarrow> ncount_out \<Rightarrow> nat \<times> ncount_out" where
  "put_runs3 symbol start w = (if start + 3 \<le> symbol then put_runs3 symbol (start + 3) (no_put 3 2 w) else (start, w))"
  by auto

termination
  by (relation "measure (\<lambda>(symbol, start, w). symbol - start)") auto

declare put_runs24.simps [simp del] put_runs3.simps [simp del]

definition put_zero_run :: "nat \<Rightarrow> nat \<Rightarrow> ncount_out \<Rightarrow> ncount_out" where
  "put_zero_run start symbol w =
     (let (start, w) = put_runs24 symbol start w; (start, w) = put_runs3 symbol start w
      in no_flush (no_put (symbol - start) 2 w))"

record ncount_write =
  nt_symbol :: nat
  nt_previous0 :: bool
  nt_remaining :: int
  nt_threshold :: int
  nt_nb_bits :: nat
  nt_out :: ncount_out

partial_function (option) halve_to :: "int \<Rightarrow> int \<Rightarrow> nat \<Rightarrow> (int \<times> nat) option" where
  "halve_to remaining threshold nb_bits =
     (if remaining < threshold then halve_to remaining (threshold div 2) (nb_bits - 1) else Some (threshold, nb_bits))"

definition put_prob :: "int \<Rightarrow> ncount_write \<Rightarrow> ncount_write res option" where
  "put_prob p st =
     (let mx = (2 * nt_threshold st - 1) - nt_remaining st;
          remaining = nt_remaining st - \<bar>p\<bar>;
          v = p + 1;
          v = (if nt_threshold st \<le> v then v + mx else v);
          w = no_put (nat (v mod 2 ^ 32)) (if v < mx then nt_nb_bits st - 1 else nt_nb_bits st) (nt_out st)
      in if remaining < 1 then Some (Inl Corruption)
         else Option.bind (halve_to remaining (nt_threshold st) (nt_nb_bits st)) (\<lambda>(threshold, nb_bits).
              Some (Inr \<lparr> nt_symbol = nt_symbol st + 1, nt_previous0 = (v = 1), nt_remaining = remaining,
                nt_threshold = threshold, nt_nb_bits = nb_bits, nt_out = no_flush w \<rparr>)))"

text \<open>The scan over absent symbols.\<close>

definition zero_end :: "int list \<Rightarrow> nat \<Rightarrow> nat" where
  "zero_end norm s = s + length (takeWhile (\<lambda>p. p = 0) (drop s norm))"

partial_function (option) ncount_put_loop :: "int list \<Rightarrow> ncount_write \<Rightarrow> ncount_write res option" where
  "ncount_put_loop norm st =
     (if \<not> (nt_symbol st < length norm \<and> 1 < nt_remaining st) then Some (Inr st)
      else
        let start = nt_symbol st; symbol = (if nt_previous0 st then zero_end norm start else start)
        in if symbol = length norm then Some (Inr (st\<lparr> nt_symbol := symbol \<rparr>))
           else
             let st = (if nt_previous0 st then st\<lparr> nt_symbol := symbol, nt_out := put_zero_run start symbol (nt_out st) \<rparr> else st)
             in Option.bind (put_prob (norm ! symbol) st) (\<lambda>r.
                  case r of Inl e \<Rightarrow> Some (Inl e) | Inr st \<Rightarrow> ncount_put_loop norm st))"

definition no_finish :: "ncount_out \<Rightarrow> bytes" where
  "no_finish w =
     (let out = no_out (no_push w); extra = (no_count w + 7) div 8 in take (length out - 2 + max extra 1) out)"

definition write_ncount :: "int list \<Rightarrow> nat \<Rightarrow> bytes res option" where
  "write_ncount norm table_log =
     then_do (ncount_put_loop norm
         \<lparr> nt_symbol = 0, nt_previous0 = False, nt_remaining = 2 ^ table_log + 1, nt_threshold = 2 ^ table_log,
           nt_nb_bits = table_log + 1, nt_out = \<lparr> no_out = [], no_bits = table_log - 5, no_count = 4 \<rparr> \<rparr>) (\<lambda>st.
       if nt_remaining st \<noteq> 1 then Some (Inl Corruption) else Some (Inr (no_finish (nt_out st))))"

definition ncount_and_norm :: "nat list \<Rightarrow> nat \<Rightarrow> bool \<Rightarrow> (bytes \<times> int list \<times> nat) res option" where
  "ncount_and_norm counts max_log use_low_prob =
     (let tot = sum_list counts mod 2 ^ 32
      in case filter (\<lambda>s. 0 < counts ! s) (rev [0..<length counts]) of
           [] \<Rightarrow> Some (Inl Corruption)
         | max_sv # _ \<Rightarrow>
             if counts ! max_sv = tot then Some (Inl Corruption)
             else
               let table_log = optimal_table_log max_log tot max_sv
               in then_do (normalize_count (take (max_sv + 1) counts) table_log tot use_low_prob) (\<lambda>norm.
                  then_do (write_ncount norm table_log) (\<lambda>header. Some (Inr (header, norm, table_log)))))"

definition ncount_and_ctable :: "nat list \<Rightarrow> nat \<Rightarrow> bool \<Rightarrow> (bytes \<times> fse_ctable) res option" where
  "ncount_and_ctable counts max_log use_low_prob =
     then_do (ncount_and_norm counts max_log use_low_prob) (\<lambda>(header, norm, table_log).
     then_do (ctable_from_norm norm table_log) (\<lambda>ct. Some (Inr (header, ct))))"

section \<open>Two states over a list of weights\<close>

definition enc_byte :: "fse_ctable \<Rightarrow> bytes \<Rightarrow> nat \<Rightarrow> nat \<Rightarrow> bitcstream \<Rightarrow> (nat \<times> bitcstream) option" where
  "enc_byte t src i state bits = Option.bind (get_unchecked src i) (\<lambda>b. Some (ct_encode t state bits (unat b)))"

definition init_byte :: "fse_ctable \<Rightarrow> bytes \<Rightarrow> nat \<Rightarrow> nat option" where
  "init_byte t src i = Option.bind (get_unchecked src i) (\<lambda>b. Some (ct_init_state2 t (unat b)))"

text \<open>Two symbols, the second state first.\<close>

definition enc_pair :: "fse_ctable \<Rightarrow> bytes \<Rightarrow> nat \<Rightarrow> nat \<times> nat \<times> bitcstream \<Rightarrow> (nat \<times> nat \<times> bitcstream) option" where
  "enc_pair t src i st = (case st of (state1, state2, bits) \<Rightarrow>
     if i < 2 then None
     else Option.bind (enc_byte t src (i - 1) state2 bits) (\<lambda>(state2, bits).
          Option.bind (enc_byte t src (i - 2) state1 bits) (\<lambda>(state1, bits). Some (state1, state2, bits))))"

fun enc_quads :: "fse_ctable \<Rightarrow> bytes \<Rightarrow> nat \<Rightarrow> nat \<times> nat \<times> bitcstream \<Rightarrow> (nat \<times> nat \<times> bitcstream) option" where
  "enc_quads t src i st =
     (if i < 4 then Some st
      else Option.bind (enc_pair t src i st) (\<lambda>st.
           Option.bind (enc_pair t src (i - 2) st) (\<lambda>(state1, state2, bits).
           enc_quads t src (i - 4) (state1, state2, bc_flush bits))))"

declare enc_quads.simps [simp del]

definition compress_using_ctable :: "bytes \<Rightarrow> fse_ctable \<Rightarrow> bytes res option" where
  "compress_using_ctable src t =
     (let n = length src
      in if n \<le> 2 then Some (Inl Corruption)
         else
           Option.bind (if n AND 1 \<noteq> 0
             then Option.bind (init_byte t src (n - 1)) (\<lambda>state1.
                  Option.bind (init_byte t src (n - 2)) (\<lambda>state2.
                  Option.bind (enc_byte t src (n - 3) state1 bc_new) (\<lambda>(state1, bits).
                  Some (n - 3, state1, state2, bc_flush bits))))
             else Option.bind (init_byte t src (n - 1)) (\<lambda>state2.
                  Option.bind (init_byte t src (n - 2)) (\<lambda>state1.
                  Some (n - 2, state1, state2, bc_new)))) (\<lambda>(i, st).
           Option.bind (if (n - 2) AND 2 \<noteq> 0
             then Option.bind (enc_pair t src i st) (\<lambda>(state1, state2, bits). Some (i - 2, state1, state2, bc_flush bits))
             else Some (i, st)) (\<lambda>(i, st).
           Option.bind (enc_quads t src i st) (\<lambda>(state1, state2, bits).
           Some (Inr (bc_close (ct_flush t state1 (ct_flush t state2 bits))))))))"

section \<open>Everything ends, no read is out of range\<close>

lemma halve_to_ok:
  assumes "1 \<le> r" "r < 2 * 2 ^ k"
  shows "halve_to r (2 ^ k) (Suc k) = Some (2 ^ highbit (nat r), Suc (highbit (nat r)))"
  using assms(2)
proof (induction k)
  case 0
  then have "r = 1" using assms(1) by simp
  then show ?case by (subst halve_to.simps) simp
next
  case (Suc k)
  show ?case
  proof (cases "r < 2 ^ Suc k")
    case True
    then show ?thesis using Suc.IH by (subst halve_to.simps) simp
  next
    case False
    have "highbit (nat r) = Suc k"
      using False Suc.prems assms(1) by (intro highbit_eqI) (simp_all add: nat_le_iff le_nat_iff nat_less_iff)
    then show ?thesis using False by (subst halve_to.simps) simp
  qed
qed

lemma norm_loop_ok:
  assumes "length (ns_norm st) = N" "ns_largest st < N" "s + length cs \<le> N"
  shows "length (ns_norm (norm_loop f lp lt s cs st)) = N \<and> ns_largest (norm_loop f lp lt s cs st) < N"
  using assms
proof (induction cs arbitrary: s st)
  case (Cons c cs)
  show ?case
  proof (cases "c = 0 \<or> c \<le> lt")
    case True
    then show ?thesis using Cons by (cases "c = 0") auto
  next
    case False
    then show ?thesis using Cons by (simp add: Let_def)
  qed
qed simp

lemma give_rest_ok: "k < length norm \<Longrightarrow> \<exists>norm'. give_rest norm k r = Some norm' \<and> length norm' = length norm"
  by (simp add: give_rest_def get_unchecked_def put_unchecked_def Let_def)

lemma normalize_count_ok:
  "safe_res (\<lambda>norm. norm \<noteq> [] \<and> length norm = length counts \<and> 5 \<le> log \<and> log \<le> 9) (normalize_count counts log tot low)"
proof (cases "tot = 0 \<or> \<not> (5 \<le> log \<and> log \<le> 9) \<or> counts = [] \<or> tot \<in> set counts")
  case True
  then show ?thesis by (auto simp: normalize_count_def)
next
  case False
  define st where "st = norm_loop (scaled_prob (62 - log) (2 ^ 62 div max tot 1)) (if low then -1 else 1) (drop_bit log tot) 0 counts
    \<lparr> ns_norm = replicate (length counts) 0, ns_still = 2 ^ log, ns_largest = 0, ns_largest_p = 0 \<rparr>"
  define n2 where "n2 = map (\<lambda>c. if c = 0 then 0 else as_i16 (int (max (push_bit log c div tot) 1))) counts"
  have ne: "counts \<noteq> []" using False by blast
  have st: "length (ns_norm st) = length counts" "ns_largest st < length counts"
    unfolding st_def using norm_loop_ok [where cs = counts and s = 0 and N = "length counts"] ne by simp_all
  have n2: "length n2 = length counts" by (simp add: n2_def)
  obtain a where a: "give_rest n2 (ns_largest st) (2 ^ log - sum_list n2) = Some a" "length a = length counts"
    using give_rest_ok [of "ns_largest st" n2] st(2) n2 by auto
  obtain b where b: "give_rest (ns_norm st) (ns_largest st) (ns_still st) = Some b" "length b = length counts"
    using give_rest_ok [of "ns_largest st" "ns_norm st"] st by auto
  have "normalize_count counts log tot low = Option.bind (get_unchecked (ns_norm st) (ns_largest st)) (\<lambda>nl.
      if \<bar>nl\<bar> div 2 \<le> \<bar>ns_still st\<bar> \<and> ns_still st < 0
      then Option.bind (give_rest n2 (ns_largest st) (2 ^ log - sum_list n2)) (\<lambda>n2. Some (Inr n2))
      else Option.bind (give_rest (ns_norm st) (ns_largest st) (ns_still st)) (\<lambda>norm. Some (Inr norm)))"
    using False unfolding normalize_count_def Let_def st_def [symmetric] n2_def [symmetric] by simp
  moreover have "a \<noteq> []" "b \<noteq> []" using a(2) b(2) ne by auto
  ultimately show ?thesis using st a b False by (simp add: get_unchecked_def)
qed

text \<open>The writer's thresholds follow what is left.\<close>

definition writer_at :: "ncount_write \<Rightarrow> bool" where
  "writer_at st \<longleftrightarrow> (\<exists>k. nt_threshold st = 2 ^ k \<and> nt_nb_bits st = Suc k \<and> nt_threshold st \<le> nt_remaining st
     \<and> nt_remaining st < 2 * nt_threshold st)"

lemma put_prob_ok:
  assumes "writer_at st"
  shows "safe_res (\<lambda>st'. writer_at st' \<and> nt_symbol st' = Suc (nt_symbol st) \<and> nt_remaining st' = nt_remaining st - \<bar>p\<bar>) (put_prob p st)"
proof -
  obtain k where k: "nt_threshold st = 2 ^ k" "nt_nb_bits st = Suc k" "2 ^ k \<le> nt_remaining st" "nt_remaining st < 2 * 2 ^ k"
    using assms by (auto simp: writer_at_def)
  define r where "r = nt_remaining st - \<bar>p\<bar>"
  show ?thesis
  proof (cases "r < 1")
    case True
    then show ?thesis by (simp add: put_prob_def Let_def r_def)
  next
    case False
    then have r: "1 \<le> r" "r < 2 * 2 ^ k" using k(4) by (simp_all add: r_def)
    have "2 ^ highbit (nat r) \<le> nat r" "nat r < 2 * 2 ^ highbit (nat r)" using highbit_bounds [of "nat r"] r(1) by auto
    then have b: "2 ^ highbit (nat r) \<le> r" "r < 2 * 2 ^ highbit (nat r)"
      using r(1) by (simp_all add: le_nat_iff nat_less_iff)
    show ?thesis
      using False halve_to_ok [OF r] b unfolding put_prob_def Let_def k(1,2) r_def [symmetric]
      by (simp add: writer_at_def)
  qed
qed

lemma zero_end_bounds: "s \<le> zero_end norm s" "s \<le> length norm \<Longrightarrow> zero_end norm s \<le> length norm"
  using length_takeWhile_le [of "\<lambda>p. p = 0" "drop s norm"] by (simp_all add: zero_end_def)

lemma ncount_put_loop_ok:
  assumes "writer_at st" "nt_symbol st \<le> length norm"
  shows "safe_res (\<lambda>st'. nt_symbol st' \<le> length norm) (ncount_put_loop norm st)"
  using assms
proof (induction "length norm - nt_symbol st" arbitrary: st rule: less_induct)
  case less
  define start where "start = nt_symbol st"
  define symbol where "symbol = (if nt_previous0 st then zero_end norm start else start)"
  define st1 where "st1 = (if nt_previous0 st then st\<lparr> nt_symbol := symbol, nt_out := put_zero_run start symbol (nt_out st) \<rparr> else st)"
  show ?case
  proof (cases "nt_symbol st < length norm \<and> 1 < nt_remaining st")
    case False
    then show ?thesis using less.prems by (subst ncount_put_loop.simps) auto
  next
    case True
    have sy: "start \<le> symbol" "symbol \<le> length norm" using True zero_end_bounds [of start norm] by (auto simp: symbol_def start_def)
    have eq: "ncount_put_loop norm st = (if symbol = length norm then Some (Inr (st\<lparr> nt_symbol := symbol \<rparr>))
        else Option.bind (put_prob (norm ! symbol) st1) (\<lambda>r. case r of Inl e \<Rightarrow> Some (Inl e) | Inr st \<Rightarrow> ncount_put_loop norm st))"
      using True by (subst ncount_put_loop.simps) (simp add: Let_def start_def symbol_def st1_def)
    show ?thesis
    proof (cases "symbol = length norm")
      case False
      have st1: "writer_at st1" "nt_symbol st1 = symbol"
        using less.prems(1) by (auto simp: st1_def writer_at_def symbol_def start_def)
      show ?thesis
      proof (cases rule: safe_res_cases [OF put_prob_ok [OF st1(1), of "norm ! symbol"]])
        case 1
        then show ?thesis using eq False by simp
      next
        case (2 st2)
        have "length norm - nt_symbol st2 < length norm - nt_symbol st" "nt_symbol st2 \<le> length norm"
          using 2(2) st1(2) sy False True by (auto simp: start_def)
        from less.hyps [OF this(1) _ this(2)] 2 show ?thesis using eq False by simp
      qed
    qed (simp add: eq)
  qed
qed

lemma write_ncount_ok:
  assumes "1 \<le> log"
  shows "safe_res (\<lambda>h. True) (write_ncount norm log)"
  unfolding write_ncount_def
proof (rule safe_res_then)
  have "(2 :: int) ^ 1 \<le> 2 ^ log" using assms by (intro power_increasing) auto
  then show "safe_res (\<lambda>st. nt_symbol st \<le> length norm) (ncount_put_loop norm
      \<lparr> nt_symbol = 0, nt_previous0 = False, nt_remaining = 2 ^ log + 1, nt_threshold = 2 ^ log,
        nt_nb_bits = log + 1, nt_out = \<lparr> no_out = [], no_bits = log - 5, no_count = 4 \<rparr> \<rparr>)"
    by (intro ncount_put_loop_ok) (auto simp: writer_at_def)
qed simp

lemma ctable_from_norm_total: "safe_res (\<lambda>ct. True) (ctable_from_norm norm log)"
proof (cases "norm = [] \<or> \<not> (5 \<le> log \<and> log \<le> 9)")
  case True
  then show ?thesis by (auto simp: ctable_from_norm_def)
next
  case False
  define ts where "ts = (2 :: nat) ^ log"
  have ts: "push_bit log (1 :: nat) = ts" "0 < ts" by (simp_all add: ts_def push_bit_eq_mult)
  have cop: "coprime (fse_step ts) ts" using fse_step_odd [of log] False by (simp add: ts_def)
  have sp: "\<exists>pos d'. spread_all (\<lambda>i s t. t[i := s mod 65536]) (fse_step ts) (ts - 1) high 0 norm (0, d) = Some (pos, d')" for high d
    using spread_flat_ends [OF ts_def cop, of 0 "\<lambda>d. True" d] ts(2) by (simp add: spread_all_flat)
  have fs: "fill_states ts u ss cumul states = Inl e \<Longrightarrow> e = Corruption" for u ss cumul states e
    by (induction ts u ss cumul states rule: fill_states.induct) (auto simp: Let_def split: if_splits)
  obtain cumul syms high where c: "cumul_loop 0 norm (replicate (length norm - 1 + 2) 0) (replicate ts 0) (ts - 1) = (cumul, syms, high)"
    by (metis prod.exhaust)
  obtain pos d' where d: "spread_all (\<lambda>i s t. t[i := s mod 65536]) (fse_step ts) (ts - 1) high 0 norm (0, syms) = Some (pos, d')"
    using sp by blast
  have eq: "ctable_from_norm norm log = Some (rbind (fill_states ts 0 d' (cumul[length norm - 1 + 1 := (ts + 1) mod 65536]) (replicate ts 0))
      (\<lambda>states. Inr \<lparr> ct_table_log = log, ct_states = states,
         ct_delta = delta_loop log 0 norm @ replicate (max (length norm - 1 + 1) SEQ_DELTA_LEN - length norm) (absent_delta log) \<rparr>))"
    using False unfolding ctable_from_norm_def Let_def ts(1) c prod.case d by simp
  show ?thesis
    unfolding eq by (cases "fill_states ts 0 d' (cumul[length norm - 1 + 1 := (ts + 1) mod 65536]) (replicate ts 0)") (auto dest: fs)
qed

lemma ncount_and_norm_ok: "safe_res (\<lambda>(h, norm, log). norm \<noteq> [] \<and> 5 \<le> log \<and> log \<le> 9) (ncount_and_norm counts max_log low)"
proof (cases "filter (\<lambda>s. 0 < counts ! s) (rev [0..<length counts])")
  case Nil
  then show ?thesis by (simp add: ncount_and_norm_def Let_def)
next
  case (Cons m ms)
  define log where "log = optimal_table_log max_log (sum_list counts mod 2 ^ 32) m"
  have "safe_res (\<lambda>(h, norm, log). norm \<noteq> [] \<and> 5 \<le> log \<and> log \<le> 9)
      (then_do (normalize_count (take (m + 1) counts) log (sum_list counts mod 2 ^ 32) low) (\<lambda>norm.
       then_do (write_ncount norm log) (\<lambda>header. Some (Inr (header, norm, log)))))"
    by (rule safe_res_then [OF normalize_count_ok], rule safe_res_then [OF write_ncount_ok]) auto
  then show ?thesis unfolding ncount_and_norm_def Let_def Cons list.case log_def by simp
qed

lemma ncount_and_ctable_ok: "safe_res (\<lambda>(h, ct). True) (ncount_and_ctable counts max_log low)"
  unfolding ncount_and_ctable_def
proof (rule safe_res_then [OF ncount_and_norm_ok], clarify)
  fix h norm log
  show "safe_res (\<lambda>(h, ct). True) (then_do (ctable_from_norm norm log) (\<lambda>ct. Some (Inr (h, ct))))"
    by (rule safe_res_then [OF ctable_from_norm_total]) simp
qed

lemma enc_pair_ok: "2 \<le> i \<Longrightarrow> i \<le> length src \<Longrightarrow> \<exists>r. enc_pair t src i st = Some r"
  by (auto simp: enc_pair_def enc_byte_def get_unchecked_def split: prod.splits)

lemma enc_quads_ok: "i \<le> length src \<Longrightarrow> \<exists>r. enc_quads t src i st = Some r"
proof (induction t src i st rule: enc_quads.induct)
  case (1 t src i st)
  show ?case
  proof (cases "i < 4")
    case False
    obtain s1 where s1: "enc_pair t src i st = Some s1" using enc_pair_ok [of i src t st] False 1(2) by auto
    have "\<exists>r. enc_pair t src (i - 2) s1 = Some r" using False 1(2) by (intro enc_pair_ok) auto
    then obtain a b c where s2: "enc_pair t src (i - 2) s1 = Some (a, b, c)" by (metis prod.exhaust)
    have "enc_quads t src i st = enc_quads t src (i - 4) (a, b, bc_flush c)"
      using False by (subst enc_quads.simps) (simp add: s1 s2)
    then show ?thesis using 1(1) [OF False s1 s2] 1(2) by auto
  qed (cases st, simp add: enc_quads.simps [of t src i])
qed

lemma compress_using_ctable_ok: "safe_res (\<lambda>b. True) (compress_using_ctable src t)"
proof (cases "length src \<le> 2")
  case False
  define n where "n = length src"
  have n: "2 < n" using False by (simp add: n_def)
  have ib: "\<exists>x. init_byte t src (n - k) = Some x" if "0 < k" for k using n that by (simp add: init_byte_def get_unchecked_def n_def)
  have eb: "\<exists>x b. enc_byte t src (n - k) s bits = Some (x, b)" if "0 < k" for k s bits
    using n that by (auto simp: enc_byte_def get_unchecked_def n_def intro: prod.exhaust)
  obtain x1 x2 where x: "init_byte t src (n - 1) = Some x1" "init_byte t src (n - 2) = Some x2" using ib [of 1] ib [of 2] by auto
  obtain y b where y: "enc_byte t src (n - 3) x1 bc_new = Some (y, b)" using eb [of 3 x1 bc_new] by auto
  obtain i st where a: "(if n AND 1 \<noteq> 0
             then Option.bind (init_byte t src (n - 1)) (\<lambda>state1.
                  Option.bind (init_byte t src (n - 2)) (\<lambda>state2.
                  Option.bind (enc_byte t src (n - 3) state1 bc_new) (\<lambda>(state1, bits).
                  Some (n - 3, state1, state2, bc_flush bits))))
             else Option.bind (init_byte t src (n - 1)) (\<lambda>state2.
                  Option.bind (init_byte t src (n - 2)) (\<lambda>state1.
                  Some (n - 2, state1, state2, bc_new)))) = Some (i, st)" "i = (if n AND 1 \<noteq> 0 then n - 3 else n - 2)"
  proof (cases "n AND 1 \<noteq> 0")
    case True
    then show ?thesis using that [of "n - 3" "(y, x2, bc_flush b)"] by (simp only: x y if_True Option.bind.bind_lunit prod.case not_False_eq_True simp_thms)
  next
    case False
    then show ?thesis using that [of "n - 2" "(x2, x1, bc_new)"] by (simp only: x if_False Option.bind.bind_lunit simp_thms)
  qed
  have odd: "n AND 1 \<noteq> 0 \<longleftrightarrow> odd n" by (simp add: and_one_eq odd_iff_mod_2_eq_one)
  have i: "i \<le> n" using a(2) by auto
  have two: "2 \<le> i" if "(n - 2) AND 2 \<noteq> 0"
  proof -
    have "(1 :: nat) AND 2 = 0" by simp
    with that have "n \<noteq> 3" by fastforce
    then have "odd n \<Longrightarrow> 5 \<le> n" "even n \<Longrightarrow> 4 \<le> n" using n by presburger+
    then show ?thesis using a(2) odd by (cases "odd n") auto
  qed
  obtain j st' where c: "(if (n - 2) AND 2 \<noteq> 0
             then Option.bind (enc_pair t src i st) (\<lambda>(state1, state2, bits). Some (i - 2, state1, state2, bc_flush bits))
             else Some (i, st)) = Some (j, st')" "j \<le> n"
  proof (cases "(n - 2) AND 2 \<noteq> 0")
    case True
    have "\<exists>r. enc_pair t src i st = Some r" using two [OF True] i by (intro enc_pair_ok) (auto simp: n_def)
    then obtain u v w where "enc_pair t src i st = Some (u, v, w)" by (metis prod.exhaust)
    then show ?thesis using that [of "i - 2" "(u, v, bc_flush w)"] True i by simp
  next
    case False
    then show ?thesis using that [of i st] i by simp
  qed
  obtain s1 s2 bits where q: "enc_quads t src j st' = Some (s1, s2, bits)" using enc_quads_ok [of j src t st'] c(2) n_def by (metis prod.exhaust)
  have "compress_using_ctable src t = Some (Inr (bc_close (ct_flush t s1 (ct_flush t s2 bits))))"
    using False unfolding compress_using_ctable_def n_def [symmetric] Let_def a(1) Option.bind.bind_lunit prod.case c(1) q by simp
  then show ?thesis by simp
qed (simp add: compress_using_ctable_def Let_def)

end
