(* ===== verification/Fse_Header.thy ===== *)
theory Fse_Header
  imports Fse_Encode Huff_Encode
begin

text \<open>
  The round trip of the NCount header: what \<open>write_ncount\<close> (\<^verbatim>\<open>fse.rs\<close>) writes for counts that fill a
  table, \<open>parse_ncount_into\<close> reads back, count for count, whatever follows the header. The writer is described
  by the bit fields it emits (\<open>emits\<close>), the parser by the bits at its position.
\<close>

section \<open>The writer's accumulator\<close>

definition no_val :: "ncount_out \<Rightarrow> nat" where
  "no_val w = le_nat (no_out w) + 2 ^ (8 * length (no_out w)) * no_bits w"

definition no_len :: "ncount_out \<Rightarrow> nat" where "no_len w = 8 * length (no_out w) + no_count w"

definition no_ok :: "nat \<Rightarrow> ncount_out \<Rightarrow> bool" where "no_ok m w \<longleftrightarrow> no_bits w < 2 ^ no_count w \<and> no_count w \<le> m"

text \<open>From one accumulator to another, \<open>n\<close> bits of value \<open>v\<close> were added.\<close>

definition emits :: "ncount_out \<Rightarrow> nat \<Rightarrow> nat \<Rightarrow> ncount_out \<Rightarrow> bool" where
  "emits w v n w' \<longleftrightarrow> v < 2 ^ n \<and> no_val w' = no_val w + 2 ^ no_len w * v \<and> no_len w' = no_len w + n"

lemma emits_refl [simp]: "emits w 0 0 w" by (simp add: emits_def)

lemma emits_trans: "emits w v n w1 \<Longrightarrow> emits w1 u m w2 \<Longrightarrow> emits w (v + 2 ^ n * u) (n + m) w2"
proof -
  assume a: "emits w v n w1" "emits w1 u m w2"
  have "u + 1 \<le> 2 ^ m" using a(2) by (simp add: emits_def)
  then have "2 ^ n * (u + 1) \<le> 2 ^ n * 2 ^ m" by (rule mult_le_mono2)
  then have "v + 2 ^ n * u < 2 ^ (n + m)" using a(1) by (simp add: emits_def power_add distrib_left)
  then show ?thesis using a by (simp add: emits_def power_add algebra_simps)
qed

lemma no_put_ok:
  assumes "no_ok m w" "v < 2 ^ n" "m + n \<le> 32"
  shows "no_ok (m + n) (no_put v n w)" "emits w v n (no_put v n w)"
proof -
  have b: "no_bits w < 2 ^ no_count w" "no_count w \<le> m" using assms(1) by (simp_all add: no_ok_def)
  have "push_bit (no_count w) v = 2 ^ no_count w * v" by (simp add: push_bit_eq_mult mult.commute)
  moreover have "v + 1 \<le> 2 ^ n" using assms(2) by simp
  then have lt: "2 ^ no_count w * (v + 1) \<le> 2 ^ (no_count w + n)" unfolding power_add by (rule mult_le_mono2)
  have le32: "(2 :: nat) ^ (no_count w + n) \<le> 2 ^ 32" using b(2) assms(3) by (intro power_increasing) auto
  have "2 ^ no_count w * v < 2 ^ no_count w * (v + 1)" by simp
  from less_le_trans [OF less_le_trans [OF this lt] le32] have lt32: "2 ^ no_count w * v < 2 ^ 32" .
  ultimately have eq: "no_bits (no_put v n w) = no_bits w + 2 ^ no_count w * v"
    using or_push_bit_add [OF b(1), of v] by (simp add: no_put_def)
  have "no_bits w + 2 ^ no_count w * v < 2 ^ (no_count w + n)" using b(1) lt by (simp add: distrib_left)
  then show "no_ok (m + n) (no_put v n w)" using b(2) unfolding no_ok_def eq by (simp add: no_put_def)
  show "emits w v n (no_put v n w)"
    unfolding emits_def no_val_def eq using assms(2) by (simp add: no_put_def no_len_def power_add algebra_simps)
qed

lemma no_put_0: "no_ok m w \<Longrightarrow> m + 16 \<le> 32 \<Longrightarrow> no_bits (no_put v 0 w) = no_bits (no_put v 16 w) \<and> no_out (no_put v 0 w) = no_out w"
  by (simp add: no_put_def)

text \<open>Two bytes leave the accumulator.\<close>

lemma no_push_val:
  fixes w :: ncount_out
  defines "w' \<equiv> (no_push w)\<lparr> no_bits := drop_bit 16 (no_bits w), no_count := no_count w - 16 \<rparr>"
  assumes "16 \<le> no_count w" "no_bits w < 2 ^ no_count w"
  shows "no_val w' = no_val w" "no_len w' = no_len w" "no_bits w' < 2 ^ no_count w'"
proof -
  define x where "x = no_bits w"
  have bytes2: "le_nat [word_of_nat x :: u8, word_of_nat (drop_bit 8 x)] = x mod 2 ^ 16"
    by (simp add: unat_of_nat drop_bit_eq_div) (simp add: mod_mult2_eq [of x 256 256, simplified])
  define L where "L = length (no_out w)"
  have "no_val w' = le_nat (no_out w) + 256 ^ L * (x mod 2 ^ 16) + 2 ^ (8 * (L + 2)) * (x div 2 ^ 16)"
    using bytes2 unfolding w'_def no_val_def no_push_def x_def [symmetric] L_def by (simp add: le_nat_append drop_bit_eq_div)
  also have "2 ^ (8 * (L + 2)) = (256 :: nat) ^ L * 2 ^ 16" by (simp add: power_add pow_256 [symmetric] power_mult)
  also have "le_nat (no_out w) + 256 ^ L * (x mod 2 ^ 16) + 256 ^ L * 2 ^ 16 * (x div 2 ^ 16) = le_nat (no_out w) + 256 ^ L * (x mod 2 ^ 16 + 2 ^ 16 * (x div 2 ^ 16))"
    by (simp only: distrib_left mult.assoc add.assoc)
  also have "x mod 2 ^ 16 + 2 ^ 16 * (x div 2 ^ 16) = x" by simp
  also have "le_nat (no_out w) + 256 ^ L * x = no_val w" by (simp add: no_val_def L_def x_def pow_256)
  finally show "no_val w' = no_val w" .
  show "no_len w' = no_len w" using assms(2) by (simp add: no_len_def w'_def no_push_def)
  have "2 ^ no_count w = (2 :: nat) ^ 16 * 2 ^ (no_count w - 16)" unfolding power_add [symmetric] using assms(2) by simp
  then have "x < 2 ^ 16 * 2 ^ (no_count w - 16)" using assms(3) unfolding x_def by metis
  then show "no_bits w' < 2 ^ no_count w'" by (simp add: w'_def drop_bit_eq_div less_mult_imp_div_less mult.commute x_def)
qed

lemma no_flush_ok:
  assumes "no_ok 32 w"
  shows "no_ok 16 (no_flush w)" "no_val (no_flush w) = no_val w" "no_len (no_flush w) = no_len w"
    "0 < no_count w \<Longrightarrow> 0 < no_count (no_flush w)"
proof -
  have b: "no_bits w < 2 ^ no_count w" "no_count w \<le> 32" using assms by (simp_all add: no_ok_def)
  have "no_ok 16 (no_flush w) \<and> no_val (no_flush w) = no_val w \<and> no_len (no_flush w) = no_len w
    \<and> (0 < no_count w \<longrightarrow> 0 < no_count (no_flush w))"
  proof (cases "16 < no_count w")
    case True
    then show ?thesis using no_push_val [of w] b by (auto simp: no_flush_def no_ok_def)
  next
    case False
    then show ?thesis using b by (auto simp: no_flush_def no_ok_def)
  qed
  then show "no_ok 16 (no_flush w)" "no_val (no_flush w) = no_val w" "no_len (no_flush w) = no_len w"
    "0 < no_count w \<Longrightarrow> 0 < no_count (no_flush w)" by blast+
qed

lemma put_runs24_ok:
  assumes "no_ok 16 w" "start \<le> symbol"
  shows "\<exists>q w'. put_runs24 symbol start w = (start + 24 * q, w') \<and> symbol < start + 24 * q + 24 \<and> start + 24 * q \<le> symbol
    \<and> no_ok 16 w' \<and> no_count w' = no_count w \<and> emits w (2 ^ (16 * q) - 1) (16 * q) w'"
  using assms
proof (induction "symbol - start" arbitrary: start w rule: less_induct)
  case less
  show ?case
  proof (cases "start + 24 \<le> symbol")
    case False
    then show ?thesis using less.prems by (subst put_runs24.simps) (auto intro!: exI [where x = 0])
  next
    case True
    define w1 where "w1 = no_put 0xFFFF 16 w"
    define w2 where "w2 = (no_push w1)\<lparr> no_bits := drop_bit 16 (no_bits w1), no_count := no_count w1 - 16 \<rparr>"
    have ok1: "no_ok 32 w1" "emits w 0xFFFF 16 w1"
      using no_put_ok [OF less.prems(1), of "0xFFFF" 16] by (simp_all add: w1_def)
    have c1: "no_count w1 = no_count w + 16" by (simp add: w1_def no_put_def)
    have p: "no_val w2 = no_val w1" "no_len w2 = no_len w1" "no_bits w2 < 2 ^ no_count w2"
      using no_push_val [of w1] ok1(1) c1 by (simp_all add: w2_def no_ok_def)
    have ok2: "no_ok 16 w2" "no_count w2 = no_count w" using p(3) less.prems(1) c1 by (simp_all add: no_ok_def w2_def)
    have em: "emits w 0xFFFF 16 w2" using ok1(2) p(1,2) by (simp add: emits_def)
    have w2: "(no_push (no_put 0xFFFF 0 w))\<lparr> no_bits := drop_bit 16 (no_bits (no_push (no_put 0xFFFF 0 w))) \<rparr> = w2"
      unfolding w2_def w1_def by (simp add: no_put_def no_push_def)
    have dec: "symbol - (start + 24) < symbol - start" using True by simp
    obtain q w' where ih: "put_runs24 symbol (start + 24) w2 = (start + 24 + 24 * q, w')" "symbol < start + 24 + 24 * q + 24"
      "start + 24 + 24 * q \<le> symbol" "no_ok 16 w'" "no_count w' = no_count w2" "emits w2 (2 ^ (16 * q) - 1) (16 * q) w'"
      using less.hyps [OF dec ok2(1) True] by blast
    have "put_runs24 symbol start w = put_runs24 symbol (start + 24) w2"
      using True by (subst put_runs24.simps) (simp add: Let_def w2)
    moreover have "emits w (2 ^ (16 * Suc q) - 1) (16 * Suc q) w'"
    proof -
      have "(0xFFFF :: nat) + 2 ^ 16 * (2 ^ (16 * q) - 1) = 2 ^ (16 * Suc q) - 1"
        by (simp add: power_add diff_mult_distrib2)
      then show ?thesis using emits_trans [OF em ih(6)] by simp
    qed
    ultimately show ?thesis using ih ok2(2) by (intro exI [where x = "Suc q"] exI [where x = w']) simp
  qed
qed

lemma put_runs3_ok:
  assumes "no_ok m w" "start \<le> symbol" "m + 2 * ((symbol - start) div 3) \<le> 32"
  shows "\<exists>w'. put_runs3 symbol start w = (start + 3 * ((symbol - start) div 3), w')
    \<and> no_ok (m + 2 * ((symbol - start) div 3)) w' \<and> no_count w \<le> no_count w'
    \<and> emits w (2 ^ (2 * ((symbol - start) div 3)) - 1) (2 * ((symbol - start) div 3)) w'"
  using assms
proof (induction "symbol - start" arbitrary: start w m rule: less_induct)
  case less
  show ?case
  proof (cases "start + 3 \<le> symbol")
    case False
    then have "(symbol - start) div 3 = 0" by simp
    then show ?thesis using False less.prems(1) by (subst put_runs3.simps) simp
  next
    case True
    define q where "q = (symbol - (start + 3)) div 3"
    have q: "(symbol - start) div 3 = Suc q" using True unfolding q_def by (simp add: le_div_geq)
    define w1 where "w1 = no_put 3 2 w"
    have w1: "no_ok (m + 2) w1" "emits w 3 2 w1" "no_count w1 = no_count w + 2"
      using no_put_ok [OF less.prems(1), of 3 2] less.prems(3) by (simp_all add: w1_def q) (simp add: no_put_def)
    have dec: "symbol - (start + 3) < symbol - start" using True by simp
    have "m + 2 + 2 * ((symbol - (start + 3)) div 3) \<le> 32" using less.prems(3) unfolding q q_def [symmetric] by simp
    from less.hyps [OF dec w1(1) True this, folded q_def] obtain w' where ih:
      "put_runs3 symbol (start + 3) w1 = (start + 3 + 3 * q, w')" "no_ok (m + 2 + 2 * q) w'" "no_count w1 \<le> no_count w'"
      "emits w1 (2 ^ (2 * q) - 1) (2 * q) w'" by blast
    have "put_runs3 symbol start w = put_runs3 symbol (start + 3) w1"
      using True by (subst put_runs3.simps) (simp add: w1_def)
    moreover have "(3 :: nat) + 2 ^ 2 * (2 ^ (2 * q) - 1) = 2 ^ (2 * Suc q) - 1" by (simp add: power_add diff_mult_distrib2)
    then have "emits w (2 ^ (2 * Suc q) - 1) (2 * Suc q) w'" using emits_trans [OF w1(2) ih(4)] by simp
    ultimately show ?thesis using ih w1(3) unfolding q by (intro exI [where x = w']) simp
  qed
qed

text \<open>A run of \<open>k\<close> absent symbols as bits: one pair of ones for every three, then the rest.\<close>

definition run_val :: "nat \<Rightarrow> nat" where "run_val k = 2 ^ (2 * (k div 3)) - 1 + 2 ^ (2 * (k div 3)) * (k mod 3)"
definition run_len :: "nat \<Rightarrow> nat" where "run_len k = 2 * (k div 3) + 2"

lemma ones_glue: "(2 :: nat) ^ a - 1 + 2 ^ a * (2 ^ b - 1) = 2 ^ (a + b) - 1"
  by (simp add: power_add diff_mult_distrib2)

lemma put_zero_run_ok:
  assumes "no_ok 16 w" "start \<le> symbol"
  shows "no_ok 16 (put_zero_run start symbol w)" "0 < no_count (put_zero_run start symbol w)"
    "emits w (run_val (symbol - start)) (run_len (symbol - start)) (put_zero_run start symbol w)"
proof -
  define k where "k = symbol - start"
  obtain q w1 where r24: "put_runs24 symbol start w = (start + 24 * q, w1)" "symbol < start + 24 * q + 24" "start + 24 * q \<le> symbol"
      "no_ok 16 w1" "emits w (2 ^ (16 * q) - 1) (16 * q) w1"
    using put_runs24_ok [OF assms] by blast
  define p where "p = (symbol - (start + 24 * q)) div 3"
  have k: "k = 24 * q + (symbol - (start + 24 * q))" using r24(3) by (simp add: k_def)
  have kd: "k div 3 = 8 * q + p" "k mod 3 = (symbol - (start + 24 * q)) mod 3"
    unfolding k p_def using div_mult_self3 [of 3 "8 * q" "symbol - (start + 24 * q)"] mod_mult_self3 [of "8 * q" 3 "symbol - (start + 24 * q)"]
    by simp_all
  have p7: "p \<le> 7" using r24(2,3) unfolding p_def by simp
  obtain w2 where r3: "put_runs3 symbol (start + 24 * q) w1 = (start + 24 * q + 3 * p, w2)" "no_ok (16 + 2 * p) w2"
      "emits w1 (2 ^ (2 * p) - 1) (2 * p) w2"
    using put_runs3_ok [OF r24(4,3)] p7 unfolding p_def [symmetric] by auto
  have rest: "symbol - (start + 24 * q + 3 * p) = k mod 3"
    using kd(2) r24(3) unfolding p_def by (simp add: minus_mult_div_eq_mod [symmetric] diff_diff_left)
  define w3 where "w3 = no_put (k mod 3) 2 w2"
  have r3': "no_ok 30 w2" using r3(2) p7 by (simp add: no_ok_def)
  have "k mod 3 < 2 ^ 2" using mod_less_divisor [of 3 k] by simp
  then have w3: "no_ok 32 w3" "emits w2 (k mod 3) 2 w3" "0 < no_count w3"
    using no_put_ok [OF r3', of "k mod 3" 2] by (simp_all add: w3_def) (simp add: no_put_def)
  have eq: "put_zero_run start symbol w = no_flush w3"
    unfolding put_zero_run_def r24(1) r3(1) Let_def prod.case w3_def rest by (rule refl)
  have "emits w (2 ^ (16 * q) - 1 + 2 ^ (16 * q) * (2 ^ (2 * p) - 1)) (16 * q + 2 * p) w2" by (rule emits_trans [OF r24(5) r3(3)])
  then have "emits w (2 ^ (2 * (k div 3)) - 1) (2 * (k div 3)) w2" unfolding ones_glue kd(1) by (simp add: algebra_simps)
  from emits_trans [OF this w3(2)] have em: "emits w (run_val k) (run_len k) w3" by (simp add: run_val_def run_len_def)
  show "no_ok 16 (put_zero_run start symbol w)" "0 < no_count (put_zero_run start symbol w)"
    unfolding eq using no_flush_ok [OF w3(1)] w3(3) by simp_all
  show "emits w (run_val (symbol - start)) (run_len (symbol - start)) (put_zero_run start symbol w)"
    using em no_flush_ok [OF w3(1)] unfolding eq k_def [symmetric] by (simp add: emits_def)
qed

section \<open>The parser on these bits\<close>

text \<open>A reader whose next \<open>n\<close> bits are \<open>v\<close>.\<close>

definition next_bits :: "bitfwd \<Rightarrow> nat \<Rightarrow> nat \<Rightarrow> bool" where
  "next_bits r v n \<longleftrightarrow> bf_ok r \<and> v < 2 ^ n \<and> bf_bits_read r + n \<le> 8 * length (bf_src r)
     \<and> le_nat (bf_src r) div 2 ^ bf_bits_read r mod 2 ^ n = v"

definition moved :: "bitfwd \<Rightarrow> nat \<Rightarrow> bitfwd \<Rightarrow> bool" where
  "moved r n r' \<longleftrightarrow> bf_ok r' \<and> bf_src r' = bf_src r \<and> bf_bits_read r' = bf_bits_read r + n"

lemma next_bits_split:
  assumes "next_bits r (v + 2 ^ n * u) (n + m)" "v < 2 ^ n"
  shows "next_bits r v n" "moved r n r' \<Longrightarrow> next_bits r' u m"
proof -
  define X where "X = le_nat (bf_src r) div 2 ^ bf_bits_read r"
  have x: "X mod 2 ^ (n + m) = v + 2 ^ n * u" and len: "bf_bits_read r + (n + m) \<le> 8 * length (bf_src r)" and ok: "bf_ok r"
    and lt: "v + 2 ^ n * u < 2 ^ (n + m)" using assms(1) by (simp_all add: next_bits_def X_def)
  have "X mod 2 ^ (n + m) mod 2 ^ n = X mod 2 ^ n" by (rule mod_pow2_mod_pow2) simp
  then have "X mod 2 ^ n = v" unfolding x using assms(2) by simp
  then show "next_bits r v n" using ok len assms(2) by (simp add: next_bits_def X_def)
  have "X div 2 ^ n mod 2 ^ m = X mod 2 ^ (n + m) div 2 ^ n" by (simp add: power_add mod_mult2_eq)
  also have "\<dots> = u" unfolding x using assms(2) by simp
  finally have u: "X div 2 ^ n mod 2 ^ m = u" .
  have "2 ^ n * u < 2 ^ n * 2 ^ m" using le_less_trans [OF le_add2 lt] by (simp only: power_add)
  then have um: "u < 2 ^ m" by simp
  show "next_bits r' u m" if "moved r n r'"
    using that u um len unfolding next_bits_def moved_def X_def by (auto simp: power_add div_mult2_eq)
qed

lemma bf_get_next: "next_bits r v n \<Longrightarrow> n \<le> 32 \<Longrightarrow> \<exists>r'. bf_get n r = Inr (v, r') \<and> moved r n r'"
  using bf_get_ok [of r n] by (auto simp: next_bits_def moved_def)

lemma ncount_zeros_next:
  assumes "next_bits r (run_val k) (run_len k)"
  shows "\<exists>r'. ncount_zeros extra r = Some (Inr (extra + k, r')) \<and> moved r (run_len k) r'"
  using assms
proof (induction k arbitrary: extra r rule: less_induct)
  case (less k)
  show ?case
  proof (cases "k < 3")
    case True
    then have "next_bits r k 2" "run_len k = 2" using less.prems by (simp_all add: run_val_def run_len_def numeral_2_eq_2)
    then obtain r' where "bf_get 2 r = Inr (k, r')" "moved r 2 r'" using bf_get_next [of r k 2] by auto
    then show ?thesis using True \<open>run_len k = 2\<close> by (subst ncount_zeros.simps) simp
  next
    case False
    have kd: "k div 3 = Suc ((k - 3) div 3)" "k mod 3 = (k - 3) mod 3" using False by (simp_all add: le_div_geq le_mod_geq)
    define a where "a = 2 * ((k - 3) div 3)"
    have "run_val k = 2 ^ (2 + a) - 1 + 2 ^ (2 + a) * ((k - 3) mod 3)" by (simp add: run_val_def kd a_def)
    also have "\<dots> = 3 + 2 ^ 2 * (2 ^ a - 1 + 2 ^ a * ((k - 3) mod 3))"
    proof -
      obtain y where "(2 :: nat) ^ a = Suc y" using zero_less_power [of "2 :: nat" a] by (metis Suc_pred' zero_less_numeral)
      then show ?thesis by (simp add: power_add algebra_simps)
    qed
    finally have v: "run_val k = 3 + 2 ^ 2 * run_val (k - 3)" by (simp add: run_val_def a_def)
    have l: "run_len k = 2 + run_len (k - 3)" by (simp add: run_len_def kd)
    note sp = next_bits_split [OF less.prems [unfolded v l]]
    obtain r1 where r1: "bf_get 2 r = Inr (3, r1)" "moved r 2 r1" using bf_get_next [OF sp(1)] by auto
    have dec: "k - 3 < k" using False by simp
    have nb: "next_bits r1 (run_val (k - 3)) (run_len (k - 3))" using sp(2) [OF _ r1(2)] by simp
    obtain r' where r': "ncount_zeros (extra + 3) r1 = Some (Inr (extra + 3 + (k - 3), r'))" "moved r1 (run_len (k - 3)) r'"
      using less.IH [OF dec nb] by blast
    then show ?thesis using r1 False unfolding l by (subst ncount_zeros.simps) (auto simp: moved_def)
  qed
qed

section \<open>One probability\<close>

definition prob_val :: "nat \<Rightarrow> int \<Rightarrow> int \<Rightarrow> int" where
  "prob_val k R c = (if 2 ^ k \<le> c then c + (2 * 2 ^ k - 1 - R) else c)"

definition prob_len :: "nat \<Rightarrow> int \<Rightarrow> int \<Rightarrow> nat" where
  "prob_len k R c = (if prob_val k R c < 2 * 2 ^ k - 1 - R then k else Suc k)"

lemma prob_val_bounds:
  assumes "0 \<le> c" "c \<le> R" "2 ^ k \<le> R" "R < 2 * 2 ^ k"
  shows "0 \<le> prob_val k R c" "prob_val k R c < 2 ^ prob_len k R c"
  using assms by (auto simp: prob_val_def prob_len_def)

lemma ncount_value_next:
  assumes k: "nc_nb_bits st = Suc k" "nc_threshold st = 2 ^ k" "2 ^ k \<le> nc_remaining st" "nc_remaining st < 2 * 2 ^ k" "k \<le> 20"
    and c: "0 \<le> c" "c \<le> nc_remaining st"
    and n: "next_bits (nc_bits st) (nat (prob_val k (nc_remaining st) c)) (prob_len k (nc_remaining st) c)"
      "bf_bits_read (nc_bits st) + Suc k \<le> 8 * length (bf_src (nc_bits st))"
  shows "\<exists>bits. ncount_value st = Inr (c, bits) \<and> moved (nc_bits st) (prob_len k (nc_remaining st) c) bits"
proof -
  define R where "R = nc_remaining st"
  define mx where "mx = 2 * 2 ^ k - 1 - R"
  define v where "v = prob_val k R c"
  define r where "r = nc_bits st"
  define X where "X = le_nat (bf_src r) div 2 ^ bf_bits_read r"
  have R: "2 ^ k \<le> R" "R < 2 * 2 ^ k" "c \<le> R" using k(3,4) c(2) by (simp_all add: R_def)
  have ok: "bf_ok r" using n(1) by (simp add: next_bits_def r_def)
  have mx: "0 \<le> mx" "mx < 2 ^ k" using R by (simp_all add: mx_def)
  have "(2 :: int) ^ k \<le> 2 ^ 20" using k(5) by (intro power_increasing) auto
  then have mx32: "mx mod 2 ^ 32 = mx" using mx by simp
  have masks: "nat (2 ^ k - 1) = 2 ^ k - (1 :: nat)" "nat (2 ^ k) * 2 - 1 = 2 ^ Suc k - (1 :: nat)"
    by (simp_all add: nat_diff_distrib nat_power_eq)
  obtain r1 where pk: "bf_peek (Suc k) r = Inr (X mod 2 ^ Suc k, r1)" and r1: "moved r 0 r1"
    using bf_peek_ok [OF ok, of "Suc k"] n(2) k(5) by (auto simp: r_def X_def moved_def)
  have lo: "X mod 2 ^ Suc k mod 2 ^ k = X mod 2 ^ k" by (rule mod_pow2_mod_pow2) simp
  have val: "ncount_value st =
     (if X mod 2 ^ k < nat mx then rbind (bf_get k r1) (\<lambda>(u, bits). Inr (int (X mod 2 ^ k), bits))
      else rbind (bf_get (Suc k) r1) (\<lambda>(u, bits).
           Inr (if 2 ^ k \<le> int (X mod 2 ^ Suc k) then int (X mod 2 ^ Suc k) - mx else int (X mod 2 ^ Suc k), bits)))"
    unfolding ncount_value_def Let_def k(1,2) masks nat_and_mask mx_def [symmetric] R_def [symmetric] diff_Suc_1 r_def [symmetric] pk
      rbind_simps prod.case lo mx32 by (simp add: mod_mod_trivial del: power_Suc)
  have get: "\<exists>bits. bf_get m r1 = Inr (X mod 2 ^ m, bits) \<and> moved r m bits" if "m \<le> Suc k" for m
    using bf_get_ok [of r1 m] r1 that n(2) k(5) by (auto simp: moved_def X_def r_def)
  have nx: "X mod 2 ^ prob_len k R c = nat v" using n(1) by (simp add: next_bits_def X_def r_def v_def R_def)
  have v0: "0 \<le> v" "v < 2 ^ prob_len k R c" using prob_val_bounds [OF c(1) R(3) R(1,2)] by (simp_all add: v_def)
  show ?thesis
  proof (cases "v < mx")
    case True
    then have l: "prob_len k R c = k" by (simp add: prob_len_def v_def mx_def)
    have vc: "v = c" using True R mx by (auto simp: v_def prob_val_def mx_def split: if_splits)
    have "X mod 2 ^ k < nat mx" "int (X mod 2 ^ k) = c" using nx True v0 vc unfolding l by auto
    then show ?thesis using get [of k] unfolding val l R_def [symmetric] r_def [symmetric] by auto
  next
    case False
    then have l: "prob_len k R c = Suc k" by (simp add: prob_len_def v_def mx_def)
    have xv: "int (X mod 2 ^ Suc k) = v" using nx v0 unfolding l by simp
    have "int (X mod 2 ^ k) = int (X mod 2 ^ Suc k) mod int (2 ^ k)" unfolding lo [symmetric] by (rule zmod_int)
    then have xk: "int (X mod 2 ^ k) = v mod 2 ^ k" unfolding xv by simp
    have "\<not> X mod 2 ^ k < nat mx \<and> (if 2 ^ k \<le> v then v - mx else v) = c"
    proof (cases "2 ^ k \<le> c")
      case True
      then have vv: "v = c + mx" by (simp add: v_def prob_val_def mx_def)
      have "int (X mod 2 ^ k) = v mod 2 ^ k" by (rule xk)
      also have "\<dots> = (v - 2 ^ k) mod 2 ^ k" by simp
      also have "\<dots> = v - 2 ^ k" using True vv v0(2) mx unfolding l by (intro mod_pos_pos_trivial) auto
      finally show ?thesis using True vv mx by auto
    next
      case False
      then have vv: "v = c" by (simp add: v_def prob_val_def)
      have "int (X mod 2 ^ k) = v mod 2 ^ k" by (rule xk)
      also have "\<dots> = c" using False vv c(1) by simp
      finally show ?thesis using False vv \<open>\<not> v < mx\<close> by auto
    qed
    then show ?thesis using get [of "Suc k"] xv unfolding val l R_def [symmetric] r_def [symmetric] by auto
  qed
qed

lemma put_prob_next:
  assumes "nt_threshold st = 2 ^ k" "nt_nb_bits st = Suc k" "2 ^ k \<le> nt_remaining st" "nt_remaining st < 2 * 2 ^ k" "k \<le> 9"
    "-1 \<le> p" "\<bar>p\<bar> < nt_remaining st" "no_ok 16 (nt_out st)"
  defines "r \<equiv> nt_remaining st - \<bar>p\<bar>"
  shows "\<exists>w. put_prob p st = Some (Inr \<lparr> nt_symbol = nt_symbol st + 1, nt_previous0 = (p = 0), nt_remaining = r,
      nt_threshold = 2 ^ highbit (nat r), nt_nb_bits = Suc (highbit (nat r)), nt_out = w \<rparr>)
    \<and> no_ok 16 w \<and> 0 < no_count w
    \<and> emits (nt_out st) (nat (prob_val k (nt_remaining st) (p + 1))) (prob_len k (nt_remaining st) (p + 1)) w"
proof -
  define R where "R = nt_remaining st"
  define v where "v = prob_val k R (p + 1)"
  define n where "n = prob_len k R (p + 1)"
  have R: "2 ^ k \<le> R" "R < 2 * 2 ^ k" "p + 1 \<le> R" "0 \<le> p + 1" using assms(3,4,6,7) by (auto simp: R_def)
  have v: "0 \<le> v" "v < 2 ^ n" using prob_val_bounds [OF R(4,3,1,2)] by (simp_all add: v_def n_def)
  have n: "n \<le> Suc k" "n \<le> 16" using assms(5) by (auto simp: n_def prob_len_def)
  have "(2 :: int) ^ n \<le> 2 ^ 16" using n(2) by (intro power_increasing) auto
  then have v32: "v mod 2 ^ 32 = v" using v by simp
  have vn: "nat v < 2 ^ n" using v by (simp add: nat_less_iff)
  define w1 where "w1 = no_put (nat v) n (nt_out st)"
  have w1: "no_ok 32 w1" "emits (nt_out st) (nat v) n w1"
  proof -
    have "no_ok (16 + n) w1" "emits (nt_out st) (nat v) n w1" using no_put_ok [OF assms(8) vn] n(2) by (simp_all add: w1_def)
    then show "no_ok 32 w1" "emits (nt_out st) (nat v) n w1" using n(2) by (auto simp: no_ok_def)
  qed
  have pos: "0 < n \<Longrightarrow> 0 < no_count w1" by (simp add: w1_def no_put_def)
  have n0: "0 < n"
  proof (rule ccontr)
    assume "\<not> 0 < n"
    then have "n = 0" by simp
    then have "k = 0" "v < 2 * 2 ^ k - 1 - R" unfolding n_def v_def prob_len_def by (auto split: if_splits)
    then show False using v(1) R by simp
  qed
  have v1: "(v = 1) = (p = 0)"
  proof (cases "2 ^ k \<le> p + 1")
    case True
    have "(2 :: int) \<le> 2 ^ k \<or> k = 0" by (cases k) auto
    then show ?thesis using True R by (auto simp: v_def prob_val_def)
  qed (simp add: v_def prob_val_def)
  have h: "halve_to r (2 ^ k) (Suc k) = Some (2 ^ highbit (nat r), Suc (highbit (nat r)))"
    using assms(4,7) by (intro halve_to_ok) (auto simp: r_def)
  have vv: "(if 2 ^ k \<le> p + 1 then p + 1 + (2 * 2 ^ k - 1 - R) else p + 1) = v" by (simp add: v_def prob_val_def)
  have nn: "(if v < 2 * 2 ^ k - 1 - R then Suc k - 1 else Suc k) = n" by (simp add: n_def prob_len_def v_def)
  have "put_prob p st = Some (Inr \<lparr> nt_symbol = nt_symbol st + 1, nt_previous0 = (p = 0), nt_remaining = r,
      nt_threshold = 2 ^ highbit (nat r), nt_nb_bits = Suc (highbit (nat r)), nt_out = no_flush w1 \<rparr>)"
    using assms(7) unfolding put_prob_def Let_def assms(1,2) R_def [symmetric] vv nn v32 w1_def [symmetric] r_def [folded R_def, symmetric]
    by (simp add: h v1) (simp add: r_def R_def)
  moreover have "no_ok 16 (no_flush w1)" "0 < no_count (no_flush w1)" using no_flush_ok [OF w1(1)] pos [OF n0] by simp_all
  moreover have "emits (nt_out st) (nat v) n (no_flush w1)" using w1(2) no_flush_ok [OF w1(1)] by (simp add: emits_def)
  ultimately show ?thesis unfolding v_def n_def R_def by blast
qed

text \<open>The parser stands where the writer stands.\<close>

definition in_step :: "nat \<Rightarrow> int list \<Rightarrow> ncount_write \<Rightarrow> ncount_state \<Rightarrow> bool" where
  "in_step max_symbol norm st ps \<longleftrightarrow> nc_remaining ps = nt_remaining st \<and> nc_threshold ps = nt_threshold st
     \<and> nc_nb_bits ps = nt_nb_bits st \<and> nc_charnum ps = nt_symbol st \<and> nc_previous0 ps = nt_previous0 st
     \<and> nc_norm ps = take (nt_symbol st) norm @ replicate (max_symbol + 1 - nt_symbol st) 0"

lemma fill_next:
  assumes "s < length norm" "length norm \<le> Suc m"
  shows "(take s norm @ replicate (m + 1 - s) 0)[s := norm ! s] = take (Suc s) norm @ replicate (m + 1 - Suc s) 0"
proof -
  have "m + 1 - s = Suc (m - s)" "m + 1 - Suc s = m - s" using assms by auto
  then show ?thesis using assms by (simp only: replicate_Suc) (simp add: list_update_append take_Suc_conv_app_nth)
qed

lemma ncount_symbol_next:
  assumes st: "in_step m norm st ps" "nt_threshold st = 2 ^ k" "nt_nb_bits st = Suc k" "2 ^ k \<le> nt_remaining st"
      "nt_remaining st < 2 * 2 ^ k" "k \<le> 9" "2 \<le> nt_remaining st"
    and p: "nt_symbol st < length norm" "length norm \<le> Suc m" "p = norm ! nt_symbol st" "-1 \<le> p" "\<bar>p\<bar> < nt_remaining st"
    and n: "next_bits (nc_bits ps) (nat (prob_val k (nt_remaining st) (p + 1))) (prob_len k (nt_remaining st) (p + 1))"
      "bf_bits_read (nc_bits ps) + Suc k \<le> 8 * length (bf_src (nc_bits ps))"
  defines "r \<equiv> nt_remaining st - \<bar>p\<bar>"
  shows "\<exists>bits ps1. moved (nc_bits ps) (prob_len k (nt_remaining st) (p + 1)) bits
    \<and> ncount_symbol m ps = Inr (r = 1 \<or> m < Suc (nt_symbol st), ps1) \<and> nc_bits ps1 = bits \<and> nc_remaining ps1 = r
    \<and> nc_charnum ps1 = Suc (nt_symbol st) \<and> nc_norm ps1 = take (Suc (nt_symbol st)) norm @ replicate (m + 1 - Suc (nt_symbol st)) 0
    \<and> (r \<noteq> 1 \<longrightarrow> nc_threshold ps1 = 2 ^ highbit (nat r) \<and> nc_nb_bits ps1 = Suc (highbit (nat r)) \<and> nc_previous0 ps1 = (p = 0))"
proof -
  have i: "nc_remaining ps = nt_remaining st" "nc_threshold ps = 2 ^ k" "nc_nb_bits ps = Suc k" "nc_charnum ps = nt_symbol st"
      "nc_norm ps = take (nt_symbol st) norm @ replicate (m + 1 - nt_symbol st) 0"
    using st(1-3) by (simp_all add: in_step_def)
  obtain bits where b: "ncount_value ps = Inr (p + 1, bits)" "moved (nc_bits ps) (prob_len k (nt_remaining st) (p + 1)) bits"
  proof -
    have "p + 1 \<le> nt_remaining st" "0 \<le> p + 1" using p(4,5) by auto
    then show ?thesis using ncount_value_next [of ps k "p + 1"] i st(4-6) n that by auto
  qed
  have r: "(if 0 \<le> p + 1 - 1 then nc_remaining ps - (p + 1 - 1) else nc_remaining ps + (p + 1 - 1)) = r"
    by (simp add: r_def i(1))
  have r1: "1 \<le> r" "r < 2 * 2 ^ k" using p(5) st(5) by (auto simp: r_def)
  have k1: "1 \<le> k"
  proof (rule ccontr)
    assume "\<not> 1 \<le> k"
    then have "k = 0" by simp
    then show False using st(5,7) by simp
  qed
  then have k2: "(2 :: int) ^ 1 \<le> 2 ^ k" by (intro power_increasing) auto
  have hk: "\<not> r < 2 ^ k \<Longrightarrow> highbit (nat r) = k"
    using r1 by (intro highbit_eqI) (simp_all add: le_nat_iff nat_less_iff)
  have m: "\<not> m < nt_symbol st" using p(1,2) by simp
  note norm' = fill_next [OF p(1,2), folded p(3)]
  have "(2 :: int) ^ k \<le> 2 ^ 9" using st(6) by (intro power_increasing) auto
  then have a16: "as_i16 p = p" using p(4,5) st(5) by (intro as_i16_id) auto
  define ps1 where "ps1 = ps\<lparr> nc_remaining := r, nc_norm := (nc_norm ps)[nc_charnum ps := as_i16 p], nc_charnum := nc_charnum ps + 1,
      nc_previous0 := (p = 0), nc_bits := bits \<rparr>"
  define ps2 where "ps2 = ps1\<lparr> nc_nb_bits := highbit (nat r) + 1, nc_threshold := 2 ^ (highbit (nat r) + 1 - 1) \<rparr>"
  have s1: "ncount_symbol m ps = (if r < 2 ^ k then if r \<le> 1 then Inr (True, ps1) else Inr (m < nc_charnum ps1, ps2)
      else Inr (m < nc_charnum ps1, ps1))"
    using m unfolding ncount_symbol_def b(1) rbind_simps prod.case Let_def r i(2) ps1_def [symmetric] ps2_def
    by (simp add: i(2,4) ps1_def)
  have f: "nc_bits ps1 = bits" "nc_remaining ps1 = r" "nc_charnum ps1 = Suc (nt_symbol st)" "nc_previous0 ps1 = (p = 0)"
      "nc_norm ps1 = take (Suc (nt_symbol st)) norm @ replicate (m + 1 - Suc (nt_symbol st)) 0"
      "nc_threshold ps1 = 2 ^ k" "nc_nb_bits ps1 = Suc k"
    unfolding ps1_def a16 using norm' i by simp_all
  show ?thesis
  proof (cases "r < 2 ^ k")
    case True
    show ?thesis
    proof (cases "r = 1")
      case True
      then have "ncount_symbol m ps = Inr (True, ps1)" using s1 k2 by simp
      then show ?thesis using b(2) f \<open>r = 1\<close> by (intro exI [where x = bits] exI [where x = ps1]) simp
    next
      case False
      then have "ncount_symbol m ps = Inr (m < Suc (nt_symbol st), ps2)" using s1 f(3) r1 \<open>r < 2 ^ k\<close> by simp
      moreover have "nc_bits ps2 = bits" "nc_remaining ps2 = r" "nc_charnum ps2 = Suc (nt_symbol st)" "nc_previous0 ps2 = (p = 0)"
          "nc_norm ps2 = take (Suc (nt_symbol st)) norm @ replicate (m + 1 - Suc (nt_symbol st)) 0"
          "nc_threshold ps2 = 2 ^ highbit (nat r)" "nc_nb_bits ps2 = Suc (highbit (nat r))"
        unfolding ps2_def using f by simp_all
      ultimately show ?thesis using b(2) False by (intro exI [where x = bits] exI [where x = ps2]) simp
    qed
  next
    case False
    then have "ncount_symbol m ps = Inr (m < Suc (nt_symbol st), ps1)" using s1 f(3) by simp
    moreover have "r \<noteq> 1" using False k2 by auto
    ultimately show ?thesis using b(2) f hk [OF False] by (intro exI [where x = bits] exI [where x = ps1]) simp
  qed
qed

section \<open>The loops together\<close>

definition writing :: "int list \<Rightarrow> ncount_write \<Rightarrow> bool" where
  "writing norm st \<longleftrightarrow> (\<exists>k. nt_threshold st = 2 ^ k \<and> nt_nb_bits st = Suc k \<and> 2 ^ k \<le> nt_remaining st
       \<and> nt_remaining st < 2 * 2 ^ k \<and> k \<le> 9)
     \<and> nt_symbol st \<le> length norm \<and> int (sum_list (map count_of (drop (nt_symbol st) norm))) = nt_remaining st - 1
     \<and> no_ok 16 (nt_out st) \<and> 0 < no_count (nt_out st)"

text \<open>The writer \<open>w\<close> gets to the end with at most \<open>b\<close> more bits, and the parser \<open>p\<close> reads them back.\<close>

definition read_back :: "nat \<Rightarrow> int list \<Rightarrow> nat \<Rightarrow> ncount_write \<Rightarrow> ncount_write res option \<Rightarrow> (ncount_state \<Rightarrow> ncount_state res option) \<Rightarrow> bool" where
  "read_back m norm b st w p \<longleftrightarrow> (\<exists>st' v n. w = Some (Inr st') \<and> nt_remaining st' = 1 \<and> no_ok 16 (nt_out st') \<and> 0 < no_count (nt_out st')
     \<and> emits (nt_out st) v n (nt_out st') \<and> n \<le> b
     \<and> (\<forall>ps. in_step m norm st ps \<and> next_bits (nc_bits ps) v n \<and> bf_bits_read (nc_bits ps) + n < 8 * length (bf_src (nc_bits ps)) \<longrightarrow>
          (\<exists>ps'. p ps = Some (Inr ps') \<and> nc_remaining ps' = 1 \<and> nc_charnum ps' = length norm \<and> take (length norm) (nc_norm ps') = norm
            \<and> moved (nc_bits ps) n (nc_bits ps'))))"

lemma moved_trans: "moved r a r1 \<Longrightarrow> moved r1 b r2 \<Longrightarrow> moved r (a + b) r2"
  by (simp add: moved_def)

lemma count_sum_0:
  assumes "sum_list (map count_of xs) = 0" "xs \<noteq> []"
  shows "last xs = 0"
  using assms by (metis count_of_def last_in_set nat_0_iff abs_le_zero_iff sum_list_eq_0_iff list.set_map image_eqI)

lemma symbol_read_back:
  assumes w: "writing norm st" and s: "nt_symbol st < length norm" "1 < nt_remaining st"
    and N: "length norm \<le> Suc m" "list_all (\<lambda>p. -1 \<le> p) norm" "last norm \<noteq> 0"
    and IH: "\<And>st1. writing norm st1 \<Longrightarrow> 1 < nt_remaining st1 \<Longrightarrow> nt_symbol st1 = Suc (nt_symbol st) \<Longrightarrow>
      read_back m norm (12 * (length norm - nt_symbol st1)) st1 (ncount_put_loop norm st1) (ncount_loop m)"
  shows "read_back m norm (12 * (length norm - nt_symbol st) - 2) st
    (Option.bind (put_prob (norm ! nt_symbol st) st) (\<lambda>r. case r of Inl e \<Rightarrow> Some (Inl e) | Inr st \<Rightarrow> ncount_put_loop norm st))
    (\<lambda>ps. case ncount_symbol m ps of Inl e \<Rightarrow> Some (Inl e) | Inr (brk, st) \<Rightarrow> if brk then Some (Inr st) else ncount_loop m st)"
proof -
  define s where "s = nt_symbol st"
  define p where "p = norm ! s"
  define R where "R = nt_remaining st"
  define r where "r = R - \<bar>p\<bar>"
  obtain k where k: "nt_threshold st = 2 ^ k" "nt_nb_bits st = Suc k" "2 ^ k \<le> R" "R < 2 * 2 ^ k" "k \<le> 9"
    and rest: "int (sum_list (map count_of (drop s norm))) = R - 1" and no: "no_ok 16 (nt_out st)" "0 < no_count (nt_out st)"
    using w by (auto simp: writing_def R_def s_def)
  have sl: "s < length norm" using s(1) by (simp add: s_def)
  have "drop s norm = p # drop (Suc s) norm" using sl by (simp add: p_def Cons_nth_drop_Suc)
  then have rest1: "int (sum_list (map count_of (drop (Suc s) norm))) = r - 1" using rest by (simp add: count_of_def r_def)
  then have r0: "1 \<le> r" by simp
  then have pl: "\<bar>p\<bar> < R" by (simp add: r_def)
  have p1: "-1 \<le> p" using N(2) sl by (auto simp: p_def list_all_length)
  obtain w1 where pp: "put_prob p st = Some (Inr \<lparr> nt_symbol = s + 1, nt_previous0 = (p = 0), nt_remaining = r,
      nt_threshold = 2 ^ highbit (nat r), nt_nb_bits = Suc (highbit (nat r)), nt_out = w1 \<rparr>)"
    and w1: "no_ok 16 w1" "0 < no_count w1" "emits (nt_out st) (nat (prob_val k R (p + 1))) (prob_len k R (p + 1)) w1"
    using put_prob_next [OF k(1,2) _ _ k(5) p1 _ no(1)] k(3,4) pl by (auto simp: R_def r_def s_def)
  define st1 where "st1 = \<lparr> nt_symbol = s + 1, nt_previous0 = (p = 0), nt_remaining = r,
      nt_threshold = 2 ^ highbit (nat r), nt_nb_bits = Suc (highbit (nat r)), nt_out = w1 \<rparr>"
  define a where "a = prob_len k R (p + 1)"
  define u where "u = nat (prob_val k R (p + 1))"
  have w1e: "emits (nt_out st) u a w1" using w1(3) by (simp add: a_def u_def)
  have u: "u < 2 ^ a" using w1e by (simp add: emits_def)
  have a: "a \<le> Suc k" "k \<le> a" by (simp_all add: a_def prob_len_def)
  have "2 ^ highbit (nat r) \<le> nat r" "nat r < 2 * 2 ^ highbit (nat r)" using highbit_bounds [of "nat r"] r0 by auto
  then have hb: "2 ^ highbit (nat r) \<le> r" "r < 2 * 2 ^ highbit (nat r)"
    using r0 by (simp_all add: le_nat_iff nat_less_iff)
  have "r \<le> R" by (simp add: r_def)
  then have "nat r < 2 ^ Suc k" using k(4) r0 by (simp add: nat_less_iff)
  then have "highbit (nat r) < Suc k" using highbit_less r0 by simp
  then have h9: "highbit (nat r) \<le> 9" using k(5) by simp
  have wr1: "writing norm st1"
    unfolding writing_def st1_def using hb h9 w1 sl rest1 by auto
  have step: "\<exists>bits ps1. moved (nc_bits ps) a bits \<and> ncount_symbol m ps = Inr (r = 1 \<or> m < Suc s, ps1) \<and> nc_bits ps1 = bits
      \<and> nc_remaining ps1 = r \<and> nc_charnum ps1 = Suc s \<and> nc_norm ps1 = take (Suc s) norm @ replicate (m + 1 - Suc s) 0
      \<and> (r \<noteq> 1 \<longrightarrow> in_step m norm st1 ps1)"
    if "in_step m norm st ps" "next_bits (nc_bits ps) u a" "bf_bits_read (nc_bits ps) + a < 8 * length (bf_src (nc_bits ps))" for ps
  proof -
    have "bf_bits_read (nc_bits ps) + Suc k \<le> 8 * length (bf_src (nc_bits ps))" using that(3) a by simp
    from ncount_symbol_next [OF that(1) k(1,2) k(3,4) [unfolded R_def] k(5) _ sl [unfolded s_def] N(1) refl _ _ _ this]
      that(2) p1 pl s(2)
    show ?thesis by (fastforce simp: R_def [symmetric] s_def [symmetric] p_def [symmetric] r_def [symmetric] a_def u_def in_step_def st1_def)
  qed
  show ?thesis
  proof (cases "r = 1")
    case True
    have "Suc s = length norm"
    proof (rule ccontr)
      assume "Suc s \<noteq> length norm"
      then have "drop (Suc s) norm \<noteq> []" "last (drop (Suc s) norm) = last norm" using sl by auto
      then show False using count_sum_0 [of "drop (Suc s) norm"] rest1 True N(3) by simp
    qed
    moreover have "ncount_put_loop norm st1 = Some (Inr st1)"
      using True by (subst ncount_put_loop.simps) (simp add: st1_def)
    ultimately show ?thesis
      unfolding read_back_def s_def [symmetric] p_def [symmetric] pp st1_def [symmetric]
      using w1 w1e True a(1) k(5) step
      by (intro exI [where x = st1] exI [where x = u] exI [where x = a]) (fastforce simp: st1_def)
  next
    case False
    have "1 < nt_remaining st1" using False r0 by (simp add: st1_def)
    from IH [OF wr1 this] obtain st2 v n where ih: "ncount_put_loop norm st1 = Some (Inr st2)" "nt_remaining st2 = 1" "no_ok 16 (nt_out st2)"
      "0 < no_count (nt_out st2)" "emits w1 v n (nt_out st2)" "n \<le> 12 * (length norm - Suc s)"
      and ihp: "\<And>ps. in_step m norm st1 ps \<Longrightarrow> next_bits (nc_bits ps) v n \<Longrightarrow> bf_bits_read (nc_bits ps) + n < 8 * length (bf_src (nc_bits ps)) \<Longrightarrow>
          (\<exists>ps'. ncount_loop m ps = Some (Inr ps') \<and> nc_remaining ps' = 1 \<and> nc_charnum ps' = length norm \<and> take (length norm) (nc_norm ps') = norm
            \<and> moved (nc_bits ps) n (nc_bits ps'))"
      unfolding read_back_def by (auto simp: st1_def s_def)
    have m: "\<not> m < Suc s"
    proof
      assume "m < Suc s"
      then have "drop (Suc s) norm = []" using N(1) by simp
      then show False using rest1 False by simp
    qed
    have par: "\<exists>ps'. (case ncount_symbol m ps of Inl e \<Rightarrow> Some (Inl e) | Inr (brk, st) \<Rightarrow> if brk then Some (Inr st) else ncount_loop m st) = Some (Inr ps')
        \<and> nc_remaining ps' = 1 \<and> nc_charnum ps' = length norm \<and> take (length norm) (nc_norm ps') = norm \<and> moved (nc_bits ps) (a + n) (nc_bits ps')"
      if "in_step m norm st ps" "next_bits (nc_bits ps) (u + 2 ^ a * v) (a + n)"
        "bf_bits_read (nc_bits ps) + (a + n) < 8 * length (bf_src (nc_bits ps))" for ps
    proof -
      note sp = next_bits_split [OF that(2) u]
      have "bf_bits_read (nc_bits ps) + a < 8 * length (bf_src (nc_bits ps))" using that(3) by simp
      from step [OF that(1) sp(1) this] obtain ps1 where ps1: "moved (nc_bits ps) a (nc_bits ps1)" "ncount_symbol m ps = Inr (False, ps1)"
        "in_step m norm st1 ps1" using m False by auto
      have "bf_bits_read (nc_bits ps1) + n < 8 * length (bf_src (nc_bits ps1))" using that(3) ps1(1) by (simp add: moved_def)
      from ihp [OF ps1(3) sp(2) [OF ps1(1)] this] show ?thesis using ps1 moved_trans by fastforce
    qed
    have "emits (nt_out st) (u + 2 ^ a * v) (a + n) (nt_out st2)" by (rule emits_trans [OF w1e ih(5)])
    moreover have "a + n \<le> 12 * (length norm - s) - 2" using ih(6) a(1) k(5) sl by simp
    ultimately show ?thesis
      unfolding read_back_def s_def [symmetric] p_def [symmetric] pp st1_def [symmetric]
      using ih par by (intro exI [where x = st2] exI [where x = "u + 2 ^ a * v"] exI [where x = "a + n"]) simp
  qed
qed


lemma zero_end_drop:
  assumes "s \<le> length norm" "0 < sum_list (map count_of (drop s norm))"
  defines "t \<equiv> zero_end norm s"
  shows "s \<le> t" "t < length norm" "norm ! t \<noteq> 0" "sum_list (map count_of (drop t norm)) = sum_list (map count_of (drop s norm))"
    "take t norm = take s norm @ replicate (t - s) 0"
proof -
  define z where "z = takeWhile (\<lambda>p. p = 0) (drop s norm)"
  have t: "t = s + length z" by (simp add: t_def zero_end_def z_def)
  have dz: "drop s norm = z @ drop t norm"
    unfolding t z_def using takeWhile_dropWhile_id [of "\<lambda>p. p = 0" "drop s norm"] dropWhile_eq_drop [of "\<lambda>p. p = 0" "drop s norm"]
    by (simp add: add.commute)
  have z0: "z = replicate (t - s) 0"
    using set_takeWhileD [of _ "\<lambda>p. p = 0" "drop s norm"] by (intro replicate_eqI) (auto simp: t z_def)
  have "sum_list (map count_of z) = 0" unfolding z0 by (simp add: count_of_def sum_list_replicate)
  then show sm: "sum_list (map count_of (drop t norm)) = sum_list (map count_of (drop s norm))" unfolding dz by simp
  show "s \<le> t" by (simp add: t)
  show tl: "t < length norm"
  proof (rule ccontr)
    assume "\<not> t < length norm"
    then have "drop t norm = []" by simp
    then show False using sm assms(2) by (metis less_irrefl list.map(1) sum_list.Nil)
  qed
  then have "length z < length (drop s norm)" by (simp add: t)
  from nth_length_takeWhile [OF this [unfolded z_def]] show "norm ! t \<noteq> 0" using assms(1) by (simp add: t z_def)
  have "take t norm = take s norm @ take (t - s) (drop s norm)" using \<open>s \<le> t\<close> by (metis add_diff_inverse_nat not_less take_add)
  also have "take (t - s) (drop s norm) = z" unfolding dz by (simp add: t)
  finally show "take t norm = take s norm @ replicate (t - s) 0" using z0 by simp
qed

lemma run_bound: "run_len k + (12 * (n - k) - 2) \<le> 12 * n" if "k < n"
proof -
  have "3 * (k div 3) \<le> k" by simp
  then show ?thesis using that unfolding run_len_def by linarith
qed

lemma run_val_bound: "run_val k < 2 ^ run_len k"
proof -
  define e where "e = (2 :: nat) ^ (2 * (k div 3))"
  have "k mod 3 + 1 \<le> 4" using mod_less_divisor [of 3 k] by simp
  then have "e * (k mod 3 + 1) \<le> e * 4" by (rule mult_le_mono2)
  moreover have "0 < e" by (simp add: e_def)
  ultimately have "e - 1 + e * (k mod 3) < e * 4" by (simp only: distrib_left mult_1_right)
  then show ?thesis by (simp add: run_val_def run_len_def power_add e_def)
qed

lemma ncount_symbol_previous0: "ncount_symbol m (ps\<lparr> nc_previous0 := b \<rparr>) = ncount_symbol m ps"
proof -
  have f: "nc_nb_bits (ps\<lparr> nc_previous0 := b \<rparr>) = nc_nb_bits ps" "nc_bits (ps\<lparr> nc_previous0 := b \<rparr>) = nc_bits ps"
    "nc_threshold (ps\<lparr> nc_previous0 := b \<rparr>) = nc_threshold ps" "nc_remaining (ps\<lparr> nc_previous0 := b \<rparr>) = nc_remaining ps" by simp_all
  have v: "ncount_value (ps\<lparr> nc_previous0 := b \<rparr>) = ncount_value ps" unfolding ncount_value_def f by (rule refl)
  show ?thesis unfolding ncount_symbol_def v by (simp add: Let_def cong: if_cong)
qed

lemma loops_read_back:
  assumes "writing norm st" "length norm \<le> Suc m" "list_all (\<lambda>p. -1 \<le> p) norm" "norm \<noteq> []" "last norm \<noteq> 0" "1 < nt_remaining st"
  shows "read_back m norm (12 * (length norm - nt_symbol st)) st (ncount_put_loop norm st) (ncount_loop m)"
  using assms(1,6)
proof (induction "length norm - nt_symbol st" arbitrary: st rule: less_induct)
  case less
  define s where "s = nt_symbol st"
  have rest: "int (sum_list (map count_of (drop s norm))) = nt_remaining st - 1" and sl: "s \<le> length norm"
    and no: "no_ok 16 (nt_out st)"
    using less.prems(1) by (auto simp: writing_def s_def)
  then have pos: "0 < sum_list (map count_of (drop s norm))" using less.prems(2) by simp
  have len: "s < length norm"
  proof (rule ccontr)
    assume "\<not> s < length norm"
    then show False using pos by simp
  qed
  have IH: "read_back m norm (12 * (length norm - nt_symbol st1)) st1 (ncount_put_loop norm st1) (ncount_loop m)"
    if "writing norm st1" "1 < nt_remaining st1" "nt_symbol st1 = Suc u" "s \<le> u" for st1 u
  proof -
    have "length norm - nt_symbol st1 < length norm - nt_symbol st" using that(3,4) len by (simp add: s_def)
    from less.hyps [OF this that(1,2)] show ?thesis .
  qed
  have go: "ncount_loop m ps = (case ncount_symbol m ps of Inl e \<Rightarrow> Some (Inl e)
      | Inr (brk, st) \<Rightarrow> if brk then Some (Inr st) else ncount_loop m st)"
    if "\<not> nc_previous0 ps" "1 < nc_remaining ps" for ps
    using that by (subst ncount_loop.simps) simp
  show ?case
  proof (cases "nt_previous0 st")
    case False
    have w: "ncount_put_loop norm st = Option.bind (put_prob (norm ! nt_symbol st) st)
        (\<lambda>r. case r of Inl e \<Rightarrow> Some (Inl e) | Inr st \<Rightarrow> ncount_put_loop norm st)"
      using False len less.prems(2) by (subst ncount_put_loop.simps) (simp add: s_def Let_def)
    have p: "in_step m norm st ps \<Longrightarrow> ncount_loop m ps = (case ncount_symbol m ps of Inl e \<Rightarrow> Some (Inl e)
      | Inr (brk, st) \<Rightarrow> if brk then Some (Inr st) else ncount_loop m st)" for ps
      using go [of ps] False less.prems(2) by (simp add: in_step_def)
    have "read_back m norm (12 * (length norm - s) - 2) st (ncount_put_loop norm st)
      (\<lambda>ps. case ncount_symbol m ps of Inl e \<Rightarrow> Some (Inl e) | Inr (brk, st) \<Rightarrow> if brk then Some (Inr st) else ncount_loop m st)"
      unfolding w s_def using symbol_read_back [OF less.prems(1) _ less.prems(2) assms(2,3,5)] len IH by (simp add: s_def)
    then show ?thesis unfolding read_back_def s_def [symmetric] using p by fastforce
  next
    case True
    define t where "t = zero_end norm s"
    note z = zero_end_drop [OF sl pos, folded t_def]
    define st2 where "st2 = st\<lparr> nt_symbol := t, nt_out := put_zero_run s t (nt_out st) \<rparr>"
    have w: "ncount_put_loop norm st = Option.bind (put_prob (norm ! nt_symbol st2) st2)
        (\<lambda>r. case r of Inl e \<Rightarrow> Some (Inl e) | Inr st \<Rightarrow> ncount_put_loop norm st)"
      using True len less.prems(2) z(2) by (subst ncount_put_loop.simps) (simp add: s_def [symmetric] t_def [symmetric] Let_def st2_def)
    note run = put_zero_run_ok [OF no z(1)]
    have wr2: "writing norm st2" using less.prems(1) z(2,4) run rest by (simp add: writing_def st2_def s_def [symmetric])
    have r2: "1 < nt_remaining st2" "nt_symbol st2 = t" using less.prems(2) by (simp_all add: st2_def)
    have "read_back m norm (12 * (length norm - t) - 2) st2 (ncount_put_loop norm st)
      (\<lambda>ps. case ncount_symbol m ps of Inl e \<Rightarrow> Some (Inl e) | Inr (brk, st) \<Rightarrow> if brk then Some (Inr st) else ncount_loop m st)"
      unfolding w using symbol_read_back [OF wr2 _ r2(1) assms(2,3,5)] IH [of _ t] z(1,2) by (simp add: r2(2))
    then obtain st' v n where rb: "ncount_put_loop norm st = Some (Inr st')" "nt_remaining st' = 1" "no_ok 16 (nt_out st')" "0 < no_count (nt_out st')"
        "emits (nt_out st2) v n (nt_out st')" "n \<le> 12 * (length norm - t) - 2"
      and rbp: "\<And>ps. in_step m norm st2 ps \<Longrightarrow> next_bits (nc_bits ps) v n \<Longrightarrow> bf_bits_read (nc_bits ps) + n < 8 * length (bf_src (nc_bits ps)) \<Longrightarrow>
          (\<exists>ps'. (case ncount_symbol m ps of Inl e \<Rightarrow> Some (Inl e) | Inr (brk, st) \<Rightarrow> if brk then Some (Inr st) else ncount_loop m st) = Some (Inr ps')
            \<and> nc_remaining ps' = 1 \<and> nc_charnum ps' = length norm \<and> take (length norm) (nc_norm ps') = norm
            \<and> moved (nc_bits ps) n (nc_bits ps'))"
      unfolding read_back_def by blast
    define k where "k = t - s"
    have par: "\<exists>ps'. ncount_loop m ps = Some (Inr ps') \<and> nc_remaining ps' = 1 \<and> nc_charnum ps' = length norm
        \<and> take (length norm) (nc_norm ps') = norm \<and> moved (nc_bits ps) (run_len k + n) (nc_bits ps')"
      if "in_step m norm st ps" "next_bits (nc_bits ps) (run_val k + 2 ^ run_len k * v) (run_len k + n)"
        "bf_bits_read (nc_bits ps) + (run_len k + n) < 8 * length (bf_src (nc_bits ps))" for ps
    proof -
      note sp = next_bits_split [OF that(2) run_val_bound]
      obtain bits where zr: "ncount_zeros 0 (nc_bits ps) = Some (Inr (k, bits))" "moved (nc_bits ps) (run_len k) bits"
        using ncount_zeros_next [OF sp(1), of 0] by auto
      define ps2 where "ps2 = ps\<lparr> nc_charnum := nc_charnum ps + k, nc_previous0 := False, nc_bits := bits \<rparr>"
      have ch: "nc_charnum ps + k = t" using that(1) z(1) by (simp add: in_step_def s_def k_def)
      have "ncount_loop m ps = ncount_loop m ps2"
        using that(1) True zr(1) ch z(2) assms(2) by (subst ncount_loop.simps) (simp add: in_step_def ps2_def)
      also have "\<dots> = (case ncount_symbol m ps2 of Inl e \<Rightarrow> Some (Inl e) | Inr (brk, st) \<Rightarrow> if brk then Some (Inr st) else ncount_loop m st)"
        using that(1) less.prems(2) by (intro go) (simp_all add: ps2_def in_step_def)
      finally have eq: "ncount_loop m ps = \<dots>" .
      have "m + 1 - s = (t - s) + (m + 1 - t)" using z(1,2) assms(2) by simp
      then have fill: "take s norm @ replicate (m + 1 - s) 0 = take t norm @ replicate (m + 1 - t) 0"
        unfolding z(5) by (simp add: replicate_add)
      have is2: "in_step m norm st2 (ps2\<lparr> nc_previous0 := True \<rparr>)"
        using that(1) ch fill True by (simp add: in_step_def ps2_def st2_def s_def)
      have mv: "moved (nc_bits ps) (run_len k) (nc_bits (ps2\<lparr> nc_previous0 := True \<rparr>))" using zr(2) by (simp add: ps2_def)
      have "bf_bits_read (nc_bits (ps2\<lparr> nc_previous0 := True \<rparr>)) + n < 8 * length (bf_src (nc_bits (ps2\<lparr> nc_previous0 := True \<rparr>)))"
        using that(3) mv by (simp add: moved_def)
      from rbp [OF is2 sp(2) [OF mv] this] show ?thesis
        unfolding eq ncount_symbol_previous0 using moved_trans [OF mv] by blast
    qed
    have "emits (nt_out st) (run_val k + 2 ^ run_len k * v) (run_len k + n) (nt_out st')"
      using emits_trans [OF run(3)] rb(5) by (simp add: st2_def k_def)
    moreover have "run_len k + n \<le> 12 * (length norm - s)"
    proof -
      have "length norm - t = (length norm - s) - k" "k < length norm - s" using z(1,2) by (simp_all add: k_def)
      then show ?thesis using rb(6) run_bound [of k "length norm - s"] by simp
    qed
    ultimately show ?thesis
      unfolding read_back_def s_def [symmetric] using rb par
      by (intro exI [where x = st'] exI [where x = "run_val k + 2 ^ run_len k * v"] exI [where x = "run_len k + n"]) blast
  qed
qed

text \<open>The bytes of a closed accumulator.\<close>

lemma no_finish_ok:
  assumes "no_ok 16 w" "0 < no_count w"
  shows "length (no_finish w) = (no_len w + 7) div 8" "le_nat (no_finish w) = no_val w"
proof -
  define x where "x = no_bits w"
  define L where "L = length (no_out w)"
  define e where "e = (no_count w + 7) div 8"
  have c: "no_count w \<le> 16" "x < 2 ^ no_count w" using assms(1) by (simp_all add: no_ok_def x_def)
  have e: "1 \<le> e" "e \<le> 2" "no_count w \<le> 8 * e" using assms(2) c(1) by (auto simp: e_def)
  have bytes2: "le_nat [word_of_nat x :: u8, word_of_nat (drop_bit 8 x)] = x mod 2 ^ 16"
    by (simp add: unat_of_nat drop_bit_eq_div) (simp add: mod_mult2_eq [of x 256 256, simplified])
  have fin: "no_finish w = no_out w @ take e [word_of_nat x, word_of_nat (drop_bit 8 x)]"
    using e(1) unfolding no_finish_def no_push_def Let_def x_def [symmetric] e_def [symmetric] by (simp add: max_def)
  show "length (no_finish w) = (no_len w + 7) div 8"
  proof -
    have "(8 * L + no_count w + 7) div 8 = L + e" unfolding e_def by simp
    then show ?thesis unfolding fin using e(2) by (simp add: no_len_def L_def min_def)
  qed
  have "(2 :: nat) ^ no_count w \<le> 2 ^ (8 * e)" using e(3) by (intro power_increasing) auto
  from less_le_trans [OF c(2) this] have xe: "x < 256 ^ e" unfolding pow_256 .
  have "le_nat (take e [word_of_nat x :: u8, word_of_nat (drop_bit 8 x)]) = x"
  proof (cases "e = 1")
    case True
    then show ?thesis using xe by (simp add: unat_of_nat)
  next
    case False
    then have "e = 2" using e by simp
    then have "x < 2 ^ 16" "take e [word_of_nat x :: u8, word_of_nat (drop_bit 8 x)] = [word_of_nat x, word_of_nat (drop_bit 8 x)]"
      using xe by simp_all
    then show ?thesis using bytes2 by (simp only: mod_less)
  qed
  then show "le_nat (no_finish w) = no_val w" unfolding fin by (simp add: le_nat_append no_val_def x_def pow_256)
qed

text \<open>C16: The NCount header round trip: for at most 160 probabilities that fill a table of \<open>2 ^ log\<close> states, 5 to 9 bits, the last one
  not zero, \<open>write_ncount\<close> returns a header of at most 12 bits per symbol, and \<open>parse_ncount_into\<close> on that header followed by at
  least one byte, whatever it is, returns the same probabilities, the same accuracy and exactly the header's length,
  provided the caller allows as many symbols and bits.\<close>

theorem ncount_roundtrip:
  assumes "norm_ok log norm" "last norm \<noteq> 0" "5 \<le> log" "log \<le> 9" "log \<le> max_log"
    and "length norm \<le> max_symbol + 1" "max_symbol \<le> 255" "length norm \<le> 160" "rest \<noteq> []"
  shows "\<exists>h. write_ncount norm log = Some (Inr h) \<and> 8 * length h \<le> 12 * length norm + 11
    \<and> parse_ncount_into (h @ rest) max_symbol max_log = Some (Inr (norm, log, length h))"
proof -
  define st where "st = \<lparr> nt_symbol = 0, nt_previous0 = False, nt_remaining = 2 ^ log + 1, nt_threshold = 2 ^ log,
      nt_nb_bits = log + 1, nt_out = \<lparr> no_out = [], no_bits = log - 5, no_count = 4 \<rparr> \<rparr>"
  have fill: "list_all (\<lambda>p. -1 \<le> p) norm" "sum_list (map count_of norm) = 2 ^ log" using assms(1) by (simp_all add: norm_ok_def)
  then have ne: "norm \<noteq> []" by auto
  have "(2 :: int) ^ 1 \<le> 2 ^ log" using assms(3) by (intro power_increasing) auto
  then have w: "writing norm st" using fill(2) assms(3,4) by (auto simp: writing_def st_def no_ok_def)
  have "length norm \<le> Suc max_symbol" "1 < nt_remaining st" using assms(6) by (simp_all add: st_def)
  from loops_read_back [OF w this(1) fill(1) ne assms(2) this(2)]
  obtain st' v n where lp: "ncount_put_loop norm st = Some (Inr st')" "nt_remaining st' = 1" "no_ok 16 (nt_out st')" "0 < no_count (nt_out st')"
      "emits (nt_out st) v n (nt_out st')" "n \<le> 12 * length norm"
    and lpp: "\<And>ps. in_step max_symbol norm st ps \<Longrightarrow> next_bits (nc_bits ps) v n \<Longrightarrow> bf_bits_read (nc_bits ps) + n < 8 * length (bf_src (nc_bits ps)) \<Longrightarrow>
          (\<exists>ps'. ncount_loop max_symbol ps = Some (Inr ps') \<and> nc_remaining ps' = 1 \<and> nc_charnum ps' = length norm
            \<and> take (length norm) (nc_norm ps') = norm \<and> moved (nc_bits ps) n (nc_bits ps'))"
    unfolding read_back_def by (auto simp: st_def)
  define h where "h = no_finish (nt_out st')"
  have nv: "no_val (nt_out st) = log - 5" "no_len (nt_out st) = 4" by (simp_all add: st_def no_val_def no_len_def)
  have wh: "write_ncount norm log = Some (Inr h)" unfolding write_ncount_def st_def [symmetric] lp(1) using lp(2) by (simp add: h_def)
  have l16: "log - 5 < 2 ^ 4" using assms(4) by simp
  have v: "v < 2 ^ n" "no_val (nt_out st') = log - 5 + 2 ^ 4 * v" "no_len (nt_out st') = 4 + n"
    using lp(5) nv by (simp_all add: emits_def)
  have h: "length h = (4 + n + 7) div 8" "le_nat h = log - 5 + 2 ^ 4 * v"
    using no_finish_ok [OF lp(3,4)] v by (simp_all add: h_def)
  have hl: "8 * length h \<le> 12 * length norm + 11" "4 + n \<le> 8 * length h" using h(1) lp(6) by linarith+
  then have h255: "length h < 256" using assms(8) by linarith
  define src where "src = h @ rest"
  define N where "N = min (length src) 256"
  define tmp where "tmp = take N src @ replicate (max N 8 - N) 0"
  have hN: "length h < N" using h255 assms(9) by (simp add: N_def src_def)
  obtain tl where tmp: "tmp = h @ tl" "tl \<noteq> []"
    using hN assms(9) by (simp add: tmp_def src_def)
  have "(v + 1) * 2 ^ 4 \<le> 2 ^ n * 2 ^ 4" using v(1) by (intro mult_le_mono1) simp
  then have V: "log - 5 + 2 ^ 4 * v < 2 ^ (4 + n)" using l16 by (simp add: power_add)
  obtain d where d: "8 * length h = 4 + n + d" using hl(2) le_Suc_ex by blast
  have lt: "le_nat tmp mod 2 ^ (4 + n) = log - 5 + 2 ^ 4 * v"
  proof -
    have "le_nat tmp = (log - 5 + 2 ^ 4 * v) + 2 ^ (4 + n) * (2 ^ d * le_nat tl)"
      unfolding tmp(1) by (simp add: le_nat_append h(2) pow_256 d power_add)
    then show ?thesis using V by simp
  qed
  have nb: "next_bits (bf_new tmp) (log - 5 + 2 ^ 4 * v) (4 + n)"
    unfolding next_bits_def using bf_new_ok V lt hl(2) by (simp add: bf_new_def tmp(1))
  note sp = next_bits_split [OF nb l16]
  obtain bits where b: "bf_get 4 (bf_new tmp) = Inr (log - 5, bits)" "moved (bf_new tmp) 4 bits"
    using bf_get_next [OF sp(1)] by auto
  define ps where "ps = \<lparr> nc_remaining = 2 ^ log + 1, nc_threshold = 2 ^ log, nc_nb_bits = log + 1,
      nc_charnum = 0, nc_previous0 = False, nc_norm = replicate (max_symbol + 1) 0, nc_bits = bits \<rparr>"
  have "in_step max_symbol norm st ps" by (simp add: in_step_def ps_def st_def)
  moreover have "bf_bits_read (nc_bits ps) + n < 8 * length (bf_src (nc_bits ps))"
    using b(2) hl(2) tmp by (cases tl) (simp_all add: ps_def moved_def bf_new_def)
  moreover have "next_bits (nc_bits ps) v n" using sp(2) [OF b(2)] by (simp add: ps_def)
  ultimately obtain ps' where ps': "ncount_loop max_symbol ps = Some (Inr ps')" "nc_remaining ps' = 1" "nc_charnum ps' = length norm"
      "take (length norm) (nc_norm ps') = norm" "moved (nc_bits ps) n (nc_bits ps')"
    using lpp [of ps] by blast
  have used: "max (length norm) 1 = length norm" using ne by (cases norm) auto
  have cons: "min (bf_bytes_consumed (nc_bits ps')) (length src) = length h"
    using ps'(5) b(2) h(1) by (simp add: bf_bytes_consumed_def moved_def ps_def bf_new_def src_def)
  have acc: "log - 5 + 5 = log" "\<not> (log < 5 \<or> max_log < log)" "\<not> 256 < max_symbol + 1" "src \<noteq> []"
    using assms(3,5,7,9) by (simp_all add: src_def)
  have "parse_ncount_into src max_symbol max_log = Some (Inr (norm, log, length h))"
    unfolding parse_ncount_into_def Let_def N_def [symmetric] tmp_def [symmetric] b(1) sum.case prod.case acc(1) if_not_P [OF acc(2)]
      if_not_P [OF acc(3)] if_not_P [OF acc(4)] ps_def [symmetric] ps'(1) Option.bind.bind_lunit rbind_simps ps'(2,3) used ps'(4) cons
    by simp
  then show ?thesis using wh hl(1) unfolding src_def by blast
qed

text \<open>The predefined literal-length probabilities, before one more byte.\<close>

lemma ncount_roundtrip_witness:
  "\<exists>h. write_ncount DEFAULT_LL_NORM 6 = Some (Inr h) \<and> 8 * length h \<le> 12 * length DEFAULT_LL_NORM + 11
    \<and> parse_ncount_into (h @ [0x80]) 35 9 = Some (Inr (DEFAULT_LL_NORM, 6, length h))"
proof (rule ncount_roundtrip)
  show "norm_ok 6 DEFAULT_LL_NORM" "last DEFAULT_LL_NORM \<noteq> 0" "length DEFAULT_LL_NORM \<le> 35 + 1" "length DEFAULT_LL_NORM \<le> 160"
    by (simp_all add: norm_ok_def DEFAULT_LL_NORM_def count_of_def)
qed simp_all

end
