(* ===== verification/Spec2Isabelle.thy ===== *)
theory Spec2Isabelle
  imports Stream_Caller Dictionaries Seek_Table Huff_Build Fse_Header
begin

text \<open>
  A verification development for \<^verbatim>\<open>rusty_zstd\<close>, a Zstandard codec in Rust
  (\<^verbatim>\<open>src/crates/rusty_zstd/src\<close>; the file names below are relative to it).

  \<^bold>\<open>The program.\<close> A frame is a header (\<^verbatim>\<open>frame.rs\<close>), blocks (\<^verbatim>\<open>block.rs\<close>) and an optional XXH64
  checksum (\<^verbatim>\<open>xxh64.rs\<close>). A compressed block (\<^verbatim>\<open>compressed.rs\<close>) holds literals and FSE-coded
  sequences (\<^verbatim>\<open>fse.rs\<close>), read from a bit stream written forwards and consumed backwards
  (\<^verbatim>\<open>bit.rs\<close>), whose offsets go through a history of three repeat offsets. A sequence is executed
  as a literal copy followed by a match copy over the output so far. Literals are raw, repeated or
  Huffman-coded in one or four streams (\<^verbatim>\<open>huffman.rs\<close>). \<^verbatim>\<open>decode.rs\<close> runs blocks, frames and series
  of frames under the caller's limits. The encoder (\<^verbatim>\<open>encode/block.rs\<close>) writes the same formats.

  \<^bold>\<open>The theories\<close>, each importing those it calls:
  \<^item> \<open>Zstd_Prelude\<close>: machine types, the errors of \<^verbatim>\<open>error.rs\<close> and the result type, checked
    and saturating arithmetic, slices, little-endian numbers; shared facts in \<open>res_simps\<close>,
    \<open>pow2_simps\<close>, \<open>safe_res_simps\<close>.
  \<^item> \<open>Byte_Reader\<close>: \<^verbatim>\<open>reader.rs\<close>. Interface \<open>le_field\<close>, interpreted at all five widths.
  \<^item> \<open>Frame_Header\<close>: frame and block headers, parser and writer, with their round trips.
  \<^item> \<open>Xxh64\<close>: the one-shot kernels against a specification of the hash that shares nothing with them
    (\<open>xxh64_spec\<close>) and its published answers, and the incremental state against the one-shot hash.
  \<^item> \<open>Bit_Streams\<close>: \<^verbatim>\<open>BitRev\<close>, \<^verbatim>\<open>BitCStream\<close>, \<^verbatim>\<open>BitFwd\<close>. A backward stream is a stack of bits;
    interfaces \<open>bit_source\<close>, \<open>bit_sink\<close> and their composition \<open>bit_codec\<close>.
  \<^item> \<open>Seq_Codes\<close>: code tables, repeat-offset history on both sides, the encoder's coding pass.
  \<^item> \<open>Fse_Tables\<close>, \<open>Fse_Ncount\<close>, \<open>Fse_Predefined\<close>: decoding tables, their header, the constants.
  \<^item> \<open>Fse_Coding\<close>: encoding tables; interface \<open>fse_code\<close> (the decoder's cell undoes the encoder's
    step), interpreted on \<open>encode\<close>, on the hoisted \<open>step\<close> and on single-symbol tables.
  \<^item> \<open>Seq_Writer\<close>: the size bound, the accumulator and the loop that write the sequences; interfaces
    \<open>seq_table\<close> (an \<open>fse_code\<close> whose cells are a decoding table's) and \<open>seq_coder\<close> (three of them).
  \<^item> \<open>Seq_Reader\<close>: the decoder's fetch and step, and the round trip with \<open>Seq_Writer\<close>.
  \<^item> \<open>Match_Copy\<close>: every tier of the literal and match copies over a memory of cells.
  \<^item> \<open>Seq_Exec\<close>: one sequence on raw cursors (the fused test, the fast and the slow arm), the
    classic loop and the two read-ahead loops, all against \<open>exec_all_ref\<close>.
  \<^item> \<open>Seq_Block\<close>: the section header, the table modes, the state a frame keeps, and
    \<open>decode_sequences\<close> as a whole.
  \<^item> \<open>Bit_Cursor\<close>: the backward reader as a number and a count of bits left.
  \<^item> \<open>Huff_Weights\<close>, \<open>Huff_Table\<close>, \<open>Huff_Code\<close>: a tree's weights, the tables built from them, and
    that they are the canonical prefix code (\<open>huff_wf\<close>).
  \<^item> \<open>Huff_Stream\<close>: one stream, one or two symbols per lookup; interface \<open>x2_source\<close> for what the paired
    lookup needs of its reader, interpreted on the bit reader.
  \<^item> \<open>Huff_Quad\<close>: four streams at once. The loops are schedules of operations on four lanes, so that
    interleaving is proved harmless once; \<open>x2_source\<close> is interpreted again on the fast loop's register.
  \<^item> \<open>Huff_Encode\<close>: the code table of given weights and the two emitters of a literal stream, with their
    equivalence and the round trip through \<open>Huff_Stream\<close>.
  \<^item> \<open>Huff_Build\<close>: the code from a histogram: merge, walk, length limit, table.
  \<^item> \<open>Fse_Encode\<close>, \<open>Fse_Header\<close>: normalised counts, the NCount header and the two-state compression of weights; the
    round trip of the header with \<open>Fse_Ncount\<close>.
  \<^item> \<open>Lit_Section\<close>: the literals section of a block.
  \<^item> \<open>Frame_Decode\<close>: a block, a frame, a series of frames, and the walkers, against total functions
    on byte lists.
  \<^item> \<open>Frame_Roundtrip\<close>: the blocks the encoder stores, and what the one-shot decoder makes of them.
  \<^item> \<open>Frame_Walk\<close>: what an accepted frame guarantees, and the walkers against the decoder.
  \<^item> \<open>Dictionaries\<close>: \<^verbatim>\<open>dict.rs\<close>: what loading gives to the decoder (\<open>loaded\<close>), the public id, the writer.
  \<^item> \<open>Seek_Table\<close>: \<^verbatim>\<open>seekable.rs\<close>: the table, its parser, seeking, and the writer over a frame encoder
    that is an argument.
  \<^item> \<open>Prefix_Parse\<close>: interface \<open>stream_parser\<close> (a parser's answer on a prefix is its answer on the whole
    unless it ran out of bytes), interpreted on the header and block header parsers.
  \<^item> \<open>History_View\<close>: a decoder that has dropped old output decodes a block to the same bytes.
  \<^item> \<open>Stream_Decode\<close>: the machine of \<^verbatim>\<open>Decompressor\<close> (\<^verbatim>\<open>stream.rs\<close>), field by field.
  \<^item> \<open>Stream_Follow\<close>: one step of it (\<open>follows\<close>): what is left of the one-shot run is unchanged.
  \<^item> \<open>Stream_Run\<close>: compaction, one call (\<open>answers\<close>).
  \<^item> \<open>Stream_Equiv\<close>: series of calls (\<open>served\<close>) and the one-shot entry points.
  \<^item> \<open>Stream_Caller\<close>: what a caller may rely on, and the caller's loop of \<^verbatim>\<open>streamgate.rs\<close>.

  \<^bold>\<open>How the code is read.\<close> A struct is a \<open>record\<close>, an enum a \<open>datatype\<close>, a fallible function
  returns \<open>'a res\<close> (\<open>Inl\<close> an \<open>zerror\<close>). Unchecked operations (raw copies, \<^verbatim>\<open>get_unchecked\<close>) return
  an \<open>option\<close> whose \<open>None\<close> is undefined behaviour, so a theorem that gives \<open>Some\<close> is also the memory
  safety of the code. Loops that are not structural are \<open>function\<close>s with a measure, or
  \<open>partial_function (option)\<close>, where \<open>None\<close> is not returning; that \<open>skip_high\<close> and the NCount loops
  return is part of \<open>from_norm_safe\<close> and \<open>parse_ncount_sound\<close>. No fuel is used. Integers are naturals
  or words with the wrap-around written out; a \<^verbatim>\<open>usize\<close> has 64 bits. Which arm a profile build has
  switched on is an argument of the definition.

  \<^bold>\<open>What the lemmas show.\<close> The decoder side composes: any bytes give well-formed tables
  (\<open>parse_ncount_ok\<close>, \<open>from_norm_wf\<close>, \<open>seq_table_safe\<close>), well-formed tables are never left
  (\<open>seq_decode_one_safe\<close>), every copy is the byte-at-a-time copy (\<open>copy_match_ok\<close>), so
  \<open>decode_sequences\<close> is its reference and keeps the frame's state well formed. Huffman tables read from
  any bytes are well formed, their paired cells agreeing with the single ones (\<open>read_table_wf\<close>), every loop over such a table is the symbol-at-a-time
  reference (\<open>decode_stream_exact\<close>, \<open>decode_4x_exact\<close>), so the literals section is safe, and with both
  sections the whole decoder, its profile-only read-ahead loops off, is a function of its bytes (\<open>decompress_refines\<close>). The streaming decoder is
  a simulation of that function: \<open>resume\<close> maps a machine to the rest of the reference's run, every step
  keeps it, and every call that could wait forever is shown to get on (\<open>stream_gets_on\<close>). What a finished stream
  drained is the one-shot output for any dictionary or prefix (\<open>stream_done_is_one_shot\<close>); that a stream gets on,
  never fails on an accepted input and that its errors are final holds without dictionary and prefix, against the one-shot decoder
  that verifies checksums, for the stream always does, and the stream may refuse matches from a prefix into
  output it has dropped. The encoder side
  composes to the round trip: codes (\<open>coded_pass_decodes\<close>), steps (\<open>fse_step_inverse\<close>), bits
  (\<open>bit_fields_roundtrip\<close>), table headers (\<open>ncount_roundtrip\<close>), section (\<open>seq_section_roundtrip\<close>). Literals go the
  same way: any histogram gives a complete code (\<open>huffman_code_built\<close>), both emitters write
  the same bytes (\<open>literal_emitters_agree\<close>), which decode with the table of the same weights
  (\<open>literal_stream_roundtrip\<close>). A dictionary loaded from any bytes meets what the decoder assumes of one
  (\<open>dictionary_load_safe\<close>), so \<open>decompress_refines\<close> extends to it (\<open>dictionary_decode_exact\<close>).

  \<^bold>\<open>Bounds.\<close> \<open>seq_section_roundtrip\<close> asks that the extra bits of a sequence are at most 57, what one
  reload guarantees; the encoder allows 63, and the decoder may misread the rest. \<open>ncount_roundtrip\<close> is about headers of at most 160
  probabilities, the last not zero, for tables of 5 to 9 bits, and a byte after the header; \<open>from_norm_complete\<close> about
  the same tables, where counts that are all low are refused. \<open>parse_ncount_sound\<close> holds for any limits, and gives counts
  up to their low 16 bits, the counts themselves up to 14 bits. \<open>seekable_seeks\<close> asks that chunks and frames have
  32-bit sizes and that the table does, since a larger one is written with a wrapped size. \<open>block_pre\<close> keeps sizes below \<open>2 ^ 62\<close>, so that the sign tests of the fused
  predicate are exact; every 64-bit allocation is smaller. The frame theorems ask that the input, at 128 KiB of output per byte,
  stays below \<open>2 ^ 61\<close>, some 16 TiB of input; \<open>stream_pre\<close> asks the same of a stream. The streaming decoder has no
  output cap, so its reference runs under \<open>NO_CAP\<close>, which no content size reaches. \<open>blocks_ref\<close> and \<open>frames_ref\<close> end because every block and frame header
  takes bytes.

  \<^bold>\<open>Not modelled.\<close> Instrumentation (\<^verbatim>\<open>prof.rs\<close>, the arm switches, counters), buffer pools and
  recycled allocations, prefetches, the ISA twins (the same source compiled for another target),
  the match finders and the choice of literals and table modes, the streaming compressor, the threaded interface,
  the state of a streaming decoder after an error,
  training a dictionary and the table states it caches, writing a Huffman tree and choosing the form of the literals section,
  the command line. \<^verbatim>\<open>PROJECT.json\<close> lists every component with its
  status.
\<close>

end
